(* ===== verification/Prelude.thy ===== *)
theory Prelude
  imports Main "HOL-Library.AList" "HOL-Library.Multiset"
begin

text \<open>
  Shared vocabulary of the development: the Python exceptions the modelled code raises,
  results that carry the state left behind when an operation raises, Python dictionaries as
  association lists in insertion order, and the integer arithmetic the components share.
\<close>

section \<open>Exceptions and results\<close>

text \<open>
  The exception classes the code raises.  Messages are diagnostic text and are not modelled.
\<close>

datatype py_error =
    ValueError | KeyError | IndexError | TypeError | AttributeError | RuntimeError | AssertionError
  | NotImplementedError | OutOfCapacity | TimeoutError | StopIteration
  | InvalidRequestError | SaturatedError | RecipeError | ShardError | RankOwnership
  | SafetensorsError | CheckpointError | CollectivesError | TopologyError | ZeroDivisionError | OverflowError

type_synonym 'a pure_result = "py_error + 'a"

text \<open>
  A method that may raise returns the object's state in both cases: an exception does not undo
  the mutations made before it.
\<close>

type_synonym ('s, 'a) result = "(py_error + 'a) \<times> 's"

definition rbind :: "'e + 'a \<Rightarrow> ('a \<Rightarrow> 'e + 'b) \<Rightarrow> 'e + 'b" where
  "rbind m f = (case m of Inl e \<Rightarrow> Inl e | Inr x \<Rightarrow> f x)"

lemma rbind_simps [simp]:
  "rbind (Inl e) f = Inl e"
  "rbind (Inr x) f = f x"
  by (simp_all add: rbind_def)

lemma rbind_Inr_iff: "rbind m f = Inr y \<longleftrightarrow> (\<exists>x. m = Inr x \<and> f x = Inr y)"
  by (cases m) auto

lemma rbind_cong [fundef_cong]:
  "m = m' \<Longrightarrow> (\<And>x. m' = Inr x \<Longrightarrow> f x = f' x) \<Longrightarrow> rbind m f = rbind m' f'"
  by (cases m') auto

text \<open>A list comprehension whose body may raise: elements are evaluated left to right.\<close>

fun rmap :: "('a \<Rightarrow> 'e + 'b) \<Rightarrow> 'a list \<Rightarrow> 'e + 'b list" where
  "rmap f [] = Inr []"
| "rmap f (x # xs) = rbind (f x) (\<lambda>y. rbind (rmap f xs) (\<lambda>ys. Inr (y # ys)))"

lemma rmap_cong [fundef_cong]:
  "xs = ys \<Longrightarrow> (\<And>x. x \<in> set ys \<Longrightarrow> f x = g x) \<Longrightarrow> rmap f xs = rmap g ys"
  by (induction xs arbitrary: ys) auto

lemma rmap_Inr: "rmap (\<lambda>x. Inr (f x)) xs = Inr (map f xs)"
  by (induction xs) auto

lemma rmap_all_Inr: "(\<And>x. x \<in> set xs \<Longrightarrow> f x = Inr (g x)) \<Longrightarrow> rmap f xs = Inr (map g xs)"
  by (induction xs) auto

lemma rmap_length: "rmap f xs = Inr ys \<Longrightarrow> length ys = length xs"
  by (induction xs arbitrary: ys) (auto simp: rbind_Inr_iff)

lemma rmap_nth: "rmap f xs = Inr ys \<Longrightarrow> i < length xs \<Longrightarrow> f (xs ! i) = Inr (ys ! i)"
proof (induction xs arbitrary: ys i)
  case (Cons x xs)
  then show ?case by (cases i) (auto simp: rbind_Inr_iff)
qed simp

section \<open>Dictionaries\<close>

text \<open>
  A Python \<open>dict\<close> keeps insertion order: assigning an existing key keeps its place, a new
  key goes to the end, deletion closes the gap.  This is what \<open>AList.update\<close> and
  \<open>AList.delete\<close> do on an association list with distinct keys.
\<close>

type_synonym ('k, 'v) dict = "('k \<times> 'v) list"

abbreviation dget :: "('k, 'v) dict \<Rightarrow> 'k \<Rightarrow> 'v option" where
  "dget \<equiv> map_of"

abbreviation dset :: "'k \<Rightarrow> 'v \<Rightarrow> ('k, 'v) dict \<Rightarrow> ('k, 'v) dict" where
  "dset \<equiv> AList.update"

abbreviation ddel :: "'k \<Rightarrow> ('k, 'v) dict \<Rightarrow> ('k, 'v) dict" where
  "ddel \<equiv> AList.delete"

abbreviation dkeys :: "('k, 'v) dict \<Rightarrow> 'k list" where
  "dkeys d \<equiv> map fst d"

definition dict_ok :: "('k, 'v) dict \<Rightarrow> bool" where
  "dict_ok d \<longleftrightarrow> distinct (dkeys d)"

named_theorems dict_simps

lemma dict_ok_Nil [simp]: "dict_ok []"
  by (simp add: dict_ok_def)

lemma dict_ok_dset [simp]: "dict_ok d \<Longrightarrow> dict_ok (dset k v d)"
  by (simp add: dict_ok_def AList.distinct_update)

lemma dict_ok_ddel [simp]: "dict_ok d \<Longrightarrow> dict_ok (ddel k d)"
  by (simp add: dict_ok_def AList.distinct_delete)

lemma dget_dset [dict_simps]: "dget (dset k v d) = (dget d)(k \<mapsto> v)"
  by (rule AList.update_conv')

lemma dget_ddel [dict_simps]: "dget (ddel k d) = (dget d)(k := None)"
  by (rule AList.delete_conv')

lemma dkeys_dom: "set (dkeys d) = dom (dget d)"
  by (simp add: dom_map_of_conv_image_fst)

lemma dset_dom [simp]: "dom (dget (dset k v d)) = insert k (dom (dget d))"
  by (simp add: dget_dset)

lemma ddel_dom [simp]: "dom (dget (ddel k d)) = dom (dget d) - {k}"
  by (simp add: dget_ddel)


lemma dget_Some_key: "dget d k = Some v \<Longrightarrow> k \<in> set (dkeys d)"
  by (auto dest!: map_of_SomeD intro: rev_image_eqI)

lemma dget_Some_in: "dict_ok d \<Longrightarrow> dget d k = Some v \<longleftrightarrow> (k, v) \<in> set d"
  by (simp add: dict_ok_def)

lemma dset_append_new: "k \<notin> set (dkeys d) \<Longrightarrow> dset k v d = d @ [(k, v)]"
  by (induction d) auto

lemma dset_keys_old: "k \<in> set (dkeys d) \<Longrightarrow> dkeys (dset k v d) = dkeys d"
  by (induction d) auto

lemma ddel_absent: "k \<notin> set (dkeys d) \<Longrightarrow> ddel k d = d"
  by (induction d) auto

lemma dset_new: "dget d k = None \<Longrightarrow> dset k v d = d @ [(k, v)]"
  by (simp add: dset_append_new map_of_eq_None_iff)

lemma ddel_none: "dget d k = None \<Longrightarrow> ddel k d = d"
  by (simp add: ddel_absent map_of_eq_None_iff)

lemma dom_empty_iff: "dom (dget d) = {} \<longleftrightarrow> d = []"
  by (simp add: dom_map_of_conv_image_fst)

lemma ddel_append: "ddel k (d @ e) = ddel k d @ ddel k e"
  by (induction d) auto

lemma length_ddel:
  "dict_ok d \<Longrightarrow> k \<in> set (dkeys d) \<Longrightarrow> length (ddel k d) = length d - 1"
proof (induction d)
  case (Cons p d)
  obtain a b where p: "p = (a, b)" by force
  show ?case
  proof (cases "k = a")
    case True
    with Cons.prems p have "k \<notin> set (dkeys d)" by (auto simp: dict_ok_def)
    with True p show ?thesis by (simp add: ddel_absent)
  next
    case False
    with Cons.prems p have "k \<in> set (dkeys d)" "dict_ok d" by (auto simp: dict_ok_def)
    then have "length (ddel k d) = length d - 1" "d \<noteq> []" using Cons.IH by auto
    with False p show ?thesis by (cases d) auto
  qed
qed simp

lemma length_dset_old: "k \<in> set (dkeys d) \<Longrightarrow> length (dset k v d) = length d"
  by (induction d) auto

lemma length_dset_new: "k \<notin> set (dkeys d) \<Longrightarrow> length (dset k v d) = Suc (length d)"
  by (simp add: dset_append_new)

lemma set_ddel: "set (ddel k d) = {p \<in> set d. fst p \<noteq> k}"
  by (induction d) auto

lemma set_dkeys_ddel: "set (dkeys (ddel k d)) = set (dkeys d) - {k}"
  by (induction d) auto

lemma set_dkeys_dset: "set (dkeys (dset k v d)) = insert k (set (dkeys d))"
  by (induction d) auto

lemma set_dset: "dict_ok d \<Longrightarrow> set (dset k v d) = insert (k, v) {p \<in> set d. fst p \<noteq> k}"
  by (induction d) (auto simp: dict_ok_def rev_image_eqI)

section \<open>Integer arithmetic\<close>

text \<open>The ceiling division \<open>(a + b - 1) // b\<close> of the block computations.\<close>

definition ceil_div :: "int \<Rightarrow> int \<Rightarrow> int" where
  "ceil_div a b = (a + b - 1) div b"

lemma ceil_div_bounds:
  assumes "0 < b"
  shows "a \<le> ceil_div a b * b" and "ceil_div a b * b < a + b"
proof -
  have eq: "(a + b - 1) div b * b + (a + b - 1) mod b = a + b - 1"
    by simp
  have "0 \<le> (a + b - 1) mod b" "(a + b - 1) mod b < b" using assms by simp_all
  with eq show "a \<le> ceil_div a b * b" "ceil_div a b * b < a + b"
    unfolding ceil_div_def by linarith+
qed

lemma ceil_div_mult: "0 < b \<Longrightarrow> ceil_div (k * b) b = k"
proof -
  assume b: "0 < b"
  have "ceil_div (k * b) b * b < k * b + b" "k * b \<le> ceil_div (k * b) b * b"
    using ceil_div_bounds[OF b] by auto
  then have "ceil_div (k * b) b * b < (k + 1) * b" "k * b \<le> ceil_div (k * b) b * b"
    by (simp_all add: algebra_simps)
  with b show ?thesis by (simp add: mult_less_cancel_right mult_le_cancel_right)
qed

lemma ceil_div_mono: "0 < b \<Longrightarrow> a \<le> a' \<Longrightarrow> ceil_div a b \<le> ceil_div a' b"
  by (simp add: ceil_div_def zdiv_mono1)

lemma ceil_div_nonneg: "0 < b \<Longrightarrow> 0 \<le> a \<Longrightarrow> 0 \<le> ceil_div a b"
  by (simp add: ceil_div_def pos_imp_zdiv_nonneg_iff)

lemma ceil_div_pos: "0 < b \<Longrightarrow> 0 < a \<Longrightarrow> 0 < ceil_div a b"
  using ceil_div_bounds(1)[of b a] by (smt (verit) mult_nonneg_nonneg mult_neg_pos mult_eq_0_iff)

section \<open>Lists\<close>

lemma insort_remove_sorted:
  "sorted (x # xs) \<Longrightarrow> insort x xs = x # xs"
  by (cases xs) auto

text \<open>Pushing a sorted run of least elements back in front of a sorted list.\<close>

lemma fold_insort_permutation:
  "mset (fold insort xs ys) = mset xs + mset ys"
  by (induction xs arbitrary: ys) auto

lemma fold_insort_sorted: "sorted ys \<Longrightarrow> sorted (fold insort xs ys)"
  by (induction xs arbitrary: ys) (auto simp: sorted_insort)

lemma fold_insort_append:
  assumes "sorted (xs @ ys)"
  shows "fold insort xs ys = xs @ ys"
proof -
  have "sort (xs @ ys) = fold insort xs ys"
  proof (rule properties_for_sort)
    show "mset (fold insort xs ys) = mset (xs @ ys)"
      by (simp add: fold_insort_permutation)
    show "sorted (fold insort xs ys)"
      using assms by (simp add: fold_insort_sorted sorted_append)
  qed
  then show ?thesis
    using assms by (simp add: sorted_sort_id)
qed

end
