(* ===== verification/Blocks.thy ===== *)
theory Blocks
  imports Prelude
begin

text \<open>
  Model of \<open>runtime/blocks.py\<close>: the paged KV block allocator, the recurrent-state slot
  allocator and the coordinator that pairs both per sequence.  The two allocators meet one
  contract, the locale \<open>owned_pool\<close>; the coordinator's lemmas are proved from it and are in
  turn the contract \<open>sequence_store\<close> the scheduler relies on.
\<close>

section \<open>Free-id heaps\<close>

text \<open>
  The allocators keep their free ids in a \<open>heapq\<close> min-heap.  The order inside a heap is not
  observable: the code only takes \<open>len\<close>, pops the least element and pushes.  The model keeps
  the heap's elements in ascending order, so that a pop takes the head and a push is an ordered
  insertion; \<open>list(range(capacity))\<close> is already in that order.
\<close>

definition heappush :: "int \<Rightarrow> int list \<Rightarrow> int list" where
  "heappush x h = insort x h"

fun heappop :: "int list \<Rightarrow> int pure_result \<times> int list" where
  "heappop [] = (Inl IndexError, [])"
| "heappop (x # h) = (Inr x, h)"

text \<open>\<open>[heapq.heappop(h) for _ in range(count)]\<close>\<close>

fun heappop_many :: "nat \<Rightarrow> int list \<Rightarrow> int list pure_result \<times> int list" where
  "heappop_many 0 h = (Inr [], h)"
| "heappop_many (Suc n) h =
     (case heappop h of
        (Inl e, h1) \<Rightarrow> (Inl e, h1)
      | (Inr x, h1) \<Rightarrow>
          (case heappop_many n h1 of
             (Inl e, h2) \<Rightarrow> (Inl e, h2)
           | (Inr xs, h2) \<Rightarrow> (Inr (x # xs), h2)))"

lemma heappop_many_take:
  "n \<le> length h \<Longrightarrow> heappop_many n h = (Inr (take n h), drop n h)"
proof (induction n arbitrary: h)
  case (Suc n)
  then show ?case by (cases h) auto
qed simp

section \<open>The two allocators\<close>

text \<open>
  \<open>KVBlockAllocator\<close> and \<open>StateAllocator\<close> keep the same three fields; \<open>_owner\<close> is a
  dictionary, so it keeps its insertion order.
\<close>

record pool =
  capacity :: int
  free_ids :: "int list"
  owner :: "(int, int) dict"

definition pool_init :: "int \<Rightarrow> pool pure_result" where
  "pool_init cap =
     (if cap < 0 then Inl ValueError
      else Inr \<lparr>capacity = cap, free_ids = [0..cap - 1], owner = []\<rparr>)"

definition free_count :: "pool \<Rightarrow> int" where
  "free_count p = int (length (free_ids p))"

definition used_count :: "pool \<Rightarrow> int" where
  "used_count p = capacity p - int (length (free_ids p))"

definition owned :: "int \<Rightarrow> pool \<Rightarrow> int list" where
  "owned sid p = map fst (filter (\<lambda>(b, s). s = sid) (owner p))"

text \<open>\<open>KVBlockAllocator.allocate\<close>; \<open>range(count)\<close> is empty for a negative count.\<close>

definition kv_allocate :: "int \<Rightarrow> int \<Rightarrow> pool \<Rightarrow> (pool, int list) result" where
  "kv_allocate sid cnt p =
     (if cnt > int (length (free_ids p)) then (Inl OutOfCapacity, p)
      else (case heappop_many (nat cnt) (free_ids p) of
              (Inl e, h) \<Rightarrow> (Inl e, p\<lparr>free_ids := h\<rparr>)
            | (Inr ids, h) \<Rightarrow>
                (Inr ids, p\<lparr>free_ids := h, owner := fold (\<lambda>b d. dset b sid d) ids (owner p)\<rparr>)))"

text \<open>The validation loop of \<open>KVBlockAllocator.free\<close>, with its \<open>seen\<close> set.\<close>

fun kv_free_check :: "int \<Rightarrow> pool \<Rightarrow> int set \<Rightarrow> int list \<Rightarrow> py_error option" where
  "kv_free_check sid p seen [] = None"
| "kv_free_check sid p seen (b # bs) =
     (if b \<in> seen then Some ValueError
      else if dget (owner p) b \<noteq> Some sid then Some ValueError
      else kv_free_check sid p (insert b seen) bs)"

definition release_id :: "int \<Rightarrow> pool \<Rightarrow> pool" where
  "release_id b p = p\<lparr>owner := ddel b (owner p), free_ids := heappush b (free_ids p)\<rparr>"

definition kv_free :: "int \<Rightarrow> int list \<Rightarrow> pool \<Rightarrow> (pool, unit) result" where
  "kv_free sid ids p =
     (case kv_free_check sid p {} ids of
        Some e \<Rightarrow> (Inl e, p)
      | None \<Rightarrow> (Inr (), fold release_id ids p))"

text \<open>\<open>StateAllocator.allocate\<close> and \<open>StateAllocator.free\<close>\<close>

definition state_allocate :: "int \<Rightarrow> pool \<Rightarrow> (pool, int) result" where
  "state_allocate sid p =
     (if free_ids p = [] then (Inl OutOfCapacity, p)
      else (case heappop (free_ids p) of
              (Inl e, h) \<Rightarrow> (Inl e, p\<lparr>free_ids := h\<rparr>)
            | (Inr slot, h) \<Rightarrow> (Inr slot, p\<lparr>free_ids := h, owner := dset slot sid (owner p)\<rparr>)))"

definition state_free :: "int \<Rightarrow> int option \<Rightarrow> pool \<Rightarrow> (pool, unit) result" where
  "state_free sid slot p =
     (case slot of
        None \<Rightarrow> (Inr (), p)
      | Some s \<Rightarrow>
          (if dget (owner p) s \<noteq> Some sid then (Inl ValueError, p)
           else (Inr (), release_id s p)))"

section \<open>The contract of an allocator\<close>

text \<open>
  What the coordinator relies on.  A request \<open>r\<close> asks for \<open>amount r\<close> ids and is answered
  with a handle \<open>h\<close> that stands for the ids \<open>ids_of h\<close>; \<open>owners\<close> says who owns an id and
  \<open>room\<close> how many ids are free.  A refused operation leaves the pool as it was.
\<close>

locale owned_pool =
  fixes inv :: "'p \<Rightarrow> bool"
    and owners :: "'p \<Rightarrow> int \<Rightarrow> int option"
    and room :: "'p \<Rightarrow> int"
    and amount :: "'r \<Rightarrow> int"
    and ids_of :: "'h \<Rightarrow> int list"
    and acquire :: "int \<Rightarrow> 'r \<Rightarrow> 'p \<Rightarrow> (py_error + 'h) \<times> 'p"
    and release :: "int \<Rightarrow> 'h \<Rightarrow> 'p \<Rightarrow> (py_error + unit) \<times> 'p"
  assumes acquire_ok: "inv p \<Longrightarrow> 0 \<le> amount r \<Longrightarrow> amount r \<le> room p \<Longrightarrow>
      \<exists>h p'. acquire s r p = (Inr h, p') \<and> inv p' \<and> distinct (ids_of h)
        \<and> int (length (ids_of h)) = amount r
        \<and> (\<forall>b \<in> set (ids_of h). owners p b = None)
        \<and> owners p' = (\<lambda>b. if b \<in> set (ids_of h) then Some s else owners p b)
        \<and> room p' = room p - amount r"
    and acquire_full: "room p < amount r \<Longrightarrow> acquire s r p = (Inl OutOfCapacity, p)"
    and release_ok: "inv p \<Longrightarrow> distinct (ids_of h) \<Longrightarrow>
      (\<And>b. b \<in> set (ids_of h) \<Longrightarrow> owners p b = Some s) \<Longrightarrow>
      \<exists>p'. release s h p = (Inr (), p') \<and> inv p'
        \<and> owners p' = (\<lambda>b. if b \<in> set (ids_of h) then None else owners p b)
        \<and> room p' = room p + int (length (ids_of h))"
    and release_bad: "\<not> (distinct (ids_of h) \<and> (\<forall>b \<in> set (ids_of h). owners p b = Some s)) \<Longrightarrow>
      release s h p = (Inl ValueError, p)"
    and release_acquired: "inv p \<Longrightarrow> 0 \<le> amount r \<Longrightarrow> acquire s r p = (Inr h, p') \<Longrightarrow>
      release s h p' = (Inr (), p)"
begin

lemma acquire_InrD:
  assumes "inv p" "0 \<le> amount r" "acquire s r p = (Inr h, p')"
  shows "inv p'" "distinct (ids_of h)" "int (length (ids_of h)) = amount r"
    "\<And>b. b \<in> set (ids_of h) \<Longrightarrow> owners p b = None"
    "owners p' = (\<lambda>b. if b \<in> set (ids_of h) then Some s else owners p b)"
    "room p' = room p - amount r" "amount r \<le> room p"
proof -
  have le: "amount r \<le> room p"
    using assms(3) acquire_full[of p r s] by (cases "room p < amount r") auto
  from acquire_ok[OF assms(1,2) le, of s] assms(3)
  show "inv p'" "distinct (ids_of h)" "int (length (ids_of h)) = amount r"
    "\<And>b. b \<in> set (ids_of h) \<Longrightarrow> owners p b = None"
    "owners p' = (\<lambda>b. if b \<in> set (ids_of h) then Some s else owners p b)"
    "room p' = room p - amount r" by auto
  show "amount r \<le> room p" by (rule le)
qed

lemma acquire_InlD:
  assumes "inv p" "0 \<le> amount r" "acquire s r p = (Inl e, p')"
  shows "p' = p" "e = OutOfCapacity" "room p < amount r"
proof -
  have lt: "room p < amount r"
    using assms acquire_ok[OF assms(1,2), of s] by (cases "room p < amount r") auto
  from acquire_full[OF lt, of s] assms(3) show "p' = p" "e = OutOfCapacity" by auto
  show "room p < amount r" by (rule lt)
qed

lemma release_InlD: "inv p \<Longrightarrow> release s h p = (Inl e, p') \<Longrightarrow> p' = p \<and> e = ValueError"
  using release_bad[of h p s] release_ok[of p h s] by fastforce

lemma release_inv: "inv p \<Longrightarrow> release s h p = (r, p') \<Longrightarrow> inv p'"
  using release_bad[of h p s] release_ok[of p h s] by fastforce

lemma other_owner_kept:
  assumes "inv p" "0 \<le> amount r" "acquire s r p = (Inr h, p')" "owners p b = Some t"
  shows "owners p' b = Some t"
  using acquire_InrD(4,5)[OF assms(1,2,3)] assms(4) by auto

end

section \<open>The allocators meet the contract\<close>

definition pool_ok :: "pool \<Rightarrow> bool" where
  "pool_ok p \<longleftrightarrow> 0 \<le> capacity p \<and> sorted (free_ids p) \<and> distinct (free_ids p) \<and> dict_ok (owner p)
     \<and> set (free_ids p) \<inter> dom (dget (owner p)) = {}
     \<and> set (free_ids p) \<union> dom (dget (owner p)) = {0..<capacity p}"

named_theorems pool_simps

lemma pool_ok_init: "pool_init cap = Inr p \<Longrightarrow> pool_ok p"
  by (auto simp: pool_init_def pool_ok_def split: if_splits)

lemma fold_dset_get:
  "dget (fold (\<lambda>b d. dset b s d) ids d) = (\<lambda>b. if b \<in> set ids then Some s else dget d b)"
  by (induction ids arbitrary: d) (auto simp: fun_eq_iff dict_simps)

lemma fold_dset_ok: "dict_ok d \<Longrightarrow> dict_ok (fold (\<lambda>b d. dset b s d) ids d)"
  by (induction ids arbitrary: d) auto

lemma fold_dset_dom [simp]:
  "dom (dget (fold (\<lambda>b d. dset b s d) ids d)) = set ids \<union> dom (dget d)"
  by (induction ids arbitrary: d) auto

lemma fold_dset_new:
  "distinct ids \<Longrightarrow> set ids \<inter> dom (dget d) = {} \<Longrightarrow>
   fold (\<lambda>b d. dset b s d) ids d = d @ map (\<lambda>b. (b, s)) ids"
proof (induction ids arbitrary: d)
  case (Cons b ids)
  then have "dset b s d = d @ [(b, s)]" by (intro dset_new) (auto simp: dom_def)
  with Cons show ?case by auto
qed simp

lemma release_id_fields [pool_simps]:
  "owner (release_id b p) = ddel b (owner p)"
  "free_ids (release_id b p) = insort b (free_ids p)"
  "capacity (release_id b p) = capacity p"
  by (simp_all add: release_id_def heappush_def)

lemma fold_release_fields [pool_simps]:
  "owner (fold release_id ids p) = fold ddel ids (owner p)"
  "free_ids (fold release_id ids p) = fold insort ids (free_ids p)"
  "capacity (fold release_id ids p) = capacity p"
  by (induction ids arbitrary: p) (simp_all add: pool_simps)

lemma fold_ddel_get:
  "dget (fold ddel ids d) = (\<lambda>b. if b \<in> set ids then None else dget d b)"
  by (induction ids arbitrary: d) (auto simp: fun_eq_iff dict_simps)

lemma fold_ddel_ok: "dict_ok d \<Longrightarrow> dict_ok (fold ddel ids d)"
  by (induction ids arbitrary: d) auto

lemma fold_ddel_dom [simp]: "dom (dget (fold ddel ids d)) = dom (dget d) - set ids"
  by (induction ids arbitrary: d) auto

lemma fold_ddel_append: "fold ddel ks (d @ e) = fold ddel ks d @ fold ddel ks e"
  by (induction ks arbitrary: d e) (auto simp: ddel_append)

lemma fold_ddel_absent: "set ks \<inter> dom (dget d) = {} \<Longrightarrow> fold ddel ks d = d"
  by (induction ks) (auto simp: ddel_none domIff)

lemma fold_ddel_suffix:
  assumes "set ids \<inter> dom (dget d) = {}"
  shows "fold ddel ids (d @ map (\<lambda>b. (b, s)) ids) = d"
proof -
  have "dom (dget (fold ddel ids (map (\<lambda>b. (b, s)) ids))) = {}"
    unfolding fold_ddel_dom by (auto dest: map_of_SomeD)
  then have "fold ddel ids (map (\<lambda>b. (b, s)) ids) = []"
    by (rule iffD1[OF dom_empty_iff])
  with assms show ?thesis by (simp add: fold_ddel_append fold_ddel_absent)
qed

lemma pool_eqI: "capacity p = capacity q \<Longrightarrow> free_ids p = free_ids q \<Longrightarrow> owner p = owner q \<Longrightarrow>
    p = (q :: pool)"
  by simp

lemma kv_free_check_iff:
  "kv_free_check sid p seen ids = None \<longleftrightarrow>
     distinct ids \<and> set ids \<inter> seen = {} \<and> (\<forall>b \<in> set ids. dget (owner p) b = Some sid)"
  by (induction ids arbitrary: seen) auto

lemma kv_free_check_error: "kv_free_check sid p seen ids = Some e \<Longrightarrow> e = ValueError"
  by (induction ids arbitrary: seen) (auto split: if_splits)

lemma pool_ok_take:
  assumes ok: "pool_ok p" and n: "n \<le> length (free_ids p)"
    and p': "p' = p\<lparr>free_ids := drop n (free_ids p),
                    owner := fold (\<lambda>b d. dset b s d) (take n (free_ids p)) (owner p)\<rparr>"
  shows "pool_ok p'"
proof -
  let ?t = "take n (free_ids p)" and ?d = "drop n (free_ids p)"
  have split: "set (free_ids p) = set ?t \<union> set ?d" by (metis append_take_drop_id set_append)
  have disj: "set ?t \<inter> set ?d = {}"
    using ok by (simp add: pool_ok_def set_take_disj_set_drop_if_distinct)
  show ?thesis
    using ok split disj unfolding p' pool_ok_def
    by (auto simp: fold_dset_ok)
qed

lemma pool_ok_release:
  assumes "pool_ok p" "dget (owner p) b = Some s"
  shows "pool_ok (release_id b p)"
proof -
  have "b \<in> dom (dget (owner p))" using assms(2) by (simp add: domI)
  with assms(1) show ?thesis
    unfolding pool_ok_def
    by (auto simp: pool_simps sorted_insort distinct_insort set_insort_key
       )
qed

lemma pool_ok_release_many:
  "pool_ok p \<Longrightarrow> distinct ids \<Longrightarrow> (\<And>b. b \<in> set ids \<Longrightarrow> dget (owner p) b = Some s) \<Longrightarrow>
   pool_ok (fold release_id ids p)"
proof (induction ids arbitrary: p)
  case (Cons b ids)
  have "pool_ok (release_id b p)" using Cons.prems by (intro pool_ok_release) auto
  moreover have "dget (owner (release_id b p)) c = Some s" if "c \<in> set ids" for c
    using Cons.prems that by (auto simp: pool_simps dict_simps)
  ultimately show ?case using Cons.prems Cons.IH by simp
qed simp

lemma length_fold_insort: "length (fold insort ids xs) = length ids + length xs"
  by (induction ids arbitrary: xs) auto

lemma pool_take_give_back:
  assumes ok: "pool_ok p" and n: "n \<le> length (free_ids p)"
  shows "fold release_id (take n (free_ids p))
           (p\<lparr>free_ids := drop n (free_ids p),
              owner := fold (\<lambda>b d. dset b s d) (take n (free_ids p)) (owner p)\<rparr>) = p"
proof (rule pool_eqI)
  have ni: "set (take n (free_ids p)) \<inter> dom (dget (owner p)) = {}"
    using ok set_take_subset[of n "free_ids p"] by (auto simp: pool_ok_def)
  have d: "distinct (take n (free_ids p))" using ok by (simp add: pool_ok_def)
  show "owner (fold release_id (take n (free_ids p))
           (p\<lparr>free_ids := drop n (free_ids p),
              owner := fold (\<lambda>b d. dset b s d) (take n (free_ids p)) (owner p)\<rparr>)) = owner p"
    using ni d by (simp add: pool_simps fold_dset_new fold_ddel_suffix)
  have "sorted (take n (free_ids p) @ drop n (free_ids p))" using ok by (simp add: pool_ok_def)
  then show "free_ids (fold release_id (take n (free_ids p))
           (p\<lparr>free_ids := drop n (free_ids p),
              owner := fold (\<lambda>b d. dset b s d) (take n (free_ids p)) (owner p)\<rparr>)) = free_ids p"
    by (simp add: pool_simps fold_insort_append)
qed (simp add: pool_simps)

lemma kv_allocate_eq:
  "n \<le> int (length (free_ids p)) \<Longrightarrow> kv_allocate sid n p =
     (Inr (take (nat n) (free_ids p)),
      p\<lparr>free_ids := drop (nat n) (free_ids p),
        owner := fold (\<lambda>b d. dset b sid d) (take (nat n) (free_ids p)) (owner p)\<rparr>)"
  by (simp add: kv_allocate_def heappop_many_take)

lemma state_allocate_eq:
  "free_ids p = x # h \<Longrightarrow> state_allocate sid p =
     (Inr x, p\<lparr>free_ids := h, owner := dset x sid (owner p)\<rparr>)"
  by (simp add: state_allocate_def)

interpretation kvp: owned_pool pool_ok "\<lambda>p. dget (owner p)" free_count "\<lambda>n. n" "\<lambda>ids. ids"
  kv_allocate kv_free
proof
  fix p :: pool and r s :: int
  assume ok: "pool_ok p" and r: "0 \<le> r" "r \<le> free_count p"
  have n: "nat r \<le> length (free_ids p)" using r by (simp add: free_count_def)
  have "\<forall>b \<in> set (take (nat r) (free_ids p)). dget (owner p) b = None"
    using ok set_take_subset[of "nat r" "free_ids p"]
    by (auto simp: pool_ok_def)
  with ok r n pool_ok_take[OF ok n refl, of s]
  show "\<exists>h p'. kv_allocate s r p = (Inr h, p') \<and> pool_ok p' \<and> distinct h
        \<and> int (length h) = r \<and> (\<forall>b \<in> set h. dget (owner p) b = None)
        \<and> dget (owner p') = (\<lambda>b. if b \<in> set h then Some s else dget (owner p) b)
        \<and> free_count p' = free_count p - r"
    by (simp add: kv_allocate_eq free_count_def fold_dset_get pool_ok_def[of p])
next
  fix p :: pool and r s :: int
  assume "free_count p < r"
  then show "kv_allocate s r p = (Inl OutOfCapacity, p)"
    by (simp add: kv_allocate_def free_count_def)
next
  fix p :: pool and h s
  assume "pool_ok p" "distinct h" "\<And>b. b \<in> set h \<Longrightarrow> dget (owner p) b = Some s"
  then show "\<exists>p'. kv_free s h p = (Inr (), p') \<and> pool_ok p'
        \<and> dget (owner p') = (\<lambda>b. if b \<in> set h then None else dget (owner p) b)
        \<and> free_count p' = free_count p + int (length h)"
    by (simp add: kv_free_def kv_free_check_iff[THEN iffD2] pool_ok_release_many pool_simps
        fold_ddel_get free_count_def length_fold_insort)
next
  fix p :: pool and h s
  assume "\<not> (distinct h \<and> (\<forall>b \<in> set h. dget (owner p) b = Some s))"
  then have "kv_free_check s p {} h \<noteq> None" by (auto simp: kv_free_check_iff)
  then show "kv_free s h p = (Inl ValueError, p)"
    by (auto simp: kv_free_def dest: kv_free_check_error)
next
  fix p p' :: pool and r s h
  assume ok: "pool_ok p" and r: "0 \<le> r" and a: "kv_allocate s r p = (Inr h, p')"
  have le: "r \<le> int (length (free_ids p))"
    using a by (auto simp: kv_allocate_def split: if_splits)
  then have n: "nat r \<le> length (free_ids p)" using r by simp
  have "kv_free_check s p' {} h = None"
    using a le ok by (auto simp: kv_allocate_eq kv_free_check_iff fold_dset_get pool_ok_def)
  moreover have "fold release_id h p' = p"
    using a le pool_take_give_back[OF ok n, of s] by (auto simp: kv_allocate_eq)
  ultimately show "kv_free s h p' = (Inr (), p)" by (simp add: kv_free_def)
qed

interpretation stp: owned_pool pool_ok "\<lambda>p. dget (owner p)" free_count "\<lambda>(_ :: unit). 1"
  "\<lambda>slot. [slot]" "\<lambda>sid (_ :: unit). state_allocate sid" "\<lambda>sid slot. state_free sid (Some slot)"
proof
  fix p :: pool and r :: unit and s :: int
  assume ok: "pool_ok p" and r: "(1 :: int) \<le> free_count p"
  then obtain x h where f: "free_ids p = x # h" by (cases "free_ids p") (auto simp: free_count_def)
  have "pool_ok (p\<lparr>free_ids := h, owner := dset x s (owner p)\<rparr>)"
    using pool_ok_take[OF ok _ refl, of 1 s] f by simp
  moreover have "dget (owner p) x = None"
    using ok f by (auto simp: pool_ok_def)
  ultimately show "\<exists>h p'. state_allocate s p = (Inr h, p') \<and> pool_ok p' \<and> distinct [h]
        \<and> int (length [h]) = 1 \<and> (\<forall>b \<in> set [h]. dget (owner p) b = None)
        \<and> dget (owner p') = (\<lambda>b. if b \<in> set [h] then Some s else dget (owner p) b)
        \<and> free_count p' = free_count p - 1"
    using f by (auto simp: state_allocate_eq free_count_def dict_simps fun_eq_iff)
next
  fix p :: pool and r :: unit and s :: int
  assume "free_count p < 1"
  then show "state_allocate s p = (Inl OutOfCapacity, p)"
    by (simp add: state_allocate_def free_count_def)
next
  fix p :: pool and h s
  assume "pool_ok p" "distinct [h]" "\<And>b. b \<in> set [h] \<Longrightarrow> dget (owner p) b = Some s"
  then show "\<exists>p'. state_free s (Some h) p = (Inr (), p') \<and> pool_ok p'
        \<and> dget (owner p') = (\<lambda>b. if b \<in> set [h] then None else dget (owner p) b)
        \<and> free_count p' = free_count p + int (length [h])"
    by (auto simp: state_free_def pool_ok_release pool_simps free_count_def dict_simps fun_eq_iff)
next
  fix p :: pool and h s
  assume "\<not> (distinct [h] \<and> (\<forall>b \<in> set [h]. dget (owner p) b = Some s))"
  then show "state_free s (Some h) p = (Inl ValueError, p)" by (simp add: state_free_def)
next
  fix p p' :: pool and r :: unit and s h
  assume ok: "pool_ok p" and a: "state_allocate s p = (Inr h, p')"
  then obtain t where f: "free_ids p = h # t" and p': "p' = p\<lparr>free_ids := t, owner := dset h s (owner p)\<rparr>"
    by (cases "free_ids p") (auto simp: state_allocate_def)
  have "fold release_id [h] p' = p"
    using pool_take_give_back[OF ok, of 1 s] f p' by simp
  then show "state_free s (Some h) p' = (Inr (), p)"
    using p' by (simp add: state_free_def dict_simps)
qed

end
