(* ===== verification/Coordinator.thy ===== *)
theory Coordinator
  imports Blocks
begin

text \<open>
  Model of \<open>HybridKVCoordinator\<close> of \<open>runtime/blocks.py\<close>: one KV allocator and one
  recurrent-state allocator, paired per sequence by a block table.  The invariant \<open>coord_ok\<close>
  says that the tables and the two owner maps describe the same ownership; every operation keeps
  it, and a refused operation changes nothing.
\<close>

section \<open>State and operations\<close>

record block_table =
  t_seq :: int
  blocks :: "int list"
  state_slot :: "int option"

definition length_tokens :: "int \<Rightarrow> block_table \<Rightarrow> int" where
  "length_tokens block_size t = int (length (blocks t)) * block_size"

record coordinator =
  kv :: pool
  state :: pool
  tables :: "(int, block_table) dict"

definition coord_init :: "int \<Rightarrow> int \<Rightarrow> coordinator pure_result" where
  "coord_init kv_capacity state_capacity =
     rbind (pool_init kv_capacity) (\<lambda>k.
     rbind (pool_init state_capacity) (\<lambda>s.
       Inr \<lparr>kv = k, state = s, tables = []\<rparr>))"

text \<open>
  The block size is at least 1 wherever the coordinator is used (the scheduler's constructor
  rejects anything else), so the floor division never divides by zero.
\<close>

definition blocks_for_tokens :: "int \<Rightarrow> int \<Rightarrow> int" where
  "blocks_for_tokens tokens block_size = (if tokens > 0 then ceil_div tokens block_size else 0)"

text \<open>
  \<open>new_sequence\<close>: the \<open>except BaseException\<close> clause gives the KV blocks back before the
  exception is raised again.
\<close>

definition new_sequence ::
  "int \<Rightarrow> int \<Rightarrow> int \<Rightarrow> bool \<Rightarrow> coordinator \<Rightarrow> (coordinator, block_table) result" where
  "new_sequence sid tokens block_size use_state c =
     (if dget (tables c) sid \<noteq> None then (Inl ValueError, c)
      else
        let kv_blocks = blocks_for_tokens tokens block_size in
        (case (if kv_blocks \<noteq> 0 then kv_allocate sid kv_blocks (kv c) else (Inr [], kv c)) of
           (Inl e, k) \<Rightarrow> (Inl e, c\<lparr>kv := k\<rparr>)
         | (Inr ids, k) \<Rightarrow>
             (case (if use_state then map_prod (map_sum id Some) id (state_allocate sid (state c))
                    else (Inr None, state c)) of
                (Inl e, s) \<Rightarrow>
                  (if ids = [] then (Inl e, c\<lparr>kv := k, state := s\<rparr>)
                   else (case kv_free sid ids k of
                           (Inl e', k') \<Rightarrow> (Inl e', c\<lparr>kv := k', state := s\<rparr>)
                         | (Inr _, k') \<Rightarrow> (Inl e, c\<lparr>kv := k', state := s\<rparr>)))
              | (Inr slot, s) \<Rightarrow>
                  let t = \<lparr>t_seq = sid, blocks = ids, state_slot = slot\<rparr> in
                  (Inr t, c\<lparr>kv := k, state := s, tables := dset sid t (tables c)\<rparr>))))"

lemma slot_result_iff [simp]:
  "map_prod (map_sum id Some) id x = (Inl e, s) \<longleftrightarrow> x = (Inl e, s)"
  "map_prod (map_sum id Some) id x = (Inr slot, s) \<longleftrightarrow> (\<exists>v. x = (Inr v, s) \<and> slot = Some v)"
  by (cases x; cases "fst x"; auto)+

definition grow :: "int \<Rightarrow> int \<Rightarrow> int \<Rightarrow> coordinator \<Rightarrow> (coordinator, unit) result" where
  "grow sid target_tokens block_size c =
     (case dget (tables c) sid of
        None \<Rightarrow> (Inl KeyError, c)
      | Some t \<Rightarrow>
          let want = blocks_for_tokens target_tokens block_size;
              have_n = int (length (blocks t)) in
          if want > have_n then
            (case kv_allocate sid (want - have_n) (kv c) of
               (Inl e, k) \<Rightarrow> (Inl e, c\<lparr>kv := k\<rparr>)
             | (Inr ids, k) \<Rightarrow>
                 (Inr (), c\<lparr>kv := k, tables := dset sid (t\<lparr>blocks := blocks t @ ids\<rparr>) (tables c)\<rparr>))
          else (Inr (), c))"

definition free_sequence :: "int \<Rightarrow> coordinator \<Rightarrow> (coordinator, unit) result" where
  "free_sequence sid c =
     (case dget (tables c) sid of
        None \<Rightarrow> (Inr (), c)
      | Some t \<Rightarrow>
          (case kv_free sid (blocks t) (kv c) of
             (Inl e, k) \<Rightarrow> (Inl e, c\<lparr>kv := k\<rparr>)
           | (Inr _, k) \<Rightarrow>
               (case state_free sid (state_slot t) (state c) of
                  (Inl e, s) \<Rightarrow> (Inl e, c\<lparr>kv := k, state := s\<rparr>)
                | (Inr _, s) \<Rightarrow> (Inr (), c\<lparr>kv := k, state := s, tables := ddel sid (tables c)\<rparr>))))"

definition kv_used :: "int \<Rightarrow> coordinator \<Rightarrow> int pure_result" where
  "kv_used sid c =
     (case dget (tables c) sid of None \<Rightarrow> Inl KeyError | Some t \<Rightarrow> Inr (int (length (blocks t))))"

definition kv_used_total :: "coordinator \<Rightarrow> int" where
  "kv_used_total c = used_count (kv c)"

definition state_used_total :: "coordinator \<Rightarrow> int" where
  "state_used_total c = int (length (filter (\<lambda>(_, t). state_slot t \<noteq> None) (tables c)))"

section \<open>The invariant\<close>

definition coord_ok :: "coordinator \<Rightarrow> bool" where
  "coord_ok c \<longleftrightarrow> pool_ok (kv c) \<and> pool_ok (state c) \<and> dict_ok (tables c)
     \<and> (\<forall>sid t. dget (tables c) sid = Some t \<longrightarrow> t_seq t = sid \<and> distinct (blocks t))
     \<and> (\<forall>b sid. dget (owner (kv c)) b = Some sid \<longleftrightarrow>
          (\<exists>t. dget (tables c) sid = Some t \<and> b \<in> set (blocks t)))
     \<and> (\<forall>s sid. dget (owner (state c)) s = Some sid \<longleftrightarrow>
          (\<exists>t. dget (tables c) sid = Some t \<and> state_slot t = Some s))"

lemma coord_okD:
  assumes "coord_ok c"
  shows "pool_ok (kv c)" "pool_ok (state c)" "dict_ok (tables c)"
    "dget (tables c) sid = Some t \<Longrightarrow> t_seq t = sid"
    "dget (tables c) sid = Some t \<Longrightarrow> distinct (blocks t)"
    "dget (owner (kv c)) b = Some sid \<longleftrightarrow> (\<exists>t. dget (tables c) sid = Some t \<and> b \<in> set (blocks t))"
    "dget (owner (state c)) s = Some sid \<longleftrightarrow>
       (\<exists>t. dget (tables c) sid = Some t \<and> state_slot t = Some s)"
  using assms unfolding coord_ok_def by blast+

lemma coord_ok_init: "coord_init k s = Inr c \<Longrightarrow> coord_ok c"
  by (auto simp: coord_init_def rbind_Inr_iff coord_ok_def pool_ok_init)
    (auto simp: pool_init_def split: if_splits)

lemma blocks_for_tokens_nonneg: "0 < bs \<Longrightarrow> 0 \<le> blocks_for_tokens tokens bs"
  by (simp add: blocks_for_tokens_def ceil_div_nonneg)

lemma blocks_for_tokens_mult: "0 < bs \<Longrightarrow> 0 \<le> k \<Longrightarrow> blocks_for_tokens (k * bs) bs = k"
  by (cases "k = 0") (auto simp: blocks_for_tokens_def ceil_div_mult)

text \<open>Installing a table for freshly acquired resources keeps the invariant.\<close>

lemma coord_ok_install:
  assumes ok: "coord_ok c" and new: "dget (tables c) sid = None"
    and k: "pool_ok k" "distinct ids"
      "dget (owner k) = (\<lambda>b. if b \<in> set ids then Some sid else dget (owner (kv c)) b)"
      "\<And>b. b \<in> set ids \<Longrightarrow> dget (owner (kv c)) b = None"
    and s: "pool_ok s"
      "dget (owner s) = (\<lambda>x. if slot = Some x then Some sid else dget (owner (state c)) x)"
      "\<And>x. slot = Some x \<Longrightarrow> dget (owner (state c)) x = None"
  shows "coord_ok (c\<lparr>kv := k, state := s,
           tables := dset sid \<lparr>t_seq = sid, blocks = ids, state_slot = slot\<rparr> (tables c)\<rparr>)"
proof -
  note D = coord_okD[OF ok]
  have kn: "dget (owner (kv c)) b \<noteq> Some sid" for b using new D(6) by auto
  have sn: "dget (owner (state c)) x \<noteq> Some sid" for x using new D(7) by auto
  show ?thesis
    unfolding coord_ok_def
  proof (intro conjI allI)
    fix b t
    show "(dget (owner (kv (c\<lparr>kv := k, state := s,
           tables := dset sid \<lparr>t_seq = sid, blocks = ids, state_slot = slot\<rparr> (tables c)\<rparr>))) b = Some t)
      = (\<exists>ta. dget (tables (c\<lparr>kv := k, state := s,
           tables := dset sid \<lparr>t_seq = sid, blocks = ids, state_slot = slot\<rparr> (tables c)\<rparr>)) t = Some ta
         \<and> b \<in> set (blocks ta))"
      using kn[of b] k(3,4) D(6)[of b t] new by (auto simp: dict_simps)
  next
    fix x t
    show "(dget (owner (state (c\<lparr>kv := k, state := s,
           tables := dset sid \<lparr>t_seq = sid, blocks = ids, state_slot = slot\<rparr> (tables c)\<rparr>))) x = Some t)
      = (\<exists>ta. dget (tables (c\<lparr>kv := k, state := s,
           tables := dset sid \<lparr>t_seq = sid, blocks = ids, state_slot = slot\<rparr> (tables c)\<rparr>)) t = Some ta
         \<and> state_slot ta = Some x)"
      using sn[of x] s(2,3) D(7)[of x t] new by (auto simp: dict_simps)
  qed (use k s D(1-5) in \<open>auto simp: dict_simps\<close>)
qed

section \<open>The contract of the sequence store\<close>

text \<open>
  What the scheduler relies on: \<open>held c s\<close> is what sequence \<open>s\<close> holds, as a number of KV
  blocks and whether it has a state slot.  Opening succeeds exactly when the sequence is new and
  both resources have room; a refused open changes nothing; closing gives everything back.
\<close>

locale sequence_store =
  fixes ok :: "'c \<Rightarrow> bool"
    and held :: "'c \<Rightarrow> int \<Rightarrow> (int \<times> bool) option"
    and kv_room :: "'c \<Rightarrow> int"
    and st_room :: "'c \<Rightarrow> int"
    and need :: "int \<Rightarrow> int \<Rightarrow> int"
    and open_seq :: "int \<Rightarrow> int \<Rightarrow> int \<Rightarrow> bool \<Rightarrow> 'c \<Rightarrow> (py_error + 't) \<times> 'c"
    and close_seq :: "int \<Rightarrow> 'c \<Rightarrow> (py_error + unit) \<times> 'c"
  assumes need_nonneg: "0 < bs \<Longrightarrow> 0 \<le> need tok bs"
    and need_mult: "0 < bs \<Longrightarrow> 0 \<le> k \<Longrightarrow> need (k * bs) bs = k"
    and rooms: "ok c \<Longrightarrow> 0 \<le> kv_room c \<and> 0 \<le> st_room c"
    and open_ok: "ok c \<Longrightarrow> 0 < bs \<Longrightarrow> held c s = None \<Longrightarrow> need tok bs \<le> kv_room c \<Longrightarrow>
      (u \<Longrightarrow> 1 \<le> st_room c) \<Longrightarrow>
      \<exists>t c'. open_seq s tok bs u c = (Inr t, c') \<and> ok c'
        \<and> held c' = (held c)(s \<mapsto> (need tok bs, u))
        \<and> kv_room c' = kv_room c - need tok bs
        \<and> st_room c' = st_room c - (if u then 1 else 0)"
    and open_dup: "held c s \<noteq> None \<Longrightarrow> open_seq s tok bs u c = (Inl ValueError, c)"
    and open_full: "ok c \<Longrightarrow> 0 < bs \<Longrightarrow> held c s = None \<Longrightarrow>
      kv_room c < need tok bs \<or> u \<and> st_room c < 1 \<Longrightarrow>
      open_seq s tok bs u c = (Inl OutOfCapacity, c)"
    and close_ok: "ok c \<Longrightarrow> held c s = Some (n, u) \<Longrightarrow>
      \<exists>c'. close_seq s c = (Inr (), c') \<and> ok c' \<and> held c' = (held c)(s := None)
        \<and> kv_room c' = kv_room c + n \<and> st_room c' = st_room c + (if u then 1 else 0)"
    and close_absent: "held c s = None \<Longrightarrow> close_seq s c = (Inr (), c)"
begin

lemma open_InrD:
  assumes "ok c" "0 < bs" "open_seq s tok bs u c = (Inr t, c')"
  shows "ok c'" "held c s = None" "held c' = (held c)(s \<mapsto> (need tok bs, u))"
    "kv_room c' = kv_room c - need tok bs" "st_room c' = st_room c - (if u then 1 else 0)"
    "need tok bs \<le> kv_room c" "u \<Longrightarrow> 1 \<le> st_room c"
proof -
  show new: "held c s = None"
    using open_dup[of c s tok bs u] assms(3) by (cases "held c s") auto
  have fits: "\<not> (kv_room c < need tok bs \<or> u \<and> st_room c < 1)"
    using open_full[OF assms(1,2) new, of tok u] assms(3) by auto
  then show "need tok bs \<le> kv_room c" "u \<Longrightarrow> 1 \<le> st_room c" by auto
  from fits open_ok[OF assms(1,2) new, of tok u] assms(3)
  show "ok c'" "held c' = (held c)(s \<mapsto> (need tok bs, u))"
    "kv_room c' = kv_room c - need tok bs" "st_room c' = st_room c - (if u then 1 else 0)"
    by auto
qed

lemma open_InlD:
  assumes "ok c" "0 < bs" "open_seq s tok bs u c = (Inl e, c')"
  shows "c' = c"
  using open_dup[of c s tok bs u] open_full[OF assms(1,2), of s tok u]
    open_ok[OF assms(1,2), of s tok u] assms(3)
  by (cases "held c s = None"; cases "kv_room c < need tok bs \<or> u \<and> st_room c < 1") auto

lemma open_ok_always: "ok c \<Longrightarrow> 0 < bs \<Longrightarrow> open_seq s tok bs u c = (r, c') \<Longrightarrow> ok c'"
  by (cases r) (auto dest: open_InlD open_InrD(1))

lemma close_total:
  assumes "ok c"
  shows "\<exists>c'. close_seq s c = (Inr (), c') \<and> ok c' \<and> held c' = (held c)(s := None)"
proof (cases "held c s")
  case None
  moreover from None have "(held c)(s := None) = held c" by auto
  ultimately show ?thesis using close_absent[OF None] assms by auto
next
  case (Some p)
  then show ?thesis using close_ok[OF assms, of s "fst p" "snd p"] by auto
qed

lemma close_rooms:
  assumes "ok c" "held c s = Some (n, u)" "close_seq s c = (r, c')"
  shows "r = Inr ()" "ok c'" "held c' = (held c)(s := None)" "kv_room c' = kv_room c + n"
    "st_room c' = st_room c + (if u then 1 else 0)"
  using close_ok[OF assms(1,2)] assms(3) by auto

lemma open_close:
  assumes "ok c" "0 < bs" "open_seq s tok bs u c = (Inr t, c')" "close_seq s c' = (r, c'')"
  shows "r = Inr ()" "held c'' = held c" "kv_room c'' = kv_room c" "st_room c'' = st_room c"
proof -
  note O = open_InrD[OF assms(1-3)]
  have h: "held c' s = Some (need tok bs, u)" using O(3) by simp
  note C = close_rooms[OF O(1) h assms(4)]
  show "r = Inr ()" by (rule C(1))
  show "held c'' = held c" using C(3) O(2,3) by auto
  show "kv_room c'' = kv_room c" "st_room c'' = st_room c" using C(4,5) O(4,5) by auto
qed

end

definition coord_held :: "coordinator \<Rightarrow> int \<Rightarrow> (int \<times> bool) option" where
  "coord_held c sid =
     map_option (\<lambda>t. (int (length (blocks t)), state_slot t \<noteq> None)) (dget (tables c) sid)"

lemma coord_held_None: "coord_held c sid = None \<longleftrightarrow> dget (tables c) sid = None"
  by (simp add: coord_held_def)

lemma new_sequence_acquires:
  assumes ok: "coord_ok c" and bs: "0 < bs" and new: "dget (tables c) sid = None"
    and fits: "blocks_for_tokens tok bs \<le> free_count (kv c)" "u \<Longrightarrow> 1 \<le> free_count (state c)"
  obtains ids k slot s where
    "new_sequence sid tok bs u c =
       (Inr \<lparr>t_seq = sid, blocks = ids, state_slot = slot\<rparr>,
        c\<lparr>kv := k, state := s,
          tables := dset sid \<lparr>t_seq = sid, blocks = ids, state_slot = slot\<rparr> (tables c)\<rparr>)"
    "coord_ok (c\<lparr>kv := k, state := s,
          tables := dset sid \<lparr>t_seq = sid, blocks = ids, state_slot = slot\<rparr> (tables c)\<rparr>)"
    "int (length ids) = blocks_for_tokens tok bs" "slot \<noteq> None \<longleftrightarrow> u"
    "free_count k = free_count (kv c) - blocks_for_tokens tok bs"
    "free_count s = free_count (state c) - (if u then 1 else 0)"
    "kv_allocate sid (blocks_for_tokens tok bs) (kv c) = (Inr ids, k)"
proof -
  let ?n = "blocks_for_tokens tok bs"
  note D = coord_okD[OF ok]
  have n: "0 \<le> ?n" using bs by (rule blocks_for_tokens_nonneg)
  obtain ids k where A: "kv_allocate sid ?n (kv c) = (Inr ids, k)" "pool_ok k" "distinct ids"
    "int (length ids) = ?n" "\<forall>b \<in> set ids. dget (owner (kv c)) b = None"
    "dget (owner k) = (\<lambda>b. if b \<in> set ids then Some sid else dget (owner (kv c)) b)"
    "free_count k = free_count (kv c) - ?n"
    using kvp.acquire_ok[OF D(1) n fits(1), of sid] by auto
  have K: "(if ?n \<noteq> 0 then kv_allocate sid ?n (kv c) else (Inr [], kv c)) = (Inr ids, k)"
    using A(1,4) by (auto simp: kv_allocate_def)
  obtain slot s where S:
    "(if u then map_prod (map_sum id Some) id (state_allocate sid (state c))
      else (Inr None, state c)) = (Inr slot, s)"
    "pool_ok s" "slot \<noteq> None \<longleftrightarrow> u"
    "dget (owner s) = (\<lambda>x. if slot = Some x then Some sid else dget (owner (state c)) x)"
    "\<forall>x. slot = Some x \<longrightarrow> dget (owner (state c)) x = None"
    "free_count s = free_count (state c) - (if u then 1 else 0)"
  proof (cases u)
    case True
    obtain h p' where H: "state_allocate sid (state c) = (Inr h, p')" "pool_ok p'"
      "dget (owner (state c)) h = None"
      "dget (owner p') = (\<lambda>b. if b \<in> set [h] then Some sid else dget (owner (state c)) b)"
      "free_count p' = free_count (state c) - 1"
      using stp.acquire_ok[OF D(2) _ fits(2)[OF True], of sid] by auto
    show ?thesis
      by (rule that[of "Some h" p']) (use True H in \<open>auto simp: fun_eq_iff\<close>)
  next
    case False
    then show ?thesis by (intro that[of None "state c"]) (use D(2) in auto)
  qed
  have eq: "new_sequence sid tok bs u c =
       (Inr \<lparr>t_seq = sid, blocks = ids, state_slot = slot\<rparr>,
        c\<lparr>kv := k, state := s,
          tables := dset sid \<lparr>t_seq = sid, blocks = ids, state_slot = slot\<rparr> (tables c)\<rparr>)"
    using new K S(1) by (simp add: new_sequence_def Let_def)
  have inst: "coord_ok (c\<lparr>kv := k, state := s,
          tables := dset sid \<lparr>t_seq = sid, blocks = ids, state_slot = slot\<rparr> (tables c)\<rparr>)"
    using A S by (intro coord_ok_install[OF ok new]) auto
  show ?thesis by (rule that[OF eq inst A(4) S(3) A(7) S(6) A(1)])
qed

lemma new_sequence_full:
  assumes ok: "coord_ok c" and bs: "0 < bs" and new: "dget (tables c) sid = None"
    and full: "free_count (kv c) < blocks_for_tokens tok bs \<or> u \<and> free_count (state c) < 1"
  shows "new_sequence sid tok bs u c = (Inl OutOfCapacity, c)"
proof (cases "free_count (kv c) < blocks_for_tokens tok bs")
  case True
  then have "blocks_for_tokens tok bs \<noteq> 0" by (auto simp: free_count_def)
  then show ?thesis
    using new kvp.acquire_full[OF True, of sid] by (simp add: new_sequence_def Let_def)
next
  case False
  let ?n = "blocks_for_tokens tok bs"
  note D = coord_okD[OF ok]
  have u: u and lt: "free_count (state c) < 1" using full False by auto
  have n: "0 \<le> ?n" using bs by (rule blocks_for_tokens_nonneg)
  obtain ids k where A: "kv_allocate sid ?n (kv c) = (Inr ids, k)" "int (length ids) = ?n"
    using kvp.acquire_ok[OF D(1) n, of sid] False by auto
  have R: "kv_free sid ids k = (Inr (), kv c)"
    by (rule kvp.release_acquired[OF D(1) n A(1)])
  have S: "state_allocate sid (state c) = (Inl OutOfCapacity, state c)"
    by (rule stp.acquire_full[OF lt])
  have K: "(if ?n \<noteq> 0 then kv_allocate sid ?n (kv c) else (Inr [], kv c)) = (Inr ids, k)"
    using A by (auto simp: kv_allocate_def)
  have "k = kv c" if "ids = []" using that A(2) K by simp
  then show ?thesis using new u K R S by (simp add: new_sequence_def Let_def)
qed

lemma free_sequence_releases:
  assumes ok: "coord_ok c" and t: "dget (tables c) sid = Some t"
  obtains k s where
    "free_sequence sid c = (Inr (), c\<lparr>kv := k, state := s, tables := ddel sid (tables c)\<rparr>)"
    "coord_ok (c\<lparr>kv := k, state := s, tables := ddel sid (tables c)\<rparr>)"
    "free_count k = free_count (kv c) + int (length (blocks t))"
    "free_count s = free_count (state c) + (if state_slot t = None then 0 else 1)"
proof -
  note D = coord_okD[OF ok]
  have db: "distinct (blocks t)" using D(5) t by blast
  have own: "dget (owner (kv c)) b = Some sid" if "b \<in> set (blocks t)" for b
    using D(6) t that by blast
  obtain k where A: "kv_free sid (blocks t) (kv c) = (Inr (), k)" "pool_ok k"
    "dget (owner k) = (\<lambda>b. if b \<in> set (blocks t) then None else dget (owner (kv c)) b)"
    "free_count k = free_count (kv c) + int (length (blocks t))"
    using kvp.release_ok[OF D(1) db own] by auto
  obtain s where S: "state_free sid (state_slot t) (state c) = (Inr (), s)" "pool_ok s"
    "dget (owner s) = (\<lambda>x. if state_slot t = Some x then None else dget (owner (state c)) x)"
    "free_count s = free_count (state c) + (if state_slot t = None then 0 else 1)"
  proof (cases "state_slot t")
    case None
    then show ?thesis by (intro that[of "state c"]) (use D(2) in \<open>auto simp: state_free_def\<close>)
  next
    case (Some x)
    have "dget (owner (state c)) b = Some sid" if "b \<in> set [x]" for b
      using D(7) t Some that by auto
    from stp.release_ok[OF D(2) _ this] obtain s where
      "state_free sid (Some x) (state c) = (Inr (), s)" "pool_ok s"
      "dget (owner s) = (\<lambda>b. if b \<in> set [x] then None else dget (owner (state c)) b)"
      "free_count s = free_count (state c) + 1" by auto
    then show ?thesis by (intro that[of s]) (use Some in \<open>auto simp: fun_eq_iff\<close>)
  qed
  have eq: "free_sequence sid c =
      (Inr (), c\<lparr>kv := k, state := s, tables := ddel sid (tables c)\<rparr>)"
    using t A(1) S(1) by (simp add: free_sequence_def)
  have kn: "dget (owner k) b \<noteq> Some sid" for b using A(3) D(6)[of b sid] t by auto
  have sn: "dget (owner s) x \<noteq> Some sid" for x using S(3) D(7)[of x sid] t by auto
  have "coord_ok (c\<lparr>kv := k, state := s, tables := ddel sid (tables c)\<rparr>)"
    unfolding coord_ok_def
  proof (intro conjI allI)
    fix b t'
    show "(dget (owner (kv (c\<lparr>kv := k, state := s, tables := ddel sid (tables c)\<rparr>))) b = Some t')
      = (\<exists>ta. dget (tables (c\<lparr>kv := k, state := s, tables := ddel sid (tables c)\<rparr>)) t' = Some ta
          \<and> b \<in> set (blocks ta))"
      using kn[of b] A(3) D(6)[of b t'] own[of b] by (cases "t' = sid") (auto simp: dict_simps)
  next
    fix x t'
    show "(dget (owner (state (c\<lparr>kv := k, state := s, tables := ddel sid (tables c)\<rparr>))) x = Some t')
      = (\<exists>ta. dget (tables (c\<lparr>kv := k, state := s, tables := ddel sid (tables c)\<rparr>)) t' = Some ta
          \<and> state_slot ta = Some x)"
      using sn[of x] S(3) D(7)[of x t'] D(7)[of x sid] t
      by (cases "t' = sid") (auto simp: dict_simps)
  qed (use A(2) S(2) D(3-5) in \<open>auto simp: dict_simps split: if_splits\<close>)
  from that[OF eq this A(4) S(4)] show ?thesis .
qed

interpretation coord: sequence_store coord_ok coord_held "\<lambda>c. free_count (kv c)"
  "\<lambda>c. free_count (state c)" blocks_for_tokens new_sequence free_sequence
proof
  show "0 < bs \<Longrightarrow> 0 \<le> blocks_for_tokens tok bs" for bs tok
    by (rule blocks_for_tokens_nonneg)
  show "0 < bs \<Longrightarrow> 0 \<le> k \<Longrightarrow> blocks_for_tokens (k * bs) bs = k" for bs k
    by (rule blocks_for_tokens_mult)
  show "0 \<le> free_count (kv c) \<and> 0 \<le> free_count (state c)" for c
    by (simp add: free_count_def)
  show "coord_held c s = None \<Longrightarrow> free_sequence s c = (Inr (), c)" for c s
    by (simp add: coord_held_None free_sequence_def)
  show "coord_held c s \<noteq> None \<Longrightarrow> new_sequence s tok bs u c = (Inl ValueError, c)" for c s tok bs u
    by (simp add: coord_held_None new_sequence_def)
next
  fix c bs s tok u
  assume "coord_ok c" "0 < bs" "coord_held c s = None"
    "free_count (kv c) < blocks_for_tokens tok bs \<or> u \<and> free_count (state c) < 1"
  then show "new_sequence s tok bs u c = (Inl OutOfCapacity, c)"
    by (intro new_sequence_full) (auto simp: coord_held_None)
next
  fix c bs s tok u
  assume ok: "coord_ok c" and bs: "0 < bs" and new: "coord_held c s = None"
    and fits: "blocks_for_tokens tok bs \<le> free_count (kv c)" "u \<Longrightarrow> 1 \<le> free_count (state c)"
  obtain ids k slot st where A:
    "new_sequence s tok bs u c =
       (Inr \<lparr>t_seq = s, blocks = ids, state_slot = slot\<rparr>,
        c\<lparr>kv := k, state := st,
          tables := dset s \<lparr>t_seq = s, blocks = ids, state_slot = slot\<rparr> (tables c)\<rparr>)"
    "coord_ok (c\<lparr>kv := k, state := st,
          tables := dset s \<lparr>t_seq = s, blocks = ids, state_slot = slot\<rparr> (tables c)\<rparr>)"
    "int (length ids) = blocks_for_tokens tok bs" "slot \<noteq> None \<longleftrightarrow> u"
    "free_count k = free_count (kv c) - blocks_for_tokens tok bs"
    "free_count st = free_count (state c) - (if u then 1 else 0)"
    using new_sequence_acquires[OF ok bs new[unfolded coord_held_None] fits] by metis
  have "coord_held (c\<lparr>kv := k, state := st,
          tables := dset s \<lparr>t_seq = s, blocks = ids, state_slot = slot\<rparr> (tables c)\<rparr>)
        = (coord_held c)(s \<mapsto> (blocks_for_tokens tok bs, u))"
    using A(3,4) by (simp add: coord_held_def fun_eq_iff dict_simps)
  then show "\<exists>t c'. new_sequence s tok bs u c = (Inr t, c') \<and> coord_ok c'
        \<and> coord_held c' = (coord_held c)(s \<mapsto> (blocks_for_tokens tok bs, u))
        \<and> free_count (kv c') = free_count (kv c) - blocks_for_tokens tok bs
        \<and> free_count (state c') = free_count (state c) - (if u then 1 else 0)"
    using A(1,2,5,6) by auto
next
  fix c s n u
  assume ok: "coord_ok c" and h: "coord_held c s = Some (n, u)"
  then obtain t where t: "dget (tables c) s = Some t" "n = int (length (blocks t))"
    "u \<longleftrightarrow> state_slot t \<noteq> None"
    by (auto simp: coord_held_def)
  obtain k st where A:
    "free_sequence s c = (Inr (), c\<lparr>kv := k, state := st, tables := ddel s (tables c)\<rparr>)"
    "coord_ok (c\<lparr>kv := k, state := st, tables := ddel s (tables c)\<rparr>)"
    "free_count k = free_count (kv c) + int (length (blocks t))"
    "free_count st = free_count (state c) + (if state_slot t = None then 0 else 1)"
    by (rule free_sequence_releases[OF ok t(1)])
  have "coord_held (c\<lparr>kv := k, state := st, tables := ddel s (tables c)\<rparr>) = (coord_held c)(s := None)"
    by (simp add: coord_held_def fun_eq_iff dict_simps)
  then show "\<exists>c'. free_sequence s c = (Inr (), c') \<and> coord_ok c' \<and> coord_held c' = (coord_held c)(s := None)
        \<and> free_count (kv c') = free_count (kv c) + n
        \<and> free_count (state c') = free_count (state c) + (if u then 1 else 0)"
    using A t by auto
qed

section \<open>Growing a sequence\<close>

lemma coord_ok_extend:
  assumes ok: "coord_ok c" and t: "dget (tables c) sid = Some t"
    and k: "pool_ok k" "distinct ids"
      "dget (owner k) = (\<lambda>b. if b \<in> set ids then Some sid else dget (owner (kv c)) b)"
      "\<And>b. b \<in> set ids \<Longrightarrow> dget (owner (kv c)) b = None"
  shows "coord_ok (c\<lparr>kv := k, tables := dset sid (t\<lparr>blocks := blocks t @ ids\<rparr>) (tables c)\<rparr>)"
proof -
  note D = coord_okD[OF ok]
  have fresh: "b \<notin> set (blocks t)" if "b \<in> set ids" for b
    using k(4)[OF that] D(6)[of b sid] t by auto
  show ?thesis
    unfolding coord_ok_def
  proof (intro conjI allI)
    fix b t'
    show "(dget (owner (kv (c\<lparr>kv := k,
             tables := dset sid (t\<lparr>blocks := blocks t @ ids\<rparr>) (tables c)\<rparr>))) b = Some t')
      = (\<exists>ta. dget (tables (c\<lparr>kv := k,
             tables := dset sid (t\<lparr>blocks := blocks t @ ids\<rparr>) (tables c)\<rparr>)) t' = Some ta
           \<and> b \<in> set (blocks ta))"
      using k(3,4) D(6)[of b t'] t by (cases "t' = sid") (auto simp: dict_simps)
  next
    fix x t'
    show "(dget (owner (state (c\<lparr>kv := k,
             tables := dset sid (t\<lparr>blocks := blocks t @ ids\<rparr>) (tables c)\<rparr>))) x = Some t')
      = (\<exists>ta. dget (tables (c\<lparr>kv := k,
             tables := dset sid (t\<lparr>blocks := blocks t @ ids\<rparr>) (tables c)\<rparr>)) t' = Some ta
           \<and> state_slot ta = Some x)"
      using D(7)[of x t'] t by (cases "t' = sid") (auto simp: dict_simps)
  qed (use k(1,2) D(1-5) t fresh in \<open>auto simp: dict_simps split: if_splits\<close>)
qed

lemma grow_cases:
  assumes ok: "coord_ok c" and bs: "0 < bs" and g: "grow sid tokens bs c = (r, c')"
  shows "coord_ok c'" and "r = Inl e \<Longrightarrow> c' = c"
    and "r = Inr () \<Longrightarrow> \<exists>t'. dget (tables c') sid = Some t' \<and> tokens \<le> length_tokens bs t'"
proof -
  note D = coord_okD[OF ok]
  let ?want = "blocks_for_tokens tokens bs"
  have cover: "tokens \<le> m * bs" if "?want \<le> m" "0 \<le> m" for m
  proof (cases "tokens > 0")
    case True
    then have "tokens \<le> ?want * bs"
      using ceil_div_bounds(1)[OF bs] by (simp add: blocks_for_tokens_def)
    also have "\<dots> \<le> m * bs" using that bs by (simp add: mult_right_mono)
    finally show ?thesis .
  next
    case False
    then show ?thesis using that bs by (meson le_cases less_le_not_le mult_nonneg_nonneg order_trans)
  qed
  consider (absent) "dget (tables c) sid = None" "r = Inl KeyError" "c' = c"
    | (enough) t where "dget (tables c) sid = Some t" "?want \<le> int (length (blocks t))"
        "r = Inr ()" "c' = c"
    | (full) t where "dget (tables c) sid = Some t" "r = Inl OutOfCapacity" "c' = c"
    | (more) t ids k where "dget (tables c) sid = Some t" "int (length (blocks t)) < ?want"
        "kv_allocate sid (?want - int (length (blocks t))) (kv c) = (Inr ids, k)" "r = Inr ()"
        "c' = c\<lparr>kv := k, tables := dset sid (t\<lparr>blocks := blocks t @ ids\<rparr>) (tables c)\<rparr>"
  proof (cases "dget (tables c) sid")
    case None
    then show ?thesis using g by (intro absent) (auto simp: grow_def)
  next
    case (Some t)
    show ?thesis
    proof (cases "?want > int (length (blocks t))")
      case False
      then show ?thesis using g Some by (intro enough) (auto simp: grow_def Let_def)
    next
      case True
      obtain q k where q: "kv_allocate sid (?want - int (length (blocks t))) (kv c) = (q, k)"
        by force
      show ?thesis
      proof (cases q)
        case (Inl e)
        then have "k = kv c" "e = OutOfCapacity"
          using kvp.acquire_InlD(1,2)[OF D(1) _ q[unfolded Inl]] True by simp_all
        then show ?thesis using g Some True q Inl by (intro full) (auto simp: grow_def Let_def)
      next
        case (Inr ids)
        then show ?thesis using g Some True q by (intro more) (auto simp: grow_def Let_def)
      qed
    qed
  qed
  note C = this
  show "coord_ok c'"
  proof (cases rule: C)
    case (more t ids k)
    have nn: "0 \<le> ?want - int (length (blocks t))" using more(2) by simp
    note A = kvp.acquire_InrD[OF D(1) nn more(3)]
    show ?thesis unfolding more(5) by (rule coord_ok_extend[OF ok more(1) A(1,2,5,4)])
  qed (use ok in auto)
  show "r = Inl e \<Longrightarrow> c' = c" by (cases rule: C) auto
  assume r: "r = Inr ()"
  show "\<exists>t'. dget (tables c') sid = Some t' \<and> tokens \<le> length_tokens bs t'"
  proof (cases rule: C)
    case (enough t)
    then show ?thesis using cover[of "int (length (blocks t))"] by (auto simp: length_tokens_def)
  next
    case (more t ids k)
    have nn: "0 \<le> ?want - int (length (blocks t))" using more(2) by simp
    have "int (length ids) = ?want - int (length (blocks t))"
      by (rule kvp.acquire_InrD(3)[OF D(1) nn more(3)])
    then have "tokens \<le> int (length (blocks t @ ids)) * bs" by (intro cover) auto
    then show ?thesis using more(5) by (simp add: length_tokens_def dict_simps)
  qed (use r in auto)
qed

section \<open>Runs of the coordinator\<close>

text \<open>Any operation with any arguments, whether it returns or raises.\<close>

inductive coord_step :: "int \<Rightarrow> coordinator \<Rightarrow> coordinator \<Rightarrow> bool" for bs where
  new: "coord_step bs c (snd (new_sequence sid tokens bs u c))"
| grow: "coord_step bs c (snd (grow sid tokens bs c))"
| free: "coord_step bs c (snd (free_sequence sid c))"

lemma coord_step_ok: "coord_step bs c c' \<Longrightarrow> 0 < bs \<Longrightarrow> coord_ok c \<Longrightarrow> coord_ok c'"
proof (induction rule: coord_step.induct)
  case (new c sid tokens u)
  then show ?case by (metis coord.open_ok_always prod.collapse)
next
  case (grow c sid tokens)
  then show ?case by (metis grow_cases(1) prod.collapse)
next
  case (free c sid)
  then show ?case using coord.close_total[of c sid] by auto
qed

lemma pool_init_capacity: "pool_init n = Inr p \<Longrightarrow> capacity p = n"
  by (auto simp: pool_init_def split: if_splits)

lemma pool_capacity_kept [simp]:
  "capacity (snd (kv_allocate sid n p)) = capacity p"
  "capacity (snd (kv_free sid ids p)) = capacity p"
  "capacity (snd (state_allocate sid p)) = capacity p"
  "capacity (snd (state_free sid slot p)) = capacity p"
  by (auto simp: kv_allocate_def kv_free_def state_allocate_def state_free_def pool_simps
      split: option.splits sum.splits prod.splits)

lemma pool_capacity_kept_pair:
  "kv_allocate sid n p = (r1, p') \<Longrightarrow> capacity p' = capacity p"
  "kv_free sid ids p = (r2, p') \<Longrightarrow> capacity p' = capacity p"
  "state_allocate sid p = (r3, p') \<Longrightarrow> capacity p' = capacity p"
  "state_free sid slot p = (r4, p') \<Longrightarrow> capacity p' = capacity p"
  by (metis pool_capacity_kept snd_conv)+

lemma coord_step_capacity:
  "coord_step bs c c' \<Longrightarrow> capacity (kv c') = capacity (kv c) \<and> capacity (state c') = capacity (state c)"
  by (induction rule: coord_step.induct)
    (auto simp: new_sequence_def grow_def free_sequence_def Let_def
      dest!: pool_capacity_kept_pair
      split: option.splits sum.splits prod.splits if_splits)

lemma coord_run_ok:
  assumes "(coord_step bs)\<^sup>*\<^sup>* c0 c" "0 < bs" "coord_init kc sc = Inr c0"
  shows "coord_ok c" "capacity (kv c) = kc" "capacity (state c) = sc"
proof -
  have "coord_ok c \<and> capacity (kv c) = kc \<and> capacity (state c) = sc"
    using assms(1)
  proof (induction rule: rtranclp_induct)
    case base
    show ?case using coord_ok_init[OF assms(3)] assms(3)
      by (auto simp: coord_init_def rbind_Inr_iff pool_init_capacity)
  next
    case (step y z)
    then show ?case using coord_step_ok[OF step(2) assms(2)] coord_step_capacity[OF step(2)] by auto
  qed
  then show "coord_ok c" "capacity (kv c) = kc" "capacity (state c) = sc" by auto
qed

text \<open>Accounting: what is not free is held by a table.\<close>

lemma pool_ok_counts: "pool_ok p \<Longrightarrow> free_count p + int (card (dom (dget (owner p)))) = capacity p"
proof -
  assume ok: "pool_ok p"
  then have "card (set (free_ids p) \<union> dom (dget (owner p)))
      = card (set (free_ids p)) + card (dom (dget (owner p)))"
    by (intro card_Un_disjoint) (auto simp: pool_ok_def finite_dom_map_of)
  moreover have "card {0..<capacity p} = nat (capacity p)" by simp
  ultimately show ?thesis
    using ok by (auto simp: pool_ok_def free_count_def distinct_card)
qed

lemma coord_ok_block_count:
  assumes ok: "coord_ok c"
  shows "int (card (dom (dget (owner (kv c))))) = (\<Sum>(sid, t) \<leftarrow> tables c. int (length (blocks t)))"
proof -
  note D = coord_okD[OF ok]
  have ms: "dget (tables c) sid = Some t" if "(sid, t) \<in> set (tables c)" for sid t
    using that D(3) by (simp add: dict_ok_def)
  have dom: "dom (dget (owner (kv c))) = (\<Union>p \<in> set (tables c). set (blocks (snd p)))"
  proof (intro set_eqI iffI)
    fix b assume "b \<in> dom (dget (owner (kv c)))"
    then obtain sid where "dget (owner (kv c)) b = Some sid" by auto
    then obtain t where "dget (tables c) sid = Some t" "b \<in> set (blocks t)" using D(6) by auto
    then show "b \<in> (\<Union>p \<in> set (tables c). set (blocks (snd p)))"
      by (auto dest!: map_of_SomeD intro!: bexI[of _ "(sid, t)"])
  next
    fix b assume "b \<in> (\<Union>p \<in> set (tables c). set (blocks (snd p)))"
    then obtain sid t where "(sid, t) \<in> set (tables c)" "b \<in> set (blocks t)" by auto
    with ms D(6)[of b sid] show "b \<in> dom (dget (owner (kv c)))" by auto
  qed
  have disj: "set (blocks (snd p)) \<inter> set (blocks (snd q)) = {}"
    if "p \<in> set (tables c)" "q \<in> set (tables c)" "p \<noteq> q" for p q
  proof -
    have "fst p \<noteq> fst q" using that D(3) by (auto simp: dict_ok_def distinct_map inj_on_def)
    moreover have "dget (owner (kv c)) b = Some (fst r)"
      if "r \<in> set (tables c)" "b \<in> set (blocks (snd r))" for r b
      using that ms[of "fst r" "snd r"] D(6)[of b "fst r"] by auto
    ultimately show ?thesis using that by (metis disjoint_iff option.inject)
  qed
  have "card (dom (dget (owner (kv c)))) = (\<Sum>p \<in> set (tables c). card (set (blocks (snd p))))"
    unfolding dom using disj by (intro card_UN_disjoint) auto
  also have "\<dots> = (\<Sum>p \<in> set (tables c). length (blocks (snd p)))"
    by (intro sum.cong refl distinct_card) (metis D(5) ms prod.collapse)
  also have "\<dots> = (\<Sum>p \<leftarrow> tables c. length (blocks (snd p)))"
    using D(3) by (simp add: sum_list_distinct_conv_sum_set dict_ok_def distinct_map)
  finally show ?thesis by (simp add: case_prod_beta' sum_list_of_nat[symmetric] o_def)
qed

text \<open>With no sequence registered, everything is free.\<close>

lemma coord_idle:
  assumes ok: "coord_ok c" and idle: "\<And>sid. coord_held c sid = None"
  shows "free_count (kv c) = capacity (kv c)" "free_count (state c) = capacity (state c)"
proof -
  note D = coord_okD[OF ok]
  have "dget (tables c) sid = None" for sid using idle by (simp add: coord_held_None)
  then have "dom (dget (owner (kv c))) = {}" "dom (dget (owner (state c))) = {}"
    using D(6,7) by (auto simp: dom_def)
  then show "free_count (kv c) = capacity (kv c)" "free_count (state c) = capacity (state c)"
    using pool_ok_counts[OF D(1)] pool_ok_counts[OF D(2)] by simp_all
qed

lemma coord_capacity_kept:
  "new_sequence sid tokens bs u c = (r, c') \<Longrightarrow>
     capacity (kv c') = capacity (kv c) \<and> capacity (state c') = capacity (state c)"
  "free_sequence sid c = (r', c') \<Longrightarrow>
     capacity (kv c') = capacity (kv c) \<and> capacity (state c') = capacity (state c)"
  using coord_step_capacity[OF coord_step.new[of bs c sid tokens u]]
    coord_step_capacity[OF coord_step.free[of bs c sid]] by auto

section \<open>Properties\<close>

text \<open>
  C1: in every state a run of the coordinator reaches from construction, whatever operations were
  called and whether they returned or raised, no two registered sequences share a KV block or a
  state slot, and the blocks in use, as the allocator counts them, are exactly the blocks the
  registered tables hold: nothing is leaked and nothing is double-booked.
\<close>

theorem coordinator_accounting:
  assumes "0 < bs" and "coord_init kc sc = Inr c0" and "(coord_step bs)\<^sup>*\<^sup>* c0 c"
  shows "(\<forall>s1 s2 t1 t2. dget (tables c) s1 = Some t1 \<longrightarrow> dget (tables c) s2 = Some t2 \<longrightarrow> s1 \<noteq> s2 \<longrightarrow>
            set (blocks t1) \<inter> set (blocks t2) = {}
            \<and> (state_slot t1 = None \<or> state_slot t1 \<noteq> state_slot t2))
       \<and> kv_used_total c = (\<Sum>(sid, t) \<leftarrow> tables c. int (length (blocks t)))
       \<and> free_count (kv c) + kv_used_total c = kc"
proof -
  note R = coord_run_ok[OF assms(3,1,2)]
  note D = coord_okD[OF R(1)]
  have "kv_used_total c = (\<Sum>(sid, t) \<leftarrow> tables c. int (length (blocks t)))"
    using pool_ok_counts[OF D(1)] coord_ok_block_count[OF R(1)]
    by (simp add: kv_used_total_def used_count_def free_count_def)
  moreover have "free_count (kv c) + kv_used_total c = kc"
    using R(2) by (simp add: kv_used_total_def used_count_def free_count_def)
  moreover have "set (blocks t1) \<inter> set (blocks t2) = {}
      \<and> (state_slot t1 = None \<or> state_slot t1 \<noteq> state_slot t2)"
    if "dget (tables c) s1 = Some t1" "dget (tables c) s2 = Some t2" "s1 \<noteq> s2" for s1 s2 t1 t2
  proof
    have "False" if "b \<in> set (blocks t1)" "b \<in> set (blocks t2)" for b
      using D(6)[of b s1] D(6)[of b s2] that
        \<open>dget (tables c) s1 = Some t1\<close> \<open>dget (tables c) s2 = Some t2\<close> \<open>s1 \<noteq> s2\<close> by auto
    then show "set (blocks t1) \<inter> set (blocks t2) = {}" by auto
    show "state_slot t1 = None \<or> state_slot t1 \<noteq> state_slot t2"
    proof (cases "state_slot t1")
      case (Some x)
      then show ?thesis using D(7)[of x s1] D(7)[of x s2] that by auto
    qed simp
  qed
  ultimately show ?thesis by blast
qed

theorem coordinator_accounting_witness:
  "\<exists>c. dget (tables c) 7 \<noteq> None \<and> kv_used_total c = 3 \<and> free_count (kv c) + kv_used_total c = 5"
proof -
  let ?start = "\<lparr>kv = \<lparr>capacity = 5, free_ids = [0,1,2,3,4], owner = []\<rparr>,
              state = \<lparr>capacity = 1, free_ids = [0], owner = []\<rparr>, tables = []\<rparr> :: coordinator"
  let ?c = "snd (new_sequence 7 40 16 True ?start)"
  have i: "coord_init 5 1 = Inr ?start" by (simp add: coord_init_def pool_init_def upto.simps)
  have "coord_step 16 ?start ?c" by (rule coord_step.new)
  then have st: "(coord_step 16)\<^sup>*\<^sup>* ?start ?c" by (rule r_into_rtranclp)
  have c: "dget (tables ?c) 7 = Some \<lparr>t_seq = 7, blocks = [0,1,2], state_slot = Some 0\<rparr>"
    "kv_used_total ?c = 3"
    by (simp_all add: new_sequence_def blocks_for_tokens_def ceil_div_def kv_allocate_def
        state_allocate_def eval_nat_numeral Let_def kv_used_total_def used_count_def)
  show ?thesis
    using coordinator_accounting[OF _ i st] c by (intro exI[of _ ?c]) auto
qed

text \<open>
  C2: an operation of the coordinator that raises leaves the whole state as it was; in particular a
  sequence whose recurrent-state slot cannot be had does not strand the KV blocks it had already
  been given.
\<close>

theorem coordinator_refusal_is_atomic:
  assumes "coord_ok c" and "0 < bs"
    and "new_sequence sid tokens bs u c = (Inl e, c1)"
    and "grow sid' tokens' bs c = (Inl e', c2)"
  shows "c1 = c \<and> c2 = c"
  using coord.open_InlD[OF assms(1,2,3)] grow_cases(2)[OF assms(1,2,4)] by simp

theorem coordinator_refusal_is_atomic_witness:
  "let c = \<lparr>kv = \<lparr>capacity = 5, free_ids = [0,1,2,3,4], owner = []\<rparr>,
            state = \<lparr>capacity = 0, free_ids = [], owner = []\<rparr>, tables = []\<rparr> :: coordinator
   in snd (new_sequence 7 40 16 True c) = c"
proof -
  let ?c = "\<lparr>kv = \<lparr>capacity = 5, free_ids = [0,1,2,3,4], owner = []\<rparr>,
            state = \<lparr>capacity = 0, free_ids = [], owner = []\<rparr>, tables = []\<rparr> :: coordinator"
  have i: "coord_init 5 0 = Inr ?c" by (simp add: coord_init_def pool_init_def upto.simps)
  obtain e c1 where n: "new_sequence 7 40 16 True ?c = (Inl e, c1)"
    using new_sequence_full[OF coord_ok_init[OF i], of 16 7 40 True] by (simp add: free_count_def)
  obtain e' c2 where g: "grow 9 40 16 ?c = (Inl e', c2)" by (simp add: grow_def)
  show ?thesis
    using coordinator_refusal_is_atomic[OF coord_ok_init[OF i] _ n g] n by simp
qed

text \<open>
  Freeing a sequence right after it was registered restores the coordinator exactly: the same
  free heaps, the same owner dictionaries in the same order, the same tables.
\<close>

theorem new_then_free_restores:
  assumes "coord_ok c" and "0 < bs" and "new_sequence sid tokens bs u c = (Inr t, c1)"
  shows "free_sequence sid c1 = (Inr (), c)"
proof -
  note O = coord.open_InrD[OF assms]
  note D = coord_okD[OF assms(1)]
  have new: "dget (tables c) sid = None" using O(2) by (simp add: coord_held_None)
  have n: "0 \<le> blocks_for_tokens tokens bs" using assms(2) by (rule blocks_for_tokens_nonneg)
  obtain ids k where k: "kv_allocate sid (blocks_for_tokens tokens bs) (kv c) = (Inr ids, k)"
    using kvp.acquire_ok[OF D(1) n O(6)] by blast
  have K: "(if blocks_for_tokens tokens bs \<noteq> 0
      then kv_allocate sid (blocks_for_tokens tokens bs) (kv c) else (Inr [], kv c)) = (Inr ids, k)"
    using k by (auto simp: kv_allocate_def)
  have kf: "kv_free sid ids k = (Inr (), kv c)" by (rule kvp.release_acquired[OF D(1) n k])
  obtain slot s where S: "(if u then map_prod (map_sum id Some) id (state_allocate sid (state c))
      else (Inr None, state c)) = (Inr slot, s)" "state_free sid slot s = (Inr (), state c)"
  proof (cases u)
    case True
    then obtain x p where xp: "state_allocate sid (state c) = (Inr x, p)"
      using stp.acquire_ok[OF D(2) _ O(7)[OF True], of sid] by auto
    have "state_free sid (Some x) p = (Inr (), state c)"
      by (rule stp.release_acquired[OF D(2) _ xp]) simp
    with True xp show ?thesis by (intro that[of "Some x" p]) auto
  next
    case False
    then show ?thesis by (intro that[of None "state c"]) (auto simp: state_free_def)
  qed
  have c1: "c1 = c\<lparr>kv := k, state := s,
      tables := dset sid \<lparr>t_seq = sid, blocks = ids, state_slot = slot\<rparr> (tables c)\<rparr>"
    using assms(3) new K S(1) by (auto simp: new_sequence_def Let_def)
  have "ddel sid (dset sid \<lparr>t_seq = sid, blocks = ids, state_slot = slot\<rparr> (tables c)) = tables c"
    using new by (simp add: dset_new ddel_append ddel_none)
  then show ?thesis
    using kf S(2) by (simp add: c1 free_sequence_def dict_simps)
qed

theorem new_then_free_restores_witness:
  "let c = \<lparr>kv = \<lparr>capacity = 3, free_ids = [0,1,2], owner = []\<rparr>,
            state = \<lparr>capacity = 1, free_ids = [0], owner = []\<rparr>, tables = []\<rparr> :: coordinator
   in free_sequence 7 (snd (new_sequence 7 40 16 True c)) = (Inr (), c)"
proof -
  let ?c = "\<lparr>kv = \<lparr>capacity = 3, free_ids = [0,1,2], owner = []\<rparr>,
            state = \<lparr>capacity = 1, free_ids = [0], owner = []\<rparr>, tables = []\<rparr> :: coordinator"
  have i: "coord_init 3 1 = Inr ?c" by (simp add: coord_init_def pool_init_def upto.simps)
  obtain t c1 where n: "new_sequence 7 40 16 True ?c = (Inr t, c1)"
    using coord.open_ok[OF coord_ok_init[OF i], of 16 7 40 True]
    by (auto simp: free_count_def coord_held_def blocks_for_tokens_def ceil_div_def)
  show ?thesis using new_then_free_restores[OF coord_ok_init[OF i] _ n] n by simp
qed

end
