(* ===== verification/Scheduler.thy ===== *)
theory Scheduler
  imports Coordinator
begin

text \<open>
  Model of \<open>runtime/scheduler.py\<close>: admission, chunked prefill, decode and release of requests
  over the coordinator.  The scheduler knows the coordinator only through the facts of the
  interpretation \<open>coord\<close> of the locale \<open>sequence_store\<close>.
\<close>

section \<open>State\<close>

record request =
  seq_id :: int
  prompt_len :: int
  max_new :: int
  use_state :: bool
  position :: int
  tokens_generated :: int
  finished :: bool

datatype phase = Prefill | Decode

record action =
  a_seq :: int
  a_phase :: phase
  from_tok :: int
  to_tok :: int
  a_length :: int

definition prefills :: "action list \<Rightarrow> action list" where
  "prefills acts = filter (\<lambda>a. a_phase a = Prefill) acts"

definition decodes :: "action list \<Rightarrow> action list" where
  "decodes acts = filter (\<lambda>a. a_phase a = Decode) acts"

definition tokens_this_step :: "action list \<Rightarrow> int" where
  "tokens_this_step acts = sum_list (map a_length acts)"

text \<open>
  \<open>_running\<close> is a dictionary whose order is the admission order; the same \<open>Request\<close> object
  is in exactly one of \<open>_waiting\<close>, \<open>_running\<close> and \<open>done\<close>, so mutating it is an update of
  the collection that holds it.
\<close>

record scheduler =
  coord :: coordinator
  block_size :: int
  chunk_size :: int
  max_concurrency :: int
  waiting :: "request list"
  running :: "(int, request) dict"
  done_reqs :: "request list"

definition sched_init :: "int \<Rightarrow> int \<Rightarrow> int \<Rightarrow> int \<Rightarrow> int \<Rightarrow> scheduler pure_result" where
  "sched_init kv_capacity state_capacity bs cs mc =
     (if cs < 1 \<or> bs < 1 \<or> mc < 1 then Inl ValueError
      else rbind (coord_init kv_capacity state_capacity) (\<lambda>c.
        Inr \<lparr>coord = c, block_size = bs, chunk_size = cs, max_concurrency = mc,
             waiting = [], running = [], done_reqs = []\<rparr>))"

section \<open>Operations\<close>

definition sched_add :: "int \<Rightarrow> int \<Rightarrow> int \<Rightarrow> bool \<Rightarrow> scheduler \<Rightarrow> (scheduler, unit) result" where
  "sched_add sid plen mnew u s =
     (if (\<exists>r \<in> set (waiting s). seq_id r = sid) \<or> dget (running s) sid \<noteq> None
      then (Inl ValueError, s)
      else (Inr (), s\<lparr>waiting := waiting s @
              [\<lparr>seq_id = sid, prompt_len = plen, max_new = mnew, use_state = u,
                position = 0, tokens_generated = 0, finished = False\<rparr>]\<rparr>))"

text \<open>
  \<open>list.remove\<close> deletes the first request that is equal to \<open>r\<close>; the loop stops at the first
  request with the id.
\<close>

definition sched_abort :: "int \<Rightarrow> scheduler \<Rightarrow> (scheduler, bool) result" where
  "sched_abort sid s =
     (case dget (running s) sid of
        Some req \<Rightarrow>
          let s1 = s\<lparr>running := ddel sid (running s)\<rparr> in
          (case free_sequence sid (coord s1) of
             (Inl e, c) \<Rightarrow> (Inl e, s1\<lparr>coord := c\<rparr>)
           | (Inr _, c) \<Rightarrow>
               (Inr True, s1\<lparr>coord := c, done_reqs := done_reqs s @ [req\<lparr>finished := True\<rparr>]\<rparr>))
      | None \<Rightarrow>
          (case filter (\<lambda>r. seq_id r = sid) (waiting s) of
             [] \<Rightarrow> (Inr False, s)
           | r # _ \<Rightarrow>
               (Inr True, s\<lparr>waiting := remove1 r (waiting s),
                            done_reqs := done_reqs s @ [r\<lparr>finished := True\<rparr>]\<rparr>)))"

definition worst_blocks :: "scheduler \<Rightarrow> request \<Rightarrow> int" where
  "worst_blocks s r = blocks_for_tokens (prompt_len r + max_new r) (block_size s)"

definition accepts :: "scheduler \<Rightarrow> request \<Rightarrow> bool" where
  "accepts s r =
     (if int (length (running s)) \<ge> max_concurrency s then False
      else if use_state r \<and> free_count (state (coord s)) = 0 then False
      else free_count (kv (coord s)) \<ge> worst_blocks s r)"

definition admit :: "request \<Rightarrow> scheduler \<Rightarrow> (scheduler, unit) result" where
  "admit r s =
     (case new_sequence (seq_id r) (worst_blocks s r * block_size s) (block_size s) (use_state r)
             (coord s) of
        (Inl e, c) \<Rightarrow> (Inl e, s\<lparr>coord := c\<rparr>)
      | (Inr _, c) \<Rightarrow> (Inr (), s\<lparr>coord := c, running := dset (seq_id r) r (running s)\<rparr>))"

text \<open>
  The loop of \<open>pump\<close>.  Only \<open>OutOfCapacity\<close> is caught; any other exception leaves the loop
  with the skipped requests no longer in the queue.
\<close>

fun pump_loop :: "request list \<Rightarrow> scheduler \<Rightarrow> int list \<Rightarrow> request list
    \<Rightarrow> (scheduler, int list \<times> request list) result" where
  "pump_loop [] s admitted skipped = (Inr (admitted, skipped), s\<lparr>waiting := []\<rparr>)"
| "pump_loop (r # ws) s admitted skipped =
     (let s1 = s\<lparr>waiting := ws\<rparr> in
      if accepts s1 r then
        (case admit r s1 of
           (Inr _, s2) \<Rightarrow> pump_loop ws s2 (admitted @ [seq_id r]) skipped
         | (Inl e, s2) \<Rightarrow>
             (if e = OutOfCapacity then pump_loop ws s2 admitted (skipped @ [r])
              else (Inl e, s2)))
      else pump_loop ws s1 admitted (skipped @ [r]))"

definition pump :: "scheduler \<Rightarrow> (scheduler, int list) result" where
  "pump s =
     (case pump_loop (waiting s) s [] [] of
        (Inl e, s') \<Rightarrow> (Inl e, s')
      | (Inr (admitted, skipped), s') \<Rightarrow> (Inr admitted, s'\<lparr>waiting := skipped @ waiting s'\<rparr>))"

definition action_of :: "int \<Rightarrow> request \<Rightarrow> action" where
  "action_of cs r =
     (if position r < prompt_len r then
        let n = min cs (prompt_len r - position r) in
        \<lparr>a_seq = seq_id r, a_phase = Prefill, from_tok = position r, to_tok = position r + n,
         a_length = n\<rparr>
      else \<lparr>a_seq = seq_id r, a_phase = Decode, from_tok = 0, to_tok = 0, a_length = 1\<rparr>)"

definition schedule :: "scheduler \<Rightarrow> action list" where
  "schedule s = map (action_of (chunk_size s)) (filter (\<lambda>r. \<not> finished r) (map snd (running s)))"

definition sched_step :: "scheduler \<Rightarrow> (scheduler, action list) result" where
  "sched_step s =
     (case pump s of (Inl e, s') \<Rightarrow> (Inl e, s') | (Inr _, s') \<Rightarrow> (Inr (schedule s'), s'))"

definition finish :: "request \<Rightarrow> scheduler \<Rightarrow> (scheduler, unit) result" where
  "finish r s =
     (if finished r then (Inr (), s)
      else
        let r1 = r\<lparr>finished := True\<rparr>;
            s1 = s\<lparr>running := dset (seq_id r) r1 (running s)\<rparr> in
        (case free_sequence (seq_id r) (coord s1) of
           (Inl e, c) \<Rightarrow> (Inl e, s1\<lparr>coord := c\<rparr>)
         | (Inr _, c) \<Rightarrow>
             (Inr (), s1\<lparr>coord := c, running := ddel (seq_id r) (running s1),
                         done_reqs := done_reqs s @ [r1]\<rparr>)))"

definition progressed :: "action \<Rightarrow> request \<Rightarrow> request" where
  "progressed a r =
     (if a_phase a = Prefill then r\<lparr>position := min (prompt_len r) (position r + a_length a)\<rparr>
      else r\<lparr>tokens_generated := tokens_generated r + (if a_length a > 0 then a_length a else 1),
             position := prompt_len r\<rparr>)"

definition completes :: "bool \<Rightarrow> request \<Rightarrow> bool" where
  "completes eos r \<longleftrightarrow> eos \<or> position r \<ge> prompt_len r \<and> tokens_generated r \<ge> max_new r"

definition advance :: "action \<Rightarrow> bool \<Rightarrow> scheduler \<Rightarrow> (scheduler, unit) result" where
  "advance a eos s =
     (case dget (running s) (a_seq a) of
        None \<Rightarrow> (Inl KeyError, s)
      | Some r \<Rightarrow>
          let r' = progressed a r;
              s' = s\<lparr>running := dset (a_seq a) r' (running s)\<rparr> in
          (if completes eos r' then finish r' s' else (Inr (), s')))"

section \<open>Invariant\<close>

text \<open>
  What a request in \<open>_running\<close> looks like, and what it holds: the blocks for its whole worst case
  are reserved on admission.
\<close>

definition request_ok :: "request \<Rightarrow> bool" where
  "request_ok r \<longleftrightarrow> \<not> finished r \<and> 0 \<le> position r \<and> 0 \<le> prompt_len r \<and> 0 \<le> max_new r
     \<and> position r \<le> prompt_len r
     \<and> 0 \<le> tokens_generated r
     \<and> (position r < prompt_len r \<longrightarrow> tokens_generated r = 0)
     \<and> (tokens_generated r = 0 \<or> tokens_generated r < max_new r)"

definition fresh_request :: "request \<Rightarrow> bool" where
  "fresh_request r \<longleftrightarrow> \<not> finished r \<and> position r = 0 \<and> tokens_generated r = 0
     \<and> 0 \<le> prompt_len r \<and> 0 \<le> max_new r"

lemma fresh_request_ok: "fresh_request r \<Longrightarrow> request_ok r"
  by (auto simp: fresh_request_def request_ok_def)

text \<open>The part of the invariant the admission loop keeps, whatever is left of the queue.\<close>

definition running_ok :: "scheduler \<Rightarrow> bool" where
  "running_ok s \<longleftrightarrow> 1 \<le> block_size s \<and> 1 \<le> chunk_size s \<and> 1 \<le> max_concurrency s
     \<and> coord_ok (coord s) \<and> dict_ok (running s)
     \<and> int (length (running s)) \<le> max_concurrency s
     \<and> (\<forall>sid r. dget (running s) sid = Some r \<longrightarrow> seq_id r = sid \<and> request_ok r)
     \<and> (\<forall>sid. coord_held (coord s) sid
            = map_option (\<lambda>r. (worst_blocks s r, use_state r)) (dget (running s) sid))"

definition queue_ok :: "scheduler \<Rightarrow> request list \<Rightarrow> bool" where
  "queue_ok s ws \<longleftrightarrow> distinct (map seq_id ws)
     \<and> (\<forall>r \<in> set ws. fresh_request r \<and> dget (running s) (seq_id r) = None)"

definition sched_ok :: "scheduler \<Rightarrow> bool" where
  "sched_ok s \<longleftrightarrow> running_ok s \<and> queue_ok s (waiting s)"

lemma running_okD:
  assumes "running_ok s"
  shows "1 \<le> block_size s" "1 \<le> chunk_size s" "1 \<le> max_concurrency s" "coord_ok (coord s)"
    "dict_ok (running s)" "int (length (running s)) \<le> max_concurrency s"
    "dget (running s) sid = Some r \<Longrightarrow> seq_id r = sid"
    "dget (running s) sid = Some r \<Longrightarrow> request_ok r"
    "coord_held (coord s) sid
       = map_option (\<lambda>r. (worst_blocks s r, use_state r)) (dget (running s) sid)"
  using assms unfolding running_ok_def by blast+

lemma worst_blocks_update [simp]:
  "worst_blocks (s\<lparr>coord := c\<rparr>) = worst_blocks s"
  "worst_blocks (s\<lparr>waiting := w\<rparr>) = worst_blocks s"
  "worst_blocks (s\<lparr>running := d\<rparr>) = worst_blocks s"
  "worst_blocks (s\<lparr>done_reqs := x\<rparr>) = worst_blocks s"
  by (simp_all add: worst_blocks_def fun_eq_iff)

lemma accepts_update [simp]:
  "accepts (s\<lparr>waiting := w\<rparr>) = accepts s"
  "accepts (s\<lparr>done_reqs := x\<rparr>) = accepts s"
  by (simp_all add: accepts_def fun_eq_iff)

lemma running_ok_update [simp]:
  "running_ok (s\<lparr>waiting := w\<rparr>) = running_ok s"
  "running_ok (s\<lparr>done_reqs := x\<rparr>) = running_ok s"
  by (simp_all add: running_ok_def)

lemma queue_ok_update [simp]:
  "queue_ok (s\<lparr>waiting := w\<rparr>) ws = queue_ok s ws"
  "queue_ok (s\<lparr>coord := c\<rparr>) ws = queue_ok s ws"
  "queue_ok (s\<lparr>done_reqs := x\<rparr>) ws = queue_ok s ws"
  by (simp_all add: queue_ok_def)

lemma sched_ok_init: "sched_init kc sc bs cs mc = Inr s \<Longrightarrow> sched_ok s"
  by (auto simp: sched_init_def rbind_Inr_iff sched_ok_def running_ok_def queue_ok_def coord_ok_init
      split: if_splits)
    (auto simp: coord_init_def coord_held_def rbind_Inr_iff)

lemma worst_blocks_nonneg: "running_ok s \<Longrightarrow> 0 \<le> worst_blocks s r"
  using coord.need_nonneg[of "block_size s"] running_okD(1)[of s] by (simp add: worst_blocks_def)

section \<open>Admission\<close>

text \<open>An accepted request is admitted: \<open>_accepts\<close> checks exactly what \<open>_admit\<close> needs.\<close>

lemma admit_accepted:
  assumes ok: "running_ok s" and r: "fresh_request r" "dget (running s) (seq_id r) = None"
    and acc: "accepts s r"
  obtains c where "admit r s = (Inr (), s\<lparr>coord := c, running := running s @ [(seq_id r, r)]\<rparr>)"
    "running_ok (s\<lparr>coord := c, running := running s @ [(seq_id r, r)]\<rparr>)"
    "capacity (kv c) = capacity (kv (coord s))" "capacity (state c) = capacity (state (coord s))"
    "free_count (kv c) \<le> free_count (kv (coord s))"
    "free_count (state c) \<le> free_count (state (coord s))"
proof -
  note D = running_okD[OF ok]
  have bs: "0 < block_size s" using D(1) by simp
  have need: "blocks_for_tokens (worst_blocks s r * block_size s) (block_size s) = worst_blocks s r"
    using bs worst_blocks_nonneg[OF ok] by (rule coord.need_mult)
  have new: "coord_held (coord s) (seq_id r) = None" using D(9) r(2) by simp
  have room: "worst_blocks s r \<le> free_count (kv (coord s))"
    "use_state r \<Longrightarrow> 1 \<le> free_count (state (coord s))"
    using acc coord.rooms[OF D(4)] by (auto simp: accepts_def split: if_splits)
  from coord.open_ok[OF D(4) bs new, of "worst_blocks s r * block_size s" "use_state r"] need room
  obtain t c where c:
    "new_sequence (seq_id r) (worst_blocks s r * block_size s) (block_size s) (use_state r) (coord s)
       = (Inr t, c)" "coord_ok c"
    "coord_held c = (coord_held (coord s))(seq_id r \<mapsto> (worst_blocks s r, use_state r))"
    "free_count (kv c) = free_count (kv (coord s)) - worst_blocks s r"
    "free_count (state c) = free_count (state (coord s)) - (if use_state r then 1 else 0)"
    by auto
  have run: "dset (seq_id r) r (running s) = running s @ [(seq_id r, r)]"
    using r(2) by (rule dset_new)
  have eq: "admit r s = (Inr (), s\<lparr>coord := c, running := running s @ [(seq_id r, r)]\<rparr>)"
    using c(1) run by (simp add: admit_def)
  have "running_ok (s\<lparr>coord := c, running := dset (seq_id r) r (running s)\<rparr>)"
    unfolding running_ok_def
  proof (intro conjI allI)
    show "int (length (running (s\<lparr>coord := c, running := dset (seq_id r) r (running s)\<rparr>)))
        \<le> max_concurrency (s\<lparr>coord := c, running := dset (seq_id r) r (running s)\<rparr>)"
      using acc run by (auto simp: accepts_def split: if_splits)
  qed (use D c r fresh_request_ok in \<open>auto simp: dict_simps split: if_splits\<close>)
  with run have "running_ok (s\<lparr>coord := c, running := running s @ [(seq_id r, r)]\<rparr>)" by simp
  from that[OF eq this] coord_capacity_kept(1)[OF c(1)] c(4,5) worst_blocks_nonneg[OF ok, of r]
  show ?thesis by simp
qed

text \<open>
  What the loop does to a scheduler: the admitted requests \<open>adm\<close> and the skipped requests
  \<open>skp\<close> are the queue split in two without reordering.
\<close>

definition pumped ::
  "scheduler \<Rightarrow> request list \<Rightarrow> scheduler \<Rightarrow> request list \<Rightarrow> request list \<Rightarrow> bool" where
  "pumped s ws s' adm skp \<longleftrightarrow> running_ok s' \<and> queue_ok s' skp
     \<and> running s' = running s @ map (\<lambda>r. (seq_id r, r)) adm
     \<and> done_reqs s' = done_reqs s \<and> block_size s' = block_size s \<and> chunk_size s' = chunk_size s
     \<and> max_concurrency s' = max_concurrency s
     \<and> capacity (kv (coord s')) = capacity (kv (coord s))
     \<and> capacity (state (coord s')) = capacity (state (coord s))
     \<and> free_count (kv (coord s')) \<le> free_count (kv (coord s))
     \<and> free_count (state (coord s')) \<le> free_count (state (coord s))
     \<and> (\<forall>r \<in> set skp. \<not> accepts s' r)
     \<and> (\<exists>p. adm = filter p ws \<and> skp = filter (\<lambda>r. \<not> p r) ws)"

lemma filter_head_choice:
  assumes "r \<notin> set ws"
  shows "\<exists>p'. (if t then r # filter p ws else filter p ws) = filter p' (r # ws)
    \<and> (if t then filter (\<lambda>q. \<not> p q) ws else r # filter (\<lambda>q. \<not> p q) ws)
        = filter (\<lambda>q. \<not> p' q) (r # ws)"
proof -
  let ?p = "\<lambda>q. if q = r then t else p q"
  have "filter ?p ws = filter p ws" "filter (\<lambda>q. \<not> ?p q) ws = filter (\<lambda>q. \<not> p q) ws"
    using assms by (auto intro!: filter_cong)
  then show ?thesis by (intro exI[of _ ?p]) auto
qed

text \<open>A request refused once stays refused while the resources only shrink.\<close>

lemma accepts_antimono:
  assumes "accepts s' r" "block_size s' = block_size s" "max_concurrency s' = max_concurrency s"
    and "length (running s) \<le> length (running s')"
    and "free_count (kv (coord s')) \<le> free_count (kv (coord s))"
    and "free_count (state (coord s')) \<le> free_count (state (coord s))"
  shows "accepts s r"
  using assms by (auto simp: accepts_def worst_blocks_def free_count_def split: if_splits)

lemma pumped_admit:
  assumes "pumped (s\<lparr>waiting := w, coord := c, running := running s @ [(seq_id r, r)]\<rparr>) ws s' adm skp"
    and "capacity (kv c) = capacity (kv (coord s))" "capacity (state c) = capacity (state (coord s))"
    and "free_count (kv c) \<le> free_count (kv (coord s))"
    and "free_count (state c) \<le> free_count (state (coord s))"
    and "r \<notin> set ws"
  shows "pumped s (r # ws) s' (r # adm) skp"
proof -
  obtain p where "adm = filter p ws" "skp = filter (\<lambda>r. \<not> p r) ws"
    using assms(1) unfolding pumped_def by blast
  with filter_head_choice[OF assms(6), of True p]
  have "\<exists>p'. r # adm = filter p' (r # ws) \<and> skp = filter (\<lambda>q. \<not> p' q) (r # ws)" by simp
  with assms(1-5) show ?thesis unfolding pumped_def by simp
qed

lemma pumped_skip:
  assumes "pumped (s\<lparr>waiting := w\<rparr>) ws s' adm skp"
    and "fresh_request r" "dget (running s) (seq_id r) = None" "seq_id r \<notin> seq_id ` set ws"
    and "\<not> accepts s r"
  shows "pumped s (r # ws) s' adm (r # skp)"
proof -
  obtain p where p: "adm = filter p ws" "skp = filter (\<lambda>r. \<not> p r) ws"
    using assms(1) unfolding pumped_def by blast
  have "r \<notin> set ws" using assms(4) by auto
  from filter_head_choice[OF this, of False p] p
  have ex: "\<exists>p'. adm = filter p' (r # ws) \<and> r # skp = filter (\<lambda>q. \<not> p' q) (r # ws)" by simp
  have "seq_id r \<notin> seq_id ` set adm" "seq_id r \<notin> seq_id ` set skp" using assms(4) p by auto
  then have "dget (map (\<lambda>r. (seq_id r, r)) adm) (seq_id r) = None" "seq_id r \<notin> seq_id ` set skp"
    by (auto simp: map_of_eq_None_iff image_image)
  moreover have "running s' = running s @ map (\<lambda>r. (seq_id r, r)) adm" "queue_ok s' skp"
    using assms(1) unfolding pumped_def by simp_all
  ultimately have "queue_ok s' (r # skp)" using assms(2,3) by (simp add: queue_ok_def map_add_def)
  moreover have "\<not> accepts s' r"
    using assms(1,5) accepts_antimono[of s' r s] unfolding pumped_def by auto
  ultimately show ?thesis using assms(1) ex unfolding pumped_def by simp
qed

text \<open>Under the invariant the loop never raises.\<close>

lemma pump_loop_ok:
  assumes "running_ok s" "queue_ok s ws"
  shows "\<exists>adm skp s'. pump_loop ws s admitted skipped
             = (Inr (admitted @ map seq_id adm, skipped @ skp), s')
           \<and> waiting s' = [] \<and> pumped s ws s' adm skp"
  using assms
proof (induction ws arbitrary: s admitted skipped)
  case Nil
  then show ?case
    by (intro exI[of _ "[]"] exI[of _ "s\<lparr>waiting := []\<rparr>"]) (auto simp: queue_ok_def pumped_def)
next
  case (Cons r ws)
  let ?s1 = "s\<lparr>waiting := ws\<rparr>"
  have r: "fresh_request r" "dget (running s) (seq_id r) = None"
    and wd: "distinct (map seq_id ws)" "seq_id r \<notin> seq_id ` set ws"
      "\<forall>q \<in> set ws. fresh_request q \<and> dget (running s) (seq_id q) = None"
    using Cons.prems(2) by (auto simp: queue_ok_def)
  have rw: "r \<notin> set ws" using wd(2) by auto
  show ?case
  proof (cases "accepts ?s1 r")
    case True
    obtain c where A: "admit r ?s1 = (Inr (), ?s1\<lparr>coord := c, running := running s @ [(seq_id r, r)]\<rparr>)"
      "running_ok (?s1\<lparr>coord := c, running := running s @ [(seq_id r, r)]\<rparr>)"
      "capacity (kv c) = capacity (kv (coord s))" "capacity (state c) = capacity (state (coord s))"
      "free_count (kv c) \<le> free_count (kv (coord s))"
      "free_count (state c) \<le> free_count (state (coord s))"
      using admit_accepted[of ?s1 r] True r Cons.prems(1) by auto
    let ?s2 = "?s1\<lparr>coord := c, running := running s @ [(seq_id r, r)]\<rparr>"
    have "dget (running s @ [(seq_id r, r)]) (seq_id q) = None" if "q \<in> set ws" for q
    proof -
      have "seq_id q \<noteq> seq_id r" using wd(2) that by (metis imageI)
      then show ?thesis using wd(3) that by (simp add: map_add_def)
    qed
    then have "queue_ok ?s2 ws" using wd by (simp add: queue_ok_def)
    from Cons.IH[OF A(2) this, of "admitted @ [seq_id r]" skipped] obtain adm skp s' where I:
      "pump_loop ws ?s2 (admitted @ [seq_id r]) skipped
         = (Inr ((admitted @ [seq_id r]) @ map seq_id adm, skipped @ skp), s')"
      "waiting s' = []" "pumped ?s2 ws s' adm skp" by blast
    have "pumped s (r # ws) s' (r # adm) skp" by (rule pumped_admit[OF I(3) A(3-6) rw])
    with True A(1) I(1,2) show ?thesis
      by (intro exI[of _ "r # adm"] exI[of _ skp] exI[of _ s']) simp
  next
    case False
    have "queue_ok ?s1 ws" "running_ok ?s1" using wd Cons.prems(1) by (simp_all add: queue_ok_def)
    from Cons.IH[OF this(2,1), of admitted "skipped @ [r]"] obtain adm skp s' where I:
      "pump_loop ws ?s1 admitted (skipped @ [r])
         = (Inr (admitted @ map seq_id adm, (skipped @ [r]) @ skp), s')"
      "waiting s' = []" "pumped ?s1 ws s' adm skp" by blast
    have "\<not> accepts s r" using False by simp
    with r wd(2) have "pumped s (r # ws) s' adm (r # skp)" by (intro pumped_skip[OF I(3)])
    with False I(1,2) show ?thesis
      by (intro exI[of _ adm] exI[of _ "r # skp"] exI[of _ s']) simp
  qed
qed

lemma pump_ok:
  assumes "sched_ok s"
  obtains adm skp s' where "pump s = (Inr (map seq_id adm), s')" "waiting s' = skp"
    "pumped s (waiting s) s' adm skp" "sched_ok s'"
proof -
  obtain adm skp s' where P: "pump_loop (waiting s) s [] [] = (Inr (map seq_id adm, skp), s')"
    "waiting s' = []" "pumped s (waiting s) s' adm skp"
    using pump_loop_ok[of s "waiting s" "[]" "[]"] assms by (auto simp: sched_ok_def)
  have "pumped s (waiting s) (s'\<lparr>waiting := skp\<rparr>) adm skp"
    using P(3) by (simp add: pumped_def)
  then show ?thesis
    by (intro that[of adm "s'\<lparr>waiting := skp\<rparr>" skp])
      (use P in \<open>auto simp: pump_def sched_ok_def pumped_def\<close>)
qed

section \<open>Advancing, adding, aborting\<close>

lemma sched_ok_finish:
  assumes ok: "sched_ok s" and r: "dget (running s) sid = Some r0" and c: "free_sequence sid (coord s) = (q, c)"
  shows "q = Inr ()" "sched_ok (s\<lparr>coord := c, running := ddel sid (running s), done_reqs := x\<rparr>)"
    "free_count (kv (coord s)) \<le> free_count (kv c)"
    "free_count (state (coord s)) \<le> free_count (state c)"
proof -
  have run: "running_ok s" and que: "queue_ok s (waiting s)" using ok by (auto simp: sched_ok_def)
  note D = running_okD[OF run]
  have h: "coord_held (coord s) sid = Some (worst_blocks s r0, use_state r0)" using D(9) r by simp
  note C = coord.close_rooms[OF D(4) h c]
  show "q = Inr ()" by (rule C(1))
  show "free_count (kv (coord s)) \<le> free_count (kv c)"
    "free_count (state (coord s)) \<le> free_count (state c)"
    using C(4,5) worst_blocks_nonneg[OF run, of r0] by simp_all
  have mem: "sid \<in> set (dkeys (running s))" using r by (rule dget_Some_key)
  have "running_ok (s\<lparr>coord := c, running := ddel sid (running s)\<rparr>)"
    unfolding running_ok_def
  proof (intro conjI allI)
    show "int (length (running (s\<lparr>coord := c, running := ddel sid (running s)\<rparr>)))
        \<le> max_concurrency (s\<lparr>coord := c, running := ddel sid (running s)\<rparr>)"
      using D(6) length_ddel[OF D(5) mem] by simp
  qed (use D C in \<open>auto simp: dict_simps split: if_splits\<close>)
  moreover have "queue_ok (s\<lparr>running := ddel sid (running s)\<rparr>) (waiting s)"
    using que by (auto simp: queue_ok_def dict_simps)
  ultimately show "sched_ok (s\<lparr>coord := c, running := ddel sid (running s), done_reqs := x\<rparr>)"
    by (simp add: sched_ok_def running_ok_def queue_ok_def)
qed

lemma sched_ok_replace:
  assumes ok: "sched_ok s" and r: "dget (running s) sid = Some r0"
    and r': "request_ok r'" "seq_id r' = sid" "worst_blocks s r' = worst_blocks s r0"
      "use_state r' = use_state r0"
  shows "sched_ok (s\<lparr>running := dset sid r' (running s)\<rparr>)"
proof -
  have run: "running_ok s" and que: "queue_ok s (waiting s)" using ok by (auto simp: sched_ok_def)
  note D = running_okD[OF run]
  have mem: "sid \<in> set (dkeys (running s))" using r by (rule dget_Some_key)
  have "running_ok (s\<lparr>running := dset sid r' (running s)\<rparr>)"
    unfolding running_ok_def
  proof (intro conjI allI)
    show "int (length (running (s\<lparr>running := dset sid r' (running s)\<rparr>)))
        \<le> max_concurrency (s\<lparr>running := dset sid r' (running s)\<rparr>)"
      using D(6) length_dset_old[OF mem, of r'] by simp
  qed (use D r r' in \<open>auto simp: dict_simps split: if_splits\<close>)
  moreover have "queue_ok (s\<lparr>running := dset sid r' (running s)\<rparr>) (waiting s)"
    using que r by (auto simp: queue_ok_def dict_simps)
  ultimately show ?thesis by (simp add: sched_ok_def)
qed

text \<open>The action the scheduler itself issued for a running request.\<close>

lemma progressed_fields [simp]:
  "seq_id (progressed a r) = seq_id r" "prompt_len (progressed a r) = prompt_len r"
  "max_new (progressed a r) = max_new r" "use_state (progressed a r) = use_state r"
  "finished (progressed a r) = finished r"
  "worst_blocks s (progressed a r) = worst_blocks s r"
  by (simp_all add: progressed_def worst_blocks_def)

lemma action_of_seq [simp]: "a_seq (action_of cs r) = seq_id r"
  by (simp add: action_of_def Let_def)

lemma progressed_ok:
  assumes "request_ok r" "1 \<le> cs" "\<not> completes eos (progressed (action_of cs r) r)"
  shows "request_ok (progressed (action_of cs r) r)"
  using assms
  by (auto simp: request_ok_def completes_def progressed_def action_of_def Let_def min_def
      split: if_splits)

definition work :: "request \<Rightarrow> nat" where
  "work r = nat (prompt_len r - position r) + nat (max 1 (max_new r) - tokens_generated r)"

lemma work_pos: "request_ok r \<Longrightarrow> 0 < work r"
  by (auto simp: work_def request_ok_def)

lemma progressed_work:
  assumes "request_ok r" "1 \<le> cs"
  shows "work (progressed (action_of cs r) r) < work r"
  using assms
  by (auto simp: work_def request_ok_def progressed_def action_of_def Let_def min_def)

definition advanced :: "int \<Rightarrow> bool \<Rightarrow> scheduler \<Rightarrow> scheduler \<Rightarrow> bool" where
  "advanced sid eos s s' \<longleftrightarrow> sched_ok s' \<and> waiting s' = waiting s
     \<and> block_size s' = block_size s \<and> chunk_size s' = chunk_size s
     \<and> max_concurrency s' = max_concurrency s
     \<and> capacity (kv (coord s')) = capacity (kv (coord s))
     \<and> capacity (state (coord s')) = capacity (state (coord s))
     \<and> (\<exists>r. dget (running s) sid = Some r
         \<and> (let r' = progressed (action_of (chunk_size s) r) r in
            if completes eos r'
            then running s' = ddel sid (running s)
               \<and> done_reqs s' = done_reqs s @ [r'\<lparr>finished := True\<rparr>]
            else running s' = dset sid r' (running s) \<and> done_reqs s' = done_reqs s))"

lemma ddel_dset: "ddel k (dset k v d) = ddel k d"
  by (induction d) auto

lemma advance_ok:
  assumes ok: "sched_ok s" and r: "dget (running s) sid = Some r"
  obtains s' where "advance (action_of (chunk_size s) r) eos s = (Inr (), s')" "advanced sid eos s s'"
proof -
  have run: "running_ok s" using ok by (simp add: sched_ok_def)
  note D = running_okD[OF run]
  have sid: "seq_id r = sid" and rok: "request_ok r" using D(7,8) r by auto
  let ?a = "action_of (chunk_size s) r"
  let ?r' = "progressed ?a r"
  let ?s1 = "s\<lparr>running := dset sid ?r' (running s)\<rparr>"
  show ?thesis
  proof (cases "completes eos ?r'")
    case False
    have "sched_ok ?s1"
      using progressed_ok[OF rok D(2) False] sid by (intro sched_ok_replace[OF ok r]) auto
    moreover have "advance ?a eos s = (Inr (), ?s1)" using r sid False by (simp add: advance_def)
    ultimately show ?thesis
      using r False by (intro that[of ?s1]) (auto simp: advanced_def Let_def)
  next
    case True
    obtain q c where qc: "free_sequence sid (coord s) = (q, c)" by force
    note F = sched_ok_finish[OF ok r qc]
    let ?s2 = "s\<lparr>coord := c, running := ddel sid (running s),
                 done_reqs := done_reqs s @ [?r'\<lparr>finished := True\<rparr>]\<rparr>"
    have "advance ?a eos s = (Inr (), ?s2)"
      using r sid True rok qc F(1)
      by (simp add: advance_def finish_def request_ok_def Let_def ddel_dset)
    then show ?thesis
      using r True F(2) coord_capacity_kept(2)[OF qc]
      by (intro that[of ?s2]) (auto simp: advanced_def Let_def)
  qed
qed

lemma sched_add_ok:
  assumes "sched_ok s" "0 \<le> plen" "0 \<le> mnew" "sched_add sid plen mnew u s = (q, s')"
  shows "sched_ok s'"
  using assms by (auto simp: sched_add_def sched_ok_def queue_ok_def fresh_request_def split: if_splits)

lemma sched_abort_ok:
  assumes ok: "sched_ok s" and a: "sched_abort sid s = (q, s')"
  shows "sched_ok s'"
    and "q = Inr (dget (running s) sid \<noteq> None \<or> (\<exists>r \<in> set (waiting s). seq_id r = sid))"
    and "dget (running s') sid = None \<and> (\<forall>r \<in> set (waiting s'). seq_id r \<noteq> sid)"
proof -
  have run: "running_ok s" and que: "queue_ok s (waiting s)" using ok by (auto simp: sched_ok_def)
  have "sched_ok s' \<and> q = Inr (dget (running s) sid \<noteq> None \<or> (\<exists>r \<in> set (waiting s). seq_id r = sid))
      \<and> (dget (running s') sid = None \<and> (\<forall>r \<in> set (waiting s'). seq_id r \<noteq> sid))"
  proof (cases "dget (running s) sid")
    case (Some r)
    obtain q' c where qc: "free_sequence sid (coord s) = (q', c)" by force
    note F = sched_ok_finish[OF ok Some qc]
    let ?d = "done_reqs s @ [r\<lparr>finished := True\<rparr>]"
    have w: "seq_id w \<noteq> sid" if "w \<in> set (waiting s)" for w
      using que that Some by (auto simp: queue_ok_def)
    have "s' = s\<lparr>coord := c, running := ddel sid (running s), done_reqs := ?d\<rparr> \<and> q = Inr True"
      using a Some qc F(1) by (auto simp: sched_abort_def Let_def)
    then show ?thesis using F(2)[of ?d] Some w by (simp add: dict_simps)
  next
    case None
    show ?thesis
    proof (cases "filter (\<lambda>r. seq_id r = sid) (waiting s)")
      case Nil
      then show ?thesis using a None ok by (auto simp: sched_abort_def filter_empty_conv)
    next
      case (Cons r rs)
      then have "r \<in> set (filter (\<lambda>r. seq_id r = sid) (waiting s))" by simp
      then have r: "r \<in> set (waiting s)" "seq_id r = sid" by auto
      have "distinct (waiting s)" using que by (auto simp: queue_ok_def distinct_map)
      then have rem: "set (remove1 r (waiting s)) = set (waiting s) - {r}" by simp
      have dm: "distinct (map seq_id (remove1 r (waiting s)))"
        using que by (auto simp: queue_ok_def distinct_map inj_on_def dest: notin_set_remove1)
      have others: "seq_id w \<noteq> sid" if "w \<in> set (remove1 r (waiting s))" for w
        using que that r rem by (auto simp: queue_ok_def distinct_map inj_on_def)
      have "queue_ok s (remove1 r (waiting s))"
        using que dm by (auto simp: queue_ok_def dest: notin_set_remove1)
      moreover have "s' = s\<lparr>waiting := remove1 r (waiting s),
                            done_reqs := done_reqs s @ [r\<lparr>finished := True\<rparr>]\<rparr>" "q = Inr True"
        using a None Cons by (auto simp: sched_abort_def)
      ultimately show ?thesis using None run r others by (auto simp: sched_ok_def)
    qed
  qed
  then show "sched_ok s'"
    "q = Inr (dget (running s) sid \<noteq> None \<or> (\<exists>r \<in> set (waiting s). seq_id r = sid))"
    "dget (running s') sid = None \<and> (\<forall>r \<in> set (waiting s'). seq_id r \<noteq> sid)" by auto
qed

section \<open>Runs of the scheduler\<close>

text \<open>
  What the executor does with a scheduler: it adds requests, aborts them, pumps the queue, and
  advances an action the scheduler itself issued for a running request, with any end-of-sequence
  verdict.
\<close>

inductive sched_move :: "scheduler \<Rightarrow> scheduler \<Rightarrow> bool" where
  add: "0 \<le> plen \<Longrightarrow> 0 \<le> mnew \<Longrightarrow> sched_move s (snd (sched_add sid plen mnew u s))"
| abort: "sched_move s (snd (sched_abort sid s))"
| pump: "sched_move s (snd (pump s))"
| advance: "a \<in> set (schedule s) \<Longrightarrow> sched_move s (snd (advance a eos s))"

inductive_cases sched_moveE: "sched_move s s'"

lemma schedule_running:
  assumes "sched_ok s" "a \<in> set (schedule s)"
  obtains r where "dget (running s) (a_seq a) = Some r" "a = action_of (chunk_size s) r"
proof -
  have D: "running_ok s" using assms(1) by (simp add: sched_ok_def)
  obtain sid r where r: "(sid, r) \<in> set (running s)" "a = action_of (chunk_size s) r"
    using assms(2) by (auto simp: schedule_def)
  then have "dget (running s) sid = Some r"
    using running_okD(5)[OF D] by (simp add: dget_Some_in)
  with running_okD(7)[OF D this] r(2) that show ?thesis by auto
qed

lemma sched_move_ok: "sched_move s s' \<Longrightarrow> sched_ok s \<Longrightarrow> sched_ok s'"
proof (induction rule: sched_move.induct)
  case (add plen mnew s sid u)
  show ?case by (rule sched_add_ok[OF add(3,1,2) prod.collapse[symmetric]])
next
  case (abort s sid)
  show ?case by (rule sched_abort_ok(1)[OF abort prod.collapse[symmetric]])
next
  case (pump s)
  show ?case by (rule pump_ok[OF pump]) simp
next
  case (advance a s eos)
  obtain r where r: "dget (running s) (a_seq a) = Some r" "a = action_of (chunk_size s) r"
    by (rule schedule_running[OF advance(2,1)])
  show ?case
    by (rule advance_ok[OF advance(2) r(1), of eos]) (use r(2) in \<open>simp add: advanced_def\<close>)
qed

lemma sched_moves_ok: "sched_move\<^sup>*\<^sup>* s s' \<Longrightarrow> sched_ok s \<Longrightarrow> sched_ok s'"
  by (induction rule: rtranclp_induct) (auto intro: sched_move_ok)

lemma schedule_all:
  "sched_ok s \<Longrightarrow> schedule s = map (\<lambda>(sid, r). action_of (chunk_size s) r) (running s)"
proof -
  assume ok: "sched_ok s"
  then have "running_ok s" by (simp add: sched_ok_def)
  then have "\<not> finished r" if "(sid, r) \<in> set (running s)" for sid r
    using running_okD(5,8)[of s] that by (simp add: dget_Some_in request_ok_def)
  then have "filter (\<lambda>r. \<not> finished r) (map snd (running s)) = map snd (running s)"
    by (intro filter_True) auto
  then show ?thesis by (simp add: schedule_def case_prod_beta' o_def)
qed

section \<open>Properties\<close>

text \<open>
  C6: admission control is sound.  In every state the executor can bring a scheduler into, at most
  \<open>max_concurrency\<close> sequences run, and each of them owns KV blocks for its prompt and all the
  tokens it may still produce, so its live tokens never outgrow its blocks, and it owns a
  recurrent-state slot whenever its model needs one.
\<close>

theorem running_requests_are_covered:
  assumes "sched_init kc sc bs cs mc = Inr s0" and "sched_move\<^sup>*\<^sup>* s0 s"
    and "dget (running s) sid = Some r"
  shows "int (length (running s)) \<le> max_concurrency s
       \<and> (\<exists>t. dget (tables (coord s)) sid = Some t
            \<and> prompt_len r + max_new r \<le> length_tokens (block_size s) t
            \<and> position r + tokens_generated r \<le> length_tokens (block_size s) t
            \<and> (use_state r \<longleftrightarrow> state_slot t \<noteq> None))"
proof -
  have ok: "running_ok s"
    using sched_moves_ok[OF assms(2) sched_ok_init[OF assms(1)]] by (simp add: sched_ok_def)
  note D = running_okD[OF ok]
  have h: "coord_held (coord s) sid = Some (worst_blocks s r, use_state r)" using D(9) assms(3) by simp
  then obtain t where t: "dget (tables (coord s)) sid = Some t" "worst_blocks s r = int (length (blocks t))"
    "use_state r \<longleftrightarrow> state_slot t \<noteq> None"
    by (auto simp: coord_held_def)
  have r: "request_ok r" by (rule D(8)[OF assms(3)])
  have cover: "prompt_len r + max_new r \<le> length_tokens (block_size s) t"
  proof (cases "prompt_len r + max_new r > 0")
    case True
    then show ?thesis
      using t(2) ceil_div_bounds(1)[of "block_size s" "prompt_len r + max_new r"] D(1)
      by (simp add: worst_blocks_def blocks_for_tokens_def length_tokens_def)
  next
    case False
    have "0 \<le> length_tokens (block_size s) t" using D(1) by (simp add: length_tokens_def)
    with False show ?thesis by simp
  qed
  moreover have "position r + tokens_generated r \<le> prompt_len r + max_new r"
    using r by (auto simp: request_ok_def)
  ultimately show ?thesis using D(6) t by (intro conjI exI[of _ t]) auto
qed

theorem running_requests_are_covered_witness:
  "\<exists>(s :: scheduler) r t. dget (running s) 3 = Some r \<and> dget (tables (coord s)) 3 = Some t
     \<and> position r + tokens_generated r \<le> length_tokens (block_size s) t"
proof -
  obtain s0 where i: "sched_init 4 1 16 32 1 = Inr s0"
    by (simp add: sched_init_def coord_init_def pool_init_def)
  let ?s1 = "snd (sched_add 3 20 5 True s0)"
  have "sched_move s0 ?s1" by (rule sched_move.add) simp_all
  moreover have "sched_move ?s1 (snd (pump ?s1))" by (rule sched_move.pump)
  ultimately have m: "sched_move\<^sup>*\<^sup>* s0 (snd (pump ?s1))" by (meson converse_rtranclp_into_rtranclp r_into_rtranclp)
  have s0: "s0 = \<lparr>coord = \<lparr>kv = \<lparr>capacity = 4, free_ids = [0,1,2,3], owner = []\<rparr>,
        state = \<lparr>capacity = 1, free_ids = [0], owner = []\<rparr>, tables = []\<rparr>, block_size = 16,
        chunk_size = 32, max_concurrency = 1, waiting = [], running = [], done_reqs = []\<rparr>"
    using i by (simp add: sched_init_def coord_init_def pool_init_def upto.simps)
  have "\<exists>r. dget (running (snd (pump ?s1))) 3 = Some r"
    by (simp add: s0 sched_add_def pump_def accepts_def admit_def worst_blocks_def
        blocks_for_tokens_def ceil_div_def free_count_def new_sequence_def kv_allocate_def
        state_allocate_def eval_nat_numeral Let_def)
  then obtain r where "dget (running (snd (pump ?s1))) 3 = Some r" by blast
  with running_requests_are_covered[OF i m this] show ?thesis by blast
qed

text \<open>
  C7: \<open>pump\<close> on a reachable scheduler never raises; it splits the queue, without reordering
  either part, into the admitted requests, which are appended to the running ones, and the ones
  that stay queued; and it is maximal: no request it leaves in the queue could be admitted in the
  state it returns.  (Backfill: a large request at the head does not block smaller ones.)
\<close>

theorem pump_backfills:
  assumes "sched_ok s"
  shows "\<exists>p s'. pump s = (Inr (map seq_id (filter p (waiting s))), s')
       \<and> running s' = running s @ map (\<lambda>r. (seq_id r, r)) (filter p (waiting s))
       \<and> waiting s' = filter (\<lambda>r. \<not> p r) (waiting s)
       \<and> (\<forall>r \<in> set (waiting s'). \<not> accepts s' r) \<and> sched_ok s'"
proof -
  obtain adm skp s' where P: "pump s = (Inr (map seq_id adm), s')" "waiting s' = skp"
    "pumped s (waiting s) s' adm skp" "sched_ok s'"
    by (rule pump_ok[OF assms])
  then show ?thesis unfolding pumped_def by auto
qed

theorem pump_backfills_witness:
  "\<exists>p s s'. waiting s = [\<lparr>seq_id = 0, prompt_len = 90, max_new = 10, use_state = False, position = 0,
                     tokens_generated = 0, finished = False\<rparr>,
                   \<lparr>seq_id = 1, prompt_len = 3, max_new = 2, use_state = False, position = 0,
                     tokens_generated = 0, finished = False\<rparr>]
     \<and> pump s = (Inr (map seq_id (filter p (waiting s))), s')
     \<and> (\<forall>r \<in> set (waiting s'). \<not> accepts s' r)"
proof -
  obtain s0 where i: "sched_init 4 1 16 32 2 = Inr s0"
    by (simp add: sched_init_def coord_init_def pool_init_def)
  then have w: "waiting s0 = []" "running s0 = []"
    by (auto simp: sched_init_def coord_init_def pool_init_def)
  obtain q1 s1 where s1: "sched_add 0 90 10 False s0 = (q1, s1)" by force
  obtain q2 s2 where s2: "sched_add 1 3 2 False s1 = (q2, s2)" by force
  have ok: "sched_ok s2"
    using sched_add_ok[OF _ _ _ s2] sched_add_ok[OF sched_ok_init[OF i] _ _ s1] by simp
  have "waiting s2 = [\<lparr>seq_id = 0, prompt_len = 90, max_new = 10, use_state = False, position = 0,
                     tokens_generated = 0, finished = False\<rparr>,
                   \<lparr>seq_id = 1, prompt_len = 3, max_new = 2, use_state = False, position = 0,
                     tokens_generated = 0, finished = False\<rparr>]"
    using s1 s2 w by (auto simp: sched_add_def)
  with pump_backfills[OF ok] show ?thesis by blast
qed

text \<open>
  C8: chunked prefill covers the prompt without gap or overlap and within the step budget.  Every
  running sequence gets exactly one action per step; a prefill action starts where the sequence
  stands, takes between one and \<open>chunk_size\<close> tokens without passing the end of the prompt, and
  advancing it moves the sequence to the action's end, so the next chunk starts there; a decode
  action is only issued once the whole prompt is prefilled.
\<close>

theorem chunked_prefill_is_contiguous:
  assumes "sched_ok s"
  shows "map a_seq (schedule s) = dkeys (running s)
       \<and> tokens_this_step (schedule s) \<le> max_concurrency s * chunk_size s
       \<and> (\<forall>a \<in> set (schedule s). \<exists>r. dget (running s) (a_seq a) = Some r \<and>
            (case a_phase a of
               Prefill \<Rightarrow> from_tok a = position r \<and> to_tok a = from_tok a + a_length a
                 \<and> 1 \<le> a_length a \<and> a_length a \<le> chunk_size s \<and> to_tok a \<le> prompt_len r
                 \<and> position (progressed a r) = to_tok a
                 \<and> tokens_generated (progressed a r) = 0
             | Decode \<Rightarrow> position r = prompt_len r \<and> a_length a = 1
                 \<and> tokens_generated (progressed a r) = tokens_generated r + 1))"
proof (intro conjI ballI)
  have run: "running_ok s" using assms by (simp add: sched_ok_def)
  note D = running_okD[OF run]
  have keys: "seq_id r = sid" if "(sid, r) \<in> set (running s)" for sid r
    using that D(5,7) by (simp add: dget_Some_in)
  show "map a_seq (schedule s) = dkeys (running s)"
    using keys by (auto simp: schedule_all[OF assms])
  have le: "a_length a \<le> chunk_size s" if "a \<in> set (schedule s)" for a
    using that D(2) by (auto simp: schedule_def action_of_def Let_def)
  have "tokens_this_step (schedule s) \<le> int (length (schedule s)) * chunk_size s"
    unfolding tokens_this_step_def using le by (induction "schedule s") (auto simp: algebra_simps
      intro!: sum_list_mono[of _ _ "\<lambda>_. chunk_size s", simplified sum_list_triv, THEN order_trans])
  also have "\<dots> \<le> max_concurrency s * chunk_size s"
    using D(2,6) by (intro mult_right_mono) (auto simp: schedule_all[OF assms])
  finally show "tokens_this_step (schedule s) \<le> max_concurrency s * chunk_size s" .
  fix a assume "a \<in> set (schedule s)"
  then obtain r where r: "dget (running s) (a_seq a) = Some r" "a = action_of (chunk_size s) r"
    by (rule schedule_running[OF assms])
  have "request_ok r" by (rule D(8)[OF r(1)])
  then show "\<exists>r. dget (running s) (a_seq a) = Some r \<and>
            (case a_phase a of
               Prefill \<Rightarrow> from_tok a = position r \<and> to_tok a = from_tok a + a_length a
                 \<and> 1 \<le> a_length a \<and> a_length a \<le> chunk_size s \<and> to_tok a \<le> prompt_len r
                 \<and> position (progressed a r) = to_tok a
                 \<and> tokens_generated (progressed a r) = 0
             | Decode \<Rightarrow> position r = prompt_len r \<and> a_length a = 1
                 \<and> tokens_generated (progressed a r) = tokens_generated r + 1)"
    using r D(2) by (intro exI[of _ r])
      (auto simp: request_ok_def action_of_def progressed_def Let_def min_def)
qed

theorem chunked_prefill_is_contiguous_witness:
  "\<exists>s :: scheduler. dkeys (running s) = [0] \<and> map a_seq (schedule s) = dkeys (running s)"
proof -
  obtain s0 where i: "sched_init 4 1 16 32 2 = Inr s0"
    by (simp add: sched_init_def coord_init_def pool_init_def)
  have s0: "s0 = \<lparr>coord = \<lparr>kv = \<lparr>capacity = 4, free_ids = [0,1,2,3], owner = []\<rparr>,
        state = \<lparr>capacity = 1, free_ids = [0], owner = []\<rparr>, tables = []\<rparr>, block_size = 16,
        chunk_size = 32, max_concurrency = 2, waiting = [], running = [], done_reqs = []\<rparr>"
    using i by (simp add: sched_init_def coord_init_def pool_init_def upto.simps)
  obtain q1 s1 where s1: "sched_add 0 50 10 True s0 = (q1, s1)" by force
  have ok1: "sched_ok s1" using sched_add_ok[OF sched_ok_init[OF i] _ _ s1] by simp
  obtain q2 s2 where s2: "pump s1 = (q2, s2)" by force
  have ok2: "sched_ok s2" using sched_move_ok[OF sched_move.pump ok1] s2 by simp
  have "dkeys (running s2) = [0]"
    using s1 s2 by (auto simp: s0 sched_add_def pump_def accepts_def admit_def worst_blocks_def
        blocks_for_tokens_def ceil_div_def free_count_def new_sequence_def kv_allocate_def
        state_allocate_def eval_nat_numeral Let_def)
  moreover have "map a_seq (schedule s2) = dkeys (running s2)"
    using chunked_prefill_is_contiguous[OF ok2] by (rule conjunct1)
  ultimately show ?thesis by (intro exI[of _ s2] conjI)
qed

end
