(* ===== verification/Sampler.thy ===== *)
theory Sampler
  imports Prelude Complex_Main
begin

text \<open>
  Model of \<open>runtime/sampler.py\<close>.  Logits are a list over a linearly ordered field: the float64
  arithmetic of numpy is idealised to exact field arithmetic, with no NaN or infinity.  What
  the code takes from numpy is the record \<open>numpy\<close>: the exponential, \<open>argsort\<close> (its default
  sort does not fix the order of ties), the uniform draw of the generator, which returns the
  generator's next state, and the generator a seed starts.  Without a seed numpy takes fresh entropy;
  \<open>np_rng None\<close> is one such generator, so what is equal for requests without a seed is equal for the
  same entropy.
\<close>

record ('f, 'g) numpy =
  np_exp :: "'f \<Rightarrow> 'f"
  np_argsort :: "'f list \<Rightarrow> nat list"
  np_random :: "'g \<Rightarrow> 'f \<times> 'g"
  np_rng :: "int option \<Rightarrow> 'g"

section \<open>Greedy choice\<close>

text \<open>\<open>np.argmax\<close>: the first index of the largest entry; it raises on an empty array.\<close>

fun argmax_go :: "nat \<Rightarrow> nat \<Rightarrow> 'a::linorder \<Rightarrow> 'a list \<Rightarrow> nat" where
  "argmax_go i bi bv [] = bi"
| "argmax_go i bi bv (x # xs) =
     (if x > bv then argmax_go (Suc i) i x xs else argmax_go (Suc i) bi bv xs)"

definition greedy :: "'a::linorder list \<Rightarrow> int pure_result" where
  "greedy logits =
     (case logits of [] \<Rightarrow> Inl ValueError | x # xs \<Rightarrow> Inr (int (argmax_go 1 0 x xs)))"

lemma argmax_go_spec:
  assumes "bi < i" "length pre = i" "pre ! bi = bv" "\<forall>j < i. pre ! j \<le> bv" "\<forall>j < bi. pre ! j < bv"
  shows "let k = argmax_go i bi bv xs; l = pre @ xs in
    k < length l \<and> (\<forall>j < length l. l ! j \<le> l ! k) \<and> (\<forall>j < k. l ! j < l ! k)"
  using assms
proof (induction xs arbitrary: i bi bv pre)
  case Nil
  then show ?case by (simp add: Let_def)
next
  case (Cons x xs)
  show ?case
  proof (cases "x > bv")
    case True
    have "\<forall>j < Suc i. (pre @ [x]) ! j \<le> x"
      using Cons.prems True by (auto simp: nth_append less_Suc_eq intro: less_imp_le le_less_trans)
    moreover have "\<forall>j < i. (pre @ [x]) ! j < x"
      using Cons.prems True by (auto simp: nth_append intro: le_less_trans)
    ultimately show ?thesis
      using Cons.IH[of i "Suc i" "pre @ [x]" x] True Cons.prems by (simp add: nth_append)
  next
    case False
    have "\<forall>j < Suc i. (pre @ [x]) ! j \<le> bv" "\<forall>j < bi. (pre @ [x]) ! j < bv"
      using Cons.prems False by (auto simp: nth_append less_Suc_eq)
    then show ?thesis
      using Cons.IH[of bi "Suc i" "pre @ [x]" bv] False Cons.prems by (simp add: nth_append)
  qed
qed

lemma greedy_Inr:
  assumes "greedy l = Inr t"
  shows "0 \<le> t" "nat t < length l" "\<forall>j < length l. l ! j \<le> l ! nat t"
    "\<forall>j < nat t. l ! j < l ! nat t"
proof -
  obtain x xs where l: "l = x # xs" and t: "t = int (argmax_go 1 0 x xs)"
    using assms by (auto simp: greedy_def split: list.splits)
  have "let k = argmax_go 1 0 x xs; l = [x] @ xs in
    k < length l \<and> (\<forall>j < length l. l ! j \<le> l ! k) \<and> (\<forall>j < k. l ! j < l ! k)"
    by (rule argmax_go_spec) auto
  then show "0 \<le> t" "nat t < length l" "\<forall>j < length l. l ! j \<le> l ! nat t"
    "\<forall>j < nat t. l ! j < l ! nat t" by (simp_all add: l t Let_def)
qed

lemma greedy_total: "l \<noteq> [] \<Longrightarrow> \<exists>t. greedy l = Inr t"
  by (cases l) (auto simp: greedy_def)

section \<open>Repetition penalty\<close>

definition penalize :: "'a::linordered_field \<Rightarrow> 'a \<Rightarrow> 'a" where
  "penalize penalty x = (if x < 0 then x * penalty else x / penalty)"

text \<open>
  \<open>out[pids] = np.where(vals < 0, ...)\<close> reads all values before it writes, so an id listed twice
  is penalised once.
\<close>

definition apply_repetition_penalty ::
  "'a::linordered_field list \<Rightarrow> int list option \<Rightarrow> 'a option \<Rightarrow> 'a list" where
  "apply_repetition_penalty logits penalized_ids penalty =
     (case (penalty, penalized_ids) of
        (Some p, Some ids) \<Rightarrow>
          (if p \<le> 0 \<or> p = 1 then logits
           else
             let pids = filter (\<lambda>i. 0 \<le> i \<and> i < int (length logits)) ids in
             map (\<lambda>i. if int i \<in> set pids then penalize p (logits ! i) else logits ! i)
               [0..<length logits])
      | _ \<Rightarrow> logits)"

lemma penalize_le: "1 < p \<Longrightarrow> penalize p x \<le> (x :: 'a::linordered_field)"
proof -
  assume p: "1 < p"
  show ?thesis
  proof (cases "x < 0")
    case True
    with p have "x * p \<le> x * 1" by (intro mult_left_mono_neg) auto
    with True show ?thesis by (simp add: penalize_def)
  next
    case False
    with p have "x * 1 \<le> x * p" by (intro mult_left_mono) auto
    with False p show ?thesis by (simp add: penalize_def divide_le_eq)
  qed
qed

lemma penalize_less: "1 < p \<Longrightarrow> x \<noteq> 0 \<Longrightarrow> penalize p x < (x :: 'a::linordered_field)"
proof -
  assume p: "1 < p" and x: "x \<noteq> 0"
  have "penalize p x \<noteq> x" using p x by (auto simp: penalize_def field_simps)
  with penalize_le[OF p, of x] show ?thesis by simp
qed

section \<open>Stochastic sampling\<close>

definition softmax :: "('a::linordered_field \<Rightarrow> 'a) \<Rightarrow> 'a list \<Rightarrow> 'a list" where
  "softmax expf logits =
     (let m = Max (set logits); es = map (\<lambda>x. expf (x - m)) logits; z = sum_list es in
      map (\<lambda>e. e / z) es)"

text \<open>\<open>np.where(mask, probs, 0.0)\<close> with \<open>mask[keep] = True\<close>\<close>

definition keep_only :: "nat list \<Rightarrow> 'a::zero list \<Rightarrow> 'a list" where
  "keep_only keep probs = map (\<lambda>i. if i \<in> set keep then probs ! i else 0) [0..<length probs]"

definition filter_top_k ::
  "('a::linordered_field list \<Rightarrow> nat list) \<Rightarrow> int option \<Rightarrow> 'a list \<Rightarrow> 'a list pure_result" where
  "filter_top_k argsort top_k probs =
     (case top_k of
        None \<Rightarrow> Inr probs
      | Some k0 \<Rightarrow>
          let k = min k0 (int (length probs)) in
          (if k \<le> 0 then Inl ValueError
           else
             let order = argsort probs;
                 kept = keep_only (drop (length order - nat k) order) probs;
                 s = sum_list kept in
             Inr (if s > 0 then map (\<lambda>x. x / s) kept else kept)))"

fun cumsum :: "'a::monoid_add \<Rightarrow> 'a list \<Rightarrow> 'a list" where
  "cumsum acc [] = []"
| "cumsum acc (x # xs) = (acc + x) # cumsum (acc + x) xs"

text \<open>\<open>np.searchsorted\<close> (left side) on an ascending array: the first entry not below the value.\<close>

definition searchsorted :: "'a::linorder list \<Rightarrow> 'a \<Rightarrow> nat" where
  "searchsorted a v = length (takeWhile (\<lambda>x. x < v) a)"

definition filter_top_p ::
  "('a::linordered_field list \<Rightarrow> nat list) \<Rightarrow> 'a option \<Rightarrow> 'a list \<Rightarrow> 'a list" where
  "filter_top_p argsort top_p probs =
     (case top_p of
        None \<Rightarrow> probs
      | Some p \<Rightarrow>
          let order = rev (argsort probs);
              cumulative = cumsum 0 (map (\<lambda>i. probs ! i) order);
              cutoff = searchsorted cumulative p + 1 in
          keep_only (take cutoff order) probs)"

definition pick :: "'a::linordered_field \<Rightarrow> 'a list \<Rightarrow> int" where
  "pick r probs =
     min (int (searchsorted (cumsum 0 probs) r)) (int (length probs) - 1)"

definition filtered_probs ::
  "('a::linordered_field \<Rightarrow> 'a) \<Rightarrow> ('a list \<Rightarrow> nat list) \<Rightarrow> int option \<Rightarrow> 'a option
    \<Rightarrow> 'a list \<Rightarrow> 'a list pure_result" where
  "filtered_probs expf argsort top_k top_p logits =
     (if logits = [] then Inl ValueError
      else rbind (filter_top_k argsort top_k (softmax expf logits)) (\<lambda>probs.
             Inr (filter_top_p argsort top_p probs)))"

definition sample ::
  "('a::linordered_field, 'g) numpy \<Rightarrow> 'a option \<Rightarrow> int option \<Rightarrow> 'a option \<Rightarrow> 'g \<Rightarrow> 'a list
    \<Rightarrow> int pure_result \<times> 'g" where
  "sample N temperature top_k top_p g logits =
     (case temperature of
        Some t \<Rightarrow>
          (if t > 0 then
             let scaled = map (\<lambda>x. x / t) logits in
             (case filtered_probs (np_exp N) (np_argsort N) top_k top_p scaled of
                Inl e \<Rightarrow> (Inl e, g)
              | Inr probs \<Rightarrow>
                  let total = sum_list probs in
                  if total \<le> 0 then (greedy scaled, g)
                  else
                    let (r, g') = np_random N g in
                    (Inr (pick r (map (\<lambda>x. x / total) probs)), g'))
           else (greedy logits, g))
      | None \<Rightarrow> (greedy logits, g))"

section \<open>Lemmas on the sampling steps\<close>

definition sorts :: "('a::linorder list \<Rightarrow> nat list) \<Rightarrow> bool" where
  "sorts argsort \<longleftrightarrow> (\<forall>xs. mset (argsort xs) = mset [0..<length xs]
     \<and> sorted (map (\<lambda>i. xs ! i) (argsort xs)))"

lemma length_cumsum [simp]: "length (cumsum a xs) = length xs"
  by (induction xs arbitrary: a) auto

lemma cumsum_nth: "i < length xs \<Longrightarrow> cumsum a xs ! i = a + sum_list (take (Suc i) xs)"
  by (induction xs arbitrary: a i) (auto simp: nth_Cons' take_Cons' add.assoc split: nat.splits)

lemma searchsorted_bound: "searchsorted a v \<le> length a"
  by (simp add: searchsorted_def length_takeWhile_le)

lemma searchsorted_below: "i < searchsorted a v \<Longrightarrow> a ! i < v"
  unfolding searchsorted_def
  by (metis nth_mem set_takeWhileD takeWhile_nth)

lemma searchsorted_at: "searchsorted a v < length a \<Longrightarrow> v \<le> a ! searchsorted a v"
  unfolding searchsorted_def by (meson not_le nth_length_takeWhile)

lemma sum_list_divide: "sum_list (map (\<lambda>x. x / s) xs) = sum_list xs / (s :: 'a::linordered_field)"
  by (induction xs) (simp_all add: add_divide_distrib)

lemma pick_support:
  assumes r: "0 < r" "r \<le> sum_list q"
  shows "0 \<le> pick r q" "nat (pick r q) < length q" "0 < q ! nat (pick r q)"
proof -
  let ?k = "searchsorted (cumsum 0 q) r"
  have ne: "q \<noteq> []" using r by auto
  have last: "cumsum 0 q ! (length q - 1) = sum_list q"
    using ne by (simp add: cumsum_nth)
  have k: "?k < length q"
  proof (rule ccontr)
    assume "\<not> ?k < length q"
    then have "cumsum 0 q ! (length q - 1) < r"
      using ne by (intro searchsorted_below) (cases q, auto)
    with last r(2) show False by simp
  qed
  then have p: "pick r q = int ?k" by (simp add: pick_def)
  have at: "r \<le> cumsum 0 q ! ?k" using k by (intro searchsorted_at) simp
  have "0 < q ! ?k"
  proof (cases "?k")
    case 0
    then show ?thesis using at r k by (cases q) (auto simp: cumsum_nth)
  next
    case (Suc j)
    then have "cumsum 0 q ! j < r" by (intro searchsorted_below) simp
    with at k Suc show ?thesis
      by (simp add: cumsum_nth take_Suc_conv_app_nth)
  qed
  with p k show "0 \<le> pick r q" "nat (pick r q) < length q" "0 < q ! nat (pick r q)" by simp_all
qed

lemma length_keep_only [simp]: "length (keep_only ks p) = length p"
  by (simp add: keep_only_def)

lemma keep_only_nth: "i < length p \<Longrightarrow> keep_only ks p ! i = (if i \<in> set ks then p ! i else 0)"
  by (simp add: keep_only_def)

lemma length_softmax [simp]: "length (softmax e l) = length l"
  by (simp add: softmax_def Let_def)

definition kept_ids :: "'a::zero list \<Rightarrow> nat set" where
  "kept_ids p = {i. i < length p \<and> p ! i \<noteq> 0}"

lemma filter_top_k_kept:
  assumes "filter_top_k argsort (Some k) p = Inr q"
  shows "length q = length p" "card (kept_ids q) \<le> nat k"
    "kept_ids q \<subseteq> set (drop (length (argsort p) - nat (min k (int (length p)))) (argsort p))"
proof -
  let ?keep = "drop (length (argsort p) - nat (min k (int (length p)))) (argsort p)"
  let ?kept = "keep_only ?keep p"
  have q: "q = (if sum_list ?kept > 0 then map (\<lambda>x. x / sum_list ?kept) ?kept else ?kept)"
    and k: "0 < k" "p \<noteq> []"
    using assms by (auto simp: filter_top_k_def Let_def split: if_splits)
  show "length q = length p" using q by simp
  have sub: "kept_ids q \<subseteq> set ?keep"
    using q by (auto simp: kept_ids_def keep_only_nth split: if_splits)
  then show "kept_ids q \<subseteq> set ?keep" .
  have "card (kept_ids q) \<le> card (set ?keep)" using sub by (intro card_mono) auto
  also have "\<dots> \<le> length ?keep" by (rule card_length)
  also have "\<dots> \<le> nat k" by simp
  finally show "card (kept_ids q) \<le> nat k" .
qed

lemma filter_top_p_kept: "kept_ids (filter_top_p argsort tp p) \<subseteq> kept_ids p"
  by (auto simp: filter_top_p_def kept_ids_def keep_only_nth Let_def split: option.splits if_splits)

lemma length_filter_top_p [simp]: "length (filter_top_p argsort tp p) = length p"
  by (simp add: filter_top_p_def Let_def split: option.splits)

text \<open>A set of indices that holds, with an entry, every entry above it.\<close>

definition top_ranked :: "'a::linorder list \<Rightarrow> nat set \<Rightarrow> bool" where
  "top_ranked p S \<longleftrightarrow> (\<forall>i \<in> S. i < length p \<and> (\<forall>j < length p. p ! i < p ! j \<longrightarrow> j \<in> S))"

lemma top_rankedD:
  "top_ranked p S \<Longrightarrow> i \<in> S \<Longrightarrow> j < length p \<Longrightarrow> p ! i < p ! j \<Longrightarrow> j \<in> S"
  unfolding top_ranked_def by blast

lemma sortsD:
  assumes "sorts argsort"
  shows "length (argsort xs) = length xs" "set (argsort xs) = {..<length xs}" "distinct (argsort xs)"
    and "a \<le> b \<Longrightarrow> b < length xs \<Longrightarrow> xs ! (argsort xs ! a) \<le> xs ! (argsort xs ! b)"
proof -
  have m: "mset (argsort xs) = mset [0..<length xs]" and s: "sorted (map ((!) xs) (argsort xs))"
    using assms by (simp_all add: sorts_def)
  show l: "length (argsort xs) = length xs" using mset_eq_length [OF m] by simp
  show "set (argsort xs) = {..<length xs}" using mset_eq_setD [OF m] by (simp add: atLeast0LessThan)
  show "distinct (argsort xs)" using mset_eq_imp_distinct_iff [OF m] by simp
  show "xs ! (argsort xs ! a) \<le> xs ! (argsort xs ! b)" if "a \<le> b" "b < length xs"
    using sorted_nth_mono [OF s that(1)] that l by simp
qed

lemma sum_list_positive:
  fixes xs :: "'a::linordered_field list"
  assumes "\<forall>x \<in> set xs. 0 < x" "xs \<noteq> []"
  shows "0 < sum_list xs"
  using assms
proof (induction xs)
  case (Cons x xs)
  then show ?case by (cases xs) (auto intro: add_pos_pos)
qed simp

lemma softmax_pos:
  assumes "\<forall>x. 0 < e x" "i < length l"
  shows "0 < softmax e l ! i"
proof -
  have "0 < sum_list (map (\<lambda>x. e (x - Max (set l))) l)"
    using assms by (intro sum_list_positive) (auto simp: in_set_conv_nth)
  with assms show ?thesis by (simp add: softmax_def Let_def)
qed

lemma kept_drop_top_ranked:
  fixes p :: "'a::linorder list"
  assumes "sorts argsort" "n \<le> length p"
  shows "top_ranked p (set (drop n (argsort p)))"
  unfolding top_ranked_def
proof (intro ballI conjI allI impI)
  note s = sortsD [OF assms(1), where xs = p]
  fix i assume "i \<in> set (drop n (argsort p))"
  then obtain a' where a': "a' < length (argsort p) - n" "drop n (argsort p) ! a' = i"
    unfolding in_set_conv_nth by auto
  define a where "a = n + a'"
  have a: "n \<le> a" "a < length p" "i = argsort p ! a" using a' s(1) by (auto simp: a_def)
  show "i < length p" using s(1,2) a(2,3) nth_mem [of a "argsort p"] by auto
  fix j assume j: "j < length p" "p ! i < p ! j"
  obtain b where b: "b < length p" "j = argsort p ! b" using s(1,2) j(1) by (metis in_set_conv_nth lessThan_iff)
  have "n \<le> b"
  proof (rule ccontr)
    assume "\<not> n \<le> b"
    then have "p ! j \<le> p ! i" using s(4) [of b a] a b by simp
    with j(2) show False by simp
  qed
  then have "argsort p ! b = drop n (argsort p) ! (b - n)" "b - n < length (drop n (argsort p))"
    using b(1) s(1) assms(2) by auto
  then show "j \<in> set (drop n (argsort p))" using b(2) by (metis nth_mem)
qed

lemma sum_keep_only:
  fixes p :: "'a::comm_monoid_add list"
  assumes "distinct ks" "set ks \<subseteq> {..<length p}"
  shows "sum_list (keep_only ks p) = sum_list (map ((!) p) ks)"
proof -
  have "sum_list (keep_only ks p) = (\<Sum>i<length p. if i \<in> set ks then p ! i else 0)"
    by (simp add: keep_only_def interv_sum_list_conv_sum_set_nat atLeast0LessThan)
  also have "\<dots> = sum ((!) p) (set ks)"
    using assms(2) by (simp add: sum.If_cases Int_absorb1)
  finally show ?thesis using assms(1) by (simp add: sum_list_distinct_conv_sum_set)
qed

lemma filter_top_k_spec:
  assumes s: "sorts argsort" and p: "\<forall>x \<in> set p. 0 < x" "p \<noteq> []" and q: "filter_top_k argsort top_k p = Inr q"
  shows "length q = length p" "\<forall>x \<in> set q. 0 \<le> x" "0 < sum_list q" "top_ranked p (kept_ids q)"
    "\<exists>z > 0. \<forall>i \<in> kept_ids q. q ! i = p ! i / z"
    "top_k = None \<Longrightarrow> q = p" "top_k = Some k \<Longrightarrow> card (kept_ids q) = min (nat k) (length p)"
proof -
  have pn: "0 < p ! i" if "i < length p" for i using p(1) that by simp
  have "length q = length p \<and> (\<forall>x \<in> set q. 0 \<le> x) \<and> 0 < sum_list q \<and> top_ranked p (kept_ids q)
      \<and> (\<exists>z > 0. \<forall>i \<in> kept_ids q. q ! i = p ! i / z)
      \<and> (top_k = None \<longrightarrow> q = p) \<and> (\<forall>k. top_k = Some k \<longrightarrow> card (kept_ids q) = min (nat k) (length p))"
  proof (cases top_k)
    case None
    then have "q = p" using q by (simp add: filter_top_k_def)
    moreover have "kept_ids p = {..<length p}" using pn by (auto simp: kept_ids_def) (metis less_irrefl)
    ultimately show ?thesis using None p by (auto simp: top_ranked_def less_imp_le sum_list_positive intro!: exI [of _ 1])
  next
    case (Some k)
    define n where "n = length p - nat (min k (int (length p)))"
    define ks where "ks = drop n (argsort p)"
    define z where "z = sum_list (keep_only ks p)"
    note o = sortsD [OF s, where xs = p]
    have k: "0 < k" using q Some p(2) by (auto simp: filter_top_k_def Let_def split: if_splits)
    then have lk: "length ks = min (nat k) (length p)" "0 < length ks"
      using p(2) by (auto simp: ks_def n_def o(1))
    have ks: "distinct ks" "set ks \<subseteq> {..<length p}"
      using o(2,3) set_drop_subset [of n "argsort p"] by (auto simp: ks_def)
    have z: "0 < z" unfolding z_def sum_keep_only [OF ks] using pn ks(2) lk(2) by (intro sum_list_positive) auto
    have qz: "q = map (\<lambda>x. x / z) (keep_only ks p)"
    proof -
      have "\<not> min k (int (length p)) \<le> 0" using k p(2) by (cases p) auto
      moreover have "drop (length (argsort p) - nat (min k (int (length p)))) (argsort p) = ks"
        by (simp add: ks_def n_def o(1))
      ultimately show ?thesis using q Some z by (simp add: filter_top_k_def Let_def z_def)
    qed
    have "i \<in> kept_ids q \<longleftrightarrow> i \<in> set ks" for i
    proof (cases "i < length p")
      case True
      then show ?thesis using z pn [OF True] by (simp add: qz kept_ids_def keep_only_nth)
    qed (use ks(2) in \<open>auto simp: qz kept_ids_def\<close>)
    then have kept: "kept_ids q = set ks" by (rule set_eqI)
    have "sum_list q = 1" using z by (simp add: qz sum_list_divide z_def)
    moreover have "\<forall>x \<in> set q. 0 \<le> x" using z pn by (auto simp: qz keep_only_def less_imp_le)
    moreover have "top_ranked p (kept_ids q)" unfolding kept ks_def by (rule kept_drop_top_ranked [OF s]) (simp add: n_def)
    moreover have "\<forall>i \<in> kept_ids q. q ! i = p ! i / z" unfolding kept using ks(2) by (auto simp: qz keep_only_nth)
    moreover have "card (kept_ids q) = min (nat k) (length p)" unfolding kept distinct_card [OF ks(1)] lk(1) ..
    ultimately show ?thesis using Some z by (auto simp: qz)
  qed
  then show "length q = length p" "\<forall>x \<in> set q. 0 \<le> x" "0 < sum_list q" "top_ranked p (kept_ids q)"
    "\<exists>z > 0. \<forall>i \<in> kept_ids q. q ! i = p ! i / z" "top_k = None \<Longrightarrow> q = p"
    "top_k = Some k \<Longrightarrow> card (kept_ids q) = min (nat k) (length p)" by blast+
qed

lemma filter_top_p_spec:
  assumes s: "sorts argsort" and q: "\<forall>x \<in> set q. 0 \<le> x" "0 < sum_list q" and r: "r = filter_top_p argsort (Some v) q"
  shows "0 < sum_list r" "top_ranked q (kept_ids r)" "v \<le> sum_list r \<or> r = q"
    "\<forall>i \<in> kept_ids r. kept_ids r = {i} \<or> sum_list r - r ! i < v"
proof -
  define ord where "ord = rev (argsort q)"
  define c where "c = map ((!) q) ord"
  define m where "m = searchsorted (cumsum 0 c) v"
  note a = sortsD [OF s, where xs = q]
  have ord: "length ord = length q" "set ord = {..<length q}" "distinct ord" using a by (simp_all add: ord_def)
  have desc: "q ! (ord ! j) \<le> q ! (ord ! i)" if "i \<le> j" "j < length q" for i j
    using a(4) [of "length q - Suc j" "length q - Suc i"] a(1) that by (simp add: ord_def rev_nth)
  have qn: "q \<noteq> []" using q(2) by auto
  have nn: "0 \<le> q ! i" if "i < length q" for i using q(1) that by simp
  have rk: "r = keep_only (take (Suc m) ord) q" by (simp add: r filter_top_p_def Let_def ord_def c_def m_def)
  have ks: "distinct (take (Suc m) ord)" "set (take (Suc m) ord) \<subseteq> {..<length q}"
    using ord(2,3) set_take_subset [of "Suc m" ord] by auto
  have sr: "sum_list r = sum_list (take (Suc m) c)" unfolding rk sum_keep_only [OF ks] by (simp add: c_def take_map)
  have lc: "length c = length q" by (simp add: c_def ord(1))
  have before: "sum_list (take m c) < v" if m: "0 < m"
  proof -
    obtain m' where m': "m = Suc m'" using gr0_implies_Suc [OF m] by (elim exE)
    have "m \<le> length c" using searchsorted_bound [of "cumsum 0 c" v] by (simp add: m_def)
    moreover have "cumsum 0 c ! m' < v" using searchsorted_below [of m' "cumsum 0 c" v] m' by (simp add: m_def)
    ultimately show ?thesis by (simp add: m' cumsum_nth)
  qed
  have kept: "i \<in> kept_ids r \<longleftrightarrow> (\<exists>j \<le> m. j < length q \<and> i = ord ! j) \<and> q ! i \<noteq> 0" for i
  proof -
    have "i \<in> set (take (Suc m) ord) \<longleftrightarrow> (\<exists>j \<le> m. j < length q \<and> i = ord ! j)"
      using ord(1) by (auto simp: in_set_conv_nth less_Suc_eq_le)
    then show ?thesis using ks(2) by (auto simp: rk kept_ids_def keep_only_nth split: if_splits)
  qed
  have val: "r ! i = q ! i" if "i \<in> kept_ids r" for i
    using that by (auto simp: rk kept_ids_def keep_only_nth split: if_splits)
  show "top_ranked q (kept_ids r)" unfolding top_ranked_def
  proof (intro ballI conjI allI impI)
    fix i assume i: "i \<in> kept_ids r"
    then show il: "i < length q" by (auto simp: rk kept_ids_def)
    fix j assume j: "j < length q" "q ! i < q ! j"
    obtain ai where ai: "ai \<le> m" "ai < length q" "i = ord ! ai" using i kept by blast
    obtain aj where aj: "aj < length q" "j = ord ! aj" using ord(1,2) j(1) by (metis in_set_conv_nth lessThan_iff)
    have "\<not> ai \<le> aj" using desc [of ai aj] j(2) ai aj by auto
    then show "j \<in> kept_ids r" unfolding kept using ai aj nn [OF il] j(2) by (intro conjI exI [of _ aj]) auto
  qed
  show "v \<le> sum_list r \<or> r = q"
  proof (cases "m < length q")
    case True
    then have "v \<le> cumsum 0 c ! m" using searchsorted_at [of "cumsum 0 c" v] lc by (simp add: m_def)
    with True lc sr show ?thesis by (simp add: cumsum_nth)
  next
    case False
    then have "take (Suc m) ord = ord" using ord(1) by simp
    then have "r = map ((!) q) [0..<length q]" unfolding rk keep_only_def using ord(2) by (intro map_cong) simp_all
    then show ?thesis by (simp only: map_nth simp_thms)
  qed
  show "0 < sum_list r"
  proof -
    have "\<exists>x \<in> set q. 0 < x"
    proof (rule ccontr)
      assume "\<not> (\<exists>x \<in> set q. 0 < x)"
      then have "sum_list q \<le> 0" by (intro sum_list_nonpos) (simp add: not_less)
      with q(2) show False by simp
    qed
    then obtain i where i: "i < length q" "0 < q ! i" by (auto simp: in_set_conv_nth)
    then obtain b where b: "b < length q" "i = ord ! b" using ord(1,2) by (metis in_set_conv_nth lessThan_iff)
    have top: "0 < q ! (ord ! 0)" using desc [of 0 b] b i(2) by simp
    have l0: "ord ! 0 < length q" using ord(1,2) qn nth_mem [of 0 ord] by auto
    have "ord ! 0 \<in> kept_ids r" unfolding kept using top qn by (intro conjI exI [of _ 0]) auto
    then have "0 < r ! (ord ! 0)" using val top by simp
    moreover have "r ! (ord ! 0) \<in> set r" using l0 by (simp add: rk)
    moreover have rn: "\<forall>x \<in> set r. 0 \<le> x" using nn by (auto simp: rk keep_only_def)
    ultimately have "sum_list r \<noteq> 0" by (metis less_irrefl sum_list_nonneg_eq_0_iff)
    with rn sum_list_nonneg [of r] show ?thesis by (simp add: less_le)
  qed
  show "\<forall>i \<in> kept_ids r. kept_ids r = {i} \<or> sum_list r - r ! i < v"
  proof
    fix i assume i: "i \<in> kept_ids r"
    obtain ai where ai: "ai \<le> m" "ai < length q" "i = ord ! ai" using i kept by blast
    show "kept_ids r = {i} \<or> sum_list r - r ! i < v"
    proof (cases "m = 0")
      case True
      then show ?thesis using i kept by auto
    next
      case False
      have "sum_list r - r ! i \<le> sum_list (take m c)"
      proof (cases "m < length q")
        case True
        then have "sum_list r = sum_list (take m c) + q ! (ord ! m)" using lc
          by (simp add: sr take_Suc_conv_app_nth) (simp add: c_def ord(1))
        moreover have "q ! (ord ! m) \<le> q ! i" using desc [OF ai(1) True] ai(3) by simp
        ultimately show ?thesis using val [OF i] by simp
      next
        case False
        then have "sum_list r = sum_list (take m c)" using lc by (simp add: sr)
        moreover have "0 \<le> q ! i" using i by (intro nn) (auto simp: rk kept_ids_def)
        ultimately show ?thesis using val [OF i] by simp
      qed
      with before False show ?thesis by auto
    qed
  qed
qed

text \<open>What a draw selects; at zero, the first index.\<close>

lemma pick_zero:
  assumes "\<forall>x \<in> set q. 0 \<le> x" "q \<noteq> []"
  shows "pick 0 q = 0"
  using assms by (cases q) (auto simp: pick_def searchsorted_def)

lemma filtered_probs_spec:
  assumes s: "sorts argsort" and e: "\<forall>x. 0 < e x" and p: "filtered_probs e argsort top_k top_p l = Inr probs"
  shows "\<exists>q. filter_top_k argsort top_k (softmax e l) = Inr q \<and> probs = filter_top_p argsort top_p q
    \<and> length probs = length l \<and> 0 < sum_list probs \<and> (\<forall>x \<in> set probs. 0 \<le> x)
    \<and> top_ranked (softmax e l) (kept_ids probs)
    \<and> (\<forall>k. top_k = Some k \<longrightarrow> card (kept_ids probs) \<le> nat k
         \<and> (top_p = None \<longrightarrow> card (kept_ids probs) = min (nat k) (length l)))
    \<and> (\<forall>v. top_p = Some v \<longrightarrow> (v \<le> sum_list probs \<or> probs = q)
         \<and> (\<forall>i \<in> kept_ids probs. kept_ids probs = {i} \<or> sum_list probs - probs ! i < v))"
proof -
  let ?p = "softmax e l"
  obtain q where q: "filter_top_k argsort top_k ?p = Inr q" "probs = filter_top_p argsort top_p q" and l: "l \<noteq> []"
    using p by (auto simp: filtered_probs_def rbind_Inr_iff split: if_splits)
  have pos: "\<forall>x \<in> set ?p. 0 < x" using softmax_pos [OF e] by (auto simp: in_set_conv_nth)
  have ne: "?p \<noteq> []" using l by (auto simp: softmax_def Let_def)
  note k = filter_top_k_spec [OF s pos ne q(1)]
  have nn: "\<forall>x \<in> set probs. 0 \<le> x"
    using k(2) by (auto simp: q(2) filter_top_p_def keep_only_def Let_def split: option.splits)
  have sub: "kept_ids probs \<subseteq> kept_ids q" using filter_top_p_kept q(2) by metis
  have fin: "finite (kept_ids q)" by (simp add: kept_ids_def)
  have len: "length probs = length l" using k(1) q(2) by simp
  obtain z where z: "0 < z" "\<forall>i \<in> kept_ids q. q ! i = ?p ! i / z" using k(5) by blast
  have rank: "top_ranked ?p (kept_ids probs) \<and> 0 < sum_list probs"
  proof (cases top_p)
    case None
    then show ?thesis using k(3,4) q(2) by (simp add: filter_top_p_def)
  next
    case (Some v)
    note t = filter_top_p_spec [OF s k(2,3) q(2) [unfolded Some]]
    have "top_ranked ?p (kept_ids probs)" unfolding top_ranked_def
    proof (intro ballI conjI allI impI)
      fix i assume i: "i \<in> kept_ids probs"
      then show "i < length ?p" using len by (simp add: kept_ids_def)
      fix j assume j: "j < length ?p" "?p ! i < ?p ! j"
      have iq: "i \<in> kept_ids q" using i sub by blast
      have jq: "j \<in> kept_ids q" by (rule top_rankedD [OF k(4) iq j])
      have "q ! i < q ! j" unfolding bspec [OF z(2) iq] bspec [OF z(2) jq] by (rule divide_strict_right_mono [OF j(2) z(1)])
      then show "j \<in> kept_ids probs" using top_rankedD [OF t(2) i, of j] j(1) k(1) by simp
    qed
    with t(1) show ?thesis by blast
  qed
  have "card (kept_ids probs) \<le> nat k' \<and> (top_p = None \<longrightarrow> card (kept_ids probs) = min (nat k') (length l))"
    if "top_k = Some k'" for k'
    using k(7) [OF that] card_mono [OF fin sub] q(2) by (auto simp: filter_top_p_def)
  moreover have "(v \<le> sum_list probs \<or> probs = q)
       \<and> (\<forall>i \<in> kept_ids probs. kept_ids probs = {i} \<or> sum_list probs - probs ! i < v)" if "top_p = Some v" for v
    using filter_top_p_spec(3,4) [OF s k(2,3) q(2) [unfolded that]] by (intro conjI)
  ultimately show ?thesis using q len rank nn by (intro exI [of _ q] conjI allI impI) simp_all
qed

section \<open>Properties\<close>

text \<open>
  C9: what \<open>sample\<close> returns.  Without a positive temperature it is the first largest logit.  With one,
  let \<open>p\<close> be the softmax of the scaled logits.  The filters leave tokens that are more probable under \<open>p\<close>
  than all others: at most \<open>k\<close> of them, exactly \<open>k\<close> where there are as many and \<open>top_p\<close> is absent; and under
  \<open>top_p\<close> they have that mass, or nothing was cut, and would not have it without any one of them.  A
  draw above zero selects one of these tokens.  A draw of exactly zero, which \<open>Generator.random\<close> may
  return, selects token zero, whatever the filters removed.
\<close>

theorem sample_respects_filters:
  assumes "sorts (np_argsort N)" and "\<forall>x. 0 < np_exp N x"
    and "0 \<le> fst (np_random N g)" and "fst (np_random N g) < 1"
    and "fst (sample N temp top_k top_p g logits) = Inr tok"
  shows "0 \<le> tok \<and> nat tok < length logits
    \<and> ((\<forall>t. temp = Some t \<longrightarrow> t \<le> 0) \<longrightarrow>
         (\<forall>j < length logits. logits ! j \<le> logits ! nat tok) \<and> (\<forall>j < nat tok. logits ! j < logits ! nat tok))
    \<and> (\<forall>t p. temp = Some t \<longrightarrow> 0 < t \<longrightarrow> p = softmax (np_exp N) (map (\<lambda>x. x / t) logits) \<longrightarrow>
         (\<exists>q probs. filter_top_k (np_argsort N) top_k p = Inr q \<and> probs = filter_top_p (np_argsort N) top_p q
            \<and> (if fst (np_random N g) = 0 then tok = 0 else nat tok \<in> kept_ids probs)
            \<and> top_ranked p (kept_ids probs)
            \<and> (\<forall>k. top_k = Some k \<longrightarrow> card (kept_ids probs) \<le> nat k
                 \<and> (top_p = None \<longrightarrow> card (kept_ids probs) = min (nat k) (length logits)))
            \<and> (\<forall>v. top_p = Some v \<longrightarrow> (v \<le> sum_list probs \<or> probs = q)
                 \<and> (\<forall>i \<in> kept_ids probs. kept_ids probs = {i} \<or> sum_list probs - probs ! i < v))))"
proof (cases "\<forall>t. temp = Some t \<longrightarrow> t \<le> 0")
  case True
  then have "greedy logits = Inr tok" using assms(5) by (cases temp) (auto simp: sample_def)
  from greedy_Inr [OF this] True show ?thesis by (auto simp: not_le)
next
  case False
  then obtain t where t: "temp = Some t" "0 < t" by (auto simp: not_le)
  let ?l = "map (\<lambda>x. x / t) logits" and ?r = "fst (np_random N g)"
  obtain probs where f: "filtered_probs (np_exp N) (np_argsort N) top_k top_p ?l = Inr probs"
    using assms(5) t by (auto simp: sample_def Let_def split: sum.splits)
  obtain q where q: "filter_top_k (np_argsort N) top_k (softmax (np_exp N) ?l) = Inr q"
    "probs = filter_top_p (np_argsort N) top_p q" "length probs = length logits" "0 < sum_list probs"
    "\<forall>x \<in> set probs. 0 \<le> x" "top_ranked (softmax (np_exp N) ?l) (kept_ids probs)"
    "\<forall>k. top_k = Some k \<longrightarrow> card (kept_ids probs) \<le> nat k
       \<and> (top_p = None \<longrightarrow> card (kept_ids probs) = min (nat k) (length logits))"
    "\<forall>v. top_p = Some v \<longrightarrow> (v \<le> sum_list probs \<or> probs = q)
       \<and> (\<forall>i \<in> kept_ids probs. kept_ids probs = {i} \<or> sum_list probs - probs ! i < v)"
    using filtered_probs_spec [OF assms(1,2) f] by auto
  let ?q = "map (\<lambda>x. x / sum_list probs) probs"
  have tok: "tok = pick ?r ?q" using assms(5) t f q(4) by (simp add: sample_def Let_def case_prod_beta)
  have P: "0 \<le> tok \<and> nat tok < length probs \<and> (if ?r = 0 then tok = 0 else nat tok \<in> kept_ids probs)"
  proof (cases "?r = 0")
    case True
    have "?q \<noteq> []" using q(4) by auto
    then have "tok = 0" unfolding tok True using q(4,5) by (intro pick_zero) auto
    then show ?thesis using True \<open>?q \<noteq> []\<close> by simp
  next
    case False
    have "sum_list ?q = 1" using q(4) by (simp add: sum_list_divide)
    then have "0 \<le> tok" "nat tok < length probs" "0 < ?q ! nat tok"
      using pick_support [of ?r ?q] assms(3,4) False tok by auto
    then show ?thesis using False q(4) by (auto simp: kept_ids_def)
  qed
  with q t show ?thesis by auto
qed

text \<open>A small run: three logits, an exponential table for them, a stable sort.\<close>

definition argsort3 :: "rat list \<Rightarrow> nat list" where
  "argsort3 xs = sort_key (\<lambda>i. xs ! i) [0..<length xs]"

definition exp3 :: "rat \<Rightarrow> rat" where
  "exp3 x = (if x = 0 then 1 else if x = -1 then 1/2 else 1/4)"

definition numpy3 :: "(rat, rat) numpy" where
  "numpy3 = \<lparr>np_exp = exp3, np_argsort = argsort3, np_random = (\<lambda>g. (g, g / 2)), np_rng = (\<lambda>_. 1)\<rparr>"

lemma run3_filtered:
  "filtered_probs (np_exp numpy3) (np_argsort numpy3) (Some 2) (Some (9/10)) (map (\<lambda>x. x / 2) [0, 4, 2])
     = Inr [0, 2/3, 1/3]"
  by (code_simp)

lemma run3_sample: "fst (sample numpy3 (Some 2) (Some 2) (Some (9/10)) (3/4) [0, 4, 2]) = Inr 2"
  by (code_simp)

lemma argsort3_sorts: "sorts argsort3"
proof -
  have "sorted (map ((!) xs) (argsort3 xs))" for xs :: "rat list"
    unfolding argsort3_def by (rule sorted_sort_key)
  then show ?thesis by (simp add: sorts_def argsort3_def)
qed

theorem sample_respects_filters_witness:
  "\<exists>probs. nat 2 \<in> kept_ids probs \<and> card (kept_ids probs) \<le> 2 \<and> probs \<noteq> ([] :: rat list)
     \<and> top_ranked (softmax exp3 (map (\<lambda>x. x / 2) [0, 4, 2])) (kept_ids probs)"
proof -
  have "\<forall>x. 0 < np_exp numpy3 x" by (simp add: numpy3_def exp3_def)
  note * = sample_respects_filters [OF _ this _ _ run3_sample]
  have "\<exists>q probs. probs = filter_top_p (np_argsort numpy3) (Some (9 / 10)) q \<and> nat 2 \<in> kept_ids probs
      \<and> top_ranked (softmax exp3 (map (\<lambda>x. x / 2) [0, 4, 2])) (kept_ids probs) \<and> card (kept_ids probs) \<le> nat 2"
    using * argsort3_sorts by (simp add: numpy3_def) blast
  then obtain q probs where "probs = filter_top_p (np_argsort numpy3) (Some (9 / 10)) q \<and> nat 2 \<in> kept_ids probs
      \<and> top_ranked (softmax exp3 (map (\<lambda>x. x / 2) [0, 4, 2])) (kept_ids probs) \<and> card (kept_ids probs) \<le> nat 2"
    by (elim exE)
  then have "nat 2 \<in> kept_ids probs \<and> card (kept_ids probs) \<le> nat 2
      \<and> top_ranked (softmax exp3 (map (\<lambda>x. x / 2) [0, 4, 2])) (kept_ids probs)" by blast
  then have "nat 2 \<in> kept_ids probs" "card (kept_ids probs) \<le> 2"
    "top_ranked (softmax exp3 (map (\<lambda>x. x / 2) [0, 4, 2])) (kept_ids probs)" by simp_all
  moreover from this have "probs \<noteq> []" by (auto simp: kept_ids_def)
  ultimately show ?thesis by blast
qed

text \<open>
  A draw of zero escapes the filters: a uniform draw of exactly \<open>0.0\<close> (which \<open>Generator.random\<close>
  may return) selects the first token even when the filters removed it, because \<open>searchsorted\<close>
  takes the left side.
\<close>

lemma sample_zero_draw_escapes_filters:
  "fst (sample numpy3 (Some 2) (Some 2) (Some (9/10)) 0 [0, 4, 2]) = Inr 0"
  "[0, 2/3, 1/3 :: rat] ! 0 = 0"
  by (code_simp, simp)

text \<open>
  The repetition penalty keeps the length, changes only listed ids that are in range, and with
  a penalty above one lowers every listed logit that is not zero and raises none.
\<close>

theorem repetition_penalty_lowers:
  fixes logits :: "'a::linordered_field list"
  assumes "1 < p"
  shows "length (apply_repetition_penalty logits ids (Some p)) = length logits
    \<and> (\<forall>i < length logits.
         (case ids of None \<Rightarrow> True | Some js \<Rightarrow> int i \<notin> set js)
           \<longrightarrow> apply_repetition_penalty logits ids (Some p) ! i = logits ! i)
    \<and> (\<forall>js. \<forall>i < length logits. ids = Some js \<longrightarrow> int i \<in> set js \<longrightarrow> logits ! i \<noteq> 0
           \<longrightarrow> apply_repetition_penalty logits ids (Some p) ! i < logits ! i)
    \<and> (\<forall>i < length logits. apply_repetition_penalty logits ids (Some p) ! i \<le> logits ! i)"
  using assms
  by (auto simp: apply_repetition_penalty_def Let_def penalize_le penalize_less split: option.splits)

theorem repetition_penalty_lowers_witness:
  "apply_repetition_penalty [2, -1, 5] (Some [1, 0, 1, -3, 9]) (Some 2) = [1, -2, 5 :: rat]
   \<and> length (apply_repetition_penalty [2, -1, 5 :: rat] (Some [1, 0, 1, -3, 9]) (Some 2))
       = length [2, -1, 5 :: rat]"
proof
  show "apply_repetition_penalty [2, -1, 5] (Some [1, 0, 1, -3, 9]) (Some 2) = [1, -2, 5 :: rat]"
    by code_simp
  show "length (apply_repetition_penalty [2, -1, 5 :: rat] (Some [1, 0, 1, -3, 9]) (Some 2))
       = length [2, -1, 5 :: rat]"
    using repetition_penalty_lowers[of 2 "[2, -1, 5 :: rat]" "Some [1, 0, 1, -3, 9]"] by simp
qed

end
