(* ===== verification/Generate.thy ===== *)
theory Generate
  imports Sampler
begin

text \<open>
  Model of \<open>generate\<close>, \<open>_maybe_penalize\<close> and \<open>generate_stream\<close> of \<open>serving/executor.py\<close>.  The
  network is behind an interface, as in the code: \<open>lm\<close> holds the four methods the loops call,
  each of which may raise.  A cache that \<open>decode_step\<close> mutates is returned by it.
\<close>

section \<open>The interface of the model and the parameters of a request\<close>

record ('c, 'f, 'i) lm =
  supports_incremental :: bool
  is_dsv4 :: bool
  max_context :: "int option"
  prefill :: "int list \<Rightarrow> 'i option \<Rightarrow> ('c \<times> 'f list) pure_result"
  decode_step :: "'c \<Rightarrow> int \<Rightarrow> ('f list \<times> 'c) pure_result"
  full_logits :: "int list \<Rightarrow> 'f list pure_result"

record 'f sampling =
  temperature :: "'f option"
  top_k :: "int option"
  top_p :: "'f option"
  repetition :: "'f option"
  seed :: "int option"

datatype reason = Stop | Length | Abort

definition maybe_penalize ::
  "'f::linordered_field list \<Rightarrow> int list \<Rightarrow> 'f option \<Rightarrow> 'f list" where
  "maybe_penalize logits ids rep =
     (if rep = None \<or> rep = Some 1 then logits else apply_repetition_penalty logits (Some ids) rep)"

text \<open>The lines both loops share: penalise, then take the argmax or sample.\<close>

definition next_token ::
  "('f::linordered_field, 'g) numpy \<Rightarrow> 'f sampling \<Rightarrow> int list \<Rightarrow> 'f list \<Rightarrow> 'g
    \<Rightarrow> int pure_result \<times> 'g" where
  "next_token N P ids logits0 g =
     (let logits = maybe_penalize logits0 ids (repetition P) in
      case temperature P of
        Some t \<Rightarrow>
          (if t \<le> 0 then (greedy logits, g)
           else sample N (Some t) (top_k P) (top_p P) g logits)
      | None \<Rightarrow> sample N None (top_k P) (top_p P) g logits)"

section \<open>generate\<close>

text \<open>
  The counter is what is left of \<open>range(max_new)\<close>.  The arguments of \<open>diag.debug\<close> are evaluated
  whatever the log level is, so its \<open>greedy(logits)\<close> may raise.
\<close>

fun gen_inc ::
  "('f::linordered_field, 'g) numpy \<Rightarrow> ('c, 'f, 'i) lm \<Rightarrow> 'f sampling \<Rightarrow> int list \<Rightarrow> int
    \<Rightarrow> nat \<Rightarrow> 'c \<Rightarrow> 'f list \<Rightarrow> 'g \<Rightarrow> int list \<Rightarrow> (int list \<times> reason) pure_result" where
  "gen_inc N M P stop mc 0 c logits g ids = Inr (ids, Length)"
| "gen_inc N M P stop mc (Suc n) c logits g ids =
     (case next_token N P ids logits g of
        (Inl e, g') \<Rightarrow> Inl e
      | (Inr t, g') \<Rightarrow>
          if t \<in> set stop then Inr (ids, Stop)
          else
            let ids' = ids @ [t] in
            if int (length ids') \<ge> mc then Inr (ids', Length)
            else rbind (decode_step M c t) (\<lambda>(logits', c').
                   rbind (greedy logits') (\<lambda>_.
                     gen_inc N M P stop mc n c' logits' g' ids')))"

fun gen_full ::
  "('f::linordered_field, 'g) numpy \<Rightarrow> ('c, 'f, 'i) lm \<Rightarrow> 'f sampling \<Rightarrow> int list \<Rightarrow> int option
    \<Rightarrow> nat \<Rightarrow> 'g \<Rightarrow> int list \<Rightarrow> (int list \<times> reason) pure_result" where
  "gen_full N M P stop mc 0 g ids = Inr (ids, Length)"
| "gen_full N M P stop mc (Suc n) g ids =
     rbind (full_logits M ids) (\<lambda>logits.
       case next_token N P ids logits g of
         (Inl e, g') \<Rightarrow> Inl e
       | (Inr t, g') \<Rightarrow>
           if t \<in> set stop then Inr (ids, Stop)
           else
             let ids' = ids @ [t] in
             if (case mc of None \<Rightarrow> False | Some m \<Rightarrow> int (length ids') \<ge> m)
             then Inr (ids', Length)
             else rbind (greedy (maybe_penalize logits ids (repetition P))) (\<lambda>_.
                    gen_full N M P stop mc n g' ids'))"

text \<open>The checks and the prefill both entry points make before the incremental loop.\<close>

definition start_inc ::
  "('c, 'f, 'i) lm \<Rightarrow> int list \<Rightarrow> 'i option \<Rightarrow> (int \<times> 'c \<times> 'f list) pure_result" where
  "start_inc M prompt images =
     (case max_context M of
        None \<Rightarrow> Inl AttributeError
      | Some mc \<Rightarrow>
          if int (length prompt) \<ge> mc then Inl ValueError
          else if images \<noteq> None \<and> \<not> is_dsv4 M then Inl ValueError
          else rbind (prefill M prompt images) (\<lambda>(c, logits). Inr (mc, c, logits)))"

definition generate ::
  "('f::linordered_field, 'g) numpy \<Rightarrow> ('c, 'f, 'i) lm \<Rightarrow> 'f sampling \<Rightarrow> int list \<Rightarrow> int \<Rightarrow> 'i option
    \<Rightarrow> int list \<Rightarrow> (int list \<times> reason \<times> int) pure_result" where
  "generate N M P stop max_new images prompt =
     rbind (if supports_incremental M
            then rbind (start_inc M prompt images) (\<lambda>(mc, c, logits).
                   gen_inc N M P stop mc (nat max_new) c logits (np_rng N (seed P)) prompt)
            else gen_full N M P stop (max_context M) (nat max_new) (np_rng N (seed P)) prompt)
       (\<lambda>(ids, r). Inr (ids, r, int (length ids) - int (length prompt)))"

section \<open>generate\_stream\<close>

text \<open>
  A Python generator is the list of what it yields and how it ends.  \<open>dec\<close> is
  \<open>tokenizer.decode\<close>; a text is the list of its characters.  \<open>full[len(last_full):]\<close> drops as
  many characters as the previous text had.
\<close>

type_synonym 't event = "'t list \<times> reason option"

definition delta_text :: "(int list \<Rightarrow> 't list) \<Rightarrow> int list \<Rightarrow> 't list \<Rightarrow> 't list \<times> 't list" where
  "delta_text dec gen last_full = (let full = dec gen in (drop (length last_full) full, full))"

fun stream_inc ::
  "('f::linordered_field, 'g) numpy \<Rightarrow> ('c, 'f, 'i) lm \<Rightarrow> 'f sampling \<Rightarrow> int list \<Rightarrow> int
    \<Rightarrow> (int list \<Rightarrow> 't list) \<Rightarrow> nat \<Rightarrow> nat \<Rightarrow> 'c \<Rightarrow> 'f list \<Rightarrow> 'g \<Rightarrow> int list \<Rightarrow> 't list
    \<Rightarrow> 't event list \<times> py_error option" where
  "stream_inc N M P stop mc dec k0 0 c logits g ids seen = ([([], Some Length)], None)"
| "stream_inc N M P stop mc dec k0 (Suc n) c logits g ids seen =
     (case next_token N P ids logits g of
        (Inl e, g') \<Rightarrow> ([], Some e)
      | (Inr t, g') \<Rightarrow>
          if t \<in> set stop then ([([], Some Stop)], None)
          else
            let ids' = ids @ [t]; (d, full) = delta_text dec (drop k0 ids') seen in
            if int (length ids') \<ge> mc then ([(d, None), ([], Some Length)], None)
            else
              (case decode_step M c t of
                 Inl e \<Rightarrow> ([(d, None)], Some e)
               | Inr (logits', c') \<Rightarrow>
                   let (evs, r) = stream_inc N M P stop mc dec k0 n c' logits' g' ids' full in
                   ((d, None) # evs, r)))"

fun stream_full ::
  "('f::linordered_field, 'g) numpy \<Rightarrow> ('c, 'f, 'i) lm \<Rightarrow> 'f sampling \<Rightarrow> int list \<Rightarrow> int option
    \<Rightarrow> (int list \<Rightarrow> 't list) \<Rightarrow> nat \<Rightarrow> nat \<Rightarrow> 'g \<Rightarrow> int list \<Rightarrow> 't list
    \<Rightarrow> 't event list \<times> py_error option" where
  "stream_full N M P stop mc dec k0 0 g ids seen = ([([], Some Length)], None)"
| "stream_full N M P stop mc dec k0 (Suc n) g ids seen =
     (case full_logits M ids of
        Inl e \<Rightarrow> ([], Some e)
      | Inr logits \<Rightarrow>
          (case next_token N P ids logits g of
             (Inl e, g') \<Rightarrow> ([], Some e)
           | (Inr t, g') \<Rightarrow>
               if t \<in> set stop then ([([], Some Stop)], None)
               else
                 let ids' = ids @ [t]; (d, full) = delta_text dec (drop k0 ids') seen in
                 if (case mc of None \<Rightarrow> False | Some m \<Rightarrow> int (length ids') \<ge> m)
                 then ([(d, None), ([], Some Length)], None)
                 else
                   let (evs, r) = stream_full N M P stop mc dec k0 n g' ids' full in
                   ((d, None) # evs, r)))"

definition generate_stream ::
  "('f::linordered_field, 'g) numpy \<Rightarrow> ('c, 'f, 'i) lm \<Rightarrow> 'f sampling \<Rightarrow> int list \<Rightarrow> int \<Rightarrow> 'i option
    \<Rightarrow> (int list \<Rightarrow> 't list) \<Rightarrow> int list \<Rightarrow> 't event list \<times> py_error option" where
  "generate_stream N M P stop max_new images dec prompt =
     (if supports_incremental M
      then (case start_inc M prompt images of
              Inl e \<Rightarrow> ([], Some e)
            | Inr (mc, c, logits) \<Rightarrow>
                stream_inc N M P stop mc dec (length prompt) (nat max_new) c logits
                  (np_rng N (seed P)) prompt [])
      else stream_full N M P stop (max_context M) dec (length prompt) (nat max_new)
             (np_rng N (seed P)) prompt [])"

section \<open>Lemmas\<close>

lemma gen_inc_contract:
  "gen_inc N M P stop mc n c l g ids = Inr (ids', r) \<Longrightarrow>
    \<exists>gen. ids' = ids @ gen \<and> length gen \<le> n \<and> set gen \<inter> set stop = {}
      \<and> (int (length ids) < mc \<longrightarrow> int (length ids') \<le> mc)
      \<and> r \<noteq> Abort \<and> (r = Length \<longrightarrow> length gen = n \<or> mc \<le> int (length ids'))"
proof (induction n arbitrary: c l g ids)
  case (Suc n)
  show ?case
  proof (cases "next_token N P ids l g")
    case (Pair q g')
    then obtain t where t: "q = Inr t" using Suc.prems by (cases q) auto
    show ?thesis
    proof (cases "t \<in> set stop \<or> mc \<le> int (length (ids @ [t]))")
      case True
      then show ?thesis using Suc.prems Pair t
        by (auto simp: Let_def split: if_splits)
    next
      case False
      then obtain l' c' where "gen_inc N M P stop mc n c' l' g' (ids @ [t]) = Inr (ids', r)"
        using Suc.prems Pair t by (auto simp: rbind_Inr_iff Let_def)
      from Suc.IH[OF this] obtain gen where
        "ids' = ids @ t # gen" "length gen \<le> n" "set gen \<inter> set stop = {}"
        "int (length (ids @ [t])) < mc \<longrightarrow> int (length ids') \<le> mc" "r \<noteq> Abort"
        "r = Length \<longrightarrow> length gen = n \<or> mc \<le> int (length ids')" by auto
      then show ?thesis using False by (intro exI[of _ "t # gen"]) auto
    qed
  qed
qed simp

lemma gen_full_contract:
  "gen_full N M P stop mc n g ids = Inr (ids', r) \<Longrightarrow>
    \<exists>gen. ids' = ids @ gen \<and> length gen \<le> n \<and> set gen \<inter> set stop = {}
      \<and> (\<forall>m. mc = Some m \<longrightarrow> int (length ids) < m \<longrightarrow> int (length ids') \<le> m)
      \<and> r \<noteq> Abort
      \<and> (r = Length \<longrightarrow> length gen = n \<or> (\<exists>m. mc = Some m \<and> m \<le> int (length ids')))"
proof (induction n arbitrary: g ids)
  case (Suc n)
  obtain l where l: "full_logits M ids = Inr l" using Suc.prems by (auto simp: rbind_Inr_iff)
  show ?case
  proof (cases "next_token N P ids l g")
    case (Pair q g')
    then obtain t where t: "q = Inr t" using Suc.prems l by (cases q) auto
    show ?thesis
    proof (cases "t \<in> set stop \<or> (\<exists>m. mc = Some m \<and> m \<le> int (length (ids @ [t])))")
      case True
      then show ?thesis using Suc.prems Pair t l
        by (auto simp: Let_def split: if_splits option.splits)
    next
      case False
      then have "gen_full N M P stop mc n g' (ids @ [t]) = Inr (ids', r)"
        using Suc.prems Pair t l by (auto simp: rbind_Inr_iff Let_def split: option.splits)
      from Suc.IH[OF this] obtain gen where
        "ids' = ids @ t # gen" "length gen \<le> n" "set gen \<inter> set stop = {}"
        "\<forall>m. mc = Some m \<longrightarrow> int (length (ids @ [t])) < m \<longrightarrow> int (length ids') \<le> m" "r \<noteq> Abort"
        "r = Length \<longrightarrow> length gen = n \<or> (\<exists>m. mc = Some m \<and> m \<le> int (length ids'))" by auto
      then show ?thesis using False by (intro exI[of _ "t # gen"]) auto
    qed
  qed
qed simp

text \<open>Greedy decoding never consults the generator, so its output does not depend on the seed.\<close>

lemma next_token_greedy:
  assumes "temperature P = Some t" "t \<le> 0"
  shows "next_token N P ids l g = (greedy (maybe_penalize l ids (repetition P)), g)"
  using assms by (simp add: next_token_def Let_def)

lemma gen_inc_seed:
  assumes "temperature P = Some t" "t \<le> 0"
  shows "gen_inc N M P stop mc n c l g ids = gen_inc N M P stop mc n c l g' ids"
  using assms
proof (induction n arbitrary: c l g ids g')
  case (Suc n)
  show ?case
    using Suc.IH[OF Suc.prems, of _ _ g _ g'] Suc.prems
    by (auto simp: next_token_greedy Let_def rbind_def split: sum.splits prod.splits)
qed simp

text \<open>
  A cache law: what \<open>prefill\<close> and \<open>decode_step\<close> return through a cache are the logits of the whole
  context.  \<open>R c ids\<close> says that the cache \<open>c\<close> stands for the context \<open>ids\<close>.
\<close>

definition coherent :: "('c, 'f, 'i) lm \<Rightarrow> ('c \<Rightarrow> int list \<Rightarrow> bool) \<Rightarrow> bool" where
  "coherent M R \<longleftrightarrow>
     (\<forall>ids c l. prefill M ids None = Inr (c, l) \<longrightarrow> R c ids \<and> full_logits M ids = Inr l)
   \<and> (\<forall>c ids t l c'. R c ids \<longrightarrow> decode_step M c t = Inr (l, c')
        \<longrightarrow> R c' (ids @ [t]) \<and> full_logits M (ids @ [t]) = Inr l)"

lemma greedy_penalized:
  "greedy l = Inr t \<Longrightarrow> \<exists>t'. greedy (maybe_penalize l ids r) = Inr t'"
proof -
  assume "greedy l = Inr t"
  then have "l \<noteq> []" by (auto simp: greedy_def)
  then have "maybe_penalize l ids r \<noteq> []"
    by (auto simp: maybe_penalize_def apply_repetition_penalty_def Let_def split: option.splits)
  then show ?thesis by (rule greedy_total)
qed

lemma sample_nonempty: "fst (sample N t k p g l) = Inr x \<Longrightarrow> l \<noteq> []"
  by (auto simp: sample_def filtered_probs_def greedy_def Let_def
      split: option.splits if_splits sum.splits prod.splits list.splits)

lemma next_token_nonempty:
  assumes "next_token N P ids l g = (Inr x, g')"
  shows "\<exists>t. greedy (maybe_penalize l ids (repetition P)) = Inr t"
proof (cases "temperature P")
  case None
  then have "maybe_penalize l ids (repetition P) \<noteq> []"
    using assms by (intro sample_nonempty[of N None "top_k P" "top_p P" g _ x])
      (simp add: next_token_def Let_def)
  then show ?thesis by (rule greedy_total)
next
  case (Some t)
  show ?thesis
  proof (cases "t \<le> 0")
    case True
    then show ?thesis using assms Some by (simp add: next_token_def Let_def)
  next
    case False
    then have "maybe_penalize l ids (repetition P) \<noteq> []"
      using assms Some by (intro sample_nonempty[of N "Some t" "top_k P" "top_p P" g _ x])
        (simp add: next_token_def Let_def)
    then show ?thesis by (rule greedy_total)
  qed
qed

lemma gen_inc_full:
  assumes co: "coherent M R"
  shows "R c ids \<Longrightarrow> full_logits M ids = Inr l \<Longrightarrow>
    gen_inc N M P stop mc n c l g ids = Inr res \<Longrightarrow>
    gen_full N M P stop (Some mc) n g ids = Inr res"
proof (induction n arbitrary: c l g ids)
  case (Suc n)
  show ?case
  proof (cases "next_token N P ids l g")
    case (Pair q g')
    then obtain t where t: "q = Inr t" using Suc.prems by (cases q) auto
    show ?thesis
    proof (cases "t \<in> set stop \<or> mc \<le> int (length (ids @ [t]))")
      case True
      then show ?thesis using Suc.prems Pair t by (auto simp: Let_def split: if_splits)
    next
      case False
      then obtain l' c' where d: "decode_step M c t = Inr (l', c')"
        "gen_inc N M P stop mc n c' l' g' (ids @ [t]) = Inr res"
        using Suc.prems Pair t by (auto simp: rbind_Inr_iff Let_def)
      have R: "R c' (ids @ [t])" "full_logits M (ids @ [t]) = Inr l'"
        using co d(1) Suc.prems(1) unfolding coherent_def by blast+
      obtain t' where "greedy (maybe_penalize l ids (repetition P)) = Inr t'"
        using next_token_nonempty[of N P ids l g t g'] Pair t by auto
      then show ?thesis using Suc.IH[OF R d(2)] False Pair t Suc.prems(2) by (simp add: Let_def)
    qed
  qed
qed simp

text \<open>The deltas of a token list: what each further token adds to the decoded text.\<close>

fun deltas :: "(int list \<Rightarrow> 't list) \<Rightarrow> int list \<Rightarrow> 't list \<Rightarrow> int list \<Rightarrow> 't list list" where
  "deltas dec gen seen [] = []"
| "deltas dec gen seen (t # ts) =
     (let full = dec (gen @ [t]) in
      drop (length seen) full # deltas dec (gen @ [t]) full ts)"

definition events :: "'t list list \<Rightarrow> reason \<Rightarrow> 't event list" where
  "events ds r = map (\<lambda>d. (d, None)) ds @ [([], Some r)]"

lemma events_simps [simp]:
  "events [] r = [([], Some r)]"
  "events (d # ds) r = (d, None) # events ds r"
  by (simp_all add: events_def)

lemma concat_deltas:
  assumes "\<And>k. k < length ts \<Longrightarrow> \<exists>ys. dec (gen @ take (Suc k) ts)
             = (if k = 0 then seen else dec (gen @ take k ts)) @ ys"
    and "ts \<noteq> []"
  shows "seen @ concat (deltas dec gen seen ts) = dec (gen @ ts)"
  using assms
proof (induction ts arbitrary: gen seen)
  case (Cons t ts)
  let ?full = "dec (gen @ [t])"
  obtain ys where ys: "?full = seen @ ys" using Cons.prems(1)[of 0] by auto
  show ?case
  proof (cases "ts = []")
    case True
    then show ?thesis using ys by (simp add: Let_def)
  next
    case False
    have "?full @ concat (deltas dec (gen @ [t]) ?full ts) = dec ((gen @ [t]) @ ts)"
    proof (rule Cons.IH[OF _ False])
      fix k assume "k < length ts"
      then show "\<exists>ys. dec ((gen @ [t]) @ take (Suc k) ts)
             = (if k = 0 then ?full else dec ((gen @ [t]) @ take k ts)) @ ys"
        using Cons.prems(1)[of "Suc k"] by auto
    qed
    with ys show ?thesis by (simp add: Let_def)
  qed
qed simp

lemma stream_inc_deltas:
  "gen_inc N M P stop mc n c l g ids = Inr (ids', r) \<Longrightarrow> k0 \<le> length ids \<Longrightarrow>
    stream_inc N M P stop mc dec k0 n c l g ids seen
      = (events (deltas dec (drop k0 ids) seen (drop (length ids) ids')) r, None)"
proof (induction n arbitrary: c l g ids seen)
  case (Suc n)
  show ?case
  proof (cases "next_token N P ids l g")
    case (Pair q g')
    then obtain t where t: "q = Inr t" using Suc.prems by (cases q) auto
    show ?thesis
    proof (cases "t \<in> set stop \<or> mc \<le> int (length (ids @ [t]))")
      case True
      then show ?thesis using Suc.prems Pair t
        by (auto simp: Let_def delta_text_def split: if_splits)
    next
      case False
      then obtain l' c' where d: "decode_step M c t = Inr (l', c')"
        "gen_inc N M P stop mc n c' l' g' (ids @ [t]) = Inr (ids', r)"
        using Suc.prems Pair t by (auto simp: rbind_Inr_iff Let_def)
      obtain gen where "ids' = (ids @ [t]) @ gen" using gen_inc_contract[OF d(2)] by blast
      then show ?thesis
        using False d Pair t Suc.prems(2) Suc.IH[OF d(2), of "dec (drop k0 (ids @ [t]))"]
        by (simp add: Let_def delta_text_def)
    qed
  qed
qed simp

lemma stream_full_deltas:
  "gen_full N M P stop mc n g ids = Inr (ids', r) \<Longrightarrow> k0 \<le> length ids \<Longrightarrow>
    stream_full N M P stop mc dec k0 n g ids seen
      = (events (deltas dec (drop k0 ids) seen (drop (length ids) ids')) r, None)"
proof (induction n arbitrary: g ids seen)
  case (Suc n)
  obtain l where l: "full_logits M ids = Inr l" using Suc.prems by (auto simp: rbind_Inr_iff)
  show ?case
  proof (cases "next_token N P ids l g")
    case (Pair q g')
    then obtain t where t: "q = Inr t" using Suc.prems l by (cases q) auto
    show ?thesis
    proof (cases "t \<in> set stop \<or> (\<exists>m. mc = Some m \<and> m \<le> int (length (ids @ [t])))")
      case True
      then show ?thesis using Suc.prems Pair t l
        by (auto simp: Let_def delta_text_def split: if_splits option.splits)
    next
      case False
      then have d: "gen_full N M P stop mc n g' (ids @ [t]) = Inr (ids', r)"
        using Suc.prems Pair t l by (auto simp: rbind_Inr_iff Let_def split: option.splits)
      obtain gen where "ids' = (ids @ [t]) @ gen" using gen_full_contract[OF d] by blast
      then show ?thesis
        using False d Pair t l Suc.prems(2) Suc.IH[OF d, of "dec (drop k0 (ids @ [t]))"]
        by (auto simp: Let_def delta_text_def split: option.splits)
    qed
  qed
qed simp

lemma generate_stream_events:
  assumes "generate N M P stop max_new images prompt = Inr (ids, r, n)"
  shows "generate_stream N M P stop max_new images dec prompt
    = (events (deltas dec [] [] (drop (length prompt) ids)) r, None)"
  using assms stream_inc_deltas[of N M P stop _ "nat max_new" _ _ _ prompt ids r "length prompt" dec "[]"]
    stream_full_deltas[of N M P stop _ "nat max_new" _ prompt ids r "length prompt" dec "[]"]
  by (auto simp: generate_def generate_stream_def rbind_Inr_iff split: if_splits sum.splits)

section \<open>Properties\<close>

lemma generate_run:
  assumes "generate N M P stop max_new images prompt = Inr (ids, r, n)"
  shows "\<exists>gen. ids = prompt @ gen \<and> n = int (length gen) \<and> length gen \<le> nat max_new
      \<and> set gen \<inter> set stop = {} \<and> r \<noteq> Abort
      \<and> (\<forall>mc. max_context M = Some mc \<longrightarrow> int (length prompt) < mc \<longrightarrow> int (length ids) \<le> mc)
      \<and> (r = Length \<longrightarrow> length gen = nat max_new
           \<or> (\<exists>mc. max_context M = Some mc \<and> mc \<le> int (length ids)))"
proof (cases "supports_incremental M")
  case True
  then obtain mc c l where s: "start_inc M prompt images = Inr (mc, c, l)"
    and g: "gen_inc N M P stop mc (nat max_new) c l (np_rng N (seed P)) prompt = Inr (ids, r)"
    and n: "n = int (length ids) - int (length prompt)"
    using assms by (auto simp: generate_def rbind_Inr_iff)
  have "max_context M = Some mc" "int (length prompt) < mc"
    using s by (auto simp: start_inc_def rbind_Inr_iff split: option.splits if_splits)
  with gen_inc_contract[OF g] n show ?thesis by auto
next
  case False
  then have g: "gen_full N M P stop (max_context M) (nat max_new) (np_rng N (seed P)) prompt = Inr (ids, r)"
    and n: "n = int (length ids) - int (length prompt)"
    using assms by (auto simp: generate_def rbind_Inr_iff)
  from gen_full_contract[OF g] n show ?thesis by auto
qed

text \<open>
  A run, token by token: \<open>L ts\<close> are the logits after the tokens \<open>ts\<close>, \<open>gs k\<close> the generator before the
  \<open>k\<close>-th draw; each token is what \<open>next_token\<close> draws from the context before it, and no stop id.
\<close>

definition drawn ::
    "('f::linordered_field, 'g) numpy \<Rightarrow> 'f sampling \<Rightarrow> int list \<Rightarrow> (int list \<Rightarrow> 'f list pure_result) \<Rightarrow> int list
     \<Rightarrow> int list \<Rightarrow> (nat \<Rightarrow> 'g) \<Rightarrow> bool" where
  "drawn N P stop L prompt gen gs \<longleftrightarrow>
     (\<forall>k < length gen. gen ! k \<notin> set stop \<and>
        (\<exists>l. L (take k gen) = Inr l \<and> next_token N P (prompt @ take k gen) l (gs k) = (Inr (gen ! k), gs (Suc k))))"

text \<open>How a run ends: a stop id was drawn, or the budget or the context is used up.\<close>

definition ended ::
    "('f::linordered_field, 'g) numpy \<Rightarrow> 'f sampling \<Rightarrow> int list \<Rightarrow> (int list \<Rightarrow> 'f list pure_result) \<Rightarrow> int option
     \<Rightarrow> nat \<Rightarrow> int list \<Rightarrow> int list \<Rightarrow> (nat \<Rightarrow> 'g) \<Rightarrow> reason \<Rightarrow> bool" where
  "ended N P stop L mc budget prompt gen gs r \<longleftrightarrow>
     (let used_up = length gen = budget
            \<or> gen \<noteq> [] \<and> (\<exists>m. mc = Some m \<and> m \<le> int (length prompt + length gen))
      in case r of
           Length \<Rightarrow> used_up
         | Stop \<Rightarrow> \<not> used_up \<and> (\<exists>l t g'. L gen = Inr l
              \<and> next_token N P (prompt @ gen) l (gs (length gen)) = (Inr t, g') \<and> t \<in> set stop)
         | Abort \<Rightarrow> False)"

lemma drawn_Cons:
  assumes "t \<notin> set stop" "L [] = Inr l" "next_token N P prompt l g = (Inr t, gs 0)"
    and "drawn N P stop (\<lambda>ts. L (t # ts)) (prompt @ [t]) gen gs"
  shows "drawn N P stop L prompt (t # gen) (case_nat g gs)"
  unfolding drawn_def
proof (intro allI impI)
  fix k assume "k < length (t # gen)"
  then show "(t # gen) ! k \<notin> set stop \<and> (\<exists>l. L (take k (t # gen)) = Inr l
      \<and> next_token N P (prompt @ take k (t # gen)) l (case_nat g gs k) = (Inr ((t # gen) ! k), case_nat g gs (Suc k)))"
    using assms by (cases k) (auto simp: drawn_def)
qed

lemma ended_Cons:
  assumes "ended N P stop (\<lambda>ts. L (t # ts)) mc n (prompt @ [t]) gen gs r"
    and "\<not> (\<exists>m. mc = Some m \<and> m \<le> int (length prompt + 1))"
  shows "ended N P stop L mc (Suc n) prompt (t # gen) (case_nat g gs) r"
  using assms by (cases "gen = []") (auto simp: ended_def Let_def split: reason.splits)

text \<open>The logits the loops see after some tokens.\<close>

fun feed :: "('c, 'f, 'i) lm \<Rightarrow> 'c \<Rightarrow> 'f list \<Rightarrow> int list \<Rightarrow> 'f list pure_result" where
  "feed M c l [] = Inr l"
| "feed M c l (t # ts) = rbind (decode_step M c t) (\<lambda>(l', c'). feed M c' l' ts)"

definition context_logits ::
    "('c, 'f, 'i) lm \<Rightarrow> 'i option \<Rightarrow> int list \<Rightarrow> int list \<Rightarrow> 'f list pure_result" where
  "context_logits M images prompt ts =
     (if supports_incremental M then rbind (prefill M prompt images) (\<lambda>(c, l). feed M c l ts)
      else full_logits M (prompt @ ts))"

lemma gen_inc_trace:
  "gen_inc N M P stop mc n c l g ids = Inr (ids', r) \<Longrightarrow>
    \<exists>gen gs. ids' = ids @ gen \<and> gs 0 = g \<and> length gen \<le> n \<and> drawn N P stop (feed M c l) ids gen gs
      \<and> ended N P stop (feed M c l) (Some mc) n ids gen gs r"
proof (induction n arbitrary: c l g ids)
  case 0
  then show ?case by (intro exI [of _ "[]"] exI [of _ "\<lambda>_. g"]) (auto simp: drawn_def ended_def)
next
  case (Suc n)
  obtain t g' where t: "next_token N P ids l g = (Inr t, g')"
    using Suc.prems by (auto split: prod.splits sum.splits)
  consider "t \<in> set stop" | "t \<notin> set stop" "mc \<le> int (length (ids @ [t]))" | "t \<notin> set stop" "\<not> mc \<le> int (length (ids @ [t]))"
    by blast
  then show ?case
  proof cases
    case 1
    then have "ids' = ids" "r = Stop" using Suc.prems t by auto
    then show ?thesis using 1 t
      by (intro exI [of _ "[]"] exI [of _ "\<lambda>_. g"]) (auto simp: drawn_def ended_def)
  next
    case 2
    then have "ids' = ids @ [t]" "r = Length" using Suc.prems t by (auto simp: Let_def)
    moreover have "drawn N P stop (feed M c l) ids [t] (case_nat g (\<lambda>_. g'))"
      using 2(1) t by (intro drawn_Cons) (auto simp: drawn_def)
    ultimately show ?thesis using 2
      by (intro exI [of _ "[t]"] exI [of _ "case_nat g (\<lambda>_. g')"]) (auto simp: ended_def)
  next
    case 3
    then obtain l' c' where d: "decode_step M c t = Inr (l', c')"
      "gen_inc N M P stop mc n c' l' g' (ids @ [t]) = Inr (ids', r)"
      using Suc.prems t by (auto simp: rbind_Inr_iff Let_def)
    from Suc.IH [OF d(2)] obtain gen gs where gen: "ids' = (ids @ [t]) @ gen" "gs 0 = g'" "length gen \<le> n"
      "drawn N P stop (feed M c' l') (ids @ [t]) gen gs"
      "ended N P stop (feed M c' l') (Some mc) n (ids @ [t]) gen gs r" by blast
    have L: "feed M c' l' = (\<lambda>ts. feed M c l (t # ts))" using d(1) by (simp add: fun_eq_iff)
    have "drawn N P stop (feed M c l) ids (t # gen) (case_nat g gs)"
      using 3(1) t gen(2,4) by (intro drawn_Cons) (auto simp: L)
    moreover have "ended N P stop (feed M c l) (Some mc) (Suc n) ids (t # gen) (case_nat g gs) r"
      using 3(2) gen(5) by (intro ended_Cons) (auto simp: L)
    ultimately show ?thesis using gen(1,3) by (intro exI [of _ "t # gen"] exI [of _ "case_nat g gs"]) simp
  qed
qed

lemma gen_full_trace:
  "gen_full N M P stop mc n g ids = Inr (ids', r) \<Longrightarrow>
    \<exists>gen gs. ids' = ids @ gen \<and> gs 0 = g \<and> length gen \<le> n
      \<and> drawn N P stop (\<lambda>ts. full_logits M (ids @ ts)) ids gen gs
      \<and> ended N P stop (\<lambda>ts. full_logits M (ids @ ts)) mc n ids gen gs r"
proof (induction n arbitrary: g ids)
  case 0
  then show ?case by (intro exI [of _ "[]"] exI [of _ "\<lambda>_. g"]) (auto simp: drawn_def ended_def)
next
  case (Suc n)
  let ?L = "\<lambda>ts. full_logits M (ids @ ts)" and ?limit = "\<exists>m. mc = Some m \<and> m \<le> int (length ids + 1)"
  obtain l where l: "full_logits M ids = Inr l" using Suc.prems by (auto simp: rbind_Inr_iff)
  obtain t g' where t: "next_token N P ids l g = (Inr t, g')"
    using Suc.prems l by (auto split: prod.splits sum.splits)
  consider "t \<in> set stop" | "t \<notin> set stop" ?limit | "t \<notin> set stop" "\<not> ?limit" by blast
  then show ?case
  proof cases
    case 1
    then have "ids' = ids" "r = Stop" using Suc.prems t l by auto
    then show ?thesis using 1 t l
      by (intro exI [of _ "[]"] exI [of _ "\<lambda>_. g"]) (auto simp: drawn_def ended_def)
  next
    case 2
    then have "ids' = ids @ [t]" "r = Length" using Suc.prems t l by (auto simp: Let_def)
    moreover have "drawn N P stop ?L ids [t] (case_nat g (\<lambda>_. g'))"
      using 2(1) t l by (intro drawn_Cons) (auto simp: drawn_def)
    ultimately show ?thesis using 2
      by (intro exI [of _ "[t]"] exI [of _ "case_nat g (\<lambda>_. g')"]) (auto simp: ended_def)
  next
    case 3
    then have d: "gen_full N M P stop mc n g' (ids @ [t]) = Inr (ids', r)"
      using Suc.prems t l by (auto simp: rbind_Inr_iff Let_def split: option.splits)
    from Suc.IH [OF d] obtain gen gs where gen: "ids' = (ids @ [t]) @ gen" "gs 0 = g'" "length gen \<le> n"
      "drawn N P stop (\<lambda>ts. ?L (t # ts)) (ids @ [t]) gen gs"
      "ended N P stop (\<lambda>ts. ?L (t # ts)) mc n (ids @ [t]) gen gs r" by auto
    have "drawn N P stop ?L ids (t # gen) (case_nat g gs)"
      using 3(1) t l gen(2,4) by (intro drawn_Cons) auto
    moreover have "ended N P stop ?L mc (Suc n) ids (t # gen) (case_nat g gs) r"
      using 3(2) gen(5) by (intro ended_Cons) auto
    ultimately show ?thesis using gen(1,3) by (intro exI [of _ "t # gen"] exI [of _ "case_nat g gs"]) simp
  qed
qed

text \<open>The context limit, from the budget and how the run ends.\<close>

lemma generate_limit:
  assumes "generate N M P stop max_new images prompt = Inr (prompt @ gen, r, n)" "max_context M = Some mc"
  shows "int (length (prompt @ gen)) \<le> mc \<or> \<not> supports_incremental M \<and> length gen \<le> 1"
proof (cases "int (length prompt) < mc")
  case True
  obtain gen' where "prompt @ gen = prompt @ gen'"
    "\<forall>m. max_context M = Some m \<longrightarrow> int (length prompt) < m \<longrightarrow> int (length (prompt @ gen)) \<le> m"
    using generate_run [OF assms(1)] by blast
  with assms(2) True show ?thesis by simp
next
  case False
  then have inc: "\<not> supports_incremental M"
    using assms by (auto simp: generate_def start_inc_def rbind_Inr_iff split: if_splits)
  have "length gen' \<le> 1" if r: "gen_full N M P stop (Some mc) k g ids = Inr (ids @ gen', r)" "mc \<le> int (length ids)"
    for k g ids gen'
  proof (cases k)
    case (Suc m)
    then obtain l where l: "full_logits M ids = Inr l" using r(1) by (auto simp: rbind_Inr_iff)
    then obtain t g' where "next_token N P ids l g = (Inr t, g')" using r(1) Suc by (auto split: prod.splits sum.splits)
    with r l Suc show ?thesis by (cases "t \<in> set stop") (auto simp: Let_def)
  qed (use r in simp)
  then have "length gen \<le> 1" using assms False inc by (fastforce simp: generate_def rbind_Inr_iff)
  with inc show ?thesis by blast
qed

text \<open>
  C10: \<open>generate\<close> is the sampling loop and nothing else.  When it returns, the prompt is kept and what
  follows are the tokens drawn one after the other from the logits of their context, with the
  generator of the seed handed on; none is a stop id and there are at most \<open>max_new\<close>.  The reason is
  \<open>length\<close> where the budget or the context limit is reached, and \<open>stop\<close> where neither is and the next
  draw is a stop id.  The context limit holds, except that a model without incremental decoding draws
  one token after a prompt that is already at or over the limit.
\<close>

theorem generate_contract:
  assumes "generate N M P stop max_new images prompt = Inr (ids, r, n)"
  shows "\<exists>gen gs. ids = prompt @ gen \<and> n = int (length gen) \<and> length gen \<le> nat max_new
      \<and> gs 0 = np_rng N (seed P) \<and> drawn N P stop (context_logits M images prompt) prompt gen gs
      \<and> ended N P stop (context_logits M images prompt) (max_context M) (nat max_new) prompt gen gs r
      \<and> (\<forall>mc. max_context M = Some mc \<longrightarrow>
           int (length ids) \<le> mc \<or> \<not> supports_incremental M \<and> length gen \<le> 1)"
proof -
  have "\<exists>gen gs. ids = prompt @ gen \<and> n = int (length gen) \<and> gs 0 = np_rng N (seed P) \<and> length gen \<le> nat max_new
      \<and> drawn N P stop (context_logits M images prompt) prompt gen gs
      \<and> ended N P stop (context_logits M images prompt) (max_context M) (nat max_new) prompt gen gs r"
  proof (cases "supports_incremental M")
    case True
    then obtain mc c l where s: "start_inc M prompt images = Inr (mc, c, l)"
      and g: "gen_inc N M P stop mc (nat max_new) c l (np_rng N (seed P)) prompt = Inr (ids, r)"
      and n: "n = int (length ids) - int (length prompt)"
      using assms by (auto simp: generate_def rbind_Inr_iff)
    have "max_context M = Some mc" "context_logits M images prompt = feed M c l"
      using s True by (auto simp: start_inc_def context_logits_def rbind_Inr_iff fun_eq_iff split: option.splits if_splits)
    with gen_inc_trace [OF g] n show ?thesis by auto
  next
    case False
    then have g: "gen_full N M P stop (max_context M) (nat max_new) (np_rng N (seed P)) prompt = Inr (ids, r)"
      and n: "n = int (length ids) - int (length prompt)"
      using assms by (auto simp: generate_def rbind_Inr_iff)
    have "context_logits M images prompt = (\<lambda>ts. full_logits M (prompt @ ts))"
      using False by (simp add: context_logits_def fun_eq_iff)
    with gen_full_trace [OF g] n show ?thesis by auto
  qed
  then obtain gen gs where g: "ids = prompt @ gen" "n = int (length gen)" "gs 0 = np_rng N (seed P)" "length gen \<le> nat max_new"
    "drawn N P stop (context_logits M images prompt) prompt gen gs"
    "ended N P stop (context_logits M images prompt) (max_context M) (nat max_new) prompt gen gs r" by blast
  with generate_limit [of N M P stop max_new images prompt gen r n] assms show ?thesis by blast
qed

text \<open>A model for the concrete runs: it counts upwards modulo four, caching the last token.\<close>

definition count_logits :: "int \<Rightarrow> rat list" where
  "count_logits t = map (\<lambda>i. if int i = (t + 1) mod 4 then 1 else 0) [0..<4]"

definition counter :: "(int, rat, unit) lm" where
  "counter = \<lparr>supports_incremental = True, is_dsv4 = False, max_context = Some 8,
     prefill = (\<lambda>ids _. if ids = [] then Inl IndexError
                        else Inr (List.last ids, count_logits (List.last ids))),
     decode_step = (\<lambda>c t. Inr (count_logits t, t)),
     full_logits = (\<lambda>ids. if ids = [] then Inl IndexError else Inr (count_logits (List.last ids)))\<rparr>"

definition argmax_params :: "rat sampling" where
  "argmax_params = \<lparr>temperature = Some 0, top_k = None, top_p = None, repetition = None, seed = None\<rparr>"

lemma counter_run:
  "generate numpy3 counter argmax_params [3] 5 None [0] = Inr ([0, 1, 2], Stop, 2)"
  by code_simp

theorem generate_contract_witness:
  "\<exists>gen gs. [0, 1, 2] = [0] @ gen \<and> drawn numpy3 argmax_params [3] (context_logits counter None [0]) [0] gen gs
      \<and> ended numpy3 argmax_params [3] (context_logits counter None [0]) (Some 8) 5 [0] gen gs Stop"
proof -
  have "max_context counter = Some 8" by (simp add: counter_def)
  then show ?thesis using generate_contract [OF counter_run] by auto
qed

lemma incremental_run:
  assumes "coherent M R" and "supports_incremental M"
    and "generate N M P stop max_new None prompt = Inr res"
  shows "generate N (M\<lparr>supports_incremental := False\<rparr>) P stop max_new None prompt = Inr res"
proof -
  obtain mc c l ids r where s: "start_inc M prompt None = Inr (mc, c, l)"
    and g: "gen_inc N M P stop mc (nat max_new) c l (np_rng N (seed P)) prompt = Inr (ids, r)"
    and res: "res = (ids, r, int (length ids) - int (length prompt))"
    using assms(2,3) by (auto simp: generate_def rbind_Inr_iff)
  have mc: "max_context M = Some mc" and pre: "prefill M prompt None = Inr (c, l)"
    using s by (auto simp: start_inc_def rbind_Inr_iff split: option.splits if_splits)
  have "gen_full N M P stop (Some mc) (nat max_new) (np_rng N (seed P)) prompt = Inr (ids, r)"
    using gen_inc_full[OF assms(1) _ _ g] assms(1) pre unfolding coherent_def by blast
  moreover have "gen_full N (M\<lparr>supports_incremental := False\<rparr>) P stop m k g p
      = gen_full N M P stop m k g p" for m k g p
    by (induction k arbitrary: g p) (auto simp: Let_def rbind_def split: sum.splits prod.splits)
  ultimately show ?thesis by (simp add: generate_def mc res)
qed

text \<open>
  C11: caching is invisible.  If the cache stands for the context it was built from, a run of the
  incremental path is a run of the recompute-every-step path: same ids, same finish reason.
\<close>

theorem incremental_is_recompute:
  assumes "coherent M R" and "supports_incremental M"
    and "generate N M P stop max_new None prompt = Inr res"
  shows "generate N (M\<lparr>supports_incremental := False\<rparr>) P stop max_new None prompt = Inr res"
  by (rule incremental_run [OF assms])

lemma counter_coherent: "coherent counter (\<lambda>c ids. ids \<noteq> [] \<and> c = List.last ids)"
  by (auto simp: coherent_def counter_def split: if_splits)

theorem incremental_is_recompute_witness:
  "generate numpy3 (counter\<lparr>supports_incremental := False\<rparr>) argmax_params [3] 5 None [0]
     = Inr ([0, 1, 2], Stop, 2)"
  by (rule incremental_is_recompute[OF counter_coherent _ counter_run]) (simp add: counter_def)

lemma stream_run:
  assumes "generate N M P stop max_new images prompt = Inr (prompt @ gen, r, n)"
  shows "\<exists>ds. generate_stream N M P stop max_new images dec prompt
        = (map (\<lambda>d. (d, None)) ds @ [([], Some r)], None)
      \<and> length ds = length gen
      \<and> ((\<forall>k < length gen. \<exists>ys. dec (take (Suc k) gen) = (if k = 0 then [] else dec (take k gen)) @ ys)
           \<longrightarrow> concat ds = (if gen = [] then [] else dec gen))"
proof -
  let ?ds = "deltas dec [] [] gen"
  have len: "length (deltas dec a b gen) = length gen" for a b
    by (induction gen arbitrary: a b) (auto simp: Let_def)
  have "generate_stream N M P stop max_new images dec prompt = (events ?ds r, None)"
    using generate_stream_events[OF assms, of dec] by simp
  moreover have "concat ?ds = (if gen = [] then [] else dec gen)"
    if "\<forall>k < length gen. \<exists>ys. dec (take (Suc k) gen) = (if k = 0 then [] else dec (take k gen)) @ ys"
  proof (cases "gen = []")
    case False
    have "[] @ concat ?ds = dec ([] @ gen)"
    proof (rule concat_deltas[OF _ False])
      fix k assume "k < length gen"
      with that show "\<exists>ys. dec ([] @ take (Suc k) gen)
             = (if k = 0 then [] else dec ([] @ take k gen)) @ ys" by (metis append_Nil)
    qed
    with False show ?thesis by simp
  qed simp
  ultimately show ?thesis using len by (intro exI[of _ ?ds]) (simp add: events_def)
qed

text \<open>
  \<open>generate_stream\<close> mirrors \<open>generate\<close>: one event per generated id with no reason, then the
  empty event with \<open>generate\<close>'s finish reason.  The deltas join to the decoded text when decoding
  one more token only appends characters; without that (a decoder that replaces an incomplete
  character) they need not.
\<close>

theorem stream_mirrors_generate:
  assumes "generate N M P stop max_new images prompt = Inr (prompt @ gen, r, n)"
  shows "\<exists>ds. generate_stream N M P stop max_new images dec prompt
        = (map (\<lambda>d. (d, None)) ds @ [([], Some r)], None)
      \<and> length ds = length gen
      \<and> ((\<forall>k < length gen. \<exists>ys. dec (take (Suc k) gen) = (if k = 0 then [] else dec (take k gen)) @ ys)
           \<longrightarrow> concat ds = (if gen = [] then [] else dec gen))"
  by (rule stream_run [OF assms])

theorem stream_mirrors_generate_witness:
  "\<exists>ds. generate_stream numpy3 counter argmax_params [3] 5 None (map (\<lambda>i. i + 100)) [0]
        = (map (\<lambda>d. (d, None)) ds @ [([], Some Stop)], None) \<and> concat ds = [101, 102]"
proof -
  have run: "generate numpy3 counter argmax_params [3] 5 None [0] = Inr ([0] @ [1, 2], Stop, 2)"
    using counter_run by simp
  have "\<forall>k < length [1, 2 :: int]. \<exists>ys. map (\<lambda>i. i + 100) (take (Suc k) [1, 2])
      = (if k = 0 then [] else map (\<lambda>i. i + 100) (take k [1, 2 :: int])) @ ys"
    by (auto simp: less_Suc_eq)
  with stream_mirrors_generate[OF run, of "map (\<lambda>i. i + 100)"] show ?thesis by auto
qed

text \<open>
  A decoder of pairs of bytes that shows a replacement character for an incomplete pair: the
  stream of two ids yields the replacement and nothing else.
\<close>

definition pair_dec :: "int list \<Rightarrow> int list" where
  "pair_dec xs = (if length xs = 1 then [-1] else if length xs = 2 then [xs ! 0 * 10 + xs ! 1] else [])"

lemma stream_may_lose_text:
  "fst (generate_stream numpy3 counter argmax_params [3] 5 None pair_dec [0])
     = [([-1], None), ([], None), ([], Some Stop)]"
  "pair_dec [1, 2] = [12]"
  by (code_simp, code_simp)

end
