(* ===== verification/BatchEngine.thy ===== *)
theory BatchEngine
  imports Scheduler Generate
begin

text \<open>
  Model of \<open>BatchedInferenceEngine\<close> and \<open>generate_batch\<close> of \<open>serving/executor.py\<close>: the scheduler
  decides which sequences act, the engine runs the model for them.  The model, the tokenizer and
  numpy are the fields of \<open>env\<close>.
\<close>

section \<open>State\<close>

record ('c, 'f, 'i, 'g, 't) env =
  numpy :: "('f, 'g) numpy"
  model :: "('c, 'f, 'i) lm"
  encode :: "'t \<Rightarrow> int list"
  decode :: "int list \<Rightarrow> 't"
  eos_id :: "int option"
  layer_types :: "string list option"

text \<open>
  What a sink is told.  A sink always has \<open>on_token\<close> and \<open>on_finish\<close>; \<open>abort\<close> looks for a
  \<open>fail\<close> method first.
\<close>

datatype sink = SinkWithFail | SinkWithoutFail

datatype sink_event = OnToken int | OnFinish reason | Fail py_error

record ('c, 'f, 'g, 't) info =
  i_prompt :: "int list"
  i_gen :: "int list"
  i_max_new :: int
  i_params :: "'f sampling"
  i_rng :: 'g
  i_text :: "'t option"
  i_sink :: "sink option"
  i_cache :: "'c option"
  i_last_id :: "int option"
  i_prefill_L :: "'f list option"

text \<open>\<open>published\<close> is the sequence of sink calls the engine has made.\<close>

record ('c, 'f, 'g, 't) engine =
  sched :: scheduler
  seqs :: "(int, ('c, 'f, 'g, 't) info) dict"
  order :: "int list"
  next_seq :: int
  published :: "(int \<times> sink_event) list"

definition stop_ids :: "('c, 'f, 'i, 'g, 't) env \<Rightarrow> int list" where
  "stop_ids E = (case eos_id E of None \<Rightarrow> [] | Some i \<Rightarrow> [i])"

definition needs_state :: "('c, 'f, 'i, 'g, 't) env \<Rightarrow> bool" where
  "needs_state E \<longleftrightarrow> \<not> (case layer_types E of
      None \<Rightarrow> False
    | Some ts \<Rightarrow> ts \<noteq> [] \<and> \<not> (\<exists>bt \<in> set ts. bt = ''linear_attention''))"

definition engine_init ::
  "int \<Rightarrow> int \<Rightarrow> int \<Rightarrow> int \<Rightarrow> int \<Rightarrow> ('c, 'f, 'g, 't) engine pure_result" where
  "engine_init kv_capacity state_capacity bs cs mc =
     rbind (sched_init kv_capacity state_capacity bs cs mc) (\<lambda>s.
       Inr \<lparr>sched = s, seqs = [], order = [], next_seq = 0, published = []\<rparr>)"

section \<open>Request lifecycle\<close>

definition submit ::
  "('c, 'f, 'i, 'g, 't) env \<Rightarrow> 't \<Rightarrow> int \<Rightarrow> 'f sampling \<Rightarrow> sink option \<Rightarrow> int list option
    \<Rightarrow> ('c, 'f, 'g, 't) engine \<Rightarrow> (('c, 'f, 'g, 't) engine, int) result" where
  "submit E prompt budget params snk prompt_ids eng =
     (let sid = next_seq eng;
          eng1 = eng\<lparr>next_seq := sid + 1\<rparr>;
          ids = (case prompt_ids of Some p \<Rightarrow> p | None \<Rightarrow> encode E prompt) in
      if (case max_context (model E) of
            None \<Rightarrow> False | Some m \<Rightarrow> m \<noteq> 0 \<and> int (length ids) + budget > m)
      then (Inl ValueError, eng1)
      else
        let info = \<lparr>i_prompt = ids, i_gen = [], i_max_new = budget, i_params = params,
                    i_rng = np_rng (numpy E) (seed params), i_text = None, i_sink = snk,
                    i_cache = None, i_last_id = None, i_prefill_L = None\<rparr>;
            eng2 = eng1\<lparr>seqs := dset sid info (seqs eng1), order := order eng1 @ [sid]\<rparr> in
        (case sched_add sid (int (length ids)) budget (needs_state E) (sched eng2) of
           (Inl e, s) \<Rightarrow> (Inl e, eng2\<lparr>sched := s\<rparr>)
         | (Inr _, s) \<Rightarrow> (Inr sid, eng2\<lparr>sched := s\<rparr>)))"

definition attach ::
  "int \<Rightarrow> sink option \<Rightarrow> ('c, 'f, 'g, 't) engine \<Rightarrow> ('c, 'f, 'g, 't) engine" where
  "attach sid snk eng =
     (case dget (seqs eng) sid of
        None \<Rightarrow> eng
      | Some i \<Rightarrow> eng\<lparr>seqs := dset sid (i\<lparr>i_sink := snk\<rparr>) (seqs eng)\<rparr>)"

definition with_text ::
  "('c, 'f, 'i, 'g, 't) env \<Rightarrow> ('c, 'f, 'g, 't) info \<Rightarrow> ('c, 'f, 'g, 't) info" where
  "with_text E i = (if i_text i = None then i\<lparr>i_text := Some (decode E (i_gen i))\<rparr> else i)"

definition abort ::
  "('c, 'f, 'i, 'g, 't) env \<Rightarrow> int \<Rightarrow> ('c, 'f, 'g, 't) engine
    \<Rightarrow> (('c, 'f, 'g, 't) engine, bool) result" where
  "abort E sid eng =
     (case sched_abort sid (sched eng) of
        (Inl e, s) \<Rightarrow> (Inl e, eng\<lparr>sched := s\<rparr>)
      | (Inr False, s) \<Rightarrow> (Inr False, eng\<lparr>sched := s\<rparr>)
      | (Inr True, s) \<Rightarrow>
          (case dget (seqs eng) sid of
             None \<Rightarrow> (Inr True, eng\<lparr>sched := s\<rparr>)
           | Some i \<Rightarrow>
               (Inr True, eng\<lparr>sched := s, seqs := dset sid (with_text E i) (seqs eng),
                  published := published eng @
                    (case i_sink i of
                       None \<Rightarrow> []
                     | Some SinkWithFail \<Rightarrow> [(sid, Fail RuntimeError)]
                     | Some SinkWithoutFail \<Rightarrow> [(sid, OnFinish Abort)])\<rparr>)))"

definition result_text ::
  "('c, 'f, 'i, 'g, 't) env \<Rightarrow> int \<Rightarrow> ('c, 'f, 'g, 't) engine
    \<Rightarrow> (('c, 'f, 'g, 't) engine, 't) result" where
  "result_text E sid eng =
     (case dget (seqs eng) sid of
        None \<Rightarrow> (Inl KeyError, eng)
      | Some i \<Rightarrow>
          (Inr (the (i_text (with_text E i))),
           eng\<lparr>seqs := dset sid (with_text E i) (seqs eng)\<rparr>))"

fun results_of ::
  "('c, 'f, 'i, 'g, 't) env \<Rightarrow> int list \<Rightarrow> ('c, 'f, 'g, 't) engine
    \<Rightarrow> (('c, 'f, 'g, 't) engine, 't list) result" where
  "results_of E [] eng = (Inr [], eng)"
| "results_of E (i # is) eng =
     (case result_text E i eng of
        (Inl e, eng1) \<Rightarrow> (Inl e, eng1)
      | (Inr t, eng1) \<Rightarrow>
          (case results_of E is eng1 of
             (Inl e, eng2) \<Rightarrow> (Inl e, eng2)
           | (Inr ts, eng2) \<Rightarrow> (Inr (t # ts), eng2)))"

definition results_in_order ::
  "('c, 'f, 'i, 'g, 't) env \<Rightarrow> ('c, 'f, 'g, 't) engine
    \<Rightarrow> (('c, 'f, 'g, 't) engine, 't list) result" where
  "results_in_order E eng = results_of E (order eng) eng"

text \<open>
  \<open>reap\<close> drops finished sequences that have a sink.  It never touches a sequence without one.
\<close>

definition reapable ::
  "('c, 'f, 'g, 't) engine \<Rightarrow> int \<times> ('c, 'f, 'g, 't) info \<Rightarrow> bool" where
  "reapable eng p \<longleftrightarrow> i_sink (snd p) \<noteq> None \<and> fst p \<in> seq_id ` set (done_reqs (sched eng))"

definition reap :: "('c, 'f, 'g, 't) engine \<Rightarrow> int list \<times> ('c, 'f, 'g, 't) engine" where
  "reap eng =
     (let reaped = map fst (filter (reapable eng) (seqs eng));
          seqs' = filter (\<lambda>p. \<not> reapable eng p) (seqs eng) in
      if reaped = [] then ([], eng)
      else
        (reaped, eng\<lparr>seqs := seqs',
           order := filter (\<lambda>s. s \<in> fst ` set seqs') (order eng),
           sched := (sched eng)\<lparr>done_reqs :=
             filter (\<lambda>r. seq_id r \<notin> set reaped) (done_reqs (sched eng))\<rparr>\<rparr>))"

definition queue_length :: "('c, 'f, 'g, 't) engine \<Rightarrow> nat" where
  "queue_length eng = length (waiting (sched eng)) + length (running (sched eng))"

definition done_count :: "('c, 'f, 'g, 't) engine \<Rightarrow> nat" where
  "done_count eng = length (done_reqs (sched eng))"

section \<open>Execution\<close>

definition sample_token ::
  "('c, 'f::linordered_field, 'i, 'g, 't) env \<Rightarrow> ('c, 'f, 'g, 't) info \<Rightarrow> 'f list
    \<Rightarrow> int pure_result \<times> 'g" where
  "sample_token E i logits0 =
     (let P = i_params i;
          logits = (if repetition P \<noteq> None \<and> repetition P \<noteq> Some 1
                    then apply_repetition_penalty logits0 (Some (i_prompt i @ i_gen i)) (repetition P)
                    else logits0) in
      case temperature P of
        Some t \<Rightarrow>
          (if t \<le> 0 then (greedy logits, i_rng i)
           else sample (numpy E) (Some t) (top_k P) (top_p P) (i_rng i) logits)
      | None \<Rightarrow> sample (numpy E) None (top_k P) (top_p P) (i_rng i) logits)"

definition fill_cache ::
  "('c, 'f, 'i, 'g, 't) env \<Rightarrow> ('c, 'f, 'g, 't) info \<Rightarrow> (('c, 'f, 'g, 't) info, unit) result" where
  "fill_cache E i =
     (if i_cache i = None then
        (case prefill (model E) (i_prompt i) None of
           Inl e \<Rightarrow> (Inl e, i)
         | Inr (c, l) \<Rightarrow> (Inr (), i\<lparr>i_cache := Some c, i_prefill_L := Some l\<rparr>))
      else (Inr (), i))"

definition decode_logits ::
  "('c, 'f, 'i, 'g, 't) env \<Rightarrow> ('c, 'f, 'g, 't) info \<Rightarrow> (('c, 'f, 'g, 't) info, 'f list) result" where
  "decode_logits E i =
     (if supports_incremental (model E) then
        (case fill_cache E i of
           (Inl e, i1) \<Rightarrow> (Inl e, i1)
         | (Inr _, i1) \<Rightarrow>
             (case i_prefill_L i1 of
                Some l \<Rightarrow> (Inr l, i1\<lparr>i_prefill_L := None\<rparr>)
              | None \<Rightarrow>
                  (case (i_cache i1, i_last_id i1) of
                     (Some c, Some t) \<Rightarrow>
                       (case decode_step (model E) c t of
                          Inl e \<Rightarrow> (Inl e, i1)
                        | Inr (l, c') \<Rightarrow> (Inr l, i1\<lparr>i_cache := Some c'\<rparr>))
                   | _ \<Rightarrow> (Inl TypeError, i1))))
      else
        (case full_logits (model E) (i_prompt i @ i_gen i) of
           Inl e \<Rightarrow> (Inl e, i)
         | Inr l \<Rightarrow> (Inr l, i)))"

definition put_info ::
  "int \<Rightarrow> ('c, 'f, 'g, 't) info \<Rightarrow> ('c, 'f, 'g, 't) engine \<Rightarrow> ('c, 'f, 'g, 't) engine" where
  "put_info sid i eng = eng\<lparr>seqs := dset sid i (seqs eng)\<rparr>"

definition step_events ::
  "int \<Rightarrow> ('c, 'f, 'g, 't) info \<Rightarrow> int \<Rightarrow> bool \<Rightarrow> (int \<times> sink_event) list" where
  "step_events sid i tok eos =
     (if i_sink i = None then []
      else (if eos then [] else [(sid, OnToken tok)]) @
        (if eos then [(sid, OnFinish Stop)]
         else if int (length (i_gen i)) \<ge> i_max_new i then [(sid, OnFinish Length)] else []))"

definition run_action ::
  "('c, 'f::linordered_field, 'i, 'g, 't) env \<Rightarrow> action \<Rightarrow> ('c, 'f, 'g, 't) engine
    \<Rightarrow> (('c, 'f, 'g, 't) engine, unit) result" where
  "run_action E a eng =
     (let sid = a_seq a in
      case dget (seqs eng) sid of
        None \<Rightarrow> (Inl KeyError, eng)
      | Some i \<Rightarrow>
          if a_phase a = Decode then
            (case decode_logits E i of
               (Inl e, i1) \<Rightarrow> (Inl e, put_info sid i1 eng)
             | (Inr l, i1) \<Rightarrow>
                 (case sample_token E i1 l of
                    (Inl e, g) \<Rightarrow> (Inl e, put_info sid (i1\<lparr>i_rng := g\<rparr>) eng)
                  | (Inr tok, g) \<Rightarrow>
                      let eos = tok \<in> set (stop_ids E);
                          i2 = i1\<lparr>i_rng := g\<rparr>;
                          i3 = (if eos then i2
                                else i2\<lparr>i_gen := i_gen i2 @ [tok], i_last_id := Some tok\<rparr>);
                          eng1 = put_info sid i3 eng in
                      (case advance a eos (sched eng1) of
                         (Inl e, s) \<Rightarrow> (Inl e, eng1\<lparr>sched := s\<rparr>)
                       | (Inr _, s) \<Rightarrow>
                           (Inr (), eng1\<lparr>sched := s,
                              published := published eng1 @ step_events sid i3 tok eos\<rparr>))))
          else
            (case (if supports_incremental (model E) then fill_cache E i else (Inr (), i)) of
               (Inl e, i1) \<Rightarrow> (Inl e, put_info sid i1 eng)
             | (Inr _, i1) \<Rightarrow>
                 let eng1 = put_info sid i1 eng in
                 (case advance a False (sched eng1) of
                    (Inl e, s) \<Rightarrow> (Inl e, eng1\<lparr>sched := s\<rparr>)
                  | (Inr _, s) \<Rightarrow> (Inr (), eng1\<lparr>sched := s\<rparr>))))"

fun run_actions ::
  "('c, 'f::linordered_field, 'i, 'g, 't) env \<Rightarrow> action list \<Rightarrow> ('c, 'f, 'g, 't) engine
    \<Rightarrow> (('c, 'f, 'g, 't) engine, unit) result" where
  "run_actions E [] eng = (Inr (), eng)"
| "run_actions E (a # as) eng =
     (case run_action E a eng of
        (Inl e, eng1) \<Rightarrow> (Inl e, eng1)
      | (Inr _, eng1) \<Rightarrow> run_actions E as eng1)"

definition engine_step ::
  "('c, 'f::linordered_field, 'i, 'g, 't) env \<Rightarrow> ('c, 'f, 'g, 't) engine
    \<Rightarrow> (('c, 'f, 'g, 't) engine, action list) result" where
  "engine_step E eng =
     (case sched_step (sched eng) of
        (Inl e, s) \<Rightarrow> (Inl e, eng\<lparr>sched := s\<rparr>)
      | (Inr acts, s) \<Rightarrow>
          (case run_actions E acts (eng\<lparr>sched := s\<rparr>) of
             (Inl e, eng1) \<Rightarrow> (Inl e, eng1)
           | (Inr _, eng1) \<Rightarrow> (Inr acts, eng1)))"

text \<open>The counter is what is left of \<open>range(max_steps)\<close>; at zero the \<open>else\<close> of the loop runs.\<close>

fun run_all ::
  "('c, 'f::linordered_field, 'i, 'g, 't) env \<Rightarrow> nat \<Rightarrow> ('c, 'f, 'g, 't) engine
    \<Rightarrow> (('c, 'f, 'g, 't) engine, 't list) result" where
  "run_all E 0 eng =
     (if queue_length eng \<noteq> 0 then (Inl RuntimeError, eng) else results_in_order E eng)"
| "run_all E (Suc n) eng =
     (case engine_step E eng of
        (Inl e, eng1) \<Rightarrow> (Inl e, eng1)
      | (Inr acts, eng1) \<Rightarrow>
          if acts = [] then
            (if queue_length eng1 \<noteq> 0 then (Inl RuntimeError, eng1) else results_in_order E eng1)
          else run_all E n eng1)"

fun submit_all ::
  "('c, 'f, 'i, 'g, 't) env \<Rightarrow> 't list \<Rightarrow> int \<Rightarrow> 'f sampling \<Rightarrow> ('c, 'f, 'g, 't) engine
    \<Rightarrow> (('c, 'f, 'g, 't) engine, unit) result" where
  "submit_all E [] budget params eng = (Inr (), eng)"
| "submit_all E (p # ps) budget params eng =
     (case submit E p budget params None None eng of
        (Inl e, eng1) \<Rightarrow> (Inl e, eng1)
      | (Inr _, eng1) \<Rightarrow> submit_all E ps budget params eng1)"

definition generate_batch ::
  "('c, 'f::linordered_field, 'i, 'g, 't) env \<Rightarrow> 't list \<Rightarrow> int \<Rightarrow> 'f sampling \<Rightarrow> 't list pure_result" where
  "generate_batch E prompts budget params =
     rbind (engine_init 1000 64 16 32 8) (\<lambda>eng.
       case submit_all E prompts budget params eng of
         (Inl e, eng1) \<Rightarrow> Inl e
       | (Inr _, eng1) \<Rightarrow> fst (run_all E (10 ^ 6) eng1))"

end
