(* ===== verification/BatchCorrect.thy ===== *)
theory BatchCorrect
  imports BatchEngine
begin

text \<open>
  Continuous batching against one request at a time: each sequence of the engine follows the run
  \<open>generate\<close> would make for it alone.
\<close>

section \<open>A sequence and its solo run\<close>

definition solo ::
  "('c, 'f::linordered_field, 'i, 'g, 't) env \<Rightarrow> ('c, 'f, 'g, 't) info \<Rightarrow> (int list \<times> reason) pure_result" where
  "solo E i =
     rbind (generate (numpy E) (model E) (i_params i) (stop_ids E) (i_max_new i) None (i_prompt i))
       (\<lambda>(ids, r, n). Inr (ids, r))"

text \<open>
  What the solo loop would still do from the point an engine sequence has reached: with the
  pending prefill logits if there are any, otherwise after the decode step the engine has put off.
\<close>

definition resume ::
  "('c, 'f::linordered_field, 'i, 'g, 't) env \<Rightarrow> ('c, 'f, 'g, 't) info \<Rightarrow> (int list \<times> reason) pure_result" where
  "resume E i =
     (let n = nat (i_max_new i - int (length (i_gen i)));
          ids = i_prompt i @ i_gen i; N = numpy E; M = model E; P = i_params i in
      if supports_incremental M then
        rbind (case i_cache i of
                 None \<Rightarrow> prefill M (i_prompt i) None
               | Some c \<Rightarrow>
                   (case i_prefill_L i of
                      Some l \<Rightarrow> Inr (c, l)
                    | None \<Rightarrow>
                        (case i_last_id i of
                           None \<Rightarrow> Inl TypeError
                         | Some t \<Rightarrow> rbind (decode_step M c t) (\<lambda>(l, c'). Inr (c', l)))))
          (\<lambda>(c, l). gen_inc N M P (stop_ids E) (the (max_context M)) n c l (i_rng i) ids)
      else gen_full N M P (stop_ids E) (max_context M) n (i_rng i) ids)"

definition follows ::
  "('c, 'f::linordered_field, 'i, 'g, 't) env \<Rightarrow> int list \<times> reason \<Rightarrow> ('c, 'f, 'g, 't) info \<Rightarrow> bool" where
  "follows E R i \<longleftrightarrow>
     (\<forall>m. max_context (model E) = Some m \<longrightarrow> int (length (i_prompt i)) + i_max_new i \<le> m)
   \<and> (supports_incremental (model E) \<longrightarrow> max_context (model E) \<noteq> None)
   \<and> (if int (length (i_gen i)) < i_max_new i then resume E i = Inr R
      else R = (i_prompt i @ i_gen i, Length))"

lemma sample_token_next:
  "sample_token E i l = next_token (numpy E) (i_params i) (i_prompt i @ i_gen i) l (i_rng i)"
proof -
  let ?P = "i_params i" and ?ids = "i_prompt i @ i_gen i"
  have "(if repetition ?P \<noteq> None \<and> repetition ?P \<noteq> Some 1
         then apply_repetition_penalty l (Some ?ids) (repetition ?P) else l)
      = maybe_penalize l ?ids (repetition ?P)"
    by (simp add: maybe_penalize_def)
  then show ?thesis unfolding sample_token_def next_token_def Let_def by (simp only:)
qed

text \<open>A submitted request follows its solo run.\<close>

lemma follows_fresh:
  assumes "solo E i = Inr R" "1 \<le> i_max_new i"
    and "\<And>m. max_context (model E) = Some m \<Longrightarrow> int (length (i_prompt i)) + i_max_new i \<le> m"
    and "i_gen i = []" "i_cache i = None" "i_rng i = np_rng (numpy E) (seed (i_params i))"
  shows "follows E R i"
proof -
  have n: "nat (i_max_new i - int (length (i_gen i))) = nat (i_max_new i)" "int (length (i_gen i)) < i_max_new i"
    using assms(2,4) by simp_all
  obtain ids r where R: "R = (ids, r)" by force
  have g: "rbind (if supports_incremental (model E)
            then rbind (start_inc (model E) (i_prompt i) None) (\<lambda>(mc, c, logits).
                   gen_inc (numpy E) (model E) (i_params i) (stop_ids E) mc (nat (i_max_new i)) c logits
                     (i_rng i) (i_prompt i))
            else gen_full (numpy E) (model E) (i_params i) (stop_ids E) (max_context (model E))
              (nat (i_max_new i)) (i_rng i) (i_prompt i))
       (\<lambda>(ids, r). Inr (ids, r)) = Inr R"
    using assms(1,6) R by (auto simp: solo_def generate_def rbind_Inr_iff split: if_splits)
  show ?thesis
  proof (cases "supports_incremental (model E)")
    case True
    then obtain mc c l where s: "start_inc (model E) (i_prompt i) None = Inr (mc, c, l)"
      "gen_inc (numpy E) (model E) (i_params i) (stop_ids E) mc (nat (i_max_new i)) c l (i_rng i) (i_prompt i)
         = Inr R"
      using g by (auto simp: rbind_Inr_iff)
    have "max_context (model E) = Some mc" "prefill (model E) (i_prompt i) None = Inr (c, l)"
      using s(1) by (auto simp: start_inc_def rbind_Inr_iff split: option.splits if_splits)
    with s(2) True n assms show ?thesis by (simp add: follows_def resume_def Let_def)
  next
    case False
    then show ?thesis using g n assms by (auto simp: follows_def resume_def Let_def rbind_Inr_iff)
  qed
qed

lemma fill_cache_follows:
  assumes "follows E R i" "int (length (i_gen i)) < i_max_new i" "supports_incremental (model E)"
  obtains i1 c where "fill_cache E i = (Inr (), i1)" "follows E R i1" "i_cache i1 = Some c"
    "i1 = i\<lparr>i_cache := Some c, i_prefill_L := i_prefill_L i1\<rparr>"
proof (cases "i_cache i")
  case (Some c)
  then show ?thesis using assms that[of i c] by (simp add: fill_cache_def)
next
  case None
  have "resume E i = Inr R" using assms by (simp add: follows_def)
  then obtain c l where p: "prefill (model E) (i_prompt i) None = Inr (c, l)"
    using assms(3) None by (auto simp: resume_def Let_def rbind_Inr_iff)
  then have "resume E (i\<lparr>i_cache := Some c, i_prefill_L := Some l\<rparr>) = resume E i"
    using assms(3) None by (simp add: resume_def Let_def)
  then show ?thesis using assms p None that[of "i\<lparr>i_cache := Some c, i_prefill_L := Some l\<rparr>" c]
    by (simp add: fill_cache_def follows_def)
qed

text \<open>The sequence after a token that is not a stop id.\<close>

definition took :: "int \<Rightarrow> 'g \<Rightarrow> ('c, 'f, 'g, 't) info \<Rightarrow> ('c, 'f, 'g, 't) info" where
  "took tok g i = i\<lparr>i_rng := g, i_gen := i_gen i @ [tok], i_last_id := Some tok\<rparr>"

lemma decode_logits_follows:
  assumes "follows E R i" "int (length (i_gen i)) < i_max_new i" "supports_incremental (model E)"
  obtains l c where
    "decode_logits E i = (Inr l, i\<lparr>i_cache := Some c, i_prefill_L := None\<rparr>)"
    "gen_inc (numpy E) (model E) (i_params i) (stop_ids E) (the (max_context (model E)))
       (nat (i_max_new i - int (length (i_gen i)))) c l (i_rng i) (i_prompt i @ i_gen i) = Inr R"
proof -
  obtain i1 c where i1: "fill_cache E i = (Inr (), i1)" "follows E R i1" "i_cache i1 = Some c"
    "i1 = i\<lparr>i_cache := Some c, i_prefill_L := i_prefill_L i1\<rparr>"
    by (rule fill_cache_follows[OF assms])
  have same: "i_gen i1 = i_gen i" "i_max_new i1 = i_max_new i" "i_prompt i1 = i_prompt i"
    "i_rng i1 = i_rng i" "i_params i1 = i_params i" "i_last_id i1 = i_last_id i"
    by (subst i1(4), simp)+
  have res: "resume E i1 = Inr R" using i1(2) assms(2) same by (simp add: follows_def)
  show ?thesis
  proof (cases "i_prefill_L i1")
    case (Some l)
    have "i1\<lparr>i_prefill_L := None\<rparr> = i\<lparr>i_cache := Some c, i_prefill_L := None\<rparr>"
      by (subst i1(4)) simp
    then show ?thesis using Some i1(1,3) res same assms(3)
      by (intro that[of l c]) (simp_all add: decode_logits_def resume_def Let_def)
  next
    case None
    obtain t l c' where t: "i_last_id i = Some t" "decode_step (model E) c t = Inr (l, c')"
      "gen_inc (numpy E) (model E) (i_params i) (stop_ids E) (the (max_context (model E)))
         (nat (i_max_new i - int (length (i_gen i)))) c' l (i_rng i) (i_prompt i @ i_gen i) = Inr R"
      using res None i1(3) same assms(3)
      by (auto simp: resume_def Let_def rbind_Inr_iff split: option.splits)
    have "i1\<lparr>i_cache := Some c'\<rparr> = i\<lparr>i_cache := Some c', i_prefill_L := None\<rparr>"
      by (subst i1(4)) (simp add: None)
    then show ?thesis using None i1(1,3) t same assms(3)
      by (intro that[of l c']) (simp_all add: decode_logits_def)
  qed
qed

text \<open>
  One decode action: a stop id means the solo run stops here too; otherwise the longer sequence
  still follows it.
\<close>

definition decoded ::
  "('c, 'f::linordered_field, 'i, 'g, 't) env \<Rightarrow> int list \<times> reason \<Rightarrow> ('c, 'f, 'g, 't) info
    \<Rightarrow> ('c, 'f, 'g, 't) info \<Rightarrow> int \<Rightarrow> 'g \<Rightarrow> bool" where
  "decoded E R i i1 tok g \<longleftrightarrow>
     (\<exists>l. decode_logits E i = (Inr l, i1) \<and> sample_token E i1 l = (Inr tok, g))
   \<and> i_prompt i1 = i_prompt i \<and> i_gen i1 = i_gen i \<and> i_max_new i1 = i_max_new i
   \<and> i_text i1 = i_text i \<and> i_sink i1 = i_sink i
   \<and> (tok \<in> set (stop_ids E) \<longrightarrow> R = (i_prompt i @ i_gen i, Stop))
   \<and> (tok \<notin> set (stop_ids E) \<longrightarrow> follows E R (took tok g i1))"

lemma decode_follows_inc:
  assumes f: "follows E R i" and more: "int (length (i_gen i)) < i_max_new i"
    and inc: "supports_incremental (model E)"
  shows "\<exists>i1 tok g. decoded E R i i1 tok g"
proof -
  let ?N = "numpy E" and ?M = "model E" and ?P = "i_params i" and ?ids = "i_prompt i @ i_gen i"
  let ?n = "nat (i_max_new i - int (length (i_gen i)))" and ?mc = "the (max_context (model E))"
  obtain m where n: "?n = Suc m" using more by (cases "?n") auto
  obtain l c where d: "decode_logits E i = (Inr l, i\<lparr>i_cache := Some c, i_prefill_L := None\<rparr>)"
    and g: "gen_inc ?N ?M ?P (stop_ids E) ?mc (Suc m) c l (i_rng i) ?ids = Inr R"
    using decode_logits_follows[OF f more inc] n by metis
  let ?i1 = "i\<lparr>i_cache := Some c, i_prefill_L := None\<rparr>"
  obtain q g' where nt: "next_token ?N ?P ?ids l (i_rng i) = (q, g')" by force
  then obtain t where t: "q = Inr t" using g by (cases q) auto
  have s: "sample_token E ?i1 l = (Inr t, g')" using nt t by (simp add: sample_token_next)
  have mc: "max_context ?M = Some ?mc" "int (length (i_prompt i)) + i_max_new i \<le> ?mc"
    using f inc unfolding follows_def by auto
  have stop: "R = (?ids, Stop)" if "t \<in> set (stop_ids E)" using g nt t that by simp
  have go: "follows E R (took t g' ?i1)" if ns: "t \<notin> set (stop_ids E)"
  proof (cases "?mc \<le> int (length (?ids @ [t]))")
    case True
    then have "R = (?ids @ [t], Length)" using g nt t ns by (simp add: Let_def)
    moreover have "\<not> int (length (i_gen i @ [t])) < i_max_new i" using True mc(2) by simp
    ultimately show ?thesis using f by (simp add: follows_def took_def)
  next
    case False
    obtain l' c' where dc: "decode_step ?M c t = Inr (l', c')"
      "gen_inc ?N ?M ?P (stop_ids E) ?mc m c' l' g' (?ids @ [t]) = Inr R"
      using g nt t ns False by (auto simp: rbind_Inr_iff Let_def)
    show ?thesis
    proof (cases m)
      case 0
      then show ?thesis using dc(2) n f by (auto simp: follows_def took_def)
    next
      case (Suc k)
      then have "nat (i_max_new i - int (length (i_gen i @ [t]))) = m" using n by simp
      then have "resume E (took t g' ?i1) = Inr R"
        using dc inc by (simp add: resume_def took_def Let_def)
      then show ?thesis using f Suc n by (auto simp: follows_def took_def)
    qed
  qed
  have "decoded E R i ?i1 t g'" unfolding decoded_def using d s stop go by auto
  then show ?thesis by blast
qed

lemma decode_follows_full:
  assumes f: "follows E R i" and more: "int (length (i_gen i)) < i_max_new i"
    and inc: "\<not> supports_incremental (model E)"
  shows "\<exists>i1 tok g. decoded E R i i1 tok g"
proof -
  let ?N = "numpy E" and ?M = "model E" and ?P = "i_params i" and ?ids = "i_prompt i @ i_gen i"
  let ?n = "nat (i_max_new i - int (length (i_gen i)))"
  obtain m where n: "?n = Suc m" using more by (cases "?n") auto
  have g: "gen_full ?N ?M ?P (stop_ids E) (max_context ?M) (Suc m) (i_rng i) ?ids = Inr R"
    using f more inc n by (simp add: follows_def resume_def Let_def)
  then obtain l where l: "full_logits ?M ?ids = Inr l" by (auto simp: rbind_Inr_iff)
  have d: "decode_logits E i = (Inr l, i)" using inc l by (simp add: decode_logits_def)
  obtain q g' where nt: "next_token ?N ?P ?ids l (i_rng i) = (q, g')" by force
  then obtain t where t: "q = Inr t" using g l by (cases q) auto
  have s: "sample_token E i l = (Inr t, g')" using nt t by (simp add: sample_token_next)
  have mc: "int (length (i_prompt i)) + i_max_new i \<le> mc" if "max_context ?M = Some mc" for mc
    using f that unfolding follows_def by auto
  have stop: "R = (?ids, Stop)" if "t \<in> set (stop_ids E)" using g nt t that l by simp
  have go: "follows E R (took t g' i)" if ns: "t \<notin> set (stop_ids E)"
  proof (cases "\<exists>mc. max_context ?M = Some mc \<and> mc \<le> int (length (?ids @ [t]))")
    case True
    then obtain mc where M: "max_context ?M = Some mc" "mc \<le> int (length (?ids @ [t]))" by blast
    then have "R = (?ids @ [t], Length)" using g nt t ns l by (simp add: Let_def)
    moreover have "\<not> int (length (i_gen i @ [t])) < i_max_new i" using M mc[OF M(1)] by simp
    ultimately show ?thesis using f by (simp add: follows_def took_def)
  next
    case False
    have dc: "gen_full ?N ?M ?P (stop_ids E) (max_context ?M) m g' (?ids @ [t]) = Inr R"
      using g nt t ns False l by (auto simp: rbind_Inr_iff Let_def split: option.splits)
    show ?thesis
    proof (cases m)
      case 0
      then show ?thesis using dc n f by (auto simp: follows_def took_def)
    next
      case (Suc k)
      then have "nat (i_max_new i - int (length (i_gen i @ [t]))) = m" using n by simp
      then have "resume E (took t g' i) = Inr R"
        using dc inc by (simp add: resume_def took_def Let_def)
      then show ?thesis using f Suc n by (auto simp: follows_def took_def)
    qed
  qed
  have "decoded E R i i t g'" unfolding decoded_def using d s stop go by auto
  then show ?thesis by blast
qed

lemma decode_follows:
  "follows E R i \<Longrightarrow> int (length (i_gen i)) < i_max_new i \<Longrightarrow> \<exists>i1 tok g. decoded E R i i1 tok g"
  using decode_follows_inc decode_follows_full by blast

section \<open>The engine's invariant\<close>

text \<open>
  A request of the scheduler and the sequence the engine keeps for it.  \<open>R\<close> holds the ids the solo
  run generates and its finish reason.
\<close>

definition full :: "int list \<times> reason \<Rightarrow> ('c, 'f, 'g, 't) info \<Rightarrow> int list \<times> reason" where
  "full R i = (i_prompt i @ fst R, snd R)"

definition matches ::
  "('c, 'f::linordered_field, 'i, 'g, 't) env \<Rightarrow> int list \<times> reason \<Rightarrow> request
    \<Rightarrow> ('c, 'f, 'g, 't) info \<Rightarrow> bool" where
  "matches E R r i \<longleftrightarrow> prompt_len r = int (length (i_prompt i)) \<and> max_new r = i_max_new i
     \<and> tokens_generated r = int (length (i_gen i)) \<and> 1 \<le> i_max_new i
     \<and> follows E (full R i) i \<and> i_text i = None"

definition live :: "scheduler \<Rightarrow> int \<Rightarrow> request \<Rightarrow> bool" where
  "live s sid r \<longleftrightarrow> dget (running s) sid = Some r \<or> r \<in> set (waiting s) \<and> seq_id r = sid"

definition finished_with ::
  "int list \<times> reason \<Rightarrow> ('c, 'f, 'g, 't) info \<Rightarrow> bool" where
  "finished_with R i \<longleftrightarrow> i_gen i = fst R \<and> i_text i = None"

text \<open>\<open>Rs\<close> gives the solo result of each sequence.\<close>

definition engine_ok ::
  "('c, 'f::linordered_field, 'i, 'g, 't) env \<Rightarrow> (int \<Rightarrow> int list \<times> reason)
    \<Rightarrow> ('c, 'f, 'g, 't) engine \<Rightarrow> bool" where
  "engine_ok E Rs eng \<longleftrightarrow> sched_ok (sched eng) \<and> set (order eng) = dom (dget (seqs eng))
     \<and> (\<forall>sid r. live (sched eng) sid r \<longrightarrow>
          (\<exists>i. dget (seqs eng) sid = Some i \<and> matches E (Rs sid) r i))
     \<and> (\<forall>sid i. dget (seqs eng) sid = Some i \<longrightarrow> (\<forall>r. \<not> live (sched eng) sid r)
          \<longrightarrow> finished_with (Rs sid) i)"

lemma engine_okD:
  assumes "engine_ok E Rs eng"
  shows "sched_ok (sched eng)" "set (order eng) = dom (dget (seqs eng))"
    "live (sched eng) sid r \<Longrightarrow> \<exists>i. dget (seqs eng) sid = Some i \<and> matches E (Rs sid) r i"
    "dget (seqs eng) sid = Some i \<Longrightarrow> (\<And>r. \<not> live (sched eng) sid r) \<Longrightarrow> finished_with (Rs sid) i"
  using assms unfolding engine_ok_def by blast+

lemma live_unique:
  assumes "sched_ok s" "live s sid r" "live s sid r'"
  shows "r = r'"
proof -
  have q: "queue_ok s (waiting s)" using assms(1) by (simp add: sched_ok_def)
  then have "inj_on seq_id (set (waiting s))" "\<forall>r \<in> set (waiting s). dget (running s) (seq_id r) = None"
    by (auto simp: queue_ok_def distinct_map)
  then show ?thesis using assms(2,3) by (auto simp: live_def inj_on_def)
qed

text \<open>What an advance does to the live requests.\<close>

lemma advanced_live:
  assumes adv: "advanced sid eos s s'" and ok: "sched_ok s"
    and r: "dget (running s) sid = Some r"
  defines "r' \<equiv> progressed (action_of (chunk_size s) r) r"
  shows "completes eos r' \<Longrightarrow> \<not> live s' sid q"
    and "\<not> completes eos r' \<Longrightarrow> live s' sid q \<longleftrightarrow> q = r'"
    and "k \<noteq> sid \<Longrightarrow> live s' k q \<longleftrightarrow> live s k q"
    and "k \<noteq> sid \<Longrightarrow> dget (running s') k = dget (running s) k"
proof -
  have w: "waiting s' = waiting s" and R:
    "completes eos r' \<Longrightarrow> running s' = ddel sid (running s)"
    "\<not> completes eos r' \<Longrightarrow> running s' = dset sid r' (running s)"
    using adv r unfolding advanced_def r'_def by (auto simp: Let_def)
  have q: "queue_ok s (waiting s)" using ok by (simp add: sched_ok_def)
  then have n: "seq_id w \<noteq> sid" if "w \<in> set (waiting s)" for w
    using that r by (auto simp: queue_ok_def)
  show "completes eos r' \<Longrightarrow> \<not> live s' sid q"
    using R(1) w n by (auto simp: live_def dict_simps)
  show "\<not> completes eos r' \<Longrightarrow> live s' sid q \<longleftrightarrow> q = r'"
    using R(2) w n by (auto simp: live_def dict_simps)
  show other: "k \<noteq> sid \<Longrightarrow> dget (running s') k = dget (running s) k" for k
    using R by (cases "completes eos r'") (auto simp: dict_simps)
  show "k \<noteq> sid \<Longrightarrow> live s' k q \<longleftrightarrow> live s k q"
    using other[of k] w by (simp add: live_def)
qed

text \<open>Replacing one sequence and its request keeps the invariant if the pair still agrees.\<close>

lemma engine_ok_advance:
  assumes ok: "engine_ok E Rs eng" and r: "dget (running (sched eng)) sid = Some r"
    and adv: "advanced sid eos (sched eng) s'"
    and i: "dget (seqs eng) sid = Some i0"
    and fin: "completes eos (progressed (action_of (chunk_size (sched eng)) r) r) \<Longrightarrow> finished_with (Rs sid) i'"
    and more: "\<not> completes eos (progressed (action_of (chunk_size (sched eng)) r) r) \<Longrightarrow>
      matches E (Rs sid) (progressed (action_of (chunk_size (sched eng)) r) r) i'"
  shows "engine_ok E Rs (eng\<lparr>seqs := dset sid i' (seqs eng), sched := s', published := pub\<rparr>)"
proof -
  note D = engine_okD[OF ok]
  note L = advanced_live[OF adv D(1) r]
  show ?thesis
    unfolding engine_ok_def
  proof (intro conjI allI impI)
    show "sched_ok (sched (eng\<lparr>seqs := dset sid i' (seqs eng), sched := s', published := pub\<rparr>))"
      using adv by (simp add: advanced_def)
    show "set (order (eng\<lparr>seqs := dset sid i' (seqs eng), sched := s', published := pub\<rparr>))
        = dom (dget (seqs (eng\<lparr>seqs := dset sid i' (seqs eng), sched := s', published := pub\<rparr>)))"
      using D(2) i by auto
  next
    fix k q assume q: "live (sched (eng\<lparr>seqs := dset sid i' (seqs eng), sched := s', published := pub\<rparr>)) k q"
    show "\<exists>i. dget (seqs (eng\<lparr>seqs := dset sid i' (seqs eng), sched := s', published := pub\<rparr>)) k = Some i
        \<and> matches E (Rs k) q i"
    proof (cases "k = sid")
      case True
      let ?r' = "progressed (action_of (chunk_size (sched eng)) r) r"
      have l: "live s' sid q" using q True by simp
      then have "\<not> completes eos ?r'" using L(1) by blast
      with l L(2) have "q = ?r'" by blast
      with \<open>\<not> completes eos ?r'\<close> more True show ?thesis by (simp add: dict_simps)
    next
      case False
      then show ?thesis using q L(3) D(3)[of k q] by (simp add: dict_simps)
    qed
  next
    fix k i assume i: "dget (seqs (eng\<lparr>seqs := dset sid i' (seqs eng), sched := s', published := pub\<rparr>)) k = Some i"
      and q: "\<forall>q. \<not> live (sched (eng\<lparr>seqs := dset sid i' (seqs eng), sched := s', published := pub\<rparr>)) k q"
    show "finished_with (Rs k) i"
    proof (cases "k = sid")
      case True
      then show ?thesis using i q L(2) fin by (auto simp: dict_simps)
    next
      case False
      then show ?thesis using i q L(3) D(4)[of k i] by (simp add: dict_simps)
    qed
  qed
qed

section \<open>One action\<close>

lemma sum_dset:
  "dict_ok d \<Longrightarrow> dget d k = Some v \<Longrightarrow>
    sum_list (map (\<lambda>(k, v). f v) (dset k v' d)) + f v = sum_list (map (\<lambda>(k, v). f v) d) + (f v' :: nat)"
  by (induction d) (auto simp: dict_ok_def split: if_splits)

lemma sum_ddel:
  "dict_ok d \<Longrightarrow> dget d k = Some v \<Longrightarrow>
    sum_list (map (\<lambda>(k, v). f v) (ddel k d)) + f v = sum_list (map (\<lambda>(k, v). (f v :: nat)) d)"
proof (induction d)
  case (Cons p d)
  obtain a b where p: "p = (a, b)" by force
  show ?case
  proof (cases "a = k")
    case True
    then have "k \<notin> set (dkeys d)" using Cons.prems p by (auto simp: dict_ok_def)
    then show ?thesis using True Cons.prems p by (simp add: ddel_absent)
  next
    case False
    then show ?thesis using Cons p by (auto simp: dict_ok_def)
  qed
qed simp

definition total_work :: "scheduler \<Rightarrow> nat" where
  "total_work s = sum_list (map work (waiting s)) + sum_list (map (\<lambda>(k, r). work r) (running s))"

lemma advanced_work:
  assumes adv: "advanced sid eos s s'" and ok: "sched_ok s" and r: "dget (running s) sid = Some r"
  shows "total_work s' < total_work s"
proof -
  have run: "running_ok s" using ok by (simp add: sched_ok_def)
  note D = running_okD[OF run]
  let ?r' = "progressed (action_of (chunk_size s) r) r"
  have rok: "request_ok r" by (rule D(8)[OF r])
  have w: "waiting s' = waiting s" and R:
    "completes eos ?r' \<Longrightarrow> running s' = ddel sid (running s)"
    "\<not> completes eos ?r' \<Longrightarrow> running s' = dset sid ?r' (running s)"
    using adv r unfolding advanced_def by (auto simp: Let_def)
  show ?thesis
  proof (cases "completes eos ?r'")
    case True
    then show ?thesis using w R(1) sum_ddel[OF D(5) r, of work] work_pos[OF rok]
      by (simp add: total_work_def)
  next
    case False
    then show ?thesis using w R(2) sum_dset[OF D(5) r, of work ?r'] progressed_work[OF rok D(2)]
      by (simp add: total_work_def)
  qed
qed

definition acted ::
  "('c, 'f::linordered_field, 'i, 'g, 't) env \<Rightarrow> (int \<Rightarrow> int list \<times> reason) \<Rightarrow> int
    \<Rightarrow> ('c, 'f, 'g, 't) engine \<Rightarrow> ('c, 'f, 'g, 't) engine \<Rightarrow> bool" where
  "acted E Rs sid eng eng' \<longleftrightarrow> engine_ok E Rs eng'
     \<and> total_work (sched eng') < total_work (sched eng)
     \<and> waiting (sched eng') = waiting (sched eng) \<and> order eng' = order eng
     \<and> block_size (sched eng') = block_size (sched eng)
     \<and> chunk_size (sched eng') = chunk_size (sched eng)
     \<and> max_concurrency (sched eng') = max_concurrency (sched eng)
     \<and> capacity (kv (coord (sched eng'))) = capacity (kv (coord (sched eng)))
     \<and> capacity (state (coord (sched eng'))) = capacity (state (coord (sched eng)))
     \<and> (\<forall>k. k \<noteq> sid \<longrightarrow> dget (running (sched eng')) k = dget (running (sched eng)) k)"

lemma actedI:
  assumes "engine_ok E Rs eng'" "advanced sid eos (sched eng) (sched eng')" "order eng' = order eng"
    and "sched_ok (sched eng)" "dget (running (sched eng)) sid = Some r"
  shows "acted E Rs sid eng eng'"
  using assms advanced_work[OF assms(2,4,5)] advanced_live(4)[OF assms(2,4,5)]
  by (auto simp: acted_def advanced_def)

lemma run_action_prefill:
  assumes ok: "engine_ok E Rs eng" and r: "dget (running (sched eng)) sid = Some r"
    and pre: "position r < prompt_len r"
  shows "\<exists>eng'. run_action E (action_of (chunk_size (sched eng)) r) eng = (Inr (), eng')
    \<and> acted E Rs sid eng eng'"
proof -
  let ?s = "sched eng"
  let ?a = "action_of (chunk_size ?s) r"
  note D = engine_okD[OF ok]
  have sid: "seq_id r = sid" and rok: "request_ok r"
    using D(1) running_okD(7,8)[of ?s sid r] r by (auto simp: sched_ok_def)
  have ph: "a_phase ?a = Prefill" "a_seq ?a = sid" using pre sid by (simp_all add: action_of_def Let_def)
  obtain i where i: "dget (seqs eng) sid = Some i" "matches E (Rs sid) r i"
    using D(3)[of sid r] r by (auto simp: live_def)
  have more: "int (length (i_gen i)) < i_max_new i" "tokens_generated r = 0"
    using i(2) rok pre by (auto simp: matches_def request_ok_def)
  obtain i1 where i1: "(if supports_incremental (model E) then fill_cache E i else (Inr (), i)) = (Inr (), i1)"
    "matches E (Rs sid) r i1"
  proof (cases "supports_incremental (model E)")
    case True
    obtain i1 c where f: "fill_cache E i = (Inr (), i1)" "follows E (full (Rs sid) i) i1"
      "i1 = i\<lparr>i_cache := Some c, i_prefill_L := i_prefill_L i1\<rparr>"
      using i(2) by (auto simp: matches_def intro: fill_cache_follows[OF _ more(1) True])
    have "full (Rs sid) i1 = full (Rs sid) i" by (subst f(3)) (simp add: full_def)
    then have "matches E (Rs sid) r i1" using i(2) f(2) unfolding matches_def by (subst (1 2 3 4 6) f(3)) simp
    with f(1) True that show ?thesis by simp
  next
    case False
    then show ?thesis using i(2) that by simp
  qed
  let ?r' = "progressed ?a r"
  have nc: "\<not> completes False ?r'"
    using i(2) more rok ph by (auto simp: completes_def progressed_def matches_def)
  obtain s' where s': "advance ?a False ?s = (Inr (), s')" "advanced sid False ?s s'"
    by (rule advance_ok[OF D(1) r])
  have m': "matches E (Rs sid) ?r' i1" using i1(2) ph by (auto simp: matches_def progressed_def)
  let ?eng = "eng\<lparr>seqs := dset sid i1 (seqs eng), sched := s', published := published eng\<rparr>"
  have "engine_ok E Rs ?eng"
    by (rule engine_ok_advance[OF ok r s'(2) i(1)]) (use nc m' in auto)
  then have "acted E Rs sid eng ?eng" by (rule actedI[where eos = False]) (use s' D(1) r in auto)
  moreover have "run_action E ?a eng = (Inr (), ?eng)"
    using ph i(1) i1(1) s'(1) by (simp add: run_action_def Let_def put_info_def)
  ultimately show ?thesis by blast
qed

lemma run_action_decode:
  assumes ok: "engine_ok E Rs eng" and r: "dget (running (sched eng)) sid = Some r"
    and pre: "\<not> position r < prompt_len r"
  shows "\<exists>eng'. run_action E (action_of (chunk_size (sched eng)) r) eng = (Inr (), eng')
    \<and> acted E Rs sid eng eng'"
proof -
  let ?s = "sched eng"
  let ?a = "action_of (chunk_size ?s) r"
  note D = engine_okD[OF ok]
  have sid: "seq_id r = sid" and rok: "request_ok r"
    using D(1) running_okD(7,8)[of ?s sid r] r by (auto simp: sched_ok_def)
  have ph: "a_phase ?a = Decode" "a_seq ?a = sid" "a_length ?a = 1"
    using pre sid by (simp_all add: action_of_def)
  obtain i where i: "dget (seqs eng) sid = Some i" "matches E (Rs sid) r i"
    using D(3)[of sid r] r by (auto simp: live_def)
  have more: "int (length (i_gen i)) < i_max_new i"
    using i(2) rok by (auto simp: matches_def request_ok_def)
  obtain i1 tok g where d: "decoded E (full (Rs sid) i) i i1 tok g"
    using decode_follows[of E "full (Rs sid) i" i] i(2) more by (auto simp: matches_def)
  then obtain l where l: "decode_logits E i = (Inr l, i1)" "sample_token E i1 l = (Inr tok, g)"
    by (auto simp: decoded_def)
  have same: "i_prompt i1 = i_prompt i" "i_gen i1 = i_gen i" "i_max_new i1 = i_max_new i"
    "i_text i1 = i_text i"
    using d by (auto simp: decoded_def)
  let ?eos = "tok \<in> set (stop_ids E)"
  let ?i3 = "if ?eos then i1\<lparr>i_rng := g\<rparr> else took tok g i1"
  let ?r' = "progressed ?a r"
  obtain s' where s': "advance ?a ?eos ?s = (Inr (), s')" "advanced sid ?eos ?s s'"
    by (rule advance_ok[OF D(1) r])
  have r': "tokens_generated ?r' = tokens_generated r + 1" "position ?r' = prompt_len r"
    using ph by (simp_all add: progressed_def)
  have fin: "finished_with (Rs sid) ?i3" if "completes ?eos ?r'"
  proof (cases ?eos)
    case True
    then show ?thesis using d same i(2) by (auto simp: decoded_def finished_with_def matches_def full_def)
  next
    case False
    then have "follows E (full (Rs sid) i) (took tok g i1)" using d by (simp add: decoded_def)
    moreover have "\<not> int (length (i_gen i1 @ [tok])) < i_max_new i1"
      using that False r' i(2) same by (auto simp: completes_def matches_def)
    ultimately show ?thesis using False i(2) same
      by (simp add: follows_def took_def finished_with_def matches_def full_def)
  qed
  have mat: "matches E (Rs sid) ?r' ?i3" if "\<not> completes ?eos ?r'"
  proof -
    have "\<not> ?eos" using that by (simp add: completes_def)
    then show ?thesis using d same i(2) r' by (auto simp: decoded_def matches_def took_def full_def)
  qed
  let ?pub = "published eng @ step_events sid ?i3 tok ?eos"
  let ?eng = "eng\<lparr>seqs := dset sid ?i3 (seqs eng), sched := s', published := ?pub\<rparr>"
  have "engine_ok E Rs ?eng"
    by (rule engine_ok_advance[OF ok r s'(2) i(1)]) (use fin mat in auto)
  then have "acted E Rs sid eng ?eng" by (rule actedI[where eos = ?eos]) (use s' D(1) r in auto)
  moreover have "run_action E ?a eng = (Inr (), ?eng)"
    using ph i(1) l s'(1) by (simp add: run_action_def Let_def put_info_def took_def)
  ultimately show ?thesis by blast
qed

lemma run_action_ok:
  "engine_ok E Rs eng \<Longrightarrow> dget (running (sched eng)) sid = Some r \<Longrightarrow>
    \<exists>eng'. run_action E (action_of (chunk_size (sched eng)) r) eng = (Inr (), eng')
      \<and> acted E Rs sid eng eng'"
  using run_action_prefill run_action_decode by blast

section \<open>One step\<close>

text \<open>The configuration no operation changes.\<close>

definition same_config :: "scheduler \<Rightarrow> scheduler \<Rightarrow> bool" where
  "same_config s s' \<longleftrightarrow> block_size s' = block_size s \<and> chunk_size s' = chunk_size s
     \<and> max_concurrency s' = max_concurrency s
     \<and> capacity (kv (coord s')) = capacity (kv (coord s))
     \<and> capacity (state (coord s')) = capacity (state (coord s))"

definition stepped ::
  "('c, 'f::linordered_field, 'i, 'g, 't) env \<Rightarrow> (int \<Rightarrow> int list \<times> reason) \<Rightarrow> nat
    \<Rightarrow> ('c, 'f, 'g, 't) engine \<Rightarrow> ('c, 'f, 'g, 't) engine \<Rightarrow> bool" where
  "stepped E Rs n eng eng' \<longleftrightarrow> engine_ok E Rs eng'
     \<and> total_work (sched eng') + n \<le> total_work (sched eng)
     \<and> waiting (sched eng') = waiting (sched eng) \<and> order eng' = order eng
     \<and> same_config (sched eng) (sched eng')"

lemma run_actions_ok:
  "engine_ok E Rs eng \<Longrightarrow> distinct (map fst xs) \<Longrightarrow>
    (\<And>k r. (k, r) \<in> set xs \<Longrightarrow> dget (running (sched eng)) k = Some r) \<Longrightarrow>
    \<exists>eng'. run_actions E (map (\<lambda>(k, r). action_of (chunk_size (sched eng)) r) xs) eng = (Inr (), eng')
      \<and> stepped E Rs (length xs) eng eng'"
proof (induction xs arbitrary: eng)
  case Nil
  then show ?case by (simp add: stepped_def same_config_def)
next
  case (Cons x xs)
  obtain k r where x: "x = (k, r)" by force
  obtain eng1 where e: "run_action E (action_of (chunk_size (sched eng)) r) eng = (Inr (), eng1)"
    "acted E Rs k eng eng1"
    using run_action_ok[of E Rs eng k r] Cons.prems x by auto
  have "dget (running (sched eng1)) k' = Some r'" if "(k', r') \<in> set xs" for k' r'
  proof -
    have "k' \<noteq> k" using Cons.prems(2) x that by (auto simp: rev_image_eqI)
    then show ?thesis using e(2) Cons.prems(3)[of k' r'] that by (simp add: acted_def)
  qed
  moreover have "engine_ok E Rs eng1" "chunk_size (sched eng1) = chunk_size (sched eng)"
    using e(2) by (simp_all add: acted_def)
  ultimately obtain eng2 where
    "run_actions E (map (\<lambda>(k, r). action_of (chunk_size (sched eng)) r) xs) eng1 = (Inr (), eng2)"
    "stepped E Rs (length xs) eng1 eng2"
    using Cons.IH[of eng1] Cons.prems(2) by auto
  then show ?case using e x
    by (intro exI[of _ eng2]) (auto simp: stepped_def acted_def same_config_def)
qed

lemma pumped_live:
  assumes P: "pumped s (waiting s) s' adm (waiting s')" and ok: "sched_ok s"
  shows "live s' k r \<longleftrightarrow> live s k r"
proof -
  obtain p where p: "adm = filter p (waiting s)" "waiting s' = filter (\<lambda>r. \<not> p r) (waiting s)"
    using P unfolding pumped_def by blast
  have run: "running s' = running s @ map (\<lambda>r. (seq_id r, r)) adm" using P by (simp add: pumped_def)
  have q: "queue_ok s (waiting s)" using ok by (simp add: sched_ok_def)
  have d: "dict_ok (map (\<lambda>r. (seq_id r, r)) adm)"
    using q p(1) by (auto simp: queue_ok_def dict_ok_def o_def distinct_map_filter)
  have n: "dget (running s) (seq_id w) = None" if "w \<in> set (waiting s)" for w
    using q that by (simp add: queue_ok_def)
  have a: "dget (map (\<lambda>r. (seq_id r, r)) adm) k = Some r \<longleftrightarrow> r \<in> set adm \<and> seq_id r = k"
    using dget_Some_in[OF d, of k r] by auto
  show ?thesis
    using a n p run by (auto simp: live_def map_add_Some_iff)
qed

lemma pumped_work:
  assumes P: "pumped s (waiting s) s' adm (waiting s')"
  shows "total_work s' = total_work s"
proof -
  obtain p where p: "adm = filter p (waiting s)" "waiting s' = filter (\<lambda>r. \<not> p r) (waiting s)"
    using P unfolding pumped_def by blast
  have run: "running s' = running s @ map (\<lambda>r. (seq_id r, r)) adm" using P by (simp add: pumped_def)
  have "sum_list (map work (filter p ws)) + sum_list (map work (filter (\<lambda>r. \<not> p r) ws))
      = sum_list (map work ws)" for ws
    by (induction ws) auto
  from this[of "waiting s"] show ?thesis by (simp add: total_work_def run p o_def)
qed

text \<open>A request that an idle scheduler would admit.\<close>

definition fits :: "scheduler \<Rightarrow> request \<Rightarrow> bool" where
  "fits s r \<longleftrightarrow> worst_blocks s r \<le> capacity (kv (coord s))
     \<and> (use_state r \<longrightarrow> 1 \<le> capacity (state (coord s)))"

lemma fits_config: "same_config s s' \<Longrightarrow> fits s' r = fits s r"
  by (simp add: same_config_def fits_def worst_blocks_def)

lemma idle_accepts:
  assumes ok: "sched_ok s" and idle: "running s = []" and f: "fits s r"
  shows "accepts s r"
proof -
  have run: "running_ok s" using ok by (simp add: sched_ok_def)
  note D = running_okD[OF run]
  have "coord_held (coord s) sid = None" for sid using D(9) idle by simp
  from coord_idle[OF D(4) this] f D(3) idle show ?thesis by (auto simp: accepts_def fits_def)
qed

lemma engine_step_ok:
  assumes ok: "engine_ok E Rs eng" and f: "\<forall>r \<in> set (waiting (sched eng)). fits (sched eng) r"
  obtains acts eng' where "engine_step E eng = (Inr acts, eng')" "engine_ok E Rs eng'"
    "total_work (sched eng') + length acts \<le> total_work (sched eng)" "order eng' = order eng"
    "\<forall>r \<in> set (waiting (sched eng')). fits (sched eng') r" "acts = [] \<longrightarrow> queue_length eng' = 0"
proof -
  note D = engine_okD[OF ok]
  obtain adm skp s' where P: "pump (sched eng) = (Inr (map seq_id adm), s')" "waiting s' = skp"
    "pumped (sched eng) (waiting (sched eng)) s' adm skp" "sched_ok s'"
    by (rule pump_ok[OF D(1)])
  have P3: "pumped (sched eng) (waiting (sched eng)) s' adm (waiting s')" using P(2,3) by simp
  have cfg: "same_config (sched eng) s'" using P(3) by (simp add: pumped_def same_config_def)
  let ?e = "eng\<lparr>sched := s'\<rparr>"
  have ok': "engine_ok E Rs ?e"
    using ok P(4) pumped_live[OF P3 D(1)] by (simp add: engine_ok_def)
  have sub: "set (waiting s') \<subseteq> set (waiting (sched eng))" using P3 unfolding pumped_def by auto
  have run: "running_ok s'" using P(4) by (simp add: sched_ok_def)
  have dist: "distinct (map fst (running s'))"
    using running_okD(5)[OF run] by (simp add: dict_ok_def)
  have acts: "schedule s' = map (\<lambda>(k, r). action_of (chunk_size s') r) (running s')"
    by (rule schedule_all[OF P(4)])
  have "\<exists>eng'. run_actions E (map (\<lambda>(k, r). action_of (chunk_size (sched ?e)) r) (running s')) ?e = (Inr (), eng')
      \<and> stepped E Rs (length (running s')) ?e eng'"
    by (rule run_actions_ok[OF ok' dist]) (use running_okD(5)[OF run] in \<open>simp add: dget_Some_in\<close>)
  then obtain eng' where R: "run_actions E (schedule s') ?e = (Inr (), eng')"
    "stepped E Rs (length (running s')) ?e eng'"
    using acts by auto
  show ?thesis
  proof (rule that[of "schedule s'" eng'])
    show "engine_step E eng = (Inr (schedule s'), eng')"
      using P(1) R(1) by (simp add: engine_step_def sched_step_def)
    show "engine_ok E Rs eng'" "order eng' = order eng" using R(2) by (simp_all add: stepped_def)
    show "total_work (sched eng') + length (schedule s') \<le> total_work (sched eng)"
      using R(2) acts pumped_work[OF P3] by (simp add: stepped_def)
    have c2: "same_config s' (sched eng')" "waiting (sched eng') = waiting s'"
      using R(2) by (simp_all add: stepped_def)
    show F: "\<forall>r \<in> set (waiting (sched eng')). fits (sched eng') r"
      using f sub c2 fits_config[OF c2(1)] fits_config[OF cfg] by auto
    show "schedule s' = [] \<longrightarrow> queue_length eng' = 0"
    proof
    assume "schedule s' = []"
    then have idle: "running s' = []" using acts by simp
    then have "eng' = ?e" using R(1) acts by simp
    moreover have "waiting s' = []"
    proof (rule ccontr)
      assume "waiting s' \<noteq> []"
      then obtain r where r: "r \<in> set (waiting s')" by (cases "waiting s'") auto
      then have "\<not> accepts s' r" using P3 unfolding pumped_def by blast
      moreover have "fits s' r" using r f sub fits_config[OF cfg] by auto
      ultimately show False using idle_accepts[OF P(4) idle] by blast
    qed
    ultimately show "queue_length eng' = 0" using idle by (simp add: queue_length_def)
    qed
  qed
qed

section \<open>Runs to completion\<close>

lemma result_text_finished:
  "dget (seqs eng) sid = Some i \<Longrightarrow> i_text i = None \<or> i_text i = Some (decode E (i_gen i)) \<Longrightarrow>
    result_text E sid eng = (Inr (decode E (i_gen i)),
      eng\<lparr>seqs := dset sid (i\<lparr>i_text := Some (decode E (i_gen i))\<rparr>) (seqs eng)\<rparr>)"
  by (cases i) (auto simp: result_text_def with_text_def)

lemma results_of_finished:
  assumes "\<And>sid. sid \<in> set is \<Longrightarrow> \<exists>i. dget (seqs eng) sid = Some i
      \<and> (i_text i = None \<or> i_text i = Some (decode E (i_gen i))) \<and> i_gen i = f sid"
  shows "\<exists>eng'. results_of E is eng = (Inr (map (\<lambda>sid. decode E (f sid)) is), eng')"
  using assms
proof (induction "is" arbitrary: eng)
  case (Cons s ss)
  obtain i where i: "dget (seqs eng) s = Some i"
    "i_text i = None \<or> i_text i = Some (decode E (i_gen i))" "i_gen i = f s"
    using Cons.prems[of s] by auto
  let ?e = "eng\<lparr>seqs := dset s (i\<lparr>i_text := Some (decode E (i_gen i))\<rparr>) (seqs eng)\<rparr>"
  have "\<exists>j. dget (seqs ?e) k = Some j
      \<and> (i_text j = None \<or> i_text j = Some (decode E (i_gen j))) \<and> i_gen j = f k" if "k \<in> set ss" for k
    using Cons.prems[of k] that i(3) by (auto simp: dict_simps)
  from Cons.IH[OF this] obtain eng' where
    "results_of E ss ?e = (Inr (map (\<lambda>sid. decode E (f sid)) ss), eng')" by blast
  then show ?case using result_text_finished[OF i(1,2)] i(3) by simp
qed simp

lemma results_ok:
  assumes ok: "engine_ok E Rs eng" and q: "queue_length eng = 0"
  shows "\<exists>eng'. results_in_order E eng
    = (Inr (map (\<lambda>sid. decode E (fst (Rs sid))) (order eng)), eng')"
  unfolding results_in_order_def
proof (rule results_of_finished)
  fix sid assume "sid \<in> set (order eng)"
  then obtain i where i: "dget (seqs eng) sid = Some i" using engine_okD(2)[OF ok] by auto
  have "\<not> live (sched eng) sid r" for r using q by (simp add: queue_length_def live_def)
  from engine_okD(4)[OF ok i this] i show "\<exists>i. dget (seqs eng) sid = Some i
      \<and> (i_text i = None \<or> i_text i = Some (decode E (i_gen i))) \<and> i_gen i = fst (Rs sid)"
    by (auto simp: finished_with_def)
qed

lemma idle_work:
  assumes ok: "engine_ok E Rs eng" and w: "total_work (sched eng) = 0"
  shows "queue_length eng = 0"
proof -
  have run: "running_ok (sched eng)" and que: "queue_ok (sched eng) (waiting (sched eng))"
    using engine_okD(1)[OF ok] by (simp_all add: sched_ok_def)
  have "running (sched eng) = []"
  proof (rule ccontr)
    assume "running (sched eng) \<noteq> []"
    then obtain k r where kr: "(k, r) \<in> set (running (sched eng))" by (cases "running (sched eng)") auto
    then have "work r = 0" using w by (force simp: total_work_def)
    with kr running_okD(5,8)[OF run] work_pos show False by (metis dget_Some_in less_irrefl)
  qed
  moreover have "waiting (sched eng) = []"
  proof (rule ccontr)
    assume "waiting (sched eng) \<noteq> []"
    then obtain r where r: "r \<in> set (waiting (sched eng))" by (cases "waiting (sched eng)") auto
    then have "work r = 0" using w by (simp add: total_work_def)
    moreover have "request_ok r" using que r by (auto simp: queue_ok_def fresh_request_ok)
    ultimately show False using work_pos[of r] by simp
  qed
  ultimately show ?thesis by (simp add: queue_length_def)
qed

text \<open>
  \<open>run_all\<close> never raises and returns every solo text, as soon as the step budget is at least the
  total work: each step that does something uses up some of it, and a step only does nothing when
  no request is left.
\<close>

lemma run_all_ok:
  "engine_ok E Rs eng \<Longrightarrow> \<forall>r \<in> set (waiting (sched eng)). fits (sched eng) r \<Longrightarrow>
    total_work (sched eng) \<le> n \<Longrightarrow>
    \<exists>eng'. run_all E n eng = (Inr (map (\<lambda>sid. decode E (fst (Rs sid))) (order eng)), eng')"
proof (induction n arbitrary: eng)
  case 0
  then have q: "queue_length eng = 0" using idle_work by auto
  then show ?case using results_ok[OF 0(1) q] by auto
next
  case (Suc n)
  obtain acts eng1 where S: "engine_step E eng = (Inr acts, eng1)" "engine_ok E Rs eng1"
    "total_work (sched eng1) + length acts \<le> total_work (sched eng)" "order eng1 = order eng"
    "\<forall>r \<in> set (waiting (sched eng1)). fits (sched eng1) r" "acts = [] \<longrightarrow> queue_length eng1 = 0"
    by (rule engine_step_ok[OF Suc.prems(1,2)])
  show ?case
  proof (cases "acts = []")
    case True
    then show ?thesis using S results_ok[OF S(2)] by auto
  next
    case False
    then have "0 < length acts" by simp
    then have "total_work (sched eng1) \<le> n" using S(3) Suc.prems(3) by linarith
    from Suc.IH[OF S(2,5) this] S(1,4) False show ?thesis by auto
  qed
qed

section \<open>Submitting\<close>

text \<open>What \<open>generate\<close> returns for one prompt of a batch.\<close>

definition solo_run ::
  "('c, 'f::linordered_field, 'i, 'g, 't) env \<Rightarrow> 'f sampling \<Rightarrow> int \<Rightarrow> int list
    \<Rightarrow> (int list \<times> reason \<times> int) pure_result" where
  "solo_run E P n ids = generate (numpy E) (model E) P (stop_ids E) n None ids"

text \<open>A prompt the admission rule of \<open>submit\<close> lets in and the pools can hold.\<close>

definition admissible ::
  "('c, 'f, 'i, 'g, 't) env \<Rightarrow> scheduler \<Rightarrow> int \<Rightarrow> int list \<Rightarrow> bool" where
  "admissible E s n ids \<longleftrightarrow>
     (\<forall>m. max_context (model E) = Some m \<longrightarrow> m \<noteq> 0 \<and> int (length ids) + n \<le> m)
   \<and> blocks_for_tokens (int (length ids) + n) (block_size s) \<le> capacity (kv (coord s))
   \<and> (needs_state E \<longrightarrow> 1 \<le> capacity (state (coord s)))"

definition prompt_ids_of :: "('c, 'f, 'i, 'g, 't) env \<Rightarrow> 't \<Rightarrow> int list option \<Rightarrow> int list" where
  "prompt_ids_of E p ids = (case ids of Some q \<Rightarrow> q | None \<Rightarrow> encode E p)"

text \<open>Sequence ids are handed out in order, so \<open>next_seq\<close> is new.\<close>

definition ids_below :: "('c, 'f, 'g, 't) engine \<Rightarrow> bool" where
  "ids_below eng \<longleftrightarrow> (\<forall>sid \<in> dom (dget (seqs eng)). sid < next_seq eng)"

lemma submit_ok:
  assumes ok: "engine_ok E Rs eng" and below: "ids_below eng" and n: "1 \<le> n"
    and adm: "admissible E (sched eng) n ids" "prompt_ids_of E p pids = ids"
    and f: "\<forall>r \<in> set (waiting (sched eng)). fits (sched eng) r"
    and run: "solo_run E P n ids = Inr (ids @ gen, r, m)"
  shows "\<exists>eng'. submit E p n P snk pids eng = (Inr (next_seq eng), eng')
    \<and> engine_ok E (Rs(next_seq eng := (gen, r))) eng' \<and> ids_below eng'
    \<and> next_seq eng' = next_seq eng + 1
    \<and> order eng' = order eng @ [next_seq eng] \<and> same_config (sched eng) (sched eng')
    \<and> (\<forall>r \<in> set (waiting (sched eng')). fits (sched eng') r)
    \<and> total_work (sched eng') = total_work (sched eng) + length ids + nat n"
proof -
  note D = engine_okD[OF ok]
  let ?k = "next_seq eng"
  let ?i = "\<lparr>i_prompt = ids, i_gen = [], i_max_new = n, i_params = P,
             i_rng = np_rng (numpy E) (seed P), i_text = None, i_sink = snk,
             i_cache = None, i_last_id = None, i_prefill_L = None\<rparr>"
  let ?r = "\<lparr>seq_id = ?k, prompt_len = int (length ids), max_new = n, use_state = needs_state E,
             position = 0, tokens_generated = 0, finished = False\<rparr>"
  let ?s = "(sched eng)\<lparr>waiting := waiting (sched eng) @ [?r]\<rparr>"
  let ?e = "eng\<lparr>next_seq := ?k + 1, seqs := dset ?k ?i (seqs eng), order := order eng @ [?k], sched := ?s\<rparr>"
  have new: "?k \<notin> dom (dget (seqs eng))" using below unfolding ids_below_def by (meson less_irrefl)
  have dead: "\<not> live (sched eng) ?k q" for q using D(3)[of ?k q] new by auto
  have add: "sched_add ?k (int (length ids)) n (needs_state E) (sched eng) = (Inr (), ?s)"
    using dead by (auto simp: sched_add_def live_def)
  have "\<not> (case max_context (model E) of
            None \<Rightarrow> False | Some m \<Rightarrow> m \<noteq> 0 \<and> int (length ids) + n > m)"
    using adm(1) by (auto simp: admissible_def split: option.splits)
  then have sub: "submit E p n P snk pids eng = (Inr ?k, ?e)"
    using add adm(2) by (simp add: submit_def Let_def prompt_ids_of_def)
  have sok: "sched_ok ?s" by (rule sched_add_ok[OF D(1) _ _ add]) (use n in simp_all)
  have "solo E ?i = Inr (ids @ gen, r)" using run by (simp add: solo_def solo_run_def)
  then have fol: "follows E (ids @ gen, r) ?i"
    using adm(1) n by (intro follows_fresh) (auto simp: admissible_def)
  have m: "matches E (gen, r) ?r ?i" using fol n by (simp add: matches_def full_def)
  have lv: "live ?s k q \<longleftrightarrow> live (sched eng) k q \<or> k = ?k \<and> q = ?r" for k q
    by (auto simp: live_def)
  have eok: "engine_ok E (Rs(?k := (gen, r))) ?e"
    unfolding engine_ok_def
  proof (intro conjI allI impI)
    show "sched_ok (sched ?e)" using sok by simp
    show "set (order ?e) = dom (dget (seqs ?e))" using D(2) by auto
  next
    fix k q assume "live (sched ?e) k q"
    then show "\<exists>i. dget (seqs ?e) k = Some i \<and> matches E ((Rs(?k := (gen, r))) k) q i"
      using lv[of k q] dead[of q] m D(3)[of k q] by (auto simp: dict_simps)
  next
    fix k i assume "dget (seqs ?e) k = Some i" "\<forall>q. \<not> live (sched ?e) k q"
    then show "finished_with ((Rs(?k := (gen, r))) k) i"
      using lv[of k] D(4)[of k i] by (auto simp: dict_simps split: if_splits)
  qed
  have bel: "ids_below ?e" using below by (auto simp: ids_below_def intro!: less_imp_le)
  have "\<forall>q \<in> set (waiting (sched ?e)). fits (sched ?e) q"
    using f adm(1) by (auto simp: fits_def admissible_def worst_blocks_def)
  moreover have "total_work (sched ?e) = total_work (sched eng) + length ids + nat n"
    using n by (simp add: total_work_def work_def)
  moreover have "same_config (sched eng) (sched ?e)" by (simp add: same_config_def)
  ultimately show ?thesis using sub eok bel by (intro exI[of _ ?e]) simp
qed

lemma submit_all_ok:
  assumes "engine_ok E Rs eng" "ids_below eng" "1 \<le> n"
    and "\<forall>r \<in> set (waiting (sched eng)). fits (sched eng) r"
    and "\<And>p. p \<in> set ps \<Longrightarrow> admissible E (sched eng) n (encode E p)
      \<and> solo_run E P n (encode E p) = Inr (encode E p @ gen p, reas p, len p)"
  shows "\<exists>eng' Rs' new. submit_all E ps n P eng = (Inr (), eng') \<and> engine_ok E Rs' eng'
    \<and> order eng' = order eng @ new \<and> map (\<lambda>k. fst (Rs' k)) new = map gen ps
    \<and> (\<forall>k < next_seq eng. Rs' k = Rs k)
    \<and> (\<forall>r \<in> set (waiting (sched eng')). fits (sched eng') r)
    \<and> total_work (sched eng') = total_work (sched eng) + sum_list (map (\<lambda>p. length (encode E p) + nat n) ps)"
  using assms
proof (induction ps arbitrary: eng Rs)
  case Nil
  then show ?case by (intro exI[of _ eng] exI[of _ Rs] exI[of _ "[]"]) simp
next
  case (Cons p ps)
  let ?k = "next_seq eng"
  let ?Rs = "Rs(?k := (gen p, reas p))"
  obtain eng1 where S: "submit E p n P None None eng = (Inr ?k, eng1)"
    "engine_ok E ?Rs eng1" "ids_below eng1" "next_seq eng1 = ?k + 1"
    "order eng1 = order eng @ [?k]" "same_config (sched eng) (sched eng1)"
    "\<forall>r \<in> set (waiting (sched eng1)). fits (sched eng1) r"
    "total_work (sched eng1) = total_work (sched eng) + length (encode E p) + nat n"
    using submit_ok[OF Cons.prems(1-3) _ _ Cons.prems(4), of "encode E p" p None P "gen p" "reas p" "len p" None]
      Cons.prems(5)[of p] by (auto simp: prompt_ids_of_def)
  have "admissible E (sched eng1) n (encode E q)
      \<and> solo_run E P n (encode E q) = Inr (encode E q @ gen q, reas q, len q)" if "q \<in> set ps" for q
    using Cons.prems(5)[of q] that S(6) by (simp add: admissible_def same_config_def)
  from Cons.IH[OF S(2,3) Cons.prems(3) S(7) this] obtain eng2 Rs2 new where R:
    "submit_all E ps n P eng1 = (Inr (), eng2)" "engine_ok E Rs2 eng2" "order eng2 = order eng1 @ new"
    "map (\<lambda>k. fst (Rs2 k)) new = map gen ps" "\<forall>k < next_seq eng1. Rs2 k = ?Rs k"
    "\<forall>r \<in> set (waiting (sched eng2)). fits (sched eng2) r"
    "total_work (sched eng2) = total_work (sched eng1) + sum_list (map (\<lambda>p. length (encode E p) + nat n) ps)"
    by blast
  have "fst (Rs2 ?k) = gen p" "\<forall>k < ?k. Rs2 k = Rs k" using R(5) S(4) by simp_all
  then show ?case using R S
    by (intro exI[of _ eng2] exI[of _ Rs2] exI[of _ "?k # new"]) simp
qed

section \<open>Properties\<close>

lemma engine_init_default:
  obtains e0 :: "('c, 'f::linordered_field, 'g, 't) engine" where
    "engine_init 1000 64 16 32 8 = Inr e0" "engine_ok (E :: ('c, 'f, 'i, 'g, 't) env) Rs e0" "ids_below e0"
    "next_seq e0 = 0" "order e0 = []" "waiting (sched e0) = []" "total_work (sched e0) = 0"
    "block_size (sched e0) = 16" "capacity (kv (coord (sched e0))) = 1000"
    "capacity (state (coord (sched e0))) = 64"
proof -
  obtain s where s: "sched_init 1000 64 16 32 8 = Inr s"
    by (simp add: sched_init_def coord_init_def pool_init_def)
  then have f: "waiting s = []" "running s = []" "block_size s = 16"
    "capacity (kv (coord s)) = 1000" "capacity (state (coord s)) = 64"
    by (auto simp: sched_init_def coord_init_def pool_init_def)
  let ?e = "\<lparr>sched = s, seqs = [], order = [], next_seq = 0, published = []\<rparr> :: ('c, 'f, 'g, 't) engine"
  have "engine_ok E Rs ?e" using sched_ok_init[OF s] f by (simp add: engine_ok_def live_def)
  moreover have "engine_init 1000 64 16 32 8 = Inr ?e" by (simp add: engine_init_def s)
  ultimately show ?thesis
    by (intro that[of ?e]) (simp_all add: f ids_below_def total_work_def)
qed

text \<open>
  C12: continuous batching is invisible in the output.  If \<open>generate\<close> alone succeeds on every
  prompt, the context and the KV pool have room for each prompt with its budget, and the step limit
  covers the total work, then \<open>generate_batch\<close> returns, in submission order, exactly the texts the
  solo runs generate, whatever the interleaving, chunking and queueing; in particular it neither
  stalls nor runs out of steps.
\<close>

theorem batch_equals_solo:
  assumes "1 \<le> n"
    and "\<forall>p \<in> set ps. generate (numpy E) (model E) P (stop_ids E) n None (encode E p)
           = Inr (encode E p @ gen p, reas p, len p)"
    and "\<forall>p \<in> set ps. \<forall>m. max_context (model E) = Some m
           \<longrightarrow> m \<noteq> 0 \<and> int (length (encode E p)) + n \<le> m"
    and "\<forall>p \<in> set ps. blocks_for_tokens (int (length (encode E p)) + n) 16 \<le> 1000"
    and "sum_list (map (\<lambda>p. length (encode E p) + nat n) ps) \<le> 10 ^ 6"
  shows "generate_batch E ps n P = Inr (map (\<lambda>p. decode E (gen p)) ps)"
proof -
  obtain e0 where e0: "engine_init 1000 64 16 32 8 = Inr e0" "engine_ok E (\<lambda>_. ([], Length)) e0"
    "ids_below e0" "next_seq e0 = 0" "order e0 = []" "waiting (sched e0) = []"
    "total_work (sched e0) = 0" "block_size (sched e0) = 16"
    "capacity (kv (coord (sched e0))) = 1000" "capacity (state (coord (sched e0))) = 64"
    by (rule engine_init_default)
  have adm: "admissible E (sched e0) n (encode E p)
      \<and> solo_run E P n (encode E p) = Inr (encode E p @ gen p, reas p, len p)" if "p \<in> set ps" for p
    using assms(2-4) that e0(8-10) by (auto simp: admissible_def solo_run_def)
  obtain e1 Rs new where S: "submit_all E ps n P e0 = (Inr (), e1)" "engine_ok E Rs e1"
    "order e1 = order e0 @ new" "map (\<lambda>k. fst (Rs k)) new = map gen ps"
    "\<forall>r \<in> set (waiting (sched e1)). fits (sched e1) r"
    "total_work (sched e1) = total_work (sched e0) + sum_list (map (\<lambda>p. length (encode E p) + nat n) ps)"
    using submit_all_ok[where ps = ps, OF e0(2,3) assms(1) _ adm] e0(6) by auto
  have "total_work (sched e1) \<le> 10 ^ 6" using S(6) e0(7) assms(5) by simp
  from run_all_ok[OF S(2,5) this] obtain e2 where
    "run_all E (10 ^ 6) e1 = (Inr (map (\<lambda>k. decode E (fst (Rs k))) new), e2)"
    using S(3) e0(5) by auto
  moreover have "map (\<lambda>k. decode E (fst (Rs k))) new = map (\<lambda>p. decode E (gen p)) ps"
    using arg_cong[OF S(4), of "map (decode E)"] by (simp add: o_def)
  ultimately show ?thesis by (simp add: generate_batch_def e0(1) S(1))
qed

definition counter_env :: "(int, rat, unit, rat, int list) env" where
  "counter_env = \<lparr>numpy = numpy3, model = counter, encode = (\<lambda>p. p), decode = (\<lambda>ids. ids),
     eos_id = Some 3, layer_types = None\<rparr>"

theorem batch_equals_solo_witness:
  "generate_batch counter_env [[0], [1], [0, 1]] 5 argmax_params
     = Inr (map (\<lambda>p. if p = [0 :: int] then [1, 2] else [2]) [[0], [1], [0, 1]])"
proof -
  have f: "numpy counter_env = numpy3" "model counter_env = counter" "encode counter_env p = p"
    "decode counter_env p = p" "stop_ids counter_env = [3]" "max_context counter = Some 8" for p
    by (simp_all add: counter_env_def stop_ids_def counter_def)
  let ?gen = "\<lambda>p :: int list. if p = [0] then [1, 2] else [2 :: int]"
  have "generate numpy3 counter argmax_params [3] 5 None p = Inr (p @ ?gen p, Stop, int (length (?gen p)))"
    if "p \<in> {[0], [1], [0, 1]}" for p
  proof -
    have "generate numpy3 counter argmax_params [3] 5 None [1] = Inr ([1, 2], Stop, 1)"
      "generate numpy3 counter argmax_params [3] 5 None [0, 1] = Inr ([0, 1, 2], Stop, 1)"
      by (code_simp, code_simp)
    then show ?thesis using that counter_run by auto
  qed
  then show ?thesis
    using batch_equals_solo[of 5 "[[0], [1], [0, 1]]" counter_env argmax_params ?gen "\<lambda>_. Stop"
        "\<lambda>p. int (length (?gen p))"]
    by (simp add: f blocks_for_tokens_def ceil_div_def)
qed

end
