(* ===== verification/Sinks.thy ===== *)
theory Sinks
  imports BatchCorrect
begin

text \<open>
  What the sinks of the batch engine see, for any run of the engine with model failures, aborts and
  reaping in any order: tokens while the request is in the scheduler, and exactly one closing call
  when it leaves it.
\<close>

definition events_of :: "int \<Rightarrow> ('c, 'f, 'g, 't) engine \<Rightarrow> sink_event list" where
  "events_of sid eng = map snd (filter (\<lambda>(k, e). k = sid) (published eng))"

fun terminal :: "sink_event \<Rightarrow> bool" where
  "terminal (OnToken t) = False"
| "terminal (OnFinish r) = True"
| "terminal (Fail e) = True"

definition closed_events :: "int list \<Rightarrow> sink_event list \<Rightarrow> bool" where
  "closed_events toks evs \<longleftrightarrow> (\<exists>t. terminal t \<and> evs = map OnToken toks @ [t])"

definition agrees :: "request \<Rightarrow> ('c, 'f, 'g, 't) info \<Rightarrow> bool" where
  "agrees r i \<longleftrightarrow> max_new r = i_max_new i \<and> tokens_generated r = int (length (i_gen i))
     \<and> 1 \<le> i_max_new i"

definition sinks_ok :: "('c, 'f, 'g, 't) engine \<Rightarrow> bool" where
  "sinks_ok eng \<longleftrightarrow> sched_ok (sched eng) \<and> dict_ok (seqs eng)
     \<and> (\<forall>sid r. live (sched eng) sid r \<longrightarrow> (\<exists>i. dget (seqs eng) sid = Some i \<and> agrees r i
          \<and> (i_sink i \<noteq> None \<longrightarrow> events_of sid eng = map OnToken (i_gen i))))
     \<and> (\<forall>sid i. dget (seqs eng) sid = Some i \<longrightarrow> (\<forall>r. \<not> live (sched eng) sid r)
          \<longrightarrow> i_sink i \<noteq> None \<longrightarrow> closed_events (i_gen i) (events_of sid eng))
     \<and> (\<forall>sid. next_seq eng \<le> sid \<longrightarrow> dget (seqs eng) sid = None \<and> events_of sid eng = [])
     \<and> (\<forall>r \<in> set (done_reqs (sched eng)). seq_id r < next_seq eng
          \<and> (\<forall>q. \<not> live (sched eng) (seq_id r) q))
     \<and> (\<forall>sid. dget (seqs eng) sid = None
          \<longrightarrow> events_of sid eng = [] \<or> (\<exists>toks. closed_events toks (events_of sid eng)))"

lemma sinks_okD:
  assumes "sinks_ok eng"
  shows "sched_ok (sched eng)"
    "live (sched eng) sid r \<Longrightarrow> \<exists>i. dget (seqs eng) sid = Some i \<and> agrees r i
          \<and> (i_sink i \<noteq> None \<longrightarrow> events_of sid eng = map OnToken (i_gen i))"
    "dget (seqs eng) sid = Some i \<Longrightarrow> (\<And>r. \<not> live (sched eng) sid r) \<Longrightarrow> i_sink i \<noteq> None
      \<Longrightarrow> closed_events (i_gen i) (events_of sid eng)"
    "next_seq eng \<le> sid \<Longrightarrow> dget (seqs eng) sid = None \<and> events_of sid eng = []"
    "r \<in> set (done_reqs (sched eng)) \<Longrightarrow> seq_id r < next_seq eng \<and> \<not> live (sched eng) (seq_id r) q"
    "dict_ok (seqs eng)"
    "dget (seqs eng) sid = None
      \<Longrightarrow> events_of sid eng = [] \<or> (\<exists>toks. closed_events toks (events_of sid eng))"
  using assms unfolding sinks_ok_def by blast+

section \<open>The fields an action leaves alone\<close>

definition same_core :: "('c, 'f, 'g, 't) info \<Rightarrow> ('c, 'f, 'g, 't) info \<Rightarrow> bool" where
  "same_core i i' \<longleftrightarrow> i_gen i' = i_gen i \<and> i_max_new i' = i_max_new i \<and> i_sink i' = i_sink i"

lemma fill_cache_core: "fill_cache E i = (q, i1) \<Longrightarrow> same_core i i1"
  by (auto simp: fill_cache_def same_core_def split: if_splits sum.splits prod.splits)

lemma decode_logits_core:
  assumes "decode_logits E i = (q, i1)"
  shows "same_core i i1"
proof -
  obtain q' i' where f: "fill_cache E i = (q', i')" by force
  note c = fill_cache_core[OF f]
  show ?thesis
    using assms f c
    by (auto simp: decode_logits_def same_core_def split: if_splits sum.splits prod.splits option.splits)
qed

text \<open>Replacing a live sequence by one with the same core keeps the invariant.\<close>

lemma sinks_ok_put:
  assumes ok: "sinks_ok eng" and r: "live (sched eng) sid r"
    and i: "dget (seqs eng) sid = Some i" and core: "same_core i i'"
  shows "sinks_ok (put_info sid i' eng)"
proof -
  note D = sinks_okD[OF ok]
  have ev: "events_of k (put_info sid i' eng) = events_of k eng" for k
    by (simp add: put_info_def events_of_def)
  have lt: "sid < next_seq eng" using D(4)[of sid] i by (cases "next_seq eng \<le> sid") auto
  let ?e = "put_info sid i' eng"
  have se: "sched ?e = sched eng" "next_seq ?e = next_seq eng" by (simp_all add: put_info_def)
  show ?thesis
    unfolding sinks_ok_def se ev
  proof (intro conjI allI impI ballI)
    fix k q assume "live (sched eng) k q"
    from D(2)[OF this] i core show "\<exists>i. dget (seqs ?e) k = Some i \<and> agrees q i
          \<and> (i_sink i \<noteq> None \<longrightarrow> events_of k eng = map OnToken (i_gen i))"
      by (auto simp: put_info_def dict_simps agrees_def same_core_def)
  next
    fix k j assume "dget (seqs ?e) k = Some j" "\<forall>r. \<not> live (sched eng) k r" "i_sink j \<noteq> None"
    then show "closed_events (i_gen j) (events_of k eng)"
      using D(3)[of k j] r by (auto simp: put_info_def dict_simps split: if_splits)
  next
    fix k assume "next_seq eng \<le> k"
    then show "dget (seqs ?e) k = None" "events_of k eng = []"
      using D(4)[of k] lt by (auto simp: put_info_def dict_simps)
  next
    fix k assume "dget (seqs ?e) k = None"
    then show "events_of k eng = [] \<or> (\<exists>toks. closed_events toks (events_of k eng))"
      using D(7)[of k] by (auto simp: put_info_def dict_simps split: if_splits)
  qed (use D in \<open>auto simp: put_info_def\<close>)
qed

lemma sinks_ok_advance:
  assumes ok: "sinks_ok eng" and r: "dget (running (sched eng)) sid = Some r"
    and adv: "advanced sid eos (sched eng) s'"
    and fin: "completes eos (progressed (action_of (chunk_size (sched eng)) r) r) \<Longrightarrow>
      i_sink i' \<noteq> None \<Longrightarrow> closed_events (i_gen i') (events_of sid eng @ evs)"
    and more: "\<not> completes eos (progressed (action_of (chunk_size (sched eng)) r) r) \<Longrightarrow>
      agrees (progressed (action_of (chunk_size (sched eng)) r) r) i'
      \<and> (i_sink i' \<noteq> None \<longrightarrow> events_of sid eng @ evs = map OnToken (i_gen i'))"
  shows "sinks_ok (eng\<lparr>seqs := dset sid i' (seqs eng), sched := s',
           published := published eng @ map (Pair sid) evs\<rparr>)"
proof -
  let ?r' = "progressed (action_of (chunk_size (sched eng)) r) r"
  let ?e = "eng\<lparr>seqs := dset sid i' (seqs eng), sched := s',
           published := published eng @ map (Pair sid) evs\<rparr>"
  note D = sinks_okD[OF ok]
  note L = advanced_live[OF adv D(1) r]
  have lv: "live (sched eng) sid r" using r by (simp add: live_def)
  have sid: "seq_id r = sid" using running_okD(7)[of "sched eng" sid r] D(1) r by (simp add: sched_ok_def)
  obtain i where i: "dget (seqs eng) sid = Some i" using D(2)[OF lv] by blast
  have lt: "sid < next_seq eng" using D(4)[of sid] i by (cases "next_seq eng \<le> sid") auto
  have ev: "events_of k ?e = events_of k eng @ (if k = sid then evs else [])" for k
    by (auto simp: events_of_def filter_map o_def)
  have dn: "done_reqs s' = done_reqs (sched eng)
      \<or> done_reqs s' = done_reqs (sched eng) @ [?r'\<lparr>finished := True\<rparr>] \<and> completes eos ?r'"
    using adv r unfolding advanced_def by (auto simp: Let_def split: if_splits)
  show ?thesis
    unfolding sinks_ok_def
  proof (intro conjI allI impI ballI)
    show "sched_ok (sched ?e)" using adv by (simp add: advanced_def)
    show "dict_ok (seqs ?e)" using D(6) by simp
  next
    fix k assume "dget (seqs ?e) k = None"
    then show "events_of k ?e = [] \<or> (\<exists>toks. closed_events toks (events_of k ?e))"
      using D(7)[of k] ev[of k] by (auto simp: dict_simps split: if_splits)
  next
    fix k q assume q: "live (sched ?e) k q"
    show "\<exists>i. dget (seqs ?e) k = Some i \<and> agrees q i
          \<and> (i_sink i \<noteq> None \<longrightarrow> events_of k ?e = map OnToken (i_gen i))"
    proof (cases "k = sid")
      case True
      have l: "live s' sid q" using q True by simp
      then have nc: "\<not> completes eos ?r'" using L(1) by blast
      with l L(2) have "q = ?r'" by blast
      with nc more ev True show ?thesis by (simp add: dict_simps)
    next
      case False
      then show ?thesis using q L(3) D(2)[of k q] ev[of k] by (simp add: dict_simps)
    qed
  next
    fix k i assume i: "dget (seqs ?e) k = Some i" "\<forall>q. \<not> live (sched ?e) k q" "i_sink i \<noteq> None"
    show "closed_events (i_gen i) (events_of k ?e)"
    proof (cases "k = sid")
      case True
      then show ?thesis using i L(2) fin ev[of sid] by (auto simp: dict_simps)
    next
      case False
      then show ?thesis using i L(3) D(3)[of k i] ev[of k] by (auto simp: dict_simps)
    qed
  next
    fix k assume k: "next_seq ?e \<le> k"
    then have "k \<noteq> sid" using lt by auto
    then show "dget (seqs ?e) k = None" "events_of k ?e = []" using D(4)[of k] k ev[of k] by (simp_all add: dict_simps)
  next
    fix d assume d: "d \<in> set (done_reqs (sched ?e))"
    show "seq_id d < next_seq ?e" using d dn D(5) lt sid by auto
    fix q
    show "\<not> live (sched ?e) (seq_id d) q"
    proof (cases "d \<in> set (done_reqs (sched eng))")
      case True
      then have "seq_id d \<noteq> sid" using D(5)[of d r] lv by auto
      then show ?thesis using D(5)[of d q] True L(3) by simp
    next
      case False
      then have "seq_id d = sid" "completes eos ?r'" using d dn sid by auto
      then show ?thesis using L(1) by simp
    qed
  qed
qed

section \<open>Actions and steps, with or without a failure\<close>

definition left_alone ::
  "int \<Rightarrow> ('c, 'f, 'g, 't) engine \<Rightarrow> ('c, 'f, 'g, 't) engine \<Rightarrow> bool" where
  "left_alone sid eng eng' \<longleftrightarrow> sinks_ok eng' \<and> next_seq eng' = next_seq eng
     \<and> chunk_size (sched eng') = chunk_size (sched eng)
     \<and> (\<forall>k. k \<noteq> sid \<longrightarrow> dget (running (sched eng')) k = dget (running (sched eng)) k)"

lemma run_action_sinks:
  assumes ok: "sinks_ok eng" and r: "dget (running (sched eng)) sid = Some r"
    and run: "run_action E (action_of (chunk_size (sched eng)) r) eng = (q, eng')"
  shows "left_alone sid eng eng'"
proof -
  let ?s = "sched eng"
  let ?a = "action_of (chunk_size ?s) r"
  let ?r' = "progressed ?a r"
  note D = sinks_okD[OF ok]
  have lv: "live ?s sid r" using r by (simp add: live_def)
  have sid: "seq_id r = sid" and rok: "request_ok r"
    using D(1) running_okD(7,8)[of ?s sid r] r by (auto simp: sched_ok_def)
  obtain i where i: "dget (seqs eng) sid = Some i" "agrees r i"
    "i_sink i \<noteq> None \<longrightarrow> events_of sid eng = map OnToken (i_gen i)"
    using D(2)[OF lv] by blast
  have put: "left_alone sid eng (put_info sid i' eng)" if "same_core i i'" for i'
    using sinks_ok_put[OF ok lv i(1) that] by (simp add: left_alone_def put_info_def)
  have go: "left_alone sid eng (eng\<lparr>seqs := dset sid i' (seqs eng), sched := s',
              published := published eng @ map (Pair sid) evs\<rparr>)"
    if "advanced sid eos ?s s'"
      "completes eos ?r' \<Longrightarrow> i_sink i' \<noteq> None \<Longrightarrow> closed_events (i_gen i') (events_of sid eng @ evs)"
      "\<not> completes eos ?r' \<Longrightarrow> agrees ?r' i'
         \<and> (i_sink i' \<noteq> None \<longrightarrow> events_of sid eng @ evs = map OnToken (i_gen i'))" for eos s' i' evs
    using sinks_ok_advance[OF ok r that] that(1) advanced_live(4)[OF that(1) D(1) r]
    by (simp add: left_alone_def advanced_def)
  show ?thesis
  proof (cases "position r < prompt_len r")
    case True
    have ph: "a_phase ?a = Prefill" "a_seq ?a = sid" using True sid by (simp_all add: action_of_def Let_def)
    obtain q1 i1 where f: "(if supports_incremental (model E) then fill_cache E i else (Inr (), i)) = (q1, i1)"
      by force
    then have core: "same_core i i1"
      using fill_cache_core[of E i] by (auto simp: same_core_def split: if_splits)
    show ?thesis
    proof (cases q1)
      case (Inl e)
      then show ?thesis using run ph i(1) f put[OF core] by (simp add: run_action_def Let_def)
    next
      case (Inr u)
      obtain s' where s': "advance ?a False ?s = (Inr (), s')" "advanced sid False ?s s'"
        by (rule advance_ok[OF D(1) r])
      have nc: "\<not> completes False ?r'"
        using i(2) rok True ph by (auto simp: completes_def progressed_def agrees_def request_ok_def)
      have "left_alone sid eng (eng\<lparr>seqs := dset sid i1 (seqs eng), sched := s',
              published := published eng @ map (Pair sid) []\<rparr>)"
        by (rule go[OF s'(2)])
          (use nc core i ph in \<open>auto simp: agrees_def progressed_def same_core_def\<close>)
      then show ?thesis using run ph i(1) f Inr s'(1) by (simp add: run_action_def Let_def put_info_def)
    qed
  next
    case False
    have ph: "a_phase ?a = Decode" "a_seq ?a = sid" "a_length ?a = 1"
      using False sid by (simp_all add: action_of_def)
    obtain q1 i1 where d: "decode_logits E i = (q1, i1)" by force
    have core: "same_core i i1" by (rule decode_logits_core[OF d])
    show ?thesis
    proof (cases q1)
      case (Inl e)
      then show ?thesis using run ph i(1) d put[OF core] by (simp add: run_action_def Let_def)
    next
      case (Inr l)
      obtain q2 g where t: "sample_token E i1 l = (q2, g)" by force
      show ?thesis
      proof (cases q2)
        case (Inl e)
        have "same_core i (i1\<lparr>i_rng := g\<rparr>)" using core by (simp add: same_core_def)
        from put[OF this] show ?thesis using run ph i(1) d Inr t Inl
          by (simp add: run_action_def Let_def)
      next
        case tok: (Inr tok)
        let ?eos = "tok \<in> set (stop_ids E)"
        let ?i3 = "if ?eos then i1\<lparr>i_rng := g\<rparr> else took tok g i1"
        obtain s' where s': "advance ?a ?eos ?s = (Inr (), s')" "advanced sid ?eos ?s s'"
          by (rule advance_ok[OF D(1) r])
        have r': "tokens_generated ?r' = tokens_generated r + 1" "position ?r' = prompt_len r"
          using ph by (simp_all add: progressed_def)
        define evs where "evs = map snd (step_events sid ?i3 tok ?eos)"
        have evs: "step_events sid ?i3 tok ?eos = map (Pair sid) evs"
          by (simp add: evs_def step_events_def)
        have L: "left_alone sid eng (eng\<lparr>seqs := dset sid ?i3 (seqs eng), sched := s',
              published := published eng @ map (Pair sid) evs\<rparr>)"
        proof (rule go[OF s'(2)])
          assume "completes ?eos ?r'" "i_sink ?i3 \<noteq> None"
          then show "closed_events (i_gen ?i3) (events_of sid eng @ evs)"
            using core i r' by (auto simp: evs_def step_events_def same_core_def took_def closed_events_def
                completes_def agrees_def)
        next
          assume "\<not> completes ?eos ?r'"
          then show "agrees ?r' ?i3
              \<and> (i_sink ?i3 \<noteq> None \<longrightarrow> events_of sid eng @ evs = map OnToken (i_gen ?i3))"
            using core i r' by (auto simp: evs_def step_events_def same_core_def took_def
                completes_def agrees_def)
        qed
        show ?thesis using L[folded evs] run ph i(1) d Inr t tok s'(1)
          by (auto simp: run_action_def Let_def put_info_def took_def)
      qed
    qed
  qed
qed

lemma run_actions_sinks:
  "sinks_ok eng \<Longrightarrow> distinct (map fst xs) \<Longrightarrow>
    (\<And>k r. (k, r) \<in> set xs \<Longrightarrow> dget (running (sched eng)) k = Some r) \<Longrightarrow>
    run_actions E (map (\<lambda>(k, r). action_of (chunk_size (sched eng)) r) xs) eng = (q, eng') \<Longrightarrow>
    sinks_ok eng'"
proof (induction xs arbitrary: eng)
  case (Cons x xs)
  obtain k r where x: "x = (k, r)" by force
  obtain q1 eng1 where e: "run_action E (action_of (chunk_size (sched eng)) r) eng = (q1, eng1)" by force
  have L: "left_alone k eng eng1" using run_action_sinks[OF Cons.prems(1) _ e, of k] Cons.prems(3)[of k r] x by simp
  show ?case
  proof (cases q1)
    case (Inl err)
    then show ?thesis using Cons.prems(4) e x L by (simp add: left_alone_def)
  next
    case (Inr u)
    have "dget (running (sched eng1)) k' = Some r'" if "(k', r') \<in> set xs" for k' r'
    proof -
      have "k' \<noteq> k" using Cons.prems(2) x that by (auto simp: rev_image_eqI)
      then show ?thesis using L Cons.prems(3)[of k' r'] that by (simp add: left_alone_def)
    qed
    moreover have "sinks_ok eng1" "chunk_size (sched eng1) = chunk_size (sched eng)"
      using L by (simp_all add: left_alone_def)
    ultimately show ?thesis using Cons.IH[of eng1] Cons.prems(2,4) e x Inr by simp
  qed
qed simp

lemma sinks_ok_sched:
  assumes ok: "sinks_ok eng" and P: "sched_ok s'"
    and lv: "\<And>k r. live s' k r \<longleftrightarrow> live (sched eng) k r"
    and dn: "done_reqs s' = done_reqs (sched eng)"
  shows "sinks_ok (eng\<lparr>sched := s'\<rparr>)"
proof -
  note D = sinks_okD[OF ok]
  have "events_of k (eng\<lparr>sched := s'\<rparr>) = events_of k eng" for k by (simp add: events_of_def)
  then show ?thesis unfolding sinks_ok_def using D P lv dn by simp
qed

lemma engine_step_sinks:
  assumes ok: "sinks_ok eng" and e: "engine_step E eng = (q, eng')"
  shows "sinks_ok eng'"
proof -
  note D = sinks_okD[OF ok]
  obtain adm skp s' where P: "pump (sched eng) = (Inr (map seq_id adm), s')" "waiting s' = skp"
    "pumped (sched eng) (waiting (sched eng)) s' adm skp" "sched_ok s'"
    by (rule pump_ok[OF D(1)])
  have P3: "pumped (sched eng) (waiting (sched eng)) s' adm (waiting s')" using P(2,3) by simp
  let ?e = "eng\<lparr>sched := s'\<rparr>"
  have ok': "sinks_ok ?e"
    by (rule sinks_ok_sched[OF ok P(4)]) (use pumped_live[OF P3 D(1)] P(3) in \<open>simp_all add: pumped_def\<close>)
  have run: "running_ok s'" using P(4) by (simp add: sched_ok_def)
  have dist: "distinct (map fst (running s'))"
    using running_okD(5)[OF run] by (simp add: dict_ok_def)
  obtain q1 eng1 where R: "run_actions E (map (\<lambda>(k, r). action_of (chunk_size (sched ?e)) r) (running s')) ?e
      = (q1, eng1)" by force
  have "sinks_ok eng1"
    by (rule run_actions_sinks[OF ok' dist _ R]) (use running_okD(5)[OF run] in \<open>simp add: dget_Some_in\<close>)
  then show ?thesis using e P(1) R schedule_all[OF P(4)]
    by (auto simp: engine_step_def sched_step_def split: sum.splits)
qed

section \<open>Submitting, aborting, reaping\<close>

lemma submit_sinks:
  assumes ok: "sinks_ok eng" and n: "1 \<le> n" and s: "submit E p n P snk pids eng = (q, eng')"
  shows "sinks_ok eng'"
proof -
  note D = sinks_okD[OF ok]
  let ?k = "next_seq eng"
  define ids where "ids = (case pids of Some q \<Rightarrow> q | None \<Rightarrow> encode E p)"
  let ?i = "\<lparr>i_prompt = ids, i_gen = [], i_max_new = n, i_params = P,
             i_rng = np_rng (numpy E) (seed P), i_text = None, i_sink = snk,
             i_cache = None, i_last_id = None, i_prefill_L = None\<rparr>"
  let ?r = "\<lparr>seq_id = ?k, prompt_len = int (length ids), max_new = n, use_state = needs_state E,
             position = 0, tokens_generated = 0, finished = False\<rparr>"
  let ?s = "(sched eng)\<lparr>waiting := waiting (sched eng) @ [?r]\<rparr>"
  let ?e = "eng\<lparr>next_seq := ?k + 1, seqs := dset ?k ?i (seqs eng), order := order eng @ [?k], sched := ?s\<rparr>"
  have new: "dget (seqs eng) ?k = None" "events_of ?k eng = []" using D(4)[of ?k] by auto
  have dead: "\<not> live (sched eng) ?k q" for q using D(2)[of ?k q] new by auto
  have add: "sched_add ?k (int (length ids)) n (needs_state E) (sched eng) = (Inr (), ?s)"
    using dead by (auto simp: sched_add_def live_def)
  have eq: "eng' = eng\<lparr>next_seq := ?k + 1\<rparr> \<or> eng' = ?e"
    using s add unfolding submit_def ids_def[symmetric] by (auto simp: Let_def split: if_splits)
  have sok: "sched_ok ?s" by (rule sched_add_ok[OF D(1) _ _ add]) (use n in simp_all)
  have lv: "live ?s k q \<longleftrightarrow> live (sched eng) k q \<or> k = ?k \<and> q = ?r" for k q
    by (auto simp: live_def)
  have ev: "events_of k (eng\<lparr>next_seq := ?k + 1\<rparr>) = events_of k eng" "events_of k ?e = events_of k eng" for k
    by (simp_all add: events_of_def)
  have "sinks_ok (eng\<lparr>next_seq := ?k + 1\<rparr>)"
    unfolding sinks_ok_def ev(1) using D by (auto intro!: less_imp_le)
  moreover have "sinks_ok ?e"
    unfolding sinks_ok_def
  proof (intro conjI allI impI ballI)
    fix k q assume "live (sched ?e) k q"
    then show "\<exists>i. dget (seqs ?e) k = Some i \<and> agrees q i
          \<and> (i_sink i \<noteq> None \<longrightarrow> events_of k ?e = map OnToken (i_gen i))"
      using lv[of k q] dead[of q] new n D(2)[of k q] ev(2)[of k]
      by (cases "k = ?k") (auto simp: dict_simps agrees_def)
  next
    fix k i assume i: "dget (seqs ?e) k = Some i" "\<forall>q. \<not> live (sched ?e) k q" "i_sink i \<noteq> None"
    then have "k \<noteq> ?k" "\<forall>q. \<not> live (sched eng) k q" using lv by auto
    then show "closed_events (i_gen i) (events_of k ?e)" using i D(3)[of k i] ev(2)[of k] by (simp add: dict_simps)
  next
    fix k assume "next_seq ?e \<le> k"
    then have k: "next_seq eng \<le> k" "k \<noteq> ?k" by auto
    then show "dget (seqs ?e) k = None" "events_of k ?e = []" using D(4)[OF k(1)] ev(2)[of k] by (simp_all add: dict_simps)
  next
    fix d assume "d \<in> set (done_reqs (sched ?e))"
    then have d: "d \<in> set (done_reqs (sched eng))" by simp
    have dd: "seq_id d < next_seq eng" "\<not> live (sched eng) (seq_id d) q" for q using D(5)[OF d] by auto
    then show "seq_id d < next_seq ?e" by simp
    fix q show "\<not> live (sched ?e) (seq_id d) q" using dd lv[of "seq_id d" q] by auto
  next
    fix k assume "dget (seqs ?e) k = None"
    then show "events_of k ?e = [] \<or> (\<exists>toks. closed_events toks (events_of k ?e))"
      using D(7)[of k] ev(2)[of k] by (auto simp: dict_simps split: if_splits)
  qed (use sok D(6) in simp_all)
  ultimately show ?thesis using eq by auto
qed

lemma abort_live:
  assumes ok: "sched_ok s" and a: "sched_abort sid s = (Inr True, s')"
  shows "\<not> live s' sid q" "k \<noteq> sid \<Longrightarrow> live s' k q \<longleftrightarrow> live s k q"
    "\<exists>r. live s sid r \<and> done_reqs s' = done_reqs s @ [r\<lparr>finished := True\<rparr>] \<and> seq_id r = sid"
proof -
  note A = sched_abort_ok[OF ok a]
  show "\<not> live s' sid q" using A(3) by (auto simp: live_def)
  have run: "running_ok s" and que: "queue_ok s (waiting s)" using ok by (simp_all add: sched_ok_def)
  have dist: "distinct (waiting s)" using que by (auto simp: queue_ok_def distinct_map)
  show "k \<noteq> sid \<Longrightarrow> live s' k q \<longleftrightarrow> live s k q"
    using a dist
    by (auto simp: sched_abort_def live_def Let_def dict_simps filter_eq_Cons_iff
        split: option.splits sum.splits prod.splits list.splits)
  show "\<exists>r. live s sid r \<and> done_reqs s' = done_reqs s @ [r\<lparr>finished := True\<rparr>] \<and> seq_id r = sid"
  proof (cases "dget (running s) sid")
    case (Some r)
    then have "seq_id r = sid" using running_okD(7)[OF run] by blast
    then show ?thesis using a Some
      by (intro exI[of _ r]) (auto simp: sched_abort_def live_def Let_def split: sum.splits prod.splits)
  next
    case None
    then obtain r rs where f: "filter (\<lambda>r. seq_id r = sid) (waiting s) = r # rs"
      using a by (auto simp: sched_abort_def split: list.splits)
    then have "r \<in> set (filter (\<lambda>r. seq_id r = sid) (waiting s))" by simp
    then have "r \<in> set (waiting s)" "seq_id r = sid" unfolding set_filter by auto
    then show ?thesis using a None f
      by (intro exI[of _ r]) (auto simp: sched_abort_def live_def)
  qed
qed

lemma abort_sinks:
  assumes ok: "sinks_ok eng" and a: "abort E sid eng = (q, eng')"
  shows "sinks_ok eng'"
proof -
  note D = sinks_okD[OF ok]
  obtain v s' where sa: "sched_abort sid (sched eng) = (v, s')" by force
  note A = sched_abort_ok[OF D(1) sa]
  show ?thesis
  proof (cases "v = Inr True")
    case False
    then have v: "v = Inr False" using A(2) by auto
    then have n: "dget (running (sched eng)) sid = None" "filter (\<lambda>r. seq_id r = sid) (waiting (sched eng)) = []"
      using A(2) by (auto simp: filter_empty_conv)
    have "s' = sched eng" using sa n by (simp add: sched_abort_def)
    then show ?thesis using a sa v ok by (simp add: abort_def)
  next
    case True
    note L = abort_live[OF D(1) sa[unfolded True]]
    obtain r where r: "live (sched eng) sid r" "seq_id r = sid"
      "done_reqs s' = done_reqs (sched eng) @ [r\<lparr>finished := True\<rparr>]" using L(3) by blast
    obtain i where i: "dget (seqs eng) sid = Some i" "agrees r i"
      "i_sink i \<noteq> None \<longrightarrow> events_of sid eng = map OnToken (i_gen i)" using D(2)[OF r(1)] by blast
    let ?evs = "case i_sink i of None \<Rightarrow> [] | Some SinkWithFail \<Rightarrow> [Fail RuntimeError]
                     | Some SinkWithoutFail \<Rightarrow> [OnFinish Abort]"
    let ?e = "eng\<lparr>sched := s', seqs := dset sid (with_text E i) (seqs eng),
                published := published eng @ map (Pair sid) ?evs\<rparr>"
    have e: "eng' = ?e" using a sa True i(1) by (auto simp: abort_def split: option.splits sink.splits)
    have core: "i_gen (with_text E i) = i_gen i" "i_sink (with_text E i) = i_sink i"
      by (simp_all add: with_text_def)
    have ev: "events_of k ?e = events_of k eng @ (if k = sid then ?evs else [])" for k
      by (auto simp: events_of_def filter_map o_def)
    have lt: "sid < next_seq eng" using D(4)[of sid] i(1) by (cases "next_seq eng \<le> sid") auto
    have "sinks_ok ?e"
      unfolding sinks_ok_def
    proof (intro conjI allI impI ballI)
      show "sched_ok (sched ?e)" "dict_ok (seqs ?e)" using A(1) D(6) by simp_all
    next
      fix k assume "dget (seqs ?e) k = None"
      then show "events_of k ?e = [] \<or> (\<exists>toks. closed_events toks (events_of k ?e))"
        using D(7)[of k] ev[of k] by (auto simp: dict_simps split: if_splits)
    next
      fix k q assume q: "live (sched ?e) k q"
      then have "k \<noteq> sid" using L(1) by auto
      then show "\<exists>i. dget (seqs ?e) k = Some i \<and> agrees q i
          \<and> (i_sink i \<noteq> None \<longrightarrow> events_of k ?e = map OnToken (i_gen i))"
        using q L(2) D(2)[of k q] ev[of k] by (simp add: dict_simps)
    next
      fix k j assume j: "dget (seqs ?e) k = Some j" "\<forall>q. \<not> live (sched ?e) k q" "i_sink j \<noteq> None"
      show "closed_events (i_gen j) (events_of k ?e)"
      proof (cases "k = sid")
        case True
        then have "j = with_text E i" using j by (simp add: dict_simps)
        then show ?thesis using True i(3) j(3) core ev[of sid]
          by (auto simp: closed_events_def split: option.splits sink.splits)
      next
        case False
        then show ?thesis using j L(2) D(3)[of k j] ev[of k] by (auto simp: dict_simps)
      qed
    next
      fix k assume "next_seq ?e \<le> k"
      then have k: "next_seq eng \<le> k" "k \<noteq> sid" using lt by auto
      then show "dget (seqs ?e) k = None" "events_of k ?e = []" using D(4)[OF k(1)] ev[of k] by (simp_all add: dict_simps)
    next
      fix d assume d: "d \<in> set (done_reqs (sched ?e))"
      show "seq_id d < next_seq ?e" using d r D(5) lt by auto
      fix q show "\<not> live (sched ?e) (seq_id d) q"
      proof (cases "seq_id d = sid")
        case False
        then have "d \<in> set (done_reqs (sched eng))" using d r by auto
        then show ?thesis using D(5)[of d q] L(2) False by simp
      qed (use L(1) in simp)
    qed
    then show ?thesis using e by simp
  qed
qed

lemma dget_filter:
  "dict_ok d \<Longrightarrow> dget (filter P d) k = (case dget d k of None \<Rightarrow> None | Some v \<Rightarrow> if P (k, v) then Some v else None)"
proof (induction d)
  case (Cons x d)
  obtain a b where x: "x = (a, b)" by force
  have "dget d a = None" using Cons.prems x by (auto simp: dict_ok_def map_of_eq_None_iff)
  then show ?case using Cons x by (auto simp: dict_ok_def)
qed simp

lemma reap_sinks:
  assumes ok: "sinks_ok eng" and a: "reap eng = (gone, eng')"
  shows "sinks_ok eng'"
proof (cases "gone = []")
  case True
  then show ?thesis using a ok by (auto simp: reap_def Let_def split: if_splits)
next
  case False
  note D = sinks_okD[OF ok]
  let ?P = "\<lambda>p. \<not> reapable eng p"
  let ?d = "filter (\<lambda>r. seq_id r \<notin> set gone) (done_reqs (sched eng))"
  have eq: "seqs eng' = filter ?P (seqs eng) \<and> published eng' = published eng
      \<and> next_seq eng' = next_seq eng \<and> sched eng' = (sched eng)\<lparr>done_reqs := ?d\<rparr>"
    using a False by (auto simp: reap_def Let_def split: if_splits)
  have E: "seqs eng' = filter ?P (seqs eng)" "published eng' = published eng" "next_seq eng' = next_seq eng"
    "waiting (sched eng') = waiting (sched eng)" "running (sched eng') = running (sched eng)"
    "set (done_reqs (sched eng')) \<subseteq> set (done_reqs (sched eng))"
    using eq by simp_all
  have sok: "sched_ok (sched eng')" using eq D(1) by (simp add: sched_ok_def)
  have ev: "events_of k eng' = events_of k eng" for k by (simp add: events_of_def E(2))
  have lv: "live (sched eng') k q \<longleftrightarrow> live (sched eng) k q" for k q by (simp add: live_def E(4,5))
  have get: "dget (seqs eng') k = (case dget (seqs eng) k of None \<Rightarrow> None
      | Some i \<Rightarrow> if ?P (k, i) then Some i else None)" for k
    unfolding E(1) by (rule dget_filter[OF D(6)])
  have dead: "\<not> live (sched eng) k q" if "k \<in> seq_id ` set (done_reqs (sched eng))" for k q
    using that D(5) by auto
  show ?thesis
    unfolding sinks_ok_def ev lv E(3)
  proof (intro conjI allI impI ballI)
    show "sched_ok (sched eng')" by (rule sok)
    show "dict_ok (seqs eng')" unfolding E(1) using D(6) by (auto simp: dict_ok_def distinct_map_filter)
  next
    fix k q assume q: "live (sched eng) k q"
    then have "k \<notin> seq_id ` set (done_reqs (sched eng))" using dead by blast
    then show "\<exists>i. dget (seqs eng') k = Some i \<and> agrees q i
          \<and> (i_sink i \<noteq> None \<longrightarrow> events_of k eng = map OnToken (i_gen i))"
      using D(2)[OF q] get[of k] by (auto simp: reapable_def)
  next
    fix k i assume i: "dget (seqs eng') k = Some i" "\<forall>r. \<not> live (sched eng) k r" "i_sink i \<noteq> None"
    then have "dget (seqs eng) k = Some i" using get[of k] by (auto split: option.splits if_splits)
    from D(3)[OF this] i show "closed_events (i_gen i) (events_of k eng)" by auto
  next
    fix k assume "next_seq eng \<le> k"
    from D(4)[OF this] show "dget (seqs eng') k = None" "events_of k eng = []" using get[of k] by auto
  next
    fix r assume "r \<in> set (done_reqs (sched eng'))"
    then have r: "r \<in> set (done_reqs (sched eng))" using E(6) by blast
    show "seq_id r < next_seq eng" using D(5)[OF r] by auto
    fix q show "\<not> live (sched eng) (seq_id r) q" using D(5)[OF r] by auto
  next
    fix k assume n: "dget (seqs eng') k = None"
    show "events_of k eng = [] \<or> (\<exists>toks. closed_events toks (events_of k eng))"
    proof (cases "dget (seqs eng) k")
      case None
      then show ?thesis by (rule D(7))
    next
      case (Some i)
      then have "i_sink i \<noteq> None" "k \<in> seq_id ` set (done_reqs (sched eng))"
        using n get[of k] by (auto simp: reapable_def split: if_splits)
      then show ?thesis using D(3)[OF Some] dead by blast
    qed
  qed
qed

section \<open>Runs of the engine\<close>

text \<open>
  What the serving thread does with the engine, in any order and whatever fails: it submits, aborts,
  steps and reaps.
\<close>

inductive engine_move ::
  "('c, 'f::linordered_field, 'i, 'g, 't) env \<Rightarrow> ('c, 'f, 'g, 't) engine \<Rightarrow> ('c, 'f, 'g, 't) engine \<Rightarrow> bool"
  for E where
  submit: "1 \<le> n \<Longrightarrow> engine_move E eng (snd (submit E p n P snk pids eng))"
| abort: "engine_move E eng (snd (abort E sid eng))"
| step: "engine_move E eng (snd (engine_step E eng))"
| reap: "engine_move E eng (snd (reap eng))"

lemma engine_move_sinks: "engine_move E eng eng' \<Longrightarrow> sinks_ok eng \<Longrightarrow> sinks_ok eng'"
proof (induction rule: engine_move.induct)
  case (submit n eng p P snk pids)
  show ?case by (rule submit_sinks[OF submit(2,1) prod.collapse[symmetric]])
next
  case (abort eng sid)
  show ?case by (rule abort_sinks[OF abort prod.collapse[symmetric]])
next
  case (step eng)
  show ?case by (rule engine_step_sinks[OF step prod.collapse[symmetric]])
next
  case (reap eng)
  show ?case by (rule reap_sinks[OF reap prod.collapse[symmetric]])
qed

lemma engine_moves_sinks: "(engine_move E)\<^sup>*\<^sup>* eng eng' \<Longrightarrow> sinks_ok eng \<Longrightarrow> sinks_ok eng'"
  by (induction rule: rtranclp_induct) (auto intro: engine_move_sinks)

lemma engine_init_sinks: "engine_init kc sc bs cs mc = Inr eng \<Longrightarrow> sinks_ok eng"
proof -
  assume "engine_init kc sc bs cs mc = Inr eng"
  then obtain s where s: "sched_init kc sc bs cs mc = Inr s"
    and e: "eng = \<lparr>sched = s, seqs = [], order = [], next_seq = 0, published = []\<rparr>"
    by (auto simp: engine_init_def rbind_Inr_iff)
  then have "waiting s = []" "running s = []" "done_reqs s = []"
    by (auto simp: sched_init_def rbind_Inr_iff split: if_splits)
  then show ?thesis using sched_ok_init[OF s]
    by (simp add: e sinks_ok_def live_def events_of_def)
qed

text \<open>
  C13: every sink is told its tokens and then, exactly once, how its request ended.  In any state of
  the engine, whatever failed on the way: while a request is waiting or running its sink has seen
  exactly the tokens generated so far; once it has left the scheduler the sink has seen all its
  tokens and one closing call after them; and dropping a finished sequence leaves a closed record.
\<close>

theorem sinks_are_closed_once:
  assumes "engine_init kc sc bs cs mc = Inr e0" and "(engine_move E)\<^sup>*\<^sup>* e0 eng"
  shows "(\<forall>sid r. live (sched eng) sid r \<longrightarrow> (\<exists>i. dget (seqs eng) sid = Some i
            \<and> int (length (i_gen i)) = tokens_generated r
            \<and> (i_sink i \<noteq> None \<longrightarrow> events_of sid eng = map OnToken (i_gen i))))
       \<and> (\<forall>sid i. dget (seqs eng) sid = Some i \<longrightarrow> i_sink i \<noteq> None \<longrightarrow> (\<forall>r. \<not> live (sched eng) sid r)
            \<longrightarrow> closed_events (i_gen i) (events_of sid eng))
       \<and> (\<forall>sid. dget (seqs eng) sid = None
            \<longrightarrow> events_of sid eng = [] \<or> (\<exists>toks. closed_events toks (events_of sid eng)))"
proof -
  have ok: "sinks_ok eng" by (rule engine_moves_sinks[OF assms(2) engine_init_sinks[OF assms(1)]])
  note D = sinks_okD[OF ok]
  show ?thesis
  proof (intro conjI allI impI)
    fix sid r assume "live (sched eng) sid r"
    from D(2)[OF this] show "\<exists>i. dget (seqs eng) sid = Some i
            \<and> int (length (i_gen i)) = tokens_generated r
            \<and> (i_sink i \<noteq> None \<longrightarrow> events_of sid eng = map OnToken (i_gen i))"
      by (auto simp: agrees_def)
  next
    fix sid i assume i: "dget (seqs eng) sid = Some i" "i_sink i \<noteq> None" "\<forall>r. \<not> live (sched eng) sid r"
    show "closed_events (i_gen i) (events_of sid eng)"
      by (rule D(3)[OF i(1) _ i(2)]) (use i(3) in blast)
  qed (rule D(7))
qed

theorem sinks_are_closed_once_witness:
  "\<exists>eng :: (int, rat, rat, int list) engine. events_of 0 eng = [OnToken 1, OnToken 2, OnFinish Stop]
     \<and> closed_events [1, 2] (events_of 0 eng)"
proof -
  obtain e0 :: "(int, rat, rat, int list) engine" where i: "engine_init 4 1 16 32 1 = Inr e0"
    by (simp add: engine_init_def sched_init_def coord_init_def pool_init_def)
  let ?E = counter_env
  let ?e1 = "snd (submit ?E [0] 5 argmax_params (Some SinkWithFail) None e0)"
  let ?step = "\<lambda>e. snd (engine_step ?E e)"
  let ?eng = "?step (?step (?step (?step ?e1)))"
  have "(engine_move ?E)\<^sup>*\<^sup>* e0 ?e1" by (rule r_into_rtranclp, rule engine_move.submit) simp
  then have "(engine_move ?E)\<^sup>*\<^sup>* e0 ?eng"
    by (meson rtranclp.rtrancl_into_rtrancl engine_move.step)
  note C = sinks_are_closed_once[OF i this]
  have e0: "e0 = the (case engine_init 4 1 16 32 1 of Inr e \<Rightarrow> Some e | Inl x \<Rightarrow> None)" using i by simp
  have run: "(let e = ?eng in (events_of 0 e, map_option i_sink (dget (seqs e) 0), map_option i_gen (dget (seqs e) 0),
      waiting (sched e), running (sched e)))
      = ([OnToken 1, OnToken 2, OnFinish Stop], Some (Some SinkWithFail), Some [1, 2], [], [])"
    unfolding e0 by code_simp
  then obtain i where "dget (seqs ?eng) 0 = Some i" "i_sink i \<noteq> None" "i_gen i = [1, 2]"
    "\<forall>r. \<not> live (sched ?eng) 0 r" "events_of 0 ?eng = [OnToken 1, OnToken 2, OnFinish Stop]"
    by (auto simp: Let_def live_def)
  with C have "closed_events [1, 2] (events_of 0 ?eng)" by (metis (no_types, lifting))
  with \<open>events_of 0 ?eng = _\<close> show ?thesis by blast
qed

end
