(* ===== verification/PyText.thy ===== *)
theory PyText
  imports Prelude
begin

text \<open>
  Python text and dynamically typed values.  A \<open>str\<close> is the list of its code points (the
  special tokens of the chat format lie outside the 8-bit characters of HOL), \<open>lit\<close> writes
  an ASCII literal.  \<open>pv\<close> is the value type of JSON-like data: the messages of a request,
  tool arguments, image records.  A float is kept as its \<open>repr\<close> text, which determines it.
  The theory also holds the standard-library operations the chat code uses: substring search,
  \<open>str.join\<close>, \<open>json.dumps\<close> with its default separators.
\<close>

section \<open>Text\<close>

type_synonym pystr = "int list"

definition lit :: "string \<Rightarrow> pystr" where
  "lit s = map of_char s"

lemma lit_simps [simp]: "lit [] = []" "lit (a @ b) = lit a @ lit b"
  by (simp_all add: lit_def)

lemma length_lit [simp]: "length (lit s) = length s"
  by (simp add: lit_def)

text \<open>\<open>p in s\<close> and \<open>s.startswith(p)\<close>.\<close>

definition starts_with :: "pystr \<Rightarrow> pystr \<Rightarrow> bool" where
  "starts_with p s \<longleftrightarrow> take (length p) s = p"

fun str_find :: "pystr \<Rightarrow> pystr \<Rightarrow> nat option" where
  "str_find p [] = (if p = [] then Some 0 else None)"
| "str_find p (c # s) =
     (if starts_with p (c # s) then Some 0 else map_option Suc (str_find p s))"

definition str_in :: "pystr \<Rightarrow> pystr \<Rightarrow> bool" where
  "str_in p s \<longleftrightarrow> str_find p s \<noteq> None"

text \<open>\<open>s.find(p, i)\<close>, whose result is a position in \<open>s\<close>.\<close>

definition str_find_from :: "pystr \<Rightarrow> pystr \<Rightarrow> nat \<Rightarrow> nat option" where
  "str_find_from p s i = map_option (\<lambda>k. k + i) (str_find p (drop i s))"

lemma starts_with_append [simp]: "starts_with p (p @ s)"
  by (simp add: starts_with_def)

lemma starts_with_iff: "starts_with p s \<longleftrightarrow> (\<exists>r. s = p @ r)"
  by (metis append_take_drop_id append_eq_conv_conj starts_with_def)

lemma str_find_Some:
  "str_find p s = Some k \<Longrightarrow> k \<le> length s \<and> starts_with p (drop k s)"
proof (induction s arbitrary: k)
  case Nil
  then show ?case by (auto simp: starts_with_def split: if_splits)
next
  case (Cons c s)
  then show ?case by (cases "starts_with p (c # s)") auto
qed

lemma str_find_least:
  "str_find p s = Some k \<Longrightarrow> j < k \<Longrightarrow> \<not> starts_with p (drop j s)"
proof (induction s arbitrary: k j)
  case Nil
  then show ?case by (auto split: if_splits)
next
  case (Cons c s)
  then show ?case
    by (cases "starts_with p (c # s)"; cases j) auto
qed

lemma str_find_None:
  "str_find p s = None \<Longrightarrow> \<not> starts_with p (drop j s)"
proof (induction s arbitrary: j)
  case Nil
  then show ?case by (auto simp: starts_with_def split: if_splits)
next
  case (Cons c s)
  show ?case
  proof (cases j)
    case 0
    with Cons.prems show ?thesis by (auto split: if_splits)
  next
    case (Suc j')
    with Cons show ?thesis by (auto split: if_splits)
  qed
qed

lemma str_find_at:
  assumes "starts_with p (drop k s)" "k \<le> length s"
    and "\<And>j. j < k \<Longrightarrow> \<not> starts_with p (drop j s)"
  shows "str_find p s = Some k"
proof (cases "str_find p s")
  case None
  with assms(1) str_find_None show ?thesis by blast
next
  case (Some j)
  with assms str_find_Some str_find_least show ?thesis
    by (metis linorder_neqE_nat)
qed

lemma str_find_absent:
  assumes "\<And>j. \<not> starts_with p (drop j s)"
  shows "str_find p s = None"
  using assms str_find_Some by (metis not_Some_eq)

lemma str_in_iff: "str_in p s \<longleftrightarrow> (\<exists>a b. s = a @ p @ b)"
proof
  assume "str_in p s"
  then obtain k where "str_find p s = Some k" by (auto simp: str_in_def)
  then have "starts_with p (drop k s)" by (simp add: str_find_Some)
  then show "\<exists>a b. s = a @ p @ b" by (metis append_take_drop_id starts_with_iff)
next
  assume "\<exists>a b. s = a @ p @ b"
  then obtain a b where s: "s = a @ p @ b" by blast
  have "starts_with p (drop (length a) s)" by (simp add: s)
  then show "str_in p s" unfolding str_in_def using str_find_None by blast
qed

text \<open>\<open>s.endswith(p)\<close>\<close>

definition ends_with :: "pystr \<Rightarrow> pystr \<Rightarrow> bool" where
  "ends_with p s \<longleftrightarrow> starts_with (rev p) (rev s)"

text \<open>White space of \<open>str.strip\<close> and of \<open>\s\<close> in a pattern; \<open>s.strip()\<close>, \<open>s.split(c)\<close> for
  a one-character separator, \<open>s.partition(c)\<close>.\<close>

definition is_space :: "int \<Rightarrow> bool" where
  "is_space c \<longleftrightarrow> 9 \<le> c \<and> c \<le> 13 \<or> 28 \<le> c \<and> c \<le> 32 \<or> c = 0x85 \<or> c = 0xA0 \<or> c = 0x1680
     \<or> 0x2000 \<le> c \<and> c \<le> 0x200A \<or> c = 0x2028 \<or> c = 0x2029 \<or> c = 0x202F \<or> c = 0x205F \<or> c = 0x3000"

definition str_strip :: "pystr \<Rightarrow> pystr" where
  "str_strip s = rev (dropWhile is_space (rev (dropWhile is_space s)))"

fun split_on :: "int \<Rightarrow> pystr \<Rightarrow> pystr list" where
  "split_on c [] = [[]]"
| "split_on c (x # xs) =
     (if x = c then [] # split_on c xs
      else (case split_on c xs of [] \<Rightarrow> [[x]] | p # ps \<Rightarrow> (x # p) # ps))"

definition partition_at :: "int \<Rightarrow> pystr \<Rightarrow> pystr \<times> pystr" where
  "partition_at c s = (takeWhile (\<lambda>x. x \<noteq> c) s, drop 1 (dropWhile (\<lambda>x. x \<noteq> c) s))"

lemma split_on_free: "c \<notin> set s \<Longrightarrow> split_on c s = [s]"
  by (induction s) auto

lemma split_on_one: "c \<notin> set a \<Longrightarrow> split_on c (a @ c # s) = a # split_on c s"
  by (induction a) auto

lemma partition_at_first: "c \<notin> set a \<Longrightarrow> partition_at c (a @ c # s) = (a, s)"
  by (induction a) (auto simp: partition_at_def)

lemma str_strip_id:
  assumes "s = [] \<or> \<not> is_space (hd s) \<and> \<not> is_space (last s)"
  shows "str_strip s = s"
proof (cases "s = []")
  case False
  with assms have h: "\<not> is_space (hd s)" "\<not> is_space (last s)" by auto
  have "dropWhile is_space s = s" using False h(1) by (cases s) auto
  moreover have "dropWhile is_space (rev s) = rev s"
    using False h(2) by (cases "rev s") (auto simp: hd_rev[symmetric])
  ultimately show ?thesis by (simp add: str_strip_def)
qed (simp add: str_strip_def)

text \<open>\<open>sep.join(parts)\<close>\<close>

fun str_join :: "pystr \<Rightarrow> pystr list \<Rightarrow> pystr" where
  "str_join sep [] = []"
| "str_join sep [p] = p"
| "str_join sep (p # q # ps) = p @ sep @ str_join sep (q # ps)"

lemma str_join_Cons:
  "str_join sep (p # ps) = p @ concat (map (\<lambda>q. sep @ q) ps)"
  by (induction ps arbitrary: p) auto

text \<open>
  Searching past text that lacks one code point of the pattern: an occurrence cannot begin
  inside that text, so the first occurrence is where the pattern was put.
\<close>

lemma nth_take_drop: "i < n \<Longrightarrow> j \<le> length s \<Longrightarrow> take n (drop j s) ! i = s ! (j + i)"
  by simp

lemma str_find_after:
  assumes mid: "c \<notin> set x" and p: "p = a @ c # b" and a: "c \<notin> set a"
  shows "str_find p (x @ p @ r) = Some (length x)"
proof (rule str_find_at)
  fix j assume j: "j < length x"
  show "\<not> starts_with p (drop j (x @ p @ r))"
  proof
    assume "starts_with p (drop j (x @ p @ r))"
    then have eq: "take (length p) (drop j (x @ p @ r)) = p" by (simp add: starts_with_def)
    have "p ! length a = c" by (simp add: p)
    moreover have "take (length p) (drop j (x @ p @ r)) ! length a = (x @ p @ r) ! (j + length a)"
      by (rule nth_take_drop) (use j in \<open>simp_all add: p\<close>)
    ultimately have "(x @ p @ r) ! (j + length a) = c" using eq by simp
    moreover have "(x @ p @ r) ! (j + length a) \<noteq> c"
    proof (cases "j + length a < length x")
      case True
      then have "(x @ p @ r) ! (j + length a) \<in> set x" by (simp add: nth_append)
      with mid show ?thesis by metis
    next
      case False
      moreover have k: "j + length a - length x < length a" using False j by simp
      ultimately have "(x @ p @ r) ! (j + length a) = a ! (j + length a - length x)"
        by (simp add: nth_append p)
      moreover note k
      ultimately show ?thesis using a by (metis nth_mem)
    qed
    ultimately show False by simp
  qed
qed simp_all

lemma str_find_free:
  assumes "c \<notin> set s" "c \<in> set p"
  shows "str_find p s = None"
proof (rule str_find_absent)
  fix j show "\<not> starts_with p (drop j s)"
    using assms by (metis in_set_takeD in_set_dropD starts_with_def)
qed

text \<open>
  \<open>int(s)\<close> of a text: white space around it, a sign, decimal digits with single underscores
  between them (the digits of other scripts are not modelled).
\<close>

fun int_digits :: "bool \<Rightarrow> int \<Rightarrow> pystr \<Rightarrow> int option" where
  "int_digits seen n [] = (if seen then Some n else None)"
| "int_digits seen n (c # cs) =
     (if 48 \<le> c \<and> c \<le> 57 then int_digits True (10 * n + (c - 48)) cs
      else if c = 95 \<and> seen \<and> cs \<noteq> [] \<and> hd cs \<noteq> 95 then int_digits False n cs else None)"

definition int_of_str :: "pystr \<Rightarrow> py_error + int" where
  "int_of_str raw =
     (let s = str_strip raw;
          r = (case s of
                 [] \<Rightarrow> None
               | c # cs \<Rightarrow> if c = 45 then map_option uminus (int_digits False 0 cs)
                          else if c = 43 then int_digits False 0 cs
                          else int_digits False 0 s)
      in case r of None \<Rightarrow> Inl ValueError | Some i \<Rightarrow> Inr i)"

section \<open>Loops that may raise\<close>

text \<open>A \<open>for\<close> loop whose body updates a state or raises.\<close>

fun rfold :: "('s \<Rightarrow> 'a \<Rightarrow> 'e + 's) \<Rightarrow> 's \<Rightarrow> 'a list \<Rightarrow> 'e + 's" where
  "rfold f s [] = Inr s"
| "rfold f s (x # xs) = rbind (f s x) (\<lambda>s'. rfold f s' xs)"

lemma rfold_append: "rfold f s (xs @ ys) = rbind (rfold f s xs) (\<lambda>s'. rfold f s' ys)"
proof (induction xs arbitrary: s)
  case (Cons x xs)
  then show ?case by (cases "f s x") auto
qed simp

lemma rfold_cong [fundef_cong]:
  "s = t \<Longrightarrow> xs = ys \<Longrightarrow> (\<And>u x. x \<in> set ys \<Longrightarrow> f u x = g u x) \<Longrightarrow> rfold f s xs = rfold g t ys"
  by (induction xs arbitrary: s t ys) (auto intro!: rbind_cong)

lemma rmap_append: "rmap f (xs @ ys) = rbind (rmap f xs) (\<lambda>a. rbind (rmap f ys) (\<lambda>b. Inr (a @ b)))"
proof (induction xs)
  case Nil
  then show ?case by (cases "rmap f ys") auto
next
  case (Cons x xs)
  then show ?case by (cases "f x"; cases "rmap f xs"; cases "rmap f ys") auto
qed

section \<open>Values\<close>

datatype pv =
    PNone
  | PBool bool
  | PInt int
  | PFloat pystr
  | PStr pystr
  | PBytes "int list"
  | PList "pv list"
  | PDict "(pystr \<times> pv) list"

text \<open>Truth of a value; a float is falsy when it is a zero.\<close>

fun truthy :: "pv \<Rightarrow> bool" where
  "truthy PNone = False"
| "truthy (PBool b) = b"
| "truthy (PInt i) = (i \<noteq> 0)"
| "truthy (PFloat r) = (r \<noteq> lit ''0.0'' \<and> r \<noteq> lit ''-0.0'')"
| "truthy (PStr s) = (s \<noteq> [])"
| "truthy (PBytes b) = (b \<noteq> [])"
| "truthy (PList xs) = (xs \<noteq> [])"
| "truthy (PDict d) = (d \<noteq> [])"

text \<open>\<open>d.get(k)\<close> and \<open>d.get(k, default)\<close>; anything but a dict has no such method.\<close>

fun pget :: "pv \<Rightarrow> pystr \<Rightarrow> pv \<Rightarrow> py_error + pv" where
  "pget (PDict d) k dflt = Inr (case dget d k of None \<Rightarrow> dflt | Some v \<Rightarrow> v)"
| "pget _ k dflt = Inl AttributeError"

text \<open>\<open>d[k]\<close>\<close>

fun pindex :: "pv \<Rightarrow> pystr \<Rightarrow> py_error + pv" where
  "pindex (PDict d) k = (case dget d k of None \<Rightarrow> Inl KeyError | Some v \<Rightarrow> Inr v)"
| "pindex _ k = Inl TypeError"

section \<open>JSON output\<close>

definition hex_digit :: "int \<Rightarrow> int" where
  "hex_digit n = (if n < 10 then 48 + n else 87 + n)"

text \<open>One character of a JSON string with \<open>ensure_ascii=False\<close>.\<close>

definition json_escape :: "int \<Rightarrow> pystr" where
  "json_escape c =
     (if c = 34 then [92, 34]
      else if c = 92 then [92, 92]
      else if c = 10 then [92, 110]
      else if c = 13 then [92, 114]
      else if c = 9 then [92, 116]
      else if c = 12 then [92, 102]
      else if c = 8 then [92, 98]
      else if c < 32 then [92, 117, 48, 48] @ [hex_digit (c div 16), hex_digit (c mod 16)]
      else [c])"

definition json_string :: "pystr \<Rightarrow> pystr" where
  "json_string s = [34] @ concat (map json_escape s) @ [34]"

function digits_rev :: "int \<Rightarrow> pystr" where
  "digits_rev n = (48 + n mod 10) # (if n < 10 then [] else digits_rev (n div 10))"
  by pat_completeness auto
termination by (relation "measure nat") auto

declare digits_rev.simps [simp del]

text \<open>\<open>str(i)\<close> and \<open>repr\<close> of a float as \<open>json.dumps\<close> writes it.\<close>

definition int_str :: "int \<Rightarrow> pystr" where
  "int_str i = (if i < 0 then [45] else []) @ rev (digits_rev \<bar>i\<bar>)"

definition json_float :: "pystr \<Rightarrow> pystr" where
  "json_float r =
     (if r = lit ''inf'' then lit ''Infinity''
      else if r = lit ''-inf'' then lit ''-Infinity''
      else if r = lit ''nan'' then lit ''NaN'' else r)"

fun json_dumps :: "pv \<Rightarrow> pystr" where
  "json_dumps PNone = lit ''null''"
| "json_dumps (PBool b) = (if b then lit ''true'' else lit ''false'')"
| "json_dumps (PInt i) = int_str i"
| "json_dumps (PFloat r) = json_float r"
| "json_dumps (PStr s) = json_string s"
| "json_dumps (PBytes b) = []"
| "json_dumps (PList xs) = lit ''['' @ str_join (lit '', '') (map json_dumps xs) @ lit '']''"
| "json_dumps (PDict d) =
     lit ''{'' @ str_join (lit '', '') (map (\<lambda>p. json_string (fst p) @ lit '': '' @ json_dumps (snd p)) d)
       @ lit ''}''"

fun json_ok :: "pv \<Rightarrow> bool" where
  "json_ok (PBytes b) = False"
| "json_ok (PList xs) = list_all json_ok xs"
| "json_ok (PDict d) = list_all (\<lambda>p. json_ok (snd p)) d"
| "json_ok _ = True"

end
