(* ===== verification/EnvConfig.thy ===== *)
theory EnvConfig
  imports PyText
begin

text \<open>
  The reader of \<open>config.env\<close> (\<open>env_config.py\<close>) and the cluster topology built from it
  (\<open>tp/topology.py\<close>).  The lines of the file, \<open>None\<close> when there is no file, and the
  environment of the process are arguments; so is \<open>os.path.expanduser\<close>.  A rank is a host of
  the pair, a topology the tuple of its ranks.

  Writing a dict of clean keys and values as \<open>KEY=VALUE\<close> lines, with comments and \<open>export\<close>
  prefixes, and reading the file gives the dict back.  A topology passes \<open>validate\<close> exactly when
  its ranks are a permutation of \<open>0..n-1\<close> for the size \<open>n\<close> the recipe asks for.
\<close>

section \<open>Reading \<open>config.env\<close>\<close>

definition parse_line :: "pystr \<Rightarrow> (pystr \<times> pystr) option" where
  "parse_line raw =
     (let line = str_strip raw
      in if line = [] \<or> starts_with (lit ''#'') line \<or> 61 \<notin> set line then None
         else let line = (if starts_with (lit ''export '') line then str_strip (drop 7 line) else line);
                  kv = partition_at 61 line;
                  k = str_strip (fst kv); v = str_strip (snd kv)
              in if k = [] then None else Some (k, v))"

definition parse_env :: "pystr list option \<Rightarrow> (pystr, pystr) dict" where
  "parse_env file =
     (case file of
        None \<Rightarrow> []
      | Some lines \<Rightarrow>
          fold (\<lambda>line out. case parse_line line of None \<Rightarrow> out | Some (k, v) \<Rightarrow> dset k v out) lines [])"

definition env_get ::
    "(pystr, pystr) dict \<Rightarrow> pystr list option \<Rightarrow> pystr \<Rightarrow> pystr option \<Rightarrow> pystr option" where
  "env_get environ file key dflt =
     (case dget environ key of
        Some (c # v) \<Rightarrow> Some (c # v)
      | _ \<Rightarrow> (case dget (parse_env file) key of Some (c # v) \<Rightarrow> Some (c # v) | _ \<Rightarrow> dflt))"

definition env_get_path ::
    "(pystr \<Rightarrow> pystr) \<Rightarrow> (pystr, pystr) dict \<Rightarrow> pystr list option \<Rightarrow> pystr \<Rightarrow> pystr option \<Rightarrow> pystr option" where
  "env_get_path expanduser environ file key dflt =
     (case env_get environ file key dflt of
        Some (c # v) \<Rightarrow> Some (expanduser (c # v))
      | v \<Rightarrow> v)"

definition env_get_int ::
    "(pystr, pystr) dict \<Rightarrow> pystr list option \<Rightarrow> pystr \<Rightarrow> int \<Rightarrow> py_error + int" where
  "env_get_int environ file key dflt =
     (case env_get environ file key None of Some (c # v) \<Rightarrow> int_of_str (c # v) | _ \<Rightarrow> Inr dflt)"

section \<open>The cluster topology\<close>

record rank_spec =
  spec_rank :: int
  host :: pystr
  pair_ip :: pystr
  device_index :: int

definition is_head :: "rank_spec \<Rightarrow> bool" where
  "is_head r \<longleftrightarrow> spec_rank r = 0"

definition pair_names :: "(pystr, pystr) dict \<Rightarrow> pystr list option \<Rightarrow> pystr list" where
  "pair_names environ file =
     map (\<lambda>(key, dflt). the (env_get environ file key (Some dflt)))
       [(lit ''SLLM_HEAD_IP'', lit ''192.168.0.250''),
        (lit ''SLLM_WORKER_IP'', lit ''192.168.0.231''),
        (lit ''SLLM_HEAD_PAIR_IP'', lit ''10.100.25.1''),
        (lit ''SLLM_WORKER_PAIR_IP'', lit ''10.100.25.2'')]"

definition dgx_spark_pair :: "(pystr, pystr) dict \<Rightarrow> pystr list option \<Rightarrow> rank_spec list" where
  "dgx_spark_pair environ file =
     (let n = pair_names environ file
      in [\<lparr>spec_rank = 0, host = n ! 0, pair_ip = n ! 2, device_index = 0\<rparr>,
          \<lparr>spec_rank = 1, host = n ! 1, pair_ip = n ! 3, device_index = 0\<rparr>])"

definition world_size :: "rank_spec list \<Rightarrow> int" where
  "world_size ranks = int (length ranks)"

definition validate_topology :: "rank_spec list \<Rightarrow> int \<Rightarrow> py_error + unit" where
  "validate_topology ranks tp_size =
     (if tp_size \<noteq> world_size ranks then Inl TopologyError
      else if sort (map spec_rank ranks) \<noteq> [0..world_size ranks - 1] then Inl TopologyError
      else Inr ())"

definition topology_from_recipe ::
    "(pystr, pystr) dict \<Rightarrow> pystr list option \<Rightarrow> int \<Rightarrow> py_error + rank_spec list" where
  "topology_from_recipe environ file tp_size =
     (let topo = dgx_spark_pair environ file
      in rbind (validate_topology topo tp_size) (\<lambda>_. Inr topo))"

section \<open>Writing and reading a configuration\<close>

text \<open>A text without white space at its ends.\<close>

definition trimmed :: "pystr \<Rightarrow> bool" where
  "trimmed s \<longleftrightarrow> s = [] \<or> \<not> is_space (hd s) \<and> \<not> is_space (last s)"

definition clean_key :: "pystr \<Rightarrow> bool" where
  "clean_key k \<longleftrightarrow> k \<noteq> [] \<and> trimmed k \<and> 61 \<notin> set k \<and> \<not> starts_with (lit ''#'') k
     \<and> \<not> starts_with (lit ''export '') k"

definition env_line :: "bool \<Rightarrow> pystr \<times> pystr \<Rightarrow> pystr" where
  "env_line export kv = (if export then lit ''export '' else []) @ fst kv @ [61] @ snd kv @ [10]"

lemma trimmed_strip: "trimmed s \<Longrightarrow> str_strip s = s"
  by (rule str_strip_id) (simp add: trimmed_def)

lemma space_10 [simp]: "is_space 10" and not_space_61 [simp]: "\<not> is_space 61"
  by (simp_all add: is_space_def)

lemma strip_newline:
  assumes "s \<noteq> []" "\<not> is_space (hd s)"
  shows "str_strip (s @ [10]) = rev (dropWhile is_space (rev s))"
proof -
  have "dropWhile is_space (s @ [10]) = s @ [10]" using assms by (cases s) auto
  then show ?thesis by (simp add: str_strip_def)
qed

lemma strip_keyval:
  assumes k: "k \<noteq> []" "\<not> is_space (hd k)" and v: "trimmed v"
  shows "str_strip (k @ 61 # v @ [10]) = k @ 61 # v"
proof -
  have "str_strip ((k @ 61 # v) @ [10]) = rev (dropWhile is_space (rev (k @ 61 # v)))"
    using k by (intro strip_newline) (cases k; auto)+
  also have "dropWhile is_space (rev (k @ 61 # v)) = rev (k @ 61 # v)"
    using v by (cases v rule: rev_cases) (auto simp: trimmed_def)
  finally show ?thesis by simp
qed

lemma starts_with_append_key:
  assumes "k \<noteq> []" "61 \<notin> set k" "61 \<notin> set p"
  shows "starts_with p (k @ 61 # v) \<longleftrightarrow> starts_with p k"
proof
  assume a: "starts_with p (k @ 61 # v)"
  show "starts_with p k"
  proof (cases "length p \<le> length k")
    case True
    with a show ?thesis by (simp add: starts_with_def)
  next
    case False
    with a have "p = take (length p) (k @ 61 # v)" by (simp add: starts_with_def)
    also have "\<dots> = k @ 61 # take (length p - length k - 1) v"
      using False by (cases "length p - length k") (auto simp: take_Cons')
    finally have "61 \<in> set p" by (metis in_set_conv_decomp)
    with assms show ?thesis by simp
  qed
qed (auto simp: starts_with_iff)

lemma parse_env_line:
  assumes k: "clean_key k" and v: "trimmed v"
  shows "parse_line (env_line e (k, v)) = Some (k, v)"
proof -
  have kh: "k \<noteq> []" "\<not> is_space (hd k)" "trimmed k" "61 \<notin> set k" using k
    by (auto simp: clean_key_def trimmed_def)
  let ?kv = "k @ 61 # v"
  have part: "partition_at 61 ?kv = (k, v)" by (rule partition_at_first) (rule kh(4))
  have strip: "str_strip k = k" "str_strip v = v" using kh v by (simp_all add: trimmed_strip)
  have no: "\<not> starts_with (lit ''#'') ?kv" "\<not> starts_with (lit ''export '') ?kv"
    using k by (simp_all add: clean_key_def starts_with_append_key kh lit_def)
  have kv0: "?kv \<noteq> []" by simp
  show ?thesis
  proof (cases e)
    case False
    have "str_strip (env_line e (k, v)) = ?kv"
      using strip_keyval [OF kh(1,2) v] False by (simp add: env_line_def)
    then show ?thesis using no kh(1) part strip kv0 by (simp add: parse_line_def Let_def)
  next
    case True
    let ?x = "lit ''export ''"
    have "str_strip (env_line e (k, v)) = ?x @ ?kv"
      using strip_keyval [of "?x @ k" v] v True by (simp add: env_line_def lit_def is_space_def)
    moreover have "str_strip ?kv = ?kv"
      using kh v by (intro trimmed_strip) (cases v rule: rev_cases; auto simp: trimmed_def)
    moreover have "\<not> starts_with (lit ''#'') (?x @ ?kv)" by (simp add: starts_with_def lit_def)
    moreover have "starts_with ?x (?x @ ?kv)" "drop 7 (?x @ ?kv) = ?kv" by (simp, simp add: lit_def)
    moreover have "61 \<in> set (?x @ ?kv)" "?x @ ?kv \<noteq> []" by simp_all
    ultimately show ?thesis using kh(1) part strip by (simp only: parse_line_def Let_def) simp
  qed
qed

text \<open>Lines that say nothing: comments and blank lines.\<close>

definition env_text :: "(bool \<times> pystr \<times> pystr) list \<Rightarrow> pystr list" where
  "env_text entries = map (\<lambda>(e, kv). env_line e kv) entries"

lemma parse_skip: "parse_line c = None \<Longrightarrow> parse_env (Some (a @ c # b)) = parse_env (Some (a @ b))"
  by (simp add: parse_env_def)

text \<open>
  The reader of \<open>config.env\<close> reads what a writer writes.  Clean keys with trimmed values,
  written one per line with or without \<open>export\<close>, come back as the dict in which a later line
  wins; in particular values may contain \<open>=\<close>, \<open>#\<close> and spaces.
\<close>

theorem env_file_roundtrip:
  assumes "\<forall>(e, k, v) \<in> set entries. clean_key k \<and> trimmed v"
  shows "dget (parse_env (Some (env_text entries))) = map_of (rev (map snd entries))"
proof -
  have "dget (fold (\<lambda>line out. case parse_line line of None \<Rightarrow> out | Some (k, v) \<Rightarrow> dset k v out)
      (env_text entries) d) = dget d ++ map_of (rev (map snd entries))" for d
    using assms
  proof (induction entries arbitrary: d)
    case (Cons x xs)
    obtain e k v where x: "x = (e, k, v)" by (cases x) auto
    with Cons.prems have "parse_line (env_line e (k, v)) = Some (k, v)" by (auto intro: parse_env_line)
    moreover have "dget (fold (\<lambda>line out. case parse_line line of None \<Rightarrow> out | Some (k, v) \<Rightarrow> dset k v out)
      (env_text xs) (dset k v d)) = dget (dset k v d) ++ map_of (rev (map snd xs))"
      by (rule Cons.IH) (use Cons.prems in auto)
    ultimately show ?case by (simp add: env_text_def x dget_dset map_add_upd_left map_add_def fun_eq_iff split: option.splits)
  qed (simp add: env_text_def)
  from this [of "[]"] show ?thesis by (simp add: parse_env_def)
qed

theorem env_file_roundtrip_witness:
  "dget (parse_env (Some (env_text
     [(True, lit ''A'', lit ''x = 1 # y''), (False, lit ''B'', []), (False, lit ''A'', lit ''2'')])))
   = map_of (rev [(lit ''A'', lit ''x = 1 # y''), (lit ''B'', []), (lit ''A'', lit ''2'')])"
proof -
  have "\<forall>(e, k, v) \<in> set [(True, lit ''A'', lit ''x = 1 # y''), (False, lit ''B'', []), (False, lit ''A'', lit ''2'')].
    clean_key k \<and> trimmed v"
    by code_simp
  from env_file_roundtrip [OF this] show ?thesis by simp
qed

section \<open>Valid topologies\<close>

lemma validate_topology_iff:
  "validate_topology ranks n = Inr () \<longleftrightarrow>
     n = int (length ranks) \<and> mset (map spec_rank ranks) = mset [0..n - 1]"
proof -
  have "sort (map spec_rank ranks) = [0..m - 1] \<longleftrightarrow> mset (map spec_rank ranks) = mset [0..m - 1]" for m
    by (metis mset_sort properties_for_sort sorted_upto)
  then show ?thesis by (auto simp: validate_topology_def world_size_def)
qed

lemma topology_from_recipe_iff:
  "topology_from_recipe environ file n = Inr topo \<longleftrightarrow> n = 2 \<and> topo = dgx_spark_pair environ file"
  by (auto simp: topology_from_recipe_def rbind_Inr_iff validate_topology_def world_size_def
      dgx_spark_pair_def Let_def upto.simps)

end
