(* ===== verification/Serving.thy ===== *)
theory Serving
  imports Sinks EnvConfig
begin

text \<open>
  Model of \<open>serving/batched_server.py\<close>: sizing, admission, the in-flight slots, the request objects
  shared by the HTTP threads and the executor thread, the three queues between them, and the
  executor's loop body.  Each method call is one atomic step, which is what the lock gives for the
  counters; the check of \<open>_released\<close>, which the lock does not cover, is looked at separately in
  its own small-step model at the end.
\<close>

section \<open>Sizing\<close>

definition blocks_for :: "int \<Rightarrow> int \<Rightarrow> int" where
  "blocks_for tokens bs = (if tokens > 0 then (tokens + bs - 1) div bs else 0)"

definition hard_max_blocks :: int where
  "hard_max_blocks = 200000"

text \<open>
  The arguments of the constructor, and where \<open>_env_int\<close> looks: the environment of the process and
  the lines of \<open>config.env\<close>.
\<close>

record serve_args =
  arg_kv :: "int option"
  arg_state :: "int option"
  arg_block :: "int option"
  arg_chunk :: "int option"
  arg_conc :: "int option"
  arg_queued :: "int option"
  arg_timeout :: "rat option"
  environ :: "(pystr, pystr) dict"
  env_lines :: "pystr list option"

record serve_config =
  c_block :: int
  c_chunk :: int
  c_conc :: int
  c_state :: int
  c_kv :: int
  c_max_ctx :: int
  c_max_queued :: int
  c_timeout :: rat

definition env_int :: "serve_args \<Rightarrow> string \<Rightarrow> int \<Rightarrow> py_error + int" where
  "env_int A key d = env_get_int (environ A) (env_lines A) (lit key) d"

text \<open>\<open>x or _env_int(key, default)\<close>; the environment is read only where the argument is missing or zero.\<close>

definition or_env :: "serve_args \<Rightarrow> int option \<Rightarrow> string \<Rightarrow> int \<Rightarrow> py_error + int" where
  "or_env A x key d = (case x of Some v \<Rightarrow> if v \<noteq> 0 then Inr v else env_int A key d | None \<Rightarrow> env_int A key d)"

text \<open>\<open>plan\<close> is \<open>_kv_plan\<close>: the number of blocks of the memory plan for a block size, if there is a plan.\<close>

definition serve_config_of :: "serve_args \<Rightarrow> int \<Rightarrow> (int \<Rightarrow> int option) \<Rightarrow> serve_config pure_result" where
  "serve_config_of A max_ctx plan =
     rbind (or_env A (arg_block A) ''SLLM_BLOCK_SIZE'' 16) (\<lambda>block0.
     rbind (or_env A (arg_chunk A) ''SLLM_CHUNK_SIZE'' 32) (\<lambda>chunk0.
     rbind (or_env A (arg_conc A) ''SLLM_MAX_CONCURRENT'' 8) (\<lambda>conc0.
       let conc = (if conc0 < 1 then 1 else conc0);
           block = (if block0 < 1 then 16 else block0);
           chunk = (if chunk0 < 1 then 32 else chunk0)
       in rbind (or_env A (arg_state A) ''SLLM_STATE_CAPACITY'' conc) (\<lambda>state0.
         let st = (if state0 < 1 then conc else state0);
             need = blocks_for max_ctx block * conc;
             kv0 = (case arg_kv A of
                      Some k \<Rightarrow> k
                    | None \<Rightarrow> (case plan block of
                                 Some n \<Rightarrow> if n > 0 then min n need else need
                               | None \<Rightarrow> need));
             kv = max 1 (min kv0 hard_max_blocks)
         in rbind (case arg_queued A of Some q \<Rightarrow> Inr q | None \<Rightarrow> env_int A ''SLLM_MAX_QUEUED'' (conc * 4)) (\<lambda>queued.
            rbind (case arg_timeout A of
                     Some t \<Rightarrow> if t \<noteq> 0 then Inr t
                               else rbind (env_int A ''SLLM_SERVE_TIMEOUT'' 600) (\<lambda>v. Inr (of_int v))
                   | None \<Rightarrow> rbind (env_int A ''SLLM_SERVE_TIMEOUT'' 600) (\<lambda>v. Inr (of_int v))) (\<lambda>timeout.
              Inr \<lparr>c_block = block, c_chunk = chunk, c_conc = conc, c_state = st, c_kv = kv,
                   c_max_ctx = max_ctx, c_max_queued = max 1 queued, c_timeout = timeout\<rparr>))))))"

definition precheck :: "serve_config \<Rightarrow> int \<Rightarrow> int \<Rightarrow> unit pure_result" where
  "precheck C plen n =
     (if n < 1 then Inl InvalidRequestError
      else if c_max_ctx C \<noteq> 0 \<and> plen + n > c_max_ctx C then Inl InvalidRequestError
      else if blocks_for (plen + n) (c_block C) > c_kv C then Inl InvalidRequestError
      else Inr ())"

section \<open>Requests and the facade\<close>

datatype 't q_event = TokId int | TokText 't | Finish reason | QError py_error

text \<open>
  One in-flight request.  The objects are shared by reference, so they live in a store and are
  named by their index in it.
\<close>

record 't req =
  stream :: bool
  prompt_ids :: "int list option"
  q :: "'t q_event list"
  is_done :: bool
  ids :: "int list"
  r_reason :: "reason option"
  r_error :: "py_error option"
  result :: "'t option"
  r_seq_id :: "int option"
  released :: bool

record ('c, 'f, 'g, 't) facade =
  batched :: "('c, 'f, 'g, 't) engine"
  reqs :: "'t req list"
  sink_of :: "(int, nat) dict"
  submit_q :: "(nat \<times> int \<times> 'f sampling) list"
  excl_q :: "nat list"
  abort_q :: "int list"
  inflight :: int
  served :: int
  conf :: serve_config

definition new_req :: "bool \<Rightarrow> int list option \<Rightarrow> 't req" where
  "new_req strm p = \<lparr>stream = strm, prompt_ids = p, q = [], is_done = False, ids = [], r_reason = None,
     r_error = None, result = None, r_seq_id = None, released = False\<rparr>"

definition facade_init ::
  "serve_args \<Rightarrow> int \<Rightarrow> (int \<Rightarrow> int option) \<Rightarrow> ('c, 'f, 'g, 't) facade pure_result" where
  "facade_init A max_ctx plan =
     rbind (serve_config_of A max_ctx plan) (\<lambda>C.
      rbind (engine_init (c_kv C) (c_state C) (c_block C) (c_chunk C) (c_conc C)) (\<lambda>e.
        Inr \<lparr>batched = e, reqs = [], sink_of = [], submit_q = [], excl_q = [], abort_q = [],
             inflight = 0, served = 0, conf = C\<rparr>))"

definition put_req :: "nat \<Rightarrow> 't req \<Rightarrow> ('c, 'f, 'g, 't) facade \<Rightarrow> ('c, 'f, 'g, 't) facade" where
  "put_req i r F = F\<lparr>reqs := (reqs F)[i := r]\<rparr>"

section \<open>Slots\<close>

definition admit_slot :: "('c, 'f, 'g, 't) facade \<Rightarrow> (('c, 'f, 'g, 't) facade, unit) result" where
  "admit_slot F =
     (if inflight F \<ge> c_max_queued (conf F) then (Inl SaturatedError, F)
      else (Inr (), F\<lparr>inflight := inflight F + 1\<rparr>))"

definition release :: "nat \<Rightarrow> ('c, 'f, 'g, 't) facade \<Rightarrow> ('c, 'f, 'g, 't) facade" where
  "release i F =
     (let r = reqs F ! i in
      if released r then F
      else (put_req i (r\<lparr>released := True\<rparr>) F)\<lparr>inflight := inflight F - 1, served := served F + 1\<rparr>)"

section \<open>The sink methods of a request\<close>

definition on_token :: "nat \<Rightarrow> int \<Rightarrow> ('c, 'f, 'g, 't) facade \<Rightarrow> ('c, 'f, 'g, 't) facade" where
  "on_token i tok F =
     (let r = reqs F ! i in
      put_req i (r\<lparr>ids := ids r @ [tok], q := (if stream r then q r @ [TokId tok] else q r)\<rparr>) F)"

definition on_finish :: "nat \<Rightarrow> reason \<Rightarrow> ('c, 'f, 'g, 't) facade \<Rightarrow> ('c, 'f, 'g, 't) facade" where
  "on_finish i why F =
     (let r = reqs F ! i in
      if is_done r then F
      else release i (put_req i (r\<lparr>r_reason := Some why,
             q := (if stream r then q r @ [Finish why] else q r), is_done := True\<rparr>) F))"

definition fail :: "nat \<Rightarrow> py_error \<Rightarrow> ('c, 'f, 'g, 't) facade \<Rightarrow> ('c, 'f, 'g, 't) facade" where
  "fail i e F =
     (let r = reqs F ! i in
      if is_done r then F
      else release i (put_req i (r\<lparr>r_error := Some e,
             q := (if stream r then q r @ [QError e] else q r), is_done := True\<rparr>) F))"

fun call_sink :: "nat \<Rightarrow> sink_event \<Rightarrow> ('c, 'f, 'g, 't) facade \<Rightarrow> ('c, 'f, 'g, 't) facade" where
  "call_sink i (OnToken t) F = on_token i t F"
| "call_sink i (OnFinish r) F = on_finish i r F"
| "call_sink i (Fail e) F = fail i e F"

text \<open>The sink calls an engine operation made, on the requests the sinks are.\<close>

fun deliver ::
  "(int \<times> sink_event) list \<Rightarrow> ('c, 'f, 'g, 't) facade \<Rightarrow> ('c, 'f, 'g, 't) facade" where
  "deliver [] F = F"
| "deliver ((sid, ev) # evs) F =
     (case dget (sink_of F) sid of
        None \<Rightarrow> deliver evs F
      | Some i \<Rightarrow> deliver evs (call_sink i ev F))"

definition with_engine ::
  "('c, 'f, 'g, 't) engine \<Rightarrow> ('c, 'f, 'g, 't) facade \<Rightarrow> ('c, 'f, 'g, 't) facade" where
  "with_engine e F =
     deliver (drop (length (published (batched F))) (published e)) (F\<lparr>batched := e\<rparr>)"

section \<open>HTTP threads\<close>

text \<open>
  The part of \<open>complete_detail\<close> and \<open>stream_complete\<close> before the wait: check, reserve a slot,
  create the request, hand it to the executor.
\<close>

definition http_submit ::
  "('c, 'f, 'i, 'g, 't) env \<Rightarrow> bool \<Rightarrow> 't \<Rightarrow> int \<Rightarrow> 'f sampling \<Rightarrow> ('c, 'f, 'g, 't) facade
    \<Rightarrow> (('c, 'f, 'g, 't) facade, nat) result" where
  "http_submit E strm prompt n params F =
     (let pids = encode E prompt in
      case precheck (conf F) (int (length pids)) n of
        Inl e \<Rightarrow> (Inl e, F)
      | Inr _ \<Rightarrow>
          (case admit_slot F of
             (Inl e, F1) \<Rightarrow> (Inl e, F1)
           | (Inr _, F1) \<Rightarrow>
               let i = length (reqs F1) in
               (Inr i, F1\<lparr>reqs := reqs F1 @ [new_req strm (Some pids)],
                          submit_q := submit_q F1 @ [(i, n, params)]\<rparr>)))"

definition http_exclusive ::
  "bool \<Rightarrow> ('c, 'f, 'g, 't) facade \<Rightarrow> (('c, 'f, 'g, 't) facade, nat) result" where
  "http_exclusive strm F =
     (case admit_slot F of
        (Inl e, F1) \<Rightarrow> (Inl e, F1)
      | (Inr _, F1) \<Rightarrow>
          let i = length (reqs F1) in
          (Inr i, F1\<lparr>reqs := reqs F1 @ [new_req strm None], excl_q := excl_q F1 @ [i]\<rparr>))"

definition request_abort :: "nat \<Rightarrow> ('c, 'f, 'g, 't) facade \<Rightarrow> ('c, 'f, 'g, 't) facade" where
  "request_abort i F =
     (let r = reqs F ! i in
      case r_seq_id r of
        Some sid \<Rightarrow> if is_done r then F else F\<lparr>abort_q := abort_q F @ [sid]\<rparr>
      | None \<Rightarrow> F)"

text \<open>
  How a waiting \<open>complete_detail\<close> ends: on a timeout it asks for an abort, raises and gives the slot
  back; otherwise it raises the request's error or returns its text, reason and length.
\<close>

definition http_wait ::
  "('c, 'f, 'i, 'g, 't) env \<Rightarrow> nat \<Rightarrow> ('c, 'f, 'g, 't) facade
    \<Rightarrow> (('c, 'f, 'g, 't) facade, 't \<times> reason \<times> int \<times> int) result" where
  "http_wait E i F =
     (let r = reqs F ! i in
      if \<not> is_done r then (Inl TimeoutError, release i (request_abort i F))
      else (case r_error r of
              Some e \<Rightarrow> (Inl e, release i F)
            | None \<Rightarrow>
                (Inr (decode E (ids r), (case r_reason r of Some w \<Rightarrow> w | None \<Rightarrow> Length),
                      (case prompt_ids r of Some p \<Rightarrow> int (length p) | None \<Rightarrow> 0),
                      int (length (ids r))), F)))"

text \<open>\<open>_exclusive\<close> does the same without asking for an abort.\<close>

definition http_wait_exclusive ::
  "nat \<Rightarrow> ('c, 'f, 'g, 't) facade \<Rightarrow> (('c, 'f, 'g, 't) facade, 't option) result" where
  "http_wait_exclusive i F =
     (let r = reqs F ! i in
      if \<not> is_done r then (Inl TimeoutError, release i F)
      else (case r_error r of
              Some e \<Rightarrow> (Inl e, release i F)
            | None \<Rightarrow> (Inr (result r), F)))"

text \<open>The \<open>finally\<close> blocks of the two stream iterators.\<close>

definition stream_close :: "nat \<Rightarrow> ('c, 'f, 'g, 't) facade \<Rightarrow> ('c, 'f, 'g, 't) facade" where
  "stream_close i F = (if is_done (reqs F ! i) then F else release i (request_abort i F))"

definition text_stream_close :: "nat \<Rightarrow> ('c, 'f, 'g, 't) facade \<Rightarrow> ('c, 'f, 'g, 't) facade" where
  "text_stream_close i F = (if is_done (reqs F ! i) then F else release i F)"

section \<open>The executor thread\<close>

definition do_reap :: "('c, 'f, 'g, 't) facade \<Rightarrow> ('c, 'f, 'g, 't) facade" where
  "do_reap F = F\<lparr>batched := snd (reap (batched F))\<rparr>"

definition drain_abort ::
  "('c, 'f, 'i, 'g, 't) env \<Rightarrow> ('c, 'f, 'g, 't) facade \<Rightarrow> ('c, 'f, 'g, 't) facade" where
  "drain_abort E F =
     (case abort_q F of
        [] \<Rightarrow> F
      | sid # rest \<Rightarrow> with_engine (snd (abort E sid (batched F))) (F\<lparr>abort_q := rest\<rparr>))"

definition drain_submit ::
  "('c, 'f, 'i, 'g, 't) env \<Rightarrow> 't \<Rightarrow> ('c, 'f, 'g, 't) facade \<Rightarrow> ('c, 'f, 'g, 't) facade" where
  "drain_submit E blank F =
     (case submit_q F of
        [] \<Rightarrow> F
      | (i, n, params) # rest \<Rightarrow>
          let F1 = F\<lparr>submit_q := rest\<rparr> in
          (case submit E blank n params (Some SinkWithFail) (prompt_ids (reqs F ! i)) (batched F) of
             (Inl e, e1) \<Rightarrow> fail i e (with_engine e1 F1)
           | (Inr sid, e1) \<Rightarrow>
               (put_req i ((reqs F ! i)\<lparr>r_seq_id := Some sid\<rparr>) (with_engine e1 F1))
                 \<lparr>sink_of := dset sid i (sink_of F)\<rparr>))"

text \<open>What an exclusive job did: its value, the deltas it yielded, or what it raised.\<close>

datatype 't job_outcome =
    JobResult 't "reason option"
  | JobStream "'t list" "reason option"
  | JobRaised "'t list" py_error

definition run_job :: "nat \<Rightarrow> 't job_outcome \<Rightarrow> ('c, 'f, 'g, 't) facade \<Rightarrow> ('c, 'f, 'g, 't) facade" where
  "run_job i out F =
     (let r = reqs F ! i in
      case out of
        JobResult v why \<Rightarrow>
          release i (put_req i (r\<lparr>result := Some v,
            r_reason := Some (case why of Some w \<Rightarrow> w | None \<Rightarrow> Stop), is_done := True\<rparr>) F)
      | JobStream ds why \<Rightarrow>
          on_finish i (case why of Some w \<Rightarrow> w | None \<Rightarrow> Length)
            (put_req i (r\<lparr>q := q r @ map TokText ds\<rparr>) F)
      | JobRaised ds e \<Rightarrow> fail i e (put_req i (r\<lparr>q := q r @ map TokText ds\<rparr>) F))"

definition drain_exclusive ::
  "'t job_outcome \<Rightarrow> ('c, 'f, 'g, 't) facade \<Rightarrow> ('c, 'f, 'g, 't) facade" where
  "drain_exclusive out F =
     (case excl_q F of [] \<Rightarrow> F | i # rest \<Rightarrow> run_job i out (F\<lparr>excl_q := rest\<rparr>))"

fun fail_sinks :: "int list \<Rightarrow> py_error \<Rightarrow> ('c, 'f, 'g, 't) facade \<Rightarrow> ('c, 'f, 'g, 't) facade" where
  "fail_sinks [] e F = F"
| "fail_sinks (sid # sids) e F =
     fail_sinks sids e (case dget (sink_of F) sid of None \<Rightarrow> F | Some i \<Rightarrow> fail i e F)"

fun abort_seqs ::
  "('c, 'f, 'i, 'g, 't) env \<Rightarrow> int list \<Rightarrow> ('c, 'f, 'g, 't) facade \<Rightarrow> ('c, 'f, 'g, 't) facade" where
  "abort_seqs E [] F = F"
| "abort_seqs E (sid # sids) F = abort_seqs E sids (with_engine (snd (abort E sid (batched F))) F)"

definition fail_all_batched ::
  "('c, 'f, 'i, 'g, 't) env \<Rightarrow> py_error \<Rightarrow> ('c, 'f, 'g, 't) facade \<Rightarrow> ('c, 'f, 'g, 't) facade" where
  "fail_all_batched E e F =
     (let sids = dkeys (seqs (batched F)) in do_reap (abort_seqs E sids (fail_sinks sids e F)))"

definition step_batch ::
  "('c, 'f::linordered_field, 'i, 'g, 't) env \<Rightarrow> ('c, 'f, 'g, 't) facade \<Rightarrow> ('c, 'f, 'g, 't) facade" where
  "step_batch E F =
     (if queue_length (batched F) > 0 then
        (case engine_step E (batched F) of
           (Inl e, e1) \<Rightarrow> do_reap (fail_all_batched E e (with_engine e1 F))
         | (Inr _, e1) \<Rightarrow> do_reap (with_engine e1 F))
      else F)"

section \<open>Runs of the server\<close>

text \<open>
  HTTP threads and the executor interleave in any order.  The indices the threads use are those of
  requests that exist.
\<close>

inductive serve_move ::
  "('c, 'f::linordered_field, 'i, 'g, 't) env \<Rightarrow> ('c, 'f, 'g, 't) facade \<Rightarrow> ('c, 'f, 'g, 't) facade \<Rightarrow> bool"
  for E where
  submit: "serve_move E F (snd (http_submit E strm p n params F))"
| exclusive: "serve_move E F (snd (http_exclusive strm F))"
| wait: "i < length (reqs F) \<Longrightarrow> serve_move E F (snd (http_wait E i F))"
| wait_exclusive: "i < length (reqs F) \<Longrightarrow> serve_move E F (snd (http_wait_exclusive i F))"
| close: "i < length (reqs F) \<Longrightarrow> serve_move E F (stream_close i F)"
| text_close: "i < length (reqs F) \<Longrightarrow> serve_move E F (text_stream_close i F)"
| abort: "serve_move E F (drain_abort E F)"
| reap: "serve_move E F (do_reap F)"
| drain: "serve_move E F (drain_submit E p F)"
| job: "serve_move E F (drain_exclusive out F)"
| step: "serve_move E F (step_batch E F)"

section \<open>What the operations leave alone\<close>

definition toks :: "sink_event list \<Rightarrow> int list" where
  "toks evs = concat (map (\<lambda>e. case e of OnToken t \<Rightarrow> [t] | _ \<Rightarrow> []) evs)"

lemma toks_simps [simp]:
  "toks [] = []" "toks (OnToken t # evs) = t # toks evs" "toks (OnFinish r # evs) = toks evs"
  "toks (Fail e # evs) = toks evs" "toks (a @ b) = toks a @ toks b"
  by (simp_all add: toks_def)

text \<open>
  \<open>F'\<close> differs from \<open>F\<close> in the request objects and the counters only; no request loses its
  completion mark.
\<close>

definition same_shape :: "('c, 'f, 'g, 't) facade \<Rightarrow> ('c, 'f, 'g, 't) facade \<Rightarrow> bool" where
  "same_shape F F' \<longleftrightarrow> batched F' = batched F \<and> sink_of F' = sink_of F \<and> submit_q F' = submit_q F
     \<and> excl_q F' = excl_q F \<and> conf F' = conf F \<and> length (reqs F') = length (reqs F)
     \<and> (\<forall>i < length (reqs F). is_done (reqs F ! i) \<longrightarrow> is_done (reqs F' ! i))"

definition same_prompts :: "('c, 'f, 'g, 't) facade \<Rightarrow> ('c, 'f, 'g, 't) facade \<Rightarrow> bool" where
  "same_prompts F F' \<longleftrightarrow> (\<forall>i < length (reqs F). prompt_ids (reqs F' ! i) = prompt_ids (reqs F ! i))"

definition same_ids :: "('c, 'f, 'g, 't) facade \<Rightarrow> ('c, 'f, 'g, 't) facade \<Rightarrow> bool" where
  "same_ids F F' \<longleftrightarrow> (\<forall>i < length (reqs F). ids (reqs F' ! i) = ids (reqs F ! i)
     \<and> prompt_ids (reqs F' ! i) = prompt_ids (reqs F ! i))"

lemma same_shape_refl [simp]: "same_shape F F" "same_ids F F"
  by (simp_all add: same_shape_def same_ids_def)

lemma same_shape_trans: "same_shape F G \<Longrightarrow> same_shape G H \<Longrightarrow> same_shape F H"
  by (simp add: same_shape_def)

lemma same_ids_trans: "same_shape F G \<Longrightarrow> same_ids F G \<Longrightarrow> same_ids G H \<Longrightarrow> same_ids F H"
  by (simp add: same_shape_def same_ids_def)

lemma nth_update: "j < length xs \<Longrightarrow> xs[i := x] ! j = (if i = j then x else xs ! j)"
  by simp

lemma release_same: "same_shape F (release i F)" "same_ids F (release i F)"
  by (auto simp: release_def put_req_def Let_def same_shape_def same_ids_def nth_update)

lemma request_abort_same: "same_shape F (request_abort i F)" "same_ids F (request_abort i F)"
  by (auto simp: request_abort_def Let_def same_shape_def same_ids_def split: option.splits)

lemma put_req_same:
  "(is_done (reqs F ! i) \<longrightarrow> is_done r) \<Longrightarrow> same_shape F (put_req i r F)"
  "ids r = ids (reqs F ! i) \<Longrightarrow> prompt_ids r = prompt_ids (reqs F ! i) \<Longrightarrow> same_ids F (put_req i r F)"
  by (auto simp: put_req_def same_shape_def same_ids_def nth_update)

lemma on_finish_same: "same_shape F (on_finish i w F)" "same_ids F (on_finish i w F)"
  unfolding on_finish_def Let_def
  by (auto intro!: same_shape_trans[OF put_req_same(1) release_same(1)]
      same_ids_trans[OF put_req_same(1,2) release_same(2)])

lemma fail_same: "same_shape F (fail i e F)" "same_ids F (fail i e F)"
  unfolding fail_def Let_def
  by (auto intro!: same_shape_trans[OF put_req_same(1) release_same(1)]
      same_ids_trans[OF put_req_same(1,2) release_same(2)])

lemma same_ids_prompts: "same_ids F G \<Longrightarrow> same_prompts F G"
  by (simp add: same_ids_def same_prompts_def)

lemma on_token_same: "same_shape F (on_token i t F)" "same_prompts F (on_token i t F)"
  unfolding on_token_def Let_def
  by (rule put_req_same, simp) (auto simp: same_prompts_def put_req_def nth_update)

lemma call_sink_same: "same_shape F (call_sink i ev F)" "same_prompts F (call_sink i ev F)"
  by (cases ev; simp add: on_token_same on_finish_same fail_same same_ids_prompts)+

lemma call_sink_effect:
  assumes "i < length (reqs F)"
  shows "ids (reqs (call_sink i ev F) ! j)
      = ids (reqs F ! j) @ (if j = i then toks [ev] else [])"
    and "terminal ev \<Longrightarrow> is_done (reqs (call_sink i ev F) ! i)"
  using assms
  by (cases ev; auto simp: on_token_def on_finish_def fail_def release_def put_req_def Let_def
      nth_list_update)+

lemma deliver_same': "same_shape F (deliver evs F) \<and> same_prompts F (deliver evs F)"
proof (induction evs arbitrary: F)
  case (Cons e evs)
  obtain sid ev where e: "e = (sid, ev)" by force
  show ?case
  proof (cases "dget (sink_of F) sid")
    case None
    then show ?thesis using Cons.IH e by simp
  next
    case (Some i)
    note C = call_sink_same[of F i ev] and I = Cons.IH[of "call_sink i ev F"]
    have "same_prompts F (deliver evs (call_sink i ev F))"
      using C I by (simp add: same_prompts_def same_shape_def)
    with same_shape_trans[OF C(1) conjunct1[OF I]] Some e show ?thesis by simp
  qed
qed (simp add: same_prompts_def)

lemmas deliver_same = conjunct1[OF deliver_same'] conjunct2[OF deliver_same']

lemma deliver_effect:
  assumes "\<And>sid i. dget (sink_of F) sid = Some i \<Longrightarrow> i < length (reqs F)"
  shows "i < length (reqs F) \<Longrightarrow> ids (reqs (deliver evs F) ! i) = ids (reqs F ! i)
      @ toks (map snd (filter (\<lambda>(sid, ev). dget (sink_of F) sid = Some i) evs))"
    and "(sid, ev) \<in> set evs \<Longrightarrow> dget (sink_of F) sid = Some i \<Longrightarrow> terminal ev
      \<Longrightarrow> is_done (reqs (deliver evs F) ! i)"
  using assms
proof (induction evs arbitrary: F)
  case (Cons e evs)
  {
    case 1
    obtain k w where e: "e = (k, w)" by force
    show ?case
    proof (cases "dget (sink_of F) k")
      case None
      then show ?thesis using Cons.IH(1)[OF 1(1,2)] e by simp
    next
      case (Some j)
      let ?F = "call_sink j w F"
      have s: "sink_of ?F = sink_of F" "length (reqs ?F) = length (reqs F)"
        using call_sink_same(1)[of F j w] by (simp_all add: same_shape_def)
      have jl: "j < length (reqs F)" by (rule 1(2)[OF Some])
      let ?es = "map snd (filter (\<lambda>(sid, ev). dget (sink_of F) sid = Some i) evs)"
      have A: "ids (reqs (deliver evs ?F) ! i) = ids (reqs ?F ! i) @ toks ?es"
        using Cons.IH(1)[of ?F] 1 s by simp
      have B: "ids (reqs ?F ! i) = ids (reqs F ! i) @ (if i = j then toks [w] else [])"
        by (rule call_sink_effect(1)[OF jl])
      have C: "toks (w # ?es) = toks [w] @ toks ?es" using toks_simps(5)[of "[w]" ?es] by simp
      show ?thesis
      proof (cases "i = j")
        case True
        then show ?thesis using A B C Some e by simp
      next
        case False
        then show ?thesis using A B Some e by simp
      qed
    qed
  next
    case 2
    obtain k w where e: "e = (k, w)" by force
    show ?case
    proof (cases "dget (sink_of F) k")
      case None
      then show ?thesis using Cons.IH(2)[OF _ 2(2,3,4)] 2 e by auto
    next
      case (Some j)
      let ?F = "call_sink j w F"
      have s: "sink_of ?F = sink_of F" "length (reqs ?F) = length (reqs F)"
        using call_sink_same(1)[of F j w] by (simp_all add: same_shape_def)
      have jl: "j < length (reqs F)" by (rule 2(4)[OF Some])
      show ?thesis
      proof (cases "(sid, ev) \<in> set evs")
        case True
        then show ?thesis using Cons.IH(2)[of ?F] 2(2,3,4) s Some e by simp
      next
        case False
        then have "k = sid" "w = ev" using 2(1) e by auto
        then have "is_done (reqs ?F ! i)" "i = j" using call_sink_effect(2)[OF jl, of ev] Some 2 by auto
        then show ?thesis using deliver_same(1)[of ?F evs] jl s Some e by (simp add: same_shape_def)
      qed
    qed
  }
qed simp_all

section \<open>Slot accounting\<close>

definition slots_ok :: "('c, 'f, 'g, 't) facade \<Rightarrow> bool" where
  "slots_ok F \<longleftrightarrow> inflight F = int (length (filter (\<lambda>r. \<not> released r) (reqs F)))
     \<and> served F = int (length (filter released (reqs F)))
     \<and> (\<forall>r \<in> set (reqs F). is_done r \<longrightarrow> released r)
     \<and> inflight F \<le> c_max_queued (conf F) \<and> 1 \<le> c_max_queued (conf F)"

lemma filter_update:
  "i < length xs \<Longrightarrow> int (length (filter P (xs[i := x])))
     = int (length (filter P xs)) - (if P (xs ! i) then 1 else 0) + (if P x then 1 else 0)"
proof (induction xs arbitrary: i)
  case (Cons y ys)
  show ?case
  proof (cases i)
    case 0
    then show ?thesis by simp
  next
    case (Suc k)
    then show ?thesis using Cons.IH[of k] Cons.prems by (simp split: if_splits)
  qed
qed simp

text \<open>A request is updated and given back in one go, or updated without touching its marks.\<close>

lemma slots_ok_release:
  assumes ok: "slots_ok F" and i: "i < length (reqs F)" and r: "released r = released (reqs F ! i)"
  shows "slots_ok (release i (put_req i r F))"
proof -
  let ?x = "r\<lparr>released := True\<rparr>"
  have d: "\<forall>q \<in> set ((reqs F)[i := ?x]). is_done q \<longrightarrow> released q"
    using ok set_update_subset_insert[of "reqs F" i ?x] unfolding slots_ok_def by auto
  have d': "\<forall>q \<in> set ((reqs F)[i := r]). is_done q \<longrightarrow> released q" if "released r"
    using ok set_update_subset_insert[of "reqs F" i r] that unfolding slots_ok_def by auto
  show ?thesis
  proof (cases "released r")
    case True
    then have "release i (put_req i r F) = put_req i r F" using i by (simp add: release_def put_req_def)
    then show ?thesis using ok i r True d'
      by (simp add: slots_ok_def put_req_def filter_update)
  next
    case False
    then show ?thesis using ok i r d
      by (simp add: slots_ok_def release_def put_req_def filter_update)
  qed
qed

lemma slots_ok_put:
  assumes ok: "slots_ok F" and r: "released r = released (reqs F ! i)" "is_done r = is_done (reqs F ! i)"
  shows "slots_ok (put_req i r F)"
proof (cases "i < length (reqs F)")
  case True
  have "\<forall>q \<in> set ((reqs F)[i := r]). is_done q \<longrightarrow> released q"
    using ok set_update_subset_insert[of "reqs F" i r] r True unfolding slots_ok_def by auto
  then show ?thesis using ok r True by (simp add: slots_ok_def put_req_def filter_update)
next
  case False
  then show ?thesis using ok by (simp add: put_req_def list_update_beyond)
qed

lemma slots_ok_other [simp]:
  "slots_ok (F\<lparr>batched := e\<rparr>) = slots_ok F" "slots_ok (F\<lparr>sink_of := m\<rparr>) = slots_ok F"
  "slots_ok (F\<lparr>submit_q := s\<rparr>) = slots_ok F" "slots_ok (F\<lparr>excl_q := x\<rparr>) = slots_ok F"
  "slots_ok (F\<lparr>abort_q := a\<rparr>) = slots_ok F"
  by (simp_all add: slots_ok_def)

lemma put_req_id: "put_req i (reqs F ! i) F = F"
  by (simp add: put_req_def)

lemma slots_ok_release0: "slots_ok F \<Longrightarrow> i < length (reqs F) \<Longrightarrow> slots_ok (release i F)"
  using slots_ok_release[of F i "reqs F ! i"] by (simp add: put_req_id)

lemma slots_ok_abort: "slots_ok (request_abort i F) = slots_ok F"
  by (auto simp: request_abort_def Let_def split: option.splits)

lemma slots_ok_call_sink:
  assumes "slots_ok F" "i < length (reqs F)"
  shows "slots_ok (call_sink i ev F)"
proof (cases ev)
  case (OnToken t)
  then show ?thesis using assms by (auto simp: on_token_def Let_def intro: slots_ok_put)
next
  case (OnFinish w)
  then show ?thesis using assms by (auto simp: on_finish_def Let_def intro: slots_ok_release)
next
  case (Fail e)
  then show ?thesis using assms by (auto simp: fail_def Let_def intro: slots_ok_release)
qed

lemma slots_ok_deliver:
  assumes "slots_ok F" and "\<And>sid i. dget (sink_of F) sid = Some i \<Longrightarrow> i < length (reqs F)"
  shows "slots_ok (deliver evs F)"
  using assms
proof (induction evs arbitrary: F)
  case (Cons e evs)
  obtain k w where e: "e = (k, w)" by force
  show ?case
  proof (cases "dget (sink_of F) k")
    case None
    then show ?thesis using Cons e by simp
  next
    case (Some j)
    have s: "sink_of (call_sink j w F) = sink_of F" "length (reqs (call_sink j w F)) = length (reqs F)"
      using call_sink_same(1)[of F j w] by (simp_all add: same_shape_def)
    have "slots_ok (call_sink j w F)" using slots_ok_call_sink[OF Cons.prems(1) Cons.prems(2)[OF Some]] .
    from Cons.IH[OF this] Cons.prems(2) s Some e show ?thesis by simp
  qed
qed simp

section \<open>What engine operations keep of a sequence\<close>

definition linked :: "int \<Rightarrow> ('c, 'f, 'g, 't) engine \<Rightarrow> bool" where
  "linked sid eng \<longleftrightarrow> sid < next_seq eng
     \<and> (case dget (seqs eng) sid of None \<Rightarrow> events_of sid eng \<noteq> [] | Some i \<Rightarrow> i_sink i \<noteq> None)"

definition keeps :: "('c, 'f, 'g, 't) engine \<Rightarrow> ('c, 'f, 'g, 't) engine \<Rightarrow> bool" where
  "keeps eng eng' \<longleftrightarrow> (\<exists>evs. published eng' = published eng @ evs) \<and> next_seq eng \<le> next_seq eng'
     \<and> (\<forall>sid. linked sid eng \<longrightarrow> linked sid eng')"

lemma keeps_refl [simp]: "keeps eng eng"
  by (simp add: keeps_def)

lemma keeps_trans: "keeps a b \<Longrightarrow> keeps b c \<Longrightarrow> keeps a c"
  by (auto simp: keeps_def)

lemma keeps_update:
  assumes "dget (seqs eng) sid = Some i" "i_sink i' = i_sink i"
  shows "keeps eng (eng\<lparr>seqs := dset sid i' (seqs eng), sched := s, published := published eng @ evs\<rparr>)"
  using assms by (auto simp: keeps_def linked_def events_of_def dict_simps split: option.splits)

lemma keeps_put: "dget (seqs eng) sid = Some i \<Longrightarrow> i_sink i' = i_sink i \<Longrightarrow> keeps eng (put_info sid i' eng)"
  by (auto simp: put_info_def keeps_def linked_def events_of_def dict_simps split: option.splits)

lemma keeps_sched: "keeps eng (eng\<lparr>sched := s\<rparr>)"
  by (auto simp: keeps_def linked_def events_of_def split: option.splits)

lemma run_action_keeps:
  assumes "run_action E a eng = (qq, eng')"
  shows "keeps eng eng'"
proof (cases "dget (seqs eng) (a_seq a)")
  case None
  then show ?thesis using assms by (simp add: run_action_def)
next
  case (Some i)
  let ?sid = "a_seq a"
  have upd: "keeps eng (eng\<lparr>seqs := dset ?sid i' (seqs eng), sched := s, published := published eng @ evs\<rparr>)"
    "keeps eng (eng\<lparr>seqs := dset ?sid i' (seqs eng), sched := s\<rparr>)"
    "keeps eng (put_info ?sid i' eng)" if "i_sink i' = i_sink i" for i' s evs
    using keeps_update[OF Some that, where s = s and evs = evs] keeps_update[OF Some that, where s = s and evs = "[]"] keeps_put[OF Some that]
    by simp_all
  show ?thesis
  proof (cases "a_phase a")
    case Prefill
    obtain q1 i1 where f: "(if supports_incremental (model E) then fill_cache E i else (Inr (), i)) = (q1, i1)"
      by force
    then have "i_sink i1 = i_sink i"
      using fill_cache_core[of E i] by (auto simp: same_core_def split: if_splits)
    then show ?thesis using assms Some Prefill f upd
      by (auto simp: run_action_def Let_def put_info_def split: sum.splits prod.splits)
  next
    case Decode
    obtain q1 i1 where d: "decode_logits E i = (q1, i1)" by force
    have k: "i_sink i1 = i_sink i" using decode_logits_core[OF d] by (simp add: same_core_def)
    obtain q2 g where t: "\<And>l. q1 = Inr l \<Longrightarrow> sample_token E i1 l = (q2, g)" by (cases q1) (force, force)
    show ?thesis using assms Some Decode d k t upd
      by (auto simp: run_action_def Let_def put_info_def split: sum.splits prod.splits if_splits)
  qed
qed

lemma run_actions_keeps: "run_actions E as eng = (qq, eng') \<Longrightarrow> keeps eng eng'"
proof (induction "as" arbitrary: eng)
  case (Cons a as)
  obtain q1 eng1 where r: "run_action E a eng = (q1, eng1)" by force
  note k = run_action_keeps[OF r]
  show ?case
  proof (cases q1)
    case (Inl e)
    then show ?thesis using Cons.prems r k by simp
  next
    case (Inr u)
    then have "run_actions E as eng1 = (qq, eng')" using Cons.prems r by simp
    from keeps_trans[OF k Cons.IH[OF this]] show ?thesis .
  qed
qed simp

lemma engine_step_keeps: "engine_step E eng = (qq, eng') \<Longrightarrow> keeps eng eng'"
  unfolding engine_step_def
  by (auto split: sum.splits prod.splits
      intro: keeps_sched keeps_trans[OF keeps_sched] dest: run_actions_keeps)

lemma abort_keeps: "keeps eng (snd (abort E sid eng))"
proof (cases "dget (seqs eng) sid")
  case None
  then show ?thesis by (auto simp: abort_def keeps_sched split: sum.splits prod.splits bool.splits)
next
  case (Some i)
  have "i_sink (with_text E i) = i_sink i" by (simp add: with_text_def)
  note u = keeps_update[OF Some this]
  have eq: "eng\<lparr>sched := s, seqs := d, published := p\<rparr> = eng\<lparr>seqs := d, sched := s, published := p\<rparr>" for s d p
    by simp
  show ?thesis using Some u
    by (auto simp: abort_def keeps_sched eq split: sum.splits prod.splits bool.splits)
qed

lemma reap_keeps:
  assumes ok: "sinks_ok eng"
  shows "keeps eng (snd (reap eng))"
proof (cases "map fst (filter (reapable eng) (seqs eng)) = []")
  case True
  then show ?thesis by (simp add: reap_def Let_def)
next
  case False
  let ?e = "snd (reap eng)"
  have eq: "seqs ?e = filter (\<lambda>p. \<not> reapable eng p) (seqs eng)" "published ?e = published eng"
    "next_seq ?e = next_seq eng"
    using False by (simp_all add: reap_def Let_def)
  have ev: "events_of k ?e = events_of k eng" for k by (simp add: events_of_def eq(2))
  note D = sinks_okD[OF ok]
  have "linked sid ?e" if l: "linked sid eng" for sid
  proof (cases "dget (seqs eng) sid")
    case None
    then show ?thesis using l by (simp add: linked_def eq(3) ev eq(1) dget_filter[OF D(6)])
  next
    case (Some i)
    show ?thesis
    proof (cases "reapable eng (sid, i)")
      case False
      then show ?thesis using l Some by (simp add: linked_def eq(3) eq(1) dget_filter[OF D(6)])
    next
      case True
      then obtain r where "i_sink i \<noteq> None" "r \<in> set (done_reqs (sched eng))" "seq_id r = sid"
        by (auto simp: reapable_def)
      then have "closed_events (i_gen i) (events_of sid eng)" using D(3)[OF Some] D(5)[of r] by auto
      then have "events_of sid eng \<noteq> []" by (auto simp: closed_events_def)
      then show ?thesis using l Some True by (simp add: linked_def eq(3) ev eq(1) dget_filter[OF D(6)])
    qed
  qed
  then show ?thesis using eq by (simp add: keeps_def)
qed

lemma submit_keeps:
  assumes ok: "sinks_ok eng" and s: "submit E p n P snk pids eng = (qq, eng')"
  shows "keeps eng eng'" "qq = Inr sid \<Longrightarrow> sid = next_seq eng \<and> next_seq eng' = sid + 1
      \<and> published eng' = published eng \<and> (snk \<noteq> None \<longrightarrow> linked sid eng')"
proof -
  have A: "published eng' = published eng \<and> next_seq eng' = next_seq eng + 1
      \<and> (\<forall>k. k \<noteq> next_seq eng \<longrightarrow> dget (seqs eng') k = dget (seqs eng) k)
      \<and> (qq = Inr sid \<longrightarrow> sid = next_seq eng \<and> (\<exists>i. dget (seqs eng') sid = Some i \<and> i_sink i = snk))" for sid
    using s by (auto simp: submit_def Let_def dict_simps split: if_splits sum.splits prod.splits)
  moreover have "events_of k eng' = events_of k eng" for k using A by (simp add: events_of_def)
  ultimately have "linked k eng'" if "linked k eng" for k
    using that by (auto simp: linked_def split: option.splits)
  then show "keeps eng eng'" using A by (simp add: keeps_def)
  show "qq = Inr sid \<Longrightarrow> sid = next_seq eng \<and> next_seq eng' = sid + 1
      \<and> published eng' = published eng \<and> (snk \<noteq> None \<longrightarrow> linked sid eng')"
    using A[of sid] by (auto simp: linked_def)
qed

section \<open>No request is lost\<close>

text \<open>
  How a request object and its sequence in the engine hang together.  \<open>reached\<close> is the closing
  call having been made.
\<close>

definition reached :: "int \<Rightarrow> ('c, 'f, 'g, 't) engine \<Rightarrow> bool" where
  "reached sid eng \<longleftrightarrow> (\<exists>e \<in> set (events_of sid eng). terminal e)"

definition sinks_linked :: "('c, 'f, 'g, 't) facade \<Rightarrow> bool" where
  "sinks_linked F \<longleftrightarrow>
     (\<forall>sid i. dget (sink_of F) sid = Some i \<longrightarrow> i < length (reqs F) \<and> linked sid (batched F)
        \<and> ids (reqs F ! i) = toks (events_of sid (batched F))
        \<and> (reached sid (batched F) \<longrightarrow> is_done (reqs F ! i))
        \<and> (\<forall>sid'. dget (sink_of F) sid' = Some i \<longrightarrow> sid' = sid))"

text \<open>What waits in the submit queue has passed \<open>_precheck\<close>.\<close>

definition prechecked :: "('c, 'f, 'g, 't) facade \<Rightarrow> nat \<times> int \<times> 'f sampling \<Rightarrow> bool" where
  "prechecked F job \<longleftrightarrow> (case job of (i, n, P) \<Rightarrow>
     \<exists>p. prompt_ids (reqs F ! i) = Some p \<and> precheck (conf F) (int (length p)) n = Inr ())"

definition jobs_ok :: "('c, 'f, 'g, 't) facade \<Rightarrow> bool" where
  "jobs_ok F \<longleftrightarrow> (\<forall>job \<in> set (submit_q F). fst job < length (reqs F) \<and> prechecked F job)"

lemma jobs_ok_same:
  assumes ok: "jobs_ok F" and q: "set (submit_q G) \<subseteq> set (submit_q F)" and c: "conf G = conf F"
    and l: "length (reqs F) \<le> length (reqs G)"
    and p: "\<And>i. i < length (reqs F) \<Longrightarrow> prompt_ids (reqs G ! i) = prompt_ids (reqs F ! i)"
  shows "jobs_ok G"
  unfolding jobs_ok_def
proof (intro ballI)
  fix job assume "job \<in> set (submit_q G)"
  then have j: "fst job < length (reqs F)" "prechecked F job" using ok q by (auto simp: jobs_ok_def)
  then show "fst job < length (reqs G) \<and> prechecked G job"
    using p[OF j(1)] c l by (auto simp: prechecked_def)
qed

lemma jobs_ok_marks: "jobs_ok F \<Longrightarrow> same_shape F G \<Longrightarrow> same_prompts F G \<Longrightarrow> jobs_ok G"
  by (rule jobs_ok_same[of F]) (simp_all add: same_shape_def same_prompts_def)

definition queues_ok :: "('c, 'f, 'g, 't) facade \<Rightarrow> bool" where
  "queues_ok F \<longleftrightarrow> distinct (map fst (submit_q F))
     \<and> (\<forall>i \<in> set (map fst (submit_q F) @ excl_q F). i < length (reqs F))
     \<and> (\<forall>i \<in> set (map fst (submit_q F)). \<forall>sid. dget (sink_of F) sid \<noteq> Some i)
     \<and> (\<forall>i < length (reqs F). (\<forall>sid. dget (sink_of F) sid \<noteq> Some i) \<longrightarrow> ids (reqs F ! i) = [])
     \<and> (\<forall>i < length (reqs F). is_done (reqs F ! i) \<or> i \<in> set (map fst (submit_q F) @ excl_q F)
          \<or> (\<exists>sid. dget (sink_of F) sid = Some i))"

definition serve_ok :: "('c, 'f, 'g, 't) facade \<Rightarrow> bool" where
  "serve_ok F \<longleftrightarrow> sinks_ok (batched F) \<and> slots_ok F \<and> sinks_linked F \<and> queues_ok F
     \<and> jobs_ok F"

lemma sinks_linkedD:
  assumes "sinks_linked F" "dget (sink_of F) sid = Some i"
  shows "i < length (reqs F)" "linked sid (batched F)" "ids (reqs F ! i) = toks (events_of sid (batched F))"
    "reached sid (batched F) \<Longrightarrow> is_done (reqs F ! i)" "dget (sink_of F) sid' = Some i \<Longrightarrow> sid' = sid"
  using assms unfolding sinks_linked_def by blast+

text \<open>Operations that only mark requests.\<close>

lemma marks_ok:
  assumes "sinks_linked F" "queues_ok F" "same_shape F F'" "same_ids F F'"
  shows "sinks_linked F'" "queues_ok F'"
proof -
  show "sinks_linked F'"
    using assms unfolding sinks_linked_def same_shape_def same_ids_def by simp
  show "queues_ok F'"
    using assms(2,3,4) unfolding queues_ok_def same_shape_def same_ids_def by auto
qed

lemma serve_ok_marks:
  assumes "serve_ok F" "same_shape F F'" "same_ids F F'" "slots_ok F'"
  shows "serve_ok F'"
  using assms marks_ok[of F F'] jobs_ok_marks[of F F', OF _ assms(2) same_ids_prompts[OF assms(3)]]
  by (simp add: serve_ok_def same_shape_def)

text \<open>Operations of the engine, with the sink calls they make.\<close>

lemma events_of_drop:
  assumes "published e = published eng @ evs"
  shows "events_of sid e = events_of sid eng @ map snd (filter (\<lambda>(k, ev). k = sid) evs)"
  using assms by (simp add: events_of_def)

lemma with_engine_ok:
  assumes ok: "serve_ok F" and e: "sinks_ok e" "keeps (batched F) e"
  shows "serve_ok (with_engine e F)" "same_shape (F\<lparr>batched := e\<rparr>) (with_engine e F)"
proof -
  obtain evs where evs: "published e = published (batched F) @ evs" using e(2) by (auto simp: keeps_def)
  let ?G = "F\<lparr>batched := e\<rparr>" and ?F = "with_engine e F"
  have F: "?F = deliver evs ?G" by (simp add: with_engine_def evs)
  show shape: "same_shape ?G ?F" unfolding F by (rule deliver_same(1))
  have prm: "\<And>i. i < length (reqs F) \<Longrightarrow> prompt_ids (reqs ?F ! i) = prompt_ids (reqs F ! i)"
    using deliver_same(2)[of ?G evs] unfolding F by (simp add: same_prompts_def)
  have L: "sinks_linked F" and Q: "queues_ok F" and S: "slots_ok F"
    using ok by (simp_all add: serve_ok_def)
  note SL = sinks_linkedD[OF L]
  have sh: "sink_of ?F = sink_of F" "batched ?F = e" "length (reqs ?F) = length (reqs F)"
    "submit_q ?F = submit_q F" "excl_q ?F = excl_q F"
    "\<And>i. i < length (reqs F) \<Longrightarrow> is_done (reqs F ! i) \<Longrightarrow> is_done (reqs ?F ! i)"
    using shape by (simp_all add: same_shape_def)
  have ids: "ids (reqs ?F ! i) = ids (reqs F ! i)
      @ toks (map snd (filter (\<lambda>(k, ev). dget (sink_of F) k = Some i) evs))" if "i < length (reqs F)" for i
    unfolding F using deliver_effect(1)[where F = ?G and i = i and evs = evs] SL(1) that by simp
  have lk: "sinks_linked ?F"
    unfolding sinks_linked_def sh(1-3)
  proof (intro allI impI conjI)
    fix sid i assume m: "dget (sink_of F) sid = Some i"
    note s = SL(1,2,3)[OF m]
    show "i < length (reqs F)" by (rule s(1))
    show "linked sid e" using e(2) s(2) by (simp add: keeps_def)
    have "filter (\<lambda>(k, ev). dget (sink_of F) k = Some i) evs = filter (\<lambda>(k, ev). k = sid) evs"
    proof (intro filter_cong refl)
      fix p :: "int \<times> sink_event"
      have "dget (sink_of F) (fst p) = Some i \<longleftrightarrow> fst p = sid" using m SL(5)[OF m, of "fst p"] by blast
      then show "(case p of (k, ev) \<Rightarrow> dget (sink_of F) k = Some i) \<longleftrightarrow> (case p of (k, ev) \<Rightarrow> k = sid)"
        by (simp add: case_prod_beta)
    qed
    with ids[OF s(1)] s(3) show "ids (reqs ?F ! i) = toks (events_of sid e)"
      by (simp only: events_of_drop[OF evs] toks_simps(5))
    show "is_done (reqs ?F ! i)" if r: "reached sid e"
    proof (cases "reached sid (batched F)")
      case True
      then show ?thesis using SL(4)[OF m] sh(6)[OF s(1)] by blast
    next
      case False
      then obtain ev where "(sid, ev) \<in> set evs" "terminal ev"
        using r by (auto simp: reached_def events_of_drop[OF evs])
      then show ?thesis unfolding F
        using deliver_effect(2)[where F = ?G and sid = sid and ev = ev and evs = evs and i = i] SL(1) m by simp
    qed
    show "sid' = sid" if "dget (sink_of F) sid' = Some i" for sid' by (rule SL(5)[OF m that])
  qed
  have "queues_ok ?F"
    unfolding queues_ok_def sh(1,3-5)
  proof (intro conjI allI impI)
    fix i assume i: "i < length (reqs F)" "\<forall>sid. dget (sink_of F) sid \<noteq> Some i"
    then have "ids (reqs F ! i) = []" using Q by (simp add: queues_ok_def)
    moreover have "filter (\<lambda>(k, ev). dget (sink_of F) k = Some i) evs = []"
      using i(2) by (auto simp: filter_empty_conv)
    ultimately show "ids (reqs ?F ! i) = []" using ids[OF i(1)] by simp
  qed (use Q sh(6) in \<open>auto simp: queues_ok_def\<close>)
  moreover have "slots_ok ?F" unfolding F by (rule slots_ok_deliver) (use S SL(1) in simp_all)
  moreover have "jobs_ok ?F"
    by (rule jobs_ok_same[of F]) (use ok shape prm in \<open>simp_all add: serve_ok_def same_shape_def\<close>)
  ultimately show "serve_ok ?F" using lk e(1) sh(2) by (simp add: serve_ok_def)
qed

lemma serve_ok_abort_q [simp]: "serve_ok (F\<lparr>abort_q := a\<rparr>) = serve_ok F"
  by (simp add: serve_ok_def sinks_linked_def queues_ok_def jobs_ok_def prechecked_def)

lemma abort_sinks_snd: "sinks_ok eng \<Longrightarrow> sinks_ok (snd (abort E sid eng))"
  by (rule abort_sinks[OF _ prod.collapse[symmetric]])

lemma serve_ok_abort_seq:
  "serve_ok F \<Longrightarrow> serve_ok (with_engine (snd (abort E sid (batched F))) F)"
  by (rule with_engine_ok(1)) (simp_all add: abort_keeps abort_sinks_snd serve_ok_def)

lemma do_reap_ok:
  assumes "serve_ok F"
  shows "serve_ok (do_reap F)"
proof -
  have S: "sinks_ok (batched F)" using assms by (simp add: serve_ok_def)
  have "published (snd (reap (batched F))) = published (batched F)"
    by (simp add: reap_def Let_def)
  then have "do_reap F = with_engine (snd (reap (batched F))) F"
    by (simp add: do_reap_def with_engine_def)
  moreover have "serve_ok (with_engine (snd (reap (batched F))) F)"
    by (rule with_engine_ok(1)[OF assms reap_sinks[OF S prod.collapse[symmetric]] reap_keeps[OF S]])
  ultimately show ?thesis by simp
qed

lemma serve_ok_length: "serve_ok F \<Longrightarrow> dget (sink_of F) sid = Some i \<Longrightarrow> i < length (reqs F)"
  using sinks_linkedD(1) by (auto simp: serve_ok_def)

lemma fail_ok: "serve_ok F \<Longrightarrow> i < length (reqs F) \<Longrightarrow> serve_ok (fail i e F)"
  by (rule serve_ok_marks[OF _ fail_same])
    (use slots_ok_call_sink[of F i "Fail e"] in \<open>simp_all add: serve_ok_def\<close>)

lemma fail_sinks_ok: "serve_ok F \<Longrightarrow> serve_ok (fail_sinks sids e F)"
  by (induction sids arbitrary: F) (auto split: option.splits intro: fail_ok serve_ok_length)

lemma abort_seqs_ok: "serve_ok F \<Longrightarrow> serve_ok (abort_seqs E sids F)"
  by (induction sids arbitrary: F) (auto intro: serve_ok_abort_seq)

lemma step_batch_ok:
  assumes ok: "serve_ok F"
  shows "serve_ok (step_batch E F)"
proof (cases "queue_length (batched F) > 0")
  case True
  obtain r e1 where e: "engine_step E (batched F) = (r, e1)" by force
  have S: "sinks_ok (batched F)" using ok by (simp add: serve_ok_def)
  have w: "serve_ok (with_engine e1 F)"
    by (rule with_engine_ok(1)[OF ok engine_step_sinks[OF S e] engine_step_keeps[OF e]])
  show ?thesis using True e w
    by (auto simp: step_batch_def fail_all_batched_def Let_def split: sum.splits
        intro: do_reap_ok abort_seqs_ok fail_sinks_ok)
qed (use ok in \<open>simp add: step_batch_def\<close>)

lemma slots_ok_new:
  assumes "slots_ok F" "inflight F < c_max_queued (conf F)" "\<not> is_done r" "\<not> released r"
  shows "slots_ok (F\<lparr>inflight := inflight F + 1, reqs := reqs F @ [r], submit_q := sq, excl_q := xq\<rparr>)"
  using assms by (auto simp: slots_ok_def)

lemma new_req_ok:
  assumes ok: "serve_ok F" and room: "inflight F < c_max_queued (conf F)"
    and q: "sq = submit_q F @ [(length (reqs F), n, P)] \<and> xq = excl_q F
          \<and> p = Some pids \<and> precheck (conf F) (int (length pids)) n = Inr ()
      \<or> sq = submit_q F \<and> xq = excl_q F @ [length (reqs F)]"
  shows "serve_ok (F\<lparr>inflight := inflight F + 1, reqs := reqs F @ [new_req strm p], submit_q := sq, excl_q := xq\<rparr>)"
proof -
  let ?F = "F\<lparr>inflight := inflight F + 1, reqs := reqs F @ [new_req strm p], submit_q := sq, excl_q := xq\<rparr>"
  let ?n = "length (reqs F)"
  have L: "sinks_linked F" and Q: "queues_ok F" and S: "slots_ok F" and K: "sinks_ok (batched F)"
    using ok by (simp_all add: serve_ok_def)
  note SL = sinks_linkedD[OF L]
  have new: "dget (sink_of F) sid \<noteq> Some ?n" for sid using SL(1)[of sid ?n] by auto
  have old: "reqs ?F ! i = reqs F ! i" if "i < ?n" for i using that by (simp add: nth_append)
  have "sinks_linked ?F"
    unfolding sinks_linked_def
  proof (intro allI impI conjI)
    fix sid i assume "dget (sink_of ?F) sid = Some i"
    then have m: "dget (sink_of F) sid = Some i" by simp
    note s = SL[OF m]
    show "i < length (reqs ?F)" "linked sid (batched ?F)" using s(1,2) by simp_all
    show "ids (reqs ?F ! i) = toks (events_of sid (batched ?F))" unfolding old[OF s(1)] using s(3) by simp
    show "is_done (reqs ?F ! i)" if "reached sid (batched ?F)"
      unfolding old[OF s(1)] using s(4) that by simp
    show "sid' = sid" if "dget (sink_of ?F) sid' = Some i" for sid' by (rule s(5)) (use that in simp)
  qed
  moreover have "queues_ok ?F"
    unfolding queues_ok_def
  proof (intro conjI allI impI ballI)
    have "fst ` set (submit_q F) \<subseteq> {..<?n}" using Q unfolding queues_ok_def by auto
    then show "distinct (map fst (submit_q ?F))" using q Q by (auto simp: queues_ok_def)
  next
    fix i assume "i \<in> set (map fst (submit_q ?F) @ excl_q ?F)"
    moreover have "\<forall>j \<in> fst ` set (submit_q F) \<union> set (excl_q F). j < ?n"
      using Q by (auto simp: queues_ok_def)
    ultimately show "i < length (reqs ?F)" using q by (fastforce intro: less_SucI)
  next
    fix i sid assume "i \<in> set (map fst (submit_q ?F))"
    then show "dget (sink_of ?F) sid \<noteq> Some i" using q Q new by (auto simp: queues_ok_def)
  next
    fix i assume i: "i < length (reqs ?F)" "\<forall>sid. dget (sink_of ?F) sid \<noteq> Some i"
    show "ids (reqs ?F ! i) = []"
      using i Q by (cases "i = ?n") (auto simp: queues_ok_def nth_append new_req_def)
  next
    fix i assume i: "i < length (reqs ?F)"
    show "is_done (reqs ?F ! i) \<or> i \<in> set (map fst (submit_q ?F) @ excl_q ?F)
        \<or> (\<exists>sid. dget (sink_of ?F) sid = Some i)"
    proof (cases "i = ?n")
      case True
      then show ?thesis using q by auto
    next
      case False
      then have "i < ?n" using i by simp
      then have "is_done (reqs F ! i) \<or> i \<in> set (map fst (submit_q F) @ excl_q F)
          \<or> (\<exists>sid. dget (sink_of F) sid = Some i)" using Q unfolding queues_ok_def by blast
      then show ?thesis using q old[OF \<open>i < ?n\<close>] by auto
    qed
  qed
  moreover have "slots_ok ?F" using S room by (intro slots_ok_new) (simp_all add: new_req_def)
  moreover have "jobs_ok ?F"
  proof -
    have "jobs_ok (F\<lparr>inflight := inflight F + 1, reqs := reqs F @ [new_req strm p], excl_q := xq\<rparr>)"
      by (rule jobs_ok_same[of F]) (use ok in \<open>simp_all add: serve_ok_def nth_append\<close>)
    then show ?thesis using q by (auto simp: jobs_ok_def prechecked_def new_req_def)
  qed
  ultimately show ?thesis using K by (simp add: serve_ok_def)
qed

lemma http_submit_ok:
  assumes "serve_ok F"
  shows "serve_ok (snd (http_submit E strm p n P F))"
  using new_req_ok[OF assms, of "submit_q F @ [(length (reqs F), n, P)]" n P "excl_q F"] assms
  by (auto simp: http_submit_def admit_slot_def Let_def split: sum.splits)

lemma http_exclusive_ok:
  assumes "serve_ok F"
  shows "serve_ok (snd (http_exclusive strm F))"
  using new_req_ok[OF assms, of "submit_q F" _ _ "excl_q F @ [length (reqs F)]"] assms
  by (auto simp: http_exclusive_def admit_slot_def Let_def)

lemma release_ok: "serve_ok F \<Longrightarrow> i < length (reqs F) \<Longrightarrow> serve_ok (release i F)"
  by (rule serve_ok_marks[OF _ release_same]) (simp_all add: slots_ok_release0 serve_ok_def)

lemma request_abort_ok: "serve_ok F \<Longrightarrow> serve_ok (request_abort i F)"
  by (rule serve_ok_marks[OF _ request_abort_same]) (simp_all add: slots_ok_abort serve_ok_def)

lemma release_abort_ok: "serve_ok F \<Longrightarrow> i < length (reqs F) \<Longrightarrow> serve_ok (release i (request_abort i F))"
  by (rule release_ok[OF request_abort_ok])
    (use request_abort_same(1)[of F i] in \<open>simp_all add: same_shape_def\<close>)

lemma excl_pop_ok:
  assumes ok: "serve_ok F" and e: "excl_q F = i # rest"
  shows "i < length (reqs F)" "is_done (reqs G ! i) \<Longrightarrow> same_shape (F\<lparr>excl_q := rest\<rparr>) G
    \<Longrightarrow> same_ids (F\<lparr>excl_q := rest\<rparr>) G \<Longrightarrow> slots_ok G \<Longrightarrow> serve_ok G"
proof -
  have L: "sinks_linked F" and Q: "queues_ok F" and K: "sinks_ok (batched F)"
    using ok by (simp_all add: serve_ok_def)
  show i: "i < length (reqs F)" using Q e by (auto simp: queues_ok_def)
  assume d: "is_done (reqs G ! i)" and s: "same_shape (F\<lparr>excl_q := rest\<rparr>) G"
    "same_ids (F\<lparr>excl_q := rest\<rparr>) G" and S: "slots_ok G"
  have "sinks_linked G" using L s unfolding sinks_linked_def same_shape_def same_ids_def by simp
  moreover have "queues_ok G"
    unfolding queues_ok_def
  proof (intro conjI allI impI)
    fix j assume j: "j < length (reqs G)"
    show "is_done (reqs G ! j) \<or> j \<in> set (map fst (submit_q G) @ excl_q G) \<or> (\<exists>sid. dget (sink_of G) sid = Some j)"
      using j Q s d e by (cases "j = i") (auto simp: queues_ok_def same_shape_def)
  qed (use Q s e in \<open>auto simp: queues_ok_def same_shape_def same_ids_def\<close>)
  moreover have "jobs_ok G"
    by (rule jobs_ok_same[of F]) (use ok s in \<open>simp_all add: serve_ok_def same_shape_def same_ids_def\<close>)
  ultimately show "serve_ok G" using K s S by (simp add: serve_ok_def same_shape_def)
qed

lemmas slots_ok_on_finish = slots_ok_call_sink[of _ _ "OnFinish w" for w, simplified]
  and slots_ok_fail = slots_ok_call_sink[of _ _ "Fail e" for e, simplified]

lemma run_job_effect:
  assumes "i < length (reqs F)"
  shows "same_shape F (run_job i out F)" "same_ids F (run_job i out F)" "is_done (reqs (run_job i out F) ! i)"
    "slots_ok F \<Longrightarrow> slots_ok (run_job i out F)"
proof -
  let ?r = "reqs F ! i"
  have put: "same_shape F (put_req i (?r\<lparr>q := x\<rparr>) F)" "same_ids F (put_req i (?r\<lparr>q := x\<rparr>) F)"
    "i < length (reqs (put_req i (?r\<lparr>q := x\<rparr>) F))" "slots_ok F \<Longrightarrow> slots_ok (put_req i (?r\<lparr>q := x\<rparr>) F)" for x
    using assms by (auto intro!: put_req_same slots_ok_put) (simp add: put_req_def)
  show "same_shape F (run_job i out F)" "same_ids F (run_job i out F)"
    by (cases out; auto simp: run_job_def Let_def intro!: same_shape_trans[OF put_req_same(1) release_same(1)]
        same_shape_trans[OF put(1) on_finish_same(1)] same_shape_trans[OF put(1) fail_same(1)]
        same_ids_trans[OF put_req_same(1,2) release_same(2)]
        same_ids_trans[OF put(1,2) on_finish_same(2)] same_ids_trans[OF put(1,2) fail_same(2)])+
  show "is_done (reqs (run_job i out F) ! i)"
    using assms by (cases out) (auto simp: run_job_def Let_def on_finish_def fail_def release_def put_req_def)
  show "slots_ok (run_job i out F)" if "slots_ok F"
    using assms that put(3,4)
    by (cases out) (simp_all add: run_job_def Let_def slots_ok_release slots_ok_on_finish slots_ok_fail)
qed

lemma drain_exclusive_ok:
  assumes ok: "serve_ok F"
  shows "serve_ok (drain_exclusive out F)"
proof (cases "excl_q F")
  case (Cons i rest)
  let ?F = "F\<lparr>excl_q := rest\<rparr>"
  note P = excl_pop_ok[OF ok Cons]
  have i: "i < length (reqs ?F)" using P(1) by simp
  note R = run_job_effect[OF i, of out]
  have "slots_ok ?F" using ok by (simp add: serve_ok_def)
  from P(2)[OF R(3,1,2) R(4)[OF this]] show ?thesis by (simp add: drain_exclusive_def Cons)
qed (use ok in \<open>simp add: drain_exclusive_def\<close>)

lemma drain_abort_ok: "serve_ok F \<Longrightarrow> serve_ok (drain_abort E F)"
  using serve_ok_abort_seq[of "F\<lparr>abort_q := _\<rparr>"] by (auto simp: drain_abort_def split: list.splits)

lemma submit_published:
  "submit E p n P snk pids eng = (v, eng') \<Longrightarrow> published eng' = published eng"
  by (auto simp: submit_def Let_def split: if_splits sum.splits prod.splits)

lemma drain_submit_ok:
  assumes ok: "serve_ok F"
  shows "serve_ok (drain_submit E p F)"
proof (cases "submit_q F")
  case (Cons job rest)
  obtain i n P where job: "job = (i, n, P)" by (cases job) auto
  let ?e = "batched F"
  have L: "sinks_linked F" and Q: "queues_ok F" and S: "slots_ok F" and K: "sinks_ok ?e"
    using ok by (simp_all add: serve_ok_def)
  note SL = sinks_linkedD[OF L]
  have n: "1 \<le> n"
    using ok Cons job by (auto simp: serve_ok_def jobs_ok_def prechecked_def precheck_def split: if_splits)
  have i: "i < length (reqs F)" "\<And>sid. dget (sink_of F) sid \<noteq> Some i" "i \<notin> set (map fst rest)" "ids (reqs F ! i) = []"
    using Q Cons job by (auto simp: queues_ok_def)
  obtain v e1 where sub: "submit E p n P (Some SinkWithFail) (prompt_ids (reqs F ! i)) ?e = (v, e1)" by force
  have K1: "sinks_ok e1" by (rule submit_sinks[OF K n sub])
  have pub: "published e1 = published ?e" by (rule submit_published[OF sub])
  note kp = submit_keeps[OF K sub]
  have ev: "events_of k e1 = events_of k ?e" for k by (simp add: events_of_def pub)
  let ?B = "F\<lparr>submit_q := rest, batched := e1\<rparr>"
  have wi: "with_engine e1 (F\<lparr>submit_q := rest\<rparr>) = ?B" by (simp add: with_engine_def pub)
  have lk: "linked k e1" if "linked k ?e" for k using kp(1) that by (simp add: keeps_def)
  have LB: "sinks_linked ?B"
    using L lk unfolding sinks_linked_def by (auto simp: ev reached_def)
  have SB: "slots_ok ?B" using S by simp
  show ?thesis
  proof (cases v)
    case (Inl e)
    let ?G = "fail i e ?B"
    have s: "same_shape ?B ?G" "same_ids ?B ?G" by (rule fail_same)+
    have d: "is_done (reqs ?G ! i)" using i(1) call_sink_effect(2)[of i ?B "Fail e"] by simp
    have "sinks_linked ?G" using LB s unfolding sinks_linked_def same_shape_def same_ids_def by simp
    moreover have "queues_ok ?G"
      unfolding queues_ok_def
    proof (intro conjI allI impI)
      fix j assume j: "j < length (reqs ?G)"
      show "is_done (reqs ?G ! j) \<or> j \<in> set (map fst (submit_q ?G) @ excl_q ?G) \<or> (\<exists>sid. dget (sink_of ?G) sid = Some j)"
        using j Q s d Cons job by (cases "j = i") (auto simp: queues_ok_def same_shape_def)
    qed (use Q s Cons in \<open>auto simp: queues_ok_def same_shape_def same_ids_def\<close>)
    moreover have "slots_ok ?G" by (rule slots_ok_fail[OF SB]) (use i(1) in simp)
    moreover have "jobs_ok ?G"
      by (rule jobs_ok_same[of F]) (use ok s Cons in \<open>auto simp: serve_ok_def same_shape_def same_ids_def\<close>)
    ultimately have "serve_ok ?G" using K1 s by (simp add: serve_ok_def same_shape_def)
    then show ?thesis using Cons job sub Inl wi by (simp add: drain_submit_def Let_def)
  next
    case (Inr sid)
    let ?r = "(reqs F ! i)\<lparr>r_seq_id := Some sid\<rparr>"
    let ?G = "(put_req i ?r ?B)\<lparr>sink_of := dset sid i (sink_of F)\<rparr>"
    have sd: "sid = next_seq ?e" "linked sid e1" using kp(2)[OF Inr] by blast+
    have e0: "events_of sid e1 = []" using sinks_okD(4)[OF K, of sid] sd(1) by (simp add: ev)
    have get: "dget (sink_of ?G) k = (if k = sid then Some i else dget (sink_of F) k)" for k
      by (simp add: dict_simps)
    have rq: "length (reqs ?G) = length (reqs F)" "batched ?G = e1" "submit_q ?G = rest" "excl_q ?G = excl_q F"
      by (simp_all add: put_req_def)
    have rr: "is_done (reqs ?G ! j) = is_done (reqs F ! j)" "ids (reqs ?G ! j) = ids (reqs F ! j)"
      if "j < length (reqs F)" for j
      using that i(1) by (auto simp: put_req_def nth_list_update)
    have "sinks_linked ?G"
      unfolding sinks_linked_def
    proof (intro allI impI conjI)
      fix k j assume m: "dget (sink_of ?G) k = Some j"
      have c: "k = sid \<and> j = i \<or> k \<noteq> sid \<and> dget (sink_of F) k = Some j" using m get by (auto split: if_splits)
      have jl: "j < length (reqs F)" using c i(1) SL(1) by auto
      show "j < length (reqs ?G)" using jl rq by simp
      show "linked k (batched ?G)" using c sd(2) lk SL(2) rq by auto
      show "ids (reqs ?G ! j) = toks (events_of k (batched ?G))"
        using c rr(2)[OF jl] i(4) e0 SL(3)[of k j] rq ev by auto
      show "is_done (reqs ?G ! j)" if "reached k (batched ?G)"
        using c that rr(1)[OF jl] e0 SL(4)[of k j] rq ev by (auto simp: reached_def)
      show "k' = k" if "dget (sink_of ?G) k' = Some j" for k'
        using c that get i(2) SL(5)[of k j k'] by (auto split: if_splits)
    qed
    moreover have "queues_ok ?G"
      unfolding queues_ok_def rq
    proof (intro conjI allI impI ballI)
      show "distinct (map fst rest)" using Q Cons by (simp add: queues_ok_def)
    next
      fix j assume "j \<in> set (map fst rest @ excl_q F)"
      then show "j < length (reqs F)" using Q Cons by (auto simp: queues_ok_def)
    next
      fix j k assume j: "j \<in> set (map fst rest)"
      then have "j \<noteq> i" using i(3) by blast
      then show "dget (sink_of ?G) k \<noteq> Some j" using j get Q Cons by (auto simp: queues_ok_def)
    next
      fix j assume j: "j < length (reqs F)" "\<forall>k. dget (sink_of ?G) k \<noteq> Some j"
      then have "\<forall>k. dget (sink_of F) k \<noteq> Some j" "j \<noteq> i"
        using get sinks_linkedD(2)[OF L, of sid j] sd(1) by (auto simp: linked_def split: if_splits)
      then show "ids (reqs ?G ! j) = []" using rr(2)[OF j(1)] Q j(1) by (simp add: queues_ok_def)
    next
      fix j assume j: "j < length (reqs F)"
      have "is_done (reqs F ! j) \<or> j \<in> set (map fst (submit_q F) @ excl_q F) \<or> (\<exists>k. dget (sink_of F) k = Some j)"
        using Q j by (simp add: queues_ok_def)
      then consider "is_done (reqs F ! j)" | "j = i" | "j \<in> set (map fst rest @ excl_q F)"
        | k where "dget (sink_of F) k = Some j" using Cons job by auto
      then show "is_done (reqs ?G ! j) \<or> j \<in> set (map fst rest @ excl_q F) \<or> (\<exists>k. dget (sink_of ?G) k = Some j)"
      proof cases
        case 4
        then have "k \<noteq> sid" using SL(2)[OF 4] sd(1) by (auto simp: linked_def)
        then have "dget (sink_of ?G) k = Some j" using 4 get by simp
        then show ?thesis by blast
      next
        case 2
        then have "dget (sink_of ?G) sid = Some j" using get by simp
        then show ?thesis by blast
      next
        case 1
        then show ?thesis using rr(1)[OF j] by simp
      qed blast
    qed
    moreover have "slots_ok ?G" using slots_ok_put[OF SB, of ?r i] by simp
    moreover have "jobs_ok ?G"
      by (rule jobs_ok_same[of F])
        (use ok Cons in \<open>auto simp: serve_ok_def put_req_def nth_update\<close>)
    ultimately have "serve_ok ?G" using K1 rq by (simp add: serve_ok_def)
    then show ?thesis using Cons job sub Inr wi by (simp add: drain_submit_def Let_def)
  qed
qed (use ok in \<open>simp add: drain_submit_def\<close>)

lemma serve_move_ok: "serve_move E F F' \<Longrightarrow> serve_ok F \<Longrightarrow> serve_ok F'"
proof (induction rule: serve_move.induct)
  case (submit F strm p n params)
  then show ?case by (rule http_submit_ok)
next
  case (exclusive F strm)
  then show ?case by (rule http_exclusive_ok)
next
  case (wait i F)
  then show ?case by (auto simp: http_wait_def Let_def split: option.splits intro: release_ok release_abort_ok)
next
  case (wait_exclusive i F)
  then show ?case by (auto simp: http_wait_exclusive_def Let_def split: option.splits intro: release_ok)
next
  case (close i F)
  then show ?case by (auto simp: stream_close_def intro: release_abort_ok)
next
  case (text_close i F)
  then show ?case by (auto simp: text_stream_close_def intro: release_ok)
next
  case (abort F)
  then show ?case by (rule drain_abort_ok)
next
  case (reap F)
  then show ?case by (rule do_reap_ok)
next
  case (drain F p)
  then show ?case by (rule drain_submit_ok)
next
  case (job F out)
  then show ?case by (rule drain_exclusive_ok)
next
  case (step F)
  then show ?case by (rule step_batch_ok)
qed

lemma serve_moves_ok: "(serve_move E)\<^sup>*\<^sup>* F F' \<Longrightarrow> serve_ok F \<Longrightarrow> serve_ok F'"
  by (induction rule: rtranclp_induct) (auto intro: serve_move_ok)

lemma serve_config_bounds:
  assumes "serve_config_of A mc plan = Inr C"
  shows "1 \<le> c_block C" "1 \<le> c_chunk C" "1 \<le> c_conc C" "1 \<le> c_state C" "1 \<le> c_kv C" "c_kv C \<le> hard_max_blocks"
    "1 \<le> c_max_queued C" "c_max_ctx C = mc"
  using assms by (auto simp: serve_config_of_def rbind_Inr_iff Let_def hard_max_blocks_def)

text \<open>The variables the constructor reads: those whose argument is missing or, but for the queue length, zero.\<close>

definition consulted :: "serve_args \<Rightarrow> string list" where
  "consulted A =
     map fst (filter snd
       [(''SLLM_BLOCK_SIZE'', arg_block A \<in> {None, Some 0}), (''SLLM_CHUNK_SIZE'', arg_chunk A \<in> {None, Some 0}),
        (''SLLM_MAX_CONCURRENT'', arg_conc A \<in> {None, Some 0}), (''SLLM_STATE_CAPACITY'', arg_state A \<in> {None, Some 0}),
        (''SLLM_MAX_QUEUED'', arg_queued A = None), (''SLLM_SERVE_TIMEOUT'', arg_timeout A \<in> {None, Some 0})])"

definition readable :: "serve_args \<Rightarrow> string \<Rightarrow> bool" where
  "readable A key \<longleftrightarrow> (case env_get (environ A) (env_lines A) (lit key) None of
     Some (c # v) \<Rightarrow> (\<exists>i. int_of_str (c # v) = Inr i) | _ \<Rightarrow> True)"

lemma int_of_str_error: "int_of_str s = Inl e \<Longrightarrow> e = ValueError"
  by (auto simp: int_of_str_def Let_def split: option.splits)

lemma env_int_cases: "if readable A key then \<exists>i. env_int A key d = Inr i else env_int A key d = Inl ValueError"
  by (auto simp: readable_def env_int_def env_get_int_def split: option.splits list.splits)
    (metis int_of_str_error sumE)

lemma consulted_iff:
  "list_all (readable A) (consulted A) \<longleftrightarrow>
     (arg_block A \<in> {None, Some 0} \<longrightarrow> readable A ''SLLM_BLOCK_SIZE'')
   \<and> (arg_chunk A \<in> {None, Some 0} \<longrightarrow> readable A ''SLLM_CHUNK_SIZE'')
   \<and> (arg_conc A \<in> {None, Some 0} \<longrightarrow> readable A ''SLLM_MAX_CONCURRENT'')
   \<and> (arg_state A \<in> {None, Some 0} \<longrightarrow> readable A ''SLLM_STATE_CAPACITY'')
   \<and> (arg_queued A = None \<longrightarrow> readable A ''SLLM_MAX_QUEUED'')
   \<and> (arg_timeout A \<in> {None, Some 0} \<longrightarrow> readable A ''SLLM_SERVE_TIMEOUT'')"
proof -
  have "list_all P (map fst (filter snd xs)) \<longleftrightarrow> list_all (\<lambda>x. snd x \<longrightarrow> P (fst x)) xs" for P and xs :: "(string \<times> bool) list"
    by (induction xs) auto
  then show ?thesis by (simp only: consulted_def list.pred_inject fst_conv snd_conv simp_thms)
qed

text \<open>A computation that can only fail with one error, and does unless a condition holds.\<close>

definition fails_unless :: "bool \<Rightarrow> py_error \<Rightarrow> py_error + 'a \<Rightarrow> bool" where
  "fails_unless b e r \<longleftrightarrow> (if b then \<exists>x. r = Inr x else r = Inl e)"

lemma fails_unless_rbind:
  assumes "fails_unless b e m" "\<And>x. fails_unless c e (f x)"
  shows "fails_unless (b \<and> c) e (rbind m f)"
  using assms by (cases m) (auto simp: fails_unless_def split: if_splits)

lemma fails_unless_map: "fails_unless b e m \<Longrightarrow> fails_unless b e (rbind m (\<lambda>x. Inr (f x)))"
  by (cases m) (auto simp: fails_unless_def split: if_splits)

lemma env_int_fails: "fails_unless (readable A key) ValueError (env_int A key d)"
  using env_int_cases [of A key d] by (simp add: fails_unless_def)

lemma or_env_fails: "fails_unless (x \<in> {None, Some 0} \<longrightarrow> readable A key) ValueError (or_env A x key d)"
  using env_int_fails [of A key d] by (auto simp: or_env_def fails_unless_def split: option.splits)

lemma queued_fails:
  "fails_unless (x = None \<longrightarrow> readable A key) ValueError (case x of Some v \<Rightarrow> Inr v | None \<Rightarrow> env_int A key d)"
  using env_int_fails [of A key d] by (auto simp: fails_unless_def split: option.splits)

lemma timeout_fails:
  "fails_unless (x \<in> {None, Some (0 :: rat)} \<longrightarrow> readable A key) ValueError
     (case x of Some t \<Rightarrow> if t \<noteq> 0 then Inr t else rbind (env_int A key d) (\<lambda>v. Inr (of_int v))
              | None \<Rightarrow> rbind (env_int A key d) (\<lambda>v. Inr (of_int v)))"
  using fails_unless_map [OF env_int_fails, of A key d of_int]
  by (cases x) (auto simp: fails_unless_def)

lemma serve_config_fails: "fails_unless (list_all (readable A) (consulted A)) ValueError (serve_config_of A mc plan)"
  unfolding consulted_iff serve_config_of_def Let_def
  by (rule fails_unless_rbind [OF or_env_fails])+
    (rule fails_unless_rbind [OF queued_fails], rule fails_unless_map, rule timeout_fails)

lemma facade_init_eq:
  assumes "facade_init A mc plan = Inr F"
  shows "serve_config_of A mc plan = Inr (conf F)" "reqs F = []" "sink_of F = []" "submit_q F = []"
    "excl_q F = []" "abort_q F = []" "inflight F = 0" "served F = 0"
    "engine_init (c_kv (conf F)) (c_state (conf F)) (c_block (conf F)) (c_chunk (conf F)) (c_conc (conf F))
       = Inr (batched F)"
  using assms by (auto simp: facade_init_def rbind_Inr_iff)

lemma facade_init_ok: "facade_init A mc plan = Inr F \<Longrightarrow> serve_ok F"
  using facade_init_eq[of A mc plan F] serve_config_bounds(7)[of A mc plan "conf F"] engine_init_sinks
  by (simp add: serve_ok_def slots_ok_def sinks_linked_def queues_ok_def jobs_ok_def)

lemma facade_init_cases:
  "if list_all (readable A) (consulted A) then \<exists>F :: ('c, 'f, 'g, 't) facade. facade_init A mc plan = Inr F
   else (facade_init A mc plan :: ('c, 'f, 'g, 't) facade pure_result) = Inl ValueError"
proof (cases "list_all (readable A) (consulted A)")
  case False
  with serve_config_fails [of A mc plan] show ?thesis by (simp add: facade_init_def fails_unless_def)
next
  case True
  then obtain C where C: "serve_config_of A mc plan = Inr C"
    using serve_config_fails [of A mc plan] by (auto simp: fails_unless_def)
  show ?thesis using True C serve_config_bounds [OF C]
    by (simp add: facade_init_def engine_init_def sched_init_def coord_init_def pool_init_def)
qed

section \<open>Properties\<close>

text \<open>
  C14: the in-flight slots are accounted for.  Whatever the interleaving of HTTP threads and the
  executor, with failures, timeouts, disconnects and aborts, \<open>_inflight\<close> is the number of requests
  that have not been given back, \<open>_served\<close> the number that have, each is given back once, a
  completed one always is, and the bound \<open>max_queued\<close> holds.
\<close>

theorem slots_are_accounted:
  assumes "facade_init A mc plan = Inr F0" and "(serve_move E)\<^sup>*\<^sup>* F0 F"
  shows "inflight F = int (length (filter (\<lambda>r. \<not> released r) (reqs F)))
    \<and> inflight F + served F = int (length (reqs F))
    \<and> 0 \<le> inflight F \<and> inflight F \<le> c_max_queued (conf F)
    \<and> (\<forall>r \<in> set (reqs F). is_done r \<longrightarrow> released r)"
proof -
  have "slots_ok F" using serve_moves_ok[OF assms(2) facade_init_ok[OF assms(1)]] by (simp add: serve_ok_def)
  with sum_length_filter_compl[of released "reqs F"] show ?thesis
    unfolding slots_ok_def by (intro conjI) auto
qed

text \<open>
  C15: no request is lost.  Every request is answered, or still in one of the two queues, or waiting
  or running in the scheduler; its ids are exactly the tokens its sequence published; and once the
  queues and the scheduler are empty every request is answered and no slot is in use.
\<close>

theorem no_request_is_lost:
  assumes "facade_init A mc plan = Inr F0" and "(serve_move E)\<^sup>*\<^sup>* F0 F"
  shows "(\<forall>i < length (reqs F). is_done (reqs F ! i)
          \<or> i \<in> set (map fst (submit_q F) @ excl_q F)
          \<or> (\<exists>sid r. dget (sink_of F) sid = Some i \<and> live (sched (batched F)) sid r))
    \<and> (\<forall>sid i. dget (sink_of F) sid = Some i
          \<longrightarrow> ids (reqs F ! i) = toks (events_of sid (batched F)))
    \<and> (submit_q F = [] \<and> excl_q F = [] \<and> queue_length (batched F) = 0
          \<longrightarrow> (\<forall>r \<in> set (reqs F). is_done r) \<and> inflight F = 0)"
proof -
  have ok: "serve_ok F" by (rule serve_moves_ok[OF assms(2) facade_init_ok[OF assms(1)]])
  have K: "sinks_ok (batched F)" and L: "sinks_linked F" and Q: "queues_ok F" and S: "slots_ok F"
    using ok by (simp_all add: serve_ok_def)
  have fin: "is_done (reqs F ! i)" if m: "dget (sink_of F) sid = Some i"
    and dead: "\<And>r. \<not> live (sched (batched F)) sid r" for sid i
  proof -
    have lk: "linked sid (batched F)" by (rule sinks_linkedD(2)[OF L m])
    have "\<exists>ts. closed_events ts (events_of sid (batched F))"
    proof (cases "dget (seqs (batched F)) sid")
      case None
      then show ?thesis using sinks_okD(7)[OF K None] lk by (simp add: linked_def)
    next
      case (Some j)
      then show ?thesis using sinks_okD(3)[OF K Some dead] lk by (auto simp: linked_def)
    qed
    then have "reached sid (batched F)" by (auto simp: closed_events_def reached_def)
    then show ?thesis by (rule sinks_linkedD(4)[OF L m])
  qed
  have one: "is_done (reqs F ! i) \<or> i \<in> set (map fst (submit_q F) @ excl_q F)
          \<or> (\<exists>sid r. dget (sink_of F) sid = Some i \<and> live (sched (batched F)) sid r)"
    if "i < length (reqs F)" for i
    using Q that fin unfolding queues_ok_def by blast
  moreover have "(\<forall>r \<in> set (reqs F). is_done r) \<and> inflight F = 0"
    if idle: "submit_q F = []" "excl_q F = []" "queue_length (batched F) = 0"
  proof -
    have d: "\<forall>r \<in> set (reqs F). is_done r"
    proof
      fix r assume "r \<in> set (reqs F)"
      then obtain i where i: "i < length (reqs F)" "r = reqs F ! i" by (auto simp: in_set_conv_nth)
      have "\<not> live (sched (batched F)) sid q" for sid q
        using idle(3) by (simp add: queue_length_def live_def)
      then show "is_done r" using one[OF i(1)] idle i(2) by simp
    qed
    then have "filter (\<lambda>r. \<not> released r) (reqs F) = []"
      using S by (auto simp: slots_ok_def filter_empty_conv)
    then show ?thesis using d S by (simp add: slots_ok_def)
  qed
  ultimately show ?thesis using sinks_linkedD(3)[OF L] by blast
qed

section \<open>Admitted requests fit\<close>

lemma same_config_refl [simp]: "same_config s s"
  by (simp add: same_config_def)

lemma same_config_trans: "same_config a b \<Longrightarrow> same_config b c \<Longrightarrow> same_config a c"
  by (simp add: same_config_def)

lemma advance_config:
  assumes "advance a eos s = (v, s')"
  shows "same_config s s'"
proof (cases "dget (running s) (a_seq a)")
  case None
  then show ?thesis using assms by (simp add: advance_def)
next
  case (Some r)
  let ?r = "progressed a r"
  obtain w c where f: "free_sequence (seq_id ?r) (coord s) = (w, c)" by force
  note K = coord_capacity_kept(2)[OF f]
  show ?thesis using assms Some f K
    by (auto simp: advance_def finish_def Let_def same_config_def split: if_splits sum.splits)
qed

lemma run_action_config:
  assumes "run_action E a eng = (v, eng')"
  shows "same_config (sched eng) (sched eng')"
proof -
  have "sched eng' = sched eng \<or> (\<exists>eos w. advance a eos (sched eng) = (w, sched eng'))"
    using assms by (auto simp: run_action_def Let_def put_info_def
        split: option.splits if_splits sum.splits prod.splits)
  then show ?thesis using advance_config by auto
qed

lemma run_actions_config: "run_actions E as eng = (v, eng') \<Longrightarrow> same_config (sched eng) (sched eng')"
proof (induction "as" arbitrary: eng)
  case (Cons a as)
  obtain v1 eng1 where r: "run_action E a eng = (v1, eng1)" by force
  then show ?case using Cons run_action_config[OF r]
    by (auto intro: same_config_trans split: sum.splits)
qed simp

lemma engine_step_config:
  assumes ok: "sched_ok (sched eng)" and e: "engine_step E eng = (v, eng')"
  shows "same_config (sched eng) (sched eng')"
proof -
  obtain adm skp s' where P: "pump (sched eng) = (Inr (map seq_id adm), s')"
    "pumped (sched eng) (waiting (sched eng)) s' adm skp"
    by (rule pump_ok[OF ok])
  have c: "same_config (sched eng) s'" using P(2) by (simp add: pumped_def same_config_def)
  obtain w eng1 where R: "run_actions E (schedule s') (eng\<lparr>sched := s'\<rparr>) = (w, eng1)" by force
  show ?thesis
    using e P(1) R same_config_trans[OF c] run_actions_config[OF R]
    by (auto simp: engine_step_def sched_step_def split: sum.splits)
qed

lemma abort_config: "same_config (sched eng) (sched (snd (abort E sid eng)))"
proof -
  obtain w c where f: "free_sequence sid (coord (sched eng)) = (w, c)" by force
  have "same_config (sched eng) (snd (sched_abort sid (sched eng)))"
    using coord_capacity_kept(2)[OF f] f
    by (auto simp: sched_abort_def Let_def same_config_def split: option.splits list.splits sum.splits)
  then show ?thesis
    by (auto simp: abort_def split: sum.splits prod.splits bool.splits option.splits)
qed

lemma submit_config: "same_config (sched eng) (sched (snd (submit E p n P snk pids eng)))"
  by (auto simp: submit_def sched_add_def Let_def same_config_def split: sum.splits prod.splits)

text \<open>The scheduler of the facade keeps the sizes the constructor chose.\<close>

definition sized :: "serve_config \<Rightarrow> ('c, 'f, 'g, 't) facade \<Rightarrow> bool" where
  "sized C F \<longleftrightarrow> conf F = C \<and> block_size (sched (batched F)) = c_block (conf F)
     \<and> capacity (kv (coord (sched (batched F)))) = c_kv (conf F)
     \<and> capacity (state (coord (sched (batched F)))) = c_state (conf F)"

lemma sized_same:
  "sized C F \<Longrightarrow> conf G = conf F \<Longrightarrow> same_config (sched (batched F)) (sched (batched G)) \<Longrightarrow> sized C G"
  by (simp add: sized_def same_config_def)

lemma sized_shape: "sized C F \<Longrightarrow> same_shape F G \<Longrightarrow> sized C G"
  by (simp add: sized_def same_shape_def)

lemma sized_engine:
  assumes "sized C F" "same_config (sched (batched F)) (sched e)"
  shows "sized C (with_engine e F)"
proof -
  have "sized C (F\<lparr>batched := e\<rparr>)" using assms by (simp add: sized_def same_config_def)
  then show ?thesis unfolding with_engine_def by (rule sized_shape[OF _ deliver_same(1)])
qed

lemma sized_queues [simp]:
  "sized C (F\<lparr>submit_q := a\<rparr>) = sized C F" "sized C (F\<lparr>excl_q := b\<rparr>) = sized C F"
  "sized C (F\<lparr>abort_q := c\<rparr>) = sized C F" "sized C (F\<lparr>sink_of := d\<rparr>) = sized C F"
  "sized C (F\<lparr>reqs := rs\<rparr>) = sized C F" "sized C (F\<lparr>inflight := n\<rparr>) = sized C F"
  by (simp_all add: sized_def)

lemma sized_do_reap: "sized C F \<Longrightarrow> sized C (do_reap F)"
  by (rule sized_same) (auto simp: do_reap_def reap_def Let_def same_config_def)

lemma sized_fail_sinks: "sized C F \<Longrightarrow> sized C (fail_sinks sids e F)"
  by (induction sids arbitrary: F) (auto split: option.splits intro: sized_shape[OF _ fail_same(1)])

lemma sized_abort_seqs: "sized C F \<Longrightarrow> sized C (abort_seqs E sids F)"
  by (induction sids arbitrary: F) (auto intro: sized_engine abort_config)

lemma sized_release_abort: "sized C F \<Longrightarrow> sized C (release i (request_abort i F))"
  by (rule sized_shape[OF sized_shape[OF _ request_abort_same(1)] release_same(1)])

lemma sized_release: "sized C F \<Longrightarrow> sized C (release i F)"
  by (rule sized_shape[OF _ release_same(1)])

lemma sized_step: "serve_ok F \<Longrightarrow> sized C F \<Longrightarrow> sized C (step_batch E F)"
proof -
  assume ok: "serve_ok F" and sz: "sized C F"
  obtain v e1 where e: "engine_step E (batched F) = (v, e1)" by force
  have "sched_ok (sched (batched F))" using ok sinks_okD(1) by (auto simp: serve_ok_def)
  then have "sized C (with_engine e1 F)" by (intro sized_engine[OF sz] engine_step_config[OF _ e])
  then show ?thesis using e sz
    by (auto simp: step_batch_def fail_all_batched_def Let_def split: sum.splits
        intro!: sized_do_reap sized_abort_seqs sized_fail_sinks)
qed

lemma sized_job:
  assumes "serve_ok F" "sized C F"
  shows "sized C (drain_exclusive out F)"
proof (cases "excl_q F")
  case (Cons i rest)
  have "i < length (reqs (F\<lparr>excl_q := rest\<rparr>))" using excl_pop_ok(1)[OF assms(1) Cons] by simp
  from sized_shape[OF _ run_job_effect(1)[OF this, of out]] assms(2) Cons show ?thesis
    by (simp add: drain_exclusive_def)
qed (use assms in \<open>simp add: drain_exclusive_def\<close>)

lemma sized_submit:
  assumes "sized C F"
  shows "sized C (drain_submit E p F)"
proof (cases "submit_q F")
  case (Cons job rest)
  obtain i n P where job: "job = (i, n, P)" by (cases job) auto
  obtain v e1 where s: "submit E p n P (Some SinkWithFail) (prompt_ids (reqs F ! i)) (batched F) = (v, e1)"
    by force
  have "same_config (sched (batched F)) (sched e1)"
    using submit_config[of "batched F" E p n P "Some SinkWithFail" "prompt_ids (reqs F ! i)"] s by simp
  then have w: "sized C (with_engine e1 (F\<lparr>submit_q := rest\<rparr>))" using assms by (intro sized_engine) simp_all
  have "sized C (fail i e (with_engine e1 (F\<lparr>submit_q := rest\<rparr>)))" for e
    by (rule sized_shape[OF w fail_same(1)])
  moreover have "sized C (put_req i r (with_engine e1 (F\<lparr>submit_q := rest\<rparr>)))" for r
    using w by (simp add: put_req_def)
  ultimately show ?thesis using Cons job s by (simp add: drain_submit_def Let_def split: sum.splits)
qed (use assms in \<open>simp add: drain_submit_def\<close>)

lemma sized_move: "serve_move E F F' \<Longrightarrow> serve_ok F \<Longrightarrow> sized C F \<Longrightarrow> sized C F'"
proof (induction rule: serve_move.induct)
  case (submit F strm p n params)
  then show ?case by (auto simp: http_submit_def admit_slot_def Let_def split: sum.splits)
next
  case (exclusive F strm)
  then show ?case by (auto simp: http_exclusive_def admit_slot_def Let_def split: sum.splits)
next
  case (wait i F)
  then show ?case by (auto simp: http_wait_def Let_def sized_release sized_release_abort split: option.splits)
next
  case (wait_exclusive i F)
  then show ?case by (auto simp: http_wait_exclusive_def Let_def sized_release split: option.splits)
next
  case (close i F)
  then show ?case by (auto simp: stream_close_def sized_release_abort)
next
  case (text_close i F)
  then show ?case by (auto simp: text_stream_close_def sized_release)
next
  case (abort F)
  have "sized C (F\<lparr>abort_q := rest\<rparr>)" for rest using abort by simp
  then show ?case by (auto simp: drain_abort_def abort_config intro!: sized_engine abort split: list.splits)
next
  case (reap F)
  then show ?case by (simp add: sized_do_reap)
next
  case (drain F p)
  then show ?case by (simp add: sized_submit)
next
  case (job F out)
  then show ?case by (simp add: sized_job)
next
  case (step F)
  then show ?case by (simp add: sized_step)
qed

lemma sized_moves: "(serve_move E)\<^sup>*\<^sup>* F F' \<Longrightarrow> serve_ok F \<Longrightarrow> sized C F \<Longrightarrow> serve_ok F' \<and> sized C F'"
  by (induction rule: rtranclp_induct) (auto intro: serve_move_ok sized_move)

lemma engine_init_InrD:
  "engine_init kc sc bs cs mc = Inr e \<Longrightarrow> sched_init kc sc bs cs mc = Inr (sched e)"
  by (auto simp: engine_init_def rbind_Inr_iff)

lemma facade_init_sized:
  assumes "facade_init A mc plan = Inr F"
  shows "sized (conf F) F"
proof -
  note I = facade_init_eq(1,9)[OF assms]
  note s = engine_init_InrD[OF I(2)]
  let ?s = "sched (batched F)"
  have "block_size ?s = c_block (conf F) \<and> capacity (kv (coord ?s)) = c_kv (conf F)
      \<and> capacity (state (coord ?s)) = c_state (conf F)"
    using s unfolding sched_init_def coord_init_def pool_init_def
    by (cases ?s) (auto simp: rbind_Inr_iff split: if_splits)
  then show ?thesis by (simp add: sized_def)
qed

text \<open>
  C16: what \<open>_precheck\<close> admits, the scheduler can run.  The constructor raises \<open>ValueError\<close> exactly if a
  variable it has to read is set to something that is no integer; otherwise it succeeds, whatever the
  arguments say.  Then in every reachable state a request waiting to be submitted satisfies the context
  check of \<open>submit\<close> and fits the block and state pools of an idle scheduler, so its submission succeeds
  and it can never stall the engine.
\<close>

theorem admitted_requests_fit:
  fixes E :: "('c, 'f::linordered_field, 'i, 'g, 't) env"
  assumes "max_context (model E) = Some mc" and "mc \<noteq> 0"
  shows "(if list_all (readable A) (consulted A) then \<exists>F0 :: ('c, 'f, 'g, 't) facade. facade_init A mc plan = Inr F0
          else (facade_init A mc plan :: ('c, 'f, 'g, 't) facade pure_result) = Inl ValueError)
     \<and> (\<forall>F0 F. facade_init A mc plan = Inr F0 \<longrightarrow> (serve_move E)\<^sup>*\<^sup>* F0 F \<longrightarrow> (\<forall>(i, n, P) \<in> set (submit_q F).
          \<exists>p. prompt_ids (reqs F ! i) = Some p \<and> 1 \<le> n \<and> admissible E (sched (batched F)) n p
            \<and> (\<exists>sid. fst (submit E t n P (Some SinkWithFail) (Some p) (batched F)) = Inr sid)))"
proof -
  have "\<exists>p. prompt_ids (reqs F ! i) = Some p \<and> 1 \<le> n \<and> admissible E (sched (batched F)) n p
            \<and> (\<exists>sid. fst (submit E t n P (Some SinkWithFail) (Some p) (batched F)) = Inr sid)"
    if F0: "facade_init A mc plan = Inr F0" and m: "(serve_move E)\<^sup>*\<^sup>* F0 F" and j: "(i, n, P) \<in> set (submit_q F)"
    for F0 F :: "('c, 'f, 'g, 't) facade" and i n P
  proof -
    let ?C = "conf F0"
    note B = serve_config_bounds [OF facade_init_eq(1) [OF F0]]
    have ok: "serve_ok F" and sz: "sized ?C F"
      using sized_moves[OF m facade_init_ok[OF F0] facade_init_sized[OF F0]] by simp_all
    obtain p where p: "prompt_ids (reqs F ! i) = Some p" "precheck ?C (int (length p)) n = Inr ()"
      using ok j sz by (auto simp: serve_ok_def jobs_ok_def prechecked_def sized_def)
    have n: "1 \<le> n" "int (length p) + n \<le> mc" "blocks_for (int (length p) + n) (c_block ?C) \<le> c_kv ?C"
      using p(2) B(8) assms(2) by (auto simp: precheck_def split: if_splits)
    have "blocks_for_tokens (int (length p) + n) (c_block ?C) \<le> c_kv ?C"
      using n(1,3) by (simp add: blocks_for_def blocks_for_tokens_def ceil_div_def)
    then have adm: "admissible E (sched (batched F)) n p"
      using assms sz n B(4) by (simp add: admissible_def sized_def)
    have K: "sinks_ok (batched F)" using ok by (simp add: serve_ok_def)
    have dead: "\<not> live (sched (batched F)) (next_seq (batched F)) r" for r
      using sinks_okD(2)[OF K, of "next_seq (batched F)" r] sinks_okD(4)[OF K, of "next_seq (batched F)"] by auto
    have "fst (submit E t n P (Some SinkWithFail) (Some p) (batched F)) = Inr (next_seq (batched F))"
      using dead assms n(2) by (auto simp: submit_def sched_add_def live_def Let_def)
    with p(1) n(1) adm show ?thesis by blast
  qed
  then show ?thesis using facade_init_cases [of A mc plan, where ?'c = 'c and ?'f = 'f and ?'g = 'g and ?'t = 't] by blast
qed


section \<open>A run of the server\<close>

text \<open>One slot, one sequence at a time; each request asks for five tokens after the id zero.\<close>

definition one_slot :: serve_args where
  "one_slot = \<lparr>arg_kv = None, arg_state = None, arg_block = None, arg_chunk = None, arg_conc = Some 1,
     arg_queued = Some 1, arg_timeout = None, environ = [], env_lines = Some [lit ''SLLM_CHUNK_SIZE = 32'']\<rparr>"

definition start1 :: "(int, rat, rat, int list) facade" where
  "start1 = (case facade_init one_slot 8 (\<lambda>_. None) of Inr F \<Rightarrow> F | Inl e \<Rightarrow> undefined)"

definition ask :: "(int, rat, rat, int list) facade \<Rightarrow> (int, rat, rat, int list) facade" where
  "ask F = snd (http_submit counter_env False [0] 5 argmax_params F)"

definition give_up :: "nat \<Rightarrow> (int, rat, rat, int list) facade \<Rightarrow> (int, rat, rat, int list) facade" where
  "give_up i F = snd (http_wait counter_env i F)"

lemma one_slot_readable: "list_all (readable one_slot) (consulted one_slot)"
proof -
  have "readable one_slot key \<longleftrightarrow> (case env_get [] (Some [lit ''SLLM_CHUNK_SIZE = 32'']) (lit key) None of
     Some (c # v) \<Rightarrow> (case int_of_str (c # v) of Inr i \<Rightarrow> True | _ \<Rightarrow> False) | _ \<Rightarrow> True)" for key
    by (auto simp: readable_def one_slot_def split: option.splits list.splits sum.splits)
  moreover have "list_all (\<lambda>key. case env_get [] (Some [lit ''SLLM_CHUNK_SIZE = 32'']) (lit key) None of
     Some (c # v) \<Rightarrow> (case int_of_str (c # v) of Inr i \<Rightarrow> True | _ \<Rightarrow> False) | _ \<Rightarrow> True) (consulted one_slot)"
    by code_simp
  ultimately show ?thesis by (simp add: list_all_iff)
qed

lemma start1_init: "facade_init one_slot 8 (\<lambda>_. None) = Inr start1"
proof -
  obtain F where "facade_init one_slot 8 (\<lambda>_. None) = (Inr F :: (int, rat, rat, int list) facade pure_result)"
    using facade_init_cases [of one_slot 8 "\<lambda>_. None", where ?'c = int and ?'f = rat and ?'g = rat and ?'t = "int list"]
      one_slot_readable by auto
  then show ?thesis by (simp add: start1_def)
qed

definition answered :: "(int, rat, rat, int list) facade" where
  "answered = step_batch counter_env (step_batch counter_env (step_batch counter_env (step_batch counter_env
     (drain_submit counter_env [] (ask start1)))))"

lemma answered_reachable: "(serve_move counter_env)\<^sup>*\<^sup>* start1 answered"
proof -
  have "(serve_move counter_env)\<^sup>*\<^sup>* start1 (ask start1)"
    unfolding ask_def by (rule r_into_rtranclp, rule serve_move.submit)
  then show ?thesis unfolding answered_def
    by (meson rtranclp.rtrancl_into_rtrancl serve_move.drain serve_move.step)
qed

lemma answered_eval:
  "submit_q answered = [] \<and> excl_q answered = [] \<and> queue_length (batched answered) = 0
   \<and> map ids (reqs answered) = [[1, 2]] \<and> map r_reason (reqs answered) = [Some Stop]"
  unfolding answered_def by code_simp

theorem slots_are_accounted_witness:
  "inflight answered + served answered = int (length (reqs answered))
   \<and> inflight answered \<le> c_max_queued (conf answered)"
  using slots_are_accounted[OF start1_init answered_reachable] by blast

theorem no_request_is_lost_witness:
  "filter (\<lambda>r. \<not> is_done r) (reqs answered) = [] \<and> inflight answered = 0
   \<and> map ids (reqs answered) = [[1, 2]]"
  using no_request_is_lost[OF start1_init answered_reachable] answered_eval
  by (simp add: filter_empty_conv)

theorem admitted_requests_fit_witness:
  "\<exists>p. prompt_ids (reqs (ask start1) ! 0) = Some p
     \<and> admissible counter_env (sched (batched (ask start1))) 5 p"
proof -
  have m: "max_context (model counter_env) = Some 8" by (simp add: counter_env_def counter_def)
  note R = conjunct2 [OF admitted_requests_fit [OF m, of one_slot "\<lambda>_. None" "[]"]]
  have "\<forall>(i, n, P) \<in> set (submit_q F). \<exists>p. prompt_ids (reqs F ! i) = Some p \<and> 1 \<le> n
      \<and> admissible counter_env (sched (batched F)) n p
      \<and> (\<exists>sid. fst (submit counter_env [] n P (Some SinkWithFail) (Some p) (batched F)) = Inr sid)"
    if "(serve_move counter_env)\<^sup>*\<^sup>* start1 F" for F
    using R start1_init that by simp
  moreover have "(serve_move counter_env)\<^sup>*\<^sup>* start1 (ask start1)"
    unfolding ask_def by (rule r_into_rtranclp, rule serve_move.submit)
  moreover have "map (\<lambda>(i, n, P). (i, n)) (submit_q (ask start1)) = [(0, 5)]" by code_simp
  then have "\<exists>P. (0, 5, P) \<in> set (submit_q (ask start1))" by auto
  ultimately show ?thesis by blast
qed

text \<open>
  The bound is on requests that have not been given back, not on the work the engine holds.  A
  request that times out before the executor has drained its submission has no \<open>seq_id\<close> yet, so
  \<open>_request_abort\<close> does nothing while its slot is given back; it is still submitted and run later.
  With one slot, two timed-out requests are in the scheduler at once.
\<close>

definition overcommitted :: "(int, rat, rat, int list) facade" where
  "overcommitted = drain_submit counter_env [] (drain_submit counter_env []
     (give_up 1 (ask (give_up 0 (ask start1)))))"

lemma timeout_bypasses_admission:
  "c_max_queued (conf overcommitted) = 1 \<and> inflight overcommitted = 0
   \<and> queue_length (batched overcommitted) = 2 \<and> abort_q overcommitted = []"
  unfolding overcommitted_def by code_simp

section \<open>The check outside the lock\<close>

text \<open>
  \<open>_release\<close> in its separate steps: read the flag, set it, change the counter under the lock.  The
  executor (when a request ends) and the HTTP thread (when its wait runs out at that moment) may
  both be in it for the same request.
\<close>

datatype release_pc = Entered | Passed | Marked | Left

fun release_step :: "release_pc \<Rightarrow> bool \<times> int \<Rightarrow> release_pc \<times> bool \<times> int" where
  "release_step Entered (flag, n) = (if flag then Left else Passed, flag, n)"
| "release_step Passed (flag, n) = (Marked, True, n)"
| "release_step Marked (flag, n) = (Left, flag, n - 1)"
| "release_step Left (flag, n) = (Left, flag, n)"

fun release_run :: "bool list \<Rightarrow> release_pc \<times> release_pc \<times> bool \<times> int
    \<Rightarrow> release_pc \<times> release_pc \<times> bool \<times> int" where
  "release_run [] s = s"
| "release_run (first # sch) (p1, p2, m) =
     release_run sch (if first then (let (p, m') = release_step p1 m in (p, p2, m'))
                      else (let (p, m') = release_step p2 m in (p1, p, m')))"

text \<open>One after the other the slot is given back once; interleaved at the check, twice.\<close>

lemma release_race:
  "release_run [True, True, True, False, False, False] (Entered, Entered, False, 1) = (Left, Left, True, 0)"
  "release_run [True, False, True, False, True, False] (Entered, Entered, False, 1) = (Left, Left, True, -1)"
  by code_simp+

end
