(* ===== verification/SpecDecode.thy ===== *)
theory SpecDecode
  imports Generate
begin

text \<open>
  Model of \<open>runtime/spec.py\<close> and of the loop \<open>generate_greedy_mtp\<close> of \<open>ref/qwen4_exp_mtp.py\<close>:
  draft some tokens, check each against the main model's argmax, keep the accepted prefix.  The
  forward passes are parameters: \<open>main ids\<close> is \<open>greedy\<close> of the main model's logits for the context
  \<open>ids\<close>, and the drafters are arbitrary functions.
\<close>

section \<open>Draft and verify on contexts\<close>

fun draft_tokens :: "(int list \<Rightarrow> int) \<Rightarrow> nat \<Rightarrow> int list \<Rightarrow> int list" where
  "draft_tokens mtp 0 cur = []"
| "draft_tokens mtp (Suc n) cur = (let tok = mtp cur in tok # draft_tokens mtp n (cur @ [tok]))"

text \<open>The accepted prefix of the draft, and the main model's token where it first disagrees.\<close>

fun verify :: "(int list \<Rightarrow> int pure_result) \<Rightarrow> int list \<Rightarrow> int list
    \<Rightarrow> (int list \<times> int option) pure_result" where
  "verify main ids [] = Inr ([], None)"
| "verify main ids (tok # draft) =
     rbind (main ids) (\<lambda>g.
       if g \<noteq> tok then Inr ([], Some g)
       else rbind (verify main (ids @ [tok]) draft) (\<lambda>(acc, m). Inr (tok # acc, m)))"

text \<open>
  The outer loop; \<open>r\<close> is \<open>max_new - n\<close> and \<open>draft r ids\<close> the block the drafter proposes.
\<close>

function spec_loop ::
  "(int list \<Rightarrow> int pure_result) \<Rightarrow> (nat \<Rightarrow> int list \<Rightarrow> int list) \<Rightarrow> int list \<Rightarrow> nat \<Rightarrow> int list
    \<Rightarrow> int list pure_result" where
  "spec_loop main draft stop r ids =
     (if r = 0 then Inr ids
      else if ids = [] then Inl IndexError
      else if last ids \<in> set stop then Inr ids
      else
        rbind (verify main ids (draft r ids)) (\<lambda>(acc, m).
          let ids1 = ids @ acc; r1 = r - length acc in
          if r1 = 0 then Inr ids1
          else
            rbind (case m of Some g \<Rightarrow> Inr g | None \<Rightarrow> main ids1) (\<lambda>nxt.
              if nxt \<in> set stop then Inr ids1
              else spec_loop main draft stop (r1 - 1) (ids1 @ [nxt]))))"
  by pat_completeness auto
termination
  by (relation "measure (\<lambda>(main, draft, stop, r, ids). r)") auto

declare spec_loop.simps [simp del]

definition spec_decode_greedy ::
  "(int list \<Rightarrow> int pure_result) \<Rightarrow> (int list \<Rightarrow> int) \<Rightarrow> int list \<Rightarrow> int \<Rightarrow> int \<Rightarrow> int list
    \<Rightarrow> int list pure_result" where
  "spec_decode_greedy main mtp prompt budget num_draft stop =
     (if num_draft < 1 then Inl ValueError
      else spec_loop main (\<lambda>r ids. draft_tokens mtp (min (nat num_draft) (r - 1)) ids) stop
             (nat budget) prompt)"

text \<open>
  The DeepSeek variant drafts a whole block at once; \<open>block ids\<close> is the \<open>out\<close> of
  \<open>spec_model.draft_step\<close>, whose first entry repeats the last token.
\<close>

definition spec_decode_greedy_deepseek ::
  "(int list \<Rightarrow> int pure_result) \<Rightarrow> (int list \<Rightarrow> int list) \<Rightarrow> int \<Rightarrow> int list \<Rightarrow> int \<Rightarrow> int option
    \<Rightarrow> int list \<Rightarrow> int list pure_result" where
  "spec_decode_greedy_deepseek main block dspark_block_size prompt budget num_draft stop =
     (let k = (case num_draft of None \<Rightarrow> dspark_block_size | Some k \<Rightarrow> k) in
      if k < 1 then Inl ValueError
      else spec_loop main (\<lambda>r ids. take (min (nat k) r) (drop 1 (block ids))) stop (nat budget) prompt)"

section \<open>Plain greedy decoding\<close>

fun greedy_loop :: "(int list \<Rightarrow> int pure_result) \<Rightarrow> int list \<Rightarrow> nat \<Rightarrow> int list \<Rightarrow> int list pure_result" where
  "greedy_loop main stop 0 ids = Inr ids"
| "greedy_loop main stop (Suc r) ids =
     rbind (main ids) (\<lambda>t. if t \<in> set stop then Inr ids else greedy_loop main stop r (ids @ [t]))"

text \<open>
  It is the recompute path of \<open>generate\<close> at temperature zero without penalty or context limit.
\<close>

lemma greedy_loop_generate:
  assumes "temperature P = Some 0" "repetition P = None"
  shows "greedy_loop (\<lambda>ids. rbind (full_logits M ids) greedy) stop n ids
    = rbind (gen_full N M P stop None n g ids) (\<lambda>(ids', r). Inr ids')"
proof (induction n arbitrary: ids)
  case (Suc n)
  show ?case
  proof (cases "full_logits M ids")
    case (Inr l)
    then show ?thesis using Suc assms
      by (cases "greedy l") (simp_all add: next_token_greedy maybe_penalize_def Let_def)
  qed simp
qed simp

lemma draft_tokens_length [simp]: "length (draft_tokens mtp n cur) = n"
  by (induction n arbitrary: cur) (simp_all add: Let_def)

text \<open>The accepted prefix is what plain greedy decoding would emit.\<close>

lemma verify_greedy:
  assumes "length draft \<le> r"
  shows "greedy_loop main [] r ids =
    rbind (verify main ids draft) (\<lambda>(acc, m). case m of
        None \<Rightarrow> greedy_loop main [] (r - length acc) (ids @ acc)
      | Some g \<Rightarrow> greedy_loop main [] (r - length acc - 1) (ids @ acc @ [g]))"
  using assms
proof (induction draft arbitrary: r ids)
  case (Cons tok draft)
  then obtain k where k: "r = Suc k" by (cases r) auto
  show ?case
  proof (cases "main ids")
    case (Inr g)
    show ?thesis
    proof (cases "g = tok")
      case True
      then show ?thesis using Cons.IH[of k "ids @ [tok]"] Cons.prems Inr k
        by (cases "verify main (ids @ [tok]) draft") (auto split: option.splits)
    next
      case False
      then show ?thesis using Inr k by simp
    qed
  qed (use k in simp)
qed simp

lemma verify_bound: "verify main ids draft = Inr (acc, m) \<Longrightarrow> length acc \<le> length draft
    \<and> (m \<noteq> None \<longrightarrow> length acc < length draft)"
proof (induction draft arbitrary: ids acc)
  case (Cons tok draft)
  then show ?case by (fastforce simp: rbind_Inr_iff split: if_splits)
qed simp

lemma spec_loop_greedy:
  assumes "\<And>r ids. length (draft r ids) \<le> r"
  shows "ids \<noteq> [] \<Longrightarrow> spec_loop main draft [] r ids = greedy_loop main [] r ids"
proof (induction r arbitrary: ids rule: less_induct)
  case (less r)
  show ?case
  proof (cases "r = 0")
    case True
    then show ?thesis by (simp add: spec_loop.simps)
  next
    case False
    have g: "greedy_loop main [] r ids =
      rbind (verify main ids (draft r ids)) (\<lambda>(acc, m). case m of
          None \<Rightarrow> greedy_loop main [] (r - length acc) (ids @ acc)
        | Some g \<Rightarrow> greedy_loop main [] (r - length acc - 1) (ids @ acc @ [g]))"
      by (rule verify_greedy[OF assms])
    show ?thesis
    proof (cases "verify main ids (draft r ids)")
      case (Inl e)
      then show ?thesis using g False less.prems by (simp add: spec_loop.simps[of _ _ _ r])
    next
      case (Inr p)
      obtain acc m where p: "p = (acc, m)" by force
      have b: "length acc \<le> r" "m \<noteq> None \<longrightarrow> length acc < r"
        using verify_bound[of main ids "draft r ids" acc m] Inr p assms[of r ids] by auto
      note unf = spec_loop.simps[of main draft "[]" r ids]
      have ih: "spec_loop main draft [] (r - length acc - 1) (ids @ acc @ [t])
          = greedy_loop main [] (r - length acc - 1) (ids @ acc @ [t])" for t
        using False by (intro less.IH) auto
      show ?thesis
      proof (cases "r - length acc")
        case 0
        then show ?thesis using g Inr p False less.prems b
          unfolding unf by (cases m) (auto simp: Let_def)
      next
        case (Suc k)
        then show ?thesis using g Inr p False less.prems b ih
          unfolding unf by (cases m; cases "main (ids @ acc)") (auto simp: Let_def)
      qed
    qed
  qed
qed

section \<open>MTP drafting for qwen4\_exp\<close>

text \<open>
  The incremental main model: a prefill and a step, each giving the new state, the logits for the
  next token and the hyper row the drafter uses; and the drafter's step, from the last token (whose
  embedding it looks up), a hyper row and its own state.
\<close>

record ('s, 'f, 'h, 'm) q4_model =
  q4_prefill :: "int list \<Rightarrow> 's \<times> 'f list \<times> 'h"
  q4_step :: "'s \<Rightarrow> int \<Rightarrow> 's \<times> 'f list \<times> 'h"
  mtp_start :: "int \<Rightarrow> 'm"
  mtp_step :: "'m \<Rightarrow> int \<Rightarrow> 'h \<Rightarrow> 'm \<times> 'f list \<times> 'h"

fun q4_greedy :: "('s, 'f::linorder, 'h, 'm) q4_model \<Rightarrow> nat \<Rightarrow> 's \<Rightarrow> 'f list \<Rightarrow> int list pure_result" where
  "q4_greedy M 0 st logits = Inr []"
| "q4_greedy M (Suc n) st logits =
     rbind (greedy logits) (\<lambda>nxt.
       let (st', logits', h) = q4_step M st nxt in
       rbind (q4_greedy M n st' logits') (\<lambda>out. Inr (nxt # out)))"

definition generate_greedy ::
  "('s, 'f::linorder, 'h, 'm) q4_model \<Rightarrow> int list \<Rightarrow> int \<Rightarrow> int list pure_result" where
  "generate_greedy M ids budget =
     (let (st, logits, h) = q4_prefill M ids in q4_greedy M (nat budget) st logits)"

record ('s, 'f, 'h) mtp_state =
  m_state :: 's
  m_pending :: "'f list"
  m_hyper :: 'h
  m_last :: int
  m_pos :: int
  m_out :: "int list"
  m_drafted :: nat
  m_accepted :: nat

fun mtp_drafts :: "('s, 'f::linorder, 'h, 'm) q4_model \<Rightarrow> nat \<Rightarrow> 'm \<Rightarrow> int \<Rightarrow> 'h \<Rightarrow> int list pure_result" where
  "mtp_drafts M 0 ms e h = Inr []"
| "mtp_drafts M (Suc n) ms e h =
     (let (ms', lg, h') = mtp_step M ms e h in
      rbind (greedy lg) (\<lambda>d. rbind (mtp_drafts M n ms' d h') (\<lambda>ds. Inr (d # ds))))"

definition take_step ::
  "('s, 'f, 'h, 'm) q4_model \<Rightarrow> int \<Rightarrow> ('s, 'f, 'h) mtp_state \<Rightarrow> ('s, 'f, 'h) mtp_state" where
  "take_step M t s =
     (let (st, l, h) = q4_step M (m_state s) t in s\<lparr>m_state := st, m_pending := l, m_hyper := h\<rparr>)"

fun mtp_verify ::
  "('s, 'f::linorder, 'h, 'm) q4_model \<Rightarrow> nat \<Rightarrow> int list \<Rightarrow> ('s, 'f, 'h) mtp_state
    \<Rightarrow> ('s, 'f, 'h) mtp_state pure_result" where
  "mtp_verify M budget [] s = Inr s"
| "mtp_verify M budget (d # ds) s =
     rbind (greedy (m_pending s)) (\<lambda>p.
       let s1 = s\<lparr>m_drafted := m_drafted s + 1\<rparr> in
       if d \<noteq> p then
         (let s2 = s1\<lparr>m_out := m_out s1 @ [p], m_pos := m_pos s1 + 1\<rparr>;
              s3 = (if length (m_out s2) < budget then take_step M p s2 else s2) in
          Inr (s3\<lparr>m_last := p\<rparr>))
       else
         (let s2 = s1\<lparr>m_accepted := m_accepted s1 + 1, m_out := m_out s1 @ [d],
                      m_pos := m_pos s1 + 1\<rparr> in
          if length (m_out s2) \<ge> budget then Inr (s2\<lparr>m_last := d\<rparr>)
          else mtp_verify M budget ds ((take_step M d s2)\<lparr>m_last := d\<rparr>)))"

text \<open>
  The outer \<open>while\<close> need not end: with no drafts a cycle emits nothing.  Its value is then
  \<open>None\<close>.
\<close>

partial_function (option) mtp_loop ::
  "('s, 'f::linorder, 'h, 'm) q4_model \<Rightarrow> nat \<Rightarrow> nat \<Rightarrow> ('s, 'f, 'h) mtp_state
    \<Rightarrow> ('s, 'f, 'h) mtp_state pure_result option" where
  "mtp_loop M num_draft budget s =
     (if length (m_out s) < budget then
        (case rbind (mtp_drafts M num_draft (mtp_start M (m_pos s)) (m_last s) (m_hyper s)) (\<lambda>ds.
               mtp_verify M budget ds s) of
           Inl e \<Rightarrow> Some (Inl e)
         | Inr s' \<Rightarrow> mtp_loop M num_draft budget s')
      else Some (Inr s))"

definition generate_greedy_mtp ::
  "('s, 'f::linorder, 'h, 'm) q4_model \<Rightarrow> int list \<Rightarrow> int \<Rightarrow> int
    \<Rightarrow> (int list \<times> nat \<times> nat) pure_result option" where
  "generate_greedy_mtp M ids budget num_draft =
     (if ids = [] then Some (Inl IndexError)
      else
        let (st, logits, h) = q4_prefill M ids;
            s0 = \<lparr>m_state = st, m_pending = logits, m_hyper = h, m_last = last ids,
                  m_pos = int (length ids) - 1, m_out = [], m_drafted = 0, m_accepted = 0\<rparr> in
        map_option (\<lambda>r. rbind r (\<lambda>s. Inr (m_out s, m_drafted s, m_accepted s)))
          (mtp_loop M (nat num_draft) (nat budget) s0))"

text \<open>The generated tail is cut at the first stop id.\<close>

fun first_stop :: "int list \<Rightarrow> int list \<Rightarrow> nat \<Rightarrow> nat \<Rightarrow> nat" where
  "first_stop stop [] i len = len"
| "first_stop stop (t # ts) i len = (if t \<in> set stop then i else first_stop stop ts (Suc i) len)"

definition spec_decode_greedy_qwen4exp ::
  "('s, 'f::linorder, 'h, 'm) q4_model \<Rightarrow> int list \<Rightarrow> int \<Rightarrow> int \<Rightarrow> int list
    \<Rightarrow> int list pure_result option" where
  "spec_decode_greedy_qwen4exp M prompt budget num_draft stop =
     (if num_draft < 1 then Some (Inl ValueError)
      else
        map_option (\<lambda>r. rbind r (\<lambda>(emitted, drafted, accepted).
          let ids = prompt @ emitted in
          Inr (if stop \<noteq> [] then take (first_stop stop emitted (length prompt) (length ids)) ids
               else ids)))
          (generate_greedy_mtp M prompt budget num_draft))"

section \<open>MTP lemmas\<close>

text \<open>\<open>s\<close> has emitted a prefix of the greedy run \<open>ts\<close> and stands where the rest of it starts.\<close>

definition on_track ::
  "('s, 'f::linorder, 'h, 'm) q4_model \<Rightarrow> nat \<Rightarrow> int list \<Rightarrow> ('s, 'f, 'h) mtp_state \<Rightarrow> bool" where
  "on_track M budget ts s \<longleftrightarrow> length (m_out s) \<le> budget
     \<and> (if length (m_out s) < budget
        then \<exists>rest. ts = m_out s @ rest
          \<and> q4_greedy M (budget - length (m_out s)) (m_state s) (m_pending s) = Inr rest
        else ts = m_out s)"

lemma q4_greedy_Suc:
  assumes "q4_greedy M (Suc k) st0 l0 = Inr rest"
  shows "\<exists>p st l h out. greedy l0 = Inr p \<and> q4_step M st0 p = (st, l, h)
    \<and> q4_greedy M k st l = Inr out \<and> rest = p # out"
proof (cases "greedy l0")
  case (Inr p)
  then show ?thesis using assms
    by (cases "q4_step M st0 p") (auto simp: rbind_Inr_iff)
qed (use assms in simp)

lemma on_track_next:
  assumes "on_track M budget ts s" "length (m_out s) < budget"
  obtains p where "greedy (m_pending s) = Inr p"
    "\<And>s1. length (m_out s) + 1 < budget \<Longrightarrow> m_state s1 = m_state s \<Longrightarrow> m_out s1 = m_out s @ [p]
      \<Longrightarrow> on_track M budget ts (take_step M p s1)"
    "\<not> length (m_out s) + 1 < budget \<Longrightarrow> ts = m_out s @ [p]"
proof -
  obtain rest where r: "ts = m_out s @ rest"
    "q4_greedy M (budget - length (m_out s)) (m_state s) (m_pending s) = Inr rest"
    using assms by (auto simp: on_track_def)
  obtain k where k: "budget - length (m_out s) = Suc k" using assms(2) by (cases "budget - length (m_out s)") auto
  obtain p st l h out where p: "greedy (m_pending s) = Inr p" "q4_step M (m_state s) p = (st, l, h)"
    "q4_greedy M k st l = Inr out" "rest = p # out"
    using q4_greedy_Suc[OF r(2)[unfolded k]] by blast
  have k': "budget - Suc (length (m_out s)) = k" using k by simp
  show ?thesis
  proof (rule that[OF p(1)])
    show "on_track M budget ts (take_step M p s1)"
      if "length (m_out s) + 1 < budget" "m_state s1 = m_state s" "m_out s1 = m_out s @ [p]" for s1
      using that p r(1) k' by (simp add: on_track_def take_step_def)
    show "ts = m_out s @ [p]" if "\<not> length (m_out s) + 1 < budget"
    proof -
      have "k = 0" using that k by simp
      then show ?thesis using p r(1) by simp
    qed
  qed
qed

lemma mtp_drafts_ok:
  assumes "\<And>ms e h. fst (snd (mtp_step M ms e h)) \<noteq> []"
  shows "\<exists>ds. mtp_drafts M n ms e h = Inr ds \<and> length ds = n"
proof (induction n arbitrary: ms e h)
  case (Suc n)
  obtain ms' lg h' where s: "mtp_step M ms e h = (ms', lg, h')" by (cases "mtp_step M ms e h") auto
  then have "lg \<noteq> []" using assms[of ms e h] by simp
  then obtain d where "greedy lg = Inr d" using greedy_total by blast
  then show ?case using Suc[of ms' d h'] s by auto
qed simp

text \<open>A cycle stays on the greedy run, and emits something if there is a draft.\<close>

lemma mtp_verify_ok:
  "on_track M budget ts s \<Longrightarrow> length (m_out s) < budget \<Longrightarrow>
    \<exists>s'. mtp_verify M budget ds s = Inr s' \<and> on_track M budget ts s'
      \<and> length (m_out s) + (if ds = [] then 0 else 1) \<le> length (m_out s')"
proof (induction ds arbitrary: s)
  case (Cons d ds)
  let ?m = "length (m_out s)"
  obtain p where p: "greedy (m_pending s) = Inr p"
    and more: "\<And>s1. ?m + 1 < budget \<Longrightarrow> m_state s1 = m_state s \<Longrightarrow> m_out s1 = m_out s @ [p]
      \<Longrightarrow> on_track M budget ts (take_step M p s1)"
    and fin: "\<not> ?m + 1 < budget \<Longrightarrow> ts = m_out s @ [p]"
    by (rule on_track_next[OF Cons.prems]) blast
  have out: "m_out (take_step M t s1) = m_out s1" for t and s1 :: "('a, 'b, 'c) mtp_state"
    by (simp add: take_step_def split: prod.splits)
  have last: "on_track M budget ts (s1\<lparr>m_last := t\<rparr>) = on_track M budget ts s1"
    for t and s1 :: "('a, 'b, 'c) mtp_state"
    by (simp add: on_track_def)
  have full: "on_track M budget ts s1" if "\<not> ?m + 1 < budget" "m_out s1 = m_out s @ [p]"
    for s1 :: "('a, 'b, 'c) mtp_state"
    using fin[OF that(1)] that Cons.prems(2) by (simp add: on_track_def)
  show ?case
  proof (cases "?m + 1 < budget")
    case False
    then show ?thesis using p by (simp add: Let_def full)
  next
    case True
    show ?thesis
    proof (cases "d = p")
      case False
      then show ?thesis using p True by (simp add: Let_def last out more)
    next
      case eq: True
      let ?s1 = "(take_step M p (s\<lparr>m_drafted := m_drafted s + 1, m_accepted := m_accepted s + 1,
          m_out := m_out s @ [p], m_pos := m_pos s + 1\<rparr>))\<lparr>m_last := p\<rparr>"
      have t: "on_track M budget ts ?s1" using more True by (simp add: last)
      have l: "length (m_out ?s1) = ?m + 1" by (simp add: out)
      obtain s' where "mtp_verify M budget ds ?s1 = Inr s'" "on_track M budget ts s'"
        "length (m_out ?s1) \<le> length (m_out s')"
        using Cons.IH[OF t] l True by (auto split: if_splits)
      then show ?thesis using p eq True l by (intro exI[of _ s']) (auto simp: Let_def)
    qed
  qed
qed (auto simp: on_track_def)

lemma mtp_loop_ok:
  assumes "\<And>ms e h. fst (snd (mtp_step M ms e h)) \<noteq> []" and "0 < k"
  shows "on_track M budget ts s \<Longrightarrow> \<exists>s'. mtp_loop M k budget s = Some (Inr s') \<and> m_out s' = ts"
proof (induction "budget - length (m_out s)" arbitrary: s rule: less_induct)
  case less
  show ?case
  proof (cases "length (m_out s) < budget")
    case True
    obtain ds where ds: "mtp_drafts M k (mtp_start M (m_pos s)) (m_last s) (m_hyper s) = Inr ds" "length ds = k"
      using mtp_drafts_ok[OF assms(1)] by blast
    obtain s' where s': "mtp_verify M budget ds s = Inr s'" "on_track M budget ts s'"
      "length (m_out s) + 1 \<le> length (m_out s')"
      using mtp_verify_ok[OF less.prems True, of ds] ds(2) assms(2) by auto
    have "budget - length (m_out s') < budget - length (m_out s)" using s'(3) True by linarith
    from less.hyps[OF this s'(2)] show ?thesis
      using True ds(1) s'(1) by (subst mtp_loop.simps) simp
  next
    case False
    then show ?thesis using less.prems by (subst mtp_loop.simps) (simp add: on_track_def)
  qed
qed

text \<open>Without drafts the loop goes round for ever.\<close>

lemma mtp_loop_stuck:
  fixes M :: "('s, 'f::linorder, 'h, 'm) q4_model"
  assumes "length (m_out s) < budget"
  shows "mtp_loop M 0 budget s = None"
proof -
  have stuck: "k = 0 \<longrightarrow> \<not> length (m_out s) < budget" if r: "mtp_loop M k budget s = Some y"
    for M :: "('s, 'f, 'h, 'm) q4_model" and k budget s y
  proof (rule mtp_loop.raw_induct[where P = "\<lambda>M k b s y. k = 0 \<longrightarrow> \<not> length (m_out s) < b", OF _ r])
    fix loop :: "('s, 'f, 'h, 'm) q4_model \<Rightarrow> nat \<Rightarrow> nat \<Rightarrow> ('s, 'f, 'h) mtp_state
        \<Rightarrow> ('s, 'f, 'h) mtp_state pure_result option"
    fix M k b s y
    assume ih: "\<And>M k b s y. loop M k b s = Some y \<Longrightarrow> k = 0 \<longrightarrow> \<not> length (m_out s) < b"
      and body: "(if length (m_out s) < b
          then case rbind (mtp_drafts M k (mtp_start M (m_pos s)) (m_last s) (m_hyper s))
                 (\<lambda>ds. mtp_verify M b ds s) of
               Inl e \<Rightarrow> Some (Inl e) | Inr s' \<Rightarrow> loop M k b s'
          else Some (Inr s)) = Some y"
    show "k = 0 \<longrightarrow> \<not> length (m_out s) < b"
    proof (intro impI notI)
      assume k: "k = 0" and l: "length (m_out s) < b"
      then have "loop M 0 b s = Some y" using body by simp
      from ih[OF this] l show False by simp
    qed
  qed
  show ?thesis
  proof (cases "mtp_loop M 0 budget s")
    case (Some y)
    from stuck[OF this] assms show ?thesis by simp
  qed
qed

lemma first_stop_take:
  "take (first_stop stop ts i (i + length ts) - i) ts = takeWhile (\<lambda>t. t \<notin> set stop) ts
   \<and> i \<le> first_stop stop ts i (i + length ts)"
proof (induction ts arbitrary: i)
  case (Cons t ts)
  then show ?case using Cons[of "Suc i"] by (auto simp: take_Cons' )
qed simp

lemma first_stop_tail:
  "take (first_stop stop ts (length p) (length (p @ ts))) (p @ ts) = p @ takeWhile (\<lambda>t. t \<notin> set stop) ts"
  using first_stop_take[of stop ts "length p"] by simp

text \<open>The greedy run with stop ids is the run without, cut at the first stop id.\<close>

fun q4_stop :: "('s, 'f::linorder, 'h, 'm) q4_model \<Rightarrow> int list \<Rightarrow> nat \<Rightarrow> 's \<Rightarrow> 'f list \<Rightarrow> int list pure_result" where
  "q4_stop M stop 0 st logits = Inr []"
| "q4_stop M stop (Suc n) st logits =
     rbind (greedy logits) (\<lambda>nxt.
       if nxt \<in> set stop then Inr []
       else
         let (st', logits', h) = q4_step M st nxt in
         rbind (q4_stop M stop n st' logits') (\<lambda>out. Inr (nxt # out)))"

lemma q4_stop_takeWhile:
  "q4_greedy M n st l = Inr ts \<Longrightarrow> q4_stop M stop n st l = Inr (takeWhile (\<lambda>t. t \<notin> set stop) ts)"
proof (induction n arbitrary: st l ts)
  case (Suc n)
  obtain p st' l' h out where "greedy l = Inr p" "q4_step M st p = (st', l', h)"
    "q4_greedy M n st' l' = Inr out" "ts = p # out"
    using q4_greedy_Suc[OF Suc.prems] by blast
  then show ?case using Suc.IH by simp
qed simp

section \<open>Properties\<close>

text \<open>
  C17: speculative decoding is plain greedy decoding.  With no stop ids, whatever the drafter
  proposes and however long its blocks are, both draft-and-verify loops return what one-token-at-a-time
  greedy decoding of the main model returns, an exception included.
\<close>

theorem spec_decode_is_greedy:
  assumes "prompt \<noteq> []" and "1 \<le> num_draft"
  shows "spec_decode_greedy main mtp prompt budget num_draft [] = greedy_loop main [] (nat budget) prompt
    \<and> spec_decode_greedy_deepseek main block b prompt budget (Some num_draft) []
        = greedy_loop main [] (nat budget) prompt"
proof
  show "spec_decode_greedy main mtp prompt budget num_draft [] = greedy_loop main [] (nat budget) prompt"
    using assms by (simp add: spec_decode_greedy_def) (rule spec_loop_greedy, simp_all)
  show "spec_decode_greedy_deepseek main block b prompt budget (Some num_draft) []
        = greedy_loop main [] (nat budget) prompt"
    using assms by (simp add: spec_decode_greedy_deepseek_def Let_def) (rule spec_loop_greedy, simp_all)
qed

definition mod4 :: "int list \<Rightarrow> int pure_result" where
  "mod4 ids = Inr ((last ids + 1) mod 4)"

theorem spec_decode_is_greedy_witness:
  "spec_decode_greedy mod4 (\<lambda>ids. if length ids = 3 then 9 else (last ids + 1) mod 4) [0] 5 2 []
     = Inr [0, 1, 2, 3, 0, 1]"
proof -
  have "greedy_loop mod4 [] (nat 5) [0] = Inr [0, 1, 2, 3, 0, 1]" by code_simp
  then show ?thesis
    using spec_decode_is_greedy[of "[0]" 2 mod4 _ 5] by simp
qed

text \<open>
  With stop ids the two loops differ from greedy decoding: an accepted draft token is not compared
  with the stop ids, so a stop id that was drafted correctly is emitted.
\<close>

lemma spec_decode_emits_stop_id:
  "spec_decode_greedy mod4 (\<lambda>ids. (last ids + 1) mod 4) [0] 5 2 [2] = Inr [0, 1, 2, 3, 0, 1]"
  "greedy_loop mod4 [2] (nat 5) [0] = Inr [0, 1]"
  by code_simp+

text \<open>
  C18: for qwen4\_exp the equivalence holds with stop ids.  If the plain greedy run succeeds and the
  drafter always returns logits, the MTP loop ends for every positive number of drafts and the
  trimmed result is the prompt followed by the greedy run cut at its first stop id, which is what the
  greedy loop that stops there emits.
\<close>

theorem qwen4_spec_is_greedy:
  assumes "prompt \<noteq> []" and "1 \<le> num_draft" and "\<forall>ms e h. fst (snd (mtp_step M ms e h)) \<noteq> []"
    and "generate_greedy M prompt budget = Inr toks"
  shows "\<exists>drafted accepted. generate_greedy_mtp M prompt budget num_draft = Some (Inr (toks, drafted, accepted))
    \<and> spec_decode_greedy_qwen4exp M prompt budget num_draft stop
        = Some (Inr (prompt @ takeWhile (\<lambda>t. t \<notin> set stop) toks))
    \<and> (case q4_prefill M prompt of (st, l, h) \<Rightarrow>
         q4_stop M stop (nat budget) st l = Inr (takeWhile (\<lambda>t. t \<notin> set stop) toks))"
proof -
  obtain st l h where pre: "q4_prefill M prompt = (st, l, h)" by (cases "q4_prefill M prompt") auto
  have g: "q4_greedy M (nat budget) st l = Inr toks"
    using assms(4) pre by (simp add: generate_greedy_def)
  let ?s0 = "\<lparr>m_state = st, m_pending = l, m_hyper = h, m_last = last prompt,
                  m_pos = int (length prompt) - 1, m_out = [], m_drafted = 0, m_accepted = 0\<rparr>"
  have "on_track M (nat budget) toks ?s0"
    using g by (cases "nat budget") (auto simp: on_track_def)
  then obtain s' where s': "mtp_loop M (nat num_draft) (nat budget) ?s0 = Some (Inr s')" "m_out s' = toks"
    using mtp_loop_ok[of M "nat num_draft" "nat budget" toks ?s0] assms(2,3) by auto
  then have mtp: "generate_greedy_mtp M prompt budget num_draft
      = Some (Inr (toks, m_drafted s', m_accepted s'))"
    using assms(1) pre by (simp add: generate_greedy_mtp_def)
  moreover have all: "takeWhile (\<lambda>t. True) toks = toks" by (simp add: takeWhile_eq_all_conv)
  have "spec_decode_greedy_qwen4exp M prompt budget num_draft stop
        = Some (Inr (prompt @ takeWhile (\<lambda>t. t \<notin> set stop) toks))"
    using mtp assms(2) first_stop_tail[of stop toks prompt]
    by (auto simp: spec_decode_greedy_qwen4exp_def Let_def all)
  ultimately show ?thesis using q4_stop_takeWhile[OF g, of stop] pre by auto
qed

definition q4_counter :: "(unit, rat, int, unit) q4_model" where
  "q4_counter = \<lparr>q4_prefill = (\<lambda>ids. ((), count_logits (last ids), last ids)),
     q4_step = (\<lambda>_ t. ((), count_logits t, t)), mtp_start = (\<lambda>_. ()),
     mtp_step = (\<lambda>_ t h. ((), count_logits (if h = 2 then 0 else t), t))\<rparr>"

theorem qwen4_spec_is_greedy_witness:
  "spec_decode_greedy_qwen4exp q4_counter [0] 6 2 [3] = Some (Inr [0, 1, 2])"
proof -
  have g: "generate_greedy q4_counter [0] 6 = Inr [1, 2, 3, 0, 1, 2]" by code_simp
  have "\<forall>ms e h. fst (snd (mtp_step q4_counter ms e h)) \<noteq> []"
    by (simp add: q4_counter_def count_logits_def)
  from qwen4_spec_is_greedy[OF _ _ this g, of 2 "[3]"] show ?thesis by auto
qed

end
