(* ===== verification/ChatRender.thy ===== *)
theory ChatRender
  imports PyText
begin

text \<open>
  The rendering half of \<open>serving/encoding_dsv4.py\<close>: the special tokens, the DSML form of a
  tool call, and \<open>render_message\<close>, which writes one message of a conversation.  A message
  is the dict the code receives; \<open>field\<close> is its \<open>get\<close> with default \<open>None\<close>.
  \<open>json.loads\<close> and the \<open>repr\<close> of containers are the parameter \<open>pylib\<close>.
\<close>

section \<open>Special tokens and templates\<close>

definition special :: "string \<Rightarrow> pystr" where
  "special s = lit ''<'' @ [0xFF5C] @ lit s @ [0xFF5C] @ lit ''>''"

definition bos_token :: pystr where
  "bos_token = lit ''<'' @ [0xFF5C] @ lit ''begin'' @ [0x2581] @ lit ''of'' @ [0x2581]
     @ lit ''sentence'' @ [0xFF5C] @ lit ''>''"

definition eos_token :: pystr where
  "eos_token = lit ''<'' @ [0xFF5C] @ lit ''end'' @ [0x2581] @ lit ''of'' @ [0x2581]
     @ lit ''sentence'' @ [0xFF5C] @ lit ''>''"

definition thinking_start_token :: pystr where
  "thinking_start_token = lit ''<think>''"

definition thinking_end_token :: pystr where
  "thinking_end_token = lit ''</think>''"

definition dsml_token :: pystr where
  "dsml_token = [0xFF5C] @ lit ''DSML'' @ [0xFF5C]"

definition USER_SP_TOKEN :: pystr where
  "USER_SP_TOKEN = special ''User''"

definition ASSISTANT_SP_TOKEN :: pystr where
  "ASSISTANT_SP_TOKEN = special ''Assistant''"

definition LATEST_REMINDER_SP_TOKEN :: pystr where
  "LATEST_REMINDER_SP_TOKEN = special ''latest_reminder''"

definition IMAGE_PLACEHOLDER :: pystr where
  "IMAGE_PLACEHOLDER = special ''deepseek_image''"

definition DS_TASK_SP_TOKENS :: "(pystr, pystr) dict" where
  "DS_TASK_SP_TOKENS = map (\<lambda>s. (lit s, special s))
     [''action'', ''query'', ''authority'', ''domain'', ''title'', ''read_url'']"

definition tool_calls_block_name :: pystr where
  "tool_calls_block_name = lit ''tool_calls''"

definition effort_high :: pystr where
  "effort_high = str_join [10]
       [lit ''Reasoning Effort: Absolute maximum with no shortcuts permitted.'',
        lit ''You MUST be very thorough in your thinking and comprehensively decompose the problem to ''
          @ lit ''resolve the root cause, rigorously stress-testing your logic against all potential ''
          @ lit ''paths, edge cases, and adversarial scenarios.'',
        lit ''Explicitly write out your entire deliberation process, documenting every intermediate ''
          @ lit ''step, considered alternative, and rejected hypothesis to ensure absolutely no ''
          @ lit ''assumption is left unchecked.'',
        [],
        []]"

definition effort_max :: pystr where
  "effort_max = str_join [10]
       [lit ''Reasoning Effort: Beyond maximum '' @ [0x2014] @ lit '' exhaustive, relentless, and uncompromising.'',
        lit ''You MUST reason with the utmost depth and rigor, leaving absolutely nothing to chance: ''
          @ lit ''exhaustively decompose the problem into its most fundamental components, trace every ''
          @ lit ''causal chain to its root, and resolve the underlying cause rather than any surface ''
          @ lit ''symptom.'',
        lit ''Do not stop reasoning until you have independently verified the solution from multiple ''
          @ lit ''angles and are certain that no assumption remains unchecked and no error remains ''
          @ lit ''undiscovered.'',
        [],
        []]"

definition REASONING_EFFORT_PROMPTS :: "(pystr, pystr) dict" where
  "REASONING_EFFORT_PROMPTS =
     [(lit ''low'', []), (lit ''high'', effort_high), (lit ''max'', effort_max)]"

definition tools_template :: "pystr \<Rightarrow> pystr" where
  "tools_template tool_schemas = str_join [10]
       [lit ''## Tools'',
        [],
        lit ''You have access to a set of tools to help answer the user'' @ [39] @ lit ''s question. You can invoke ''
          @ lit ''tools by writing a \"<'' @ dsml_token @ lit ''tool_calls>\" block like the following:'',
        [],
        lit ''<'' @ dsml_token @ lit ''tool_calls>'',
        lit ''<'' @ dsml_token @ lit ''invoke name=\"$TOOL_NAME\">'',
        lit ''<'' @ dsml_token
          @ lit ''parameter name=\"$PARAMETER_NAME\" string=\"true|false\">$PARAMETER_VALUE</''
          @ dsml_token @ lit ''parameter>'',
        lit ''...'',
        lit ''</'' @ dsml_token @ lit ''invoke>'',
        lit ''<'' @ dsml_token @ lit ''invoke name=\"$TOOL_NAME2\">'',
        lit ''...'',
        lit ''</'' @ dsml_token @ lit ''invoke>'',
        lit ''</'' @ dsml_token @ lit ''tool_calls>'',
        [],
        lit ''String parameters should be specified as is and set `string=\"true\"`. For all other ''
          @ lit ''types (numbers, booleans, arrays, objects), pass the value in JSON format and set ''
          @ lit ''`string=\"false\"`.'',
        [],
        lit ''If thinking_mode is enabled (triggered by '' @ thinking_start_token
          @ lit ''), you MUST output your complete reasoning inside '' @ thinking_start_token @ lit ''...''
          @ thinking_end_token @ lit '' BEFORE any tool calls or final response.'',
        [],
        lit ''Otherwise, output directly after '' @ thinking_end_token
          @ lit '' with tool calls or final response.'',
        [],
        lit ''### Available Tool Schemas'',
        [],
        tool_schemas,
        [],
        lit ''You MUST strictly follow the above defined tool name and parameter schemas to invoke ''
          @ lit ''tool calls.'',
        []]"

definition response_format_text :: "pystr \<Rightarrow> pystr" where
  "response_format_text schema =
     lit ''## Response Format:'' @ [10, 10]
     @ lit ''You MUST strictly adhere to the following schema to reply:'' @ [10] @ schema"

definition tool_call_text :: "pystr \<Rightarrow> pystr \<Rightarrow> pystr" where
  "tool_call_text name arguments =
     lit ''<'' @ dsml_token @ lit ''invoke name=\"'' @ name @ lit ''\">'' @ [10] @ arguments @ [10]
     @ lit ''</'' @ dsml_token @ lit ''invoke>''"

definition tool_calls_text :: "pystr \<Rightarrow> pystr" where
  "tool_calls_text tool_calls =
     lit ''<'' @ dsml_token @ tool_calls_block_name @ lit ''>'' @ [10] @ tool_calls @ [10]
     @ lit ''</'' @ dsml_token @ tool_calls_block_name @ lit ''>''"

definition tool_output_text :: "pystr \<Rightarrow> pystr" where
  "tool_output_text content = lit ''<tool_result>'' @ content @ lit ''</tool_result>''"

section \<open>Values in text\<close>

record pylib =
  loads :: "pystr \<Rightarrow> pv option"
  crepr :: "pv \<Rightarrow> pystr"

text \<open>\<open>format(v)\<close> of a value in an f-string or \<open>str.format\<close>.\<close>

definition fmt :: "pylib \<Rightarrow> pv \<Rightarrow> pystr" where
  "fmt L v = (case v of
       PStr s \<Rightarrow> s
     | PNone \<Rightarrow> lit ''None''
     | PBool b \<Rightarrow> (if b then lit ''True'' else lit ''False'')
     | PInt i \<Rightarrow> int_str i
     | PFloat r \<Rightarrow> r
     | _ \<Rightarrow> crepr L v)"

text \<open>Iterating over a value, and using it where a \<open>str\<close> is needed.\<close>

fun piter :: "pv \<Rightarrow> py_error + pv list" where
  "piter (PList xs) = Inr xs"
| "piter (PDict d) = Inr (map (\<lambda>p. PStr (fst p)) d)"
| "piter (PStr s) = Inr (map (\<lambda>c. PStr [c]) s)"
| "piter (PBytes b) = Inr (map PInt b)"
| "piter _ = Inl TypeError"

fun need_str :: "pv \<Rightarrow> py_error + pystr" where
  "need_str (PStr s) = Inr s"
| "need_str _ = Inl TypeError"

text \<open>\<open>to_json\<close> fails on values JSON has no form for, also on its second attempt.\<close>

definition to_json :: "pv \<Rightarrow> py_error + pystr" where
  "to_json v = (if json_ok v then Inr (json_dumps v) else Inl TypeError)"

type_synonym msg = "(pystr, pv) dict"

definition field :: "msg \<Rightarrow> string \<Rightarrow> pv" where
  "field m k = (case dget m (lit k) of None \<Rightarrow> PNone | Some v \<Rightarrow> v)"

definition field_or :: "msg \<Rightarrow> string \<Rightarrow> pv \<Rightarrow> pv" where
  "field_or m k dflt = (case dget m (lit k) of None \<Rightarrow> dflt | Some v \<Rightarrow> v)"

definition is_str :: "pv \<Rightarrow> string \<Rightarrow> bool" where
  "is_str v s \<longleftrightarrow> v = PStr (lit s)"

definition str_or_empty :: "pv \<Rightarrow> pv" where
  "str_or_empty v = (if truthy v then v else PStr [])"

section \<open>Tools and tool calls\<close>

definition tools_from_openai_format :: "pv \<Rightarrow> py_error + pv list" where
  "tools_from_openai_format tools = rbind (piter tools) (rmap (\<lambda>t. pindex t (lit ''function'')))"

text \<open>The internal form of a call is the dict with the keys \<open>name\<close> and \<open>arguments\<close>.\<close>

record tool_call =
  tc_name :: pv
  tc_arguments :: pv

definition tool_calls_from_openai_format :: "pv \<Rightarrow> py_error + tool_call list" where
  "tool_calls_from_openai_format tool_calls =
     rbind (piter tool_calls) (rmap (\<lambda>c.
       rbind (pindex c (lit ''function'')) (\<lambda>f.
       rbind (pindex f (lit ''name'')) (\<lambda>n.
       rbind (pindex c (lit ''function'')) (\<lambda>f.
       rbind (pindex f (lit ''arguments'')) (\<lambda>a.
         Inr \<lparr> tc_name = n, tc_arguments = a \<rparr>))))))"

definition tool_calls_to_openai_format :: "tool_call list \<Rightarrow> pv" where
  "tool_calls_to_openai_format tool_calls =
     PList (map (\<lambda>c. PDict [(lit ''type'', PStr (lit ''function'')),
        (lit ''function'', PDict [(lit ''name'', tc_name c), (lit ''arguments'', tc_arguments c)])])
       tool_calls)"

definition parameter_text :: "pystr \<Rightarrow> bool \<Rightarrow> pystr \<Rightarrow> pystr" where
  "parameter_text key is_string v =
     lit ''<'' @ dsml_token @ lit ''parameter name=\"'' @ key @ lit ''\" string=\"''
     @ (if is_string then lit ''true'' else lit ''false'') @ lit ''\">'' @ v
     @ lit ''</'' @ dsml_token @ lit ''parameter>''"

fun value_text :: "pv \<Rightarrow> py_error + pystr" where
  "value_text (PStr s) = Inr s"
| "value_text v = to_json v"

fun is_text :: "pv \<Rightarrow> bool" where
  "is_text (PStr s) = True"
| "is_text _ = False"

text \<open>Arguments that are not JSON text become the one argument \<open>arguments\<close>.\<close>

definition load_arguments :: "pylib \<Rightarrow> pv \<Rightarrow> pv" where
  "load_arguments L a =
     (let fallback = PDict [(lit ''arguments'', a)]
      in case a of PStr s \<Rightarrow> (case loads L s of None \<Rightarrow> fallback | Some v \<Rightarrow> v) | _ \<Rightarrow> fallback)"

fun pitems :: "pv \<Rightarrow> py_error + (pystr \<times> pv) list" where
  "pitems (PDict d) = Inr d"
| "pitems _ = Inl AttributeError"

definition encode_arguments_to_dsml :: "pylib \<Rightarrow> tool_call \<Rightarrow> py_error + pystr" where
  "encode_arguments_to_dsml L c =
     rbind (pitems (load_arguments L (tc_arguments c))) (\<lambda>args.
     rbind (rmap (\<lambda>(k, v). rbind (value_text v) (\<lambda>t. Inr (parameter_text k (is_text v) t))) args) (\<lambda>ps.
       Inr (str_join [10] ps)))"

text \<open>
  \<open>tool_args\<close> maps a parameter name to its text and its string flag, in insertion order.
\<close>

definition decode_dsml_to_arguments :: "pystr \<Rightarrow> (pystr, pystr \<times> bool) dict \<Rightarrow> tool_call" where
  "decode_dsml_to_arguments tool_name tool_args =
     \<lparr> tc_name = PStr tool_name,
       tc_arguments = PStr (lit ''{'' @ str_join (lit '', '')
         (map (\<lambda>(k, v, is_string). json_string k @ lit '': ''
                 @ (if is_string then json_string v else v)) tool_args) @ lit ''}'') \<rparr>"

definition render_tools :: "pv list \<Rightarrow> py_error + pystr" where
  "render_tools tools = rbind (rmap to_json tools) (\<lambda>ts. Inr (tools_template (str_join [10] ts)))"

section \<open>One message\<close>

definition is_user_role :: "msg \<Rightarrow> bool" where
  "is_user_role m \<longleftrightarrow> is_str (field m ''role'') ''user'' \<or> is_str (field m ''role'') ''developer''"

fun last_user_before :: "msg list \<Rightarrow> nat \<Rightarrow> int" where
  "last_user_before ms 0 = -1"
| "last_user_before ms (Suc i) = (if is_user_role (ms ! i) then int i else last_user_before ms i)"

definition find_last_user_index :: "msg list \<Rightarrow> int" where
  "find_last_user_index ms = last_user_before ms (length ms)"

definition effort_prefix :: "nat \<Rightarrow> pystr \<Rightarrow> pystr option \<Rightarrow> py_error + pystr" where
  "effort_prefix index mode effort =
     (let e = (case effort of None \<Rightarrow> lit ''low'' | Some e \<Rightarrow> if e = [] then lit ''low'' else e)
      in case dget REASONING_EFFORT_PROMPTS e of
           None \<Rightarrow> Inl AssertionError
         | Some p \<Rightarrow> Inr (if index = 0 \<and> mode = lit ''thinking'' then p else []))"

text \<open>The tool schemas and the response format a system or developer message carries.\<close>

definition tools_suffix :: "pv list \<Rightarrow> py_error + pystr" where
  "tools_suffix tools =
     (if tools = [] then Inr [] else rbind (render_tools tools) (\<lambda>t. Inr ([10, 10] @ t)))"

definition format_suffix :: "pv \<Rightarrow> py_error + pystr" where
  "format_suffix response_format =
     (if truthy response_format
      then rbind (to_json response_format) (\<lambda>t. Inr ([10, 10] @ response_format_text t))
      else Inr [])"

definition render_system :: "pylib \<Rightarrow> msg \<Rightarrow> pv list \<Rightarrow> py_error + pystr" where
  "render_system L m tools =
     rbind (tools_suffix tools) (\<lambda>t. rbind (format_suffix (field m ''response_format'')) (\<lambda>r.
       Inr (fmt L (str_or_empty (field m ''content'')) @ t @ r)))"

definition render_developer :: "msg \<Rightarrow> pv list \<Rightarrow> py_error + pystr" where
  "render_developer m tools =
     (if \<not> truthy (field m ''content'') then Inl AssertionError
      else rbind (need_str (field m ''content'')) (\<lambda>c.
           rbind (tools_suffix tools) (\<lambda>t. rbind (format_suffix (field m ''response_format'')) (\<lambda>r.
             Inr (USER_SP_TOKEN @ c @ t @ r)))))"

definition unsupported :: "pylib \<Rightarrow> pv \<Rightarrow> pystr" where
  "unsupported L v = lit ''[Unsupported '' @ fmt L v @ lit '']''"

text \<open>One block of a tool result's content list, then the text of the result.\<close>

definition result_part :: "pylib \<Rightarrow> pv \<Rightarrow> py_error + pv" where
  "result_part L b =
     rbind (pget b (lit ''type'') PNone) (\<lambda>ty.
       if is_str ty ''text'' then pget b (lit ''text'') (PStr [])
       else Inr (PStr (unsupported L ty)))"

definition join_parts :: "pv list \<Rightarrow> py_error + pystr" where
  "join_parts parts = rbind (rmap need_str parts) (\<lambda>ts. Inr (str_join [10, 10] ts))"

definition tool_result_text :: "pylib \<Rightarrow> pv \<Rightarrow> py_error + pystr" where
  "tool_result_text L content =
     (case content of
        PList bs \<Rightarrow> rbind (rmap (result_part L) bs) join_parts
      | _ \<Rightarrow> Inr (fmt L content))"

definition block_part :: "pylib \<Rightarrow> pv \<Rightarrow> py_error + pv" where
  "block_part L b =
     rbind (pget b (lit ''type'') PNone) (\<lambda>ty.
       if is_str ty ''text'' then pget b (lit ''text'') (PStr [])
       else if is_str ty ''tool_result'' then
         rbind (pget b (lit ''content'') (PStr [])) (\<lambda>c.
         rbind (tool_result_text L c) (\<lambda>t. Inr (PStr (tool_output_text t))))
       else Inr (PStr (unsupported L ty)))"

definition render_user :: "pylib \<Rightarrow> msg \<Rightarrow> py_error + pystr" where
  "render_user L m =
     rbind (if truthy (field m ''content_blocks'')
            then rbind (piter (field m ''content_blocks'')) (\<lambda>bs.
                 rbind (rmap (block_part L) bs) join_parts)
            else need_str (str_or_empty (field m ''content'')))
       (\<lambda>t. Inr (USER_SP_TOKEN @ t))"

text \<open>\<open>task\<close> of the message before \<open>index\<close>.\<close>

definition prev_has_task :: "nat \<Rightarrow> msg list \<Rightarrow> bool" where
  "prev_has_task index ms \<longleftrightarrow> 0 < index \<and> field (ms ! (index - 1)) ''task'' \<noteq> PNone"

definition render_assistant ::
  "pylib \<Rightarrow> nat \<Rightarrow> msg list \<Rightarrow> pystr \<Rightarrow> bool \<Rightarrow> tool_call list \<Rightarrow> py_error + pystr" where
  "render_assistant L index ms mode drop_thinking tool_calls =
     (let m = ms ! index
      in rbind (if tool_calls = [] then Inr []
                else rbind (rmap (\<lambda>c. rbind (encode_arguments_to_dsml L c) (\<lambda>a.
                              Inr (tool_call_text (fmt L (tc_name c)) a))) tool_calls) (\<lambda>tcs.
                     Inr ([10, 10] @ tool_calls_text (str_join [10] tcs)))) (\<lambda>tc_content.
         let summary = fmt L (str_or_empty (field m ''content''));
             rc = fmt L (str_or_empty (field m ''reasoning_content''));
             thinking_part =
               (if mode = lit ''thinking'' \<and> \<not> prev_has_task index ms
                    \<and> (\<not> drop_thinking \<or> int index > find_last_user_index ms)
                then rc @ thinking_end_token else [])
         in Inr (thinking_part @ summary @ tc_content
                 @ (if truthy (field_or m ''wo_eos'' (PBool False)) then [] else eos_token))))"

definition hashable :: "pv \<Rightarrow> bool" where
  "hashable v \<longleftrightarrow> (case v of PList _ \<Rightarrow> False | PDict _ \<Rightarrow> False | _ \<Rightarrow> True)"

text \<open>The tokens that hand over to the next speaker.\<close>

definition transition :: "nat \<Rightarrow> msg list \<Rightarrow> pystr \<Rightarrow> bool \<Rightarrow> py_error + pystr" where
  "transition index ms mode drop_thinking =
     (let thinking = (mode = lit ''thinking'');
          task = field (ms ! index) ''task''
      in if index + 1 < length ms
            \<and> \<not> is_str (field (ms ! (index + 1)) ''role'') ''assistant''
            \<and> \<not> is_str (field (ms ! (index + 1)) ''role'') ''latest_reminder''
         then Inr []
         else if task \<noteq> PNone then
           (if \<not> hashable task then Inl TypeError
            else case (case task of PStr t \<Rightarrow> dget DS_TASK_SP_TOKENS t | _ \<Rightarrow> None) of
                   None \<Rightarrow> Inl AssertionError
                 | Some sp \<Rightarrow>
                     (if \<not> is_str task ''action'' then Inr sp
                      else Inr (ASSISTANT_SP_TOKEN
                        @ (if \<not> thinking then thinking_end_token else thinking_start_token) @ sp)))
         else if is_user_role (ms ! index) then
           Inr (ASSISTANT_SP_TOKEN
             @ (if \<not> drop_thinking \<and> thinking then thinking_start_token
                else if drop_thinking \<and> thinking \<and> int index \<ge> find_last_user_index ms
                then thinking_start_token
                else thinking_end_token))
         else Inr [])"

definition render_body ::
  "pylib \<Rightarrow> nat \<Rightarrow> msg list \<Rightarrow> pystr \<Rightarrow> bool \<Rightarrow> pv list \<Rightarrow> tool_call list \<Rightarrow> py_error + pystr" where
  "render_body L index ms mode drop_thinking tools tool_calls =
     (let m = ms ! index; role = field m ''role''
      in if is_str role ''system'' then render_system L m tools
         else if is_str role ''developer'' then render_developer m tools
         else if is_str role ''user'' then render_user L m
         else if is_str role ''latest_reminder''
           then Inr (LATEST_REMINDER_SP_TOKEN @ fmt L (field m ''content''))
         else if is_str role ''tool'' then Inl NotImplementedError
         else if is_str role ''assistant''
           then render_assistant L index ms mode drop_thinking tool_calls
         else Inl NotImplementedError)"

definition render_message ::
  "pylib \<Rightarrow> nat \<Rightarrow> msg list \<Rightarrow> pystr \<Rightarrow> bool \<Rightarrow> pystr option \<Rightarrow> py_error + pystr" where
  "render_message L index ms mode drop_thinking effort =
     (if \<not> index < length ms then Inl AssertionError
      else if mode \<noteq> lit ''chat'' \<and> mode \<noteq> lit ''thinking'' then Inl AssertionError
      else let m = ms ! index in
        rbind (if truthy (field m ''tools'') then tools_from_openai_format (field m ''tools'') else Inr []) (\<lambda>tools.
        rbind (if truthy (field m ''tool_calls'') then tool_calls_from_openai_format (field m ''tool_calls'')
               else Inr []) (\<lambda>tool_calls.
        rbind (effort_prefix index mode effort) (\<lambda>prefix.
        rbind (render_body L index ms mode drop_thinking tools tool_calls) (\<lambda>body.
        rbind (transition index ms mode drop_thinking) (\<lambda>next.
          Inr (prefix @ body @ next)))))))"

end
