(* ===== verification/ChatParse.thy ===== *)
theory ChatParse
  imports ChatRender
begin

text \<open>
  The parsing half of \<open>serving/encoding_dsv4.py\<close>: a model completion is split at its stop
  tokens into reasoning, content and tool calls.  Positions are indices into the whole text, as
  in the code; the two loops of \<open>parse_tool_calls\<close> are functions whose termination follows
  from the position growing.  The regular expressions are written out: each is anchored at both
  ends, where \<open>$\<close> also matches before a final newline.
\<close>

section \<open>Reading up to a stop\<close>

definition nearest :: "pystr \<Rightarrow> nat \<Rightarrow> nat \<times> pystr option \<Rightarrow> pystr \<Rightarrow> nat \<times> pystr option" where
  "nearest text index best s =
     (case str_find_from s text index of
        Some pos \<Rightarrow> if pos < fst best then (pos, Some s) else best
      | None \<Rightarrow> best)"

definition read_until_stop :: "nat \<Rightarrow> pystr \<Rightarrow> pystr list \<Rightarrow> nat \<times> pystr \<times> pystr option" where
  "read_until_stop index text stop =
     (case foldl (nearest text index) (length text, None) stop of
        (min_pos, Some s) \<Rightarrow> (min_pos + length s, take (min_pos - index) (drop index text), Some s)
      | (_, None) \<Rightarrow> (length text, drop index text, None))"

section \<open>The regular expressions\<close>

definition strip_suffix :: "pystr \<Rightarrow> pystr \<Rightarrow> pystr option" where
  "strip_suffix p s =
     (if length p \<le> length s \<and> drop (length s - length p) s = p
      then Some (take (length s - length p) s) else None)"

text \<open>\<open>(.*?)p$\<close> with \<open>p\<close> not ending in a double newline.\<close>

definition match_to_end :: "pystr \<Rightarrow> pystr \<Rightarrow> pystr option" where
  "match_to_end p s =
     (case strip_suffix p s of Some g \<Rightarrow> Some g | None \<Rightarrow> strip_suffix (p @ [10]) s)"

text \<open>\<open>^\s*name="(.*?)">\n$\<close>\<close>

definition tool_name_of :: "pystr \<Rightarrow> pystr option" where
  "tool_name_of s =
     (let t = dropWhile is_space s; p = lit ''name=\"''
      in if starts_with p t then match_to_end (lit ''\">'' @ [10]) (drop (length p) t) else None)"

text \<open>\<open>^ name="(.*?)" string="(true|false)">(.*?)<$\<close>: the first place that fits.\<close>

definition flag_text :: "bool \<Rightarrow> pystr" where
  "flag_text is_string =
     lit ''\" string=\"'' @ (if is_string then lit ''true'' else lit ''false'') @ lit ''\">''"

definition flag_value :: "bool \<Rightarrow> pystr \<Rightarrow> pystr option" where
  "flag_value is_string s =
     (if starts_with (flag_text is_string) s
      then match_to_end (lit ''<'') (drop (length (flag_text is_string)) s) else None)"

fun param_scan :: "pystr \<Rightarrow> pystr \<Rightarrow> (pystr \<times> pystr \<times> bool) option" where
  "param_scan name s =
     (case flag_value True s of
        Some v \<Rightarrow> Some (name, v, True)
      | None \<Rightarrow> (case flag_value False s of
          Some v \<Rightarrow> Some (name, v, False)
        | None \<Rightarrow> (case s of [] \<Rightarrow> None | c # cs \<Rightarrow> param_scan (name @ [c]) cs)))"

definition param_kv :: "pystr \<Rightarrow> (pystr \<times> pystr \<times> bool) option" where
  "param_kv s =
     (let p = lit '' name=\"'' in if starts_with p s then param_scan [] (drop (length p) s) else None)"

section \<open>Tool calls\<close>

definition invoke_open :: pystr where "invoke_open = lit ''<'' @ dsml_token @ lit ''invoke''"
definition invoke_close :: pystr where "invoke_close = lit ''</'' @ dsml_token @ lit ''invoke''"
definition param_open :: pystr where "param_open = lit ''<'' @ dsml_token @ lit ''parameter''"
definition param_close :: pystr where "param_close = lit ''/'' @ dsml_token @ lit ''parameter''"

definition tool_calls_end_token :: pystr where
  "tool_calls_end_token = lit ''</'' @ dsml_token @ tool_calls_block_name @ lit ''>''"

definition tool_calls_start_token :: pystr where
  "tool_calls_start_token = [10, 10] @ lit ''<'' @ dsml_token @ tool_calls_block_name"

abbreviation gt_newline :: pystr where "gt_newline \<equiv> [62, 10]"

lemma foldl_nearest:
  assumes "foldl (nearest text index) (m, None) stop = (pos, r)"
  shows "(case r of None \<Rightarrow> pos = m
    | Some s \<Rightarrow> s \<in> set stop \<and> index \<le> pos \<and> starts_with s (drop pos text))"
proof -
  have "(case r of None \<Rightarrow> pos = m
      | Some s \<Rightarrow> s \<in> S \<and> index \<le> pos \<and> starts_with s (drop pos text))"
    if "foldl (nearest text index) (b, q) stop = (pos, r)" "set stop \<subseteq> S"
      "case q of None \<Rightarrow> b = m | Some s \<Rightarrow> s \<in> S \<and> index \<le> b \<and> starts_with s (drop b text)" for b q S
    using that
  proof (induction stop arbitrary: b q)
    case (Cons s stop)
    obtain b' q' where n: "nearest text index (b, q) s = (b', q')" by force
    have "case q' of None \<Rightarrow> b' = m | Some s \<Rightarrow> s \<in> S \<and> index \<le> b' \<and> starts_with s (drop b' text)"
    proof (cases "str_find s (drop index text)")
      case None
      with n Cons.prems(3) show ?thesis by (auto simp: nearest_def str_find_from_def)
    next
      case (Some k)
      then have "starts_with s (drop (k + index) text)" using str_find_Some by fastforce
      with n Cons.prems Some show ?thesis
        by (auto simp: nearest_def str_find_from_def split: if_splits)
    qed
    with n Cons show ?case by simp
  qed simp
  with assms show ?thesis by fastforce
qed

lemma foldl_nearest_le: "fst (foldl (nearest text index) (b, q) stop) \<le> b"
proof (induction stop arbitrary: b q)
  case (Cons s stop)
  obtain b' q' where n: "nearest text index (b, q) s = (b', q')" by force
  then have "b' \<le> b" by (auto simp: nearest_def split: option.splits if_splits)
  with Cons[of b' q'] n show ?case by simp
qed simp

text \<open>Reading moves forward by what it read, and stays inside the text.\<close>

lemma read_until_stop_progress:
  assumes "read_until_stop index text stop = (i, c, st)" "index \<le> length text"
  shows "index + length c \<le> i \<and> i \<le> length text \<and> (st \<noteq> None \<longrightarrow> [] \<notin> set stop \<longrightarrow> index < i)"
proof (cases "foldl (nearest text index) (length text, None) stop")
  case (Pair pos r)
  show ?thesis
  proof (cases r)
    case None
    with Pair assms show ?thesis by (auto simp: read_until_stop_def)
  next
    case (Some s)
    then have s: "s \<in> set stop" "index \<le> pos" "starts_with s (drop pos text)"
      using foldl_nearest[OF Pair] by simp_all
    then have "length (take (length s) (drop pos text)) = length s" by (simp add: starts_with_def)
    then have "pos + length s \<le> length text \<or> s = []"
      by (cases s) (auto simp: min_def split: if_splits)
    moreover have "pos \<le> length text" using foldl_nearest_le[of "text" index "length text" None stop] Pair by simp
    moreover have "[] \<notin> set stop \<longrightarrow> 0 < length s" using s(1) by (cases s) auto
    ultimately show ?thesis using Pair Some assms s
      by (cases s) (auto simp: read_until_stop_def)
  qed
qed

function parse_params ::
  "pystr \<Rightarrow> nat \<Rightarrow> pystr option \<Rightarrow> (pystr, pystr \<times> bool) dict
     \<Rightarrow> py_error + (nat \<times> pystr option \<times> (pystr, pystr \<times> bool) dict)" where
  "parse_params text index stop_token args =
     (if stop_token \<noteq> Some param_open then Inr (index, stop_token, args)
      else case read_until_stop index text [param_close] of (i1, content1, _) \<Rightarrow>
        (case param_kv content1 of
           None \<Rightarrow> Inl ValueError
         | Some (name, v, is_string) \<Rightarrow>
             if name \<in> set (dkeys args) then Inl ValueError
             else case read_until_stop i1 text [param_open, invoke_close] of (i2, content2, st) \<Rightarrow>
               (if content2 \<noteq> gt_newline then Inl ValueError
                else parse_params text i2 st (dset name (v, is_string) args))))"
  by pat_completeness auto

lemma param_kv_Nil [simp]: "param_kv [] = None"
  by (simp add: param_kv_def starts_with_def lit_def)

lemma read_until_stop_beyond:
  assumes "length text < index"
  shows "read_until_stop index text stop = (i, c, st) \<Longrightarrow> c = []"
  using assms by (auto simp: read_until_stop_def split: prod.splits option.splits)

lemma parse_params_moves:
  assumes "read_until_stop i (text) stop = (i1, c1, st1)" "param_kv c1 \<noteq> None"
    and "read_until_stop i1 (text) stop' = (i2, gt_newline, st2)"
  shows "i < i2 \<and> i2 \<le> length (text)"
proof -
  have "i \<le> length (text)"
  proof (rule leI, rule notI)
    assume "length (text) < i"
    from read_until_stop_beyond[OF this assms(1)] assms(2) show False by simp
  qed
  then have "i \<le> i1" "i1 \<le> length (text)"
    using read_until_stop_progress[OF assms(1)] by auto
  then show ?thesis using read_until_stop_progress[OF assms(3)] by simp
qed

lemma parse_params_less:
  assumes "(i1, c1, st1) = read_until_stop i s stop" "param_kv c1 = Some kv"
    and "(i2, gt_newline, st2) = read_until_stop i1 s stop'"
  shows "length s - i2 < length s - i"
  using parse_params_moves[OF assms(1)[symmetric] _ assms(3)[symmetric]] assms(2)
  by (auto intro: diff_less_mono2)

termination parse_params
  by (relation "measure (\<lambda>(text, index, _, _). length text - index)")
     (simp, clarsimp, erule parse_params_less, assumption, assumption)

declare parse_params.simps [simp del]

text \<open>The parameter loop never goes back.\<close>

lemma parse_params_mono:
  "parse_params s i st args = Inr (i', st', args') \<Longrightarrow> i \<le> length s \<Longrightarrow> i \<le> i' \<and> i' \<le> length s"
proof (induction s i st args rule: parse_params.induct)
  case (1 s i st args)
  show ?case
  proof (cases "st = Some param_open")
    case False
    with "1.prems" show ?thesis by (simp add: parse_params.simps)
  next
    case True
    obtain i1 c1 st1 where r1: "read_until_stop i s [param_close] = (i1, c1, st1)" by (metis prod.exhaust)
    obtain i2 c2 st2 where r2: "read_until_stop i1 s [param_open, invoke_close] = (i2, c2, st2)"
      by (metis prod.exhaust)
    from "1.prems"(1) True r1 r2 obtain name v is_string where kv: "param_kv c1 = Some (name, v, is_string)"
      and new: "name \<notin> set (dkeys args)" and c2: "c2 = gt_newline"
      and rest: "parse_params s i2 st2 (dset name (v, is_string) args) = Inr (i', st', args')"
      by (subst (asm) parse_params.simps) (auto split: option.splits if_splits)
    from parse_params_moves[OF r1 _ r2[unfolded c2]] kv have m: "i < i2" "i2 \<le> length s" by auto
    have "i2 \<le> i' \<and> i' \<le> length s"
      by (rule "1.IH"[OF _ r1[symmetric] refl kv refl refl new r2[symmetric] refl _ rest m(2)])
         (simp_all add: True c2)
    with m show ?thesis by simp
  qed
qed

lemma parse_tool_calls_less:
  assumes "(i1, gt_newline, st1) = read_until_stop i s stop" "(i2, c2, st2) = read_until_stop i1 s stop'"
    and "parse_params s i2 st2 [] = Inr (i3, st3, args)" and "i < length s"
  shows "length s - i3 < length s - i"
proof -
  have "i + 2 \<le> i1" "i1 \<le> length s"
    using read_until_stop_progress[OF assms(1)[symmetric]] assms(4) by auto
  moreover from this have "i1 \<le> i2" "i2 \<le> length s"
    using read_until_stop_progress[OF assms(2)[symmetric]] by auto
  moreover from this have "i2 \<le> i3" using parse_params_mono[OF assms(3)] by auto
  ultimately show ?thesis using assms(4) by (intro diff_less_mono2) auto
qed

function parse_tool_calls ::
  "pystr \<Rightarrow> nat \<Rightarrow> pystr option \<Rightarrow> tool_call list \<Rightarrow> py_error + (nat \<times> pystr option \<times> tool_call list)" where
  "parse_tool_calls text index stop_token calls =
     (if \<not> index < length text then Inr (index, stop_token, calls)
      else case read_until_stop index text [invoke_open, tool_calls_end_token] of (i1, content1, st1) \<Rightarrow>
        (if content1 \<noteq> gt_newline then Inl ValueError
         else if st1 = Some tool_calls_end_token then Inr (i1, st1, calls)
         else if st1 = None then Inl ValueError
         else case read_until_stop i1 text [param_open, invoke_close] of (i2, content2, st2) \<Rightarrow>
           (case tool_name_of content2 of
              None \<Rightarrow> Inl ValueError
            | Some name \<Rightarrow>
                (case parse_params text i2 st2 [] of
                   Inl e \<Rightarrow> Inl e
                 | Inr (i3, st3, args) \<Rightarrow>
                     parse_tool_calls text i3 st3 (calls @ [decode_dsml_to_arguments name args])))))"
  by pat_completeness auto

termination parse_tool_calls
  by (relation "measure (\<lambda>(text, index, _, _). length text - index)")
     (simp, clarsimp, erule notE, erule parse_tool_calls_less, assumption, assumption, assumption)

declare parse_tool_calls.simps [simp del]

section \<open>A completion\<close>

definition special_tokens :: "pystr list" where
  "special_tokens = [bos_token, eos_token, thinking_start_token, thinking_end_token, dsml_token]"

definition parsed_message :: "pystr \<Rightarrow> pystr \<Rightarrow> tool_call list \<Rightarrow> pv" where
  "parsed_message content reasoning tool_calls = PDict
     [(lit ''role'', PStr (lit ''assistant'')), (lit ''content'', PStr content),
      (lit ''reasoning_content'', PStr reasoning),
      (lit ''tool_calls'', tool_calls_to_openai_format tool_calls)]"

definition parse_message_from_completion_text :: "pystr \<Rightarrow> pystr \<Rightarrow> py_error + pv" where
  "parse_message_from_completion_text text mode =
     rbind (if mode = lit ''thinking'' then
              (case read_until_stop 0 text [thinking_end_token, tool_calls_start_token] of (i, c, st) \<Rightarrow>
                 if st = Some thinking_end_token then Inr (i, c) else Inl AssertionError)
            else Inr (0, [])) (\<lambda>(i0, reasoning).
     case read_until_stop i0 text [eos_token, tool_calls_start_token] of (i1, summary, st1) \<Rightarrow>
     rbind (if st1 = Some tool_calls_start_token then
              rbind (parse_tool_calls text i1 st1 []) (\<lambda>(i2, _, calls).
                case read_until_stop i2 text [eos_token] of (i3, ends, st3) \<Rightarrow>
                  if ends \<noteq> [] then Inl AssertionError else Inr (i3, st3, calls))
            else if st1 = Some eos_token then Inr (i1, st1, [])
            else Inl AssertionError) (\<lambda>(i, st, calls).
       if length text \<noteq> i \<or> (st \<noteq> Some eos_token \<and> st \<noteq> None) then Inl AssertionError
       else if list_ex (\<lambda>sp. str_in sp summary \<or> str_in sp reasoning) special_tokens
       then Inl AssertionError
       else Inr (parsed_message summary reasoning calls)))"

end
