(* ===== verification/ChatRoundtrip.thy ===== *)
theory ChatRoundtrip
  imports ChatParse
begin

text \<open>
  The parser of \<open>serving/encoding_dsv4.py\<close> undoes the renderer: a rendered assistant turn is
  parsed back to the message it came from.  The first sections locate the stop tokens in rendered
  text, the later ones follow the parser through a list of tool calls.
\<close>

section \<open>Finding tokens behind text free of the bar\<close>

text \<open>
  All special tokens but the thinking tags contain the fullwidth bar.  In text without it an
  occurrence of one token can be located by its first bar.
\<close>

abbreviation bar :: int where "bar \<equiv> 0xFF5C"

definition plain :: "pystr \<Rightarrow> bool" where
  "plain s \<longleftrightarrow> bar \<notin> set s"

lemma find_later:
  assumes x: "c \<notin> set x" and A: "A = a' @ c # w @ c # z" and B: "B = a @ c # b"
    and free: "c \<notin> set a'" "c \<notin> set w" and len: "length a \<le> length a' + length w"
    and clash: "a \<noteq> [] \<and> a' \<noteq> [] \<and> last a \<noteq> last a' \<or> b \<noteq> [] \<and> w \<noteq> [] \<and> hd b \<noteq> hd w"
    and k: "str_find B (x @ A @ r) = Some k"
  shows "length x < k"
proof -
  let ?S = "x @ A @ r"
  have occ: "take (length B) (drop k ?S) = B" "k \<le> length ?S"
    using str_find_Some[OF k] by (simp_all add: starts_with_def)
  have at: "?S ! (k + i) = B ! i" if "i < length B" for i
    using nth_take_drop[of i "length B" k ?S] occ that by simp
  let ?p = "length x + length a'"
  have c: "?S ! (k + length a) = c" using at[of "length a"] by (simp add: B)
  have "k + length a = ?p \<or> ?p + length w < k + length a"
  proof (rule ccontr)
    assume n: "\<not> ?thesis"
    show False
    proof (cases "k + length a < ?p")
      case True
      then have "?S ! (k + length a) \<in> set (x @ a')"
        by (auto simp: A nth_append)
      with c x free(1) show False by auto
    next
      case False
      then have "?S ! (k + length a) = w ! (k + length a - ?p - 1)" "k + length a - ?p - 1 < length w"
        using n by (auto simp: A nth_append nth_Cons')
      with c free(2) show False by (metis nth_mem)
    qed
  qed
  then show ?thesis
  proof
    assume p: "k + length a = ?p"
    from clash show ?thesis
    proof (elim disjE conjE)
      assume n: "a \<noteq> []" "a' \<noteq> []" and l: "last a \<noteq> last a'"
      have "?S ! (k + (length a - 1)) = last a"
        using at[of "length a - 1"] n by (simp add: B nth_append last_conv_nth)
      moreover have "k + (length a - 1) = length x + (length a' - 1)"
        using p n by (cases a; cases a') auto
      ultimately show ?thesis using n l by (simp add: A nth_append last_conv_nth)
    next
      assume n: "b \<noteq> []" "w \<noteq> []" and h: "hd b \<noteq> hd w"
      have "?S ! (k + (length a + 1)) = hd b"
        using at[of "length a + 1"] n by (simp add: B nth_append hd_conv_nth)
      moreover have "k + (length a + 1) = ?p + 1" using p by simp
      ultimately show ?thesis using n h by (simp add: A nth_append hd_conv_nth)
    qed
  next
    assume "?p + length w < k + length a"
    with len show ?thesis by simp
  qed
qed

lemma find_past:
  assumes "c \<notin> set x" "c \<notin> set A" "B = a @ c # b" "length a < length A"
    and k: "str_find B (x @ A @ r) = Some k"
  shows "length x < k"
proof -
  let ?S = "x @ A @ r"
  have occ: "take (length B) (drop k ?S) = B" "k \<le> length ?S"
    using str_find_Some[OF k] by (simp_all add: starts_with_def)
  have "?S ! (k + length a) = c"
    using nth_take_drop[of "length a" "length B" k ?S] occ assms(3) by simp
  moreover have "?S ! i \<noteq> c" if "i < length x + length A" for i
    using that assms(1,2) by (auto simp: nth_append)
  ultimately have "length x + length A \<le> k + length a" by (metis not_less)
  with assms(4) show ?thesis by simp
qed

text \<open>A pattern whose first character does not recur in it.\<close>

lemma find_fresh_head:
  assumes p: "p = c # b" "c \<notin> set b" and x: "\<not> str_in p x"
  shows "str_find p (x @ p @ r) = Some (length x)"
proof (rule str_find_at)
  fix j assume j: "j < length x"
  show "\<not> starts_with p (drop j (x @ p @ r))"
  proof
    assume s: "starts_with p (drop j (x @ p @ r))"
    then have eq: "take (length p) (drop j (x @ p @ r)) = p" by (simp add: starts_with_def)
    show False
    proof (cases "j + length p \<le> length x")
      case True
      then have "take (length p) (drop j x) = p" using eq by simp
      then have "x = take j x @ p @ drop (j + length p) x"
        by (metis add.commute append_take_drop_id drop_drop)
      with x show False unfolding str_in_iff by blast
    next
      case False
      then have i: "length x - j < length p" "length x - j > 0" using j by auto
      have "take (length p) (drop j (x @ p @ r)) ! (length x - j) = (x @ p @ r) ! (j + (length x - j))"
        using i j by (intro nth_take_drop) auto
      also have "\<dots> = c" using j p by simp
      finally have "p ! (length x - j) = c" using eq by simp
      moreover have "p ! (length x - j) \<in> set b" using i p by (auto simp: nth_Cons')
      ultimately show False using p by metis
    qed
  qed
qed simp_all

section \<open>Reading a stop whose place is known\<close>

lemma read_until_stop_1:
  assumes d: "drop i s = x @ A @ r" and A: "A \<noteq> []" and f: "str_find A (x @ A @ r) = Some (length x)"
  shows "read_until_stop i s [A] = (i + length x + length A, x, Some A)"
proof -
  have "length s - i = length x + length A + length r" using arg_cong[OF d, of length] by simp
  moreover have "0 < length A" using A by simp
  ultimately have "length x + i < length s" by linarith
  then show ?thesis using d f
    by (simp add: read_until_stop_def nearest_def str_find_from_def)
qed

lemma read_until_stop_2:
  assumes d: "drop i s = x @ A @ r" and A: "A \<noteq> []" and f: "str_find A (x @ A @ r) = Some (length x)"
    and g: "\<And>k. str_find B (x @ A @ r) = Some k \<Longrightarrow> length x < k"
  shows "read_until_stop i s [A, B] = (i + length x + length A, x, Some A)"
    and "read_until_stop i s [B, A] = (i + length x + length A, x, Some A)"
proof -
  have "length s - i = length x + length A + length r" using arg_cong[OF d, of length] by simp
  moreover have "0 < length A" using A by simp
  ultimately have l: "length x + i < length s" by linarith
  show "read_until_stop i s [A, B] = (i + length x + length A, x, Some A)"
    using d f g l by (cases "str_find B (x @ A @ r)")
      (auto simp: read_until_stop_def nearest_def str_find_from_def dest: less_imp_le)
  show "read_until_stop i s [B, A] = (i + length x + length A, x, Some A)"
    using d f g l by (cases "str_find B (x @ A @ r)")
      (auto simp: read_until_stop_def nearest_def str_find_from_def)
qed

lemma drop_after: "drop i s = x @ A @ r \<Longrightarrow> drop (i + length x + length A) s = r"
  by (metis add.assoc append_assoc append_eq_conv_conj drop_drop add.commute length_append)

lemmas token_defs = invoke_open_def invoke_close_def param_open_def param_close_def
  tool_calls_end_token_def tool_calls_start_token_def eos_token_def dsml_token_def
  tool_calls_block_name_def lit_def

lemma read_dsml:
  assumes d: "drop i s = x @ A @ r" and x: "plain x"
    and AB: "(A, B) \<in> {(invoke_open, tool_calls_end_token), (tool_calls_end_token, invoke_open),
       (param_open, invoke_close), (invoke_close, param_open),
       (eos_token, tool_calls_start_token), (tool_calls_start_token, eos_token)}"
  shows "read_until_stop i s [A, B] = (i + length x + length A, x, Some A)"
    and "read_until_stop i s [B, A] = (i + length x + length A, x, Some A)"
proof -
  obtain a' w z a b where A: "A = a' @ bar # w @ bar # z" and B: "B = a @ bar # b"
    and free: "bar \<notin> set a'" "bar \<notin> set w" and len: "length a \<le> length a' + length w"
    and clash: "a \<noteq> [] \<and> a' \<noteq> [] \<and> last a \<noteq> last a' \<or> b \<noteq> [] \<and> w \<noteq> [] \<and> hd b \<noteq> hd w"
  proof -
    let ?lt = "lit ''<''" and ?ltc = "lit ''</''" and ?D = "lit ''DSML''"
    from AB show ?thesis
    proof (elim insertE emptyE Pair_inject)
      assume "A = invoke_open" "B = tool_calls_end_token"
      then show ?thesis
        by (intro that[of ?lt ?D "lit ''invoke''" ?ltc "?D @ bar # lit ''tool_calls>''"])
           (simp_all add: token_defs)
    next
      assume "A = tool_calls_end_token" "B = invoke_open"
      then show ?thesis
        by (intro that[of ?ltc ?D "lit ''tool_calls>''" ?lt "?D @ bar # lit ''invoke''"])
           (simp_all add: token_defs)
    next
      assume "A = param_open" "B = invoke_close"
      then show ?thesis
        by (intro that[of ?lt ?D "lit ''parameter''" ?ltc "?D @ bar # lit ''invoke''"])
           (simp_all add: token_defs)
    next
      assume "A = invoke_close" "B = param_open"
      then show ?thesis
        by (intro that[of ?ltc ?D "lit ''invoke''" ?lt "?D @ bar # lit ''parameter''"])
           (simp_all add: token_defs)
    next
      assume "A = eos_token" "B = tool_calls_start_token"
      then show ?thesis
        by (intro that[of ?lt "lit ''end'' @ [0x2581] @ lit ''of'' @ [0x2581] @ lit ''sentence''"
              "lit ''>''" "[10, 10] @ ?lt" "?D @ bar # lit ''tool_calls''"])
           (simp_all add: token_defs)
    next
      assume "A = tool_calls_start_token" "B = eos_token"
      then show ?thesis
        by (intro that[of "[10, 10] @ ?lt" ?D "lit ''tool_calls''" ?lt
              "lit ''end'' @ [0x2581] @ lit ''of'' @ [0x2581] @ lit ''sentence'' @ bar # lit ''>''"])
           (simp_all add: token_defs)
    qed
  qed
  have bx: "bar \<notin> set x" using x by (simp add: plain_def)
  have f: "str_find A (x @ A @ r) = Some (length x)"
    by (rule str_find_after[OF bx, of A a' "w @ bar # z"]) (simp_all add: A free)
  have g: "length x < k" if "str_find B (x @ A @ r) = Some k" for k
    by (rule find_later[OF bx A B free len clash that])
  have n: "A \<noteq> []" by (simp add: A)
  show "read_until_stop i s [A, B] = (i + length x + length A, x, Some A)"
    and "read_until_stop i s [B, A] = (i + length x + length A, x, Some A)"
    by (rule read_until_stop_2[OF d n f g]; assumption)+
qed

lemma read_param_close:
  assumes d: "drop i s = x @ param_close @ r" and x: "plain x"
  shows "read_until_stop i s [param_close] = (i + length x + length param_close, x, Some param_close)"
proof (rule read_until_stop_1[OF d])
  show "param_close \<noteq> []" by (simp add: token_defs)
  show "str_find param_close (x @ param_close @ r) = Some (length x)"
    using x by (intro str_find_after[of bar x param_close "lit ''/''" "lit ''DSML'' @ bar # lit ''parameter''"])
      (simp_all add: plain_def token_defs)
qed

lemma read_eos:
  assumes d: "drop i s = x @ eos_token @ r" and x: "plain x"
  shows "read_until_stop i s [eos_token] = (i + length x + length eos_token, x, Some eos_token)"
proof (rule read_until_stop_1[OF d])
  show "eos_token \<noteq> []" by (simp add: token_defs)
  show "str_find eos_token (x @ eos_token @ r) = Some (length x)"
    using x by (intro str_find_after[of bar x eos_token "lit ''<''"
          "lit ''end'' @ [0x2581] @ lit ''of'' @ [0x2581] @ lit ''sentence'' @ bar # lit ''>''"])
      (simp_all add: plain_def token_defs)
qed

section \<open>The regular expressions on rendered text\<close>

lemma strip_suffix_append [simp]: "strip_suffix p (s @ p) = Some s"
  by (simp add: strip_suffix_def)

lemma strip_suffix_None: "\<nexists>g. s = g @ p \<Longrightarrow> strip_suffix p s = None"
  unfolding strip_suffix_def by (metis append_take_drop_id)

lemma tool_name_of_rendered:
  assumes "ws = [10] \<or> ws = [10, 10]"
  shows "tool_name_of (lit '' name=\"'' @ N @ lit ''\">'' @ ws) = Some N"
proof -
  have "dropWhile is_space (lit '' name=\"'' @ N @ lit ''\">'' @ ws) = lit ''name=\"'' @ N @ lit ''\">'' @ ws"
    by (simp add: lit_def is_space_def)
  moreover have "match_to_end (lit ''\">'' @ [10]) (N @ lit ''\">'' @ ws) = Some N"
  proof (cases "ws = [10]")
    case True
    then have "N @ lit ''\">'' @ ws = N @ (lit ''\">'' @ [10])" by simp
    then show ?thesis unfolding match_to_end_def by (simp only: strip_suffix_append option.case)
  next
    case False
    then have ws: "ws = [10, 10]" using assms by simp
    have "strip_suffix (lit ''\">'' @ [10]) (N @ lit ''\">'' @ ws) = None"
    proof (rule strip_suffix_None, rule notI, elim exE)
      fix g assume "N @ lit ''\">'' @ ws = g @ lit ''\">'' @ [10]"
      then have "rev (N @ lit ''\">'' @ ws) = rev (g @ lit ''\">'' @ [10])" by simp
      then show False by (simp add: ws lit_def)
    qed
    moreover have "N @ lit ''\">'' @ ws = N @ ((lit ''\">'' @ [10]) @ [10])" by (simp add: ws)
    ultimately show ?thesis unfolding match_to_end_def
      by (simp only: strip_suffix_append option.case)
  qed
  ultimately show ?thesis
    by (simp add: tool_name_of_def Let_def starts_with_def)
qed

definition param_body :: "pystr \<Rightarrow> bool \<Rightarrow> pystr \<Rightarrow> pystr" where
  "param_body K f V = lit '' name=\"'' @ K @ flag_text f @ V @ lit ''<''"

lemma flag_value_other: "c \<noteq> 34 \<Longrightarrow> flag_value f (c # s) = None"
  by (simp add: flag_value_def flag_text_def starts_with_def lit_def)

lemma param_scan_rendered:
  assumes "34 \<notin> set K"
  shows "param_scan acc (K @ flag_text f @ V @ lit ''<'') = Some (acc @ K, V, f)"
  using assms
proof (induction K arbitrary: acc)
  case Nil
  have m: "match_to_end (lit ''<'') (V @ lit ''<'') = Some V"
    by (simp add: match_to_end_def)
  have "flag_value f (flag_text f @ V @ lit ''<'') = Some V"
    using m by (simp add: flag_value_def)
  moreover have "flag_value True (flag_text False @ V @ lit ''<'') = None"
    by (simp add: flag_value_def flag_text_def starts_with_def lit_def)
  ultimately show ?case
    by (cases f) (simp_all add: param_scan.simps[of acc "flag_text _ @ _"])
next
  case (Cons c K)
  then have "flag_value b (c # K @ flag_text f @ V @ lit ''<'') = None" for b
    by (intro flag_value_other) auto
  with Cons show ?case by simp
qed

lemma param_kv_rendered: "34 \<notin> set K \<Longrightarrow> param_kv (param_body K f V) = Some (K, V, f)"
  using param_scan_rendered[of K "[]" f V] by (simp add: param_kv_def param_body_def)

section \<open>Parsing rendered tool calls\<close>

text \<open>
  A rendered parameter, a list of them after the first, and the shape the parser sees.
\<close>

type_synonym param = "pystr \<times> pystr \<times> bool"

definition param_ok :: "param \<Rightarrow> bool" where
  "param_ok = (\<lambda>(K, V, f). plain K \<and> 34 \<notin> set K \<and> plain V)"

definition param_tail :: "param list \<Rightarrow> pystr" where
  "param_tail ps = concat (map (\<lambda>(K, V, f). gt_newline @ param_open @ param_body K f V @ param_close) ps)"

lemma plain_append [simp]: "plain (a @ b) \<longleftrightarrow> plain a \<and> plain b"
  by (auto simp: plain_def)

lemma plain_lit_flag: "plain (flag_text f)"
  by (auto simp: plain_def flag_text_def lit_def)

lemma plain_param_body: "plain K \<Longrightarrow> plain V \<Longrightarrow> plain (param_body K f V)"
  by (simp add: param_body_def plain_lit_flag) (simp add: plain_def lit_def)

lemma plain_gt_newline: "plain gt_newline"
  by (simp add: plain_def)

lemma parse_params_rendered:
  assumes d: "drop i s = param_body K f V @ param_close @ param_tail ps @ gt_newline @ invoke_close @ r"
    and ok: "list_all param_ok ((K, V, f) # ps)"
    and dist: "distinct (dkeys args @ K # map fst ps)" and i: "i \<le> length s"
  shows "\<exists>j. parse_params s i (Some param_open) args
      = Inr (j, Some invoke_close, args @ (K, V, f) # ps) \<and> drop j s = r \<and> j \<le> length s"
  using assms
proof (induction ps arbitrary: i K f V args)
  case Nil
  let ?j = "i + length (param_body K f V) + length param_close"
  let ?k = "?j + length gt_newline + length invoke_close"
  have r1: "read_until_stop i s [param_close] = (?j, param_body K f V, Some param_close)"
    using Nil.prems by (intro read_param_close[where r = "gt_newline @ invoke_close @ r"])
      (simp_all add: param_tail_def param_ok_def plain_param_body)
  have d1: "drop ?j s = gt_newline @ invoke_close @ r"
    using Nil.prems(1) by (intro drop_after) (simp add: param_tail_def)
  have r2: "read_until_stop ?j s [param_open, invoke_close] = (?k, gt_newline, Some invoke_close)"
    by (rule read_dsml(2)[OF d1 plain_gt_newline]) simp
  have d2: "drop ?k s = r" by (rule drop_after[OF d1])
  have kv: "param_kv (param_body K f V) = Some (K, V, f)"
    using Nil.prems by (intro param_kv_rendered) (simp add: param_ok_def)
  have "?k \<le> length s"
    using read_until_stop_progress[OF r2] read_until_stop_progress[OF r1 Nil.prems(4)] by simp
  moreover have "K \<notin> set (dkeys args)" using Nil.prems(3) by auto
  moreover have "invoke_close \<noteq> param_open" by (simp add: token_defs)
  ultimately have "parse_params s i (Some param_open) args = Inr (?k, Some invoke_close, args @ [(K, V, f)])"
    by (subst parse_params.simps)
       (simp add: r1 r2 kv dset_append_new, subst parse_params.simps, simp)
  with d2 \<open>?k \<le> length s\<close> show ?case by blast
next
  case (Cons p ps)
  obtain K' V' f' where p: "p = (K', V', f')" by (cases p)
  let ?j = "i + length (param_body K f V) + length param_close"
  let ?k = "?j + length gt_newline + length param_open"
  let ?rest = "param_body K' f' V' @ param_close @ param_tail ps @ gt_newline @ invoke_close @ r"
  have r1: "read_until_stop i s [param_close] = (?j, param_body K f V, Some param_close)"
    using Cons.prems by (intro read_param_close[where r = "gt_newline @ param_open @ ?rest"])
      (simp_all add: param_tail_def param_ok_def plain_param_body p)
  have d1: "drop ?j s = gt_newline @ param_open @ ?rest"
    using Cons.prems(1) by (intro drop_after) (simp add: param_tail_def p)
  have r2: "read_until_stop ?j s [param_open, invoke_close] = (?k, gt_newline, Some param_open)"
    by (rule read_dsml(1)[OF d1 plain_gt_newline]) simp
  have d2: "drop ?k s = ?rest" by (rule drop_after[OF d1])
  have kv: "param_kv (param_body K f V) = Some (K, V, f)"
    using Cons.prems by (intro param_kv_rendered) (simp add: param_ok_def)
  have k: "?k \<le> length s"
    using read_until_stop_progress[OF r2] read_until_stop_progress[OF r1 Cons.prems(4)] by simp
  have new: "K \<notin> set (dkeys args)" using Cons.prems(3) by auto
  have step: "parse_params s i (Some param_open) args
      = parse_params s ?k (Some param_open) (args @ [(K, V, f)])"
    by (subst parse_params.simps) (use new in \<open>simp add: r1 r2 kv dset_append_new\<close>)
  have "\<exists>j. parse_params s ?k (Some param_open) (args @ [(K, V, f)])
      = Inr (j, Some invoke_close, (args @ [(K, V, f)]) @ (K', V', f') # ps) \<and> drop j s = r \<and> j \<le> length s"
    using Cons.prems by (intro Cons.IH[OF d2 _ _ k]) (auto simp: p)
  then show ?case by (simp add: step p)
qed

text \<open>A rendered call without the closing bracket that ends it, and the calls after one another.\<close>

definition params_text :: "param list \<Rightarrow> pystr" where
  "params_text ps = str_join [10] (map (\<lambda>(K, V, f). parameter_text K f V) ps)"

definition call_body :: "pystr \<times> param list \<Rightarrow> pystr" where
  "call_body = (\<lambda>(N, ps). invoke_open @ lit '' name=\"'' @ N @ lit ''\">'' @ [10] @ params_text ps
      @ [10] @ invoke_close)"

definition calls_tail :: "(pystr \<times> param list) list \<Rightarrow> pystr" where
  "calls_tail cs = concat (map (\<lambda>c. gt_newline @ call_body c) cs)"

definition call_ok :: "pystr \<times> param list \<Rightarrow> bool" where
  "call_ok = (\<lambda>(N, ps). plain N \<and> list_all param_ok ps \<and> distinct (map fst ps))"

lemma shift_suffix: "a @ concat (map (\<lambda>x. b @ f x @ a) xs) = concat (map (\<lambda>x. a @ b @ f x) xs) @ a"
  by (induction xs) auto

lemma parameter_text_alt:
  "parameter_text K f V = param_open @ param_body K f V @ param_close @ [62]"
  by (simp add: parameter_text_def param_body_def flag_text_def param_open_def param_close_def lit_def)

lemma params_text_Cons:
  "params_text ((K, V, f) # ps) = param_open @ param_body K f V @ param_close @ param_tail ps @ [62]"
proof -
  have "[62] @ concat (map (\<lambda>x. [10] @ (case x of (K, V, f) \<Rightarrow> param_open @ param_body K f V @ param_close) @ [62]) ps)
      = param_tail ps @ [62]"
    unfolding shift_suffix[of "[62]" "[10]"] by (simp add: param_tail_def case_prod_unfold)
  then show ?thesis
    by (simp add: params_text_def str_join_Cons parameter_text_alt case_prod_unfold comp_def)
qed

lemma tool_call_text_alt: "tool_call_text N (params_text ps) = call_body (N, ps) @ [62]"
  by (simp add: tool_call_text_def call_body_def invoke_open_def invoke_close_def lit_def)

lemma tool_calls_text_alt:
  assumes "cs \<noteq> []"
  shows "[10, 10] @ tool_calls_text (str_join [10] (map (\<lambda>(N, ps). tool_call_text N (params_text ps)) cs))
    = tool_calls_start_token @ calls_tail cs @ gt_newline @ tool_calls_end_token"
proof -
  obtain c cs' where cs: "cs = c # cs'" using assms by (cases cs) auto
  have m: "(\<lambda>(N, ps). tool_call_text N (params_text ps)) = (\<lambda>c. call_body c @ [62])"
    by (auto simp: tool_call_text_alt)
  have "[62] @ concat (map (\<lambda>c. [10] @ call_body c @ [62]) cs')
      = concat (map (\<lambda>c. [62] @ [10] @ call_body c) cs') @ [62]"
    by (rule shift_suffix)
  then have j: "str_join [10] (map (\<lambda>c. call_body c @ [62]) cs) = call_body c @ calls_tail cs' @ [62]"
    by (simp add: cs str_join_Cons comp_def calls_tail_def)
  show ?thesis unfolding m tool_calls_text_def j
    by (simp add: calls_tail_def cs tool_calls_start_token_def tool_calls_end_token_def lit_def)
qed

lemma plain_name_text: "plain N \<Longrightarrow> ws = [10] \<or> ws = [10, 10] \<Longrightarrow> plain (lit '' name=\"'' @ N @ lit ''\">'' @ ws)"
  by (auto simp: plain_def lit_def)

lemma parse_call_rendered:
  assumes d: "drop i s = gt_newline @ call_body (N, ps) @ r" and ok: "call_ok (N, ps)" and i: "i \<le> length s"
  shows "\<exists>j. parse_tool_calls s i st acc
      = parse_tool_calls s j (Some invoke_close) (acc @ [decode_dsml_to_arguments N ps])
      \<and> drop j s = r \<and> j \<le> length s"
proof -
  let ?rest = "params_text ps @ [10] @ invoke_close @ r"
  let ?d = "lit '' name=\"'' @ N @ lit ''\">'' @ [10] @ ?rest"
  let ?i1 = "i + length gt_newline + length invoke_open"
  have d0: "drop i s = gt_newline @ invoke_open @ ?d" using d by (simp add: call_body_def)
  have r1: "read_until_stop i s [invoke_open, tool_calls_end_token] = (?i1, gt_newline, Some invoke_open)"
    by (rule read_dsml(1)[OF d0 plain_gt_newline]) simp
  have d1: "drop ?i1 s = ?d" by (rule drop_after[OF d0])
  have len: "i < length s"
  proof (rule ccontr)
    assume "\<not> i < length s"
    with d0 show False by simp
  qed
  have i1: "?i1 \<le> length s" using read_until_stop_progress[OF r1 i] by simp
  have ne: "invoke_open \<noteq> tool_calls_end_token" by (simp add: token_defs)
  have step: "parse_tool_calls s i st acc = parse_tool_calls s j (Some invoke_close) (acc @ [decode_dsml_to_arguments N ps])"
    if r2: "read_until_stop ?i1 s [param_open, invoke_close] = (i2, lit '' name=\"'' @ N @ lit ''\">'' @ ws, st2)"
      and ws: "ws = [10] \<or> ws = [10, 10]"
      and pp: "parse_params s i2 st2 [] = Inr (j, Some invoke_close, ps)" for i2 ws st2 j
    by (subst parse_tool_calls.simps)
       (simp add: len r1 ne r2[simplified] tool_name_of_rendered[OF ws] pp)
  show ?thesis
  proof (cases ps)
    case Nil
    let ?x = "lit '' name=\"'' @ N @ lit ''\">'' @ [10, 10]"
    let ?i2 = "?i1 + length ?x + length invoke_close"
    have d2: "drop ?i1 s = ?x @ invoke_close @ r" unfolding d1 by (simp add: Nil params_text_def)
    have pl: "plain ?x" by (rule plain_name_text) (use ok in \<open>simp_all add: call_ok_def\<close>)
    have r2: "read_until_stop ?i1 s [param_open, invoke_close] = (?i2, ?x, Some invoke_close)"
      by (rule read_dsml(2)[OF d2 pl]) simp
    have "parse_params s ?i2 (Some invoke_close) [] = Inr (?i2, Some invoke_close, ps)"
      by (subst parse_params.simps) (simp add: Nil token_defs)
    from step[OF r2 _ this] have "parse_tool_calls s i st acc
        = parse_tool_calls s ?i2 (Some invoke_close) (acc @ [decode_dsml_to_arguments N ps])" by simp
    moreover have "drop ?i2 s = r" by (rule drop_after[OF d2])
    moreover have "?i2 \<le> length s" using read_until_stop_progress[OF r2 i1] by simp
    ultimately show ?thesis by blast
  next
    case (Cons p ps')
    obtain K V f where p: "p = (K, V, f)" by (cases p)
    let ?x = "lit '' name=\"'' @ N @ lit ''\">'' @ [10]"
    let ?i2 = "?i1 + length ?x + length param_open"
    let ?y = "param_body K f V @ param_close @ param_tail ps' @ gt_newline @ invoke_close @ r"
    have d2: "drop ?i1 s = ?x @ param_open @ ?y" unfolding d1 by (simp add: Cons p params_text_Cons)
    have pl: "plain ?x" by (rule plain_name_text) (use ok in \<open>simp_all add: call_ok_def\<close>)
    have r2: "read_until_stop ?i1 s [param_open, invoke_close] = (?i2, ?x, Some param_open)"
      by (rule read_dsml(1)[OF d2 pl]) simp
    have d3: "drop ?i2 s = ?y" by (rule drop_after[OF d2])
    have i2: "?i2 \<le> length s" using read_until_stop_progress[OF r2 i1] by simp
    obtain j where pp: "parse_params s ?i2 (Some param_open) [] = Inr (j, Some invoke_close, [] @ (K, V, f) # ps')"
      and j: "drop j s = r" "j \<le> length s"
      using parse_params_rendered[OF d3 _ _ i2, of "[]"] ok by (auto simp: call_ok_def Cons p)
    have "parse_params s ?i2 (Some param_open) [] = Inr (j, Some invoke_close, ps)" using pp by (simp add: Cons p)
    from step[OF r2 _ this] j show ?thesis by blast
  qed
qed

lemma parse_tool_calls_rendered:
  assumes d: "drop i s = calls_tail cs @ gt_newline @ tool_calls_end_token @ r"
    and ok: "list_all call_ok cs" and i: "i \<le> length s"
  shows "\<exists>j. parse_tool_calls s i st acc
      = Inr (j, Some tool_calls_end_token, acc @ map (\<lambda>(N, ps). decode_dsml_to_arguments N ps) cs)
      \<and> drop j s = r \<and> j \<le> length s"
  using assms
proof (induction cs arbitrary: i st acc)
  case Nil
  let ?j = "i + length gt_newline + length tool_calls_end_token"
  have d: "drop i s = gt_newline @ tool_calls_end_token @ r" using Nil.prems(1) by (simp add: calls_tail_def)
  have r1: "read_until_stop i s [invoke_open, tool_calls_end_token] = (?j, gt_newline, Some tool_calls_end_token)"
    by (rule read_dsml(2)[OF d plain_gt_newline]) simp
  have "i < length s"
  proof (rule ccontr)
    assume "\<not> i < length s"
    with d show False by simp
  qed
  then have "parse_tool_calls s i st acc = Inr (?j, Some tool_calls_end_token, acc)"
    by (subst parse_tool_calls.simps) (simp add: r1)
  moreover have "drop ?j s = r" by (rule drop_after[OF d])
  moreover have "?j \<le> length s" using read_until_stop_progress[OF r1 Nil.prems(3)] by simp
  ultimately show ?case by auto
next
  case (Cons c cs)
  obtain N ps where c: "c = (N, ps)" by (cases c)
  have "drop i s = gt_newline @ call_body (N, ps) @ calls_tail cs @ gt_newline @ tool_calls_end_token @ r"
    using Cons.prems(1) by (simp add: calls_tail_def c)
  from parse_call_rendered[OF this _ Cons.prems(3), of st acc] Cons.prems(2)
  obtain j where step: "parse_tool_calls s i st acc
      = parse_tool_calls s j (Some invoke_close) (acc @ [decode_dsml_to_arguments N ps])"
    and j: "drop j s = calls_tail cs @ gt_newline @ tool_calls_end_token @ r" "j \<le> length s"
    by (auto simp: c)
  from Cons.IH[OF j(1) _ j(2), of "Some invoke_close" "acc @ [decode_dsml_to_arguments N ps]"] Cons.prems(2)
  show ?case by (auto simp: step c)
qed

section \<open>The round trip of an assistant turn\<close>

text \<open>
  What a turn must satisfy to survive the text format: no fullwidth bar in its texts, no thinking
  tag in content and reasoning, no double quote in a parameter name, and arguments that are a
  JSON object.
\<close>

definition shown :: "pv \<Rightarrow> pystr" where
  "shown v = (case v of PStr s \<Rightarrow> s | _ \<Rightarrow> json_dumps v)"

definition argument_ok :: "pystr \<times> pv \<Rightarrow> bool" where
  "argument_ok = (\<lambda>(k, v). plain k \<and> 34 \<notin> set k \<and> json_ok v \<and> plain (shown v))"

definition call_plain :: "pylib \<Rightarrow> tool_call \<Rightarrow> bool" where
  "call_plain L c \<longleftrightarrow>
     (case tc_name c of PStr n \<Rightarrow> plain n | _ \<Rightarrow> False)
     \<and> (case load_arguments L (tc_arguments c) of
          PDict d \<Rightarrow> dict_ok d \<and> list_all argument_ok d | _ \<Rightarrow> False)"

definition prose :: "pystr \<Rightarrow> bool" where
  "prose s \<longleftrightarrow> plain s \<and> \<not> str_in thinking_start_token s \<and> \<not> str_in thinking_end_token s"

text \<open>A call with its arguments in the form \<open>json.dumps\<close> gives them.\<close>

definition canonical_call :: "pylib \<Rightarrow> tool_call \<Rightarrow> tool_call" where
  "canonical_call L c = \<lparr> tc_name = tc_name c,
     tc_arguments = PStr (json_dumps (load_arguments L (tc_arguments c))) \<rparr>"

definition params_of :: "(pystr, pv) dict \<Rightarrow> param list" where
  "params_of d = map (\<lambda>(k, v). (k, shown v, is_text v)) d"

lemma value_text_shown: "json_ok v \<Longrightarrow> value_text v = Inr (shown v)"
  by (cases v) (simp_all add: shown_def to_json_def)

lemma json_dumps_shown: "json_dumps v = (if is_text v then json_string (shown v) else shown v)"
  by (cases v) (simp_all add: shown_def)

lemma encode_arguments_rendered:
  assumes "load_arguments L (tc_arguments c) = PDict d" "list_all argument_ok d"
  shows "encode_arguments_to_dsml L c = Inr (params_text (params_of d))"
proof -
  have "rmap (\<lambda>(k, v). rbind (value_text v) (\<lambda>t. Inr (parameter_text k (is_text v) t))) d
      = Inr (map (\<lambda>(k, v). parameter_text k (is_text v) (shown v)) d)"
    using assms(2)
    by (intro rmap_all_Inr) (auto simp: list_all_iff argument_ok_def value_text_shown)
  then show ?thesis
    by (simp add: encode_arguments_to_dsml_def assms(1) params_text_def params_of_def
        case_prod_unfold comp_def)
qed

lemma decode_rendered:
  "decode_dsml_to_arguments N (params_of d)
     = \<lparr> tc_name = PStr N, tc_arguments = PStr (json_dumps (PDict d)) \<rparr>"
proof -
  have "(if is_text v then json_string (shown v) else shown v) = json_dumps v" for v
    by (rule json_dumps_shown[symmetric])
  then show ?thesis
    by (simp add: decode_dsml_to_arguments_def params_of_def case_prod_unfold comp_def cong: if_cong)
qed

text \<open>The parser's view of a call.\<close>

definition view :: "pylib \<Rightarrow> tool_call \<Rightarrow> pystr \<times> param list" where
  "view L c = (fmt L (tc_name c),
     case load_arguments L (tc_arguments c) of PDict d \<Rightarrow> params_of d | _ \<Rightarrow> [])"

lemma call_plain_cases:
  assumes "call_plain L c"
  obtains n d where "tc_name c = PStr n" "plain n" "load_arguments L (tc_arguments c) = PDict d"
    "dict_ok d" "list_all argument_ok d"
  using assms by (auto simp: call_plain_def split: pv.splits)

lemma view_ok: "call_plain L c \<Longrightarrow> call_ok (view L c)"
  by (elim call_plain_cases)
     (auto simp: view_def call_ok_def fmt_def params_of_def list_all_iff param_ok_def argument_ok_def
        dict_ok_def case_prod_unfold comp_def)

lemma view_text:
  "call_plain L c \<Longrightarrow> rbind (encode_arguments_to_dsml L c) (\<lambda>a. Inr (tool_call_text (fmt L (tc_name c)) a))
     = Inr ((\<lambda>(N, ps). tool_call_text N (params_text ps)) (view L c))"
  (is "_ \<Longrightarrow> ?thesis")
proof (elim call_plain_cases)
  fix n d
  assume l: "load_arguments L (tc_arguments c) = PDict d" and a: "list_all argument_ok d"
  show ?thesis
    by (simp only: encode_arguments_rendered[OF l a] rbind_simps view_def l pv.case prod.case)
qed

lemma view_decode: "call_plain L c \<Longrightarrow> (\<lambda>(N, ps). decode_dsml_to_arguments N ps) (view L c) = canonical_call L c"
  (is "_ \<Longrightarrow> ?thesis")
proof (elim call_plain_cases)
  fix n d
  assume n: "tc_name c = PStr n" and l: "load_arguments L (tc_arguments c) = PDict d"
  show ?thesis
    by (simp only: view_def n l pv.case prod.case fmt_def decode_rendered canonical_call_def)
qed

lemma plain_free: "plain s \<Longrightarrow> bar \<in> set p \<Longrightarrow> \<not> str_in p s"
  by (simp add: plain_def str_in_def str_find_free[of bar])

lemma prose_free: "prose s \<Longrightarrow> sp \<in> set special_tokens \<Longrightarrow> \<not> str_in sp s"
  using plain_free[of s bos_token] plain_free[of s eos_token] plain_free[of s dsml_token]
  by (auto simp: prose_def special_tokens_def bos_token_def eos_token_def dsml_token_def)

lemma read_thinking:
  assumes r: "prose r"
  shows "read_until_stop 0 (r @ thinking_end_token @ rest) [thinking_end_token, tool_calls_start_token]
    = (length r + length thinking_end_token, r, Some thinking_end_token)"
proof -
  let ?b = "lit ''/think>''"
  have t: "thinking_end_token = 60 # ?b" by (simp add: thinking_end_token_def lit_def)
  have f: "str_find thinking_end_token (r @ thinking_end_token @ rest) = Some (length r)"
    by (rule find_fresh_head[OF t]) (use r in \<open>simp_all add: prose_def lit_def\<close>)
  have g: "length r < k" if "str_find tool_calls_start_token (r @ thinking_end_token @ rest) = Some k" for k
    by (rule find_past[where c = bar and a = "[10, 10] @ lit ''<''"
          and b = "lit ''DSML'' @ bar # lit ''tool_calls''", OF _ _ _ _ that])
       (use r in \<open>simp_all add: prose_def plain_def token_defs thinking_end_token_def\<close>)
  show ?thesis
    using read_until_stop_2(1)[OF _ _ f g, of 0 "r @ thinking_end_token @ rest"]
    by (simp add: t)
qed

lemma end_of_text: "drop j s = [] \<Longrightarrow> j \<le> length s \<Longrightarrow> length s = j"
  by simp

text \<open>The part of a completion after the reasoning.\<close>

lemma parse_rest:
  assumes c: "prose c" and ok: "list_all (call_plain L) calls" and i: "i \<le> length s"
    and d: "drop i s = c @ (if calls = [] then []
        else [10, 10] @ tool_calls_text (str_join [10] (map (\<lambda>(N, ps). tool_call_text N (params_text ps))
               (map (view L) calls)))) @ eos_token"
  shows "(case read_until_stop i s [eos_token, tool_calls_start_token] of (i1, summary, st1) \<Rightarrow>
     rbind (if st1 = Some tool_calls_start_token then
              rbind (parse_tool_calls s i1 st1 []) (\<lambda>(i2, _, calls).
                case read_until_stop i2 s [eos_token] of (i3, ends, st3) \<Rightarrow>
                  if ends \<noteq> [] then Inl AssertionError else Inr (i3, st3, calls))
            else if st1 = Some eos_token then Inr (i1, st1, [])
            else Inl AssertionError) (\<lambda>(i, st, calls). Inr (summary, i, st, calls)))
     = Inr (c, length s, Some eos_token, map (canonical_call L) calls)"
proof -
  have pc: "plain c" using c by (simp add: prose_def)
  have ne: "eos_token \<noteq> tool_calls_start_token" by (simp add: token_defs)
  show ?thesis
  proof (cases "calls = []")
    case True
    let ?j = "i + length c + length eos_token"
    have d1: "drop i s = c @ eos_token @ []" using d True by simp
    have r: "read_until_stop i s [eos_token, tool_calls_start_token] = (?j, c, Some eos_token)"
      by (rule read_dsml(1)[OF d1 pc]) simp
    have "?j = length s"
      using end_of_text[OF drop_after[OF d1]] read_until_stop_progress[OF r i] by simp
    with r True ne show ?thesis by simp
  next
    case False
    let ?cs = "map (view L) calls"
    let ?after = "calls_tail ?cs @ gt_newline @ tool_calls_end_token @ eos_token"
    let ?j = "i + length c + length tool_calls_start_token"
    have d1: "drop i s = c @ tool_calls_start_token @ ?after"
      using d False tool_calls_text_alt[of ?cs] by simp
    have r: "read_until_stop i s [eos_token, tool_calls_start_token] = (?j, c, Some tool_calls_start_token)"
      by (rule read_dsml(2)[OF d1 pc]) simp
    have j: "?j \<le> length s" using read_until_stop_progress[OF r i] by simp
    have ok': "list_all call_ok ?cs" using ok by (auto simp: list_all_iff view_ok)
    obtain k where pt: "parse_tool_calls s ?j (Some tool_calls_start_token) []
        = Inr (k, Some tool_calls_end_token, [] @ map (\<lambda>(N, ps). decode_dsml_to_arguments N ps) ?cs)"
      and k: "drop k s = eos_token" "k \<le> length s"
      using parse_tool_calls_rendered[OF drop_after[OF d1] ok' j] by blast
    have cc: "map (\<lambda>(N, ps). decode_dsml_to_arguments N ps) ?cs = map (canonical_call L) calls"
      using ok view_decode by (auto simp: list_all_iff)
    have d2: "drop k s = [] @ eos_token @ []" using k by simp
    have e: "read_until_stop k s [eos_token] = (k + length eos_token, [], Some eos_token)"
      using read_eos[OF d2] by (simp add: plain_def)
    have "k + length eos_token = length s"
      using end_of_text[OF drop_after[OF d2]] read_until_stop_progress[OF e k(2)] by simp
    with r pt cc e show ?thesis by simp
  qed
qed

lemma render_assistant_text:
  assumes r: "render_assistant L index ms mode drop_thinking calls = Inr s"
    and ok: "list_all (call_plain L) calls"
    and eos: "\<not> truthy (field_or (ms ! index) ''wo_eos'' (PBool False))"
  shows "s = (if mode = lit ''thinking'' \<and> \<not> prev_has_task index ms
                \<and> (\<not> drop_thinking \<or> int index > find_last_user_index ms)
              then fmt L (str_or_empty (field (ms ! index) ''reasoning_content'')) @ thinking_end_token else [])
    @ fmt L (str_or_empty (field (ms ! index) ''content''))
    @ (if calls = [] then []
       else [10, 10] @ tool_calls_text (str_join [10] (map (\<lambda>(N, ps). tool_call_text N (params_text ps))
              (map (view L) calls)))) @ eos_token"
proof -
  let ?call = "\<lambda>c. rbind (encode_arguments_to_dsml L c) (\<lambda>a. Inr (tool_call_text (fmt L (tc_name c)) a))"
  have "rmap ?call calls = Inr (map (\<lambda>c. (\<lambda>(N, ps). tool_call_text N (params_text ps)) (view L c)) calls)"
    using ok by (intro rmap_all_Inr) (simp only: list_all_iff view_text)
  then have calls: "rmap ?call calls = Inr (map (\<lambda>(N, ps). tool_call_text N (params_text ps)) (map (view L) calls))"
    by (simp add: comp_def)
  show ?thesis
    using r eos unfolding render_assistant_def Let_def calls
    by (cases "calls = []") auto
qed

lemma parse_message_rest:
  assumes start: "(if mode = lit ''thinking'' then
        (case read_until_stop 0 s [thinking_end_token, tool_calls_start_token] of (i, c, st) \<Rightarrow>
           if st = Some thinking_end_token then Inr (i, c) else Inl AssertionError)
        else Inr (0, [])) = Inr (i, rc)"
    and rc: "prose rc" and c: "prose c" and ok: "list_all (call_plain L) calls" and i: "i \<le> length s"
    and d: "drop i s = c @ (if calls = [] then []
        else [10, 10] @ tool_calls_text (str_join [10] (map (\<lambda>(N, ps). tool_call_text N (params_text ps))
               (map (view L) calls)))) @ eos_token"
  shows "parse_message_from_completion_text s mode = Inr (parsed_message c rc (map (canonical_call L) calls))"
proof -
  obtain i1 summary st1 where rd: "read_until_stop i s [eos_token, tool_calls_start_token] = (i1, summary, st1)"
    by (metis prod.exhaust)
  from parse_rest[OF c ok i d, unfolded rd prod.case]
  have rest: "summary = c" "(if st1 = Some tool_calls_start_token then
              rbind (parse_tool_calls s i1 st1 []) (\<lambda>(i2, _, calls).
                case read_until_stop i2 s [eos_token] of (i3, ends, st3) \<Rightarrow>
                  if ends \<noteq> [] then Inl AssertionError else Inr (i3, st3, calls))
            else if st1 = Some eos_token then Inr (i1, st1, [])
            else Inl AssertionError) = Inr (length s, Some eos_token, map (canonical_call L) calls)"
    unfolding rbind_Inr_iff by auto
  have free: "\<not> list_ex (\<lambda>sp. str_in sp c \<or> str_in sp rc) special_tokens"
    using prose_free[OF c] prose_free[OF rc] by (auto simp: list_ex_iff)
  show ?thesis
    unfolding parse_message_from_completion_text_def start rbind_simps prod.case rd rest
    using free by simp
qed

text \<open>
  C22: the parser undoes the renderer.  An assistant turn that is written with its end token, whose
  texts are free of the special tokens and whose calls have JSON object arguments, is parsed back
  from its own text to the same content, the same reasoning (in thinking mode) and the same tool
  calls in the same order, their arguments in the form \<open>json.dumps\<close> gives them.
\<close>

theorem completion_roundtrip:
  assumes "render_assistant L index ms mode drop_thinking calls = Inr s"
    and "prose (fmt L (str_or_empty (field (ms ! index) ''content'')))"
    and "prose (fmt L (str_or_empty (field (ms ! index) ''reasoning_content'')))"
    and "list_all (call_plain L) calls"
    and "\<not> truthy (field_or (ms ! index) ''wo_eos'' (PBool False))"
    and "mode = lit ''thinking'' \<longrightarrow>
           \<not> prev_has_task index ms \<and> (\<not> drop_thinking \<or> int index > find_last_user_index ms)"
  shows "parse_message_from_completion_text s mode = Inr (parsed_message
           (fmt L (str_or_empty (field (ms ! index) ''content'')))
           (if mode = lit ''thinking'' then fmt L (str_or_empty (field (ms ! index) ''reasoning_content'')) else [])
           (map (canonical_call L) calls))"
proof -
  let ?c = "fmt L (str_or_empty (field (ms ! index) ''content''))"
    and ?r = "fmt L (str_or_empty (field (ms ! index) ''reasoning_content''))"
  let ?rest = "?c @ (if calls = [] then []
       else [10, 10] @ tool_calls_text (str_join [10] (map (\<lambda>(N, ps). tool_call_text N (params_text ps))
              (map (view L) calls)))) @ eos_token"
  note s = render_assistant_text[OF assms(1,4,5)]
  show ?thesis
  proof (cases "mode = lit ''thinking''")
    case True
    then have t: "s = ?r @ thinking_end_token @ ?rest" using s assms(6) by simp
    have d: "drop (length ?r + length thinking_end_token) s = ?rest"
      and i: "length ?r + length thinking_end_token \<le> length s" by (simp_all add: t)
    have start: "(if mode = lit ''thinking'' then
        (case read_until_stop 0 s [thinking_end_token, tool_calls_start_token] of (i, c, st) \<Rightarrow>
           if st = Some thinking_end_token then Inr (i, c) else Inl AssertionError)
        else Inr (0, [])) = Inr (length ?r + length thinking_end_token, ?r)"
      using read_thinking[OF assms(3), of ?rest] True by (simp add: t)
    from parse_message_rest[OF start assms(3,2,4) i d] True show ?thesis by simp
  next
    case False
    then have d: "drop 0 s = ?rest" using s by simp
    have start: "(if mode = lit ''thinking'' then
        (case read_until_stop 0 s [thinking_end_token, tool_calls_start_token] of (i, c, st) \<Rightarrow>
           if st = Some thinking_end_token then Inr (i, c) else Inl AssertionError)
        else Inr (0, [])) = Inr (0, [])"
      using False by simp
    have "prose []" by (simp add: prose_def plain_def str_in_def thinking_start_token_def thinking_end_token_def lit_def)
    from parse_message_rest[OF start this assms(2,4) _ d] False show ?thesis by simp
  qed
qed

text \<open>A library whose \<open>json.loads\<close> knows one argument text.\<close>

definition lib1 :: pylib where
  "lib1 = \<lparr> loads = (\<lambda>s. if s = lit ''{\"a\":1}'' then Some (PDict [(lit ''a'', PInt 1), (lit ''b'', PStr (lit ''x y''))]) else None),
            crepr = (\<lambda>v. []) \<rparr>"

definition turn1 :: msg where
  "turn1 = [(lit ''role'', PStr (lit ''assistant'')), (lit ''content'', PStr (lit ''Hi'')),
            (lit ''reasoning_content'', PStr (lit ''hm''))]"

definition call1 :: tool_call where
  "call1 = \<lparr> tc_name = PStr (lit ''go''), tc_arguments = PStr (lit ''{\"a\":1}'') \<rparr>"

definition text1 :: pystr where
  "text1 = lit ''hm'' @ thinking_end_token @ lit ''Hi'' @ [10, 10]
     @ tool_calls_text (tool_call_text (lit ''go'')
         (parameter_text (lit ''a'') False (lit ''1'') @ [10] @ parameter_text (lit ''b'') True (lit ''x y'')))
     @ eos_token"

theorem completion_roundtrip_witness:
  "render_assistant lib1 0 [turn1] (lit ''thinking'') True [call1] = Inr text1
   \<and> parse_message_from_completion_text text1 (lit ''thinking'')
     = Inr (parsed_message (lit ''Hi'') (lit ''hm'')
         [\<lparr> tc_name = PStr (lit ''go''), tc_arguments = PStr (lit ''{\"a\": 1, \"b\": \"x y\"}'') \<rparr>])"
proof -
  have r: "render_assistant lib1 0 [turn1] (lit ''thinking'') True [call1] = Inr text1" by code_simp
  have c: "fmt lib1 (str_or_empty (field ([turn1] ! 0) ''content'')) = lit ''Hi''" by code_simp
  have rc: "fmt lib1 (str_or_empty (field ([turn1] ! 0) ''reasoning_content'')) = lit ''hm''" by code_simp
  have pr: "prose (lit ''Hi'')" "prose (lit ''hm'')" by code_simp+
  have ok: "list_all (call_plain lib1) [call1]" by code_simp
  have eos: "\<not> truthy (field_or ([turn1] ! 0) ''wo_eos'' (PBool False))" by code_simp
  have t: "lit ''thinking'' = lit ''thinking'' \<longrightarrow>
       \<not> prev_has_task 0 [turn1] \<and> (\<not> True \<or> int 0 > find_last_user_index [turn1])" by code_simp
  have cc: "map (canonical_call lib1) [call1]
      = [\<lparr> tc_name = PStr (lit ''go''), tc_arguments = PStr (lit ''{\"a\": 1, \"b\": \"x y\"}'') \<rparr>]" by code_simp
  from completion_roundtrip[OF r _ _ ok eos t] pr r show ?thesis unfolding c rc cc by simp
qed

end
