(* ===== verification/Placement.thy ===== *)
theory Placement
  imports PyText Complex_Main
begin

text \<open>
  \<open>runtime/memory_planner.py\<close> and \<open>runtime/placement.py\<close>: the sizing of the key/value cache from
  a byte budget, the accounting of block reservations, and the two stores, host arrays and device
  buffers, with the choice between them.  Float arithmetic is the parameter \<open>planner_fpu\<close>, the conversion of
  an element to float32 the parameter \<open>to_f32\<close>; the CUDA library enters as the outcome of each
  allocation, copy and release of a buffer, the record \<open>driver\<close>.
\<close>

section \<open>Sizing\<close>

text \<open>
  \<open>scaled b u\<close> is \<open>int(b * u)\<close>, \<open>row_bytes e d r\<close> is \<open>int(e * (d / r))\<close> and \<open>gib_bytes\<close> is
  \<open>int(g * 1024 ** 3)\<close>.
\<close>

record planner_fpu =
  scaled :: "int \<Rightarrow> rat \<Rightarrow> int"
  row_bytes :: "int \<Rightarrow> int \<Rightarrow> int \<Rightarrow> int"
  gib_bytes :: "rat \<Rightarrow> int"

definition fp8_kv_bytes_per_token :: "int \<Rightarrow> int \<Rightarrow> int \<Rightarrow> int \<Rightarrow> int" where
  "fp8_kv_bytes_per_token num_full_attn_layers num_kv_heads head_dim kv_bytes =
     num_full_attn_layers * 2 * num_kv_heads * head_dim * kv_bytes"

definition plan_block_count :: "planner_fpu \<Rightarrow> int \<Rightarrow> int \<Rightarrow> int \<Rightarrow> rat \<Rightarrow> py_error + int" where
  "plan_block_count fpu kv_avail_bytes bytes_per_token block_size utilization =
     (if bytes_per_token \<le> 0 \<or> block_size \<le> 0 then Inl ValueError
      else if kv_avail_bytes < 0 then Inl ValueError
      else if \<not> (0 < utilization \<and> utilization \<le> 1) then Inl ValueError
      else let per_block = bytes_per_token * block_size; budget = scaled fpu kv_avail_bytes utilization
           in Inr (budget div per_block))"

record kv_profile =
  pr_bytes_per_token :: int
  pr_block_size :: int
  pr_blocks :: "(int \<times> int) option"

definition qwen3_5_kv_profile :: "planner_fpu \<Rightarrow> int \<Rightarrow> int \<Rightarrow> rat option \<Rightarrow> rat \<Rightarrow> py_error + kv_profile" where
  "qwen3_5_kv_profile fpu block_size kv_bytes kv_avail_gib utilization =
     (let per_token = fp8_kv_bytes_per_token 16 4 256 kv_bytes
      in case kv_avail_gib of
           None \<Rightarrow> Inr \<lparr> pr_bytes_per_token = per_token, pr_block_size = block_size, pr_blocks = None \<rparr>
         | Some g \<Rightarrow>
             rbind (plan_block_count fpu (gib_bytes fpu g) per_token block_size utilization) (\<lambda>budget.
               Inr \<lparr> pr_bytes_per_token = per_token, pr_block_size = block_size,
                     pr_blocks = Some (budget, budget * block_size) \<rparr>))"

record qsa_cfg =
  layer_types :: "pystr list"
  q_kv_heads :: int
  q_head_dim :: int
  idx_dim :: int
  idx_ratio :: int
  q_lin_k_heads :: int
  q_lin_k_dim :: int
  q_lin_v_heads :: int
  q_lin_v_dim :: int
  lin_conv :: int

definition count_layers :: "qsa_cfg \<Rightarrow> pystr \<Rightarrow> int" where
  "count_layers cfg t = int (length (filter (\<lambda>x. x = t) (layer_types cfg)))"

definition qwen4_exp_bytes_per_token :: "qsa_cfg \<Rightarrow> int \<Rightarrow> int \<Rightarrow> py_error + int" where
  "qwen4_exp_bytes_per_token cfg kv_bytes idx_bytes =
     (if idx_ratio cfg = 0 then Inl ZeroDivisionError
      else let n_qsa = count_layers cfg (lit ''full_attention'')
           in Inr (n_qsa * (2 * q_kv_heads cfg * q_head_dim cfg * kv_bytes + idx_dim cfg * idx_bytes
                + (- ((- idx_dim cfg) div idx_ratio cfg)) * idx_bytes)))"

definition qwen4_exp_seq_state_bytes :: "qsa_cfg \<Rightarrow> int \<Rightarrow> int" where
  "qwen4_exp_seq_state_bytes cfg state_bytes =
     (let n_gdn = count_layers cfg (lit ''linear_attention'');
          c = 2 * q_lin_k_heads cfg * q_lin_k_dim cfg + q_lin_v_heads cfg * q_lin_v_dim cfg
      in n_gdn * (q_lin_v_heads cfg * q_lin_v_dim cfg * q_lin_k_dim cfg * state_bytes
           + c * (lin_conv cfg - 1) * state_bytes))"

record seq_plan =
  sp_per_token :: int
  sp_per_seq :: int
  sp_per_seq_full :: int
  max_sequences :: int
  max_total_tokens :: int

text \<open>The common end of the two admission planners.\<close>

definition sequences_in :: "int \<Rightarrow> int \<Rightarrow> int \<Rightarrow> int \<Rightarrow> seq_plan" where
  "sequences_in budget per_tok per_seq avg_context =
     (let per_seq_full = per_seq + per_tok * avg_context;
          n_seqs = (if per_seq_full \<noteq> 0 then budget div per_seq_full else 0)
      in \<lparr> sp_per_token = per_tok, sp_per_seq = per_seq, sp_per_seq_full = per_seq_full,
           max_sequences = n_seqs, max_total_tokens = n_seqs * avg_context \<rparr>)"

definition qwen4_exp_plan ::
  "planner_fpu \<Rightarrow> qsa_cfg \<Rightarrow> int \<Rightarrow> int \<Rightarrow> int \<Rightarrow> int \<Rightarrow> int \<Rightarrow> rat \<Rightarrow> py_error + seq_plan" where
  "qwen4_exp_plan fpu cfg kv_avail_bytes avg_context kv_bytes idx_bytes state_bytes utilization =
     (if avg_context \<le> 0 then Inl ValueError
      else if kv_avail_bytes < 0 then Inl ValueError
      else if \<not> (0 < utilization \<and> utilization \<le> 1) then Inl ValueError
      else rbind (qwen4_exp_bytes_per_token cfg kv_bytes idx_bytes) (\<lambda>per_tok.
             Inr (sequences_in (scaled fpu kv_avail_bytes utilization) per_tok
                    (qwen4_exp_seq_state_bytes cfg state_bytes) avg_context)))"

record mla_cfg =
  compress_ratios :: "int list"
  m_head_dim :: int
  m_index_head_dim :: int

definition layer_token_bytes :: "planner_fpu \<Rightarrow> mla_cfg \<Rightarrow> int \<Rightarrow> int \<Rightarrow> int \<Rightarrow> int" where
  "layer_token_bytes fpu cfg kv_bytes idx_bytes ratio =
     kv_bytes * m_head_dim cfg +
     (if ratio \<noteq> 0
      then row_bytes fpu kv_bytes (m_head_dim cfg) ratio +
           (if ratio = 4 then row_bytes fpu idx_bytes (m_index_head_dim cfg) ratio else 0)
      else 0)"

definition deepseek_bytes_per_token :: "planner_fpu \<Rightarrow> mla_cfg \<Rightarrow> int \<Rightarrow> int \<Rightarrow> int" where
  "deepseek_bytes_per_token fpu cfg kv_bytes idx_bytes =
     foldl (\<lambda>total ratio. total + layer_token_bytes fpu cfg kv_bytes idx_bytes ratio) 0 (compress_ratios cfg)"

definition layer_state_bytes :: "mla_cfg \<Rightarrow> int \<Rightarrow> int \<Rightarrow> int" where
  "layer_state_bytes cfg state_bytes ratio =
     (if ratio = 4
      then 2 * (2 * ratio) * (2 * m_head_dim cfg) * state_bytes + 2 * (2 * ratio) * (2 * m_index_head_dim cfg) * state_bytes
      else if ratio \<noteq> 0 then 2 * ratio * m_head_dim cfg * state_bytes
      else 0)"

definition deepseek_seq_state_bytes :: "mla_cfg \<Rightarrow> int \<Rightarrow> int" where
  "deepseek_seq_state_bytes cfg state_bytes =
     foldl (\<lambda>total ratio. total + layer_state_bytes cfg state_bytes ratio) 0 (compress_ratios cfg)"

definition deepseek_plan ::
  "planner_fpu \<Rightarrow> mla_cfg \<Rightarrow> int \<Rightarrow> int \<Rightarrow> int \<Rightarrow> int \<Rightarrow> int \<Rightarrow> rat \<Rightarrow> py_error + seq_plan" where
  "deepseek_plan fpu cfg kv_avail_bytes avg_context kv_bytes idx_bytes state_bytes utilization =
     (if avg_context \<le> 0 \<or> kv_avail_bytes < 0 \<or> \<not> (0 < utilization \<and> utilization \<le> 1) then Inl ValueError
      else Inr (sequences_in (scaled fpu kv_avail_bytes utilization) (deepseek_bytes_per_token fpu cfg kv_bytes idx_bytes)
                  (deepseek_seq_state_bytes cfg state_bytes) avg_context))"

section \<open>The plan of a placement\<close>

definition DEVICE_DEFAULT_BYTES :: int where
  "DEVICE_DEFAULT_BYTES = 4 * 1024 ^ 3"

definition HOST_DEFAULT_BYTES :: int where
  "HOST_DEFAULT_BYTES = 8 * 1024 ^ 3"

record kv_plan =
  placement :: pystr
  utilization :: rat
  bytes_per_token :: int
  budget_bytes :: int
  block_size :: int
  num_blocks :: int
  max_tokens :: int

definition kv_memory_plan :: "planner_fpu \<Rightarrow> pystr \<Rightarrow> rat \<Rightarrow> int \<Rightarrow> int \<Rightarrow> int \<Rightarrow> py_error + kv_plan" where
  "kv_memory_plan fpu pl u bpt budget bs =
     (if pl \<noteq> lit ''device'' \<and> pl \<noteq> lit ''host'' then Inl ValueError
      else let per_block = bpt * bs;
               usable = scaled fpu budget u;
               n = (if per_block \<noteq> 0 then usable div per_block else 0)
           in Inr \<lparr> placement = pl, utilization = u, bytes_per_token = bpt, budget_bytes = budget,
                    block_size = bs, num_blocks = n, max_tokens = n * bs \<rparr>)"

text \<open>What a recipe says of the cache: its geometry and its \<open>memory\<close> section.\<close>

record kv_recipe =
  full_attn_layers :: int
  r_kv_heads :: int
  r_head_dim :: int
  kv_placement :: pystr
  kv_utilization :: rat
  kv_host_bytes :: "int option"
  kv_device_bytes :: "int option"

definition kv_bytes_per_token :: "kv_recipe \<Rightarrow> int \<Rightarrow> int" where
  "kv_bytes_per_token r kv_bytes = fp8_kv_bytes_per_token (full_attn_layers r) (r_kv_heads r) (r_head_dim r) kv_bytes"

text \<open>\<open>x or default\<close> on an optional integer.\<close>

definition or_default :: "int option \<Rightarrow> int \<Rightarrow> int" where
  "or_default x d = (case x of None \<Rightarrow> d | Some n \<Rightarrow> if n = 0 then d else n)"

definition plan_from_recipe :: "planner_fpu \<Rightarrow> kv_recipe \<Rightarrow> int \<Rightarrow> int option \<Rightarrow> py_error + kv_plan" where
  "plan_from_recipe fpu r bs kv_avail_bytes =
     (let kv_bytes = (if kv_placement r = lit ''device'' then 4 else 2);
          bpt = kv_bytes_per_token r kv_bytes;
          budget = (case kv_avail_bytes of
                      Some b \<Rightarrow> b
                    | None \<Rightarrow> if kv_placement r = lit ''host'' then or_default (kv_host_bytes r) HOST_DEFAULT_BYTES
                              else or_default (kv_device_bytes r) DEVICE_DEFAULT_BYTES)
      in kv_memory_plan fpu (kv_placement r) (kv_utilization r) bpt budget bs)"

section \<open>Reservations\<close>

record kv_base =
  kv_plan_of :: kv_plan
  reserved :: "(int, int) dict"
  free_blocks :: int

definition new_base :: "kv_plan \<Rightarrow> kv_base" where
  "new_base plan = \<lparr> kv_plan_of = plan, reserved = [], free_blocks = num_blocks plan \<rparr>"

definition reserve :: "int \<Rightarrow> int \<Rightarrow> kv_base \<Rightarrow> (kv_base, unit) result" where
  "reserve seq_id n b =
     (if dget (reserved b) seq_id \<noteq> None then (Inl ValueError, b)
      else if n > free_blocks b then (Inl OutOfCapacity, b)
      else (Inr (), b\<lparr> reserved := dset seq_id n (reserved b), free_blocks := free_blocks b - n \<rparr>))"

definition release :: "int \<Rightarrow> kv_base \<Rightarrow> kv_base" where
  "release seq_id b =
     (let n = (case dget (reserved b) seq_id of None \<Rightarrow> 0 | Some n \<Rightarrow> n)
      in b\<lparr> reserved := ddel seq_id (reserved b), free_blocks := free_blocks b + n \<rparr>)"

section \<open>The stores\<close>

text \<open>
  A numpy array: its shape and its elements in row-major order.  Storing converts the elements to
  float32, so an array of another element type comes back converted.  Arrays are values here: a caller
  that later writes into a float32 array it stored, which \<open>np.asarray\<close> does not copy, is outside.
\<close>

record 'x array =
  a_shape :: "nat list"
  a_data :: "'x list"

definition as_f32 :: "('y \<Rightarrow> 'x) \<Rightarrow> 'y array \<Rightarrow> 'x array" where
  "as_f32 to_f32 a = \<lparr> a_shape = a_shape a, a_data = map to_f32 (a_data a) \<rparr>"

type_synonym ('x, 'h) layers = "(int, 'h \<times> 'h) dict"

record 'x host_kv =
  h_base :: kv_base
  h_store :: "(int, (int, 'x array \<times> 'x array) dict) dict"

definition new_host :: "kv_plan \<Rightarrow> 'x host_kv" where
  "new_host plan = \<lparr> h_base = new_base plan, h_store = [] \<rparr>"

definition layers_of :: "(int, (int, 'b) dict) dict \<Rightarrow> int \<Rightarrow> (int, 'b) dict" where
  "layers_of s seq_id = (case dget s seq_id of None \<Rightarrow> [] | Some d \<Rightarrow> d)"

definition host_put ::
  "('y \<Rightarrow> 'x) \<Rightarrow> int \<Rightarrow> int \<Rightarrow> 'y array \<Rightarrow> 'y array \<Rightarrow> 'x host_kv \<Rightarrow> 'x host_kv" where
  "host_put to_f32 seq_id layer k v h =
     h\<lparr> h_store := dset seq_id (dset layer (as_f32 to_f32 k, as_f32 to_f32 v) (layers_of (h_store h) seq_id)) (h_store h) \<rparr>"

definition host_gather :: "int \<Rightarrow> int \<Rightarrow> 'x host_kv \<Rightarrow> py_error + 'x array \<times> 'x array" where
  "host_gather seq_id layer h =
     (case dget (h_store h) seq_id of None \<Rightarrow> Inl KeyError
      | Some d \<Rightarrow> (case dget d layer of None \<Rightarrow> Inl KeyError | Some kv \<Rightarrow> Inr kv))"

definition host_free :: "int \<Rightarrow> 'x host_kv \<Rightarrow> 'x host_kv" where
  "host_free seq_id h = h\<lparr> h_store := ddel seq_id (h_store h), h_base := release seq_id (h_base h) \<rparr>"

text \<open>
  The device: the buffers that are allocated, by their address.  A buffer that no variable refers to
  any more is freed by its finalizer, which ignores a failure.  The driver decides, by address, whether
  an allocation, a copy to the device, a copy back and a release succeed; a call that fails raises
  \<open>RuntimeError\<close>.  A buffer that is freed stays closed: freeing it again does nothing.
\<close>

record 'x device =
  next_buf :: nat
  live :: "(nat, 'x list) dict"

record driver =
  alloc_ok :: "nat \<Rightarrow> bool"
  upload_ok :: "nat \<Rightarrow> bool"
  read_ok :: "nat \<Rightarrow> bool"
  free_ok :: "nat \<Rightarrow> bool"

definition free_buf :: "driver \<Rightarrow> nat \<Rightarrow> 'x device \<Rightarrow> ('x device, unit) result" where
  "free_buf drv p dev =
     (if dget (live dev) p = None then (Inr (), dev)
      else if free_ok drv p then (Inr (), dev\<lparr> live := ddel p (live dev) \<rparr>)
      else (Inl RuntimeError, dev))"

text \<open>The finalizer.\<close>

definition finalize :: "driver \<Rightarrow> nat \<Rightarrow> 'x device \<Rightarrow> 'x device" where
  "finalize drv p dev = snd (free_buf drv p dev)"

definition to_device :: "driver \<Rightarrow> 'x array \<Rightarrow> 'x device \<Rightarrow> ('x device, nat) result" where
  "to_device drv a dev =
     (let p = next_buf dev
      in if a_data a = [] then (Inl ValueError, dev)
         else if \<not> alloc_ok drv p then (Inl RuntimeError, dev\<lparr> next_buf := p + 1 \<rparr>)
         else let dev' = dev\<lparr> next_buf := p + 1, live := dset p (a_data a) (live dev) \<rparr>
              in if upload_ok drv p then (Inr p, dev') else (Inl RuntimeError, finalize drv p dev'))"

definition copy_host :: "driver \<Rightarrow> nat \<Rightarrow> 'x device \<Rightarrow> py_error + 'x array" where
  "copy_host drv p dev =
     (case dget (live dev) p of
        Some d \<Rightarrow> if read_ok drv p then Inr \<lparr> a_shape = [length d], a_data = d \<rparr> else Inl RuntimeError
      | None \<Rightarrow> Inl RuntimeError)"

record 'x device_kv =
  d_base :: kv_base
  d_bufs :: "(int, (int, nat \<times> nat) dict) dict"
  d_dev :: "'x device"

text \<open>The construction: the free memory is unknown when it is negative.\<close>

definition new_device :: "int \<Rightarrow> int \<Rightarrow> 'x device \<Rightarrow> kv_plan \<Rightarrow> py_error + 'x device_kv" where
  "new_device device_count free dev plan =
     (if device_count < 1 then Inl RuntimeError
      else if free \<ge> 0 \<and> free < budget_bytes plan then Inl RuntimeError
      else Inr \<lparr> d_base = new_base plan, d_bufs = [], d_dev = dev \<rparr>)"

text \<open>
  The stale buffers of a slot are freed once the new ones are there; if one of them cannot be freed the
  slot keeps them and the new ones are finalized.
\<close>

definition free_pair :: "driver \<Rightarrow> nat \<times> nat \<Rightarrow> 'x device \<Rightarrow> ('x device, unit) result" where
  "free_pair drv kv dev =
     (case free_buf drv (fst kv) dev of
        (Inl e, dev') \<Rightarrow> (Inl e, dev')
      | (Inr _, dev') \<Rightarrow> free_buf drv (snd kv) dev')"

definition finalize_pair :: "driver \<Rightarrow> nat \<times> nat \<Rightarrow> 'x device \<Rightarrow> 'x device" where
  "finalize_pair drv kv dev = finalize drv (snd kv) (finalize drv (fst kv) dev)"

definition device_put ::
  "driver \<Rightarrow> ('y \<Rightarrow> 'x) \<Rightarrow> int \<Rightarrow> int \<Rightarrow> 'y array \<Rightarrow> 'y array \<Rightarrow> 'x device_kv \<Rightarrow> ('x device_kv, unit) result" where
  "device_put drv to_f32 seq_id layer k v d =
     (case to_device drv (as_f32 to_f32 k) (d_dev d) of
        (Inl e, dev) \<Rightarrow> (Inl e, d\<lparr> d_dev := dev \<rparr>)
      | (Inr kb, dev) \<Rightarrow>
          (case to_device drv (as_f32 to_f32 v) dev of
             (Inl e, dev') \<Rightarrow> (Inl e, d\<lparr> d_dev := finalize drv kb dev' \<rparr>)
           | (Inr vb, dev') \<Rightarrow>
               (let layers = layers_of (d_bufs d) seq_id
                in case (case dget layers layer of None \<Rightarrow> (Inr (), dev')
                         | Some stale \<Rightarrow> free_pair drv stale dev') of
                     (Inl e, dev'') \<Rightarrow> (Inl e, d\<lparr> d_dev := finalize_pair drv (kb, vb) dev'' \<rparr>)
                   | (Inr _, dev'') \<Rightarrow>
                       (Inr (), d\<lparr> d_bufs := dset seq_id (dset layer (kb, vb) layers) (d_bufs d), d_dev := dev'' \<rparr>))))"

definition device_gather :: "driver \<Rightarrow> int \<Rightarrow> int \<Rightarrow> 'x device_kv \<Rightarrow> py_error + 'x array \<times> 'x array" where
  "device_gather drv seq_id layer d =
     (case dget (d_bufs d) seq_id of None \<Rightarrow> Inl KeyError
      | Some l \<Rightarrow>
          (case dget l layer of None \<Rightarrow> Inl KeyError
           | Some (kb, vb) \<Rightarrow>
               rbind (copy_host drv kb (d_dev d)) (\<lambda>k. rbind (copy_host drv vb (d_dev d)) (\<lambda>v. Inr (k, v)))))"

text \<open>
  The entry of the sequence is popped before its buffers are freed, and the reservation is released
  after: a release that fails leaves the reservation taken, and the remaining buffers to the finalizer.
\<close>

primrec free_pairs :: "driver \<Rightarrow> (nat \<times> nat) list \<Rightarrow> 'x device \<Rightarrow> ('x device, unit) result" where
  "free_pairs drv [] dev = (Inr (), dev)"
| "free_pairs drv (kv # kvs) dev =
     (case free_pair drv kv dev of
        (Inl e, dev') \<Rightarrow> (Inl e, dev')
      | (Inr _, dev') \<Rightarrow> free_pairs drv kvs dev')"

definition device_free :: "driver \<Rightarrow> int \<Rightarrow> 'x device_kv \<Rightarrow> ('x device_kv, unit) result" where
  "device_free drv seq_id d =
     (let kvs = map snd (layers_of (d_bufs d) seq_id); d' = d\<lparr> d_bufs := ddel seq_id (d_bufs d) \<rparr>
      in case free_pairs drv kvs (d_dev d) of
           (Inl e, dev) \<Rightarrow> (Inl e, d'\<lparr> d_dev := fold (finalize_pair drv) kvs dev \<rparr>)
         | (Inr _, dev) \<Rightarrow> (Inr (), d'\<lparr> d_dev := dev, d_base := release seq_id (d_base d) \<rparr>))"

datatype 'x backend = HostKV "'x host_kv" | DeviceKV "'x device_kv"

definition build_kv_backend :: "int \<Rightarrow> int \<Rightarrow> 'x device \<Rightarrow> kv_plan \<Rightarrow> 'x backend" where
  "build_kv_backend device_count free dev plan =
     (if placement plan = lit ''host'' then HostKV (new_host plan)
      else case new_device device_count free dev plan of
             Inr d \<Rightarrow> DeviceKV d | Inl _ \<Rightarrow> HostKV (new_host plan))"

section \<open>The budget\<close>

text \<open>
  What the sizing relies on: scaling a byte count by a fraction rounds into the count, which holds
  as long as the count is exact in a float.
\<close>

definition fpu_ok :: "planner_fpu \<Rightarrow> bool" where
  "fpu_ok fpu \<longleftrightarrow> (\<forall>b u. 0 \<le> b \<longrightarrow> 0 < u \<longrightarrow> u \<le> 1 \<longrightarrow> 0 \<le> scaled fpu b u \<and> scaled fpu b u \<le> b)"

definition plan_block_bytes :: "kv_plan \<Rightarrow> int" where
  "plan_block_bytes p = bytes_per_token p * block_size p"

definition reserved_blocks :: "kv_base \<Rightarrow> int" where
  "reserved_blocks b = sum_list (map snd (reserved b))"

definition base_ok :: "kv_base \<Rightarrow> bool" where
  "base_ok b \<longleftrightarrow> dict_ok (reserved b) \<and> list_all (\<lambda>(_, n). 0 \<le> n) (reserved b) \<and> 0 \<le> free_blocks b \<and>
     reserved_blocks b + free_blocks b = num_blocks (kv_plan_of b)"

lemma dict_ok_snoc: "dget d k = None \<Longrightarrow> dict_ok d \<Longrightarrow> dict_ok (d @ [(k, v)])"
  by (metis dict_ok_dset dset_new)

lemma ddel_values_sum:
  fixes d :: "('k, int) dict"
  assumes "dict_ok d"
  shows "sum_list (map snd (ddel k d)) + (case dget d k of None \<Rightarrow> 0 | Some n \<Rightarrow> n) = sum_list (map snd d)"
  using assms
proof (induction d)
  case (Cons x d)
  obtain j n where x: "x = (j, n)" by fastforce
  have "j = k \<Longrightarrow> dget d k = None" using Cons.prems x by (auto simp: dict_ok_def map_of_eq_None_iff)
  then show ?case using Cons x by (cases "j = k") (auto simp: dict_ok_def)
qed simp

lemma kv_reserve_ok:
  assumes "base_ok b" "0 \<le> n"
  shows "base_ok (snd (reserve s n b))" "kv_plan_of (snd (reserve s n b)) = kv_plan_of b"
  using assms by (auto simp: reserve_def base_ok_def reserved_blocks_def dset_new dict_ok_snoc)

lemma kv_release_ok:
  assumes "base_ok b"
  shows "base_ok (release s b)" "kv_plan_of (release s b) = kv_plan_of b"
proof -
  have sum: "reserved_blocks (release s b) + free_blocks (release s b) = num_blocks (kv_plan_of b)"
    using assms ddel_values_sum [of "reserved b" s]
    by (simp add: release_def base_ok_def reserved_blocks_def Let_def)
  have nn: "list_all (\<lambda>(_, n). 0 \<le> n) (reserved (release s b))"
    using assms by (auto simp: release_def base_ok_def list_all_iff Let_def AList.delete_eq)
  have "0 \<le> (case dget (reserved b) s of None \<Rightarrow> 0 | Some n \<Rightarrow> n)"
    using assms map_of_SomeD by (fastforce simp: base_ok_def list_all_iff split: option.split)
  then have "0 \<le> free_blocks (release s b)" using assms by (simp add: release_def base_ok_def Let_def)
  then show "base_ok (release s b)"
    using assms sum nn by (simp add: base_ok_def) (simp add: release_def Let_def)
  show "kv_plan_of (release s b) = kv_plan_of b" by (simp add: release_def Let_def)
qed

text \<open>The reservations of a backend change by \<open>reserve\<close>, which may raise, and by \<open>release\<close>.\<close>

inductive base_step :: "kv_base \<Rightarrow> kv_base \<Rightarrow> bool" where
  reserving: "0 \<le> n \<Longrightarrow> base_step b (snd (reserve s n b))"
| releasing: "base_step b (release s b)"

inductive_cases base_stepE: "base_step b b'"

lemma base_step_ok: "base_step b b' \<Longrightarrow> base_ok b \<Longrightarrow> base_ok b' \<and> kv_plan_of b' = kv_plan_of b"
  by (erule base_stepE) (auto simp: kv_reserve_ok kv_release_ok)

lemma base_reach_ok:
  "base_step\<^sup>*\<^sup>* b b' \<Longrightarrow> base_ok b \<Longrightarrow> base_ok b' \<and> kv_plan_of b' = kv_plan_of b"
  by (induction rule: rtranclp_induct) (auto dest: base_step_ok)

lemma plan_fits:
  assumes "kv_memory_plan fpu pl u bpt budget bs = Inr p" "fpu_ok fpu" "0 < u" "u \<le> 1"
    "0 \<le> budget" "0 \<le> bpt" "0 \<le> bs"
  shows "0 \<le> num_blocks p" "num_blocks p * plan_block_bytes p \<le> budget" "budget_bytes p = budget"
    "plan_block_bytes p = bpt * bs"
proof -
  have u: "0 \<le> scaled fpu budget u" "scaled fpu budget u \<le> budget" using assms(2-5) by (auto simp: fpu_ok_def)
  have p: "num_blocks p = (if bpt * bs \<noteq> 0 then scaled fpu budget u div (bpt * bs) else 0)"
    "bytes_per_token p = bpt" "block_size p = bs" "budget_bytes p = budget"
    using assms(1) by (auto simp: kv_memory_plan_def Let_def split: if_splits)
  have per: "0 \<le> bpt * bs" using assms(6,7) by simp
  show "budget_bytes p = budget" "plan_block_bytes p = bpt * bs" by (simp_all add: p plan_block_bytes_def)
  show "0 \<le> num_blocks p"
    using u(1) per pos_imp_zdiv_nonneg_iff [of "bpt * bs" "scaled fpu budget u"] by (auto simp: p order_le_less)
  have "scaled fpu budget u div (bpt * bs) * (bpt * bs) \<le> scaled fpu budget u" if "0 < bpt * bs"
  proof -
    have "scaled fpu budget u div (bpt * bs) * (bpt * bs) + scaled fpu budget u mod (bpt * bs) = scaled fpu budget u"
      by (rule div_mult_mod_eq)
    then show ?thesis using pos_mod_sign [OF that, of "scaled fpu budget u"] by linarith
  qed
  then have "0 < bpt * bs \<Longrightarrow> scaled fpu budget u div (bpt * bs) * (bpt * bs) \<le> budget" using u(2) by linarith
  then show "num_blocks p * plan_block_bytes p \<le> budget"
    using per assms(5) unfolding p plan_block_bytes_def by (cases "bpt * bs = 0") simp_all
qed

text \<open>
  The bytes of all reserved blocks stay within the budget of the plan.  After any sequence of
  reservations, refused or not, and releases, the reserved and the free blocks add up to the planned
  blocks and no count is negative.
\<close>

theorem reservations_within_budget:
  assumes "kv_memory_plan fpu pl u bpt budget bs = Inr p" "fpu_ok fpu" "0 < u" "u \<le> 1"
    "0 \<le> budget" "0 \<le> bpt" "0 \<le> bs" "base_step\<^sup>*\<^sup>* (new_base p) b"
  shows "0 \<le> free_blocks b \<and> reserved_blocks b + free_blocks b = num_blocks p \<and>
    reserved_blocks b * (bpt * bs) \<le> budget"
proof -
  note fit = plan_fits [OF assms(1-7)]
  have "base_ok (new_base p)" using fit(1) by (simp add: base_ok_def new_base_def reserved_blocks_def)
  then have ok: "base_ok b" "kv_plan_of b = p"
    using base_reach_ok [OF assms(8)] by (auto simp: new_base_def)
  then have acc: "0 \<le> free_blocks b" "reserved_blocks b + free_blocks b = num_blocks p" by (auto simp: base_ok_def)
  then have "reserved_blocks b \<le> num_blocks p" by linarith
  then have "reserved_blocks b * (bpt * bs) \<le> num_blocks p * (bpt * bs)"
    using assms(6,7) by (intro mult_right_mono) simp_all
  with fit acc show ?thesis by simp
qed

definition exact_planner :: planner_fpu where
  "exact_planner = \<lparr> scaled = (\<lambda>b u. \<lfloor>of_int b * u\<rfloor>), row_bytes = (\<lambda>e d r. e * d div r), gib_bytes = (\<lambda>g. \<lfloor>g * 1024 ^ 3\<rfloor>) \<rparr>"

lemma exact_planner_ok: "fpu_ok exact_planner"
proof -
  have "0 \<le> \<lfloor>of_int b * u\<rfloor> \<and> \<lfloor>of_int b * u\<rfloor> \<le> b" if "0 \<le> b" "0 < u" "u \<le> 1" for b and u :: rat
  proof
    have "0 \<le> of_int b * u" using that by simp
    then show "0 \<le> \<lfloor>of_int b * u\<rfloor>" by (simp only: zero_le_floor)
    have "of_int b * u \<le> of_int b * 1" using that by (intro mult_left_mono) simp_all
    then have "\<lfloor>of_int b * u\<rfloor> \<le> \<lfloor>of_int b :: rat\<rfloor>" by (intro floor_mono) simp
    then show "\<lfloor>of_int b * u\<rfloor> \<le> b" by simp
  qed
  then show ?thesis by (simp add: fpu_ok_def exact_planner_def)
qed

definition small_plan :: kv_plan where
  "small_plan = \<lparr> placement = lit ''host'', utilization = 1 / 2, bytes_per_token = 8, budget_bytes = 1000,
     block_size = 4, num_blocks = 15, max_tokens = 60 \<rparr>"

theorem reservations_within_budget_witness:
  "let b = release 1 (snd (reserve 3 9 (snd (reserve 2 6 (snd (reserve 1 7 (new_base small_plan))))))) 
   in reserved b = [(2, 6)] \<and> free_blocks b = 9 \<and> reserved_blocks b * (8 * 4) \<le> 1000"
proof -
  let ?b = "release 1 (snd (reserve 3 9 (snd (reserve 2 6 (snd (reserve 1 7 (new_base small_plan)))))))"
  have plan: "kv_memory_plan exact_planner (lit ''host'') (1 / 2) 8 1000 4 = Inr small_plan"
    by code_simp
  have reach: "base_step\<^sup>*\<^sup>* (new_base small_plan) ?b"
    using reserving [of 7 "new_base small_plan" 1] reserving [of 6 "snd (reserve 1 7 (new_base small_plan))" 2]
      reserving [of 9 "snd (reserve 2 6 (snd (reserve 1 7 (new_base small_plan))))" 3]
      releasing [of "snd (reserve 3 9 (snd (reserve 2 6 (snd (reserve 1 7 (new_base small_plan))))))" 1]
    by (meson converse_rtranclp_into_rtranclp rtranclp.rtrancl_refl zero_le_numeral)
  have "reserved_blocks ?b * (8 * 4) \<le> 1000"
    using reservations_within_budget [OF plan exact_planner_ok _ _ _ _ _ reach] by simp
  moreover have "reserved ?b = [(2, 6)]" "free_blocks ?b = 9" by code_simp+
  ultimately show ?thesis by (simp add: Let_def)
qed

text \<open>
  The constructor does not check the fraction the way \<open>plan_block_count\<close> does: with a utilisation
  above one the plan exceeds its budget.
\<close>

lemma utilization_unchecked:
  "plan_block_count exact_planner 1000 8 4 2 = Inl ValueError \<and>
   map_sum id (\<lambda>p. num_blocks p * 32) (kv_memory_plan exact_planner (lit ''host'') 2 8 1000 4) = Inr 1984"
  by (rule conjI; code_simp)

end
