(* ===== verification/KvStores.thy ===== *)
theory KvStores
  imports Placement
begin

text \<open>
  The two stores of \<open>runtime/placement.py\<close> against one specification, a map from a sequence and a
  layer to keys and values, stated as a locale that the host and the device store interpret.
\<close>

section \<open>What a store promises\<close>

text \<open>
  The specification of both stores: a map from a sequence and a layer to the elements of its keys and
  values, converted to float32.  A put that raises changes nothing of it; a sequence that is freed is
  gone from it.
\<close>

type_synonym 'x kv_view = "int \<Rightarrow> int \<Rightarrow> ('x list \<times> 'x list) option"

datatype 'y kv_op = Put int int "'y array" "'y array" | Clear int

fun spec_run :: "('y \<Rightarrow> 'x) \<Rightarrow> 'y kv_op list \<Rightarrow> bool list \<Rightarrow> 'x kv_view \<Rightarrow> 'x kv_view" where
  "spec_run c (Put s l k v # ops) (done' # outs) m =
     spec_run c ops outs (if done' then m(s := (m s)(l \<mapsto> (map c (a_data k), map c (a_data v)))) else m)"
| "spec_run c (Clear s # ops) (_ # outs) m = spec_run c ops outs (m(s := (\<lambda>_. None)))"
| "spec_run _ _ _ m = m"

type_synonym ('y, 'b) putter = "int \<Rightarrow> int \<Rightarrow> 'y array \<Rightarrow> 'y array \<Rightarrow> 'b \<Rightarrow> ('b, unit) result"
type_synonym 'b clearer = "int \<Rightarrow> 'b \<Rightarrow> ('b, unit) result"

fun kv_step :: "('y, 'b) putter \<Rightarrow> 'b clearer \<Rightarrow> 'y kv_op \<Rightarrow> 'b \<Rightarrow> ('b, unit) result" where
  "kv_step put clear (Put s l k v) b = put s l k v b"
| "kv_step put clear (Clear s) b = clear s b"

primrec kv_run :: "('y, 'b) putter \<Rightarrow> 'b clearer \<Rightarrow> 'y kv_op list \<Rightarrow> 'b \<Rightarrow> bool list \<times> 'b" where
  "kv_run put clear [] b = ([], b)"
| "kv_run put clear (x # ops) b =
     (let r = kv_step put clear x b; (outs, b'') = kv_run put clear ops (snd r) in ((fst r = Inr ()) # outs, b''))"

lemma kv_run_simps:
  "fst (kv_run put clear (x # ops) b) =
     (fst (kv_step put clear x b) = Inr ()) # fst (kv_run put clear ops (snd (kv_step put clear x b)))"
  "snd (kv_run put clear (x # ops) b) = snd (kv_run put clear ops (snd (kv_step put clear x b)))"
  by (auto simp: split_beta Let_def)

definition elements :: "py_error + 'x array \<times> 'x array \<Rightarrow> py_error + 'x list \<times> 'x list" where
  "elements r = map_sum id (\<lambda>(k, v). (a_data k, a_data v)) r"

definition looked_up :: "('x list \<times> 'x list) option \<Rightarrow> py_error + 'x list \<times> 'x list" where
  "looked_up v = (case v of None \<Rightarrow> Inl KeyError | Some kv \<Rightarrow> Inr kv)"

locale kv_store =
  fixes ok :: "'b \<Rightarrow> bool"
    and view :: "'b \<Rightarrow> 'x kv_view"
    and conv :: "'y \<Rightarrow> 'x"
    and put :: "('y, 'b) putter"
    and clear :: "'b clearer"
    and fetch :: "int \<Rightarrow> int \<Rightarrow> 'b \<Rightarrow> py_error + 'x array \<times> 'x array"
    and unreadable :: "int \<Rightarrow> int \<Rightarrow> 'b \<Rightarrow> bool"
  assumes put_ok: "ok b \<Longrightarrow> ok (snd (put s l k v b))"
    and put_view: "ok b \<Longrightarrow> view (snd (put s l k v b)) =
        (if fst (put s l k v b) = Inr () then (view b)(s := (view b s)(l \<mapsto> (map conv (a_data k), map conv (a_data v))))
         else view b)"
    and clear_ok: "ok b \<Longrightarrow> ok (snd (clear s b))"
    and clear_view: "ok b \<Longrightarrow> view (snd (clear s b)) = (view b)(s := (\<lambda>_. None))"
    and fetch_view: "ok b \<Longrightarrow> elements (fetch s l b) = (if unreadable s l b then Inl RuntimeError else looked_up (view b s l))"
begin

lemma step_ok: "ok b \<Longrightarrow> ok (snd (kv_step put clear x b))"
  by (cases x) (simp_all add: put_ok clear_ok)

lemma run_ok: "ok b \<Longrightarrow> ok (snd (kv_run put clear ops b))"
  by (induction ops arbitrary: b) (simp_all add: kv_run_simps step_ok del: kv_run.simps(2))

lemma run_view:
  "ok b \<Longrightarrow> view (snd (kv_run put clear ops b)) = spec_run conv ops (fst (kv_run put clear ops b)) (view b)"
proof (induction ops arbitrary: b)
  case (Cons x ops)
  then show ?case
    by (cases x) (simp_all add: kv_run_simps put_ok clear_ok put_view clear_view del: kv_run.simps(2) fun_upd_apply)
qed simp

lemma run_fetch:
  "ok b \<Longrightarrow> elements (fetch s l (snd (kv_run put clear ops b))) =
     (if unreadable s l (snd (kv_run put clear ops b)) then Inl RuntimeError
      else looked_up (spec_run conv ops (fst (kv_run put clear ops b)) (view b) s l))"
  by (simp add: fetch_view run_ok run_view)

end

section \<open>The host store\<close>

definition host_view :: "'x host_kv \<Rightarrow> 'x kv_view" where
  "host_view h s l = map_option (\<lambda>(k, v). (a_data k, a_data v)) (dget (layers_of (h_store h) s) l)"

lemma layers_of_dset: "layers_of (dset s d m) s' = (if s' = s then d else layers_of m s')"
  by (auto simp: layers_of_def dget_dset)

lemma layers_of_ddel: "layers_of (ddel s m) s' = (if s' = s then [] else layers_of m s')"
  by (auto simp: layers_of_def dget_ddel)

abbreviation host_putter :: "('y \<Rightarrow> 'x) \<Rightarrow> ('y, 'x host_kv) putter" where
  "host_putter c \<equiv> \<lambda>s l k v h. (Inr (), host_put c s l k v h)"

abbreviation host_clearer :: "'x host_kv clearer" where
  "host_clearer \<equiv> \<lambda>s h. (Inr (), host_free s h)"

interpretation host: kv_store "\<lambda>_. True" host_view c "host_putter c" host_clearer host_gather "\<lambda>_ _ _. False" for c :: "'y \<Rightarrow> 'x"
proof
  fix b :: "'x host_kv" and s l and k v :: "'y array"
  show "host_view (snd (host_putter c s l k v b)) =
    (if fst (host_putter c s l k v b) = Inr ()
     then (host_view b)(s := (host_view b s)(l \<mapsto> (map c (a_data k), map c (a_data v)))) else host_view b)"
    by (intro ext) (auto simp: host_view_def host_put_def as_f32_def layers_of_dset dget_dset)
  show "host_view (snd (host_clearer s b)) = (host_view b)(s := (\<lambda>_. None))"
    by (intro ext) (auto simp: host_view_def host_free_def layers_of_ddel)
  show "elements (host_gather s l b) = (if False then Inl RuntimeError else looked_up (host_view b s l))"
    by (auto simp: host_gather_def host_view_def elements_def looked_up_def layers_of_def split: option.split)
qed simp_all

section \<open>The device store\<close>

text \<open>The buffer in a slot: a sequence, a layer, and keys or values.\<close>

definition slot_buf :: "'x device_kv \<Rightarrow> int \<times> int \<times> bool \<Rightarrow> nat option" where
  "slot_buf d = (\<lambda>(s, l, side). map_option (\<lambda>(kb, vb). if side then vb else kb) (dget (layers_of (d_bufs d) s) l))"

definition live_bufs :: "'x device_kv \<Rightarrow> nat set" where
  "live_bufs d = dom (dget (live (d_dev d)))"

definition device_ok :: "'x device_kv \<Rightarrow> bool" where
  "device_ok d \<longleftrightarrow> (\<forall>x y p. slot_buf d x = Some p \<longrightarrow> slot_buf d y = Some p \<longrightarrow> x = y) \<and>
     (\<forall>p. p \<in> live_bufs d \<longleftrightarrow> (\<exists>x. slot_buf d x = Some p)) \<and>
     (\<forall>p \<in> live_bufs d. p < next_buf (d_dev d)) \<and> (\<forall>s. dict_ok (layers_of (d_bufs d) s))"

lemma device_okD:
  assumes "device_ok d"
  shows "slot_buf d x = Some p \<Longrightarrow> slot_buf d y = Some p \<Longrightarrow> x = y"
    "p \<in> live_bufs d \<longleftrightarrow> (\<exists>x. slot_buf d x = Some p)" "p \<in> live_bufs d \<Longrightarrow> p < next_buf (d_dev d)"
    "dict_ok (layers_of (d_bufs d) s)"
  using assms unfolding device_ok_def by blast+

definition device_view :: "'x device_kv \<Rightarrow> 'x kv_view" where
  "device_view d s l = (case dget (layers_of (d_bufs d) s) l of None \<Rightarrow> None
     | Some (kb, vb) \<Rightarrow> Some (the (dget (live (d_dev d)) kb), the (dget (live (d_dev d)) vb)))"

lemma slot_buf_entry:
  "slot_buf d (s, l, side) = Some p \<longleftrightarrow>
     (\<exists>kb vb. dget (layers_of (d_bufs d) s) l = Some (kb, vb) \<and> p = (if side then vb else kb))"
  by (auto simp: slot_buf_def)

lemma slot_buf_live:
  assumes "device_ok d" "dget (layers_of (d_bufs d) s) l = Some (kb, vb)"
  shows "kb \<in> live_bufs d" "vb \<in> live_bufs d" "kb \<noteq> vb"
proof -
  have sb: "slot_buf d (s, l, False) = Some kb" "slot_buf d (s, l, True) = Some vb"
    using assms(2) by (simp_all add: slot_buf_def)
  show "kb \<in> live_bufs d" "vb \<in> live_bufs d" using sb device_okD(2) [OF assms(1)] by blast+
  show "kb \<noteq> vb" using sb device_okD(1) [OF assms(1) sb(1), of "(s, l, True)"] by auto
qed

text \<open>
  While the driver frees what it is asked to free, the buffers are released where the code releases
  them: the rest of this section is about such a driver, whatever its other calls do.
\<close>

abbreviation frees :: "driver \<Rightarrow> driver" where
  "frees drv \<equiv> drv\<lparr> free_ok := \<lambda>_. True \<rparr>"

definition drop_buf :: "nat \<Rightarrow> 'x device \<Rightarrow> 'x device" where
  "drop_buf p dev = dev\<lparr> live := ddel p (live dev) \<rparr>"

lemma free_buf_frees: "free_buf (frees drv) p dev = (Inr (), drop_buf p dev)"
  by (simp add: free_buf_def drop_buf_def ddel_none)

lemma free_pair_frees: "free_pair (frees drv) kv dev = (Inr (), drop_buf (snd kv) (drop_buf (fst kv) dev))"
  by (simp add: free_pair_def free_buf_frees)

lemma free_pairs_frees:
  "free_pairs (frees drv) kvs dev = (Inr (), foldl (\<lambda>dev (kb, vb). drop_buf vb (drop_buf kb dev)) dev kvs)"
  by (induction kvs arbitrary: dev) (simp_all add: free_pair_frees split_beta)

lemma finalize_frees: "finalize (frees drv) p dev = drop_buf p dev"
  by (simp add: finalize_def free_buf_frees)

lemmas driver_frees = free_buf_frees free_pair_frees free_pairs_frees finalize_frees

lemma device_free_frees:
  "device_free (frees drv) s d = (Inr (), d\<lparr>
     d_dev := foldl (\<lambda>dev (kb, vb). drop_buf vb (drop_buf kb dev)) (d_dev d) (map snd (layers_of (d_bufs d) s)),
     d_bufs := ddel s (d_bufs d), d_base := release s (d_base d) \<rparr>)"
  by (simp add: device_free_def free_pairs_frees Let_def)

text \<open>A successful put: two new buffers in the slot, the stale ones gone.\<close>

definition stale_bufs :: "'x device_kv \<Rightarrow> int \<Rightarrow> int \<Rightarrow> nat set" where
  "stale_bufs d s l = (case dget (layers_of (d_bufs d) s) l of None \<Rightarrow> {} | Some (kb, vb) \<Rightarrow> {kb, vb})"

lemma device_put_cases:
  obtains (stored) "fst (device_put (frees drv) c s l k v d) = Inr ()"
      "d_bufs (snd (device_put (frees drv) c s l k v d)) =
         dset s (dset l (next_buf (d_dev d), next_buf (d_dev d) + 1) (layers_of (d_bufs d) s)) (d_bufs d)"
      "next_buf (d_dev (snd (device_put (frees drv) c s l k v d))) = next_buf (d_dev d) + 2"
      "\<And>p. dget (live (d_dev (snd (device_put (frees drv) c s l k v d)))) p =
         (if p \<in> stale_bufs d s l then None
          else if p = next_buf (d_dev d) + 1 then Some (map c (a_data v))
          else if p = next_buf (d_dev d) then Some (map c (a_data k)) else dget (live (d_dev d)) p)"
  | (failed) "fst (device_put (frees drv) c s l k v d) \<noteq> Inr ()"
      "d_bufs (snd (device_put (frees drv) c s l k v d)) = d_bufs d"
      "next_buf (d_dev d) \<le> next_buf (d_dev (snd (device_put (frees drv) c s l k v d)))"
      "\<And>p. p < next_buf (d_dev d) \<Longrightarrow> dget (live (d_dev (snd (device_put (frees drv) c s l k v d)))) p = dget (live (d_dev d)) p"
      "\<And>p. next_buf (d_dev d) \<le> p \<Longrightarrow> dget (live (d_dev d)) p = None \<Longrightarrow>
         dget (live (d_dev (snd (device_put (frees drv) c s l k v d)))) p = None"
proof -
  let ?n = "next_buf (d_dev d)" and ?ok = "\<lambda>a p. a_data a \<noteq> [] \<and> alloc_ok drv p \<and> upload_ok drv p"
  note defs = device_put_def to_device_def as_f32_def driver_frees drop_buf_def dget_dset dget_ddel Let_def
  consider "\<not> ?ok k ?n" | "?ok k ?n" "\<not> ?ok v (?n + 1)" | "?ok k ?n" "?ok v (?n + 1)" by blast
  then show ?thesis
  proof cases
    case 1
    then show ?thesis by (intro failed) (auto simp: defs split: if_splits)
  next
    case 2
    then show ?thesis by (intro failed) (auto simp: defs split: if_splits)
  next
    case 3
    then show ?thesis by (intro stored) (auto simp: defs stale_bufs_def split: option.split)
  qed
qed

lemma stale_iff: "p \<in> stale_bufs d s l \<longleftrightarrow> (\<exists>side. slot_buf d (s, l, side) = Some p)"
proof (cases "dget (layers_of (d_bufs d) s) l")
  case (Some x)
  obtain kb vb where "x = (kb, vb)" by fastforce
  with Some show ?thesis by (auto simp: stale_bufs_def slot_buf_def ex_bool_eq)
qed (simp add: stale_bufs_def slot_buf_def)

lemma slot_buf_put:
  assumes "d_bufs d' = dset s (dset l (kb, vb) (layers_of (d_bufs d) s)) (d_bufs d)"
  shows "slot_buf d' (s', l', side) =
    (if s' = s \<and> l' = l then Some (if side then vb else kb) else slot_buf d (s', l', side))"
  by (auto simp: slot_buf_def assms layers_of_dset dget_dset)

lemma put_failed_live:
  assumes "device_ok d"
    "\<And>p. p < next_buf (d_dev d) \<Longrightarrow> dget m p = dget (live (d_dev d)) p"
    "\<And>p. next_buf (d_dev d) \<le> p \<Longrightarrow> dget (live (d_dev d)) p = None \<Longrightarrow> dget m p = None"
  shows "dget m = dget (live (d_dev d))"
proof
  fix p
  show "dget m p = dget (live (d_dev d)) p"
  proof (cases "p < next_buf (d_dev d)")
    case False
    then have "dget (live (d_dev d)) p = None"
      using device_okD(3) [OF assms(1), of p] by (auto simp: live_bufs_def)
    with False show ?thesis using assms(3) [of p] by simp
  qed (rule assms(2))
qed

lemma device_put_ok:
  assumes "device_ok d"
  shows "device_ok (snd (device_put (frees drv) c s l k v d))"
proof (cases rule: device_put_cases [of drv c s l k v d])
  case stored
  let ?d = "snd (device_put (frees drv) c s l k v d)" and ?n = "next_buf (d_dev d)"
  note slot = slot_buf_put [OF stored(2)]
  have old: "slot_buf d x = Some p \<Longrightarrow> p < ?n" for x p
    using device_okD(2,3) [OF assms] by blast
  have stale: "p \<in> stale_bufs d s l \<Longrightarrow> p < ?n" for p using old stale_iff by metis
  have live: "p \<in> live_bufs ?d \<longleftrightarrow> p \<notin> stale_bufs d s l \<and> (p = ?n \<or> p = ?n + 1 \<or> p \<in> live_bufs d)" for p
    using stored(4) [of p] by (auto simp: live_bufs_def dom_def)
  have inj: "x = y" if xy: "slot_buf ?d x = Some p" "slot_buf ?d y = Some p" for x y p
  proof -
    obtain s1 l1 b1 s2 l2 b2 where e: "x = (s1, l1, b1)" "y = (s2, l2, b2)" by (metis surj_pair)
    consider "s1 = s \<and> l1 = l" "s2 = s \<and> l2 = l" | "s1 = s \<and> l1 = l" "\<not> (s2 = s \<and> l2 = l)"
      | "\<not> (s1 = s \<and> l1 = l)" "s2 = s \<and> l2 = l" | "\<not> (s1 = s \<and> l1 = l)" "\<not> (s2 = s \<and> l2 = l)" by blast
    then show ?thesis
    proof cases
      case 1
      with xy e show ?thesis by (cases b1; cases b2) (auto simp: slot)
    next
      case 2
      with xy e have "slot_buf d y = Some p" "?n \<le> p" by (auto simp: slot split: if_splits)
      with old show ?thesis by fastforce
    next
      case 3
      with xy e have "slot_buf d x = Some p" "?n \<le> p" by (auto simp: slot split: if_splits)
      with old show ?thesis by fastforce
    next
      case 4
      with xy e have "slot_buf d x = Some p" "slot_buf d y = Some p" by (auto simp: slot split: if_splits)
      then show ?thesis by (rule device_okD(1) [OF assms])
    qed
  qed
  have ref: "p \<in> live_bufs ?d \<longleftrightarrow> (\<exists>x. slot_buf ?d x = Some p)" for p
  proof
    assume p: "p \<in> live_bufs ?d"
    then consider "p = ?n" | "p = ?n + 1" | "p \<in> live_bufs d" "p \<notin> stale_bufs d s l" using live by blast
    then show "\<exists>x. slot_buf ?d x = Some p"
    proof cases
      case 1
      then have "slot_buf ?d (s, l, False) = Some p" by (simp add: slot)
      then show ?thesis by blast
    next
      case 2
      then have "slot_buf ?d (s, l, True) = Some p" by (simp add: slot)
      then show ?thesis by blast
    next
      case 3
      then obtain s' l' side where x: "slot_buf d (s', l', side) = Some p"
        using device_okD(2) [OF assms] by (metis surj_pair)
      then have "\<not> (s' = s \<and> l' = l)" using 3(2) stale_iff by metis
      then have "slot_buf ?d (s', l', side) = Some p" using x unfolding slot by (metis (full_types))
      then show ?thesis by blast
    qed
  next
    assume "\<exists>x. slot_buf ?d x = Some p"
    then obtain s' l' side where x: "slot_buf ?d (s', l', side) = Some p" by (metis surj_pair)
    show "p \<in> live_bufs ?d"
    proof (cases "s' = s \<and> l' = l")
      case True
      then have "p = ?n \<or> p = ?n + 1" using x by (auto simp: slot)
      then show ?thesis using live stale by fastforce
    next
      case False
      then have "slot_buf ?d (s', l', side) = slot_buf d (s', l', side)" by (subst slot) auto
      then have o': "slot_buf d (s', l', side) = Some p" using x by simp
      have "p \<notin> stale_bufs d s l"
      proof
        assume "p \<in> stale_bufs d s l"
        then obtain b where "slot_buf d (s, l, b) = Some p" using stale_iff by metis
        then show False using device_okD(1) [OF assms o'] False by blast
      qed
      then show ?thesis using live o' device_okD(2) [OF assms] by blast
    qed
  qed
  have "p < next_buf (d_dev ?d)" if "p \<in> live_bufs ?d" for p
    using that live device_okD(3) [OF assms, of p] stored(3) by auto
  moreover have "dict_ok (layers_of (d_bufs ?d) s')" for s'
    using device_okD(4) [OF assms] by (simp add: stored(2) layers_of_dset)
  ultimately show ?thesis unfolding device_ok_def using inj ref by blast
next
  case failed
  let ?d = "snd (device_put (frees drv) c s l k v d)"
  have slot: "slot_buf ?d = slot_buf d" by (intro ext) (auto simp: slot_buf_def failed(2))
  have "dget (live (d_dev ?d)) = dget (live (d_dev d))" by (rule put_failed_live [OF assms failed(4,5)])
  then have live: "live_bufs ?d = live_bufs d" by (simp add: live_bufs_def)
  show ?thesis
    using assms failed(2,3) unfolding device_ok_def slot live by force
qed

lemma device_put_view:
  assumes "device_ok d"
  shows "device_view (snd (device_put (frees drv) c s l k v d)) =
    (if fst (device_put (frees drv) c s l k v d) = Inr ()
     then (device_view d)(s := (device_view d s)(l \<mapsto> (map c (a_data k), map c (a_data v)))) else device_view d)"
proof (cases rule: device_put_cases [of drv c s l k v d])
  case stored
  let ?d = "snd (device_put (frees drv) c s l k v d)" and ?n = "next_buf (d_dev d)"
  have old: "slot_buf d x = Some p \<Longrightarrow> p < ?n" for x p
    using device_okD(2,3) [OF assms] by blast
  have stale: "p \<in> stale_bufs d s l \<Longrightarrow> p < ?n" for p using old stale_iff by metis
  have "device_view ?d s' l' = ((device_view d)(s := (device_view d s)(l \<mapsto> (map c (a_data k), map c (a_data v))))) s' l'" for s' l'
  proof (cases "s' = s \<and> l' = l")
    case True
    then show ?thesis
      using stale [of ?n] stale [of "?n + 1"] by (auto simp: device_view_def stored(2,4) layers_of_dset dget_dset)
  next
    case False
    have same: "dget (layers_of (d_bufs ?d) s') l' = dget (layers_of (d_bufs d) s') l'"
      using False by (auto simp: stored(2) layers_of_dset dget_dset)
    have keep: "dget (live (d_dev ?d)) p = dget (live (d_dev d)) p" if "slot_buf d (s', l', side) = Some p" for p side
    proof -
      have "p \<notin> stale_bufs d s l"
        using that False device_okD(1) [OF assms that] stale_iff [of p d s l] by blast
      then show ?thesis using old [OF that] by (simp add: stored(4))
    qed
    show ?thesis
    proof (cases "dget (layers_of (d_bufs d) s') l'")
      case (Some x)
      obtain kb vb where x: "x = (kb, vb)" by fastforce
      have "slot_buf d (s', l', False) = Some kb" "slot_buf d (s', l', True) = Some vb"
        using Some x by (simp_all add: slot_buf_def)
      then show ?thesis using keep False same Some x by (auto simp: device_view_def)
    qed (use False same in \<open>auto simp: device_view_def\<close>)
  qed
  then show ?thesis using stored(1) by (auto intro!: ext)
next
  case failed
  let ?d = "snd (device_put (frees drv) c s l k v d)"
  have same: "dget (live (d_dev ?d)) = dget (live (d_dev d))" by (rule put_failed_live [OF assms failed(4,5)])
  show ?thesis using failed(1) unfolding device_view_def failed(2) same by (auto intro!: ext)
qed

lemma drop_buf_live: "dget (live (drop_buf p dev)) q = (if q = p then None else dget (live dev) q)"
  by (simp add: drop_buf_def dget_ddel)

lemma fold_free_live:
  "dget (live (foldl (\<lambda>dev (kb, vb). drop_buf vb (drop_buf kb dev)) dev ps)) p =
     (if \<exists>(kb, vb) \<in> set ps. p = kb \<or> p = vb then None else dget (live dev) p)"
proof (induction ps arbitrary: dev)
  case (Cons x ps)
  obtain kb vb where x: "x = (kb, vb)" by fastforce
  show ?case by (simp add: x Cons.IH drop_buf_live)
qed simp

lemma fold_free_next:
  "next_buf (foldl (\<lambda>dev (kb, vb). drop_buf vb (drop_buf kb dev)) dev ps) = next_buf dev"
  by (induction ps arbitrary: dev) (auto simp: drop_buf_def)

lemma device_free_live:
  assumes "device_ok d"
  shows "dget (live (d_dev (snd (device_free (frees drv) s d)))) p =
    (if \<exists>l side. slot_buf d (s, l, side) = Some p then None else dget (live (d_dev d)) p)"
proof -
  have dict: "dict_ok (layers_of (d_bufs d) s)" by (rule device_okD(4) [OF assms])
  have "(\<exists>(kb, vb) \<in> set (map snd (layers_of (d_bufs d) s)). p = kb \<or> p = vb) \<longleftrightarrow>
      (\<exists>l kb vb. dget (layers_of (d_bufs d) s) l = Some (kb, vb) \<and> (p = kb \<or> p = vb))"
    using dict by (force simp: dict_ok_def)
  also have "\<dots> \<longleftrightarrow> (\<exists>l side. slot_buf d (s, l, side) = Some p)"
    by (auto simp: slot_buf_entry ex_bool_eq)
  finally show ?thesis by (simp add: device_free_frees fold_free_live)
qed

lemma slot_buf_free: "slot_buf (snd (device_free (frees drv) s d)) (s', l, side) = (if s' = s then None else slot_buf d (s', l, side))"
  by (simp add: slot_buf_def device_free_frees layers_of_ddel)

lemma device_free_ok:
  assumes "device_ok d"
  shows "device_ok (snd (device_free (frees drv) s d))"
proof -
  let ?d = "snd (device_free (frees drv) s d)"
  have inj: "x = y" if "slot_buf ?d x = Some p" "slot_buf ?d y = Some p" for x y p
  proof -
    have "slot_buf d x = Some p" "slot_buf d y = Some p"
      using that by (cases x; cases y; simp add: slot_buf_free split: if_splits)+
    then show ?thesis by (rule device_okD(1) [OF assms])
  qed
  have live: "p \<in> live_bufs ?d \<longleftrightarrow> p \<in> live_bufs d \<and> \<not> (\<exists>l side. slot_buf d (s, l, side) = Some p)" for p
    by (auto simp: live_bufs_def dom_def device_free_live [OF assms])
  have "p \<in> live_bufs ?d \<longleftrightarrow> (\<exists>x. slot_buf ?d x = Some p)" for p
  proof
    assume "p \<in> live_bufs ?d"
    then obtain s' l' side where x: "slot_buf d (s', l', side) = Some p" "s' \<noteq> s"
      using live device_okD(2) [OF assms] by (metis surj_pair)
    then have "slot_buf ?d (s', l', side) = Some p" by (simp add: slot_buf_free)
    then show "\<exists>x. slot_buf ?d x = Some p" by blast
  next
    assume "\<exists>x. slot_buf ?d x = Some p"
    then obtain s' l' side where "slot_buf ?d (s', l', side) = Some p" by (metis surj_pair)
    then have x: "slot_buf d (s', l', side) = Some p" "s' \<noteq> s" by (auto simp: slot_buf_free split: if_splits)
    then have "\<not> (\<exists>l b. slot_buf d (s, l, b) = Some p)" using device_okD(1) [OF assms x(1)] by blast
    then show "p \<in> live_bufs ?d" using live x(1) device_okD(2) [OF assms] by blast
  qed
  moreover have "p < next_buf (d_dev ?d)" if "p \<in> live_bufs ?d" for p
    using that live device_okD(3) [OF assms] by (simp add: device_free_frees fold_free_next)
  moreover have "dict_ok (layers_of (d_bufs ?d) s')" for s'
    using device_okD(4) [OF assms] by (simp add: device_free_frees layers_of_ddel)
  ultimately show ?thesis unfolding device_ok_def using inj by blast
qed

lemma device_free_view:
  assumes "device_ok d"
  shows "device_view (snd (device_free (frees drv) s d)) = (device_view d)(s := (\<lambda>_. None))"
proof -
  have "device_view (snd (device_free (frees drv) s d)) s' l = ((device_view d)(s := (\<lambda>_. None))) s' l" for s' l
  proof (cases "s' = s")
    case False
    have same: "dget (layers_of (d_bufs (snd (device_free (frees drv) s d))) s') l = dget (layers_of (d_bufs d) s') l"
      using False by (simp add: device_free_frees layers_of_ddel)
    have keep: "dget (live (d_dev (snd (device_free (frees drv) s d)))) p = dget (live (d_dev d)) p"
      if "slot_buf d (s', l, side) = Some p" for p side
      using that False device_okD(1) [OF assms that] by (auto simp: device_free_live [OF assms])
    show ?thesis
    proof (cases "dget (layers_of (d_bufs d) s') l")
      case (Some x)
      obtain kb vb where x: "x = (kb, vb)" by fastforce
      have "slot_buf d (s', l, False) = Some kb" "slot_buf d (s', l, True) = Some vb"
        using Some x by (simp_all add: slot_buf_def)
      then show ?thesis using keep False same Some x by (auto simp: device_view_def)
    qed (use False same in \<open>auto simp: device_view_def\<close>)
  qed (simp add: device_view_def device_free_frees layers_of_ddel)
  then show ?thesis by (intro ext)
qed

definition read_fails :: "driver \<Rightarrow> int \<Rightarrow> int \<Rightarrow> 'x device_kv \<Rightarrow> bool" where
  "read_fails drv s l d \<longleftrightarrow> (\<exists>side p. slot_buf d (s, l, side) = Some p \<and> \<not> read_ok drv p)"

lemma device_gather_view:
  assumes "device_ok d"
  shows "elements (device_gather drv s l d) =
    (if read_fails drv s l d then Inl RuntimeError else looked_up (device_view d s l))"
proof (cases "dget (layers_of (d_bufs d) s) l")
  case None
  then show ?thesis
    by (auto simp: device_gather_def device_view_def elements_def looked_up_def layers_of_def read_fails_def
        slot_buf_def split: option.split)
next
  case (Some x)
  obtain kb vb where x: "x = (kb, vb)" by fastforce
  then have e: "dget (layers_of (d_bufs d) s) l = Some (kb, vb)" using Some by simp
  then obtain ly where ly: "dget (d_bufs d) s = Some ly" "dget ly l = Some (kb, vb)"
    by (auto simp: layers_of_def split: option.splits)
  have fails: "read_fails drv s l d \<longleftrightarrow> \<not> (read_ok drv kb \<and> read_ok drv vb)"
    by (auto simp: read_fails_def slot_buf_entry e ex_bool_eq)
  obtain kd vd where "dget (live (d_dev d)) kb = Some kd" "dget (live (d_dev d)) vb = Some vd"
    using slot_buf_live(1,2) [OF assms e] by (auto simp: live_bufs_def)
  then show ?thesis
    unfolding fails using e ly
    by (simp add: device_gather_def device_view_def elements_def looked_up_def copy_host_def)
qed

interpretation device: kv_store device_ok device_view c "device_put (frees drv) c" "device_free (frees drv)"
    "device_gather drv'" "read_fails drv'" for drv drv' c
  by unfold_locales
    (rule device_put_ok device_put_view device_free_ok device_free_view device_gather_view, assumption)+

section \<open>Both stores\<close>

abbreviation host_run :: "('y \<Rightarrow> 'x) \<Rightarrow> 'y kv_op list \<Rightarrow> 'x host_kv \<Rightarrow> bool list \<times> 'x host_kv" where
  "host_run c \<equiv> kv_run (host_putter c) host_clearer"

abbreviation device_run :: "driver \<Rightarrow> ('y \<Rightarrow> 'x) \<Rightarrow> 'y kv_op list \<Rightarrow> 'x device_kv \<Rightarrow> bool list \<times> 'x device_kv" where
  "device_run drv c \<equiv> kv_run (device_put drv c) (device_free drv)"

lemma kv_run_length: "length (fst (kv_run put clear ops b)) = length ops"
  by (induction ops arbitrary: b) (simp_all add: kv_run_simps del: kv_run.simps(2))

lemma host_step_done: "fst (kv_step (host_putter c) host_clearer x h) = Inr ()"
  by (cases x) simp_all

lemma host_run_done: "fst (host_run c ops h) = replicate (length ops) True"
  by (induction ops arbitrary: h) (simp_all add: kv_run_simps host_step_done del: kv_run.simps(2))

lemma all_done: "list_all id outs \<Longrightarrow> outs = replicate (length outs) True"
  by (induction outs) auto

lemma fresh_device:
  assumes "new_device n free \<lparr> next_buf = k, live = [] \<rparr> plan = Inr d"
  shows "device_ok d" "device_view d = (\<lambda>_ _. None)"
proof -
  have d: "d = \<lparr> d_base = new_base plan, d_bufs = [], d_dev = \<lparr> next_buf = k, live = [] \<rparr> \<rparr>"
    using assms by (simp add: new_device_def split: if_splits)
  have slot: "slot_buf d x = None" for x by (cases x) (simp add: d slot_buf_def layers_of_def)
  show "device_ok d" by (simp add: device_ok_def slot live_bufs_def) (simp add: d layers_of_def)
  show "device_view d = (\<lambda>_ _. None)" by (intro ext) (simp add: d device_view_def layers_of_def)
qed

lemma fresh_host: "host_view (new_host plan) = (\<lambda>_ _. None)"
  by (intro ext) (simp add: host_view_def new_host_def layers_of_def)

lemma all_frees: "\<forall>p. free_ok drv p \<Longrightarrow> frees drv = drv"
  by (cases drv) (auto simp: fun_eq_iff)

text \<open>
  C29: both stores implement the map from sequence and layer to keys and values in float32, whatever is
  stored again, freed, or refused by the device.  The host store refuses nothing.  The device, as long
  as it frees what it is asked to free, keeps exactly the buffers its table refers to, each in one slot,
  so nothing leaks and nothing is freed twice; a put that fails for want of memory or in the copy
  changes nothing of the map, and a gather returns the stored elements unless copying one of its two
  buffers back fails.  Without such refusals both stores return the same elements.
\<close>

theorem kv_stores_refine_map:
  fixes ops :: "'y kv_op list" and c :: "'y \<Rightarrow> 'x"
  assumes "new_device n free \<lparr> next_buf = k, live = [] \<rparr> plan = Inr d0" "device_run drv c ops d0 = (outs, d)"
    "\<forall>p. free_ok drv p"
  shows "elements (host_gather s l (snd (host_run c ops (new_host plan')))) =
      looked_up (spec_run c ops (replicate (length ops) True) (\<lambda>_ _. None) s l) \<and>
    elements (device_gather drv' s l d) =
      (if read_fails drv' s l d then Inl RuntimeError else looked_up (spec_run c ops outs (\<lambda>_ _. None) s l)) \<and>
    (\<forall>p. p \<in> live_bufs d \<longleftrightarrow> (\<exists>!x. slot_buf d x = Some p)) \<and>
    (list_all id outs \<and> \<not> read_fails drv' s l d \<longrightarrow>
      elements (host_gather s l (snd (host_run c ops (new_host plan')))) = elements (device_gather drv' s l d))"
proof -
  note fresh = fresh_device [OF assms(1)]
  have run: "device_run (frees drv) c ops d0 = (outs, d)" using assms(2) by (simp only: all_frees [OF assms(3)])
  have host: "elements (host_gather s l (snd (host_run c ops (new_host plan')))) =
      looked_up (spec_run c ops (replicate (length ops) True) (\<lambda>_ _. None) s l)"
    using host.run_fetch [of s l c ops "new_host plan'"] by (simp add: host_run_done fresh_host)
  have dev: "elements (device_gather drv' s l d) =
      (if read_fails drv' s l d then Inl RuntimeError else looked_up (spec_run c ops outs (\<lambda>_ _. None) s l))"
    using device.run_fetch [OF fresh(1), of drv' s l drv c ops] run fresh(2) by simp
  have ok: "device_ok d" using device.run_ok [OF fresh(1), of drv c ops] run by simp
  have "p \<in> live_bufs d \<longleftrightarrow> (\<exists>!x. slot_buf d x = Some p)" for p
    using device_okD(1,2) [OF ok] by blast
  moreover have "outs = replicate (length ops) True" if "list_all id outs"
    using all_done [OF that] kv_run_length [of "device_put drv c" "device_free drv" ops d0] assms(2) by simp
  ultimately show ?thesis using host dev by auto
qed

definition row :: "nat list \<Rightarrow> nat array" where
  "row xs = \<lparr> a_shape = [1, length xs], a_data = xs \<rparr>"

definition kv_script :: "nat kv_op list" where
  "kv_script = [Put 1 0 (row [1, 2]) (row [3, 4]), Put 1 0 (row [7, 8]) (row [9, 9]),
     Put 1 1 (row [5]) (row []), Clear 2]"

definition kv_device :: "int device_kv" where
  "kv_device = \<lparr> d_base = new_base small_plan, d_bufs = [], d_dev = \<lparr> next_buf = 0, live = [] \<rparr> \<rparr>"

definition working :: driver where
  "working = \<lparr> alloc_ok = \<lambda>_. True, upload_ok = \<lambda>_. True, read_ok = \<lambda>_. True, free_ok = \<lambda>_. True \<rparr>"

theorem kv_stores_refine_map_witness:
  "fst (device_run working int kv_script kv_device) = [True, True, False, True] \<and>
   elements (device_gather working 1 0 (snd (device_run working int kv_script kv_device))) = Inr ([7, 8], [9, 9]) \<and>
   (\<exists>!x. slot_buf (snd (device_run working int kv_script kv_device)) x = Some 2)"
proof -
  let ?r = "device_run working int kv_script kv_device"
  have outs: "fst ?r = [True, True, False, True]" by code_simp
  have new: "new_device 1 2000 \<lparr> next_buf = 0, live = [] \<rparr> small_plan = Inr kv_device"
    by (simp add: new_device_def kv_device_def small_plan_def)
  have run: "device_run working int kv_script kv_device = (fst ?r, snd ?r)" by simp
  have frees: "\<forall>p. free_ok working p" by (simp add: working_def)
  note ref = kv_stores_refine_map [OF new run frees, of 1 0 _ working]
  have "\<not> read_fails working 1 0 (snd ?r)" by (simp add: read_fails_def working_def)
  then have "elements (device_gather working 1 0 (snd ?r)) = looked_up (spec_run int kv_script (fst ?r) (\<lambda>_ _. None) 1 0)"
    using ref by simp
  also have "\<dots> = Inr ([7, 8], [9, 9])" unfolding outs by code_simp
  finally have "elements (device_gather working 1 0 (snd ?r)) = Inr ([7, 8], [9, 9])" .
  moreover have "map fst (live (d_dev (snd ?r))) = [2, 3]" by code_simp
  then have "2 \<in> live_bufs (snd ?r)" by (simp add: live_bufs_def dom_map_of_conv_image_fst flip: set_map)
  then have "\<exists>!x. slot_buf (snd ?r) x = Some 2" using ref by blast
  ultimately show ?thesis using outs by blast
qed

text \<open>
  What the host store keeps and the device store loses is the shape: an array comes back from the
  device flat.
\<close>

lemma device_gather_is_flat:
  "device_gather working 1 0 (snd (device_put working int 1 0 (row [1, 2]) (row [3, 4]) kv_device)) =
     Inr (\<lparr> a_shape = [2], a_data = [1, 2] \<rparr>, \<lparr> a_shape = [2], a_data = [3, 4] \<rparr>) \<and>
   host_gather 1 0 (host_put int 1 0 (row [1, 2]) (row [3, 4]) (new_host small_plan)) =
     Inr (as_f32 int (row [1, 2]), as_f32 int (row [3, 4])) \<and>
   a_shape (as_f32 int (row [1, 2])) = [1, 2]"
  by (intro conjI; code_simp)

text \<open>
  A buffer the driver does not free takes the reservation with it: the entry of the sequence is gone,
  so freeing it again finds nothing, but \<open>release\<close> was not reached.
\<close>

definition stuck :: driver where
  "stuck = working\<lparr> free_ok := \<lambda>_. False \<rparr>"

lemma failed_free_keeps_reservation:
  "let d0 = kv_device\<lparr> d_base := snd (reserve 1 7 (d_base kv_device)) \<rparr>;
       d = snd (device_put working int 1 0 (row [1]) (row [2]) d0); (out, d') = device_free stuck 1 d
   in out = Inl RuntimeError \<and> d_bufs d' = [] \<and> reserved (d_base d') = [(1, 7)] \<and> map fst (live (d_dev d')) = [0, 1]"
  by code_simp

text \<open>
  The stores are not tied to the reservations: what a sequence without a block stores is kept.
\<close>

lemma store_without_reservation:
  "reserved (h_base (host_put c 1 0 k v (new_host plan))) = [] \<and>
   host_gather 1 0 (host_put c 1 0 k v (new_host plan)) = Inr (as_f32 c k, as_f32 c v)"
  by (simp add: host_put_def new_host_def new_base_def host_gather_def layers_of_def)

section \<open>The choice of the backend\<close>

text \<open>
  A device backend is built only for a device plan whose budget the device is known to hold, or
  whose free memory is unknown; every other plan gets the host store.
\<close>

lemma backend_choice:
  "build_kv_backend n free dev plan =
     (if placement plan \<noteq> lit ''host'' \<and> 1 \<le> n \<and> (free < 0 \<or> budget_bytes plan \<le> free)
      then DeviceKV \<lparr> d_base = new_base plan, d_bufs = [], d_dev = dev \<rparr> else HostKV (new_host plan))"
  by (auto simp: build_kv_backend_def new_device_def)

end
