(* ===== verification/Recipe.thy ===== *)
theory Recipe
  imports PyText Complex_Main
begin

text \<open>
  The recipe schema (\<open>recipes/schema.py\<close>).  A recipe document is a dict value of \<open>PyText\<close>, the way
  \<open>yaml.safe_load\<close> gives it; each section has a record whose fields are values where the code
  stores them unchecked.  \<open>py_lib\<close> holds what the code takes from the runtime: the number a
  float denotes (\<open>None\<close> for infinities and NaN), \<open>int\<close> and \<open>str\<close> of a value, the letters outside
  ASCII that \<open>\w\<close> accepts.

  The theorems say what an accepted document guarantees to the engine: a layer schedule of the
  right length over known types, whose linear and full attention indices are disjoint and ordered,
  known architecture and dtype, and sizes of the tensor-parallel world that agree.
\<close>

section \<open>The runtime\<close>

record py_lib =
  float_value :: "pystr \<Rightarrow> rat option"
  py_int_of :: "pv \<Rightarrow> py_error + int"
  py_str_of :: "pv \<Rightarrow> pystr"
  word_char :: "int \<Rightarrow> bool"

definition is_pint :: "pv \<Rightarrow> bool" where
  "is_pint v \<longleftrightarrow> (case v of PInt _ \<Rightarrow> True | PBool _ \<Rightarrow> True | _ \<Rightarrow> False)"

definition is_pdict :: "pv \<Rightarrow> bool" where
  "is_pdict v \<longleftrightarrow> (case v of PDict _ \<Rightarrow> True | _ \<Rightarrow> False)"

text \<open>A \<open>bool\<close> is an \<open>int\<close>.\<close>

definition int_value :: "pv \<Rightarrow> int" where
  "int_value v = (case v of PInt i \<Rightarrow> i | PBool b \<Rightarrow> (if b then 1 else 0) | _ \<Rightarrow> 0)"

text \<open>\<open>n == v\<close> for an integer\<close>

definition eq_int :: "py_lib \<Rightarrow> int \<Rightarrow> pv \<Rightarrow> bool" where
  "eq_int L n v \<longleftrightarrow>
     (case v of PFloat r \<Rightarrow> float_value L r = Some (of_int n) | _ \<Rightarrow> is_pint v \<and> int_value v = n)"

text \<open>\<open>k in d\<close>\<close>

fun has_key :: "pv \<Rightarrow> pystr \<Rightarrow> py_error + bool" where
  "has_key (PDict d) k = Inr (dget d k \<noteq> None)"
| "has_key (PStr s) k = Inr (str_in k s)"
| "has_key (PList xs) k = Inr (PStr k \<in> set xs)"
| "has_key _ k = Inl TypeError"

text \<open>Iteration: \<open>list(v)\<close>, \<open>tuple(v)\<close>.\<close>

fun listed :: "pv \<Rightarrow> py_error + pv list" where
  "listed (PList xs) = Inr xs"
| "listed (PStr s) = Inr (map (\<lambda>c. PStr [c]) s)"
| "listed (PDict d) = Inr (map (\<lambda>p. PStr (fst p)) d)"
| "listed (PBytes bs) = Inr (map PInt bs)"
| "listed _ = Inl TypeError"

section \<open>Required keys\<close>

definition require :: "pv \<Rightarrow> pystr \<Rightarrow> string \<Rightarrow> py_error + pv" where
  "require d key typename =
     rbind (has_key d key) (\<lambda>present.
       if \<not> present then Inl RecipeError
       else rbind (pindex d key) (\<lambda>v.
         if typename = ''int'' \<and> \<not> is_pint v then Inl RecipeError
         else if typename = ''str'' \<and> (case v of PStr _ \<Rightarrow> False | _ \<Rightarrow> True) then Inl RecipeError
         else if typename = ''bool'' \<and> (case v of PBool _ \<Rightarrow> False | _ \<Rightarrow> True) then Inl RecipeError
         else Inr v))"

text \<open>\<open>_require(d, k, t) if k in d else default\<close>\<close>

definition optional :: "pv \<Rightarrow> string \<Rightarrow> pystr \<Rightarrow> pv \<Rightarrow> py_error + pv" where
  "optional d typename key dflt =
     rbind (has_key d key) (\<lambda>present. if present then require d key typename else Inr dflt)"

definition optionals :: "pv \<Rightarrow> string \<Rightarrow> (string \<times> pv) list \<Rightarrow> py_error + (pystr, pv) dict" where
  "optionals d typename flds =
     rmap (\<lambda>(k, dflt). rbind (optional d typename (lit k) dflt) (\<lambda>v. Inr (lit k, v))) flds"

definition gets :: "pv \<Rightarrow> (string \<times> pv) list \<Rightarrow> py_error + (pystr, pv) dict" where
  "gets d flds = rmap (\<lambda>(k, dflt). rbind (pget d (lit k) dflt) (\<lambda>v. Inr (lit k, v))) flds"

abbreviation PText :: "string \<Rightarrow> pv" where
  "PText s \<equiv> PStr (lit s)"

section \<open>The sections of a recipe\<close>

text \<open>
  A section whose fields are only copied is kept as the dict of its attributes, in the order of
  the assignments.
\<close>

type_synonym attrs = "(pystr, pv) dict"

record quant_spec =
  q_text :: attrs
  weight_block_size :: "pv \<times> pv"
  scale_tensor_suffix :: pv
  modules_not_quantize :: "pv list"

definition quant_from_dict :: "pv \<Rightarrow> py_error + quant_spec" where
  "quant_from_dict d =
     (if \<not> is_pdict d then Inl RecipeError
      else rbind (gets d [(''method'', PText ''fp8''), (''fmt'', PText ''e4m3''), (''activation'', PText ''dynamic'')]) (\<lambda>t.
           rbind (pget d (lit ''weight_block_size'') (PList [PInt 128, PInt 128])) (\<lambda>wbs.
             case wbs of
               PList [a, b] \<Rightarrow>
                 if is_pint a \<and> is_pint b
                 then rbind (pget d (lit ''scale_tensor_suffix'') (PText ''weight_scale_inv'')) (\<lambda>suf.
                      rbind (rbind (pget d (lit ''modules_not_quantize'') (PList [])) listed) (\<lambda>mods.
                        Inr \<lparr>q_text = t, weight_block_size = (a, b), scale_tensor_suffix = suf,
                             modules_not_quantize = mods\<rparr>))
                 else Inl RecipeError
             | _ \<Rightarrow> Inl RecipeError)))"

record rope_spec =
  rope_type :: pv
  theta :: pv
  mrope_section :: "pv list"
  mrope_interleaved :: pv
  partial_rotary_factor :: pv

definition rope_default :: rope_spec where
  "rope_default = \<lparr>rope_type = PText ''mrope'', theta = PFloat (lit ''10000000.0''),
     mrope_section = [PInt 11, PInt 11, PInt 10], mrope_interleaved = PBool True,
     partial_rotary_factor = PFloat (lit ''0.25'')\<rparr>"

definition rope_from_dict :: "pv \<Rightarrow> py_error + rope_spec" where
  "rope_from_dict d =
     (let s = rope_default
      in rbind (pget d (lit ''type'') (rope_type s)) (\<lambda>ty.
         rbind (pget d (lit ''theta'') (theta s)) (\<lambda>th.
         rbind (rbind (pget d (lit ''mrope_section'') (PList (mrope_section s))) listed) (\<lambda>sec.
         rbind (pget d (lit ''mrope_interleaved'') (mrope_interleaved s)) (\<lambda>il.
         rbind (pget d (lit ''partial_rotary_factor'') (partial_rotary_factor s)) (\<lambda>prf.
           Inr \<lparr>rope_type = ty, theta = th, mrope_section = sec, mrope_interleaved = il,
                partial_rotary_factor = prf\<rparr>))))))"

definition linear_from_dict :: "pv \<Rightarrow> py_error + attrs" where
  "linear_from_dict d =
     rbind (gets d [(''kernel'', PText ''gated_delta_rule''), (''state_dtype'', PText ''float32''),
                    (''q_scaling'', PText ''head_k_dim^-0.5'')]) (\<lambda>t.
     rbind (optionals d ''int'' [(''num_key_heads'', PInt 16), (''key_head_dim'', PInt 128),
              (''num_value_heads'', PInt 48), (''value_head_dim'', PInt 128), (''conv_kernel_size'', PInt 4)]) (\<lambda>n.
     rbind (gets d [(''qk_l2norm'', PBool True)]) (\<lambda>b. Inr (t @ n @ b))))"

record full_spec =
  fa_kernel :: pv
  num_heads :: pv
  num_kv_heads :: pv
  head_dim :: "pv option"
  rope :: rope_spec
  output_gate :: pv

definition full_from_dict :: "pv \<Rightarrow> py_error + full_spec" where
  "full_from_dict d =
     rbind (pget d (lit ''kernel'') (PText ''paged_flash'')) (\<lambda>ker.
     rbind (optional d ''int'' (lit ''num_heads'') (PInt 24)) (\<lambda>nh.
     rbind (optional d ''int'' (lit ''num_kv_heads'') (PInt 4)) (\<lambda>nkv.
     rbind (has_key d (lit ''head_dim'')) (\<lambda>p.
     rbind (if p then rbind (require d (lit ''head_dim'') ''int'') (\<lambda>v. Inr (Some v)) else Inr None) (\<lambda>hd'.
     rbind (pget d (lit ''output_gate'') (PBool True)) (\<lambda>gate.
     rbind (has_key d (lit ''rope'')) (\<lambda>pr.
     rbind (if pr then rbind (pindex d (lit ''rope'')) rope_from_dict else Inr rope_default) (\<lambda>rp.
       Inr \<lparr>fa_kernel = ker, num_heads = nh, num_kv_heads = nkv, head_dim = hd', rope = rp,
            output_gate = gate\<rparr>))))))))"

definition effective_head_dim :: "full_spec \<Rightarrow> int \<Rightarrow> py_error + int" where
  "effective_head_dim s hidden_size =
     (case head_dim s of
        Some v \<Rightarrow> Inr (int_value v)
      | None \<Rightarrow> if int_value (num_heads s) = 0 then Inl ZeroDivisionError
               else Inr (hidden_size div int_value (num_heads s)))"

definition mlp_from_dict :: "pv \<Rightarrow> py_error + attrs" where
  "mlp_from_dict d =
     rbind (pget d (lit ''type'') (PText ''dense'')) (\<lambda>ty.
       if ty \<noteq> PText ''dense'' \<and> ty \<noteq> PText ''moe'' then Inl RecipeError
       else rbind (optionals d ''int'' [(''intermediate_size'', PInt 17408)]) (\<lambda>i.
            rbind (gets d [(''hidden_act'', PText ''silu'')]) (\<lambda>a.
            rbind (optionals d ''int'' [(''num_experts'', PInt 0), (''num_experts_per_tok'', PInt 0),
                     (''shared_experts'', PInt 0), (''shared_expert_intermediate_size'', PInt 0)]) (\<lambda>e.
              Inr ((lit ''type'', ty) # i @ a @ e)))))"

definition mtp_from_dict :: "pv \<Rightarrow> py_error + attrs" where
  "mtp_from_dict d =
     gets d [(''enabled'', PBool True), (''layers'', PInt 1), (''attention_type'', PText ''full''),
             (''has_fc'', PBool True)]"

text \<open>The \<open>float\<close> the code asks of the last two keys is a type \<open>_require\<close> does not check.\<close>

definition vision_defaults :: "(string \<times> pv) list" where
  "vision_defaults =
     [(''depth'', PInt 27), (''hidden_size'', PInt 1152), (''num_heads'', PInt 16), (''patch_size'', PInt 16),
      (''temporal_patch_size'', PInt 2), (''spatial_merge_size'', PInt 2), (''intermediate_size'', PInt 4304),
      (''num_position_embeddings'', PInt 2304), (''out_hidden_size'', PInt 5120),
      (''dim'', PNone), (''n_layers'', PNone), (''heads'', PNone), (''inter_dim'', PNone),
      (''ds_patch_size'', PNone), (''downsample_ratio'', PNone), (''max_n_token'', PNone), (''min_pixels'', PNone)]"

definition vision_floats :: "(string \<times> pv) list" where
  "vision_floats = [(''max_wh_ratio'', PNone), (''rope_theta'', PNone)]"

definition vision_from_dict :: "pv \<Rightarrow> py_error + attrs" where
  "vision_from_dict d =
     (if \<not> is_pdict d
      then Inr ((lit ''enabled'', PBool False) # map (\<lambda>(k, v). (lit k, v)) (vision_defaults @ vision_floats))
      else rbind (gets d [(''enabled'', PBool False)]) (\<lambda>e.
           rbind (optionals d ''int'' vision_defaults) (\<lambda>n.
           rbind (optionals d ''float'' vision_floats) (\<lambda>f. Inr (e @ n @ f)))))"

record memory_spec =
  placement :: pystr
  host_bytes :: "pv option"
  device_bytes :: "pv option"
  utilization :: rat

definition memory_default :: memory_spec where
  "memory_default = \<lparr>placement = lit ''device'', host_bytes = None, device_bytes = None, utilization = 9 / 10\<rparr>"

definition number_of :: "py_lib \<Rightarrow> pv \<Rightarrow> rat option" where
  "number_of L v =
     (case v of PFloat r \<Rightarrow> float_value L r | _ \<Rightarrow> if is_pint v then Some (of_int (int_value v)) else None)"

definition given_int :: "pv \<Rightarrow> string \<Rightarrow> py_error + pv option" where
  "given_int d k =
     rbind (has_key d (lit k)) (\<lambda>p.
       if p then rbind (require d (lit k) ''int'') (\<lambda>v. Inr (Some v)) else Inr None)"

definition utilization_from_dict :: "py_lib \<Rightarrow> pv \<Rightarrow> py_error + rat" where
  "utilization_from_dict L d =
     rbind (has_key d (lit ''kv_utilization'')) (\<lambda>p.
       if \<not> p then Inr (utilization memory_default)
       else rbind (pindex d (lit ''kv_utilization'')) (\<lambda>u.
         case number_of L u of
           None \<Rightarrow> Inl RecipeError
         | Some x \<Rightarrow> if 0 < x \<and> x \<le> 1 then Inr x else Inl RecipeError))"

definition memory_from_dict :: "py_lib \<Rightarrow> pv \<Rightarrow> py_error + memory_spec" where
  "memory_from_dict L d =
     (if \<not> is_pdict d then Inr memory_default
      else rbind (pget d (lit ''kv_placement'') (PStr (placement memory_default))) (\<lambda>p.
        if p \<noteq> PText ''device'' \<and> p \<noteq> PText ''host'' then Inl RecipeError
        else rbind (given_int d ''kv_host_bytes'') (\<lambda>hb.
             rbind (given_int d ''kv_device_bytes'') (\<lambda>db.
             rbind (utilization_from_dict L d) (\<lambda>u.
               Inr \<lparr>placement = (case p of PStr s \<Rightarrow> s | _ \<Rightarrow> []), host_bytes = hb, device_bytes = db,
                    utilization = u\<rparr>)))))"

record tp_spec =
  tp_size :: pv
  shard_axes :: pv

definition tp_axes_default :: pv where
  "tp_axes_default = PDict [(lit ''column_parallel'', PList [PText ''qkv'', PText ''gate_up'', PText ''o_defer'']),
     (lit ''row_parallel'', PList [PText ''o_proj'', PText ''down_proj''])]"

definition tp_from_dict :: "pv \<Rightarrow> py_error + tp_spec" where
  "tp_from_dict d =
     rbind (optional d ''int'' (lit ''size'') (PInt 1)) (\<lambda>n.
     rbind (has_key d (lit ''shard_axes'')) (\<lambda>p.
     rbind (if p then pindex d (lit ''shard_axes'') else Inr tp_axes_default) (\<lambda>ax.
       Inr \<lparr>tp_size = n, shard_axes = ax\<rparr>)))"

section \<open>The recipe\<close>

definition KNOWN_LAYER_TYPES :: "pystr list" where
  "KNOWN_LAYER_TYPES = map lit [''linear_attention'', ''full_attention'', ''qsa_attention'', ''mla_attention'']"

definition KNOWN_ARCHS :: "pystr list" where
  "KNOWN_ARCHS = map lit [''standard'', ''qwen2'', ''qwen3_5'', ''qwen4_exp'', ''deepseek_v4'']"

definition KNOWN_DTYPES :: "pystr list" where
  "KNOWN_DTYPES = map lit [''bfloat16'', ''fp8'', ''float32'', ''float16'']"

definition DEEPSEEK_COMPRESS_RATIOS :: "int list" where
  "DEEPSEEK_COMPRESS_RATIOS = [0, 4, 128]"

text \<open>\<open>^[\w./+-]+$\<close>, whose \<open>$\<close> also matches before a newline at the end.\<close>

definition id_char :: "py_lib \<Rightarrow> int \<Rightarrow> bool" where
  "id_char L c \<longleftrightarrow>
     48 \<le> c \<and> c \<le> 57 \<or> 65 \<le> c \<and> c \<le> 90 \<or> 97 \<le> c \<and> c \<le> 122 \<or> c \<in> {95, 46, 47, 43, 45}
     \<or> 128 \<le> c \<and> word_char L c"

definition model_id_ok :: "py_lib \<Rightarrow> pystr \<Rightarrow> bool" where
  "model_id_ok L s \<longleftrightarrow>
     (let t = (if s \<noteq> [] \<and> last s = 10 then butlast s else s)
      in t \<noteq> [] \<and> list_all (id_char L) t)"

record recipe =
  model_id :: pystr
  arch :: pystr
  dtype :: pystr
  quant :: quant_spec
  hidden_size :: pv
  num_layers :: pv
  layer_types :: "pystr list"
  linear_attention :: attrs
  full_attention :: full_spec
  mlp :: attrs
  mtp :: attrs
  vision :: attrs
  tp :: tp_spec
  memory :: memory_spec
  text_fields :: attrs
  status :: pv
  meta :: attrs
  paths :: pv
  recipe_version :: pystr
  recipe_name :: pv
  description :: pv
  container :: pv
  defaults :: attrs
  launch_env :: "(pystr, pystr) dict"
  command :: pv

definition KNOWN_TOP :: "pystr list" where
  "KNOWN_TOP = map lit [''model_id'', ''arch'', ''dtype'', ''quant'', ''text'', ''mtp'', ''vision'', ''tp'',
     ''memory'', ''status'', ''paths'', ''recipe_version'', ''name'', ''description'', ''container'', ''defaults'',
     ''env'', ''command'']"

text \<open>\<open>(i + 1) % full_interval\<close> as a truth value\<close>

definition mod_truthy :: "py_lib \<Rightarrow> int \<Rightarrow> pv \<Rightarrow> py_error + bool" where
  "mod_truthy L n v =
     (if is_pint v then (if int_value v = 0 then Inl ZeroDivisionError else Inr (n mod int_value v \<noteq> 0))
      else case v of
        PFloat r \<Rightarrow>
          (case float_value L r of
             None \<Rightarrow> Inr True
           | Some x \<Rightarrow> if x = 0 then Inl ZeroDivisionError
                      else Inr (snd (quotient_of (of_int n / x)) \<noteq> 1))
      | _ \<Rightarrow> Inl TypeError)"

definition range_of :: "pv \<Rightarrow> py_error + int list" where
  "range_of v = (if is_pint v then Inr [0..int_value v - 1] else Inl TypeError)"

definition interval_schedule :: "py_lib \<Rightarrow> pv \<Rightarrow> pv \<Rightarrow> py_error + pv list" where
  "interval_schedule L full_interval n =
     rbind (range_of n) (rmap (\<lambda>i. rbind (mod_truthy L (i + 1) full_interval) (\<lambda>b.
       Inr (if b then PText ''linear_attention'' else PText ''full_attention''))))"

definition check_layer :: "pv \<Rightarrow> py_error + pystr" where
  "check_layer lt =
     (case lt of
        PStr s \<Rightarrow> if s \<in> set KNOWN_LAYER_TYPES then Inr s else Inl RecipeError
      | PList _ \<Rightarrow> Inl TypeError
      | PDict _ \<Rightarrow> Inl TypeError
      | _ \<Rightarrow> Inl RecipeError)"

definition schedule :: "py_lib \<Rightarrow> pv \<Rightarrow> pv \<Rightarrow> py_error + pystr list" where
  "schedule L txt n =
     rbind (rbind (pget txt (lit ''layer_types'') (PList [])) listed) (\<lambda>lts.
     rbind (if lts \<noteq> [] then Inr lts
            else rbind (pget txt (lit ''full_attention_interval'') PNone) (\<lambda>fi.
              if truthy fi then interval_schedule L fi n else Inr [])) (\<lambda>lts.
       if lts \<noteq> [] \<and> \<not> eq_int L (int (length lts)) n then Inl RecipeError
       else rmap check_layer lts))"

definition check_compress_ratios :: "py_lib \<Rightarrow> pv \<Rightarrow> pv \<Rightarrow> py_error + unit" where
  "check_compress_ratios L spec n =
     rbind (pget spec (lit ''compress_ratios'') PNone) (\<lambda>cr.
       if \<not> truthy cr then Inr ()
       else case cr of
         PList xs \<Rightarrow>
           if \<not> list_all is_pint xs then Inl RecipeError
           else if \<not> eq_int L (int (length xs)) n then Inl RecipeError
           else if \<not> list_all (\<lambda>x. int_value x \<in> set DEEPSEEK_COMPRESS_RATIOS) xs then Inl RecipeError
           else Inr ()
       | _ \<Rightarrow> Inl RecipeError)"

definition check_world :: "py_lib \<Rightarrow> attrs \<Rightarrow> tp_spec \<Rightarrow> py_error + unit" where
  "check_world L dflts t =
     rbind (case dget dflts (lit ''tensor_parallel'') of
              None \<Rightarrow> Inr ()
            | Some v \<Rightarrow> rbind (py_int_of L v) (\<lambda>i. if i \<noteq> int_value (tp_size t) then Inl RecipeError else Inr ())) (\<lambda>_.
       case dget dflts (lit ''nodes'') of
         None \<Rightarrow> Inr ()
       | Some v \<Rightarrow> rbind (py_int_of L v) (\<lambda>i. if i < int_value (tp_size t) then Inl RecipeError else Inr ()))"

definition mapping :: "pv \<Rightarrow> py_error + attrs" where
  "mapping v = (case v of PDict d \<Rightarrow> Inr d | _ \<Rightarrow> Inl RecipeError)"

definition check_identity :: "py_lib \<Rightarrow> pv \<Rightarrow> py_error + pystr \<times> pystr \<times> pystr" where
  "check_identity L d =
     rbind (require d (lit ''model_id'') ''str'') (\<lambda>mid.
     rbind (require d (lit ''arch'') ''str'') (\<lambda>ar.
     rbind (pget d (lit ''dtype'') (PText ''bfloat16'')) (\<lambda>dt.
       case (mid, ar, dt) of
         (PStr m, PStr a, PStr t) \<Rightarrow>
           if str_strip m = [] then Inl RecipeError
           else if \<not> model_id_ok L m then Inl RecipeError
           else if a \<notin> set KNOWN_ARCHS then Inl RecipeError
           else if t \<notin> set KNOWN_DTYPES then Inl RecipeError
           else Inr (m, a, t)
       | (PStr m, PStr a, _) \<Rightarrow> Inl RecipeError
       | _ \<Rightarrow> Inl RecipeError)))"

definition text_defaults :: "(string \<times> pv) list" where
  "text_defaults =
     [(''vocab_size'', PInt 248320), (''max_position_embeddings'', PInt 262144),
      (''rms_norm_eps'', PFloat (lit ''1e-06'')), (''full_attention_interval'', PNone),
      (''prefix'', PText ''model.language_model''), (''tie_word_embeddings'', PBool False)]"

definition recipe_from_dict :: "py_lib \<Rightarrow> attrs \<Rightarrow> py_error + recipe" where
  "recipe_from_dict L doc =
     (let d = PDict doc in
      rbind (check_identity L d) (\<lambda>(m, a, t).
      rbind (rbind (pget d (lit ''quant'') (PDict [])) quant_from_dict) (\<lambda>q.
      rbind (rbind (pget d (lit ''text'') (PDict [])) mapping) (\<lambda>txt.
      let x = PDict txt in
      rbind (pget x (lit ''hidden_size'') (PInt 5120)) (\<lambda>hs.
      rbind (pget x (lit ''num_layers'') (PInt 64)) (\<lambda>n.
      rbind (schedule L x n) (\<lambda>lts.
      rbind (pget d (lit ''spec'') PNone) (\<lambda>spec.
      rbind (if a = lit ''deepseek_v4''
             then check_compress_ratios L (if truthy spec then spec else PDict []) n else Inr ()) (\<lambda>_.
      rbind (rbind (pget d (lit ''defaults'') (PDict [])) mapping) (\<lambda>dflts.
      rbind (rbind (pget d (lit ''env'') (PDict [])) mapping) (\<lambda>env.
      rbind (rbind (pget d (lit ''tp'') (PDict [])) tp_from_dict) (\<lambda>tps.
      rbind (check_world L dflts tps) (\<lambda>_.
      rbind (rbind (pget x (lit ''linear_attention'') (PDict [])) linear_from_dict) (\<lambda>la.
      rbind (rbind (pget x (lit ''full_attention'') (PDict [])) full_from_dict) (\<lambda>fa.
      rbind (rbind (pget x (lit ''mlp'') (PDict [])) mlp_from_dict) (\<lambda>ml.
      rbind (rbind (pget d (lit ''mtp'') (PDict [])) mtp_from_dict) (\<lambda>mt.
      rbind (rbind (pget d (lit ''vision'') (PDict [])) vision_from_dict) (\<lambda>vi.
      rbind (rbind (pget d (lit ''memory'') (PDict [])) (memory_from_dict L)) (\<lambda>mem.
      rbind (gets x text_defaults) (\<lambda>tf.
      rbind (pget d (lit ''name'') (PStr [])) (\<lambda>nm.
      rbind (gets d [(''status'', PText ''ready''), (''paths'', PDict []), (''recipe_version'', PText ''1''),
                     (''description'', PStr []), (''container'', PNone), (''command'', PNone)]) (\<lambda>g.
        Inr \<lparr>model_id = m, arch = a, dtype = t, quant = q, hidden_size = hs, num_layers = n, layer_types = lts,
             linear_attention = la, full_attention = fa, mlp = ml, mtp = mt, vision = vi, tp = tps, memory = mem,
             text_fields = tf, status = snd (g ! 0),
             meta = filter (\<lambda>p. fst p \<notin> set KNOWN_TOP) doc, paths = snd (g ! 1),
             recipe_version = py_str_of L (snd (g ! 2)),
             recipe_name = (if truthy nm then nm else PStr m), description = snd (g ! 3),
             container = snd (g ! 4), defaults = dflts,
             launch_env = map (\<lambda>(k, v). (k, py_str_of L v)) env, command = snd (g ! 5)\<rparr>))))))))))))))))))))))"

text \<open>\<open>from_yaml\<close>; the YAML parser is the parameter \<open>safe_load\<close>.\<close>

definition recipe_from_yaml :: "py_lib \<Rightarrow> (pystr \<Rightarrow> py_error + pv) \<Rightarrow> pystr \<Rightarrow> py_error + recipe" where
  "recipe_from_yaml L safe_load s =
     rbind (safe_load s) (\<lambda>doc. rbind (mapping doc) (recipe_from_dict L))"

section \<open>Derived values\<close>

definition indices_of :: "string \<Rightarrow> recipe \<Rightarrow> nat list" where
  "indices_of ty r = map fst (filter (\<lambda>(i, t). t = lit ty) (enumerate 0 (layer_types r)))"

definition linear_attn_indices :: "recipe \<Rightarrow> nat list" where
  "linear_attn_indices r = indices_of ''linear_attention'' r"

definition full_attn_indices :: "recipe \<Rightarrow> nat list" where
  "full_attn_indices r = indices_of ''full_attention'' r"

definition local_dir :: "recipe \<Rightarrow> py_error + pv" where
  "local_dir r = pget (paths r) (lit ''local_dir'') PNone"

text \<open>\<open>rotary_dim\<close>; the float product and its floor are the parameter \<open>floor_mul\<close>.\<close>

definition rotary_dim :: "(int \<Rightarrow> pv \<Rightarrow> py_error + int) \<Rightarrow> recipe \<Rightarrow> py_error + int" where
  "rotary_dim floor_mul r =
     (if head_dim (full_attention r) = None \<and> \<not> is_pint (hidden_size r) then Inl TypeError
      else rbind (effective_head_dim (full_attention r) (int_value (hidden_size r)))
        (\<lambda>h. floor_mul h (partial_rotary_factor (rope (full_attention r)))))"

text \<open>
  \<open>render_command\<close>; \<open>str.format\<close> is the parameter \<open>fmt\<close>, which raises \<open>KeyError\<close> for a name that
  is not given.
\<close>

definition render_command :: "(pystr \<Rightarrow> attrs \<Rightarrow> py_error + pystr) \<Rightarrow> recipe \<Rightarrow> attrs \<Rightarrow> py_error + pystr" where
  "render_command fmt r extra =
     (if \<not> truthy (command r) then Inl RecipeError
      else case command r of
        PStr c \<Rightarrow>
          (case fmt c (fold (\<lambda>(k, v) d. dset k v d) extra (defaults r)) of
             Inl e \<Rightarrow> Inl (if e = KeyError then RecipeError else e)
           | Inr s \<Rightarrow> Inr (str_strip s))
      | _ \<Rightarrow> Inl AttributeError)"

section \<open>What an accepted recipe guarantees\<close>

definition schedule_ok :: "py_lib \<Rightarrow> pystr list \<Rightarrow> pv \<Rightarrow> bool" where
  "schedule_ok L lts n \<longleftrightarrow>
     set lts \<subseteq> set KNOWN_LAYER_TYPES \<and> (lts = [] \<or> eq_int L (int (length lts)) n)"

definition memory_ok :: "memory_spec \<Rightarrow> bool" where
  "memory_ok m \<longleftrightarrow> placement m \<in> {lit ''device'', lit ''host''} \<and> 0 < utilization m \<and> utilization m \<le> 1
     \<and> pred_option is_pint (host_bytes m) \<and> pred_option is_pint (device_bytes m)"

definition world_ok :: "py_lib \<Rightarrow> attrs \<Rightarrow> tp_spec \<Rightarrow> bool" where
  "world_ok L dflts t \<longleftrightarrow>
     is_pint (tp_size t)
     \<and> (\<forall>v. dget dflts (lit ''tensor_parallel'') = Some v \<longrightarrow> py_int_of L v = Inr (int_value (tp_size t)))
     \<and> (\<forall>v. dget dflts (lit ''nodes'') = Some v \<longrightarrow> (\<exists>i. py_int_of L v = Inr i \<and> int_value (tp_size t) \<le> i))"

definition recipe_ok :: "py_lib \<Rightarrow> recipe \<Rightarrow> bool" where
  "recipe_ok L r \<longleftrightarrow>
     model_id_ok L (model_id r) \<and> arch r \<in> set KNOWN_ARCHS \<and> dtype r \<in> set KNOWN_DTYPES
     \<and> schedule_ok L (layer_types r) (num_layers r) \<and> memory_ok (memory r) \<and> world_ok L (defaults r) (tp r)
     \<and> is_pint (fst (weight_block_size (quant r))) \<and> is_pint (snd (weight_block_size (quant r)))
     \<and> is_pint (num_heads (full_attention r)) \<and> is_pint (num_kv_heads (full_attention r))
     \<and> pred_option is_pint (head_dim (full_attention r))"

lemma require_int: "require d k ''int'' = Inr v \<Longrightarrow> is_pint v"
  by (auto simp: require_def rbind_Inr_iff split: if_splits)

lemma optional_int: "optional d ''int'' k dflt = Inr v \<Longrightarrow> is_pint dflt \<Longrightarrow> is_pint v"
  by (auto simp: optional_def rbind_Inr_iff split: if_splits dest: require_int)

lemma check_identity_ok:
  "check_identity L d = Inr (m, a, t) \<Longrightarrow>
    model_id_ok L m \<and> a \<in> set KNOWN_ARCHS \<and> t \<in> set KNOWN_DTYPES \<and> str_strip m \<noteq> []"
  by (clarsimp simp: check_identity_def rbind_Inr_iff) (auto split: pv.split_asm if_split_asm)

lemma check_layer_known: "check_layer v = Inr s \<Longrightarrow> s \<in> set KNOWN_LAYER_TYPES"
  by (auto simp: check_layer_def split: pv.splits if_splits)

lemma rmap_all: "rmap f xs = Inr ys \<Longrightarrow> (\<And>x y. f x = Inr y \<Longrightarrow> P y) \<Longrightarrow> list_all P ys"
  by (induction xs arbitrary: ys) (auto simp: rbind_Inr_iff)

lemma schedule_ok_accepted: "schedule L txt n = Inr lts \<Longrightarrow> schedule_ok L lts n"
proof -
  assume "schedule L txt n = Inr lts"
  then obtain vs where v: "rmap check_layer vs = Inr lts" "vs = [] \<or> eq_int L (int (length vs)) n"
    by (auto simp: schedule_def rbind_Inr_iff split: if_splits)
  have "list_all (\<lambda>s. s \<in> set KNOWN_LAYER_TYPES) lts"
    by (rule rmap_all [OF v(1)]) (rule check_layer_known)
  moreover have "length lts = length vs" by (rule rmap_length [OF v(1)])
  ultimately show ?thesis using v(2) by (auto simp: schedule_ok_def list_all_iff)
qed

lemma given_int_ok: "given_int d k = Inr v \<Longrightarrow> pred_option is_pint v"
  by (auto simp: given_int_def rbind_Inr_iff split: if_splits dest: require_int)

lemma utilization_accepted: "utilization_from_dict L d = Inr u \<Longrightarrow> 0 < u \<and> u \<le> 1"
  by (clarsimp simp: utilization_from_dict_def rbind_Inr_iff memory_default_def split: if_split_asm)
     (auto split: option.split_asm if_split_asm)

lemma memory_accepted: "memory_from_dict L d = Inr m \<Longrightarrow> memory_ok m"
proof (cases "is_pdict d")
  case True
  assume m: "memory_from_dict L d = Inr m"
  with True obtain p where p: "p = PText ''device'' \<or> p = PText ''host''"
    "rbind (given_int d ''kv_host_bytes'') (\<lambda>hb. rbind (given_int d ''kv_device_bytes'') (\<lambda>db.
       rbind (utilization_from_dict L d) (\<lambda>u. Inr \<lparr>placement = (case p of PStr s \<Rightarrow> s | _ \<Rightarrow> []),
         host_bytes = hb, device_bytes = db, utilization = u\<rparr>))) = Inr m"
    by (cases "pget d (lit ''kv_placement'') (PStr (placement memory_default))")
       (auto simp: memory_from_dict_def split: if_split_asm)
  then show ?thesis using given_int_ok utilization_accepted by (fastforce simp: rbind_Inr_iff memory_ok_def)
next
  case False
  assume "memory_from_dict L d = Inr m"
  with False show ?thesis by (auto simp: memory_from_dict_def memory_ok_def memory_default_def)
qed

lemma tp_accepted: "tp_from_dict d = Inr t \<Longrightarrow> is_pint (tp_size t)"
  by (clarsimp simp: tp_from_dict_def rbind_Inr_iff) (erule optional_int, simp add: is_pint_def)

lemma world_accepted: "check_world L dflts t = Inr () \<Longrightarrow> is_pint (tp_size t) \<Longrightarrow> world_ok L dflts t"
  by (auto simp: check_world_def world_ok_def rbind_Inr_iff split: option.splits if_splits)

lemma quant_accepted:
  "quant_from_dict d = Inr q \<Longrightarrow> is_pint (fst (weight_block_size q)) \<and> is_pint (snd (weight_block_size q))"
  unfolding quant_from_dict_def
  by (clarsimp simp: rbind_Inr_iff split: if_split_asm)
     (auto simp: rbind_Inr_iff split: pv.split_asm list.split_asm if_split_asm)

lemma full_accepted:
  "full_from_dict d = Inr f \<Longrightarrow>
    is_pint (num_heads f) \<and> is_pint (num_kv_heads f) \<and> pred_option is_pint (head_dim f)"
  unfolding full_from_dict_def
  by (auto simp: rbind_Inr_iff is_pint_def [of "PInt _"] split: if_splits dest: optional_int require_int)

text \<open>The stages an accepted document has passed.\<close>

lemma recipe_stages:
  assumes "recipe_from_dict L doc = Inr r"
  shows "\<exists>txt. check_identity L (PDict doc) = Inr (model_id r, arch r, dtype r)
    \<and> rbind (pget (PDict doc) (lit ''text'') (PDict [])) mapping = Inr txt
    \<and> pget (PDict txt) (lit ''num_layers'') (PInt 64) = Inr (num_layers r)
    \<and> schedule L (PDict txt) (num_layers r) = Inr (layer_types r)
    \<and> (\<exists>v. quant_from_dict v = Inr (quant r)) \<and> (\<exists>v. memory_from_dict L v = Inr (memory r))
    \<and> (\<exists>v. tp_from_dict v = Inr (tp r)) \<and> check_world L (defaults r) (tp r) = Inr ()
    \<and> (\<exists>v. full_from_dict v = Inr (full_attention r))"
  using assms unfolding recipe_from_dict_def Let_def rbind_Inr_iff case_prod_beta
  by clarsimp blast

lemma recipe_accepted: "recipe_from_dict L doc = Inr r \<Longrightarrow> recipe_ok L r"
proof -
  assume "recipe_from_dict L doc = Inr r"
  from recipe_stages [OF this] obtain tx q m t f where
    s: "check_identity L (PDict doc) = Inr (model_id r, arch r, dtype r)"
      "schedule L tx (num_layers r) = Inr (layer_types r)"
      "quant_from_dict q = Inr (quant r)" "memory_from_dict L m = Inr (memory r)"
      "tp_from_dict t = Inr (tp r)" "check_world L (defaults r) (tp r) = Inr ()"
      "full_from_dict f = Inr (full_attention r)" by blast
  show ?thesis
    using check_identity_ok [OF s(1)] schedule_ok_accepted [OF s(2)] quant_accepted [OF s(3)]
      memory_accepted [OF s(4)] world_accepted [OF s(6) tp_accepted [OF s(5)]] full_accepted [OF s(7)]
    by (simp add: recipe_ok_def)
qed

section \<open>The derived schedule\<close>

lemma mod_truthy_int: "0 < k \<Longrightarrow> mod_truthy L n (PInt k) = Inr (n mod k \<noteq> 0)"
  by (simp add: mod_truthy_def is_pint_def int_value_def)

lemma interval_schedule_eq:
  assumes "0 < k"
  shows "interval_schedule L (PInt k) (PInt n)
    = Inr (map (\<lambda>i. if (i + 1) mod k = 0 then PText ''full_attention'' else PText ''linear_attention'') [0..n - 1])"
proof -
  have "rmap (\<lambda>i. rbind (mod_truthy L (i + 1) (PInt k)) (\<lambda>b.
       Inr (if b then PText ''linear_attention'' else PText ''full_attention''))) [0..n - 1]
    = Inr (map (\<lambda>i. if (i + 1) mod k = 0 then PText ''full_attention'' else PText ''linear_attention'') [0..n - 1])"
    by (rule rmap_all_Inr) (simp add: mod_truthy_int [OF assms])
  then show ?thesis by (simp add: interval_schedule_def range_of_def is_pint_def int_value_def)
qed

definition hybrid_layers :: "int \<Rightarrow> int \<Rightarrow> pystr list" where
  "hybrid_layers k n =
     map (\<lambda>i. if (i + 1) mod k = 0 then lit ''full_attention'' else lit ''linear_attention'') [0..n - 1]"

lemma schedule_interval:
  assumes "dget txt (lit ''layer_types'') = None" "dget txt (lit ''full_attention_interval'') = Some (PInt k)" "0 < k"
  shows "schedule L (PDict txt) (PInt n) = Inr (hybrid_layers k n)"
proof -
  let ?vs = "map (\<lambda>i. if (i + 1) mod k = 0 then PText ''full_attention'' else PText ''linear_attention'') [0..n - 1]"
  have known: "lit ''full_attention'' \<in> set KNOWN_LAYER_TYPES" "lit ''linear_attention'' \<in> set KNOWN_LAYER_TYPES"
    by (simp_all add: KNOWN_LAYER_TYPES_def)
  have "rmap check_layer (map f xs) = Inr (map g xs)" if "\<And>x. check_layer (f x) = Inr (g x)" for f g and xs :: "int list"
    using that by (induction xs) auto
  from this [of "\<lambda>i. if (i + 1) mod k = 0 then PText ''full_attention'' else PText ''linear_attention''"
      "\<lambda>i. if (i + 1) mod k = 0 then lit ''full_attention'' else lit ''linear_attention''" "[0..n - 1]"]
  have check: "rmap check_layer ?vs = Inr (hybrid_layers k n)"
    using known by (simp add: check_layer_def hybrid_layers_def)
  have "eq_int L (int (length ?vs)) (PInt n)" if "?vs \<noteq> []"
    using that by (auto simp: eq_int_def is_pint_def int_value_def)
  moreover have "0 \<le> n \<Longrightarrow> eq_int L n (PInt n)" by (simp add: eq_int_def is_pint_def int_value_def)
  ultimately show ?thesis using assms check interval_schedule_eq [OF assms(3), of L n]
    by (simp add: schedule_def)
qed

lemma filter_enumerate:
  "map fst (filter (\<lambda>(i, t). t = a) (enumerate n xs)) = filter (\<lambda>i. xs ! (i - n) = a) [n..<n + length xs]"
proof (induction xs arbitrary: n)
  case (Cons x xs)
  have "filter (\<lambda>i. xs ! (i - Suc n) = a) [Suc n..<Suc n + length xs]
      = filter (\<lambda>i. (x # xs) ! (i - n) = a) [Suc n..<Suc n + length xs]"
    by (rule filter_cong) (auto simp: nth_Cons')
  moreover have "[n..<n + length (x # xs)] = n # [Suc n..<Suc n + length xs]" by (simp add: upt_rec)
  ultimately show ?case using Cons.IH [of "Suc n"] by simp
qed simp

lemma hybrid_nth: "i < nat n \<Longrightarrow> hybrid_layers k n ! i =
    (if (int i + 1) mod k = 0 then lit ''full_attention'' else lit ''linear_attention'')"
  by (simp add: hybrid_layers_def)

lemma schedule_list:
  assumes "schedule L (PDict txt) n = Inr lts" "dget txt (lit ''layer_types'') = Some (PList vs)" "vs \<noteq> []"
  shows "map PStr lts = vs"
proof -
  have "rmap check_layer vs = Inr lts"
    using assms by (auto simp: schedule_def rbind_Inr_iff split: if_splits)
  then show ?thesis
  proof (induction vs arbitrary: lts)
    case (Cons v vs)
    then show ?case by (auto simp: rbind_Inr_iff check_layer_def split: pv.splits if_splits)
  qed simp
qed

lemma schedule_none:
  assumes "schedule L (PDict txt) n = Inr lts" "dget txt (lit ''layer_types'') \<in> {None, Some (PList [])}"
    "pred_option (\<lambda>v. \<not> truthy v) (dget txt (lit ''full_attention_interval''))"
  shows "lts = []"
proof -
  have "schedule L (PDict txt) n = Inr []"
    using assms(2,3) by (cases "dget txt (lit ''full_attention_interval'')") (auto simp: schedule_def)
  with assms(1) show ?thesis by simp
qed

text \<open>
  C35: what an accepted recipe guarantees to the engine.  Its architecture and dtype are known
  ones, its layer types too, and unless there are none their number is the number of layers; the KV
  placement is \<open>device\<close> or \<open>host\<close> with a utilisation in (0, 1] and integer budgets; head counts, head
  size and quantisation blocks are integers; the launcher's \<open>tensor_parallel\<close> equals the size of the
  tensor-parallel world, and \<open>nodes\<close> is not less.  The schedule comes from the document: a list that
  is not empty is taken as it stands; when the document gives an interval instead, the full attention
  layers are exactly those whose number, counted from one, the interval divides, and the linear
  attention layers are the others, both in ascending order; and a document that gives neither is
  accepted as well, with no schedule, whatever its number of layers.
\<close>

theorem accepted_recipe:
  assumes "recipe_from_dict L doc = Inr r"
  shows "recipe_ok L r \<and>
    (\<forall>txt k n. dget doc (lit ''text'') = Some (PDict txt) \<and> dget txt (lit ''layer_types'') = None
       \<and> dget txt (lit ''full_attention_interval'') = Some (PInt k) \<and> 0 < k
       \<and> dget txt (lit ''num_layers'') = Some (PInt n) \<longrightarrow>
     full_attn_indices r = filter (\<lambda>i. (int i + 1) mod k = 0) [0..<nat n]
     \<and> linear_attn_indices r = filter (\<lambda>i. (int i + 1) mod k \<noteq> 0) [0..<nat n]) \<and>
    (\<forall>txt vs. dget doc (lit ''text'') = Some (PDict txt) \<and> dget txt (lit ''layer_types'') = Some (PList vs) \<and> vs \<noteq> []
       \<longrightarrow> map PStr (layer_types r) = vs \<and> eq_int L (int (length vs)) (num_layers r)) \<and>
    (\<forall>txt. (dget doc (lit ''text'') = Some (PDict txt) \<or> dget doc (lit ''text'') = None \<and> txt = [])
       \<and> dget txt (lit ''layer_types'') \<in> {None, Some (PList [])}
       \<and> pred_option (\<lambda>v. \<not> truthy v) (dget txt (lit ''full_attention_interval'')) \<longrightarrow> layer_types r = [])"
proof (intro conjI allI impI)
  show "recipe_ok L r" by (rule recipe_accepted [OF assms])
next
  fix tx k n
  assume a: "dget doc (lit ''text'') = Some (PDict tx) \<and> dget tx (lit ''layer_types'') = None
       \<and> dget tx (lit ''full_attention_interval'') = Some (PInt k) \<and> 0 < k
       \<and> dget tx (lit ''num_layers'') = Some (PInt n)"
  from recipe_stages [OF assms] a have "schedule L (PDict tx) (PInt n) = Inr (layer_types r)"
    by (auto simp: mapping_def)
  with a schedule_interval have lts: "layer_types r = hybrid_layers k n" by auto
  have len: "length (hybrid_layers k n) = nat n" by (simp add: hybrid_layers_def)
  have ne: "lit ''full_attention'' \<noteq> lit ''linear_attention''" by (simp add: lit_def)
  show "full_attn_indices r = filter (\<lambda>i. (int i + 1) mod k = 0) [0..<nat n]"
    unfolding full_attn_indices_def indices_of_def lts filter_enumerate
    by (rule filter_cong) (use ne in \<open>auto simp: len hybrid_nth\<close>)
  show "linear_attn_indices r = filter (\<lambda>i. (int i + 1) mod k \<noteq> 0) [0..<nat n]"
    unfolding linear_attn_indices_def indices_of_def lts filter_enumerate
    by (rule filter_cong) (use ne in \<open>auto simp: len hybrid_nth\<close>)
next
  fix tx vs
  assume a: "dget doc (lit ''text'') = Some (PDict tx) \<and> dget tx (lit ''layer_types'') = Some (PList vs) \<and> vs \<noteq> []"
  with recipe_stages [OF assms] have sch: "schedule L (PDict tx) (num_layers r) = Inr (layer_types r)"
    by (auto simp: mapping_def)
  show lts: "map PStr (layer_types r) = vs" by (rule schedule_list [OF sch]) (use a in auto)
  show "eq_int L (int (length vs)) (num_layers r)"
    using schedule_ok_accepted [OF sch] a lts by (auto simp: schedule_ok_def)
next
  fix tx
  assume a: "(dget doc (lit ''text'') = Some (PDict tx) \<or> dget doc (lit ''text'') = None \<and> tx = [])
       \<and> dget tx (lit ''layer_types'') \<in> {None, Some (PList [])}
       \<and> pred_option (\<lambda>v. \<not> truthy v) (dget tx (lit ''full_attention_interval''))"
  with recipe_stages [OF assms] have sch: "schedule L (PDict tx) (num_layers r) = Inr (layer_types r)"
    by (auto simp: mapping_def)
  show "layer_types r = []" by (rule schedule_none [OF sch]) (use a in auto)
qed

text \<open>A small recipe: eight layers, every fourth with full attention.\<close>

definition py_lib0 :: py_lib where
  "py_lib0 = \<lparr>float_value = (\<lambda>r. if r = lit ''0.5'' then Some (1 / 2) else None),
     py_int_of = (\<lambda>v. case v of PInt i \<Rightarrow> Inr i | _ \<Rightarrow> Inl TypeError),
     py_str_of = (\<lambda>v. case v of PStr s \<Rightarrow> s | _ \<Rightarrow> []), word_char = (\<lambda>c. False)\<rparr>"

definition small_text :: attrs where
  "small_text = [(lit ''num_layers'', PInt 8), (lit ''full_attention_interval'', PInt 4)]"

definition small_doc :: attrs where
  "small_doc = [(lit ''model_id'', PText ''acme/tiny''), (lit ''arch'', PText ''qwen3_5''), (lit ''text'', PDict small_text),
     (lit ''tp'', PDict [(lit ''size'', PInt 2)]), (lit ''defaults'', PDict [(lit ''tensor_parallel'', PInt 2)]),
     (lit ''memory'', PDict [(lit ''kv_utilization'', PFloat (lit ''0.5''))])]"

lemma small_doc_accepted: "\<exists>r. recipe_from_dict py_lib0 small_doc = Inr r"
proof -
  have "case recipe_from_dict py_lib0 small_doc of Inl _ \<Rightarrow> False | Inr _ \<Rightarrow> True" by code_simp
  then show ?thesis by (cases "recipe_from_dict py_lib0 small_doc") auto
qed

theorem accepted_recipe_witness:
  "\<exists>r. recipe_from_dict py_lib0 small_doc = Inr r \<and> recipe_ok py_lib0 r \<and> full_attn_indices r = [3, 7]
    \<and> linear_attn_indices r = [0, 1, 2, 4, 5, 6]"
proof -
  obtain r where r: "recipe_from_dict py_lib0 small_doc = Inr r" using small_doc_accepted by blast
  have d: "dget small_doc (lit ''text'') = Some (PDict small_text)" "dget small_text (lit ''layer_types'') = None"
    "dget small_text (lit ''full_attention_interval'') = Some (PInt 4)" "dget small_text (lit ''num_layers'') = Some (PInt 8)"
    by code_simp+
  have l: "filter (\<lambda>i. (int i + 1) mod 4 = 0) [0..<nat 8] = [3, 7]"
    "filter (\<lambda>i. (int i + 1) mod 4 \<noteq> 0) [0..<nat 8] = [0, 1, 2, 4, 5, 6]" by code_simp+
  show ?thesis using accepted_recipe [OF r] d l r by fastforce
qed

section \<open>What it does not check\<close>

text \<open>The least document is accepted: 64 layers by default, and no schedule for any of them.\<close>

lemma minimal_recipe:
  "\<exists>r. recipe_from_dict py_lib0 [(lit ''model_id'', PText ''x/y''), (lit ''arch'', PText ''qwen3_5'')] = Inr r
    \<and> num_layers r = PInt 64 \<and> layer_types r = []"
proof -
  have "case recipe_from_dict py_lib0 [(lit ''model_id'', PText ''x/y''), (lit ''arch'', PText ''qwen3_5'')] of
      Inl _ \<Rightarrow> False | Inr r \<Rightarrow> num_layers r = PInt 64 \<and> layer_types r = []" by code_simp
  then show ?thesis by (auto split: sum.splits)
qed

text \<open>
  The message for a bad \<open>model_id\<close> says that only \<open>[A-Za-z0-9_./+-]\<close> is allowed; the pattern lets a
  newline at the end through.  The vision floats are required to be of type \<open>float\<close>, which
  \<open>_require\<close> does not know: any value passes.
\<close>

lemma model_id_newline: "model_id_ok L (lit ''qwen'' @ [10])"
  by (simp add: model_id_ok_def lit_def id_char_def)

lemma vision_float_unchecked:
  "\<exists>v. vision_from_dict (PDict [(lit ''rope_theta'', PText ''fast'')]) = Inr v \<and> dget v (lit ''rope_theta'') = Some (PText ''fast'')"
proof -
  have "case vision_from_dict (PDict [(lit ''rope_theta'', PText ''fast'')]) of Inl _ \<Rightarrow> False
    | Inr v \<Rightarrow> dget v (lit ''rope_theta'') = Some (PText ''fast'')" by code_simp
  then show ?thesis by (cases "vision_from_dict (PDict [(lit ''rope_theta'', PText ''fast'')])") auto
qed

end
