(* ===== verification/ShardPlan.thy ===== *)
theory ShardPlan
  imports PyText
begin

text \<open>
  The planning half of \<open>loaders/tp_shard.py\<close>: which tensors of a checkpoint are split over the
  ranks, along which axis and at which granularity.  A tensor is recognised by its name; the name
  patterns are lists of literal pieces, numbers and alternatives, anchored at both ends.  Names are
  ASCII (the \<open>\d\<close> of the source also accepts the digits of other scripts).
\<close>

section \<open>Name patterns\<close>

datatype rx = Lit pystr | Num | Alt "pystr list"

definition is_digit :: "int \<Rightarrow> bool" where
  "is_digit c \<longleftrightarrow> 48 \<le> c \<and> c \<le> 57"

definition digits_value :: "pystr \<Rightarrow> nat" where
  "digits_value ds = foldl (\<lambda>n c. 10 * n + nat (c - 48)) 0 ds"

text \<open>
  The numbers a match captures.  A number takes all the digits there are, which is right because no
  pattern continues a number with a digit; the \<open>$\<close> of a pattern also matches before a final
  newline.
\<close>

fun rx_match :: "rx list \<Rightarrow> pystr \<Rightarrow> nat list option" where
  "rx_match [] s = (if s = [] \<or> s = [10] then Some [] else None)"
| "rx_match (Lit p # r) s = (if starts_with p s then rx_match r (drop (length p) s) else None)"
| "rx_match (Num # r) s =
     (if takeWhile is_digit s = [] then None
      else map_option (\<lambda>ns. digits_value (takeWhile is_digit s) # ns) (rx_match r (dropWhile is_digit s)))"
| "rx_match (Alt ps # r) s =
     (case filter (\<lambda>m. m \<noteq> None)
             (map (\<lambda>p. if starts_with p s then rx_match r (drop (length p) s) else None) ps) of
        [] \<Rightarrow> None | m # _ \<Rightarrow> m)"

abbreviation rx_matches :: "rx list \<Rightarrow> pystr \<Rightarrow> bool" where
  "rx_matches p s \<equiv> rx_match p s \<noteq> None"

section \<open>Plans\<close>

datatype kind = Replicated | SplitOut | SplitIn | Experts

record tensor_plan =
  kind :: kind
  segments :: "(nat option \<times> nat) list"
  expert :: "nat option"

definition split_plan :: "kind \<Rightarrow> (nat option \<times> nat) list \<Rightarrow> tensor_plan" where
  "split_plan k ss = \<lparr> kind = k, segments = ss, expert = None \<rparr>"

definition plan_unit :: "tensor_plan \<Rightarrow> nat" where
  "plan_unit p = (case segments p of [] \<Rightarrow> 1 | (_, u) # _ \<Rightarrow> u)"

text \<open>What both sharding classes keep: the rank count, the scale block, the plan, the expert count.\<close>

record sharding =
  sh_tp :: nat
  sh_block :: nat
  sh_plan :: "pystr \<Rightarrow> tensor_plan"
  sh_experts :: nat

section \<open>The qwen4\_exp checkpoint\<close>

record qwen_cfg =
  attn_heads :: nat
  attn_kv_heads :: nat
  attn_head_dim :: nat
  lin_k_heads :: nat
  lin_v_heads :: nat
  lin_k_dim :: nat
  lin_v_dim :: nat
  n_experts :: nat

definition qwen_layer :: "rx list \<Rightarrow> rx list" where
  "qwen_layer r = [Lit (lit ''model.language_model.layers.''), Num] @ r"

definition re_embed :: "rx list" where
  "re_embed = [Lit (lit ''model.language_model.embed_tokens.weight'')]"

definition re_lm_head :: "rx list" where
  "re_lm_head = [Lit (lit ''lm_head.weight'')]"

definition re_q :: "rx list" where
  "re_q = qwen_layer [Lit (lit ''.self_attn.q_proj.weight'')]"

definition re_kv :: "rx list" where
  "re_kv = qwen_layer [Lit (lit ''.self_attn.''), Alt [lit ''k'', lit ''v''], Lit (lit ''_proj.weight'')]"

definition re_o :: "rx list" where
  "re_o = qwen_layer [Lit (lit ''.self_attn.o_proj.weight'')]"

definition re_gdn_qkv :: "rx list" where
  "re_gdn_qkv = qwen_layer [Lit (lit ''.linear_attn.in_proj_qkv.weight'')]"

definition re_gdn_z :: "rx list" where
  "re_gdn_z = qwen_layer [Lit (lit ''.linear_attn.in_proj_z.weight'')]"

definition re_gdn_ba :: "rx list" where
  "re_gdn_ba = qwen_layer [Lit (lit ''.linear_attn.in_proj_''), Alt [lit ''a'', lit ''b''], Lit (lit ''.weight'')]"

definition re_gdn_conv :: "rx list" where
  "re_gdn_conv = qwen_layer [Lit (lit ''.linear_attn.conv1d.weight'')]"

definition re_gdn_dt :: "rx list" where
  "re_gdn_dt = qwen_layer [Lit (lit ''.linear_attn.''), Alt [lit ''A_log'', lit ''dt_bias'']]"

definition re_gdn_out :: "rx list" where
  "re_gdn_out = qwen_layer [Lit (lit ''.linear_attn.out_proj.weight'')]"

definition re_expert :: "rx list" where
  "re_expert = qwen_layer [Lit (lit ''.mlp.experts.''), Num, Lit (lit ''.''),
     Alt [lit ''gate'', lit ''up'', lit ''down''], Lit (lit ''_proj.weight'')]"

definition qwen_plan_for :: "qwen_cfg \<Rightarrow> pystr \<Rightarrow> tensor_plan" where
  "qwen_plan_for c name =
     (if rx_matches re_embed name \<or> rx_matches re_lm_head name then split_plan SplitOut [(None, 1)]
      else if rx_matches re_q name
      then split_plan SplitOut [(Some (attn_heads c * 2 * attn_head_dim c), 2 * attn_head_dim c)]
      else if rx_matches re_kv name
      then split_plan SplitOut [(Some (attn_kv_heads c * attn_head_dim c), attn_head_dim c)]
      else if rx_matches re_o name
      then split_plan SplitIn [(Some (attn_heads c * attn_head_dim c), attn_head_dim c)]
      else if rx_matches re_gdn_qkv name \<or> rx_matches re_gdn_conv name
      then (let kd = lin_k_heads c * lin_k_dim c; vd = lin_v_heads c * lin_v_dim c
            in split_plan SplitOut [(Some kd, lin_k_dim c), (Some kd, lin_k_dim c), (Some vd, lin_v_dim c)])
      else if rx_matches re_gdn_z name
      then split_plan SplitOut [(Some (lin_v_heads c * lin_v_dim c), lin_v_dim c)]
      else if rx_matches re_gdn_ba name \<or> rx_matches re_gdn_dt name
      then split_plan SplitOut [(Some (lin_v_heads c), 1)]
      else if rx_matches re_gdn_out name
      then split_plan SplitIn [(Some (lin_v_heads c * lin_v_dim c), lin_v_dim c)]
      else (case rx_match re_expert name of
              Some m \<Rightarrow> \<lparr> kind = Experts, segments = [], expert = Some (m ! 1) \<rparr>
            | None \<Rightarrow> split_plan Replicated []))"

definition qwen_sharding :: "qwen_cfg \<Rightarrow> nat \<Rightarrow> nat \<Rightarrow> py_error + sharding" where
  "qwen_sharding cfg tp block =
     (if tp \<le> 1 then Inl ShardError
      else if list_ex (\<lambda>n. n mod tp \<noteq> 0)
                [attn_heads cfg, attn_kv_heads cfg, lin_k_heads cfg, lin_v_heads cfg, n_experts cfg]
      then Inl ShardError
      else Inr \<lparr> sh_tp = tp, sh_block = block, sh_plan = qwen_plan_for cfg, sh_experts = n_experts cfg \<rparr>)"

section \<open>The DeepSeek-V4 checkpoint\<close>

record ds_cfg =
  n_heads :: nat
  head_dim :: nat
  o_groups :: nat
  o_lora_rank :: nat
  q_lora_rank :: nat
  index_n_heads :: nat
  index_head_dim :: nat
  n_routed_experts :: nat

definition ds_layer :: "rx list \<Rightarrow> rx list" where
  "ds_layer r = [Lit (lit ''layers.''), Num] @ r"

definition ds_mtp :: "rx list \<Rightarrow> rx list" where
  "ds_mtp r = [Lit (lit ''mtp.''), Num] @ r"

definition re_ds_embed :: "rx list" where
  "re_ds_embed = [Lit (lit ''embed.weight'')]"

definition re_ds_head :: "rx list" where
  "re_ds_head = [Lit (lit ''head.weight'')]"

definition re_ds_wq_a :: "rx list" where
  "re_ds_wq_a = ds_layer [Lit (lit ''.attn.wq_a.weight'')]"

definition re_ds_wq_b :: "rx list" where
  "re_ds_wq_b = ds_layer [Lit (lit ''.attn.wq_b.weight'')]"

definition re_ds_wo_a :: "rx list" where
  "re_ds_wo_a = ds_layer [Lit (lit ''.attn.wo_a.weight'')]"

definition re_ds_wo_b :: "rx list" where
  "re_ds_wo_b = ds_layer [Lit (lit ''.attn.wo_b.weight'')]"

definition re_ds_idx_wq_b :: "rx list" where
  "re_ds_idx_wq_b = ds_layer [Lit (lit ''.attn.indexer.wq_b.weight'')]"

definition re_ds_idx_wproj :: "rx list" where
  "re_ds_idx_wproj = ds_layer [Lit (lit ''.attn.indexer.weights_proj.weight'')]"

definition re_ds_expert :: "rx list" where
  "re_ds_expert = [Lit (lit ''layers.''), Num, Lit (lit ''.ffn.experts.''), Num,
     Lit (lit ''.w''), Alt [lit ''1'', lit ''2'', lit ''3''], Lit (lit ''.weight'')]"

definition re_ds_mtp_wq_b :: "rx list" where
  "re_ds_mtp_wq_b = ds_mtp [Lit (lit ''.attn.wq_b.weight'')]"

definition re_ds_mtp_wo_a :: "rx list" where
  "re_ds_mtp_wo_a = ds_mtp [Lit (lit ''.attn.wo_a.weight'')]"

definition re_ds_mtp_wo_b :: "rx list" where
  "re_ds_mtp_wo_b = ds_mtp [Lit (lit ''.attn.wo_b.weight'')]"

definition re_ds_markov_w1 :: "rx list" where
  "re_ds_markov_w1 = ds_mtp [Lit (lit ''.markov_head.markov_w1.weight'')]"

definition re_ds_markov_w2 :: "rx list" where
  "re_ds_markov_w2 = ds_mtp [Lit (lit ''.markov_head.markov_w2.weight'')]"

definition ds_plan_for :: "ds_cfg \<Rightarrow> pystr \<Rightarrow> tensor_plan" where
  "ds_plan_for c name =
     (if rx_matches re_ds_embed name \<or> rx_matches re_ds_head name then split_plan SplitOut [(None, 1)]
      else if rx_matches re_ds_wq_a name then split_plan SplitOut [(Some (q_lora_rank c), 1)]
      else if rx_matches re_ds_wq_b name then split_plan SplitOut [(Some (n_heads c * head_dim c), head_dim c)]
      else if rx_matches re_ds_wo_a name
      then split_plan SplitOut [(Some (o_groups c * o_lora_rank c), o_lora_rank c)]
      else if rx_matches re_ds_wo_b name
      then split_plan SplitIn [(Some (o_groups c * o_lora_rank c), o_lora_rank c)]
      else if rx_matches re_ds_idx_wq_b name
      then split_plan SplitOut [(Some (index_n_heads c * index_head_dim c), index_head_dim c)]
      else if rx_matches re_ds_idx_wproj name then split_plan SplitOut [(Some (index_n_heads c), 1)]
      else if rx_matches re_ds_mtp_wq_b name
      then split_plan SplitOut [(Some (n_heads c * head_dim c), head_dim c)]
      else if rx_matches re_ds_mtp_wo_a name
      then split_plan SplitOut [(Some (o_groups c * o_lora_rank c), o_lora_rank c)]
      else if rx_matches re_ds_mtp_wo_b name
      then split_plan SplitIn [(Some (o_groups c * o_lora_rank c), o_lora_rank c)]
      else if rx_matches re_ds_markov_w1 name \<or> rx_matches re_ds_markov_w2 name
      then split_plan SplitOut [(None, 1)]
      else (case rx_match re_ds_expert name of
              Some m \<Rightarrow> \<lparr> kind = Experts, segments = [], expert = Some (m ! 1) \<rparr>
            | None \<Rightarrow> split_plan Replicated []))"

definition ds_sharding :: "ds_cfg \<Rightarrow> nat \<Rightarrow> nat \<Rightarrow> py_error + sharding" where
  "ds_sharding cfg tp block =
     (if tp \<le> 1 then Inl ShardError
      else if list_ex (\<lambda>n. n mod tp \<noteq> 0)
                [n_heads cfg, o_groups cfg, index_n_heads cfg, n_routed_experts cfg]
      then Inl ShardError
      else Inr \<lparr> sh_tp = tp, sh_block = block, sh_plan = ds_plan_for cfg, sh_experts = n_routed_experts cfg \<rparr>)"

section \<open>Well-formed plans\<close>

text \<open>
  The shape of a plan the slicing relies on: a column split has one segment of known size; a row split
  has segments of known sizes, or, for a vocabulary, one segment of a size that is taken from the
  tensor; only an expert plan names an expert.  What the segments of a plan are is stated in \<open>TpHeads\<close>.
\<close>

definition plan_ok :: "tensor_plan \<Rightarrow> bool" where
  "plan_ok p = (case kind p of
     Replicated \<Rightarrow> segments p = [] \<and> expert p = None
   | Experts \<Rightarrow> segments p = [] \<and> expert p \<noteq> None
   | SplitIn \<Rightarrow> length (segments p) = 1 \<and> list_all (\<lambda>(n, _). n \<noteq> None) (segments p) \<and> expert p = None
   | SplitOut \<Rightarrow> (segments p = [(None, 1)] \<or> segments p \<noteq> [] \<and> list_all (\<lambda>(n, _). n \<noteq> None) (segments p)) \<and>
                 expert p = None)"

lemma plan_ok_split:
  "plan_ok (split_plan SplitOut [(None, Suc 0)])"
  "plan_ok (split_plan SplitOut ((Some n, u) # ss)) \<longleftrightarrow> list_all (\<lambda>(n, _). n \<noteq> None) ss"
  "plan_ok (split_plan SplitIn [(Some n, u)])"
  "plan_ok (split_plan Replicated [])"
  "plan_ok \<lparr> kind = Experts, segments = [], expert = Some e \<rparr>"
  by (auto simp: plan_ok_def split_plan_def)

lemma qwen_plan_ok: "plan_ok (qwen_plan_for c name)"
  unfolding qwen_plan_for_def Let_def
  by (intro if_split [where P = plan_ok, THEN iffD2] conjI impI) (simp_all add: plan_ok_split split: option.split)

lemma ds_plan_ok: "plan_ok (ds_plan_for c name)"
  unfolding ds_plan_for_def Let_def
  by (intro if_split [where P = plan_ok, THEN iffD2] conjI impI) (simp_all add: plan_ok_split split: option.split)

text \<open>Every segment of a plan divides into one whole number of units per rank.\<close>

definition splits_evenly :: "nat \<Rightarrow> tensor_plan \<Rightarrow> bool" where
  "splits_evenly tp p = list_all (\<lambda>(n, u). case n of None \<Rightarrow> True
     | Some n \<Rightarrow> n mod tp = 0 \<and> (0 < u \<longrightarrow> n div tp mod u = 0)) (segments p)"

lemma heads_split:
  fixes h d tp :: nat
  assumes "h mod tp = 0" "0 < tp"
  shows "(h * d) mod tp = 0" "h * d div tp mod d = 0"
proof -
  obtain k where h: "h = tp * k" using mod_0_imp_dvd [OF assms(1)] by (rule dvdE)
  show "(h * d) mod tp = 0" using h by (simp add: mult.assoc)
  show "h * d div tp mod d = 0" using h assms(2) by (simp add: mult.assoc)
qed

lemma splits_evenly_simps:
  "splits_evenly tp (split_plan k []) = True"
  "splits_evenly tp (split_plan k ((None, u) # ss)) = splits_evenly tp (split_plan k ss)"
  "splits_evenly tp (split_plan k ((Some n, u) # ss)) \<longleftrightarrow>
     n mod tp = 0 \<and> (0 < u \<longrightarrow> n div tp mod u = 0) \<and> splits_evenly tp (split_plan k ss)"
  "splits_evenly tp \<lparr> kind = Experts, segments = [], expert = e \<rparr>"
  by (auto simp: splits_evenly_def split_plan_def)

text \<open>
  A configuration the constructors accept can be sharded.  Each segment of each Qwen tensor, and
  of each DeepSeek tensor whose low-rank query dimension is also a multiple of the rank count,
  divides over the ranks in whole heads, groups or rows.
\<close>

theorem accepted_config_splits:
  assumes "qwen_sharding cq tp bq = Inr q" "ds_sharding cd tp bd = Inr d" "q_lora_rank cd mod tp = 0"
  shows "splits_evenly tp (sh_plan q name) \<and> splits_evenly tp (sh_plan d name)"
proof
  have tp: "0 < tp" using assms(1) by (auto simp: qwen_sharding_def split: if_splits)
  have plans: "sh_plan q = qwen_plan_for cq" "sh_plan d = ds_plan_for cd"
    using assms(1,2) by (auto simp: qwen_sharding_def ds_sharding_def split: if_splits)
  have q: "attn_heads cq mod tp = 0" "attn_kv_heads cq mod tp = 0" "lin_k_heads cq mod tp = 0" "lin_v_heads cq mod tp = 0"
    using assms(1) by (auto simp: qwen_sharding_def split: if_splits)
  have d: "n_heads cd mod tp = 0" "o_groups cd mod tp = 0" "index_n_heads cd mod tp = 0"
    using assms(2) by (auto simp: ds_sharding_def split: if_splits)
  note even = splits_evenly_simps heads_split [OF _ tp] mult.assoc
  show "splits_evenly tp (sh_plan q name)"
    unfolding plans qwen_plan_for_def Let_def
    by (intro if_split [where P = "splits_evenly tp", THEN iffD2] conjI impI)
      (simp_all add: even q split: option.split)
  show "splits_evenly tp (sh_plan d name)"
    unfolding plans ds_plan_for_def Let_def
    by (intro if_split [where P = "splits_evenly tp", THEN iffD2] conjI impI)
      (simp_all add: even d assms(3) split: option.split)
qed

definition qwen_tiny :: qwen_cfg where
  "qwen_tiny = \<lparr> attn_heads = 4, attn_kv_heads = 2, attn_head_dim = 8, lin_k_heads = 2, lin_v_heads = 4,
     lin_k_dim = 4, lin_v_dim = 8, n_experts = 6 \<rparr>"

definition ds_tiny :: ds_cfg where
  "ds_tiny = \<lparr> n_heads = 4, head_dim = 8, o_groups = 2, o_lora_rank = 16, q_lora_rank = 32,
     index_n_heads = 2, index_head_dim = 8, n_routed_experts = 6 \<rparr>"

definition sharding_of :: "py_error + sharding \<Rightarrow> sharding" where
  "sharding_of m = (case m of Inr s \<Rightarrow> s | Inl _ \<Rightarrow> \<lparr> sh_tp = 0, sh_block = 0, sh_plan = \<lambda>_. split_plan Replicated [], sh_experts = 0 \<rparr>)"

lemma tiny_shardings:
  "qwen_sharding qwen_tiny 2 b = Inr (sharding_of (qwen_sharding qwen_tiny 2 b))"
  "ds_sharding ds_tiny 2 b = Inr (sharding_of (ds_sharding ds_tiny 2 b))"
  by (simp_all add: qwen_sharding_def ds_sharding_def qwen_tiny_def ds_tiny_def sharding_of_def)

theorem accepted_config_splits_witness:
  "splits_evenly 2 (sh_plan (sharding_of (qwen_sharding qwen_tiny 2 128))
     (lit ''model.language_model.layers.1.self_attn.q_proj.weight'')) \<and>
   splits_evenly 2 (sh_plan (sharding_of (ds_sharding ds_tiny 2 128))
     (lit ''model.language_model.layers.1.self_attn.q_proj.weight''))"
  by (rule accepted_config_splits [OF tiny_shardings]) (simp add: ds_tiny_def)

section \<open>Expert names\<close>

definition qwen_expert_name :: "nat \<Rightarrow> nat \<Rightarrow> pystr \<Rightarrow> pystr" where
  "qwen_expert_name layer e w = lit ''model.language_model.layers.'' @ int_str (int layer) @
     lit ''.mlp.experts.'' @ int_str (int e) @ lit ''.'' @ w @ lit ''_proj.weight''"

definition ds_expert_name :: "nat \<Rightarrow> nat \<Rightarrow> pystr \<Rightarrow> pystr" where
  "ds_expert_name layer e w = lit ''layers.'' @ int_str (int layer) @
     lit ''.ffn.experts.'' @ int_str (int e) @ lit ''.w'' @ w @ lit ''.weight''"

lemma digits_rev_digits: "0 \<le> n \<Longrightarrow> list_all is_digit (digits_rev n)"
proof (induction n rule: digits_rev.induct)
  case (1 n)
  then have "0 \<le> n div 10" by simp
  with 1 show ?case by (subst digits_rev.simps) (auto simp: list_all_iff is_digit_def)
qed

lemma digits_value_append: "digits_value (xs @ [c]) = 10 * digits_value xs + nat (c - 48)"
  by (simp add: digits_value_def)

lemma digits_value_rev: "0 \<le> n \<Longrightarrow> digits_value (rev (digits_rev n)) = nat n"
proof (induction n rule: digits_rev.induct)
  case (1 n)
  show ?case
  proof (cases "n < 10")
    case True
    with 1 show ?thesis by (subst digits_rev.simps) (simp add: digits_value_def)
  next
    case False
    have pos: "0 \<le> n div 10" using 1 by simp
    have "digits_value (rev (digits_rev n)) = 10 * nat (n div 10) + nat (n mod 10)"
      using 1 False pos by (subst digits_rev.simps) (simp add: digits_value_append)
    also have "\<dots> = nat (10 * (n div 10) + n mod 10)"
      by (subst nat_add_distrib) (use pos in \<open>simp_all add: nat_mult_distrib\<close>)
    finally show ?thesis by simp
  qed
qed

lemma int_str_digits:
  "list_all is_digit (int_str (int n))" "int_str (int n) \<noteq> []" "digits_value (int_str (int n)) = n"
proof -
  show "list_all is_digit (int_str (int n))" using digits_rev_digits [of "int n"] by (simp add: int_str_def list_all_iff)
  show "int_str (int n) \<noteq> []" by (simp add: int_str_def) (subst digits_rev.simps, simp)
  show "digits_value (int_str (int n)) = n" using digits_value_rev [of "int n"] by (simp add: int_str_def)
qed

lemma rx_match_Lit: "rx_match (Lit p # r) (p @ s) = rx_match r s"
  by simp

lemma rx_match_Num:
  assumes "s \<noteq> []" "\<not> is_digit (hd s)"
  shows "rx_match (Num # r) (int_str (int n) @ s) = map_option ((#) n) (rx_match r s)"
proof -
  have d: "\<forall>c \<in> set (int_str (int n)). is_digit c" using int_str_digits(1) by (simp add: list_all_iff)
  have s: "takeWhile is_digit s = []" "dropWhile is_digit s = s" using assms by (cases s; simp)+
  show ?thesis
    using d int_str_digits(2,3) [of n] by (simp add: takeWhile_append dropWhile_append s)
qed

lemma layer_expert_match:
  "p \<noteq> [] \<Longrightarrow> \<not> is_digit (hd p) \<Longrightarrow> q \<noteq> [] \<Longrightarrow> \<not> is_digit (hd q) \<Longrightarrow>
   rx_match (Lit a # Num # Lit p # Num # Lit q # r) (a @ int_str (int l) @ p @ int_str (int e) @ q @ t) =
     map_option (\<lambda>ns. l # e # ns) (rx_match r t)"
  by (simp only: rx_match_Lit rx_match_Num append_is_Nil_conv hd_append2 option.map_comp o_def simp_thms)

lemma starts_with_Cons [simp]:
  "starts_with [] s" "starts_with (c # p) [] = False" "starts_with (c # p) (d # s) \<longleftrightarrow> c = d \<and> starts_with p s"
  by (auto simp: starts_with_def)

lemma layer_match:
  "s \<noteq> [] \<Longrightarrow> \<not> is_digit (hd s) \<Longrightarrow>
   rx_match (Lit a # Num # r) (a @ int_str (int l) @ s) = map_option ((#) l) (rx_match r s)"
  by (subst rx_match_Lit, rule rx_match_Num)

lemma qwen_expert_planned:
  assumes "w \<in> {lit ''gate'', lit ''up'', lit ''down''}"
  shows "qwen_plan_for c (qwen_expert_name l e w) = \<lparr> kind = Experts, segments = [], expert = Some e \<rparr>"
proof -
  let ?s = "lit ''.mlp.experts.'' @ int_str (int e) @ lit ''.'' @ w @ lit ''_proj.weight''"
  have name: "qwen_expert_name l e w = lit ''model.language_model.layers.'' @ int_str (int l) @ ?s"
    by (simp add: qwen_expert_name_def)
  have s: "?s \<noteq> []" "\<not> is_digit (hd ?s)" by (simp_all add: lit_def is_digit_def)
  have layer: "rx_match (qwen_layer r) (qwen_expert_name l e w) = map_option ((#) l) (rx_match r ?s)" for r
    unfolding qwen_layer_def name append_Cons append_Nil by (rule layer_match [OF s])
  have top: "rx_match re_embed (qwen_expert_name l e w) = None" "rx_match re_lm_head (qwen_expert_name l e w) = None"
    by (simp_all add: name re_embed_def re_lm_head_def lit_def)
  have att: "rx_match (Lit (lit (CHR ''.'' # CHR ''s'' # p)) # r) ?s = None"
    "rx_match (Lit (lit (CHR ''.'' # CHR ''l'' # p)) # r) ?s = None" for p r
    by (simp_all add: lit_def)
  have ex: "rx_match re_expert (qwen_expert_name l e w) = Some [l, e]"
  proof -
    have "rx_match [Lit (lit ''.mlp.experts.''), Num, Lit (lit ''.''), Alt [lit ''gate'', lit ''up'', lit ''down''], Lit (lit ''_proj.weight'')] ?s
      = map_option ((#) e) (rx_match [Lit (lit ''.''), Alt [lit ''gate'', lit ''up'', lit ''down''], Lit (lit ''_proj.weight'')]
          (lit ''.'' @ w @ lit ''_proj.weight''))"
      by (subst rx_match_Lit, subst rx_match_Num) (simp_all add: lit_def is_digit_def)
    also have "rx_match [Lit (lit ''.''), Alt [lit ''gate'', lit ''up'', lit ''down''], Lit (lit ''_proj.weight'')]
          (lit ''.'' @ w @ lit ''_proj.weight'') = Some []"
      using assms by (auto simp: lit_def)
    finally show ?thesis by (simp add: re_expert_def layer)
  qed
  have none: "rx_match re_q (qwen_expert_name l e w) = None" "rx_match re_kv (qwen_expert_name l e w) = None"
    "rx_match re_o (qwen_expert_name l e w) = None" "rx_match re_gdn_qkv (qwen_expert_name l e w) = None"
    "rx_match re_gdn_z (qwen_expert_name l e w) = None" "rx_match re_gdn_ba (qwen_expert_name l e w) = None"
    "rx_match re_gdn_conv (qwen_expert_name l e w) = None" "rx_match re_gdn_dt (qwen_expert_name l e w) = None"
    "rx_match re_gdn_out (qwen_expert_name l e w) = None"
    by (simp_all only: re_q_def re_kv_def re_o_def re_gdn_qkv_def re_gdn_z_def re_gdn_ba_def
        re_gdn_conv_def re_gdn_dt_def re_gdn_out_def layer att option.map)
  show ?thesis
    by (simp add: qwen_plan_for_def top ex none)
qed

lemma ds_expert_planned:
  assumes "w \<in> {lit ''1'', lit ''2'', lit ''3''}"
  shows "ds_plan_for c (ds_expert_name l e w) = \<lparr> kind = Experts, segments = [], expert = Some e \<rparr>"
proof -
  let ?s = "lit ''.ffn.experts.'' @ int_str (int e) @ lit ''.w'' @ w @ lit ''.weight''"
  have name: "ds_expert_name l e w = lit ''layers.'' @ int_str (int l) @ ?s"
    by (simp add: ds_expert_name_def)
  have s: "?s \<noteq> []" "\<not> is_digit (hd ?s)" by (simp_all add: lit_def is_digit_def)
  have layer: "rx_match (ds_layer r) (ds_expert_name l e w) = map_option ((#) l) (rx_match r ?s)" for r
    unfolding ds_layer_def name append_Cons append_Nil by (rule layer_match [OF s])
  have top: "rx_match re_ds_embed (ds_expert_name l e w) = None" "rx_match re_ds_head (ds_expert_name l e w) = None"
    "rx_match (ds_mtp r) (ds_expert_name l e w) = None" for r
    by (simp_all add: name re_ds_embed_def re_ds_head_def ds_mtp_def lit_def)
  have att: "rx_match (Lit (lit (CHR ''.'' # CHR ''a'' # p)) # r) ?s = None" for p r
    by (simp_all add: lit_def)
  have ex: "rx_match re_ds_expert (ds_expert_name l e w) = Some [l, e]"
  proof -
    have "rx_match re_ds_expert (ds_expert_name l e w) =
        map_option ((#) l) (rx_match [Lit (lit ''.ffn.experts.''), Num, Lit (lit ''.w''), Alt [lit ''1'', lit ''2'', lit ''3''], Lit (lit ''.weight'')] ?s)"
      unfolding re_ds_expert_def name by (rule layer_match [OF s])
    also have "rx_match [Lit (lit ''.ffn.experts.''), Num, Lit (lit ''.w''), Alt [lit ''1'', lit ''2'', lit ''3''], Lit (lit ''.weight'')] ?s
      = map_option ((#) e) (rx_match [Lit (lit ''.w''), Alt [lit ''1'', lit ''2'', lit ''3''], Lit (lit ''.weight'')]
          (lit ''.w'' @ w @ lit ''.weight''))"
      by (rule layer_match) (simp_all add: lit_def is_digit_def)
    also have "rx_match [Lit (lit ''.w''), Alt [lit ''1'', lit ''2'', lit ''3''], Lit (lit ''.weight'')]
          (lit ''.w'' @ w @ lit ''.weight'') = Some []"
      using assms by (auto simp: lit_def)
    finally show ?thesis by simp
  qed
  have none: "rx_match re_ds_wq_a (ds_expert_name l e w) = None" "rx_match re_ds_wq_b (ds_expert_name l e w) = None"
    "rx_match re_ds_wo_a (ds_expert_name l e w) = None" "rx_match re_ds_wo_b (ds_expert_name l e w) = None"
    "rx_match re_ds_idx_wq_b (ds_expert_name l e w) = None" "rx_match re_ds_idx_wproj (ds_expert_name l e w) = None"
    by (simp_all only: re_ds_wq_a_def re_ds_wq_b_def re_ds_wo_a_def re_ds_wo_b_def re_ds_idx_wq_b_def
        re_ds_idx_wproj_def layer att option.map)
  show ?thesis
    by (simp add: ds_plan_for_def top ex none re_ds_mtp_wq_b_def re_ds_mtp_wo_a_def re_ds_mtp_wo_b_def
        re_ds_markov_w1_def re_ds_markov_w2_def)
qed

end
