(* ===== verification/Fp8.thy ===== *)
theory Fp8
  imports Prelude Complex_Main "HOL-Library.Word"
begin

unbundle bit_operations_syntax

text \<open>
  \<open>loaders/fp8.py\<close>: decoding of the 8-bit float formats and the block-wise dequantisation of
  weights.  A decoded value is not-a-number, an infinity or an exact rational (a zero carries no
  sign); the multiplication of two float32 values, which rounds once, is the parameter
  \<open>fmul\<close>.  A matrix is its column count and its rows; further axes of a tensor are flattened
  into the row.
\<close>

section \<open>Matrices\<close>

record 'a mat =
  m_cols :: nat
  m_rows :: "'a list list"

definition mat_ok :: "'a mat \<Rightarrow> bool" where
  "mat_ok m \<longleftrightarrow> list_all (\<lambda>r. length r = m_cols m) (m_rows m)"

definition n_rows :: "'a mat \<Rightarrow> nat" where
  "n_rows m = length (m_rows m)"

definition shape :: "'a mat \<Rightarrow> nat \<times> nat" where
  "shape m = (n_rows m, m_cols m)"

text \<open>\<open>m[b:e]\<close> and \<open>m[:, b:e]\<close>\<close>

definition slice :: "nat \<Rightarrow> nat \<Rightarrow> 'a list \<Rightarrow> 'a list" where
  "slice b e xs = take (e - b) (drop b xs)"

definition slice_rows :: "'a mat \<Rightarrow> nat \<Rightarrow> nat \<Rightarrow> 'a mat" where
  "slice_rows m b e = m\<lparr> m_rows := slice b e (m_rows m) \<rparr>"

definition slice_cols :: "'a mat \<Rightarrow> nat \<Rightarrow> nat \<Rightarrow> 'a mat" where
  "slice_cols m b e = \<lparr> m_cols = min e (m_cols m) - b, m_rows = map (slice b e) (m_rows m) \<rparr>"

text \<open>\<open>np.concatenate\<close> along the two axes.\<close>

definition concat_rows :: "'a mat list \<Rightarrow> py_error + 'a mat" where
  "concat_rows ms =
     (case ms of [] \<Rightarrow> Inl ValueError
      | m # _ \<Rightarrow>
          if list_all (\<lambda>x. m_cols x = m_cols m) ms
          then Inr \<lparr> m_cols = m_cols m, m_rows = concat (map m_rows ms) \<rparr>
          else Inl ValueError)"

definition concat_cols :: "'a mat list \<Rightarrow> py_error + 'a mat" where
  "concat_cols ms =
     (case ms of [] \<Rightarrow> Inl ValueError
      | m # _ \<Rightarrow>
          if list_all (\<lambda>x. n_rows x = n_rows m) ms
          then Inr \<lparr> m_cols = sum_list (map m_cols ms),
                     m_rows = map (\<lambda>i. concat (map (\<lambda>x. m_rows x ! i) ms)) [0..<n_rows m] \<rparr>
          else Inl ValueError)"

section \<open>Formats\<close>

datatype f32 = NaN | Inf bool | Fin rat

definition pow2 :: "int \<Rightarrow> rat" where
  "pow2 k = (if k \<ge> 0 then 2 ^ nat k else 1 / 2 ^ nat (- k))"

text \<open>The multiplication by \<open>pos\<close>, which is 1 or -1.\<close>

definition signed :: "bool \<Rightarrow> f32 \<Rightarrow> f32" where
  "signed neg v = (case v of NaN \<Rightarrow> NaN | Inf s \<Rightarrow> Inf (s \<noteq> neg) | Fin x \<Rightarrow> Fin (if neg then - x else x))"

definition decode_e4m3fn :: "8 word \<Rightarrow> f32" where
  "decode_e4m3fn byte =
     (let u = ucast byte :: 16 word;
          sign = drop_bit 7 u AND 1;
          expo = drop_bit 3 u AND 0xF;
          mant = u AND 0x7
      in signed (sign \<noteq> 0)
           (if expo = 0 then Fin (of_nat (unat mant) * pow2 (1 - 7 - 3))
            else if expo = 15 \<and> mant = 7 then NaN
            else Fin ((1 + of_nat (unat mant) / 8) * pow2 (int (unat expo) - 7))))"

definition decode_e5m2 :: "8 word \<Rightarrow> f32" where
  "decode_e5m2 byte =
     (let u = ucast byte :: 16 word;
          sign = drop_bit 7 u AND 1;
          expo = drop_bit 2 u AND 0x1F;
          mant = u AND 0x3
      in signed (sign \<noteq> 0)
           (if expo = 0 then Fin (of_nat (unat mant) * pow2 (-16))
            else if expo = 31 \<and> mant = 0 then Inf False
            else if expo = 31 then NaN
            else Fin ((1 + of_nat (unat mant) / 4) * pow2 (int (unat expo) - 15))))"

definition decode_ue8m0 :: "8 word \<Rightarrow> f32" where
  "decode_ue8m0 u =
     (if u = 0x00 then Fin 0 else if u = 0xFF then NaN else Fin (pow2 (int (unat u) - 127)))"

text \<open>\<open>u16.astype(np.uint32) << 16\<close>: the bit pattern of the float32.\<close>

definition decode_bf16 :: "16 word \<Rightarrow> 32 word" where
  "decode_bf16 u = push_bit 16 (ucast u)"

definition FP4_TABLE :: "rat list" where
  "FP4_TABLE = [0, 1/2, 1, 3/2, 2, 3, 4, 6, 0, -1/2, -1, -3/2, -2, -3, -4, -6]"

section \<open>Block dequantisation\<close>

text \<open>\<open>np.repeat(np.arange(n), b)[:h]\<close>: the block index of every row or column.\<close>

definition block_index :: "nat \<Rightarrow> nat \<Rightarrow> nat \<Rightarrow> nat list" where
  "block_index n b h = take h (concat (map (\<lambda>i. replicate b i) [0..<n]))"

definition cdiv :: "nat \<Rightarrow> nat \<Rightarrow> nat" where
  "cdiv a b = (a + b - 1) div b"

text \<open>\<open>(f * scale[rows][:, cols])\<close>\<close>

definition scale_by_index ::
  "(f32 \<Rightarrow> f32 \<Rightarrow> f32) \<Rightarrow> nat list \<Rightarrow> nat list \<Rightarrow> f32 mat \<Rightarrow> f32 mat \<Rightarrow> f32 mat" where
  "scale_by_index fmul rows cols f s =
     \<lparr> m_cols = m_cols f,
       m_rows = map (\<lambda>(i, r). map (\<lambda>(j, x). fmul x (m_rows s ! i ! j)) (zip cols r)) (zip rows (m_rows f)) \<rparr>"

definition map_mat :: "('a \<Rightarrow> 'b) \<Rightarrow> 'a mat \<Rightarrow> 'b mat" where
  "map_mat g m = \<lparr> m_cols = m_cols m, m_rows = map (map g) (m_rows m) \<rparr>"

definition dequant_weight_blocked ::
  "(f32 \<Rightarrow> f32 \<Rightarrow> f32) \<Rightarrow> nat \<Rightarrow> nat \<Rightarrow> 8 word mat \<Rightarrow> f32 mat \<Rightarrow> py_error + f32 mat" where
  "dequant_weight_blocked fmul block_h block_w fp8 scale_inv =
     (let (h, w) = shape fp8
      in if shape scale_inv \<noteq> (cdiv h block_h, cdiv w block_w) then Inl ValueError
         else let f = map_mat decode_e4m3fn fp8;
                  nrow_b = h div block_h + (if h mod block_h \<noteq> 0 then 1 else 0);
                  ncol_b = w div block_w + (if w mod block_w \<noteq> 0 then 1 else 0)
              in Inr (scale_by_index fmul (block_index nrow_b block_h h) (block_index ncol_b block_w w)
                        f scale_inv))"

text \<open>The double loop the tests compare with.\<close>

definition dequant_weight_blocked_loop ::
  "(f32 \<Rightarrow> f32 \<Rightarrow> f32) \<Rightarrow> nat \<Rightarrow> nat \<Rightarrow> 8 word mat \<Rightarrow> f32 mat \<Rightarrow> f32 mat" where
  "dequant_weight_blocked_loop fmul block_h block_w fp8 scale_inv =
     (let (h, w) = shape fp8
      in \<lparr> m_cols = w,
           m_rows = map (\<lambda>i. map (\<lambda>j. fmul (decode_e4m3fn (m_rows fp8 ! i ! j))
                                          (m_rows scale_inv ! (i div block_h) ! (j div block_w)))
                                [0..<w]) [0..<h] \<rparr>)"

definition dequant_fp8_mxfp_weight ::
  "(f32 \<Rightarrow> f32 \<Rightarrow> f32) \<Rightarrow> nat \<times> nat \<Rightarrow> 8 word mat \<Rightarrow> 8 word mat \<Rightarrow> py_error + f32 mat" where
  "dequant_fp8_mxfp_weight fmul block fp8 scale_u8 =
     (let scale = map_mat decode_ue8m0 scale_u8;
          (bh, bw) = block;
          (h, w) = shape fp8
      in if shape scale \<noteq> (cdiv h bh, cdiv w bw) then Inl ValueError
         else Inr (scale_by_index fmul (block_index (n_rows scale) bh h) (block_index (m_cols scale) bw w)
                     (map_mat decode_e4m3fn fp8) scale))"

text \<open>Each packed byte is the low nibble, then the high one.\<close>

definition unpack_fp4 :: "8 word \<Rightarrow> f32 list" where
  "unpack_fp4 p = [Fin (FP4_TABLE ! unat (p AND 0x0F)), Fin (FP4_TABLE ! unat (drop_bit 4 p AND 0x0F))]"

definition dequant_fp4_packed_weight ::
  "(f32 \<Rightarrow> f32 \<Rightarrow> f32) \<Rightarrow> nat \<Rightarrow> 8 word mat \<Rightarrow> 8 word mat \<Rightarrow> py_error + f32 mat" where
  "dequant_fp4_packed_weight fmul block_w packed scale_u8 =
     (let (n, khalf) = shape packed;
          w = \<lparr> m_cols = khalf * 2, m_rows = map (\<lambda>r. concat (map unpack_fp4 r)) (m_rows packed) \<rparr>;
          scale = map_mat decode_ue8m0 scale_u8
      in if shape scale \<noteq> (n, cdiv (m_cols w) block_w) then Inl ValueError
         else Inr (scale_by_index fmul [0..<n] (block_index (m_cols scale) block_w (m_cols w)) w scale))"

text \<open>
  A scale tensor is E8M0 bytes, float32 values, or the undecoded halves of a BF16 scale, which
  \<open>dequant_weight_blocked\<close> refuses.
\<close>

datatype scale = E8M0 "8 word mat" | F32 "f32 mat" | U16 "16 word mat"

text \<open>The weight is stored as bytes; the two float32 branches of the code make the same call.\<close>

definition dequant_weight_auto ::
  "(f32 \<Rightarrow> f32 \<Rightarrow> f32) \<Rightarrow> nat \<times> nat \<Rightarrow> nat \<Rightarrow> 8 word mat \<Rightarrow> scale \<Rightarrow> py_error + f32 mat" where
  "dequant_weight_auto fmul block fp4_block_w weight s =
     (case s of
        E8M0 u \<Rightarrow>
          (let rows = n_rows weight; k = m_cols weight * 2
           in if n_rows u = rows \<and> m_cols u = cdiv k fp4_block_w
              then dequant_fp4_packed_weight fmul fp4_block_w weight u
              else if n_rows u = cdiv rows (fst block) then dequant_fp8_mxfp_weight fmul block weight u
              else Inl ValueError)
      | F32 f \<Rightarrow> dequant_weight_blocked fmul (fst block) (snd block) weight f
      | U16 _ \<Rightarrow> Inl ValueError)"

section \<open>The blocks\<close>

lemma concat_replicate_div:
  assumes "0 < b"
  shows "concat (map (\<lambda>i. replicate b i) [0..<n]) = map (\<lambda>i. i div b) [0..<n * b]"
proof (induction n)
  case (Suc n)
  have "map (\<lambda>i. i div b) [n * b..<n * b + b] = replicate b n"
    by (rule nth_equalityI) (use assms in auto)
  moreover have "[0..<n * b + b] = [0..<n * b] @ [n * b..<n * b + b]"
    by (rule upt_add_eq_append) simp
  ultimately show ?case
    using Suc by (simp add: add.commute)
qed simp

lemma block_index_nth:
  assumes "0 < b" "h \<le> n * b"
  shows "block_index n b h = map (\<lambda>i. i div b) [0..<h]"
  using assms by (simp add: block_index_def concat_replicate_div take_map)

lemma cdiv_covers: "0 < b \<Longrightarrow> h \<le> cdiv h b * b"
proof -
  assume b: "0 < b"
  have "h + b - 1 < (cdiv h b + 1) * b"
    using b dividend_less_times_div [of b "h + b - 1"] by (simp add: cdiv_def algebra_simps)
  then show ?thesis using b by (simp add: algebra_simps)
qed

lemma block_index_cdiv: "0 < b \<Longrightarrow> block_index (cdiv h b) b h = map (\<lambda>i. i div b) [0..<h]"
  by (rule block_index_nth) (simp_all add: cdiv_covers)

lemma cdiv_split: "0 < b \<Longrightarrow> h div b + (if h mod b \<noteq> 0 then 1 else 0) = cdiv h b"
proof -
  assume b: "0 < b"
  have h: "h = h div b * b + h mod b" by simp
  show ?thesis
  proof (cases "h mod b = 0")
    case True
    have "(h div b * b + (b - 1)) div b = h div b"
      using b by (subst div_mult_self3) auto
    moreover have "h + b - 1 = h div b * b + (b - 1)" using True h b by linarith
    ultimately show ?thesis using True by (simp only: cdiv_def) simp
  next
    case False
    have lt: "h mod b < b" using b by simp
    have "(h div b + 1) * b + (h mod b - 1) = h + b - 1"
      using False h unfolding add_mult_distrib mult_1 by linarith
    moreover have "(h mod b - 1) div b = 0"
      by (rule div_less, rule less_imp_diff_less, rule lt)
    moreover have "((h div b + 1) * b + (h mod b - 1)) div b = h div b + 1 + (h mod b - 1) div b"
      using b by (intro div_mult_self3) simp
    ultimately have "cdiv h b = h div b + 1" by (simp only: cdiv_def add_0_right)
    then show ?thesis using False by simp
  qed
qed

lemma scale_by_blocks:
  assumes "mat_ok f" "n_rows f = h" "m_cols f = w"
  shows "scale_by_index fmul (map (\<lambda>i. i div bh) [0..<h]) (map (\<lambda>j. j div bw) [0..<w]) f s =
    \<lparr> m_cols = w,
      m_rows = map (\<lambda>i. map (\<lambda>j. fmul (m_rows f ! i ! j) (m_rows s ! (i div bh) ! (j div bw))) [0..<w]) [0..<h] \<rparr>"
  using assms
  by (auto simp: scale_by_index_def n_rows_def mat_ok_def list_all_iff intro!: nth_equalityI)

lemma map_mat_simps [simp]:
  "m_cols (map_mat g m) = m_cols m" "n_rows (map_mat g m) = n_rows m" "shape (map_mat g m) = shape m"
  "mat_ok m \<Longrightarrow> mat_ok (map_mat g m)"
  by (auto simp: map_mat_def n_rows_def shape_def mat_ok_def list_all_iff)

lemma map_mat_nth:
  "i < n_rows m \<Longrightarrow> mat_ok m \<Longrightarrow> j < m_cols m \<Longrightarrow> m_rows (map_mat g m) ! i ! j = g (m_rows m ! i ! j)"
  by (auto simp: map_mat_def n_rows_def mat_ok_def list_all_length)

lemma scale_by_blocks_decoded:
  assumes "mat_ok fp8" "shape fp8 = (h, w)"
  shows "scale_by_index fmul (map (\<lambda>i. i div bh) [0..<h]) (map (\<lambda>j. j div bw) [0..<w])
           (map_mat decode_e4m3fn fp8) s = dequant_weight_blocked_loop fmul bh bw fp8 s"
proof -
  have hw: "n_rows fp8 = h" "m_cols fp8 = w" using assms(2) by (auto simp: shape_def)
  show ?thesis
    using assms
    by (subst scale_by_blocks) (auto simp: hw dequant_weight_blocked_loop_def map_mat_nth)
qed

lemma dequant_weight_blocked_cases:
  assumes "mat_ok fp8" "0 < bh" "0 < bw"
  shows "dequant_weight_blocked fmul bh bw fp8 s =
      (if shape s = (cdiv (n_rows fp8) bh, cdiv (m_cols fp8) bw)
       then Inr (dequant_weight_blocked_loop fmul bh bw fp8 s) else Inl ValueError)"
proof -
  obtain h w where hw: "shape fp8 = (h, w)" by fastforce
  then have n: "n_rows fp8 = h" "m_cols fp8 = w" by (auto simp: shape_def)
  show ?thesis
    unfolding dequant_weight_blocked_def Let_def hw n
    by (simp only: prod.case cdiv_split [OF assms(2)] cdiv_split [OF assms(3)]
        block_index_cdiv [OF assms(2)] block_index_cdiv [OF assms(3)]
        scale_by_blocks_decoded [OF assms(1) hw] not_not if_not_P cong: if_cong) simp
qed

text \<open>
  C24: block dequantisation by repeated indices gives the double loop it replaces, on every shape,
  whole blocks or not; a scale grid of another shape is refused.  The two formats of the scale go
  through the same arithmetic: an E8M0 grid gives the result of its decoded values.
\<close>

theorem dequant_matches_loop:
  assumes "mat_ok fp8" "0 < bh" "0 < bw"
  shows "dequant_weight_blocked fmul bh bw fp8 s =
           (if shape s = (cdiv (n_rows fp8) bh, cdiv (m_cols fp8) bw)
            then Inr (dequant_weight_blocked_loop fmul bh bw fp8 s) else Inl ValueError) \<and>
         dequant_fp8_mxfp_weight fmul (bh, bw) fp8 u =
           dequant_weight_blocked fmul bh bw fp8 (map_mat decode_ue8m0 u)"
proof -
  obtain h w where hw: "shape fp8 = (h, w)" by fastforce
  then have n: "n_rows fp8 = h" "m_cols fp8 = w" by (auto simp: shape_def)
  note blocked = dequant_weight_blocked_cases [OF assms]
  show ?thesis
  proof (cases "shape u = (cdiv h bh, cdiv w bw)")
    case True
    then have "n_rows u = cdiv h bh" "m_cols u = cdiv w bw" by (auto simp: shape_def)
    then show ?thesis
      using True
      by (simp add: dequant_fp8_mxfp_weight_def Let_def hw blocked n block_index_cdiv assms(2,3)
          scale_by_blocks_decoded [OF assms(1) hw])
  next
    case False
    then show ?thesis
      by (simp add: dequant_fp8_mxfp_weight_def Let_def hw blocked n)
  qed
qed

theorem dequant_matches_loop_witness:
  "let w = \<lparr> m_cols = 3, m_rows = [[0x38, 0x40, 0x7E], [0xB8, 0x01, 0x00]] \<rparr>;
       s = \<lparr> m_cols = 2, m_rows = [[Fin 2, Fin 3]] \<rparr>;
       mul = (\<lambda>x y. case (x, y) of (Fin a, Fin b) \<Rightarrow> Fin (a * b) | _ \<Rightarrow> NaN)
   in dequant_weight_blocked mul 2 2 w s =
        Inr \<lparr> m_cols = 3, m_rows = [[Fin 2, Fin 4, Fin 1344], [Fin (-2), Fin (1 / 256), Fin 0]] \<rparr>"
proof -
  let ?w = "\<lparr> m_cols = 3, m_rows = [[0x38, 0x40, 0x7E], [0xB8, 0x01, 0x00]] \<rparr> :: 8 word mat"
  let ?s = "\<lparr> m_cols = 2, m_rows = [[Fin 2, Fin 3]] \<rparr>"
  let ?mul = "\<lambda>x y. case (x, y) of (Fin a, Fin b) \<Rightarrow> Fin (a * b) | _ \<Rightarrow> NaN"
  have ok: "mat_ok ?w" by code_simp
  have "dequant_weight_blocked ?mul 2 2 ?w ?s =
      (if shape ?s = (cdiv (n_rows ?w) 2, cdiv (m_cols ?w) 2)
       then Inr (dequant_weight_blocked_loop ?mul 2 2 ?w ?s) else Inl ValueError)"
    by (rule conjunct1 [OF dequant_matches_loop [OF ok]]) simp_all
  also have "\<dots> = Inr \<lparr> m_cols = 3, m_rows = [[Fin 2, Fin 4, Fin 1344], [Fin (-2), Fin (1 / 256), Fin 0]] \<rparr>"
    by code_simp
  finally show ?thesis by (simp add: Let_def)
qed

section \<open>The values of the formats\<close>

text \<open>A statement about every byte is checked byte by byte.\<close>

lemma all_bytes:
  assumes "list_all (\<lambda>n. P (word_of_int n :: 8 word)) [0..255]"
  shows "P b"
proof -
  have "0 \<le> uint b" "uint b < 256" using unsigned_less [of b] by simp_all
  then have "uint b \<in> set [0..255]" by simp
  then have "P (word_of_int (uint b))" using assms unfolding list_all_iff by blast
  then show ?thesis by simp
qed

text \<open>The value of a byte in units of the smallest step, 1/512.\<close>

definition e4m3_units :: "8 word \<Rightarrow> int" where
  "e4m3_units b =
     (let n = uint b mod 128; e = n div 8; m = n mod 8;
          v = (if e = 0 then m else (8 + m) * 2 ^ nat (e - 1))
      in if 128 \<le> uint b then - v else v)"

lemma byte_fields:
  "uint (drop_bit 7 (ucast b :: 16 word) AND 1) = uint b div 128"
  "uint (drop_bit 3 (ucast b :: 16 word) AND 0xF) = uint b mod 128 div 8"
  "uint ((ucast b :: 16 word) AND 7) = uint b mod 8"
  for b :: "8 word"
proof -
  let ?P = "\<lambda>b :: 8 word. uint (drop_bit 7 (ucast b :: 16 word) AND 1) = uint b div 128 \<and>
    uint (drop_bit 3 (ucast b :: 16 word) AND 0xF) = uint b mod 128 div 8 \<and>
    uint ((ucast b :: 16 word) AND 7) = uint b mod 8"
  have "?P b" by (rule all_bytes) code_simp
  then show "uint (drop_bit 7 (ucast b :: 16 word) AND 1) = uint b div 128"
    "uint (drop_bit 3 (ucast b :: 16 word) AND 0xF) = uint b mod 128 div 8"
    "uint ((ucast b :: 16 word) AND 7) = uint b mod 8"
    by blast+
qed

lemma e4m3_units_bound: "uint b mod 128 \<noteq> 127 \<longrightarrow> \<bar>e4m3_units b\<bar> \<le> 448 * 512"
  by (rule all_bytes) code_simp

lemma e4m3_units_sorted: "sorted_wrt (<) (map (\<lambda>n. e4m3_units (word_of_int n)) [0..126])"
proof -
  have "successively (<) (map (\<lambda>n. e4m3_units (word_of_int n)) [0..126])" by code_simp
  then show ?thesis by (simp only: successively_conv_sorted_wrt transp_on_less)
qed

lemma pow2_units: "pow2 (e - 7) * 8 = 2 ^ nat (e - 1) / 8" if "0 < e"
proof (cases "e < 7")
  case True
  then have "e = 1 \<or> e = 2 \<or> e = 3 \<or> e = 4 \<or> e = 5 \<or> e = 6" using that by linarith
  then show ?thesis by (elim disjE) (simp_all add: pow2_def)
next
  case False
  then have "nat (e - 1) = nat (e - 7) + 6" by simp
  then show ?thesis using False by (simp add: pow2_def power_add)
qed

lemma top_byte:
  "n div 8 = 15 \<and> n mod 8 = 7 \<longleftrightarrow> n = 127" if "0 \<le> n" "n < 128" for n :: int
  using that by presburger

lemma top_bit: "n div 128 \<noteq> 0 \<longleftrightarrow> 128 \<le> n" if "0 \<le> n" for n :: int
  using that pos_imp_zdiv_pos_iff [of 128 n] pos_imp_zdiv_nonneg_iff [of 128 n] by linarith

lemma decode_e4m3fn_units:
  "decode_e4m3fn b = (if uint b mod 128 = 127 then NaN else Fin (of_int (e4m3_units b) / 512))"
proof -
  let ?e = "uint b mod 128 div 8" and ?m = "uint b mod 8"
  have m: "uint b mod 128 mod 8 = ?m" by (simp add: mod_mod_cancel)
  have nan: "?e = 15 \<and> ?m = 7 \<longleftrightarrow> uint b mod 128 = 127"
    using top_byte [of "uint b mod 128"] unfolding m by simp
  have sgn: "drop_bit 7 (ucast b :: 16 word) AND 1 \<noteq> 0 \<longleftrightarrow> 128 \<le> uint b"
    using top_bit [of "uint b"] by (simp only: word_uint_eq_iff byte_fields uint_0_eq) simp
  have fields: "drop_bit 3 (ucast b :: 16 word) AND 0xF = 0 \<longleftrightarrow> ?e = 0"
    "drop_bit 3 (ucast b :: 16 word) AND 0xF = 15 \<longleftrightarrow> ?e = 15"
    "(ucast b :: 16 word) AND 7 = 7 \<longleftrightarrow> ?m = 7"
    using byte_fields(2,3) [of b] by (simp_all add: word_uint_eq_iff)
  have nats: "int (unat (drop_bit 3 (ucast b :: 16 word) AND 0xF)) = ?e"
    using byte_fields(2) [of b] by (simp only: of_nat_unat)
  have natm: "of_nat (unat ((ucast b :: 16 word) AND 7)) = (of_int ?m :: rat)"
  proof -
    have "int (unat ((ucast b :: 16 word) AND 7)) = ?m"
      using byte_fields(3) [of b] by (simp only: of_nat_unat)
    then show ?thesis by (metis of_int_of_nat_eq)
  qed
  have sub: "of_int ?m * pow2 (1 - 7 - 3) = of_int ?m / (512 :: rat)"
    by (simp add: pow2_def)
  have nrm: "(1 + of_int ?m / 8) * pow2 (?e - 7) = of_int ((8 + ?m) * 2 ^ nat (?e - 1)) / (512 :: rat)" if "?e \<noteq> 0"
  proof -
    have "0 \<le> ?e" by simp
    with that have p: "pow2 (?e - 7) = 2 ^ nat (?e - 1) / 64" using pow2_units [of ?e] by simp
    show ?thesis unfolding p by (simp add: field_simps)
  qed
  have dec: "decode_e4m3fn b = signed (128 \<le> uint b)
      (if ?e = 0 then Fin (of_int ?m / 512)
       else if uint b mod 128 = 127 then NaN else Fin ((1 + of_int ?m / 8) * pow2 (?e - 7)))"
    unfolding decode_e4m3fn_def Let_def fields sgn nats natm nan sub ..
  have units: "e4m3_units b = (if 128 \<le> uint b then - 1 else 1) *
      (if ?e = 0 then ?m else (8 + ?m) * 2 ^ nat (?e - 1))"
    by (simp add: e4m3_units_def Let_def m)
  show ?thesis
  proof (cases "?e = 0")
    case True
    then have "uint b mod 128 \<noteq> 127" using nan by linarith
    then show ?thesis unfolding dec units signed_def using True by simp
  next
    case False
    show ?thesis unfolding dec units signed_def nrm [OF False] if_not_P [OF False] by simp
  qed
qed

text \<open>
  An E4M3FN byte decodes to not-a-number exactly when its seven low bits are all set, never
  to an infinity, and otherwise to a multiple of 1/512 between -448 and 448.
\<close>

lemma e4m3fn_range:
  "case decode_e4m3fn b of
     NaN \<Rightarrow> uint b mod 128 = 127
   | Inf _ \<Rightarrow> False
   | Fin x \<Rightarrow> uint b mod 128 \<noteq> 127 \<and> \<bar>x\<bar> \<le> 448 \<and> x * 512 \<in> \<int>"
proof (cases "uint b mod 128 = 127")
  case False
  then have "\<bar>e4m3_units b\<bar> \<le> 448 * 512" using e4m3_units_bound [of b] by blast
  then have "(of_int \<bar>e4m3_units b\<bar> :: rat) \<le> of_int (448 * 512)" by (simp only: of_int_le_iff)
  then have "\<bar>of_int (e4m3_units b) / 512\<bar> \<le> (448 :: rat)" by simp
  moreover have "of_int (e4m3_units b) / 512 * 512 \<in> (\<int> :: rat set)" by simp
  ultimately show ?thesis
    unfolding decode_e4m3fn_units if_not_P [OF False] f32.case using False by blast
qed (simp add: decode_e4m3fn_units)

text \<open>
  The 127 positive codes are numbers between 0 and 448 in the order of the codes, so the
  comparison of two bytes is the comparison of what they stand for; setting the top bit negates the
  value.
\<close>

theorem e4m3fn_increasing:
  assumes "a < b" "b < 0x7F"
  shows "\<exists>x y. decode_e4m3fn a = Fin x \<and> decode_e4m3fn b = Fin y \<and> 0 \<le> x \<and> x < y \<and> y \<le> 448 \<and>
           decode_e4m3fn (a + 0x80) = Fin (- x) \<and> decode_e4m3fn (b + 0x80) = Fin (- y)"
proof -
  have lt: "0 \<le> uint a" "uint a < uint b" "uint b < 127"
    using assms by (simp_all add: word_less_def)
  have at: "map (\<lambda>n. e4m3_units (word_of_int n)) [0..126] ! unat c = e4m3_units c" if "unat c < 127" for c
  proof -
    have "[0..126] ! k = int k" if "k < 127" for k using that by simp
    then have "[0..126] ! unat c = int (unat c)" using that by blast
    then show ?thesis using that by (subst nth_map) simp_all
  qed
  have less: "e4m3_units a < e4m3_units b"
  proof -
    have u: "unat a < unat b" "unat b < 127" using assms by (simp_all add: word_less_nat_alt)
    have "map (\<lambda>n. e4m3_units (word_of_int n)) [0..126] ! unat a < map (\<lambda>n. e4m3_units (word_of_int n)) [0..126] ! unat b"
      by (rule sorted_wrt_nth_less [OF e4m3_units_sorted]) (use u in simp_all)
    then show ?thesis using u by (simp only: at less_trans [OF u])
  qed
  have up: "uint (c + 0x80) = uint c + 128" if "uint c < 127" for c :: "8 word"
    using that by (simp add: uint_word_ariths)
  have pos: "0 \<le> e4m3_units a" using lt by (simp add: e4m3_units_def Let_def)
  have neg: "e4m3_units (c + 0x80) = - e4m3_units c" if "uint c < 127" for c
    using that by (simp add: e4m3_units_def Let_def up)
  have small: "uint c mod 128 \<noteq> 127 \<and> uint (c + 0x80) mod 128 \<noteq> 127" if "uint c < 127" for c :: "8 word"
    using that by (simp add: up)
  have "uint a < 127" using lt by linarith
  then have "decode_e4m3fn a = Fin (of_int (e4m3_units a) / 512)"
    "decode_e4m3fn b = Fin (of_int (e4m3_units b) / 512)"
    "decode_e4m3fn (a + 0x80) = Fin (- (of_int (e4m3_units a) / 512))"
    "decode_e4m3fn (b + 0x80) = Fin (- (of_int (e4m3_units b) / 512))"
    using lt small [of a] small [of b] by (simp_all add: decode_e4m3fn_units neg)
  moreover have "(0 :: rat) \<le> of_int (e4m3_units a) / 512"
    "of_int (e4m3_units a) / 512 < (of_int (e4m3_units b) / 512 :: rat)"
    using less pos by (simp_all add: divide_strict_right_mono)
  moreover have "of_int (e4m3_units b) / 512 \<le> (448 :: rat)"
    using e4m3fn_range [of b] by (simp only: calculation(2) f32.case abs_le_iff)
  ultimately show ?thesis by blast
qed

theorem e4m3fn_increasing_witness:
  "\<exists>x y. decode_e4m3fn 0x37 = Fin x \<and> decode_e4m3fn 0x38 = Fin y \<and> 0 \<le> x \<and> x < y \<and> y \<le> 448 \<and>
     decode_e4m3fn (0x37 + 0x80) = Fin (- x) \<and> decode_e4m3fn (0x38 + 0x80) = Fin (- y)"
  by (rule e4m3fn_increasing) simp_all

section \<open>The dispatch on the scale\<close>

lemma cdiv_less:
  assumes "2 \<le> b" "2 \<le> n"
  shows "cdiv n b < n"
proof -
  have "n + b - 1 < n * b"
  proof -
    have "(n - 1) * (b - 1) > 0" using assms by simp
    moreover have "n * b = (n - 1) * (b - 1) + (n - 1) + (b - 1) + 1"
      using assms by (cases n; cases b) (auto simp: algebra_simps)
    ultimately show ?thesis using assms by linarith
  qed
  then show ?thesis
    using assms by (simp add: cdiv_def less_mult_imp_div_less mult.commute)
qed

text \<open>
  The layout inferred from the two shapes is the layout of the pair.  For a weight of two rows
  or more, a scale grid of the E4M3 blocks selects the E4M3 decoding, one scale per row and 32
  columns selects the packed E2M1 decoding, and any other E8M0 scale is refused; the two shapes are
  never the same.
\<close>

theorem scale_dispatch_sound:
  assumes "2 \<le> n_rows weight" "2 \<le> bh"
  shows "dequant_weight_auto fmul (bh, bw) fb weight (E8M0 u) =
    (if shape u = (cdiv (n_rows weight) bh, cdiv (m_cols weight) bw)
     then dequant_fp8_mxfp_weight fmul (bh, bw) weight u
     else if shape u = (n_rows weight, cdiv (m_cols weight * 2) fb)
     then dequant_fp4_packed_weight fmul fb weight u
     else Inl ValueError)"
proof -
  have lt: "cdiv (n_rows weight) bh < n_rows weight" by (rule cdiv_less) (use assms in simp_all)
  obtain n c where u: "shape u = (n, c)" by fastforce
  then have dim: "n_rows u = n" "m_cols u = c" by (simp_all add: shape_def)
  have sh: "shape weight = (n_rows weight, m_cols weight)" by (simp add: shape_def)
  show ?thesis
  proof (cases "n = n_rows weight")
    case True
    then show ?thesis using lt by (simp add: dequant_weight_auto_def Let_def u dim)
  next
    case False
    then show ?thesis
      by (simp add: dequant_weight_auto_def Let_def u dim dequant_fp8_mxfp_weight_def sh)
  qed
qed

definition fp4_pair :: "8 word mat" where
  "fp4_pair = \<lparr> m_cols = 1, m_rows = [[0x12], [0x3F]] \<rparr>"

theorem scale_dispatch_sound_witness:
  "let u = \<lparr> m_cols = 1, m_rows = [[0x80], [0x7F]] \<rparr>;
       mul = (\<lambda>x y. case (x, y) of (Fin a, Fin b) \<Rightarrow> Fin (a * b) | _ \<Rightarrow> NaN)
   in dequant_weight_auto mul (128, 128) 32 fp4_pair (E8M0 u) =
        Inr \<lparr> m_cols = 2, m_rows = [[Fin 2, Fin 1], [Fin (-6), Fin (3 / 2)]] \<rparr>"
proof -
  let ?u = "\<lparr> m_cols = 1, m_rows = [[0x80], [0x7F]] \<rparr> :: 8 word mat"
  let ?mul = "\<lambda>x y. case (x, y) of (Fin a, Fin b) \<Rightarrow> Fin (a * b) | _ \<Rightarrow> NaN"
  have "2 \<le> n_rows fp4_pair" by code_simp
  then have "dequant_weight_auto ?mul (128, 128) 32 fp4_pair (E8M0 ?u) =
    (if shape ?u = (cdiv (n_rows fp4_pair) 128, cdiv (m_cols fp4_pair) 128)
     then dequant_fp8_mxfp_weight ?mul (128, 128) fp4_pair ?u
     else if shape ?u = (n_rows fp4_pair, cdiv (m_cols fp4_pair * 2) 32)
     then dequant_fp4_packed_weight ?mul 32 fp4_pair ?u
     else Inl ValueError)"
    by (rule scale_dispatch_sound) simp
  also have "\<dots> = Inr \<lparr> m_cols = 2, m_rows = [[Fin 2, Fin 1], [Fin (-6), Fin (3 / 2)]] \<rparr>"
    by code_simp
  finally show ?thesis by (simp add: Let_def)
qed

text \<open>
  A single row is ambiguous: an E4M3 weight of one row and at most 16 columns, with its one block
  scale, is decoded as packed E2M1 and comes back twice as wide.
\<close>

lemma one_row_taken_for_fp4:
  "let w = \<lparr> m_cols = 2, m_rows = [[0x38, 0x40]] \<rparr>; u = \<lparr> m_cols = 1, m_rows = [[0x7F]] \<rparr>;
       mul = (\<lambda>x y. case (x, y) of (Fin a, Fin b) \<Rightarrow> Fin (a * b) | _ \<Rightarrow> NaN)
   in dequant_fp8_mxfp_weight mul (128, 128) w u = Inr \<lparr> m_cols = 2, m_rows = [[Fin 1, Fin 2]] \<rparr> \<and>
      dequant_weight_auto mul (128, 128) 32 w (E8M0 u) =
        Inr \<lparr> m_cols = 4, m_rows = [[Fin 0, Fin (3 / 2), Fin 0, Fin 2]] \<rparr>"
  by code_simp

end
