(* ===== verification/TpShard.thy ===== *)
theory TpShard
  imports ShardPlan Fp8
begin

text \<open>
  The slicing half of \<open>loaders/tp_shard.py\<close>: the row and column ranges of the ranks, the
  validation of a plan against a tensor, the slices of a weight and of its block scales, and the
  reassembly.  A tensor is a matrix: its rows along axis 0, its columns along axis 1, further axes
  flattened into the row.  Operations are methods of a sharding object; a shard is \<open>None\<close> when
  the rank does not own the expert.
\<close>

section \<open>Ranges\<close>

definition segment_ranges :: "sharding \<Rightarrow> nat \<Rightarrow> nat \<Rightarrow> py_error + (nat \<times> nat) list" where
  "segment_ranges self sz unit =
     (if sh_tp self = 0 then Inl ZeroDivisionError
      else let per = sz div sh_tp self
           in if sz mod sh_tp self \<noteq> 0 then Inl ShardError
              else if unit = 0 then Inl ZeroDivisionError
              else if per mod unit \<noteq> 0 then Inl ShardError
              else Inr (map (\<lambda>r. (r * per, (r + 1) * per)) [0..<sh_tp self]))"

fun segment_row_ranges :: "sharding \<Rightarrow> nat \<Rightarrow> nat \<Rightarrow> (nat option \<times> nat) list \<Rightarrow> py_error + (nat \<times> nat) list" where
  "segment_row_ranges self r base [] = Inr []"
| "segment_row_ranges self r base ((sz, unit) # ss) =
     (case sz of None \<Rightarrow> Inl ShardError
      | Some n \<Rightarrow>
          rbind (segment_ranges self n unit) (\<lambda>rng.
          rbind (segment_row_ranges self r (base + n) ss) (\<lambda>rr.
            let (b, e) = rng ! r in Inr ((base + b, base + e) # rr))))"

definition rank_row_ranges :: "sharding \<Rightarrow> tensor_plan \<Rightarrow> py_error + (nat \<times> nat) list list" where
  "rank_row_ranges self plan = rmap (\<lambda>r. segment_row_ranges self r 0 (segments plan)) [0..<sh_tp self]"

definition col_ranges :: "sharding \<Rightarrow> tensor_plan \<Rightarrow> py_error + (nat \<times> nat) list list" where
  "col_ranges self plan =
     (case segments plan of
        [] \<Rightarrow> Inl IndexError
      | (None, _) # _ \<Rightarrow> Inl TypeError
      | (Some sz, unit) # _ \<Rightarrow>
          rbind (segment_ranges self sz unit) (\<lambda>rng.
            Inr (map (\<lambda>r. [rng ! r]) [0..<sh_tp self])))"

text \<open>\<open>sum(s for s, _ in plan.segments)\<close>\<close>

fun segments_total :: "(nat option \<times> nat) list \<Rightarrow> py_error + nat" where
  "segments_total [] = Inr 0"
| "segments_total ((s, _) # ss) =
     (case s of None \<Rightarrow> Inl TypeError | Some n \<Rightarrow> rbind (segments_total ss) (\<lambda>t. Inr (n + t)))"

definition rank_ranges :: "sharding \<Rightarrow> pystr \<Rightarrow> nat \<times> nat \<Rightarrow> py_error + (nat \<times> nat) list list" where
  "rank_ranges self name shp =
     (let plan = sh_plan self name
      in case kind plan of
           SplitOut \<Rightarrow>
             (case segments plan of
                [] \<Rightarrow> Inl IndexError
              | (None, _) # _ \<Rightarrow>
                  (if sh_tp self = 0 then Inl ZeroDivisionError
                   else if fst shp mod sh_tp self \<noteq> 0 then Inl ShardError
                   else let per = fst shp div sh_tp self
                        in Inr (map (\<lambda>r. [(r * per, (r + 1) * per)]) [0..<sh_tp self]))
              | _ \<Rightarrow>
                  rbind (segments_total (segments plan)) (\<lambda>total.
                    if total \<noteq> fst shp then Inl ShardError else rank_row_ranges self plan))
         | SplitIn \<Rightarrow>
             (case segments plan of
                [] \<Rightarrow> Inl IndexError
              | (sz, _) # _ \<Rightarrow>
                  (if sz \<noteq> Some (snd shp) then Inl ShardError else col_ranges self plan))
         | _ \<Rightarrow> Inl ShardError)"

text \<open>The check of one range of a rank.\<close>

definition check_range :: "sharding \<Rightarrow> bool \<Rightarrow> nat \<times> nat \<Rightarrow> py_error + unit" where
  "check_range self quantized be =
     (let (b, e) = be
      in if e \<le> b then Inl ShardError
         else if quantized then
           (if sh_block self = 0 then Inl ZeroDivisionError
            else if b mod sh_block self \<noteq> 0 \<and> (e - 1) div sh_block self \<noteq> b div sh_block self
            then Inl ShardError else Inr ())
         else Inr ())"

definition validate_tensor :: "sharding \<Rightarrow> pystr \<Rightarrow> nat \<times> nat \<Rightarrow> bool \<Rightarrow> py_error + unit" where
  "validate_tensor self name shp quantized =
     (if kind (sh_plan self name) \<in> {Replicated, Experts} then Inr ()
      else rbind (rank_ranges self name shp) (\<lambda>rrs.
           rbind (rmap (check_range self quantized) (concat rrs)) (\<lambda>_. Inr ())))"

section \<open>Slicing\<close>

definition owner :: "sharding \<Rightarrow> nat \<Rightarrow> py_error + nat" where
  "owner self e =
     (if sh_tp self = 0 then Inl ZeroDivisionError
      else let per = sh_experts self div sh_tp self
           in if per = 0 then Inl ZeroDivisionError else Inr (min (e div per) (sh_tp self - 1)))"

text \<open>The slices of the ranges of one rank, concatenated along the split axis.\<close>

definition cut_rows :: "'a mat \<Rightarrow> (nat \<times> nat) list \<Rightarrow> py_error + 'a mat" where
  "cut_rows m rr = concat_rows (map (\<lambda>(b, e). slice_rows m b e) rr)"

definition cut_cols :: "'a mat \<Rightarrow> (nat \<times> nat) list \<Rightarrow> py_error + 'a mat" where
  "cut_cols m rr = concat_cols (map (\<lambda>(b, e). slice_cols m b e) rr)"

definition shard :: "sharding \<Rightarrow> pystr \<Rightarrow> 'a mat \<Rightarrow> py_error + 'a mat option list" where
  "shard self name arr =
     (let plan = sh_plan self name
      in case kind plan of
           Replicated \<Rightarrow> Inr (replicate (sh_tp self) (Some arr))
         | Experts \<Rightarrow>
             (case expert plan of
                None \<Rightarrow> Inl TypeError
              | Some e \<Rightarrow>
                  rmap (\<lambda>r. rbind (owner self e) (\<lambda>o'. Inr (if o' = r then Some arr else None))) [0..<sh_tp self])
         | k \<Rightarrow>
             rbind (rank_ranges self name (shape arr)) (\<lambda>rrs.
               rmap (\<lambda>rr. rbind (if k = SplitOut then cut_rows arr rr else cut_cols arr rr) (\<lambda>m. Inr (Some m)))
                 rrs))"

text \<open>The guard on the segments of a concatenated slice.\<close>

fun check_segments :: "sharding \<Rightarrow> (nat option \<times> nat) list \<Rightarrow> py_error + unit" where
  "check_segments self [] = Inr ()"
| "check_segments self ((sz, _) # ss) =
     (case sz of None \<Rightarrow> Inl TypeError
      | Some n \<Rightarrow>
          (if sh_block self = 0 \<or> sh_tp self = 0 then Inl ZeroDivisionError
           else if n mod sh_block self \<noteq> 0 \<or> n div sh_tp self mod sh_block self \<noteq> 0 then Inl ShardError
           else check_segments self ss))"

text \<open>The range of blocks a range of rows or columns touches: floor at the begin, ceiling at the end.\<close>

definition block_range :: "nat \<Rightarrow> nat \<times> nat \<Rightarrow> nat \<times> nat" where
  "block_range blk be = (fst be div blk, cdiv (snd be) blk)"

definition shard_scale :: "sharding \<Rightarrow> pystr \<Rightarrow> 'a mat \<Rightarrow> py_error + 'a mat list" where
  "shard_scale self name scale =
     (let plan = sh_plan self name; blk = sh_block self
      in case kind plan of
           Replicated \<Rightarrow> Inr (replicate (sh_tp self) scale)
         | Experts \<Rightarrow> Inl ShardError
         | SplitOut \<Rightarrow>
             rbind (if 1 < length (segments plan) then check_segments self (segments plan) else Inr ()) (\<lambda>_.
             rbind (rank_row_ranges self plan) (\<lambda>rrs.
             if blk = 0 then Inl ZeroDivisionError
             else rmap (\<lambda>rr. cut_rows scale (map (block_range blk) rr)) rrs))
         | SplitIn \<Rightarrow>
             rbind (col_ranges self plan) (\<lambda>rrs.
             if blk = 0 then Inl ZeroDivisionError
             else rmap (\<lambda>rr. cut_cols scale (map (block_range blk) rr)) rrs))"

definition shard_pair ::
  "sharding \<Rightarrow> pystr \<Rightarrow> 'a mat \<Rightarrow> 'b mat \<Rightarrow> py_error + ('a mat option \<times> 'b mat option) list" where
  "shard_pair self name fp8 scale =
     rbind (shard self name fp8) (\<lambda>w.
     rbind (shard_scale self name scale) (\<lambda>s.
       Inr (map (\<lambda>r. (w ! r, case w ! r of None \<Rightarrow> None | Some _ \<Rightarrow> Some (s ! r))) [0..<sh_tp self])))"

section \<open>Reassembly\<close>

text \<open>
  \<open>out[b:e] = src\<close> on rows: the source has as many rows, or one row that is repeated.
\<close>

definition assign_rows :: "nat \<Rightarrow> nat \<Rightarrow> 'a list list \<Rightarrow> 'a list list \<Rightarrow> py_error + 'a list list" where
  "assign_rows b e src out =
     (let n = min e (length out) - b
      in if length src = n then Inr (take b out @ src @ drop (b + n) out)
         else if length src = 1 then Inr (take b out @ replicate n (hd src) @ drop (b + n) out)
         else Inl ValueError)"

text \<open>The two loops of the scatter: ranks inside, segments outside.\<close>

fun scatter_ranks ::
  "nat \<Rightarrow> nat \<Rightarrow> 'a mat list \<Rightarrow> nat list \<Rightarrow> nat list \<times> 'a list list \<Rightarrow> py_error + nat list \<times> 'a list list" where
  "scatter_ranks base per shards [] st = Inr st"
| "scatter_ranks base per shards (r # rs) (pos, out) =
     (if r \<ge> length shards then Inl IndexError
      else let b = base + r * per; e = base + (r + 1) * per
           in rbind (assign_rows b e (slice (pos ! r) (pos ! r + (e - b)) (m_rows (shards ! r))) out) (\<lambda>out'.
              scatter_ranks base per shards rs (pos[r := pos ! r + (e - b)], out')))"

fun scatter_segments ::
  "nat \<Rightarrow> 'a mat list \<Rightarrow> nat \<Rightarrow> (nat option \<times> nat) list \<Rightarrow> nat list \<times> 'a list list \<Rightarrow> py_error + 'a list list" where
  "scatter_segments tp shards base [] st = Inr (snd st)"
| "scatter_segments tp shards base ((sz, _) # ss) st =
     (case sz of None \<Rightarrow> Inl TypeError
      | Some n \<Rightarrow>
          (if tp = 0 then Inl ZeroDivisionError
           else rbind (scatter_ranks base (n div tp) shards [0..<tp] st) (\<lambda>st'.
                  scatter_segments tp shards (base + n) ss st')))"

text \<open>
  \<open>np.empty\<close> leaves whatever the memory holds: the parameter \<open>junk\<close> stands for it.
\<close>

definition full_from_shards :: "'a \<Rightarrow> sharding \<Rightarrow> pystr \<Rightarrow> 'a mat list \<Rightarrow> py_error + 'a mat" where
  "full_from_shards junk self name shards =
     (let plan = sh_plan self name
      in case kind plan of
           Replicated \<Rightarrow> (case shards of [] \<Rightarrow> Inl IndexError | m # _ \<Rightarrow> Inr m)
         | Experts \<Rightarrow> Inl ShardError
         | SplitIn \<Rightarrow> concat_cols shards
         | SplitOut \<Rightarrow>
             (case segments plan of
                [] \<Rightarrow> Inl IndexError
              | (None, _) # _ \<Rightarrow> concat_rows shards
              | [_] \<Rightarrow> concat_rows shards
              | _ \<Rightarrow>
                  rbind (segments_total (segments plan)) (\<lambda>total.
                  case shards of [] \<Rightarrow> Inl IndexError
                  | m # _ \<Rightarrow>
                      rbind (scatter_segments (sh_tp self) shards 0 (segments plan)
                               (replicate (sh_tp self) 0, replicate total (replicate (m_cols m) junk))) (\<lambda>out.
                        Inr \<lparr> m_cols = m_cols m, m_rows = out \<rparr>))))"

text \<open>The same scatter in units of blocks.\<close>

fun scatter_scale_ranks ::
  "nat \<Rightarrow> nat \<Rightarrow> nat \<Rightarrow> 'a mat list \<Rightarrow> nat list \<Rightarrow> nat list \<times> 'a list list \<Rightarrow> py_error + nat list \<times> 'a list list" where
  "scatter_scale_ranks blk base per shards [] st = Inr st"
| "scatter_scale_ranks blk base per shards (r # rs) (pos, out) =
     (if r \<ge> length shards then Inl IndexError
      else let sb = (base + r * per) div blk; se = (base + (r + 1) * per) div blk
           in rbind (assign_rows sb se (slice (pos ! r) (pos ! r + (se - sb)) (m_rows (shards ! r))) out) (\<lambda>out'.
              scatter_scale_ranks blk base per shards rs (pos[r := pos ! r + (se - sb)], out')))"

fun scatter_scale_segments ::
  "nat \<Rightarrow> nat \<Rightarrow> 'a mat list \<Rightarrow> nat \<Rightarrow> (nat option \<times> nat) list \<Rightarrow> nat list \<times> 'a list list \<Rightarrow> py_error + 'a list list" where
  "scatter_scale_segments blk tp shards base [] st = Inr (snd st)"
| "scatter_scale_segments blk tp shards base ((sz, _) # ss) st =
     (case sz of None \<Rightarrow> Inl TypeError
      | Some n \<Rightarrow>
          (if tp = 0 then Inl ZeroDivisionError
           else rbind (scatter_scale_ranks blk base (n div tp) shards [0..<tp] st) (\<lambda>st'.
                  scatter_scale_segments blk tp shards (base + n) ss st')))"

definition full_scale_from_shards :: "'a \<Rightarrow> sharding \<Rightarrow> pystr \<Rightarrow> 'a mat list \<Rightarrow> py_error + 'a mat" where
  "full_scale_from_shards junk self name shards =
     (let plan = sh_plan self name; blk = sh_block self
      in if kind plan = SplitIn then concat_cols shards
         else (case segments plan of
                 [] \<Rightarrow> Inl IndexError
               | (None, _) # _ \<Rightarrow> concat_rows shards
               | [_] \<Rightarrow> concat_rows shards
               | _ \<Rightarrow>
                   rbind (segments_total (segments plan)) (\<lambda>total.
                   if blk = 0 then Inl ZeroDivisionError
                   else if total mod blk \<noteq> 0 then Inl ShardError
                   else case shards of [] \<Rightarrow> Inl IndexError
                   | m # _ \<Rightarrow>
                       rbind (scatter_scale_segments blk (sh_tp self) shards 0 (segments plan)
                                (replicate (sh_tp self) 0, replicate (total div blk) (replicate (m_cols m) junk)))
                         (\<lambda>out. Inr \<lparr> m_cols = m_cols m, m_rows = out \<rparr>))))"

section \<open>Slices\<close>

lemma slice_length [simp]: "length (slice b e xs) = min e (length xs) - b"
  by (cases "e \<le> length xs") (auto simp: slice_def)

lemma slice_nth: "i < e - b \<Longrightarrow> b + i < length xs \<Longrightarrow> slice b e xs ! i = xs ! (b + i)"
  by (simp add: slice_def)

lemma slice_all: "length xs \<le> e \<Longrightarrow> slice 0 e xs = xs"
  by (simp add: slice_def)

lemma slice_drop: "slice p (p + n) xs = take n (drop p xs)"
  by (simp add: slice_def)

lemma take_slice: "b \<le> e \<Longrightarrow> take b xs @ slice b e xs = take e xs"
  by (metis le_add_diff_inverse slice_def take_add)

lemma concat_slices: "concat (map (\<lambda>r. slice (r * per) ((r + 1) * per) xs) [0..<k]) = take (k * per) xs"
proof (induction k)
  case (Suc k)
  then show ?case using take_slice [of "k * per" "(k + 1) * per" xs] by simp
qed simp

lemma concat_rows_Inr:
  "ms \<noteq> [] \<Longrightarrow> (\<And>m. m \<in> set ms \<Longrightarrow> m_cols m = w) \<Longrightarrow>
     concat_rows ms = Inr \<lparr> m_cols = w, m_rows = concat (map m_rows ms) \<rparr>"
  by (cases ms) (auto simp: concat_rows_def list_all_iff)

lemma cut_rows_Inr:
  "rr \<noteq> [] \<Longrightarrow> cut_rows m rr = Inr \<lparr> m_cols = m_cols m, m_rows = concat (map (\<lambda>(b, e). slice b e (m_rows m)) rr) \<rparr>"
  unfolding cut_rows_def
  by (subst concat_rows_Inr [where w = "m_cols m"]) (auto simp: slice_rows_def o_def split_beta')

lemma cut_cols_one: "mat_ok m \<Longrightarrow> e \<le> m_cols m \<Longrightarrow> cut_cols m [(b, e)] = Inr (slice_cols m b e)"
  by (auto simp: cut_cols_def concat_cols_def slice_cols_def n_rows_def intro!: nth_equalityI)

section \<open>Ranges\<close>

lemma segment_ranges_Inr:
  assumes "segment_ranges self n u = Inr rng"
  shows "n mod sh_tp self = 0" "0 < sh_tp self" "n div sh_tp self mod u = 0" "0 < u"
    "rng = map (\<lambda>r. (r * (n div sh_tp self), (r + 1) * (n div sh_tp self))) [0..<sh_tp self]"
  using assms by (auto simp: segment_ranges_def Let_def split: if_splits)

text \<open>The row ranges of one rank over segments of the given sizes.\<close>

fun pieces :: "nat \<Rightarrow> nat \<Rightarrow> nat \<Rightarrow> nat list \<Rightarrow> (nat \<times> nat) list" where
  "pieces tp r base [] = []"
| "pieces tp r base (n # ns) = (base + r * (n div tp), base + (r + 1) * (n div tp)) # pieces tp r (base + n) ns"

lemma segment_row_ranges_Inr:
  assumes "segment_row_ranges self r base ss = Inr rr" "r < sh_tp self"
  shows "rr = pieces (sh_tp self) r base (map (the \<circ> fst) ss)"
    "list_all (\<lambda>s. fst s \<noteq> None \<and> the (fst s) mod sh_tp self = 0) ss"
proof -
  have "rr = pieces (sh_tp self) r base (map (the \<circ> fst) ss) \<and>
      list_all (\<lambda>s. fst s \<noteq> None \<and> the (fst s) mod sh_tp self = 0) ss"
    using assms
  proof (induction self r base ss arbitrary: rr rule: segment_row_ranges.induct)
    case (2 self r base sz u ss)
    then obtain n rng rr' where n: "sz = Some n" and rng: "segment_ranges self n u = Inr rng"
      and rr': "segment_row_ranges self r (base + n) ss = Inr rr'"
      and rr: "rr = (let (b, e) = rng ! r in (base + b, base + e) # rr')"
      by (auto simp: rbind_Inr_iff split_beta Let_def split: option.splits)
    have "rr' = pieces (sh_tp self) r (base + n) (map (the \<circ> fst) ss) \<and>
        list_all (\<lambda>s. fst s \<noteq> None \<and> the (fst s) mod sh_tp self = 0) ss"
      using "2.IH" [OF n rng rr'] "2.prems"(2) by blast
    then show ?case
      using segment_ranges_Inr(1,5) [OF rng] "2.prems"(2) n by (simp add: rr o_def)
  qed simp
  then show "rr = pieces (sh_tp self) r base (map (the \<circ> fst) ss)"
    "list_all (\<lambda>s. fst s \<noteq> None \<and> the (fst s) mod sh_tp self = 0) ss" by blast+
qed

lemma rmap_upt:
  assumes "rmap f [0..<k] = Inr ys"
  shows "length ys = k" "\<And>i. i < k \<Longrightarrow> f i = Inr (ys ! i)"
  using rmap_length [OF assms] rmap_nth [OF assms] by auto

lemma rank_row_ranges_Inr:
  assumes "rank_row_ranges self plan = Inr rrs" "0 < sh_tp self"
  shows "rrs = map (\<lambda>r. pieces (sh_tp self) r 0 (map (the \<circ> fst) (segments plan))) [0..<sh_tp self]"
    "list_all (\<lambda>s. fst s \<noteq> None \<and> the (fst s) mod sh_tp self = 0) (segments plan)"
proof -
  note r = assms(1) [unfolded rank_row_ranges_def]
  show "rrs = map (\<lambda>r. pieces (sh_tp self) r 0 (map (the \<circ> fst) (segments plan))) [0..<sh_tp self]"
    by (rule nth_equalityI) (use rmap_upt [OF r] segment_row_ranges_Inr(1) in auto)
  show "list_all (\<lambda>s. fst s \<noteq> None \<and> the (fst s) mod sh_tp self = 0) (segments plan)"
    using rmap_upt(2) [OF r assms(2)] segment_row_ranges_Inr(2) assms(2) by blast
qed

lemma segments_total_Inr:
  "segments_total ss = Inr t \<Longrightarrow> t = sum_list (map (the \<circ> fst) ss)"
  by (induction ss arbitrary: t rule: segments_total.induct) (auto simp: rbind_Inr_iff split: option.splits)

lemma segments_total_known:
  "list_all (\<lambda>s. fst s \<noteq> None \<and> P s) ss \<Longrightarrow> segments_total ss = Inr (sum_list (map (the \<circ> fst) ss))"
  by (induction ss rule: segments_total.induct) auto

section \<open>The scatter\<close>

lemma assign_rows_exact:
  "length src = e - b \<Longrightarrow> b \<le> e \<Longrightarrow> e \<le> length out \<Longrightarrow> assign_rows b e src out = Inr (take b out @ src @ drop e out)"
  by (simp add: assign_rows_def)

lemma scatter_ranks_ok:
  assumes "k \<le> tp" "length shards = tp" "base + tp * per \<le> length R"
    "\<And>r. r < tp \<Longrightarrow> slice P (P + per) (m_rows (shards ! r)) = slice (base + r * per) (base + (r + 1) * per) R"
    "length pos = tp" "\<And>r. r < tp \<Longrightarrow> pos ! r = (if r < k then P + per else P)"
    "length out = length R" "take (base + k * per) out = take (base + k * per) R"
  shows "\<exists>pos' out'. scatter_ranks base per shards [k..<tp] (pos, out) = Inr (pos', out') \<and>
    length pos' = tp \<and> (\<forall>r < tp. pos' ! r = P + per) \<and> length out' = length R \<and>
    take (base + tp * per) out' = take (base + tp * per) R"
  using assms
proof (induction "tp - k" arbitrary: k pos out)
  case 0
  then show ?case by auto
next
  case (Suc d)
  then have k: "k < tp" by simp
  let ?b = "base + k * per" and ?e = "base + (k + 1) * per"
  have "(k + 1) * per \<le> tp * per" using k by (intro mult_right_mono) auto
  then have e: "?e \<le> length R" using Suc.prems(3) by linarith
  let ?src = "slice (pos ! k) (pos ! k + (?e - ?b)) (m_rows (shards ! k))"
  have src: "?src = slice ?b ?e R"
    using Suc.prems(4) [OF k] Suc.prems(6) [OF k] by simp
  then have len: "length ?src = ?e - ?b" using e by simp
  let ?out = "take ?b out @ ?src @ drop ?e out"
  have asg: "assign_rows ?b ?e ?src out = Inr ?out"
    by (rule assign_rows_exact [OF len]) (use e Suc.prems(7) in auto)
  have upt: "[k..<tp] = k # [Suc k..<tp]" using k by (rule upt_conv_Cons)
  have step: "scatter_ranks base per shards [k..<tp] (pos, out) =
      scatter_ranks base per shards [Suc k..<tp] (pos[k := P + per], ?out)"
    using k Suc.prems(2,6) asg by (simp add: upt Let_def)
  have tk: "take ?e ?out = take ?e R"
  proof -
    have "take ?e ?out = take ?b R @ slice ?b ?e R"
      using e Suc.prems(7,8) src by simp
    then show ?thesis using take_slice [of ?b ?e R] by simp
  qed
  have "\<exists>pos' out'. scatter_ranks base per shards [Suc k..<tp] (pos[k := P + per], ?out) = Inr (pos', out') \<and>
    length pos' = tp \<and> (\<forall>r < tp. pos' ! r = P + per) \<and> length out' = length R \<and>
    take (base + tp * per) out' = take (base + tp * per) R"
  proof (rule Suc.hyps(1))
    show "d = tp - Suc k" using Suc.hyps(2) by simp
    show "Suc k \<le> tp" using k by simp
    show "take (base + Suc k * per) ?out = take (base + Suc k * per) R" using tk by simp
    show "length ?out = length R" using len e Suc.prems(7) by simp
    show "pos[k := P + per] ! r = (if r < Suc k then P + per else P)" if "r < tp" for r
      using Suc.prems(5,6) that k by (auto simp: nth_list_update less_Suc_eq)
  qed (use Suc.prems in auto)
  then show ?case unfolding step .
qed

abbreviation pieces_rows :: "'a list list \<Rightarrow> (nat \<times> nat) list \<Rightarrow> 'a list list" where
  "pieces_rows R rr \<equiv> concat (map (\<lambda>(b, e). slice b e R) rr)"

lemma scatter_segments_ok:
  assumes "list_all (\<lambda>s. fst s \<noteq> None \<and> the (fst s) mod tp = 0) ss" "0 < tp" "length shards = tp"
    "base + sum_list (map (the \<circ> fst) ss) \<le> length R"
    "\<And>r. r < tp \<Longrightarrow> drop P (m_rows (shards ! r)) = pieces_rows R (pieces tp r base (map (the \<circ> fst) ss))"
    "length pos = tp" "\<And>r. r < tp \<Longrightarrow> pos ! r = P"
    "length out = length R" "take base out = take base R"
  shows "\<exists>out'. scatter_segments tp shards base ss (pos, out) = Inr out' \<and> length out' = length R \<and>
    take (base + sum_list (map (the \<circ> fst) ss)) out' = take (base + sum_list (map (the \<circ> fst) ss)) R"
  using assms
proof (induction ss arbitrary: base P pos out)
  case Nil
  then show ?case by simp
next
  case (Cons s ss)
  obtain n u where s: "s = (Some n, u)" and n: "n mod tp = 0"
    using Cons.prems(1) by (cases s) auto
  let ?per = "n div tp" and ?ns = "map (the \<circ> fst) ss"
  have per: "tp * ?per = n" using n by (metis mult_div_mod_eq add_0_right)
  have le: "base + n \<le> length R" using Cons.prems(4) s by simp
  have cut: "slice P (P + ?per) (m_rows (shards ! r)) = slice (base + r * ?per) (base + (r + 1) * ?per) R \<and>
      drop (P + ?per) (m_rows (shards ! r)) = pieces_rows R (pieces tp r (base + n) ?ns)" if "r < tp" for r
  proof -
    let ?a = "slice (base + r * ?per) (base + (r + 1) * ?per) R"
    have "(r + 1) * ?per \<le> tp * ?per" using that by (intro mult_right_mono) auto
    then have "base + (r + 1) * ?per \<le> length R" using per le by linarith
    then have len: "length ?a = ?per" by simp
    have d: "drop P (m_rows (shards ! r)) = ?a @ pieces_rows R (pieces tp r (base + n) ?ns)"
      using Cons.prems(5) [OF that] s by (simp add: o_def)
    have "take ?per (drop P (m_rows (shards ! r))) = ?a"
      "drop ?per (drop P (m_rows (shards ! r))) = pieces_rows R (pieces tp r (base + n) ?ns)"
      unfolding d using len by simp_all
    then show ?thesis by (simp add: slice_drop add.commute)
  qed
  have "\<exists>pos' out'. scatter_ranks base ?per shards [0..<tp] (pos, out) = Inr (pos', out') \<and>
      length pos' = tp \<and> (\<forall>r < tp. pos' ! r = P + ?per) \<and> length out' = length R \<and>
      take (base + tp * ?per) out' = take (base + tp * ?per) R"
  proof (rule scatter_ranks_ok)
    show "base + tp * ?per \<le> length R" using le per by simp
    show "slice P (P + ?per) (m_rows (shards ! r)) = slice (base + r * ?per) (base + (r + 1) * ?per) R" if "r < tp" for r
      using cut [OF that] by blast
  qed (use Cons.prems in auto)
  then obtain pos' out' where st: "scatter_ranks base ?per shards [0..<tp] (pos, out) = Inr (pos', out')"
    and pos': "length pos' = tp" "\<forall>r < tp. pos' ! r = P + ?per"
    and out': "length out' = length R" "take (base + n) out' = take (base + n) R"
    unfolding per by blast
  have "\<exists>out''. scatter_segments tp shards (base + n) ss (pos', out') = Inr out'' \<and> length out'' = length R \<and>
      take (base + n + sum_list ?ns) out'' = take (base + n + sum_list ?ns) R"
    by (rule Cons.IH [where P = "P + ?per"])
      (use Cons.prems cut pos' out' s in \<open>auto simp: add.assoc o_def\<close>)
  then show ?case using Cons.prems(2) s st by (simp add: add.assoc o_def)
qed

lemma full_slices:
  assumes "mat_ok m" "k * per = m_cols m" "i < n_rows m"
  shows "concat (map (\<lambda>r. slice (r * per) ((r + 1) * per) (m_rows m ! i)) [0..<k]) = m_rows m ! i"
  using assms by (simp only: concat_slices) (simp add: mat_ok_def n_rows_def list_all_length)

lemma concat_cols_Inr:
  "ms \<noteq> [] \<Longrightarrow> (\<And>m. m \<in> set ms \<Longrightarrow> n_rows m = h) \<Longrightarrow>
     concat_cols ms = Inr \<lparr> m_cols = sum_list (map m_cols ms),
       m_rows = map (\<lambda>i. concat (map (\<lambda>x. m_rows x ! i) ms)) [0..<h] \<rparr>"
  by (cases ms) (auto simp: concat_cols_def list_all_iff)

lemma concat_cols_slices:
  assumes "mat_ok m" "0 < k" "k * per = m_cols m"
  shows "concat_cols (map (\<lambda>r. slice_cols m (r * per) ((r + 1) * per)) [0..<k]) = Inr m"
proof -
  let ?p = "\<lambda>r. slice_cols m (r * per) ((r + 1) * per)"
  have rows: "n_rows (?p r) = n_rows m" for r by (simp add: slice_cols_def n_rows_def)
  have le: "(r + 1) * per \<le> m_cols m" if "r < k" for r
    using that assms(3) mult_le_mono1 [of "r + 1" k per] by simp
  have cols: "sum_list (map (\<lambda>r. m_cols (?p r)) [0..<k]) = m_cols m"
  proof -
    have "map (\<lambda>r. m_cols (?p r)) [0..<k] = replicate k per"
      by (rule nth_equalityI) (use le in \<open>auto simp: slice_cols_def min_def\<close>)
    then show ?thesis using assms(3) by (simp add: sum_list_replicate)
  qed
  have "concat_cols (map ?p [0..<k]) =
      Inr \<lparr> m_cols = sum_list (map m_cols (map ?p [0..<k])),
            m_rows = map (\<lambda>i. concat (map (\<lambda>x. m_rows x ! i) (map ?p [0..<k]))) [0..<n_rows m] \<rparr>"
    by (rule concat_cols_Inr) (use assms(2) rows in auto)
  also have "map (\<lambda>i. concat (map (\<lambda>x. m_rows x ! i) (map ?p [0..<k]))) [0..<n_rows m] = m_rows m"
    by (rule nth_equalityI)
      (use full_slices [OF assms(1,3)] in \<open>auto simp: n_rows_def slice_cols_def o_def\<close>)
  finally show ?thesis using cols by (simp add: o_def)
qed

lemma shard_split_parts:
  assumes "rmap (\<lambda>rr. rbind (f rr) (\<lambda>m. Inr (Some m))) rrs = Inr parts" "\<And>rr. rr \<in> set rrs \<Longrightarrow> f rr = Inr (g rr)"
  shows "parts = map Some (map g rrs)"
  using assms by (subst (asm) rmap_all_Inr [where g = "\<lambda>rr. Some (g rr)"]) auto

lemma pieces_nonempty: "ns \<noteq> [] \<Longrightarrow> pieces tp r base ns \<noteq> []"
  by (cases ns) auto

lemma shard_rows_parts:
  assumes "kind (sh_plan s name) = SplitOut" "0 < sh_tp s" "shard s name arr = Inr parts"
    "rank_ranges s name (shape arr) = Inr rrs" "\<And>rr. rr \<in> set rrs \<Longrightarrow> rr \<noteq> []"
  shows "parts = map Some (map (\<lambda>rr. \<lparr> m_cols = m_cols arr, m_rows = pieces_rows (m_rows arr) rr \<rparr>) rrs)"
proof (rule shard_split_parts)
  show "rmap (\<lambda>rr. rbind (cut_rows arr rr) (\<lambda>m. Inr (Some m))) rrs = Inr parts"
    using assms(1,3,4) by (simp add: shard_def Let_def)
qed (use assms(5) cut_rows_Inr in blast)

lemma single_piece_rows:
  assumes "k * per = n_rows m" "0 < k"
  shows "concat_rows (map (\<lambda>r. \<lparr> m_cols = m_cols m, m_rows = pieces_rows (m_rows m) [(r * per, (r + 1) * per)] \<rparr>) [0..<k]) = Inr m"
proof -
  let ?p = "\<lambda>r. \<lparr> m_cols = m_cols m, m_rows = pieces_rows (m_rows m) [(r * per, (r + 1) * per)] \<rparr>"
  have "concat_rows (map ?p [0..<k]) = Inr \<lparr> m_cols = m_cols m, m_rows = concat (map m_rows (map ?p [0..<k])) \<rparr>"
    by (rule concat_rows_Inr) (use assms(2) in auto)
  also have "concat (map m_rows (map ?p [0..<k])) = concat (map (\<lambda>r. slice (r * per) ((r + 1) * per) (m_rows m)) [0..<k])"
    by (simp add: o_def)
  also have "\<dots> = m_rows m" using assms(1) by (simp only: concat_slices) (simp add: n_rows_def)
  finally show ?thesis by simp
qed

lemma even_parts: "n mod tp = 0 \<Longrightarrow> tp * (n div tp) = n" for n tp :: nat
  by (metis mult_div_mod_eq add_0_right)

lemma roundtrip_rows_even:
  assumes "kind (sh_plan s name) = SplitOut" "segments (sh_plan s name) = (None, u) # ss"
    "0 < sh_tp s" "shard s name arr = Inr parts"
  shows "\<exists>ms. parts = map Some ms \<and> length ms = sh_tp s \<and> full_from_shards junk s name ms = Inr arr"
proof -
  let ?per = "n_rows arr div sh_tp s"
  let ?ms = "map (\<lambda>r. \<lparr> m_cols = m_cols arr, m_rows = pieces_rows (m_rows arr) [(r * ?per, (r + 1) * ?per)] \<rparr>) [0..<sh_tp s]"
  have h: "n_rows arr mod sh_tp s = 0"
  proof (rule ccontr)
    assume "n_rows arr mod sh_tp s \<noteq> 0"
    then show False using assms by (simp add: shard_def Let_def rank_ranges_def shape_def)
  qed
  then have "rank_ranges s name (shape arr) = Inr (map (\<lambda>r. [(r * ?per, (r + 1) * ?per)]) [0..<sh_tp s])"
    using assms(1-3) by (simp add: rank_ranges_def shape_def Let_def)
  from shard_rows_parts [OF assms(1,3,4) this] have "parts = map Some ?ms" by (auto simp: o_def)
  moreover have "full_from_shards junk s name ?ms = Inr arr"
    using single_piece_rows [OF even_parts [OF h] assms(3)] assms(1,2)
    by (simp add: full_from_shards_def Let_def)
  ultimately show ?thesis by (intro exI [of _ ?ms]) simp
qed

lemma roundtrip_cols:
  assumes "kind (sh_plan s name) = SplitIn" "plan_ok (sh_plan s name)"
    "mat_ok arr" "shard s name arr = Inr parts"
  shows "\<exists>ms. parts = map Some ms \<and> length ms = sh_tp s \<and> full_from_shards junk s name ms = Inr arr"
proof -
  obtain n u where seg: "segments (sh_plan s name) = [(Some n, u)]"
    using assms(1,2) by (auto simp: plan_ok_def length_Suc_conv)
  obtain rrs where rrs: "rank_ranges s name (shape arr) = Inr rrs"
    and parts: "rmap (\<lambda>rr. rbind (cut_cols arr rr) (\<lambda>m. Inr (Some m))) rrs = Inr parts"
    using assms(1,4) by (auto simp: shard_def Let_def rbind_Inr_iff)
  then obtain rng where n: "n = m_cols arr" and rng: "segment_ranges s n u = Inr rng"
    and rr: "rrs = map (\<lambda>r. [rng ! r]) [0..<sh_tp s]"
    using assms(1) seg by (auto simp: rank_ranges_def Let_def col_ranges_def shape_def rbind_Inr_iff split: if_splits)
  let ?per = "n div sh_tp s"
  note sr = segment_ranges_Inr [OF rng]
  have rr': "rrs = map (\<lambda>r. [(r * ?per, (r + 1) * ?per)]) [0..<sh_tp s]"
    unfolding rr by (rule map_cong) (auto simp: sr(5))
  have all: "sh_tp s * ?per = m_cols arr" using even_parts [OF sr(1)] n by simp
  let ?g = "\<lambda>rr. slice_cols arr (fst (hd rr)) (snd (hd rr))"
  let ?ms = "map (\<lambda>r. slice_cols arr (r * ?per) ((r + 1) * ?per)) [0..<sh_tp s]"
  have "parts = map Some (map ?g rrs)"
  proof (rule shard_split_parts [OF parts])
    fix rr assume "rr \<in> set rrs"
    then obtain r where r: "r < sh_tp s" "rr = [(r * ?per, (r + 1) * ?per)]" unfolding rr' by auto
    have "(r + 1) * ?per \<le> m_cols arr" using r(1) all mult_le_mono1 [of "r + 1" "sh_tp s" ?per] by simp
    then show "cut_cols arr rr = Inr (?g rr)" using cut_cols_one [OF assms(3)] r(2) by simp
  qed
  then have "parts = map Some ?ms" unfolding rr' by (simp add: o_def)
  moreover have "full_from_shards junk s name ?ms = Inr arr"
    using concat_cols_slices [OF assms(3) sr(2) all] assms(1) by (simp add: full_from_shards_def Let_def)
  ultimately show ?thesis by (intro exI [of _ ?ms]) simp
qed

lemma roundtrip_rows_sized:
  assumes "kind (sh_plan s name) = SplitOut" "segments (sh_plan s name) = (Some n, u) # ss"
    "0 < sh_tp s" "shard s name arr = Inr parts"
  shows "\<exists>ms. parts = map Some ms \<and> length ms = sh_tp s \<and> full_from_shards junk s name ms = Inr arr"
proof -
  let ?tp = "sh_tp s" and ?segs = "(Some n, u) # ss"
  let ?ns = "map (the \<circ> fst) ?segs" and ?R = "m_rows arr"
  obtain rrs where rrs: "rank_ranges s name (shape arr) = Inr rrs"
    using assms(1,4) by (auto simp: shard_def Let_def rbind_Inr_iff)
  then have row: "rank_row_ranges s (sh_plan s name) = Inr rrs"
    and total: "segments_total ?segs = Inr (n_rows arr)"
    using assms(1,2) by (auto simp: rank_ranges_def Let_def shape_def rbind_Inr_iff split: if_splits)
  note rr = rank_row_ranges_Inr [OF row assms(3), unfolded assms(2)]
  have sum: "sum_list ?ns = length ?R"
    using segments_total_Inr [OF total] by (simp add: n_rows_def)
  let ?m = "\<lambda>r. \<lparr> m_cols = m_cols arr, m_rows = pieces_rows ?R (pieces ?tp r 0 ?ns) \<rparr>"
  let ?ms = "map ?m [0..<?tp]"
  have "parts = map Some ?ms"
    using shard_rows_parts [OF assms(1,3,4) rrs] pieces_nonempty [of ?ns] by (auto simp: rr(1) o_def)
  moreover have "full_from_shards junk s name ?ms = Inr arr"
  proof (cases ss)
    case Nil
    let ?per = "n div ?tp"
    have all: "?tp * ?per = n_rows arr"
      using even_parts [of n ?tp] rr(2) sum Nil by (simp add: n_rows_def)
    have "?ms = map (\<lambda>r. \<lparr> m_cols = m_cols arr, m_rows = pieces_rows ?R [(r * ?per, (r + 1) * ?per)] \<rparr>) [0..<?tp]"
      by (simp add: Nil)
    then show ?thesis
      using single_piece_rows [OF all assms(3)] assms(1,2) Nil by (simp only: full_from_shards_def) (simp add: Let_def)
  next
    case (Cons x xs)
    let ?out = "replicate (length ?R) (replicate (m_cols arr) junk)"
    obtain out' where out': "scatter_segments ?tp ?ms 0 ?segs (replicate ?tp 0, ?out) = Inr out'" "length out' = length ?R"
      "take (0 + sum_list ?ns) out' = take (0 + sum_list ?ns) ?R"
    proof -
      have "\<exists>out'. scatter_segments ?tp ?ms 0 ?segs (replicate ?tp 0, ?out) = Inr out' \<and> length out' = length ?R \<and>
        take (0 + sum_list ?ns) out' = take (0 + sum_list ?ns) ?R"
        by (rule scatter_segments_ok [where P = 0]) (use rr(2) assms(3) sum in auto)
      then show ?thesis using that by blast
    qed
    have "out' = ?R" using out'(2,3) unfolding sum by simp
    then have sc: "scatter_segments ?tp ?ms 0 ?segs (replicate ?tp 0, ?out) = Inr ?R" using out'(1) by simp
    have hd: "?ms = ?m 0 # map ?m [1..<?tp]" using assms(3) by (simp add: upt_conv_Cons)
    have "full_from_shards junk s name ?ms =
        rbind (segments_total ?segs) (\<lambda>total.
          rbind (scatter_segments ?tp ?ms 0 ?segs (replicate ?tp 0, replicate total (replicate (m_cols arr) junk))) (\<lambda>out.
            Inr \<lparr> m_cols = m_cols arr, m_rows = out \<rparr>))"
      using assms(1,2) Cons hd by (simp add: full_from_shards_def Let_def del: segments_total.simps scatter_segments.simps upt_Suc)
    then show ?thesis by (simp only: total n_rows_def rbind_simps sc) simp
  qed
  ultimately show ?thesis by (intro exI [of _ ?ms]) simp
qed

lemma shards_join:
  assumes "plan_ok (sh_plan s name)" "kind (sh_plan s name) \<noteq> Experts" "0 < sh_tp s" "mat_ok arr"
    "shard s name arr = Inr parts"
  shows "\<exists>ms. parts = map Some ms \<and> length ms = sh_tp s \<and> full_from_shards junk s name ms = Inr arr"
proof (cases "kind (sh_plan s name)")
  case Replicated
  then have "parts = map Some (replicate (sh_tp s) arr)" using assms(5) by (simp add: shard_def Let_def)
  moreover have "full_from_shards junk s name (replicate (sh_tp s) arr) = Inr arr"
    using assms(3) Replicated by (cases "sh_tp s") (simp_all add: full_from_shards_def Let_def)
  ultimately show ?thesis by (intro exI [of _ "replicate (sh_tp s) arr"]) simp
next
  case SplitOut
  then have "segments (sh_plan s name) \<noteq> []" using assms(1) by (auto simp: plan_ok_def)
  then obtain sz u ss where seg: "segments (sh_plan s name) = (sz, u) # ss"
    by (metis list.exhaust surj_pair)
  show ?thesis
  proof (cases sz)
    case None
    show ?thesis by (rule roundtrip_rows_even [OF SplitOut seg [unfolded None] assms(3,5)])
  next
    case (Some n)
    show ?thesis by (rule roundtrip_rows_sized [OF SplitOut seg [unfolded Some] assms(3,5)])
  qed
next
  case SplitIn
  show ?thesis by (rule roundtrip_cols [OF SplitIn assms(1,4,5)])
next
  case Experts
  then show ?thesis using assms(2) by simp
qed

text \<open>
  C26: reassembling the shards of a tensor gives the tensor.  For every plan that is not an expert
  plan, whatever the memory the scatter starts from: copies, column slices, even row slices, and row
  slices concatenated over several segments.
\<close>

theorem shard_roundtrip:
  assumes "plan_ok (sh_plan s name)" "kind (sh_plan s name) \<noteq> Experts" "0 < sh_tp s" "mat_ok arr"
    "shard s name arr = Inr parts"
  shows "\<exists>ms. parts = map Some ms \<and> length ms = sh_tp s \<and> full_from_shards junk s name ms = Inr arr"
  by (rule shards_join [OF assms])

definition iota :: "nat \<Rightarrow> nat \<Rightarrow> nat mat" where
  "iota h w = \<lparr> m_cols = w, m_rows = map (\<lambda>i. map (\<lambda>j. i * w + j) [0..<w]) [0..<h] \<rparr>"

theorem shard_roundtrip_witness:
  "let s = sharding_of (qwen_sharding qwen_tiny 2 128);
       name = lit ''model.language_model.layers.3.linear_attn.in_proj_qkv.weight''
   in \<exists>ms. shard s name (iota 48 2) = Inr (map Some ms) \<and> full_from_shards 7 s name ms = Inr (iota 48 2) \<and>
        map (hd \<circ> hd \<circ> m_rows) ms = [0, 8]"
proof -
  let ?s = "sharding_of (qwen_sharding qwen_tiny 2 128)"
  let ?name = "lit ''model.language_model.layers.3.linear_attn.in_proj_qkv.weight''"
  have sh: "map_sum id (map (\<lambda>m. hd (hd (m_rows (the m))))) (shard ?s ?name (iota 48 2)) = Inr [0, 8]"
    "map_sum id (list_all (\<lambda>m. m \<noteq> None)) (shard ?s ?name (iota 48 2)) = Inr True"
    by code_simp+
  then obtain parts where parts: "shard ?s ?name (iota 48 2) = Inr parts" by (cases "shard ?s ?name (iota 48 2)") auto
  have "parts = map Some (map the parts)" 
  proof -
    have "\<forall>m \<in> set parts. m \<noteq> None" using sh(2) parts by (simp add: list_all_iff)
    then show ?thesis by (auto intro!: nth_equalityI)
  qed
  then obtain ms where ms: "shard ?s ?name (iota 48 2) = Inr (map Some ms)" using parts by metis
  then have first: "map (hd \<circ> hd \<circ> m_rows) ms = [0, 8]" using sh(1) by (simp add: o_def)
  have "\<exists>ms'. map Some ms = map Some ms' \<and> length ms' = sh_tp ?s \<and> full_from_shards 7 ?s ?name ms' = Inr (iota 48 2)"
    by (rule shard_roundtrip [OF _ _ _ _ ms]) code_simp+
  then have "full_from_shards 7 ?s ?name ms = Inr (iota 48 2)" by (auto dest: inj_map_eq_map [OF inj_Some, THEN iffD1])
  then show ?thesis using ms first by (auto simp: Let_def)
qed

section \<open>Experts\<close>

lemma owner_div:
  assumes "0 < sh_tp s" "sh_experts s mod sh_tp s = 0" "e < sh_experts s"
  shows "owner s e = Inr (e div (sh_experts s div sh_tp s))" "e div (sh_experts s div sh_tp s) < sh_tp s"
proof -
  let ?per = "sh_experts s div sh_tp s"
  have n: "sh_tp s * ?per = sh_experts s" by (rule even_parts [OF assms(2)])
  then have per: "0 < ?per" using assms(3) by (cases "?per = 0") auto
  show lt: "e div ?per < sh_tp s"
    using n assms(3) by (metis less_mult_imp_div_less)
  show "owner s e = Inr (e div ?per)" using assms(1) per lt by (simp add: owner_def Let_def)
qed

lemma card_div: "0 < per \<Longrightarrow> card {e. e div per = r} = per" for per :: nat
proof -
  assume per: "0 < per"
  have "{e. e div per = r} = {r * per..<r * per + per}"
  proof (intro set_eqI iffI)
    fix e assume "e \<in> {e. e div per = r}"
    then show "e \<in> {r * per..<r * per + per}"
      using per dividend_less_div_times [of per e] by auto
  next
    fix e assume "e \<in> {r * per..<r * per + per}"
    then obtain k where "e = r * per + k" "k < per" using le_Suc_ex by fastforce
    then show "e \<in> {e. e div per = r}" using per by simp
  qed
  then show ?thesis by simp
qed

lemma expert_share:
  assumes "0 < sh_tp s" "sh_experts s mod sh_tp s = 0" "0 < sh_experts s" "r < sh_tp s"
  shows "card {e. e < sh_experts s \<and> owner s e = Inr r} = sh_experts s div sh_tp s"
proof -
  let ?per = "sh_experts s div sh_tp s"
  have n: "sh_tp s * ?per = sh_experts s" by (rule even_parts [OF assms(2)])
  then have per: "0 < ?per" using assms(3) by (cases "?per = 0") auto
  have "{e. e < sh_experts s \<and> owner s e = Inr r} = {e. e div ?per = r}"
  proof (intro set_eqI iffI)
    fix e assume "e \<in> {e. e < sh_experts s \<and> owner s e = Inr r}"
    then show "e \<in> {e. e div ?per = r}" using owner_div [OF assms(1,2)] by auto
  next
    fix e assume e: "e \<in> {e. e div ?per = r}"
    then have "e div ?per < sh_tp s" using assms(4) by simp
    then have "e < sh_tp s * ?per" using per by (simp add: div_less_iff_less_mult)
    then show "e \<in> {e. e < sh_experts s \<and> owner s e = Inr r}"
      using e n owner_div [OF assms(1,2)] by auto
  qed
  then show ?thesis using card_div [OF per] by simp
qed

lemma expert_shards:
  assumes "sh_plan s name = \<lparr> kind = Experts, segments = [], expert = Some e \<rparr>" "owner s e = Inr o'"
  shows "shard s name arr = Inr (map (\<lambda>r. if o' = r then Some arr else None) [0..<sh_tp s])"
  using assms by (simp add: shard_def Let_def rmap_Inr)

lemma qwen_sharding_Inr:
  "qwen_sharding cfg tp block = Inr s \<Longrightarrow>
     sh_tp s = tp \<and> 1 < tp \<and> sh_block s = block \<and> sh_plan s = qwen_plan_for cfg \<and> sh_experts s = n_experts cfg \<and>
     n_experts cfg mod tp = 0"
  by (auto simp: qwen_sharding_def split: if_splits)

lemma ds_sharding_Inr:
  "ds_sharding cfg tp block = Inr s \<Longrightarrow>
     sh_tp s = tp \<and> 1 < tp \<and> sh_block s = block \<and> sh_plan s = ds_plan_for cfg \<and> sh_experts s = n_routed_experts cfg \<and>
     n_routed_experts cfg mod tp = 0"
  by (auto simp: ds_sharding_def split: if_splits)

lemma expert_goes_to_owner:
  assumes "0 < sh_tp s" "sh_experts s mod sh_tp s = 0" "e < sh_experts s"
    "sh_plan s name = \<lparr> kind = Experts, segments = [], expert = Some e \<rparr>"
  shows "\<exists>k < sh_tp s. owner s e = Inr k \<and>
    shard s name arr = Inr (map (\<lambda>r. if k = r then Some arr else None) [0..<sh_tp s])"
  using owner_div [OF assms(1-3)] expert_shards [OF assms(4)] by blast

text \<open>
  The experts are partitioned.  The three matrices of an expert go whole to one rank, the same
  for all layers, decided by the number in the name, and the other ranks get nothing; every rank owns
  the same number of experts.
\<close>

theorem expert_partition:
  assumes "qwen_sharding cfg tp block = Inr s" "e < n_experts cfg" "w \<in> {lit ''gate'', lit ''up'', lit ''down''}"
  shows "\<exists>k < tp. owner s e = Inr k \<and>
    shard s (qwen_expert_name layer e w) arr = Inr (map (\<lambda>r. if k = r then Some arr else None) [0..<tp]) \<and>
    (\<forall>r < tp. card {e'. e' < n_experts cfg \<and> owner s e' = Inr r} = n_experts cfg div tp)"
proof -
  note s = qwen_sharding_Inr [OF assms(1)]
  have tp: "0 < sh_tp s" "sh_experts s mod sh_tp s = 0" using s by auto
  have e: "e < sh_experts s" using s assms(2) by simp
  have "shard s (qwen_expert_name layer e w) arr =
      Inr (map (\<lambda>r. if e div (sh_experts s div sh_tp s) = r then Some arr else None) [0..<sh_tp s])"
    by (rule expert_shards [OF _ owner_div(1) [OF tp e]]) (use s qwen_expert_planned [OF assms(3)] in simp)
  then show ?thesis
    using owner_div [OF tp e] expert_share [OF tp] e s by auto
qed

theorem expert_partition_witness:
  "\<exists>k < 2. owner (sharding_of (qwen_sharding qwen_tiny 2 128)) 4 = Inr k \<and>
    shard (sharding_of (qwen_sharding qwen_tiny 2 128)) (qwen_expert_name 7 4 (lit ''up'')) (iota 1 1) =
      Inr (map (\<lambda>r. if k = r then Some (iota 1 1) else None) [0..<2]) \<and>
    card {e'. e' < 6 \<and> owner (sharding_of (qwen_sharding qwen_tiny 2 128)) e' = Inr 0} = 3"
proof -
  have n: "n_experts qwen_tiny = 6" by (simp add: qwen_tiny_def)
  have "4 < n_experts qwen_tiny" "lit ''up'' \<in> {lit ''gate'', lit ''up'', lit ''down''}" by (simp_all add: n)
  from expert_partition [where layer = 7 and arr = "iota 1 1" and block = 128, OF tiny_shardings(1) this]
  show ?thesis unfolding n by auto
qed

text \<open>The same for the routed experts of the DeepSeek checkpoint.\<close>

lemma ds_expert_partition:
  assumes "ds_sharding cfg tp block = Inr s" "e < n_routed_experts cfg" "w \<in> {lit ''1'', lit ''2'', lit ''3''}"
  shows "shard s (ds_expert_name layer e w) arr =
    Inr (map (\<lambda>r. if e div (n_routed_experts cfg div tp) = r then Some arr else None) [0..<tp])"
proof -
  note s = ds_sharding_Inr [OF assms(1)]
  have tp: "0 < sh_tp s" "sh_experts s mod sh_tp s = 0" "e < sh_experts s" using s assms(2) by auto
  show ?thesis
    using expert_shards [OF _ owner_div(1) [OF tp], of "ds_expert_name layer e w" arr] s ds_expert_planned [OF assms(3)]
    by simp
qed

section \<open>Two corners of the plans\<close>

text \<open>
  \<open>full_scale_from_shards\<close> has no branch for a replicated tensor, although \<open>shard_scale\<close>
  returns its copies: the Qwen class then indexes an empty tuple.
\<close>

lemma replicated_scale_not_reassembled:
  assumes "kind (sh_plan s name) = Replicated" "plan_ok (sh_plan s name)"
  shows "shard_scale s name m = Inr (replicate (sh_tp s) m) \<and> full_scale_from_shards junk s name ms = Inl IndexError"
  using assms by (simp add: shard_scale_def full_scale_from_shards_def plan_ok_def Let_def)

text \<open>The \<open>$\<close> of the patterns lets a name with a final newline through.\<close>

lemma newline_name_planned:
  "kind (qwen_plan_for c (lit ''lm_head.weight'' @ [10])) = SplitOut"
  by (simp add: qwen_plan_for_def re_lm_head_def starts_with_def split_plan_def)

end
