(* ===== verification/DsShard.thy ===== *)
theory DsShard
  imports TpShard
begin

text \<open>
  The class \<open>DeepseekV4Sharding\<close> of \<open>loaders/tp_shard.py\<close>, which repeats the methods of the
  Qwen class instead of calling them, and the proof that on the plans of a DeepSeek checkpoint the
  two are the same.  The two classes provide one interface to the rank tables, stated as a locale.
\<close>

section \<open>The methods\<close>

definition ds_segment_ranges :: "sharding \<Rightarrow> nat \<Rightarrow> nat \<Rightarrow> py_error + (nat \<times> nat) list" where
  "ds_segment_ranges self sz unit =
     (if sh_tp self = 0 then Inl ZeroDivisionError
      else let per = sz div sh_tp self
           in if sz mod sh_tp self \<noteq> 0 then Inl ShardError
              else if unit = 0 then Inl ZeroDivisionError
              else if per mod unit \<noteq> 0 then Inl ShardError
              else Inr (map (\<lambda>r. (r * per, (r + 1) * per)) [0..<sh_tp self]))"

fun ds_segment_row_ranges :: "sharding \<Rightarrow> nat \<Rightarrow> nat \<Rightarrow> (nat option \<times> nat) list \<Rightarrow> py_error + (nat \<times> nat) list" where
  "ds_segment_row_ranges self r base [] = Inr []"
| "ds_segment_row_ranges self r base ((sz, unit) # ss) =
     (case sz of None \<Rightarrow> Inl ShardError
      | Some n \<Rightarrow>
          rbind (ds_segment_ranges self n unit) (\<lambda>rng.
          rbind (ds_segment_row_ranges self r (base + n) ss) (\<lambda>rr.
            let (b, e) = rng ! r in Inr ((base + b, base + e) # rr))))"

definition ds_rank_row_ranges :: "sharding \<Rightarrow> tensor_plan \<Rightarrow> py_error + (nat \<times> nat) list list" where
  "ds_rank_row_ranges self plan = rmap (\<lambda>r. ds_segment_row_ranges self r 0 (segments plan)) [0..<sh_tp self]"

definition ds_col_ranges :: "sharding \<Rightarrow> tensor_plan \<Rightarrow> py_error + (nat \<times> nat) list list" where
  "ds_col_ranges self plan =
     (case segments plan of
        [] \<Rightarrow> Inl IndexError
      | (None, _) # _ \<Rightarrow> Inl TypeError
      | (Some sz, unit) # _ \<Rightarrow>
          rbind (ds_segment_ranges self sz unit) (\<lambda>rng.
            Inr (map (\<lambda>r. [rng ! r]) [0..<sh_tp self])))"

definition ds_rank_ranges :: "sharding \<Rightarrow> pystr \<Rightarrow> nat \<times> nat \<Rightarrow> py_error + (nat \<times> nat) list list" where
  "ds_rank_ranges self name shp =
     (let plan = sh_plan self name
      in case kind plan of
           SplitOut \<Rightarrow>
             (case segments plan of
                [] \<Rightarrow> Inl IndexError
              | (None, _) # _ \<Rightarrow>
                  (if sh_tp self = 0 then Inl ZeroDivisionError
                   else if fst shp mod sh_tp self \<noteq> 0 then Inl ShardError
                   else let per = fst shp div sh_tp self
                        in Inr (map (\<lambda>r. [(r * per, (r + 1) * per)]) [0..<sh_tp self]))
              | _ \<Rightarrow>
                  rbind (segments_total (segments plan)) (\<lambda>total.
                    if total \<noteq> fst shp then Inl ShardError else ds_rank_row_ranges self plan))
         | SplitIn \<Rightarrow>
             (case segments plan of
                [] \<Rightarrow> Inl IndexError
              | (sz, _) # _ \<Rightarrow>
                  (if sz \<noteq> Some (snd shp) then Inl ShardError else ds_col_ranges self plan))
         | _ \<Rightarrow> Inl ShardError)"

definition ds_check_range :: "sharding \<Rightarrow> bool \<Rightarrow> nat \<times> nat \<Rightarrow> py_error + unit" where
  "ds_check_range self quantized be =
     (let (b, e) = be
      in if e \<le> b then Inl ShardError
         else if quantized then
           (if sh_block self = 0 then Inl ZeroDivisionError
            else if b mod sh_block self \<noteq> 0 \<and> (e - 1) div sh_block self \<noteq> b div sh_block self
            then Inl ShardError else Inr ())
         else Inr ())"

definition ds_validate_tensor :: "sharding \<Rightarrow> pystr \<Rightarrow> nat \<times> nat \<Rightarrow> bool \<Rightarrow> py_error + unit" where
  "ds_validate_tensor self name shp quantized =
     (if kind (sh_plan self name) \<in> {Replicated, Experts} then Inr ()
      else rbind (ds_rank_ranges self name shp) (\<lambda>rrs.
           rbind (rmap (ds_check_range self quantized) (concat rrs)) (\<lambda>_. Inr ())))"

definition ds_owner :: "sharding \<Rightarrow> nat \<Rightarrow> py_error + nat" where
  "ds_owner self e =
     (if sh_tp self = 0 then Inl ZeroDivisionError
      else let per = sh_experts self div sh_tp self
           in if per = 0 then Inl ZeroDivisionError else Inr (min (e div per) (sh_tp self - 1)))"

definition ds_shard :: "sharding \<Rightarrow> pystr \<Rightarrow> 'a mat \<Rightarrow> py_error + 'a mat option list" where
  "ds_shard self name arr =
     (let plan = sh_plan self name
      in case kind plan of
           Replicated \<Rightarrow> Inr (replicate (sh_tp self) (Some arr))
         | Experts \<Rightarrow>
             (case expert plan of
                None \<Rightarrow> Inl TypeError
              | Some e \<Rightarrow>
                  rmap (\<lambda>r. rbind (ds_owner self e) (\<lambda>o'. Inr (if o' = r then Some arr else None))) [0..<sh_tp self])
         | k \<Rightarrow>
             rbind (ds_rank_ranges self name (shape arr)) (\<lambda>rrs.
               rmap (\<lambda>rr. rbind (if k = SplitOut then cut_rows arr rr else cut_cols arr rr) (\<lambda>m. Inr (Some m)))
                 rrs))"

text \<open>No guard on the segments: every DeepSeek plan has one.\<close>

definition ds_shard_scale :: "sharding \<Rightarrow> pystr \<Rightarrow> 'a mat \<Rightarrow> py_error + 'a mat list" where
  "ds_shard_scale self name scale =
     (let plan = sh_plan self name; blk = sh_block self
      in case kind plan of
           Replicated \<Rightarrow> Inr (replicate (sh_tp self) scale)
         | Experts \<Rightarrow> Inl ShardError
         | SplitOut \<Rightarrow>
             rbind (ds_rank_row_ranges self plan) (\<lambda>rrs.
             if blk = 0 then Inl ZeroDivisionError
             else rmap (\<lambda>rr. cut_rows scale (map (block_range blk) rr)) rrs)
         | SplitIn \<Rightarrow>
             rbind (ds_col_ranges self plan) (\<lambda>rrs.
             if blk = 0 then Inl ZeroDivisionError
             else rmap (\<lambda>rr. cut_cols scale (map (block_range blk) rr)) rrs))"

definition ds_shard_pair ::
  "sharding \<Rightarrow> pystr \<Rightarrow> 'a mat \<Rightarrow> 'b mat \<Rightarrow> py_error + ('a mat option \<times> 'b mat option) list" where
  "ds_shard_pair self name fp8 scale =
     rbind (ds_shard self name fp8) (\<lambda>w.
     rbind (ds_shard_scale self name scale) (\<lambda>s.
       Inr (map (\<lambda>r. (w ! r, case w ! r of None \<Rightarrow> None | Some _ \<Rightarrow> Some (s ! r))) [0..<sh_tp self])))"

text \<open>The reassembly is a plain concatenation.\<close>

definition ds_full_from_shards :: "sharding \<Rightarrow> pystr \<Rightarrow> 'a mat list \<Rightarrow> py_error + 'a mat" where
  "ds_full_from_shards self name shards =
     (let plan = sh_plan self name
      in case kind plan of
           Replicated \<Rightarrow> (case shards of [] \<Rightarrow> Inl IndexError | m # _ \<Rightarrow> Inr m)
         | Experts \<Rightarrow> Inl ShardError
         | SplitOut \<Rightarrow> (if segments plan = [] then Inl IndexError else concat_rows shards)
         | SplitIn \<Rightarrow> concat_cols shards)"

definition ds_full_scale_from_shards :: "sharding \<Rightarrow> pystr \<Rightarrow> 'a mat list \<Rightarrow> py_error + 'a mat" where
  "ds_full_scale_from_shards self name shards =
     (if kind (sh_plan self name) = SplitOut then concat_rows shards else concat_cols shards)"

section \<open>Agreement with the Qwen class\<close>

lemma ds_ranges:
  "ds_segment_ranges = segment_ranges" "ds_segment_row_ranges = segment_row_ranges"
  "ds_rank_row_ranges = rank_row_ranges" "ds_col_ranges = col_ranges" "ds_rank_ranges = rank_ranges"
proof -
  show sr: "ds_segment_ranges = segment_ranges"
    by (intro ext) (simp add: ds_segment_ranges_def segment_ranges_def)
  have "ds_segment_row_ranges s r base ss = segment_row_ranges s r base ss" for s r base ss
    by (induction s r base ss rule: segment_row_ranges.induct) (auto simp: sr intro!: rbind_cong split: option.split)
  then show srr: "ds_segment_row_ranges = segment_row_ranges" by (intro ext)
  show rrr: "ds_rank_row_ranges = rank_row_ranges"
    by (intro ext) (unfold ds_rank_row_ranges_def rank_row_ranges_def srr, rule refl)
  show cr: "ds_col_ranges = col_ranges"
    by (intro ext) (unfold ds_col_ranges_def col_ranges_def sr, rule refl)
  show "ds_rank_ranges = rank_ranges"
    by (intro ext) (unfold ds_rank_ranges_def rank_ranges_def rrr cr, rule refl)
qed

lemma ds_validate: "ds_validate_tensor = validate_tensor"
proof -
  have "ds_check_range = check_range" by (intro ext) (simp add: ds_check_range_def check_range_def)
  then show ?thesis by (intro ext) (unfold ds_validate_tensor_def validate_tensor_def ds_ranges, simp)
qed

lemma ds_owner: "ds_owner = owner"
  by (intro ext) (simp add: ds_owner_def owner_def)

lemma ds_shard: "ds_shard = shard"
  by (intro ext) (unfold ds_shard_def shard_def ds_ranges ds_owner, rule refl)

lemma ds_single_segment: "length (segments (ds_plan_for c name)) \<le> 1"
proof -
  have simps: "length (segments (split_plan k [x])) \<le> 1" "length (segments (split_plan k [])) \<le> 1" for k x
    by (simp_all add: split_plan_def)
  show ?thesis
    unfolding ds_plan_for_def
    by (intro if_split [where P = "\<lambda>p. length (segments p) \<le> 1", THEN iffD2] conjI impI)
      (simp_all only: simps, simp_all add: split_plan_def split: option.split)
qed

lemma ds_shard_scale_same:
  assumes "length (segments (sh_plan s name)) \<le> 1"
  shows "ds_shard_scale s name S = shard_scale s name S"
  using assms by (simp add: ds_shard_scale_def shard_scale_def ds_ranges Let_def split: kind.split)

lemma ds_full_same:
  assumes "length (segments (sh_plan s name)) \<le> 1"
  shows "ds_full_from_shards s name ms = full_from_shards junk s name ms"
  using assms
  by (cases "segments (sh_plan s name)")
    (auto simp: ds_full_from_shards_def full_from_shards_def Let_def split: kind.split option.split)

text \<open>
  The methods the DeepSeek class repeats do what the Qwen methods do.  For an accepted
  DeepSeek configuration and every tensor name, the ranges, the validation, the owner, the slices of
  weights and scales and the reassembly of weights agree, errors included.
\<close>

theorem deepseek_copy_agrees:
  assumes "ds_sharding cfg tp block = Inr s"
  shows "ds_rank_ranges s name shp = rank_ranges s name shp \<and>
    ds_validate_tensor s name shp q = validate_tensor s name shp q \<and>
    ds_owner s e = owner s e \<and> ds_shard s name w = shard s name w \<and>
    ds_shard_scale s name S = shard_scale s name S \<and> ds_shard_pair s name w S = shard_pair s name w S \<and>
    ds_full_from_shards s name ms = full_from_shards junk s name ms"
proof -
  have one: "length (segments (sh_plan s name)) \<le> 1"
    using ds_sharding_Inr [OF assms] ds_single_segment by simp
  show ?thesis
    by (simp add: ds_ranges ds_validate ds_owner ds_shard ds_shard_scale_same [OF one] ds_shard_pair_def
        shard_pair_def ds_full_same [OF one])
qed

theorem deepseek_copy_agrees_witness:
  "let s = sharding_of (ds_sharding ds_tiny 2 128)
   in ds_full_from_shards s (lit ''layers.0.attn.wo_a.weight'') [iota 2 2, iota 2 2] =
        Inr \<lparr> m_cols = 2, m_rows = [[0, 1], [2, 3], [0, 1], [2, 3]] \<rparr> \<and>
      full_from_shards 0 s (lit ''layers.0.attn.wo_a.weight'') [iota 2 2, iota 2 2] =
        Inr \<lparr> m_cols = 2, m_rows = [[0, 1], [2, 3], [0, 1], [2, 3]] \<rparr>"
proof -
  let ?s = "sharding_of (ds_sharding ds_tiny 2 128)" and ?n = "lit ''layers.0.attn.wo_a.weight''"
  have "ds_full_from_shards ?s ?n [iota 2 2, iota 2 2] = full_from_shards 0 ?s ?n [iota 2 2, iota 2 2]"
    using deepseek_copy_agrees [where name = ?n and ms = "[iota 2 2, iota 2 2]" and junk = 0, OF tiny_shardings(2)]
    by blast
  moreover have "ds_full_from_shards ?s ?n [iota 2 2, iota 2 2] =
      Inr \<lparr> m_cols = 2, m_rows = [[0, 1], [2, 3], [0, 1], [2, 3]] \<rparr>"
    by code_simp
  ultimately show ?thesis by (simp add: Let_def)
qed

text \<open>
  The one method that differs: the DeepSeek reassembly of scales joins the copies of a replicated
  scale side by side.
\<close>

lemma replicated_scale_doubled:
  assumes "kind (sh_plan s name) = Replicated" "sh_tp s = 2"
  shows "ds_shard_scale s name m = Inr [m, m] \<and> ds_full_scale_from_shards s name [m, m] = concat_cols [m, m]"
  using assms by (simp add: ds_shard_scale_def ds_full_scale_from_shards_def Let_def numeral_2_eq_2)

section \<open>The interface of the two classes\<close>

text \<open>
  What a rank table relies on: a sharding object that was constructed plans well, a tensor that is not
  an expert is the join of its cuts, and an expert is cut to its owner.
\<close>

locale shard_class =
  fixes accepted :: "sharding \<Rightarrow> bool"
    and own :: "sharding \<Rightarrow> nat \<Rightarrow> py_error + nat"
    and cut :: "sharding \<Rightarrow> pystr \<Rightarrow> 'a mat \<Rightarrow> py_error + 'a mat option list"
    and join :: "sharding \<Rightarrow> pystr \<Rightarrow> 'a mat list \<Rightarrow> py_error + 'a mat"
  assumes tp_pos: "accepted s \<Longrightarrow> 0 < sh_tp s"
    and planned: "accepted s \<Longrightarrow> plan_ok (sh_plan s n)"
    and cut_join: "accepted s \<Longrightarrow> kind (sh_plan s n) \<noteq> Experts \<Longrightarrow> mat_ok m \<Longrightarrow> cut s n m = Inr ps \<Longrightarrow>
        \<exists>ms. ps = map Some ms \<and> length ms = sh_tp s \<and> join s n ms = Inr m"
    and cut_expert: "accepted s \<Longrightarrow> sh_plan s n = \<lparr> kind = Experts, segments = [], expert = Some e \<rparr> \<Longrightarrow>
        e < sh_experts s \<Longrightarrow>
        \<exists>k < sh_tp s. own s e = Inr k \<and> cut s n m = Inr (map (\<lambda>r. if k = r then Some m else None) [0..<sh_tp s])"
begin

lemma cut_dense:
  assumes "accepted s" "kind (sh_plan s n) \<noteq> Experts" "mat_ok m" "cut s n m = Inr ps"
  shows "length ps = sh_tp s" "r < sh_tp s \<Longrightarrow> \<exists>p. ps ! r = Some p" "join s n (map the ps) = Inr m"
proof -
  obtain ms where ms: "ps = map Some ms" "length ms = sh_tp s" "join s n ms = Inr m"
    using cut_join [OF assms] by blast
  then have "map the ps = ms" by (simp add: o_def)
  with ms show "length ps = sh_tp s" "r < sh_tp s \<Longrightarrow> \<exists>p. ps ! r = Some p" "join s n (map the ps) = Inr m" by auto
qed

lemma expert_once:
  assumes "accepted s" "sh_plan s n = \<lparr> kind = Experts, segments = [], expert = Some e \<rparr>" "e < sh_experts s"
  shows "\<exists>!r. r < sh_tp s \<and> own s e = Inr r"
  using cut_expert [OF assms] by auto

end

definition qwen_accepted :: "sharding \<Rightarrow> bool" where
  "qwen_accepted s \<longleftrightarrow> (\<exists>cfg tp block. qwen_sharding cfg tp block = Inr s)"

definition ds_accepted :: "sharding \<Rightarrow> bool" where
  "ds_accepted s \<longleftrightarrow> (\<exists>cfg tp block. ds_sharding cfg tp block = Inr s)"

lemma accepted_facts:
  assumes "qwen_accepted s \<or> ds_accepted s"
  shows "0 < sh_tp s" "sh_experts s mod sh_tp s = 0" "plan_ok (sh_plan s n)"
  using assms qwen_sharding_Inr ds_sharding_Inr qwen_plan_ok ds_plan_ok
  by (fastforce simp: qwen_accepted_def ds_accepted_def)+

lemma ds_accepted_single: "ds_accepted s \<Longrightarrow> length (segments (sh_plan s n)) \<le> 1"
  using ds_sharding_Inr ds_single_segment by (fastforce simp: ds_accepted_def)

interpretation qwen_class: shard_class qwen_accepted owner shard "full_from_shards junk" for junk
proof
  fix s n m ps e
  assume a: "qwen_accepted s"
  note f = accepted_facts [OF disjI1 [OF a]]
  show "0 < sh_tp s" "plan_ok (sh_plan s n)" by (rule f)+
  show "\<exists>ms. ps = map Some ms \<and> length ms = sh_tp s \<and> full_from_shards junk s n ms = Inr m"
    if "kind (sh_plan s n) \<noteq> Experts" "mat_ok m" "shard s n m = Inr ps"
    by (rule shards_join [OF f(3) that(1) f(1) that(2,3)])
  show "\<exists>k < sh_tp s. owner s e = Inr k \<and> shard s n m = Inr (map (\<lambda>r. if k = r then Some m else None) [0..<sh_tp s])"
    if "sh_plan s n = \<lparr> kind = Experts, segments = [], expert = Some e \<rparr>" "e < sh_experts s"
    by (rule expert_goes_to_owner [OF f(1,2) that(2,1)])
qed

interpretation ds_class: shard_class ds_accepted ds_owner ds_shard ds_full_from_shards
proof
  fix s n m ps e
  assume a: "ds_accepted s"
  note f = accepted_facts [OF disjI2 [OF a]]
  show "0 < sh_tp s" "plan_ok (sh_plan s n)" by (rule f)+
  show "\<exists>ms. ps = map Some ms \<and> length ms = sh_tp s \<and> ds_full_from_shards s n ms = Inr m"
    if "kind (sh_plan s n) \<noteq> Experts" "mat_ok m" "ds_shard s n m = Inr ps"
    using shards_join [OF f(3) that(1) f(1) that(2)] that(3) ds_full_same [OF ds_accepted_single [OF a]]
    unfolding ds_shard by metis
  show "\<exists>k < sh_tp s. ds_owner s e = Inr k \<and> ds_shard s n m = Inr (map (\<lambda>r. if k = r then Some m else None) [0..<sh_tp s])"
    if "sh_plan s n = \<lparr> kind = Experts, segments = [], expert = Some e \<rparr>" "e < sh_experts s"
    unfolding ds_owner ds_shard by (rule expert_goes_to_owner [OF f(1,2) that(2,1)])
qed

end
