(* ===== verification/ShardDequant.thy ===== *)
theory ShardDequant
  imports TpShard
begin

text \<open>
  Sharding before dequantisation (\<open>loaders/tp_shard.py\<close> with \<open>loaders/fp8.py\<close>): a rank that decodes its
  slice of the bytes with its slice of the block scales gets its slice of the decoded tensor.  This is what
  lets \<open>tp/rank_table.py\<close> never materialise a full tensor.
\<close>

section \<open>Scales that follow their weights\<close>

text \<open>
  A rank that holds the global rows \<open>I\<close> of a weight and the rows \<open>J\<close> of its scale decodes them
  by local block index: that is right when local row \<open>k\<close> finds the scale of the block its global
  row lies in.
\<close>

definition blocks_follow :: "nat \<Rightarrow> nat list \<Rightarrow> nat list \<Rightarrow> bool" where
  "blocks_follow blk I J \<longleftrightarrow> length J = cdiv (length I) blk \<and> (\<forall>k < length I. J ! (k div blk) = I ! k div blk)"

lemma cdiv_add_mult: "0 < b \<Longrightarrow> cdiv (c * b + n) b = c + cdiv n b"
proof -
  assume b: "0 < b"
  have "c * b + n + b - 1 = c * b + (n + b - 1)" using b by simp
  then show ?thesis using b by (simp only: cdiv_def) (subst div_mult_self3, auto)
qed

lemma cdiv_mult: "0 < b \<Longrightarrow> cdiv (c * b) b = c"
  using cdiv_add_mult [of b c 0] by (simp add: cdiv_def)

lemma div_lt_cdiv: "0 < b \<Longrightarrow> k < n \<Longrightarrow> k div b < cdiv n b"
  using cdiv_covers [of b n] by (simp add: less_mult_imp_div_less order_less_le_trans)

lemma cdiv_mono: "m \<le> n \<Longrightarrow> cdiv m b \<le> cdiv n b"
  by (simp add: cdiv_def div_le_mono)

lemma cdiv_one:
  assumes "0 < b" "0 < n" "n \<le> b"
  shows "cdiv n b = 1"
proof -
  have "n + b - 1 = 1 * b + (n - 1)" using assms by simp
  moreover have "(1 * b + (n - 1)) div b = 1 + (n - 1) div b" using assms(1) by (intro div_mult_self3) simp
  moreover have "(n - 1) div b = 0" by (rule div_less) (use assms in simp)
  ultimately show ?thesis by (simp only: cdiv_def add_0_right)
qed

lemma blocks_follow_aligned:
  assumes "0 < blk" "b mod blk = 0" "b \<le> e"
  shows "blocks_follow blk [b..<e] [b div blk..<cdiv e blk]"
proof -
  have b: "b = b div blk * blk" using assms(2) by (metis mult_div_mod_eq add_0_right mult.commute)
  have e: "cdiv e blk = b div blk + cdiv (e - b) blk"
    using cdiv_add_mult [OF assms(1), of "b div blk" "e - b"] b assms(3) by simp
  have "[b div blk..<cdiv e blk] ! (k div blk) = [b..<e] ! k div blk" if "k < e - b" for k
  proof -
    have "(b + k) div blk = b div blk + k div blk"
      using assms(1) by (subst b) (simp add: div_mult_self3)
    moreover have "k div blk < cdiv (e - b) blk" using div_lt_cdiv assms(1) that by blast
    ultimately show ?thesis using e that by simp
  qed
  then show ?thesis using e by (simp add: blocks_follow_def)
qed

lemma blocks_follow_inside:
  assumes "0 < blk" "b < e" "(e - 1) div blk = b div blk"
  shows "blocks_follow blk [b..<e] [b div blk..<cdiv e blk]"
proof -
  let ?q = "b div blk"
  have lo: "?q * blk \<le> b" by simp
  have hi: "e - 1 < (?q + 1) * blk" using assms(1,3) dividend_less_div_times [of blk "e - 1"] by simp
  have below: "?q * blk < e" using lo assms(2) by linarith
  have e: "e = ?q * blk + (e - ?q * blk)" using below by linarith
  have e': "0 < e - ?q * blk" "e - ?q * blk \<le> blk"
    using below hi by (simp_all add: algebra_simps)
  have ce: "cdiv e blk = ?q + 1"
    using cdiv_add_mult [OF assms(1), of ?q "e - ?q * blk"] cdiv_one [OF assms(1) e'] e by simp
  have len: "e - b \<le> blk" "0 < e - b" using e'(2) lo assms(2) by linarith+
  have "[?q..<cdiv e blk] ! (k div blk) = [b..<e] ! k div blk" if "k < e - b" for k
  proof -
    have "k div blk = 0" using that len by simp
    moreover have "(b + k) div blk = ?q"
    proof (rule antisym)
      have "(b + k) div blk \<le> (e - 1) div blk" by (rule div_le_mono) (use that in simp)
      then show "(b + k) div blk \<le> ?q" using assms(3) by simp
      show "?q \<le> (b + k) div blk" by (rule div_le_mono) simp
    qed
    ultimately show ?thesis using ce that by simp
  qed
  then show ?thesis using ce cdiv_one [OF assms(1) len(2,1)] by (simp add: blocks_follow_def)
qed

lemma blocks_follow_append:
  assumes "0 < blk" "blocks_follow blk I J" "length I mod blk = 0" "blocks_follow blk I' J'"
  shows "blocks_follow blk (I @ I') (J @ J')"
proof -
  have l: "length I = length I div blk * blk" using assms(3) by (metis mult_div_mod_eq add_0_right mult.commute)
  have J: "length J = length I div blk"
    using assms(2) cdiv_mult [OF assms(1), of "length I div blk"] l by (simp add: blocks_follow_def)
  have "(J @ J') ! (k div blk) = (I @ I') ! k div blk" if "k < length I + length I'" for k
  proof (cases "k < length I")
    case True
    then have "k div blk < length J" using J l assms(1) by (metis less_mult_imp_div_less)
    then show ?thesis using True assms(2) by (simp add: nth_append blocks_follow_def)
  next
    case False
    then obtain k' where k: "k = length I + k'" using le_Suc_ex not_less by blast
    then have "k div blk = length J + k' div blk"
      using J assms(1) l div_mult_self3 [of blk "length I div blk" k'] by simp
    then show ?thesis using k that assms(4) by (simp add: nth_append blocks_follow_def)
  qed
  moreover have "cdiv (length I + length I') blk = length J + cdiv (length I') blk"
    using cdiv_add_mult [OF assms(1), of "length I div blk" "length I'"] J l by simp
  ultimately show ?thesis using assms(4) by (simp add: blocks_follow_def)
qed

lemma slice_upt: "e \<le> length xs \<Longrightarrow> slice b e xs = map ((!) xs) [b..<e]"
  by (rule nth_equalityI) (auto simp: slice_nth)

lemma pieces_rows_upt:
  assumes "list_all (\<lambda>(b, e). e \<le> length R) rr"
  shows "pieces_rows R rr = map ((!) R) (concat (map (\<lambda>(b, e). [b..<e]) rr))"
  using assms by (induction rr) (auto simp: slice_upt)

lemma dequant_Inr:
  assumes "mat_ok fp8" "0 < bh" "0 < bw" "dequant_weight_blocked fmul bh bw fp8 S = Inr full"
  shows "shape S = (cdiv (n_rows fp8) bh, cdiv (m_cols fp8) bw)" "full = dequant_weight_blocked_loop fmul bh bw fp8 S"
  using assms(4) by (auto simp: dequant_weight_blocked_cases [OF assms(1-3)] split: if_splits)

lemma loop_simps:
  "m_cols (dequant_weight_blocked_loop fmul bh bw fp8 S) = m_cols fp8"
  "n_rows (dequant_weight_blocked_loop fmul bh bw fp8 S) = n_rows fp8"
  "mat_ok (dequant_weight_blocked_loop fmul bh bw fp8 S)"
  "i < n_rows fp8 \<Longrightarrow> m_rows (dequant_weight_blocked_loop fmul bh bw fp8 S) ! i =
     map (\<lambda>j. fmul (decode_e4m3fn (m_rows fp8 ! i ! j)) (m_rows S ! (i div bh) ! (j div bw))) [0..<m_cols fp8]"
  by (auto simp: dequant_weight_blocked_loop_def shape_def n_rows_def mat_ok_def list_all_iff)

definition take_rows :: "'a mat \<Rightarrow> nat list \<Rightarrow> 'a mat" where
  "take_rows m I = \<lparr> m_cols = m_cols m, m_rows = map ((!) (m_rows m)) I \<rparr>"

lemma take_rows_simps:
  "m_cols (take_rows m I) = m_cols m" "n_rows (take_rows m I) = length I"
  "mat_ok m \<Longrightarrow> set I \<subseteq> {..<n_rows m} \<Longrightarrow> mat_ok (take_rows m I)"
  by (auto simp: take_rows_def n_rows_def mat_ok_def list_all_iff subset_iff)

lemma dequant_take_rows:
  assumes "mat_ok fp8" "0 < bh" "0 < bw" "dequant_weight_blocked fmul bh bw fp8 S = Inr full"
    "set I \<subseteq> {..<n_rows fp8}" "blocks_follow bh I J"
  shows "dequant_weight_blocked fmul bh bw (take_rows fp8 I) (take_rows S J) = Inr (take_rows full I)"
proof -
  note full = dequant_Inr [OF assms(1-4)]
  have ok: "mat_ok (take_rows fp8 I)" using assms(1,5) take_rows_simps(3) by blast
  have shp: "shape (take_rows S J) = (cdiv (n_rows (take_rows fp8 I)) bh, cdiv (m_cols (take_rows fp8 I)) bw)"
    using full(1) assms(6) by (simp add: shape_def take_rows_simps blocks_follow_def)
  have "m_rows (dequant_weight_blocked_loop fmul bh bw (take_rows fp8 I) (take_rows S J)) ! k = m_rows (take_rows full I) ! k"
    if k: "k < length I" for k
  proof -
    have "I ! k < n_rows fp8" using assms(5) k nth_mem by blast
    moreover have "J ! (k div bh) = I ! k div bh" "k div bh < length J"
      using assms(6) k div_lt_cdiv [OF assms(2) k] by (auto simp: blocks_follow_def)
    ultimately show ?thesis
      using k by (simp add: loop_simps take_rows_simps full(2)) (simp add: take_rows_def loop_simps)
  qed
  then have "dequant_weight_blocked_loop fmul bh bw (take_rows fp8 I) (take_rows S J) = take_rows full I"
    by (intro mat.equality nth_equalityI)
      (auto simp: loop_simps take_rows_simps full(2) simp flip: n_rows_def)
  then show ?thesis
    by (simp add: dequant_weight_blocked_cases [OF ok assms(2,3)] shp)
qed

lemma slice_cols_simps:
  "e \<le> m_cols m \<Longrightarrow> m_cols (slice_cols m b e) = e - b" "n_rows (slice_cols m b e) = n_rows m"
  "mat_ok m \<Longrightarrow> mat_ok (slice_cols m b e)"
  "i < n_rows m \<Longrightarrow> mat_ok m \<Longrightarrow> e \<le> m_cols m \<Longrightarrow> m_rows (slice_cols m b e) ! i = map ((!) (m_rows m ! i)) [b..<e]"
  by (auto simp: slice_cols_def n_rows_def mat_ok_def list_all_iff slice_upt)

lemma dequant_slice_cols:
  assumes "mat_ok fp8" "mat_ok S" "0 < bh" "0 < bw" "dequant_weight_blocked fmul bh bw fp8 S = Inr full"
    "b \<le> e" "e \<le> m_cols fp8" "blocks_follow bw [b..<e] [b'..<e']" "e' \<le> m_cols S" "b' \<le> e'"
  shows "dequant_weight_blocked fmul bh bw (slice_cols fp8 b e) (slice_cols S b' e') = Inr (slice_cols full b e)"
proof -
  note full = dequant_Inr [OF assms(1,3,4,5)]
  have ok: "mat_ok (slice_cols fp8 b e)" using assms(1) slice_cols_simps(3) by blast
  have shp: "shape (slice_cols S b' e') = (cdiv (n_rows (slice_cols fp8 b e)) bh, cdiv (m_cols (slice_cols fp8 b e)) bw)"
    using full(1) assms(7-9) by (simp add: shape_def slice_cols_simps blocks_follow_def)
  have "m_rows (dequant_weight_blocked_loop fmul bh bw (slice_cols fp8 b e) (slice_cols S b' e')) ! i =
      m_rows (slice_cols full b e) ! i" if i: "i < n_rows fp8" for i
  proof -
    have si: "i div bh < n_rows S" using full(1) div_lt_cdiv [OF assms(3) i] by (simp add: shape_def)
    have "[b'..<e'] ! (j div bw) = (b + j) div bw \<and> j div bw < e' - b'" if "j < e - b" for j
      using assms(8) that div_lt_cdiv [OF assms(4) that] by (auto simp: blocks_follow_def)
    then show ?thesis
      using i si assms(1,2,6,7,9)
      by (simp add: loop_simps slice_cols_simps full(2)) (auto intro!: nth_equalityI)
  qed
  then have "dequant_weight_blocked_loop fmul bh bw (slice_cols fp8 b e) (slice_cols S b' e') = slice_cols full b e"
    using assms(7)
    by (intro mat.equality nth_equalityI)
      (auto simp: loop_simps slice_cols_simps full(2) simp flip: n_rows_def)
  then show ?thesis
    by (simp add: dequant_weight_blocked_cases [OF ok assms(3,4)] shp)
qed

text \<open>The scale rows of the pieces of one rank.\<close>

lemma pieces_bound:
  "r < tp \<Longrightarrow> list_all (\<lambda>n. n mod tp = 0) ns \<Longrightarrow> list_all (\<lambda>(b, e). b \<le> e \<and> e \<le> base + sum_list ns) (pieces tp r base ns)"
proof (induction ns arbitrary: base)
  case (Cons n ns)
  have "(r + 1) * (n div tp) \<le> tp * (n div tp)" using Cons.prems(1) by (intro mult_right_mono) auto
  also have "\<dots> = n" using Cons.prems(2) even_parts by simp
  finally have "base + (r + 1) * (n div tp) \<le> base + sum_list (n # ns)" by simp
  then show ?case using Cons.IH [of "base + n"] Cons.prems by (simp add: add.assoc)
qed simp

abbreviation rows_of :: "(nat \<times> nat) list \<Rightarrow> nat list" where
  "rows_of rr \<equiv> concat (map (\<lambda>(b, e). [b..<e]) rr)"

lemma pieces_follow_aligned:
  assumes "0 < blk" "base mod blk = 0" "list_all (\<lambda>n. n mod blk = 0 \<and> n div tp mod blk = 0) ns"
  shows "blocks_follow blk (rows_of (pieces tp r base ns)) (rows_of (map (block_range blk) (pieces tp r base ns)))"
  using assms(2,3)
proof (induction ns arbitrary: base)
  case Nil
  then show ?case using assms(1) by (simp add: blocks_follow_def cdiv_def)
next
  case (Cons n ns)
  let ?b = "base + r * (n div tp)" and ?e = "base + (r + 1) * (n div tp)"
  have dv: "blk dvd base" "blk dvd n" "blk dvd n div tp" using Cons.prems by (auto simp: mod_eq_0_iff_dvd)
  then have "?b mod blk = 0" "(?e - ?b) mod blk = 0" by (auto simp: mod_eq_0_iff_dvd)
  moreover have "(base + n) mod blk = 0" using dv by (simp add: mod_eq_0_iff_dvd)
  ultimately show ?case
    using blocks_follow_append [OF assms(1) blocks_follow_aligned [OF assms(1), of ?b ?e]]
      Cons.IH [of "base + n"] Cons.prems(2)
    by (simp add: block_range_def)
qed

lemma check_segments_Inr:
  "check_segments s ss = Inr () \<Longrightarrow>
     list_all (\<lambda>n. n mod sh_block s = 0 \<and> n div sh_tp s mod sh_block s = 0) (map (the \<circ> fst) ss)"
  by (induction s ss rule: check_segments.induct) (auto split: option.splits if_splits)

lemma check_range_Inr:
  assumes "check_range s True (b, e) = Inr ()"
  shows "b < e" "b mod sh_block s = 0 \<or> (e - 1) div sh_block s = b div sh_block s" "0 < sh_block s"
  using assms by (auto simp: check_range_def split: if_splits)

lemma checked_follow:
  assumes "check_range s True (b, e) = Inr ()"
  shows "blocks_follow (sh_block s) [b..<e] [b div sh_block s..<cdiv e (sh_block s)]"
  using check_range_Inr [OF assms] blocks_follow_aligned blocks_follow_inside by (meson less_imp_le)

lemma validated_ranges:
  assumes "validate_tensor s name shp True = Inr ()" "rank_ranges s name shp = Inr rrs"
    "kind (sh_plan s name) \<in> {SplitOut, SplitIn}" "rr \<in> set rrs" "be \<in> set rr"
  shows "check_range s True be = Inr ()"
proof -
  have "be \<in> set (concat rrs)" using assms(4,5) by auto
  then obtain i where i: "i < length (concat rrs)" "be = concat rrs ! i" by (metis in_set_conv_nth)
  obtain us where "rmap (check_range s True) (concat rrs) = Inr us"
    using assms(1-3) by (auto simp: validate_tensor_def rbind_Inr_iff)
  from rmap_nth [OF this i(1)] i(2) show ?thesis by simp
qed

lemma shard_pair_Inr:
  assumes "shard_pair s name w S = Inr pairs"
  obtains ws ss where "shard s name w = Inr ws" "shard_scale s name S = Inr ss"
    "pairs = map (\<lambda>r. (ws ! r, case ws ! r of None \<Rightarrow> None | Some _ \<Rightarrow> Some (ss ! r))) [0..<sh_tp s]"
  using assms by (auto simp: shard_pair_def rbind_Inr_iff)

lemma shard_rank_ranges:
  assumes "kind (sh_plan s name) \<in> {SplitOut, SplitIn}" "shard s name arr = Inr parts"
  obtains rrs where "rank_ranges s name (shape arr) = Inr rrs"
  using assms by (auto simp: shard_def Let_def rbind_Inr_iff)

lemma take_rows_pieces:
  assumes "list_all (\<lambda>(b, e). e \<le> n_rows m) rr"
  shows "\<lparr> m_cols = m_cols m, m_rows = pieces_rows (m_rows m) rr \<rparr> = take_rows m (rows_of rr)"
  using assms by (simp add: take_rows_def pieces_rows_upt n_rows_def)

text \<open>What a rank gets of a matrix under a row split, and of its scale.\<close>

lemma row_shards:
  assumes "kind (sh_plan s name) = SplitOut" "0 < sh_tp s" "segments (sh_plan s name) \<noteq> []"
    "rank_row_ranges s (sh_plan s name) = Inr rrs" "rank_ranges s name (shape arr) = Inr rrs"
    "shard s name arr = Inr parts" "r < sh_tp s"
  defines "ns \<equiv> map (the \<circ> fst) (segments (sh_plan s name))"
  assumes "sum_list ns = n_rows arr"
  shows "parts ! r = Some (take_rows arr (rows_of (pieces (sh_tp s) r 0 ns)))"
proof -
  note rr = rank_row_ranges_Inr [OF assms(4,2), folded ns_def]
  have ns: "ns \<noteq> []" "list_all (\<lambda>n. n mod sh_tp s = 0) ns"
    using assms(3) rr(2) by (auto simp: ns_def list_all_iff)
  have bound: "list_all (\<lambda>(b, e). e \<le> n_rows arr) (pieces (sh_tp s) r 0 ns)"
    using pieces_bound [OF assms(7) ns(2), of 0] assms(9) by (auto simp: list_all_iff)
  have "parts = map Some (map (\<lambda>rr. \<lparr> m_cols = m_cols arr, m_rows = pieces_rows (m_rows arr) rr \<rparr>) rrs)"
    by (rule shard_rows_parts [OF assms(1,2,6,5)]) (use pieces_nonempty [OF ns(1)] rr(1) in auto)
  then show ?thesis
    using assms(7) by (simp add: rr(1) take_rows_pieces [OF bound])
qed

lemma row_scales:
  assumes "kind (sh_plan s name) = SplitOut" "0 < sh_tp s" "0 < sh_block s" "segments (sh_plan s name) \<noteq> []"
    "rank_row_ranges s (sh_plan s name) = Inr rrs" "shard_scale s name S = Inr ss" "r < sh_tp s"
  defines "ns \<equiv> map (the \<circ> fst) (segments (sh_plan s name))"
  assumes "n_rows S = cdiv (sum_list ns) (sh_block s)"
  shows "ss ! r = take_rows S (rows_of (map (block_range (sh_block s)) (pieces (sh_tp s) r 0 ns)))"
proof -
  let ?rr = "map (block_range (sh_block s)) (pieces (sh_tp s) r 0 ns)"
  note rr = rank_row_ranges_Inr [OF assms(5,2), folded ns_def]
  have ns: "ns \<noteq> []" "list_all (\<lambda>n. n mod sh_tp s = 0) ns"
    using assms(4) rr(2) by (auto simp: ns_def list_all_iff)
  have bound: "list_all (\<lambda>(b, e). e \<le> n_rows S) ?rr"
    using pieces_bound [OF assms(7) ns(2), of 0] assms(9) cdiv_mono by (auto simp: list_all_iff block_range_def)
  have all: "rmap (\<lambda>rr. cut_rows S (map (block_range (sh_block s)) rr)) rrs = Inr ss"
    using assms(1,3,5,6) by (auto simp: shard_scale_def Let_def rbind_Inr_iff split: if_splits)
  have len: "r < length rrs" "rrs ! r = pieces (sh_tp s) r 0 ns" using assms(7) by (auto simp: rr(1))
  have "cut_rows S ?rr = Inr (ss ! r)" using rmap_nth [OF all len(1)] len(2) by simp
  then show ?thesis
    using cut_rows_Inr [of ?rr S] pieces_nonempty [OF ns(1)] take_rows_pieces [OF bound] by auto
qed

lemma row_blocks_follow:
  assumes "kind (sh_plan s name) = SplitOut" "0 < sh_tp s" "0 < sh_block s" "segments (sh_plan s name) \<noteq> []"
    "rank_row_ranges s (sh_plan s name) = Inr rrs" "rank_ranges s name shp = Inr rrs"
    "shard_scale s name S = Inr ss" "r < sh_tp s" "validate_tensor s name shp True = Inr ()"
  defines "ns \<equiv> map (the \<circ> fst) (segments (sh_plan s name))"
  shows "blocks_follow (sh_block s) (rows_of (pieces (sh_tp s) r 0 ns))
    (rows_of (map (block_range (sh_block s)) (pieces (sh_tp s) r 0 ns)))"
proof (cases "1 < length (segments (sh_plan s name))")
  case True
  then have "check_segments s (segments (sh_plan s name)) = Inr ()"
    using assms(1,7) by (auto simp: shard_scale_def Let_def rbind_Inr_iff)
  from check_segments_Inr [OF this] show ?thesis
    unfolding ns_def by (intro pieces_follow_aligned [OF assms(3)]) simp_all
next
  case False
  then have "length (segments (sh_plan s name)) = 1" using assms(4) by (cases "segments (sh_plan s name)") auto
  then obtain sz where seg: "ns = [sz]" unfolding ns_def by (cases "segments (sh_plan s name)") auto
  have rr: "rrs ! r = pieces (sh_tp s) r 0 ns" "r < length rrs"
    using rank_row_ranges_Inr(1) [OF assms(5,2), folded ns_def] assms(8) by auto
  let ?be = "(r * (sz div sh_tp s), (r + 1) * (sz div sh_tp s))"
  have "check_range s True ?be = Inr ()"
    by (rule validated_ranges [OF assms(9,6) _ nth_mem [OF rr(2)]]) (use rr assms(1) seg in auto)
  from checked_follow [OF this] show ?thesis by (simp add: seg block_range_def)
qed

lemma row_shards_exist:
  assumes "kind (sh_plan s name) = SplitOut" "rank_ranges s name (shape arr) = Inr rrs"
    "\<And>rr. rr \<in> set rrs \<Longrightarrow> rr \<noteq> []"
  obtains parts where "shard s name arr = Inr parts"
proof -
  have "rmap (\<lambda>rr. rbind (cut_rows arr rr) (\<lambda>m. Inr (Some m))) rrs =
      Inr (map (\<lambda>rr. Some \<lparr> m_cols = m_cols arr, m_rows = pieces_rows (m_rows arr) rr \<rparr>) rrs)"
    by (rule rmap_all_Inr) (simp add: assms(3) cut_rows_Inr)
  then show ?thesis using that assms(1,2) by (simp add: shard_def Let_def)
qed

lemma rows_of_bound:
  assumes "list_all (\<lambda>n. n mod tp = 0) ns" "r < tp"
  shows "set (rows_of (pieces tp r 0 ns)) \<subseteq> {..<sum_list ns}"
  using pieces_bound [OF assms(2,1), of 0] by (force simp: list_all_iff)

lemma shard_then_dequantise_rows:
  assumes plan: "kind (sh_plan s name) = SplitOut" "plan_ok (sh_plan s name)" "0 < sh_tp s" "0 < sh_block s"
    and ok: "mat_ok fp8" "validate_tensor s name (shape fp8) True = Inr ()"
    and pairs: "shard_pair s name fp8 S = Inr pairs"
    and full: "dequant_weight_blocked fmul (sh_block s) (sh_block s) fp8 S = Inr full"
    and r: "r < sh_tp s"
  shows "\<exists>w sc m. pairs ! r = (Some w, Some sc) \<and> map_sum id (\<lambda>ps. ps ! r) (shard s name full) = Inr (Some m) \<and>
    dequant_weight_blocked fmul (sh_block s) (sh_block s) w sc = Inr m"
proof -
  obtain ws ss where ws: "shard s name fp8 = Inr ws" and ss: "shard_scale s name S = Inr ss"
    and ps: "pairs = map (\<lambda>r. (ws ! r, case ws ! r of None \<Rightarrow> None | Some _ \<Rightarrow> Some (ss ! r))) [0..<sh_tp s]"
    by (rule shard_pair_Inr [OF pairs])
  obtain rrs where row: "rank_row_ranges s (sh_plan s name) = Inr rrs"
    using ss plan(1) by (auto simp: shard_scale_def Let_def rbind_Inr_iff split: if_splits)
  let ?segs = "segments (sh_plan s name)"
  let ?ns = "map (the \<circ> fst) ?segs"
  have ne: "?segs \<noteq> []" using plan(1,2) by (auto simp: plan_ok_def)
  obtain rrs' where rng: "rank_ranges s name (shape fp8) = Inr rrs'"
    using shard_rank_ranges plan(1) ws by blast
  obtain n u us where seg: "?segs = (Some n, u) # us"
    using ne rank_row_ranges_Inr(2) [OF row plan(3)] by (cases ?segs) auto
  have total: "sum_list ?ns = n_rows fp8" and same: "rank_ranges s name (shape fp8) = Inr rrs"
    using rng row plan(1) seg segments_total_Inr [of ?segs]
    by (auto simp: rank_ranges_def Let_def shape_def rbind_Inr_iff split: if_splits)
  note dq = dequant_Inr [OF ok(1) plan(4) plan(4) full]
  have shp: "shape full = shape fp8" by (simp add: dq(2) shape_def loop_simps)
  let ?I = "rows_of (pieces (sh_tp s) r 0 ?ns)"
  let ?J = "rows_of (map (block_range (sh_block s)) (pieces (sh_tp s) r 0 ?ns))"
  have "ws ! r = Some (take_rows fp8 ?I)"
    by (rule row_shards [OF plan(1,3) ne row same ws r total])
  moreover have "ss ! r = take_rows S ?J"
    by (rule row_scales [OF plan(1,3,4) ne row ss r]) (use dq(1) total in \<open>simp add: shape_def\<close>)
  ultimately have pr: "pairs ! r = (Some (take_rows fp8 ?I), Some (take_rows S ?J))"
    using r by (simp add: ps)
  note rr = rank_row_ranges_Inr [OF row plan(3)]
  obtain fs where fs: "shard s name full = Inr fs"
    by (rule row_shards_exist [OF plan(1), of full rrs]) (use same shp ne rr(1) pieces_nonempty in auto)
  have "fs ! r = Some (take_rows full ?I)"
    by (rule row_shards [OF plan(1,3) ne row _ fs r]) (use same shp total in \<open>simp_all add: shape_def\<close>)
  moreover have "set ?I \<subseteq> {..<n_rows fp8}"
    unfolding total [symmetric] by (rule rows_of_bound [OF _ r]) (use rr(2) in \<open>simp add: list_all_iff\<close>)
  ultimately show ?thesis
    using pr fs dequant_take_rows [OF ok(1) plan(4) plan(4) full _ row_blocks_follow [OF plan(1,3,4) ne row same ss r ok(2)]]
    by simp
qed

lemma col_shards:
  assumes "kind (sh_plan s name) = SplitIn" "col_ranges s (sh_plan s name) = Inr (map (\<lambda>r. [f r]) [0..<sh_tp s])"
    "rank_ranges s name (shape arr) = Inr (map (\<lambda>r. [f r]) [0..<sh_tp s])"
    "mat_ok arr" "\<And>r. r < sh_tp s \<Longrightarrow> snd (f r) \<le> m_cols arr"
  shows "shard s name arr = Inr (map (\<lambda>r. Some (slice_cols arr (fst (f r)) (snd (f r)))) [0..<sh_tp s])"
proof -
  have "rmap (\<lambda>rr. rbind (cut_cols arr rr) (\<lambda>m. Inr (Some m))) (map (\<lambda>r. [f r]) [0..<sh_tp s]) =
      Inr (map (\<lambda>rr. Some (slice_cols arr (fst (hd rr)) (snd (hd rr)))) (map (\<lambda>r. [f r]) [0..<sh_tp s]))"
  proof (rule rmap_all_Inr)
    fix rr assume "rr \<in> set (map (\<lambda>r. [f r]) [0..<sh_tp s])"
    then obtain r where r: "r < sh_tp s" "rr = [f r]" by auto
    obtain b e where "f r = (b, e)" by fastforce
    with r show "rbind (cut_cols arr rr) (\<lambda>m. Inr (Some m)) = Inr (Some (slice_cols arr (fst (hd rr)) (snd (hd rr))))"
      using cut_cols_one [OF assms(4), of e b] assms(5) [OF r(1)] by simp
  qed
  then show ?thesis using assms(1,3) by (simp add: shard_def Let_def o_def)
qed

lemma shard_then_dequantise_cols:
  assumes plan: "kind (sh_plan s name) = SplitIn" "plan_ok (sh_plan s name)" "0 < sh_block s"
    and ok: "mat_ok fp8" "mat_ok S" "validate_tensor s name (shape fp8) True = Inr ()"
    and pairs: "shard_pair s name fp8 S = Inr pairs"
    and full: "dequant_weight_blocked fmul (sh_block s) (sh_block s) fp8 S = Inr full"
    and r: "r < sh_tp s"
  shows "\<exists>w sc m. pairs ! r = (Some w, Some sc) \<and> map_sum id (\<lambda>ps. ps ! r) (shard s name full) = Inr (Some m) \<and>
    dequant_weight_blocked fmul (sh_block s) (sh_block s) w sc = Inr m"
proof -
  let ?blk = "sh_block s"
  obtain ws ss where ws: "shard s name fp8 = Inr ws" and ss: "shard_scale s name S = Inr ss"
    and ps: "pairs = map (\<lambda>r. (ws ! r, case ws ! r of None \<Rightarrow> None | Some _ \<Rightarrow> Some (ss ! r))) [0..<sh_tp s]"
    by (rule shard_pair_Inr [OF pairs])
  obtain n u where seg: "segments (sh_plan s name) = [(Some n, u)]"
    using plan(1,2) by (auto simp: plan_ok_def length_Suc_conv)
  obtain rrs where rng: "rank_ranges s name (shape fp8) = Inr rrs"
    using shard_rank_ranges plan(1) ws by blast
  then obtain rg where n: "n = m_cols fp8" and rg: "segment_ranges s n u = Inr rg"
    and rr: "rrs = map (\<lambda>r. [rg ! r]) [0..<sh_tp s]"
    using plan(1) seg by (auto simp: rank_ranges_def Let_def col_ranges_def shape_def rbind_Inr_iff split: if_splits)
  let ?f = "\<lambda>r. (r * (n div sh_tp s), (r + 1) * (n div sh_tp s))"
  note sr = segment_ranges_Inr [OF rg]
  have rr': "rrs = map (\<lambda>r. [?f r]) [0..<sh_tp s]"
    unfolding rr by (rule map_cong) (auto simp: sr(5))
  have col: "col_ranges s (sh_plan s name) = Inr (map (\<lambda>r. [?f r]) [0..<sh_tp s])"
    using seg rg rr rr' by (simp add: col_ranges_def)
  have le: "snd (?f r') \<le> m_cols fp8" if "r' < sh_tp s" for r'
    using that even_parts [OF sr(1)] n mult_le_mono1 [of "r' + 1" "sh_tp s" "n div sh_tp s"] by simp
  note dq = dequant_Inr [OF ok(1) plan(3) plan(3) full]
  have fullp: "shape full = shape fp8" "mat_ok full" "m_cols full = m_cols fp8"
    by (simp_all add: dq(2) shape_def loop_simps)
  let ?b = "fst (?f r)" and ?e = "snd (?f r)"
  have w: "ws ! r = Some (slice_cols fp8 ?b ?e)"
    using col_shards [OF plan(1) col rng [unfolded rr'] ok(1) le] ws r by simp
  have m: "shard s name full = Inr (map (\<lambda>r. Some (slice_cols full (fst (?f r)) (snd (?f r)))) [0..<sh_tp s])"
    by (rule col_shards [OF plan(1) col]) (use rng rr' fullp le in simp_all)
  have chk: "check_range s True (?f r) = Inr ()"
    by (rule validated_ranges [OF ok(3) rng, of "[?f r]"]) (use plan(1) rr' r in auto)
  then have follow: "blocks_follow ?blk [?b..<?e] [?b div ?blk..<cdiv ?e ?blk]"
    using checked_follow by simp
  have be: "?b \<le> ?e" "?b div ?blk \<le> cdiv ?e ?blk"
    using div_lt_cdiv [OF plan(3), of ?b ?e] check_range_Inr(1) [of s ?b ?e] chk by auto
  have ce: "cdiv ?e ?blk \<le> m_cols S"
    using dq(1) cdiv_mono [OF le [OF r]] by (simp add: shape_def)
  have "rmap (\<lambda>rr. cut_cols S (map (block_range ?blk) rr)) (map (\<lambda>r. [?f r]) [0..<sh_tp s]) = Inr ss"
    using ss plan(1,3) col by (auto simp: shard_scale_def Let_def rbind_Inr_iff)
  from rmap_nth [OF this, of r] r have "cut_cols S [block_range ?blk (?f r)] = Inr (ss ! r)" by simp
  then have sc: "ss ! r = slice_cols S (?b div ?blk) (cdiv ?e ?blk)"
    using cut_cols_one [OF ok(2) ce] by (simp add: block_range_def)
  have "pairs ! r = (Some (slice_cols fp8 ?b ?e), Some (slice_cols S (?b div ?blk) (cdiv ?e ?blk)))"
    using r w sc by (simp add: ps)
  moreover have "map_sum id (\<lambda>ps. ps ! r) (shard s name full) = Inr (Some (slice_cols full ?b ?e))"
    using r by (simp add: m)
  moreover have "dequant_weight_blocked fmul ?blk ?blk (slice_cols fp8 ?b ?e) (slice_cols S (?b div ?blk) (cdiv ?e ?blk)) =
      Inr (slice_cols full ?b ?e)"
    by (rule dequant_slice_cols [OF ok(1,2) plan(3,3) full be(1) le [OF r] follow ce be(2)])
  ultimately show ?thesis by blast
qed

lemma shard_dequant_commute:
  assumes "plan_ok (sh_plan s name)" "kind (sh_plan s name) \<in> {SplitOut, SplitIn}" "0 < sh_tp s" "0 < sh_block s"
    "mat_ok fp8" "mat_ok S" "validate_tensor s name (shape fp8) True = Inr ()"
    "shard_pair s name fp8 S = Inr pairs"
    "dequant_weight_blocked fmul (sh_block s) (sh_block s) fp8 S = Inr full" "r < sh_tp s"
  shows "\<exists>w sc m. pairs ! r = (Some w, Some sc) \<and> map_sum id (\<lambda>ps. ps ! r) (shard s name full) = Inr (Some m) \<and>
    dequant_weight_blocked fmul (sh_block s) (sh_block s) w sc = Inr m"
proof (cases "kind (sh_plan s name) = SplitOut")
  case True
  show ?thesis by (rule shard_then_dequantise_rows [OF True assms(1,3-5,7-10)])
next
  case False
  then have "kind (sh_plan s name) = SplitIn" using assms(2) by simp
  from shard_then_dequantise_cols [OF this assms(1,4-10)] show ?thesis .
qed

text \<open>
  C27: sharding commutes with dequantisation.  For a split tensor that passes the validation, each
  rank that decodes its own slice of the bytes with its own slice of the scales gets the slice of
  the decoded tensor, although its block index starts at zero and its range may begin inside a
  block.
\<close>

theorem shard_then_dequantise:
  assumes "plan_ok (sh_plan s name)" "kind (sh_plan s name) \<in> {SplitOut, SplitIn}" "0 < sh_tp s" "0 < sh_block s"
    "mat_ok fp8" "mat_ok S" "validate_tensor s name (shape fp8) True = Inr ()"
    "shard_pair s name fp8 S = Inr pairs"
    "dequant_weight_blocked fmul (sh_block s) (sh_block s) fp8 S = Inr full" "r < sh_tp s"
  shows "\<exists>w sc m. pairs ! r = (Some w, Some sc) \<and> map_sum id (\<lambda>ps. ps ! r) (shard s name full) = Inr (Some m) \<and>
    dequant_weight_blocked fmul (sh_block s) (sh_block s) w sc = Inr m"
  by (rule shard_dequant_commute [OF assms])

definition bytes_mat :: "nat \<Rightarrow> nat \<Rightarrow> 8 word mat" where
  "bytes_mat h w = map_mat (\<lambda>n. of_nat (n mod 120)) (iota h w)"

definition scale_mat :: "nat \<Rightarrow> nat \<Rightarrow> f32 mat" where
  "scale_mat h w = map_mat (\<lambda>n. Fin (of_nat (n + 1))) (iota h w)"

definition exact_mul :: "f32 \<Rightarrow> f32 \<Rightarrow> f32" where
  "exact_mul x y = (case (x, y) of (Fin a, Fin b) \<Rightarrow> Fin (a * b) | _ \<Rightarrow> NaN)"

text \<open>Sixteen key rows over two ranks and blocks of four rows: each rank has two block rows.\<close>

theorem shard_then_dequantise_witness:
  "let s = sharding_of (qwen_sharding qwen_tiny 2 4);
       name = lit ''model.language_model.layers.0.self_attn.k_proj.weight''
   in \<exists>pairs full w sc m.
        shard_pair s name (bytes_mat 16 4) (scale_mat 4 1) = Inr pairs \<and>
        dequant_weight_blocked exact_mul 4 4 (bytes_mat 16 4) (scale_mat 4 1) = Inr full \<and>
        pairs ! 1 = (Some w, Some sc) \<and> map_sum id (\<lambda>ps. ps ! 1) (shard s name full) = Inr (Some m) \<and>
        dequant_weight_blocked exact_mul 4 4 w sc = Inr m"
proof -
  let ?s = "sharding_of (qwen_sharding qwen_tiny 2 4)"
  let ?name = "lit ''model.language_model.layers.0.self_attn.k_proj.weight''"
  have "sh_block ?s = 4" "sh_tp ?s = 2" by code_simp+
  have "\<not> isl (shard_pair ?s ?name (bytes_mat 16 4) (scale_mat 4 1))"
    "\<not> isl (dequant_weight_blocked exact_mul 4 4 (bytes_mat 16 4) (scale_mat 4 1))"
    by code_simp+
  then obtain pairs full where
    p: "shard_pair ?s ?name (bytes_mat 16 4) (scale_mat 4 1) = Inr pairs" and
    f: "dequant_weight_blocked exact_mul 4 4 (bytes_mat 16 4) (scale_mat 4 1) = Inr full"
    unfolding isl_def by (metis sum.exhaust)
  then have f': "dequant_weight_blocked exact_mul (sh_block ?s) (sh_block ?s) (bytes_mat 16 4) (scale_mat 4 1) = Inr full"
    using \<open>sh_block ?s = 4\<close> by simp
  have "\<exists>w sc m. pairs ! 1 = (Some w, Some sc) \<and> map_sum id (\<lambda>ps. ps ! 1) (shard ?s ?name full) = Inr (Some m) \<and>
      dequant_weight_blocked exact_mul (sh_block ?s) (sh_block ?s) w sc = Inr m"
    by (rule shard_then_dequantise [OF _ _ _ _ _ _ _ p f']) code_simp+
  then show ?thesis using p f \<open>sh_block ?s = 4\<close> by (auto simp: Let_def)
qed

end
