(* ===== verification/RankTable.thy ===== *)
theory RankTable
  imports DsShard ShardDequant
begin

text \<open>
  \<open>LazyWeightTable\<close> of \<open>loaders/streaming.py\<close>, the weights of a checkpoint decoded one tensor at a
  time, and \<open>RankWeightTable\<close> of \<open>tp/rank_table.py\<close>, the view one rank has of it.  Reading a tensor
  out of a shard file is the parameter \<open>ck_read\<close>: it gives raw bytes for the 8-bit types and
  decoded float32 values otherwise.
\<close>

section \<open>The lazy table\<close>

datatype tensor = Bytes "8 word mat" | Floats "f32 mat"

record checkpoint =
  weight_map :: "(pystr, pystr) dict"
  ck_read :: "pystr \<Rightarrow> pystr \<Rightarrow> py_error + tensor"

definition index_names :: "checkpoint \<Rightarrow> pystr list" where
  "index_names ck = dkeys (weight_map ck)"

definition index_filter :: "checkpoint \<Rightarrow> pystr \<Rightarrow> pystr list" where
  "index_filter ck prefix = filter (starts_with prefix) (index_names ck)"

definition shard_of :: "checkpoint \<Rightarrow> pystr \<Rightarrow> py_error + pystr" where
  "shard_of ck name = (case dget (weight_map ck) name of None \<Rightarrow> Inl CheckpointError | Some s \<Rightarrow> Inr s)"

definition index_get :: "checkpoint \<Rightarrow> pystr \<Rightarrow> py_error + tensor" where
  "index_get ck name = rbind (shard_of ck name) (\<lambda>s. ck_read ck s name)"

record weight_table =
  wt_index :: checkpoint
  wt_block :: "nat \<times> nat"
  wt_suffix :: pystr

definition companion :: "weight_table \<Rightarrow> pystr \<Rightarrow> pystr" where
  "companion t name =
     (if starts_with (lit ''.'') (wt_suffix t) then take (length name - 7) name @ wt_suffix t
      else name @ wt_suffix t)"

definition is_quantized :: "weight_table \<Rightarrow> pystr \<Rightarrow> bool" where
  "is_quantized t name \<longleftrightarrow>
     ends_with (lit ''.weight'') name \<and> companion t name \<in> set (index_names (wt_index t))"

definition table_get :: "weight_table \<Rightarrow> pystr \<Rightarrow> py_error + tensor" where
  "table_get t name = index_get (wt_index t) name"

definition table_scale :: "weight_table \<Rightarrow> pystr \<Rightarrow> py_error + tensor" where
  "table_scale t name = index_get (wt_index t) (companion t name)"

text \<open>
  The arithmetic a table decodes with: the float32 product, and the cast of a float32 value to a
  byte, which numpy applies when a weight that is already decoded is decoded again.
\<close>

record fp_env =
  fp_mul :: "f32 \<Rightarrow> f32 \<Rightarrow> f32"
  fp_cast :: "f32 \<Rightarrow> 8 word"

definition weight_bytes :: "fp_env \<Rightarrow> tensor \<Rightarrow> 8 word mat" where
  "weight_bytes env w = (case w of Bytes m \<Rightarrow> m | Floats m \<Rightarrow> map_mat (fp_cast env) m)"

definition tensor_scale :: "tensor \<Rightarrow> scale" where
  "tensor_scale s = (case s of Bytes u \<Rightarrow> E8M0 u | Floats f \<Rightarrow> F32 f)"

text \<open>
  \<open>dequant_weight_auto\<close> on tensors; the width of a float weight is not doubled when its scale is
  compared with the packed layout.
\<close>

definition dequant_auto :: "fp_env \<Rightarrow> nat \<times> nat \<Rightarrow> tensor \<Rightarrow> tensor \<Rightarrow> py_error + f32 mat" where
  "dequant_auto env block w s =
     (case (w, s) of
        (Floats m, Bytes u) \<Rightarrow>
          (if shape u = (n_rows m, cdiv (m_cols m) 32)
           then dequant_fp4_packed_weight (fp_mul env) 32 (weight_bytes env w) u
           else if n_rows u = cdiv (n_rows m) (fst block)
           then dequant_fp8_mxfp_weight (fp_mul env) block (weight_bytes env w) u
           else Inl ValueError)
      | _ \<Rightarrow> dequant_weight_auto (fp_mul env) block 32 (weight_bytes env w) (tensor_scale s))"

definition table_dequant :: "fp_env \<Rightarrow> weight_table \<Rightarrow> pystr \<Rightarrow> py_error + tensor" where
  "table_dequant env t name =
     (if \<not> is_quantized t name then table_get t name
      else rbind (table_get t name) (\<lambda>w.
           rbind (table_scale t name) (\<lambda>s.
           rbind (dequant_auto env (wt_block t) w s) (\<lambda>m. Inr (Floats m)))))"

definition table_layer :: "fp_env \<Rightarrow> weight_table \<Rightarrow> nat \<Rightarrow> pystr \<Rightarrow> py_error + (pystr, tensor) dict" where
  "table_layer env t layer_idx prefix =
     (let p = prefix @ lit ''.layers.'' @ int_str (int layer_idx) @ lit ''.''
      in rmap (\<lambda>n. rbind (table_dequant env t n) (\<lambda>v. Inr (n, v)))
           (filter (\<lambda>n. \<not> ends_with (wt_suffix t) n) (index_filter (wt_index t) p)))"

definition embeddings_head :: "fp_env \<Rightarrow> weight_table \<Rightarrow> pystr \<Rightarrow> py_error + (pystr, tensor) dict" where
  "embeddings_head env t prefix =
     (let emb = prefix @ lit ''.embed_tokens.weight''; hd' = lit ''lm_head.weight''
      in rbind (table_dequant env t emb) (\<lambda>e.
           if hd' \<in> set (index_names (wt_index t))
           then rbind (table_dequant env t hd') (\<lambda>h. Inr (dset hd' h [(emb, e)]))
           else Inr [(emb, e)]))"

section \<open>The view of one rank\<close>

datatype shard_kind = Qwen4Exp | DeepseekV4

record rank_table =
  rt_table :: weight_table
  rt_class :: shard_kind
  rt_sharding :: sharding
  rt_rank :: nat

definition new_rank_table :: "weight_table \<Rightarrow> shard_kind \<Rightarrow> sharding \<Rightarrow> nat \<Rightarrow> py_error + rank_table" where
  "new_rank_table t cls s rank =
     (if \<not> rank < sh_tp s then Inl ValueError
      else Inr \<lparr> rt_table = t, rt_class = cls, rt_sharding = s, rt_rank = rank \<rparr>)"

definition rt_plan :: "rank_table \<Rightarrow> pystr \<Rightarrow> tensor_plan" where
  "rt_plan rt name = sh_plan (rt_sharding rt) name"

definition rt_owner :: "rank_table \<Rightarrow> nat \<Rightarrow> py_error + nat" where
  "rt_owner rt = (case rt_class rt of Qwen4Exp \<Rightarrow> owner | DeepseekV4 \<Rightarrow> ds_owner) (rt_sharding rt)"

definition rt_shard :: "rank_table \<Rightarrow> pystr \<Rightarrow> 'a mat \<Rightarrow> py_error + 'a mat option list" where
  "rt_shard rt = (case rt_class rt of Qwen4Exp \<Rightarrow> shard | DeepseekV4 \<Rightarrow> ds_shard) (rt_sharding rt)"

definition rt_validate :: "rank_table \<Rightarrow> pystr \<Rightarrow> nat \<times> nat \<Rightarrow> py_error + unit" where
  "rt_validate rt name shp =
     (case rt_class rt of Qwen4Exp \<Rightarrow> validate_tensor | DeepseekV4 \<Rightarrow> ds_validate_tensor) (rt_sharding rt) name shp True"

definition rt_shard_pair ::
  "rank_table \<Rightarrow> pystr \<Rightarrow> 'a mat \<Rightarrow> 'b mat \<Rightarrow> py_error + ('a mat option \<times> 'b mat option) list" where
  "rt_shard_pair rt = (case rt_class rt of Qwen4Exp \<Rightarrow> shard_pair | DeepseekV4 \<Rightarrow> ds_shard_pair) (rt_sharding rt)"

definition owns :: "rank_table \<Rightarrow> pystr \<Rightarrow> py_error + bool" where
  "owns rt name =
     (let plan = rt_plan rt name
      in if kind plan = Experts
         then (case expert plan of None \<Rightarrow> Inl TypeError
               | Some e \<Rightarrow> rbind (rt_owner rt e) (\<lambda>o'. Inr (o' = rt_rank rt)))
         else Inr True)"

fun owned_among :: "rank_table \<Rightarrow> pystr list \<Rightarrow> py_error + pystr list" where
  "owned_among rt [] = Inr []"
| "owned_among rt (n # ns) =
     rbind (owns rt n) (\<lambda>b. rbind (owned_among rt ns) (\<lambda>r. Inr (if b then n # r else r)))"

definition owned_names :: "rank_table \<Rightarrow> py_error + pystr list" where
  "owned_names rt = owned_among rt (index_names (wt_index (rt_table rt)))"

definition need_owned :: "rank_table \<Rightarrow> pystr \<Rightarrow> py_error + unit" where
  "need_owned rt name = rbind (owns rt name) (\<lambda>b. if b then Inr () else Inl RankOwnership)"

text \<open>
  A slice of a tensor of either type; the entry of the rank in a list of shards is a matrix, since
  only expert tensors have holes.
\<close>

definition rank_entry :: "rank_table \<Rightarrow> py_error + 'a mat option list \<Rightarrow> py_error + 'a mat" where
  "rank_entry rt ps = rbind ps (\<lambda>l. if rt_rank rt < length l then
     (case l ! rt_rank rt of None \<Rightarrow> Inl TypeError | Some m \<Rightarrow> Inr m) else Inl IndexError)"

definition shard_tensor :: "rank_table \<Rightarrow> pystr \<Rightarrow> tensor \<Rightarrow> py_error + tensor" where
  "shard_tensor rt name a =
     (case a of Bytes m \<Rightarrow> map_sum id Bytes (rank_entry rt (rt_shard rt name m))
      | Floats m \<Rightarrow> map_sum id Floats (rank_entry rt (rt_shard rt name m)))"

definition plan_slice :: "rank_table \<Rightarrow> pystr \<Rightarrow> tensor \<Rightarrow> py_error + tensor" where
  "plan_slice rt name a =
     (case kind (rt_plan rt name) of
        Replicated \<Rightarrow> Inr a
      | Experts \<Rightarrow> rbind (need_owned rt name) (\<lambda>_. Inr a)
      | _ \<Rightarrow> shard_tensor rt name a)"

definition rank_get :: "rank_table \<Rightarrow> pystr \<Rightarrow> py_error + tensor" where
  "rank_get rt name =
     rbind (need_owned rt name) (\<lambda>_. rbind (table_get (rt_table rt) name) (plan_slice rt name))"

text \<open>The decoding of one rank's pair; the float32 branch keeps the default block of 128.\<close>

definition dequant_pair :: "fp_env \<Rightarrow> rank_table \<Rightarrow> tensor \<Rightarrow> tensor \<Rightarrow> py_error + f32 mat" where
  "dequant_pair env rt w s =
     (case s of
        Bytes _ \<Rightarrow> dequant_auto env (sh_block (rt_sharding rt), sh_block (rt_sharding rt)) w s
      | Floats f \<Rightarrow> dequant_weight_blocked (fp_mul env) 128 128 (weight_bytes env w) f)"

definition tensor_shape :: "tensor \<Rightarrow> nat \<times> nat" where
  "tensor_shape a = (case a of Bytes m \<Rightarrow> shape m | Floats m \<Rightarrow> shape m)"

definition pair_entry ::
  "rank_table \<Rightarrow> py_error + ('a mat option \<times> 'b mat option) list \<Rightarrow> ('a mat \<Rightarrow> tensor) \<Rightarrow> ('b mat \<Rightarrow> tensor) \<Rightarrow>
    py_error + tensor \<times> tensor" where
  "pair_entry rt ps f g = rbind ps (\<lambda>l.
     if rt_rank rt < length l then
       (case l ! rt_rank rt of (Some w, Some s) \<Rightarrow> Inr (f w, g s) | _ \<Rightarrow> Inl TypeError)
     else Inl IndexError)"

definition shard_tensor_pair :: "rank_table \<Rightarrow> pystr \<Rightarrow> tensor \<Rightarrow> tensor \<Rightarrow> py_error + tensor \<times> tensor" where
  "shard_tensor_pair rt name w s =
     (case (w, s) of
        (Bytes a, Bytes b) \<Rightarrow> pair_entry rt (rt_shard_pair rt name a b) Bytes Bytes
      | (Bytes a, Floats b) \<Rightarrow> pair_entry rt (rt_shard_pair rt name a b) Bytes Floats
      | (Floats a, Bytes b) \<Rightarrow> pair_entry rt (rt_shard_pair rt name a b) Floats Bytes
      | (Floats a, Floats b) \<Rightarrow> pair_entry rt (rt_shard_pair rt name a b) Floats Floats)"

definition rank_dequant :: "fp_env \<Rightarrow> rank_table \<Rightarrow> pystr \<Rightarrow> py_error + tensor" where
  "rank_dequant env rt name =
     rbind (need_owned rt name) (\<lambda>_.
       if \<not> is_quantized (rt_table rt) name
       then rbind (table_get (rt_table rt) name) (plan_slice rt name)
       else if kind (rt_plan rt name) \<in> {Replicated, Experts} then table_dequant env (rt_table rt) name
       else rbind (table_get (rt_table rt) name) (\<lambda>fp8.
            rbind (table_scale (rt_table rt) name) (\<lambda>s.
            rbind (rt_validate rt name (tensor_shape fp8)) (\<lambda>_.
            rbind (shard_tensor_pair rt name fp8 s) (\<lambda>(w_r, s_r).
            rbind (dequant_pair env rt w_r s_r) (\<lambda>m. Inr (Floats m)))))))"

section \<open>What the ranks see\<close>

definition accepted :: "shard_kind \<Rightarrow> sharding \<Rightarrow> bool" where
  "accepted cls s = (case cls of Qwen4Exp \<Rightarrow> qwen_accepted s | DeepseekV4 \<Rightarrow> ds_accepted s)"

lemma accepted_tp: "accepted cls s \<Longrightarrow> 0 < sh_tp s"
  by (cases cls) (auto simp: accepted_def qwen_class.tp_pos ds_class.tp_pos)

lemma accepted_plan: "accepted cls s \<Longrightarrow> plan_ok (sh_plan s n)"
  by (cases cls) (auto simp: accepted_def qwen_class.planned ds_class.planned)

text \<open>Both classes end in the same slices, so a rank table is about the Qwen operations.\<close>

lemma rt_simps:
  "rt_shard rt = shard (rt_sharding rt)" "rt_owner rt = owner (rt_sharding rt)"
  "rt_validate rt n shp = validate_tensor (rt_sharding rt) n shp True"
  by (cases "rt_class rt"; simp add: rt_shard_def rt_owner_def rt_validate_def ds_shard ds_owner ds_validate)+

lemma rt_shard_pair_eq:
  assumes "accepted (rt_class rt) (rt_sharding rt)"
  shows "rt_shard_pair rt n w s = shard_pair (rt_sharding rt) n w s"
proof (cases "rt_class rt")
  case DeepseekV4
  then have "length (segments (sh_plan (rt_sharding rt) n)) \<le> 1"
    using assms ds_accepted_single by (simp add: accepted_def)
  then show ?thesis
    using DeepseekV4 by (simp add: rt_shard_pair_def ds_shard_pair_def shard_pair_def ds_shard ds_shard_scale_same)
qed (simp add: rt_shard_pair_def)

lemma shard_parts:
  assumes "accepted cls s" "kind (sh_plan s n) \<noteq> Experts" "mat_ok m" "shard s n m = Inr ps" "r < sh_tp s"
  shows "length ps = sh_tp s" "\<exists>p. ps ! r = Some p"
proof -
  have "length ps = sh_tp s \<and> (\<exists>p. ps ! r = Some p)"
  proof (cases cls)
    case Qwen4Exp
    then have a: "qwen_accepted s" using assms(1) by (simp add: accepted_def)
    show ?thesis
      using qwen_class.cut_dense(1) [OF a assms(2-4)] qwen_class.cut_dense(2) [OF a assms(2-5)] by blast
  next
    case DeepseekV4
    then have a: "ds_accepted s" using assms(1) by (simp add: accepted_def)
    note cut = assms(4) [folded ds_shard]
    show ?thesis
      using ds_class.cut_dense(1) [OF a assms(2,3) cut] ds_class.cut_dense(2) [OF a assms(2,3) cut assms(5)] by blast
  qed
  then show "length ps = sh_tp s" "\<exists>p. ps ! r = Some p" by blast+
qed

lemma need_owned_split:
  "kind (rt_plan rt n) \<noteq> Experts \<Longrightarrow> need_owned rt n = Inr ()"
  by (simp add: need_owned_def owns_def Let_def)

text \<open>
  C28: a rank table refines the weight table, for scales in float32 and blocks of 128 by 128.  For a
  quantised tensor that is split over the ranks, when the whole tensor decodes and the rank's own
  decoding succeeds, what the rank computes from its slices of bytes and scales is the slice of the
  decoded tensor; no rank decodes more.  Scales in E8M0, as DeepSeek stores them, are outside: there a
  slice of one row is taken for packed four-bit values (\<open>one_row_taken_for_fp4\<close>).  So are tables of
  another block size, which the rank decodes with its default and refuses (\<open>default_block_refuses\<close>).
\<close>

theorem rank_dequant_refines:
  assumes "accepted (rt_class rt) (rt_sharding rt)" "sh_block (rt_sharding rt) = 128"
    "wt_block (rt_table rt) = (128, 128)" "rt_rank rt < sh_tp (rt_sharding rt)"
    "kind (rt_plan rt name) \<in> {SplitOut, SplitIn}" "is_quantized (rt_table rt) name"
    "table_get (rt_table rt) name = Inr (Bytes w)" "table_scale (rt_table rt) name = Inr (Floats S)"
    "mat_ok w" "mat_ok S"
    "table_dequant env (rt_table rt) name = Inr full" "rank_dequant env rt name = Inr mine"
  shows "plan_slice rt name full = Inr mine"
proof -
  let ?s = "rt_sharding rt"
  have k: "kind (rt_plan rt name) \<noteq> Experts" "kind (sh_plan ?s name) \<in> {SplitOut, SplitIn}"
    using assms(5) by (auto simp: rt_plan_def)
  obtain f where full: "full = Floats f" and f: "dequant_weight_blocked (fp_mul env) 128 128 w S = Inr f"
    using assms(3,6-8,11)
    by (auto simp: table_dequant_def dequant_auto_def dequant_weight_auto_def weight_bytes_def tensor_scale_def rbind_Inr_iff)
  have valid: "validate_tensor ?s name (shape w) True = Inr ()"
    using assms(5-8,12) k(1)
    by (auto simp: rank_dequant_def need_owned_split rt_simps tensor_shape_def rbind_Inr_iff)
  obtain wr sr m where pair: "shard_tensor_pair rt name (Bytes w) (Floats S) = Inr (wr, sr)"
    and m: "dequant_pair env rt wr sr = Inr m" and mine: "mine = Floats m"
    using assms(5-8,12) k(1)
    by (auto simp: rank_dequant_def need_owned_split rbind_Inr_iff)
  then obtain pairs a b where ps: "shard_pair ?s name w S = Inr pairs"
    and entry: "pairs ! rt_rank rt = (Some a, Some b)" "wr = Bytes a" "sr = Floats b"
    by (auto simp: shard_tensor_pair_def pair_entry_def rt_shard_pair_eq [OF assms(1)] rbind_Inr_iff
        split: if_splits option.splits prod.splits)
  have "dequant_weight_blocked (fp_mul env) 128 128 a b = Inr m"
    using m entry by (simp add: dequant_pair_def weight_bytes_def)
  moreover obtain a' b' m' where ab: "pairs ! rt_rank rt = (Some a', Some b')"
    "map_sum id (\<lambda>ps. ps ! rt_rank rt) (shard ?s name f) = Inr (Some m')"
    "dequant_weight_blocked (fp_mul env) 128 128 a' b' = Inr m'"
    using shard_dequant_commute [OF accepted_plan [OF assms(1)] k(2) accepted_tp [OF assms(1)] _ assms(9,10) valid ps _ assms(4)]
      f assms(2) by fastforce
  ultimately have m': "m' = m" using entry(1) by simp
  obtain parts where parts: "shard ?s name f = Inr parts" "parts ! rt_rank rt = Some m"
    using ab(2) m' by (cases "shard ?s name f") auto
  have "mat_ok f" using dequant_Inr(2) [OF assms(9) _ _ f] loop_simps(3) by simp
  then have "rt_rank rt < length parts"
    using shard_parts(1) [OF assms(1) _ _ parts(1) assms(4)] k(2) assms(4) by auto
  then have "shard_tensor rt name full = Inr mine"
    using parts mine by (simp add: full shard_tensor_def rank_entry_def rt_simps)
  then show ?thesis using assms(5) by (auto simp: plan_slice_def)
qed

definition k_name :: pystr where
  "k_name = lit ''model.language_model.layers.0.self_attn.k_proj.weight''"

definition tiny_checkpoint :: checkpoint where
  "tiny_checkpoint = \<lparr> weight_map = [(k_name, lit ''a''), (k_name @ lit ''_scale_inv'', lit ''a'')],
     ck_read = (\<lambda>_ n. if n = k_name then Inr (Bytes (bytes_mat 16 2))
       else if n = k_name @ lit ''_scale_inv'' then Inr (Floats (scale_mat 1 1)) else Inl SafetensorsError) \<rparr>"

definition tiny_rank :: "nat \<Rightarrow> rank_table" where
  "tiny_rank r = \<lparr> rt_table = \<lparr> wt_index = tiny_checkpoint, wt_block = (128, 128), wt_suffix = lit ''_scale_inv'' \<rparr>,
     rt_class = Qwen4Exp, rt_sharding = sharding_of (qwen_sharding qwen_tiny 2 128), rt_rank = r \<rparr>"

definition tiny_env :: fp_env where
  "tiny_env = \<lparr> fp_mul = exact_mul, fp_cast = (\<lambda>_. 0) \<rparr>"

text \<open>Rank 1 owns rows 8 to 16, which begin inside the only block.\<close>

theorem rank_dequant_refines_witness:
  "\<exists>full mine. table_dequant tiny_env (rt_table (tiny_rank 1)) k_name = Inr full \<and>
     rank_dequant tiny_env (tiny_rank 1) k_name = Inr mine \<and> plan_slice (tiny_rank 1) k_name full = Inr mine"
proof -
  have "\<not> isl (table_dequant tiny_env (rt_table (tiny_rank 1)) k_name)"
    "\<not> isl (rank_dequant tiny_env (tiny_rank 1) k_name)"
    by code_simp+
  then obtain full mine where f: "table_dequant tiny_env (rt_table (tiny_rank 1)) k_name = Inr full"
    and m: "rank_dequant tiny_env (tiny_rank 1) k_name = Inr mine"
    unfolding isl_def by (metis sum.exhaust)
  have "accepted (rt_class (tiny_rank 1)) (rt_sharding (tiny_rank 1))"
    using tiny_shardings(1) [of 128] by (auto simp: tiny_rank_def accepted_def qwen_accepted_def)
  then have "plan_slice (tiny_rank 1) k_name full = Inr mine"
    by (rule rank_dequant_refines [where w = "bytes_mat 16 2" and S = "scale_mat 1 1", OF _ _ _ _ _ _ _ _ _ _ f m])
      code_simp+
  then show ?thesis using f m by blast
qed

text \<open>
  The float32 branch keeps the block of 128 whatever the block of the sharding is, so with another
  block a rank refuses a tensor that its sharding validates and the weight table decodes.
\<close>

definition small_block_rank :: rank_table where
  "small_block_rank = \<lparr> rt_table = \<lparr> wt_index = \<lparr> weight_map = weight_map tiny_checkpoint,
       ck_read = (\<lambda>_ n. if n = k_name then Inr (Bytes (bytes_mat 16 2)) else Inr (Floats (scale_mat 4 1))) \<rparr>,
       wt_block = (4, 4), wt_suffix = lit ''_scale_inv'' \<rparr>,
     rt_class = Qwen4Exp, rt_sharding = sharding_of (qwen_sharding qwen_tiny 2 4), rt_rank = 0 \<rparr>"

lemma default_block_refuses:
  "\<not> isl (table_dequant tiny_env (rt_table small_block_rank) k_name) \<and>
   rank_dequant tiny_env small_block_rank k_name = Inl ValueError"
  by (rule conjI; code_simp)

end
