(* ===== verification/Utf8.thy ===== *)
theory Utf8
  imports PyText
begin

text \<open>
  UTF-8 as \<open>str.encode("utf-8")\<close> and \<open>bytes.decode("utf-8")\<close> of the standard library have it:
  a surrogate cannot be encoded, and the decoder consumes at an error the longest prefix of a
  sequence that could still have become a character, which \<open>errors="replace"\<close> turns into one
  U+FFFD and the strict mode into an exception.  Bytes are numbers from 0 to 255.
\<close>

section \<open>Encoding\<close>

definition scalar :: "int \<Rightarrow> bool" where
  "scalar c \<longleftrightarrow> 0 \<le> c \<and> c \<le> 0x10FFFF \<and> \<not> (0xD800 \<le> c \<and> c \<le> 0xDFFF)"

definition utf8_char :: "int \<Rightarrow> int list" where
  "utf8_char c =
     (if c < 0x80 then [c]
      else if c < 0x800 then [0xC0 + c div 64, 0x80 + c mod 64]
      else if c < 0x10000 then [0xE0 + c div 64 div 64, 0x80 + c div 64 mod 64, 0x80 + c mod 64]
      else [0xF0 + c div 64 div 64 div 64, 0x80 + c div 64 div 64 mod 64, 0x80 + c div 64 mod 64,
            0x80 + c mod 64])"

definition utf8_encode :: "pystr \<Rightarrow> py_error + int list" where
  "utf8_encode s = (if list_all scalar s then Inr (concat (map utf8_char s)) else Inl ValueError)"

section \<open>Decoding\<close>

text \<open>The continuation bytes still missing, the range of the next one, the bits read so far.\<close>

fun utf8_tail :: "nat \<Rightarrow> int \<Rightarrow> int \<Rightarrow> int \<Rightarrow> int list \<Rightarrow> int option \<times> int list" where
  "utf8_tail 0 lo hi acc bs = (Some acc, bs)"
| "utf8_tail (Suc n) lo hi acc [] = (None, [])"
| "utf8_tail (Suc n) lo hi acc (b # bs) =
     (if lo \<le> b \<and> b \<le> hi then utf8_tail n 0x80 0xBF (acc * 64 + (b - 0x80)) bs else (None, b # bs))"

definition utf8_step :: "int \<Rightarrow> int list \<Rightarrow> int option \<times> int list" where
  "utf8_step b bs =
     (if b < 0x80 then (Some b, bs)
      else if b < 0xC2 then (None, bs)
      else if b < 0xE0 then utf8_tail 1 0x80 0xBF (b - 0xC0) bs
      else if b < 0xF0
      then utf8_tail 2 (if b = 0xE0 then 0xA0 else 0x80) (if b = 0xED then 0x9F else 0xBF) (b - 0xE0) bs
      else if b < 0xF5
      then utf8_tail 3 (if b = 0xF0 then 0x90 else 0x80) (if b = 0xF4 then 0x8F else 0xBF) (b - 0xF0) bs
      else (None, bs))"

lemma utf8_tail_length: "length (snd (utf8_tail n lo hi acc bs)) \<le> length bs"
  by (induction n lo hi acc bs rule: utf8_tail.induct) auto

lemma utf8_step_length: "length (snd (utf8_step b bs)) \<le> length bs"
  by (simp add: utf8_step_def utf8_tail_length)

function utf8_scan :: "int list \<Rightarrow> int option list" where
  "utf8_scan [] = []"
| "utf8_scan (b # bs) = fst (utf8_step b bs) # utf8_scan (snd (utf8_step b bs))"
  by pat_completeness auto
termination
  by (relation "measure length") (auto simp: less_Suc_eq_le utf8_step_length)

text \<open>\<open>decode("utf-8", errors="replace")\<close> and \<open>decode("utf-8")\<close>\<close>

definition utf8_replace :: "int list \<Rightarrow> pystr" where
  "utf8_replace bs = map (\<lambda>c. case c of Some x \<Rightarrow> x | None \<Rightarrow> 0xFFFD) (utf8_scan bs)"

definition utf8_decode :: "int list \<Rightarrow> py_error + pystr" where
  "utf8_decode bs = (if None \<in> set (utf8_scan bs) then Inl ValueError else Inr (map the (utf8_scan bs)))"

section \<open>Round trip\<close>

lemma utf8_step_char:
  assumes "scalar c"
  shows "\<exists>b bs. utf8_char c = b # bs \<and> utf8_step b (bs @ r) = (Some c, r)"
proof -
  have c: "0 \<le> c" "c \<le> 0x10FFFF" using assms by (auto simp: scalar_def)
  define q where "q = c div 64"
  define p where "p = q div 64"
  define w where "w = p div 64"
  define x where "x = c mod 64"
  define y where "y = q mod 64"
  define z where "z = p mod 64"
  have ch: "utf8_char c =
     (if c < 0x80 then [c] else if c < 0x800 then [0xC0 + q, 0x80 + x]
      else if c < 0x10000 then [0xE0 + p, 0x80 + y, 0x80 + x]
      else [0xF0 + w, 0x80 + z, 0x80 + y, 0x80 + x])"
    unfolding utf8_char_def q_def p_def w_def x_def y_def z_def by (rule refl)
  have cq: "c = q * 64 + x" "0 \<le> x" "x < 64" by (simp_all add: q_def x_def)
  have qp: "q = p * 64 + y" "0 \<le> y" "y < 64" by (simp_all add: p_def y_def)
  have po: "p = w * 64 + z" "0 \<le> z" "z < 64" by (simp_all add: w_def z_def)
  note eqs = cq qp po and rng = cq(2,3) qp(2,3) po(2,3)
  consider "c < 0x80" | "0x80 \<le> c" "c < 0x800" | "0x800 \<le> c" "c < 0x10000" | "0x10000 \<le> c" by linarith
  then show ?thesis
  proof cases
    case 1
    then show ?thesis by (simp add: utf8_char_def utf8_step_def)
  next
    case 2
    have "utf8_step (0xC0 + q) ([0x80 + x] @ r) = (Some (q * 64 + x), r)"
    proof -
      have "2 \<le> q" "q < 32" using eqs 2 by linarith+
      then show ?thesis using rng by (simp add: utf8_step_def numeral_eq_Suc)
    qed
    with 2 cq(1) ch show ?thesis by simp
  next
    case 3
    have "utf8_step (0xE0 + p) ([0x80 + y, 0x80 + x] @ r) = (Some ((p * 64 + y) * 64 + x), r)"
    proof -
      have "0 \<le> p" "p < 16" using eqs 3 by linarith+
      moreover have "p = 0 \<Longrightarrow> 32 \<le> y" using eqs 3 by linarith
      moreover have "y \<le> 31" if "p = 13"
      proof (rule ccontr)
        assume "\<not> y \<le> 31"
        with that eqs have "0xD800 \<le> c" "c \<le> 0xDFFF" by linarith+
        with assms show False by (simp add: scalar_def)
      qed
      ultimately show ?thesis using rng by (simp add: utf8_step_def numeral_eq_Suc)
    qed
    moreover have "(p * 64 + y) * 64 + x = c" using cq(1) qp(1) by simp
    ultimately show ?thesis using 3 ch by simp
  next
    case 4
    have "utf8_step (0xF0 + w) ([0x80 + z, 0x80 + y, 0x80 + x] @ r)
      = (Some (((w * 64 + z) * 64 + y) * 64 + x), r)"
    proof -
      have "0 \<le> w" "w \<le> 4" using eqs 4 c by linarith+
      moreover have "w = 0 \<Longrightarrow> 16 \<le> z" using eqs 4 by linarith
      moreover have "w = 4 \<Longrightarrow> z \<le> 15" using eqs c by linarith
      ultimately show ?thesis using rng by (simp add: utf8_step_def numeral_eq_Suc)
    qed
    moreover have "((w * 64 + z) * 64 + y) * 64 + x = c" using cq(1) qp(1) po(1) by simp
    ultimately show ?thesis using 4 ch by simp
  qed
qed

lemma utf8_scan_char: "scalar c \<Longrightarrow> utf8_scan (utf8_char c @ r) = Some c # utf8_scan r"
  using utf8_step_char [of c r] by auto

lemma utf8_scan_encoded:
  "list_all scalar s \<Longrightarrow> utf8_scan (concat (map utf8_char s) @ r) = map Some s @ utf8_scan r"
  by (induction s) (auto simp: utf8_scan_char)

lemma utf8_replace_encode: "utf8_encode s = Inr bs \<Longrightarrow> utf8_replace bs = s"
  using utf8_scan_encoded [of s "[]"] by (auto simp: utf8_encode_def utf8_replace_def o_def split: if_splits)

lemma utf8_decode_encode: "utf8_encode s = Inr bs \<Longrightarrow> utf8_decode bs = Inr s"
  using utf8_scan_encoded [of s "[]"] by (auto simp: utf8_encode_def utf8_decode_def o_def split: if_splits)

lemma utf8_encode_append:
  "utf8_encode s = Inr a \<Longrightarrow> utf8_encode t = Inr b \<Longrightarrow> utf8_encode (s @ t) = Inr (a @ b)"
  by (auto simp: utf8_encode_def split: if_splits)

lemma utf8_char_bytes:
  assumes "scalar c" "b \<in> set (utf8_char c)"
  shows "0 \<le> b \<and> b < 256"
proof -
  have c: "0 \<le> c" "c \<le> 0x10FFFF" using assms(1) by (auto simp: scalar_def)
  define q where "q = c div 64"
  define p where "p = q div 64"
  define w where "w = p div 64"
  have low: "0 \<le> n mod 64 \<and> n mod 64 < 64" for n :: int by simp
  have e: "c = q * 64 + c mod 64" "q = p * 64 + q mod 64" "p = w * 64 + p mod 64"
    by (simp_all add: q_def p_def w_def)
  have hi: "c < 0x800 \<Longrightarrow> q < 32" "c < 0x10000 \<Longrightarrow> p < 16" "w < 5" "0 \<le> q" "0 \<le> p" "0 \<le> w"
    using e c low [of c] low [of q] low [of p] by linarith+
  have "b \<in> {c} \<and> c < 0x80 \<or> b = 0xC0 + q \<and> c < 0x800 \<or> b = 0xE0 + p \<and> c < 0x10000
      \<or> b = 0xF0 + w \<or> b \<in> {0x80 + c mod 64, 0x80 + q mod 64, 0x80 + p mod 64}"
    using assms(2) unfolding utf8_char_def q_def p_def w_def by (auto simp only: list.set insert_iff empty_iff split: if_splits)
  with hi c low [of c] low [of q] low [of p] show ?thesis by auto
qed

lemma utf8_encode_bytes:
  assumes "utf8_encode s = Inr bs" "b \<in> set bs"
  shows "0 \<le> b \<and> b < 256"
proof -
  from assms obtain c where "c \<in> set s" "scalar c" "b \<in> set (utf8_char c)"
    by (auto simp: utf8_encode_def list_all_iff split: if_splits)
  with utf8_char_bytes show ?thesis by simp
qed

end
