(* ===== verification/Safetensors.thy ===== *)
theory Safetensors
  imports RankTable Utf8
begin

text \<open>
  The safetensors reader (\<open>loaders/safetensors_reader.py\<close>).  A file is the list of its bytes; a
  header is the JSON object behind an 8-byte little-endian length.  \<open>json.loads\<close> and \<open>int\<close> of a
  float are the parameter \<open>json_lib\<close>; decoding the header as UTF-8 is \<open>utf8_decode\<close>.  Arrays are
  kept flat, with their shape: raw bytes for the 8-bit formats, float32 values where the code
  decodes them, the little-endian chunks of the items for the dtypes numpy reads natively.

  An accepted header is sound: shapes, types and byte ranges of every tensor agree.  So loading
  fails for no other reason than a missing name, a range outside the file or a shape that numpy (2.2,
  as the requirements pin it) cannot hold, and a file laid out as the format says is read back as it
  was written.
\<close>

section \<open>Types of the items\<close>

datatype st_dtype =
    F64 | F32' | F16 | BF16 | F8_E5M2 | F8_E4M3 | F8_E8M0
  | I64 | I32 | I16 | I8 | U64 | U32 | U16' | U8 | BOOL

definition dtype_names :: "(string \<times> st_dtype) list" where
  "dtype_names =
     [(''F64'', F64), (''F32'', F32'), (''F16'', F16), (''BF16'', BF16), (''F8_E5M2'', F8_E5M2),
      (''F8_E4M3'', F8_E4M3), (''F8_E8M0'', F8_E8M0), (''I64'', I64), (''I32'', I32), (''I16'', I16),
      (''I8'', I8), (''U64'', U64), (''U32'', U32), (''U16'', U16'), (''U8'', U8), (''BOOL'', BOOL)]"

definition dtype_of :: "pystr \<Rightarrow> st_dtype option" where
  "dtype_of s = map_of (map (\<lambda>(n, d). (lit n, d)) dtype_names) s"

fun itemsize :: "st_dtype \<Rightarrow> nat" where
  "itemsize F64 = 8" | "itemsize F32' = 4" | "itemsize F16 = 2" | "itemsize BF16 = 2"
| "itemsize F8_E5M2 = 1" | "itemsize F8_E4M3 = 1" | "itemsize F8_E8M0 = 1"
| "itemsize I64 = 8" | "itemsize I32 = 4" | "itemsize I16 = 2" | "itemsize I8 = 1"
| "itemsize U64 = 8" | "itemsize U32 = 4" | "itemsize U16' = 2" | "itemsize U8 = 1" | "itemsize BOOL = 1"

record tensor_spec =
  ts_name :: pystr
  ts_dtype :: st_dtype
  ts_shape :: "int list"
  ts_begin :: int
  ts_end :: int

definition nbytes :: "tensor_spec \<Rightarrow> int" where
  "nbytes s = prod_list (ts_shape s) * int (itemsize (ts_dtype s))"

record st_header =
  st_tensors :: "(pystr, tensor_spec) dict"
  data_offset :: int

definition header_spec :: "st_header \<Rightarrow> pystr \<Rightarrow> py_error + tensor_spec" where
  "header_spec h name =
     (case dget (st_tensors h) name of None \<Rightarrow> Inl SafetensorsError | Some s \<Rightarrow> Inr s)"

section \<open>Parsing a header\<close>

definition MAX_HEADER_BYTES :: int where
  "MAX_HEADER_BYTES = 2 ^ 28"

text \<open>\<open>struct.unpack("<Q", b)\<close>\<close>

fun le_value :: "int list \<Rightarrow> int" where
  "le_value [] = 0"
| "le_value (b # bs) = b + 256 * le_value bs"

record json_lib =
  json_loads :: "pystr \<Rightarrow> pv option"
  int_of_float :: "pystr \<Rightarrow> py_error + int"

text \<open>\<open>int(x)\<close>\<close>

fun int_of_pv :: "json_lib \<Rightarrow> pv \<Rightarrow> py_error + int" where
  "int_of_pv L (PInt i) = Inr i"
| "int_of_pv L (PBool b) = Inr (if b then 1 else 0)"
| "int_of_pv L (PStr s) = int_of_str s"
| "int_of_pv L (PFloat r) = int_of_float L r"
| "int_of_pv L _ = Inl TypeError"

text \<open>Iteration over a value: a text gives its characters, a dict its keys.\<close>

fun iter_pv :: "pv \<Rightarrow> py_error + pv list" where
  "iter_pv (PList xs) = Inr xs"
| "iter_pv (PStr s) = Inr (map (\<lambda>c. PStr [c]) s)"
| "iter_pv (PDict d) = Inr (map (\<lambda>p. PStr (fst p)) d)"
| "iter_pv _ = Inl TypeError"

text \<open>\<open>try: ... except (TypeError, ValueError)\<close>; the errors here are not subclasses of them.\<close>

definition catch_shape :: "py_error + 'a \<Rightarrow> py_error + 'a" where
  "catch_shape r = (case r of Inl e \<Rightarrow> Inl (if e = TypeError \<or> e = ValueError then SafetensorsError else e)
                    | Inr x \<Rightarrow> Inr x)"

definition entry_dtype :: "pv \<Rightarrow> py_error + st_dtype" where
  "entry_dtype d =
     (case d of
        PStr s \<Rightarrow> (case dtype_of s of None \<Rightarrow> Inl SafetensorsError | Some t \<Rightarrow> Inr t)
      | PList _ \<Rightarrow> Inl TypeError
      | PDict _ \<Rightarrow> Inl TypeError
      | _ \<Rightarrow> Inl SafetensorsError)"

definition entry_offsets :: "json_lib \<Rightarrow> pv \<Rightarrow> py_error + int \<times> int" where
  "entry_offsets L v =
     (case v of
        PList [a, b] \<Rightarrow>
          rbind (int_of_pv L a) (\<lambda>begin. rbind (int_of_pv L b) (\<lambda>end'.
            if begin < 0 \<or> end' < begin then Inl SafetensorsError else Inr (begin, end')))
      | _ \<Rightarrow> Inl SafetensorsError)"

definition entry_shape :: "json_lib \<Rightarrow> pv \<Rightarrow> py_error + int list" where
  "entry_shape L v =
     rbind (catch_shape (rbind (iter_pv v) (rmap (int_of_pv L)))) (\<lambda>s.
       if list_ex (\<lambda>d. d < 0) s then Inl SafetensorsError else Inr s)"

definition parse_entry :: "json_lib \<Rightarrow> pystr \<Rightarrow> pv \<Rightarrow> py_error + tensor_spec" where
  "parse_entry L name info =
     (case info of
        PDict entries \<Rightarrow>
          (case (dget entries (lit ''dtype''), dget entries (lit ''shape''), dget entries (lit ''data_offsets'')) of
             (Some d, Some s, Some off) \<Rightarrow>
               rbind (entry_dtype d) (\<lambda>t.
               rbind (entry_offsets L off) (\<lambda>(begin, end').
               rbind (entry_shape L s) (\<lambda>shp.
                 if (end' - begin) mod int (itemsize t) \<noteq> 0 then Inl SafetensorsError
                 else let spec = \<lparr>ts_name = name, ts_dtype = t, ts_shape = shp, ts_begin = begin, ts_end = end'\<rparr>
                      in if nbytes spec \<noteq> end' - begin then Inl SafetensorsError else Inr spec)))
           | _ \<Rightarrow> Inl SafetensorsError)
      | _ \<Rightarrow> Inl SafetensorsError)"

definition header_step ::
    "json_lib \<Rightarrow> (pystr, tensor_spec) dict \<Rightarrow> pystr \<times> pv \<Rightarrow> py_error + (pystr, tensor_spec) dict" where
  "header_step L tensors entry =
     (if fst entry = lit ''__metadata__'' then Inr tensors
      else rbind (parse_entry L (fst entry) (snd entry)) (\<lambda>spec. Inr (dset (fst entry) spec tensors)))"

definition parse_header_bytes :: "json_lib \<Rightarrow> int list \<Rightarrow> py_error + st_header" where
  "parse_header_bytes L prefix =
     (if length prefix < 8 then Inl SafetensorsError
      else let hlen = le_value (take 8 prefix)
           in if hlen > MAX_HEADER_BYTES then Inl SafetensorsError
              else let header_bytes = take (nat hlen) (drop 8 prefix)
                   in if int (length header_bytes) < hlen then Inl SafetensorsError
                      else case utf8_decode header_bytes of
                        Inl _ \<Rightarrow> Inl SafetensorsError
                      | Inr s \<Rightarrow>
                          (case json_loads L s of
                             None \<Rightarrow> Inl SafetensorsError
                           | Some (PDict doc) \<Rightarrow>
                               rbind (rfold (header_step L) [] doc)
                                 (\<lambda>tensors. Inr \<lparr>st_tensors = tensors, data_offset = 8 + hlen\<rparr>)
                           | Some _ \<Rightarrow> Inl SafetensorsError))"

definition read_header :: "json_lib \<Rightarrow> int list \<Rightarrow> py_error + st_header" where
  "read_header L file =
     (let head = take 8 file
      in if length head < 8 then Inl SafetensorsError
         else let hlen = le_value head
              in if hlen > MAX_HEADER_BYTES then Inl SafetensorsError
                 else let body = take (nat hlen) (drop 8 file)
                      in if int (length body) < hlen then Inl SafetensorsError
                         else parse_header_bytes L (head @ body))"

section \<open>Decoding a tensor\<close>

datatype st_data = U8s "8 word list" | F32s "f32 list" | Native st_dtype "int list list"

type_synonym st_array = "int list \<times> st_data"

fun chunks :: "nat \<Rightarrow> nat \<Rightarrow> 'a list \<Rightarrow> 'a list list" where
  "chunks n 0 bs = []"
| "chunks n (Suc k) bs = take n bs # chunks n k (drop n bs)"

text \<open>The value of a float32 bit pattern; the sign of a zero and the payload of a NaN are not
  kept, as in \<open>Fp8\<close>.\<close>

definition f32_of_bits :: "32 word \<Rightarrow> f32" where
  "f32_of_bits u =
     (let expo = unat (drop_bit 23 u AND 0xFF); mant = unat (u AND 0x7FFFFF)
      in signed (bit u 31)
           (if expo = 255 then if mant = 0 then Inf False else NaN
            else if expo = 0 then Fin (of_nat mant * pow2 (- 149))
            else Fin ((1 + of_nat mant / 2 ^ 23) * pow2 (int expo - 127))))"

text \<open>
  What numpy can hold: at most 64 dimensions, and a number of bytes, counted over the dimensions that
  are not zero, that fits 63 bits; anything else is a \<open>ValueError\<close>.  The item is that of the widest
  array of this shape the decoder builds: float64 for E5M2, uint32 for BF16.
\<close>

definition NPY_MAXDIMS :: nat where
  "NPY_MAXDIMS = 64"

definition numpy_shape :: "nat \<Rightarrow> int list \<Rightarrow> bool" where
  "numpy_shape item shp \<longleftrightarrow>
     length shp \<le> NPY_MAXDIMS \<and> prod_list (filter (\<lambda>d. d \<noteq> 0) shp) * int item < 2 ^ 63"

fun widest :: "st_dtype \<Rightarrow> nat" where
  "widest F8_E5M2 = 8" | "widest BF16 = 4" | "widest t = itemsize t"

definition reshape :: "nat \<Rightarrow> int list \<Rightarrow> nat \<Rightarrow> st_data \<Rightarrow> py_error + st_array" where
  "reshape item shp n x =
     (if numpy_shape item shp \<and> prod_list shp = int n then Inr (shp, x) else Inl ValueError)"

definition u8_words :: "int list \<Rightarrow> 8 word list" where
  "u8_words = map word_of_int"

text \<open>
  \<open>decode_tensor_bytes\<close>; \<open>np.frombuffer\<close> refuses a buffer that is not a whole number of items.
  Shapes are free of negative dimensions.
\<close>

definition decode_tensor_bytes :: "int list \<Rightarrow> tensor_spec \<Rightarrow> py_error + st_array" where
  "decode_tensor_bytes data spec =
     (let t = ts_dtype spec; n = length data div itemsize t; shp = ts_shape spec
      in if t = F8_E4M3 \<or> t = F8_E8M0 then reshape (widest t) shp n (U8s (u8_words data))
         else if t = F8_E5M2 then reshape (widest t) shp n (F32s (map decode_e5m2 (u8_words data)))
         else if length data mod itemsize t \<noteq> 0 then Inl ValueError
         else if t = BF16
         then reshape (widest t) shp n (F32s (map (\<lambda>c. f32_of_bits (decode_bf16 (word_of_int (le_value c)))) (chunks 2 n data)))
         else if t = F32' then reshape (widest t) shp n (F32s (map (\<lambda>c. f32_of_bits (word_of_int (le_value c))) (chunks 4 n data)))
         else if t = U8 then reshape (widest t) shp n (U8s (u8_words data))
         else reshape (widest t) shp n (Native t (chunks (itemsize t) n data)))"

section \<open>Loading\<close>

text \<open>\<open>f.seek(p); f.read(n)\<close>\<close>

definition read_at :: "int list \<Rightarrow> int \<Rightarrow> int \<Rightarrow> int list" where
  "read_at file pos n = take (nat n) (drop (nat pos) file)"

definition load_one :: "int list \<Rightarrow> st_header \<Rightarrow> pystr \<Rightarrow> py_error + st_array" where
  "load_one file h name =
     rbind (header_spec h name) (\<lambda>spec.
       if data_offset h + ts_end spec > int (length file) then Inl SafetensorsError
       else let data = read_at file (data_offset h + ts_begin spec) (ts_end spec - ts_begin spec)
            in if int (length data) \<noteq> ts_end spec - ts_begin spec then Inl SafetensorsError
               else decode_tensor_bytes data spec)"

definition load_step ::
    "(pystr \<Rightarrow> py_error + 'x) \<Rightarrow> (pystr, 'x) dict \<Rightarrow> pystr \<Rightarrow> py_error + (pystr, 'x) dict" where
  "load_step load out name = rbind (load name) (\<lambda>a. Inr (dset name a out))"

definition load_tensors ::
    "json_lib \<Rightarrow> int list \<Rightarrow> pystr list option \<Rightarrow> py_error + (pystr, st_array) dict" where
  "load_tensors L file names =
     rbind (read_header L file) (\<lambda>h.
       rfold (load_step (load_one file h)) []
         (case names of Some ns \<Rightarrow> ns | None \<Rightarrow> dkeys (st_tensors h)))"

text \<open>
  The same over HTTP ranges: the server is a function from a range to the bytes it sends, of which
  at most \<open>length\<close> are read.
\<close>

definition get_range ::
    "(int \<Rightarrow> int \<Rightarrow> int list) \<Rightarrow> int \<Rightarrow> int \<Rightarrow> py_error + int list" where
  "get_range server begin n =
     (if begin < 0 \<or> n < 0 \<or> n > MAX_HEADER_BYTES then Inl SafetensorsError
      else Inr (take (nat n) (server begin (begin + n - 1))))"

definition load_remote :: "(int \<Rightarrow> int \<Rightarrow> int list) \<Rightarrow> st_header \<Rightarrow> pystr \<Rightarrow> py_error + st_array" where
  "load_remote server h name =
     rbind (header_spec h name) (\<lambda>spec.
     rbind (get_range server (data_offset h + ts_begin spec) (ts_end spec - ts_begin spec)) (\<lambda>raw.
       if int (length raw) \<noteq> ts_end spec - ts_begin spec then Inl SafetensorsError
       else decode_tensor_bytes raw spec))"

definition load_tensors_from_url ::
    "json_lib \<Rightarrow> (int \<Rightarrow> int \<Rightarrow> int list) \<Rightarrow> pystr list \<Rightarrow> int \<Rightarrow> py_error + (pystr, st_array) dict" where
  "load_tensors_from_url L server names prefix_len =
     rbind (get_range server 0 prefix_len) (\<lambda>prefix.
     rbind (parse_header_bytes L prefix) (\<lambda>h.
       rfold (load_step (load_remote server h)) [] names))"

section \<open>Accepted headers are sound\<close>

definition spec_ok :: "pystr \<Rightarrow> tensor_spec \<Rightarrow> bool" where
  "spec_ok name s \<longleftrightarrow> ts_name s = name \<and> 0 \<le> ts_begin s \<and> ts_begin s \<le> ts_end s
     \<and> list_all (\<lambda>d. 0 \<le> d) (ts_shape s) \<and> nbytes s = ts_end s - ts_begin s"

definition header_ok :: "st_header \<Rightarrow> bool" where
  "header_ok h \<longleftrightarrow> dict_ok (st_tensors h) \<and> (\<forall>(n, s) \<in> set (st_tensors h). spec_ok n s) \<and> 8 \<le> data_offset h"

lemma parse_entry_ok: "parse_entry L name e = Inr s \<Longrightarrow> spec_ok name s"
  unfolding parse_entry_def entry_shape_def entry_offsets_def
  by (auto simp: rbind_Inr_iff spec_ok_def Let_def list_ex_iff list_all_iff not_less
      split: pv.splits option.splits if_splits list.splits)

lemma header_steps_ok:
  "rfold (header_step L) d doc = Inr d' \<Longrightarrow> dict_ok d \<Longrightarrow> (\<forall>(n, s) \<in> set d. spec_ok n s) \<Longrightarrow>
    dict_ok d' \<and> (\<forall>(n, s) \<in> set d'. spec_ok n s)"
proof (induction doc arbitrary: d)
  case (Cons e doc)
  from Cons.prems(1) obtain d1 where d1: "header_step L d e = Inr d1" "rfold (header_step L) d1 doc = Inr d'"
    by (auto simp: rbind_Inr_iff)
  have "dict_ok d1 \<and> (\<forall>(n, s) \<in> set d1. spec_ok n s)"
    using d1(1) Cons.prems(2,3) parse_entry_ok
    by (auto simp: header_step_def rbind_Inr_iff set_dset split: if_splits)
  with Cons.IH [OF d1(2)] show ?case by simp
qed simp

text \<open>Bytes; the length they encode.\<close>

definition bytes_ok :: "int list \<Rightarrow> bool" where
  "bytes_ok bs \<longleftrightarrow> list_all (\<lambda>b. 0 \<le> b \<and> b < 256) bs"

lemma bytes_ok_simps [simp]:
  "bytes_ok []" "bytes_ok (b # bs) \<longleftrightarrow> 0 \<le> b \<and> b < 256 \<and> bytes_ok bs"
  "bytes_ok (as @ bs) \<longleftrightarrow> bytes_ok as \<and> bytes_ok bs"
  by (auto simp: bytes_ok_def)

lemma bytes_ok_take: "bytes_ok bs \<Longrightarrow> bytes_ok (take n bs)"
  by (auto simp: bytes_ok_def list_all_iff dest: in_set_takeD)

lemma le_value_nonneg: "bytes_ok bs \<Longrightarrow> 0 \<le> le_value bs"
  by (induction bs) auto

lemma parse_header_ok:
  assumes "parse_header_bytes L prefix = Inr h" "bytes_ok prefix"
  shows "header_ok h" "data_offset h \<le> int (length prefix)" "data_offset h = 8 + le_value (take 8 prefix)"
    "le_value (take 8 prefix) \<le> MAX_HEADER_BYTES"
proof -
  let ?n = "le_value (take 8 prefix)"
  have n: "0 \<le> ?n" by (rule le_value_nonneg) (rule bytes_ok_take [OF assms(2)])
  from assms(1) obtain doc where
    p: "rfold (header_step L) [] doc = Inr (st_tensors h)" "data_offset h = 8 + ?n"
    "\<not> length prefix < 8" "\<not> ?n > MAX_HEADER_BYTES" "\<not> int (length (take (nat ?n) (drop 8 prefix))) < ?n"
    unfolding parse_header_bytes_def Let_def
    by (auto simp: rbind_Inr_iff split: if_splits sum.splits option.splits pv.splits)
  show "header_ok h" using header_steps_ok [OF p(1)] p(2) n by (simp add: header_ok_def)
  show "data_offset h \<le> int (length prefix)" using p(2,3,5) n by auto
  show "data_offset h = 8 + ?n" "?n \<le> MAX_HEADER_BYTES" using p by auto
qed

text \<open>Reading the header from the stream is parsing it from the whole file.\<close>

lemma read_header_eq:
  assumes "bytes_ok file"
  shows "read_header L file = parse_header_bytes L file"
proof (cases "length file < 8")
  case True
  then show ?thesis by (simp add: read_header_def parse_header_bytes_def)
next
  case False
  let ?n = "le_value (take 8 file)"
  have n: "0 \<le> ?n" by (rule le_value_nonneg) (rule bytes_ok_take [OF assms])
  have t: "take 8 (take 8 file @ b) = take 8 file" for b using False by simp
  have d: "drop 8 (take 8 file @ b) = b" for b using False by simp
  have "\<not> length (take 8 file @ b) < 8" for b using False by simp
  then show ?thesis using False n
    unfolding read_header_def parse_header_bytes_def Let_def t d by simp
qed

section \<open>Loading from a sound header\<close>

lemma length_chunks [simp]: "length (chunks n k bs) = k"
  by (induction n k bs rule: chunks.induct) auto

definition numpy_spec :: "tensor_spec \<Rightarrow> bool" where
  "numpy_spec s \<longleftrightarrow> numpy_shape (widest (ts_dtype s)) (ts_shape s)"

lemma decode_total:
  assumes s: "spec_ok n s" and d: "int (length data) = ts_end s - ts_begin s"
  shows "numpy_spec s \<Longrightarrow> \<exists>x. decode_tensor_bytes data s = Inr (ts_shape s, x)"
    "\<not> numpy_spec s \<Longrightarrow> decode_tensor_bytes data s = Inl ValueError"
proof -
  let ?k = "itemsize (ts_dtype s)"
  have k: "0 < ?k" by (cases "ts_dtype s") auto
  have p: "prod_list (ts_shape s) * int ?k = int (length data)" using s d by (simp add: spec_ok_def nbytes_def)
  then have "int (length data) mod int ?k = 0" by (metis mod_mult_self2_is_0)
  then have m: "length data mod ?k = 0" by (simp flip: zmod_int)
  have "prod_list (ts_shape s) = int (length data) div int ?k" using p k
    by (metis nonzero_mult_div_cancel_right of_nat_0_eq_iff less_not_refl)
  then have "prod_list (ts_shape s) = int (length data div ?k)" by (simp add: zdiv_int)
  then have r: "reshape (widest (ts_dtype s)) (ts_shape s) (length data div ?k) x =
      (if numpy_spec s then Inr (ts_shape s, x) else Inl ValueError)" for x
    by (simp add: reshape_def numpy_spec_def)
  show "\<exists>x. decode_tensor_bytes data s = Inr (ts_shape s, x)" if "numpy_spec s"
    using m that unfolding decode_tensor_bytes_def Let_def r by auto
  show "decode_tensor_bytes data s = Inl ValueError" if "\<not> numpy_spec s"
    using m that unfolding decode_tensor_bytes_def Let_def r by auto
qed

definition in_file :: "int list \<Rightarrow> st_header \<Rightarrow> pystr \<Rightarrow> bool" where
  "in_file file h name \<longleftrightarrow>
     (case dget (st_tensors h) name of None \<Rightarrow> False
      | Some s \<Rightarrow> data_offset h + ts_end s \<le> int (length file))"

lemma header_spec_ok: "header_ok h \<Longrightarrow> dget (st_tensors h) n = Some s \<Longrightarrow> spec_ok n s"
  unfolding header_ok_def using map_of_SomeD [of "st_tensors h" n s] by fastforce

lemma load_one_iff:
  assumes h: "header_ok h"
  shows "load_one file h name =
    (if in_file file h name
     then let s = the (dget (st_tensors h) name)
          in decode_tensor_bytes (read_at file (data_offset h + ts_begin s) (ts_end s - ts_begin s)) s
     else Inl SafetensorsError)"
    and "in_file file h name \<Longrightarrow> dget (st_tensors h) name = Some s \<Longrightarrow> numpy_spec s \<Longrightarrow>
      \<exists>x. load_one file h name = Inr (ts_shape s, x)"
    and "in_file file h name \<Longrightarrow> dget (st_tensors h) name = Some s \<Longrightarrow> \<not> numpy_spec s \<Longrightarrow>
      load_one file h name = Inl ValueError"
proof -
  have len: "int (length (read_at file (data_offset h + ts_begin s) (ts_end s - ts_begin s))) = ts_end s - ts_begin s"
    if "in_file file h name" "dget (st_tensors h) name = Some s" for s
  proof -
    have "spec_ok name s" by (rule header_spec_ok [OF h that(2)])
    moreover have "8 \<le> data_offset h" using h by (simp add: header_ok_def)
    ultimately show ?thesis using that by (auto simp: read_at_def in_file_def spec_ok_def)
  qed
  show eq: "load_one file h name =
    (if in_file file h name
     then let s = the (dget (st_tensors h) name)
          in decode_tensor_bytes (read_at file (data_offset h + ts_begin s) (ts_end s - ts_begin s)) s
     else Inl SafetensorsError)"
    using len by (auto simp: load_one_def header_spec_def in_file_def Let_def split: option.splits)
  show "\<exists>x. load_one file h name = Inr (ts_shape s, x)"
    if "in_file file h name" "dget (st_tensors h) name = Some s" "numpy_spec s"
    using that decode_total(1) [OF header_spec_ok [OF h that(2)] len [OF that(1,2)]] by (simp add: eq)
  show "load_one file h name = Inl ValueError"
    if "in_file file h name" "dget (st_tensors h) name = Some s" "\<not> numpy_spec s"
    using that decode_total(2) [OF header_spec_ok [OF h that(2)] len [OF that(1,2)]] by (simp add: eq)
qed

lemma load_steps:
  "case rfold (load_step load) out ns of
      Inl e \<Rightarrow> \<exists>n \<in> set ns. load n = Inl e
    | Inr out' \<Rightarrow> \<forall>m. (m \<in> set ns \<longrightarrow> (\<exists>a. load m = Inr a \<and> dget out' m = Some a))
        \<and> (m \<notin> set ns \<longrightarrow> dget out' m = dget out m)"
proof (induction ns arbitrary: out)
  case (Cons n ns)
  show ?case
  proof (cases "load n")
    case (Inl e)
    then have "load_step load out n = Inl e" by (simp add: load_step_def)
    with Inl show ?thesis by simp
  next
    case (Inr a)
    then have st: "load_step load out n = Inr (dset n a out)" by (simp add: load_step_def)
    note ih = Cons.IH [of "dset n a out"]
    show ?thesis
    proof (cases "rfold (load_step load) (dset n a out) ns")
      case (Inl e)
      with ih st show ?thesis by auto
    next
      case (Inr out')
      with ih have "\<forall>m. (m \<in> set ns \<longrightarrow> (\<exists>a. load m = Inr a \<and> dget out' m = Some a))
        \<and> (m \<notin> set ns \<longrightarrow> dget out' m = (if m = n then Some a else dget out m))"
        by (simp add: dget_dset)
      moreover from this have "dget out' n = Some a"
        using \<open>load n = Inr a\<close> by (cases "n \<in> set ns") (metis Inr_inject, simp)
      ultimately show ?thesis using Inr st \<open>load n = Inr a\<close> by auto
    qed
  qed
qed simp

lemma load_steps_keys:
  "rfold (load_step load) out ns = Inr out' \<Longrightarrow> distinct ns \<Longrightarrow> set ns \<inter> set (dkeys out) = {} \<Longrightarrow>
    dkeys out' = dkeys out @ ns"
proof (induction ns arbitrary: out)
  case (Cons n ns)
  then obtain a where a: "rfold (load_step load) (dset n a out) ns = Inr out'"
    by (cases "load n") (simp_all add: load_step_def [of load out n])
  have "dset n a out = out @ [(n, a)]" using Cons.prems(3) by (intro dset_append_new) auto
  with Cons.IH [OF a] Cons.prems show ?case by auto
qed simp

text \<open>
  C32: what a file with an accepted header gives.  \<open>load_tensors\<close> raises \<open>SafetensorsError\<close> only
  because a name is not in the header or the range of a tensor ends outside the file, and a plain
  \<open>ValueError\<close> only because the header declares a shape numpy cannot hold, which the reader does not
  check; it raises nothing else.  Otherwise it returns exactly the tensors asked for, each decoded from
  its own byte range, in the shape the header declares: no other byte of the file is interpreted, and
  neither the size of the buffer nor the reshape can fail for a shape numpy can hold.
\<close>

theorem accepted_header_loads:
  assumes "bytes_ok file" "read_header L file = Inr h"
  shows "case load_tensors L file (Some ns) of
      Inl e \<Rightarrow> (e = SafetensorsError \<and> (\<exists>n \<in> set ns. \<not> in_file file h n)) \<or>
        (e = ValueError \<and> (\<exists>n \<in> set ns. \<exists>s. dget (st_tensors h) n = Some s \<and> \<not> numpy_spec s))
    | Inr out \<Rightarrow> \<forall>n. (n \<notin> set ns \<longrightarrow> dget out n = None) \<and> (n \<in> set ns \<longrightarrow>
        in_file file h n \<and> (\<exists>s x. dget (st_tensors h) n = Some s \<and> numpy_spec s \<and> dget out n = Some (ts_shape s, x)
          \<and> decode_tensor_bytes (read_at file (data_offset h + ts_begin s) (ts_end s - ts_begin s)) s
              = Inr (ts_shape s, x)))"
proof -
  have h: "header_ok h" using assms by (auto simp: read_header_eq dest: parse_header_ok)
  have eq: "load_tensors L file (Some ns) = rfold (load_step (load_one file h)) [] ns"
    by (simp add: load_tensors_def assms(2))
  have err: "(e = SafetensorsError \<and> \<not> in_file file h n) \<or>
      (e = ValueError \<and> (\<exists>s. dget (st_tensors h) n = Some s \<and> \<not> numpy_spec s))"
    if e: "load_one file h n = Inl e" for n e
  proof (cases "in_file file h n")
    case True
    then obtain s where s: "dget (st_tensors h) n = Some s" by (auto simp: in_file_def split: option.splits)
    with load_one_iff(2,3) [OF h True s] e show ?thesis by (cases "numpy_spec s") auto
  next
    case False
    with e show ?thesis by (simp add: load_one_iff(1) [OF h])
  qed
  have one: "in_file file h n \<and> (\<exists>s x. dget (st_tensors h) n = Some s \<and> numpy_spec s \<and> a = (ts_shape s, x)
      \<and> decode_tensor_bytes (read_at file (data_offset h + ts_begin s) (ts_end s - ts_begin s)) s
          = Inr (ts_shape s, x))" if a: "load_one file h n = Inr a" for n a
  proof -
    have i: "in_file file h n" using a load_one_iff(1) [OF h] by (metis Inl_Inr_False)
    then obtain s where s: "dget (st_tensors h) n = Some s"
      by (auto simp: in_file_def split: option.splits)
    have fits: "numpy_spec s" using load_one_iff(3) [OF h i s] a by auto
    with i s show ?thesis using load_one_iff(1,2) [OF h] a by (fastforce simp: Let_def)
  qed
  from load_steps [where load = "load_one file h" and out = "[]" and ns = ns]
  show ?thesis unfolding eq
    by (cases "rfold (load_step (load_one file h)) [] ns") (fastforce dest: err, fastforce dest: one)
qed

section \<open>Writing a file and reading it back\<close>

text \<open>A tensor to be written: its name, dtype, shape and bytes.\<close>

type_synonym st_entry = "pystr \<times> st_dtype \<times> int list \<times> int list"

fun entry_ok :: "st_entry \<Rightarrow> bool" where
  "entry_ok (n, t, shp, b) \<longleftrightarrow>
     n \<noteq> lit ''__metadata__'' \<and> bytes_ok b \<and> list_all (\<lambda>d. 0 \<le> d) shp
     \<and> prod_list shp * int (itemsize t) = int (length b) \<and> numpy_shape (widest t) shp"

definition dtype_text :: "st_dtype \<Rightarrow> pystr" where
  "dtype_text t = lit (fst (hd (filter (\<lambda>p. snd p = t) dtype_names)))"

fun le_bytes :: "nat \<Rightarrow> int \<Rightarrow> int list" where
  "le_bytes 0 n = []"
| "le_bytes (Suc k) n = n mod 256 # le_bytes k (n div 256)"

fun st_layout :: "int \<Rightarrow> st_entry list \<Rightarrow> (pystr \<times> pv) list" where
  "st_layout off [] = []"
| "st_layout off ((n, t, shp, b) # es) =
     (n, PDict [(lit ''dtype'', PStr (dtype_text t)), (lit ''shape'', PList (map PInt shp)),
                (lit ''data_offsets'', PList [PInt off, PInt (off + int (length b))])])
     # st_layout (off + int (length b)) es"

definition st_data_of :: "st_entry \<Rightarrow> int list" where
  "st_data_of e = snd (snd (snd e))"

definition st_file :: "int list \<Rightarrow> st_entry list \<Rightarrow> int list" where
  "st_file hdr es = le_bytes 8 (int (length hdr)) @ hdr @ concat (map st_data_of es)"

fun st_specs :: "int \<Rightarrow> st_entry list \<Rightarrow> (pystr, tensor_spec) dict" where
  "st_specs off [] = []"
| "st_specs off ((n, t, shp, b) # es) =
     (n, \<lparr>ts_name = n, ts_dtype = t, ts_shape = shp, ts_begin = off, ts_end = off + int (length b)\<rparr>)
     # st_specs (off + int (length b)) es"

lemma dtype_texts: "list_all (\<lambda>t. dtype_of (dtype_text t) = Some t) (map snd dtype_names)"
  by code_simp

lemma dtype_of_text: "dtype_of (dtype_text t) = Some t"
proof -
  have "t \<in> set (map snd dtype_names)" by (cases t) (simp_all add: dtype_names_def)
  with dtype_texts show ?thesis unfolding list_all_iff by blast
qed

lemma st_keys: "lit ''dtype'' \<noteq> lit ''shape''" "lit ''dtype'' \<noteq> lit ''data_offsets''"
  "lit ''shape'' \<noteq> lit ''data_offsets''"
  by (simp_all add: lit_def)

lemma rmap_ints: "rmap (int_of_pv L) (map PInt xs) = Inr xs"
  by (induction xs) auto

lemma parse_written_entry:
  assumes "entry_ok (n, t, shp, b)" "0 \<le> off"
  shows "parse_entry L n (PDict [(lit ''dtype'', PStr (dtype_text t)), (lit ''shape'', PList (map PInt shp)),
                (lit ''data_offsets'', PList [PInt off, PInt (off + int (length b))])])
    = Inr \<lparr>ts_name = n, ts_dtype = t, ts_shape = shp, ts_begin = off, ts_end = off + int (length b)\<rparr>"
proof -
  have neg: "\<not> list_ex (\<lambda>d. d < 0) shp" using assms(1) by (auto simp: list_ex_iff list_all_iff)
  have "int (length b) mod int (itemsize t) = 0" using assms(1) by (metis entry_ok.simps mod_mult_self2_is_0)
  with assms neg st_keys show ?thesis
    by (simp add: parse_entry_def entry_dtype_def dtype_of_text entry_offsets_def entry_shape_def rmap_ints
        catch_shape_def Let_def nbytes_def)
qed

lemma header_of_layout:
  "list_all entry_ok es \<Longrightarrow> 0 \<le> off \<Longrightarrow> distinct (map fst es) \<Longrightarrow> set (map fst es) \<inter> set (dkeys d) = {} \<Longrightarrow>
    rfold (header_step L) d (st_layout off es) = Inr (d @ st_specs off es)"
proof (induction off es arbitrary: d rule: st_layout.induct)
  case (2 off n t shp b es)
  let ?s = "\<lparr>ts_name = n, ts_dtype = t, ts_shape = shp, ts_begin = off, ts_end = off + int (length b)\<rparr>"
  have ok: "entry_ok (n, t, shp, b)" using 2(2) by simp
  have "n \<notin> set (dkeys d)" using 2(5) by auto
  then have "header_step L d (hd (st_layout off ((n, t, shp, b) # es))) = Inr (d @ [(n, ?s)])"
    using ok parse_written_entry [OF ok 2(3)] by (simp add: header_step_def dset_append_new)
  moreover have "rfold (header_step L) (d @ [(n, ?s)]) (st_layout (off + int (length b)) es)
      = Inr ((d @ [(n, ?s)]) @ st_specs (off + int (length b)) es)"
    by (rule 2(1)) (use 2 in auto)
  ultimately show ?case by simp
qed simp

lemma le_value_bytes: "le_value (le_bytes k n) = n mod 256 ^ k"
proof (induction k n rule: le_bytes.induct)
  case (2 k n)
  then show ?case by (simp add: zmod_zmult2_eq)
qed simp

lemma length_le_bytes [simp]: "length (le_bytes k n) = k"
  by (induction k n rule: le_bytes.induct) auto

lemma bytes_ok_le_bytes [simp]: "bytes_ok (le_bytes k n)"
  by (induction k n rule: le_bytes.induct) auto

lemma keys_st_specs: "dkeys (st_specs off es) = map fst es"
  by (induction off es rule: st_specs.induct) auto

text \<open>The array a written tensor is read back as.\<close>

fun reads_back :: "st_entry \<Rightarrow> pystr \<times> st_array \<Rightarrow> bool" where
  "reads_back (n, t, shp, b) (m, a) \<longleftrightarrow> m = n \<and> (\<forall>begin end'.
     decode_tensor_bytes b \<lparr>ts_name = n, ts_dtype = t, ts_shape = shp, ts_begin = begin, ts_end = end'\<rparr> = Inr a)"

lemma decode_ignores_offsets:
  "decode_tensor_bytes b \<lparr>ts_name = n, ts_dtype = t, ts_shape = shp, ts_begin = p, ts_end = q\<rparr>
    = decode_tensor_bytes b \<lparr>ts_name = n, ts_dtype = t, ts_shape = shp, ts_begin = p', ts_end = q'\<rparr>"
  by (simp add: decode_tensor_bytes_def)

lemma load_layout:
  assumes h: "header_ok h" and fl: "file = P @ concat (map st_data_of es)"
    and P: "int (length P) = data_offset h + off" and sub: "set (st_specs off es) \<subseteq> set (st_tensors h)"
    and ok: "list_all entry_ok es" and off: "0 \<le> off"
    and dist: "distinct (map fst es)" "set (map fst es) \<inter> set (dkeys d) = {}"
  shows "\<exists>out. rfold (load_step (load_one file h)) d (map fst es) = Inr (d @ out)
    \<and> list_all2 reads_back es out"
  using assms
proof (induction es arbitrary: P off d)
  case (Cons e es)
  obtain n t shp b where e: "e = (n, t, shp, b)" by (cases e)
  let ?s = "\<lparr>ts_name = n, ts_dtype = t, ts_shape = shp, ts_begin = off, ts_end = off + int (length b)\<rparr>"
  have hd: "dict_ok (st_tensors h)" "8 \<le> data_offset h" using h by (auto simp: header_ok_def)
  have s: "dget (st_tensors h) n = Some ?s"
    using Cons.prems(4) e by (simp add: dget_Some_in [OF hd(1)])
  have fileb: "file = P @ b @ concat (map st_data_of es)"
    unfolding Cons.prems(2) by (simp add: e st_data_of_def [of "(n, t, shp, b)"])
  have inf: "in_file file h n" using Cons.prems(3) by (simp add: in_file_def s fileb)
  have "read_at file (data_offset h + ts_begin ?s) (ts_end ?s - ts_begin ?s) = b"
  proof -
    have "nat (data_offset h + off) = length P" using Cons.prems(3) by linarith
    then show ?thesis by (simp add: read_at_def fileb)
  qed
  then have one: "load_one file h n = decode_tensor_bytes b ?s"
    using inf s by (simp add: load_one_iff(1) [OF h] Let_def)
  have "numpy_spec ?s" using Cons.prems(5) by (simp add: e numpy_spec_def)
  from load_one_iff(2) [OF h inf s this] one obtain x where x: "decode_tensor_bytes b ?s = Inr (shp, x)" by auto
  then have rb: "reads_back e (n, shp, x)"
    unfolding e using decode_ignores_offsets by (auto simp del: split_paired_All) metis
  have nd: "n \<notin> set (dkeys d)" using Cons.prems(8) e by auto
  have step: "load_step (load_one file h) d n = Inr (d @ [(n, shp, x)])"
    by (simp add: load_step_def one x dset_append_new [OF nd])
  have "\<exists>out. rfold (load_step (load_one file h)) (d @ [(n, shp, x)]) (map fst es) = Inr ((d @ [(n, shp, x)]) @ out)
      \<and> list_all2 reads_back es out"
  proof (rule Cons.IH [where P = "P @ b" and off = "off + int (length b)"])
    show "int (length (P @ b)) = data_offset h + (off + int (length b))" using Cons.prems(3) by simp
  qed (use Cons.prems e h fileb in auto)
  then obtain out where "rfold (load_step (load_one file h)) (d @ [(n, shp, x)]) (map fst es)
      = Inr ((d @ [(n, shp, x)]) @ out)" "list_all2 reads_back es out" by blast
  with step rb e show ?case by (intro exI [of _ "(n, shp, x) # out"]) simp
qed simp

text \<open>
  C33: the round trip of the file format.  Take tensors with distinct names and shapes numpy can
  hold, whose bytes have the length their shape and dtype ask for, and lay them out one after the other behind a header that
  \<open>json.loads\<close> reads as the dict of their names, dtypes, shapes and offsets.  Then loading the file
  succeeds and returns the same names in the same order, each tensor decoded from exactly the bytes
  it was written with.
\<close>

theorem safetensors_roundtrip:
  assumes "list_all entry_ok es" "distinct (map fst es)"
    and "bytes_ok hdr" "int (length hdr) \<le> MAX_HEADER_BYTES"
    and "utf8_decode hdr = Inr s" "json_loads L s = Some (PDict (st_layout 0 es))"
  shows "\<exists>out. load_tensors L (st_file hdr es) None = Inr out \<and> list_all2 reads_back es out"
proof -
  let ?f = "st_file hdr es" and ?h = "\<lparr>st_tensors = st_specs 0 es, data_offset = 8 + int (length hdr)\<rparr>"
  have data: "bytes_ok (concat (map st_data_of es))"
    using assms(1) by (induction es) (auto simp: st_data_of_def)
  then have bytes: "bytes_ok ?f" using assms(3) by (simp add: st_file_def)
  have "int (length hdr) mod 256 ^ 8 = int (length hdr)"
    using assms(4) by (intro mod_pos_pos_trivial) (auto simp: MAX_HEADER_BYTES_def)
  then have n: "le_value (take 8 ?f) = int (length hdr)"
    by (simp add: st_file_def le_value_bytes)
  have hb: "take (length hdr) (drop 8 ?f) = hdr" by (simp add: st_file_def)
  have tens: "rfold (header_step L) [] (st_layout 0 es) = Inr (st_specs 0 es)"
    using header_of_layout [OF assms(1) order_refl assms(2), of "[]" L] by simp
  have parse: "parse_header_bytes L ?f = Inr ?h"
    using n hb assms(4,5,6) tens by (simp add: parse_header_bytes_def Let_def st_file_def)
  have hok: "header_ok ?h" by (rule parse_header_ok [OF parse bytes])
  have "\<exists>out. rfold (load_step (load_one ?f ?h)) [] (map fst es) = Inr ([] @ out) \<and> list_all2 reads_back es out"
    by (rule load_layout [OF hok, where P = "le_bytes 8 (int (length hdr)) @ hdr" and off = 0])
       (use assms(1,2) in \<open>simp_all add: st_file_def\<close>)
  then show ?thesis
    by (simp add: load_tensors_def read_header_eq [OF bytes] parse keys_st_specs)
qed

text \<open>A file with one tensor of two bytes, and what \<open>json.loads\<close> gives for its header.\<close>

definition st_entries1 :: "st_entry list" where
  "st_entries1 = [(lit ''a'', F8_E4M3, [2, 1], [7, 8])]"

definition st_header1 :: "int list" where
  "st_header1 = lit ''{\"a\":{\"dtype\":\"F8_E4M3\",\"shape\":[2,1],\"data_offsets\":[0,2]}}''"

definition json_lib1 :: json_lib where
  "json_lib1 = \<lparr>json_loads = (\<lambda>s. if s = st_header1 then Some (PDict (st_layout 0 st_entries1)) else None),
     int_of_float = (\<lambda>r. Inl ValueError)\<rparr>"

lemma st_file1_facts:
  "list_all entry_ok st_entries1" "distinct (map fst st_entries1)" "bytes_ok st_header1"
  "int (length st_header1) \<le> MAX_HEADER_BYTES" "utf8_decode st_header1 = Inr st_header1"
  "bytes_ok (st_file st_header1 st_entries1)"
  by code_simp+

theorem safetensors_roundtrip_witness:
  "\<exists>out. load_tensors json_lib1 (st_file st_header1 st_entries1) None = Inr out
    \<and> list_all2 reads_back st_entries1 out"
  by (rule safetensors_roundtrip [OF st_file1_facts(1-5)]) (simp add: json_lib1_def)

definition header1 :: st_header where
  "header1 = \<lparr>st_tensors = st_specs 0 st_entries1, data_offset = 8 + int (length st_header1)\<rparr>"

lemma header1: "read_header json_lib1 (st_file st_header1 st_entries1) = Inr header1"
  by code_simp

theorem accepted_header_loads_witness:
  "\<exists>x. load_tensors json_lib1 (st_file st_header1 st_entries1) (Some [lit ''a'']) = Inr x \<and>
     (\<exists>y. dget x (lit ''a'') = Some ([2, 1], y)) \<and> dget x (lit ''b'') = None"
proof -
  let ?f = "st_file st_header1 st_entries1"
  note ref = accepted_header_loads [OF st_file1_facts(6) header1, of "[lit ''a'']"]
  have "in_file ?f header1 (lit ''a'')" by code_simp
  moreover have s: "dget (st_tensors header1) (lit ''a'')
      = Some \<lparr>ts_name = lit ''a'', ts_dtype = F8_E4M3, ts_shape = [2, 1], ts_begin = 0, ts_end = 2\<rparr>" by code_simp
  moreover have "numpy_spec \<lparr>ts_name = lit ''a'', ts_dtype = F8_E4M3, ts_shape = [2, 1], ts_begin = 0, ts_end = 2\<rparr>"
    by code_simp
  ultimately obtain out where out: "load_tensors json_lib1 ?f (Some [lit ''a'']) = Inr out"
    using ref by (cases "load_tensors json_lib1 ?f (Some [lit ''a''])") auto
  have "lit ''b'' \<noteq> lit ''a''" by (simp add: lit_def)
  then show ?thesis using ref s out by fastforce
qed

text \<open>
  Headers the reader accepts and numpy refuses: 65 dimensions of one byte, and no byte in dimensions
  whose product is too large.
\<close>

lemma accepted_shape_refused:
  "parse_entry L n (PDict [(lit ''dtype'', PStr (lit ''U8'')), (lit ''shape'', PList (replicate 65 (PInt 1))),
     (lit ''data_offsets'', PList [PInt 0, PInt 1])])
   = Inr \<lparr>ts_name = n, ts_dtype = U8, ts_shape = replicate 65 1, ts_begin = 0, ts_end = 1\<rparr>"
  "decode_tensor_bytes [7] \<lparr>ts_name = n, ts_dtype = U8, ts_shape = replicate 65 1, ts_begin = 0, ts_end = 1\<rparr> = Inl ValueError"
  "decode_tensor_bytes [] \<lparr>ts_name = n, ts_dtype = U8, ts_shape = [0, 2 ^ 64], ts_begin = 0, ts_end = 0\<rparr> = Inl ValueError"
proof -
  have "rmap (int_of_pv L) (map PInt xs) = Inr xs" for xs by (rule rmap_ints)
  from this [of "replicate 65 1"] show "parse_entry L n (PDict [(lit ''dtype'', PStr (lit ''U8'')),
     (lit ''shape'', PList (replicate 65 (PInt 1))), (lit ''data_offsets'', PList [PInt 0, PInt 1])])
   = Inr \<lparr>ts_name = n, ts_dtype = U8, ts_shape = replicate 65 1, ts_begin = 0, ts_end = 1\<rparr>"
    using st_keys dtype_of_text [of U8, unfolded dtype_text_def dtype_names_def, simplified]
    by (simp add: parse_entry_def entry_dtype_def entry_offsets_def entry_shape_def catch_shape_def
        nbytes_def map_replicate_const list_ex_iff prod_list_replicate)
  show "decode_tensor_bytes [7] \<lparr>ts_name = n, ts_dtype = U8, ts_shape = replicate 65 1, ts_begin = 0, ts_end = 1\<rparr> = Inl ValueError"
    "decode_tensor_bytes [] \<lparr>ts_name = n, ts_dtype = U8, ts_shape = [0, 2 ^ 64], ts_begin = 0, ts_end = 0\<rparr> = Inl ValueError"
    by (simp_all add: decode_tensor_bytes_def reshape_def numpy_shape_def NPY_MAXDIMS_def)
qed

section \<open>Reading over HTTP ranges\<close>

text \<open>A server that honours ranges.\<close>

definition serve_range :: "int list \<Rightarrow> int \<Rightarrow> int \<Rightarrow> int list" where
  "serve_range file begin lst = take (nat (lst - begin + 1)) (drop (nat begin) file)"

lemma get_range_serve:
  assumes "0 \<le> begin" "0 \<le> n" "n \<le> MAX_HEADER_BYTES"
  shows "get_range (serve_range file) begin n = Inr (read_at file begin n)"
  using assms by (simp add: get_range_def serve_range_def read_at_def)

lemma load_remote_eq:
  assumes h: "header_ok h" and i: "in_file file h n"
    and cap: "\<And>s. dget (st_tensors h) n = Some s \<Longrightarrow> ts_end s - ts_begin s \<le> MAX_HEADER_BYTES"
  shows "load_remote (serve_range file) h n = load_one file h n"
proof -
  from i obtain s where s: "dget (st_tensors h) n = Some s" "data_offset h + ts_end s \<le> int (length file)"
    by (auto simp: in_file_def split: option.splits)
  have ok: "spec_ok n s" by (rule header_spec_ok [OF h s(1)])
  have off: "8 \<le> data_offset h" using h by (simp add: header_ok_def)
  have "get_range (serve_range file) (data_offset h + ts_begin s) (ts_end s - ts_begin s)
      = Inr (read_at file (data_offset h + ts_begin s) (ts_end s - ts_begin s))"
    by (rule get_range_serve) (use ok off cap [OF s(1)] in \<open>auto simp: spec_ok_def\<close>)
  then show ?thesis using s by (simp add: load_remote_def load_one_def header_spec_def Let_def)
qed

lemma parse_prefix:
  assumes p: "parse_header_bytes L file = Inr h" "bytes_ok file" and k: "data_offset h \<le> int k"
  shows "parse_header_bytes L (take k file) = Inr h"
proof -
  let ?n = "le_value (take 8 file)"
  note ok = parse_header_ok [OF p]
  have n: "0 \<le> ?n" by (rule le_value_nonneg) (rule bytes_ok_take [OF p(2)])
  with ok(3) k have k8: "8 + nat ?n \<le> k" by linarith
  have t: "take 8 (take k file) = take 8 file" using k8 by (simp add: min_def)
  have d: "take (nat ?n) (drop 8 (take k file)) = take (nat ?n) (drop 8 file)"
    using k8 by (simp add: drop_take min_def)
  have "\<not> length (take k file) < 8" using ok(2,3) n k8 by simp
  moreover have "\<not> length file < 8" using ok(2,3) n by simp
  ultimately show ?thesis using p(1) unfolding parse_header_bytes_def Let_def t d by simp
qed

lemma rfold_load_cong:
  "(\<And>n. n \<in> set ns \<Longrightarrow> f n = g n) \<Longrightarrow> rfold (load_step f) d ns = rfold (load_step g) d ns"
  by (rule rfold_cong) (auto simp: load_step_def)

text \<open>
  \<open>load_tensors_from_url\<close> fetches what \<open>load_tensors\<close> reads.  If the server honours ranges, the
  prefix it is asked for holds the header, and the tensors lie inside the file and are not larger
  than the cap on a read, both return the same dict; only the header and the ranges of the tensors
  are transferred.
\<close>

theorem remote_load_is_local:
  assumes "bytes_ok file" "read_header L file = Inr h"
    and "data_offset h \<le> prefix_len" "prefix_len \<le> MAX_HEADER_BYTES"
    and "\<forall>n \<in> set names. in_file file h n
      \<and> (\<forall>s. dget (st_tensors h) n = Some s \<longrightarrow> ts_end s - ts_begin s \<le> MAX_HEADER_BYTES)"
  shows "load_tensors_from_url L (serve_range file) names prefix_len = load_tensors L file (Some names)"
proof -
  have p: "parse_header_bytes L file = Inr h" using assms(1,2) by (simp add: read_header_eq)
  note ok = parse_header_ok [OF p assms(1)]
  have pl: "0 \<le> prefix_len" using ok(1) assms(3) by (simp add: header_ok_def)
  have "get_range (serve_range file) 0 prefix_len = Inr (take (nat prefix_len) file)"
    using get_range_serve [of 0 prefix_len "file"] pl assms(4) by (simp add: read_at_def)
  moreover have "parse_header_bytes L (take (nat prefix_len) file) = Inr h"
    by (rule parse_prefix [OF p assms(1)]) (use pl assms(3) in simp)
  moreover have "rfold (load_step (load_remote (serve_range file) h)) [] names = rfold (load_step (load_one file h)) [] names"
    by (rule rfold_load_cong) (use assms(5) load_remote_eq [OF ok(1)] in blast)
  ultimately show ?thesis by (simp add: load_tensors_from_url_def load_tensors_def assms(2))
qed

theorem remote_load_is_local_witness:
  "load_tensors_from_url json_lib1 (serve_range (st_file st_header1 st_entries1)) [lit ''a''] 100
    = load_tensors json_lib1 (st_file st_header1 st_entries1) (Some [lit ''a''])"
proof (rule remote_load_is_local [OF st_file1_facts(6) header1])
  show "data_offset header1 \<le> 100" "100 \<le> MAX_HEADER_BYTES" by code_simp+
  have "in_file (st_file st_header1 st_entries1) header1 (lit ''a'')" by code_simp
  moreover have "dget (st_tensors header1) (lit ''a'')
      = Some \<lparr>ts_name = lit ''a'', ts_dtype = F8_E4M3, ts_shape = [2, 1], ts_begin = 0, ts_end = 2\<rparr>" by code_simp
  ultimately show "\<forall>n \<in> set [lit ''a'']. in_file (st_file st_header1 st_entries1) header1 n
      \<and> (\<forall>s. dget (st_tensors header1) n = Some s \<longrightarrow> ts_end s - ts_begin s \<le> MAX_HEADER_BYTES)"
    by (auto simp: MAX_HEADER_BYTES_def)
qed

section \<open>Errors that are not \<open>SafetensorsError\<close>\<close>

text \<open>
  Malformed entries are reported as \<open>SafetensorsError\<close>, except that \<open>int\<close> of the offsets is
  outside the \<open>try\<close>, and that a dtype which is a list cannot be looked up in the table.
\<close>

lemma malformed_entry_escapes:
  "parse_entry L n (PDict [(lit ''dtype'', PStr (lit ''U8'')), (lit ''shape'', PList []),
     (lit ''data_offsets'', PList [PNone, PInt 1])]) = Inl TypeError"
  "parse_entry L n (PDict [(lit ''dtype'', PList []), (lit ''shape'', PList []),
     (lit ''data_offsets'', PList [PInt 0, PInt 1])]) = Inl TypeError"
  using st_keys by (simp_all add: parse_entry_def entry_dtype_def entry_offsets_def
      dtype_of_text [of U8, unfolded dtype_text_def dtype_names_def, simplified])

end
