(* ===== verification/Weights.thy ===== *)
theory Weights
  imports Safetensors
begin

text \<open>
  Loading the weights of a model (\<open>loaders/weights.py\<close>): \<open>dequant_tensors\<close>, which decodes the
  quantised weights of a dict in place, and \<open>load_recipe_weights\<close>, which reads shard after shard
  and decodes each tensor as soon as it is read.  Both pair a weight with a scale by name; what
  they need of the names is the locale \<open>scale_naming\<close>.  On arrays that are not matrices of the
  two kinds \<open>dequant_weight_auto\<close> is made for, what numpy does is the parameter \<open>other\<close>.

  The docstring promises that loading inline gives what reading everything and then decoding
  gives.  For one shard that is so; with two it is not, when a weight and its scale are in
  different shards.
\<close>

section \<open>Names\<close>

definition scale_name :: "pystr \<Rightarrow> pystr \<Rightarrow> pystr" where
  "scale_name suffix n =
     (if starts_with (lit ''.'') suffix then take (length n - 7) n @ suffix else n @ suffix)"

definition is_weight :: "pystr \<Rightarrow> bool" where
  "is_weight n \<longleftrightarrow> ends_with (lit ''.weight'') n"

section \<open>Decoding an array\<close>

definition mat_of :: "nat \<Rightarrow> nat \<Rightarrow> 'a list \<Rightarrow> 'a mat" where
  "mat_of h w xs = \<lparr>m_cols = w, m_rows = chunks w h xs\<rparr>"

definition to_tensor :: "st_array \<Rightarrow> tensor option" where
  "to_tensor a =
     (case a of
        ([h, w], U8s xs) \<Rightarrow> Some (Bytes (mat_of (nat h) (nat w) xs))
      | ([h, w], F32s xs) \<Rightarrow> Some (Floats (mat_of (nat h) (nat w) xs))
      | _ \<Rightarrow> None)"

definition of_mat :: "f32 mat \<Rightarrow> st_array" where
  "of_mat m = ([int (n_rows m), int (m_cols m)], F32s (concat (m_rows m)))"

definition dequant_array ::
    "fp_env \<Rightarrow> (st_array \<Rightarrow> st_array \<Rightarrow> py_error + st_array) \<Rightarrow> nat \<times> nat
     \<Rightarrow> st_array \<Rightarrow> st_array \<Rightarrow> py_error + st_array" where
  "dequant_array env other block w s =
     (case (to_tensor w, to_tensor s) of
        (Some a, Some b) \<Rightarrow> rbind (dequant_auto env block a b) (\<lambda>m. Inr (of_mat m))
      | _ \<Rightarrow> other w s)"

section \<open>Decoding a dict in place\<close>

text \<open>The loop over the weights; an exception puts the popped scale back, at the end.\<close>

fun dequant_loop ::
    "('x \<Rightarrow> 'x \<Rightarrow> py_error + 'x) \<Rightarrow> (pystr \<Rightarrow> pystr) \<Rightarrow> pystr list \<Rightarrow> (pystr, 'x) dict
     \<Rightarrow> ((pystr, 'x) dict, unit) result" where
  "dequant_loop deq sc [] d = (Inr (), d)"
| "dequant_loop deq sc (n # ns) d =
     (case dget d (sc n) of
        None \<Rightarrow> dequant_loop deq sc ns d
      | Some s \<Rightarrow>
          (case dget d n of
             None \<Rightarrow> (Inl KeyError, d)
           | Some w \<Rightarrow>
               (case deq w s of
                  Inl e \<Rightarrow> (Inl e, dset (sc n) s (ddel (sc n) d))
                | Inr x \<Rightarrow> dequant_loop deq sc ns (dset n x (ddel (sc n) d)))))"

definition dequant_tensors ::
    "('x \<Rightarrow> 'x \<Rightarrow> py_error + 'x) \<Rightarrow> pystr \<Rightarrow> (pystr, 'x) dict \<Rightarrow> ((pystr, 'x) dict, unit) result" where
  "dequant_tensors deq suffix d = dequant_loop deq (scale_name suffix) (filter is_weight (dkeys d)) d"

section \<open>Loading and decoding inline\<close>

definition scale_names :: "(pystr \<Rightarrow> pystr) \<Rightarrow> pystr list \<Rightarrow> pystr list" where
  "scale_names sc names = filter (\<lambda>s. s \<in> set names) (map sc (filter is_weight names))"

definition store_names :: "(pystr \<Rightarrow> pystr) \<Rightarrow> pystr list \<Rightarrow> pystr list" where
  "store_names sc names = filter (\<lambda>n. n \<notin> set (scale_names sc names)) names"

definition read_tensor :: "int list \<Rightarrow> st_header \<Rightarrow> pystr \<Rightarrow> py_error + st_array" where
  "read_tensor file h name =
     rbind (header_spec h name) (\<lambda>spec.
       let data = read_at file (data_offset h + ts_begin spec) (ts_end spec - ts_begin spec)
       in if int (length data) \<noteq> ts_end spec - ts_begin spec then Inl SafetensorsError
          else decode_tensor_bytes data spec)"

definition inline_value ::
    "('x \<Rightarrow> 'x \<Rightarrow> py_error + 'x) \<Rightarrow> (pystr \<Rightarrow> pystr) \<Rightarrow> pystr list \<Rightarrow> (pystr \<Rightarrow> py_error + 'x) \<Rightarrow> pystr
     \<Rightarrow> py_error + 'x" where
  "inline_value deq sc names read name =
     rbind (read name) (\<lambda>t.
       if is_weight name \<and> sc name \<in> set names
       then rbind (read (sc name)) (\<lambda>s. deq t s) else Inr t)"

definition load_shard ::
    "(st_array \<Rightarrow> st_array \<Rightarrow> py_error + st_array) \<Rightarrow> pystr \<Rightarrow> json_lib \<Rightarrow> (pystr, st_array) dict \<Rightarrow> int list
     \<Rightarrow> py_error + (pystr, st_array) dict" where
  "load_shard deq suffix L out file =
     rbind (read_header L file) (\<lambda>h.
       let names = dkeys (st_tensors h)
       in rfold (load_step (inline_value deq (scale_name suffix) names (read_tensor file h))) out
            (store_names (scale_name suffix) names))"

definition load_recipe_weights ::
    "(st_array \<Rightarrow> st_array \<Rightarrow> py_error + st_array) \<Rightarrow> pystr \<Rightarrow> json_lib \<Rightarrow> int list list
     \<Rightarrow> py_error + (pystr, st_array) dict" where
  "load_recipe_weights deq suffix L files = rfold (load_shard deq suffix L) [] files"

section \<open>What the names must satisfy\<close>

locale scale_naming =
  fixes sc :: "pystr \<Rightarrow> pystr"
  assumes scale_no_weight: "is_weight n \<Longrightarrow> \<not> is_weight (sc n)"
    and scale_inj: "is_weight a \<Longrightarrow> is_weight b \<Longrightarrow> sc a = sc b \<Longrightarrow> a = b"

lemma ends_with_last: "ends_with p s \<Longrightarrow> p \<noteq> [] \<Longrightarrow> s \<noteq> [] \<and> last s = last p"
  by (cases p rule: rev_cases; cases s rule: rev_cases) (auto simp: ends_with_def starts_with_def)

lemma weight_split: "is_weight n \<Longrightarrow> n = take (length n - 7) n @ lit ''.weight''"
proof -
  assume "is_weight n"
  then obtain r where "rev n = rev (lit ''.weight'') @ r"
    by (auto simp: is_weight_def ends_with_def starts_with_iff)
  then have "n = rev r @ lit ''.weight''" by (metis rev_append rev_rev_ident)
  then show ?thesis by (simp add: lit_def)
qed

lemma scale_naming_suffix:
  assumes "suffix \<noteq> []" "last suffix \<noteq> 116"
  shows "scale_naming (scale_name suffix)"
proof
  fix n
  have "last (scale_name suffix n) = last suffix" using assms by (simp add: scale_name_def)
  then show "\<not> is_weight (scale_name suffix n)"
    unfolding is_weight_def using assms(2) ends_with_last [of "lit ''.weight''"] by (force simp: lit_def)
next
  fix a b assume w: "is_weight a" "is_weight b" and eq: "scale_name suffix a = scale_name suffix b"
  show "a = b"
  proof (cases "starts_with (lit ''.'') suffix")
    case True
    with eq have "take (length a - 7) a = take (length b - 7) b" by (simp add: scale_name_def)
    with weight_split [OF w(1)] weight_split [OF w(2)] show ?thesis by metis
  qed (use eq in \<open>simp add: scale_name_def\<close>)
qed

text \<open>The two conventions of the checkpoints: \<open>X.weight_scale_inv\<close> and \<open>X.scale\<close>.\<close>

interpretation appended: scale_naming "scale_name (lit ''_scale_inv'')"
  by (rule scale_naming_suffix) (simp_all add: lit_def)

interpretation dotted: scale_naming "scale_name (lit ''.scale'')"
  by (rule scale_naming_suffix) (simp_all add: lit_def)

section \<open>The loop in closed form\<close>

text \<open>What decoding the weights of a dict amounts to, when it succeeds.\<close>

definition decoded :: "('x \<Rightarrow> 'x \<Rightarrow> py_error + 'x) \<Rightarrow> (pystr \<Rightarrow> pystr) \<Rightarrow> (pystr, 'x) dict \<Rightarrow> pystr \<Rightarrow> py_error + 'x" where
  "decoded deq sc d n =
     (case dget d (sc n) of None \<Rightarrow> Inr (the (dget d n)) | Some s \<Rightarrow> deq (the (dget d n)) s)"

text \<open>The error of the first name that fails.\<close>

primrec first_error :: "('k \<Rightarrow> 'e + 'x) \<Rightarrow> 'k list \<Rightarrow> 'e \<Rightarrow> bool" where
  "first_error f [] e \<longleftrightarrow> False"
| "first_error f (n # ns) e \<longleftrightarrow> (case f n of Inl e' \<Rightarrow> e' = e | Inr _ \<Rightarrow> first_error f ns e)"

lemma first_error_cong: "(\<And>n. n \<in> set ns \<Longrightarrow> f n = g n) \<Longrightarrow> first_error f ns e \<longleftrightarrow> first_error g ns e"
  by (induction ns) (auto split: sum.split)

lemma first_error_filter:
  "(\<And>n. n \<in> set ns \<Longrightarrow> \<not> P n \<Longrightarrow> \<exists>a. f n = Inr a) \<Longrightarrow> first_error f (filter P ns) e \<longleftrightarrow> first_error f ns e"
proof (induction ns)
  case (Cons n ns)
  then have "first_error f (filter P ns) e \<longleftrightarrow> first_error f ns e" by simp
  moreover have "\<not> P n \<Longrightarrow> \<exists>a. f n = Inr a" using Cons.prems [of n] by simp
  ultimately show ?case by (auto split: sum.split)
qed simp

lemma first_error_load: "first_error load ns e \<Longrightarrow> rfold (load_step load) out ns = Inl e"
  by (induction ns arbitrary: out) (auto simp: load_step_def split: sum.splits)

lemma dkeys_ddel: "dkeys (ddel k d) = filter (\<lambda>x. x \<noteq> k) (dkeys d)"
  by (induction d) auto

context scale_naming
begin

lemma dequant_loop_result:
  assumes "distinct ws" "\<forall>w \<in> set ws. is_weight w \<and> w \<in> set (dkeys d)" "dict_ok d"
  shows "case dequant_loop deq sc ws d of
      (Inl e, d') \<Rightarrow> first_error (decoded deq sc d) ws e
    | (Inr _, d') \<Rightarrow> dict_ok d' \<and> dkeys d' = filter (\<lambda>k. k \<notin> sc ` set ws) (dkeys d)
        \<and> (\<forall>w \<in> set ws. decoded deq sc d w = Inr (the (dget d' w)))
        \<and> (\<forall>k. k \<notin> set ws \<and> k \<notin> sc ` set ws \<longrightarrow> dget d' k = dget d k)"
  using assms
proof (induction ws arbitrary: d)
  case (Cons w ws)
  have w: "is_weight w" "w \<in> set (dkeys d)" "w \<notin> set ws" using Cons.prems by auto
  then have wsc: "w \<notin> sc ` set ws" "w \<noteq> sc w"
    using scale_no_weight [OF w(1)] w(1) Cons.prems(2) by (force dest: scale_no_weight, metis)
  have scw: "sc w \<notin> set ws" "sc w \<notin> sc ` set ws"
    using scale_no_weight [OF w(1)] scale_inj [OF w(1)] w(3) Cons.prems(2) by auto
  show ?case
  proof (cases "dget d (sc w)")
    case None
    then have nk: "sc w \<notin> set (dkeys d)" by (simp add: map_of_eq_None_iff)
    have "case dequant_loop deq sc ws d of
      (Inl e, d') \<Rightarrow> first_error (decoded deq sc d) ws e
    | (Inr _, d') \<Rightarrow> dict_ok d' \<and> dkeys d' = filter (\<lambda>k. k \<notin> sc ` set ws) (dkeys d)
        \<and> (\<forall>w \<in> set ws. decoded deq sc d w = Inr (the (dget d' w)))
        \<and> (\<forall>k. k \<notin> set ws \<and> k \<notin> sc ` set ws \<longrightarrow> dget d' k = dget d k)"
      by (rule Cons.IH) (use Cons.prems in auto)
    moreover have "decoded deq sc d w = Inr (the (dget d w))" using None by (simp add: decoded_def)
    moreover have "filter (\<lambda>k. k \<notin> sc ` set (w # ws)) (dkeys d) = filter (\<lambda>k. k \<notin> sc ` set ws) (dkeys d)"
      by (rule filter_cong) (use nk in \<open>auto simp del: set_map\<close>)
    ultimately show ?thesis using None w(3) wsc(1)
      by (simp add: None split: prod.splits sum.splits)
  next
    case (Some s)
    obtain v where v: "dget d w = Some v" using w(2) unfolding dkeys_dom by blast
    have dec: "decoded deq sc d w = deq v s" by (simp add: decoded_def Some v)
    show ?thesis
    proof (cases "deq v s")
      case (Inl e)
      with Some v dec show ?thesis by auto
    next
      case (Inr x)
      let ?d = "dset w x (ddel (sc w) d)"
      have look: "dget ?d k = (if k = w then Some x else if k = sc w then None else dget d k)" for k
        by (simp add: dict_simps)
      have "w \<in> set (dkeys (ddel (sc w) d))" using w(2) wsc(2) unfolding set_dkeys_ddel by blast
      then have keys: "dkeys ?d = filter (\<lambda>k. k \<noteq> sc w) (dkeys d)"
        by (simp only: dset_keys_old dkeys_ddel)
      have same: "decoded deq sc ?d u = decoded deq sc d u" if "u \<in> set ws" for u
      proof -
        have "is_weight u" "u \<noteq> w" using that Cons.prems(2) w(3) by auto
        moreover from this have "sc u \<noteq> sc w" "sc u \<noteq> w" "u \<noteq> sc w"
          using scale_inj w(1) scale_no_weight by metis+
        ultimately show ?thesis by (simp add: decoded_def look split: option.split)
      qed
      have "case dequant_loop deq sc ws ?d of
        (Inl e, d') \<Rightarrow> first_error (decoded deq sc ?d) ws e
      | (Inr _, d') \<Rightarrow> dict_ok d' \<and> dkeys d' = filter (\<lambda>k. k \<notin> sc ` set ws) (dkeys ?d)
          \<and> (\<forall>w \<in> set ws. decoded deq sc ?d w = Inr (the (dget d' w)))
          \<and> (\<forall>k. k \<notin> set ws \<and> k \<notin> sc ` set ws \<longrightarrow> dget d' k = dget ?d k)"
      proof (rule Cons.IH)
        show "\<forall>u \<in> set ws. is_weight u \<and> u \<in> set (dkeys ?d)"
          using Cons.prems(2) scale_no_weight [OF w(1)] by (auto simp: keys)
      qed (use Cons.prems in auto)
      moreover have "first_error (decoded deq sc ?d) ws e \<longleftrightarrow> first_error (decoded deq sc d) ws e" for e
        by (rule first_error_cong) (rule same)
      moreover have "filter (\<lambda>k. k \<notin> sc ` set ws) (dkeys ?d) = filter (\<lambda>k. k \<notin> sc ` set (w # ws)) (dkeys d)"
        unfolding keys by (simp add: conj_commute)
      ultimately show ?thesis
        using Some v Inr w(3) wsc scw dec same
        by (auto simp: look keys split: prod.splits sum.splits)
    qed
  qed
qed simp

lemma store_weight: "is_weight w \<Longrightarrow> w \<in> set N \<Longrightarrow> w \<in> set (store_names sc N)"
  using scale_no_weight by (auto simp: store_names_def scale_names_def)

lemma set_store: "set (store_names sc N) = {n \<in> set N. n \<notin> sc ` {w \<in> set N. is_weight w}}"
  by (auto simp: store_names_def scale_names_def)

lemma inline_fails:
  assumes "n \<in> set N" "load n = Inl e"
  shows "\<not> (\<forall>m \<in> set (store_names sc N). \<exists>a. inline_value deq sc N load m = Inr a)"
proof
  assume all: "\<forall>m \<in> set (store_names sc N). \<exists>a. inline_value deq sc N load m = Inr a"
  show False
  proof (cases "n \<in> set (store_names sc N)")
    case True
    with all assms(2) show False by (auto simp: inline_value_def)
  next
    case False
    then obtain w where w: "w \<in> set N" "is_weight w" "n = sc w"
      using assms(1) unfolding set_store by auto
    then have "w \<in> set (store_names sc N)" by (intro store_weight)
    with all w assms show False by (fastforce simp: inline_value_def rbind_Inr_iff)
  qed
qed

lemma inline_decoded:
  assumes d: "dkeys d = N" "\<And>n. n \<in> set N \<Longrightarrow> load n = Inr (the (dget d n))" and n: "n \<in> set N"
  shows "inline_value deq sc N load n = (if is_weight n then decoded deq sc d n else Inr (the (dget d n)))"
proof -
  have "dget d k = None \<longleftrightarrow> k \<notin> set N" for k unfolding d(1) [symmetric] dkeys_dom by (simp add: domIff)
  then have "dget d (sc n) = None \<longleftrightarrow> sc n \<notin> set N" by blast
  with d(2) n show ?thesis by (cases "dget d (sc n)") (auto simp: inline_value_def decoded_def)
qed

end

definition outcome :: "('s, unit) result \<Rightarrow> py_error + 's" where
  "outcome r = (case r of (Inl e, _) \<Rightarrow> Inl e | (Inr _, s) \<Rightarrow> Inr s)"

lemma dict_eqI:
  "dict_ok a \<Longrightarrow> dkeys a = dkeys b \<Longrightarrow> (\<And>k. k \<in> set (dkeys a) \<Longrightarrow> dget a k = dget b k) \<Longrightarrow> a = b"
proof (induction a arbitrary: b)
  case (Cons p a)
  obtain k v where p: "p = (k, v)" by force
  from Cons.prems(2) p obtain v' b' where b: "b = (k, v') # b'" "dkeys a = dkeys b'" by (cases b) auto
  have "v = v'" using Cons.prems(3) [of k] p b by simp
  moreover have "a = b'"
  proof (rule Cons.IH)
    show "dict_ok a" using Cons.prems(1) p by (simp add: dict_ok_def)
    show "dkeys a = dkeys b'" by (rule b(2))
    fix x assume x: "x \<in> set (dkeys a)"
    then have "x \<noteq> k" using Cons.prems(1) p by (auto simp: dict_ok_def)
    then show "dget a x = dget b' x" using Cons.prems(3) [of x] p b x by auto
  qed
  ultimately show ?case using p b by simp
qed simp

context scale_naming
begin

lemma inline_is_batch:
  assumes N: "distinct N"
  shows "case rfold (load_step load) [] N of
      Inl _ \<Rightarrow> \<exists>e. rfold (load_step (inline_value deq sc N load)) [] (store_names sc N) = Inl e
    | Inr d \<Rightarrow> rfold (load_step (inline_value deq sc N load)) [] (store_names sc N)
        = outcome (dequant_loop deq sc (filter is_weight (dkeys d)) d)"
proof -
  let ?S = "store_names sc N" and ?inl = "inline_value deq sc N load"
  have dS: "distinct ?S" using N by (simp add: store_names_def)
  note loads = load_steps [where load = load and out = "[]" and ns = N]
    and inl = load_steps [where load = ?inl and out = "[]" and ns = ?S]
  show ?thesis
  proof (cases "rfold (load_step load) [] N")
    case (Inl e)
    with loads obtain n where "n \<in> set N" "load n = Inl e" by auto
    from inline_fails [where load = load and deq = deq, OF this] inl obtain e' where "rfold (load_step ?inl) [] ?S = Inl e'"
      by (cases "rfold (load_step ?inl) [] ?S") auto
    with Inl show ?thesis by simp
  next
    case (Inr d)
    have keys: "dkeys d = N" using load_steps_keys [OF Inr N] by simp
    with N have ok: "dict_ok d" by (simp add: dict_ok_def)
    have val: "load n = Inr (the (dget d n))" if "n \<in> set N" for n
      using loads Inr that by fastforce
    note inline = inline_decoded [OF keys val, where deq = deq]
    let ?W = "filter is_weight N"
    have dW: "distinct ?W" "\<forall>w \<in> set ?W. is_weight w \<and> w \<in> set (dkeys d)" using N keys by auto
    note loop = dequant_loop_result [OF dW ok, where deq = deq]
    obtain r d' where run: "dequant_loop deq sc ?W d = (r, d')" by force
    show ?thesis
    proof (cases r)
      case (Inl e)
      with loop run have fe: "first_error (decoded deq sc d) ?W e" by simp
      have weights: "filter is_weight ?S = ?W"
        unfolding store_names_def filter_filter by (rule filter_cong) (auto simp: scale_names_def dest: scale_no_weight)
      have sub: "n \<in> set N" if "n \<in> set ?S" for n using that unfolding set_store by simp
      have "first_error (decoded deq sc d) ?W e \<longleftrightarrow> first_error ?inl ?W e"
        by (rule first_error_cong) (auto simp: inline)
      also have "\<dots> \<longleftrightarrow> first_error ?inl (filter is_weight ?S) e" by (simp only: weights)
      also have "\<dots> \<longleftrightarrow> first_error ?inl ?S e" by (rule first_error_filter) (use sub in \<open>simp add: inline\<close>)
      finally have "rfold (load_step ?inl) [] ?S = Inl e" using fe by (intro first_error_load) simp
      with Inr run Inl keys show ?thesis by (simp add: outcome_def)
    next
      case r: (Inr u)
      with loop run have ld: "dict_ok d'" "dkeys d' = filter (\<lambda>k. k \<notin> sc ` set ?W) N"
        "\<And>w. w \<in> set ?W \<Longrightarrow> decoded deq sc d w = Inr (the (dget d' w))"
        "\<And>k. k \<notin> set ?W \<Longrightarrow> k \<notin> sc ` set ?W \<Longrightarrow> dget d' k = dget d k" by (auto simp: keys)
      have kS: "dkeys d' = ?S"
        unfolding ld(2) store_names_def by (rule filter_cong) (auto simp: scale_names_def)
      have vals: "?inl n = Inr (the (dget d' n))" if "n \<in> set ?S" for n
      proof -
        have "n \<in> set N" "n \<notin> sc ` set ?W" using that unfolding set_store by auto
        then show ?thesis using ld(3,4) [of n] by (auto simp: inline)
      qed
      with inl obtain b where b: "rfold (load_step ?inl) [] ?S = Inr b"
        by (cases "rfold (load_step ?inl) [] ?S") auto
      have "d' = b"
      proof (rule dict_eqI [OF ld(1)])
        show "dkeys d' = dkeys b" using load_steps_keys [OF b dS] kS by simp
        fix k assume k: "k \<in> set (dkeys d')"
        then have "dget d' k = Some (the (dget d' k))" unfolding dkeys_dom by auto
        moreover have "dget b k = Some (the (dget d' k))"
          using inl b vals [of k] k kS by fastforce
        ultimately show "dget d' k = dget b k" by simp
      qed
      with Inr run r b keys show ?thesis by (simp add: outcome_def)
    qed
  qed
qed

end

section \<open>Loading one shard\<close>

lemma read_tensor_eq:
  assumes h: "header_ok h" and s: "dget (st_tensors h) n = Some s" and ne: "ts_begin s < ts_end s"
  shows "read_tensor file h n = load_one file h n"
proof -
  have ok: "spec_ok n s" by (rule header_spec_ok [OF h s])
  have off: "8 \<le> data_offset h" using h by (simp add: header_ok_def)
  have "int (length (read_at file (data_offset h + ts_begin s) (ts_end s - ts_begin s))) \<noteq> ts_end s - ts_begin s"
    if "data_offset h + ts_end s > int (length file)"
    using that ok off ne by (auto simp: read_at_def spec_ok_def)
  then show ?thesis by (simp add: read_tensor_def load_one_def header_spec_def s Let_def)
qed

text \<open>
  C34: for one shard the docstring of \<open>load_recipe_weights\<close> holds.  When every tensor of the file can
  be read, decoding each weight as soon as it is read gives what reading everything and then decoding
  the dict gives: the same dict, the same names in the same order, no scales, the same values, or the
  same exception of the decoder.  When a tensor cannot be read both raise; inline loading may meet an
  undecodable weight before it, and then raises the decoder's exception.  It holds for every decoder
  and every scale suffix that does not end in the letter of \<open>.weight\<close>, in particular \<open>_scale_inv\<close> and
  \<open>.scale\<close>, for files without empty tensors.
\<close>

theorem inline_loading_is_batch:
  assumes "suffix \<noteq> []" "last suffix \<noteq> 116" "bytes_ok file"
    and "\<forall>h. read_header L file = Inr h \<longrightarrow> (\<forall>(n, s) \<in> set (st_tensors h). ts_begin s < ts_end s)"
  shows "case load_tensors L file None of
      Inl _ \<Rightarrow> \<exists>e. load_recipe_weights deq suffix L [file] = Inl e
    | Inr d \<Rightarrow> load_recipe_weights deq suffix L [file] = outcome (dequant_tensors deq suffix d)"
proof (cases "read_header L file")
  case (Inl e)
  then show ?thesis by (simp add: load_tensors_def load_recipe_weights_def load_shard_def)
next
  case (Inr h)
  let ?sc = "scale_name suffix" and ?N = "dkeys (st_tensors h)"
  have h: "header_ok h" using Inr assms(3) by (auto simp: read_header_eq dest: parse_header_ok)
  then have ok: "dict_ok (st_tensors h)" by (simp add: header_ok_def)
  have read: "read_tensor file h n = load_one file h n" if "n \<in> set ?N" for n
  proof -
    from that obtain s where s: "dget (st_tensors h) n = Some s" unfolding dkeys_dom by auto
    then have "ts_begin s < ts_end s" using assms(4) Inr by (auto dest: map_of_SomeD)
    then show ?thesis by (rule read_tensor_eq [OF h s])
  qed
  have "rfold (load_step (inline_value deq ?sc ?N (read_tensor file h))) [] (store_names ?sc ?N)
      = rfold (load_step (inline_value deq ?sc ?N (load_one file h))) [] (store_names ?sc ?N)"
  proof (rule rfold_load_cong)
    fix n assume "n \<in> set (store_names ?sc ?N)"
    then have "n \<in> set ?N" by (simp add: store_names_def)
    then show "inline_value deq ?sc ?N (read_tensor file h) n = inline_value deq ?sc ?N (load_one file h) n"
      using read [of n] read [of "?sc n"] unfolding inline_value_def by (auto intro!: rbind_cong)
  qed
  moreover have "distinct ?N" using ok by (simp add: dict_ok_def)
  note scale_naming.inline_is_batch [OF scale_naming_suffix [OF assms(1,2)] this, where load = "load_one file h" and deq = deq]
  moreover have "load_recipe_weights deq suffix L [file]
      = rfold (load_step (inline_value deq ?sc ?N (read_tensor file h))) [] (store_names ?sc ?N)"
    by (cases "rfold (load_step (inline_value deq ?sc ?N (read_tensor file h))) [] (store_names ?sc ?N)")
       (simp_all add: load_recipe_weights_def load_shard_def Inr Let_def)
  ultimately show ?thesis
    by (simp add: load_tensors_def Inr dequant_tensors_def split: sum.splits)
qed

section \<open>Examples\<close>

definition shard_weight :: st_entry where
  "shard_weight = (lit ''m.weight'', F8_E4M3, [1, 1], [56])"

definition shard_scale_entry :: st_entry where
  "shard_scale_entry = (lit ''m.weight_scale_inv'', BF16, [1, 1], [128, 63])"

text \<open>The headers of three files, and a library that reads them.\<close>

definition hdr1 :: pystr where
  "hdr1 = lit ''{\"m.weight\":{\"dtype\":\"F8_E4M3\",\"shape\":[1,1],\"data_offsets\":[0,1]}}''"

definition hdr2 :: pystr where
  "hdr2 = lit ''{\"m.weight_scale_inv\":{\"dtype\":\"BF16\",\"shape\":[1,1],\"data_offsets\":[0,2]}}''"

definition hdr3 :: pystr where
  "hdr3 = lit ''{\"m.weight\":{\"dtype\":\"F8_E4M3\",\"shape\":[1,1],\"data_offsets\":[0,1]},''
     @ lit ''\"m.weight_scale_inv\":{\"dtype\":\"BF16\",\"shape\":[1,1],\"data_offsets\":[1,3]}}''"

definition json_lib3 :: json_lib where
  "json_lib3 = \<lparr>json_loads = (\<lambda>s. map_option (\<lambda>es. PDict (st_layout 0 es))
       (map_of [(hdr1, [shard_weight]), (hdr2, [shard_scale_entry]),
                (hdr3, [shard_weight, shard_scale_entry])] s)),
     int_of_float = (\<lambda>r. Inl ValueError)\<rparr>"

definition both_file :: "int list" where
  "both_file = st_file hdr3 [shard_weight, shard_scale_entry]"

lemma both_file_facts:
  "lit ''_scale_inv'' \<noteq> []" "last (lit ''_scale_inv'') \<noteq> 116" "bytes_ok both_file"
  "\<forall>h. read_header json_lib3 both_file = Inr h \<longrightarrow> (\<forall>(n, s) \<in> set (st_tensors h). ts_begin s < ts_end s)"
proof -
  show "lit ''_scale_inv'' \<noteq> []" "last (lit ''_scale_inv'') \<noteq> 116" "bytes_ok both_file" by code_simp+
  have "read_header json_lib3 both_file
      = Inr \<lparr>st_tensors = st_specs 0 [shard_weight, shard_scale_entry], data_offset = 8 + int (length hdr3)\<rparr>" by code_simp
  then show "\<forall>h. read_header json_lib3 both_file = Inr h \<longrightarrow> (\<forall>(n, s) \<in> set (st_tensors h). ts_begin s < ts_end s)"
    by (auto simp: shard_weight_def shard_scale_entry_def)
qed

theorem inline_loading_is_batch_witness:
  "load_recipe_weights (\<lambda>w s. Inl ValueError) (lit ''_scale_inv'') json_lib3 [both_file] = Inl ValueError \<and>
   load_recipe_weights (\<lambda>w s. Inr s) (lit ''_scale_inv'') json_lib3 [both_file] = Inr [(lit ''m.weight'', [1, 1], F32s [Fin 1])]"
proof -
  have all: "load_tensors json_lib3 both_file None =
      Inr [(lit ''m.weight'', [1, 1], U8s [56]), (lit ''m.weight_scale_inv'', [1, 1], F32s [Fin 1])]" by code_simp
  note ref = inline_loading_is_batch [OF both_file_facts, unfolded all sum.case]
  show ?thesis unfolding ref by (rule conjI; code_simp)
qed

text \<open>
  With the weight in one shard and its scale in the next, inline loading decodes nothing: the raw
  bytes and the scale are both returned, whatever the decoder.
\<close>

lemma split_pair_stays_raw:
  "load_recipe_weights deq (lit ''_scale_inv'') json_lib3
     [st_file hdr1 [shard_weight], st_file hdr2 [shard_scale_entry]]
   = Inr [(lit ''m.weight'', [1, 1], U8s [56]), (lit ''m.weight_scale_inv'', [1, 1], F32s [Fin 1])]"
  by code_simp

end
