(* ===== verification/Collectives.thy ===== *)
theory Collectives
  imports EnvConfig
begin

text \<open>
  The simulated collectives (\<open>tp/collectives.py\<close>).  An array is its dtype, its shape and its
  items in row-major order; the conversion of an item to float64, the float64 addition and the
  conversion back to a dtype are the parameter \<open>array_math\<close>: nothing is assumed of them, in
  particular no associativity.

  Whatever the order in which the ranks contribute, and whatever goes on under other tags, a
  reduction adds the partials in rank order, or fails because a rank is missing.
\<close>

section \<open>Arrays\<close>

record ('d, 'a) nd_array =
  nd_dtype :: 'd
  nd_shape :: "nat list"
  nd_items :: "'a list"

definition array_ok :: "('d, 'a) nd_array \<Rightarrow> bool" where
  "array_ok x \<longleftrightarrow> length (nd_items x) = prod_list (nd_shape x)"

record ('d, 'a, 'f) array_math =
  to_float64 :: "'d \<Rightarrow> 'a \<Rightarrow> 'f"
  add_float64 :: "'f \<Rightarrow> 'f \<Rightarrow> 'f"
  of_float64 :: "'d \<Rightarrow> 'f \<Rightarrow> 'a"

section \<open>The reference semantics of the collectives\<close>

definition add_partial ::
    "('d, 'a, 'f) array_math \<Rightarrow> nat list \<times> 'f list \<Rightarrow> ('d, 'a) nd_array \<Rightarrow> py_error + nat list \<times> 'f list" where
  "add_partial M out p =
     (if nd_shape p \<noteq> fst out then Inl CollectivesError
      else Inr (fst out, map2 (add_float64 M) (snd out) (map (to_float64 M (nd_dtype p)) (nd_items p))))"

definition all_reduce_partials ::
    "('d, 'a, 'f) array_math \<Rightarrow> ('d, 'a) nd_array list \<Rightarrow> py_error + ('d, 'a) nd_array" where
  "all_reduce_partials M partials =
     (case partials of
        [] \<Rightarrow> Inl CollectivesError
      | p # ps \<Rightarrow>
          rbind (rfold (add_partial M) (nd_shape p, map (to_float64 M (nd_dtype p)) (nd_items p)) ps)
            (\<lambda>out. Inr \<lparr>nd_dtype = nd_dtype p, nd_shape = fst out, nd_items = map (of_float64 M (nd_dtype p)) (snd out)\<rparr>))"

text \<open>
  \<open>np.concatenate\<close>: the arrays have the same number of axes and agree on all but \<open>axis\<close>; the
  result takes, for every position of the axes before it, the blocks of the parts in turn.  The
  dtype two parts are promoted to is the parameter \<open>promote\<close>.
\<close>

definition axis_index :: "nat \<Rightarrow> int \<Rightarrow> nat option" where
  "axis_index nd axis =
     (if - int nd \<le> axis \<and> axis < int nd then Some (nat (axis mod int nd)) else None)"

definition block_of :: "nat \<Rightarrow> nat \<Rightarrow> ('d, 'a) nd_array \<Rightarrow> 'a list" where
  "block_of k i x = (let n = prod_list (drop k (nd_shape x)) in take n (drop (i * n) (nd_items x)))"

definition concatenate ::
    "('d list \<Rightarrow> 'd) \<Rightarrow> ('d \<Rightarrow> 'd \<Rightarrow> 'a \<Rightarrow> 'a) \<Rightarrow> int \<Rightarrow> ('d, 'a) nd_array list
     \<Rightarrow> py_error + ('d, 'a) nd_array" where
  "concatenate promote cast axis xs =
     (case xs of
        [] \<Rightarrow> Inl ValueError
      | x # _ \<Rightarrow>
          (case axis_index (length (nd_shape x)) axis of
             None \<Rightarrow> Inl ValueError
           | Some k \<Rightarrow>
               if list_all (\<lambda>y. length (nd_shape y) = length (nd_shape x)
                      \<and> (nd_shape y)[k := 0] = (nd_shape x)[k := 0]) xs
               then let d = promote (map nd_dtype xs)
                    in Inr \<lparr>nd_dtype = d, nd_shape = (nd_shape x)[k := sum_list (map (\<lambda>y. nd_shape y ! k) xs)],
                            nd_items = concat (map (\<lambda>i. concat (map (\<lambda>y. map (cast (nd_dtype y) d) (block_of k i y)) xs))
                                      [0..<prod_list (take k (nd_shape x))])\<rparr>
               else Inl ValueError))"

definition all_gather_parts ::
    "('d list \<Rightarrow> 'd) \<Rightarrow> ('d \<Rightarrow> 'd \<Rightarrow> 'a \<Rightarrow> 'a) \<Rightarrow> int \<Rightarrow> ('d, 'a) nd_array list
     \<Rightarrow> py_error + ('d, 'a) nd_array" where
  "all_gather_parts promote cast axis parts =
     (if parts = [] then Inl CollectivesError else concatenate promote cast axis parts)"

section \<open>The simulated world\<close>

record ('t, 'x) sim =
  sim_size :: int
  tags :: "('t, (int, 'x) dict) dict"

definition new_sim :: "int \<Rightarrow> py_error + ('t, 'x) sim" where
  "new_sim n = (if n < 1 then Inl CollectivesError else Inr \<lparr>sim_size = n, tags = []\<rparr>)"

text \<open>\<open>setdefault\<close> leaves an empty slot behind even when the rank is then refused.\<close>

definition contribute :: "('t, 'x) sim \<Rightarrow> 't \<Rightarrow> int \<Rightarrow> 'x \<Rightarrow> (('t, 'x) sim, unit) result" where
  "contribute s tag r arr =
     (if \<not> (0 \<le> r \<and> r < sim_size s) then (Inl CollectivesError, s)
      else let slot = (case dget (tags s) tag of None \<Rightarrow> [] | Some d \<Rightarrow> d);
               s' = s\<lparr>tags := dset tag slot (tags s)\<rparr>
           in if dget slot r \<noteq> None then (Inl CollectivesError, s')
              else (Inr (), s'\<lparr>tags := dset tag (dset r arr slot) (tags s')\<rparr>))"

definition sim_parts :: "('t, 'x) sim \<Rightarrow> 't \<Rightarrow> py_error + 'x list" where
  "sim_parts s tag =
     (case dget (tags s) tag of
        None \<Rightarrow> Inl CollectivesError
      | Some slot \<Rightarrow>
          if filter (\<lambda>r. dget slot r = None) [0..sim_size s - 1] \<noteq> [] then Inl CollectivesError
          else rmap (\<lambda>r. case dget slot r of None \<Rightarrow> Inl KeyError | Some a \<Rightarrow> Inr a) [0..sim_size s - 1])"

definition sim_all_reduce ::
    "('d, 'a, 'f) array_math \<Rightarrow> ('t, ('d, 'a) nd_array) sim \<Rightarrow> 't \<Rightarrow> py_error + ('d, 'a) nd_array" where
  "sim_all_reduce M s tag = rbind (sim_parts s tag) (all_reduce_partials M)"

definition sim_all_gather ::
    "('d list \<Rightarrow> 'd) \<Rightarrow> ('d \<Rightarrow> 'd \<Rightarrow> 'a \<Rightarrow> 'a) \<Rightarrow> int \<Rightarrow> ('t, ('d, 'a) nd_array) sim \<Rightarrow> 't
     \<Rightarrow> py_error + ('d, 'a) nd_array" where
  "sim_all_gather promote cast axis s tag = rbind (sim_parts s tag) (all_gather_parts promote cast axis)"

definition sim_reset :: "('t, 'x) sim \<Rightarrow> 't option \<Rightarrow> ('t, 'x) sim" where
  "sim_reset s tag = (case tag of None \<Rightarrow> s\<lparr>tags := []\<rparr> | Some t \<Rightarrow> s\<lparr>tags := ddel t (tags s)\<rparr>)"

section \<open>What a history of contributions amounts to\<close>

text \<open>The contributions of a history, one after the other; refused ones raise and change nothing
  that matters.\<close>

definition step_sim :: "('t, 'x) sim \<Rightarrow> 't \<times> int \<times> 'x \<Rightarrow> ('t, 'x) sim" where
  "step_sim s c = snd (contribute s (fst c) (fst (snd c)) (snd (snd c)))"

definition held :: "('t, 'x) sim \<Rightarrow> 't \<Rightarrow> int \<Rightarrow> 'x option" where
  "held s tag r = (case dget (tags s) tag of None \<Rightarrow> None | Some slot \<Rightarrow> dget slot r)"

lemma contribute_size [simp]: "sim_size (snd (contribute s tag r a)) = sim_size s"
  by (simp add: contribute_def Let_def)

text \<open>A contribution is accepted when the rank is in the world and the place free, and then the
  place holds it; nothing else changes.\<close>

lemma contribute_held:
  "held (snd (contribute s tag r a)) tag' r' =
     (if tag' = tag \<and> r' = r \<and> 0 \<le> r \<and> r < sim_size s \<and> held s tag r = None then Some a
      else held s tag' r')"
  by (auto simp: contribute_def held_def Let_def dget_dset split: option.splits)

lemma contribute_ok:
  "fst (contribute s tag r a) = Inr () \<longleftrightarrow> 0 \<le> r \<and> r < sim_size s \<and> held s tag r = None"
  by (auto simp: contribute_def held_def Let_def split: option.splits)

text \<open>The first contribution of a rank to a tag, in a history.\<close>

definition first_of :: "int \<Rightarrow> ('t \<times> int \<times> 'x) list \<Rightarrow> 't \<Rightarrow> int \<Rightarrow> 'x option" where
  "first_of n cs tag r =
     (if 0 \<le> r \<and> r < n then map_of (map (\<lambda>(t, r, a). ((t, r), a)) cs) (tag, r) else None)"

lemma held_history:
  "held (foldl step_sim s cs) tag r =
     (case held s tag r of Some a \<Rightarrow> Some a | None \<Rightarrow> first_of (sim_size s) cs tag r)"
proof (induction cs arbitrary: s)
  case (Cons c cs)
  obtain t q a where c: "c = (t, q, a)" by (cases c) auto
  show ?case
    by (simp add: Cons.IH) (auto simp: step_sim_def c contribute_held first_of_def split: option.splits)
qed (simp add: first_of_def split: option.split)

lemma sim_parts_held:
  assumes "sim_size s \<ge> 1"
  shows "sim_parts s tag =
    (if \<forall>r \<in> {0..<sim_size s}. held s tag r \<noteq> None
     then Inr (map (\<lambda>r. the (held s tag r)) [0..sim_size s - 1]) else Inl CollectivesError)"
proof (cases "dget (tags s) tag")
  case None
  then have "held s tag 0 = None" by (simp add: held_def)
  with None assms show ?thesis by (force simp: sim_parts_def)
next
  case (Some slot)
  then have h: "held s tag r = dget slot r" for r by (simp add: held_def)
  have all: "(\<forall>r \<in> {0..<sim_size s}. held s tag r \<noteq> None) \<longleftrightarrow>
      filter (\<lambda>r. dget slot r = None) [0..sim_size s - 1] = []"
    by (auto simp: h filter_empty_conv)
  have "rmap (\<lambda>r. case dget slot r of None \<Rightarrow> Inl KeyError | Some a \<Rightarrow> Inr a) [0..sim_size s - 1]
      = Inr (map (\<lambda>r. the (dget slot r)) [0..sim_size s - 1])"
    if "filter (\<lambda>r. dget slot r = None) [0..sim_size s - 1] = []"
    by (rule rmap_all_Inr) (use that in \<open>force simp: filter_empty_conv\<close>)
  then show ?thesis unfolding all by (simp add: sim_parts_def Some h)
qed

text \<open>
  The simulated all-reduce does not depend on the order in which the ranks arrive.  From a
  new world of \<open>n\<close> ranks, after any history of contributions under any tags, reducing a tag adds
  up, in rank order, the first contribution each rank made to that tag, and it fails exactly when
  some rank has made none (or the shapes disagree); a rank that contributes twice, or that is
  not of the world, is refused without effect on the result.
\<close>

theorem sim_reduce_order_free:
  assumes "new_sim n = Inr s"
  shows "sim_all_reduce M (foldl step_sim s cs) tag =
    (if \<forall>r \<in> {0..<n}. first_of n cs tag r \<noteq> None
     then all_reduce_partials M (map (\<lambda>r. the (first_of n cs tag r)) [0..n - 1])
     else Inl CollectivesError)"
proof -
  from assms have s: "sim_size s = n" "tags s = []" "1 \<le> n" by (auto simp: new_sim_def split: if_splits)
  have size: "sim_size (foldl step_sim s cs) = n"
  proof -
    have "sim_size (foldl step_sim u cs) = sim_size u" for u
      by (induction cs arbitrary: u) (simp_all add: step_sim_def)
    then show ?thesis by (simp add: s)
  qed
  have "held (foldl step_sim s cs) tag r = first_of n cs tag r" for r
    unfolding held_history by (simp add: s held_def)
  then show ?thesis
    using s(3) by (auto simp: sim_all_reduce_def sim_parts_held size)
qed

definition int_math :: "(unit, int, int) array_math" where
  "int_math = \<lparr>to_float64 = \<lambda>_ x. x, add_float64 = (+), of_float64 = \<lambda>_ x. x\<rparr>"

theorem sim_reduce_order_free_witness:
  "sim_all_reduce int_math
      (foldl step_sim \<lparr>sim_size = 2, tags = []\<rparr>
        [(0::nat, 1, \<lparr>nd_dtype = (), nd_shape = [2], nd_items = [3, 4]\<rparr>), (7, 0, \<lparr>nd_dtype = (), nd_shape = [1], nd_items = [9]\<rparr>),
         (0, 0, \<lparr>nd_dtype = (), nd_shape = [2], nd_items = [10, 20]\<rparr>), (0, 1, \<lparr>nd_dtype = (), nd_shape = [2], nd_items = [5, 5]\<rparr>)]) 0
    = Inr \<lparr>nd_dtype = (), nd_shape = [2], nd_items = [13, 24]\<rparr>"
proof -
  have w: "new_sim 2 = Inr \<lparr>sim_size = 2, tags = ([] :: (nat, (int, (unit, int) nd_array) dict) dict)\<rparr>"
    by (simp add: new_sim_def)
  show ?thesis unfolding sim_reduce_order_free [OF w] by code_simp
qed

end
