(* ===== verification/Bpe.thy ===== *)
theory Bpe
  imports Utf8
begin

text \<open>
  The byte-level BPE tokenizer (\<open>serving/bpe.py\<close>).  The pre-tokenisation pattern is compiled
  by the third-party \<open>regex\<close> module: the list of matches it finds in a text is the parameter
  \<open>pretokenize\<close> of the tokenizer.  A symbol is a \<open>str\<close> over the characters that stand for
  bytes; a vocabulary is a dict from symbols to ids, the merge table a dict from pairs of
  symbols to ranks.

  The merge loop is compared with a step relation that merges the leftmost pair of lowest
  rank: it ends in the only list no step leaves.  Encoding and decoding are inverse as soon as
  the vocabulary holds the bytes and every merge result.
\<close>

section \<open>The byte alphabet\<close>

definition printable_bytes :: "int list" where
  "printable_bytes = [33..126] @ [0xA1..0xAC] @ [0xAE..0xFF]"

fun alphabet_loop :: "int list \<Rightarrow> int \<Rightarrow> int list \<Rightarrow> int list \<Rightarrow> (int \<times> int) list" where
  "alphabet_loop bs n cs [] = zip bs cs"
| "alphabet_loop bs n cs (b # rest) =
     (if b \<notin> set bs then alphabet_loop (bs @ [b]) (n + 1) (cs @ [256 + n]) rest
      else alphabet_loop bs n cs rest)"

definition bytes_to_unicode :: "(int, int) dict" where
  "bytes_to_unicode = alphabet_loop printable_bytes 0 printable_bytes [0..255]"

section \<open>The tokenizer\<close>

record bpe =
  vocab :: "(pystr, int) dict"
  id_to_token :: "(int, pystr) dict"
  rank :: "(pystr \<times> pystr, nat) dict"
  b2u :: "(int, int) dict"
  u2b :: "(int, int) dict"
  pretokenize :: "pystr \<Rightarrow> pystr list"

text \<open>A dict comprehension: a repeated key keeps its first place and its last value.\<close>

definition dict_of :: "('k \<times> 'v) list \<Rightarrow> ('k, 'v) dict" where
  "dict_of ps = fold (\<lambda>(k, v) d. dset k v d) ps []"

text \<open>\<open>{v: k for k, v in d.items()}\<close>\<close>

definition swap_dict :: "('k, 'v) dict \<Rightarrow> ('v, 'k) dict" where
  "swap_dict d = dict_of (map (\<lambda>(k, v). (v, k)) d)"

text \<open>\<open>BPETokenizer.__init__\<close>; the last argument is the compiled pattern, \<open>None\<close> if it does not
  compile.\<close>

definition new_bpe ::
    "(pystr, int) dict \<Rightarrow> (pystr \<times> pystr) list \<Rightarrow> (pystr \<Rightarrow> pystr list) option \<Rightarrow> py_error + bpe" where
  "new_bpe v merges pattern =
     (if v = [] then Inl ValueError
      else case pattern of
        None \<Rightarrow> Inl ValueError
      | Some pre \<Rightarrow>
          Inr \<lparr>vocab = v, id_to_token = swap_dict v,
               rank = dict_of (zip merges [0..<length merges]),
               b2u = bytes_to_unicode, u2b = swap_dict bytes_to_unicode, pretokenize = pre\<rparr>)"

text \<open>\<open>d[k]\<close>\<close>

definition lookup_key :: "('k, 'v) dict \<Rightarrow> 'k \<Rightarrow> py_error + 'v" where
  "lookup_key d k = (case dget d k of None \<Rightarrow> Inl KeyError | Some v \<Rightarrow> Inr v)"

section \<open>Merging\<close>

text \<open>The scan over the adjacent pairs: the rank and the place of the best pair so far.\<close>

fun best_pair ::
    "(pystr \<times> pystr, nat) dict \<Rightarrow> pystr list \<Rightarrow> nat \<Rightarrow> (nat \<times> nat) option \<Rightarrow> (nat \<times> nat) option" where
  "best_pair rk (a # b # ws) i best =
     best_pair rk (b # ws) (Suc i)
       (case dget rk (a, b) of
          None \<Rightarrow> best
        | Some r \<Rightarrow> (case best of None \<Rightarrow> Some (r, i)
                    | Some (r0, i0) \<Rightarrow> if r < r0 then Some (r, i) else best))"
| "best_pair rk _ i best = best"

definition merge_at :: "nat \<Rightarrow> pystr list \<Rightarrow> pystr list" where
  "merge_at i ws = take i ws @ [ws ! i @ ws ! Suc i] @ drop (Suc (Suc i)) ws"

lemma best_pair_place:
  "best_pair rk ws i best = Some (r, k) \<Longrightarrow>
    best = Some (r, k) \<or> i \<le> k \<and> Suc (k - i) < length ws"
proof (induction rk ws i best rule: best_pair.induct)
  case (1 rk a b ws i best)
  then show ?case by (fastforce split: option.splits if_splits prod.splits)
qed auto

lemma length_merge_at: "Suc i < length ws \<Longrightarrow> length (merge_at i ws) = length ws - 1"
  by (simp add: merge_at_def)

function bpe_loop :: "(pystr \<times> pystr, nat) dict \<Rightarrow> pystr list \<Rightarrow> pystr list" where
  "bpe_loop rk ws =
     (if length ws \<le> 1 then ws
      else case best_pair rk ws 0 None of
        None \<Rightarrow> ws
      | Some (r, i) \<Rightarrow> bpe_loop rk (merge_at i ws))"
  by pat_completeness auto
termination
  by (relation "measure (\<lambda>(rk, ws). length ws)") (auto dest!: best_pair_place simp: length_merge_at)

declare bpe_loop.simps [simp del]

definition bpe_symbols :: "bpe \<Rightarrow> pystr \<Rightarrow> py_error + pystr list" where
  "bpe_symbols t tok =
     rbind (utf8_encode tok) (\<lambda>data.
     rbind (rmap (\<lambda>b. rbind (lookup_key (b2u t) b) (\<lambda>c. Inr [c])) data)
       (\<lambda>words. Inr (bpe_loop (rank t) words)))"

section \<open>Encoding and decoding\<close>

text \<open>The fallback token \<open>f"<0x{byte:02X}>"\<close>\<close>

definition hex_upper :: "int \<Rightarrow> int" where
  "hex_upper n = (if n < 10 then 48 + n else 55 + n)"

definition byte_token :: "int \<Rightarrow> pystr" where
  "byte_token b = lit ''<0x'' @ [hex_upper (b div 16), hex_upper (b mod 16)] @ lit ''>''"

definition symbol_ids :: "bpe \<Rightarrow> pystr \<Rightarrow> py_error + int list" where
  "symbol_ids t s =
     (case dget (vocab t) s of
        Some i \<Rightarrow> Inr [i]
      | None \<Rightarrow> rbind (rmap (lookup_key (u2b t)) s)
                 (rmap (\<lambda>b. lookup_key (vocab t) (byte_token b))))"

definition bpe_to_ids :: "bpe \<Rightarrow> pystr \<Rightarrow> py_error + int list" where
  "bpe_to_ids t tok =
     rbind (bpe_symbols t tok) (\<lambda>syms. rbind (rmap (symbol_ids t) syms) (\<lambda>ids. Inr (concat ids)))"

definition bpe_encode :: "bpe \<Rightarrow> pystr \<Rightarrow> py_error + int list" where
  "bpe_encode t text = rbind (rmap (bpe_to_ids t) (pretokenize t text)) (\<lambda>ids. Inr (concat ids))"

definition encode_piece :: "bpe \<Rightarrow> pystr \<Rightarrow> py_error + int list" where
  "encode_piece t text = bpe_to_ids t text"

definition token_bytes :: "bpe \<Rightarrow> pystr \<Rightarrow> int list" where
  "token_bytes t token = List.map_filter (dget (u2b t)) token"

definition bpe_decode :: "bpe \<Rightarrow> int list \<Rightarrow> pystr" where
  "bpe_decode t ids =
     utf8_replace (concat (map (\<lambda>i. case dget (id_to_token t) i of
        None \<Rightarrow> [] | Some token \<Rightarrow> token_bytes t token) ids))"

section \<open>The alphabet is a bijection\<close>

lemma fold_dset_append:
  "distinct (map fst (d @ ps)) \<Longrightarrow> fold (\<lambda>(k, v) d. dset k v d) ps d = d @ ps"
proof (induction ps arbitrary: d)
  case (Cons p ps)
  obtain k v where p: "p = (k, v)" by force
  with Cons.prems have "k \<notin> set (dkeys d)" by auto
  then have "dset k v d = d @ [(k, v)]" by (rule dset_append_new)
  with Cons p show ?case by auto
qed simp

lemma dict_of_distinct: "distinct (map fst ps) \<Longrightarrow> dict_of ps = ps"
  using fold_dset_append [of "[]" ps] by (simp add: dict_of_def)

lemma swap_dict_inverse:
  assumes "dict_ok d" "distinct (map snd d)"
  shows "dget (swap_dict d) v = Some k \<longleftrightarrow> dget d k = Some v"
proof -
  have keys: "map fst (map (\<lambda>(k, v). (v, k)) d) = map snd d"
    by (induction d) auto
  then have sw: "swap_dict d = map (\<lambda>(k, v). (v, k)) d" "dict_ok (swap_dict d)"
    using assms(2) dict_of_distinct [of "map (\<lambda>(k, v). (v, k)) d"] keys
    by (simp_all only: swap_dict_def dict_ok_def)
  have "dget (swap_dict d) v = Some k \<longleftrightarrow> (v, k) \<in> set (swap_dict d)"
    by (rule dget_Some_in [OF sw(2)])
  also have "\<dots> \<longleftrightarrow> (k, v) \<in> set d" by (auto simp: sw(1))
  also have "\<dots> \<longleftrightarrow> dget d k = Some v" by (simp add: dget_Some_in [OF assms(1)])
  finally show ?thesis .
qed

lemma alphabet_loop_table:
  assumes "length bs = length cs" "distinct bs" "distinct cs" "distinct rest" "\<forall>c \<in> set cs. c < 256 + n"
  shows "distinct (map fst (alphabet_loop bs n cs rest)) \<and> distinct (map snd (alphabet_loop bs n cs rest))
    \<and> set (map fst (alphabet_loop bs n cs rest)) = set bs \<union> set rest"
  using assms
proof (induction bs n cs rest rule: alphabet_loop.induct)
  case (2 bs n cs b rest)
  show ?case
  proof (cases "b \<in> set bs")
    case True
    with 2 show ?thesis by auto
  next
    case False
    have "256 + n \<notin> set cs" "\<forall>c \<in> set cs. c < 256 + (n + 1)" using 2(7) by force+
    with False 2 show ?thesis by auto
  qed
qed simp

lemma alphabet_table:
  "dict_ok bytes_to_unicode" "distinct (map snd bytes_to_unicode)"
  "set (dkeys bytes_to_unicode) = {0..255}"
proof -
  have p: "distinct printable_bytes" "\<forall>c \<in> set printable_bytes. c < 256 + 0"
    "set printable_bytes \<subseteq> {0..255}"
    by (auto simp: printable_bytes_def)
  note t = alphabet_loop_table [OF refl p(1) p(1) _ p(2), of "[0..255]", folded bytes_to_unicode_def]
  show "dict_ok bytes_to_unicode" "distinct (map snd bytes_to_unicode)"
    "set (dkeys bytes_to_unicode) = {0..255}"
    using t p(3) unfolding dict_ok_def by auto
qed

text \<open>A tokenizer object: its tables are the ones the constructor makes.\<close>

definition bpe_tables :: "bpe \<Rightarrow> bool" where
  "bpe_tables t \<longleftrightarrow> b2u t = bytes_to_unicode \<and> u2b t = swap_dict bytes_to_unicode"

lemma new_bpe_tables: "new_bpe v merges p = Inr t \<Longrightarrow> bpe_tables t"
  by (auto simp: new_bpe_def bpe_tables_def split: if_splits option.splits)

definition byte_char :: "int \<Rightarrow> int" where
  "byte_char b = the (dget bytes_to_unicode b)"

lemma byte_char:
  assumes "bpe_tables t" "0 \<le> b" "b < 256"
  shows "dget (b2u t) b = Some (byte_char b)" "dget (u2b t) (byte_char b) = Some b"
proof -
  have "b \<in> set (dkeys bytes_to_unicode)" using assms by (simp only: alphabet_table(3)) simp
  then obtain c where "dget bytes_to_unicode b = Some c" unfolding dkeys_dom by auto
  then have "dget bytes_to_unicode b = Some (byte_char b)" by (simp add: byte_char_def)
  with assms(1) show "dget (b2u t) b = Some (byte_char b)" "dget (u2b t) (byte_char b) = Some b"
    by (simp_all add: bpe_tables_def swap_dict_inverse alphabet_table)
qed

text \<open>Printable bytes stand for themselves.\<close>

lemma alphabet_loop_prefix:
  "length bs = length cs \<Longrightarrow> \<exists>e. alphabet_loop bs n cs rest = zip bs cs @ e"
proof (induction bs n cs rest rule: alphabet_loop.induct)
  case (2 bs n cs b rest)
  then show ?case by (cases "b \<in> set bs") fastforce+
qed simp

lemma byte_char_printable: "b \<in> set printable_bytes \<Longrightarrow> byte_char b = b"
proof -
  assume b: "b \<in> set printable_bytes"
  obtain e where e: "bytes_to_unicode = zip printable_bytes printable_bytes @ e"
    using alphabet_loop_prefix [OF refl, of printable_bytes 0 "[0..255]"] bytes_to_unicode_def by auto
  have "(b, b) \<in> set bytes_to_unicode" using b by (auto simp: e zip_same)
  then have "dget bytes_to_unicode b = Some b" by (simp add: dget_Some_in [OF alphabet_table(1)])
  then show ?thesis by (simp add: byte_char_def)
qed

lemma set_printable: "set printable_bytes = {33..126} \<union> {0xA1..0xAC} \<union> {0xAE..0xFF}"
  by (simp only: printable_bytes_def set_append set_upto Un_assoc)

lemma printable_char:
  assumes "bpe_tables t" "33 \<le> b" "b \<le> 126"
  shows "dget (b2u t) b = Some b" "dget (u2b t) b = Some b"
proof -
  have "byte_char b = b" using assms by (intro byte_char_printable) (simp add: set_printable)
  with byte_char [OF assms(1), of b] assms(2,3) show "dget (b2u t) b = Some b" "dget (u2b t) b = Some b"
    by simp_all
qed

lemma token_bytes_chars:
  "bpe_tables t \<Longrightarrow> (\<And>b. b \<in> set bs \<Longrightarrow> 0 \<le> b \<and> b < 256) \<Longrightarrow>
    token_bytes t (map byte_char bs) = bs"
  unfolding token_bytes_def by (induction bs) (auto simp: byte_char map_filter_simps)

lemma token_bytes_append [simp]: "token_bytes t (a @ b) = token_bytes t a @ token_bytes t b"
  by (simp add: token_bytes_def map_filter_def)

lemma token_bytes_concat: "token_bytes t (concat ws) = concat (map (token_bytes t) ws)"
  by (induction ws) (auto simp: token_bytes_def map_filter_def)

section \<open>The merge loop against its specification\<close>

text \<open>Adjacent pairs, the best one, and one merge.\<close>

definition pair_rank :: "(pystr \<times> pystr, nat) dict \<Rightarrow> pystr list \<Rightarrow> nat \<Rightarrow> nat option" where
  "pair_rank rk ws i = (if Suc i < length ws then dget rk (ws ! i, ws ! Suc i) else None)"

definition mergeable :: "(pystr \<times> pystr, nat) dict \<Rightarrow> pystr list \<Rightarrow> bool" where
  "mergeable rk ws \<longleftrightarrow> (\<exists>i. pair_rank rk ws i \<noteq> None)"

inductive merge_step :: "(pystr \<times> pystr, nat) dict \<Rightarrow> pystr list \<Rightarrow> pystr list \<Rightarrow> bool"
  for rk where
  merge: "pair_rank rk ws i = Some r \<Longrightarrow>
    (\<And>j s. pair_rank rk ws j = Some s \<Longrightarrow> r < s \<or> r = s \<and> i \<le> j) \<Longrightarrow>
    merge_step rk ws (merge_at i ws)"

inductive_cases merge_stepE: "merge_step rk ws ws'"

lemma merge_step_deterministic:
  assumes "merge_step rk ws a" "merge_step rk ws b"
  shows "a = b"
proof -
  from assms(1) obtain i r where i: "pair_rank rk ws i = Some r" "a = merge_at i ws"
    "\<And>j s. pair_rank rk ws j = Some s \<Longrightarrow> r < s \<or> r = s \<and> i \<le> j" by (elim merge_stepE) auto
  from assms(2) obtain k q where k: "pair_rank rk ws k = Some q" "b = merge_at k ws"
    "\<And>j s. pair_rank rk ws j = Some s \<Longrightarrow> q < s \<or> q = s \<and> k \<le> j" by (elim merge_stepE) auto
  from i(3) [OF k(1)] k(3) [OF i(1)] have "i = k" by linarith
  with i k show ?thesis by simp
qed

lemma merge_step_mergeable: "merge_step rk ws ws' \<Longrightarrow> mergeable rk ws"
  by (elim merge_stepE) (auto simp: mergeable_def)

lemma pair_rank_Cons: "pair_rank rk (a # ws) (Suc i) = pair_rank rk ws i"
  by (simp add: pair_rank_def)

lemma pair_rank_0: "pair_rank rk (a # b # ws) 0 = dget rk (a, b)"
  by (simp add: pair_rank_def)

text \<open>The scan keeps the minimum of what it was given and of the pairs it passes.\<close>

definition best_of :: "(nat \<times> nat) option \<Rightarrow> (nat \<Rightarrow> nat option) \<Rightarrow> nat \<Rightarrow> (nat \<times> nat) option \<Rightarrow> bool" where
  "best_of old ranks i new \<longleftrightarrow>
     (case new of
        None \<Rightarrow> old = None \<and> (\<forall>j. ranks j = None)
      | Some (r, k) \<Rightarrow>
          (old = Some (r, k) \<or> i \<le> k \<and> ranks (k - i) = Some r \<and> (\<forall>r0 k0. old = Some (r0, k0) \<longrightarrow> r < r0))
          \<and> (\<forall>j s. ranks j = Some s \<longrightarrow> r < s \<or> r = s \<and> k \<le> i + j))"

lemma all_nat_Suc: "(\<forall>j. Q j) \<longleftrightarrow> Q 0 \<and> (\<forall>j. Q (Suc j))"
  by (metis not0_implies_Suc)

lemma best_of_step:
  assumes old_def: "old = (case dget rk (a, b) of None \<Rightarrow> best
    | Some r \<Rightarrow> (case best of None \<Rightarrow> Some (r, i) | Some (r0, i0) \<Rightarrow> if r < r0 then Some (r, i) else best))"
    and ih: "best_of old (pair_rank rk (b # ws)) (Suc i) new"
    and le: "\<And>r k. best = Some (r, k) \<Longrightarrow> k \<le> i"
  shows "best_of best (pair_rank rk (a # b # ws)) i new"
proof -
  have all: "(\<forall>j s. pair_rank rk (a # b # ws) j = Some s \<longrightarrow> P s j) \<longleftrightarrow>
    (\<forall>s. dget rk (a, b) = Some s \<longrightarrow> P s 0) \<and> (\<forall>j s. pair_rank rk (b # ws) j = Some s \<longrightarrow> P s (Suc j))" for P
    by (subst all_nat_Suc) (simp add: pair_rank_Cons pair_rank_0)
  show ?thesis
  proof (cases new)
    case None
    with ih have o: "old = None" "\<And>j. pair_rank rk (b # ws) j = None" by (auto simp: best_of_def)
    from o(1) have "best = None" "dget rk (a, b) = None"
      unfolding old_def by (auto split: option.splits if_splits)
    moreover have "pair_rank rk (a # b # ws) j = None" for j
      using o(2) \<open>dget rk (a, b) = None\<close> by (cases j) (simp_all add: pair_rank_Cons pair_rank_0)
    ultimately show ?thesis using None by (simp add: best_of_def)
  next
    case (Some rk')
    obtain r k where rk: "rk' = (r, k)" by force
    from ih Some rk have
      o: "old = Some (r, k) \<or> Suc i \<le> k \<and> pair_rank rk (b # ws) (k - Suc i) = Some r
          \<and> (\<forall>r0 k0. old = Some (r0, k0) \<longrightarrow> r < r0)"
      and m: "\<forall>j s. pair_rank rk (b # ws) j = Some s \<longrightarrow> r < s \<or> r = s \<and> k \<le> Suc i + j"
      by (auto simp: best_of_def)
    have first: "r < s \<or> r = s \<and> k \<le> i" if "dget rk (a, b) = Some s" for s
      using o le that unfolding old_def
      by (cases best) (fastforce split: if_splits)+
    have place: "best = Some (r, k) \<or> i \<le> k \<and> pair_rank rk (a # b # ws) (k - i) = Some r
      \<and> (\<forall>r0 k0. best = Some (r0, k0) \<longrightarrow> r < r0)"
    proof (cases "old = Some (r, k)")
      case True
      then show ?thesis unfolding old_def by (auto simp: pair_rank_0 split: option.splits if_splits)
    next
      case False
      with o have n: "Suc i \<le> k" "pair_rank rk (b # ws) (k - Suc i) = Some r"
        "\<forall>r0 k0. old = Some (r0, k0) \<longrightarrow> r < r0" by auto
      have "k - i = Suc (k - Suc i)" using n(1) by simp
      then have "pair_rank rk (a # b # ws) (k - i) = Some r" using n(2) by (simp add: pair_rank_Cons)
      moreover have "r < r0" if "best = Some (r0, k0)" for r0 k0
        using n(3) that unfolding old_def by (cases "dget rk (a, b)") (auto split: if_splits)
      ultimately show ?thesis using n(1) by auto
    qed
    have "\<forall>j s. pair_rank rk (a # b # ws) j = Some s \<longrightarrow> r < s \<or> r = s \<and> k \<le> i + j"
      unfolding all using first m by auto
    with place show ?thesis using Some rk by (simp add: best_of_def)
  qed
qed

lemma best_pair_spec:
  "(\<And>r k. best = Some (r, k) \<Longrightarrow> k \<le> i) \<Longrightarrow> best_of best (pair_rank rk ws) i (best_pair rk ws i best)"
proof (induction rk ws i best rule: best_pair.induct)
  case (1 rk a b ws i best)
  let ?old = "case dget rk (a, b) of None \<Rightarrow> best
    | Some r \<Rightarrow> (case best of None \<Rightarrow> Some (r, i) | Some (r0, i0) \<Rightarrow> if r < r0 then Some (r, i) else best)"
  have old: "\<And>r k. ?old = Some (r, k) \<Longrightarrow> k \<le> Suc i"
    using 1(2) by (fastforce split: option.splits if_splits prod.splits)
  have ih: "best_of ?old (pair_rank rk (b # ws)) (Suc i) (best_pair rk (b # ws) (Suc i) ?old)"
    by (rule 1(1)) (rule old)
  show ?case unfolding best_pair.simps by (rule best_of_step [OF refl ih 1(2)])
qed (auto simp: best_of_def pair_rank_def split: option.splits)

lemma best_pair_None: "best_pair rk ws 0 None = None \<longleftrightarrow> \<not> mergeable rk ws"
proof -
  have "best_of None (pair_rank rk ws) 0 (best_pair rk ws 0 None)"
    by (rule best_pair_spec) simp
  then show ?thesis
    by (auto simp: best_of_def mergeable_def split: option.splits)
qed

lemma best_pair_Some: "best_pair rk ws 0 None = Some (r, i) \<Longrightarrow> merge_step rk ws (merge_at i ws)"
proof -
  assume b: "best_pair rk ws 0 None = Some (r, i)"
  have "best_of None (pair_rank rk ws) 0 (best_pair rk ws 0 None)"
    by (rule best_pair_spec) simp
  then show ?thesis unfolding b best_of_def by (auto intro: merge_step.merge)
qed

lemma mergeable_length: "mergeable rk ws \<Longrightarrow> 1 < length ws"
  by (auto simp: mergeable_def pair_rank_def split: if_splits)

lemma bpe_loop_normal_form:
  "(merge_step rk)\<^sup>*\<^sup>* ws (bpe_loop rk ws) \<and> \<not> mergeable rk (bpe_loop rk ws)"
proof (induction rk ws rule: bpe_loop.induct)
  case (1 rk ws)
  show ?case
  proof (cases "length ws \<le> 1 \<or> best_pair rk ws 0 None = None")
    case True
    moreover have "bpe_loop rk ws = ws" using True by (subst bpe_loop.simps) auto
    ultimately show ?thesis using best_pair_None mergeable_length by fastforce
  next
    case False
    then obtain r i where b: "best_pair rk ws 0 None = Some (r, i)" by auto
    have l: "bpe_loop rk ws = bpe_loop rk (merge_at i ws)" using False b by (subst bpe_loop.simps) auto
    show ?thesis unfolding l
      using 1 [OF _ b refl] False best_pair_Some [OF b] by (auto intro: converse_rtranclp_into_rtranclp)
  qed
qed

lemma normal_form_unique:
  assumes "(merge_step rk)\<^sup>*\<^sup>* ws a" "(merge_step rk)\<^sup>*\<^sup>* ws b" "\<not> mergeable rk a" "\<not> mergeable rk b"
  shows "a = b"
  using assms
proof (induction rule: converse_rtranclp_induct)
  case base
  then show ?case by (auto elim: converse_rtranclpE dest: merge_step_mergeable)
next
  case (step x y)
  from step(4) show ?case
  proof (cases rule: converse_rtranclpE)
    case base
    with step merge_step_mergeable show ?thesis by blast
  next
    case (step z)
    with \<open>merge_step rk x y\<close> have "z = y" by (blast intro: merge_step_deterministic)
    with step \<open>merge_step rk x y\<close> assms show ?thesis using step.IH by blast
  qed
qed

lemma concat_merge_at: "Suc i < length ws \<Longrightarrow> concat (merge_at i ws) = concat ws"
proof -
  assume i: "Suc i < length ws"
  have "ws = take i ws @ ws ! i # ws ! Suc i # drop (Suc (Suc i)) ws"
    using i by (metis Cons_nth_drop_Suc Suc_lessD append_take_drop_id)
  then have "concat ws = concat (take i ws) @ ws ! i @ ws ! Suc i @ concat (drop (Suc (Suc i)) ws)"
    by (metis concat.simps(2) concat_append)
  then show ?thesis by (simp add: merge_at_def)
qed

lemma merge_step_keeps:
  assumes "merge_step rk ws ws'" and "\<And>a b. (a, b) \<in> set (dkeys rk) \<Longrightarrow> a @ b \<in> K"
  shows "concat ws' = concat ws" "set ws \<subseteq> K \<Longrightarrow> set ws' \<subseteq> K"
proof -
  from assms(1) obtain i r where i: "pair_rank rk ws i = Some r" "ws' = merge_at i ws"
    by (elim merge_stepE)
  then have l: "Suc i < length ws" and m: "dget rk (ws ! i, ws ! Suc i) = Some r"
    by (auto simp: pair_rank_def split: if_splits)
  show "concat ws' = concat ws" using i l by (simp add: concat_merge_at)
  have "ws ! i @ ws ! Suc i \<in> K" by (rule assms(2)) (rule dget_Some_key [OF m])
  then show "set ws' \<subseteq> K" if "set ws \<subseteq> K"
    using that i(2) set_take_subset [of i ws] set_drop_subset [of "Suc (Suc i)" ws]
    by (auto simp: merge_at_def)
qed

lemma merge_steps_keep:
  assumes "(merge_step rk)\<^sup>*\<^sup>* ws ws'" and "\<And>a b. (a, b) \<in> set (dkeys rk) \<Longrightarrow> a @ b \<in> K"
  shows "concat ws' = concat ws \<and> (set ws \<subseteq> K \<longrightarrow> set ws' \<subseteq> K)"
  using assms(1)
proof (induction rule: rtranclp_induct)
  case (step y z)
  with merge_step_keeps [OF step(2) assms(2)] show ?case by auto
qed simp

section \<open>Symbols of a piece\<close>

definition byte_words :: "int list \<Rightarrow> pystr list" where
  "byte_words bs = map (\<lambda>b. [byte_char b]) bs"

lemma concat_byte_words: "concat (byte_words bs) = map byte_char bs"
  by (induction bs) (auto simp: byte_words_def)

lemma bpe_symbols_eq:
  assumes t: "bpe_tables t" and bs: "utf8_encode tok = Inr bs"
  shows "bpe_symbols t tok = Inr (bpe_loop (rank t) (byte_words bs))"
proof -
  have "rmap (\<lambda>b. rbind (lookup_key (b2u t) b) (\<lambda>c. Inr [c])) bs = Inr (byte_words bs)"
    unfolding byte_words_def
    by (rule rmap_all_Inr) (use utf8_encode_bytes [OF bs] byte_char [OF t] in \<open>simp add: lookup_key_def\<close>)
  with bs show ?thesis by (simp add: bpe_symbols_def)
qed

text \<open>The bytes of the symbols of a piece are the bytes of the piece.\<close>

lemma loop_bytes:
  assumes t: "bpe_tables t" and bs: "utf8_encode tok = Inr bs"
  shows "token_bytes t (concat (bpe_loop rk (byte_words bs))) = bs"
proof -
  have "concat (bpe_loop rk (byte_words bs)) = map byte_char bs"
    using merge_steps_keep [where K = UNIV, of rk "byte_words bs" "bpe_loop rk (byte_words bs)"] bpe_loop_normal_form
    by (auto simp: concat_byte_words)
  then show ?thesis
    using token_bytes_chars [OF t, of bs] utf8_encode_bytes [OF bs] by simp
qed

text \<open>
  C30: the merge loop of \<open>_bpe_symbols\<close> computes what byte-pair encoding promises.  For every piece
  of text that can be encoded in UTF-8 it returns, from the list of the piece's byte characters, a
  list of symbols that is reached by merging at each step the leftmost adjacent pair of lowest rank,
  in which no adjacent pair has a rank any more; it is the only such list, and its symbols stand for
  exactly the bytes of the piece.
\<close>

theorem bpe_symbols_normal_form:
  assumes "new_bpe v merges pattern = Inr t" "utf8_encode tok = Inr bs"
  shows "\<exists>ws. bpe_symbols t tok = Inr ws \<and> (merge_step (rank t))\<^sup>*\<^sup>* (byte_words bs) ws
    \<and> \<not> mergeable (rank t) ws \<and> token_bytes t (concat ws) = bs
    \<and> (\<forall>us. (merge_step (rank t))\<^sup>*\<^sup>* (byte_words bs) us \<and> \<not> mergeable (rank t) us \<longrightarrow> us = ws)"
  using bpe_symbols_eq [OF new_bpe_tables [OF assms(1)] assms(2)]
    bpe_loop_normal_form [of "rank t" "byte_words bs"]
    loop_bytes [OF new_bpe_tables [OF assms(1)] assms(2)]
  by (auto intro: normal_form_unique)

section \<open>Encoding loses nothing\<close>

text \<open>
  A set of symbols that holds the bytes and every merge result, each with an id of its own.
\<close>

definition token_base :: "bpe \<Rightarrow> pystr set \<Rightarrow> bool" where
  "token_base t K \<longleftrightarrow>
     (\<forall>b. 0 \<le> b \<and> b < 256 \<longrightarrow> [byte_char b] \<in> K)
     \<and> (\<forall>a b. (a, b) \<in> set (dkeys (rank t)) \<longrightarrow> a @ b \<in> K)
     \<and> (\<forall>w \<in> K. \<exists>i. dget (vocab t) w = Some i \<and> dget (id_to_token t) i = Some w)"

definition token_id :: "bpe \<Rightarrow> pystr \<Rightarrow> int" where
  "token_id t w = the (dget (vocab t) w)"

lemma token_id:
  "token_base t K \<Longrightarrow> w \<in> K \<Longrightarrow>
    dget (vocab t) w = Some (token_id t w) \<and> dget (id_to_token t) (token_id t w) = Some w"
  by (fastforce simp: token_base_def token_id_def)

lemma piece_ids:
  assumes t: "bpe_tables t" and K: "token_base t K" and bs: "utf8_encode tok = Inr bs"
  shows "\<exists>ws. set ws \<subseteq> K \<and> bpe_to_ids t tok = Inr (map (token_id t) ws)
    \<and> token_bytes t (concat ws) = bs"
proof -
  let ?ws = "bpe_loop (rank t) (byte_words bs)"
  have "set (byte_words bs) \<subseteq> K"
    using K utf8_encode_bytes [OF bs] by (auto simp: byte_words_def token_base_def)
  then have sub: "set ?ws \<subseteq> K"
    using merge_steps_keep [where K = K, of "rank t" "byte_words bs" ?ws] bpe_loop_normal_form K
    by (auto simp: token_base_def)
  have "rmap (symbol_ids t) ?ws = Inr (map (\<lambda>w. [token_id t w]) ?ws)"
    by (rule rmap_all_Inr) (use sub token_id [OF K] in \<open>auto simp: symbol_ids_def\<close>)
  moreover have "concat (map (\<lambda>w. [token_id t w]) ws) = map (token_id t) ws" for ws
    by (induction ws) auto
  ultimately have "bpe_to_ids t tok = Inr (map (token_id t) ?ws)"
    by (simp add: bpe_to_ids_def bpe_symbols_eq [OF t bs])
  with sub loop_bytes [OF t bs] show ?thesis by blast
qed

lemma pieces_ids:
  assumes t: "bpe_tables t" and K: "token_base t K"
  shows "list_all scalar (concat ps) \<Longrightarrow> \<exists>wss. set (concat wss) \<subseteq> K
    \<and> rmap (bpe_to_ids t) ps = Inr (map (map (token_id t)) wss)
    \<and> utf8_encode (concat ps) = Inr (token_bytes t (concat (concat wss)))"
proof (induction ps)
  case Nil
  show ?case by (rule exI [of _ "[]"]) (simp add: utf8_encode_def token_bytes_def)
next
  case (Cons p ps)
  then have s: "list_all scalar p" "list_all scalar (concat ps)" by auto
  then obtain wss where w: "set (concat wss) \<subseteq> K"
    "rmap (bpe_to_ids t) ps = Inr (map (map (token_id t)) wss)"
    "utf8_encode (concat ps) = Inr (token_bytes t (concat (concat wss)))"
    using Cons.IH by blast
  from s(1) have "utf8_encode p = Inr (concat (map utf8_char p))" by (simp add: utf8_encode_def)
  from piece_ids [OF t K this] obtain ws where p: "set ws \<subseteq> K"
    "bpe_to_ids t p = Inr (map (token_id t) ws)" "utf8_encode p = Inr (token_bytes t (concat ws))"
    using \<open>utf8_encode p = _\<close> by auto
  show ?case
  proof (rule exI [of _ "ws # wss"], intro conjI)
    show "utf8_encode (concat (p # ps)) = Inr (token_bytes t (concat (concat (ws # wss))))"
      using utf8_encode_append [OF p(3) w(3)] by simp
  qed (use w p in auto)
qed

lemma decode_token_ids:
  assumes K: "token_base t K" and ws: "set ws \<subseteq> K"
  shows "bpe_decode t (map (token_id t) ws) = utf8_replace (token_bytes t (concat ws))"
proof -
  have "map (\<lambda>i. case dget (id_to_token t) i of None \<Rightarrow> [] | Some token \<Rightarrow> token_bytes t token)
      (map (token_id t) ws) = map (token_bytes t) ws"
    using token_id [OF K] ws by (induction ws) auto
  then show ?thesis by (simp only: bpe_decode_def token_bytes_concat)
qed

text \<open>What \<open>encode\<close> returns for a text the pattern covers: ids of the base, whose bytes are the
  bytes of the text.\<close>

lemma bpe_encode_covered:
  assumes t: "bpe_tables t" and K: "token_base t K"
    and cover: "concat (pretokenize t text) = text" and sc: "list_all scalar text"
  shows "\<exists>ws. set ws \<subseteq> K \<and> bpe_encode t text = Inr (map (token_id t) ws)
    \<and> bpe_decode t (map (token_id t) ws) = text"
proof -
  from pieces_ids [OF t K, of "pretokenize t text"] sc cover obtain wss where
    w: "set (concat wss) \<subseteq> K" "rmap (bpe_to_ids t) (pretokenize t text) = Inr (map (map (token_id t)) wss)"
    "utf8_encode text = Inr (token_bytes t (concat (concat wss)))" by auto
  have "bpe_encode t text = Inr (map (token_id t) (concat wss))"
    by (simp add: bpe_encode_def w(2) map_concat)
  moreover have "bpe_decode t (map (token_id t) (concat wss)) = text"
    using decode_token_ids [OF K w(1)] utf8_replace_encode [OF w(3)] by simp
  ultimately show ?thesis using w(1) by blast
qed

text \<open>A vocabulary file that is complete and gives each token its own id.\<close>

definition vocab_complete :: "(pystr, int) dict \<Rightarrow> (pystr \<times> pystr) list \<Rightarrow> bool" where
  "vocab_complete v merges \<longleftrightarrow>
     dict_ok v \<and> distinct (map snd v)
     \<and> (\<forall>p \<in> set bytes_to_unicode. [snd p] \<in> set (dkeys v))
     \<and> (\<forall>p \<in> set merges. fst p @ snd p \<in> set (dkeys v))"

lemma dkeys_dict_of: "set (dkeys (dict_of ps)) = set (map fst ps)"
proof -
  have "set (dkeys (fold (\<lambda>(k, v) d. dset k v d) ps d)) = set (dkeys d) \<union> set (map fst ps)" for d
    by (induction ps arbitrary: d) (auto simp: set_dkeys_dset simp del: set_map)
  then show ?thesis by (simp add: dict_of_def)
qed

lemma complete_token_base:
  assumes t: "new_bpe v merges pattern = Inr t" and c: "vocab_complete v merges"
  shows "token_base t (set (dkeys v))"
proof -
  from t have v: "vocab t = v" "id_to_token t = swap_dict v"
    "rank t = dict_of (zip merges [0..<length merges])"
    by (auto simp: new_bpe_def split: if_splits option.splits)
  have "[byte_char b] \<in> set (dkeys v)" if "0 \<le> b" "b < 256" for b
  proof -
    have "dget bytes_to_unicode b = Some (byte_char b)"
      using byte_char [OF new_bpe_tables [OF t] that] new_bpe_tables [OF t] by (simp add: bpe_tables_def)
    then have "(b, byte_char b) \<in> set bytes_to_unicode" by (rule map_of_SomeD)
    with c show ?thesis unfolding vocab_complete_def by force
  qed
  moreover have "a @ b \<in> set (dkeys v)" if "(a, b) \<in> set (dkeys (rank t))" for a b
  proof -
    have "(a, b) \<in> set merges" using that by (simp add: v dkeys_dict_of del: set_map)
    with c show ?thesis unfolding vocab_complete_def by force
  qed
  moreover have "\<exists>i. dget (vocab t) w = Some i \<and> dget (id_to_token t) i = Some w"
    if "w \<in> set (dkeys v)" for w
  proof -
    from that obtain i where "dget v w = Some i" unfolding dkeys_dom by auto
    with c show ?thesis by (auto simp: v swap_dict_inverse vocab_complete_def)
  qed
  ultimately show ?thesis by (simp add: token_base_def)
qed

text \<open>
  Byte-level losslessness.  With a vocabulary that gives its own id to every byte character and
  to every merge result, encoding any text that the pre-tokenisation pattern covers succeeds, and
  decoding the ids gives the text back: every character outside the surrogates survives, wherever
  merges cut its UTF-8 bytes.
\<close>

theorem bpe_roundtrip:
  assumes "new_bpe v merges (Some pre) = Inr t" "vocab_complete v merges"
    and "concat (pre text) = text" "list_all scalar text"
  shows "\<exists>ids. bpe_encode t text = Inr ids \<and> bpe_decode t ids = text"
proof -
  have "pretokenize t = pre" using assms(1) by (auto simp: new_bpe_def split: if_splits)
  with bpe_encode_covered [OF new_bpe_tables complete_token_base, OF assms(1) assms(1,2), of "text"] assms(3,4)
  show ?thesis by auto
qed

text \<open>A small tokenizer: the 256 byte characters and one merge.\<close>

definition tiny_vocab :: "(pystr, int) dict" where
  "tiny_vocab = zip (map (\<lambda>p. [snd p]) bytes_to_unicode @ [[104, 105]]) [0..256]"

definition tiny_merges :: "(pystr \<times> pystr) list" where
  "tiny_merges = [([104], [105])]"

definition tiny_bpe :: bpe where
  "tiny_bpe = \<lparr>vocab = tiny_vocab, id_to_token = swap_dict tiny_vocab, rank = [(([104], [105]), 0)],
     b2u = bytes_to_unicode, u2b = swap_dict bytes_to_unicode, pretokenize = (\<lambda>s. [s])\<rparr>"

lemma length_bytes_to_unicode: "length bytes_to_unicode = 256"
proof -
  have "length bytes_to_unicode = card (set (dkeys bytes_to_unicode))"
    using distinct_card [of "dkeys bytes_to_unicode"] alphabet_table(1) by (simp add: dict_ok_def)
  then show ?thesis by (simp add: alphabet_table(3) del: set_map)
qed

lemma tiny_keys: "dkeys tiny_vocab = map (\<lambda>p. [snd p]) bytes_to_unicode @ [[104, 105]]"
  "map snd tiny_vocab = [0..256]"
  by (simp_all add: tiny_vocab_def length_bytes_to_unicode)

lemma tiny_new: "new_bpe tiny_vocab tiny_merges (Some (\<lambda>s. [s])) = Inr tiny_bpe"
proof -
  have "tiny_vocab \<noteq> []" using tiny_keys(1) by auto
  then show ?thesis by (simp add: new_bpe_def tiny_bpe_def tiny_merges_def dict_of_def)
qed

lemma tiny_complete: "vocab_complete tiny_vocab tiny_merges"
proof -
  have "distinct (map (\<lambda>p. [snd p]) bytes_to_unicode)"
    using alphabet_table(2) by (auto simp: distinct_map inj_on_def)
  then have "distinct (dkeys tiny_vocab)" by (auto simp: tiny_keys)
  moreover have "distinct (map snd tiny_vocab)" by (simp add: tiny_keys(2))
  ultimately show ?thesis
    unfolding vocab_complete_def dict_ok_def tiny_keys(1) by (auto simp: tiny_merges_def)
qed

theorem bpe_symbols_normal_form_witness:
  "\<exists>ws. bpe_symbols tiny_bpe [104, 105, 33] = Inr ws
    \<and> (merge_step (rank tiny_bpe))\<^sup>*\<^sup>* (byte_words [104, 105, 33]) ws
    \<and> \<not> mergeable (rank tiny_bpe) ws \<and> token_bytes tiny_bpe (concat ws) = [104, 105, 33]"
  using bpe_symbols_normal_form [OF tiny_new, of "[104, 105, 33]" "[104, 105, 33]"]
  by (auto simp: utf8_encode_def utf8_char_def scalar_def)

theorem bpe_roundtrip_witness:
  "\<exists>ids. bpe_encode tiny_bpe [104, 105, 0x4F60] = Inr ids \<and> bpe_decode tiny_bpe ids = [104, 105, 0x4F60]"
  using bpe_roundtrip [OF tiny_new tiny_complete, of "[104, 105, 0x4F60]"] by (simp add: scalar_def)

section \<open>The fallback tokens are not decoded\<close>

text \<open>
  A symbol outside the vocabulary is written as the tokens \<open><0xNN>\<close> of its bytes, but \<open>decode\<close>
  reads those tokens like any other, as the six characters of their names: the bytes are lost.
\<close>

definition fallback_bpe :: bpe where
  "fallback_bpe = \<lparr>vocab = [(byte_token 65, 0)], id_to_token = [(0, byte_token 65)], rank = [],
     b2u = bytes_to_unicode, u2b = swap_dict bytes_to_unicode, pretokenize = (\<lambda>s. [s])\<rparr>"

lemma fallback_not_decoded:
  "bpe_encode fallback_bpe (lit ''A'') = Inr [0] \<and> bpe_decode fallback_bpe [0] = lit ''<0x41>''"
proof -
  have t: "bpe_tables fallback_bpe" by (simp add: bpe_tables_def fallback_bpe_def)
  have [simp]: "vocab fallback_bpe = [(byte_token 65, 0)]" "id_to_token fallback_bpe = [(0, byte_token 65)]"
    "rank fallback_bpe = []" "pretokenize fallback_bpe = (\<lambda>s. [s])"
    by (simp_all add: fallback_bpe_def)
  have tok: "byte_token 65 = [60, 48, 120, 52, 49, 62]" by code_simp
  have lits: "lit ''A'' = [65]" "lit ''<0x41>'' = [60, 48, 120, 52, 49, 62]" by code_simp+
  have "bpe_loop [] [[65]] = [[65]]" by (subst bpe_loop.simps) simp
  then have "bpe_symbols fallback_bpe [65] = Inr [[65]]"
    using bpe_symbols_eq [OF t, of "[65]" "[65]"] byte_char_printable [of 65]
    by (simp add: utf8_encode_def utf8_char_def scalar_def byte_words_def set_printable)
  then have "bpe_encode fallback_bpe [65] = Inr [0]"
    by (simp add: bpe_encode_def bpe_to_ids_def symbol_ids_def tok lookup_key_def printable_char [OF t])
  moreover have "token_bytes fallback_bpe (byte_token 65) = byte_token 65"
    by (simp add: tok token_bytes_def map_filter_simps printable_char [OF t])
  then have "bpe_decode fallback_bpe [0] = byte_token 65"
    by (simp add: bpe_decode_def tok utf8_replace_def utf8_step_def)
  ultimately show ?thesis by (simp add: lits tok)
qed

end
