(* ===== verification/Tokenizer.thy ===== *)
theory Tokenizer
  imports Bpe
begin

text \<open>
  The tokenizer of the engine (\<open>serving/tokenizer.py\<close>): the byte-level BPE tokenizer of the
  checkpoint with the special tokens of its configuration on top.  A special token is cut out of
  the text before the BPE tokenizer sees it and becomes one id; decoding writes it back as it is.

  The contents of the three files are arguments: the vocabulary, the lines of \<open>merges.txt\<close>, the
  fields of \<open>tokenizer_config.json\<close> the code reads.  Compiling a pattern (the \<open>regex\<close> module)
  and rendering a chat template (\<open>jinja2\<close>) are parameters.  Python iterates over the \<open>set\<close> of
  special strings in no particular order; the model takes the order of insertion, and
  \<open>match_special_longest\<close> shows that the order does not matter.

  The matching loop is a \<open>partial_function\<close>: with an empty special string it never returns.
\<close>

section \<open>Reading the files\<close>

definition DEFAULT_PRETOKENIZE_PATTERN :: pystr where
  "DEFAULT_PRETOKENIZE_PATTERN =
    [40, 63, 105, 58, 39, 115, 124, 39, 116, 124, 39, 114, 101, 124, 39, 118, 101, 124, 39, 109,
     124, 39, 108, 108, 124, 39, 100, 41, 124, 91, 94, 92, 114, 92, 110, 92, 112, 123, 76, 125,
     92, 112, 123, 78, 125, 93, 63, 91, 92, 112, 123, 76, 125, 92, 112, 123, 77, 125, 93, 43,
     124, 92, 112, 123, 78, 125, 124, 32, 63, 91, 94, 92, 115, 92, 112, 123, 76, 125, 92, 112,
     123, 77, 125, 92, 112, 123, 78, 125, 93, 43, 91, 92, 114, 92, 110, 93, 42, 124, 92, 115, 42,
     91, 92, 114, 92, 110, 93, 43, 124, 92, 115, 43, 40, 63, 33, 92, 83, 41, 124, 92, 115, 43]"

fun load_merges :: "pystr list \<Rightarrow> py_error + (pystr \<times> pystr) list" where
  "load_merges [] = Inr []"
| "load_merges (raw # lines) =
     (let line = rev (dropWhile (\<lambda>c. c = 10) (rev raw))
      in if starts_with (lit ''#version'') line \<or> str_strip line = [] then load_merges lines
         else case split_on 32 line of
           [a, b] \<Rightarrow> rbind (load_merges lines) (\<lambda>ms. Inr ((a, b) # ms))
         | _ \<Rightarrow> Inl ValueError)"

text \<open>
  \<open>added_tokens_decoder\<close> in its order: the id and the \<open>content\<close> of the entry, \<open>None\<close> where it is
  not a dict or has none.
\<close>

record tok_config =
  pretokenize_regex :: "pystr option"
  added_tokens :: "(int \<times> pystr option) list"
  additional_special :: "pystr list"
  cfg_eos :: "pystr option"
  cfg_bos :: "pystr option"
  cfg_pad :: "pystr option"
  cfg_unk :: "pystr option"
  chat_template :: "pystr option"

record tokenizer =
  tok_bpe :: bpe
  config :: tok_config
  special_strings :: "pystr list"
  special_ids :: "(pystr, int) dict"
  id_to_special :: "(int, pystr) dict"

text \<open>\<open>if x\<close> for an optional text\<close>

definition given :: "pystr option \<Rightarrow> pystr list" where
  "given x = (case x of None \<Rightarrow> [] | Some s \<Rightarrow> if s = [] then [] else [s])"

section \<open>Special tokens\<close>

definition added_ids :: "tok_config \<Rightarrow> (pystr, int) dict" where
  "added_ids cfg = dict_of (concat (map (\<lambda>(i, content). map (\<lambda>s. (s, i)) (given content)) (added_tokens cfg)))"

definition all_strings :: "tok_config \<Rightarrow> pystr list" where
  "all_strings cfg =
     concat (map (\<lambda>(i, content). given content) (added_tokens cfg)) @ additional_special cfg
     @ given (cfg_eos cfg) @ given (cfg_bos cfg) @ given (cfg_pad cfg) @ given (cfg_unk cfg)"

definition inject :: "bpe \<Rightarrow> pystr \<times> int \<Rightarrow> bpe" where
  "inject b p =
     (if dget (vocab b) (fst p) \<noteq> None then b
      else b\<lparr>vocab := dset (fst p) (snd p) (vocab b),
             id_to_token := dset (snd p) (fst p) (id_to_token b)\<rparr>)"

definition build_special :: "bpe \<Rightarrow> tok_config \<Rightarrow> tokenizer" where
  "build_special b cfg =
     (let b' = foldl inject b (added_ids cfg);
          strings = remdups (all_strings cfg);
          specials = sort_key (\<lambda>s. - int (length s)) (filter (\<lambda>s. dget (vocab b') s \<noteq> None) strings);
          ids = map (\<lambda>s. (s, the (dget (vocab b') s))) specials
      in \<lparr>tok_bpe = b', config = cfg, special_strings = specials, special_ids = ids,
          id_to_special = swap_dict ids\<rparr>)"

definition new_tokenizer ::
    "(pystr \<Rightarrow> (pystr \<Rightarrow> pystr list) option) \<Rightarrow> (pystr, int) dict \<Rightarrow> pystr list \<Rightarrow> tok_config
     \<Rightarrow> py_error + tokenizer" where
  "new_tokenizer compile v merge_lines cfg =
     rbind (load_merges merge_lines) (\<lambda>merges.
     rbind (new_bpe v merges
              (compile (case given (pretokenize_regex cfg) of
                 [] \<Rightarrow> DEFAULT_PRETOKENIZE_PATTERN | p # _ \<Rightarrow> p)))
       (\<lambda>b. Inr (build_special b cfg)))"

definition eos_id :: "tokenizer \<Rightarrow> int option" where
  "eos_id t = (case given (cfg_eos (config t)) of [] \<Rightarrow> None | s # _ \<Rightarrow> dget (special_ids t) s)"

definition token_to_id :: "tokenizer \<Rightarrow> pystr \<Rightarrow> int option" where
  "token_to_id t s = dget (vocab (tok_bpe t)) s"

definition tok_id_to_token :: "tokenizer \<Rightarrow> int \<Rightarrow> pystr option" where
  "tok_id_to_token t i = dget (id_to_token (tok_bpe t)) i"

definition apply_chat_template ::
    "(pystr \<Rightarrow> pystr option \<Rightarrow> pystr option \<Rightarrow> 'm list \<Rightarrow> bool \<Rightarrow> py_error + pystr) \<Rightarrow> tokenizer \<Rightarrow> 'm list \<Rightarrow> bool
     \<Rightarrow> py_error + pystr" where
  "apply_chat_template jinja t messages add_generation_prompt =
     (case given (chat_template (config t)) of
        [] \<Rightarrow> Inl RuntimeError
      | template # _ \<Rightarrow>
          jinja template (cfg_bos (config t)) (cfg_eos (config t)) messages add_generation_prompt)"

section \<open>Encoding\<close>

definition match_special :: "tokenizer \<Rightarrow> pystr \<Rightarrow> pystr option" where
  "match_special t rest = find (\<lambda>s. starts_with s rest) (special_strings t)"

definition flush :: "tokenizer \<Rightarrow> pystr \<Rightarrow> int list \<Rightarrow> py_error + int list" where
  "flush t cur ids =
     (if cur = [] then Inr ids else rbind (bpe_encode (tok_bpe t) cur) (\<lambda>more. Inr (ids @ more)))"

definition emit_special :: "tokenizer \<Rightarrow> pystr \<Rightarrow> pystr \<Rightarrow> int list \<Rightarrow> py_error + int list" where
  "emit_special t s cur ids =
     rbind (flush t cur ids) (\<lambda>ids'. rbind (lookup_key (special_ids t) s) (\<lambda>i. Inr (ids' @ [i])))"

partial_function (option) tok_loop ::
    "tokenizer \<Rightarrow> pystr \<Rightarrow> pystr \<Rightarrow> int list \<Rightarrow> (py_error + int list) option" where
  "tok_loop t rest cur ids =
     (if rest = [] then Some (flush t cur ids)
      else case match_special t rest of
        Some s \<Rightarrow>
          (case emit_special t s cur ids of
             Inl e \<Rightarrow> Some (Inl e)
           | Inr ids' \<Rightarrow> tok_loop t (drop (length s) rest) [] ids')
      | None \<Rightarrow> tok_loop t (tl rest) (cur @ [hd rest]) ids)"

declare tok_loop.simps [code]

definition tok_encode :: "tokenizer \<Rightarrow> pystr \<Rightarrow> (py_error + int list) option" where
  "tok_encode t s = tok_loop t s [] []"

section \<open>Decoding\<close>

definition decode_run :: "tokenizer \<Rightarrow> int list \<Rightarrow> pystr" where
  "decode_run t cur = (if cur = [] then [] else bpe_decode (tok_bpe t) cur)"

fun decode_loop :: "tokenizer \<Rightarrow> int list \<Rightarrow> int list \<Rightarrow> pystr" where
  "decode_loop t cur [] = decode_run t cur"
| "decode_loop t cur (i # ids) =
     (case dget (id_to_special t) i of
        Some s \<Rightarrow> decode_run t cur @ s @ decode_loop t [] ids
      | None \<Rightarrow> decode_loop t (cur @ [i]) ids)"

definition tok_decode :: "tokenizer \<Rightarrow> int list \<Rightarrow> pystr" where
  "tok_decode t ids = decode_loop t [] ids"

section \<open>Which special token is cut out\<close>

definition special_order :: "tokenizer \<Rightarrow> bool" where
  "special_order t \<longleftrightarrow> sorted_wrt (\<lambda>a b. length b \<le> length a) (special_strings t)"

lemma build_special_order: "special_order (build_special b cfg)"
proof -
  have "sorted (map (\<lambda>s. - int (length s)) (special_strings (build_special b cfg)))"
    by (simp add: build_special_def Let_def)
  then show ?thesis by (simp add: special_order_def sorted_map)
qed

lemma find_sorted:
  assumes "sorted_wrt (\<lambda>a b. length b \<le> length a) xs" "find P xs = Some s" "s' \<in> set xs" "P s'"
  shows "length s' \<le> length s"
  using assms by (induction xs) (auto split: if_splits)

text \<open>
  The code takes the first match in a list sorted by length: it is the longest special string the
  text begins with, and there is only one of that length.
\<close>

lemma match_special_longest:
  assumes "special_order t"
  shows "match_special t rest = Some s \<longleftrightarrow>
    s \<in> set (special_strings t) \<and> starts_with s rest
    \<and> (\<forall>s' \<in> set (special_strings t). starts_with s' rest \<longrightarrow> length s' \<le> length s)"
    (is "_ \<longleftrightarrow> ?R s")
proof
  assume m: "match_special t rest = Some s"
  then show "?R s"
    using find_sorted [OF assms [unfolded special_order_def]] unfolding match_special_def
    by (auto simp: find_Some_iff in_set_conv_nth)
next
  assume r: "?R s"
  then obtain s' where m: "match_special t rest = Some s'"
    unfolding match_special_def by (metis find_None_iff not_Some_eq)
  then have "?R s'"
    using find_sorted [OF assms [unfolded special_order_def]] unfolding match_special_def
    by (auto simp: find_Some_iff in_set_conv_nth)
  with r have "length s = length s'" "starts_with s rest" "starts_with s' rest"
    by (auto intro: le_antisym)
  then have "s = s'" by (simp add: starts_with_def)
  with m show "match_special t rest = Some s" by simp
qed

lemma match_special_in:
  "match_special t rest = Some s \<Longrightarrow> s \<in> set (special_strings t) \<and> starts_with s rest"
  unfolding match_special_def by (auto simp: find_Some_iff in_set_conv_nth)

section \<open>An empty special string\<close>

text \<open>
  An empty string among the special ones matches wherever nothing else does, and the loop stays
  where it is, appending its id for ever.
\<close>

definition stuck :: "tokenizer \<Rightarrow> pystr \<Rightarrow> bool" where
  "stuck t rest \<longleftrightarrow> rest \<noteq> [] \<and> match_special t rest = Some [] \<and> dget (special_ids t) [] \<noteq> None"

lemma stuck_no_result:
  assumes "tok_loop t rest cur ids = Some r"
  shows "\<not> (stuck t rest \<and> cur = [])"
proof (rule tok_loop.raw_induct [where P = "\<lambda>t rest cur ids r. \<not> (stuck t rest \<and> cur = [])", OF _ assms])
  fix loop t rest cur ids r
  assume ih: "\<And>t rest cur ids r. loop t rest cur ids = Some r \<Longrightarrow> \<not> (stuck t rest \<and> cur = [])"
    and body: "(if rest = [] then Some (flush t cur ids)
      else case match_special t rest of
        Some s \<Rightarrow> (case emit_special t s cur ids of
            Inl e \<Rightarrow> Some (Inl e)
          | Inr ids' \<Rightarrow> loop t (drop (length s) rest) [] ids')
      | None \<Rightarrow> loop t (tl rest) (cur @ [hd rest]) ids) = Some r"
  show "\<not> (stuck t rest \<and> cur = [])"
  proof
    assume s: "stuck t rest \<and> cur = []"
    with body obtain ids' where "loop t rest [] ids' = Some r"
      by (auto simp: stuck_def emit_special_def flush_def lookup_key_def)
    from ih [OF this] s show False by simp
  qed
qed

lemma stuck_never_returns: "stuck t rest \<Longrightarrow> tok_encode t rest = None"
  unfolding tok_encode_def using stuck_no_result [of t rest "[]" "[]"] by (cases "tok_loop t rest [] []") auto

section \<open>The loop returns\<close>

lemma tok_loop_returns:
  assumes ne: "[] \<notin> set (special_strings t)"
  shows "\<exists>r. tok_loop t rest cur ids = Some r"
proof (induction "length rest" arbitrary: rest cur ids rule: less_induct)
  case less
  show ?case
  proof (cases "rest = []")
    case True
    then show ?thesis by (simp add: tok_loop.simps)
  next
    case False
    show ?thesis
    proof (cases "match_special t rest")
      case None
      have "length (tl rest) < length rest" using False by simp
      with less False None show ?thesis by (subst tok_loop.simps) simp
    next
      case (Some s)
      then have "s \<noteq> []" using match_special_in ne by metis
      then have "length (drop (length s) rest) < length rest" using False by simp
      with less False Some show ?thesis by (subst tok_loop.simps) (simp split: sum.splits)
    qed
  qed
qed

text \<open>
  So \<open>encode\<close> returns, with ids or with an exception of the BPE tokenizer, for every text,
  as long as no special string is empty; the longest special string at a place is the one that is
  cut out.  (With an empty special string the matching loop does not end: \<open>stuck_never_returns\<close>.)
\<close>

lemma tok_encode_returns:
  assumes "[] \<notin> set (special_strings t)"
  shows "\<exists>r. tok_encode t s = Some r"
  unfolding tok_encode_def by (rule tok_loop_returns [OF assms])

section \<open>Round trip\<close>

text \<open>What the loop needs of the special tokens: each has an id that decodes to it, and no id of
  the vocabulary \<open>K\<close> decodes to a special token.\<close>

definition specials_apart :: "tokenizer \<Rightarrow> pystr set \<Rightarrow> bool" where
  "specials_apart t K \<longleftrightarrow>
     (\<forall>s \<in> set (special_strings t). s \<noteq> [] \<and>
        (\<exists>i. dget (special_ids t) s = Some i \<and> dget (id_to_special t) i = Some s))
     \<and> (\<forall>w \<in> K. dget (id_to_special t) (token_id (tok_bpe t) w) = None)"

lemma decode_loop_base:
  "(\<And>i. i \<in> set run \<Longrightarrow> dget (id_to_special t) i = None) \<Longrightarrow>
    decode_loop t cur (run @ ids) = decode_loop t (cur @ run) ids"
  by (induction run arbitrary: cur) auto

lemma flush_covered:
  assumes b: "bpe_tables (tok_bpe t)" "token_base (tok_bpe t) K"
    and cover: "\<And>s. concat (pretokenize (tok_bpe t) s) = s" and sc: "list_all scalar cur"
    and apart: "specials_apart t K"
  shows "\<exists>run. flush t cur ids = Inr (ids @ run) \<and> decode_run t run = cur
    \<and> (\<forall>i \<in> set run. dget (id_to_special t) i = None)"
proof (cases "cur = []")
  case True
  then show ?thesis by (intro exI [of _ "[]"]) (simp add: flush_def decode_run_def)
next
  case False
  obtain ws where w: "set ws \<subseteq> K" "bpe_encode (tok_bpe t) cur = Inr (map (token_id (tok_bpe t)) ws)"
    "bpe_decode (tok_bpe t) (map (token_id (tok_bpe t)) ws) = cur"
    using bpe_encode_covered [OF b cover sc] by blast
  have "ws \<noteq> []" using w(3) False by (auto simp: bpe_decode_def utf8_replace_def)
  with w apart False show ?thesis
    by (intro exI [of _ "map (token_id (tok_bpe t)) ws"])
       (auto simp: flush_def decode_run_def specials_apart_def)
qed

lemma tok_loop_roundtrip:
  assumes b: "bpe_tables (tok_bpe t)" "token_base (tok_bpe t) K"
    and cover: "\<And>s. concat (pretokenize (tok_bpe t) s) = s"
    and apart: "specials_apart t K"
  shows "list_all scalar (cur @ rest) \<Longrightarrow>
    \<exists>new. tok_loop t rest cur ids = Some (Inr (ids @ new)) \<and> tok_decode t new = cur @ rest"
proof (induction "length rest" arbitrary: rest cur ids rule: less_induct)
  case less
  have "list_all scalar cur" using less(2) by simp
  from flush_covered [OF b cover this apart] obtain run where run:
    "flush t cur ids = Inr (ids @ run)" "decode_run t run = cur"
    "\<And>i. i \<in> set run \<Longrightarrow> dget (id_to_special t) i = None" by blast
  show ?case
  proof (cases "rest = []")
    case True
    have "tok_decode t run = cur"
      using decode_loop_base [OF run(3), of run "[]" "[]"] run(2) by (simp add: tok_decode_def)
    with True run(1) show ?thesis by (auto simp: tok_loop.simps)
  next
    case False
    show ?thesis
    proof (cases "match_special t rest")
      case None
      have "length (tl rest) < length rest" "list_all scalar ((cur @ [hd rest]) @ tl rest)"
        using False less(2) by auto
      from less(1) [OF this] False None show ?thesis by (subst tok_loop.simps) simp
    next
      case (Some s)
      have s: "s \<in> set (special_strings t)" "rest = s @ drop (length s) rest"
        using match_special_in [OF Some] by (auto simp: starts_with_def) (metis append_take_drop_id)
      obtain i where i: "dget (special_ids t) s = Some i" "dget (id_to_special t) i = Some s" "s \<noteq> []"
        using apart s(1) by (auto simp: specials_apart_def)
      have "length (drop (length s) rest) < length rest" using False i(3) by simp
      moreover have "list_all scalar ([] @ drop (length s) rest)"
        using less(2) by (auto simp: list_all_iff dest: in_set_dropD)
      ultimately obtain new where new:
        "tok_loop t (drop (length s) rest) [] (ids @ run @ [i]) = Some (Inr ((ids @ run @ [i]) @ new))"
        "tok_decode t new = drop (length s) rest"
        using less(1) by (metis append_Nil)
      have "emit_special t s cur ids = Inr (ids @ run @ [i])"
        by (simp add: emit_special_def run(1) lookup_key_def i(1))
      then have "tok_loop t rest cur ids = Some (Inr (ids @ run @ i # new))"
        using False Some new(1) by (subst tok_loop.simps) simp
      moreover have "tok_decode t (run @ i # new) = cur @ rest"
        using decode_loop_base [OF run(3), of run "[]" "i # new"] run(2) i(2) new(2) s(2)
        by (simp add: tok_decode_def)
      ultimately show ?thesis by blast
    qed
  qed
qed

text \<open>Adding new tokens to the tables of the BPE tokenizer.\<close>

lemma inject_keeps [simp]:
  "rank (foldl inject b ps) = rank b" "b2u (foldl inject b ps) = b2u b"
  "u2b (foldl inject b ps) = u2b b" "pretokenize (foldl inject b ps) = pretokenize b"
  by (induction ps arbitrary: b) (simp_all add: inject_def)

lemma inject_vocab:
  "distinct (map fst ps) \<Longrightarrow> (\<And>k. k \<in> set (map fst ps) \<Longrightarrow> dget (vocab b) k = None) \<Longrightarrow>
    dget (vocab (foldl inject b ps)) k = (case dget ps k of None \<Rightarrow> dget (vocab b) k | Some i \<Rightarrow> Some i)"
proof (induction ps arbitrary: b)
  case (Cons p ps)
  obtain a i where p: "p = (a, i)" by force
  have fresh: "dget (vocab b) a = None" using Cons.prems(2) p by simp
  then have v: "dget (vocab (inject b p)) = (dget (vocab b))(a \<mapsto> i)"
    by (simp add: inject_def p dict_simps)
  have "dget (vocab (inject b p)) x = None" if "x \<in> set (map fst ps)" for x
  proof -
    have "x \<noteq> a" using that Cons.prems(1) p by auto
    moreover have "dget (vocab b) x = None" by (rule Cons.prems(2)) (use that in simp)
    ultimately show ?thesis by (simp add: v)
  qed
  moreover have "dget ps a = None" using Cons.prems(1) p by (auto simp: map_of_eq_None_iff)
  ultimately show ?case using Cons.IH [of "inject b p"] Cons.prems(1) v p
    by (auto split: option.splits)
qed simp

lemma inject_old_ids:
  "j \<notin> set (map snd ps) \<Longrightarrow> dget (id_to_token (foldl inject b ps)) j = dget (id_to_token b) j"
proof (induction ps arbitrary: b)
  case (Cons p ps)
  then have "dget (id_to_token (inject b p)) j = dget (id_to_token b) j"
    by (auto simp: inject_def dict_simps)
  with Cons show ?case by simp
qed simp

text \<open>
  The configuration adds its special tokens the way the Qwen2 checkpoints do: with ids of their
  own, and under names that are not in \<open>vocab.json\<close>.
\<close>

definition config_apart :: "(pystr, int) dict \<Rightarrow> tok_config \<Rightarrow> bool" where
  "config_apart v cfg \<longleftrightarrow>
     distinct (map snd (added_ids cfg)) \<and> set (map snd (added_ids cfg)) \<inter> set (map snd v) = {}
     \<and> set (all_strings cfg) \<inter> set (dkeys v) = {} \<and> [] \<notin> set (all_strings cfg)"

lemma dict_ok_dict_of [simp]: "dict_ok (dict_of ps)"
proof -
  have "dict_ok d \<Longrightarrow> dict_ok (fold (\<lambda>(k, v) d. dset k v d) ps d)" for d :: "('a, 'b) dict"
    by (induction ps arbitrary: d) auto
  then show ?thesis by (simp add: dict_of_def)
qed

lemma added_names: "set (dkeys (added_ids cfg)) \<subseteq> set (all_strings cfg)"
  unfolding added_ids_def dkeys_dict_of by (auto simp: all_strings_def)

lemma injective_values:
  "distinct (map snd d) \<Longrightarrow> dget d a = Some i \<Longrightarrow> dget d b = Some i \<Longrightarrow> a = b"
  by (fastforce dest!: map_of_SomeD simp: distinct_map inj_on_def)

lemma build_special_apart:
  assumes c: "config_apart v cfg" and v: "vocab b = v"
    and K: "token_base b (set (dkeys v))" and t: "t = build_special b cfg"
  shows "token_base (tok_bpe t) (set (dkeys v))" "specials_apart t (set (dkeys v))"
proof -
  let ?add = "added_ids cfg" and ?K = "set (dkeys v)"
  have tb: "tok_bpe t = foldl inject b ?add" by (simp add: t build_special_def Let_def)
  have ok: "dict_ok ?add" by (simp add: added_ids_def)
  have disj: "k \<notin> set (dkeys v)" if "k \<in> set (all_strings cfg)" for k
    using that c unfolding config_apart_def by blast
  have new: "dget (vocab b) k = None" if "k \<in> set (map fst ?add)" for k
    using disj added_names that unfolding v map_of_eq_None_iff set_map by blast
  have voc: "dget (vocab (tok_bpe t)) k = (case dget ?add k of None \<Rightarrow> dget v k | Some i \<Rightarrow> Some i)" for k
    unfolding tb v [symmetric] using ok unfolding dict_ok_def by (rule inject_vocab) (rule new)
  have old: "dget ?add w = None" if "w \<in> ?K" for w
    using disj added_names that unfolding map_of_eq_None_iff set_map by blast
  have base: "dget (vocab (tok_bpe t)) w = dget v w" if "w \<in> ?K" for w
    using old [OF that] by (simp add: voc)
  have ids: "dget (id_to_token (tok_bpe t)) i = dget (id_to_token b) i" if "i \<in> set (map snd v)" for i
    unfolding tb by (rule inject_old_ids) (use that c in \<open>auto simp: config_apart_def\<close>)
  show tbase: "token_base (tok_bpe t) ?K"
    unfolding token_base_def
  proof (intro conjI ballI)
    fix w assume w: "w \<in> ?K"
    then obtain i where i: "dget v w = Some i" "dget (id_to_token b) i = Some w"
      using K v by (auto simp: token_base_def)
    then have "i \<in> set (map snd v)" by (force dest: map_of_SomeD)
    with i w show "\<exists>i. dget (vocab (tok_bpe t)) w = Some i \<and> dget (id_to_token (tok_bpe t)) i = Some w"
      by (auto simp: base ids)
  qed (use K in \<open>auto simp: token_base_def tb\<close>)
  let ?sp = "special_strings t"
  have sp: "set ?sp = {s \<in> set (all_strings cfg). dget (vocab (tok_bpe t)) s \<noteq> None}"
    "distinct ?sp" "special_ids t = map (\<lambda>s. (s, the (dget (vocab (tok_bpe t)) s))) ?sp"
    "id_to_special t = swap_dict (special_ids t)"
    by (auto simp: t build_special_def Let_def)
  have added: "dget ?add s = Some (the (dget (vocab (tok_bpe t)) s))" if "s \<in> set ?sp" for s
  proof -
    have "s \<notin> ?K" using that sp(1) c by (auto simp: config_apart_def)
    then have "dget v s = None" by (simp add: map_of_eq_None_iff)
    with that sp(1) show ?thesis by (auto simp: voc split: option.splits)
  qed
  have sid: "dict_ok (special_ids t)" using sp(2) by (simp add: sp(3) dict_ok_def o_def)
  have "inj_on (\<lambda>s. the (dget (vocab (tok_bpe t)) s)) (set ?sp)"
  proof (rule inj_onI)
    fix a b assume "a \<in> set ?sp" "b \<in> set ?sp"
      "the (dget (vocab (tok_bpe t)) a) = the (dget (vocab (tok_bpe t)) b)"
    then show "a = b" using added injective_values c unfolding config_apart_def by metis
  qed
  then have sdist: "distinct (map snd (special_ids t))" using sp(2) by (simp add: sp(3) o_def distinct_map)
  note inv = swap_dict_inverse [OF sid sdist, folded sp(4)]
  have look: "dget (special_ids t) s = Some i \<longleftrightarrow> s \<in> set ?sp \<and> i = the (dget (vocab (tok_bpe t)) s)" for s i
    unfolding dget_Some_in [OF sid] by (auto simp: sp(3))
  have "dget (id_to_special t) (token_id (tok_bpe t) w) = None" if w: "w \<in> ?K" for w
  proof (rule ccontr)
    assume "dget (id_to_special t) (token_id (tok_bpe t) w) \<noteq> None"
    then obtain s where "dget (special_ids t) s = Some (token_id (tok_bpe t) w)" by (auto simp: inv)
    then have "dget ?add s = Some (token_id (tok_bpe t) w)" using look added by metis
    then have "token_id (tok_bpe t) w \<in> set (map snd ?add)" by (force dest: map_of_SomeD)
    moreover have "dget v w = Some (token_id (tok_bpe t) w)"
      using token_id [OF tbase w] base [OF w] by simp
    then have "token_id (tok_bpe t) w \<in> set (map snd v)" by (force dest: map_of_SomeD)
    ultimately show False using c by (auto simp: config_apart_def)
  qed
  moreover have "[] \<notin> set ?sp" using sp(1) c by (auto simp: config_apart_def)
  ultimately show "specials_apart t ?K"
    unfolding specials_apart_def using look inv by metis
qed

text \<open>
  C31: the tokenizer loses nothing either.  With a complete vocabulary and special tokens kept
  apart from it, \<open>encode\<close> returns ids for every text without surrogates, and \<open>decode\<close> gives the
  text back, special strings, multi-byte characters and all, when the pattern covers the runs
  between the special tokens.
\<close>

theorem tokenizer_roundtrip:
  assumes "load_merges merge_lines = Inr merges" "new_tokenizer compile v merge_lines cfg = Inr t"
    and "vocab_complete v merges" "config_apart v cfg"
    and "\<forall>s. concat (pretokenize (tok_bpe t) s) = s" "list_all scalar text"
  shows "\<exists>ids. tok_encode t text = Some (Inr ids) \<and> tok_decode t ids = text"
proof -
  from assms(1,2) obtain b pattern where b: "new_bpe v merges pattern = Inr b" "t = build_special b cfg"
    by (auto simp: new_tokenizer_def rbind_Inr_iff)
  then have "vocab b = v" by (auto simp: new_bpe_def split: if_splits option.splits)
  note apart = build_special_apart [OF assms(4) this complete_token_base [OF b(1) assms(3)] b(2)]
  have "bpe_tables (tok_bpe t)"
    using new_bpe_tables [OF b(1)] by (simp add: b(2) bpe_tables_def build_special_def Let_def)
  from tok_loop_roundtrip [OF this apart(1) _ apart(2), of "[]" "text" "[]"] assms(5,6)
  show ?thesis by (auto simp: tok_encode_def)
qed

definition tiny_config :: tok_config where
  "tiny_config = \<lparr>pretokenize_regex = None, added_tokens = [(300, Some (lit ''<|e|>'')), (301, None)],
     additional_special = [lit ''<|img|>''], cfg_eos = Some (lit ''<|e|>''), cfg_bos = None, cfg_pad = Some [],
     cfg_unk = None, chat_template = None\<rparr>"

definition tiny_tokenizer :: tokenizer where
  "tiny_tokenizer = build_special tiny_bpe tiny_config"

lemma tiny_tokenizer_new:
  "new_tokenizer (\<lambda>p. Some (\<lambda>s. [s])) tiny_vocab [lit ''#version: 0.2'', lit ''h i''] tiny_config
     = Inr tiny_tokenizer"
  "load_merges [lit ''#version: 0.2'', lit ''h i''] = Inr tiny_merges"
proof -
  show m: "load_merges [lit ''#version: 0.2'', lit ''h i''] = Inr tiny_merges" by code_simp
  show "new_tokenizer (\<lambda>p. Some (\<lambda>s. [s])) tiny_vocab [lit ''#version: 0.2'', lit ''h i''] tiny_config
     = Inr tiny_tokenizer"
    unfolding new_tokenizer_def m rbind_simps option.case tiny_new tiny_tokenizer_def by simp
qed

lemma tiny_config_apart: "config_apart tiny_vocab tiny_config"
proof -
  have a: "added_ids tiny_config = [([60, 124, 101, 124, 62], 300)]" by code_simp
  have s: "all_strings tiny_config =
    [[60, 124, 101, 124, 62], [60, 124, 105, 109, 103, 124, 62], [60, 124, 101, 124, 62]]" by code_simp
  show ?thesis unfolding config_apart_def a s tiny_keys by auto
qed

theorem tokenizer_roundtrip_witness:
  "\<exists>ids. tok_encode tiny_tokenizer (lit ''hi<|e|>'' @ [0x4F60]) = Some (Inr ids)
    \<and> tok_decode tiny_tokenizer ids = lit ''hi<|e|>'' @ [0x4F60]"
proof (rule tokenizer_roundtrip [OF tiny_tokenizer_new(2,1) tiny_complete tiny_config_apart])
  show "\<forall>s. concat (pretokenize (tok_bpe tiny_tokenizer) s) = s"
    by (simp add: tiny_tokenizer_def build_special_def Let_def) (simp add: tiny_bpe_def)
  show "list_all scalar (lit ''hi<|e|>'' @ [0x4F60])" by code_simp
qed

end
