(* ===== verification/ImageProc.thy ===== *)
theory ImageProc
  imports PyText Complex_Main
begin

text \<open>
  \<open>serving/image_processor.py\<close>: the token budget of an image, the resizing loop, the
  layout of an image's sentinel block with its alignment permutation, and the expansion of
  placeholder tokens into blocks.

  A finite Python float is its rational value; every arithmetic operation on floats rounds once,
  by \<open>rnd\<close> (round-to-nearest of IEEE doubles), and \<open>math.sqrt\<close> and \<open>** 0.5\<close>
  are operations of the same parameter.  Pillow's decoding and resampling are the parameter
  \<open>pil\<close>; fetching bytes from a base64 text, the network or a file is an action value the
  parameter \<open>perform\<close> carries out.
\<close>

section \<open>Token budget of a grid\<close>

record fpu =
  rnd :: "rat \<Rightarrow> rat"
  fsqrt :: "rat \<Rightarrow> rat"
  fpow_half :: "rat \<Rightarrow> rat"

definition COMPRESS_PAD_TO :: int where
  "COMPRESS_PAD_TO = 4"

text \<open>The sentinel types \<open>range(5)\<close>.\<close>

abbreviation (input) IMAGE_START :: int where "IMAGE_START \<equiv> 0"
abbreviation (input) IMAGE_PAD :: int where "IMAGE_PAD \<equiv> 1"
abbreviation (input) IMAGE :: int where "IMAGE \<equiv> 2"
abbreviation (input) IMAGE_NEW_LINE :: int where "IMAGE_NEW_LINE \<equiv> 3"
abbreviation (input) IMAGE_END :: int where "IMAGE_END \<equiv> 4"

record vision_args =
  patch_size :: int
  downsample_ratio :: int
  max_n_token :: int
  min_pixels :: int
  max_wh_ratio :: "rat option"
  fetch_urls :: bool
  fetch_files :: bool

definition default_vision_args :: vision_args where
  "default_vision_args = \<lparr> patch_size = 14, downsample_ratio = 3, max_n_token = 384,
     min_pixels = 147456, max_wh_ratio = Some 8, fetch_urls = False, fetch_files = False \<rparr>"

text \<open>The token count of a grid of \<open>h\<close> by \<open>w\<close> cells, as the code adds it up.\<close>

definition num_tokens :: "int \<Rightarrow> int \<Rightarrow> int" where
  "num_tokens h w =
     (let n = h * (w + 1) + 2;
          n = (if h mod 2 = 1 then n + (w + 1) else n)
      in n + (h + 1) div 2 * (w + 1) mod 2 * 2)"

definition grid_tokens :: "fpu \<Rightarrow> int \<Rightarrow> int \<Rightarrow> int \<Rightarrow> int \<Rightarrow> int \<times> int \<times> int" where
  "grid_tokens F best_height best_width p d =
     (let n_llm_h = \<lceil>rnd F (of_int (best_height div p) / of_int d)\<rceil>;
          n_llm_w = \<lceil>rnd F (of_int (best_width div p) / of_int d)\<rceil>
      in (n_llm_h, n_llm_w, num_tokens n_llm_h n_llm_w))"

section \<open>Resizing to the budget\<close>

text \<open>
  \<open>height\<close> and \<open>width\<close> may be ints or floats by the time they get here.  The
  result is \<open>(n_llm_h, n_llm_w, best_height, best_width, num_tokens)\<close>.
\<close>

definition best_size :: "fpu \<Rightarrow> rat \<Rightarrow> rat \<Rightarrow> int \<Rightarrow> int \<Rightarrow> int \<Rightarrow> py_error + (int \<times> int)" where
  "best_size F height width p d m =
     (if width = 0 then Inl ZeroDivisionError
      else let r = rnd F (height / width) in
        if r = 0 then Inl ZeroDivisionError
        else let radicand = rnd F (rnd F (of_int (m - 2) / r) + 1/4) in
          if radicand < 0 then Inl ValueError
          else let max_w_float = rnd F (fsqrt F radicand - 1/2);
                   max_h_float = rnd F (max_w_float * r)
          in if max_w_float < 1 then
               (let max_h = (m - 2) div 2;
                    max_h = (if max_h mod 2 = 1 then max_h - 1 else max_h)
                in Inr (max_h * p * d, 1 * p * d))
             else if max_h_float < 2 then
               (let max_w = (m - 2) div 2 - 1
                in if max_w > 1 then Inr (2 * p * d, max_w * p * d) else Inl AssertionError)
             else
               (let max_w = \<lfloor>max_w_float\<rfloor>;
                    max_h = \<lfloor>max_h_float\<rfloor>;
                    max_h = (if max_h mod 2 = 1 then max_h - 1 else max_h)
                in if height = 0 then Inl ZeroDivisionError
                   else let beta = min (rnd F (of_int (max_w * p * d) / width))
                                       (rnd F (of_int (max_h * p * d) / height))
                   in Inr (\<lfloor>rnd F (rnd F (height * beta) / of_int p)\<rfloor> * p,
                           \<lfloor>rnd F (rnd F (width * beta) / of_int p)\<rfloor> * p)))"

definition solve_resize_ratio ::
  "fpu \<Rightarrow> rat \<Rightarrow> rat \<Rightarrow> int \<Rightarrow> int \<Rightarrow> int \<Rightarrow> py_error + (int \<times> int \<times> int \<times> int \<times> int)" where
  "solve_resize_ratio F height width p d m =
     rbind (best_size F height width p d m) (\<lambda>(best_height, best_width).
       let (n_llm_h, n_llm_w, n) = grid_tokens F best_height best_width p d
       in Inr (n_llm_h, n_llm_w, best_height, best_width, n))"

text \<open>
  The loop of \<open>safe_resize\<close>: it solves again with a smaller and smaller budget until the
  grid fits, and may not end on its own account, so it is a partial function.
\<close>

partial_function (option) safe_resize_loop ::
  "fpu \<Rightarrow> rat \<Rightarrow> rat \<Rightarrow> int \<Rightarrow> int \<Rightarrow> int \<Rightarrow> int \<Rightarrow> int \<times> int \<times> int \<times> int \<times> int
     \<Rightarrow> (py_error + int \<times> int \<times> int \<times> int) option" where
  "safe_resize_loop F height width p d limit budget dims =
     (case dims of (n_llm_h, n_llm_w, best_height, best_width, n) \<Rightarrow>
        if n \<le> limit then Some (Inr (n_llm_h, n_llm_w, best_height, best_width))
        else (case solve_resize_ratio F height width p d budget of
                Inl e \<Rightarrow> Some (Inl e)
              | Inr dims' \<Rightarrow> safe_resize_loop F height width p d limit (budget - 1) dims'))"

definition safe_resize ::
  "fpu \<Rightarrow> rat \<Rightarrow> rat \<Rightarrow> int \<Rightarrow> int \<Rightarrow> int \<Rightarrow> int \<Rightarrow> int
     \<Rightarrow> (py_error + int \<times> int \<times> int \<times> int) option" where
  "safe_resize F height width best_height best_width p d m =
     (let limit = m - (COMPRESS_PAD_TO - 1);
          (n_llm_h, n_llm_w, n) = grid_tokens F best_height best_width p d
      in safe_resize_loop F height width p d limit limit (n_llm_h, n_llm_w, best_height, best_width, n))"

section \<open>The sentinel block\<close>

text \<open>
  \<open>order\<close> is \<open>arange(rows * row_len).reshape(rows // 2, 2, row_len)\<close> with the
  last two axes swapped and flattened: rows are taken in pairs, and within a pair the cells
  alternate between the upper and the lower row.
\<close>

definition block_order :: "nat \<Rightarrow> nat \<Rightarrow> nat list" where
  "block_order rows row_len =
     concat (map (\<lambda>a. concat (map (\<lambda>c. map (\<lambda>b. (a * 2 + b) * row_len + c) [0..<2]) [0..<row_len]))
               [0..<rows div 2])"

definition image_idx :: "nat \<Rightarrow> nat \<Rightarrow> nat \<Rightarrow> int list" where
  "image_idx n_llm_h n_llm_w rows =
     map (\<lambda>k. if k div (n_llm_w + 1) < n_llm_h \<and> k mod (n_llm_w + 1) < n_llm_w
              then int (k div (n_llm_w + 1) * n_llm_w + k mod (n_llm_w + 1)) else -1)
       [0..<rows * (n_llm_w + 1)]"

definition block_types :: "nat \<Rightarrow> nat \<Rightarrow> int list" where
  "block_types n_llm_h n_llm_w =
     concat (replicate n_llm_h (replicate n_llm_w IMAGE @ [IMAGE_NEW_LINE]))
       @ replicate ((n_llm_w + 1) * (n_llm_h mod 2)) IMAGE_PAD"

definition compress_pad :: "nat \<Rightarrow> nat" where
  "compress_pad start_pos = nat COMPRESS_PAD_TO - 1 - start_pos mod nat COMPRESS_PAD_TO"

definition build_image_block :: "nat \<Rightarrow> nat \<Rightarrow> nat \<Rightarrow> int list \<times> int list" where
  "build_image_block n_llm_h n_llm_w start_pos =
     (let pad_h = n_llm_h mod 2;
          rows = n_llm_h + pad_h;
          row_len = n_llm_w + 1;
          pad_last = rows div 2 * row_len mod 2 * 2;
          order = block_order rows row_len;
          perm = filter (\<lambda>i. i \<ge> 0) (map (\<lambda>k. image_idx n_llm_h n_llm_w rows ! k) order);
          types = replicate (compress_pad start_pos) IMAGE_PAD @ [IMAGE_START]
                    @ map (\<lambda>k. block_types n_llm_h n_llm_w ! k) order
                    @ replicate pad_last IMAGE_PAD @ [IMAGE_END]
      in (types, perm))"

section \<open>Loading an image\<close>

text \<open>Where the bytes of an image come from.\<close>

datatype image_source =
    Direct "int list"
  | Base64 pv
  | NetGet pystr
  | ReadFile pystr

definition before_comma :: "pystr \<Rightarrow> pystr" where
  "before_comma s = takeWhile (\<lambda>c. c \<noteq> 44) s"

definition after_comma :: "pystr \<Rightarrow> pystr" where
  "after_comma s = drop 1 (dropWhile (\<lambda>c. c \<noteq> 44) s)"

definition load_url :: "pystr \<Rightarrow> bool \<Rightarrow> bool \<Rightarrow> py_error + image_source" where
  "load_url url urls files =
     (if starts_with (lit ''data:'') url then
        (if \<not> str_in (lit '';base64'') (before_comma url) then Inl ValueError
         else Inr (Base64 (PStr (after_comma url))))
      else if starts_with (lit ''http://'') url \<or> starts_with (lit ''https://'') url then
        (if \<not> urls then Inl ValueError else Inr (NetGet url))
      else if \<not> files then Inl ValueError
      else Inr (ReadFile url))"

definition load_record_url :: "(pystr, pv) dict \<Rightarrow> bool \<Rightarrow> bool \<Rightarrow> py_error + image_source" where
  "load_record_url rec urls files =
     (case dget rec (lit ''url'') of
        Some (PStr url) \<Rightarrow> if url \<noteq> [] then load_url url urls files else Inl ValueError
      | _ \<Rightarrow> Inl ValueError)"

function load_image_bytes :: "(pystr, pv) dict \<Rightarrow> bool \<Rightarrow> bool \<Rightarrow> py_error + image_source" where
  "load_image_bytes rec urls files =
     (case dget rec (lit ''data'') of
        Some (PBytes b) \<Rightarrow> Inr (Direct b)
      | Some (PStr s) \<Rightarrow> Inr (Base64 (PStr s))
      | _ \<Rightarrow>
          (case dget rec (lit ''source'') of
                Some (PDict source) \<Rightarrow>
                  (let sdata = (case dget source (lit ''data'') of None \<Rightarrow> PNone | Some v \<Rightarrow> v);
                       surl = (case dget source (lit ''url'') of None \<Rightarrow> PNone | Some v \<Rightarrow> v)
                   in if sdata \<noteq> PNone then Inr (Base64 sdata)
                      else if truthy surl then load_image_bytes [(lit ''url'', surl)] urls files
                      else load_record_url rec urls files)
              | _ \<Rightarrow> load_record_url rec urls files))"
  by pat_completeness auto
termination
  by (relation "measure (\<lambda>(rec, _, _). case dget rec (lit ''source'') of None \<Rightarrow> 0 | Some _ \<Rightarrow> 1)")
     (auto simp: lit_def)

declare load_image_bytes.simps [simp del]

record ('img, 'px) pil =
  open_rgb :: "int list \<Rightarrow> py_error + 'img"
  im_size :: "'img \<Rightarrow> int \<times> int"
  im_resize :: "'img \<Rightarrow> int \<times> int \<Rightarrow> nat \<Rightarrow> nat \<Rightarrow> nat \<Rightarrow> 'px"
  im_pad :: "'img \<Rightarrow> int \<times> int \<Rightarrow> nat \<Rightarrow> nat \<Rightarrow> nat \<Rightarrow> 'px"

text \<open>
  \<open>x.reshape(3, n_vit_h, p, n_vit_w, p).transpose(1, 3, 0, 2, 4)\<close> flattened to one patch per
  grid cell; \<open>px row col channel\<close> is the normalised pixel.
\<close>

definition cut_patches :: "(nat \<Rightarrow> nat \<Rightarrow> nat \<Rightarrow> 'px) \<Rightarrow> nat \<Rightarrow> nat \<Rightarrow> nat \<Rightarrow> 'px list list list list" where
  "cut_patches px p n_vit_h n_vit_w =
     concat (map (\<lambda>i. map (\<lambda>j. map (\<lambda>c. map (\<lambda>y. map (\<lambda>x. px (i * p + y) (j * p + x) c)
       [0..<p]) [0..<p]) [0..<3]) [0..<n_vit_w]) [0..<n_vit_h])"

text \<open>\<open>int(x)\<close> truncates towards zero.\<close>

definition py_int :: "rat \<Rightarrow> int" where
  "py_int x = (if x < 0 then \<lceil>x\<rceil> else \<lfloor>x\<rfloor>)"

text \<open>The working size before the patch grid: the aspect clip, then the minimum area.\<close>

definition working_size :: "fpu \<Rightarrow> vision_args \<Rightarrow> int \<Rightarrow> int \<Rightarrow> rat \<times> rat" where
  "working_size F A im_w im_h =
     (let clip = (case max_wh_ratio A of None \<Rightarrow> False
                  | Some q \<Rightarrow> of_int im_w > rnd F (of_int im_h * q));
          width = (if clip then rnd F (of_int im_h * the (max_wh_ratio A)) else of_int im_w);
          height = of_int im_h;
          area = (if clip then rnd F (width * height) else width * height)
      in if 0 < area \<and> area < of_int (min_pixels A)
         then let ratio = fpow_half F (rnd F (of_int (min_pixels A) / area))
              in (of_int (py_int (rnd F (width * ratio))), of_int (py_int (rnd F (height * ratio))))
         else (width, height))"

definition load_image ::
  "fpu \<Rightarrow> ('img, 'px) pil \<Rightarrow> (image_source \<Rightarrow> py_error + int list) \<Rightarrow> vision_args \<Rightarrow> (pystr, pv) dict
     \<Rightarrow> (py_error + 'px list list list list \<times> int \<times> int \<times> int \<times> int) option" where
  "load_image F P perform A rec =
     (case rbind (load_image_bytes rec (fetch_urls A) (fetch_files A)) (\<lambda>src.
             rbind (perform src) (open_rgb P)) of
        Inl e \<Rightarrow> Some (Inl e)
      | Inr im \<Rightarrow>
          (let p = patch_size A;
               (im_w, im_h) = im_size P im;
               (width, height) = working_size F A im_w im_h;
               best_width = \<lceil>rnd F (width / of_int p)\<rceil> * p;
               best_height = \<lceil>rnd F (height / of_int p)\<rceil> * p
           in case safe_resize F height width best_height best_width p (downsample_ratio A) (max_n_token A) of
                None \<Rightarrow> None
              | Some (Inl e) \<Rightarrow> Some (Inl e)
              | Some (Inr (n_llm_h, n_llm_w, best_height, best_width)) \<Rightarrow>
                  (let n_vit_h = best_height div p; n_vit_w = best_width div p;
                       px = (if (case max_wh_ratio A of None \<Rightarrow> False
                                 | Some q \<Rightarrow> of_int im_w \<ge> rnd F (q * of_int im_h))
                             then im_resize P im (best_width, best_height)
                             else im_pad P im (best_width, best_height))
                   in Some (Inr (cut_patches px (nat p) (nat n_vit_h) (nat n_vit_w),
                                 n_vit_h, n_vit_w, n_llm_h, n_llm_w)))))"

section \<open>Expanding placeholders\<close>

record 'px image_input =
  ii_start :: nat
  ii_patches :: "'px list list list list"
  ii_n_vit_h :: int
  ii_n_vit_w :: int
  ii_types :: "int list"
  ii_perm :: "int list"

text \<open>
  \<open>load\<close> is \<open>load_image\<close> with its arguments fixed (an exception or the dimensions); the
  iterator over the images is the list of those not yet taken.
\<close>

fun expand_loop ::
  "('r \<Rightarrow> (py_error + 'px list list list list \<times> int \<times> int \<times> int \<times> int) option) \<Rightarrow> int \<Rightarrow> int option
     \<Rightarrow> int list \<Rightarrow> 'r list \<Rightarrow> int list \<Rightarrow> 'px image_input list
     \<Rightarrow> (py_error + int list \<times> 'px image_input list) option" where
  "expand_loop load vocab ph [] images tokens inputs = Some (Inr (tokens, inputs))"
| "expand_loop load vocab ph (t # ts) images tokens inputs =
     (if ph = Some t then
        (case images of
           [] \<Rightarrow> Some (Inl StopIteration)
         | im # rest \<Rightarrow>
             (case load im of
                None \<Rightarrow> None
              | Some (Inl e) \<Rightarrow> Some (Inl e)
              | Some (Inr (patches, nvh, nw, nlh, nlw)) \<Rightarrow>
                  if nlh < 0 \<or> nlw < 0 then Some (Inl ValueError)
                  else let (types, perm) = build_image_block (nat nlh) (nat nlw) (length tokens)
                  in expand_loop load vocab ph ts rest (tokens @ map (\<lambda>y. vocab + y) types)
                       (inputs @ [\<lparr> ii_start = length tokens, ii_patches = patches, ii_n_vit_h = nvh,
                                    ii_n_vit_w = nw, ii_types = types, ii_perm = perm \<rparr>])))
      else expand_loop load vocab ph ts images (tokens @ [t]) inputs)"

definition expand_image_placeholders ::
  "('r \<Rightarrow> (py_error + 'px list list list list \<times> int \<times> int \<times> int \<times> int) option) \<Rightarrow> int list \<Rightarrow> 'r list
     \<Rightarrow> int \<Rightarrow> int option \<Rightarrow> (py_error + int list \<times> 'px image_input list option) option" where
  "expand_image_placeholders load prompt_ids images vocab ph =
     map_option (\<lambda>r. case r of Inl e \<Rightarrow> Inl e
                     | Inr (tokens, inputs) \<Rightarrow> Inr (tokens, if inputs = [] then None else Some inputs))
       (expand_loop load vocab ph prompt_ids images [] [])"

section \<open>Layout of a block\<close>

lemma sum_list_map_const: "sum_list (map (\<lambda>x. c) xs) = length xs * (c :: nat)"
  by (induction xs) auto

lemma length_block_order: "length (block_order rows row_len) = rows div 2 * (row_len * 2)"
  by (simp add: block_order_def length_concat comp_def sum_list_map_const)

lemma rows_even: "(h + h mod 2) div 2 * 2 = h + h mod (2 :: nat)"
  by presburger

lemma rows_half: "(h + h mod 2) div 2 = (h + 1) div (2 :: nat)"
  by presburger

lemma set_block_order:
  assumes even: "rows div 2 * 2 = rows" and r: "0 < row_len"
  shows "set (block_order rows row_len) = {..<rows * row_len}"
proof (rule set_eqI, rule iffI)
  fix k assume "k \<in> set (block_order rows row_len)"
  then obtain a b c where k: "k = (a * 2 + b) * row_len + c" and a: "a < rows div 2"
    and b: "b < 2" and c: "c < row_len"
    by (auto simp: block_order_def)
  have "k < (a * 2 + b + 1) * row_len" using k c by simp
  also have "\<dots> \<le> rows * row_len"
    by (rule mult_le_mono1) (use a b even in linarith)
  finally show "k \<in> {..<rows * row_len}" by simp
next
  fix k assume "k \<in> {..<rows * row_len}"
  then have k: "k < rows * row_len" by simp
  define q where "q = k div row_len"
  have q: "q < rows" using k r by (simp add: q_def less_mult_imp_div_less)
  have "k = (q div 2 * 2 + q mod 2) * row_len + k mod row_len"
    by (simp add: q_def)
  moreover have "q div 2 < rows div 2" using q even by linarith
  moreover have "q mod 2 < 2" "k mod row_len < row_len" using r by simp_all
  ultimately have "\<exists>a<rows div 2. \<exists>c<row_len. \<exists>b<2. k = (a * 2 + b) * row_len + c" by blast
  then show "k \<in> set (block_order rows row_len)"
    unfolding block_order_def by (fastforce simp: image_iff)
qed

lemma distinct_block_order:
  assumes even: "rows div 2 * 2 = rows" and r: "0 < row_len"
  shows "distinct (block_order rows row_len)"
proof (rule card_distinct)
  have "rows div 2 * (row_len * 2) = rows div 2 * 2 * row_len"
    by (simp only: ac_simps)
  then show "card (set (block_order rows row_len)) = length (block_order rows row_len)"
    using set_block_order[OF assms] even by (simp add: length_block_order)
qed

lemma mset_block_order:
  assumes "rows div 2 * 2 = rows" and "0 < row_len"
  shows "mset (block_order rows row_len) = mset [0..<rows * row_len]"
  using set_block_order[OF assms] distinct_block_order[OF assms]
  by (metis distinct_upt set_eq_iff_mset_eq_distinct set_upt atLeast0LessThan)

lemma length_block_types: "length (block_types h w) = (h + h mod 2) * (w + 1)"
  by (simp add: block_types_def length_concat sum_list_replicate algebra_simps)

lemma length_image_idx: "length (image_idx h w rows) = rows * (w + 1)"
  by (simp add: image_idx_def)

lemma nth_concat_replicate:
  "k < n * length xs \<Longrightarrow> concat (replicate n xs) ! k = xs ! (k mod length xs)"
proof (induction n arbitrary: k)
  case (Suc n)
  show ?case
  proof (cases "k < length xs")
    case False
    with Suc show ?thesis by (simp add: nth_append le_mod_geq)
  qed (simp add: nth_append)
qed simp

text \<open>A cell of the padded grid holds an image token exactly when it has a cell index.\<close>

lemma block_types_image:
  assumes "k < (h + h mod 2) * (w + 1)"
  shows "block_types h w ! k = IMAGE \<longleftrightarrow> image_idx h w (h + h mod 2) ! k \<ge> 0"
proof -
  let ?row = "replicate w IMAGE @ [IMAGE_NEW_LINE]"
  have idx: "image_idx h w (h + h mod 2) ! k \<ge> 0 \<longleftrightarrow> k div (w + 1) < h \<and> k mod (w + 1) < w"
    using assms by (simp add: image_idx_def)
  show ?thesis
  proof (cases "k < h * (w + 1)")
    case True
    then have "block_types h w ! k = ?row ! (k mod (w + 1))"
      using nth_concat_replicate[of k h ?row]
      by (simp add: block_types_def nth_append length_concat sum_list_replicate)
    moreover have "k mod (w + 1) < w + 1" by simp
    ultimately have "block_types h w ! k = IMAGE \<longleftrightarrow> k mod (w + 1) < w"
      by (auto simp: nth_append)
    moreover have "k div (w + 1) < h" using True by (simp add: less_mult_imp_div_less)
    ultimately show ?thesis using idx by simp
  next
    case False
    then have "block_types h w ! k = IMAGE_PAD"
      using assms by (simp add: block_types_def nth_append length_concat sum_list_replicate algebra_simps)
    moreover have "\<not> k div (w + 1) < h"
      using False by (simp add: div_less_iff_less_mult)
    ultimately show ?thesis using idx by simp
  qed
qed

text \<open>The non-negative cell indices are each index of the grid once.\<close>

lemma image_idx_cells:
  assumes "h \<le> rows"
  shows "mset (filter (\<lambda>i. i \<ge> 0) (image_idx h w rows)) = mset (map int [0..<h * w])"
proof -
  let ?f = "\<lambda>k. if k div (w + 1) < h \<and> k mod (w + 1) < w
              then int (k div (w + 1) * w + k mod (w + 1)) else -1"
  let ?xs = "filter (\<lambda>i. i \<ge> 0) (image_idx h w rows)"
  have xs: "?xs = map ?f (filter (\<lambda>k. ?f k \<ge> 0) [0..<rows * (w + 1)])"
    by (simp add: image_idx_def filter_map comp_def)
  have dm: "(q * n + c) div n = q" "(q * n + c) mod n = c" if "c < n" for q c n :: nat
    using that by auto
  have inj: "inj_on ?f {k. ?f k \<ge> 0}"
  proof (rule inj_onI)
    fix j k assume j: "j \<in> {k. ?f k \<ge> 0}" and k: "k \<in> {k. ?f k \<ge> 0}" and e: "?f j = ?f k"
    have cj: "j div (w + 1) < h" "j mod (w + 1) < w" and ck: "k div (w + 1) < h" "k mod (w + 1) < w"
      using j k by (auto split: if_splits)
    have "int (j div (w + 1) * w + j mod (w + 1)) = int (k div (w + 1) * w + k mod (w + 1))"
      using e by (simp only: cj ck simp_thms if_True)
    then have "j div (w + 1) * w + j mod (w + 1) = k div (w + 1) * w + k mod (w + 1)"
      by (simp only: of_nat_eq_iff)
    then have "j div (w + 1) = k div (w + 1)" "j mod (w + 1) = k mod (w + 1)"
      using dm[OF cj(2)] dm[OF ck(2)] by metis+
    then show "j = k" by (metis div_mult_mod_eq)
  qed
  have dist: "distinct ?xs"
    unfolding xs distinct_map
    by (intro conjI distinct_filter distinct_upt inj_on_subset[OF inj]) (simp only: set_filter, blast)
  have "set ?xs = int ` {..<h * w}"
  proof (rule set_eqI, rule iffI)
    fix i assume "i \<in> set ?xs"
    then have "i \<in> ?f ` {k. ?f k \<ge> 0}" unfolding xs set_map set_filter by blast
    then obtain k where i: "i = ?f k" "?f k \<ge> 0" by blast
    then have q: "k div (w + 1) < h" and c: "k mod (w + 1) < w" by (auto split: if_splits)
    have "k div (w + 1) * w + k mod (w + 1) < (k div (w + 1) + 1) * w" using c by simp
    also have "\<dots> \<le> h * w" using q by (intro mult_le_mono1) simp
    finally have "k div (w + 1) * w + k mod (w + 1) \<in> {..<h * w}" by simp
    moreover have "i = int (k div (w + 1) * w + k mod (w + 1))" using i q c by simp
    ultimately show "i \<in> int ` {..<h * w}" by blast
  next
    fix i assume "i \<in> int ` {..<h * w}"
    then obtain m where m: "i = int m" "m < h * w" by auto
    define k where "k = m div w * (w + 1) + m mod w"
    have w: "0 < w" using m by (cases w) auto
    then have c: "m mod w < w + 1" by (simp add: less_SucI)
    have k: "k div (w + 1) = m div w" "k mod (w + 1) = m mod w"
      unfolding k_def by (rule dm[OF c])+
    have q: "m div w < h" using m by (simp add: less_mult_imp_div_less)
    have "k < (m div w + 1) * (w + 1)" using c by (simp only: k_def distrib_right mult_1 add_less_cancel_left)
    also have "\<dots> \<le> rows * (w + 1)" using q assms by (intro mult_le_mono1) simp
    finally have kin: "k \<in> set [0..<rows * (w + 1)]" by simp
    have fk: "?f k = i" using k q w m by simp
    have pos: "?f k \<ge> 0" unfolding fk by (simp add: m)
    have "k \<in> {x \<in> set [0..<rows * (w + 1)]. ?f x \<ge> 0}" by (rule CollectI, rule conjI[OF kin pos])
    from image_eqI[where f = ?f, OF fk[symmetric] this] show "i \<in> set ?xs"
      unfolding xs set_map set_filter .
  qed
  then have "set ?xs = set (map int [0..<h * w])" by (simp add: atLeast0LessThan)
  moreover have "distinct (map int [0..<h * w])" by (simp add: distinct_map inj_on_def)
  ultimately show ?thesis using dist set_eq_iff_mset_eq_distinct by blast
qed

lemma length_build_image_block:
  "length (fst (build_image_block h w start)) =
     compress_pad start + 2 + (h + h mod 2) * (w + 1) + (h + 1) div 2 * (w + 1) mod 2 * 2"
proof -
  have "(h + h mod 2) div 2 * ((w + 1) * 2) = (h + h mod 2) div 2 * 2 * (w + 1)"
    by (simp only: ac_simps)
  then have "length (block_order (h + h mod 2) (w + 1)) = (h + h mod 2) * (w + 1)"
    by (simp only: length_block_order rows_even)
  then show ?thesis
    unfolding build_image_block_def Let_def fst_conv length_append length_map length_replicate rows_half
    by simp
qed

lemma num_tokens_nat:
  "num_tokens (int h) (int w) =
     int (2 + (h + h mod 2) * (w + 1) + (h + 1) div 2 * (w + 1) mod 2 * 2)"
proof -
  define parity where "parity = (h + 1) div 2 * (w + 1) mod 2"
  have sum: "int (2 + (h + e) * (w + 1) + parity * 2) = (int h + int e) * (int w + 1) + 2 + int parity * 2" for e
    by (simp add: algebra_simps)
  have "(int h + 1) div 2 * (int w + 1) mod 2 = int (h + 1) div int 2 * int (w + 1) mod int 2"
    by (simp add: add.commute)
  also have "\<dots> = int parity"
    unfolding parity_def by (simp only: zdiv_int zmod_int of_nat_mult)
  finally have "num_tokens (int h) (int w)
      = int h * (int w + 1) + 2 + (if int h mod 2 = 1 then int w + 1 else 0) + int parity * 2"
    by (simp add: num_tokens_def Let_def)
  also have "\<dots> = (int h + int (h mod 2)) * (int w + 1) + 2 + int parity * 2"
  proof (cases "h mod 2 = 0")
    case True
    then have "int h mod 2 = 0" by presburger
    with True show ?thesis by simp
  next
    case False
    then have "h mod 2 = 1" "int h mod 2 = 1" by presburger+
    then show ?thesis by (simp add: distrib_right)
  qed
  finally show ?thesis unfolding parity_def[symmetric] sum .
qed

lemma compress_pad_aligns: "(start + compress_pad start) mod 4 = 3"
proof -
  have "compress_pad start = 3 - start mod 4"
    by (simp add: compress_pad_def COMPRESS_PAD_TO_def)
  moreover have "start mod 4 < 4" "4 * (start div 4) + start mod 4 = start" by simp_all
  ultimately have "start + compress_pad start = 4 * (start div 4) + 3" by linarith
  then show ?thesis by simp
qed

lemma compress_pad_le: "compress_pad start \<le> 3"
  by (simp add: compress_pad_def COMPRESS_PAD_TO_def)

lemma block_content_aligned:
  "((h + h mod 2) * (w + 1) + (h + 1) div 2 * (w + 1) mod 2 * 2) mod 4 = (0 :: nat)"
proof -
  define k where "k = (h + 1) div 2 * (w + 1)"
  have "(h + h mod 2) * (w + 1) = (h + h mod 2) div 2 * 2 * (w + 1)"
    by (simp only: rows_even)
  also have "\<dots> = 2 * k"
    by (simp only: rows_half k_def ac_simps)
  finally show ?thesis unfolding k_def[symmetric] by presburger
qed

text \<open>
  C19: the sentinel block of an image is exactly as long as the token count the resizing budget
  was computed with, plus its leading padding; the padding puts the start marker at position 3
  modulo 4, so the image rows begin at a multiple of 4, and the end marker falls on a multiple
  of 4 again, whatever the position of the block and the grid.
\<close>

theorem image_block_layout:
  "int (length (fst (build_image_block h w start)))
     = int (compress_pad start) + num_tokens (int h) (int w)
   \<and> (start + compress_pad start) mod 4 = 3
   \<and> fst (build_image_block h w start) ! compress_pad start = IMAGE_START
   \<and> (start + length (fst (build_image_block h w start)) - 1) mod 4 = 0
   \<and> last (fst (build_image_block h w start)) = IMAGE_END"
proof (intro conjI)
  show "int (length (fst (build_image_block h w start)))
     = int (compress_pad start) + num_tokens (int h) (int w)"
    unfolding length_build_image_block num_tokens_nat by simp
  show "(start + compress_pad start) mod 4 = 3" by (rule compress_pad_aligns)
  show "fst (build_image_block h w start) ! compress_pad start = IMAGE_START"
    by (simp add: build_image_block_def Let_def nth_append)
  define body where "body = (h + h mod 2) * (w + 1) + (h + 1) div 2 * (w + 1) mod 2 * 2"
  have "length (fst (build_image_block h w start)) = compress_pad start + 2 + body"
    unfolding length_build_image_block body_def by simp
  moreover have "body mod 4 = 0" unfolding body_def by (rule block_content_aligned)
  ultimately show "(start + length (fst (build_image_block h w start)) - 1) mod 4 = 0"
    using compress_pad_aligns[of start] by presburger
  show "last (fst (build_image_block h w start)) = IMAGE_END"
    by (simp add: build_image_block_def Let_def)
qed

text \<open>
  The alignment permutation of a block is a permutation of the cells of the image grid,
  and it follows the block: its entries are the cells of the image tokens in block order, one for
  each image token.
\<close>

theorem image_perm_is_permutation:
  "mset (snd (build_image_block h w start)) = mset (map int [0..<h * w])
   \<and> snd (build_image_block h w start) =
       map (\<lambda>k. image_idx h w (h + h mod 2) ! k)
         (filter (\<lambda>k. block_types h w ! k = IMAGE) (block_order (h + h mod 2) (w + 1)))
   \<and> length (filter (\<lambda>y. y = IMAGE) (fst (build_image_block h w start))) = h * w"
proof -
  let ?rows = "h + h mod 2" and ?idx = "image_idx h w (h + h mod 2)"
  let ?order = "block_order ?rows (w + 1)"
  have ord: "mset ?order = mset [0..<?rows * (w + 1)]" "set ?order = {..<?rows * (w + 1)}"
    by (rule mset_block_order set_block_order; simp add: rows_even)+
  have perm: "snd (build_image_block h w start) = filter (\<lambda>i. i \<ge> 0) (map (\<lambda>k. ?idx ! k) ?order)"
    by (simp add: build_image_block_def Let_def)
  have "mset (map (\<lambda>k. ?idx ! k) ?order) = mset (map (\<lambda>k. ?idx ! k) [0..<length ?idx])"
    by (simp only: mset_map ord(1) length_image_idx)
  also have "\<dots> = mset ?idx" by (simp only: map_nth)
  finally have "mset (snd (build_image_block h w start)) = mset (filter (\<lambda>i. i \<ge> 0) ?idx)"
    unfolding perm by (simp only: mset_filter)
  also have "\<dots> = mset (map int [0..<h * w])" by (rule image_idx_cells) simp
  finally have cells: "mset (snd (build_image_block h w start)) = mset (map int [0..<h * w])" .
  have "filter (\<lambda>k. ?idx ! k \<ge> 0) ?order = filter (\<lambda>k. block_types h w ! k = IMAGE) ?order"
  proof (rule filter_cong[OF refl])
    fix k assume "k \<in> set ?order"
    then have "k < ?rows * (w + 1)" using ord(2) by simp
    from block_types_image[OF this] show "(?idx ! k \<ge> 0) = (block_types h w ! k = IMAGE)" by simp
  qed
  then have follow: "snd (build_image_block h w start) =
      map (\<lambda>k. ?idx ! k) (filter (\<lambda>k. block_types h w ! k = IMAGE) ?order)"
    unfolding perm by (simp only: filter_map comp_def)
  have "length (filter (\<lambda>y. y = IMAGE) (fst (build_image_block h w start)))
      = length (filter (\<lambda>k. block_types h w ! k = IMAGE) ?order)"
    by (simp add: build_image_block_def Let_def filter_map comp_def)
  also have "\<dots> = length (snd (build_image_block h w start))" by (simp add: follow)
  also have "\<dots> = h * w" using cells by (metis length_map length_upt minus_nat.diff_0 size_mset)
  finally show ?thesis using cells follow by simp
qed

section \<open>The resizing loop\<close>

definition counted :: "int \<times> int \<times> int \<times> int \<times> int \<Rightarrow> bool" where
  "counted dims \<longleftrightarrow> (case dims of (h, w, bh, bw, n) \<Rightarrow> n = num_tokens h w)"

lemma solve_resize_ratio_counted:
  "solve_resize_ratio F ht wd p d m = Inr dims \<Longrightarrow> counted dims"
  by (auto simp: solve_resize_ratio_def rbind_Inr_iff grid_tokens_def counted_def Let_def)

lemma safe_resize_loop_fits:
  assumes r: "safe_resize_loop F ht wd p d limit budget dims = Some res"
  shows "counted dims \<Longrightarrow> res = Inr (h, w, bh, bw) \<Longrightarrow> num_tokens h w \<le> limit"
proof -
  have "counted dims \<longrightarrow> (\<forall>h w bh bw. res = Inr (h, w, bh, bw) \<longrightarrow> num_tokens h w \<le> limit)"
  proof (rule safe_resize_loop.raw_induct[where P = "\<lambda>F ht wd p d limit budget dims res.
      counted dims \<longrightarrow> (\<forall>h w bh bw. res = Inr (h, w, bh, bw) \<longrightarrow> num_tokens h w \<le> limit)", OF _ r])
    fix loop :: "fpu \<Rightarrow> rat \<Rightarrow> rat \<Rightarrow> int \<Rightarrow> int \<Rightarrow> int \<Rightarrow> int \<Rightarrow> int \<times> int \<times> int \<times> int \<times> int
       \<Rightarrow> (py_error + int \<times> int \<times> int \<times> int) option"
    fix F ht wd p d limit budget dims res
    assume ih: "\<And>F ht wd p d limit budget dims res. loop F ht wd p d limit budget dims = Some res \<Longrightarrow>
        counted dims \<longrightarrow> (\<forall>h w bh bw. res = Inr (h, w, bh, bw) \<longrightarrow> num_tokens h w \<le> limit)"
      and body: "(case dims of (n_llm_h, n_llm_w, best_height, best_width, n) \<Rightarrow>
        if n \<le> limit then Some (Inr (n_llm_h, n_llm_w, best_height, best_width))
        else (case solve_resize_ratio F ht wd p d budget of
                Inl e \<Rightarrow> Some (Inl e)
              | Inr dims' \<Rightarrow> loop F ht wd p d limit (budget - 1) dims')) = Some res"
    obtain a b x y n where dims: "dims = (a, b, x, y, n)" by (cases dims)
    show "counted dims \<longrightarrow> (\<forall>h w bh bw. res = Inr (h, w, bh, bw) \<longrightarrow> num_tokens h w \<le> limit)"
    proof (cases "n \<le> limit")
      case True
      with body show ?thesis by (auto simp: dims counted_def)
    next
      case False
      show ?thesis
      proof (cases "solve_resize_ratio F ht wd p d budget")
        case (Inl e)
        with False body show ?thesis by (auto simp: dims)
      next
        case (Inr dims')
        with False body have "loop F ht wd p d limit (budget - 1) dims' = Some res" by (simp add: dims)
        from ih[OF this] solve_resize_ratio_counted[OF Inr] show ?thesis by blast
      qed
    qed
  qed
  then show "counted dims \<Longrightarrow> res = Inr (h, w, bh, bw) \<Longrightarrow> num_tokens h w \<le> limit" by blast
qed

lemma safe_resize_fits:
  assumes "safe_resize F ht wd bh bw p d m = Some (Inr (h, w, bh', bw'))"
  shows "num_tokens h w \<le> m - 3"
proof -
  obtain a b n where g: "grid_tokens F bh bw p d = (a, b, n)" by (cases "grid_tokens F bh bw p d")
  then have "counted (a, b, bh, bw, n)" by (auto simp: grid_tokens_def counted_def Let_def)
  moreover have "safe_resize_loop F ht wd p d (m - 3) (m - 3) (a, b, bh, bw, n) = Some (Inr (h, w, bh', bw'))"
    using assms by (simp add: safe_resize_def g COMPRESS_PAD_TO_def Let_def)
  ultimately show ?thesis using safe_resize_loop_fits by blast
qed

definition exact_fpu :: fpu where
  "exact_fpu = \<lparr> rnd = (\<lambda>x. x), fsqrt = (\<lambda>x. x / 22), fpow_half = (\<lambda>x. x / 22) \<rparr>"

declare safe_resize_loop.simps [code]

lemma safe_resize_exact:
  "safe_resize exact_fpu 900 1200 910 1204 14 3 384 = Some (Inr (int 16, int 22, 672, 896))"
  by code_simp

text \<open>
  The resizing loop budgets for the alignment padding in advance: whatever dimensions it
  returns for an image, the block built for them at any position of the prompt has at most
  \<open>max_n_token\<close> tokens.
\<close>

theorem resized_block_fits_budget:
  assumes "safe_resize F height width best_height best_width p d m = Some (Inr (int h, int w, bh, bw))"
  shows "int (length (fst (build_image_block h w start))) \<le> m"
proof -
  have "num_tokens (int h) (int w) \<le> m - 3" by (rule safe_resize_fits[OF assms])
  moreover have "int (length (fst (build_image_block h w start)))
      = int (compress_pad start) + num_tokens (int h) (int w)"
    unfolding length_build_image_block num_tokens_nat by simp
  moreover have "compress_pad start \<le> 3" by (rule compress_pad_le)
  ultimately show ?thesis by linarith
qed

theorem resized_block_fits_budget_witness:
  "safe_resize exact_fpu 900 1200 910 1204 14 3 384 = Some (Inr (int 16, int 22, 672, 896))
   \<and> int (length (fst (build_image_block 16 22 5))) \<le> 384"
  using resized_block_fits_budget[OF safe_resize_exact, of 5] safe_resize_exact by blast

text \<open>
  What the termination of the loop needs of the rounding of floats: it is monotone, and the
  three small constants are floats already.
\<close>

definition rounds :: "fpu \<Rightarrow> bool" where
  "rounds F \<longleftrightarrow> mono (rnd F) \<and> rnd F 0 = 0 \<and> rnd F (-1) = -1 \<and> rnd F (-3/4) = -3/4"

lemma best_size_raises:
  assumes F: "rounds F" and pos: "0 < ht" "0 < wd" and m: "m \<le> 2 - \<lceil>rnd F (ht / wd)\<rceil>"
  shows "\<exists>e. best_size F ht wd p d m = Inl e"
proof -
  let ?r = "rnd F (ht / wd)"
  have mono: "x \<le> y \<Longrightarrow> rnd F x \<le> rnd F y" for x y
    using F by (auto simp: rounds_def mono_def)
  have "rnd F 0 \<le> ?r" by (rule mono) (use pos in simp)
  then have r0: "0 \<le> ?r" using F by (simp add: rounds_def)
  show ?thesis
  proof (cases "?r = 0")
    case True
    then show ?thesis using pos by (simp add: best_size_def Let_def)
  next
    case False
    then have r: "0 < ?r" using r0 by simp
    have "of_int m \<le> (of_int (2 - \<lceil>?r\<rceil>) :: rat)" using m by (simp only: of_int_le_iff)
    moreover have "of_int (m - 2) = (of_int m - 2 :: rat)" by simp
    moreover have "(of_int (2 - \<lceil>?r\<rceil>) :: rat) = 2 - of_int \<lceil>?r\<rceil>" by simp
    ultimately have "of_int (m - 2) \<le> - ?r" using le_of_int_ceiling[of ?r] by linarith
    then have "of_int (m - 2) / ?r \<le> -1" using r by (simp add: divide_le_eq)
    then have "rnd F (of_int (m - 2) / ?r) \<le> -1" using mono[of _ "-1"] F by (simp add: rounds_def)
    then have "rnd F (of_int (m - 2) / ?r) + 1/4 \<le> -3/4" by simp
    then have "rnd F (rnd F (of_int (m - 2) / ?r) + 1/4) \<le> -3/4" using mono[of _ "-3/4"] F by (simp add: rounds_def)
    then have "rnd F (rnd F (of_int (m - 2) / ?r) + 1/4) < 0" by simp
    with False pos show ?thesis by (simp add: best_size_def Let_def)
  qed
qed

lemma safe_resize_loop_ends:
  assumes "rounds F" "0 < ht" "0 < wd"
  shows "\<exists>res. safe_resize_loop F ht wd p d limit budget dims = Some res"
proof (induction "nat (budget - (2 - \<lceil>rnd F (ht / wd)\<rceil>))" arbitrary: budget dims rule: less_induct)
  case less
  obtain a b x y n where dims: "dims = (a, b, x, y, n)" by (cases dims)
  show ?case
  proof (cases "n \<le> limit")
    case True
    then show ?thesis by (subst safe_resize_loop.simps) (simp add: dims)
  next
    case False
    note big = this
    show ?thesis
    proof (cases "solve_resize_ratio F ht wd p d budget")
      case (Inl e)
      with big show ?thesis by (subst safe_resize_loop.simps) (simp add: dims)
    next
      case (Inr dims')
      have "\<not> budget \<le> 2 - \<lceil>rnd F (ht / wd)\<rceil>"
      proof
        assume "budget \<le> 2 - \<lceil>rnd F (ht / wd)\<rceil>"
        from best_size_raises[OF assms this, of p d] Inr show False by (auto simp: solve_resize_ratio_def)
      qed
      then have "nat (budget - 1 - (2 - \<lceil>rnd F (ht / wd)\<rceil>)) < nat (budget - (2 - \<lceil>rnd F (ht / wd)\<rceil>))"
        by linarith
      from less[OF this] obtain res where
        "safe_resize_loop F ht wd p d limit (budget - 1) dims' = Some res" by blast
      with big Inr show ?thesis by (subst safe_resize_loop.simps) (simp add: dims)
    qed
  qed
qed

text \<open>
  C20: the resizing loop ends for every image of positive size: it finds a grid within the budget
  or raises, since the budget falls until the square root has a negative argument.
\<close>

theorem safe_resize_terminates:
  assumes "rounds F" "0 < height" "0 < width"
  shows "\<exists>res. safe_resize F height width best_height best_width p d m = Some res"
  using safe_resize_loop_ends[OF assms]
  by (simp add: safe_resize_def Let_def split: prod.splits)

lemma exact_fpu_rounds: "rounds exact_fpu"
  by (simp add: rounds_def exact_fpu_def mono_def)

theorem safe_resize_terminates_witness:
  "rounds exact_fpu \<and> (\<exists>res. safe_resize exact_fpu 900 1200 910 1204 14 3 384 = Some res)"
  using safe_resize_terminates[OF exact_fpu_rounds, of 900 1200 910 1204 14 3 384] exact_fpu_rounds
  by simp

section \<open>Where image bytes may come from\<close>

definition allowed_source :: "bool \<Rightarrow> bool \<Rightarrow> image_source \<Rightarrow> bool" where
  "allowed_source urls files src \<longleftrightarrow>
     (case src of NetGet u \<Rightarrow> urls \<and> (starts_with (lit ''http://'') u \<or> starts_with (lit ''https://'') u)
      | ReadFile u \<Rightarrow> files \<and> \<not> starts_with (lit ''data:'') u
      | Base64 v \<Rightarrow> True | Direct b \<Rightarrow> True)"

lemma allowed_source_simps [simp]:
  "allowed_source urls files (Base64 v)"
  "allowed_source urls files (Direct b)"
  by (simp_all add: allowed_source_def)

lemma load_record_url_allowed:
  "load_record_url rec urls files = Inr src \<Longrightarrow> allowed_source urls files src"
  by (auto simp: load_record_url_def load_url_def allowed_source_def
      split: option.splits pv.splits if_splits)

lemma load_image_bytes_allowed:
  assumes "load_image_bytes rec urls files = Inr src"
  shows "allowed_source urls files src"
proof -
  note run = assms[unfolded load_image_bytes.simps[of rec]]
  have source: "allowed_source urls files src"
    if r: "(case dget rec (lit ''source'') of
                Some (PDict source) \<Rightarrow>
                  (let sdata = (case dget source (lit ''data'') of None \<Rightarrow> PNone | Some v \<Rightarrow> v);
                       surl = (case dget source (lit ''url'') of None \<Rightarrow> PNone | Some v \<Rightarrow> v)
                   in if sdata \<noteq> PNone then Inr (Base64 sdata)
                      else if truthy surl then load_image_bytes [(lit ''url'', surl)] urls files
                      else load_record_url rec urls files)
              | _ \<Rightarrow> load_record_url rec urls files) = Inr src"
      and ih: "\<And>u. load_image_bytes [(lit ''url'', u)] urls files = Inr src \<Longrightarrow> allowed_source urls files src"
    using r ih
    by (auto simp: Let_def intro: load_record_url_allowed split: option.splits pv.splits if_splits)
  have ih: "allowed_source urls files src" if "load_image_bytes [(lit ''url'', u)] urls files = Inr src" for u
  proof -
    have "load_image_bytes [(lit ''url'', u)] urls files = load_record_url [(lit ''url'', u)] urls files"
      by (subst load_image_bytes.simps) (simp add: lit_def)
    with that show ?thesis by (simp add: load_record_url_allowed)
  qed
  show ?thesis
    using run source ih by (auto split: option.splits pv.splits)
qed

text \<open>
  C21: a record of a client cannot make the server open a URL or a file unless that was
  switched on: for every record the loader returns a network source only with
  \<open>fetch_urls\<close> and a file source only with \<open>fetch_files\<close>; with both off, the source
  is bytes the request carried.
\<close>

theorem image_sources_guarded:
  assumes "load_image_bytes rec urls files = Inr src"
  shows "case src of NetGet u \<Rightarrow> urls \<and> (starts_with (lit ''http://'') u \<or> starts_with (lit ''https://'') u)
         | ReadFile u \<Rightarrow> files \<and> \<not> starts_with (lit ''data:'') u
         | Base64 v \<Rightarrow> True | Direct b \<Rightarrow> True"
  using load_image_bytes_allowed[OF assms] by (simp add: allowed_source_def)

theorem image_sources_guarded_witness:
  "load_image_bytes [(lit ''source'', PDict [(lit ''url'', PStr (lit ''https://a/b.png''))])] True False
     = Inr (NetGet (lit ''https://a/b.png''))
   \<and> load_image_bytes [(lit ''url'', PStr (lit ''/etc/passwd''))] True False = Inl ValueError
   \<and> starts_with (lit ''http'') (lit ''https://a/b.png'')"
proof (intro conjI)
  show run: "load_image_bytes [(lit ''source'', PDict [(lit ''url'', PStr (lit ''https://a/b.png''))])] True False
     = Inr (NetGet (lit ''https://a/b.png''))"
    by code_simp
  show "load_image_bytes [(lit ''url'', PStr (lit ''/etc/passwd''))] True False = Inl ValueError"
    by code_simp
  from image_sources_guarded[OF run]
  show "starts_with (lit ''http'') (lit ''https://a/b.png'')"
    by (auto simp: starts_with_def lit_def)
qed

section \<open>Expansion of a prompt\<close>

text \<open>An image input describes the block that stands at its start position.\<close>

definition describes :: "int \<Rightarrow> int list \<Rightarrow> 'px image_input \<Rightarrow> bool" where
  "describes vocab tokens im \<longleftrightarrow>
     take (length (ii_types im)) (drop (ii_start im) tokens) = map (\<lambda>y. vocab + y) (ii_types im)
     \<and> ii_start im + length (ii_types im) \<le> length tokens
     \<and> (\<exists>h w. build_image_block h w (ii_start im) = (ii_types im, ii_perm im))"

lemma describes_append: "describes vocab tokens im \<Longrightarrow> describes vocab (tokens @ ys) im"
  by (auto simp: describes_def)

lemma describes_new:
  "build_image_block h w (length tokens) = (types, perm) \<Longrightarrow>
   describes vocab (tokens @ map (\<lambda>y. vocab + y) types)
     \<lparr> ii_start = length tokens, ii_patches = ps, ii_n_vit_h = a, ii_n_vit_w = b,
       ii_types = types, ii_perm = perm \<rparr>"
  by (auto simp: describes_def)

lemma build_image_block_types_nonneg:
  "y \<in> set (fst (build_image_block h w start)) \<Longrightarrow> 0 \<le> y"
proof -
  assume y: "y \<in> set (fst (build_image_block h w start))"
  have nn: "0 \<le> z" if "z \<in> set (block_types h w)" for z
    using that by (auto simp: block_types_def split: if_splits)
  have "block_types h w ! k \<in> set (block_types h w)" if "k \<in> set (block_order (h + h mod 2) (w + 1))" for k
  proof -
    have "set (block_order (h + h mod 2) (w + 1)) = {..<(h + h mod 2) * (w + 1)}"
      by (rule set_block_order) (simp_all add: rows_even)
    with that show ?thesis by (metis length_block_types lessThan_iff nth_mem)
  qed
  with y nn show ?thesis by (auto simp: build_image_block_def Let_def split: if_splits)
qed

lemma expand_loop_spec:
  assumes "expand_loop load vocab (Some ph) ts images tokens inputs = Some (Inr (out, ims))"
    and "list_all (\<lambda>t. t = ph \<or> t < vocab) ts" and "list_all (describes vocab tokens) inputs"
  shows "filter (\<lambda>t. t < vocab) out = filter (\<lambda>t. t < vocab) tokens @ filter (\<lambda>t. t \<noteq> ph) ts
    \<and> length ims = length inputs + count_list ts ph \<and> list_all (describes vocab out) ims"
  using assms
proof (induction ts arbitrary: images tokens inputs)
  case (Cons t ts)
  show ?case
  proof (cases "t = ph")
    case False
    with Cons.prems Cons.IH[of images "tokens @ [t]" inputs] show ?thesis
      by (auto simp: list_all_iff intro: describes_append)
  next
    case True
    with Cons.prems(1) obtain im rest patches nvh nw nlh nlw types perm where im: "images = im # rest"
      and ld: "load im = Some (Inr (patches, nvh, nw, nlh, nlw))" and nn: "\<not> (nlh < 0 \<or> nlw < 0)"
      and blk: "build_image_block (nat nlh) (nat nlw) (length tokens) = (types, perm)"
      and run: "expand_loop load vocab (Some ph) ts rest (tokens @ map (\<lambda>y. vocab + y) types)
           (inputs @ [\<lparr> ii_start = length tokens, ii_patches = patches, ii_n_vit_h = nvh,
                        ii_n_vit_w = nw, ii_types = types, ii_perm = perm \<rparr>]) = Some (Inr (out, ims))"
      by (auto split: list.splits option.splits sum.splits if_splits prod.splits)
    have "filter (\<lambda>t. t < vocab) (map (\<lambda>y. vocab + y) types) = []"
      using build_image_block_types_nonneg[of _ "nat nlh" "nat nlw" "length tokens"]
      by (auto simp: blk filter_empty_conv not_less)
    moreover have "list_all (describes vocab (tokens @ map (\<lambda>y. vocab + y) types))
        (inputs @ [\<lparr> ii_start = length tokens, ii_patches = patches, ii_n_vit_h = nvh,
                        ii_n_vit_w = nw, ii_types = types, ii_perm = perm \<rparr>])"
      using Cons.prems(3) describes_new[OF blk] by (auto simp: list_all_iff intro: describes_append)
    ultimately show ?thesis
      using Cons.IH[OF run] Cons.prems(2) True by simp
  qed
qed simp

text \<open>
  Expansion keeps the prompt.  If every ordinary token is below \<open>vocab_size\<close>, the result
  with the sentinel ids filtered out is the prompt without its placeholders, every placeholder has
  produced one image input, and each of them describes the block that stands at its recorded start
  in the final token list.
\<close>

theorem expansion_keeps_prompt:
  assumes "expand_image_placeholders load prompt_ids images vocab (Some ph) = Some (Inr (out, ims))"
    and "list_all (\<lambda>t. t = ph \<or> t < vocab) prompt_ids"
  shows "filter (\<lambda>t. t < vocab) out = filter (\<lambda>t. t \<noteq> ph) prompt_ids
    \<and> (case ims of None \<Rightarrow> count_list prompt_ids ph = 0
       | Some ims \<Rightarrow> length ims = count_list prompt_ids ph \<and> list_all (describes vocab out) ims)"
proof -
  obtain ims' where run: "expand_loop load vocab (Some ph) prompt_ids images [] [] = Some (Inr (out, ims'))"
    and ims: "ims = (if ims' = [] then None else Some ims')"
  proof (cases "expand_loop load vocab (Some ph) prompt_ids images [] []")
    case None
    then show ?thesis using assms(1) by (simp add: expand_image_placeholders_def)
  next
    case (Some r)
    then show ?thesis using assms(1) that
      by (cases r) (auto simp: expand_image_placeholders_def)
  qed
  from expand_loop_spec[OF run assms(2)] ims show ?thesis by (auto split: if_splits)
qed

theorem expansion_keeps_prompt_witness:
  "let load = (\<lambda>d :: int \<times> int. Some (Inr ([[[[fst d]]]], 3, 3, fst d, snd d)));
       out = [10, 101, 101, 100, 102, 102, 103, 103, 104, 11]
   in expand_image_placeholders load [10, 7, 11] [(2, 1)] 100 (Some 7)
        = Some (Inr (out, Some [\<lparr> ii_start = 1, ii_patches = [[[[2]]]], ii_n_vit_h = 3, ii_n_vit_w = 3,
              ii_types = [1, 1, 0, 2, 2, 3, 3, 4], ii_perm = [0, 1] \<rparr>]))
      \<and> filter (\<lambda>t. t < 100) out = filter (\<lambda>t. t \<noteq> 7) [10, 7, 11]"
proof -
  have run: "expand_image_placeholders (\<lambda>d :: int \<times> int. Some (Inr ([[[[fst d]]]], 3, 3, fst d, snd d)))
       [10, 7, 11] [(2, 1)] 100 (Some 7)
     = Some (Inr ([10, 101, 101, 100, 102, 102, 103, 103, 104, 11],
          Some [\<lparr> ii_start = 1, ii_patches = [[[[2]]]], ii_n_vit_h = 3, ii_n_vit_w = 3,
              ii_types = [1, 1, 0, 2, 2, 3, 3, 4], ii_perm = [0, 1] \<rparr>]))"
    by code_simp
  from expansion_keeps_prompt[OF run] run show ?thesis by (simp add: Let_def)
qed

end
