(* ===== verification/ChatEncode.thy ===== *)
theory ChatEncode
  imports ChatRender
begin

text \<open>
  The conversation half of \<open>serving/encoding_dsv4.py\<close>: tool messages merged into user
  messages, tool results put in the order of the calls, earlier reasoning dropped, image blocks
  replaced by placeholders, and the whole conversation written by \<open>encode_messages\<close>.
  The code copies messages before it changes them, so every step is a function of its input;
  identifiers are compared as values of one type.
\<close>

section \<open>Merging tool messages\<close>

definition tool_block :: "msg \<Rightarrow> pv" where
  "tool_block m = PDict
     [(lit ''type'', PStr (lit ''tool_result'')),
      (lit ''tool_use_id'', field_or m ''tool_call_id'' (PStr [])),
      (lit ''content'', field_or m ''content'' (PStr []))]"

definition text_block :: "pv \<Rightarrow> pv" where
  "text_block t = PDict [(lit ''type'', PStr (lit ''text'')), (lit ''text'', t)]"

definition open_user :: "msg list \<Rightarrow> bool" where
  "open_user merged \<longleftrightarrow> merged \<noteq> [] \<and> is_str (field (last merged) ''role'') ''user''
     \<and> dget (last merged) (lit ''content_blocks'') \<noteq> None"

text \<open>\<open>append\<close> and \<open>extend\<close> of the last message's block list.\<close>

definition extend_last :: "msg list \<Rightarrow> pv \<Rightarrow> py_error + msg list" where
  "extend_last merged new =
     (case dget (last merged) (lit ''content_blocks'') of
        Some (PList bs) \<Rightarrow> rbind (piter new) (\<lambda>xs.
          Inr (butlast merged @ [dset (lit ''content_blocks'') (PList (bs @ xs)) (last merged)]))
      | _ \<Rightarrow> Inl AttributeError)"

definition merge_step :: "msg list \<Rightarrow> msg \<Rightarrow> py_error + msg list" where
  "merge_step merged m =
     (let role = field m ''role''
      in if is_str role ''tool'' then
           (if open_user merged then extend_last merged (PList [tool_block m])
            else Inr (merged @ [[(lit ''role'', PStr (lit ''user'')),
                                 (lit ''content_blocks'', PList [tool_block m])]]))
         else if is_str role ''user'' then
           (let content_blocks =
                  (if field m ''content_blocks'' = PNone
                   then PList [text_block (field_or m ''content'' (PStr []))]
                   else field m ''content_blocks'')
            in if open_user merged \<and> field (last merged) ''task'' = PNone
               then extend_last merged content_blocks
               else Inr (merged @ [dset (lit ''content_blocks'') content_blocks m]))
         else Inr (merged @ [m]))"

definition merge_tool_messages :: "msg list \<Rightarrow> py_error + msg list" where
  "merge_tool_messages messages = rfold merge_step [] messages"

section \<open>Ordering tool results\<close>

definition call_id :: "pv \<Rightarrow> py_error + pv" where
  "call_id tc =
     rbind (pget tc (lit ''id'') PNone) (\<lambda>i.
       if truthy i then Inr i
       else rbind (pget tc (lit ''function'') (PDict [])) (\<lambda>f. pget f (lit ''id'') (PStr [])))"

definition call_order :: "pv \<Rightarrow> py_error + (pv, nat) dict" where
  "call_order tool_calls =
     rbind (piter tool_calls) (\<lambda>tcs.
       rfold (\<lambda>order (idx, tc). rbind (call_id tc) (\<lambda>i.
           if \<not> truthy i then Inr order
           else if \<not> hashable i then Inl TypeError
           else Inr (dset i idx order)))
         [] (enumerate 0 tcs))"

definition is_tool_result :: "pv \<Rightarrow> bool" where
  "is_tool_result b = (case b of PDict d \<Rightarrow> is_str (field d ''type'') ''tool_result'' | _ \<Rightarrow> False)"

definition result_key :: "(pv, nat) dict \<Rightarrow> pv \<Rightarrow> nat" where
  "result_key order b =
     (case b of PDict d \<Rightarrow> (case dget order (field_or d ''tool_use_id'' (PStr [])) of
                             None \<Rightarrow> 0 | Some i \<Rightarrow> i)
      | _ \<Rightarrow> 0)"

text \<open>Put the elements of a second list, in order, where the predicate holds in the first.\<close>

fun refill :: "('a \<Rightarrow> bool) \<Rightarrow> 'a list \<Rightarrow> 'a list \<Rightarrow> 'a list" where
  "refill P [] ys = []"
| "refill P (x # xs) ys =
     (if P x then (case ys of [] \<Rightarrow> [] | y # ys' \<Rightarrow> y # refill P xs ys') else x # refill P xs ys)"

definition sort_blocks :: "(pv, nat) dict \<Rightarrow> pv list \<Rightarrow> py_error + pv list option" where
  "sort_blocks order blocks =
     rbind (rmap (\<lambda>b. pget b (lit ''type'') PNone) blocks) (\<lambda>_.
       let tool_blocks = filter is_tool_result blocks
       in if length tool_blocks > 1 \<and> order \<noteq> [] then
            (if list_all (\<lambda>b. case b of PDict d \<Rightarrow> hashable (field_or d ''tool_use_id'' (PStr [])) | _ \<Rightarrow> True)
                  tool_blocks
             then Inr (Some (refill is_tool_result blocks (sort_key (result_key order) tool_blocks)))
             else Inl TypeError)
          else Inr None)"

definition sort_step ::
  "(pv, nat) dict \<times> msg list \<Rightarrow> msg \<Rightarrow> py_error + ((pv, nat) dict \<times> msg list)" where
  "sort_step st m =
     (case st of (order, out) \<Rightarrow>
        if is_str (field m ''role'') ''assistant'' \<and> truthy (field m ''tool_calls'') then
          rbind (call_order (field m ''tool_calls'')) (\<lambda>order'. Inr (order', out @ [m]))
        else if is_str (field m ''role'') ''user'' \<and> truthy (field m ''content_blocks'') then
          rbind (piter (field m ''content_blocks'')) (\<lambda>blocks.
          rbind (sort_blocks order blocks) (\<lambda>r.
            Inr (order, out @ [case r of None \<Rightarrow> m
                               | Some bs \<Rightarrow> dset (lit ''content_blocks'') (PList bs) m])))
        else Inr (order, out @ [m]))"

definition sort_tool_results_by_call_order :: "msg list \<Rightarrow> py_error + msg list" where
  "sort_tool_results_by_call_order messages =
     rbind (rfold sort_step ([], []) messages) (\<lambda>(order, out). Inr out)"

section \<open>Dropping earlier reasoning\<close>

definition keep_roles :: "pv list" where
  "keep_roles = map (\<lambda>s. PStr (lit s))
     [''user'', ''system'', ''tool'', ''latest_reminder'', ''direct_search_results'']"

definition drop_one :: "int \<Rightarrow> nat \<times> msg \<Rightarrow> msg list" where
  "drop_one last_user_idx = (\<lambda>(idx, m).
     if field m ''role'' \<in> set keep_roles \<or> int idx \<ge> last_user_idx then [m]
     else if is_str (field m ''role'') ''assistant'' then [ddel (lit ''reasoning_content'') m]
     else [])"

definition drop_thinking_messages :: "msg list \<Rightarrow> py_error + msg list" where
  "drop_thinking_messages messages =
     (if list_all (\<lambda>m. hashable (field m ''role'')) messages
      then Inr (concat (map (drop_one (find_last_user_index messages)) (enumerate 0 messages)))
      else Inl TypeError)"

section \<open>The text of a conversation\<close>

text \<open>
  With a context, the first sort runs over the context and the new messages together and
  rewrites the context's messages in place; these are then merged and sorted on their own.
\<close>

definition prepare :: "msg list \<Rightarrow> msg list \<Rightarrow> py_error + (msg list \<times> msg list)" where
  "prepare context messages =
     rbind (merge_tool_messages messages) (\<lambda>merged.
     rbind (sort_tool_results_by_call_order (context @ merged)) (\<lambda>sorted_all.
     rbind (if context = [] then Inr []
            else rbind (merge_tool_messages (take (length context) sorted_all))
                   sort_tool_results_by_call_order) (\<lambda>context'.
       Inr (context', drop (length context) sorted_all))))"

definition render_range ::
  "pylib \<Rightarrow> msg list \<Rightarrow> pystr \<Rightarrow> bool \<Rightarrow> pystr option \<Rightarrow> nat \<Rightarrow> nat \<Rightarrow> py_error + pystr" where
  "render_range L full mode dropping effort from num =
     rbind (rmap (\<lambda>idx. render_message L (idx + from) full mode dropping effort) [0..<num])
       (\<lambda>ts. Inr (concat ts))"

definition any_tools :: "msg list \<Rightarrow> bool" where
  "any_tools ms \<longleftrightarrow> list_ex (\<lambda>m. truthy (field m ''tools'')) ms"

definition encode_messages_text ::
  "pylib \<Rightarrow> msg list \<Rightarrow> pystr \<Rightarrow> msg list \<Rightarrow> bool \<Rightarrow> bool \<Rightarrow> pystr option \<Rightarrow> py_error + pystr" where
  "encode_messages_text L messages mode context drop_thinking add_bos effort =
     rbind (prepare context messages) (\<lambda>(context, messages).
       let full = context @ messages;
           prompt = (if add_bos \<and> context = [] then bos_token else []);
           dropping = drop_thinking \<and> \<not> any_tools full
       in rbind (if mode = lit ''thinking'' \<and> dropping
                 then rbind (drop_thinking_messages full) (\<lambda>full'.
                      rbind (drop_thinking_messages context) (\<lambda>context'.
                        let num_to_render = length full' - length context'
                        in Inr (full', length full' - num_to_render, num_to_render)))
                 else Inr (full, length context, length messages)) (\<lambda>(full, from, num).
            rbind (render_range L full mode dropping effort from num) (\<lambda>t. Inr (prompt @ t))))"

section \<open>Images in messages\<close>

text \<open>
  \<open>finditer\<close> of \<open><image>(.*?)</image>\<close>: the text before each tag with the tag's path, and
  the text after the last tag.
\<close>

definition image_open :: pystr where "image_open = lit ''<image>''"
definition image_close :: pystr where "image_close = lit ''</image>''"

function tag_segments :: "pystr \<Rightarrow> (pystr \<times> pystr) list \<times> pystr" where
  "tag_segments s =
     (case str_find image_open s of
        None \<Rightarrow> ([], s)
      | Some i \<Rightarrow>
          (let t = drop (i + length image_open) s
           in case str_find image_close t of
                None \<Rightarrow> ([], s)
              | Some j \<Rightarrow>
                  (let (segs, rest) = tag_segments (drop (j + length image_close) t)
                   in ((take i s, take j t) # segs, rest))))"
  by pat_completeness auto
termination
proof (relation "measure length")
  fix s i t j
  assume "str_find image_open s = Some i" "t = drop (i + length image_open) s" "str_find image_close t = Some j"
  then have "starts_with image_open (drop i s)" "t = drop (i + length image_open) s"
    using str_find_Some by blast+
  moreover have "0 < length s"
  proof (rule ccontr)
    assume "\<not> 0 < length s"
    with \<open>starts_with image_open (drop i s)\<close> show False
      by (simp add: starts_with_def image_open_def lit_def)
  qed
  ultimately show "(drop (j + length image_close) t, s) \<in> measure length"
    by (simp add: image_open_def)
qed simp

declare tag_segments.simps [simp del]

definition image_url_block :: "pystr \<Rightarrow> pv" where
  "image_url_block path = PDict [(lit ''type'', PStr (lit ''image_url'')),
     (lit ''image_url'', PDict [(lit ''url'', PStr path)])]"

definition parse_tagged_text :: "pystr \<Rightarrow> py_error + pv" where
  "parse_tagged_text text =
     (let (segs, rest) = tag_segments text;
          remaining = concat (map fst segs) @ rest
      in if str_in image_open remaining \<or> str_in image_close remaining then Inl ValueError
         else if segs = [] then Inr (PStr text)
         else if list_ex (\<lambda>p. snd p = []) segs then Inl ValueError
         else Inr (PList (concat (map (\<lambda>(before, path).
                (if before = [] then [] else [text_block (PStr before)]) @ [image_url_block path]) segs)
              @ (if rest = [] then [] else [text_block (PStr rest)]))))"

definition is_image_block :: "msg \<Rightarrow> bool" where
  "is_image_block d \<longleftrightarrow> is_str (field d ''type'') ''image'' \<or> is_str (field d ''type'') ''image_url''"

definition extract_image :: "msg \<Rightarrow> py_error + msg" where
  "extract_image d =
     (let base = [(lit ''type'', PStr (lit ''image''))]
      in rbind (if is_str (field d ''type'') ''image_url'' then
                  (case field d ''image_url'' of
                     PStr u \<Rightarrow> Inr (base @ [(lit ''url'', PStr u)])
                   | v \<Rightarrow> rbind (pget (if truthy v then v else PDict []) (lit ''url'') (PStr [])) (\<lambda>u.
                            Inr (base @ [(lit ''url'', u)])))
                else Inr (base @ concat (map (\<lambda>k. case dget d (lit k) of None \<Rightarrow> [] | Some v \<Rightarrow> [(lit k, v)])
                       [''source'', ''url'', ''data'']))) (\<lambda>rec.
           if list_ex (\<lambda>k. truthy (field rec k)) [''source'', ''url'', ''data''] then Inr rec
           else Inl ValueError))"

text \<open>\<open>IMAGE_PLACEHOLDER in text\<close> for a value that need not be text.\<close>

fun mentions_placeholder :: "pv \<Rightarrow> py_error + bool" where
  "mentions_placeholder (PStr s) = Inr (str_in IMAGE_PLACEHOLDER s)"
| "mentions_placeholder (PList xs) = Inr (PStr IMAGE_PLACEHOLDER \<in> set xs)"
| "mentions_placeholder (PDict d) = Inr (IMAGE_PLACEHOLDER \<in> set (dkeys d))"
| "mentions_placeholder _ = Inl TypeError"

definition check_text_block :: "msg \<Rightarrow> py_error + unit" where
  "check_text_block d =
     rbind (mentions_placeholder (str_or_empty (field d ''text''))) (\<lambda>bad.
       if bad then Inl ValueError else Inr ())"

lemma dget_size: "dget d k = Some v \<Longrightarrow> size v < size (PDict d)"
proof -
  assume "dget d k = Some v"
  then have "(k, v) \<in> set d" by (rule map_of_SomeD)
  moreover have "size v \<le> size_prod (\<lambda>x. 0) size (k, v)" by simp
  ultimately have "size v \<le> size_list (size_prod (\<lambda>x. 0) size) d"
    by (rule size_list_estimation')
  then show ?thesis by simp
qed

function process_image_blocks :: "pv list \<Rightarrow> py_error + (pv list \<times> pv list)" where
  "process_image_blocks [] = Inr ([], [])"
| "process_image_blocks (b # bs) =
     rbind (case b of
         PDict d \<Rightarrow>
           (if is_image_block d then
              rbind (extract_image d) (\<lambda>r. Inr (text_block (PStr IMAGE_PLACEHOLDER), [PDict r]))
            else if is_str (field d ''type'') ''tool_result'' then
              (case dget d (lit ''content'') of
                 Some (PList c) \<Rightarrow> rbind (process_image_blocks c) (\<lambda>(c', ims).
                     Inr (PDict (dset (lit ''content'') (PList c') d), ims))
               | _ \<Rightarrow> Inr (b, []))
            else if is_str (field d ''type'') ''text'' then
              rbind (check_text_block d) (\<lambda>_. Inr (b, []))
            else Inr (b, []))
       | _ \<Rightarrow> Inr (b, []))
     (\<lambda>(b', ims). rbind (process_image_blocks bs) (\<lambda>(bs', ims'). Inr (b' # bs', ims @ ims')))"
  by pat_completeness auto
termination
  by (relation "measure (size_list size)") (auto dest!: dget_size)

definition validate_no_image_sp_tokens :: "msg \<Rightarrow> py_error + unit" where
  "validate_no_image_sp_tokens m =
     (case field m ''content'' of
        PStr s \<Rightarrow> if str_in IMAGE_PLACEHOLDER s then Inl ValueError
                  else (case field m ''reasoning_content'' of
                          PStr r \<Rightarrow> if str_in IMAGE_PLACEHOLDER r then Inl ValueError else Inr ()
                        | _ \<Rightarrow> Inr ())
      | _ \<Rightarrow> (case field m ''reasoning_content'' of
                PStr r \<Rightarrow> if str_in IMAGE_PLACEHOLDER r then Inl ValueError else Inr ()
              | _ \<Rightarrow> Inr ()))"

definition lift_content_blocks :: "msg \<Rightarrow> msg" where
  "lift_content_blocks m =
     (case dget m (lit ''content'') of
        Some (PList bs) \<Rightarrow>
          (if dget m (lit ''content_blocks'') = None
           then dset (lit ''content_blocks'') (PList bs) (ddel (lit ''content'') m) else m)
      | _ \<Rightarrow> m)"

definition block_texts :: "pv list \<Rightarrow> pv list" where
  "block_texts bs = concat (map (\<lambda>b. case b of
       PDict d \<Rightarrow> if is_str (field d ''type'') ''text'' then [field_or d ''text'' (PStr [])] else []
     | _ \<Rightarrow> []) bs)"

definition process_image_message :: "msg \<Rightarrow> py_error + (msg \<times> pv list)" where
  "process_image_message m0 =
     rbind (validate_no_image_sp_tokens m0) (\<lambda>_.
       let m = lift_content_blocks m0
       in if truthy (field m ''content_blocks'') then
            rbind (piter (field m ''content_blocks'')) (\<lambda>bs.
            rbind (process_image_blocks bs) (\<lambda>(bs', ims).
              let m = dset (lit ''content_blocks'') (PList bs') m
              in if is_text (field m ''content'') then Inr (m, ims)
                 else rbind (join_parts (block_texts bs')) (\<lambda>t.
                        Inr (dset (lit ''content'') (PStr t) m, ims))))
          else Inr (m, []))"

definition process_image_messages :: "msg list \<Rightarrow> py_error + (msg list \<times> pv list)" where
  "process_image_messages messages =
     rbind (rmap process_image_message messages) (\<lambda>rs.
       Inr (map fst rs, concat (map snd rs)))"

section \<open>The entry point\<close>

text \<open>
  The pair of the prompt and its images; a text-only call returns the first component.
\<close>

definition encode_messages ::
  "pylib \<Rightarrow> msg list \<Rightarrow> pystr \<Rightarrow> msg list \<Rightarrow> bool \<Rightarrow> bool \<Rightarrow> pystr option \<Rightarrow> py_error + (pystr \<times> pv list)" where
  "encode_messages L messages mode context drop_thinking add_bos effort =
     rbind (process_image_messages context) (\<lambda>(processed_context, _).
     rbind (process_image_messages messages) (\<lambda>(processed, images).
     rbind (encode_messages_text L processed mode processed_context drop_thinking add_bos effort) (\<lambda>prompt.
       Inr (prompt, images))))"

end
