(* ===== verification/ChatHistory.thy ===== *)
theory ChatHistory
  imports ChatEncode
begin

text \<open>
  What the conversation half of \<open>serving/encoding_dsv4.py\<close> guarantees: merging tool messages
  and ordering tool results lose nothing, every image becomes exactly one placeholder, and a
  continued conversation has the same text as the conversation rendered whole.
\<close>

section \<open>Fields of updated messages\<close>

lemma lit_inj [simp]: "lit a = lit b \<longleftrightarrow> a = b"
proof
  assume "lit a = lit b"
  then have "map (char_of :: int \<Rightarrow> char) (lit a) = map char_of (lit b)" by simp
  then show "a = b" by (simp add: lit_def comp_def)
qed simp

lemma field_dset [simp]: "field (dset (lit k) v m) k' = (if k = k' then v else field m k')"
  by (auto simp: field_def dget_dset)

lemma field_ddel [simp]: "field (ddel (lit k) m) k' = (if k = k' then PNone else field m k')"
  by (auto simp: field_def dget_ddel)

lemma is_str_lit [simp]: "is_str (PStr (lit a)) b \<longleftrightarrow> a = b"
  by (simp add: is_str_def)

lemma is_str_unique: "is_str v a \<Longrightarrow> is_str v b \<longleftrightarrow> a = b"
  by (auto simp: is_str_def)

section \<open>Merging tool messages\<close>

definition elems :: "pv \<Rightarrow> pv list" where
  "elems v = (case piter v of Inr xs \<Rightarrow> xs | Inl _ \<Rightarrow> [])"

text \<open>The content blocks a message brings into the conversation, and those it carries after merging.\<close>

definition contributed :: "msg \<Rightarrow> pv list" where
  "contributed m =
     (if is_str (field m ''role'') ''tool'' then [tool_block m]
      else if is_str (field m ''role'') ''user'' then
        (if field m ''content_blocks'' = PNone then [text_block (field_or m ''content'' (PStr []))]
         else elems (field m ''content_blocks''))
      else [])"

definition carried :: "msg \<Rightarrow> pv list" where
  "carried m = (if is_str (field m ''role'') ''user'' then elems (field m ''content_blocks'') else [])"

definition is_turn :: "msg \<Rightarrow> bool" where
  "is_turn m \<longleftrightarrow> is_str (field m ''role'') ''user'' \<or> is_str (field m ''role'') ''tool''"

definition no_tools :: "msg list \<Rightarrow> bool" where
  "no_tools ms \<longleftrightarrow> list_all (\<lambda>m. \<not> is_str (field m ''role'') ''tool'') ms"

lemma extend_last_spec:
  assumes e: "extend_last M new = Inr M'" and o: "open_user M"
  shows "concat (map carried M') = concat (map carried M) @ elems new
    \<and> filter (\<lambda>m. \<not> is_turn m) M' = filter (\<lambda>m. \<not> is_turn m) M \<and> no_tools M' = no_tools M
    \<and> M' \<noteq> []"
proof -
  obtain bs xs where bs: "dget (last M) (lit ''content_blocks'') = Some (PList bs)" and xs: "piter new = Inr xs"
    and M': "M' = butlast M @ [dset (lit ''content_blocks'') (PList (bs @ xs)) (last M)]"
    using e by (auto simp: extend_last_def rbind_Inr_iff split: option.splits pv.splits)
  have M: "M = butlast M @ [last M]" and u: "is_str (field (last M) ''role'') ''user''"
    using o by (simp_all add: open_user_def)
  have f: "field (last M) ''content_blocks'' = PList bs" by (simp add: field_def bs)
  define l where "l = dset (lit ''content_blocks'') (PList (bs @ xs)) (last M)"
  have l: "carried l = carried (last M) @ elems new" "is_turn l" "is_turn (last M)"
    "is_str (field l ''role'') ''tool'' = is_str (field (last M) ''role'') ''tool''"
    using u by (simp_all add: l_def carried_def elems_def f xs is_turn_def)
  have "concat (map carried (butlast M @ [last M])) @ elems new = concat (map carried M')"
    by (simp add: M' l_def[symmetric] l)
  moreover have "filter (\<lambda>m. \<not> is_turn m) (butlast M @ [last M]) = filter (\<lambda>m. \<not> is_turn m) M'"
    by (simp add: M' l_def[symmetric] l)
  moreover have "no_tools (butlast M @ [last M]) = no_tools M'"
    by (simp add: M' l_def[symmetric] l no_tools_def)
  ultimately show ?thesis using M M' by simp
qed

lemma merge_step_spec:
  assumes "merge_step M m = Inr M'"
  shows "concat (map carried M') = concat (map carried M) @ contributed m
    \<and> filter (\<lambda>m. \<not> is_turn m) M' = filter (\<lambda>m. \<not> is_turn m) M @ (if is_turn m then [] else [m])
    \<and> (no_tools M \<longrightarrow> no_tools M')"
proof -
  consider (tool) "is_str (field m ''role'') ''tool''" | (user) "is_str (field m ''role'') ''user''"
    | (other) "\<not> is_turn m" by (auto simp: is_turn_def)
  then show ?thesis
  proof cases
    case tool
    then have e: "elems (PList [tool_block m]) = contributed m" and t: "is_turn m"
      by (simp_all add: elems_def contributed_def is_turn_def)
    show ?thesis
    proof (cases "open_user M")
      case True
      then have "extend_last M (PList [tool_block m]) = Inr M'"
        using assms tool by (simp add: merge_step_def Let_def)
      from extend_last_spec[OF this True] e t show ?thesis by auto
    next
      case False
      then have "M' = M @ [[(lit ''role'', PStr (lit ''user'')), (lit ''content_blocks'', PList [tool_block m])]]"
        using assms tool by (simp add: merge_step_def Let_def)
      then show ?thesis using t tool
        by (simp add: carried_def field_def elems_def contributed_def is_turn_def no_tools_def)
    qed
  next
    case user
    define cb where "cb = (if field m ''content_blocks'' = PNone
                   then PList [text_block (field_or m ''content'' (PStr []))]
                   else field m ''content_blocks'')"
    have e: "elems cb = contributed m" and t: "is_turn m" and nt: "\<not> is_str (field m ''role'') ''tool''"
      using user by (auto simp: cb_def elems_def contributed_def is_turn_def is_str_def)
    have step: "merge_step M m = (if open_user M \<and> field (last M) ''task'' = PNone
        then extend_last M cb else Inr (M @ [dset (lit ''content_blocks'') cb m]))"
      unfolding merge_step_def Let_def cb_def using user nt by (simp only: if_True if_False)
    show ?thesis
    proof (cases "open_user M \<and> field (last M) ''task'' = PNone")
      case True
      then have "extend_last M cb = Inr M'" using assms step by simp
      from extend_last_spec[OF this] True e t show ?thesis by auto
    next
      case False
      then have "M' = M @ [dset (lit ''content_blocks'') cb m]" using assms unfolding step by auto
      then show ?thesis using t user nt e
        by (simp add: carried_def is_turn_def no_tools_def)
    qed
  next
    case other
    then have "M' = M @ [m]" using assms by (auto simp: merge_step_def Let_def is_turn_def)
    with other show ?thesis
      by (auto simp: carried_def contributed_def is_turn_def no_tools_def)
  qed
qed

lemma rfold_merge_spec:
  "rfold merge_step M ms = Inr out \<Longrightarrow>
     concat (map carried out) = concat (map carried M) @ concat (map contributed ms)
   \<and> filter (\<lambda>m. \<not> is_turn m) out = filter (\<lambda>m. \<not> is_turn m) M @ filter (\<lambda>m. \<not> is_turn m) ms
   \<and> (no_tools M \<longrightarrow> no_tools out)"
proof (induction ms arbitrary: M)
  case (Cons m ms)
  then obtain M' where M': "merge_step M m = Inr M'" "rfold merge_step M' ms = Inr out"
    by (auto simp: rbind_Inr_iff)
  from merge_step_spec[OF M'(1)] Cons.IH[OF M'(2)] show ?case by auto
qed simp

lemma merge_keeps:
  assumes "merge_tool_messages messages = Inr merged"
  shows "concat (map carried merged) = concat (map contributed messages)
    \<and> filter (\<lambda>m. \<not> is_turn m) merged = filter (\<lambda>m. \<not> is_turn m) messages
    \<and> no_tools merged"
  using rfold_merge_spec[of "[]" messages merged] assms
  by (simp add: merge_tool_messages_def no_tools_def)

text \<open>
  Merging tool messages loses nothing and settles the roles.  The merged conversation carries
  exactly the text blocks, tool results and content blocks of the original messages in their order,
  every other message is kept as it was, and no message with the role \<open>tool\<close> is left, so
  the renderer's \<open>NotImplementedError\<close> for that role cannot arise.
\<close>

theorem merge_keeps_content:
  assumes "merge_tool_messages messages = Inr merged"
  shows "concat (map carried merged) = concat (map contributed messages)
    \<and> filter (\<lambda>m. \<not> is_turn m) merged = filter (\<lambda>m. \<not> is_turn m) messages
    \<and> no_tools merged"
  by (rule merge_keeps[OF assms])

definition tool_turn :: "string \<Rightarrow> string \<Rightarrow> msg" where
  "tool_turn i c = [(lit ''role'', PStr (lit ''tool'')), (lit ''tool_call_id'', PStr (lit i)),
                    (lit ''content'', PStr (lit c))]"

theorem merge_keeps_content_witness:
  "let u = [(lit ''role'', PStr (lit ''user'')), (lit ''content'', PStr (lit ''q''))] :: msg;
       merged = [[(lit ''role'', PStr (lit ''user'')),
                  (lit ''content_blocks'', PList [tool_block (tool_turn ''a'' ''1''),
                      tool_block (tool_turn ''b'' ''2''), text_block (PStr (lit ''q''))])]]
   in merge_tool_messages [tool_turn ''a'' ''1'', tool_turn ''b'' ''2'', u] = Inr merged
      \<and> concat (map carried merged) = concat (map contributed [tool_turn ''a'' ''1'', tool_turn ''b'' ''2'', u])
      \<and> no_tools merged"
proof -
  have "merge_tool_messages [tool_turn ''a'' ''1'', tool_turn ''b'' ''2'',
       [(lit ''role'', PStr (lit ''user'')), (lit ''content'', PStr (lit ''q''))]]
     = Inr [[(lit ''role'', PStr (lit ''user'')),
                  (lit ''content_blocks'', PList [tool_block (tool_turn ''a'' ''1''),
                      tool_block (tool_turn ''b'' ''2''), text_block (PStr (lit ''q''))])]]"
    by code_simp
  from merge_keeps_content[OF this] this show ?thesis unfolding Let_def by blast
qed

section \<open>Ordering tool results\<close>

lemma refill_spec:
  assumes "length ys = length (filter P xs)" "list_all P ys"
  shows "filter P (refill P xs ys) = ys
    \<and> map (\<lambda>x. if P x then None else Some x) (refill P xs ys) = map (\<lambda>x. if P x then None else Some x) xs
    \<and> mset (refill P xs ys) = mset (filter (\<lambda>x. \<not> P x) xs) + mset ys"
  using assms by (induction P xs ys rule: refill.induct) (auto split: if_splits list.splits)

text \<open>
  The tool results of a message are put in the order of the calls they answer.  The blocks are
  a permutation of the original ones, blocks of other types keep their positions, the results are
  sorted by the index of their call, and results of the same index keep their relative order.
\<close>

theorem tool_results_follow_calls:
  assumes "sort_blocks order blocks = Inr (Some blocks')"
  shows "mset blocks' = mset blocks
    \<and> map (\<lambda>b. if is_tool_result b then None else Some b) blocks'
        = map (\<lambda>b. if is_tool_result b then None else Some b) blocks
    \<and> sorted (map (result_key order) (filter is_tool_result blocks'))
    \<and> filter (\<lambda>b. is_tool_result b \<and> result_key order b = i) blocks'
        = filter (\<lambda>b. is_tool_result b \<and> result_key order b = i) blocks"
proof -
  let ?tools = "filter is_tool_result blocks" and ?k = "result_key order"
  have b': "blocks' = refill is_tool_result blocks (sort_key ?k ?tools)"
    using assms by (auto simp: sort_blocks_def rbind_Inr_iff Let_def split: if_splits)
  have sp: "filter is_tool_result blocks' = sort_key ?k ?tools
    \<and> map (\<lambda>x. if is_tool_result x then None else Some x) blocks' = map (\<lambda>x. if is_tool_result x then None else Some x) blocks
    \<and> mset blocks' = mset (filter (\<lambda>x. \<not> is_tool_result x) blocks) + mset (sort_key ?k ?tools)"
    unfolding b' by (rule refill_spec) (auto simp: list_all_iff)
  have "mset blocks' = mset blocks" 
    using sp multiset_partition[of "mset blocks" is_tool_result] by (simp add: add.commute)
  moreover have "filter (\<lambda>b. ?k b = i) (filter is_tool_result blocks') = filter (\<lambda>b. ?k b = i) ?tools"
    using sp sort_key_stable[of ?k i ?tools] by simp
  moreover have "filter (\<lambda>b. is_tool_result b \<and> ?k b = i) zs = filter (\<lambda>b. ?k b = i) (filter is_tool_result zs)" for zs
    by simp
  ultimately show ?thesis using sp by (simp only: simp_thms sorted_sort_key)
qed

definition result_block :: "string \<Rightarrow> pv" where
  "result_block i = PDict [(lit ''type'', PStr (lit ''tool_result'')), (lit ''tool_use_id'', PStr (lit i))]"

theorem tool_results_follow_calls_witness:
  "let order = [(PStr (lit ''a''), 0), (PStr (lit ''b''), 1)] :: (pv, nat) dict;
       blocks = [result_block ''b'', text_block (PStr (lit ''t'')), result_block ''a''];
       blocks' = [result_block ''a'', text_block (PStr (lit ''t'')), result_block ''b'']
   in sort_blocks order blocks = Inr (Some blocks') \<and> mset blocks' = mset blocks
      \<and> sorted (map (result_key order) (filter is_tool_result blocks'))"
proof -
  have "sort_blocks [(PStr (lit ''a''), 0), (PStr (lit ''b''), 1)]
      [result_block ''b'', text_block (PStr (lit ''t'')), result_block ''a'']
    = Inr (Some [result_block ''a'', text_block (PStr (lit ''t'')), result_block ''b''])"
    by code_simp
  from tool_results_follow_calls[OF this] this show ?thesis unfolding Let_def by blast
qed

section \<open>Images\<close>

text \<open>
  Image blocks of a message, and text blocks that contain the placeholder, both counted through
  the content lists of tool results.
\<close>

definition says_placeholder :: "msg \<Rightarrow> bool" where
  "says_placeholder d \<longleftrightarrow> mentions_placeholder (str_or_empty (field d ''text'')) = Inr True"

function image_count :: "pv list \<Rightarrow> nat" where
  "image_count [] = 0"
| "image_count (b # bs) =
     (case b of PDict d \<Rightarrow>
        (if is_image_block d then 1
         else if is_str (field d ''type'') ''tool_result'' then
           (case dget d (lit ''content'') of Some (PList c) \<Rightarrow> image_count c | _ \<Rightarrow> 0)
         else 0)
      | _ \<Rightarrow> 0) + image_count bs"
  by pat_completeness auto
termination
  by (relation "measure (size_list size)") (auto dest!: dget_size)

function slot_count :: "pv list \<Rightarrow> nat" where
  "slot_count [] = 0"
| "slot_count (b # bs) =
     (case b of PDict d \<Rightarrow>
        (if is_str (field d ''type'') ''tool_result'' then
           (case dget d (lit ''content'') of Some (PList c) \<Rightarrow> slot_count c | _ \<Rightarrow> 0)
         else if is_str (field d ''type'') ''text'' \<and> says_placeholder d then 1
         else 0)
      | _ \<Rightarrow> 0) + slot_count bs"
  by pat_completeness auto
termination
  by (relation "measure (size_list size)") (auto dest!: dget_size)

definition images_replaced :: "pv list \<Rightarrow> pv list \<Rightarrow> pv list \<Rightarrow> bool" where
  "images_replaced blocks blocks' images \<longleftrightarrow>
     slot_count blocks' = length images \<and> image_count blocks = length images
     \<and> image_count blocks' = 0 \<and> length blocks' = length blocks"

lemma placeholder_block:
  "slot_count (text_block (PStr IMAGE_PLACEHOLDER) # bs) = Suc (slot_count bs)"
  "image_count (text_block (PStr IMAGE_PLACEHOLDER) # bs) = image_count bs"
proof -
  have "str_in IMAGE_PLACEHOLDER IMAGE_PLACEHOLDER" unfolding str_in_iff by (metis append_Nil append_Nil2)
  then show "slot_count (text_block (PStr IMAGE_PLACEHOLDER) # bs) = Suc (slot_count bs)"
    by (simp add: text_block_def field_def says_placeholder_def str_or_empty_def)
       (simp add: IMAGE_PLACEHOLDER_def special_def lit_def)
  show "image_count (text_block (PStr IMAGE_PLACEHOLDER) # bs) = image_count bs"
    by (simp add: text_block_def field_def is_image_block_def)
qed

lemma images_replaced_Cons:
  assumes "images_replaced bs bs' ims" "images_replaced [b] [b'] is"
  shows "images_replaced (b # bs) (b' # bs') (is @ ims)"
  using assms by (auto simp: images_replaced_def)

lemma process_image_blocks_spec:
  "process_image_blocks blocks = Inr (blocks', images) \<Longrightarrow> images_replaced blocks blocks' images"
proof (induction blocks arbitrary: blocks' images rule: process_image_blocks.induct)
  case 1
  then show ?case by (simp add: images_replaced_def)
next
  case (2 b bs)
  obtain b' im bs' ims where rest: "process_image_blocks bs = Inr (bs', ims)"
    and out: "blocks' = b' # bs'" "images = im @ ims"
    and head: "(case b of
         PDict d \<Rightarrow>
           (if is_image_block d then
              rbind (extract_image d) (\<lambda>r. Inr (text_block (PStr IMAGE_PLACEHOLDER), [PDict r]))
            else if is_str (field d ''type'') ''tool_result'' then
              (case dget d (lit ''content'') of
                 Some (PList c) \<Rightarrow> rbind (process_image_blocks c) (\<lambda>(c', ims).
                     Inr (PDict (dset (lit ''content'') (PList c') d), ims))
               | _ \<Rightarrow> Inr (b, []))
            else if is_str (field d ''type'') ''text'' then
              rbind (check_text_block d) (\<lambda>_. Inr (b, []))
            else Inr (b, []))
       | _ \<Rightarrow> Inr (b, [])) = Inr (b', im)"
    using "2.prems" by (auto simp: rbind_Inr_iff)
  have tail: "images_replaced bs bs' ims"
    using "2.IH"(2) rest head by blast
  have "images_replaced [b] [b'] im"
  proof (cases "\<exists>d. b = PDict d")
    case False
    then have "b' = b" "im = []" using head by (auto split: pv.splits)
    with False show ?thesis by (auto simp: images_replaced_def split: pv.splits)
  next
    case True
    then obtain d where b: "b = PDict d" by blast
    consider (image) "is_image_block d"
      | (list) c where "\<not> is_image_block d" "is_str (field d ''type'') ''tool_result''"
          "dget d (lit ''content'') = Some (PList c)"
      | (other) "\<not> is_image_block d" "is_str (field d ''type'') ''tool_result''"
          "\<nexists>c. dget d (lit ''content'') = Some (PList c)"
      | (textual) "\<not> is_image_block d" "is_str (field d ''type'') ''text''"
      | (rest) "\<not> is_image_block d" "\<not> is_str (field d ''type'') ''tool_result''"
          "\<not> is_str (field d ''type'') ''text''"
      by blast
    then show ?thesis
    proof cases
      case image
      then have "b' = text_block (PStr IMAGE_PLACEHOLDER)" "length im = 1"
        using head b by (auto simp: rbind_Inr_iff)
      then have "slot_count [b'] = 1" "image_count [b'] = 0" "length im = 1"
        using placeholder_block[of "[]"] by (simp_all only: slot_count.simps(1) image_count.simps(1) One_nat_def)
      moreover have "image_count [b] = 1" using image by (simp add: b)
      ultimately show ?thesis by (simp only: images_replaced_def list.size)
    next
      case (list c)
      then obtain c' where pc: "process_image_blocks c = Inr (c', im)"
        and b': "b' = PDict (dset (lit ''content'') (PList c') d)"
        using head b by (auto simp: rbind_Inr_iff)
      have ih: "images_replaced c c' im"
        by (rule "2.IH"(1)[OF b _ _ list(3) refl pc]) (use list in simp_all)
      have "\<not> is_image_block (dset (lit ''content'') (PList c') d)"
        using list by (simp add: is_image_block_def)
      with ih list show ?thesis by (simp add: images_replaced_def b b' dget_dset)
    next
      case other
      then have "b' = b" "im = []" using head b by (auto split: option.splits pv.splits)
      with other show ?thesis
        by (auto simp: images_replaced_def b split: option.splits pv.splits)
    next
      case textual
      have nt: "\<not> is_str (field d ''type'') ''tool_result''" using textual(2) by (simp add: is_str_unique)
      then have out: "b' = b" "im = []" "\<not> says_placeholder d"
        using head b textual by (auto simp: rbind_Inr_iff check_text_block_def says_placeholder_def split: if_splits)
      with textual nt show ?thesis by (simp add: images_replaced_def b)
    next
      case rest
      then have "b' = b" "im = []" using head b by auto
      with rest show ?thesis by (simp add: images_replaced_def b)
    qed
  qed
  from images_replaced_Cons[OF tail this] show ?case by (simp add: out)
qed

text \<open>
  Every image of a message becomes one placeholder and no other text block can say it: after
  processing, the text blocks that contain the placeholder (tool results included) are exactly as
  many as the image records returned, which are as many as the image blocks of the message, and no
  image block is left.
\<close>

theorem one_placeholder_per_image:
  assumes "process_image_blocks blocks = Inr (blocks', images)"
  shows "slot_count blocks' = length images \<and> image_count blocks = length images
    \<and> image_count blocks' = 0 \<and> length blocks' = length blocks"
  using process_image_blocks_spec[OF assms] by (simp add: images_replaced_def)

theorem one_placeholder_per_image_witness:
  "let nested = PDict [(lit ''type'', PStr (lit ''tool_result'')),
                       (lit ''content'', PList [image_url_block (lit ''u'')])];
       blocks = [image_url_block (lit ''v''), text_block (PStr (lit ''t'')), nested]
   in (\<exists>blocks' images. process_image_blocks blocks = Inr (blocks', images)
        \<and> slot_count blocks' = 2 \<and> length images = 2)"
proof -
  let ?nested = "PDict [(lit ''type'', PStr (lit ''tool_result'')),
                       (lit ''content'', PList [image_url_block (lit ''u'')])]"
  have run: "process_image_blocks [image_url_block (lit ''v''), text_block (PStr (lit ''t'')), ?nested]
     = Inr ([text_block (PStr IMAGE_PLACEHOLDER), text_block (PStr (lit ''t'')),
             PDict [(lit ''type'', PStr (lit ''tool_result'')),
                    (lit ''content'', PList [text_block (PStr IMAGE_PLACEHOLDER)])]],
            [PDict [(lit ''type'', PStr (lit ''image'')), (lit ''url'', PStr (lit ''v''))],
             PDict [(lit ''type'', PStr (lit ''image'')), (lit ''url'', PStr (lit ''u''))]])"
    by code_simp
  from one_placeholder_per_image[OF run] run show ?thesis by (simp add: Let_def)
qed

text \<open>
  The check covers text blocks only: a tool result whose content is a string is not looked at, so a
  client can put a placeholder into the prompt that no image stands behind.
\<close>

definition lib0 :: pylib where
  "lib0 = \<lparr> loads = (\<lambda>s. None), crepr = (\<lambda>v. []) \<rparr>"

lemma tool_result_text_forges_placeholder:
  "\<exists>prompt. encode_messages lib0
       [[(lit ''role'', PStr (lit ''user'')),
         (lit ''content'', PList [PDict [(lit ''type'', PStr (lit ''tool_result'')),
                                        (lit ''content'', PStr IMAGE_PLACEHOLDER)]])]]
       (lit ''chat'') [] True True None = Inr (prompt, [])
     \<and> str_in IMAGE_PLACEHOLDER prompt"
proof (intro exI conjI)
  let ?prompt = "bos_token @ USER_SP_TOKEN @ tool_output_text IMAGE_PLACEHOLDER @ ASSISTANT_SP_TOKEN @ thinking_end_token"
  show "encode_messages lib0
       [[(lit ''role'', PStr (lit ''user'')),
         (lit ''content'', PList [PDict [(lit ''type'', PStr (lit ''tool_result'')),
                                        (lit ''content'', PStr IMAGE_PLACEHOLDER)]])]]
       (lit ''chat'') [] True True None = Inr (?prompt, [])"
    by code_simp
  show "str_in IMAGE_PLACEHOLDER ?prompt"
    by (simp add: str_in_iff tool_output_text_def) (metis append.assoc)
qed

section \<open>Continuing a conversation\<close>

text \<open>A message after which the text of the one before it does not change.\<close>

definition answers :: "msg \<Rightarrow> bool" where
  "answers m \<longleftrightarrow> is_str (field m ''role'') ''assistant'' \<or> is_str (field m ''role'') ''latest_reminder''"

lemma answers_no_turn: "answers m \<Longrightarrow> \<not> is_turn m"
  by (auto simp: answers_def is_turn_def is_str_unique)

lemma chat_no_thinking: "lit ''chat'' \<noteq> lit ''thinking''"
  by simp

text \<open>Without dropping, a message's text depends on the messages up to the next one only.\<close>

definition same_drop :: "pystr \<Rightarrow> bool \<Rightarrow> bool \<Rightarrow> bool" where
  "same_drop mode d d' \<longleftrightarrow> mode \<noteq> lit ''thinking'' \<or> (\<not> d \<and> \<not> d')"

lemma render_assistant_prefix:
  assumes "same_drop mode d d'" "i < length A"
  shows "render_assistant L i (A @ B) mode d cs = render_assistant L i A mode d' cs"
proof -
  have "prev_has_task i (A @ B) = prev_has_task i A"
    using assms(2) by (auto simp: prev_has_task_def nth_append)
  with assms show ?thesis
    by (auto simp: render_assistant_def same_drop_def nth_append Let_def)
qed

lemma transition_prefix:
  assumes d: "same_drop mode d d'" and i: "i < length A" and B: "B \<noteq> []" "answers (hd B)"
  shows "transition i (A @ B) mode d = transition i A mode d'"
proof -
  have n: "(A @ B) ! i = A ! i" using i by (simp add: nth_append)
  have nxt: "(i + 1 < length (A @ B) \<and> \<not> is_str (field ((A @ B) ! (i + 1)) ''role'') ''assistant''
            \<and> \<not> is_str (field ((A @ B) ! (i + 1)) ''role'') ''latest_reminder'')
      = (i + 1 < length A \<and> \<not> is_str (field (A ! (i + 1)) ''role'') ''assistant''
            \<and> \<not> is_str (field (A ! (i + 1)) ''role'') ''latest_reminder'')"
  proof (cases "i + 1 < length A")
    case True
    then show ?thesis by (simp add: nth_append)
  next
    case False
    then have "i + 1 = length A" using i by simp
    moreover have "(A @ B) ! length A = hd B" using B by (simp add: nth_append hd_conv_nth)
    ultimately show ?thesis using B(2) by (auto simp: answers_def)
  qed
  have think: "(if \<not> d \<and> mode = lit ''thinking'' then thinking_start_token
                else if d \<and> mode = lit ''thinking'' \<and> int i \<ge> x then thinking_start_token
                else thinking_end_token)
     = (if \<not> d' \<and> mode = lit ''thinking'' then thinking_start_token
                else if d' \<and> mode = lit ''thinking'' \<and> int i \<ge> y then thinking_start_token
                else thinking_end_token)" for x y
    using d by (auto simp: same_drop_def)
  show ?thesis
    unfolding transition_def Let_def n nxt think[of "find_last_user_index (A @ B)" "find_last_user_index A"]
    by (rule refl)
qed

lemma render_message_prefix:
  assumes d: "same_drop mode d d'" and i: "i < length A" and B: "B \<noteq> []" "answers (hd B)"
  shows "render_message L i (A @ B) mode d e = render_message L i A mode d' e"
proof -
  have n: "(A @ B) ! i = A ! i" and l: "i < length (A @ B)" using i by (simp_all add: nth_append)
  show ?thesis
    unfolding render_message_def render_body_def Let_def n render_assistant_prefix[OF d i]
      transition_prefix[OF d i B]
    by (simp only: i l)
qed

text \<open>The last messages are rendered the same with and without dropping, when it has no effect.\<close>

lemma render_message_drop:
  assumes "same_drop mode d d'"
  shows "render_message L i A mode d e = render_message L i A mode d' e"
proof (cases "d = d'")
  case False
  then have m: "mode \<noteq> lit ''thinking''" using assms by (auto simp: same_drop_def)
  then have ra: "render_assistant L i A mode d cs = render_assistant L i A mode d' cs" for cs
    by (simp add: render_assistant_def Let_def)
  have tr: "transition i A mode d = transition i A mode d'"
    using m by (simp add: transition_def Let_def)
  show ?thesis unfolding render_message_def render_body_def ra tr by (rule refl)
qed simp

lemma render_range_split:
  assumes d: "same_drop mode d d1" "same_drop mode d d2" and B: "B \<noteq> []" "answers (hd B)"
    and p: "render_range L A mode d1 e 0 (length A) = Inr p"
    and q: "render_range L (A @ B) mode d2 e (length A) (length B) = Inr q"
  shows "render_range L (A @ B) mode d e 0 (length A + length B) = Inr (p @ q)"
proof -
  have a: "rmap (\<lambda>i. render_message L i (A @ B) mode d e) [0..<length A]
      = rmap (\<lambda>i. render_message L i A mode d1 e) [0..<length A]"
    by (rule rmap_cong) (simp_all add: render_message_prefix[OF d(1) _ B])
  have u: "[length A..<length A + length B] = map (\<lambda>i. i + length A) [0..<length B]"
    by (simp add: map_add_upt add.commute)
  have m: "rmap f (map g xs) = rmap (\<lambda>x. f (g x)) xs" for f :: "nat \<Rightarrow> py_error + pystr" and g xs
    by (induction xs) auto
  have b: "rmap (\<lambda>i. render_message L i (A @ B) mode d e) [length A..<length A + length B]
      = rmap (\<lambda>i. render_message L (i + length A) (A @ B) mode d2 e) [0..<length B]"
    unfolding u m by (rule rmap_cong) (simp_all add: render_message_drop[OF d(2)])
  obtain ps where ps: "rmap (\<lambda>i. render_message L i A mode d1 e) [0..<length A] = Inr ps" "p = concat ps"
    using p unfolding render_range_def rbind_Inr_iff by auto
  obtain qs where qs: "rmap (\<lambda>i. render_message L (i + length A) (A @ B) mode d2 e) [0..<length B] = Inr qs"
      "q = concat qs"
    using q unfolding render_range_def rbind_Inr_iff by auto
  have cut: "[0..<length A + length B] = [0..<length A] @ [length A..<length A + length B]"
    by (rule upt_add_eq_append) simp
  show ?thesis
    unfolding render_range_def add_0_right cut rmap_append a b ps qs rbind_simps concat_append by (rule refl)
qed

lemma merge_step_append:
  assumes "N \<noteq> []"
  shows "merge_step (M @ N) x = rbind (merge_step N x) (\<lambda>r. Inr (M @ r))"
    and "merge_step N x = Inr N' \<Longrightarrow> N' \<noteq> []"
proof -
  have o: "open_user (M @ N) = open_user N" using assms by (simp add: open_user_def)
  have e: "extend_last (M @ N) v = rbind (extend_last N v) (\<lambda>r. Inr (M @ r))" for v
    using assms by (cases "piter v") (auto simp: extend_last_def butlast_append split: option.splits pv.splits)
  show "merge_step (M @ N) x = rbind (merge_step N x) (\<lambda>r. Inr (M @ r))"
    using assms by (simp add: merge_step_def o e Let_def)
  have "extend_last N v = Inr N' \<Longrightarrow> N' \<noteq> []" for v
    by (auto simp: extend_last_def rbind_Inr_iff split: option.splits pv.splits)
  then show "merge_step N x = Inr N' \<Longrightarrow> N' \<noteq> []"
    by (auto simp: merge_step_def Let_def split: if_splits)
qed

lemma rfold_merge_append:
  "N \<noteq> [] \<Longrightarrow> rfold merge_step (M @ N) xs = rbind (rfold merge_step N xs) (\<lambda>r. Inr (M @ r))"
proof (induction xs arbitrary: N)
  case (Cons x xs)
  show ?case
  proof (cases "merge_step N x")
    case (Inr N')
    then have "N' \<noteq> []" using merge_step_append(2)[OF Cons.prems] by blast
    with Cons.IH Inr show ?thesis by (simp add: merge_step_append(1)[OF Cons.prems])
  qed (simp add: merge_step_append(1)[OF Cons.prems])
qed simp

lemma merge_append_answer:
  assumes "answers m"
  shows "merge_tool_messages (c @ m # ms)
    = rbind (merge_tool_messages c) (\<lambda>mc. rbind (merge_tool_messages (m # ms)) (\<lambda>mm. Inr (mc @ mm)))"
proof -
  have s: "merge_step M m = Inr (M @ [m])" for M
    using answers_no_turn[OF assms] by (auto simp: merge_step_def is_turn_def Let_def)
  show ?thesis
    by (simp add: merge_tool_messages_def rfold_append s rfold_merge_append)
qed

lemma merge_answer_hd:
  assumes "answers m" "merge_tool_messages (m # ms) = Inr mm"
  shows "mm \<noteq> [] \<and> hd mm = m"
proof -
  have s: "merge_step [] m = Inr [m]"
    using answers_no_turn[OF assms(1)] by (auto simp: merge_step_def is_turn_def Let_def)
  have "rfold merge_step [m] ms = Inr mm" using assms(2) by (simp add: merge_tool_messages_def s)
  moreover have "rfold merge_step N xs = Inr r \<Longrightarrow> N \<noteq> [] \<Longrightarrow> \<not> is_turn (hd N) \<Longrightarrow> r \<noteq> [] \<and> hd r = hd N" for N xs r
  proof (induction xs arbitrary: N)
    case (Cons x xs)
    then obtain N' where N': "merge_step N x = Inr N'" "rfold merge_step N' xs = Inr r" by (auto simp: rbind_Inr_iff)
    have "hd N' = hd N"
    proof (cases N)
      case (Cons y N0)
      show ?thesis
      proof (cases "N0 = []")
        case True
        then have "\<not> open_user N" using Cons Cons.prems(3) by (auto simp: open_user_def is_turn_def)
        with N'(1) Cons show ?thesis by (auto simp: merge_step_def Let_def split: if_splits)
      next
        case False
        then have "rbind (merge_step N0 x) (\<lambda>r. Inr ([y] @ r)) = Inr N'"
          using N'(1) Cons merge_step_append(1)[of N0 "[y]" x] by simp
        then show ?thesis using Cons by (auto simp: rbind_Inr_iff)
      qed
    qed (use Cons.prems in simp)
    moreover have "N' \<noteq> []" using merge_step_append(2)[OF Cons.prems(2) N'(1)] .
    ultimately show ?case using Cons.IH[OF N'(2)] Cons.prems by simp
  qed simp
  ultimately show ?thesis using answers_no_turn[OF assms(1)] by (metis list.sel(1) list.distinct(1))
qed

text \<open>The call order after a list of messages depends on the messages of the other roles only.\<close>

definition order_step :: "(pv, nat) dict \<Rightarrow> msg \<Rightarrow> py_error + (pv, nat) dict" where
  "order_step order m =
     (if is_str (field m ''role'') ''assistant'' \<and> truthy (field m ''tool_calls'')
      then call_order (field m ''tool_calls'') else Inr order)"

lemma sort_step_out:
  "sort_step (order, out) m = rbind (sort_step (order, []) m) (\<lambda>(order', r). Inr (order', out @ r))"
proof -
  show ?thesis
  proof (cases "is_str (field m ''role'') ''assistant'' \<and> truthy (field m ''tool_calls'')")
    case True
    then show ?thesis by (cases "call_order (field m ''tool_calls'')") (simp_all add: sort_step_def)
  next
    case False
    show ?thesis
    proof (cases "is_str (field m ''role'') ''user'' \<and> truthy (field m ''content_blocks'')")
      case True
      show ?thesis
      proof (cases "piter (field m ''content_blocks'')")
        case (Inr bs)
        with True \<open>\<not> (is_str (field m ''role'') ''assistant'' \<and> _)\<close> show ?thesis
          by (cases "sort_blocks order bs") (auto simp: sort_step_def)
      qed (use True False in \<open>auto simp: sort_step_def\<close>)
    qed (use False in \<open>auto simp: sort_step_def\<close>)
  qed
qed

lemma rfold_sort_out:
  "rfold sort_step (order, out) ms = rbind (rfold sort_step (order, []) ms) (\<lambda>(order', r). Inr (order', out @ r))"
proof (induction ms arbitrary: order out)
  case (Cons m ms)
  show ?case
  proof (cases "sort_step (order, []) m")
    case (Inl e)
    then show ?thesis by (simp add: sort_step_out[of order out])
  next
    case (Inr st)
    obtain order' r where st: "st = (order', r)" by (cases st)
    have "rfold sort_step (order', out @ r) ms
        = rbind (rfold sort_step (order', []) ms) (\<lambda>(o', x). Inr (o', (out @ r) @ x))"
      by (rule Cons.IH)
    moreover have "rfold sort_step (order', r) ms
        = rbind (rfold sort_step (order', []) ms) (\<lambda>(o', x). Inr (o', r @ x))"
      by (rule Cons.IH)
    ultimately show ?thesis
      using Inr st by (cases "rfold sort_step (order', []) ms") (auto simp: sort_step_out[of order out])
  qed
qed simp

lemma sort_step_order:
  "sort_step (order, []) m = Inr (order', r) \<Longrightarrow>
     (if is_turn m then Inr order else order_step order m) = Inr order' \<and> length r = 1"
  by (auto simp: sort_step_def order_step_def is_turn_def is_str_unique rbind_Inr_iff split: if_splits)

lemma rfold_sort_order:
  "rfold sort_step (order, []) ms = Inr (order', r) \<Longrightarrow>
     rfold order_step order (filter (\<lambda>m. \<not> is_turn m) ms) = Inr order' \<and> length r = length ms"
proof (induction ms arbitrary: order r)
  case (Cons m ms)
  obtain o1 r1 where s1: "sort_step (order, []) m = Inr (o1, r1)"
    and rest: "rfold sort_step (o1, r1) ms = Inr (order', r)"
    using Cons.prems by (auto simp: rbind_Inr_iff)
  obtain r2 where r2: "rfold sort_step (o1, []) ms = Inr (order', r2)" "r = r1 @ r2"
    using rest unfolding rfold_sort_out[of o1 r1] by (auto simp: rbind_Inr_iff)
  from Cons.IH[OF r2(1)] sort_step_order[OF s1] show ?case
    by (cases "is_turn m") (simp_all add: r2)
qed simp

text \<open>In a conversation in the plain format, without content blocks, sorting changes nothing.\<close>

definition plain_format :: "msg list \<Rightarrow> bool" where
  "plain_format ms \<longleftrightarrow> list_all (\<lambda>m. dget m (lit ''content_blocks'') = None) ms"

lemma rfold_sort_plain:
  "rfold sort_step (order, []) ms = Inr (order', r) \<Longrightarrow> plain_format ms \<Longrightarrow> r = ms"
proof (induction ms arbitrary: order r)
  case (Cons m ms)
  obtain o1 r1 where s1: "sort_step (order, []) m = Inr (o1, r1)"
    and rest: "rfold sort_step (o1, r1) ms = Inr (order', r)"
    using Cons.prems by (auto simp: rbind_Inr_iff)
  obtain r2 where r2: "rfold sort_step (o1, []) ms = Inr (order', r2)" "r = r1 @ r2"
    using rest unfolding rfold_sort_out[of o1 r1] by (auto simp: rbind_Inr_iff)
  have "field m ''content_blocks'' = PNone" using Cons.prems(2) by (simp add: plain_format_def field_def)
  then have "r1 = [m]" using s1 by (auto simp: sort_step_def rbind_Inr_iff split: if_splits)
  with Cons.IH[OF r2(1)] Cons.prems(2) r2 show ?case by (simp add: plain_format_def)
qed (simp add: plain_format_def)

lemma sort_result:
  "sort_tool_results_by_call_order ms = Inr r \<longleftrightarrow> (\<exists>order. rfold sort_step ([], []) ms = Inr (order, r))"
  by (auto simp: sort_tool_results_by_call_order_def rbind_Inr_iff)

text \<open>Preparing the parts and preparing the whole.\<close>

lemma prepare_whole:
  assumes m: "answers m" and c: "plain_format c" and ne: "c \<noteq> []"
    and p1: "prepare [] c = Inr ([], A)" and p2: "prepare c (m # ms) = Inr (A', B)"
  shows "A' = A \<and> prepare [] (c @ m # ms) = Inr ([], A @ B) \<and> A \<noteq> [] \<and> B \<noteq> [] \<and> answers (hd B)"
proof -
  obtain mc where mc: "merge_tool_messages c = Inr mc" "sort_tool_results_by_call_order mc = Inr A"
    using p1 by (auto simp: prepare_def rbind_Inr_iff)
  obtain mm S where mm: "merge_tool_messages (m # ms) = Inr mm"
    and S: "sort_tool_results_by_call_order (c @ mm) = Inr S"
    and A': "rbind (merge_tool_messages (take (length c) S)) sort_tool_results_by_call_order = Inr A'"
    and B: "B = drop (length c) S"
    using p2 ne by (auto simp: prepare_def rbind_Inr_iff)
  obtain o2 o1 r1 r2 where f: "rfold sort_step ([], []) c = Inr (o1, r1)"
    and g: "rfold sort_step (o1, []) mm = Inr (o2, r2)" and Sr: "S = r1 @ r2"
  proof -
    obtain o2 where "rbind (rfold sort_step ([], []) c) (\<lambda>s. rfold sort_step s mm) = Inr (o2, S)"
      using S unfolding sort_result rfold_append by blast
    then obtain o1 r1 where f: "rfold sort_step ([], []) c = Inr (o1, r1)"
      and g: "rfold sort_step (o1, r1) mm = Inr (o2, S)" by (auto simp: rbind_Inr_iff)
    from g obtain r2 where "rfold sort_step (o1, []) mm = Inr (o2, r2)" "S = r1 @ r2"
      unfolding rfold_sort_out[of o1 r1] by (auto simp: rbind_Inr_iff)
    with f that show ?thesis by blast
  qed
  have r1: "r1 = c" using rfold_sort_plain[OF f c] .
  then have S': "take (length c) S = c" "B = r2" using Sr B by simp_all
  have AA: "A' = A" using A' mc by (simp add: S')
  obtain oa where oa: "rfold sort_step ([], []) mc = Inr (oa, A)" using mc(2) sort_result by blast
  have "filter (\<lambda>m. \<not> is_turn m) mc = filter (\<lambda>m. \<not> is_turn m) c"
    using merge_keeps[OF mc(1)] by simp
  then have "oa = o1" using rfold_sort_order[OF oa] rfold_sort_order[OF f] by simp
  then have "rfold sort_step ([], []) (mc @ mm) = Inr (o2, A @ r2)"
    using oa g by (simp add: rfold_append rfold_sort_out[of o1 A])
  then have whole: "sort_tool_results_by_call_order (mc @ mm) = Inr (A @ B)"
    unfolding sort_result S' by blast
  have "merge_tool_messages (c @ m # ms) = Inr (mc @ mm)"
    using merge_append_answer[OF m] mc mm by simp
  then have w: "prepare [] (c @ m # ms) = Inr ([], A @ B)" using whole by (simp add: prepare_def)
  have h: "mm \<noteq> []" "hd mm = m" using merge_answer_hd[OF m mm] by auto
  then obtain ms' where "mm = m # ms'" by (cases mm) auto
  moreover have "sort_step (o1, []) m = Inr (o', r) \<Longrightarrow> r = [m]" for o' r
    using answers_no_turn[OF m] by (auto simp: sort_step_def is_turn_def rbind_Inr_iff split: if_splits)
  ultimately obtain o' where "rfold sort_step (o', [m]) ms' = Inr (o2, r2)"
    using g by (fastforce simp: rbind_Inr_iff)
  then have B1: "B \<noteq> []" "hd B = m"
    unfolding rfold_sort_out[of o' "[m]"] by (auto simp: rbind_Inr_iff S')
  have "mc \<noteq> []"
  proof
    assume e: "mc = []"
    obtain x xs where cx: "c = x # xs" using ne by (cases c) auto
    have "rfold merge_step N xs = Inr r \<Longrightarrow> N \<noteq> [] \<Longrightarrow> r \<noteq> []" for N xs r
    proof (induction xs arbitrary: N)
      case (Cons y ys)
      then show ?case using merge_step_append(2) by (fastforce simp: rbind_Inr_iff)
    qed simp
    moreover have "merge_step [] x = Inr N \<Longrightarrow> N \<noteq> []" for N
      by (auto simp: merge_step_def open_user_def Let_def split: if_splits)
    ultimately show False using mc(1) e cx by (fastforce simp: merge_tool_messages_def rbind_Inr_iff)
  qed
  then have "A \<noteq> []" using rfold_sort_order[OF oa] by auto
  with AA w B1 m show ?thesis by simp
qed

text \<open>
  C23: where no reasoning is dropped (chat mode, or \<open>drop_thinking\<close> off), continuing a conversation is
  the same as rendering it whole: encoding new messages that begin with an assistant or reminder turn
  against a non-empty context without content blocks appends exactly the text that encoding the whole
  conversation has after the text of the context, so that a cached prefix stays valid.
\<close>

theorem continuation_extends_prefix:
  assumes "mode \<noteq> lit ''thinking'' \<or> \<not> drop_thinking"
    and "answers m" and "plain_format context" and "context \<noteq> []"
    and "encode_messages_text L context mode [] drop_thinking add_bos effort = Inr p"
    and "encode_messages_text L (m # ms) mode context drop_thinking add_bos effort = Inr r"
  shows "encode_messages_text L (context @ m # ms) mode [] drop_thinking add_bos effort = Inr (p @ r)"
proof -
  have nd: "\<not> (mode = lit ''thinking'' \<and> drop_thinking \<and> \<not> any_tools full)" for full
    using assms(1) by blast
  have sd: "same_drop mode (drop_thinking \<and> x) (drop_thinking \<and> y)" for x y
    using assms(1) by (auto simp: same_drop_def)
  obtain A where A: "prepare [] context = Inr ([], A)"
    and p: "rbind (render_range L A mode (drop_thinking \<and> \<not> any_tools A) effort 0 (length A))
              (\<lambda>t. Inr ((if add_bos then bos_token else []) @ t)) = Inr p"
  proof -
    obtain X A where X: "prepare [] context = Inr (X, A)"
      using assms(5) by (auto simp: encode_messages_text_def rbind_Inr_iff)
    then have "X = []" by (auto simp: prepare_def rbind_Inr_iff)
    with X assms(5) that nd show ?thesis by (simp add: encode_messages_text_def Let_def)
  qed
  obtain A' B where AB: "prepare context (m # ms) = Inr (A', B)"
    using assms(6) by (auto simp: encode_messages_text_def rbind_Inr_iff)
  from prepare_whole[OF assms(2-4) A AB] have w: "A' = A" "A \<noteq> []" "B \<noteq> []" "answers (hd B)"
    and whole: "prepare [] (context @ m # ms) = Inr ([], A @ B)" by auto
  have r: "rbind (render_range L (A @ B) mode (drop_thinking \<and> \<not> any_tools (A @ B)) effort (length A) (length B))
              (\<lambda>t. Inr ([] @ t)) = Inr r"
    using assms(6) AB w nd[of "A @ B"] by (simp add: encode_messages_text_def Let_def)
  obtain t1 t2 where t1: "render_range L A mode (drop_thinking \<and> \<not> any_tools A) effort 0 (length A) = Inr t1"
    and p': "p = (if add_bos then bos_token else []) @ t1"
    and t2: "render_range L (A @ B) mode (drop_thinking \<and> \<not> any_tools (A @ B)) effort (length A) (length B) = Inr t2"
    and r': "r = t2"
    using p r unfolding rbind_Inr_iff by auto
  have "render_range L (A @ B) mode (drop_thinking \<and> \<not> any_tools (A @ B)) effort 0 (length A + length B) = Inr (t1 @ t2)"
    by (rule render_range_split[OF sd sd w(3,4) t1 t2])
  with whole nd[of "A @ B"] show ?thesis
    by (auto simp: encode_messages_text_def Let_def p' r')
qed

definition turn :: "string \<Rightarrow> string \<Rightarrow> msg" where
  "turn role content = [(lit ''role'', PStr (lit role)), (lit ''content'', PStr (lit content))]"

theorem continuation_extends_prefix_witness:
  "\<exists>p r. encode_messages_text lib0 [turn ''user'' ''a''] (lit ''chat'') [] True True None = Inr p
      \<and> encode_messages_text lib0 [turn ''assistant'' ''b'', turn ''user'' ''c''] (lit ''chat'')
            [turn ''user'' ''a''] True True None = Inr r
      \<and> encode_messages_text lib0 [turn ''user'' ''a'', turn ''assistant'' ''b'', turn ''user'' ''c'']
            (lit ''chat'') [] True True None = Inr (p @ r)"
proof -
  let ?p = "bos_token @ USER_SP_TOKEN @ lit ''a'' @ ASSISTANT_SP_TOKEN @ thinking_end_token"
  let ?r = "lit ''b'' @ eos_token @ USER_SP_TOKEN @ lit ''c'' @ ASSISTANT_SP_TOKEN @ thinking_end_token"
  have p: "encode_messages_text lib0 [turn ''user'' ''a''] (lit ''chat'') [] True True None = Inr ?p"
    by code_simp
  have r: "encode_messages_text lib0 [turn ''assistant'' ''b'', turn ''user'' ''c''] (lit ''chat'')
            [turn ''user'' ''a''] True True None = Inr ?r"
    by code_simp
  have "answers (turn ''assistant'' ''b'')" "plain_format [turn ''user'' ''a'']" by code_simp+
  from continuation_extends_prefix[OF _ this _ p r] p r show ?thesis by auto
qed

text \<open>
  In thinking mode with \<open>drop_thinking\<close> a later user turn drops the reasoning of the answers before it,
  and the text of the context is no prefix of the text of the whole.
\<close>

definition reasoned :: msg where
  "reasoned = turn ''assistant'' ''b'' @ [(lit ''reasoning_content'', PStr (lit ''why''))]"

lemma dropped_reasoning_rewrites_prefix:
  "encode_messages_text lib0 [turn ''user'' ''a'', reasoned] (lit ''thinking'') [] True True None
     = Inr (bos_token @ USER_SP_TOKEN @ lit ''a'' @ ASSISTANT_SP_TOKEN @ thinking_start_token @ lit ''why''
            @ thinking_end_token @ lit ''b'' @ eos_token)"
  "encode_messages_text lib0 [turn ''user'' ''a'', reasoned, turn ''latest_reminder'' ''x'', turn ''user'' ''c'']
       (lit ''thinking'') [] True True None
     = Inr (bos_token @ USER_SP_TOKEN @ lit ''a'' @ ASSISTANT_SP_TOKEN @ thinking_end_token @ lit ''b'' @ eos_token
            @ LATEST_REMINDER_SP_TOKEN @ lit ''x'' @ USER_SP_TOKEN @ lit ''c'' @ ASSISTANT_SP_TOKEN @ thinking_start_token)"
  by code_simp+

end
