(* ===== verification/Facade.thy ===== *)
theory Facade
  imports Generate ImageProc ChatHistory ChatParse
begin

text \<open>
  The text facade of the engine, the class \<open>InferenceEngine\<close> of \<open>serving/executor.py\<close>: prompts and
  conversations in, text with a token ledger out.  It joins the generation loop (\<open>Generate\<close>), a
  tokenizer, the DeepSeek-V4 message encoding (\<open>ChatEncode\<close>) and the expansion of images
  (\<open>ImageProc\<close>).

  The facade uses a tokenizer through the record \<open>coder\<close>: its methods \<open>encode\<close>, \<open>decode\<close>, \<open>eos_id\<close>
  and \<open>apply_chat_template\<close>, and the id its \<open>image_token_id\<close> returns, \<open>None\<close> where it has no such
  method (the one of \<open>serving/tokenizer.py\<close> has none).  \<open>ef_vision\<close> is what \<open>_model_has_vision\<close> finds.
  A registered tool is known by the text it returns for its arguments, \<open>None\<close> when it is not
  callable; parsing of the arguments and exceptions of the tool have become text in that.
\<close>

section \<open>The engine\<close>

record coder =
  t_encode :: "pystr \<Rightarrow> py_error + int list"
  t_decode :: "int list \<Rightarrow> pystr"
  t_eos :: "int option"
  t_template :: "msg list \<Rightarrow> bool \<Rightarrow> py_error + pystr"
  t_image :: "int option"

record ('c, 'f, 'px) engine_facade =
  ef_model :: "('c, 'f, 'px image_input list) lm"
  ef_coder :: coder
  ef_vision :: bool
  ef_vocab :: int
  ef_args :: vision_args

text \<open>The dict \<open>complete_detail\<close> and its variants return; the keys only some of them set are
  optional.\<close>

record completion =
  c_text :: pystr
  finish_reason :: reason
  prompt_len :: int
  completion_len :: int
  prompt_text :: "pystr option"
  n_images :: "nat option"

definition eos_stop :: "coder \<Rightarrow> int list" where
  "eos_stop C = (case t_eos C of None \<Rightarrow> [] | Some i \<Rightarrow> [i])"

text \<open>Generation and the ledger, the lines the variants share.\<close>

definition run_prompt ::
    "('f::linordered_field, 'g) numpy \<Rightarrow> ('c, 'f, 'px) engine_facade \<Rightarrow> 'f sampling \<Rightarrow> int
     \<Rightarrow> 'px image_input list option \<Rightarrow> int list \<Rightarrow> py_error + completion" where
  "run_prompt N E P max_new images ids =
     rbind (generate N (ef_model E) P (eos_stop (ef_coder E)) max_new images ids) (\<lambda>(out, r, n).
       Inr \<lparr>c_text = t_decode (ef_coder E) (drop (length ids) out), finish_reason = r,
            prompt_len = int (length ids), completion_len = n, prompt_text = None, n_images = None\<rparr>)"

definition complete_detail ::
    "('f::linordered_field, 'g) numpy \<Rightarrow> ('c, 'f, 'px) engine_facade \<Rightarrow> 'f sampling \<Rightarrow> int \<Rightarrow> pystr
     \<Rightarrow> py_error + completion" where
  "complete_detail N E P max_new prompt =
     rbind (t_encode (ef_coder E) prompt) (run_prompt N E P max_new None)"

definition complete_text ::
    "('f::linordered_field, 'g) numpy \<Rightarrow> ('c, 'f, 'px) engine_facade \<Rightarrow> 'f sampling \<Rightarrow> int \<Rightarrow> pystr
     \<Rightarrow> py_error + pystr" where
  "complete_text N E P max_new prompt = rbind (complete_detail N E P max_new prompt) (\<lambda>d. Inr (c_text d))"

definition stream_complete ::
    "('f::linordered_field, 'g) numpy \<Rightarrow> ('c, 'f, 'px) engine_facade \<Rightarrow> 'f sampling \<Rightarrow> int \<Rightarrow> pystr
     \<Rightarrow> int event list \<times> py_error option" where
  "stream_complete N E P max_new prompt =
     (case t_encode (ef_coder E) prompt of
        Inl e \<Rightarrow> ([], Some e)
      | Inr ids \<Rightarrow>
          generate_stream N (ef_model E) P (eos_stop (ef_coder E)) max_new None (t_decode (ef_coder E)) ids)"

section \<open>Conversations\<close>

definition image_block :: "pv \<Rightarrow> bool" where
  "image_block b =
     (case b of
        PDict d \<Rightarrow> is_str (field d ''type'') ''image'' \<or> is_str (field d ''type'') ''image_url''
      | _ \<Rightarrow> False)"

definition messages_have_images :: "msg list \<Rightarrow> bool" where
  "messages_have_images ms \<longleftrightarrow>
     list_ex (\<lambda>m. case field m ''content'' of PList bs \<Rightarrow> list_ex image_block bs | _ \<Rightarrow> False) ms"

text \<open>\<open>_vl_prompt\<close>: the expanded prompt, its images, and how many records there were; resizing an
  image may not return.\<close>

definition vl_prompt ::
    "pylib \<Rightarrow> (vision_args \<Rightarrow> pv \<Rightarrow> (py_error + 'px list list list list \<times> int \<times> int \<times> int \<times> int) option)
     \<Rightarrow> ('c, 'f, 'px) engine_facade \<Rightarrow> msg list
     \<Rightarrow> (py_error + (int list \<times> 'px image_input list option) \<times> nat) option" where
  "vl_prompt L load E messages =
     (case encode_messages L messages (lit ''chat'') [] True True None of
        Inl e \<Rightarrow> Some (Inl e)
      | Inr (text, records) \<Rightarrow>
          if records = [] then Some (Inl ValueError)
          else case t_image (ef_coder E) of
            None \<Rightarrow> Some (Inl ValueError)
          | Some ph \<Rightarrow>
              (case t_encode (ef_coder E) text of
                 Inl e \<Rightarrow> Some (Inl e)
               | Inr ids \<Rightarrow>
                   map_option (\<lambda>r. rbind r (\<lambda>x. Inr (x, length records)))
                     (expand_image_placeholders (load (ef_args E)) ids records (ef_vocab E) (Some ph))))"

definition vl_chat_detail ::
    "pylib \<Rightarrow> (vision_args \<Rightarrow> pv \<Rightarrow> (py_error + 'px list list list list \<times> int \<times> int \<times> int \<times> int) option)
     \<Rightarrow> ('f::linordered_field, 'g) numpy \<Rightarrow> ('c, 'f, 'px) engine_facade \<Rightarrow> 'f sampling \<Rightarrow> int \<Rightarrow> msg list
     \<Rightarrow> (py_error + completion) option" where
  "vl_chat_detail L load N E P max_new messages =
     map_option (\<lambda>r. rbind r (\<lambda>((ids, inputs), n).
         rbind (run_prompt N E P max_new inputs ids) (\<lambda>d. Inr (d\<lparr>n_images := Some n\<rparr>))))
       (vl_prompt L load E messages)"

definition chat_detail ::
    "pylib \<Rightarrow> (vision_args \<Rightarrow> pv \<Rightarrow> (py_error + 'px list list list list \<times> int \<times> int \<times> int \<times> int) option)
     \<Rightarrow> ('f::linordered_field, 'g) numpy \<Rightarrow> ('c, 'f, 'px) engine_facade \<Rightarrow> 'f sampling \<Rightarrow> int \<Rightarrow> bool \<Rightarrow> msg list
     \<Rightarrow> (py_error + completion) option" where
  "chat_detail L load N E P max_new add_gen messages =
     (if messages_have_images messages \<and> ef_vision E then vl_chat_detail L load N E P max_new messages
      else Some (rbind (t_template (ef_coder E) messages add_gen) (\<lambda>prompt.
             rbind (complete_detail N E P max_new prompt) (\<lambda>d. Inr (d\<lparr>prompt_text := Some prompt\<rparr>)))))"

definition chat ::
    "pylib \<Rightarrow> (vision_args \<Rightarrow> pv \<Rightarrow> (py_error + 'px list list list list \<times> int \<times> int \<times> int \<times> int) option)
     \<Rightarrow> ('f::linordered_field, 'g) numpy \<Rightarrow> ('c, 'f, 'px) engine_facade \<Rightarrow> 'f sampling \<Rightarrow> int \<Rightarrow> bool \<Rightarrow> msg list
     \<Rightarrow> (py_error + pystr) option" where
  "chat L load N E P max_new add_gen messages =
     map_option (\<lambda>r. rbind r (\<lambda>d. Inr (c_text d))) (chat_detail L load N E P max_new add_gen messages)"

definition stream_chat ::
    "pylib \<Rightarrow> (vision_args \<Rightarrow> pv \<Rightarrow> (py_error + 'px list list list list \<times> int \<times> int \<times> int \<times> int) option)
     \<Rightarrow> ('f::linordered_field, 'g) numpy \<Rightarrow> ('c, 'f, 'px) engine_facade \<Rightarrow> 'f sampling \<Rightarrow> int \<Rightarrow> bool \<Rightarrow> msg list
     \<Rightarrow> (int event list \<times> py_error option) option" where
  "stream_chat L load N E P max_new add_gen messages =
     (if messages_have_images messages \<and> ef_vision E
      then map_option (\<lambda>r. case r of
              Inl e \<Rightarrow> ([], Some e)
            | Inr ((ids, inputs), _) \<Rightarrow>
                generate_stream N (ef_model E) P (eos_stop (ef_coder E)) max_new inputs (t_decode (ef_coder E)) ids)
             (vl_prompt L load E messages)
      else Some (case t_template (ef_coder E) messages add_gen of
             Inl e \<Rightarrow> ([], Some e)
           | Inr prompt \<Rightarrow> stream_complete N E P max_new prompt))"

text \<open>\<open>_vision_args\<close>: the fields of the recipe's vision section, \<open>None\<close> where it has none.\<close>

record vision_fields =
  vs_enabled :: bool
  vs_patch :: "int option"
  vs_downsample :: "int option"
  vs_max_n_token :: "int option"
  vs_min_pixels :: "int option"
  vs_max_wh :: "rat option"

definition or_int :: "int option \<Rightarrow> int \<Rightarrow> int" where
  "or_int v dflt = (case v of Some i \<Rightarrow> if i = 0 then dflt else i | None \<Rightarrow> dflt)"

definition vision_args_of :: "vision_fields option \<Rightarrow> bool \<Rightarrow> bool \<Rightarrow> vision_args" where
  "vision_args_of vs urls files =
     (case vs of
        Some v \<Rightarrow>
          if vs_enabled v
          then \<lparr>patch_size = or_int (vs_patch v) 14, downsample_ratio = or_int (vs_downsample v) 3,
                max_n_token = or_int (vs_max_n_token v) 384, min_pixels = or_int (vs_min_pixels v) 147456,
                max_wh_ratio = Some (case vs_max_wh v of Some q \<Rightarrow> q | None \<Rightarrow> 8),
                fetch_urls = urls, fetch_files = files\<rparr>
          else default_vision_args\<lparr>fetch_urls := urls, fetch_files := files\<rparr>
      | None \<Rightarrow> default_vision_args\<lparr>fetch_urls := urls, fetch_files := files\<rparr>)"

section \<open>The tool loop\<close>

text \<open>\<open>a, b = s\<close> for a text: it must have two characters.\<close>

definition unpack_two :: "pystr \<Rightarrow> py_error + pystr \<times> pystr" where
  "unpack_two s = (case s of [a, b] \<Rightarrow> Inr ([a], [b]) | _ \<Rightarrow> Inl ValueError)"

text \<open>\<open>_dsv4_text_chat_detail\<close>.  Without \<open>return_multi_modal_data\<close> the encoder returns a text, and
  the text is what is unpacked.\<close>

definition dsv4_text_chat_detail ::
    "pylib \<Rightarrow> ('f::linordered_field, 'g) numpy \<Rightarrow> ('c, 'f, 'px) engine_facade \<Rightarrow> 'f sampling \<Rightarrow> int \<Rightarrow> msg list
     \<Rightarrow> py_error + completion" where
  "dsv4_text_chat_detail L N E P max_new messages =
     rbind (encode_messages L messages (lit ''chat'') [] True True None) (\<lambda>(encoded, _).
     rbind (unpack_two encoded) (\<lambda>(prompt, _).
     rbind (t_encode (ef_coder E) prompt) (\<lambda>ids.
     rbind (run_prompt N E P max_new None ids) (\<lambda>d. Inr (d\<lparr>prompt_text := Some prompt\<rparr>)))))"

type_synonym tools = "(pystr, (pv \<Rightarrow> pystr) option) dict"

definition or_empty :: "pv \<Rightarrow> pv" where
  "or_empty v = (if truthy v then v else PDict [])"

text \<open>One call: the message with its result, which has an id and a content and no role.\<close>

definition call_tool :: "(pv \<Rightarrow> pystr) \<Rightarrow> tools \<Rightarrow> pv \<Rightarrow> py_error + msg" where
  "call_tool show_name tools tc =
     rbind (pget tc (lit ''function'') PNone) (\<lambda>f.
     rbind (pget (or_empty f) (lit ''name'') PNone) (\<lambda>n0.
     rbind (if truthy n0 then Inr n0 else pget tc (lit ''name'') PNone) (\<lambda>fn_name.
     rbind (pget (or_empty f) (lit ''arguments'') PNone) (\<lambda>args.
     rbind (if hashable fn_name then Inr () else Inl TypeError) (\<lambda>_.
     rbind (pget tc (lit ''id'') PNone) (\<lambda>i.
       let spec = (case fn_name of PStr s \<Rightarrow> dget tools s | _ \<Rightarrow> None);
           content = (case spec of
                        None \<Rightarrow> lit ''unknown tool: '' @ show_name fn_name
                      | Some None \<Rightarrow> lit ''tool not callable''
                      | Some (Some fn) \<Rightarrow> fn args)
       in Inr [(lit ''tool_call_id'', i), (lit ''content'', PStr content)]))))))"

definition plain_answer :: "pystr \<Rightarrow> msg" where
  "plain_answer s =
     [(lit ''role'', PStr (lit ''assistant'')), (lit ''content'', PStr s), (lit ''reasoning_content'', PStr []),
      (lit ''tool_calls'', PList [])]"

record tool_run =
  tr_assistant :: "msg option"
  tr_messages :: "msg list"
  tr_turns :: nat

text \<open>The turn of the model: its text.  The chat template path is \<open>chat_detail\<close>, which may not
  return.\<close>

definition turn_text ::
    "pylib \<Rightarrow> (vision_args \<Rightarrow> pv \<Rightarrow> (py_error + 'px list list list list \<times> int \<times> int \<times> int \<times> int) option)
     \<Rightarrow> ('f::linordered_field, 'g) numpy \<Rightarrow> ('c, 'f, 'px) engine_facade \<Rightarrow> 'f sampling \<Rightarrow> int \<Rightarrow> msg list
     \<Rightarrow> (py_error + pystr) option" where
  "turn_text L load N E P max_new msgs =
     map_option (\<lambda>r. rbind r (\<lambda>d. Inr (c_text d)))
       (if is_dsv4 (ef_model E) then Some (dsv4_text_chat_detail L N E P max_new msgs)
        else chat_detail L load N E P max_new True msgs)"

text \<open>What follows a turn: \<open>Inl\<close> the final message, \<open>Inr\<close> the calls to make.\<close>

definition after_turn :: "bool \<Rightarrow> tools \<Rightarrow> pystr \<Rightarrow> msg + (msg \<times> pv list)" where
  "after_turn dsv4 tools s =
     (if \<not> dsv4 \<or> tools = [] then Inl (plain_answer s)
      else case parse_message_from_completion_text s (lit ''chat'') of
        Inr (PDict parsed) \<Rightarrow>
          (case field parsed ''tool_calls'' of
             PList (c # cs) \<Rightarrow> Inr (parsed, c # cs)
           | _ \<Rightarrow> Inl parsed)
      | _ \<Rightarrow> Inl (plain_answer s))"

fun tool_turns ::
    "pylib \<Rightarrow> (vision_args \<Rightarrow> pv \<Rightarrow> (py_error + 'px list list list list \<times> int \<times> int \<times> int \<times> int) option)
     \<Rightarrow> ('f::linordered_field, 'g) numpy \<Rightarrow> ('c, 'f, 'px) engine_facade \<Rightarrow> 'f sampling \<Rightarrow> int
     \<Rightarrow> (pv \<Rightarrow> pystr) \<Rightarrow> tools \<Rightarrow> nat \<Rightarrow> nat \<Rightarrow> msg option \<Rightarrow> msg list \<Rightarrow> (py_error + tool_run) option" where
  "tool_turns L load N E P max_new show_name tools turns 0 final msgs =
     Some (Inr \<lparr>tr_assistant = final, tr_messages = msgs, tr_turns = turns\<rparr>)"
| "tool_turns L load N E P max_new show_name tools turns (Suc left) final msgs =
     (case turn_text L load N E P max_new msgs of
        None \<Rightarrow> None
      | Some (Inl e) \<Rightarrow> Some (Inl e)
      | Some (Inr s) \<Rightarrow>
          (case after_turn (is_dsv4 (ef_model E)) tools s of
             Inl m \<Rightarrow> Some (Inr \<lparr>tr_assistant = Some m, tr_messages = msgs, tr_turns = Suc turns\<rparr>)
           | Inr (parsed, tcs) \<Rightarrow>
               (case rbind (rmap (call_tool show_name tools) tcs) (\<lambda>results.
                       merge_tool_messages (msgs @ [parsed] @ results)) of
                  Inl e \<Rightarrow> Some (Inl e)
                | Inr msgs' \<Rightarrow>
                    tool_turns L load N E P max_new show_name tools (Suc turns) left (Some parsed) msgs')))"

definition chat_tools ::
    "pylib \<Rightarrow> (vision_args \<Rightarrow> pv \<Rightarrow> (py_error + 'px list list list list \<times> int \<times> int \<times> int \<times> int) option)
     \<Rightarrow> ('f::linordered_field, 'g) numpy \<Rightarrow> ('c, 'f, 'px) engine_facade \<Rightarrow> 'f sampling \<Rightarrow> int
     \<Rightarrow> (pv \<Rightarrow> pystr) \<Rightarrow> tools \<Rightarrow> int \<Rightarrow> msg list \<Rightarrow> (py_error + tool_run) option" where
  "chat_tools L load N E P max_new show_name tools max_turns messages =
     tool_turns L load N E P max_new show_name tools 0 (nat max_turns) None messages"

section \<open>Lemmas\<close>

text \<open>A generation, seen from its ledger and from its stream.\<close>

lemma run_prompt_stream:
  assumes "run_prompt N E P max_new images ids = Inr d"
  shows "\<exists>gen ds. prompt_len d = int (length ids) \<and> completion_len d = int (length gen)
      \<and> length gen \<le> nat max_new \<and> c_text d = t_decode (ef_coder E) gen \<and> finish_reason d \<noteq> Abort
      \<and> (\<forall>i. t_eos (ef_coder E) = Some i \<longrightarrow> i \<notin> set gen)
      \<and> generate_stream N (ef_model E) P (eos_stop (ef_coder E)) max_new images (t_decode (ef_coder E)) ids
          = (map (\<lambda>x. (x, None)) ds @ [([], Some (finish_reason d))], None)
      \<and> length ds = length gen
      \<and> ((\<forall>k < length gen. \<exists>ys. t_decode (ef_coder E) (take (Suc k) gen)
             = (if k = 0 then [] else t_decode (ef_coder E) (take k gen)) @ ys)
           \<longrightarrow> concat ds = (if gen = [] then [] else c_text d))"
proof -
  obtain out r n where g: "generate N (ef_model E) P (eos_stop (ef_coder E)) max_new images ids = Inr (out, r, n)"
    and d: "d = \<lparr>c_text = t_decode (ef_coder E) (drop (length ids) out), finish_reason = r,
                 prompt_len = int (length ids), completion_len = n, prompt_text = None, n_images = None\<rparr>"
    using assms by (auto simp: run_prompt_def rbind_Inr_iff)
  obtain gen where gen: "out = ids @ gen" "n = int (length gen)" "length gen \<le> nat max_new"
    "set gen \<inter> set (eos_stop (ef_coder E)) = {}" "r \<noteq> Abort"
    using generate_run [OF g] by blast
  obtain ds where ds: "generate_stream N (ef_model E) P (eos_stop (ef_coder E)) max_new images
        (t_decode (ef_coder E)) ids = (map (\<lambda>x. (x, None)) ds @ [([], Some r)], None)" "length ds = length gen"
    "(\<forall>k < length gen. \<exists>ys. t_decode (ef_coder E) (take (Suc k) gen)
        = (if k = 0 then [] else t_decode (ef_coder E) (take k gen)) @ ys)
      \<longrightarrow> concat ds = (if gen = [] then [] else t_decode (ef_coder E) gen)"
    using stream_run [of N "ef_model E" P "eos_stop (ef_coder E)" max_new images ids gen r n
        "t_decode (ef_coder E)"] g gen(1) by auto
  have "\<forall>i. t_eos (ef_coder E) = Some i \<longrightarrow> i \<notin> set gen"
    using gen(4) by (auto simp: eos_stop_def)
  with gen ds d show ?thesis by (intro exI [of _ gen] exI [of _ ds]) simp
qed

text \<open>Both entry points of a conversation make the same prompt.\<close>

lemma chat_detail_prompt:
  assumes "chat_detail L load N E P max_new add_gen messages = Some (Inr d)"
  shows "\<exists>ids images d0. run_prompt N E P max_new images ids = Inr d0
      \<and> c_text d = c_text d0 \<and> finish_reason d = finish_reason d0 \<and> prompt_len d = prompt_len d0
      \<and> completion_len d = completion_len d0
      \<and> stream_chat L load N E P max_new add_gen messages
          = Some (generate_stream N (ef_model E) P (eos_stop (ef_coder E)) max_new images
                    (t_decode (ef_coder E)) ids)"
proof (cases "messages_have_images messages \<and> ef_vision E")
  case True
  then obtain ids inputs n d0 where "vl_prompt L load E messages = Some (Inr ((ids, inputs), n))"
    "run_prompt N E P max_new inputs ids = Inr d0" "d = d0\<lparr>n_images := Some n\<rparr>"
    using assms by (auto simp: chat_detail_def vl_chat_detail_def rbind_Inr_iff)
  with True show ?thesis by (intro exI [of _ ids] exI [of _ inputs] exI [of _ d0]) (simp add: stream_chat_def)
next
  case False
  then obtain prompt d0 where p: "t_template (ef_coder E) messages add_gen = Inr prompt"
    and c: "complete_detail N E P max_new prompt = Inr d0" and d: "d = d0\<lparr>prompt_text := Some prompt\<rparr>"
    using assms unfolding chat_detail_def by (auto simp: rbind_Inr_iff)
  obtain ids where e: "t_encode (ef_coder E) prompt = Inr ids" and r: "run_prompt N E P max_new None ids = Inr d0"
    using c by (auto simp: complete_detail_def rbind_Inr_iff)
  have "stream_chat L load N E P max_new add_gen messages = Some (stream_complete N E P max_new prompt)"
    using False p unfolding stream_chat_def by auto
  with e r d show ?thesis
    by (intro exI [of _ ids] exI [of _ None] exI [of _ d0]) (simp add: stream_complete_def)
qed

lemma encode_messages_bos:
  assumes "encode_messages L messages mode [] drop_thinking True effort = Inr (p, images)"
  shows "\<exists>t. p = bos_token @ t"
proof -
  obtain A B x where c: "process_image_messages [] = Inr (A, B)"
    and t: "encode_messages_text L x mode A drop_thinking True effort = Inr p"
    using assms by (auto simp: encode_messages_def rbind_Inr_iff)
  have "A = []" using c by (simp add: process_image_messages_def)
  with t show ?thesis
    by (auto simp: encode_messages_text_def prepare_def rbind_Inr_iff Let_def split: if_splits)
qed

text \<open>The text of a prompt is unpacked as if it were a pair, so a turn of a DeepSeek model raises.\<close>

lemma dsv4_text_chat_raises: "\<exists>e. dsv4_text_chat_detail L N E P max_new messages = Inl e"
proof (cases "encode_messages L messages (lit ''chat'') [] True True None")
  case (Inr x)
  obtain t where "fst x = bos_token @ t"
    using encode_messages_bos [of L messages "lit ''chat''" True None "fst x" "snd x"] Inr by auto
  then have "unpack_two (fst x) = Inl ValueError"
    by (auto simp: unpack_two_def bos_token_def lit_def split: list.split)
  with Inr show ?thesis by (simp add: dsv4_text_chat_detail_def case_prod_beta)
qed (simp add: dsv4_text_chat_detail_def)

lemma dsv4_tool_loop_raises:
  assumes "is_dsv4 (ef_model E)" "0 < max_turns"
  shows "\<exists>e. chat_tools L load N E P max_new show_name tools max_turns messages = Some (Inl e)"
proof -
  obtain k where k: "nat max_turns = Suc k" using assms(2) by (cases "nat max_turns") auto
  obtain e where "dsv4_text_chat_detail L N E P max_new messages = Inl e" using dsv4_text_chat_raises by blast
  then have "turn_text L load N E P max_new messages = Some (Inl e)" using assms(1) by (simp add: turn_text_def)
  then show ?thesis by (simp add: chat_tools_def k)
qed

text \<open>Any other model answers in one turn, without tools.\<close>

lemma other_models_answer_once:
  assumes "\<not> is_dsv4 (ef_model E)" "0 < max_turns"
    and "chat L load N E P max_new True messages = Some (Inr s)"
  shows "chat_tools L load N E P max_new show_name tools max_turns messages
    = Some (Inr \<lparr>tr_assistant = Some (plain_answer s), tr_messages = messages, tr_turns = 1\<rparr>)"
proof -
  obtain k where k: "nat max_turns = Suc k" using assms(2) by (cases "nat max_turns") auto
  have "turn_text L load N E P max_new messages = Some (Inr s)"
    using assms(1,3) by (simp add: turn_text_def chat_def)
  then show ?thesis using assms(1) by (simp add: chat_tools_def k after_turn_def)
qed

text \<open>A tokenizer without a placeholder id serves no image.\<close>

lemma no_placeholder_no_vision:
  assumes "t_image (ef_coder E) = None"
  shows "\<exists>e. vl_chat_detail L load N E P max_new messages = Some (Inl e)"
  using assms by (auto simp: vl_chat_detail_def vl_prompt_def split: sum.split prod.split)

text \<open>The result of a tool call carries no role, so the next prompt cannot be rendered from it.\<close>

lemma tool_message_has_no_role:
  assumes "call_tool show_name tools tc = Inr m"
  shows "field m ''role'' = PNone"
proof -
  obtain i c where "m = [(lit ''tool_call_id'', i), (lit ''content'', c)]"
    using assms by (auto simp: call_tool_def rbind_Inr_iff Let_def)
  moreover have "lit ''role'' \<noteq> lit ''tool_call_id''" "lit ''role'' \<noteq> lit ''content''" by code_simp+
  ultimately show ?thesis by (simp add: field_def)
qed

section \<open>The property\<close>

text \<open>
  A conversation that completes streams the same answer.  The ledger counts the tokens of the
  prompt and of the answer, the answer is the decoding of at most \<open>max_new\<close> tokens without the end
  token, and the stream has an event per token, then one with the finish reason of the ledger; where
  decoding one more token only appends, its events concatenate to the text.
\<close>

theorem stream_chat_is_chat:
  assumes "chat_detail L load N E P max_new add_gen messages = Some (Inr d)"
  shows "\<exists>ids gen ds. prompt_len d = int (length (ids :: int list)) \<and> completion_len d = int (length gen)
      \<and> length gen \<le> nat max_new \<and> c_text d = t_decode (ef_coder E) gen \<and> finish_reason d \<noteq> Abort
      \<and> (\<forall>i. t_eos (ef_coder E) = Some i \<longrightarrow> i \<notin> set gen)
      \<and> stream_chat L load N E P max_new add_gen messages
          = Some (map (\<lambda>x. (x, None)) ds @ [([], Some (finish_reason d))], None)
      \<and> length ds = length gen
      \<and> ((\<forall>k < length gen. \<exists>ys. t_decode (ef_coder E) (take (Suc k) gen)
             = (if k = 0 then [] else t_decode (ef_coder E) (take k gen)) @ ys)
           \<longrightarrow> concat ds = (if gen = [] then [] else c_text d))"
proof -
  obtain ids images d0 where r: "run_prompt N E P max_new images ids = Inr d0"
    and s: "stream_chat L load N E P max_new add_gen messages
          = Some (generate_stream N (ef_model E) P (eos_stop (ef_coder E)) max_new images
                    (t_decode (ef_coder E)) ids)"
    and d: "c_text d = c_text d0" "finish_reason d = finish_reason d0" "prompt_len d = prompt_len d0"
      "completion_len d = completion_len d0"
    using chat_detail_prompt [OF assms] by blast
  show ?thesis unfolding s d by (rule exI [of _ ids]) (use run_prompt_stream [OF r] in simp)
qed

text \<open>A facade over the counting model, whose tokens are shown as digits.\<close>

definition digit_coder :: coder where
  "digit_coder = \<lparr>t_encode = (\<lambda>s. Inr [0]), t_decode = map (\<lambda>i. 48 + nat i), t_eos = Some 3,
     t_template = (\<lambda>ms g. Inr (lit ''x'')), t_image = None\<rparr>"

definition no_image :: "vision_args \<Rightarrow> pv \<Rightarrow> (py_error + unit list list list list \<times> int \<times> int \<times> int \<times> int) option" where
  "no_image a r = None"

definition digit_engine :: "(int, rat, unit) engine_facade" where
  "digit_engine = \<lparr>ef_model = \<lparr>supports_incremental = True, is_dsv4 = False, max_context = Some 8,
       prefill = (\<lambda>ids _. Inr (0, count_logits 0)), decode_step = (\<lambda>c t. Inr (count_logits t, t)),
       full_logits = (\<lambda>ids. Inl RuntimeError)\<rparr>,
     ef_coder = digit_coder, ef_vision = False, ef_vocab = 4, ef_args = default_vision_args\<rparr>"

theorem stream_chat_is_chat_witness:
  "\<exists>ds. stream_chat lib0 no_image numpy3 digit_engine argmax_params 5 True []
      = Some (map (\<lambda>x. (x, None)) ds @ [([], Some Stop)], None) \<and> length ds = 2"
proof -
  have "chat_detail lib0 no_image numpy3 digit_engine argmax_params 5 True []
      = Some (Inr \<lparr>c_text = lit ''12'', finish_reason = Stop, prompt_len = 1, completion_len = 2,
                   prompt_text = Some (lit ''x''), n_images = None\<rparr>)"
    by code_simp
  from stream_chat_is_chat [OF this] show ?thesis by auto
qed

end
