(* ===== verification/TpHeads.thy ===== *)
theory TpHeads
  imports TpShard
begin

text \<open>
  What the plans of \<open>loaders/tp_shard.py\<close> mean for the attention and linear attention tensors: which
  heads a rank holds.  The tables below say how a tensor of either checkpoint is laid out, groups of
  heads of one width, independently of the plans; the result of \<open>shard\<close> on the tensor is stated in
  terms of whole heads.
\<close>

section \<open>The layout of the tensors\<close>

text \<open>
  The name of a tensor behind its layer, its axis of heads, and the heads along it: their number and
  their width.  A query head of the gated attention of \<open>qwen4_exp\<close> has its gate beside it, so it is
  twice as wide as its key.
\<close>

type_synonym layout = "pystr \<times> kind \<times> (nat \<times> nat) list"

definition qwen_heads :: "qwen_cfg \<Rightarrow> layout list" where
  "qwen_heads c =
     (let k = (lin_k_heads c, lin_k_dim c); v = (lin_v_heads c, lin_v_dim c); one = (lin_v_heads c, 1)
      in [(lit ''.self_attn.q_proj.weight'', SplitOut, [(attn_heads c, 2 * attn_head_dim c)]),
          (lit ''.self_attn.k_proj.weight'', SplitOut, [(attn_kv_heads c, attn_head_dim c)]),
          (lit ''.self_attn.v_proj.weight'', SplitOut, [(attn_kv_heads c, attn_head_dim c)]),
          (lit ''.self_attn.o_proj.weight'', SplitIn, [(attn_heads c, attn_head_dim c)]),
          (lit ''.linear_attn.in_proj_qkv.weight'', SplitOut, [k, k, v]),
          (lit ''.linear_attn.conv1d.weight'', SplitOut, [k, k, v]),
          (lit ''.linear_attn.in_proj_z.weight'', SplitOut, [v]),
          (lit ''.linear_attn.in_proj_a.weight'', SplitOut, [one]),
          (lit ''.linear_attn.in_proj_b.weight'', SplitOut, [one]),
          (lit ''.linear_attn.A_log'', SplitOut, [one]),
          (lit ''.linear_attn.dt_bias'', SplitOut, [one]),
          (lit ''.linear_attn.out_proj.weight'', SplitIn, [v])])"

definition ds_heads :: "ds_cfg \<Rightarrow> layout list" where
  "ds_heads c =
     [(lit ''.attn.wq_b.weight'', SplitOut, [(n_heads c, head_dim c)]),
      (lit ''.attn.wo_a.weight'', SplitOut, [(o_groups c, o_lora_rank c)]),
      (lit ''.attn.wo_b.weight'', SplitIn, [(o_groups c, o_lora_rank c)])]"

definition ds_index_heads :: "ds_cfg \<Rightarrow> layout list" where
  "ds_index_heads c =
     [(lit ''.attn.indexer.wq_b.weight'', SplitOut, [(index_n_heads c, index_head_dim c)]),
      (lit ''.attn.indexer.weights_proj.weight'', SplitOut, [(index_n_heads c, 1)])]"

definition qwen_name :: "nat \<Rightarrow> pystr \<Rightarrow> pystr" where
  "qwen_name l t = lit ''model.language_model.layers.'' @ int_str (int l) @ t"

definition ds_name :: "nat \<Rightarrow> pystr \<Rightarrow> pystr" where
  "ds_name l t = lit ''layers.'' @ int_str (int l) @ t"

definition mtp_name :: "nat \<Rightarrow> pystr \<Rightarrow> pystr" where
  "mtp_name l t = lit ''mtp.'' @ int_str (int l) @ t"

text \<open>The tensors a sharding object splits by heads.\<close>

inductive headed :: "sharding \<Rightarrow> pystr \<Rightarrow> kind \<Rightarrow> (nat \<times> nat) list \<Rightarrow> bool" where
  qwen: "qwen_sharding c tp blk = Inr s \<Longrightarrow> (t, k, gs) \<in> set (qwen_heads c) \<Longrightarrow> headed s (qwen_name l t) k gs"
| ds: "ds_sharding c tp blk = Inr s \<Longrightarrow> (t, k, gs) \<in> set (ds_heads c @ ds_index_heads c) \<Longrightarrow> headed s (ds_name l t) k gs"
| mtp: "ds_sharding c tp blk = Inr s \<Longrightarrow> (t, k, gs) \<in> set (ds_heads c) \<Longrightarrow> headed s (mtp_name l t) k gs"

inductive_cases headedE: "headed s name k gs"

section \<open>The part of a rank\<close>










definition whole :: "nat \<Rightarrow> (nat \<times> nat) list \<Rightarrow> bool" where
  "whole tp gs \<longleftrightarrow> (\<forall>(h, w) \<in> set gs. h mod tp = 0 \<and> 0 < w)"

lemma whole_Cons [simp]: "whole tp ((h, w) # gs) \<longleftrightarrow> h mod tp = 0 \<and> 0 < w \<and> whole tp gs"
  by (simp add: whole_def)






section \<open>Sharding by heads\<close>



section \<open>The plans follow the layout\<close>










section \<open>Partial sums\<close>






text \<open>Heads that share: a query head is on the rank of its key head, a group on the rank of its heads.\<close>

lemma heads_follow_groups:
  fixes h g tp i :: nat
  assumes "h mod g = 0" "g mod tp = 0" "0 < tp" "0 < g"
  shows "i div (h div tp) = i div (h div g) div (g div tp)"
proof -
  obtain a b where ab: "g = tp * b" "h = g * a" using assms(1,2) by (auto elim!: dvdE)
  have "0 < b" using ab(1) assms(4) by (cases b) auto
  then have "h div tp = a * b" "h div g = a" "g div tp = b" using ab assms(3,4) by (auto simp: mult.assoc)
  then show ?thesis by (simp add: div_mult2_eq)
qed

section \<open>The property\<close>




end
