(* ===== verification/Tensor.thy ===== *)
theory Tensor
  imports PyText Complex_Main
begin

text \<open>
  The numpy operations of the reference models, and the primitives of \<open>ref/qwen3_5.py\<close> the model
  families share: norms, projections, rotary embedding, attention, the dense MLP.

  The engine runs one sequence, so the batch axis of an array, of length one, is left out: a hidden
  state is the list of its rows, an attention tensor the list of its positions or heads.  Numbers
  are elements of an ordered field: float32 and float64 arithmetic is idealised to exact arithmetic,
  and \<open>exp\<close>, powers and the other functions of numpy are the record \<open>mathlib\<close>.  Minus infinity occurs
  only as the mask of attention scores and is \<open>None\<close> there.  Shapes that numpy refuses raise
  \<open>ValueError\<close>; an array with a row length of one is broadcast.
\<close>

section \<open>Rows\<close>

record 'f mathlib =
  m_exp :: "'f \<Rightarrow> 'f"
  m_cos :: "'f \<Rightarrow> 'f"
  m_sin :: "'f \<Rightarrow> 'f"
  m_sqrt :: "'f \<Rightarrow> 'f"
  m_pow :: "'f \<Rightarrow> 'f \<Rightarrow> 'f"
  m_logaddexp :: "'f \<Rightarrow> 'f \<Rightarrow> 'f"

definition row_op :: "('f \<Rightarrow> 'f \<Rightarrow> 'f) \<Rightarrow> 'f list \<Rightarrow> 'f list \<Rightarrow> py_error + 'f list" where
  "row_op f x y =
     (if length x = length y then Inr (map2 f x y)
      else if length y = 1 then Inr (map (\<lambda>a. f a (hd y)) x)
      else if length x = 1 then Inr (map (f (hd x)) y)
      else Inl ValueError)"

definition dot :: "'f::semiring_0 list \<Rightarrow> 'f list \<Rightarrow> 'f" where
  "dot x y = sum_list (map2 (*) x y)"

text \<open>\<open>x @ w.T\<close> for one row\<close>

definition project :: "'f::semiring_0 list list \<Rightarrow> 'f list \<Rightarrow> py_error + 'f list" where
  "project w x = (if list_all (\<lambda>r. length r = length x) w then Inr (map (dot x) w) else Inl ValueError)"

definition linear :: "'f::semiring_0 list list \<Rightarrow> 'f list option \<Rightarrow> 'f list \<Rightarrow> py_error + 'f list" where
  "linear w bias x =
     rbind (project w x) (\<lambda>out. case bias of None \<Rightarrow> Inr out | Some v \<Rightarrow> row_op (+) out v)"

definition silu :: "'f mathlib \<Rightarrow> 'f \<Rightarrow> 'f::field" where
  "silu M x = x * (1 / (1 + m_exp M (- x)))"

definition sigmoid :: "'f mathlib \<Rightarrow> 'f \<Rightarrow> 'f::field" where
  "sigmoid M x = 1 / (1 + m_exp M (- x))"

definition softplus :: "'f mathlib \<Rightarrow> 'f \<Rightarrow> 'f::field" where
  "softplus M x = m_logaddexp M x 0"

text \<open>\<open>xf * (var + eps) ** -0.5\<close>\<close>

definition normalized :: "'f mathlib \<Rightarrow> 'f \<Rightarrow> 'f::field list \<Rightarrow> 'f list" where
  "normalized M eps x =
     (let var = sum_list (map (\<lambda>a. a * a) x) / of_nat (length x)
      in map (\<lambda>a. a * m_pow M (var + eps) (- (1 / 2))) x)"

definition rms_norm_plain :: "'f mathlib \<Rightarrow> 'f \<Rightarrow> 'f::field list \<Rightarrow> 'f list \<Rightarrow> py_error + 'f list" where
  "rms_norm_plain M eps w x = row_op (*) (normalized M eps x) w"

definition rms_norm :: "'f mathlib \<Rightarrow> 'f \<Rightarrow> 'f::field list \<Rightarrow> 'f list \<Rightarrow> py_error + 'f list" where
  "rms_norm M eps w x = row_op (*) (normalized M eps x) (map ((+) 1) w)"

definition rms_norm_gated ::
    "'f mathlib \<Rightarrow> 'f \<Rightarrow> 'f::field list \<Rightarrow> 'f list \<Rightarrow> 'f list \<Rightarrow> py_error + 'f list" where
  "rms_norm_gated M eps w gate x =
     rbind (row_op (*) (normalized M eps x) w) (\<lambda>out. row_op (*) out (map (silu M) gate))"

text \<open>\<open>reshape(..., n, d)\<close> of a row\<close>

definition heads :: "nat \<Rightarrow> nat \<Rightarrow> 'a list \<Rightarrow> py_error + 'a list list" where
  "heads n d x =
     (if length x = n * d then Inr (map (\<lambda>h. take d (drop (h * d) x)) [0..<n]) else Inl ValueError)"

section \<open>Rotary embedding\<close>

definition rotate_half :: "'f::uminus list \<Rightarrow> 'f list" where
  "rotate_half x = (let n = length x div 2 in map uminus (drop n x) @ take n x)"

definition compute_cos_sin :: "'f mathlib \<Rightarrow> 'f \<Rightarrow> nat \<Rightarrow> nat \<Rightarrow> 'f::field list \<times> 'f list" where
  "compute_cos_sin M theta rdim pos =
     (let inv_freq = map (\<lambda>j. 1 / m_pow M theta (of_nat (2 * j) / of_nat rdim)) [0..<(rdim + 1) div 2];
          freqs = map (\<lambda>f. of_nat pos * f) inv_freq;
          emb = freqs @ freqs
      in (map (m_cos M) emb, map (m_sin M) emb))"

definition apply_rotary :: "'f::ring list \<times> 'f list \<Rightarrow> 'f list \<Rightarrow> py_error + 'f list" where
  "apply_rotary cs x =
     (case cs of (c, s) \<Rightarrow>
        let rot = take (length c) x; pass = drop (length c) x
        in rbind (row_op (*) rot c) (\<lambda>a.
           rbind (row_op (*) (rotate_half rot) s) (\<lambda>b.
           rbind (row_op (+) a b) (\<lambda>e. Inr (e @ pass)))))"

section \<open>Attention\<close>

text \<open>\<open>matmul(probs, v)\<close> for one row of probabilities\<close>

definition mix :: "'f::semiring_0 list \<Rightarrow> 'f list list \<Rightarrow> 'f list" where
  "mix ps vs = map (\<lambda>d. sum_list (map2 (\<lambda>p v. p * v ! d) ps vs)) [0..<length (hd vs)]"

text \<open>The largest score of a row; a masked score is below all others.\<close>

fun top_score :: "'f::linorder option list \<Rightarrow> 'f option" where
  "top_score [] = None"
| "top_score (None # ss) = top_score ss"
| "top_score (Some a # ss) = Some (case top_score ss of None \<Rightarrow> a | Some b \<Rightarrow> max a b)"

text \<open>The exponential of minus infinity is zero.\<close>

definition masked_probs :: "'f mathlib \<Rightarrow> 'f option list \<Rightarrow> 'f::linordered_field list" where
  "masked_probs M scores =
     (let e = map (\<lambda>s. case (s, top_score scores) of (Some a, Some m) \<Rightarrow> m_exp M (a - m) | _ \<Rightarrow> 0) scores
      in map (\<lambda>a. a / sum_list e) e)"

text \<open>One head of \<open>eager_attention\<close>: \<open>np.triu(..., 1)\<close> masks the keys after the query.\<close>

definition eager_attention ::
    "'f mathlib \<Rightarrow> 'f \<Rightarrow> 'f::linordered_field list list \<Rightarrow> 'f list list \<Rightarrow> 'f list list \<Rightarrow> 'f list list" where
  "eager_attention M scale q k v =
     map (\<lambda>i. mix (masked_probs M (map (\<lambda>j. if i < j then None else Some (dot (q ! i) (k ! j) * scale))
                                      [0..<length k])) v)
       [0..<length q]"

text \<open>One head of \<open>_last_row_attention\<close>.\<close>

definition last_row_attention ::
    "'f mathlib \<Rightarrow> 'f \<Rightarrow> 'f::linordered_field list \<Rightarrow> 'f list list \<Rightarrow> 'f list list \<Rightarrow> 'f list" where
  "last_row_attention M scale q k v =
     (let scores = map (\<lambda>x. dot q x * scale) k;
          e = map (\<lambda>s. m_exp M (s - Max (set scores))) scores
      in mix (map (\<lambda>a. a / sum_list e) e) v)"

text \<open>\<open>np.repeat(k, n_rep, axis)\<close> along the heads\<close>

definition replicated :: "nat \<Rightarrow> 'a list \<Rightarrow> 'a list" where
  "replicated n hs = (if n > 1 then concat (map (replicate n) hs) else hs)"

definition head_of :: "nat \<Rightarrow> 'a list list \<Rightarrow> 'a list" where
  "head_of h rows = map (\<lambda>r. r ! h) rows"

text \<open>\<open>num_heads // kv_heads\<close>\<close>

definition n_rep :: "nat \<Rightarrow> nat \<Rightarrow> py_error + nat" where
  "n_rep nh kvh = (if kvh = 0 then Inl ZeroDivisionError else Inr (nh div kvh))"

text \<open>
  Attention of all heads over positions, \<open>matmul\<close> of which refuses keys with another number of heads
  than the queries; the result is a row of all heads per position.
\<close>

definition attend_all ::
    "'f mathlib \<Rightarrow> nat \<Rightarrow> nat \<Rightarrow> nat \<Rightarrow> 'f::linordered_field list list list \<Rightarrow> 'f list list list \<Rightarrow> 'f list list list
     \<Rightarrow> py_error + 'f list list" where
  "attend_all M nh kvh hdim q k v =
     rbind (n_rep nh kvh) (\<lambda>n.
       if length (replicated n (replicate kvh ())) \<noteq> nh then Inl ValueError
       else let scale = m_pow M (of_nat hdim) (- (1 / 2));
                kr = map (replicated n) k; vr = map (replicated n) v;
                out = map (\<lambda>h. eager_attention M scale (head_of h q) (head_of h kr) (head_of h vr)) [0..<nh]
            in Inr (map (\<lambda>i. concat (map (\<lambda>o'. o' ! i) out)) [0..<length q]))"

text \<open>The same for the last position, over the cached keys and values of each head.\<close>

definition attend_last ::
    "'f mathlib \<Rightarrow> nat \<Rightarrow> nat \<Rightarrow> nat \<Rightarrow> 'f::linordered_field list list \<Rightarrow> 'f list list list \<Rightarrow> 'f list list list
     \<Rightarrow> py_error + 'f list" where
  "attend_last M nh kvh hdim q kc vc =
     rbind (n_rep nh kvh) (\<lambda>n.
       if length (replicated n kc) \<noteq> nh then Inl ValueError
       else let scale = m_pow M (of_nat hdim) (- (1 / 2)); kt = replicated n kc; vt = replicated n vc
            in Inr (concat (map (\<lambda>h. last_row_attention M scale (q ! h) (kt ! h) (vt ! h)) [0..<nh])))"

definition mlp_forward ::
    "'f mathlib \<Rightarrow> 'f::field list list \<Rightarrow> 'f list list \<Rightarrow> 'f list list \<Rightarrow> 'f list \<Rightarrow> py_error + 'f list" where
  "mlp_forward M w_gate w_up w_down x =
     rbind (linear w_gate None x) (\<lambda>g. rbind (linear w_up None x) (\<lambda>u.
       rbind (row_op (*) (map (silu M) g) u) (linear w_down None)))"

section \<open>Weights\<close>

datatype 'f weight = Vec "'f list" | Mat "'f list list"

definition wmat :: "(pystr, 'f weight) dict \<Rightarrow> pystr \<Rightarrow> py_error + 'f list list" where
  "wmat W name =
     (case dget W name of None \<Rightarrow> Inl KeyError | Some (Mat m) \<Rightarrow> Inr m | Some (Vec _) \<Rightarrow> Inl ValueError)"

definition wvec :: "(pystr, 'f weight) dict \<Rightarrow> pystr \<Rightarrow> py_error + 'f list" where
  "wvec W name =
     (case dget W name of None \<Rightarrow> Inl KeyError | Some (Vec v) \<Rightarrow> Inr v | Some (Mat _) \<Rightarrow> Inl ValueError)"

definition wbias :: "(pystr, 'f weight) dict \<Rightarrow> pystr \<Rightarrow> py_error + 'f list option" where
  "wbias W name =
     (case dget W name of None \<Rightarrow> Inr None | Some (Vec v) \<Rightarrow> Inr (Some v) | Some (Mat _) \<Rightarrow> Inl ValueError)"

text \<open>\<open>embed_w[i]\<close>: a negative id counts from the end.\<close>

definition embed :: "'f list list \<Rightarrow> int \<Rightarrow> py_error + 'f list" where
  "embed w i =
     (let n = int (length w) in
      if 0 \<le> i \<and> i < n then Inr (w ! nat i)
      else if - n \<le> i \<and> i < 0 then Inr (w ! nat (i + n)) else Inl IndexError)"

section \<open>Lemmas\<close>

lemma rmap_snoc:
  "rmap f (xs @ [x]) = Inr zs \<longleftrightarrow> (\<exists>ys y. zs = ys @ [y] \<and> rmap f xs = Inr ys \<and> f x = Inr y)"
  by (auto simp: rmap_append rbind_Inr_iff)

lemma top_score_append: "top_score (xs @ replicate n None) = top_score xs"
  by (induction xs rule: top_score.induct) (auto simp: replicate_add, induction n, auto)

lemma top_score_Some: "xs \<noteq> [] \<Longrightarrow> top_score (map Some xs) = Some (Max (set xs))"
proof (induction xs)
  case (Cons x xs)
  then show ?case by (cases "xs = []") auto
qed simp

lemma sum_zeros [simp]: "sum_list (map2 (\<lambda>p v. p * v ! d) (replicate n (0::'f::semiring_0)) ws) = 0"
proof (induction ws arbitrary: n)
  case (Cons w ws)
  then show ?case by (cases n) auto
qed simp

lemma mix_zero_tail:
  "length ps = length vs \<Longrightarrow> vs \<noteq> [] \<Longrightarrow> mix (ps @ replicate n 0) (vs @ ws) = mix ps vs"
  by (simp add: mix_def)

text \<open>The causal mask: a row of eager attention sees the keys up to its own position.\<close>

lemma eager_row:
  assumes "length k = length v" "i < length k" "i < length q"
  shows "eager_attention M scale q k v ! i
    = last_row_attention M scale (q ! i) (take (Suc i) k) (take (Suc i) v)"
proof -
  define sc where "sc = map (\<lambda>x. dot (q ! i) x * scale) (take (Suc i) k)"
  let ?m = "length k - Suc i"
  let ?p = "let e = map (\<lambda>s. m_exp M (s - Max (set sc))) sc in map (\<lambda>a. a / sum_list e) e"
  have len: "length sc = Suc i" using assms(2) by (simp add: sc_def)
  have "map (\<lambda>j. if i < j then None else Some (dot (q ! i) (k ! j) * scale)) [0..<length k]
      = map Some sc @ replicate ?m None" (is "?l = ?r")
  proof (rule nth_equalityI)
    fix j assume "j < length ?l"
    then show "?l ! j = ?r ! j" using assms(2) len by (auto simp: nth_append sc_def)
  qed (use assms(2) len in simp)
  then have "eager_attention M scale q k v ! i = mix (masked_probs M (map Some sc @ replicate ?m None)) v"
    using assms(3) by (simp add: eager_attention_def cong: if_cong)
  also have "masked_probs M (map Some sc @ replicate ?m None) = ?p @ replicate ?m 0"
  proof -
    have "top_score (map Some sc @ replicate ?m None) = Some (Max (set sc))"
      unfolding top_score_append using len by (intro top_score_Some) auto
    then show ?thesis by (simp add: masked_probs_def Let_def comp_def sum_list_replicate)
  qed
  also have "mix (?p @ replicate ?m 0) v = mix ?p (take (Suc i) v)"
    using mix_zero_tail [of ?p "take (Suc i) v" ?m "drop (Suc i) v"] assms len
    by (cases v) (auto simp: Let_def)
  finally show ?thesis by (simp only: last_row_attention_def Let_def sc_def)
qed

lemma eager_length [simp]: "length (eager_attention M scale q k v) = length q"
  by (simp add: eager_attention_def)

lemma eager_snoc:
  assumes "length q = length k" "length k = length v"
  shows "eager_attention M scale (q @ [x]) (k @ [y]) (v @ [z])
    = eager_attention M scale q k v @ [last_row_attention M scale x (k @ [y]) (v @ [z])]"
proof (rule nth_equalityI)
  fix i assume i: "i < length (eager_attention M scale (q @ [x]) (k @ [y]) (v @ [z]))"
  show "eager_attention M scale (q @ [x]) (k @ [y]) (v @ [z]) ! i
    = (eager_attention M scale q k v @ [last_row_attention M scale x (k @ [y]) (v @ [z])]) ! i"
  proof (cases "i < length q")
    case True
    then show ?thesis using assms i
      by (simp add: eager_row [of "k @ [y]" "v @ [z]" i "q @ [x]"] eager_row [of k v i q] nth_append)
  next
    case False
    then have "i = length q" using i by simp
    then show ?thesis using assms eager_row [of "k @ [y]" "v @ [z]" "length q" "q @ [x]"]
      by (simp add: nth_append)
  qed
qed simp

lemma head_of_snoc [simp]: "head_of h (rows @ [r]) = head_of h rows @ [r ! h]"
  by (simp add: head_of_def)

lemma length_head_of [simp]: "length (head_of h rows) = length rows"
  by (simp add: head_of_def)

text \<open>The cache of a tensor of positions: per head, its rows in order.\<close>

definition by_head :: "nat \<Rightarrow> 'a list list \<Rightarrow> 'a list list" where
  "by_head n rows = map (\<lambda>h. head_of h rows) [0..<n]"

lemma replicated_nth: "h < length (replicated n xs) \<Longrightarrow> replicated n xs ! h = xs ! (h div (max (Suc 0) n))"
proof (cases "n > 1")
  case True
  then have "max (Suc 0) n = n" by simp
  assume "h < length (replicated n xs)"
  moreover have "length (concat (map (replicate n) xs)) = length xs * n" for xs :: "'a list"
    by (induction xs) auto
  moreover have "concat (map (replicate n) xs) ! h = xs ! (h div n)" if "h < length xs * n" for h
    using that
  proof (induction xs arbitrary: h)
    case (Cons x xs)
    show ?case
    proof (cases "h < n")
      case False
      then have "h - n < length xs * n" using Cons.prems by simp
      moreover have "h div n = Suc ((h - n) div n)"
        using False True by (simp add: div_if)
      ultimately show ?thesis using False Cons.IH [of "h - n"] by (simp add: nth_append)
    qed (simp add: nth_append)
  qed simp
  ultimately show ?thesis using True \<open>max (Suc 0) n = n\<close> by (simp add: replicated_def)
qed (simp add: replicated_def max_def)

lemma length_replicated: "length (replicated n xs) = length xs * (max (Suc 0) n)"
  by (induction xs) (auto simp: replicated_def max_def)

lemma head_of_replicated:
  assumes "\<forall>r \<in> set rows. length r = kvh" "h < kvh * (max (Suc 0) n)"
  shows "head_of h (map (replicated n) rows) = head_of (h div (max (Suc 0) n)) rows"
  using assms by (auto simp: head_of_def intro!: replicated_nth simp: length_replicated)

lemma rows_snoc:
  assumes "\<And>h. h < nh \<Longrightarrow> F' h = F h @ [L h]" "\<And>h. h < nh \<Longrightarrow> length (F h) = n"
  shows "map (\<lambda>i. concat (map (\<lambda>o'. o' ! i) (map F' [0..<nh]))) [0..<Suc n]
    = map (\<lambda>i. concat (map (\<lambda>o'. o' ! i) (map F [0..<nh]))) [0..<n] @ [concat (map L [0..<nh])]"
proof -
  have "concat (map (\<lambda>h. F' h ! i) [0..<nh]) = concat (map (\<lambda>h. F h ! i) [0..<nh])" if "i < n" for i
    using assms that by (intro arg_cong [where f = concat] map_cong refl) (simp add: nth_append)
  moreover have "concat (map (\<lambda>h. F' h ! n) [0..<nh]) = concat (map L [0..<nh])"
    using assms by (intro arg_cong [where f = concat] map_cong refl) (simp add: nth_append)
  ultimately show ?thesis by (simp add: comp_def)
qed

lemma attend_snoc:
  assumes "length q = length k" "length k = length v" "\<forall>r \<in> set k. length r = kvh" "\<forall>r \<in> set v. length r = kvh"
    and "length y = kvh" "length z = kvh"
  shows "attend_all M nh kvh hdim (q @ [x]) (k @ [y]) (v @ [z]) = Inr os' \<longleftrightarrow>
    (\<exists>os o'. os' = os @ [o'] \<and> attend_all M nh kvh hdim q k v = Inr os
      \<and> attend_last M nh kvh hdim x (by_head kvh (k @ [y])) (by_head kvh (v @ [z])) = Inr o')"
proof (cases "n_rep nh kvh")
  case (Inr n)
  let ?c = "max (Suc 0) n" and ?s = "m_pow M (of_nat hdim) (- (1 / 2)) :: 'a"
  show ?thesis
  proof (cases "kvh * ?c = nh")
    case True
    let ?O = "\<lambda>q k v. map (\<lambda>h. eager_attention M ?s (head_of h q)
        (head_of h (map (replicated n) k)) (head_of h (map (replicated n) v))) [0..<nh]"
    let ?L = "map (\<lambda>h. last_row_attention M ?s (x ! h) (head_of (h div ?c) (k @ [y]))
        (head_of (h div ?c) (v @ [z]))) [0..<nh]"
    have yz: "replicated n y ! h = y ! (h div ?c)" "replicated n z ! h = z ! (h div ?c)" if "h < nh" for h
      using that assms(5,6) True by (auto intro!: replicated_nth simp: length_replicated)
    have hk: "head_of h (map (replicated n) k) = head_of (h div ?c) k"
      "head_of h (map (replicated n) v) = head_of (h div ?c) v" if "h < nh" for h
      using that assms(3,4) True by (auto intro!: head_of_replicated)
    have rows: "map (\<lambda>i. concat (map (\<lambda>o'. o' ! i) (?O (q @ [x]) (k @ [y]) (v @ [z])))) [0..<Suc (length q)]
        = map (\<lambda>i. concat (map (\<lambda>o'. o' ! i) (?O q k v))) [0..<length q] @ [concat ?L]"
      using assms(1,2) by (intro rows_snoc) (simp_all add: eager_snoc yz hk)
    have kt: "replicated n (by_head kvh r) ! h = head_of (h div ?c) r" if "h < nh" for h and r :: "'a list list list"
    proof -
      have "h div ?c < kvh" using that True by (auto simp: less_mult_imp_div_less)
      then show ?thesis using that True
        by (simp add: replicated_nth length_replicated by_head_def)
    qed
    have last: "attend_last M nh kvh hdim x (by_head kvh (k @ [y])) (by_head kvh (v @ [z])) = Inr (concat ?L)"
    proof -
      have "map (\<lambda>h. last_row_attention M ?s (x ! h) (replicated n (by_head kvh (k @ [y])) ! h)
          (replicated n (by_head kvh (v @ [z])) ! h)) [0..<nh] = ?L"
        by (intro map_cong refl) (simp only: kt set_upt atLeastLessThan_iff)
      moreover have "length (by_head kvh (k @ [y])) = kvh" by (simp add: by_head_def)
      ultimately show ?thesis using Inr True
        by (simp only: attend_last_def Let_def length_replicated rbind_simps if_False not_True_eq_False simp_thms)
    qed
    show ?thesis using Inr True rows last
      by (auto simp: attend_all_def Let_def length_replicated)
  qed (use Inr in \<open>auto simp: attend_all_def length_replicated\<close>)
qed (auto simp: attend_all_def)

end
