(* ===== verification/DeltaRule.thy ===== *)
theory DeltaRule
  imports Tensor
begin

text \<open>
  The gated delta rule of \<open>ref/qwen3_5.py\<close>, the core of the linear attention layers: the recurrent
  form, which decoding uses one token at a time, and the chunked form, which prefill uses.  Both work
  on each head by itself, so a head is what is modelled first: its tokens, and a state of \<open>kd\<close> rows
  of \<open>vd\<close> numbers.

  The chunked form never builds the states between the tokens of a chunk: it solves a triangular
  system for the updates.  It computes the same numbers as the recurrent form.
\<close>

section \<open>One head\<close>

record 'f token =
  tq :: "'f list"
  tk :: "'f list"
  tv :: "'f list"
  tbeta :: 'f
  tg :: 'f

text \<open>The body of the loop of \<open>gated_delta_rule_recurrent\<close>.\<close>

definition delta_step ::
    "'f mathlib \<Rightarrow> nat \<Rightarrow> nat \<Rightarrow> 'f list list \<Rightarrow> 'f token \<Rightarrow> 'f::field list \<times> 'f list list" where
  "delta_step M kd vd state t =
     (let state = map (\<lambda>a. map (\<lambda>d. state ! a ! d * m_exp M (tg t)) [0..<vd]) [0..<kd];
          kv_mem = map (\<lambda>d. \<Sum>a<kd. state ! a ! d * tk t ! a) [0..<vd];
          delta = map (\<lambda>d. (tv t ! d - kv_mem ! d) * tbeta t) [0..<vd];
          state = map (\<lambda>a. map (\<lambda>d. state ! a ! d + tk t ! a * delta ! d) [0..<vd]) [0..<kd]
      in (map (\<lambda>d. \<Sum>a<kd. state ! a ! d * tq t ! a) [0..<vd], state))"

fun delta_recurrent ::
    "'f mathlib \<Rightarrow> nat \<Rightarrow> nat \<Rightarrow> 'f list list \<Rightarrow> 'f token list \<Rightarrow> 'f::field list list \<times> 'f list list" where
  "delta_recurrent M kd vd state [] = ([], state)"
| "delta_recurrent M kd vd state (t # ts) =
     (let (out, state) = delta_step M kd vd state t; (outs, state) = delta_recurrent M kd vd state ts
      in (out # outs, state))"

text \<open>\<open>_solve_unit_lower\<close>: forward substitution; the diagonal is taken to be one.\<close>

definition solve_unit_lower :: "'f::field list list \<Rightarrow> 'f list list \<Rightarrow> nat \<Rightarrow> 'f list list" where
  "solve_unit_lower L b m =
     foldl (\<lambda>x i. x @ [map (\<lambda>c. b ! i ! c - (\<Sum>j<i. L ! i ! j * x ! j ! c)) [0..<m]]) [] [0..<length b]"

text \<open>One chunk of \<open>gated_delta_rule_chunked\<close>; the exponential of the masked minus infinity is zero.\<close>

definition delta_chunk ::
    "'f mathlib \<Rightarrow> nat \<Rightarrow> nat \<Rightarrow> 'f list list \<Rightarrow> 'f token list \<Rightarrow> 'f::field list list \<times> 'f list list" where
  "delta_chunk M kd vd state ts =
     (let n = length ts;
          v_beta = map (\<lambda>t. map (\<lambda>d. tv t ! d * tbeta t) [0..<vd]) ts;
          k_beta = map (\<lambda>t. map (\<lambda>a. tk t ! a * tbeta t) [0..<kd]) ts;
          cum_decay = map (\<lambda>i. \<Sum>j\<le>i. tg (ts ! j)) [0..<n];
          pairwise = map (\<lambda>i. map (\<lambda>j. if i < j then 0 else m_exp M (cum_decay ! i - cum_decay ! j)) [0..<n]) [0..<n];
          ut_system = map (\<lambda>i. map (\<lambda>j. (\<Sum>a<kd. k_beta ! i ! a * tk (ts ! j) ! a) * pairwise ! i ! j) [0..<n]) [0..<n];
          intra = map (\<lambda>i. map (\<lambda>j. (\<Sum>a<kd. tq (ts ! i) ! a * tk (ts ! j) ! a) * pairwise ! i ! j) [0..<n]) [0..<n];
          decayed_k_beta = map (\<lambda>i. map (\<lambda>a. k_beta ! i ! a * m_exp M (cum_decay ! i)) [0..<kd]) [0..<n];
          new_values = solve_unit_lower ut_system v_beta vd;
          k_cumdecay = solve_unit_lower ut_system decayed_k_beta kd;
          q = map (\<lambda>i. map (\<lambda>a. tq (ts ! i) ! a * m_exp M (cum_decay ! i)) [0..<kd]) [0..<n];
          k = map (\<lambda>i. map (\<lambda>a. tk (ts ! i) ! a * m_exp M (cum_decay ! (n - 1) - cum_decay ! i)) [0..<kd]) [0..<n];
          v_new = map (\<lambda>i. map (\<lambda>d. new_values ! i ! d - (\<Sum>a<kd. k_cumdecay ! i ! a * state ! a ! d)) [0..<vd]) [0..<n];
          inter = map (\<lambda>i. map (\<lambda>d. \<Sum>a<kd. q ! i ! a * state ! a ! d) [0..<vd]) [0..<n];
          core = map (\<lambda>i. map (\<lambda>d. inter ! i ! d + (\<Sum>j<n. intra ! i ! j * v_new ! j ! d)) [0..<vd]) [0..<n];
          state = map (\<lambda>a. map (\<lambda>d. state ! a ! d * m_exp M (cum_decay ! (n - 1)) + (\<Sum>i<n. k ! i ! a * v_new ! i ! d))
                         [0..<vd]) [0..<kd]
      in (core, state))"

fun delta_chunks ::
    "'f mathlib \<Rightarrow> nat \<Rightarrow> nat \<Rightarrow> 'f list list \<Rightarrow> 'f token list list \<Rightarrow> 'f::field list list \<times> 'f list list" where
  "delta_chunks M kd vd state [] = ([], state)"
| "delta_chunks M kd vd state (c # cs) =
     (let (core, state) = delta_chunk M kd vd state c; (cores, state) = delta_chunks M kd vd state cs
      in (core @ cores, state))"

definition zero_token :: "nat \<Rightarrow> nat \<Rightarrow> 'f::zero token" where
  "zero_token kd vd = \<lparr>tq = replicate kd 0, tk = replicate kd 0, tv = replicate vd 0, tbeta = 0, tg = 0\<rparr>"

definition in_chunks :: "nat \<Rightarrow> 'a list \<Rightarrow> 'a list list" where
  "in_chunks n xs = map (\<lambda>i. take n (drop (i * n) xs)) [0..<length xs div n]"

definition delta_chunked ::
    "'f mathlib \<Rightarrow> nat \<Rightarrow> nat \<Rightarrow> nat \<Rightarrow> 'f list list \<Rightarrow> 'f token list \<Rightarrow> 'f::field list list \<times> 'f list list" where
  "delta_chunked M kd vd chunk_size state ts =
     (let s = length ts; pad = (chunk_size - s mod chunk_size) mod chunk_size;
          (core, final) = delta_chunks M kd vd state (in_chunks chunk_size (ts @ replicate pad (zero_token kd vd)))
      in (take s core, final))"

section \<open>The states of the recurrence\<close>

text \<open>The state before token \<open>i\<close> and the update token \<open>i\<close> makes, as functions of the indices.\<close>

fun rec_state :: "'f mathlib \<Rightarrow> nat \<Rightarrow> 'f list list \<Rightarrow> 'f token list \<Rightarrow> nat \<Rightarrow> nat \<Rightarrow> nat \<Rightarrow> 'f::field" where
  "rec_state M kd S ts 0 a d = S ! a ! d"
| "rec_state M kd S ts (Suc i) a d =
     rec_state M kd S ts i a d * m_exp M (tg (ts ! i))
     + tk (ts ! i) ! a * ((tv (ts ! i) ! d
         - (\<Sum>b<kd. rec_state M kd S ts i b d * m_exp M (tg (ts ! i)) * tk (ts ! i) ! b)) * tbeta (ts ! i))"

definition rec_delta :: "'f mathlib \<Rightarrow> nat \<Rightarrow> 'f list list \<Rightarrow> 'f token list \<Rightarrow> nat \<Rightarrow> nat \<Rightarrow> 'f::field" where
  "rec_delta M kd S ts i d =
     (tv (ts ! i) ! d
      - (\<Sum>b<kd. rec_state M kd S ts i b d * m_exp M (tg (ts ! i)) * tk (ts ! i) ! b)) * tbeta (ts ! i)"

lemma rec_state_Suc:
  "rec_state M kd S ts (Suc i) a d
     = rec_state M kd S ts i a d * m_exp M (tg (ts ! i)) + tk (ts ! i) ! a * rec_delta M kd S ts i d"
  by (simp add: rec_delta_def)

declare rec_state.simps(2) [simp del]

lemma rec_state_Cons:
  assumes "\<And>a. a < kd \<Longrightarrow> S' ! a ! d = rec_state M kd S (t # ts) 1 a d" "a < kd"
  shows "rec_state M kd S (t # ts) (Suc i) a d = rec_state M kd S' ts i a d"
  using assms(2)
proof (induction i arbitrary: a)
  case 0
  then show ?case using assms(1) by simp
next
  case (Suc i)
  then show ?case by (simp add: rec_state_Suc [of _ _ _ _ "Suc i"] rec_state_Suc [of _ _ S'] rec_delta_def)
qed

lemma delta_step_entries:
  assumes "delta_step M kd vd S t = (out, S')"
  shows "S' = map (\<lambda>a. map (\<lambda>d. rec_state M kd S (t # ts) 1 a d) [0..<vd]) [0..<kd]"
    and "out = map (\<lambda>d. \<Sum>a<kd. rec_state M kd S (t # ts) 1 a d * tq t ! a) [0..<vd]"
  using assms by (auto simp: delta_step_def Let_def rec_state_Suc rec_delta_def)

lemma delta_recurrent_entries:
  "delta_recurrent M kd vd S ts =
    (map (\<lambda>i. map (\<lambda>d. \<Sum>a<kd. rec_state M kd S ts (Suc i) a d * tq (ts ! i) ! a) [0..<vd]) [0..<length ts],
     if ts = [] then S else map (\<lambda>a. map (\<lambda>d. rec_state M kd S ts (length ts) a d) [0..<vd]) [0..<kd])"
proof (induction ts arbitrary: S)
  case (Cons t ts)
  obtain out S' where s: "delta_step M kd vd S t = (out, S')" by force
  note e = delta_step_entries [OF s, of ts]
  have c: "rec_state M kd S (t # ts) (Suc i) a d = rec_state M kd S' ts i a d" if "a < kd" "d < vd" for i a d
    by (rule rec_state_Cons [OF _ that(1)]) (use that e(1) in simp)
  have "map (\<lambda>i. map (\<lambda>d. \<Sum>a<kd. rec_state M kd S (t # ts) (Suc i) a d * tq ((t # ts) ! i) ! a) [0..<vd]) [0..<Suc (length ts)]
      = out # map (\<lambda>i. map (\<lambda>d. \<Sum>a<kd. rec_state M kd S' ts (Suc i) a d * tq (ts ! i) ! a) [0..<vd]) [0..<length ts]"
    unfolding upt_conv_Cons [OF zero_less_Suc] list.map map_Suc_upt [symmetric] using e(2) c by simp
  moreover have "map (\<lambda>a. map (\<lambda>d. rec_state M kd S (t # ts) (Suc (length ts)) a d) [0..<vd]) [0..<kd]
      = (if ts = [] then S' else map (\<lambda>a. map (\<lambda>d. rec_state M kd S' ts (length ts) a d) [0..<vd]) [0..<kd])"
    using e(1) c by auto
  ultimately show ?case using Cons.IH [of S'] s by simp
qed simp

section \<open>A chunk\<close>

lemma solve_rows:
  "length (foldl (\<lambda>x i. x @ [map (\<lambda>c. b ! i ! c - (\<Sum>j<i. L ! i ! j * x ! j ! c)) [0..<m]]) [] [0..<n]) = n \<and>
   (\<forall>i<n. \<forall>c<m. foldl (\<lambda>x i. x @ [map (\<lambda>c. b ! i ! c - (\<Sum>j<i. L ! i ! j * x ! j ! c)) [0..<m]]) [] [0..<n] ! i ! c
      = b ! i ! c - (\<Sum>j<i. L ! i ! j * foldl (\<lambda>x i. x @ [map (\<lambda>c. b ! i ! c - (\<Sum>j<i. L ! i ! j * x ! j ! c)) [0..<m]]) [] [0..<n] ! j ! c))"
  (is "length (?x n) = n \<and> ?P n")
proof (induction n)
  case (Suc n)
  then have len: "length (?x n) = n" and P: "?P n" by blast+
  have x: "?x (Suc n) = ?x n @ [map (\<lambda>c. b ! n ! c - (\<Sum>j<n. L ! n ! j * ?x n ! j ! c)) [0..<m]]" by simp
  have old: "?x (Suc n) ! j = ?x n ! j" if "j < n" for j using that len x by (simp add: nth_append)
  have "?x (Suc n) ! i ! c = b ! i ! c - (\<Sum>j<i. L ! i ! j * ?x (Suc n) ! j ! c)" if "i < Suc n" "c < m" for i c
  proof -
    have "(\<Sum>j<i. L ! i ! j * ?x (Suc n) ! j ! c) = (\<Sum>j<i. L ! i ! j * ?x n ! j ! c)"
      using old that by (intro sum.cong) auto
    moreover have "?x (Suc n) ! i ! c = b ! i ! c - (\<Sum>j<i. L ! i ! j * ?x n ! j ! c)"
    proof (cases "i = n")
      case True
      then show ?thesis using x len that by (simp add: nth_append)
    next
      case False
      then show ?thesis using old [of i] P that by auto
    qed
    ultimately show ?thesis by simp
  qed
  with x len show ?case by auto
qed simp

lemma solve_unit_lower_length: "length (solve_unit_lower L b m) = length b"
  using solve_rows [of b L m "length b"] by (simp add: solve_unit_lower_def)

lemma solve_unit_lower_row:
  "i < length b \<Longrightarrow> c < m \<Longrightarrow>
    solve_unit_lower L b m ! i ! c = b ! i ! c - (\<Sum>j<i. L ! i ! j * solve_unit_lower L b m ! j ! c)"
  using solve_rows [of b L m "length b"] unfolding solve_unit_lower_def by blast

text \<open>What is needed of the exponential.\<close>

definition exponential :: "'f::field mathlib \<Rightarrow> bool" where
  "exponential M \<longleftrightarrow> (\<forall>x y. m_exp M (x + y) = m_exp M x * m_exp M y) \<and> m_exp M 0 = 1"

definition cum :: "'f::field token list \<Rightarrow> nat \<Rightarrow> 'f" where
  "cum ts i = (\<Sum>j\<le>i. tg (ts ! j))"

lemma decayed_state:
  assumes "exponential M"
  shows "rec_state M kd S ts i a d * m_exp M (tg (ts ! i))
    = S ! a ! d * m_exp M (cum ts i)
      + (\<Sum>j<i. m_exp M (cum ts i - cum ts j) * (tk (ts ! j) ! a * rec_delta M kd S ts j d))"
proof (induction i)
  case 0
  then show ?case by (simp add: cum_def)
next
  case (Suc i)
  let ?e = "m_exp M (tg (ts ! Suc i))" and ?u = "\<lambda>j. tk (ts ! j) ! a * rec_delta M kd S ts j d"
  have e: "m_exp M (x + tg (ts ! Suc i)) = m_exp M x * ?e" for x using assms by (simp add: exponential_def)
  have c: "cum ts (Suc i) = cum ts i + tg (ts ! Suc i)" by (simp add: cum_def)
  have j: "m_exp M (cum ts (Suc i) - cum ts j) = m_exp M (cum ts i - cum ts j) * ?e" for j
    using e [of "cum ts i - cum ts j"] by (simp add: c algebra_simps)
  have z: "m_exp M (cum ts i - cum ts i) = 1" using assms by (simp add: exponential_def)
  have "rec_state M kd S ts (Suc i) a d * ?e
      = (S ! a ! d * m_exp M (cum ts i) + (\<Sum>j<i. m_exp M (cum ts i - cum ts j) * ?u j)) * ?e + ?u i * ?e"
    by (simp add: rec_state_Suc Suc.IH distrib_right)
  also have "\<dots> = S ! a ! d * (m_exp M (cum ts i) * ?e)
      + ((\<Sum>j<i. m_exp M (cum ts i - cum ts j) * ?e * ?u j) + m_exp M (cum ts i - cum ts i) * ?e * ?u i)"
    unfolding z by (simp add: distrib_left distrib_right sum_distrib_left sum_distrib_right mult_ac)
  also have "\<dots> = S ! a ! d * m_exp M (cum ts (Suc i))
      + ((\<Sum>j<i. m_exp M (cum ts (Suc i) - cum ts j) * ?u j) + m_exp M (cum ts (Suc i) - cum ts i) * ?u i)"
    by (simp only: j e [symmetric] c [symmetric])
  finally show ?case by simp
qed

lemma next_state:
  assumes "exponential M"
  shows "rec_state M kd S ts (Suc i) a d
    = S ! a ! d * m_exp M (cum ts i)
      + (\<Sum>j\<le>i. m_exp M (cum ts i - cum ts j) * (tk (ts ! j) ! a * rec_delta M kd S ts j d))"
proof -
  have "m_exp M (cum ts i - cum ts i) = 1" using assms by (simp add: exponential_def)
  then show ?thesis
    by (simp add: rec_state_Suc decayed_state [OF assms] lessThan_Suc_atMost [symmetric] add.assoc)
qed

text \<open>The updates solve the triangular system of the chunk.\<close>

lemma delta_system:
  assumes "exponential M"
  shows "rec_delta M kd S ts i d
    = tv (ts ! i) ! d * tbeta (ts ! i)
      - (\<Sum>a<kd. tk (ts ! i) ! a * tbeta (ts ! i) * m_exp M (cum ts i) * S ! a ! d)
      - (\<Sum>j<i. ((\<Sum>a<kd. tk (ts ! i) ! a * tbeta (ts ! i) * tk (ts ! j) ! a) * m_exp M (cum ts i - cum ts j))
                 * rec_delta M kd S ts j d)"
proof -
  let ?b = "tbeta (ts ! i)" and ?k = "\<lambda>j a. tk (ts ! j) ! a" and ?D = "\<lambda>j. rec_delta M kd S ts j d"
  let ?e = "\<lambda>j. m_exp M (cum ts i - cum ts j)"
  have "(\<Sum>b<kd. rec_state M kd S ts i b d * m_exp M (tg (ts ! i)) * ?k i b)
      = (\<Sum>b<kd. S ! b ! d * m_exp M (cum ts i) * ?k i b) + (\<Sum>b<kd. \<Sum>j<i. ?e j * (?k j b * ?D j) * ?k i b)"
    by (simp add: decayed_state [OF assms] distrib_right sum.distrib sum_distrib_right)
  also have "(\<Sum>b<kd. \<Sum>j<i. ?e j * (?k j b * ?D j) * ?k i b) = (\<Sum>j<i. \<Sum>b<kd. ?e j * (?k j b * ?D j) * ?k i b)"
    by (rule sum.swap)
  finally have "?D i = (tv (ts ! i) ! d - ((\<Sum>b<kd. S ! b ! d * m_exp M (cum ts i) * ?k i b)
      + (\<Sum>j<i. \<Sum>b<kd. ?e j * (?k j b * ?D j) * ?k i b))) * ?b"
    by (simp only: rec_delta_def [of M kd S ts i])
  also have "\<dots> = tv (ts ! i) ! d * ?b - (\<Sum>a<kd. ?k i a * ?b * m_exp M (cum ts i) * S ! a ! d)
      - (\<Sum>j<i. ((\<Sum>a<kd. ?k i a * ?b * ?k j a) * ?e j) * ?D j)"
  proof -
    have "(\<Sum>b<kd. ?e j * (?k j b * ?D j) * ?k i b) * ?b = ((\<Sum>a<kd. ?k i a * ?b * ?k j a) * ?e j) * ?D j" for j
      by (simp add: sum_distrib_left sum_distrib_right mult_ac)
    then have "(\<Sum>j<i. \<Sum>b<kd. ?e j * (?k j b * ?D j) * ?k i b) * ?b
        = (\<Sum>j<i. ((\<Sum>a<kd. ?k i a * ?b * ?k j a) * ?e j) * ?D j)"
      by (simp only: sum_distrib_right)
    moreover have "(\<Sum>b<kd. S ! b ! d * m_exp M (cum ts i) * ?k i b) * ?b
        = (\<Sum>a<kd. ?k i a * ?b * m_exp M (cum ts i) * S ! a ! d)"
      by (simp add: sum_distrib_left sum_distrib_right mult_ac)
    ultimately show ?thesis by (simp add: left_diff_distrib distrib_right)
  qed
  finally show ?thesis .
qed


text \<open>
  The states a chunk starts from do not occur in its triangular system: the difference of its two
  solutions, the second applied to the state, is the updates of the recurrence.
\<close>

definition chunk_system :: "'f mathlib \<Rightarrow> nat \<Rightarrow> 'f::field token list \<Rightarrow> 'f list list" where
  "chunk_system M kd ts =
     map (\<lambda>i. map (\<lambda>j. (\<Sum>a<kd. tk (ts ! i) ! a * tbeta (ts ! i) * tk (ts ! j) ! a)
                       * (if i < j then 0 else m_exp M (cum ts i - cum ts j))) [0..<length ts]) [0..<length ts]"

lemma chunk_updates:
  assumes "exponential M" "i < length ts" "d < vd"
    and nv: "nv = solve_unit_lower (chunk_system M kd ts) (map (\<lambda>t. map (\<lambda>d. tv t ! d * tbeta t) [0..<vd]) ts) vd"
    and kc: "kc = solve_unit_lower (chunk_system M kd ts)
                    (map (\<lambda>i. map (\<lambda>a. tk (ts ! i) ! a * tbeta (ts ! i) * m_exp M (cum ts i)) [0..<kd]) [0..<length ts]) kd"
  shows "nv ! i ! d - (\<Sum>a<kd. kc ! i ! a * S ! a ! d) = rec_delta M kd S ts i d"
  using assms(2)
proof (induction i rule: less_induct)
  case (less i)
  let ?L = "\<lambda>j. chunk_system M kd ts ! i ! j"
  let ?K = "\<lambda>j. \<Sum>a<kd. kc ! j ! a * S ! a ! d"
  have n: "nv ! i ! d = tv (ts ! i) ! d * tbeta (ts ! i) - (\<Sum>j<i. ?L j * nv ! j ! d)"
    unfolding nv by (subst solve_unit_lower_row) (use less.prems assms(3) in simp_all)
  have k: "kc ! i ! a = tk (ts ! i) ! a * tbeta (ts ! i) * m_exp M (cum ts i) - (\<Sum>j<i. ?L j * kc ! j ! a)"
    if "a < kd" for a
    unfolding kc by (subst solve_unit_lower_row) (use less.prems that in simp_all)
  have "?K i = (\<Sum>a<kd. tk (ts ! i) ! a * tbeta (ts ! i) * m_exp M (cum ts i) * S ! a ! d)
      - (\<Sum>a<kd. \<Sum>j<i. ?L j * kc ! j ! a * S ! a ! d)"
    by (simp add: k left_diff_distrib sum_subtractf sum_distrib_right)
  also have "(\<Sum>a<kd. \<Sum>j<i. ?L j * kc ! j ! a * S ! a ! d) = (\<Sum>j<i. \<Sum>a<kd. ?L j * kc ! j ! a * S ! a ! d)"
    by (rule sum.swap)
  also have "\<dots> = (\<Sum>j<i. ?L j * ?K j)" by (simp add: sum_distrib_left mult.assoc)
  finally have K: "?K i = (\<Sum>a<kd. tk (ts ! i) ! a * tbeta (ts ! i) * m_exp M (cum ts i) * S ! a ! d)
      - (\<Sum>j<i. ?L j * ?K j)" .
  have L: "?L j = (\<Sum>a<kd. tk (ts ! i) ! a * tbeta (ts ! i) * tk (ts ! j) ! a) * m_exp M (cum ts i - cum ts j)"
    if "j < i" for j
    using that less.prems by (simp add: chunk_system_def)
  have "nv ! i ! d - ?K i = tv (ts ! i) ! d * tbeta (ts ! i)
      - (\<Sum>a<kd. tk (ts ! i) ! a * tbeta (ts ! i) * m_exp M (cum ts i) * S ! a ! d)
      - (\<Sum>j<i. ?L j * (nv ! j ! d - ?K j))"
    unfolding n K by (simp add: right_diff_distrib sum_subtractf)
  also have "(\<Sum>j<i. ?L j * (nv ! j ! d - ?K j)) = (\<Sum>j<i. ?L j * rec_delta M kd S ts j d)"
    using less.IH less.prems by (intro sum.cong) auto
  also have "\<dots> = (\<Sum>j<i. ((\<Sum>a<kd. tk (ts ! i) ! a * tbeta (ts ! i) * tk (ts ! j) ! a)
      * m_exp M (cum ts i - cum ts j)) * rec_delta M kd S ts j d)"
    by (intro sum.cong) (simp_all add: L)
  finally show ?case by (simp only: delta_system [OF assms(1), symmetric])
qed

lemma chunk_output:
  assumes "exponential M"
  shows "(\<Sum>a<kd. rec_state M kd S ts (Suc i) a d * tq (ts ! i) ! a)
    = (\<Sum>a<kd. tq (ts ! i) ! a * m_exp M (cum ts i) * S ! a ! d)
      + (\<Sum>j\<le>i. ((\<Sum>a<kd. tq (ts ! i) ! a * tk (ts ! j) ! a) * m_exp M (cum ts i - cum ts j))
                  * rec_delta M kd S ts j d)"
proof -
  have "(\<Sum>a<kd. rec_state M kd S ts (Suc i) a d * tq (ts ! i) ! a)
    = (\<Sum>a<kd. tq (ts ! i) ! a * m_exp M (cum ts i) * S ! a ! d)
      + (\<Sum>a<kd. \<Sum>j\<le>i. tq (ts ! i) ! a * tk (ts ! j) ! a * m_exp M (cum ts i - cum ts j)
                  * rec_delta M kd S ts j d)"
    by (simp add: next_state [OF assms] distrib_left distrib_right sum.distrib sum_distrib_left sum_distrib_right mult_ac)
  also have "(\<Sum>a<kd. \<Sum>j\<le>i. tq (ts ! i) ! a * tk (ts ! j) ! a * m_exp M (cum ts i - cum ts j) * rec_delta M kd S ts j d)
    = (\<Sum>j\<le>i. \<Sum>a<kd. tq (ts ! i) ! a * tk (ts ! j) ! a * m_exp M (cum ts i - cum ts j) * rec_delta M kd S ts j d)"
    by (rule sum.swap)
  finally show ?thesis by (simp add: sum_distrib_right)
qed


lemma masked_sum:
  fixes H :: "nat \<Rightarrow> 'f::field"
  shows "i < n \<Longrightarrow> (\<Sum>j<n. F j * (if i < j then 0 else G j) * H j) = (\<Sum>j\<le>i. F j * G j * H j)"
  by (rule sum.mono_neutral_cong_right) auto

lemma delta_chunk_recurrent:
  fixes S :: "'f::field list list"
  assumes e: "exponential M" and "ts \<noteq> []"
  shows "delta_chunk M kd vd S ts = delta_recurrent M kd vd S ts"
proof -
  let ?n = "length ts" and ?D = "\<lambda>j d. rec_delta M kd S ts j d"
  define nv where "nv = solve_unit_lower (chunk_system M kd ts) (map (\<lambda>t. map (\<lambda>d. tv t ! d * tbeta t) [0..<vd]) ts) vd"
  define kc where "kc = solve_unit_lower (chunk_system M kd ts)
      (map (\<lambda>i. map (\<lambda>a. tk (ts ! i) ! a * tbeta (ts ! i) * m_exp M (cum ts i)) [0..<kd]) [0..<length ts]) kd"
  have D: "nv ! i ! d - (\<Sum>a<kd. kc ! i ! a * S ! a ! d) = ?D i d" if "i < ?n" "d < vd" for i d
    by (rule chunk_updates [OF e that nv_def kc_def])
  have n: "?n - Suc 0 < ?n" using assms(2) by simp
  define core where "core = map (\<lambda>i. map (\<lambda>d. (\<Sum>a<kd. tq (ts ! i) ! a * m_exp M (cum ts i) * S ! a ! d)
      + (\<Sum>j<?n. (\<Sum>a<kd. tq (ts ! i) ! a * tk (ts ! j) ! a) * (if i < j then 0 else m_exp M (cum ts i - cum ts j))
          * (nv ! j ! d - (\<Sum>a<kd. kc ! j ! a * S ! a ! d)))) [0..<vd]) [0..<?n]"
  define fin where "fin = map (\<lambda>a. map (\<lambda>d. S ! a ! d * m_exp M (cum ts (?n - 1))
      + (\<Sum>i<?n. tk (ts ! i) ! a * m_exp M (cum ts (?n - 1) - cum ts i)
          * (nv ! i ! d - (\<Sum>a<kd. kc ! i ! a * S ! a ! d)))) [0..<vd]) [0..<kd]"
  have system: "map (\<lambda>i. map (\<lambda>j. (\<Sum>a<kd. map (\<lambda>t. map (\<lambda>a. tk t ! a * tbeta t) [0..<kd]) ts ! i ! a * tk (ts ! j) ! a)
      * (map (\<lambda>i. map (\<lambda>j. if i < j then 0 else m_exp M (map (cum ts) [0..<?n] ! i - map (cum ts) [0..<?n] ! j)) [0..<?n]) [0..<?n]) ! i ! j)
      [0..<?n]) [0..<?n] = chunk_system M kd ts"
    by (auto simp: chunk_system_def)
  have kbeta: "map (\<lambda>i. map (\<lambda>a. map (\<lambda>t. map (\<lambda>a. tk t ! a * tbeta t) [0..<kd]) ts ! i ! a * m_exp M (map (cum ts) [0..<?n] ! i)) [0..<kd]) [0..<?n]
     = map (\<lambda>i. map (\<lambda>a. tk (ts ! i) ! a * tbeta (ts ! i) * m_exp M (cum ts i)) [0..<kd]) [0..<?n]"
    by auto
  have "delta_chunk M kd vd S ts = (core, fin)"
    using n unfolding delta_chunk_def Let_def cum_def [symmetric] system kbeta nv_def [symmetric] kc_def [symmetric]
      core_def fin_def
    by (auto intro!: sum.cong)
  moreover have "core = map (\<lambda>i. map (\<lambda>d. \<Sum>a<kd. rec_state M kd S ts (Suc i) a d * tq (ts ! i) ! a) [0..<vd]) [0..<?n]"
    unfolding core_def
    by (intro map_cong refl) (simp add: chunk_output [OF e] masked_sum D)
  moreover have "fin = map (\<lambda>a. map (\<lambda>d. rec_state M kd S ts ?n a d) [0..<vd]) [0..<kd]"
  proof -
    obtain m where m: "?n = Suc m" using assms(2) by (cases ts) auto
    show ?thesis unfolding fin_def m
    proof (intro map_cong refl)
      fix a d assume "d \<in> set [0..<vd]"
      then have "(\<Sum>i\<le>m. tk (ts ! i) ! a * m_exp M (cum ts m - cum ts i) * (nv ! i ! d - (\<Sum>a<kd. kc ! i ! a * S ! a ! d)))
          = (\<Sum>i\<le>m. tk (ts ! i) ! a * m_exp M (cum ts m - cum ts i) * ?D i d)"
        using m by (intro sum.cong refl) (simp only: D set_upt atLeastLessThan_iff atMost_iff less_Suc_eq_le)
      then show "S ! a ! d * m_exp M (cum ts (Suc m - 1)) + (\<Sum>i<Suc m. tk (ts ! i) ! a * m_exp M (cum ts (Suc m - 1) - cum ts i)
            * (nv ! i ! d - (\<Sum>a<kd. kc ! i ! a * S ! a ! d))) = rec_state M kd S ts (Suc m) a d"
        by (simp only: next_state [OF e] lessThan_Suc_atMost diff_Suc_1) (simp add: mult_ac)
    qed
  qed
  ultimately show ?thesis using assms(2) by (simp add: delta_recurrent_entries)
qed

section \<open>All chunks\<close>

lemma delta_recurrent_append:
  "delta_recurrent M kd vd S (ts @ us) =
    (let (outs, S') = delta_recurrent M kd vd S ts; (outs', S'') = delta_recurrent M kd vd S' us
     in (outs @ outs', S''))"
  by (induction ts arbitrary: S) (auto simp: Let_def split: prod.splits)

lemma delta_recurrent_length: "length (fst (delta_recurrent M kd vd S ts)) = length ts"
  by (simp add: delta_recurrent_entries)

lemma delta_chunks_recurrent:
  assumes "exponential M" "[] \<notin> set cs"
  shows "delta_chunks M kd vd S cs = delta_recurrent M kd vd S (concat cs)"
  using assms(2)
proof (induction cs arbitrary: S)
  case (Cons c cs)
  then have "c \<noteq> []" by auto
  with Cons show ?case by (simp add: delta_chunk_recurrent [OF assms(1)] delta_recurrent_append)
qed simp

lemma in_chunks_concat:
  assumes "n > 0" "length xs mod n = 0"
  shows "concat (in_chunks n xs) = xs \<and> [] \<notin> set (in_chunks n xs)"
proof -
  have "concat (map (\<lambda>i. take n (drop (i * n) xs)) [0..<m]) = take (m * n) xs" for m
    by (induction m) (auto simp: take_add [of "_ * n" n, symmetric] add.commute)
  moreover have "length xs div n * n = length xs" using assms(2) by auto
  moreover have "take n (drop (i * n) xs) \<noteq> []" if "i < length xs div n" for i
  proof -
    have "Suc i * n \<le> length xs"
      using that assms(1) by (simp only: less_eq_div_iff_mult_less_eq Suc_le_eq [symmetric])
    then have "i * n < length xs" using assms(1) by simp
    then show ?thesis using assms(1) by auto
  qed
  ultimately show ?thesis by (force simp: in_chunks_def)
qed

text \<open>The tokens that fill the last chunk leave the state as it is.\<close>

lemma zero_tokens:
  assumes "exponential M" "length S = kd" "\<forall>r \<in> set S. length r = vd"
  shows "snd (delta_recurrent M kd vd S (replicate n (zero_token kd vd))) = S"
proof (induction n)
  case (Suc n)
  have "snd (delta_step M kd vd S (zero_token kd vd)) = map (\<lambda>a. map (\<lambda>d. S ! a ! d) [0..<vd]) [0..<kd]"
    using assms(1) by (auto simp: delta_step_def zero_token_def Let_def exponential_def intro!: map_cong)
  also have "\<dots> = S"
    using assms(2,3) by (auto intro!: nth_equalityI)
  finally have "snd (delta_step M kd vd S (zero_token kd vd)) = S" .
  then show ?case using Suc by (auto split: prod.splits)
qed simp

lemma delta_recurrent_shape:
  assumes "delta_recurrent M kd vd S ts = (outs, S')" "length S = kd" "\<forall>r \<in> set S. length r = vd"
  shows "length S' = kd \<and> (\<forall>r \<in> set S'. length r = vd)"
  using assms by (auto simp: delta_recurrent_entries split: if_splits)

lemma chunked_recurrent:
  assumes "exponential M" "n > 0" "length S = kd" "\<forall>r \<in> set S. length r = vd"
  shows "delta_chunked M kd vd n S ts = delta_recurrent M kd vd S ts"
proof -
  let ?pad = "(n - length ts mod n) mod n" and ?z = "zero_token kd vd :: 'a token"
  have "(length ts + ?pad) mod n = 0"
  proof (cases "length ts mod n = 0")
    case False
    have "length ts mod n < n" using assms(2) by simp
    moreover have "length ts + (n - length ts mod n) = length ts div n * n + n"
      using \<open>length ts mod n < n\<close> div_mult_mod_eq [of "length ts" n] by linarith
    ultimately show ?thesis using False by simp
  qed simp
  then have c: "concat (in_chunks n (ts @ replicate ?pad ?z)) = ts @ replicate ?pad ?z"
    "[] \<notin> set (in_chunks n (ts @ replicate ?pad ?z))"
    using in_chunks_concat [OF assms(2), of "ts @ replicate ?pad ?z"] by simp_all
  obtain outs S' where r: "delta_recurrent M kd vd S ts = (outs, S')" by force
  obtain zs S'' where z: "delta_recurrent M kd vd S' (replicate ?pad ?z) = (zs, S'')" by force
  have "S'' = S'" using zero_tokens [OF assms(1), of S' kd vd ?pad] delta_recurrent_shape [OF r assms(3,4)] z by simp
  moreover have "length outs = length ts" using delta_recurrent_length [of M kd vd S ts] r by simp
  ultimately show ?thesis
    unfolding delta_chunked_def Let_def delta_chunks_recurrent [OF assms(1) c(2)] c(1)
    using r z by (simp add: delta_recurrent_append)
qed


section \<open>All heads\<close>

definition l2norm :: "'f mathlib \<Rightarrow> 'f::field list \<Rightarrow> 'f list" where
  "l2norm M x =
     (let inv = m_pow M (sum_list (map (\<lambda>a. a * a) x) + 1 / 1000000) (- (1 / 2)) in map (\<lambda>a. a * inv) x)"

text \<open>The norm of queries and keys, where it is asked for, and the scale of the query.\<close>

definition scaled_token :: "'f mathlib \<Rightarrow> bool \<Rightarrow> ('f \<Rightarrow> 'f) \<Rightarrow> 'f::field token \<Rightarrow> 'f token" where
  "scaled_token M l2 scale t =
     (let q = if l2 then l2norm M (tq t) else tq t; k = if l2 then l2norm M (tk t) else tk t
      in t\<lparr>tq := map scale q, tk := k\<rparr>)"

definition initial_state :: "nat \<Rightarrow> nat \<Rightarrow> nat \<Rightarrow> 'f::zero list list list option \<Rightarrow> 'f list list list" where
  "initial_state vh kd vd st =
     (case st of None \<Rightarrow> replicate vh (replicate kd (replicate vd 0)) | Some s \<Rightarrow> s)"

text \<open>A position is the list of the tokens of its heads; the outputs are transposed to positions.\<close>

definition gated_delta_rule_recurrent ::
    "'f mathlib \<Rightarrow> bool \<Rightarrow> nat \<Rightarrow> nat \<Rightarrow> nat \<Rightarrow> 'f list list list option \<Rightarrow> 'f token list list
     \<Rightarrow> 'f::field list list list \<times> 'f list list list" where
  "gated_delta_rule_recurrent M l2 vh kd vd initial xs =
     (let state = initial_state vh kd vd initial;
          run = map (\<lambda>h. delta_recurrent M kd vd (state ! h)
                  (map (\<lambda>x. scaled_token M l2 (\<lambda>a. a / m_sqrt M (of_nat kd)) (x ! h)) xs)) [0..<vh]
      in (map (\<lambda>i. map (\<lambda>r. fst r ! i) run) [0..<length xs], map snd run))"

definition gated_delta_rule_chunked ::
    "'f mathlib \<Rightarrow> bool \<Rightarrow> nat \<Rightarrow> nat \<Rightarrow> nat \<Rightarrow> nat \<Rightarrow> 'f list list list option \<Rightarrow> 'f token list list
     \<Rightarrow> 'f::field list list list \<times> 'f list list list" where
  "gated_delta_rule_chunked M l2 vh kd vd chunk_size initial xs =
     (let state = initial_state vh kd vd initial;
          run = map (\<lambda>h. delta_chunked M kd vd chunk_size (state ! h)
                  (map (\<lambda>x. scaled_token M l2 (\<lambda>a. a * m_pow M (of_nat kd) (- (1 / 2))) (x ! h)) xs)) [0..<vh]
      in (map (\<lambda>i. map (\<lambda>r. fst r ! i) run) [0..<length xs], map snd run))"

text \<open>What is needed of the power: it agrees with the square root.\<close>

definition inverse_root :: "'f::field mathlib \<Rightarrow> bool" where
  "inverse_root M \<longleftrightarrow> (\<forall>n. m_pow M (of_nat n) (- (1 / 2)) = 1 / m_sqrt M (of_nat n))"

definition states_fit :: "nat \<Rightarrow> nat \<Rightarrow> nat \<Rightarrow> 'f list list list option \<Rightarrow> bool" where
  "states_fit vh kd vd initial \<longleftrightarrow>
     (case initial of None \<Rightarrow> True
      | Some st \<Rightarrow> length st = vh \<and> (\<forall>s \<in> set st. length s = kd \<and> (\<forall>r \<in> set s. length r = vd)))"

lemma rules_agree:
  assumes "exponential M" "inverse_root M" "n > 0" "states_fit vh kd vd initial"
  shows "gated_delta_rule_chunked M l2 vh kd vd n initial xs = gated_delta_rule_recurrent M l2 vh kd vd initial xs"
proof -
  have scale: "(\<lambda>a. a * m_pow M (of_nat kd) (- (1 / 2))) = (\<lambda>a. a / m_sqrt M (of_nat kd))"
  proof -
    have "m_pow M (of_nat kd) (- (1 / 2)) = 1 / m_sqrt M (of_nat kd)" using assms(2) unfolding inverse_root_def by blast
    then show ?thesis by (simp only: times_divide_eq_right mult_1_right)
  qed
  have "length (initial_state vh kd vd initial ! h) = kd \<and> (\<forall>r \<in> set (initial_state vh kd vd initial ! h). length r = vd)"
    if "h < vh" for h
    using that assms(4) by (cases initial) (auto simp: states_fit_def initial_state_def)
  then show ?thesis
    unfolding gated_delta_rule_chunked_def gated_delta_rule_recurrent_def scale Let_def
    by (simp add: chunked_recurrent [OF assms(1,3)] cong: map_cong)
qed

text \<open>One more position: the recurrent rule continues from the state it returned.\<close>

definition head_run ::
    "'f mathlib \<Rightarrow> bool \<Rightarrow> nat \<Rightarrow> nat \<Rightarrow> 'f list list \<Rightarrow> 'f token list list \<Rightarrow> nat
     \<Rightarrow> 'f::field list list \<times> 'f list list" where
  "head_run M l2 kd vd s xs h =
     delta_recurrent M kd vd s (map (\<lambda>x. scaled_token M l2 (\<lambda>a. a / m_sqrt M (of_nat kd)) (x ! h)) xs)"

lemma rule_by_head:
  "gated_delta_rule_recurrent M l2 vh kd vd initial xs =
     (map (\<lambda>i. map (\<lambda>h. fst (head_run M l2 kd vd (initial_state vh kd vd initial ! h) xs h) ! i) [0..<vh]) [0..<length xs],
      map (\<lambda>h. snd (head_run M l2 kd vd (initial_state vh kd vd initial ! h) xs h)) [0..<vh])"
  by (simp add: gated_delta_rule_recurrent_def head_run_def Let_def comp_def)

lemma head_run_append:
  "head_run M l2 kd vd s (xs @ ys) h =
     (fst (head_run M l2 kd vd s xs h) @ fst (head_run M l2 kd vd (snd (head_run M l2 kd vd s xs h)) ys h),
      snd (head_run M l2 kd vd (snd (head_run M l2 kd vd s xs h)) ys h))"
  by (simp add: head_run_def delta_recurrent_append Let_def case_prod_beta)

lemma head_run_length [simp]: "length (fst (head_run M l2 kd vd s xs h)) = length xs"
  by (simp add: head_run_def delta_recurrent_length)

lemma rule_snoc:
  assumes "gated_delta_rule_recurrent M l2 vh kd vd initial xs = (os, st)"
    and "gated_delta_rule_recurrent M l2 vh kd vd (Some st) [x] = (os1, st')"
  shows "\<exists>o'. os1 = [o'] \<and> gated_delta_rule_recurrent M l2 vh kd vd initial (xs @ [x]) = (os @ [o'], st')"
proof -
  let ?R = "\<lambda>h. head_run M l2 kd vd (initial_state vh kd vd initial ! h) xs h"
  let ?O = "\<lambda>h. head_run M l2 kd vd (snd (?R h)) [x] h"
  have st: "st = map (\<lambda>h. snd (?R h)) [0..<vh]" and os: "os = map (\<lambda>i. map (\<lambda>h. fst (?R h) ! i) [0..<vh]) [0..<length xs]"
    using assms(1) by (simp_all add: rule_by_head)
  have "initial_state vh kd vd (Some st) ! h = snd (?R h)" if "h < vh" for h
    using that by (simp add: initial_state_def st)
  then have o1: "os1 = [map (\<lambda>h. fst (?O h) ! 0) [0..<vh]]" "st' = map (\<lambda>h. snd (?O h)) [0..<vh]"
    using assms(2) by (auto simp: rule_by_head)
  have "map (\<lambda>i. map (\<lambda>h. (fst (?R h) @ fst (?O h)) ! i) [0..<vh]) [0..<length (xs @ [x])]
      = os @ [map (\<lambda>h. fst (?O h) ! 0) [0..<vh]]"
    by (simp add: os nth_append)
  then have "gated_delta_rule_recurrent M l2 vh kd vd initial (xs @ [x])
      = (os @ [map (\<lambda>h. fst (?O h) ! 0) [0..<vh]], st')"
    unfolding rule_by_head head_run_append fst_conv snd_conv o1(2) by simp
  with o1(1) show ?thesis by blast
qed

lemma rule_length: "gated_delta_rule_recurrent M l2 vh kd vd initial xs = (os, st) \<Longrightarrow> length os = length xs"
  by (auto simp: gated_delta_rule_recurrent_def Let_def)

section \<open>The causal convolution\<close>

text \<open>
  \<open>causal_conv1d_depthwise\<close> as its callers use it: without a bias and with \<open>silu\<close>.  The weight has a
  row of taps per channel; one row serves all channels.
\<close>

definition conv_at :: "'f::semiring_0 list list \<Rightarrow> 'f list list \<Rightarrow> nat \<Rightarrow> nat \<Rightarrow> 'f" where
  "conv_at w xs t c =
     (let k = length (hd w)
      in sum_list (map (\<lambda>j. w ! c ! j * xs ! (t + j - (k - 1)) ! c) [j \<leftarrow> [0..<k]. k - 1 \<le> t + j]))"

definition channel_taps :: "nat \<Rightarrow> 'f list list \<Rightarrow> py_error + 'f list list" where
  "channel_taps c weight =
     (if length weight = c then Inr weight
      else if length weight = 1 then Inr (replicate c (hd weight)) else Inl ValueError)"

definition causal_conv1d_depthwise ::
    "'f mathlib \<Rightarrow> 'f list list \<Rightarrow> 'f::field list list \<Rightarrow> py_error + 'f list list" where
  "causal_conv1d_depthwise M weight xs =
     (if xs = [] then Inr []
      else let c = length (hd xs)
           in rbind (channel_taps c weight) (\<lambda>w.
              Inr (map (\<lambda>t. map (\<lambda>ch. silu M (conv_at w xs t ch)) [0..<c]) [0..<length xs])))"

text \<open>\<open>x[-n:]\<close> in Python\<close>

definition last_rows :: "nat \<Rightarrow> 'a list \<Rightarrow> 'a list" where
  "last_rows n xs = (if n = 0 then xs else drop (length xs - n) xs)"

lemma conv_at_prefix: "t < length xs \<Longrightarrow> conv_at w (xs @ ys) t c = conv_at w xs t c"
  unfolding conv_at_def Let_def
  by (intro arg_cong [where f = sum_list] map_cong refl) (auto simp: nth_append)

lemma conv_at_window:
  assumes "length (hd w) = n" "n > 0" "xs \<noteq> []"
  shows "conv_at w (last_rows n xs) (length (last_rows n xs) - 1) c = conv_at w xs (length xs - 1) c"
proof (cases "length xs \<le> n")
  case False
  have all: "filter (\<lambda>j. n - 1 \<le> t + j) [0..<n] = [0..<n]" if "n - 1 \<le> t" for t
    using that by (simp add: filter_id_conv)
  have "last_rows n xs ! (length (last_rows n xs) - 1 + j - (n - 1)) = xs ! (length xs - 1 + j - (n - 1))" if "j < n" for j
  proof -
    have "length xs - n + (n - 1 + j - (n - 1)) = length xs - 1 + j - (n - 1)" using False assms(2) by arith
    then show ?thesis using False assms(2) by (simp add: last_rows_def)
  qed
  moreover have "n - 1 \<le> length (last_rows n xs) - 1" "n - 1 \<le> length xs - 1"
    using False assms(2) by (auto simp: last_rows_def)
  ultimately show ?thesis unfolding conv_at_def Let_def assms(1)
    by (simp only: all) (intro arg_cong [where f = sum_list] map_cong refl, simp)
qed (use assms(2) in \<open>simp add: last_rows_def\<close>)

lemma last_rows_snoc:
  assumes "0 < m" "0 < k" "m \<le> Suc k"
  shows "last_rows m (last_rows k xs @ [x]) = last_rows m (xs @ [x])"
proof -
  let ?d = "length xs - k"
  have "last_rows k xs @ [x] = drop ?d (xs @ [x])" using assms(2) by (simp add: last_rows_def)
  moreover have "Suc (length xs) - ?d - m + ?d = Suc (length xs) - m" using assms by arith
  ultimately show ?thesis using assms(1) by (simp add: last_rows_def del: drop_append)
qed

lemma window_of_window:
  assumes "n > 1"
  shows "last_rows n (last_rows (n - 1) xs @ [x]) = last_rows n (xs @ [x])"
    "last_rows (n - 1) (last_rows (n - 1) xs @ [x]) = last_rows (n - 1) (xs @ [x])"
  using assms by (auto intro!: last_rows_snoc)

text \<open>The convolution of one more row, from the rows its window keeps.\<close>

lemma conv_snoc:
  assumes "xs \<noteq> []" "\<forall>r \<in> set xs. length r = length x" "n > 1"
    and "\<forall>r \<in> set weight. length r = n"
  shows "causal_conv1d_depthwise M weight (xs @ [x]) = Inr cs' \<longleftrightarrow>
    (\<exists>cs ds. causal_conv1d_depthwise M weight xs = Inr cs
      \<and> causal_conv1d_depthwise M weight (last_rows n (last_rows (n - 1) xs @ [x])) = Inr ds
      \<and> ds \<noteq> [] \<and> cs' = cs @ [last ds])"
proof -
  let ?c = "length x" and ?us = "xs @ [x]" and ?win = "last_rows n (xs @ [x])"
  have c: "length (hd xs) = ?c" "length (hd ?us) = ?c" using assms(1,2) by auto
  have win: "?win \<noteq> []" using assms(3) by (simp add: last_rows_def)
  have "set (last_rows n zs) \<subseteq> set zs" for zs :: "'a list list" by (auto simp: last_rows_def dest: in_set_dropD)
  then have "hd ?win \<in> set ?us" using hd_in_set [OF win] by blast
  then have cw: "length (hd ?win) = ?c" using assms(2) by auto
  have conv: "causal_conv1d_depthwise M weight zs
      = rbind (channel_taps ?c weight) (\<lambda>w. Inr (map (\<lambda>t. map (\<lambda>ch. silu M (conv_at w zs t ch)) [0..<?c]) [0..<length zs]))"
    if "zs \<noteq> []" "length (hd zs) = ?c" for zs
    using that by (simp add: causal_conv1d_depthwise_def Let_def)
  show ?thesis
  proof (cases "channel_taps ?c weight")
    case (Inl e)
    then show ?thesis using assms(1) c(1) c(2) by (simp add: conv)
  next
    case (Inr w)
    have w: "length (hd w) = n" if "?c > 0"
      using Inr that assms(4) by (cases weight) (auto simp: channel_taps_def split: if_splits)
    let ?row = "\<lambda>zs t. map (\<lambda>ch. silu M (conv_at w zs t ch)) [0..<?c]"
    have last: "?row ?us (length xs) = ?row ?win (length ?win - 1)"
      using conv_at_window [OF w, of ?us] assms(3) by (cases "?c = 0") auto
    have old: "?row ?us t = ?row xs t" if "t < length xs" for t using that by (simp add: conv_at_prefix)
    have "causal_conv1d_depthwise M weight ?us = Inr (map (?row xs) [0..<length xs] @ [?row ?us (length xs)])"
      using c(2) Inr old by (simp add: conv)
    moreover have "causal_conv1d_depthwise M weight xs = Inr (map (?row xs) [0..<length xs])"
      using assms(1) c(1) Inr by (simp add: conv)
    moreover have "causal_conv1d_depthwise M weight ?win = Inr (map (?row ?win) [0..<length ?win])"
      using win cw Inr by (simp add: conv)
    moreover have "map (?row ?win) [0..<length ?win] \<noteq> []"
      and "List.last (map (?row ?win) [0..<length ?win]) = ?row ?win (length ?win - 1)"
      using win by (simp_all add: last_map)
    ultimately show ?thesis
      unfolding window_of_window(1) [OF assms(3)] last by auto
  qed
qed

lemma conv_length: "causal_conv1d_depthwise M w xs = Inr cs \<Longrightarrow> length cs = length xs"
  by (auto simp: causal_conv1d_depthwise_def Let_def rbind_Inr_iff split: if_splits)

section \<open>The property\<close>

text \<open>
  C4: the chunked form of the gated delta rule, which prefill uses, computes what the recurrent form,
  which decoding uses, computes: for any chunk size, number of tokens and state, all outputs and the
  final state are equal.  The triangular solve, the decays accumulated in a chunk and the padding of
  the last chunk change nothing.
\<close>

theorem chunked_rule_is_recurrent:
  assumes "exponential M" "inverse_root M" "n > 0" "states_fit vh kd vd initial"
  shows "gated_delta_rule_chunked M l2 vh kd vd n initial xs = gated_delta_rule_recurrent M l2 vh kd vd initial xs"
  using assms by (rule rules_agree)

text \<open>The functions of the reals satisfy the laws.\<close>

definition real_math :: "real mathlib" where
  "real_math = \<lparr>m_exp = exp, m_cos = cos, m_sin = sin, m_sqrt = sqrt, m_pow = (\<lambda>x y. x powr y),
     m_logaddexp = (\<lambda>x y. ln (exp x + exp y))\<rparr>"

lemma real_math_laws: "exponential real_math" "inverse_root real_math"
  by (auto simp: exponential_def inverse_root_def real_math_def exp_add powr_minus_divide powr_half_sqrt)

theorem chunked_rule_is_recurrent_witness:
  "gated_delta_rule_chunked real_math True 1 1 1 2 (Some [[[3]]])
      [[\<lparr>tq = [1], tk = [2], tv = [5], tbeta = 1 / 2, tg = - 1\<rparr>], [\<lparr>tq = [2], tk = [1], tv = [1], tbeta = 1, tg = - 2\<rparr>],
       [\<lparr>tq = [0], tk = [1], tv = [4], tbeta = 1 / 3, tg = - 3\<rparr>]]
   = gated_delta_rule_recurrent real_math True 1 1 1 (Some [[[3]]])
      [[\<lparr>tq = [1], tk = [2], tv = [5], tbeta = 1 / 2, tg = - 1\<rparr>], [\<lparr>tq = [2], tk = [1], tv = [1], tbeta = 1, tg = - 2\<rparr>],
       [\<lparr>tq = [0], tk = [1], tv = [4], tbeta = 1 / 3, tg = - 3\<rparr>]]"
proof -
  have "states_fit 1 1 1 (Some [[[3 :: real]]])" by (simp add: states_fit_def)
  then show ?thesis by (intro chunked_rule_is_recurrent real_math_laws) simp_all
qed

end
