(* ===== verification/Layers.thy ===== *)
theory Layers
  imports Tensor
begin

text \<open>
  What the reference models have in common: the configuration, the names of the weights, the cache of
  \<open>ref/incremental.py\<close>, the MLP half of a layer, and the loops over the layers.  A cache holds one
  entry per layer, where the code has dicts from layer numbers.

  A prefill pass over a prompt with one more token must give what the pass over the prompt and one
  decoding step give (\<open>one_more\<close>); layers that do so in turn do so together.
\<close>

section \<open>Configuration and cache\<close>

text \<open>What the forward passes read of a recipe.\<close>

record 'f model_cfg =
  text_prefix :: pystr
  cfg_layers :: nat
  cfg_heads :: nat
  cfg_kv_heads :: nat
  cfg_head_dim :: nat
  cfg_rotary :: nat
  cfg_theta :: 'f
  cfg_eps :: 'f
  tie_embeddings :: bool
  max_positions :: int

text \<open>Keys and values per head, or the state and convolution window of a linear layer.\<close>

datatype 'f layer_cache =
    KV "'f list list list" "'f list list list"
  | Recurrent "'f list list list" "'f list list"

record 'f inc_cache =
  cache_kernel :: pystr
  n_ctx :: nat
  cache_eps :: 'f
  cache_heads :: nat
  cache_kv_heads :: nat
  cache_head_dim :: nat
  cache_theta :: 'f
  cache_rot :: nat
  cache_layers :: "'f layer_cache list"

definition new_cache ::
    "pystr \<Rightarrow> ('f, 'b) model_cfg_scheme \<Rightarrow> nat \<Rightarrow> nat option \<Rightarrow> 'f layer_cache list \<Rightarrow> 'f inc_cache" where
  "new_cache kern C s rotary layers =
     \<lparr>cache_kernel = kern, n_ctx = s, cache_eps = cfg_eps C, cache_heads = cfg_heads C, cache_kv_heads = cfg_kv_heads C,
      cache_head_dim = cfg_head_dim C, cache_theta = cfg_theta C,
      cache_rot = (case rotary of Some r \<Rightarrow> if r = 0 then cfg_head_dim C else r | None \<Rightarrow> cfg_head_dim C),
      cache_layers = layers\<rparr>"

definition layer_name :: "pystr \<Rightarrow> nat \<Rightarrow> string \<Rightarrow> pystr" where
  "layer_name prefix i name = prefix @ lit ''.layers.'' @ int_str (int i) @ lit ''.'' @ lit name"

definition embed_weights :: "pystr \<Rightarrow> (pystr, 'f weight) dict \<Rightarrow> py_error + 'f list list" where
  "embed_weights p W = wmat W (p @ lit ''.embed_tokens.weight'')"

definition positions_cos_sin ::
    "'f mathlib \<Rightarrow> ('f, 'b) model_cfg_scheme \<Rightarrow> nat \<Rightarrow> ('f::field list \<times> 'f list) list" where
  "positions_cos_sin M C s = map (compute_cos_sin M (cfg_theta C) (cfg_rotary C)) [0..<s]"

section \<open>Pieces of a layer\<close>

definition proj_heads ::
    "'f::semiring_0 list list \<Rightarrow> 'f list option \<Rightarrow> nat \<Rightarrow> nat \<Rightarrow> 'f list \<Rightarrow> py_error + 'f list list" where
  "proj_heads w b n d x = rbind (linear w b x) (heads n d)"

definition rope_rows ::
    "('f::ring list \<times> 'f list) list \<Rightarrow> 'f list list list \<Rightarrow> py_error + 'f list list list" where
  "rope_rows cs xs = rmap (\<lambda>(c, hs). rmap (apply_rotary c) hs) (zip cs xs)"

definition residual :: "'f::plus list list \<Rightarrow> 'f list list \<Rightarrow> py_error + 'f list list" where
  "residual hidden h = rmap (\<lambda>(r, x). row_op (+) r x) (zip hidden h)"

text \<open>\<open>np.concatenate([cache.k[i], k[0]], axis=1)\<close>\<close>

definition append_heads :: "'a list list \<Rightarrow> 'a list \<Rightarrow> 'a list list" where
  "append_heads c x = map2 (\<lambda>rows r. rows @ [r]) c x"

definition mlp_weights ::
    "(pystr, 'f weight) dict \<Rightarrow> pystr \<Rightarrow> nat \<Rightarrow> py_error + 'f list list \<times> 'f list list \<times> 'f list list" where
  "mlp_weights W p i =
     rbind (wmat W (layer_name p i ''mlp.gate_proj.weight'')) (\<lambda>g.
     rbind (wmat W (layer_name p i ''mlp.up_proj.weight'')) (\<lambda>u.
     rbind (wmat W (layer_name p i ''mlp.down_proj.weight'')) (\<lambda>d. Inr (g, u, d))))"

text \<open>The second half of a layer: norm, MLP and residual; the norm is given with its weight.\<close>

definition mlp_block ::
    "('f list \<Rightarrow> py_error + 'f list) \<Rightarrow> 'f mathlib \<Rightarrow> (pystr, 'f weight) dict \<Rightarrow> pystr \<Rightarrow> nat
     \<Rightarrow> 'f::field list list \<Rightarrow> py_error + 'f list list" where
  "mlp_block nrm M W p i hidden =
     rbind (rmap nrm hidden) (\<lambda>h.
     rbind (mlp_weights W p i) (\<lambda>(g, u, d).
     rbind (rmap (mlp_forward M g u d) h) (residual hidden)))"

section \<open>The loops over the layers\<close>

fun forward_layers :: "('x \<Rightarrow> 'r list \<Rightarrow> py_error + 'r list) \<Rightarrow> 'x list \<Rightarrow> 'r list \<Rightarrow> py_error + 'r list" where
  "forward_layers f [] hidden = Inr hidden"
| "forward_layers f (x # xs) hidden = rbind (f x hidden) (forward_layers f xs)"

fun prefill_layers ::
    "('x \<Rightarrow> 'r list \<Rightarrow> py_error + 'c \<times> 'r list) \<Rightarrow> 'x list \<Rightarrow> 'r list \<Rightarrow> py_error + 'c list \<times> 'r list" where
  "prefill_layers f [] hidden = Inr ([], hidden)"
| "prefill_layers f (x # xs) hidden =
     rbind (f x hidden) (\<lambda>(c, hidden). rbind (prefill_layers f xs hidden) (\<lambda>(cs, out). Inr (c # cs, out)))"

text \<open>Decoding looks the entry of each layer up and stores its successor.\<close>

fun decode_layers ::
    "('x \<Rightarrow> 'c option \<Rightarrow> 'r \<Rightarrow> py_error + 'c \<times> 'r) \<Rightarrow> 'x list \<Rightarrow> 'c list \<Rightarrow> 'r \<Rightarrow> py_error + 'c list \<times> 'r" where
  "decode_layers f [] caches hidden = Inr (caches, hidden)"
| "decode_layers f (x # xs) caches hidden =
     rbind (f x (case caches of [] \<Rightarrow> None | c # cs \<Rightarrow> Some c) hidden) (\<lambda>(c, hidden).
     rbind (decode_layers f xs (tl caches) hidden) (\<lambda>(cs, out). Inr (c # cs, out)))"

section \<open>One more token\<close>

definition one_more ::
    "nat \<Rightarrow> ('r list \<Rightarrow> py_error + 'c \<times> 'r list) \<Rightarrow> ('r list \<Rightarrow> py_error + 'c \<times> 'r list)
     \<Rightarrow> ('c \<Rightarrow> 'r \<Rightarrow> py_error + 'c \<times> 'r) \<Rightarrow> bool" where
  "one_more s pre pre' dec \<longleftrightarrow>
     (\<forall>hs h c' os'. length hs = s \<longrightarrow>
        (pre' (hs @ [h]) = Inr (c', os') \<longleftrightarrow>
           (\<exists>c os o'. os' = os @ [o'] \<and> pre hs = Inr (c, os) \<and> dec c h = Inr (c', o')))
        \<and> (\<forall>c os. pre hs = Inr (c, os) \<longrightarrow> length os = s))"

lemma one_moreD:
  assumes "one_more s pre pre' dec" "length hs = s"
  shows "pre' (hs @ [h]) = Inr (c', os') \<longleftrightarrow>
           (\<exists>c os o'. os' = os @ [o'] \<and> pre hs = Inr (c, os) \<and> dec c h = Inr (c', o'))"
    and "pre hs = Inr (c, os) \<Longrightarrow> length os = s"
  using assms unfolding one_more_def by blast+

lemma one_moreI:
  assumes "\<And>hs h c' os'. length hs = s \<Longrightarrow> pre' (hs @ [h]) = Inr (c', os') \<longleftrightarrow>
        (\<exists>c os o'. os' = os @ [o'] \<and> pre hs = Inr (c, os) \<and> dec c h = Inr (c', o'))"
    and "\<And>hs c os. length hs = s \<Longrightarrow> pre hs = Inr (c, os) \<Longrightarrow> length os = s"
  shows "one_more s pre pre' dec"
  unfolding one_more_def using assms by simp

lemma layers_one_more:
  assumes "\<And>x. x \<in> set xs \<Longrightarrow> one_more s (pre x) (pre' x) (\<lambda>c. dec x (Some c))"
  shows "one_more s (prefill_layers pre xs) (prefill_layers pre' xs) (decode_layers dec xs)"
  using assms
proof (induction xs)
  case Nil
  then show ?case by (auto simp: one_more_def)
next
  case (Cons x xs)
  have x: "one_more s (pre x) (pre' x) (\<lambda>c. dec x (Some c))" using Cons.prems by simp
  have xs: "one_more s (prefill_layers pre xs) (prefill_layers pre' xs) (decode_layers dec xs)"
    by (rule Cons.IH) (use Cons.prems in simp)
  have "prefill_layers pre' (x # xs) (hs @ [h]) = Inr (c', os') \<longleftrightarrow>
      (\<exists>c os o'. os' = os @ [o'] \<and> prefill_layers pre (x # xs) hs = Inr (c, os)
        \<and> decode_layers dec (x # xs) c h = Inr (c', o'))" (is "?l \<longleftrightarrow> ?r") if hs: "length hs = s" for hs h c' os'
  proof
    assume ?l
    then obtain c1 ms' cs' where p: "pre' x (hs @ [h]) = Inr (c1, ms')"
      "prefill_layers pre' xs ms' = Inr (cs', os')" "c' = c1 # cs'"
      by (auto simp: rbind_Inr_iff)
    obtain c ms m where m: "ms' = ms @ [m]" "pre x hs = Inr (c, ms)" "dec x (Some c) h = Inr (c1, m)"
      using one_moreD(1) [OF x hs] p(1) by blast
    obtain cs os o' where "os' = os @ [o']" "prefill_layers pre xs ms = Inr (cs, os)"
      "decode_layers dec xs cs m = Inr (cs', o')"
      using one_moreD(1) [OF xs one_moreD(2) [OF x hs m(2)]] p(2) m(1) by blast
    then show ?r using p m by auto
  next
    assume ?r
    then obtain c ms cs os o' c1 m cs' where o': "os' = os @ [o']" "pre x hs = Inr (c, ms)"
      "prefill_layers pre xs ms = Inr (cs, os)" "dec x (Some c) h = Inr (c1, m)"
      "decode_layers dec xs cs m = Inr (cs', o')" "c' = c1 # cs'"
      by (auto simp: rbind_Inr_iff)
    have "pre' x (hs @ [h]) = Inr (c1, ms @ [m])" using one_moreD(1) [OF x hs] o' by blast
    moreover have "prefill_layers pre' xs (ms @ [m]) = Inr (cs', os')"
      using one_moreD(1) [OF xs one_moreD(2) [OF x hs o'(2)]] o' by blast
    ultimately show ?l using o' by simp
  qed
  moreover have "length os = s" if len: "length hs = s" and pre: "prefill_layers pre (x # xs) hs = Inr (c, os)" for hs c os
  proof -
    obtain c1 ms cs where "pre x hs = Inr (c1, ms)" "prefill_layers pre xs ms = Inr (cs, os)"
      using pre by (auto simp: rbind_Inr_iff)
    then show ?thesis using one_moreD(2) [OF xs] one_moreD(2) [OF x len] by simp
  qed
  ultimately show ?case by (rule one_moreI)
qed

text \<open>A pass without the caches.\<close>

lemma layers_without_caches:
  assumes "\<And>x hs. x \<in> set xs \<Longrightarrow> rbind (pre x hs) (\<lambda>(c, out). Inr out) = f x hs"
  shows "rbind (prefill_layers pre xs hs) (\<lambda>(c, out). Inr out) = forward_layers f xs hs"
  using assms
proof (induction xs arbitrary: hs)
  case (Cons x xs)
  have IH: "rbind (prefill_layers pre xs h) (\<lambda>(c, out). Inr out) = forward_layers f xs h" for h
    by (rule Cons.IH) (use Cons.prems in simp)
  have x: "f x hs = rbind (pre x hs) (\<lambda>(c, out). Inr out)" using Cons.prems by simp
  show ?case
  proof (cases "pre x hs")
    case (Inr p)
    obtain c h where "p = (c, h)" by force
    then show ?thesis using Inr IH [of h] x by (cases "prefill_layers pre xs h") (auto split: prod.splits)
  qed (simp add: x)
qed simp

text \<open>Embedding, layers and logits.\<close>

lemma model_one_more:
  assumes "one_more (length ids) L L' D"
    and "\<And>e hs h ls'. G e (hs @ [h]) = Inr ls' \<longleftrightarrow> (\<exists>ls l. ls' = ls @ [l] \<and> G e hs = Inr ls \<and> G e [h] = Inr [l])"
  shows "(\<exists>e hs' os'. E = Inr e \<and> rmap (embed e) (ids @ [t]) = Inr hs' \<and> L' hs' = Inr (caches', os') \<and> G e os' = Inr ls')
    \<longleftrightarrow> (\<exists>e hs caches os ls h o' l. ls' = ls @ [l] \<and> E = Inr e \<and> rmap (embed e) ids = Inr hs \<and> L hs = Inr (caches, os)
          \<and> G e os = Inr ls \<and> embed e t = Inr h \<and> D caches h = Inr (caches', o') \<and> G e [o'] = Inr [l])"
  (is "?l \<longleftrightarrow> ?r")
proof
  assume ?l
  then obtain e hs h os' where e: "E = Inr e" "rmap (embed e) ids = Inr hs" "embed e t = Inr h"
    and o': "L' (hs @ [h]) = Inr (caches', os')" "G e os' = Inr ls'" by (auto simp: rmap_snoc)
  have "length hs = length ids" using e(2) by (auto dest: rmap_length)
  then obtain caches os o1 where "os' = os @ [o1]" "L hs = Inr (caches, os)" "D caches h = Inr (caches', o1)"
    using one_moreD(1) [OF assms(1)] o'(1) by blast
  moreover from this obtain ls l where "ls' = ls @ [l]" "G e os = Inr ls" "G e [o1] = Inr [l]"
    using o'(2) assms(2) by auto
  ultimately show ?r using e by blast
next
  assume ?r
  then obtain e hs caches os ls h o' l where e: "ls' = ls @ [l]" "E = Inr e" "rmap (embed e) ids = Inr hs" "embed e t = Inr h"
    and o': "L hs = Inr (caches, os)" "G e os = Inr ls" "D caches h = Inr (caches', o')" "G e [o'] = Inr [l]" by blast
  have "length hs = length ids" using e(3) by (auto dest: rmap_length)
  then have "L' (hs @ [h]) = Inr (caches', os @ [o'])" using one_moreD(1) [OF assms(1)] o' by blast
  moreover have "G e (os @ [o']) = Inr ls'" using assms(2) e(1) o' by simp
  moreover have "rmap (embed e) (ids @ [t]) = Inr (hs @ [h])" using e by (simp add: rmap_snoc)
  ultimately show ?l using e(2) by blast
qed

section \<open>Lemmas on the pieces\<close>

lemma rbind_assoc: "rbind (rbind x f) g = rbind x (\<lambda>y. rbind (f y) g)"
  by (cases x) auto

lemma heads_length: "heads n d x = Inr hs \<Longrightarrow> length hs = n"
  by (auto simp: heads_def split: if_splits)

lemma proj_heads_length: "proj_heads w b n d x = Inr hs \<Longrightarrow> length hs = n"
  by (auto simp: proj_heads_def rbind_Inr_iff dest: heads_length)

lemma rmap_member: "rmap f xs = Inr ys \<Longrightarrow> y \<in> set ys \<Longrightarrow> \<exists>x \<in> set xs. f x = Inr y"
  by (metis in_set_conv_nth rmap_length rmap_nth)

lemma all_heads_length: "rmap (proj_heads w b n d) xs = Inr ys \<Longrightarrow> \<forall>r \<in> set ys. length r = n"
  by (auto dest: rmap_member proj_heads_length)

lemma rope_rows_length: "rope_rows cs xs = Inr ys \<Longrightarrow> length cs = length xs \<Longrightarrow> length ys = length xs"
  by (auto simp: rope_rows_def dest: rmap_length)

lemma rope_rows_heads:
  assumes "rope_rows cs xs = Inr ys" "\<forall>r \<in> set xs. length r = n"
  shows "\<forall>r \<in> set ys. length r = n"
proof
  fix r assume "r \<in> set ys"
  then obtain p where p: "p \<in> set (zip cs xs)" "(case p of (c, x) \<Rightarrow> rmap (apply_rotary c) x) = Inr r"
    using rmap_member [OF assms(1) [unfolded rope_rows_def]] by blast
  obtain c x where "p = (c, x)" by (rule prod.exhaust)
  with p have "(c, x) \<in> set (zip cs xs)" "rmap (apply_rotary c) x = Inr r" by auto
  then show "length r = n" using assms(2) by (auto dest: set_zip_rightD rmap_length)
qed

lemma rope_rows_snoc:
  assumes "length cs = length xs"
  shows "rope_rows (cs @ [c]) (xs @ [x]) = Inr zs \<longleftrightarrow>
    (\<exists>ys y. zs = ys @ [y] \<and> rope_rows cs xs = Inr ys \<and> rmap (apply_rotary c) x = Inr y)"
  using assms by (simp add: rope_rows_def rmap_snoc)

lemma by_head_snoc: "length y = n \<Longrightarrow> by_head n (k @ [y]) = append_heads (by_head n k) y"
  by (rule nth_equalityI) (simp_all add: by_head_def append_heads_def)

lemma residual_snoc:
  assumes "length xs = length ys"
  shows "residual (xs @ [x]) (ys @ [y]) = Inr zs' \<longleftrightarrow>
    (\<exists>zs z. zs' = zs @ [z] \<and> residual xs ys = Inr zs \<and> row_op (+) x y = Inr z)"
  using assms by (simp add: residual_def rmap_snoc)

lemma residual_length: "residual xs ys = Inr zs \<Longrightarrow> length xs = length ys \<Longrightarrow> length zs = length xs"
  by (auto simp: residual_def dest: rmap_length)

lemma residual_one: "residual [x] [y] = Inr zs \<longleftrightarrow> (\<exists>z. zs = [z] \<and> row_op (+) x y = Inr z)"
  by (auto simp: residual_def rbind_Inr_iff)

lemma mlp_block_length: "mlp_block nrm M W p i hs = Inr zs \<Longrightarrow> length zs = length hs"
  by (auto simp: mlp_block_def rbind_Inr_iff dest!: rmap_length residual_length)

lemma mlp_block_snoc:
  "mlp_block nrm M W p i (hs @ [h]) = Inr zs' \<longleftrightarrow>
    (\<exists>zs z. zs' = zs @ [z] \<and> mlp_block nrm M W p i hs = Inr zs \<and> mlp_block nrm M W p i [h] = Inr [z])"
  (is "?l \<longleftrightarrow> ?r")
proof
  assume ?l
  then obtain xs x g u d ys y where x: "rmap nrm hs = Inr xs" "nrm h = Inr x"
    "mlp_weights W p i = Inr (g, u, d)" "rmap (mlp_forward M g u d) xs = Inr ys" "mlp_forward M g u d x = Inr y"
    and r: "residual (hs @ [h]) (ys @ [y]) = Inr zs'"
    by (auto simp: mlp_block_def rbind_Inr_iff rmap_snoc)
  have "length hs = length ys" using rmap_length [OF x(1)] rmap_length [OF x(4)] by simp
  then obtain zs z where "zs' = zs @ [z]" "residual hs ys = Inr zs" "row_op (+) h y = Inr z"
    using r residual_snoc by blast
  then show ?r using x by (auto simp: mlp_block_def rbind_Inr_iff residual_one)
next
  assume ?r
  then obtain zs z where zs: "zs' = zs @ [z]" "mlp_block nrm M W p i hs = Inr zs" "mlp_block nrm M W p i [h] = Inr [z]"
    by blast
  obtain xs x g u d ys y where x: "rmap nrm hs = Inr xs" "nrm h = Inr x"
    "mlp_weights W p i = Inr (g, u, d)" "rmap (mlp_forward M g u d) xs = Inr ys" "mlp_forward M g u d x = Inr y"
    and r: "residual hs ys = Inr zs" "row_op (+) h y = Inr z"
    using zs(2,3) by (auto simp: mlp_block_def rbind_Inr_iff residual_one)
  have "length hs = length ys" using rmap_length [OF x(1)] rmap_length [OF x(4)] by simp
  then have "residual (hs @ [h]) (ys @ [y]) = Inr zs'" using r zs(1) residual_snoc by blast
  then show ?l using x by (simp add: mlp_block_def rmap_append)
qed

lemma mlp_block_one: "mlp_block nrm M W p i [h] = Inr zs \<Longrightarrow> \<exists>z. zs = [z]"
  using mlp_block_length [of nrm M W p i "[h]" zs] by (cases zs) auto

lemma length_positions [simp]: "length (positions_cos_sin M C s) = s"
  by (simp add: positions_cos_sin_def)

lemma positions_snoc:
  "positions_cos_sin M C (Suc s) = positions_cos_sin M C s @ [compute_cos_sin M (cfg_theta C) (cfg_rotary C) s]"
  by (simp add: positions_cos_sin_def)

section \<open>Rotary attention over one more token\<close>

lemma attend_all_n_rep: "attend_all M nh kvh hdim q k v = Inr a \<Longrightarrow> \<exists>n. n_rep nh kvh = Inr n"
  by (auto simp: attend_all_def rbind_Inr_iff)

lemma attend_all_length: "attend_all M nh kvh hdim q k v = Inr a \<Longrightarrow> length a = length q"
  by (auto simp: attend_all_def rbind_Inr_iff Let_def split: if_splits)

lemma rope_attend_snoc:
  assumes "length Q = length cs" "length K = length cs" "length V = length cs"
    and "\<forall>r \<in> set K. length r = kvh" "\<forall>r \<in> set V. length r = kvh" "length k = kvh" "length v = kvh"
  shows "(\<exists>Q' K'. rope_rows (cs @ [c]) (Q @ [q]) = Inr Q' \<and> rope_rows (cs @ [c]) (K @ [k]) = Inr K'
      \<and> attend_all M nh kvh hdim Q' K' (V @ [v]) = Inr a' \<and> e' = KV (by_head kvh K') (by_head kvh (V @ [v]))) \<longleftrightarrow>
    (\<exists>Q2 K2 q2 k2 a o' ck cv. a' = a @ [o'] \<and> rope_rows cs Q = Inr Q2 \<and> rope_rows cs K = Inr K2
      \<and> rmap (apply_rotary c) q = Inr q2 \<and> rmap (apply_rotary c) k = Inr k2
      \<and> attend_all M nh kvh hdim Q2 K2 V = Inr a \<and> ck = by_head kvh K2 \<and> cv = by_head kvh V
      \<and> attend_last M nh kvh hdim q2 (append_heads ck k2) (append_heads cv v) = Inr o'
      \<and> e' = KV (append_heads ck k2) (append_heads cv v))"
proof -
  have att: "(attend_all M nh kvh hdim (Q2 @ [q2]) (K2 @ [k2]) (V @ [v]) = Inr a' \<longleftrightarrow>
      (\<exists>a o'. a' = a @ [o'] \<and> attend_all M nh kvh hdim Q2 K2 V = Inr a
        \<and> attend_last M nh kvh hdim q2 (append_heads (by_head kvh K2) k2) (append_heads (by_head kvh V) v) = Inr o'))
      \<and> by_head kvh (K2 @ [k2]) = append_heads (by_head kvh K2) k2
      \<and> by_head kvh (V @ [v]) = append_heads (by_head kvh V) v"
    if "rope_rows cs Q = Inr Q2" "rope_rows cs K = Inr K2" "rmap (apply_rotary c) k = Inr k2" for Q2 K2 q2 k2
  proof -
    have "length Q2 = length cs" "length K2 = length cs" using that(1,2) assms(1,2) by (auto dest: rope_rows_length)
    moreover have "\<forall>r \<in> set K2. length r = kvh" by (rule rope_rows_heads [OF that(2) assms(4)])
    moreover have "length k2 = kvh" using rmap_length [OF that(3)] assms(6) by simp
    ultimately show ?thesis using assms by (simp add: attend_snoc by_head_snoc)
  qed
  show ?thesis (is "?l \<longleftrightarrow> ?r")
  proof
    assume ?l
    then obtain Q2 K2 q2 k2 where r: "rope_rows cs Q = Inr Q2" "rope_rows cs K = Inr K2"
      "rmap (apply_rotary c) q = Inr q2" "rmap (apply_rotary c) k = Inr k2"
      and a: "attend_all M nh kvh hdim (Q2 @ [q2]) (K2 @ [k2]) (V @ [v]) = Inr a'"
      "e' = KV (by_head kvh (K2 @ [k2])) (by_head kvh (V @ [v]))"
      using assms by (auto simp: rope_rows_snoc)
    from att [OF r(1,2,4), of q2] a r show ?r by auto
  next
    assume ?r
    then obtain Q2 K2 q2 k2 a o' where r: "rope_rows cs Q = Inr Q2" "rope_rows cs K = Inr K2"
      "rmap (apply_rotary c) q = Inr q2" "rmap (apply_rotary c) k = Inr k2" and a: "a' = a @ [o']"
      "attend_all M nh kvh hdim Q2 K2 V = Inr a"
      "attend_last M nh kvh hdim q2 (append_heads (by_head kvh K2) k2) (append_heads (by_head kvh V) v) = Inr o'"
      "e' = KV (append_heads (by_head kvh K2) k2) (append_heads (by_head kvh V) v)" by blast
    from att [OF r(1,2,4), of q2] a r assms show ?l by (simp add: rope_rows_snoc)
  qed
qed

end
