(* ===== verification/Standard.thy ===== *)
theory Standard
  imports Layers Generate
begin

text \<open>
  The dense transformer of the reference engine: \<open>ref/standard.py\<close>, the standard path of
  \<open>ref/incremental.py\<close>, and the host path of \<open>ReferenceModel\<close> in \<open>serving/executor.py\<close> that serves it.

  Decoding one token from the cache of a prompt gives the cache and the logits of the longer prompt,
  so the incremental interface is coherent and generation through it recomputes nothing.
\<close>

section \<open>The full forward\<close>

record 'f std_layer =
  w_q :: "'f list list"
  w_k :: "'f list list"
  w_v :: "'f list list"
  w_o :: "'f list list"
  q_bias :: "'f list option"
  k_bias :: "'f list option"
  v_bias :: "'f list option"

definition std_layer_weights ::
    "(pystr, 'f weight) dict \<Rightarrow> pystr \<Rightarrow> nat \<Rightarrow> py_error + 'f std_layer" where
  "std_layer_weights W p i =
     rbind (wmat W (layer_name p i ''self_attn.q_proj.weight'')) (\<lambda>q.
     rbind (wmat W (layer_name p i ''self_attn.k_proj.weight'')) (\<lambda>k.
     rbind (wmat W (layer_name p i ''self_attn.v_proj.weight'')) (\<lambda>v.
     rbind (wmat W (layer_name p i ''self_attn.o_proj.weight'')) (\<lambda>o'.
     rbind (wbias W (layer_name p i ''self_attn.q_proj.bias'')) (\<lambda>qb.
     rbind (wbias W (layer_name p i ''self_attn.k_proj.bias'')) (\<lambda>kb.
     rbind (wbias W (layer_name p i ''self_attn.v_proj.bias'')) (\<lambda>vb.
       Inr \<lparr>w_q = q, w_k = k, w_v = v, w_o = o', q_bias = qb, k_bias = kb, v_bias = vb\<rparr>)))))))"

definition standard_attention_forward ::
    "'f mathlib \<Rightarrow> nat \<Rightarrow> nat \<Rightarrow> nat \<Rightarrow> 'f std_layer \<Rightarrow> ('f::linordered_field list \<times> 'f list) list \<Rightarrow> 'f list list
     \<Rightarrow> py_error + 'f list list" where
  "standard_attention_forward M nh kvh hdim L cs hidden =
     rbind (rmap (proj_heads (w_q L) (q_bias L) nh hdim) hidden) (\<lambda>q.
     rbind (rmap (proj_heads (w_k L) (k_bias L) kvh hdim) hidden) (\<lambda>k.
     rbind (rmap (proj_heads (w_v L) (v_bias L) kvh hdim) hidden) (\<lambda>v.
     rbind (rope_rows cs q) (\<lambda>q.
     rbind (rope_rows cs k) (\<lambda>k.
     rbind (attend_all M nh kvh hdim q k v) (rmap (linear (w_o L) None)))))))"

text \<open>The norms of a layer, with their weights.\<close>

definition std_norm ::
    "'f mathlib \<Rightarrow> 'f \<Rightarrow> (pystr, 'f weight) dict \<Rightarrow> pystr \<Rightarrow> nat \<Rightarrow> string
     \<Rightarrow> py_error + ('f::field list \<Rightarrow> py_error + 'f list)" where
  "std_norm M eps W p i name = rbind (wvec W (layer_name p i name)) (\<lambda>w. Inr (rms_norm_plain M eps w))"

text \<open>The body of the loop of \<open>standard_model_forward\<close>.\<close>

definition std_layer_forward ::
    "'f mathlib \<Rightarrow> 'f model_cfg \<Rightarrow> (pystr, 'f weight) dict \<Rightarrow> ('f::linordered_field list \<times> 'f list) list \<Rightarrow> nat
     \<Rightarrow> 'f list list \<Rightarrow> py_error + 'f list list" where
  "std_layer_forward M C W cs i hidden =
     rbind (std_norm M (cfg_eps C) W (text_prefix C) i ''input_layernorm.weight'') (\<lambda>nrm.
     rbind (rmap nrm hidden) (\<lambda>h.
     rbind (std_layer_weights W (text_prefix C) i) (\<lambda>L.
     rbind (standard_attention_forward M (cfg_heads C) (cfg_kv_heads C) (cfg_head_dim C) L cs h) (\<lambda>a.
     rbind (residual hidden a) (\<lambda>hidden.
     rbind (std_norm M (cfg_eps C) W (text_prefix C) i ''post_attention_layernorm.weight'') (\<lambda>nrm.
       mlp_block nrm M W (text_prefix C) i hidden))))))"

text \<open>The final norm and the language model head.\<close>

definition std_logits ::
    "'f mathlib \<Rightarrow> 'f model_cfg \<Rightarrow> 'f \<Rightarrow> (pystr, 'f weight) dict \<Rightarrow> 'f list list \<Rightarrow> 'f::field list list
     \<Rightarrow> py_error + 'f list list" where
  "std_logits M C eps W embed_w hidden =
     rbind (wvec W (text_prefix C @ lit ''.norm.weight'')) (\<lambda>w.
     rbind (rmap (rms_norm_plain M eps w) hidden) (\<lambda>hidden.
     rbind (if tie_embeddings C then Inr embed_w else wmat W (lit ''lm_head.weight'')) (\<lambda>u.
       rmap (project u) hidden)))"

definition standard_model_forward ::
    "'f mathlib \<Rightarrow> 'f model_cfg \<Rightarrow> (pystr, 'f weight) dict \<Rightarrow> int list \<Rightarrow> py_error + 'f::linordered_field list list" where
  "standard_model_forward M C W ids =
     rbind (embed_weights (text_prefix C) W) (\<lambda>e.
     rbind (rmap (embed e) ids) (\<lambda>hidden.
     rbind (forward_layers (std_layer_forward M C W (positions_cos_sin M C (length ids))) [0..<cfg_layers C] hidden)
       (std_logits M C (cfg_eps C) W e)))"

section \<open>Prefill\<close>

definition std_keys_values ::
    "nat \<Rightarrow> nat \<Rightarrow> 'f std_layer \<Rightarrow> ('f::linordered_field list \<times> 'f list) list \<Rightarrow> 'f list list
     \<Rightarrow> py_error + 'f list list list \<times> 'f list list list" where
  "std_keys_values kvh hdim L cs h =
     rbind (rmap (proj_heads (w_k L) (k_bias L) kvh hdim) h) (\<lambda>k.
     rbind (rmap (proj_heads (w_v L) (v_bias L) kvh hdim) h) (\<lambda>v.
     rbind (rope_rows cs k) (\<lambda>k. Inr (by_head kvh k, by_head kvh v))))"

definition std_layer_prefill ::
    "'f mathlib \<Rightarrow> 'f model_cfg \<Rightarrow> (pystr, 'f weight) dict \<Rightarrow> ('f::linordered_field list \<times> 'f list) list \<Rightarrow> nat
     \<Rightarrow> 'f list list \<Rightarrow> py_error + 'f layer_cache \<times> 'f list list" where
  "std_layer_prefill M C W cs i hidden =
     rbind (std_norm M (cfg_eps C) W (text_prefix C) i ''input_layernorm.weight'') (\<lambda>nrm.
     rbind (rmap nrm hidden) (\<lambda>h.
     rbind (std_layer_weights W (text_prefix C) i) (\<lambda>L.
     rbind (standard_attention_forward M (cfg_heads C) (cfg_kv_heads C) (cfg_head_dim C) L cs h) (\<lambda>a.
     rbind (std_keys_values (cfg_kv_heads C) (cfg_head_dim C) L cs h) (\<lambda>(k, v).
     rbind (residual hidden a) (\<lambda>hidden.
     rbind (std_norm M (cfg_eps C) W (text_prefix C) i ''post_attention_layernorm.weight'') (\<lambda>nrm.
     rbind (mlp_block nrm M W (text_prefix C) i hidden) (\<lambda>out. Inr (KV k v, out)))))))))"

definition prefill_standard ::
    "'f mathlib \<Rightarrow> 'f model_cfg \<Rightarrow> (pystr, 'f weight) dict \<Rightarrow> int list
     \<Rightarrow> py_error + 'f inc_cache \<times> 'f::linordered_field list list" where
  "prefill_standard M C W ids =
     rbind (embed_weights (text_prefix C) W) (\<lambda>e.
     rbind (rmap (embed e) ids) (\<lambda>hidden.
     rbind (prefill_layers (std_layer_prefill M C W (positions_cos_sin M C (length ids))) [0..<cfg_layers C] hidden)
       (\<lambda>(caches, hidden).
     rbind (std_logits M C (cfg_eps C) W e hidden) (\<lambda>logits.
       Inr (new_cache (lit ''standard_gqa'') C (length ids) (Some (cfg_rotary C)) caches, logits)))))"

section \<open>One decoding step\<close>

definition std_decode_attention ::
    "'f mathlib \<Rightarrow> nat \<Rightarrow> nat \<Rightarrow> nat \<Rightarrow> 'f std_layer \<Rightarrow> 'f::linordered_field list \<times> 'f list
     \<Rightarrow> 'f layer_cache option \<Rightarrow> 'f list \<Rightarrow> py_error + 'f layer_cache \<times> 'f list" where
  "std_decode_attention M nh kvh hdim L c entry h =
     rbind (proj_heads (w_q L) (q_bias L) nh hdim h) (\<lambda>q.
     rbind (proj_heads (w_k L) (k_bias L) kvh hdim h) (\<lambda>k.
     rbind (proj_heads (w_v L) (v_bias L) kvh hdim h) (\<lambda>v.
     rbind (rmap (apply_rotary c) q) (\<lambda>q.
     rbind (rmap (apply_rotary c) k) (\<lambda>k.
       case entry of
         Some (KV ck cv) \<Rightarrow>
           let ck' = append_heads ck k; cv' = append_heads cv v
           in rbind (attend_last M nh kvh hdim q ck' cv') (\<lambda>a.
              rbind (linear (w_o L) None a) (\<lambda>o'. Inr (KV ck' cv', o')))
       | _ \<Rightarrow> Inl KeyError)))))"

definition std_layer_decode ::
    "'f mathlib \<Rightarrow> 'f inc_cache \<Rightarrow> (pystr, 'f weight) dict \<Rightarrow> pystr \<Rightarrow> 'f::linordered_field list \<times> 'f list \<Rightarrow> nat
     \<Rightarrow> 'f layer_cache option \<Rightarrow> 'f list \<Rightarrow> py_error + 'f layer_cache \<times> 'f list" where
  "std_layer_decode M c W p cs i entry hidden =
     rbind (std_norm M (cache_eps c) W p i ''input_layernorm.weight'') (\<lambda>nrm.
     rbind (nrm hidden) (\<lambda>h.
     rbind (std_layer_weights W p i) (\<lambda>L.
     rbind (std_decode_attention M (cache_heads c) (cache_kv_heads c) (cache_head_dim c) L cs entry h) (\<lambda>(entry', o').
     rbind (row_op (+) hidden o') (\<lambda>hidden.
     rbind (std_norm M (cache_eps c) W p i ''post_attention_layernorm.weight'') (\<lambda>nrm.
     rbind (mlp_block nrm M W p i [hidden]) (\<lambda>out. Inr (entry', hd out))))))))"

definition decode_standard ::
    "'f mathlib \<Rightarrow> 'f model_cfg \<Rightarrow> (pystr, 'f weight) dict \<Rightarrow> 'f inc_cache \<Rightarrow> int
     \<Rightarrow> py_error + 'f list \<times> 'f::linordered_field inc_cache" where
  "decode_standard M C W c last_id =
     rbind (n_rep (cache_heads c) (cache_kv_heads c)) (\<lambda>_.
     rbind (embed_weights (text_prefix C) W) (\<lambda>e.
     rbind (embed e last_id) (\<lambda>hidden.
     rbind (decode_layers (std_layer_decode M c W (text_prefix C) (compute_cos_sin M (cache_theta c) (cache_rot c) (n_ctx c)))
              [0..<cfg_layers C] (cache_layers c) hidden) (\<lambda>(caches, hidden).
     rbind (std_logits M C (cache_eps c) W e [hidden]) (\<lambda>logits.
       Inr (hd logits, c\<lparr>n_ctx := n_ctx c + 1, cache_layers := caches\<rparr>))))))"

section \<open>A prompt with one more token\<close>

text \<open>Attention and cache of a prompt with one more token.\<close>

lemma std_attention_iff:
  "standard_attention_forward M nh kvh hdim L cs hs = Inr os \<and> std_keys_values kvh hdim L cs hs = Inr (ck, cv) \<longleftrightarrow>
    (\<exists>Q K V Q2 K2 a. rmap (proj_heads (w_q L) (q_bias L) nh hdim) hs = Inr Q
      \<and> rmap (proj_heads (w_k L) (k_bias L) kvh hdim) hs = Inr K \<and> rmap (proj_heads (w_v L) (v_bias L) kvh hdim) hs = Inr V
      \<and> rope_rows cs Q = Inr Q2 \<and> rope_rows cs K = Inr K2 \<and> attend_all M nh kvh hdim Q2 K2 V = Inr a
      \<and> rmap (linear (w_o L) None) a = Inr os \<and> KV ck cv = KV (by_head kvh K2) (by_head kvh V))"
  by (auto simp: standard_attention_forward_def std_keys_values_def rbind_Inr_iff)

lemma std_decode_iff:
  "std_decode_attention M nh kvh hdim L c (Some (KV ck cv)) h = Inr (e', o') \<longleftrightarrow>
    (\<exists>q k v q2 k2 a. proj_heads (w_q L) (q_bias L) nh hdim h = Inr q \<and> proj_heads (w_k L) (k_bias L) kvh hdim h = Inr k
      \<and> proj_heads (w_v L) (v_bias L) kvh hdim h = Inr v
      \<and> rmap (apply_rotary c) q = Inr q2 \<and> rmap (apply_rotary c) k = Inr k2
      \<and> attend_last M nh kvh hdim q2 (append_heads ck k2) (append_heads cv v) = Inr a
      \<and> linear (w_o L) None a = Inr o' \<and> e' = KV (append_heads ck k2) (append_heads cv v))"
  by (auto simp: std_decode_attention_def rbind_Inr_iff Let_def)

lemma std_attention_snoc:
  assumes "length cs = length hs"
  shows "standard_attention_forward M nh kvh hdim L (cs @ [c]) (hs @ [h]) = Inr os' \<and>
      std_keys_values kvh hdim L (cs @ [c]) (hs @ [h]) = Inr (ck', cv') \<longleftrightarrow>
    (\<exists>os o' ck cv. os' = os @ [o'] \<and> standard_attention_forward M nh kvh hdim L cs hs = Inr os
      \<and> std_keys_values kvh hdim L cs hs = Inr (ck, cv)
      \<and> std_decode_attention M nh kvh hdim L c (Some (KV ck cv)) h = Inr (KV ck' cv', o'))"
  (is "?l \<longleftrightarrow> ?r")
proof -
  let ?Q = "rmap (proj_heads (w_q L) (q_bias L) nh hdim) hs" and ?q = "proj_heads (w_q L) (q_bias L) nh hdim h"
  let ?K = "rmap (proj_heads (w_k L) (k_bias L) kvh hdim) hs" and ?k = "proj_heads (w_k L) (k_bias L) kvh hdim h"
  let ?V = "rmap (proj_heads (w_v L) (v_bias L) kvh hdim) hs" and ?v = "proj_heads (w_v L) (v_bias L) kvh hdim h"
  have snoc: "(\<exists>Q' K'. rope_rows (cs @ [c]) (Q @ [q]) = Inr Q' \<and> rope_rows (cs @ [c]) (K @ [k]) = Inr K'
      \<and> attend_all M nh kvh hdim Q' K' (V @ [v]) = Inr a' \<and> KV ck' cv' = KV (by_head kvh K') (by_head kvh (V @ [v]))) \<longleftrightarrow>
    (\<exists>Q2 K2 q2 k2 a o' ck cv. a' = a @ [o'] \<and> rope_rows cs Q = Inr Q2 \<and> rope_rows cs K = Inr K2
      \<and> rmap (apply_rotary c) q = Inr q2 \<and> rmap (apply_rotary c) k = Inr k2
      \<and> attend_all M nh kvh hdim Q2 K2 V = Inr a \<and> ck = by_head kvh K2 \<and> cv = by_head kvh V
      \<and> attend_last M nh kvh hdim q2 (append_heads ck k2) (append_heads cv v) = Inr o'
      \<and> KV ck' cv' = KV (append_heads ck k2) (append_heads cv v))"
    if Q: "?Q = Inr Q" and k: "?K = Inr K" "?k = Inr k" and v: "?V = Inr V" "?v = Inr v" for Q K V q k v a'
  proof (rule rope_attend_snoc)
    show "\<forall>r \<in> set K. length r = kvh" "\<forall>r \<in> set V. length r = kvh"
      by (rule all_heads_length [OF k(1)], rule all_heads_length [OF v(1)])
  qed (use assms Q k v in \<open>auto dest: rmap_length proj_heads_length\<close>)
  show ?thesis
  proof
    assume ?l
    then obtain Q q K k V v Q' K' a' where p: "?Q = Inr Q" "?q = Inr q" "?K = Inr K" "?k = Inr k" "?V = Inr V" "?v = Inr v"
      and r: "rope_rows (cs @ [c]) (Q @ [q]) = Inr Q'" "rope_rows (cs @ [c]) (K @ [k]) = Inr K'"
      "attend_all M nh kvh hdim Q' K' (V @ [v]) = Inr a'" "KV ck' cv' = KV (by_head kvh K') (by_head kvh (V @ [v]))"
      and o1: "rmap (linear (w_o L) None) a' = Inr os'"
      unfolding std_attention_iff by (auto simp: rmap_snoc)
    obtain Q2 K2 q2 k2 a b where s: "a' = a @ [b]" "rope_rows cs Q = Inr Q2" "rope_rows cs K = Inr K2"
      "rmap (apply_rotary c) q = Inr q2" "rmap (apply_rotary c) k = Inr k2" "attend_all M nh kvh hdim Q2 K2 V = Inr a"
      "attend_last M nh kvh hdim q2 (append_heads (by_head kvh K2) k2) (append_heads (by_head kvh V) v) = Inr b"
      "KV ck' cv' = KV (append_heads (by_head kvh K2) k2) (append_heads (by_head kvh V) v)"
      using snoc [OF p(1,3,4,5,6), of q a'] r by blast
    obtain os o' where "os' = os @ [o']" "rmap (linear (w_o L) None) a = Inr os" "linear (w_o L) None b = Inr o'"
      using o1 unfolding s(1) by (auto simp: rmap_snoc)
    moreover have "standard_attention_forward M nh kvh hdim L cs hs = Inr os
        \<and> std_keys_values kvh hdim L cs hs = Inr (by_head kvh K2, by_head kvh V)"
      unfolding std_attention_iff using p s calculation(2) by blast
    moreover have "std_decode_attention M nh kvh hdim L c (Some (KV (by_head kvh K2) (by_head kvh V))) h = Inr (KV ck' cv', o')"
      unfolding std_decode_iff using p s calculation by blast
    ultimately show ?r by blast
  next
    assume ?r
    then obtain os o' ck cv where os': "os' = os @ [o']"
      and f: "standard_attention_forward M nh kvh hdim L cs hs = Inr os \<and> std_keys_values kvh hdim L cs hs = Inr (ck, cv)"
      and d: "std_decode_attention M nh kvh hdim L c (Some (KV ck cv)) h = Inr (KV ck' cv', o')" by blast
    obtain Q K V Q2 K2 a where p: "?Q = Inr Q" "?K = Inr K" "?V = Inr V" "rope_rows cs Q = Inr Q2"
      "rope_rows cs K = Inr K2" "attend_all M nh kvh hdim Q2 K2 V = Inr a" "rmap (linear (w_o L) None) a = Inr os"
      "KV ck cv = KV (by_head kvh K2) (by_head kvh V)"
      using f unfolding std_attention_iff by blast
    obtain q k v q2 k2 b where s: "?q = Inr q" "?k = Inr k" "?v = Inr v" "rmap (apply_rotary c) q = Inr q2"
      "rmap (apply_rotary c) k = Inr k2"
      "attend_last M nh kvh hdim q2 (append_heads (by_head kvh K2) k2) (append_heads (by_head kvh V) v) = Inr b"
      "linear (w_o L) None b = Inr o'" "KV ck' cv' = KV (append_heads (by_head kvh K2) k2) (append_heads (by_head kvh V) v)"
      using d unfolding p(8) std_decode_iff by blast
    obtain Q' K' where r: "rope_rows (cs @ [c]) (Q @ [q]) = Inr Q'" "rope_rows (cs @ [c]) (K @ [k]) = Inr K'"
      "attend_all M nh kvh hdim Q' K' (V @ [v]) = Inr (a @ [b])" "KV ck' cv' = KV (by_head kvh K') (by_head kvh (V @ [v]))"
      using snoc [OF p(1,2) s(2) p(3) s(3), of q "a @ [b]"] p s by blast
    then show ?l unfolding std_attention_iff using p(1-3,7) s(1-3,7) os'
      by (intro exI [of _ "Q @ [q]"] exI [of _ "K @ [k]"] exI [of _ "V @ [v]"] exI [of _ Q'] exI [of _ K']
          exI [of _ "a @ [b]"]) (simp add: rmap_append)
  qed
qed

text \<open>The same for a layer, and for all layers.\<close>

lemma std_attention_length:
  assumes "standard_attention_forward M nh kvh hdim L cs hs = Inr os" "length cs = length hs"
  shows "length os = length hs"
  using assms
  by (auto simp: standard_attention_forward_def attend_all_def rbind_Inr_iff Let_def split: if_splits
      dest!: rmap_length rope_rows_length)

lemma decode_attention_KV:
  "std_decode_attention M nh kvh hdim L c entry h = Inr (entry', o') \<Longrightarrow>
    \<exists>ck cv ck' cv'. entry = Some (KV ck cv) \<and> entry' = KV ck' cv'"
  by (cases entry; cases "the entry") (auto simp: std_decode_attention_def rbind_Inr_iff Let_def)

lemma std_layer_one_more:
  fixes cs :: "('f::linordered_field list \<times> 'f list) list"
  assumes "length cs = s" "cache_eps c = cfg_eps C" "cache_heads c = cfg_heads C"
    and "cache_kv_heads c = cfg_kv_heads C" "cache_head_dim c = cfg_head_dim C"
  shows "one_more s (std_layer_prefill M C W cs i) (std_layer_prefill M C W (cs @ [k]) i)
    (\<lambda>x. std_layer_decode M c W (text_prefix C) k i (Some x))"
proof (rule one_moreI)
  fix hs :: "'f list list" and h c' os' assume hs: "length hs = s"
  let ?att = "standard_attention_forward M (cfg_heads C) (cfg_kv_heads C) (cfg_head_dim C)"
  let ?kv = "std_keys_values (cfg_kv_heads C) (cfg_head_dim C)"
  let ?dec = "\<lambda>L x h. std_decode_attention M (cfg_heads C) (cfg_kv_heads C) (cfg_head_dim C) L k (Some x) h"
  let ?n1 = "std_norm M (cfg_eps C) W (text_prefix C) i ''input_layernorm.weight''"
  let ?n2 = "std_norm M (cfg_eps C) W (text_prefix C) i ''post_attention_layernorm.weight''"
  let ?mlp = "\<lambda>nrm. mlp_block nrm M W (text_prefix C) i"
  show "std_layer_prefill M C W (cs @ [k]) i (hs @ [h]) = Inr (c', os') \<longleftrightarrow>
    (\<exists>x os o'. os' = os @ [o'] \<and> std_layer_prefill M C W cs i hs = Inr (x, os)
      \<and> std_layer_decode M c W (text_prefix C) k i (Some x) h = Inr (c', o'))" (is "?l \<longleftrightarrow> ?r")
  proof
    assume ?l
    then obtain nrm g x L a' ck' cv' r' nrm2 where n: "?n1 = Inr nrm" "?n2 = Inr nrm2"
      and g: "rmap nrm hs = Inr g" "nrm h = Inr x" and L: "std_layer_weights W (text_prefix C) i = Inr L"
      and a: "?att L (cs @ [k]) (g @ [x]) = Inr a'" "?kv L (cs @ [k]) (g @ [x]) = Inr (ck', cv')"
      and r: "residual (hs @ [h]) a' = Inr r'" and m: "?mlp nrm2 r' = Inr os'" and c': "c' = KV ck' cv'"
      by (auto simp: std_layer_prefill_def rbind_Inr_iff rmap_snoc)
    have len: "length cs = length g" using rmap_length [OF g(1)] hs assms(1) by simp
    obtain os o' ck cv where o': "a' = os @ [o']" "?att L cs g = Inr os" "?kv L cs g = Inr (ck, cv)"
      "?dec L (KV ck cv) x = Inr (KV ck' cv', o')"
      using std_attention_snoc [OF len, THEN iffD1, OF conjI [OF a]] by blast
    have lo: "length hs = length os" using std_attention_length [OF o'(2) len] len hs assms(1) by simp
    obtain rs r1 where r1: "r' = rs @ [r1]" "residual hs os = Inr rs" "row_op (+) h o' = Inr r1"
      using r residual_snoc [OF lo] o'(1) by auto
    obtain ms m1 where m1: "os' = ms @ [m1]" "?mlp nrm2 rs = Inr ms" "?mlp nrm2 [r1] = Inr [m1]"
      using m r1(1) mlp_block_snoc by blast
    have "std_layer_prefill M C W cs i hs = Inr (KV ck cv, ms)"
      using n g L o' r1 m1 by (simp add: std_layer_prefill_def)
    moreover have "std_layer_decode M c W (text_prefix C) k i (Some (KV ck cv)) h = Inr (c', m1)"
      using n g L o' r1 m1 c' assms(2-5) by (simp add: std_layer_decode_def)
    ultimately show ?r using m1(1) by blast
  next
    assume ?r
    then obtain y os o' where os': "os' = os @ [o']" and p: "std_layer_prefill M C W cs i hs = Inr (y, os)"
      and d: "std_layer_decode M c W (text_prefix C) k i (Some y) h = Inr (c', o')" by blast
    obtain nrm g L a ck cv r nrm2 where n: "?n1 = Inr nrm" "?n2 = Inr nrm2"
      and g: "rmap nrm hs = Inr g" and L: "std_layer_weights W (text_prefix C) i = Inr L"
      and a: "?att L cs g = Inr a" "?kv L cs g = Inr (ck, cv)"
      and r: "residual hs a = Inr r" and m: "?mlp nrm2 r = Inr os" and y: "y = KV ck cv"
      using p by (auto simp: std_layer_prefill_def rbind_Inr_iff)
    obtain x o1 r1 out where s: "nrm h = Inr x" "?dec L (KV ck cv) x = Inr (c', o1)"
      "row_op (+) h o1 = Inr r1" "?mlp nrm2 [r1] = Inr out" "o' = hd out"
      using d L n y assms(2-5) by (auto simp: std_layer_decode_def rbind_Inr_iff)
    obtain ck' cv' where c': "c' = KV ck' cv'" using decode_attention_KV [OF s(2)] by blast
    have out: "?mlp nrm2 [r1] = Inr [o']" using mlp_block_one [OF s(4)] s(4,5) by auto
    have len: "length cs = length g" using rmap_length [OF g] hs assms(1) by simp
    have a': "?att L (cs @ [k]) (g @ [x]) = Inr (a @ [o1])" "?kv L (cs @ [k]) (g @ [x]) = Inr (ck', cv')"
      using std_attention_snoc [OF len, THEN iffD2] a s(2) unfolding c' by blast+
    have lo: "length hs = length a" using std_attention_length [OF a(1) len] len hs assms(1) by simp
    then have "residual (hs @ [h]) (a @ [o1]) = Inr (r @ [r1])" using r s(3) by (simp add: residual_snoc)
    moreover have "?mlp nrm2 (r @ [r1]) = Inr os'" using m out os' mlp_block_snoc by blast
    ultimately show ?l using n g s(1) L a' c' by (simp add: std_layer_prefill_def rmap_append)
  qed
next
  fix hs :: "'f list list" and x os assume hs: "length hs = s" and p: "std_layer_prefill M C W cs i hs = Inr (x, os)"
  then show "length os = s" using assms(1)
    by (auto simp: std_layer_prefill_def rbind_Inr_iff dest!: rmap_length std_attention_length residual_length mlp_block_length)
qed

text \<open>The forward pass is the prefill without its cache.\<close>

lemma std_keys_values_total:
  assumes "standard_attention_forward M nh kvh hdim L cs hs = Inr os"
  shows "\<exists>k v. std_keys_values kvh hdim L cs hs = Inr (k, v)"
  using assms by (auto simp: standard_attention_forward_def std_keys_values_def rbind_Inr_iff)

lemma rbind_Inr_right: "rbind x Inr = x"
  by (cases x) auto

lemma std_attention_kv:
  assumes "\<And>a k v. rbind (F a k v) (\<lambda>(c, out). Inr out) = G a"
  shows "rbind (standard_attention_forward M nh kvh hdim L cs h) (\<lambda>a.
       rbind (std_keys_values kvh hdim L cs h) (\<lambda>y. rbind (case y of (k, v) \<Rightarrow> F a k v) (\<lambda>(c, out). Inr out)))
     = rbind (standard_attention_forward M nh kvh hdim L cs h) G"
proof (cases "standard_attention_forward M nh kvh hdim L cs h")
  case (Inr a)
  then show ?thesis using std_keys_values_total [OF Inr] assms by auto
qed simp

lemma std_layer_forward_prefill:
  "rbind (std_layer_prefill M C W cs i hs) (\<lambda>(c, out). Inr out) = std_layer_forward M C W cs i hs"
  unfolding std_layer_prefill_def std_layer_forward_def
  by (simp only: rbind_assoc [of _ _ "\<lambda>(c, out). Inr out"])
    (intro rbind_cong refl std_attention_kv, simp add: rbind_assoc rbind_Inr_right)

lemma prefill_is_forward:
  "rbind (prefill_standard M C W ids) (\<lambda>(c, logits). Inr logits) = standard_model_forward M C W ids"
proof (cases "embed_weights (text_prefix C) W")
  case (Inr e)
  show ?thesis
  proof (cases "rmap (embed e) ids")
    case h: (Inr hidden)
    let ?cs = "positions_cos_sin M C (length ids)"
    have "rbind (prefill_layers (std_layer_prefill M C W ?cs) [0..<cfg_layers C] hidden) (\<lambda>(c, out). Inr out)
        = forward_layers (std_layer_forward M C W ?cs) [0..<cfg_layers C] hidden"
      by (rule layers_without_caches) (rule std_layer_forward_prefill)
    then show ?thesis using Inr h
      by (cases "prefill_layers (std_layer_prefill M C W ?cs) [0..<cfg_layers C] hidden")
        (auto simp: prefill_standard_def standard_model_forward_def rbind_def split: sum.splits prod.splits)
  qed (use Inr in \<open>simp add: prefill_standard_def standard_model_forward_def\<close>)
qed (simp add: prefill_standard_def standard_model_forward_def)

lemma std_logits_snoc:
  "std_logits M C eps W e (hs @ [h]) = Inr ls' \<longleftrightarrow>
    (\<exists>ls l. ls' = ls @ [l] \<and> std_logits M C eps W e hs = Inr ls \<and> std_logits M C eps W e [h] = Inr [l])"
  by (auto simp: std_logits_def rbind_Inr_iff rmap_snoc)

lemma std_logits_one: "std_logits M C eps W e [h] = Inr ls \<Longrightarrow> \<exists>l. ls = [l]"
  by (auto simp: std_logits_def rbind_Inr_iff)

lemma std_layer_decode_cong:
  assumes "cache_eps c = cache_eps d" "cache_heads c = cache_heads d" "cache_kv_heads c = cache_kv_heads d"
    and "cache_head_dim c = cache_head_dim d"
  shows "std_layer_decode M c = std_layer_decode M d"
  using assms by (auto simp: std_layer_decode_def fun_eq_iff)

lemma prefill_snoc:
  assumes "cfg_rotary C \<noteq> 0" "cfg_kv_heads C \<noteq> 0"
  shows "prefill_standard M C W (ids @ [t]) = Inr (c', ls') \<longleftrightarrow>
    (\<exists>c ls l. ls' = ls @ [l] \<and> prefill_standard M C W ids = Inr (c, ls) \<and> decode_standard M C W c t = Inr (l, c'))"
proof -
  let ?n = "length ids" and ?g = "lit ''standard_gqa''" and ?p = "text_prefix C" and ?xs = "[0..<cfg_layers C]"
  let ?c = "\<lambda>caches. new_cache ?g C ?n (Some (cfg_rotary C)) caches"
  let ?k = "compute_cos_sin M (cfg_theta C) (cfg_rotary C) ?n" and ?cs = "positions_cos_sin M C ?n"
  let ?D = "decode_layers (std_layer_decode M (?c []) W ?p ?k) ?xs"
  have c: "cache_eps (?c x) = cfg_eps C" "cache_heads (?c x) = cfg_heads C" "cache_kv_heads (?c x) = cfg_kv_heads C"
    "cache_head_dim (?c x) = cfg_head_dim C" "cache_layers (?c x) = x" "n_ctx (?c x) = ?n"
    "compute_cos_sin M (cache_theta (?c x)) (cache_rot (?c x)) ?n = ?k"
    "(?c x)\<lparr>n_ctx := Suc ?n, cache_layers := y\<rparr> = new_cache ?g C (Suc ?n) (Some (cfg_rotary C)) y" for x y
    using assms by (simp_all add: new_cache_def)
  have D: "std_layer_decode M (?c x) = std_layer_decode M (?c [])" for x
    by (rule std_layer_decode_cong) (simp_all only: c)
  have dec: "decode_standard M C W (?c x) t = Inr (l, c'') \<longleftrightarrow>
      (\<exists>e h caches o'. embed_weights ?p W = Inr e \<and> embed e t = Inr h \<and> ?D x h = Inr (caches, o')
        \<and> std_logits M C (cfg_eps C) W e [o'] = Inr [l] \<and> c'' = new_cache ?g C (Suc ?n) (Some (cfg_rotary C)) caches)" for x l c''
  proof
    assume "decode_standard M C W (?c x) t = Inr (l, c'')"
    then obtain e h caches o' ls where e: "embed_weights ?p W = Inr e" "embed e t = Inr h" "?D x h = Inr (caches, o')"
      "std_logits M C (cfg_eps C) W e [o'] = Inr ls" "l = hd ls" "c'' = new_cache ?g C (Suc ?n) (Some (cfg_rotary C)) caches"
      by (auto simp: decode_standard_def c D [of x] rbind_Inr_iff)
    then show "\<exists>e h caches o'. embed_weights ?p W = Inr e \<and> embed e t = Inr h \<and> ?D x h = Inr (caches, o')
        \<and> std_logits M C (cfg_eps C) W e [o'] = Inr [l] \<and> c'' = new_cache ?g C (Suc ?n) (Some (cfg_rotary C)) caches"
      using std_logits_one [OF e(4)] by auto
  next
    assume "\<exists>e h caches o'. embed_weights ?p W = Inr e \<and> embed e t = Inr h \<and> ?D x h = Inr (caches, o')
        \<and> std_logits M C (cfg_eps C) W e [o'] = Inr [l] \<and> c'' = new_cache ?g C (Suc ?n) (Some (cfg_rotary C)) caches"
    then obtain e h caches o' where e: "embed_weights ?p W = Inr e" "embed e t = Inr h" "?D x h = Inr (caches, o')"
      "std_logits M C (cfg_eps C) W e [o'] = Inr [l]" "c'' = new_cache ?g C (Suc ?n) (Some (cfg_rotary C)) caches" by blast
    have "decode_layers (std_layer_decode M (?c x) W ?p (compute_cos_sin M (cache_theta (?c x)) (cache_rot (?c x)) (n_ctx (?c x)))) ?xs
        (cache_layers (?c x)) h = Inr (caches, o')"
      by (simp only: c D [of x] e)
    moreover have "n_rep (cache_heads (?c x)) (cache_kv_heads (?c x)) = Inr (cfg_heads C div cfg_kv_heads C)"
      using assms(2) by (simp add: c n_rep_def)
    ultimately show "decode_standard M C W (?c x) t = Inr (l, c'')"
      by (simp add: decode_standard_def e c del: new_cache_def)
  qed
  have "one_more ?n (prefill_layers (std_layer_prefill M C W ?cs) ?xs) (prefill_layers (std_layer_prefill M C W (?cs @ [?k])) ?xs) ?D"
    by (intro layers_one_more std_layer_one_more) (simp_all add: new_cache_def)
  note model = model_one_more [OF this, where E = "embed_weights ?p W" and G = "std_logits M C (cfg_eps C) W", OF std_logits_snoc]
  have "prefill_standard M C W (ids @ [t]) = Inr (c', ls') \<longleftrightarrow>
      (\<exists>caches. c' = new_cache ?g C (Suc ?n) (Some (cfg_rotary C)) caches \<and> (\<exists>e hs os. embed_weights ?p W = Inr e
        \<and> rmap (embed e) (ids @ [t]) = Inr hs \<and> prefill_layers (std_layer_prefill M C W (?cs @ [?k])) ?xs hs = Inr (caches, os)
        \<and> std_logits M C (cfg_eps C) W e os = Inr ls'))"
    by (auto simp: prefill_standard_def rbind_Inr_iff positions_snoc)
  also have "\<dots> \<longleftrightarrow> (\<exists>c ls l. ls' = ls @ [l] \<and> prefill_standard M C W ids = Inr (c, ls) \<and> decode_standard M C W c t = Inr (l, c'))"
    unfolding model by (auto simp: prefill_standard_def rbind_Inr_iff dec)
  finally show ?thesis .
qed

section \<open>The model behind the generation loops\<close>

text \<open>
  \<open>ReferenceModel\<close> for a recipe of the kernel \<open>standard_gqa\<close>, where no GPU is in use: its methods with
  the indexing \<open>[0, -1]\<close> the loops apply to what they return.
\<close>

definition last_logits :: "'f list list \<Rightarrow> py_error + 'f list" where
  "last_logits rows = (if rows = [] then Inl IndexError else Inr (last rows))"

definition standard_lm ::
    "'f::linordered_field mathlib \<Rightarrow> 'f model_cfg \<Rightarrow> (pystr, 'f weight) dict \<Rightarrow> ('f inc_cache, 'f, unit) lm" where
  "standard_lm M C W =
     \<lparr>supports_incremental = True, is_dsv4 = False, max_context = Some (max_positions C),
      prefill = (\<lambda>ids _. rbind (prefill_standard M C W ids) (\<lambda>(c, rows).
                   rbind (last_logits rows) (\<lambda>l. Inr (c, l)))),
      decode_step = (\<lambda>c t. rbind (decode_standard M C W c t) (\<lambda>(l, c). Inr (l, c))),
      full_logits = (\<lambda>ids. rbind (standard_model_forward M C W ids) last_logits)\<rparr>"

definition std_cache_of :: "'f::linordered_field mathlib \<Rightarrow> 'f model_cfg \<Rightarrow> (pystr, 'f weight) dict \<Rightarrow> 'f inc_cache \<Rightarrow> int list \<Rightarrow> bool" where
  "std_cache_of M C W c ids \<longleftrightarrow> (\<exists>rows. prefill_standard M C W ids = Inr (c, rows))"

lemma forward_of_prefill:
  "prefill_standard M C W ids = Inr (c, rows) \<Longrightarrow> standard_model_forward M C W ids = Inr rows"
  using prefill_is_forward [of M C W ids] by simp

lemma standard_lm_coherent:
  assumes "cfg_rotary C \<noteq> 0" "cfg_kv_heads C \<noteq> 0"
  shows "coherent (standard_lm M C W) (std_cache_of M C W)"
proof -
  have "std_cache_of M C W c ids \<and> full_logits (standard_lm M C W) ids = Inr l"
    if p: "prefill (standard_lm M C W) ids None = Inr (c, l)" for ids c l
  proof -
    obtain rows where "prefill_standard M C W ids = Inr (c, rows)" "last_logits rows = Inr l"
      using p by (auto simp: standard_lm_def rbind_Inr_iff)
    then show ?thesis by (auto simp: std_cache_of_def standard_lm_def forward_of_prefill)
  qed
  moreover have "std_cache_of M C W c' (ids @ [t]) \<and> full_logits (standard_lm M C W) (ids @ [t]) = Inr l"
    if c: "std_cache_of M C W c ids" and d: "decode_step (standard_lm M C W) c t = Inr (l, c')" for c ids t l c'
  proof -
    obtain rows where "prefill_standard M C W ids = Inr (c, rows)" using c by (auto simp: std_cache_of_def)
    moreover have "decode_standard M C W c t = Inr (l, c')"
      using d by (auto simp: standard_lm_def rbind_Inr_iff)
    ultimately have "prefill_standard M C W (ids @ [t]) = Inr (c', rows @ [l])"
      using prefill_snoc [OF assms] by blast
    then show ?thesis
      by (auto simp: std_cache_of_def standard_lm_def forward_of_prefill last_logits_def)
  qed
  ultimately show ?thesis unfolding coherent_def by blast
qed

section \<open>The property\<close>

text \<open>
  C5: the KV cache of a dense transformer is exact.  Prefilling a prompt with one more token gives
  the cache and the logits that prefilling the prompt and decoding the token give, and succeeds just
  when they do; the logits are those of the full forward.  So generation through the cache returns
  what generation by recomputing every step returns, for every sampling and every model of this
  family whose rotary width and number of key heads are not zero.
\<close>

theorem cached_generation_is_exact:
  assumes "cfg_rotary C \<noteq> 0" "cfg_kv_heads C \<noteq> 0"
  shows "(\<forall>ids t c' rows'. prefill_standard M C W (ids @ [t]) = Inr (c', rows') \<longleftrightarrow>
      (\<exists>c rows l. rows' = rows @ [l] \<and> prefill_standard M C W ids = Inr (c, rows)
         \<and> decode_standard M C W c t = Inr (l, c')))
    \<and> (\<forall>ids c rows. prefill_standard M C W ids = Inr (c, rows) \<longrightarrow> standard_model_forward M C W ids = Inr rows)
    \<and> (\<forall>N P stop max_new prompt res.
         generate N (standard_lm M C W) P stop max_new None prompt = Inr res \<longrightarrow>
         generate N (standard_lm M C W\<lparr>supports_incremental := False\<rparr>) P stop max_new None prompt = Inr res)"
proof (intro conjI allI impI)
  fix N :: "('a, 'b) numpy" and P stop max_new prompt res
  have "supports_incremental (standard_lm M C W)" by (simp add: standard_lm_def)
  note run = incremental_run [OF standard_lm_coherent [OF assms] this]
  assume "generate N (standard_lm M C W) P stop max_new None prompt = Inr res"
  then show "generate N (standard_lm M C W\<lparr>supports_incremental := False\<rparr>) P stop max_new None prompt = Inr res"
    by (rule run)
qed (use prefill_snoc [OF assms] forward_of_prefill in blast)+

text \<open>A model of one layer over the rationals, with rational stand-ins for the functions of numpy.\<close>

definition toy_math :: "rat mathlib" where
  "toy_math = \<lparr>m_exp = (\<lambda>x. 1 + x * x), m_cos = (\<lambda>x. 1 - x), m_sin = (\<lambda>x. x), m_sqrt = (\<lambda>x. x),
     m_pow = (\<lambda>x y. 1), m_logaddexp = (\<lambda>x y. x + y)\<rparr>"

definition toy_cfg :: "rat model_cfg" where
  "toy_cfg = \<lparr>text_prefix = lit ''m'', cfg_layers = 1, cfg_heads = 1, cfg_kv_heads = 1, cfg_head_dim = 2, cfg_rotary = 2,
     cfg_theta = 2, cfg_eps = 1 / 100, tie_embeddings = True, max_positions = 8\<rparr>"

definition toy_weights :: "(pystr, rat weight) dict" where
  "toy_weights =
     [(lit ''m.embed_tokens.weight'', Mat [[1, 2], [3, -1]]), (lit ''m.norm.weight'', Vec [1, 1]),
      (lit ''m.layers.0.input_layernorm.weight'', Vec [1, 2]),
      (lit ''m.layers.0.self_attn.q_proj.weight'', Mat [[1, 0], [1, 1]]),
      (lit ''m.layers.0.self_attn.k_proj.weight'', Mat [[0, 1], [1, 0]]),
      (lit ''m.layers.0.self_attn.v_proj.weight'', Mat [[1, 1], [0, 1]]),
      (lit ''m.layers.0.self_attn.o_proj.weight'', Mat [[1, 0], [0, 1]]),
      (lit ''m.layers.0.self_attn.q_proj.bias'', Vec [1, 0]),
      (lit ''m.layers.0.post_attention_layernorm.weight'', Vec [1, 1]),
      (lit ''m.layers.0.mlp.gate_proj.weight'', Mat [[1, 0]]), (lit ''m.layers.0.mlp.up_proj.weight'', Mat [[0, 1]]),
      (lit ''m.layers.0.mlp.down_proj.weight'', Mat [[1], [1]])]"

lemma toy_prefill: "\<not> isl (prefill_standard toy_math toy_cfg toy_weights [0, 1])"
  by code_simp

theorem cached_generation_is_exact_witness:
  "\<exists>c rows l c'. prefill_standard toy_math toy_cfg toy_weights [0] = Inr (c, rows)
     \<and> decode_standard toy_math toy_cfg toy_weights c 1 = Inr (l, c')
     \<and> standard_model_forward toy_math toy_cfg toy_weights [0, 1] = Inr (rows @ [l])"
proof -
  have "cfg_rotary toy_cfg \<noteq> 0" "cfg_kv_heads toy_cfg \<noteq> 0" by (simp_all add: toy_cfg_def)
  note exact = cached_generation_is_exact [OF this, of toy_math toy_weights]
  obtain c' rows' where p: "prefill_standard toy_math toy_cfg toy_weights ([0] @ [1]) = Inr (c', rows')"
    using toy_prefill by (cases "prefill_standard toy_math toy_cfg toy_weights [0, 1]") auto
  then obtain c rows l where "rows' = rows @ [l]" "prefill_standard toy_math toy_cfg toy_weights [0] = Inr (c, rows)"
    "decode_standard toy_math toy_cfg toy_weights c 1 = Inr (l, c')" using exact by blast
  moreover have "standard_model_forward toy_math toy_cfg toy_weights ([0] @ [1]) = Inr rows'" using exact p by blast
  ultimately show ?thesis by auto
qed

text \<open>
  The width zero is different: the full forward then rotates nothing, while the cache falls back to
  the head dimension, so decoding rotates the whole head.
\<close>

lemma zero_rotary_falls_back:
  assumes "cfg_rotary C = 0"
  shows "positions_cos_sin M C s = replicate s ([], [])"
    and "prefill_standard M C W ids = Inr (c, rows) \<Longrightarrow> cache_rot c = cfg_head_dim C"
proof -
  show "positions_cos_sin M C s = replicate s ([], [])"
    by (rule nth_equalityI) (simp_all add: positions_cos_sin_def compute_cos_sin_def assms)
qed (auto simp: prefill_standard_def new_cache_def rbind_Inr_iff assms)

end
