(* ===== verification/Hybrid.thy ===== *)
theory Hybrid
  imports DeltaRule Standard
begin

text \<open>
  The hybrid transformer of the Qwen3.5 family: linear layers with the gated delta rule and layers of
  gated full attention.  It models \<open>gated_delta_net_forward\<close> and \<open>full_attention_forward\<close> of
  \<open>ref/qwen3_5.py\<close>, \<open>model_forward\<close> of \<open>ref/pipeline.py\<close>, the hybrid path of \<open>ref/incremental.py\<close>, and
  the host path of \<open>ReferenceModel\<close> for such a recipe.

  Prefill runs the chunked rule over the prompt; decoding runs the recurrent rule from the state
  prefill left, the convolution over the window it left, and attention over the cached keys.
\<close>

section \<open>Linear layers\<close>

record linear_cfg =
  num_key_heads :: nat
  key_head_dim :: nat
  num_value_heads :: nat
  value_head_dim :: nat
  conv_kernel_size :: nat
  qk_l2norm :: bool

text \<open>The axis of length one of the convolution weight is left out.\<close>

record 'f linear_layer =
  w_in_qkv :: "'f list list"
  w_conv :: "'f list list"
  w_z :: "'f list list"
  w_b :: "'f list list"
  w_a :: "'f list list"
  a_log :: "'f list"
  dt_bias :: "'f list"
  norm_w :: "'f list"
  w_out :: "'f list list"

definition text_model :: pystr where
  "text_model = lit ''model.language_model''"

definition linear_attn_weights :: "(pystr, 'f weight) dict \<Rightarrow> nat \<Rightarrow> py_error + 'f linear_layer" where
  "linear_attn_weights W i =
     rbind (wmat W (layer_name text_model i ''linear_attn.in_proj_qkv.weight'')) (\<lambda>qkv.
     rbind (wmat W (layer_name text_model i ''linear_attn.conv1d.weight'')) (\<lambda>c.
     rbind (wmat W (layer_name text_model i ''linear_attn.in_proj_z.weight'')) (\<lambda>z.
     rbind (wmat W (layer_name text_model i ''linear_attn.in_proj_b.weight'')) (\<lambda>b.
     rbind (wmat W (layer_name text_model i ''linear_attn.in_proj_a.weight'')) (\<lambda>a.
     rbind (wvec W (layer_name text_model i ''linear_attn.A_log'')) (\<lambda>l.
     rbind (wvec W (layer_name text_model i ''linear_attn.dt_bias'')) (\<lambda>d.
     rbind (wvec W (layer_name text_model i ''linear_attn.norm.weight'')) (\<lambda>n.
     rbind (wmat W (layer_name text_model i ''linear_attn.out_proj.weight'')) (\<lambda>o'.
       Inr \<lparr>w_in_qkv = qkv, w_conv = c, w_z = z, w_b = b, w_a = a, a_log = l, dt_bias = d, norm_w = n, w_out = o'\<rparr>)))))))))"

text \<open>\<open>reshape(..., -1, d)\<close> of a row\<close>

definition heads_of_width :: "nat \<Rightarrow> 'a list \<Rightarrow> py_error + 'a list list" where
  "heads_of_width d x =
     (if d = 0 \<or> length x mod d \<noteq> 0 then Inl ValueError else heads (length x div d) d x)"

text \<open>The slices of a row of the convolution, by heads.\<close>

definition net_qkv :: "linear_cfg \<Rightarrow> 'f list \<Rightarrow> py_error + 'f list list \<times> 'f list list \<times> 'f list list" where
  "net_qkv la row =
     (let key_dim = num_key_heads la * key_head_dim la; value_dim = num_value_heads la * value_head_dim la in
      rbind (heads_of_width (key_head_dim la) (take key_dim row)) (\<lambda>q.
      rbind (heads_of_width (key_head_dim la) (take key_dim (drop key_dim row))) (\<lambda>k.
      rbind (heads (num_value_heads la) (value_head_dim la) (take value_dim (drop (key_dim + key_dim) row))) (\<lambda>v.
        Inr (q, k, v)))))"

text \<open>The queries and keys repeated for the value heads.\<close>

definition net_repeat :: "linear_cfg \<Rightarrow> 'f list list \<Rightarrow> 'f list list \<Rightarrow> py_error + 'f list list \<times> 'f list list" where
  "net_repeat la q k =
     (if num_key_heads la = 0 then Inl ZeroDivisionError
      else let ratio = num_value_heads la div num_key_heads la in Inr (replicated ratio q, replicated ratio k))"

definition net_gates ::
    "'f mathlib \<Rightarrow> 'f linear_layer \<Rightarrow> 'f::field list \<Rightarrow> py_error + 'f list \<times> 'f list" where
  "net_gates M L h =
     rbind (linear (w_b L) None h) (\<lambda>bvec.
     rbind (linear (w_a L) None h) (\<lambda>avec.
     rbind (row_op (+) avec (dt_bias L)) (\<lambda>x.
     rbind (row_op (*) (map (\<lambda>a. - m_exp M a) (a_log L)) (map (softplus M) x)) (\<lambda>g.
       Inr (map (sigmoid M) bvec, g)))))"

text \<open>
  The tokens of a position.  Numpy would broadcast some inconsistent numbers of heads; here they are
  refused.
\<close>

definition net_tokens ::
    "nat \<Rightarrow> 'f list list \<Rightarrow> 'f list list \<Rightarrow> 'f list list \<Rightarrow> 'f list \<Rightarrow> 'f list \<Rightarrow> py_error + 'f token list" where
  "net_tokens n q k v beta g =
     (if length q = n \<and> length k = n \<and> length v = n \<and> length beta = n \<and> length g = n
      then Inr (map (\<lambda>h. \<lparr>tq = q ! h, tk = k ! h, tv = v ! h, tbeta = beta ! h, tg = g ! h\<rparr>) [0..<n])
      else Inl ValueError)"

definition net_position ::
    "'f mathlib \<Rightarrow> linear_cfg \<Rightarrow> 'f linear_layer \<Rightarrow> 'f::field list \<Rightarrow> 'f list \<Rightarrow> py_error + 'f token list \<times> 'f list list" where
  "net_position M la L h row =
     rbind (net_qkv la row) (\<lambda>(q, k, v).
     rbind (linear (w_z L) None h) (\<lambda>zr.
     rbind (heads_of_width (value_head_dim la) zr) (\<lambda>z.
     rbind (net_gates M L h) (\<lambda>(beta, g).
     rbind (net_repeat la q k) (\<lambda>(q, k).
     rbind (net_tokens (num_value_heads la) q k v beta g) (\<lambda>ts.
       if length z = num_value_heads la then Inr (ts, z) else Inl ValueError))))))"

text \<open>The gated norm of the heads and the output projection of a position.\<close>

definition net_output ::
    "'f mathlib \<Rightarrow> 'f \<Rightarrow> 'f linear_layer \<Rightarrow> 'f::field list list \<Rightarrow> 'f list list \<Rightarrow> py_error + 'f list" where
  "net_output M eps L core z =
     rbind (rmap (\<lambda>(c, z). rms_norm_gated M eps (norm_w L) z c) (zip core z)) (\<lambda>rows.
       linear (w_out L) None (concat rows))"

text \<open>A prompt without tokens cannot be reshaped.\<close>

definition gated_delta_net_forward ::
    "'f mathlib \<Rightarrow> 'f \<Rightarrow> linear_cfg \<Rightarrow> 'f linear_layer \<Rightarrow> bool \<Rightarrow> nat \<Rightarrow> 'f::field list list
     \<Rightarrow> py_error + 'f list list \<times> 'f list list list" where
  "gated_delta_net_forward M eps la L chunked chunk_size hidden =
     rbind (rmap (linear (w_in_qkv L) None) hidden) (\<lambda>mixed.
     rbind (causal_conv1d_depthwise M (w_conv L) mixed) (\<lambda>conv.
       if hidden = [] then Inl ValueError
       else rbind (rmap (\<lambda>(h, r). net_position M la L h r) (zip hidden conv)) (\<lambda>ps.
         let rule = if chunked
                    then gated_delta_rule_chunked M (qk_l2norm la) (num_value_heads la) (key_head_dim la)
                           (value_head_dim la) chunk_size None (map fst ps)
                    else gated_delta_rule_recurrent M (qk_l2norm la) (num_value_heads la) (key_head_dim la)
                           (value_head_dim la) None (map fst ps)
         in case rule of (core, state) \<Rightarrow>
            rbind (rmap (\<lambda>(c, z). net_output M eps L c z) (zip core (map snd ps))) (\<lambda>out. Inr (out, state)))))"

text \<open>
  Prefill keeps the state and the last \<open>kc - 1\<close> inputs of the convolution.  For \<open>kc = 1\<close> the code
  stores an array of one position without channels.
\<close>

definition linear_prefill ::
    "'f mathlib \<Rightarrow> 'f \<Rightarrow> linear_cfg \<Rightarrow> 'f linear_layer \<Rightarrow> 'f::field list list
     \<Rightarrow> py_error + 'f layer_cache \<times> 'f list list" where
  "linear_prefill M eps la L hidden =
     rbind (gated_delta_net_forward M eps la L True 64 hidden) (\<lambda>(out, state).
     rbind (rmap (linear (w_in_qkv L) None) hidden) (\<lambda>mixed.
       let kc = conv_kernel_size la
       in Inr (Recurrent state (if kc > 1 then last_rows (kc - 1) mixed else [[]]), out)))"

definition linear_decode ::
    "'f mathlib \<Rightarrow> 'f \<Rightarrow> linear_cfg \<Rightarrow> 'f linear_layer \<Rightarrow> 'f layer_cache option \<Rightarrow> 'f::field list
     \<Rightarrow> py_error + 'f layer_cache \<times> 'f list" where
  "linear_decode M eps la L entry h =
     rbind (linear (w_in_qkv L) None h) (\<lambda>mixed.
       case entry of
         Some (Recurrent state window) \<Rightarrow>
           if \<not> list_all (\<lambda>r. length r = length mixed) window then Inl ValueError
           else let kc = conv_kernel_size la; win = window @ [mixed]
             in rbind (causal_conv1d_depthwise M (w_conv L) (last_rows kc win)) (\<lambda>conv.
                rbind (net_qkv la (last conv)) (\<lambda>(q, k, v).
                rbind (net_repeat la q k) (\<lambda>(q, k).
                rbind (linear (w_z L) None h) (\<lambda>zr.
                rbind (heads (num_value_heads la) (value_head_dim la) zr) (\<lambda>z.
                rbind (net_gates M L h) (\<lambda>(beta, g).
                rbind (net_tokens (num_value_heads la) q k v beta g) (\<lambda>ts.
                  case gated_delta_rule_recurrent M (qk_l2norm la) (num_value_heads la) (key_head_dim la)
                         (value_head_dim la) (Some state) [ts] of
                    (core, state) \<Rightarrow>
                      rbind (net_output M eps L (hd core) z) (\<lambda>out.
                        Inr (Recurrent state (last_rows (kc - 1) win), out)))))))))
       | _ \<Rightarrow> Inl KeyError)"

section \<open>Layers of full attention\<close>

record 'f full_layer =
  full_q :: "'f list list"
  full_k :: "'f list list"
  full_v :: "'f list list"
  full_o :: "'f list list"
  q_norm_w :: "'f list"
  k_norm_w :: "'f list"

definition full_attn_weights :: "(pystr, 'f weight) dict \<Rightarrow> nat \<Rightarrow> py_error + 'f full_layer" where
  "full_attn_weights W i =
     rbind (wmat W (layer_name text_model i ''self_attn.q_proj.weight'')) (\<lambda>q.
     rbind (wmat W (layer_name text_model i ''self_attn.k_proj.weight'')) (\<lambda>k.
     rbind (wmat W (layer_name text_model i ''self_attn.v_proj.weight'')) (\<lambda>v.
     rbind (wmat W (layer_name text_model i ''self_attn.o_proj.weight'')) (\<lambda>o'.
     rbind (wvec W (layer_name text_model i ''self_attn.q_norm.weight'')) (\<lambda>qn.
     rbind (wvec W (layer_name text_model i ''self_attn.k_norm.weight'')) (\<lambda>kn.
       Inr \<lparr>full_q = q, full_k = k, full_v = v, full_o = o', q_norm_w = qn, k_norm_w = kn\<rparr>))))))"

text \<open>Each query head comes with its gate.\<close>

definition full_queries ::
    "'f mathlib \<Rightarrow> 'f \<Rightarrow> nat \<Rightarrow> nat \<Rightarrow> 'f full_layer \<Rightarrow> 'f::field list \<Rightarrow> py_error + 'f list list \<times> 'f list" where
  "full_queries M eps nh hdim L h =
     rbind (proj_heads (full_q L) None nh (hdim * 2) h) (\<lambda>qg.
     rbind (rmap (\<lambda>x. rms_norm M eps (q_norm_w L) (take hdim x)) qg) (\<lambda>q.
       Inr (q, concat (map (drop hdim) qg))))"

definition full_keys ::
    "'f mathlib \<Rightarrow> 'f \<Rightarrow> nat \<Rightarrow> nat \<Rightarrow> 'f full_layer \<Rightarrow> 'f::field list \<Rightarrow> py_error + 'f list list" where
  "full_keys M eps kvh hdim L h = rbind (proj_heads (full_k L) None kvh hdim h) (rmap (rms_norm M eps (k_norm_w L)))"

text \<open>\<open>attn * sigmoid(gate)\<close> and the output projection of a position\<close>

definition gated_output :: "'f mathlib \<Rightarrow> 'f full_layer \<Rightarrow> 'f list \<Rightarrow> 'f::field list \<Rightarrow> py_error + 'f list" where
  "gated_output M L gate attn = rbind (row_op (*) attn (map (sigmoid M) gate)) (linear (full_o L) None)"

definition full_attention_forward ::
    "'f mathlib \<Rightarrow> 'f \<Rightarrow> nat \<Rightarrow> nat \<Rightarrow> nat \<Rightarrow> 'f full_layer \<Rightarrow> ('f::linordered_field list \<times> 'f list) list \<Rightarrow> 'f list list
     \<Rightarrow> py_error + 'f list list" where
  "full_attention_forward M eps nh kvh hdim L cs hidden =
     rbind (rmap (full_queries M eps nh hdim L) hidden) (\<lambda>qg.
     rbind (rmap (full_keys M eps kvh hdim L) hidden) (\<lambda>k.
     rbind (rmap (proj_heads (full_v L) None kvh hdim) hidden) (\<lambda>v.
     rbind (rope_rows cs (map fst qg)) (\<lambda>q.
     rbind (rope_rows cs k) (\<lambda>k.
     rbind (attend_all M nh kvh hdim q k v) (\<lambda>attn.
       rmap (\<lambda>(gate, a). gated_output M L gate a) (zip (map snd qg) attn)))))))"

definition full_keys_values ::
    "'f mathlib \<Rightarrow> 'f \<Rightarrow> nat \<Rightarrow> nat \<Rightarrow> 'f full_layer \<Rightarrow> ('f::linordered_field list \<times> 'f list) list \<Rightarrow> 'f list list
     \<Rightarrow> py_error + 'f layer_cache" where
  "full_keys_values M eps kvh hdim L cs hidden =
     rbind (rmap (full_keys M eps kvh hdim L) hidden) (\<lambda>k.
     rbind (rmap (proj_heads (full_v L) None kvh hdim) hidden) (\<lambda>v.
     rbind (rope_rows cs k) (\<lambda>k. Inr (KV (by_head kvh k) (by_head kvh v)))))"

definition full_decode ::
    "'f mathlib \<Rightarrow> 'f \<Rightarrow> nat \<Rightarrow> nat \<Rightarrow> nat \<Rightarrow> 'f full_layer \<Rightarrow> 'f::linordered_field list \<times> 'f list
     \<Rightarrow> 'f layer_cache option \<Rightarrow> 'f list \<Rightarrow> py_error + 'f layer_cache \<times> 'f list" where
  "full_decode M eps nh kvh hdim L c entry h =
     rbind (n_rep nh kvh) (\<lambda>_.
     rbind (full_queries M eps nh hdim L h) (\<lambda>(q, gate).
     rbind (full_keys M eps kvh hdim L h) (\<lambda>k.
     rbind (proj_heads (full_v L) None kvh hdim h) (\<lambda>v.
     rbind (rmap (apply_rotary c) q) (\<lambda>q.
     rbind (rmap (apply_rotary c) k) (\<lambda>k.
       case entry of
         Some (KV ck cv) \<Rightarrow>
           let ck' = append_heads ck k; cv' = append_heads cv v
           in rbind (attend_last M nh kvh hdim q ck' cv') (\<lambda>a.
              rbind (gated_output M L gate a) (\<lambda>o'. Inr (KV ck' cv', o')))
       | _ \<Rightarrow> Inl KeyError))))))"

section \<open>The model\<close>

record 'f hybrid_cfg = "'f model_cfg" +
  linear_attention :: "linear_cfg option"
  layer_types :: "pystr list"

text \<open>The attributes of a recipe without linear attention cannot be read.\<close>

definition with_linear :: "'f hybrid_cfg \<Rightarrow> (linear_cfg \<Rightarrow> py_error + 'a) \<Rightarrow> py_error + 'a" where
  "with_linear C f = (case linear_attention C of None \<Rightarrow> Inl AttributeError | Some la \<Rightarrow> f la)"

definition layer_norm_weights :: "(pystr, 'f weight) dict \<Rightarrow> nat \<Rightarrow> py_error + 'f list \<times> 'f list" where
  "layer_norm_weights W i =
     rbind (wvec W (layer_name text_model i ''input_layernorm.weight'')) (\<lambda>w1.
     rbind (wvec W (layer_name text_model i ''post_attention_layernorm.weight'')) (\<lambda>w2. Inr (w1, w2)))"

definition hybrid_mixer ::
    "'f mathlib \<Rightarrow> 'f hybrid_cfg \<Rightarrow> (pystr, 'f weight) dict \<Rightarrow> ('f::linordered_field list \<times> 'f list) list
     \<Rightarrow> nat \<times> pystr \<Rightarrow> 'f list list \<Rightarrow> py_error + 'f list list" where
  "hybrid_mixer M C W cs x h =
     (case x of (i, bt) \<Rightarrow>
        if bt = lit ''linear_attention'' then
          rbind (linear_attn_weights W i) (\<lambda>L. with_linear C (\<lambda>la.
            rbind (gated_delta_net_forward M (cfg_eps C) la L True 64 h) (\<lambda>(out, state). Inr out)))
        else if bt = lit ''full_attention'' then
          rbind (full_attn_weights W i) (\<lambda>L.
            full_attention_forward M (cfg_eps C) (cfg_heads C) (cfg_kv_heads C) (cfg_head_dim C) L cs h)
        else Inl ValueError)"

definition hybrid_layer_forward ::
    "'f mathlib \<Rightarrow> 'f hybrid_cfg \<Rightarrow> (pystr, 'f weight) dict \<Rightarrow> ('f::linordered_field list \<times> 'f list) list
     \<Rightarrow> nat \<times> pystr \<Rightarrow> 'f list list \<Rightarrow> py_error + 'f list list" where
  "hybrid_layer_forward M C W cs x hidden =
     rbind (layer_norm_weights W (fst x)) (\<lambda>(w1, w2).
     rbind (rmap (rms_norm M (cfg_eps C) w1) hidden) (\<lambda>h.
     rbind (hybrid_mixer M C W cs x h) (\<lambda>a.
     rbind (residual hidden a) (mlp_block (rms_norm M (cfg_eps C) w2) M W text_model (fst x)))))"

definition hybrid_logits ::
    "'f mathlib \<Rightarrow> 'f \<Rightarrow> (pystr, 'f weight) dict \<Rightarrow> 'f::field list list \<Rightarrow> py_error + 'f list list" where
  "hybrid_logits M eps W hidden =
     rbind (wvec W (text_model @ lit ''.norm.weight'')) (\<lambda>w.
     rbind (rmap (rms_norm M eps w) hidden) (\<lambda>hidden.
     rbind (wmat W (lit ''lm_head.weight'')) (\<lambda>u. rmap (project u) hidden)))"

text \<open>\<open>enumerate(recipe.layer_types)\<close>\<close>

definition numbered_layers :: "'f hybrid_cfg \<Rightarrow> (nat \<times> pystr) list" where
  "numbered_layers C = zip [0..<length (layer_types C)] (layer_types C)"

definition model_forward ::
    "'f mathlib \<Rightarrow> 'f hybrid_cfg \<Rightarrow> (pystr, 'f weight) dict \<Rightarrow> int list \<Rightarrow> py_error + 'f::linordered_field list list" where
  "model_forward M C W ids =
     rbind (embed_weights text_model W) (\<lambda>e.
     rbind (rmap (embed e) ids) (\<lambda>hidden.
     rbind (forward_layers (hybrid_layer_forward M C W (positions_cos_sin M C (length ids))) (numbered_layers C) hidden)
       (hybrid_logits M (cfg_eps C) W)))"

section \<open>Prefill and decoding\<close>

text \<open>Here every layer that is not linear is one of full attention.\<close>

definition hybrid_mixer_prefill ::
    "'f mathlib \<Rightarrow> 'f hybrid_cfg \<Rightarrow> (pystr, 'f weight) dict \<Rightarrow> ('f::linordered_field list \<times> 'f list) list
     \<Rightarrow> nat \<times> pystr \<Rightarrow> 'f list list \<Rightarrow> py_error + 'f layer_cache \<times> 'f list list" where
  "hybrid_mixer_prefill M C W cs x h =
     (case x of (i, bt) \<Rightarrow>
        if bt = lit ''linear_attention'' then
          rbind (linear_attn_weights W i) (\<lambda>L. with_linear C (\<lambda>la. linear_prefill M (cfg_eps C) la L h))
        else
          rbind (full_attn_weights W i) (\<lambda>L.
          rbind (full_attention_forward M (cfg_eps C) (cfg_heads C) (cfg_kv_heads C) (cfg_head_dim C) L cs h) (\<lambda>a.
          rbind (full_keys_values M (cfg_eps C) (cfg_kv_heads C) (cfg_head_dim C) L cs h) (\<lambda>entry. Inr (entry, a)))))"

definition hybrid_layer_prefill ::
    "'f mathlib \<Rightarrow> 'f hybrid_cfg \<Rightarrow> (pystr, 'f weight) dict \<Rightarrow> ('f::linordered_field list \<times> 'f list) list
     \<Rightarrow> nat \<times> pystr \<Rightarrow> 'f list list \<Rightarrow> py_error + 'f layer_cache \<times> 'f list list" where
  "hybrid_layer_prefill M C W cs x hidden =
     rbind (layer_norm_weights W (fst x)) (\<lambda>(w1, w2).
     rbind (rmap (rms_norm M (cfg_eps C) w1) hidden) (\<lambda>h.
     rbind (hybrid_mixer_prefill M C W cs x h) (\<lambda>(entry, a).
     rbind (residual hidden a) (\<lambda>hidden.
     rbind (mlp_block (rms_norm M (cfg_eps C) w2) M W text_model (fst x) hidden) (\<lambda>out. Inr (entry, out))))))"

definition prefill_hybrid ::
    "'f mathlib \<Rightarrow> 'f hybrid_cfg \<Rightarrow> (pystr, 'f weight) dict \<Rightarrow> int list
     \<Rightarrow> py_error + 'f inc_cache \<times> 'f::linordered_field list list" where
  "prefill_hybrid M C W ids =
     rbind (embed_weights text_model W) (\<lambda>e.
     rbind (rmap (embed e) ids) (\<lambda>hidden.
     rbind (prefill_layers (hybrid_layer_prefill M C W (positions_cos_sin M C (length ids))) (numbered_layers C) hidden)
       (\<lambda>(caches, hidden).
     rbind (hybrid_logits M (cfg_eps C) W hidden) (\<lambda>logits.
       Inr (new_cache (lit ''paged_flash'') C (length ids) None caches, logits)))))"

definition hybrid_mixer_decode ::
    "'f mathlib \<Rightarrow> 'f \<Rightarrow> 'f hybrid_cfg \<Rightarrow> (pystr, 'f weight) dict \<Rightarrow> 'f::linordered_field list \<times> 'f list
     \<Rightarrow> nat \<times> pystr \<Rightarrow> 'f layer_cache option \<Rightarrow> 'f list \<Rightarrow> py_error + 'f layer_cache \<times> 'f list" where
  "hybrid_mixer_decode M eps C W c x entry h =
     (case x of (i, bt) \<Rightarrow>
        if bt = lit ''linear_attention'' then
          rbind (linear_attn_weights W i) (\<lambda>L. with_linear C (\<lambda>la. linear_decode M eps la L entry h))
        else rbind (full_attn_weights W i) (\<lambda>L.
          full_decode M eps (cfg_heads C) (cfg_kv_heads C) (cfg_head_dim C) L c entry h))"

definition hybrid_layer_decode ::
    "'f mathlib \<Rightarrow> 'f \<Rightarrow> 'f hybrid_cfg \<Rightarrow> (pystr, 'f weight) dict \<Rightarrow> 'f::linordered_field list \<times> 'f list
     \<Rightarrow> nat \<times> pystr \<Rightarrow> 'f layer_cache option \<Rightarrow> 'f list \<Rightarrow> py_error + 'f layer_cache \<times> 'f list" where
  "hybrid_layer_decode M eps C W c x entry hidden =
     rbind (layer_norm_weights W (fst x)) (\<lambda>(w1, w2).
     rbind (rms_norm M eps w1 hidden) (\<lambda>h.
     rbind (hybrid_mixer_decode M eps C W c x entry h) (\<lambda>(entry', a).
     rbind (row_op (+) hidden a) (\<lambda>hidden.
     rbind (mlp_block (rms_norm M eps w2) M W text_model (fst x) [hidden]) (\<lambda>out. Inr (entry', hd out))))))"

definition decode_hybrid ::
    "'f mathlib \<Rightarrow> 'f hybrid_cfg \<Rightarrow> (pystr, 'f weight) dict \<Rightarrow> 'f inc_cache \<Rightarrow> int
     \<Rightarrow> py_error + 'f list \<times> 'f::linordered_field inc_cache" where
  "decode_hybrid M C W c last_id =
     rbind (embed_weights text_model W) (\<lambda>e.
     rbind (embed e last_id) (\<lambda>hidden.
     rbind (decode_layers (hybrid_layer_decode M (cache_eps c) C W (compute_cos_sin M (cache_theta c) (cfg_rotary C) (n_ctx c)))
              (numbered_layers C) (cache_layers c) hidden) (\<lambda>(caches, hidden).
     rbind (hybrid_logits M (cache_eps c) W [hidden]) (\<lambda>logits.
       Inr (hd logits, c\<lparr>n_ctx := n_ctx c + 1, cache_layers := caches\<rparr>)))))"


section \<open>A linear layer over one more token\<close>

lemma heads_of_width_iff:
  "heads_of_width d x = Inr z \<and> length z = n \<longleftrightarrow> d \<noteq> 0 \<and> heads n d x = Inr z"
  by (auto simp: heads_of_width_def heads_def split: if_splits)

lemma net_position_iff:
  "net_position M la L h row = Inr (ts, z) \<longleftrightarrow> value_head_dim la \<noteq> 0 \<and>
    (\<exists>q k v q' k' zr beta g. net_qkv la row = Inr (q, k, v) \<and> net_repeat la q k = Inr (q', k')
      \<and> linear (w_z L) None h = Inr zr \<and> heads (num_value_heads la) (value_head_dim la) zr = Inr z
      \<and> net_gates M L h = Inr (beta, g) \<and> net_tokens (num_value_heads la) q' k' v beta g = Inr ts)"
  (is "?l \<longleftrightarrow> ?r")
proof
  assume ?l
  then obtain q k v zr beta g q' k' where "net_qkv la row = Inr (q, k, v)" "net_repeat la q k = Inr (q', k')"
    "linear (w_z L) None h = Inr zr" "net_gates M L h = Inr (beta, g)"
    "net_tokens (num_value_heads la) q' k' v beta g = Inr ts"
    "heads_of_width (value_head_dim la) zr = Inr z \<and> length z = num_value_heads la"
    by (auto simp: net_position_def rbind_Inr_iff split: if_splits)
  then show ?r unfolding heads_of_width_iff by blast
next
  assume ?r
  then obtain q k v zr beta g q' k' where r: "net_qkv la row = Inr (q, k, v)" "net_repeat la q k = Inr (q', k')"
    "linear (w_z L) None h = Inr zr" "net_gates M L h = Inr (beta, g)"
    "net_tokens (num_value_heads la) q' k' v beta g = Inr ts"
    and "value_head_dim la \<noteq> 0 \<and> heads (num_value_heads la) (value_head_dim la) zr = Inr z" by blast
  then have "heads_of_width (value_head_dim la) zr = Inr z \<and> length z = num_value_heads la"
    unfolding heads_of_width_iff by blast
  with r show ?l by (auto simp: net_position_def)
qed

abbreviation net_rule ::
    "'f mathlib \<Rightarrow> linear_cfg \<Rightarrow> 'f list list list option \<Rightarrow> 'f token list list \<Rightarrow> 'f::field list list list \<times> 'f list list list" where
  "net_rule M la \<equiv>
     gated_delta_rule_recurrent M (qk_l2norm la) (num_value_heads la) (key_head_dim la) (value_head_dim la)"

lemma linear_prefill_iff:
  assumes "exponential M" "inverse_root M" "conv_kernel_size la > 1" "hs \<noteq> []"
  shows "linear_prefill M eps la L hs = Inr (e, os) \<longleftrightarrow>
    (\<exists>mixed cv ps. rmap (linear (w_in_qkv L) None) hs = Inr mixed
      \<and> causal_conv1d_depthwise M (w_conv L) mixed = Inr cv
      \<and> rmap (\<lambda>(h, r). net_position M la L h r) (zip hs cv) = Inr ps
      \<and> rmap (\<lambda>(c, z). net_output M eps L c z) (zip (fst (net_rule M la None (map fst ps))) (map snd ps)) = Inr os
      \<and> e = Recurrent (snd (net_rule M la None (map fst ps))) (last_rows (conv_kernel_size la - 1) mixed))"
proof -
  have rule: "gated_delta_rule_chunked M (qk_l2norm la) (num_value_heads la) (key_head_dim la) (value_head_dim la) 64 None xs
      = net_rule M la None xs" for xs
    by (rule rules_agree [OF assms(1,2)]) (simp_all add: states_fit_def)
  show ?thesis
    using assms(3,4)
    by (auto simp: linear_prefill_def gated_delta_net_forward_def rbind_Inr_iff rule Let_def case_prod_unfold)
qed

lemma linear_decode_iff:
  assumes "value_head_dim la \<noteq> 0"
  shows "linear_decode M eps la L (Some (Recurrent st win)) h = Inr (e, o') \<longleftrightarrow>
    (\<exists>m ds ts z. linear (w_in_qkv L) None h = Inr m \<and> (\<forall>r \<in> set win. length r = length m)
      \<and> causal_conv1d_depthwise M (w_conv L) (last_rows (conv_kernel_size la) (win @ [m])) = Inr ds
      \<and> net_position M la L h (List.last ds) = Inr (ts, z)
      \<and> net_output M eps L (hd (fst (net_rule M la (Some st) [ts]))) z = Inr o'
      \<and> e = Recurrent (snd (net_rule M la (Some st) [ts])) (last_rows (conv_kernel_size la - 1) (win @ [m])))"
  (is "?l \<longleftrightarrow> ?r")
proof
  assume ?l
  then obtain m ds q k v q' k' zr z beta g ts where m: "linear (w_in_qkv L) None h = Inr m"
    "list_all (\<lambda>r. length r = length m) win"
    "causal_conv1d_depthwise M (w_conv L) (last_rows (conv_kernel_size la) (win @ [m])) = Inr ds"
    and p: "net_qkv la (List.last ds) = Inr (q, k, v)" "net_repeat la q k = Inr (q', k')"
    "linear (w_z L) None h = Inr zr" "heads (num_value_heads la) (value_head_dim la) zr = Inr z"
    "net_gates M L h = Inr (beta, g)" "net_tokens (num_value_heads la) q' k' v beta g = Inr ts"
    and c: "net_output M eps L (hd (fst (net_rule M la (Some st) [ts]))) z = Inr o'"
    "e = Recurrent (snd (net_rule M la (Some st) [ts])) (last_rows (conv_kernel_size la - 1) (win @ [m]))"
    by (auto simp: linear_decode_def rbind_Inr_iff Let_def case_prod_unfold prod_eq_iff split: if_splits)
  have "net_position M la L h (List.last ds) = Inr (ts, z)" unfolding net_position_iff using assms p by blast
  with m c show ?r by (auto simp: list_all_iff)
next
  assume ?r
  then obtain m ds ts z where m: "linear (w_in_qkv L) None h = Inr m" "\<forall>r \<in> set win. length r = length m"
      "causal_conv1d_depthwise M (w_conv L) (last_rows (conv_kernel_size la) (win @ [m])) = Inr ds"
      and p: "net_position M la L h (List.last ds) = Inr (ts, z)"
      and c: "net_output M eps L (hd (fst (net_rule M la (Some st) [ts]))) z = Inr o'"
      "e = Recurrent (snd (net_rule M la (Some st) [ts])) (last_rows (conv_kernel_size la - 1) (win @ [m]))" by blast
  obtain q k v q' k' zr beta g where "net_qkv la (List.last ds) = Inr (q, k, v)" "net_repeat la q k = Inr (q', k')"
    "linear (w_z L) None h = Inr zr" "heads (num_value_heads la) (value_head_dim la) zr = Inr z"
    "net_gates M L h = Inr (beta, g)" "net_tokens (num_value_heads la) q' k' v beta g = Inr ts"
    using p unfolding net_position_iff by blast
  with m c show ?l by (simp add: linear_decode_def Let_def list_all_iff case_prod_unfold)
qed

lemma project_width: "linear w None x = Inr y \<Longrightarrow> length y = length w"
  by (auto simp: linear_def project_def split: if_splits)

lemma linear_layer_snoc:
  assumes laws: "exponential M" "inverse_root M" and kc: "conv_kernel_size la > 1" and hs: "hs \<noteq> []"
    and taps: "\<forall>r \<in> set (w_conv L). length r = conv_kernel_size la"
  shows "linear_prefill M eps la L (hs @ [h]) = Inr (e', os') \<longleftrightarrow>
    (\<exists>e os o'. os' = os @ [o'] \<and> linear_prefill M eps la L hs = Inr (e, os)
      \<and> linear_decode M eps la L (Some e) h = Inr (e', o'))"
  (is "?l \<longleftrightarrow> ?r")
proof -
  let ?kc = "conv_kernel_size la" and ?conv = "causal_conv1d_depthwise M (w_conv L)"
  let ?pos = "\<lambda>(h, r). net_position M la L h r" and ?out = "\<lambda>(c, z). net_output M eps L c z"
  have widths: "\<forall>r \<in> set mixed. length r = length m"
    if "rmap (linear (w_in_qkv L) None) hs = Inr mixed" "linear (w_in_qkv L) None h = Inr m" for mixed m
    using that by (auto dest!: rmap_member project_width)
  have ne: "mixed \<noteq> []" if "rmap (linear (w_in_qkv L) None) hs = Inr mixed" for mixed
    using rmap_length [OF that] hs by auto
  note win = window_of_window(2) [OF kc]
  show ?thesis
  proof
    assume ?l
    then obtain mixed m cv' ps' where m: "rmap (linear (w_in_qkv L) None) hs = Inr mixed"
      "linear (w_in_qkv L) None h = Inr m" and c: "?conv (mixed @ [m]) = Inr cv'"
      and p: "rmap ?pos (zip (hs @ [h]) cv') = Inr ps'" 
      and os: "rmap ?out (zip (fst (net_rule M la None (map fst ps'))) (map snd ps')) = Inr os'"
      and e': "e' = Recurrent (snd (net_rule M la None (map fst ps'))) (last_rows (?kc - 1) (mixed @ [m]))"
      unfolding linear_prefill_iff [OF laws kc, of "hs @ [h]", simplified] by (auto simp: rmap_snoc)
    obtain cv ds where d: "?conv mixed = Inr cv" "?conv (last_rows ?kc (last_rows (?kc - 1) mixed @ [m])) = Inr ds"
      "cv' = cv @ [List.last ds]"
      using c conv_snoc [OF ne [OF m(1)] widths [OF m] kc taps] by blast
    have lc: "length hs = length cv" using conv_length [OF d(1)] rmap_length [OF m(1)] by simp
    obtain ps ts z where ps: "ps' = ps @ [(ts, z)]" "rmap ?pos (zip hs cv) = Inr ps"
      "net_position M la L h (List.last ds) = Inr (ts, z)"
      using p lc unfolding d(3) by (auto simp: rmap_snoc)
    obtain core st where r1: "net_rule M la None (map fst ps) = (core, st)" by force
    obtain core1 st1 where r2: "net_rule M la (Some st) [ts] = (core1, st1)" by force
    obtain o1 where o1: "core1 = [o1]" "net_rule M la None (map fst ps') = (core @ [o1], st1)"
      using rule_snoc [OF r1 r2] ps(1) by auto
    have lo: "length core = length ps" using rule_length [OF r1] by simp
    obtain os o' where os': "os' = os @ [o']" "rmap ?out (zip core (map snd ps)) = Inr os" "net_output M eps L o1 z = Inr o'"
      using os [unfolded o1(2)] lo by (auto simp: ps(1) rmap_snoc)
    have "net_position M la L h (List.last ds) = Inr (ts, z) \<Longrightarrow> value_head_dim la \<noteq> 0" by (simp add: net_position_iff)
    with ps(3) have vd: "value_head_dim la \<noteq> 0" by blast
    have "linear_prefill M eps la L hs = Inr (Recurrent st (last_rows (?kc - 1) mixed), os)"
      unfolding linear_prefill_iff [OF laws kc hs]
      using m(1) d(1) ps(2) os'(2) by (intro exI [of _ mixed] exI [of _ cv] exI [of _ ps]) (simp add: r1)
    moreover have "linear_decode M eps la L (Some (Recurrent st (last_rows (?kc - 1) mixed))) h = Inr (e', o')"
    proof -
      have "\<forall>r \<in> set (last_rows (?kc - 1) mixed). length r = length m"
        using widths [OF m] by (auto simp: last_rows_def dest: in_set_dropD split: if_splits)
      then show ?thesis unfolding linear_decode_iff [OF vd] win e' o1(2)
        using m(2) d(2) ps(3) os'(3)
        by (intro exI [of _ m] exI [of _ ds] exI [of _ ts] exI [of _ z]) (simp add: r2 o1(1))
    qed
    ultimately show ?r using os'(1) by blast
  next
    assume ?r
    then obtain e os o' where os': "os' = os @ [o']" and p: "linear_prefill M eps la L hs = Inr (e, os)"
      and d: "linear_decode M eps la L (Some e) h = Inr (e', o')" by blast
    obtain mixed cv ps where m0: "rmap (linear (w_in_qkv L) None) hs = Inr mixed" "?conv mixed = Inr cv"
      "rmap ?pos (zip hs cv) = Inr ps"
      "rmap ?out (zip (fst (net_rule M la None (map fst ps))) (map snd ps)) = Inr os"
      "e = Recurrent (snd (net_rule M la None (map fst ps))) (last_rows (?kc - 1) mixed)"
      using p unfolding linear_prefill_iff [OF laws kc hs] by blast
    obtain core st where r: "net_rule M la None (map fst ps) = (core, st)" by force
    note m = m0(1-3) r m0(4,5) [unfolded r fst_conv snd_conv]
    have vd: "value_head_dim la \<noteq> 0"
    proof -
      have "length cv = length hs" using conv_length [OF m(2)] rmap_length [OF m(1)] by simp
      then obtain h1 r1 rest where "zip hs cv = (h1, r1) # rest" using hs by (cases hs; cases cv) auto
      then obtain t where "net_position M la L h1 r1 = Inr t" using m(3) by (auto simp: rbind_Inr_iff)
      then show ?thesis by (cases t) (auto simp: net_position_iff)
    qed
    obtain m1 ds ts z where s0: "linear (w_in_qkv L) None h = Inr m1"
      "?conv (last_rows ?kc (last_rows (?kc - 1) mixed @ [m1])) = Inr ds"
      "net_position M la L h (List.last ds) = Inr (ts, z)"
      "net_output M eps L (hd (fst (net_rule M la (Some st) [ts]))) z = Inr o'"
      "e' = Recurrent (snd (net_rule M la (Some st) [ts])) (last_rows (?kc - 1) (mixed @ [m1]))"
      using d unfolding m(6) linear_decode_iff [OF vd] win by blast
    obtain core1 st1 where r1: "net_rule M la (Some st) [ts] = (core1, st1)" by force
    note s = s0(1-3) r1 s0(4,5) [unfolded r1 fst_conv snd_conv]
    have "last_rows ?kc (last_rows (?kc - 1) mixed @ [m1]) \<noteq> []" using kc by (simp add: last_rows_def)
    then have "ds \<noteq> []" using conv_length [OF s(2)] by auto
    then have c: "?conv (mixed @ [m1]) = Inr (cv @ [List.last ds])"
      using conv_snoc [OF ne [OF m(1)] widths [OF m(1) s(1)] kc taps] m(2) s(2) by blast
    have lc: "length hs = length cv" using conv_length [OF m(2)] rmap_length [OF m(1)] by simp
    obtain o1 where o1: "core1 = [o1]" "net_rule M la None (map fst ps @ [ts]) = (core @ [o1], st1)"
      using rule_snoc [OF m(4) s(4)] by blast
    have lo: "length core = length ps" using rule_length [OF m(4)] by simp
    have "rmap ?pos (zip (hs @ [h]) (cv @ [List.last ds])) = Inr (ps @ [(ts, z)])"
      using lc m(3) s(3) by (simp add: rmap_append)
    moreover have "rmap ?out (zip (core @ [o1]) (map snd (ps @ [(ts, z)]))) = Inr os'"
      using lo m(5) s(5) o1(1) os' by (simp add: rmap_append)
    moreover have "rmap (linear (w_in_qkv L) None) (hs @ [h]) = Inr (mixed @ [m1])" using m(1) s(1) by (simp add: rmap_append)
    moreover have "net_rule M la None (map fst (ps @ [(ts, z)])) = (core @ [o1], st1)" using o1(2) by simp
    ultimately show ?l unfolding linear_prefill_iff [OF laws kc, of "hs @ [h]", simplified] using c s(6)
      by (intro exI [of _ "mixed @ [m1]"] exI [of _ "cv @ [List.last ds]"] exI [of _ "ps @ [(ts, z)]"]) simp
  qed
qed


section \<open>Full attention over one more token\<close>

lemma full_keys_length: "full_keys M eps kvh hdim L h = Inr k \<Longrightarrow> length k = kvh"
  by (auto simp: full_keys_def rbind_Inr_iff dest!: proj_heads_length rmap_length)

text \<open>Attention with its cache, and a decoding step, in terms of the projected rows.\<close>

lemma full_prefill_iff:
  "full_attention_forward M eps nh kvh hdim L cs hs = Inr os \<and> full_keys_values M eps kvh hdim L cs hs = Inr e \<longleftrightarrow>
    (\<exists>qg K V Q2 K2 a. rmap (full_queries M eps nh hdim L) hs = Inr qg \<and> rmap (full_keys M eps kvh hdim L) hs = Inr K
      \<and> rmap (proj_heads (full_v L) None kvh hdim) hs = Inr V \<and> rope_rows cs (map fst qg) = Inr Q2
      \<and> rope_rows cs K = Inr K2 \<and> attend_all M nh kvh hdim Q2 K2 V = Inr a
      \<and> rmap (\<lambda>(gate, a). gated_output M L gate a) (zip (map snd qg) a) = Inr os
      \<and> e = KV (by_head kvh K2) (by_head kvh V))"
  by (auto simp: full_attention_forward_def full_keys_values_def rbind_Inr_iff)

lemma full_decode_iff:
  "full_decode M eps nh kvh hdim L c (Some (KV ck cv)) h = Inr (e', o') \<longleftrightarrow>
    (\<exists>n q gate k v q2 k2 a. n_rep nh kvh = Inr n \<and> full_queries M eps nh hdim L h = Inr (q, gate)
      \<and> full_keys M eps kvh hdim L h = Inr k \<and> proj_heads (full_v L) None kvh hdim h = Inr v
      \<and> rmap (apply_rotary c) q = Inr q2 \<and> rmap (apply_rotary c) k = Inr k2
      \<and> attend_last M nh kvh hdim q2 (append_heads ck k2) (append_heads cv v) = Inr a
      \<and> gated_output M L gate a = Inr o' \<and> e' = KV (append_heads ck k2) (append_heads cv v))"
  by (auto simp: full_decode_def rbind_Inr_iff Let_def)

lemma full_attention_snoc:
  assumes "length cs = length hs"
  shows "full_attention_forward M eps nh kvh hdim L (cs @ [c]) (hs @ [h]) = Inr os' \<and>
      full_keys_values M eps kvh hdim L (cs @ [c]) (hs @ [h]) = Inr e' \<longleftrightarrow>
    (\<exists>os o' e. os' = os @ [o'] \<and> full_attention_forward M eps nh kvh hdim L cs hs = Inr os
      \<and> full_keys_values M eps kvh hdim L cs hs = Inr e
      \<and> full_decode M eps nh kvh hdim L c (Some e) h = Inr (e', o'))"
  (is "?l \<longleftrightarrow> ?r")
proof -
  let ?Q = "rmap (full_queries M eps nh hdim L) hs" and ?K = "rmap (full_keys M eps kvh hdim L) hs"
  let ?V = "rmap (proj_heads (full_v L) None kvh hdim) hs" and ?out = "\<lambda>(gate, a). gated_output M L gate a"
  have snoc: "(\<exists>Q' K'. rope_rows (cs @ [c]) (map fst qg @ [q]) = Inr Q' \<and> rope_rows (cs @ [c]) (K @ [k]) = Inr K'
      \<and> attend_all M nh kvh hdim Q' K' (V @ [v]) = Inr a' \<and> e' = KV (by_head kvh K') (by_head kvh (V @ [v]))) \<longleftrightarrow>
    (\<exists>Q2 K2 q2 k2 a o' ck cv. a' = a @ [o'] \<and> rope_rows cs (map fst qg) = Inr Q2 \<and> rope_rows cs K = Inr K2
      \<and> rmap (apply_rotary c) q = Inr q2 \<and> rmap (apply_rotary c) k = Inr k2
      \<and> attend_all M nh kvh hdim Q2 K2 V = Inr a \<and> ck = by_head kvh K2 \<and> cv = by_head kvh V
      \<and> attend_last M nh kvh hdim q2 (append_heads ck k2) (append_heads cv v) = Inr o'
      \<and> e' = KV (append_heads ck k2) (append_heads cv v))"
    if q: "?Q = Inr qg" and k: "?K = Inr K" "full_keys M eps kvh hdim L h = Inr k"
      and v: "?V = Inr V" "proj_heads (full_v L) None kvh hdim h = Inr v" for qg K V q k v a'
  proof (rule rope_attend_snoc)
    show "\<forall>r \<in> set K. length r = kvh" using k(1) by (auto dest: rmap_member full_keys_length)
    show "\<forall>r \<in> set V. length r = kvh" by (rule all_heads_length [OF v(1)])
  qed (use assms q k v in \<open>auto dest: rmap_length full_keys_length proj_heads_length\<close>)
  show ?thesis
  proof
    assume ?l
    then obtain qg q gate K k V v Q' K' a' where p: "?Q = Inr qg" "full_queries M eps nh hdim L h = Inr (q, gate)"
      "?K = Inr K" "full_keys M eps kvh hdim L h = Inr k" "?V = Inr V" "proj_heads (full_v L) None kvh hdim h = Inr v"
      and r: "rope_rows (cs @ [c]) (map fst qg @ [q]) = Inr Q'" "rope_rows (cs @ [c]) (K @ [k]) = Inr K'"
      "attend_all M nh kvh hdim Q' K' (V @ [v]) = Inr a'" "e' = KV (by_head kvh K') (by_head kvh (V @ [v]))"
      and o1: "rmap ?out (zip (map snd qg @ [gate]) a') = Inr os'"
      unfolding full_prefill_iff by (auto simp: rmap_snoc)
    obtain Q2 K2 q2 k2 a b where s: "a' = a @ [b]" "rope_rows cs (map fst qg) = Inr Q2" "rope_rows cs K = Inr K2"
      "rmap (apply_rotary c) q = Inr q2" "rmap (apply_rotary c) k = Inr k2" "attend_all M nh kvh hdim Q2 K2 V = Inr a"
      "attend_last M nh kvh hdim q2 (append_heads (by_head kvh K2) k2) (append_heads (by_head kvh V) v) = Inr b"
      "e' = KV (append_heads (by_head kvh K2) k2) (append_heads (by_head kvh V) v)"
      using snoc [OF p(1,3,4,5,6), of q a'] r by blast
    have la: "length qg = length a"
      using attend_all_length [OF s(6)] rope_rows_length [OF s(2)] rmap_length [OF p(1)] assms by simp
    obtain os o' where "os' = os @ [o']" "rmap ?out (zip (map snd qg) a) = Inr os" "gated_output M L gate b = Inr o'"
      using o1 la unfolding s(1) by (auto simp: rmap_snoc)
    moreover obtain n where "n_rep nh kvh = Inr n" using attend_all_n_rep [OF s(6)] by blast
    moreover have "full_attention_forward M eps nh kvh hdim L cs hs = Inr os
        \<and> full_keys_values M eps kvh hdim L cs hs = Inr (KV (by_head kvh K2) (by_head kvh V))"
      unfolding full_prefill_iff using p s calculation(2) by blast
    moreover have "full_decode M eps nh kvh hdim L c (Some (KV (by_head kvh K2) (by_head kvh V))) h = Inr (e', o')"
      unfolding full_decode_iff using p s calculation by blast
    ultimately show ?r by blast
  next
    assume ?r
    then obtain os o' e where os': "os' = os @ [o']"
      and f: "full_attention_forward M eps nh kvh hdim L cs hs = Inr os \<and> full_keys_values M eps kvh hdim L cs hs = Inr e"
      and d: "full_decode M eps nh kvh hdim L c (Some e) h = Inr (e', o')" by blast
    obtain qg K V Q2 K2 a where p: "?Q = Inr qg" "?K = Inr K" "?V = Inr V" "rope_rows cs (map fst qg) = Inr Q2"
      "rope_rows cs K = Inr K2" "attend_all M nh kvh hdim Q2 K2 V = Inr a"
      "rmap ?out (zip (map snd qg) a) = Inr os" "e = KV (by_head kvh K2) (by_head kvh V)"
      using f unfolding full_prefill_iff by blast
    obtain q gate k v q2 k2 b where s: "full_queries M eps nh hdim L h = Inr (q, gate)"
      "full_keys M eps kvh hdim L h = Inr k" "proj_heads (full_v L) None kvh hdim h = Inr v"
      "rmap (apply_rotary c) q = Inr q2" "rmap (apply_rotary c) k = Inr k2"
      "attend_last M nh kvh hdim q2 (append_heads (by_head kvh K2) k2) (append_heads (by_head kvh V) v) = Inr b"
      "gated_output M L gate b = Inr o'" "e' = KV (append_heads (by_head kvh K2) k2) (append_heads (by_head kvh V) v)"
      using d unfolding p(8) full_decode_iff by blast
    obtain Q' K' where r: "rope_rows (cs @ [c]) (map fst qg @ [q]) = Inr Q'" "rope_rows (cs @ [c]) (K @ [k]) = Inr K'"
      "attend_all M nh kvh hdim Q' K' (V @ [v]) = Inr (a @ [b])" "e' = KV (by_head kvh K') (by_head kvh (V @ [v]))"
      using snoc [OF p(1,2) s(2) p(3) s(3), of q "a @ [b]"] p s by blast
    have "length qg = length a"
      using attend_all_length [OF p(6)] rope_rows_length [OF p(4)] rmap_length [OF p(1)] assms by simp
    then have "rmap ?out (zip (map snd (qg @ [(q, gate)])) (a @ [b])) = Inr os'"
      using p(7) s(7) os' by (simp add: rmap_append)
    then show ?l unfolding full_prefill_iff
      using p(1-3) s(1-3) r
      by (intro exI [of _ "qg @ [(q, gate)]"] exI [of _ "K @ [k]"] exI [of _ "V @ [v]"] exI [of _ Q'] exI [of _ K']
          exI [of _ "a @ [b]"]) (simp add: rmap_append)
  qed
qed


section \<open>The model over one more token\<close>

text \<open>
  The shapes the hybrid cache relies on: a kernel of at least two taps, and convolution weights of
  just that many.
\<close>

definition taps_fit :: "'f hybrid_cfg \<Rightarrow> (pystr, 'f weight) dict \<Rightarrow> bool" where
  "taps_fit C W \<longleftrightarrow>
     (\<forall>la. linear_attention C = Some la \<longrightarrow> conv_kernel_size la > 1
        \<and> (\<forall>i w. wmat W (layer_name text_model i ''linear_attn.conv1d.weight'') = Inr w
              \<longrightarrow> (\<forall>r \<in> set w. length r = conv_kernel_size la)))"

lemma taps_fitD:
  assumes "taps_fit C W" "linear_attention C = Some la" "linear_attn_weights W i = Inr L"
  shows "conv_kernel_size la > 1 \<and> (\<forall>r \<in> set (w_conv L). length r = conv_kernel_size la)"
proof -
  have "wmat W (layer_name text_model i ''linear_attn.conv1d.weight'') = Inr (w_conv L)"
    using assms(3) by (auto simp: linear_attn_weights_def rbind_Inr_iff)
  then show ?thesis using assms(1,2) unfolding taps_fit_def by blast
qed

lemma with_linear_iff: "with_linear C f = Inr x \<longleftrightarrow> (\<exists>la. linear_attention C = Some la \<and> f la = Inr x)"
  by (auto simp: with_linear_def split: option.splits)

lemma mixer_snoc:
  assumes laws: "exponential M" "inverse_root M" and taps: "taps_fit C W" and hs: "hs \<noteq> []" "length cs = length hs"
  shows "hybrid_mixer_prefill M C W (cs @ [c]) x (hs @ [h]) = Inr (e', os') \<longleftrightarrow>
    (\<exists>e os o'. os' = os @ [o'] \<and> hybrid_mixer_prefill M C W cs x hs = Inr (e, os)
      \<and> hybrid_mixer_decode M (cfg_eps C) C W c x (Some e) h = Inr (e', o'))"
proof -
  obtain i bt where x: "x = (i, bt)" by force
  show ?thesis
  proof (cases "bt = lit ''linear_attention''")
    case True
    have "linear_prefill M (cfg_eps C) la L (hs @ [h]) = Inr (e', os') \<longleftrightarrow>
        (\<exists>e os o'. os' = os @ [o'] \<and> linear_prefill M (cfg_eps C) la L hs = Inr (e, os)
          \<and> linear_decode M (cfg_eps C) la L (Some e) h = Inr (e', o'))"
      if "linear_attention C = Some la" "linear_attn_weights W i = Inr L" for la L
      using linear_layer_snoc [OF laws _ hs(1)] taps_fitD [OF taps that] by blast
    with True show ?thesis
      by (cases "linear_attn_weights W i"; cases "linear_attention C")
        (simp_all add: hybrid_mixer_prefill_def hybrid_mixer_decode_def x with_linear_def)
  next
    case False
    let ?f = "full_attention_forward M (cfg_eps C) (cfg_heads C) (cfg_kv_heads C) (cfg_head_dim C)"
    let ?kv = "full_keys_values M (cfg_eps C) (cfg_kv_heads C) (cfg_head_dim C)"
    have "rbind (?f L ks gs) (\<lambda>a. rbind (?kv L ks gs) (\<lambda>e. Inr (e, a))) = Inr (e, a) \<longleftrightarrow> ?f L ks gs = Inr a \<and> ?kv L ks gs = Inr e"
      for L ks gs e a by (auto simp: rbind_Inr_iff)
    then show ?thesis
      using False full_attention_snoc [OF hs(2), of M "cfg_eps C" "cfg_heads C" "cfg_kv_heads C" "cfg_head_dim C" _ c h os' e']
      by (cases "full_attn_weights W i") (simp_all add: hybrid_mixer_prefill_def hybrid_mixer_decode_def x, blast)
  qed
qed

lemma mixer_length:
  assumes "exponential M" "inverse_root M" "taps_fit C W" "hs \<noteq> []" "length cs = length hs"
    and m: "hybrid_mixer_prefill M C W cs x hs = Inr (e, os)"
  shows "length os = length hs"
proof -
  obtain i bt where x: "x = (i, bt)" by force
  show ?thesis
  proof (cases "bt = lit ''linear_attention''")
    case True
    then obtain L la where L: "linear_attn_weights W i = Inr L" "linear_attention C = Some la"
      "linear_prefill M (cfg_eps C) la L hs = Inr (e, os)"
      using m by (auto simp: hybrid_mixer_prefill_def x rbind_Inr_iff with_linear_iff)
    have kc: "conv_kernel_size la > 1" using taps_fitD [OF assms(3) L(2,1)] by blast
    obtain mixed cv ps where "rmap (linear (w_in_qkv L) None) hs = Inr mixed" "causal_conv1d_depthwise M (w_conv L) mixed = Inr cv"
      "rmap (\<lambda>(h, r). net_position M la L h r) (zip hs cv) = Inr ps"
      "rmap (\<lambda>(c, z). net_output M (cfg_eps C) L c z) (zip (fst (net_rule M la None (map fst ps))) (map snd ps)) = Inr os"
      using L(3) unfolding linear_prefill_iff [OF assms(1,2) kc assms(4)] by blast
    moreover have "length (fst (net_rule M la None (map fst ps))) = length ps"
      using rule_length [of M _ _ _ _ None "map fst ps", OF prod.collapse [symmetric]] by simp
    ultimately show ?thesis by (auto dest!: rmap_length conv_length)
  next
    case False
    then obtain L where "full_attention_forward M (cfg_eps C) (cfg_heads C) (cfg_kv_heads C) (cfg_head_dim C) L cs hs = Inr os"
      using m by (auto simp: hybrid_mixer_prefill_def x rbind_Inr_iff)
    then show ?thesis using assms(5)
      by (auto simp: full_attention_forward_def rbind_Inr_iff dest!: rmap_length attend_all_length rope_rows_length)
  qed
qed

lemma hybrid_layer_one_more:
  fixes cs :: "('f::linordered_field list \<times> 'f list) list"
  assumes laws: "exponential M" "inverse_root M" "taps_fit C W" and s: "length cs = s" "s > 0"
  shows "one_more s (hybrid_layer_prefill M C W cs x) (hybrid_layer_prefill M C W (cs @ [c]) x)
    (\<lambda>e. hybrid_layer_decode M (cfg_eps C) C W c x (Some e))"
proof (rule one_moreI)
  fix hs :: "'f list list" and h e' os' assume hs: "length hs = s"
  let ?mlp = "\<lambda>w. mlp_block (rms_norm M (cfg_eps C) w) M W text_model (fst x)"
  let ?norm = "\<lambda>w. rms_norm M (cfg_eps C) w"
  show "hybrid_layer_prefill M C W (cs @ [c]) x (hs @ [h]) = Inr (e', os') \<longleftrightarrow>
    (\<exists>e os o'. os' = os @ [o'] \<and> hybrid_layer_prefill M C W cs x hs = Inr (e, os)
      \<and> hybrid_layer_decode M (cfg_eps C) C W c x (Some e) h = Inr (e', o'))" (is "?l \<longleftrightarrow> ?r")
  proof
    assume ?l
    then obtain w1 w2 g y a' r' where w: "layer_norm_weights W (fst x) = Inr (w1, w2)"
      and g: "rmap (?norm w1) hs = Inr g" "?norm w1 h = Inr y"
      and a: "hybrid_mixer_prefill M C W (cs @ [c]) x (g @ [y]) = Inr (e', a')"
      and r: "residual (hs @ [h]) a' = Inr r'" and m: "?mlp w2 r' = Inr os'"
      by (auto simp: hybrid_layer_prefill_def rbind_Inr_iff rmap_snoc)
    have gn: "g \<noteq> []" "length cs = length g" using rmap_length [OF g(1)] hs s by auto
    obtain e os o' where o': "a' = os @ [o']" "hybrid_mixer_prefill M C W cs x g = Inr (e, os)"
      "hybrid_mixer_decode M (cfg_eps C) C W c x (Some e) y = Inr (e', o')"
      using mixer_snoc [OF laws gn] a by blast
    have lo: "length hs = length os" using mixer_length [OF laws gn o'(2)] gn hs s by simp
    obtain rs r1 where r1: "r' = rs @ [r1]" "residual hs os = Inr rs" "row_op (+) h o' = Inr r1"
      using r residual_snoc [OF lo] o'(1) by auto
    obtain ms m1 where m1: "os' = ms @ [m1]" "?mlp w2 rs = Inr ms" "?mlp w2 [r1] = Inr [m1]"
      using m r1(1) mlp_block_snoc by blast
    have "hybrid_layer_prefill M C W cs x hs = Inr (e, ms)"
      using w g o' r1 m1 by (simp add: hybrid_layer_prefill_def)
    moreover have "hybrid_layer_decode M (cfg_eps C) C W c x (Some e) h = Inr (e', m1)"
      using w g o' r1 m1 by (simp add: hybrid_layer_decode_def)
    ultimately show ?r using m1(1) by blast
  next
    assume ?r
    then obtain e os o' where os': "os' = os @ [o']" and p: "hybrid_layer_prefill M C W cs x hs = Inr (e, os)"
      and d: "hybrid_layer_decode M (cfg_eps C) C W c x (Some e) h = Inr (e', o')" by blast
    obtain w1 w2 g a r where w: "layer_norm_weights W (fst x) = Inr (w1, w2)" and g: "rmap (?norm w1) hs = Inr g"
      and a: "hybrid_mixer_prefill M C W cs x g = Inr (e, a)"
      and r: "residual hs a = Inr r" and m: "?mlp w2 r = Inr os"
      using p by (auto simp: hybrid_layer_prefill_def rbind_Inr_iff)
    obtain y o1 r1 out where t: "?norm w1 h = Inr y" "hybrid_mixer_decode M (cfg_eps C) C W c x (Some e) y = Inr (e', o1)"
      "row_op (+) h o1 = Inr r1" "?mlp w2 [r1] = Inr out" "o' = hd out"
      using d w by (auto simp: hybrid_layer_decode_def rbind_Inr_iff)
    have out: "?mlp w2 [r1] = Inr [o']" using mlp_block_one [OF t(4)] t(4,5) by auto
    have gn: "g \<noteq> []" "length cs = length g" using rmap_length [OF g] hs s by auto
    have a': "hybrid_mixer_prefill M C W (cs @ [c]) x (g @ [y]) = Inr (e', a @ [o1])"
      using mixer_snoc [OF laws gn] a t(2) by blast
    have lo: "length hs = length a" using mixer_length [OF laws gn a] gn hs s by simp
    then have "residual (hs @ [h]) (a @ [o1]) = Inr (r @ [r1])" using r t(3) by (simp add: residual_snoc)
    moreover have "?mlp w2 (r @ [r1]) = Inr os'" using m out os' mlp_block_snoc by blast
    ultimately show ?l using w g t(1) a' by (simp add: hybrid_layer_prefill_def rmap_append)
  qed
next
  fix hs :: "'f list list" and e os assume hs: "length hs = s" and p: "hybrid_layer_prefill M C W cs x hs = Inr (e, os)"
  obtain w1 w2 g a r where g: "rmap (rms_norm M (cfg_eps C) w1) hs = Inr g"
      and a: "hybrid_mixer_prefill M C W cs x g = Inr (e, a)"
      and r: "residual hs a = Inr r" and m: "mlp_block (rms_norm M (cfg_eps C) w2) M W text_model (fst x) r = Inr os"
    using p by (auto simp: hybrid_layer_prefill_def rbind_Inr_iff)
  have gn: "g \<noteq> []" "length cs = length g" using rmap_length [OF g] hs s by auto
  show "length os = s"
    using mlp_block_length [OF m] residual_length [OF r] mixer_length [OF laws gn a] gn hs s by simp
qed

text \<open>The forward pass of \<open>ref/pipeline.py\<close> is the prefill without its cache, for layers of known types.\<close>

definition known_types :: "'f hybrid_cfg \<Rightarrow> bool" where
  "known_types C \<longleftrightarrow> set (layer_types C) \<subseteq> {lit ''linear_attention'', lit ''full_attention''}"

lemma mixer_forward:
  assumes "snd x \<in> {lit ''linear_attention'', lit ''full_attention''}"
  shows "rbind (hybrid_mixer_prefill M C W cs x h) (\<lambda>(e, a). Inr a) = hybrid_mixer M C W cs x h"
proof -
  obtain i bt where x: "x = (i, bt)" by force
  have lin: "rbind (linear_prefill M eps la L h) (\<lambda>(e, a). Inr a)
      = rbind (gated_delta_net_forward M eps la L True 64 h) (\<lambda>(out, state). Inr out)" for eps la L
  proof (cases "gated_delta_net_forward M eps la L True 64 h")
    case (Inr p)
    then obtain mixed where "rmap (linear (w_in_qkv L) None) h = Inr mixed"
      by (auto simp: gated_delta_net_forward_def rbind_Inr_iff)
    then show ?thesis using Inr by (simp add: linear_prefill_def Let_def case_prod_unfold)
  qed (simp add: linear_prefill_def)
  have full: "rbind (full_attention_forward M eps nh kvh hdim L cs h) (\<lambda>a. rbind (full_keys_values M eps kvh hdim L cs h) (\<lambda>e. Inr a))
      = full_attention_forward M eps nh kvh hdim L cs h" for eps nh kvh hdim L
  proof (cases "full_attention_forward M eps nh kvh hdim L cs h")
    case (Inr a)
    then obtain e where "full_keys_values M eps kvh hdim L cs h = Inr e"
      by (auto simp: full_attention_forward_def full_keys_values_def rbind_Inr_iff)
    then show ?thesis using Inr by simp
  qed simp
  show ?thesis
  proof (cases "bt = lit ''linear_attention''")
    case True
    have "rbind (with_linear C (\<lambda>la. linear_prefill M (cfg_eps C) la L h)) (\<lambda>(e, a). Inr a)
        = with_linear C (\<lambda>la. rbind (gated_delta_net_forward M (cfg_eps C) la L True 64 h) (\<lambda>(out, state). Inr out))" for L
      by (simp add: with_linear_def lin split: option.split)
    then show ?thesis using True by (simp add: hybrid_mixer_prefill_def hybrid_mixer_def x rbind_assoc)
  next
    case False
    then have "bt = lit ''full_attention''" "lit ''full_attention'' \<noteq> lit ''linear_attention''" using assms x by auto
    then show ?thesis by (simp add: hybrid_mixer_prefill_def hybrid_mixer_def x rbind_assoc full)
  qed
qed

lemma hybrid_layer_forward_prefill:
  assumes "snd x \<in> {lit ''linear_attention'', lit ''full_attention''}"
  shows "rbind (hybrid_layer_prefill M C W cs x hs) (\<lambda>(c, out). Inr out) = hybrid_layer_forward M C W cs x hs"
proof -
  have "rbind (hybrid_mixer_prefill M C W cs x h) (\<lambda>y. rbind (case y of (entry, a) \<Rightarrow> rbind (residual hs a)
        (\<lambda>hidden. rbind (F hidden) (\<lambda>out. Inr (entry, out)))) (\<lambda>(c, out). Inr out))
      = rbind (hybrid_mixer M C W cs x h) (\<lambda>a. rbind (residual hs a) F)" for h and F :: "'a list list \<Rightarrow> py_error + 'a list list"
  proof -
    have "rbind (rbind (residual hs a) (\<lambda>hidden. rbind (F hidden) (\<lambda>out. Inr (entry, out)))) (\<lambda>(c, out). Inr out)
        = rbind (residual hs a) F" for a and entry :: "'a layer_cache"
    proof -
      have "rbind (rbind (F y) (\<lambda>out. Inr (entry, out))) (\<lambda>(c, out). Inr out) = F y" for y by (cases "F y") simp_all
      then show ?thesis unfolding rbind_assoc [of "residual hs a"] by simp
    qed
    note res = this
    have "(case y of (entry, a) \<Rightarrow> rbind (rbind (residual hs a) (\<lambda>hidden. rbind (F hidden) (\<lambda>out. Inr (entry, out)))) (\<lambda>(c, out). Inr out))
        = rbind (case y of (entry, a) \<Rightarrow> Inr a) (\<lambda>a. rbind (residual hs a) F)" for y :: "'a layer_cache \<times> 'a list list"
      by (cases y) (simp only: prod.case res rbind_simps)
    then show ?thesis unfolding mixer_forward [OF assms, symmetric] rbind_assoc [of "hybrid_mixer_prefill M C W cs x h"]
      by (intro rbind_cong refl) (simp only: case_prod_unfold)
  qed
  then show ?thesis unfolding hybrid_layer_prefill_def hybrid_layer_forward_def
    by (simp only: rbind_assoc [of _ _ "\<lambda>(c, out). Inr out"]) (intro rbind_cong refl, simp add: case_prod_unfold rbind_assoc)
qed


lemma prefill_hybrid_forward:
  assumes "known_types C"
  shows "rbind (prefill_hybrid M C W ids) (\<lambda>(c, logits). Inr logits) = model_forward M C W ids"
proof (cases "embed_weights text_model W")
  case (Inr e)
  show ?thesis
  proof (cases "rmap (embed e) ids")
    case h: (Inr hidden)
    let ?cs = "positions_cos_sin M C (length ids)"
    have "rbind (prefill_layers (hybrid_layer_prefill M C W ?cs) (numbered_layers C) hidden) (\<lambda>(c, out). Inr out)
        = forward_layers (hybrid_layer_forward M C W ?cs) (numbered_layers C) hidden"
    proof (intro layers_without_caches hybrid_layer_forward_prefill)
      fix x assume "x \<in> set (numbered_layers C)"
      then have "snd x \<in> set (layer_types C)"
        using set_zip_rightD [of "fst x" "snd x" "[0..<length (layer_types C)]" "layer_types C"] by (simp add: numbered_layers_def)
      then show "snd x \<in> {lit ''linear_attention'', lit ''full_attention''}" using assms by (auto simp: known_types_def)
    qed
    then show ?thesis using Inr h
      by (cases "prefill_layers (hybrid_layer_prefill M C W ?cs) (numbered_layers C) hidden")
        (auto simp: prefill_hybrid_def model_forward_def rbind_def split: sum.splits prod.splits)
  qed (use Inr in \<open>simp add: prefill_hybrid_def model_forward_def\<close>)
qed (simp add: prefill_hybrid_def model_forward_def)

lemma hybrid_logits_snoc:
  "hybrid_logits M eps W (hs @ [h]) = Inr ls' \<longleftrightarrow>
    (\<exists>ls l. ls' = ls @ [l] \<and> hybrid_logits M eps W hs = Inr ls \<and> hybrid_logits M eps W [h] = Inr [l])"
  by (auto simp: hybrid_logits_def rbind_Inr_iff rmap_snoc)

lemma hybrid_logits_one: "hybrid_logits M eps W [h] = Inr ls \<Longrightarrow> \<exists>l. ls = [l]"
  by (auto simp: hybrid_logits_def rbind_Inr_iff)

lemma prefill_hybrid_snoc:
  assumes laws: "exponential M" "inverse_root M" "taps_fit C W" and "ids \<noteq> []"
  shows "prefill_hybrid M C W (ids @ [t]) = Inr (c', ls') \<longleftrightarrow>
    (\<exists>c ls l. ls' = ls @ [l] \<and> prefill_hybrid M C W ids = Inr (c, ls) \<and> decode_hybrid M C W c t = Inr (l, c'))"
proof -
  let ?n = "length ids" and ?g = "lit ''paged_flash''" and ?xs = "numbered_layers C"
  let ?c = "\<lambda>caches. new_cache ?g C ?n None caches"
  let ?k = "compute_cos_sin M (cfg_theta C) (cfg_rotary C) ?n" and ?cs = "positions_cos_sin M C ?n"
  let ?D = "decode_layers (hybrid_layer_decode M (cfg_eps C) C W ?k) ?xs"
  have c: "cache_eps (?c x) = cfg_eps C" "cache_theta (?c x) = cfg_theta C" "cache_layers (?c x) = x" "n_ctx (?c x) = ?n"
    "(?c x)\<lparr>n_ctx := Suc ?n, cache_layers := y\<rparr> = new_cache ?g C (Suc ?n) None y" for x y
    by (simp_all add: new_cache_def)
  have dec: "decode_hybrid M C W (?c x) t = Inr (l, c'') \<longleftrightarrow>
      (\<exists>e h caches o'. embed_weights text_model W = Inr e \<and> embed e t = Inr h \<and> ?D x h = Inr (caches, o')
        \<and> hybrid_logits M (cfg_eps C) W [o'] = Inr [l] \<and> c'' = new_cache ?g C (Suc ?n) None caches)" for x l c''
  proof
    assume "decode_hybrid M C W (?c x) t = Inr (l, c'')"
    then obtain e h caches o' ls where e: "embed_weights text_model W = Inr e" "embed e t = Inr h" "?D x h = Inr (caches, o')"
      "hybrid_logits M (cfg_eps C) W [o'] = Inr ls" "l = hd ls" "c'' = new_cache ?g C (Suc ?n) None caches"
      by (auto simp: decode_hybrid_def c rbind_Inr_iff)
    then show "\<exists>e h caches o'. embed_weights text_model W = Inr e \<and> embed e t = Inr h \<and> ?D x h = Inr (caches, o')
        \<and> hybrid_logits M (cfg_eps C) W [o'] = Inr [l] \<and> c'' = new_cache ?g C (Suc ?n) None caches"
      using hybrid_logits_one [OF e(4)] by auto
  qed (auto simp: decode_hybrid_def c)
  have "one_more ?n (prefill_layers (hybrid_layer_prefill M C W ?cs) ?xs)
      (prefill_layers (hybrid_layer_prefill M C W (?cs @ [?k])) ?xs) ?D"
    using assms(4) by (intro layers_one_more hybrid_layer_one_more [OF laws]) simp_all
  note model = model_one_more [OF this, where E = "embed_weights text_model W" and G = "\<lambda>_. hybrid_logits M (cfg_eps C) W",
      OF hybrid_logits_snoc]
  have "prefill_hybrid M C W (ids @ [t]) = Inr (c', ls') \<longleftrightarrow>
      (\<exists>caches. c' = new_cache ?g C (Suc ?n) None caches \<and> (\<exists>e hs os. embed_weights text_model W = Inr e
        \<and> rmap (embed e) (ids @ [t]) = Inr hs \<and> prefill_layers (hybrid_layer_prefill M C W (?cs @ [?k])) ?xs hs = Inr (caches, os)
        \<and> hybrid_logits M (cfg_eps C) W os = Inr ls'))"
    by (auto simp: prefill_hybrid_def rbind_Inr_iff positions_snoc)
  also have "\<dots> \<longleftrightarrow> (\<exists>c ls l. ls' = ls @ [l] \<and> prefill_hybrid M C W ids = Inr (c, ls) \<and> decode_hybrid M C W c t = Inr (l, c'))"
    unfolding model by (auto simp: prefill_hybrid_def rbind_Inr_iff dec)
  finally show ?thesis .
qed

section \<open>The model behind the generation loops\<close>

text \<open>\<open>ReferenceModel\<close> for a recipe of the kernel \<open>paged_flash\<close>, where no GPU is in use.\<close>

definition hybrid_lm ::
    "'f::linordered_field mathlib \<Rightarrow> 'f hybrid_cfg \<Rightarrow> (pystr, 'f weight) dict \<Rightarrow> ('f inc_cache, 'f, unit) lm" where
  "hybrid_lm M C W =
     \<lparr>supports_incremental = set (layer_types C) \<subseteq> {lit ''full_attention'', lit ''linear_attention''},
      is_dsv4 = False, max_context = Some (max_positions C),
      prefill = (\<lambda>ids _. rbind (prefill_hybrid M C W ids) (\<lambda>(c, rows).
                   rbind (last_logits rows) (\<lambda>l. Inr (c, l)))),
      decode_step = (\<lambda>c t. rbind (decode_hybrid M C W c t) (\<lambda>(l, c). Inr (l, c))),
      full_logits = (\<lambda>ids. rbind (model_forward M C W ids) last_logits)\<rparr>"

definition hybrid_cache_of ::
    "'f::linordered_field mathlib \<Rightarrow> 'f hybrid_cfg \<Rightarrow> (pystr, 'f weight) dict \<Rightarrow> 'f inc_cache \<Rightarrow> int list \<Rightarrow> bool" where
  "hybrid_cache_of M C W c ids \<longleftrightarrow> ids \<noteq> [] \<and> (\<exists>rows. prefill_hybrid M C W ids = Inr (c, rows))"

lemma hybrid_forward_of_prefill:
  "known_types C \<Longrightarrow> prefill_hybrid M C W ids = Inr (c, rows) \<Longrightarrow> model_forward M C W ids = Inr rows"
  using prefill_hybrid_forward [of C M W ids] by simp

lemma hybrid_layers_empty: "prefill_layers (hybrid_layer_prefill M C W cs) xs [] = Inr (c, os) \<Longrightarrow> os = []"
proof (induction xs arbitrary: c)
  case (Cons x xs)
  have "out = []" if "hybrid_layer_prefill M C W cs x [] = Inr (e, out)" for e out
    using that by (auto simp: hybrid_layer_prefill_def rbind_Inr_iff residual_def dest!: mlp_block_length)
  with Cons show ?case by (auto simp: rbind_Inr_iff)
qed simp

lemma prefill_hybrid_empty: "prefill_hybrid M C W [] = Inr (c, rows) \<Longrightarrow> rows = []"
  by (auto simp: prefill_hybrid_def hybrid_logits_def rbind_Inr_iff dest!: hybrid_layers_empty)

lemma hybrid_lm_coherent:
  assumes laws: "exponential M" "inverse_root M" "taps_fit C W" and "known_types C"
  shows "coherent (hybrid_lm M C W) (hybrid_cache_of M C W)"
proof -
  have "hybrid_cache_of M C W c ids \<and> full_logits (hybrid_lm M C W) ids = Inr l"
    if p: "prefill (hybrid_lm M C W) ids None = Inr (c, l)" for ids c l
  proof -
    obtain rows where r: "prefill_hybrid M C W ids = Inr (c, rows)" "last_logits rows = Inr l"
      using p by (auto simp: hybrid_lm_def rbind_Inr_iff)
    have "ids \<noteq> []" using r prefill_hybrid_empty [of M C W c rows] by (cases ids) (auto simp: last_logits_def)
    with r show ?thesis by (auto simp: hybrid_cache_of_def hybrid_lm_def hybrid_forward_of_prefill [OF assms(4)])
  qed
  moreover have "hybrid_cache_of M C W c' (ids @ [t]) \<and> full_logits (hybrid_lm M C W) (ids @ [t]) = Inr l"
    if c: "hybrid_cache_of M C W c ids" and d: "decode_step (hybrid_lm M C W) c t = Inr (l, c')" for c ids t l c'
  proof -
    obtain rows where "ids \<noteq> []" "prefill_hybrid M C W ids = Inr (c, rows)" using c by (auto simp: hybrid_cache_of_def)
    moreover have "decode_hybrid M C W c t = Inr (l, c')"
      using d by (auto simp: hybrid_lm_def rbind_Inr_iff)
    ultimately have "prefill_hybrid M C W (ids @ [t]) = Inr (c', rows @ [l])"
      using prefill_hybrid_snoc [OF laws] by blast
    then show ?thesis
      by (auto simp: hybrid_cache_of_def hybrid_lm_def hybrid_forward_of_prefill [OF assms(4)] last_logits_def)
  qed
  ultimately show ?thesis unfolding coherent_def by blast
qed

section \<open>The property\<close>

text \<open>
  C3: the cache of a hybrid transformer is exact.  Where the exponential turns sums into products and
  the power of minus one half is the inverse of the root, prefilling a prompt with one more token,
  which runs the chunked rule over all of it, gives the cache and the logits that prefilling the
  prompt and decoding the token give: the states of the linear layers, the windows of their
  convolutions, and the keys and values of the others.  So generation through the cache returns what
  generation by running \<open>model_forward\<close> for every token returns.
\<close>

theorem hybrid_cache_is_exact:
  assumes "exponential M" "inverse_root M" "taps_fit C W" "known_types C"
  shows "(\<forall>ids t c' rows'. ids \<noteq> [] \<longrightarrow> (prefill_hybrid M C W (ids @ [t]) = Inr (c', rows') \<longleftrightarrow>
      (\<exists>c rows l. rows' = rows @ [l] \<and> prefill_hybrid M C W ids = Inr (c, rows)
         \<and> decode_hybrid M C W c t = Inr (l, c'))))
    \<and> (\<forall>ids c rows. prefill_hybrid M C W ids = Inr (c, rows) \<longrightarrow> model_forward M C W ids = Inr rows)
    \<and> (\<forall>N P stop max_new prompt res.
         generate N (hybrid_lm M C W) P stop max_new None prompt = Inr res \<longrightarrow>
         generate N (hybrid_lm M C W\<lparr>supports_incremental := False\<rparr>) P stop max_new None prompt = Inr res)"
proof (intro conjI allI impI)
  fix ids :: "int list" and t c' rows' assume "ids \<noteq> []"
  then show "prefill_hybrid M C W (ids @ [t]) = Inr (c', rows') \<longleftrightarrow>
      (\<exists>c rows l. rows' = rows @ [l] \<and> prefill_hybrid M C W ids = Inr (c, rows) \<and> decode_hybrid M C W c t = Inr (l, c'))"
    by (rule prefill_hybrid_snoc [OF assms(1-3)])
next
  fix ids c rows assume "prefill_hybrid M C W ids = Inr (c, rows)"
  then show "model_forward M C W ids = Inr rows" by (rule hybrid_forward_of_prefill [OF assms(4)])
next
  fix N :: "('a, 'b) numpy" and P stop max_new prompt res
  have "supports_incremental (hybrid_lm M C W)" using assms(4) by (auto simp: hybrid_lm_def known_types_def)
  note run = incremental_run [OF hybrid_lm_coherent [OF assms] this]
  assume "generate N (hybrid_lm M C W) P stop max_new None prompt = Inr res"
  then show "generate N (hybrid_lm M C W\<lparr>supports_incremental := False\<rparr>) P stop max_new None prompt = Inr res"
    by (rule run)
qed

text \<open>
  A model of a linear layer and a layer of full attention over the rationals, with constant functions
  that satisfy the laws.
\<close>

definition flat_math :: "rat mathlib" where
  "flat_math = \<lparr>m_exp = (\<lambda>x. 1), m_cos = (\<lambda>x. 1 - x), m_sin = (\<lambda>x. x), m_sqrt = (\<lambda>x. 1),
     m_pow = (\<lambda>x y. 1), m_logaddexp = (\<lambda>x y. x + y)\<rparr>"

definition toy_linear :: linear_cfg where
  "toy_linear = \<lparr>num_key_heads = 1, key_head_dim = 1, num_value_heads = 1, value_head_dim = 1,
     conv_kernel_size = 2, qk_l2norm = True\<rparr>"

definition toy_hybrid :: "rat hybrid_cfg" where
  "toy_hybrid = \<lparr>text_prefix = [], cfg_layers = 2, cfg_heads = 1, cfg_kv_heads = 1, cfg_head_dim = 1, cfg_rotary = 0,
     cfg_theta = 2, cfg_eps = 1 / 100, tie_embeddings = False, max_positions = 8, linear_attention = Some toy_linear,
     layer_types = [lit ''linear_attention'', lit ''full_attention'']\<rparr>"

definition toy_hybrid_weights :: "(pystr, rat weight) dict" where
  "toy_hybrid_weights =
     (let n = layer_name text_model in
     [(text_model @ lit ''.embed_tokens.weight'', Mat [[1], [-1]]), (text_model @ lit ''.norm.weight'', Vec [1]),
      (lit ''lm_head.weight'', Mat [[2]]),
      (n 0 ''input_layernorm.weight'', Vec [0]), (n 0 ''post_attention_layernorm.weight'', Vec [0]),
      (n 0 ''linear_attn.in_proj_qkv.weight'', Mat [[1], [2], [1]]), (n 0 ''linear_attn.conv1d.weight'', Mat [[1, 1], [1, 2], [2, 1]]),
      (n 0 ''linear_attn.in_proj_z.weight'', Mat [[1]]), (n 0 ''linear_attn.in_proj_b.weight'', Mat [[1]]),
      (n 0 ''linear_attn.in_proj_a.weight'', Mat [[1]]), (n 0 ''linear_attn.A_log'', Vec [0]),
      (n 0 ''linear_attn.dt_bias'', Vec [1]), (n 0 ''linear_attn.norm.weight'', Vec [1]),
      (n 0 ''linear_attn.out_proj.weight'', Mat [[1]]), (n 0 ''mlp.gate_proj.weight'', Mat [[1]]),
      (n 0 ''mlp.up_proj.weight'', Mat [[1]]), (n 0 ''mlp.down_proj.weight'', Mat [[1]]),
      (n 1 ''input_layernorm.weight'', Vec [0]), (n 1 ''post_attention_layernorm.weight'', Vec [0]),
      (n 1 ''self_attn.q_proj.weight'', Mat [[1], [1]]), (n 1 ''self_attn.k_proj.weight'', Mat [[1]]),
      (n 1 ''self_attn.v_proj.weight'', Mat [[1]]), (n 1 ''self_attn.o_proj.weight'', Mat [[1]]),
      (n 1 ''self_attn.q_norm.weight'', Vec [0]), (n 1 ''self_attn.k_norm.weight'', Vec [0]),
      (n 1 ''mlp.gate_proj.weight'', Mat [[1]]),
      (n 1 ''mlp.up_proj.weight'', Mat [[1]]), (n 1 ''mlp.down_proj.weight'', Mat [[1]])])"

definition toy_layer :: "rat linear_layer" where
  "toy_layer = \<lparr>w_in_qkv = [[1], [2], [1]], w_conv = [[1, 1], [1, 2], [2, 1]],
    w_z = [[1]], w_b = [[1]], w_a = [[1]], a_log = [0], dt_bias = [1], norm_w = [1], w_out = [[1]]\<rparr>"

lemma flat_math_laws: "exponential flat_math" "inverse_root flat_math"
  by (simp_all add: exponential_def inverse_root_def flat_math_def)

lemma toy_linear_layer: "linear_attn_weights toy_hybrid_weights 0 = Inr toy_layer"
  by code_simp

lemma toy_linear_prefill:
  "linear_prefill flat_math (1 / 100) toy_linear toy_layer [[1], [-1]]
     = Inr (Recurrent [[[0]]] [[-1, -2, -1]], [[1 / 8], [0]])"
proof -
  let ?ps = "[([\<lparr>tq = [1 / 2], tk = [2], tv = [1 / 2], tbeta = 1 / 2, tg = - 2\<rparr>], [[1]]),
              ([\<lparr>tq = [0], tk = [- 1], tv = [1 / 2], tbeta = 1 / 2, tg = 0\<rparr>], [[- 1]])] :: (rat token list \<times> rat list list) list"
  have kc: "conv_kernel_size toy_linear > 1" by (simp add: toy_linear_def)
  have "rmap (linear (w_in_qkv toy_layer) None) [[1], [-1]] = Inr [[1, 2, 1], [-1, -2, -1]]" by code_simp
  moreover have "causal_conv1d_depthwise flat_math (w_conv toy_layer) [[1, 2, 1], [-1, -2, -1]]
      = Inr [[1 / 2, 2, 1 / 2], [0, -1, 1 / 2]]" by code_simp
  moreover have "rmap (\<lambda>(h, r). net_position flat_math toy_linear toy_layer h r)
      (zip [[1], [-1]] [[1 / 2, 2, 1 / 2], [0, -1, 1 / 2]]) = Inr ?ps" by code_simp
  moreover have "rmap (\<lambda>(c, z). net_output flat_math (1 / 100) toy_layer c z)
      (zip (fst (net_rule flat_math toy_linear None (map fst ?ps))) (map snd ?ps)) = Inr [[1 / 8], [0]]" by code_simp
  moreover have "snd (net_rule flat_math toy_linear None (map fst ?ps)) = [[[0]]]" by code_simp
  moreover have "last_rows (conv_kernel_size toy_linear - 1) [[1, 2, 1], [-1, -2, -1]] = [[-1, -2, -1 :: rat]]" by code_simp
  ultimately show ?thesis
    unfolding linear_prefill_iff [OF flat_math_laws kc list.distinct(2)] by metis
qed

lemma toy_first_layer:
  "hybrid_layer_prefill flat_math toy_hybrid toy_hybrid_weights cs (0, lit ''linear_attention'') [[1], [-1]]
     = Inr (Recurrent [[[0]]] [[-1, -2, -1]], [[225 / 128], [- (1 / 2)]])"
proof -
  have w: "layer_norm_weights toy_hybrid_weights 0 = Inr ([0], [0])" by code_simp
  have h: "rmap (rms_norm flat_math (1 / 100) [0]) [[1], [-1]] = Inr [[1], [-1]]" by code_simp
  have c: "cfg_eps toy_hybrid = 1 / 100" "linear_attention toy_hybrid = Some toy_linear" by (simp_all add: toy_hybrid_def)
  have r: "residual [[1], [-1]] [[1 / 8], [0]] = Inr [[9 / 8], [-1 :: rat]]" by code_simp
  have m: "mlp_block (rms_norm flat_math (1 / 100) [0]) flat_math toy_hybrid_weights text_model 0 [[9 / 8], [-1]]
      = Inr [[225 / 128], [- (1 / 2)]]" by code_simp
  show ?thesis
    by (simp only: hybrid_layer_prefill_def hybrid_mixer_prefill_def with_linear_def fst_conv prod.case option.case
        if_True simp_thms toy_linear_layer toy_linear_prefill rbind_simps w h c r m)
qed

lemma toy_second_layer:
  "hybrid_layer_prefill flat_math toy_hybrid toy_hybrid_weights
     [([], []), ([], [])] (1, lit ''full_attention'') [[225 / 128], [- (1 / 2)]]
   = Inr (KV [[[225 / 128], [- (1 / 2)]]] [[[225 / 128], [- (1 / 2)]]], [[801225 / 131072], [- (88255 / 524288)]])"
  by code_simp

lemma toy_prefill_hybrid: "\<exists>c rows. prefill_hybrid flat_math toy_hybrid toy_hybrid_weights [0, 1] = Inr (c, rows)"
proof -
  have e: "embed_weights text_model toy_hybrid_weights = Inr [[1], [-1]]" by code_simp
  have h: "rmap (embed [[1], [-1]]) [0, 1] = Inr [[1 :: rat], [-1]]" by code_simp
  have cs: "positions_cos_sin flat_math toy_hybrid (length [0 :: int, 1]) = [([], []), ([], [])]" by code_simp
  have n: "numbered_layers toy_hybrid = [(0, lit ''linear_attention''), (1, lit ''full_attention'')]"
    by (simp add: numbered_layers_def toy_hybrid_def)
  have l: "hybrid_logits flat_math (1 / 100) toy_hybrid_weights [[801225 / 131072], [- (88255 / 524288)]]
      = Inr [[801225 / 32768], [- (88255 / 131072)]]" by code_simp
  have c: "cfg_eps toy_hybrid = 1 / 100" by (simp add: toy_hybrid_def)
  show ?thesis unfolding prefill_hybrid_def
    by (simp only: e h cs n l c prefill_layers.simps rbind_simps prod.case toy_first_layer toy_second_layer Inr_inject) blast
qed

text \<open>The convolution weights of the example, recognised by the end of their name.\<close>

lemma toy_taps_fit: "taps_fit toy_hybrid toy_hybrid_weights"
proof -
  have check: "list_all (\<lambda>(k, v). take 13 (rev k) = rev (lit ''conv1d.weight'')
      \<longrightarrow> (case v of Mat w \<Rightarrow> list_all (\<lambda>r. length r = 2) w | _ \<Rightarrow> True)) toy_hybrid_weights" by code_simp
  have "length r = 2" if w: "wmat toy_hybrid_weights (layer_name text_model i ''linear_attn.conv1d.weight'') = Inr w" and r: "r \<in> set w" for i w r
  proof -
    let ?n = "layer_name text_model i ''linear_attn.conv1d.weight''"
    have "(?n, Mat w) \<in> set toy_hybrid_weights"
      using w by (auto simp: wmat_def map_of_SomeD split: option.splits weight.splits)
    moreover have "take 13 (rev ?n) = rev (lit ''conv1d.weight'')"
      by (simp add: layer_name_def lit_def)
    ultimately show ?thesis using check r by (auto simp: list_all_iff)
  qed
  then show ?thesis by (simp add: taps_fit_def toy_hybrid_def toy_linear_def)
qed

theorem hybrid_cache_is_exact_witness:
  "\<exists>c rows l c'. prefill_hybrid flat_math toy_hybrid toy_hybrid_weights [0] = Inr (c, rows)
     \<and> decode_hybrid flat_math toy_hybrid toy_hybrid_weights c 1 = Inr (l, c')
     \<and> model_forward flat_math toy_hybrid toy_hybrid_weights [0, 1] = Inr (rows @ [l])"
proof -
  have "known_types toy_hybrid" by (simp add: known_types_def toy_hybrid_def)
  note exact = hybrid_cache_is_exact [OF flat_math_laws toy_taps_fit this]
  obtain c' rows' where p: "prefill_hybrid flat_math toy_hybrid toy_hybrid_weights ([0] @ [1]) = Inr (c', rows')"
    using toy_prefill_hybrid by auto
  then obtain c rows l where "rows' = rows @ [l]" "prefill_hybrid flat_math toy_hybrid toy_hybrid_weights [0] = Inr (c, rows)"
    "decode_hybrid flat_math toy_hybrid toy_hybrid_weights c 1 = Inr (l, c')" using exact by blast
  moreover have "model_forward flat_math toy_hybrid toy_hybrid_weights ([0] @ [1]) = Inr rows'" using exact p by blast
  ultimately show ?thesis by auto
qed

text \<open>
  A convolution of a single tap is refused: prefill stores a window without channels, and the first
  decoding step cannot join it to the new input.
\<close>

lemma single_tap_cannot_decode:
  assumes "conv_kernel_size la \<le> 1" "linear_prefill M eps la L hs = Inr (e, os)" "w_in_qkv L \<noteq> []"
  shows "\<exists>err. linear_decode M eps la L (Some e) h = Inl err"
proof -
  obtain st where e: "e = Recurrent st [[]]"
    using assms(1,2) by (auto simp: linear_prefill_def rbind_Inr_iff Let_def split: if_splits)
  show ?thesis
  proof (cases "linear (w_in_qkv L) None h")
    case (Inr m)
    then have "m \<noteq> []" using project_width [OF Inr] assms(3) by auto
    then show ?thesis using Inr by (simp add: linear_decode_def e)
  qed (simp add: linear_decode_def)
qed

end
