(* ===== verification/NgramPle.thy ===== *)
theory NgramPle
  imports Hybrid "HOL-Library.Word"
begin

text \<open>
  The n-gram embedding of the Qwen4 family, \<open>ref/qwen4_exp_ple.py\<close>, and its layer in
  \<open>ref/qwen4_exp_pipeline.py\<close>.  Token ids and hashes are 64-bit words, read as signed like numpy's
  \<open>int64\<close>; Python integers are \<open>int\<close>.  The batch axis, of length one, is left out, as in \<open>Tensor\<close>.
\<close>

unbundle bit_operations_syntax

section \<open>Hashing\<close>

definition SPLITMIX_GAMMA :: int where "SPLITMIX_GAMMA = 0x9E3779B97F4A7C15"
definition SPLITMIX_M1 :: "64 word" where "SPLITMIX_M1 = 0xBF58476D1CE4E5B9"
definition SPLITMIX_M2 :: "64 word" where "SPLITMIX_M2 = 0x94D049BB133111EB"
definition PRIME_1 :: int where "PRIME_1 = 10007"

text \<open>The value is masked to 64 bits before each step.\<close>

definition splitmix64 :: "64 word \<Rightarrow> 64 word" where
  "splitmix64 value =
     (let a = value + word_of_int SPLITMIX_GAMMA;
          b = (a XOR drop_bit 30 a) * SPLITMIX_M1;
          c = (b XOR drop_bit 27 b) * SPLITMIX_M2
      in c XOR drop_bit 31 c)"

definition build_layer_multipliers :: "int \<Rightarrow> nat \<Rightarrow> nat \<Rightarrow> int \<Rightarrow> 64 word list" where
  "build_layer_multipliers unigram_vocab_size n ple_layer_index sd =
     (let max_long = 2 ^ 63 - 1;
          multiplier_max = max_long div max unigram_vocab_size 1;
          half_bound = max 1 (multiplier_max div 2);
          base_seed = sd + PRIME_1 * int ple_layer_index
      in map (\<lambda>index.
           let value = word_of_int (base_seed + SPLITMIX_GAMMA * (int index + 1))
           in word_of_int (2 * (uint (splitmix64 value) mod half_bound) + 1)) [0..<n])"

section \<open>Primes\<close>

text \<open>\<open>math.isqrt\<close>\<close>

function isqrt_from :: "int \<Rightarrow> int \<Rightarrow> int" where
  "isqrt_from r n = (if 0 \<le> r \<and> (r + 1) * (r + 1) \<le> n then isqrt_from (r + 1) n else r)"
  by pat_completeness auto
termination
proof (relation "measure (\<lambda>(r, n). nat (n - r))")
  fix r n :: int
  assume r: "0 \<le> r \<and> (r + 1) * (r + 1) \<le> n"
  then have "1 * (r + 1) \<le> (r + 1) * (r + 1)" by (intro mult_right_mono) auto
  from order_trans [OF this conjunct2 [OF r]] have "r < n" by simp
  then show "((r + 1, n), (r, n)) \<in> measure (\<lambda>(r, n). nat (n - r))" by simp
qed simp

declare isqrt_from.simps [simp del]

definition isqrt :: "int \<Rightarrow> int" where
  "isqrt n = isqrt_from 0 n"

text \<open>\<open>range(3, hi, 2)\<close>\<close>

definition odds_below :: "int \<Rightarrow> int list" where
  "odds_below hi = map (\<lambda>i. 3 + 2 * int i) [0..<nat ((hi - 2) div 2)]"

definition is_prime :: "int \<Rightarrow> bool" where
  "is_prime value =
     (if value < 2 then False
      else if value mod 2 = 0 then value = 2
      else list_all (\<lambda>d. value mod d \<noteq> 0) (odds_below (isqrt value + 1)))"

lemma isqrt_from_bounds:
  assumes "0 \<le> r" "r * r \<le> n"
  shows "0 \<le> isqrt_from r n \<and> isqrt_from r n * isqrt_from r n \<le> n
    \<and> n < (isqrt_from r n + 1) * (isqrt_from r n + 1)"
  using assms
proof (induction r n rule: isqrt_from.induct)
  case (1 r n)
  then show ?case by (subst (1 2 3 4 5) isqrt_from.simps) auto
qed

lemma isqrt_bounds:
  assumes "0 \<le> n"
  shows "0 \<le> isqrt n" "isqrt n * isqrt n \<le> n" "n < (isqrt n + 1) * (isqrt n + 1)"
  using isqrt_from_bounds [of 0 n] assms by (simp_all add: isqrt_def)

lemma odds_below_iff: "d \<in> set (odds_below hi) \<longleftrightarrow> 3 \<le> d \<and> d < hi \<and> odd d"
proof
  assume "d \<in> set (odds_below hi)"
  then obtain i where "d = 3 + 2 * int i" "i < nat ((hi - 2) div 2)" by (auto simp: odds_below_def)
  then show "3 \<le> d \<and> d < hi \<and> odd d" by auto
next
  assume d: "3 \<le> d \<and> d < hi \<and> odd d"
  then obtain k where k: "d = 2 * k + 1" by (auto elim: oddE)
  then have "d = 3 + 2 * int (nat (k - 1))" "nat (k - 1) \<in> set [0..<nat ((hi - 2) div 2)]" using d by auto
  then show "d \<in> set (odds_below hi)" unfolding odds_below_def set_map by (rule image_eqI)
qed

text \<open>Trial division by two and the odd numbers up to the root decides primality.\<close>

lemma is_prime_iff: "is_prime v \<longleftrightarrow> 2 \<le> v \<and> (\<forall>d. 2 \<le> d \<and> d < v \<longrightarrow> v mod d \<noteq> 0)"
proof (cases "2 \<le> v \<and> odd v")
  case False
  consider "v < 2" | "v = 2" | "2 < v" "v mod 2 = 0" using False by fastforce
  then show ?thesis by cases (auto simp: is_prime_def)
next
  case True
  have "list_all (\<lambda>d. v mod d \<noteq> 0) (odds_below (isqrt v + 1)) \<longleftrightarrow> (\<forall>d. 2 \<le> d \<and> d < v \<longrightarrow> v mod d \<noteq> 0)"
    (is "?l \<longleftrightarrow> ?r")
  proof
    assume l: ?l
    show ?r
    proof (intro allI impI notI)
      fix d assume d: "2 \<le> d \<and> d < v" "v mod d = 0"
      define e where "e = v div d"
      have ve: "v = d * e" using d(2) by (auto simp: e_def)
      have "\<not> e \<le> 1"
      proof
        assume "e \<le> 1"
        then have "d * e \<le> d * 1" using d(1) by (intro mult_left_mono) auto
        with ve d(1) show False by simp
      qed
      then have e: "2 \<le> e" by simp
      have "min d e * min d e \<le> d * e" using d(1) e by (intro mult_mono) auto
      then have sq: "min d e * min d e \<le> v" by (simp only: ve)
      have "min d e \<le> isqrt v"
      proof (rule ccontr)
        assume "\<not> min d e \<le> isqrt v"
        then have "(isqrt v + 1) * (isqrt v + 1) \<le> min d e * min d e"
          using isqrt_bounds(1) [of v] True by (intro mult_mono) auto
        with sq isqrt_bounds(3) [of v] True show False by simp
      qed
      moreover have "odd (min d e)" using True ve by (auto simp: min_def)
      moreover have "v mod min d e = 0" using ve by (auto simp: min_def)
      moreover have "3 \<le> min d e"
      proof -
        have "2 \<le> min d e" using d(1) e by simp
        moreover have "min d e \<noteq> 2" using \<open>odd (min d e)\<close> by auto
        ultimately show ?thesis by linarith
      qed
      ultimately show False using l by (auto simp: list_all_iff odds_below_iff)
    qed
  next
    assume r: ?r
    have "isqrt v < v"
    proof (rule ccontr)
      assume "\<not> isqrt v < v"
      then have "v * v \<le> isqrt v * isqrt v" using True by (intro mult_mono) auto
      also have "\<dots> \<le> v" using isqrt_bounds(2) [of v] True by simp
      finally have "v * v \<le> v" .
      moreover have "2 * v \<le> v * v" using True by (intro mult_right_mono) auto
      ultimately show False using True by linarith
    qed
    then show ?l using r by (auto simp: list_all_iff odds_below_iff)
  qed
  then show ?thesis using True by (auto simp: is_prime_def even_iff_mod_2_eq_zero)
qed

text \<open>There is a prime above every number: a divisor of a factorial plus one.\<close>

lemma prime_divisor:
  assumes "2 \<le> n"
  shows "\<exists>p. is_prime p \<and> p dvd n"
  using assms
proof (induction "nat n" arbitrary: n rule: less_induct)
  case less
  show ?case
  proof (cases "is_prime n")
    case True
    then show ?thesis by (intro exI [of _ n]) simp
  next
    case False
    then have "\<not> (\<forall>d. 2 \<le> d \<and> d < n \<longrightarrow> n mod d \<noteq> 0)" using less.prems is_prime_iff [of n] by blast
    then have "\<exists>d. 2 \<le> d \<and> d < n \<and> n mod d = 0" by simp
    then obtain d where d: "2 \<le> d" "d < n" "n mod d = 0" by (elim exE conjE)
    have "nat d < nat n" using d(1,2) by (simp only: nat_less_eq_zless)
    from less.hyps [OF this d(1)] obtain p where p: "is_prime p \<and> p dvd d" ..
    have "d dvd n" using d(3) by (simp add: dvd_eq_mod_eq_0)
    with p show ?thesis by (intro exI [of _ p]) (simp add: dvd_trans [of p d n])
  qed
qed

lemma prime_above: "\<exists>p. n < p \<and> is_prime p"
proof -
  define f :: int where "f = fact (nat n)"
  have f: "1 \<le> f" by (simp add: f_def fact_ge_1)
  obtain p where p: "is_prime p" "p dvd f + 1" using prime_divisor [of "f + 1"] f by auto
  have "2 \<le> p" using p(1) is_prime_iff by blast
  have "n < p"
  proof (rule ccontr)
    assume "\<not> n < p"
    then have "nat p \<le> nat n" "1 \<le> nat p" using \<open>2 \<le> p\<close> by auto
    then have "int (nat p) dvd f" unfolding f_def by (metis dvd_fact of_nat_dvd_iff of_nat_fact)
    then have "p dvd 1" using p(2) \<open>2 \<le> p\<close> by (simp add: dvd_add_right_iff)
    then show False using \<open>2 \<le> p\<close> by simp
  qed
  with p show ?thesis by blast
qed

function next_prime :: "int \<Rightarrow> int" where
  "next_prime p = (if is_prime p then p else next_prime (p + 1))"
  by pat_completeness auto
termination
proof (relation "measure (\<lambda>p. LEAST k. is_prime (p + int k))")
  fix p assume np: "\<not> is_prime p"
  obtain q where q: "p < q" "is_prime q" using prime_above by blast
  have ex: "is_prime (p + int (nat (q - p)))" using q by simp
  let ?k = "LEAST k. is_prime (p + int k)"
  have k: "is_prime (p + int ?k)" using LeastI [of "\<lambda>k. is_prime (p + int k)", OF ex] .
  have "?k \<noteq> 0"
  proof
    assume "?k = 0"
    with k np show False by simp
  qed
  then have "p + int ?k = p + 1 + int (?k - 1)" by simp
  from subst [OF this, of is_prime, OF k] have "is_prime (p + 1 + int (?k - 1))" .
  then have "(LEAST k. is_prime (p + 1 + int k)) \<le> ?k - 1" by (rule Least_le)
  with \<open>?k \<noteq> 0\<close> show "(p + 1, p) \<in> measure (\<lambda>p. LEAST k. is_prime (p + int k))"
    unfolding in_measure by linarith
qed simp

declare next_prime.simps [simp del]

definition find_nth_prime_after :: "int \<Rightarrow> nat \<Rightarrow> int" where
  "find_nth_prime_after start n = ((\<lambda>prime. next_prime (prime + 1)) ^^ n) start"

lemma next_prime_spec:
  "p \<le> next_prime p \<and> is_prime (next_prime p) \<and> (\<forall>q. p \<le> q \<and> q < next_prime p \<longrightarrow> \<not> is_prime q)"
proof (induction p rule: next_prime.induct)
  case (1 p)
  show ?case
  proof (cases "is_prime p")
    case True
    then show ?thesis by (auto simp: next_prime.simps [of p])
  next
    case False
    have *: "next_prime p = next_prime (p + 1)" using False by (subst next_prime.simps) simp
    have "\<not> is_prime q" if "p \<le> q" "q < next_prime (p + 1)" for q
      using that False 1 [OF False] by (cases "q = p") auto
    with 1 [OF False] show ?thesis unfolding * by auto
  qed
qed

lemma nth_prime_Suc: "find_nth_prime_after s (Suc n) = next_prime (find_nth_prime_after s n + 1)"
  by (simp add: find_nth_prime_after_def)

lemma nth_prime_less: "find_nth_prime_after s n < find_nth_prime_after s (Suc n)"
  using next_prime_spec [of "find_nth_prime_after s n + 1"] unfolding nth_prime_Suc by linarith

lemma nth_prime_mono: "strict_mono (find_nth_prime_after s)"
  by (simp add: strict_mono_Suc_iff nth_prime_less)

lemma nth_prime_start: "find_nth_prime_after s 0 = s" "s \<le> find_nth_prime_after s n"
proof -
  show z: "find_nth_prime_after s 0 = s" by (simp add: find_nth_prime_after_def)
  show "s \<le> find_nth_prime_after s n"
    using strict_mono_less_eq [OF nth_prime_mono, of s 0 n] z by simp
qed

lemma nth_prime_is_prime:
  assumes "0 < n"
  shows "is_prime (find_nth_prime_after s n)"
proof -
  obtain m where "n = Suc m" using assms by (cases n) auto
  then show ?thesis using next_prime_spec by (simp add: nth_prime_Suc)
qed

text \<open>The \<open>n\<close>-th prime after a number: the primes up to it are the first to the \<open>n\<close>-th.\<close>

lemma nth_prime_all:
  "{q. s < q \<and> q \<le> find_nth_prime_after s n \<and> is_prime q} = find_nth_prime_after s ` {1..n}"
proof (induction n)
  case 0
  then show ?case by (auto simp: nth_prime_start(1))
next
  case (Suc n)
  let ?a = "find_nth_prime_after s n" and ?b = "find_nth_prime_after s (Suc n)"
  have b: "?a < ?b" "is_prime ?b" "\<forall>q. ?a + 1 \<le> q \<and> q < ?b \<longrightarrow> \<not> is_prime q"
    using next_prime_spec [of "?a + 1"] nth_prime_less by (simp_all add: nth_prime_Suc)
  have low: "s \<le> ?a" by (rule nth_prime_start)
  have "q \<in> {q. s < q \<and> q \<le> ?b \<and> is_prime q} \<longleftrightarrow> q \<in> {q. s < q \<and> q \<le> ?a \<and> is_prime q} \<union> {?b}" for q
  proof -
    consider "q \<le> ?a" | "?a < q" "q < ?b" | "q = ?b" | "?b < q" by linarith
    then show ?thesis
    proof cases
      case 2
      then have "\<not> is_prime q" using b(3) by simp
      with 2 show ?thesis by simp
    qed (use b(1,2) low in auto)
  qed
  then have "{q. s < q \<and> q \<le> ?b \<and> is_prime q} = {q. s < q \<and> q \<le> ?a \<and> is_prime q} \<union> {?b}"
    by (rule set_eqI)
  then show ?case using Suc by (simp add: atLeastAtMostSuc_conv)
qed

section \<open>Layout of the table\<close>

text \<open>\<open>ngram_size\<close> and \<open>heads_per_ngram\<close> are positive.  Values beyond 64 bits raise where numpy converts them.\<close>

record ngram_layout =
  ngram_size :: nat
  heads_per_ngram :: nat
  ngram_heads :: nat
  context_len :: nat
  head_vocab_sizes :: "int list"
  head_offsets :: "int list"
  total_vocab_size :: int
  padded_vocab_size :: int
  layer_multipliers :: "64 word list"

text \<open>
  \<open>new_layout\<close> is \<open>NGramLayout\<close>.  The padding rounds up a float quotient: \<open>ceil_quot a b\<close> is
  \<open>int(math.ceil(a / b))\<close>.
\<close>

definition new_layout ::
    "(int \<Rightarrow> int \<Rightarrow> int) \<Rightarrow> int \<Rightarrow> nat \<Rightarrow> nat \<Rightarrow> int \<Rightarrow> nat \<Rightarrow> int \<Rightarrow> int \<Rightarrow> py_error + ngram_layout" where
  "new_layout ceil_quot vocab_size n per_ngram base ple_layer_index divisor sd =
     (let heads = (n - 1) * per_ngram;
          sizes = map (\<lambda>head_idx. find_nth_prime_after (base - 1) (ple_layer_index * heads + head_idx + 1)) [0..<heads];
          offsets = map (\<lambda>head_idx. sum_list (take head_idx sizes)) [0..<heads];
          total = sum_list sizes
      in if \<not> list_all (\<lambda>v. v < 2 ^ 63) (sizes @ offsets) then Inl OverflowError
         else if divisor = 0 then Inl ZeroDivisionError
         else Inr \<lparr>ngram_size = n, heads_per_ngram = per_ngram, ngram_heads = heads, context_len = n - 1,
                   head_vocab_sizes = sizes, head_offsets = offsets, total_vocab_size = total,
                   padded_vocab_size = ceil_quot total divisor * divisor,
                   layer_multipliers = build_layer_multipliers vocab_size n ple_layer_index sd\<rparr>)"

section \<open>N-gram ids\<close>

text \<open>\<open>np.maximum.accumulate\<close>\<close>

definition running_max :: "int list \<Rightarrow> int list" where
  "running_max xs = map (\<lambda>i. Max (set (take (Suc i) xs))) [0..<length xs]"

definition shift_right_ignore_eos :: "64 word list \<Rightarrow> nat \<Rightarrow> 64 word \<Rightarrow> 64 word list" where
  "shift_right_ignore_eos token_ids shift eos =
     (if shift = 0 then token_ids
      else let seq = length token_ids;
               eos_positions = map (\<lambda>i. if token_ids ! i = eos then int i else -1) [0..<seq];
               previous_eos_inclusive = running_max eos_positions;
               previous_eos = -1 # butlast previous_eos_inclusive;
               segment_start = map (\<lambda>p. p + 1) previous_eos;
               position_in_segment = map (\<lambda>i. int i - segment_start ! i) [0..<seq];
               source_positions = map (\<lambda>i. int i - int shift) [0..<seq];
               shifted = map (\<lambda>p. token_ids ! nat (max p 0)) source_positions
           in map (\<lambda>i. if position_in_segment ! i \<ge> int shift \<and> source_positions ! i \<ge> 0 then shifted ! i else eos)
                [0..<seq])"

text \<open>A sum of \<open>int64\<close> values\<close>

definition add64 :: "int \<Rightarrow> int \<Rightarrow> int" where
  "add64 a b = sint (word_of_int (a + b) :: 64 word)"

text \<open>The ids of all heads for position \<open>i\<close> of the history.\<close>

definition mixed_hash :: "64 word list \<Rightarrow> 64 word list list \<Rightarrow> nat \<Rightarrow> nat \<Rightarrow> 64 word" where
  "mixed_hash multipliers shifted i ngram =
     foldl (\<lambda>mixed position. mixed XOR shifted ! position ! i * multipliers ! position)
       (shifted ! 0 ! i * multipliers ! 0) [1..<ngram]"

definition head_ids :: "ngram_layout \<Rightarrow> 64 word list list \<Rightarrow> nat \<Rightarrow> int list" where
  "head_ids L shifted i =
     concat (map (\<lambda>ngram.
       let lo = (ngram - 2) * heads_per_ngram L; mixed = sint (mixed_hash (layer_multipliers L) shifted i ngram)
       in map (\<lambda>h. add64 (mixed mod head_vocab_sizes L ! h) (head_offsets L ! h)) [lo..<lo + heads_per_ngram L])
     [2..<ngram_size L + 1])"

definition ngram_ids ::
    "64 word list \<Rightarrow> ngram_layout \<Rightarrow> 64 word list option \<Rightarrow> 64 word \<Rightarrow> py_error + int list list" where
  "ngram_ids ids L previous_context eos =
     (let context = (case previous_context of None \<Rightarrow> replicate (context_len L) eos | Some c \<Rightarrow> c);
          token_history = context @ ids;
          shifted = map (\<lambda>sh. shift_right_ignore_eos token_history sh eos) [0..<ngram_size L]
      in if ngram_size L < 2 then Inl ValueError
         else Inr (last_rows (length ids) (map (head_ids L shifted) [0..<length token_history])))"

section \<open>Lemmas on n-grams\<close>

text \<open>The token some places back, or the end token where one of the tokens between is the end token.\<close>

definition token_back :: "64 word list \<Rightarrow> nat \<Rightarrow> 64 word \<Rightarrow> nat \<Rightarrow> 64 word" where
  "token_back xs k eos i = (if k \<le> i \<and> (\<forall>j. i - k \<le> j \<and> j < i \<longrightarrow> xs ! j \<noteq> eos) then xs ! (i - k) else eos)"

lemma running_max_le:
  assumes "i < length xs"
  shows "running_max xs ! i < b \<longleftrightarrow> (\<forall>j \<le> i. xs ! j < b)"
proof -
  have "set (take (Suc i) xs) = (!) xs ` {..i}"
    using nth_image [of "Suc i" xs] assms by (simp add: atLeastLessThanSuc_atLeastAtMost atMost_atLeast0)
  then show ?thesis using assms by (auto simp: running_max_def Max_less_iff)
qed

lemma shift_right_is_token_back:
  assumes "i < length xs"
  shows "shift_right_ignore_eos xs k eos ! i = token_back xs k eos i"
proof (cases "k = 0")
  case True
  then show ?thesis by (auto simp: shift_right_ignore_eos_def token_back_def)
next
  case False
  let ?ps = "map (\<lambda>i. if xs ! i = eos then int i else -1) [0..<length xs]"
  let ?prev = "-1 # butlast (running_max ?ps)"
  have len: "length (running_max ?ps) = length xs" by (simp add: running_max_def)
  have "?prev ! i < int i - int k \<longleftrightarrow> k \<le> i \<and> (\<forall>j. i - k \<le> j \<and> j < i \<longrightarrow> xs ! j \<noteq> eos)"
  proof (cases i)
    case 0
    then show ?thesis using False by simp
  next
    case (Suc m)
    have "?prev ! i = running_max ?ps ! m" using Suc assms len by (simp add: nth_butlast)
    also have "\<dots> < int i - int k \<longleftrightarrow> (\<forall>j \<le> m. ?ps ! j < int i - int k)"
      using Suc assms by (intro running_max_le) simp
    also have "\<dots> \<longleftrightarrow> k \<le> i \<and> (\<forall>j. i - k \<le> j \<and> j < i \<longrightarrow> xs ! j \<noteq> eos)"
    proof
      assume a: "\<forall>j \<le> m. ?ps ! j < int i - int k"
      then have "?ps ! m < int i - int k" by simp
      then have k: "k \<le> i" using Suc assms by (auto split: if_splits)
      moreover have "xs ! j \<noteq> eos" if "i - k \<le> j" "j < i" for j
        using a [rule_format, of j] that Suc assms k by (auto split: if_splits)
      ultimately show "k \<le> i \<and> (\<forall>j. i - k \<le> j \<and> j < i \<longrightarrow> xs ! j \<noteq> eos)" by blast
    next
      assume b: "k \<le> i \<and> (\<forall>j. i - k \<le> j \<and> j < i \<longrightarrow> xs ! j \<noteq> eos)"
      show "\<forall>j \<le> m. ?ps ! j < int i - int k"
      proof (intro allI impI)
        fix j assume "j \<le> m"
        then show "?ps ! j < int i - int k" using b Suc assms by (cases "i - k \<le> j") (auto split: if_splits)
      qed
    qed
    finally show ?thesis .
  qed
  moreover have "?prev ! i < int i - int k \<longleftrightarrow> int i - (?prev ! i + 1) \<ge> int k" by linarith
  moreover have "map (\<lambda>p. p + 1) ?prev ! i = ?prev ! i + 1"
    using assms len by (intro nth_map) simp
  ultimately show ?thesis using False assms
    by (auto simp: shift_right_ignore_eos_def token_back_def Let_def nat_diff_distrib)
qed

lemma shift_right_length [simp]: "length (shift_right_ignore_eos xs k eos) = length xs"
  by (simp add: shift_right_ignore_eos_def Let_def)

lemma token_back_append: "i < length xs \<Longrightarrow> token_back (xs @ ys) k eos i = token_back xs k eos i"
  by (auto simp: token_back_def nth_append)

lemma token_back_drop:
  assumes "k \<le> i" "m \<le> length xs"
  shows "token_back (drop m xs) k eos i = token_back xs k eos (m + i)"
proof -
  have "(\<forall>j. i - k \<le> j \<and> j < i \<longrightarrow> drop m xs ! j \<noteq> eos) \<longleftrightarrow> (\<forall>j. m + i - k \<le> j \<and> j < m + i \<longrightarrow> xs ! j \<noteq> eos)"
  proof (intro iffI allI impI)
    fix j assume a: "\<forall>j. i - k \<le> j \<and> j < i \<longrightarrow> drop m xs ! j \<noteq> eos" and j: "m + i - k \<le> j \<and> j < m + i"
    then have "i - k \<le> j - m \<and> j - m < i" "m \<le> j" using assms by arith+
    then show "xs ! j \<noteq> eos" using a [rule_format, of "j - m"] assms(2) by simp
  next
    fix j assume a: "\<forall>j. m + i - k \<le> j \<and> j < m + i \<longrightarrow> xs ! j \<noteq> eos" and j: "i - k \<le> j \<and> j < i"
    then have "m + i - k \<le> m + j \<and> m + j < m + i" by arith
    then show "drop m xs ! j \<noteq> eos" using a assms(2) by simp
  qed
  then show ?thesis using assms by (auto simp: token_back_def)
qed

text \<open>Padding in front with the end token changes nothing.\<close>

lemma token_back_pad: "token_back (replicate r eos @ xs) k eos (r + i) = token_back xs k eos i"
proof (cases "k \<le> i")
  case True
  then show ?thesis using token_back_drop [of k i r "replicate r eos @ xs"] by simp
next
  case False
  have "(replicate r eos @ xs) ! (r + i - k) = eos" if "k \<le> r + i"
  proof -
    have "r + i - k < r" using that False by arith
    then show ?thesis by (simp add: nth_append)
  qed
  then show ?thesis using False by (simp add: token_back_def)
qed

text \<open>The ids at a position depend on the tokens back from it only.\<close>

definition ids_at :: "ngram_layout \<Rightarrow> 64 word \<Rightarrow> 64 word list \<Rightarrow> nat \<Rightarrow> int list" where
  "ids_at L eos xs i = head_ids L (map (\<lambda>sh. shift_right_ignore_eos xs sh eos) [0..<ngram_size L]) i"

lemma mixed_hash_cong:
  assumes "\<And>p. p < n \<Longrightarrow> f ! p ! i = g ! p ! j" "ngram \<le> n" "0 < n"
  shows "mixed_hash ms f i ngram = mixed_hash ms g j ngram"
proof -
  have "foldl (\<lambda>mixed position. mixed XOR f ! position ! i * ms ! position) (f ! 0 ! i * ms ! 0) [1..<ngram]
      = foldl (\<lambda>mixed position. mixed XOR g ! position ! j * ms ! position) (g ! 0 ! j * ms ! 0) [1..<ngram]"
    using assms by (intro foldl_cong) auto
  then show ?thesis by (simp add: mixed_hash_def)
qed

lemma ids_at_cong:
  assumes "\<And>k. k < ngram_size L \<Longrightarrow> token_back xs k eos i = token_back ys k eos j" "i < length xs" "j < length ys"
    "0 < ngram_size L"
  shows "ids_at L eos xs i = ids_at L eos ys j"
proof -
  have "mixed_hash ms (map (\<lambda>sh. shift_right_ignore_eos xs sh eos) [0..<ngram_size L]) i ngram
      = mixed_hash ms (map (\<lambda>sh. shift_right_ignore_eos ys sh eos) [0..<ngram_size L]) j ngram"
    if "ngram \<le> ngram_size L" for ms ngram
    using that assms by (intro mixed_hash_cong [where n = "ngram_size L"]) (auto simp: shift_right_is_token_back)
  then show ?thesis unfolding ids_at_def head_ids_def Let_def
    by (intro arg_cong [where f = concat] map_cong) auto
qed

text \<open>The tokens before a chunk, and the chunk in the whole.\<close>

definition context_of :: "ngram_layout \<Rightarrow> 64 word \<Rightarrow> 64 word list option \<Rightarrow> 64 word list" where
  "context_of L eos ctx = (case ctx of None \<Rightarrow> replicate (context_len L) eos | Some c \<Rightarrow> c)"

lemma ngram_ids_at:
  assumes "2 \<le> ngram_size L" "ids \<noteq> []"
  shows "ngram_ids ids L ctx eos
    = Inr (map (\<lambda>i. ids_at L eos (context_of L eos ctx @ ids) (length (context_of L eos ctx) + i)) [0..<length ids])"
  using assms
  by (auto simp: ngram_ids_def context_of_def [symmetric] ids_at_def last_rows_def Let_def drop_map intro!: nth_equalityI)

text \<open>What the driver keeps of the tokens for the next chunk, \<open>_forward\<close> of \<open>ref/qwen4_exp_pipeline.py\<close>.\<close>

definition next_context :: "nat \<Rightarrow> 64 word list option \<Rightarrow> 64 word list \<Rightarrow> 64 word list" where
  "next_context n prev ple_ids = last_rows (n - 1) (case prev of None \<Rightarrow> ple_ids | Some c \<Rightarrow> c @ ple_ids)"

lemma token_back_last_rows:
  assumes "k < n"
  shows "token_back (last_rows (n - 1) h @ ys) k eos (length (last_rows (n - 1) h) + j)
    = token_back (h @ ys) k eos (length h + j)"
proof (cases "n - 1 = 0 \<or> length h \<le> n - 1")
  case True
  then show ?thesis by (auto simp: last_rows_def)
next
  case False
  define q where "q = n - 1"
  define m where "m = length h - q"
  have l: "last_rows q h @ ys = drop m (h @ ys)" "length (last_rows q h) = q" "length h = m + q" "k \<le> q + j"
    using False assms by (auto simp: last_rows_def m_def q_def)
  have "token_back (drop m (h @ ys)) k eos (q + j) = token_back (h @ ys) k eos (m + (q + j))"
    using l(3,4) by (intro token_back_drop) auto
  then show ?thesis unfolding q_def [symmetric] l by (simp add: add.assoc)
qed

lemma map_upt_cong: "(\<And>i. i < n \<Longrightarrow> f i = g i) \<Longrightarrow> map f [0..<n] = map g [0..<n]"
  by simp

lemma ngram_ids_chunks:
  assumes "2 \<le> ngram_size L" "context_len L = ngram_size L - 1" "xs \<noteq> []" "ys \<noteq> []"
    and "ngram_ids xs L ctx eos = Inr a" "ngram_ids ys L (Some (next_context (ngram_size L) ctx xs)) eos = Inr b"
  shows "ngram_ids (xs @ ys) L ctx eos = Inr (a @ b)"
proof -
  let ?c = "context_of L eos ctx" and ?n = "ngram_size L"
  define h where "h = (case ctx of None \<Rightarrow> xs | Some c \<Rightarrow> c @ xs)"
  have same: "token_back (?c @ xs @ ys) k eos (length ?c + (length xs + j)) = token_back (h @ ys) k eos (length h + j)" for k j
  proof (cases ctx)
    case None
    then show ?thesis using token_back_pad [of "context_len L" eos "xs @ ys" k "length xs + j"]
      by (simp add: context_of_def h_def add.assoc)
  qed (simp add: context_of_def h_def add.assoc)
  have "a = map (\<lambda>i. ids_at L eos (?c @ xs) (length ?c + i)) [0..<length xs]"
    using assms(5) ngram_ids_at [OF assms(1,3), of ctx eos] by simp
  also have "\<dots> = map (\<lambda>i. ids_at L eos (?c @ xs @ ys) (length ?c + i)) [0..<length xs]"
    using assms(1) token_back_append [of _ "?c @ xs" ys] by (intro map_upt_cong ids_at_cong) auto
  finally have a: "a = \<dots>" .
  have "b = map (\<lambda>j. ids_at L eos (last_rows (?n - 1) h @ ys) (length (last_rows (?n - 1) h) + j)) [0..<length ys]"
    using assms(6) ngram_ids_at [OF assms(1,4), of "Some (next_context ?n ctx xs)" eos]
    by (simp add: context_of_def next_context_def h_def)
  also have "\<dots> = map (\<lambda>j. ids_at L eos (?c @ xs @ ys) (length ?c + (length xs + j))) [0..<length ys]"
    using assms(1) token_back_last_rows [of _ ?n h ys eos] same by (intro map_upt_cong ids_at_cong) auto
  finally have b: "b = \<dots>" .
  have "[0..<length xs + length ys] = [0..<length xs] @ map ((+) (length xs)) [0..<length ys]"
    by (rule nth_equalityI) (auto simp: nth_append)
  then show ?thesis
    unfolding a b using ngram_ids_at [OF assms(1), of "xs @ ys" ctx eos] assms(3) by (simp add: o_def)
qed

section \<open>Ranges\<close>

text \<open>The multipliers are small enough for the products not to overflow.\<close>

lemma uint_int64:
  assumes "0 \<le> x" "x < 2 ^ 64"
  shows "uint (word_of_int x :: 64 word) = x"
  using assms by (simp add: uint_word_of_int)

lemma sint_is_uint:
  assumes "0 \<le> sint (w :: 64 word)"
  shows "uint w = sint w" "sint w < 2 ^ 63"
proof -
  show "sint w < 2 ^ 63" using sint_lt [of w] by simp
  then show "uint w = sint w" using uint_int64 [of "sint w"] assms by simp
qed

lemma sint_int64:
  assumes "0 \<le> x" "x < 2 ^ 63"
  shows "sint (word_of_int x :: 64 word) = x"
  using assms by (simp add: sint_uint uint_word_of_int signed_take_bit_int_eq_self)

lemma multiplier_product:
  assumes "index < n" "0 \<le> t" "t < vocab" "t < 2 ^ 63"
  shows "0 \<le> sint (build_layer_multipliers vocab n idx sd ! index)"
    and "t * sint (build_layer_multipliers vocab n idx sd ! index) < 2 ^ 63"
proof -
  define mm where "mm = (2 ^ 63 - 1 :: int) div max vocab 1"
  define hb where "hb = max 1 (mm div 2)"
  obtain u where m: "build_layer_multipliers vocab n idx sd ! index = word_of_int (2 * (u mod hb) + 1)"
    using assms(1) by (simp add: build_layer_multipliers_def Let_def mm_def hb_def)
  define x where "x = 2 * (u mod hb) + 1"
  have hb: "0 < hb" by (simp add: hb_def)
  have v: "0 < vocab" "max vocab 1 = vocab" using assms by auto
  have mm: "0 \<le> mm" "vocab * mm \<le> 2 ^ 63 - 1" "mm \<le> 2 ^ 63 - 1"
  proof -
    show "0 \<le> mm" using v by (simp add: mm_def pos_imp_zdiv_nonneg_iff)
    show le: "vocab * mm \<le> 2 ^ 63 - 1"
      using minus_mod_eq_mult_div [of "2 ^ 63 - 1 :: int" vocab] pos_mod_sign [OF v(1), of "2 ^ 63 - 1"] by (simp add: mm_def v(2))
    have "1 * mm \<le> vocab * mm" using v(1) \<open>0 \<le> mm\<close> by (intro mult_right_mono) auto
    with le show "mm \<le> 2 ^ 63 - 1" by simp
  qed
  have "0 \<le> u mod hb" "u mod hb < hb" using hb by auto
  then have x: "1 \<le> x" "x \<le> 2 * hb - 1" by (auto simp: x_def)
  have bound: "x \<le> mm \<or> x = 1" using x by (auto simp: hb_def)
  have "x < 2 ^ 63" using bound mm(3) by auto
  then have sx: "sint (word_of_int x :: 64 word) = x" using x(1) by (intro sint_int64) auto
  then show "0 \<le> sint (build_layer_multipliers vocab n idx sd ! index)" using x(1) by (simp add: m x_def)
  have "t * x < 2 ^ 63"
  proof (cases "x = 1")
    case False
    then have "t * x \<le> vocab * mm" using bound assms x mm(1) by (intro mult_mono) auto
    with mm(2) show ?thesis by simp
  qed (use assms(4) in simp)
  then show "t * sint (build_layer_multipliers vocab n idx sd ! index) < 2 ^ 63" using sx by (simp add: m x_def)
qed

lemma sint_mult_exact:
  assumes "0 \<le> sint a" "0 \<le> sint b" "sint a * sint b < 2 ^ 63"
  shows "sint (a * b :: 64 word) = sint a * sint b"
proof -
  have "a * b = word_of_int (sint a * sint b)" by (simp add: word_of_int_eq_iff [symmetric] of_int_mult)
  then show ?thesis using sint_int64 [of "sint a * sint b"] assms by simp
qed

lemma sint_xor:
  assumes "0 \<le> sint a" "0 \<le> sint (b :: 64 word)"
  shows "sint (a XOR b) = sint a XOR sint b" "0 \<le> sint (a XOR b)"
proof -
  note u = sint_is_uint [OF assms(1)] sint_is_uint [OF assms(2)]
  have x: "0 \<le> sint a XOR sint b" "sint a XOR sint b < 2 ^ 63"
    using assms u XOR_upper [of "sint a" 63 "sint b"] by auto
  have "a XOR b = word_of_int (uint (a XOR b))" by simp
  also have "uint (a XOR b) = sint a XOR sint b" using u by (simp add: unsigned_xor_eq)
  finally show "sint (a XOR b) = sint a XOR sint b" using sint_int64 [OF x] by simp
  then show "0 \<le> sint (a XOR b)" using x by simp
qed

text \<open>The hash over unbounded integers, which the 64-bit hash computes without wrapping around.\<close>

definition exact_hash :: "64 word list \<Rightarrow> 64 word list list \<Rightarrow> nat \<Rightarrow> nat \<Rightarrow> int" where
  "exact_hash ms f i ngram =
     foldl (\<lambda>m p. m XOR sint (f ! p ! i) * sint (ms ! p)) (sint (f ! 0 ! i) * sint (ms ! 0)) [1..<ngram]"

lemma mixed_hash_exact:
  assumes "\<And>p. p < n \<Longrightarrow> 0 \<le> sint (f ! p ! i) \<and> 0 \<le> sint (ms ! p) \<and> sint (f ! p ! i) * sint (ms ! p) < 2 ^ 63"
    and "0 < n" "ngram \<le> n"
  shows "sint (mixed_hash ms f i ngram) = exact_hash ms f i ngram \<and> 0 \<le> exact_hash ms f i ngram"
proof -
  have prod: "sint (f ! p ! i * ms ! p) = sint (f ! p ! i) * sint (ms ! p)" "0 \<le> sint (f ! p ! i * ms ! p)" if "p < n" for p
    using assms(1) [OF that] sint_mult_exact by simp_all
  have "sint (foldl (\<lambda>mixed p. mixed XOR f ! p ! i * ms ! p) a ps)
        = foldl (\<lambda>m p. m XOR sint (f ! p ! i) * sint (ms ! p)) (sint a) ps
      \<and> 0 \<le> sint (foldl (\<lambda>mixed p. mixed XOR f ! p ! i * ms ! p) a ps)"
    if "0 \<le> sint a" "\<forall>p\<in>set ps. p < n" for a ps
    using that
  proof (induction ps arbitrary: a)
    case (Cons p ps)
    then show ?case
      using prod [of p] sint_xor [of a "f ! p ! i * ms ! p"] Cons.IH [of "a XOR f ! p ! i * ms ! p"] by simp
  qed simp
  from this [of "f ! 0 ! i * ms ! 0" "[1..<ngram]"] prod [of 0] assms(2,3) show ?thesis
    by (auto simp: mixed_hash_def exact_hash_def)
qed

text \<open>The heads of a position, in one row.\<close>

lemma concat_blocks:
  "concat (map (\<lambda>g. map (f g) [(g - 2) * k..<(g - 2) * k + k]) [2..<n + 2]) = map (\<lambda>h. f (h div k + 2) h) [0..<n * k]"
proof (induction n)
  case (Suc n)
  have "map (\<lambda>h. f (h div k + 2) h) [n * k..<n * k + k] = map (f (n + 2)) [n * k..<n * k + k]"
  proof (cases "k = 0")
    case False
    then have "h div k = n" if "n * k \<le> h" "h < n * k + k" for h
      using that by (metis add.commute div_nat_eqI mult.commute mult_Suc)
    then show ?thesis by (intro map_cong) auto
  qed simp
  moreover have "[0..<Suc n * k] = [0..<n * k] @ [n * k..<n * k + k]"
    by (metis add.commute le_add2 le0 mult_Suc upt_add_eq_append)
  ultimately show ?case using Suc by simp
qed simp

lemma head_ids_row:
  assumes "2 \<le> ngram_size L"
  shows "head_ids L shifted i
    = map (\<lambda>h. add64 (sint (mixed_hash (layer_multipliers L) shifted i (h div heads_per_ngram L + 2)) mod head_vocab_sizes L ! h)
                 (head_offsets L ! h)) [0..<(ngram_size L - 1) * heads_per_ngram L]"
proof -
  obtain m where m: "ngram_size L = Suc m" using assms by (cases "ngram_size L") auto
  then have "[2..<ngram_size L + 1] = [2..<m + 2]" "ngram_size L - 1 = m" by simp_all
  then show ?thesis
    unfolding head_ids_def Let_def
    using concat_blocks [of "\<lambda>g h. add64 (sint (mixed_hash (layer_multipliers L) shifted i g) mod head_vocab_sizes L ! h)
        (head_offsets L ! h)" "heads_per_ngram L" m] by simp
qed

text \<open>The sizes of the heads are primes, all different, also across layers.\<close>

lemma layout_sizes:
  assumes "new_layout Q vocab n k base idx dv sd = Inr L"
  shows "ngram_size L = n" "heads_per_ngram L = k" "ngram_heads L = (n - 1) * k" "context_len L = n - 1"
    and "length (head_vocab_sizes L) = (n - 1) * k" "length (head_offsets L) = (n - 1) * k"
    and "h < (n - 1) * k \<Longrightarrow> head_vocab_sizes L ! h = find_nth_prime_after (base - 1) (idx * ((n - 1) * k) + h + 1)"
    and "h < (n - 1) * k \<Longrightarrow> is_prime (head_vocab_sizes L ! h)"
    and "h < (n - 1) * k \<Longrightarrow> head_offsets L ! h = sum_list (take h (head_vocab_sizes L))"
    and "total_vocab_size L = sum_list (head_vocab_sizes L)"
    and "layer_multipliers L = build_layer_multipliers vocab n idx sd"
    and "padded_vocab_size L = Q (total_vocab_size L) dv * dv" "dv \<noteq> 0"
  using assms by (auto simp: new_layout_def Let_def nth_prime_is_prime split: if_splits)

lemma offset_bounds:
  assumes "new_layout Q vocab n k base idx dv sd = Inr L" "h < (n - 1) * k"
  shows "0 \<le> head_offsets L ! h" "head_offsets L ! h + head_vocab_sizes L ! h \<le> total_vocab_size L"
    "h + 1 < (n - 1) * k \<Longrightarrow> head_offsets L ! (h + 1) = head_offsets L ! h + head_vocab_sizes L ! h"
proof -
  note s = layout_sizes [OF assms(1)]
  have pos: "0 \<le> x" if x: "x \<in> set (head_vocab_sizes L)" for x
  proof -
    obtain j where "j < (n - 1) * k" "x = head_vocab_sizes L ! j" using x s(5) by (auto simp: in_set_conv_nth)
    then show ?thesis using s(8) [of j] is_prime_iff [of x] by simp
  qed
  show "0 \<le> head_offsets L ! h" unfolding s(9) [OF assms(2)] using pos by (auto intro!: sum_list_nonneg dest: in_set_takeD)
  have "head_vocab_sizes L = take (Suc h) (head_vocab_sizes L) @ drop (Suc h) (head_vocab_sizes L)" by simp
  then have "sum_list (head_vocab_sizes L)
      = sum_list (take (Suc h) (head_vocab_sizes L)) + sum_list (drop (Suc h) (head_vocab_sizes L))"
    by (metis sum_list_append)
  moreover have "0 \<le> sum_list (drop (Suc h) (head_vocab_sizes L))" using pos by (auto intro!: sum_list_nonneg dest: in_set_dropD)
  moreover have "sum_list (take (Suc h) (head_vocab_sizes L)) = head_offsets L ! h + head_vocab_sizes L ! h"
    using assms(2) s(5) by (simp add: s(9) [OF assms(2)] take_Suc_conv_app_nth)
  ultimately show "head_offsets L ! h + head_vocab_sizes L ! h \<le> total_vocab_size L" by (simp add: s(10))
  show "head_offsets L ! (h + 1) = head_offsets L ! h + head_vocab_sizes L ! h" if "h + 1 < (n - 1) * k"
    using that assms(2) s(5) by (simp add: s(9) take_Suc_conv_app_nth)
qed

lemma layers_share_no_size:
  assumes "new_layout Q vocab n k base i dv sd = Inr L" "new_layout Q' vocab' n k base j dv' sd' = Inr L'"
    "a < (n - 1) * k" "b < (n - 1) * k" "(i, a) \<noteq> (j, b)"
  shows "head_vocab_sizes L ! a \<noteq> head_vocab_sizes L' ! b"
proof
  define m where "m = (n - 1) * k"
  assume "head_vocab_sizes L ! a = head_vocab_sizes L' ! b"
  then have "find_nth_prime_after (base - 1) (i * m + a + 1) = find_nth_prime_after (base - 1) (j * m + b + 1)"
    using layout_sizes(7) [OF assms(1), of a] layout_sizes(7) [OF assms(2), of b] assms(3,4) by (simp add: m_def)
  then have e: "i * m + a = j * m + b"
    using strict_mono_eq [OF nth_prime_mono, of "base - 1" "i * m + a + 1" "j * m + b + 1"] by simp
  have m: "a < m" "b < m" using assms(3,4) by (simp_all add: m_def)
  have "i = (i * m + a) div m" "j = (j * m + b) div m" using m by simp_all
  with e have "i = j" by simp
  with e assms(5) show False by simp
qed

text \<open>The ids of a position: the id of a head is the exact hash of the tokens back, in the part of the table of
  the head.\<close>

definition exact_id :: "ngram_layout \<Rightarrow> 64 word \<Rightarrow> 64 word list \<Rightarrow> nat \<Rightarrow> nat \<Rightarrow> int" where
  "exact_id L eos xs i h =
     exact_hash (layer_multipliers L) (map (\<lambda>sh. map (token_back xs sh eos) [0..<length xs]) [0..<ngram_size L]) i
         (h div heads_per_ngram L + 2) mod head_vocab_sizes L ! h
       + head_offsets L ! h"

lemma ids_at_ranges:
  assumes L: "new_layout Q vocab n k base idx dv sd = Inr L" "2 \<le> n" "total_vocab_size L < 2 ^ 63"
    and tokens: "\<forall>t \<in> insert eos (set xs). 0 \<le> sint t \<and> sint t < vocab" and i: "i < length xs"
  shows "ids_at L eos xs i = map (exact_id L eos xs i) [0..<ngram_heads L]"
proof -
  note s = layout_sizes [OF L(1)]
  let ?f = "map (\<lambda>sh. shift_right_ignore_eos xs sh eos) [0..<n]"
  let ?g = "map (\<lambda>sh. map (token_back xs sh eos) [0..<length xs]) [0..<n]"
  have fg: "?f = ?g" by (auto simp: shift_right_is_token_back intro!: nth_equalityI)
  have tb: "token_back xs p eos i \<in> insert eos (set xs)" for p
    using i by (auto simp: token_back_def)
  have range: "0 \<le> sint (token_back xs p eos i) \<and> sint (token_back xs p eos i) < vocab" for p
    using tokens tb [of p] by blast
  have ok: "0 \<le> sint (?g ! p ! i) \<and> 0 \<le> sint (layer_multipliers L ! p) \<and> sint (?g ! p ! i) * sint (layer_multipliers L ! p) < 2 ^ 63"
    if p: "p < n" for p
  proof -
    have "sint (token_back xs p eos i) < 2 ^ 63" using sint_lt [of "token_back xs p eos i"] by simp
    with multiplier_product [OF p, of "sint (token_back xs p eos i)" vocab idx sd] range [of p] p i show ?thesis
      by (simp add: s(11))
  qed
  have "add64 (sint (mixed_hash (layer_multipliers L) ?g i (h div k + 2)) mod head_vocab_sizes L ! h) (head_offsets L ! h)
      = exact_hash (layer_multipliers L) ?g i (h div k + 2) mod head_vocab_sizes L ! h + head_offsets L ! h"
    if h: "h < (n - 1) * k" for h
  proof -
    have "h div k < n - 1" using h by (simp add: less_mult_imp_div_less)
    then have "h div k + 2 \<le> n" by simp
    then have e: "sint (mixed_hash (layer_multipliers L) ?g i (h div k + 2)) = exact_hash (layer_multipliers L) ?g i (h div k + 2)"
      using mixed_hash_exact [of n ?g i "layer_multipliers L" "h div k + 2"] ok L(2) by auto
    have pr: "2 \<le> head_vocab_sizes L ! h" using s(8) [OF h] is_prime_iff by blast
    let ?r = "exact_hash (layer_multipliers L) ?g i (h div k + 2) mod head_vocab_sizes L ! h"
    have "0 \<le> ?r" "?r < head_vocab_sizes L ! h" using pr by auto
    then have "0 \<le> ?r + head_offsets L ! h" "?r + head_offsets L ! h < 2 ^ 63"
      using offset_bounds(1,2) [OF L(1) h] L(3) by linarith+
    then show ?thesis unfolding e add64_def by (rule sint_int64)
  qed
  then show ?thesis using L(2)
    by (simp add: ids_at_def exact_id_def s(1-3) head_ids_row fg)
qed

lemma exact_id_range:
  assumes "new_layout Q vocab n k base idx dv sd = Inr L" "h < ngram_heads L"
  shows "0 \<le> exact_id L eos xs i h \<and> exact_id L eos xs i h < total_vocab_size L"
proof -
  note s = layout_sizes [OF assms(1)]
  have h: "h < (n - 1) * k" using assms(2) s(3) by simp
  have "0 < head_vocab_sizes L ! h" using s(8) [OF h] is_prime_iff [of "head_vocab_sizes L ! h"] by simp
  then have "0 \<le> x mod head_vocab_sizes L ! h \<and> x mod head_vocab_sizes L ! h < head_vocab_sizes L ! h" for x by simp
  with offset_bounds(1,2) [OF assms(1) h] show ?thesis
    unfolding exact_id_def by (smt (verit))
qed

section \<open>The feature\<close>

text \<open>\<open>table[idx]\<close>; a negative index counts from the end.\<close>

definition table_row :: "'f list list \<Rightarrow> int \<Rightarrow> py_error + 'f list" where
  "table_row table i =
     (let j = (if i < 0 then i + int (length table) else i)
      in if 0 \<le> j \<and> j < int (length table) then Inr (table ! nat j) else Inl IndexError)"

definition ngram_embeddings ::
    "64 word list \<Rightarrow> ngram_layout \<Rightarrow> 'f list list \<Rightarrow> 64 word list option \<Rightarrow> 64 word \<Rightarrow> py_error + 'f list list" where
  "ngram_embeddings ids L table previous_context eos =
     rbind (ngram_ids ids L previous_context eos)
       (rmap (\<lambda>row. rbind (rmap (table_row table) row) (\<lambda>rows. Inr (concat rows))))"

definition group_rmsnorm :: "'f mathlib \<Rightarrow> nat \<Rightarrow> 'f \<Rightarrow> 'f list \<Rightarrow> 'f::field list \<Rightarrow> py_error + 'f list" where
  "group_rmsnorm M d eps w x =
     rbind (heads_of_width d x) (\<lambda>xr.
       let inv = concat (map (\<lambda>g. let rms = m_sqrt M (sum_list (map (\<lambda>a. a * a) g) / of_nat (length g) + eps)
                                  in map (\<lambda>a. a * (1 / rms)) g) xr)
       in row_op (*) inv (map ((+) 1) w))"

definition clip_sigmoid :: "'f mathlib \<Rightarrow> 'f::linordered_field \<Rightarrow> 'f" where
  "clip_sigmoid M x = 1 / (1 + m_exp M (- (min (max x (- 30)) 30)))"

definition ple_gate :: "'f mathlib \<Rightarrow> nat \<Rightarrow> 'f::linordered_field list \<Rightarrow> 'f list \<Rightarrow> 'f" where
  "ple_gate M hs key query =
     (let gate = dot key query / m_sqrt M (of_nat hs)
      in m_pow M (max \<bar>gate\<bar> (1 / 10 ^ 6)) (1 / 2) * sgn gate)"

record 'f ple_weights =
  pw_table :: "'f list list"
  pw_key :: "'f list list"
  pw_value :: "'f list list"
  pw_conv :: "'f list list"
  pw_norm_key :: "'f list"
  pw_norm_query :: "'f list"
  pw_norm_conv :: "'f list"

text \<open>The gated value of one position.\<close>

definition gated_row ::
    "'f mathlib \<Rightarrow> nat \<Rightarrow> nat \<Rightarrow> 'f \<Rightarrow> 'f ple_weights \<Rightarrow> 'f::linordered_field list \<Rightarrow> 'f list \<Rightarrow> py_error + 'f list" where
  "gated_row M hc hs eps W hidden emb =
     rbind (project (pw_key W) emb) (\<lambda>k.
     rbind (group_rmsnorm M hs eps (pw_norm_key W) k) (\<lambda>k.
     rbind (heads hc hs k) (\<lambda>key_normed.
     rbind (project (pw_value W) emb) (\<lambda>v.
     rbind (group_rmsnorm M hs eps (pw_norm_query W) hidden) (\<lambda>q.
     rbind (heads hc hs q) (\<lambda>query_normed.
       let gated = concat (map2 (\<lambda>k q. map ((*) (clip_sigmoid M (ple_gate M hs k q))) v) key_normed query_normed)
       in if length gated = hc * hs then Inr gated else Inl ValueError))))))"

text \<open>
  \<open>_short_conv\<close>; the kernel of shape \<open>(C, 1, K)\<close> is the list of its \<open>C\<close> rows.  A state has a row for
  each channel.
\<close>

definition conv_history :: "nat \<Rightarrow> nat \<Rightarrow> 'f::zero list list option \<Rightarrow> py_error + 'f list list" where
  "conv_history c state_len conv_state =
     (case conv_state of
        None \<Rightarrow> Inr (replicate c (replicate state_len 0))
      | Some h \<Rightarrow> if length h = c \<and> list_all (\<lambda>r. length r = state_len) h then Inr h else Inl AssertionError)"

definition sliding_state :: "nat \<Rightarrow> 'f list list \<Rightarrow> 'f list list \<Rightarrow> 'f list list" where
  "sliding_state state_len old new = map2 (\<lambda>o' n. last_rows state_len (o' @ n)) old new"

definition short_conv ::
    "'f mathlib \<Rightarrow> 'f list list \<Rightarrow> nat \<Rightarrow> 'f list list option \<Rightarrow> 'f::linordered_field list list
     \<Rightarrow> py_error + 'f list list \<times> 'f list list" where
  "short_conv M gamma dilation conv_state x =
     (let K = length (hd gamma);
          c = (case x of [] \<Rightarrow> length gamma | r # _ \<Rightarrow> length r);
          state_len = (K - 1) * dilation
      in if K = 0 then Inl (if conv_state = None then ValueError else AssertionError)
         else rbind (conv_history c state_len conv_state) (\<lambda>history.
              rbind (channel_taps c gamma) (\<lambda>taps.
                let xt = map (\<lambda>ch. map (\<lambda>r. r ! ch) x) [0..<c];
                    xp = map2 (@) history xt;
                    out = map (\<lambda>s. map (\<lambda>ch. \<Sum>k<K. taps ! ch ! k * xp ! ch ! (k * dilation + s)) [0..<c]) [0..<length x]
                in Inr (map (map (\<lambda>a. a * clip_sigmoid M a)) out, sliding_state state_len history xt))))"

definition ple_feature ::
    "'f mathlib \<Rightarrow> nat \<Rightarrow> nat \<Rightarrow> 'f \<Rightarrow> nat \<Rightarrow> 'f ple_weights \<Rightarrow> 'f list list option
     \<Rightarrow> 'f::linordered_field list list \<Rightarrow> 'f list list \<Rightarrow> py_error + 'f list list \<times> 'f list list" where
  "ple_feature M hc hs eps dilation W conv_state hidden embeddings =
     rbind (rmap (\<lambda>p. gated_row M hc hs eps W (fst p) (snd p)) (zip hidden embeddings)) (\<lambda>flat.
     rbind (rmap (group_rmsnorm M hs eps (pw_norm_conv W)) flat) (\<lambda>flat_normed.
     rbind (short_conv M (pw_conv W) dilation conv_state flat_normed) (\<lambda>(out_conv, state).
     rbind (rmap (\<lambda>p. row_op (+) (fst p) (snd p)) (zip flat out_conv)) (\<lambda>out. Inr (out, state)))))"

section \<open>The layer\<close>

record 'f ple_cfg =
  pc_vocab_size :: int
  pc_ngram_size :: nat
  pc_heads_per_ngram :: nat
  pc_ngram_vocab_size_base :: int
  pc_make_divisible :: int
  pc_seed :: int
  pc_eos_token :: "64 word"
  pc_layer_ids :: "nat list"
  pc_hc_count :: nat
  pc_hidden :: nat
  pc_eps :: 'f

text \<open>\<open>tuple.index\<close>\<close>

fun index_of :: "'a \<Rightarrow> 'a list \<Rightarrow> py_error + nat" where
  "index_of v [] = Inl ValueError"
| "index_of v (w # ws) = (if v = w then Inr 0 else rbind (index_of v ws) (\<lambda>i. Inr (Suc i)))"

text \<open>\<open>_ple_forward\<close> for layer \<open>i\<close>: the feature, and the state of the convolution for the next chunk.\<close>

definition ple_forward ::
    "(int \<Rightarrow> int \<Rightarrow> int) \<Rightarrow> 'f mathlib \<Rightarrow> 'f ple_cfg \<Rightarrow> 'f ple_weights \<Rightarrow> nat \<Rightarrow> 'f list list option \<Rightarrow> 64 word list option
     \<Rightarrow> 64 word list \<Rightarrow> 'f::linordered_field list list \<Rightarrow> py_error + 'f list list \<times> 'f list list" where
  "ple_forward ceil_quot M C W i ple_conv prev_ctx ple_ids hyper =
     rbind (index_of (i + 1) (pc_layer_ids C)) (\<lambda>index.
     rbind (new_layout ceil_quot (pc_vocab_size C) (pc_ngram_size C) (pc_heads_per_ngram C) (pc_ngram_vocab_size_base C) index
              (pc_make_divisible C) (pc_seed C)) (\<lambda>layout.
     rbind (ngram_embeddings ple_ids layout (pw_table W) prev_ctx (pc_eos_token C)) (\<lambda>embs.
       ple_feature M (pc_hc_count C) (pc_hidden C) (pc_eps C) (pc_ngram_size C) W ple_conv hyper embs)))"

section \<open>Lemmas on chunks\<close>

lemma rmap_zip_append:
  assumes "length xs = length ys" "rmap f (zip xs ys) = Inr a" "rmap f (zip xs' ys') = Inr b"
  shows "rmap f (zip (xs @ xs') (ys @ ys')) = Inr (a @ b)"
  using assms by (simp add: rmap_append)

lemma conv_history_rows:
  assumes "conv_history c n st = Inr h"
  shows "length h = c" "\<forall>r\<in>set h. length r = n"
  using assms by (auto simp: conv_history_def list_all_iff split: option.splits if_splits)

text \<open>The convolution of a chunk, from the state the chunk before left.\<close>

lemma short_conv_chunks:
  assumes K: "2 \<le> length (hd gamma)" "0 < d" and ne: "xs \<noteq> []" "ys \<noteq> []" and w: "\<forall>r\<in>set (xs @ ys). length r = c"
    and x: "short_conv M gamma d st xs = Inr (a, st1)" and y: "short_conv M gamma d (Some st1) ys = Inr (b, st2)"
  shows "short_conv M gamma d st (xs @ ys) = Inr (a @ b, st2)"
proof -
  let ?K = "length (hd gamma)"
  define n where "n = (?K - 1) * d"
  have K0: "?K \<noteq> 0" "0 < n" using K by (auto simp: n_def)
  define col where "col zs ch = map (\<lambda>r. r ! ch) zs" for zs :: "'a list list" and ch
  have chan: "(case zs of [] \<Rightarrow> length gamma | r # _ \<Rightarrow> length r) = c" if "zs \<noteq> []" "\<forall>r\<in>set zs. length r = c" for zs :: "'a list list"
    using that by (cases zs) auto
  have cs: "(case xs of [] \<Rightarrow> length gamma | r # _ \<Rightarrow> length r) = c" "(case ys of [] \<Rightarrow> length gamma | r # _ \<Rightarrow> length r) = c"
    "(case xs @ ys of [] \<Rightarrow> length gamma | r # _ \<Rightarrow> length r) = c"
    using ne w by (intro chan; auto)+
  define out where "out taps xp m = map (map (\<lambda>v. v * clip_sigmoid M v))
      (map (\<lambda>s. map (\<lambda>ch. \<Sum>k<?K. taps ! ch ! k * xp ! ch ! (k * d + s)) [0..<c]) [0..<m])"
    for taps :: "'a list list" and xp :: "'a list list" and m
  have step: "short_conv M gamma d s zs = rbind (conv_history c n s) (\<lambda>h. rbind (channel_taps c gamma) (\<lambda>taps.
      Inr (out taps (map2 (@) h (map (col zs) [0..<c])) (length zs), sliding_state n h (map (col zs) [0..<c]))))"
    if "(case zs of [] \<Rightarrow> length gamma | r # _ \<Rightarrow> length r) = c" for s zs
    using K0 that by (simp add: short_conv_def Let_def n_def out_def col_def [abs_def])
  obtain h taps where h: "conv_history c n st = Inr h" and t: "channel_taps c gamma = Inr taps"
    and a: "a = out taps (map2 (@) h (map (col xs) [0..<c])) (length xs)"
    and st1: "st1 = sliding_state n h (map (col xs) [0..<c])"
    using x unfolding step [OF cs(1)] by (auto simp: rbind_Inr_iff)
  note hr = conv_history_rows [OF h]
  have s1: "st1 = map (\<lambda>ch. drop (length xs) (h ! ch @ col xs ch)) [0..<c]"
    using hr K0(2) by (auto simp: st1 sliding_state_def last_rows_def col_def intro!: nth_equalityI)
  have h1: "conv_history c n (Some st1) = Inr st1"
    using hr by (auto simp: conv_history_def s1 list_all_iff col_def)
  have b: "b = out taps (map2 (@) st1 (map (col ys) [0..<c])) (length ys)"
    and st2: "st2 = sliding_state n st1 (map (col ys) [0..<c])"
    using y unfolding step [OF cs(2)] h1 t by auto
  let ?xp = "map2 (@) h (map (col (xs @ ys)) [0..<c])"
  have xp: "?xp ! ch = h ! ch @ col xs ch @ col ys ch" if "ch < c" for ch
    using that hr by (simp add: col_def)
  have len: "k * d < n + 1" if "k < ?K" for k
  proof -
    have "k * d \<le> (?K - 1) * d" using that by (intro mult_right_mono) auto
    then show ?thesis unfolding n_def by linarith
  qed
  have first: "map2 (@) h (map (col xs) [0..<c]) ! ch ! (k * d + s) = ?xp ! ch ! (k * d + s)"
    if "ch < c" "k < ?K" "s < length xs" for ch k s
  proof -
    have "k * d + s < n + length xs" using that(3) len [OF that(2)] by linarith
    moreover have "length (h ! ch @ col xs ch) = n + length xs" using that(1) hr by (simp add: col_def)
    ultimately have "(h ! ch @ col xs ch) ! (k * d + s) = ((h ! ch @ col xs ch) @ col ys ch) ! (k * d + s)"
      by (simp only: nth_append if_True)
    then show ?thesis using that(1) hr xp [of ch] by (simp add: col_def)
  qed
  have second: "map2 (@) st1 (map (col ys) [0..<c]) ! ch ! (k * d + s) = ?xp ! ch ! (k * d + (length xs + s))"
    if "ch < c" "k < ?K" for ch k s
  proof -
    have l: "length (h ! ch @ col xs ch) = n + length xs" using that hr by (simp add: col_def)
    have e: "map2 (@) st1 (map (col ys) [0..<c]) ! ch = drop (length xs) (?xp ! ch)"
      using that hr xp [of ch] by (simp add: s1 col_def)
    have "length xs \<le> length (?xp ! ch)" using l unfolding xp [OF that(1)] by simp
    then show ?thesis unfolding e by (simp add: add.left_commute)
  qed
  define cell where "cell xp s = map (\<lambda>ch. (\<lambda>v. v * clip_sigmoid M v) (\<Sum>k<?K. taps ! ch ! k * xp ! ch ! (k * d + s))) [0..<c]"
    for xp s
  have out: "out taps xp m = map (cell xp) [0..<m]" for xp m by (simp add: out_def cell_def)
  have "cell (map2 (@) h (map (col xs) [0..<c])) s = cell ?xp s" if s: "s < length xs" for s
  proof -
    have "(\<Sum>k<?K. taps ! ch ! k * map2 (@) h (map (col xs) [0..<c]) ! ch ! (k * d + s)) = (\<Sum>k<?K. taps ! ch ! k * ?xp ! ch ! (k * d + s))"
      if "ch < c" for ch using first [OF that _ s] by (intro sum.cong) auto
    then show ?thesis unfolding cell_def by (intro map_upt_cong) (simp only:)
  qed
  then have a': "a = map (cell ?xp) [0..<length xs]" unfolding a out by (rule map_upt_cong)
  have "cell (map2 (@) st1 (map (col ys) [0..<c])) s = cell ?xp (length xs + s)" for s
  proof -
    have "(\<Sum>k<?K. taps ! ch ! k * map2 (@) st1 (map (col ys) [0..<c]) ! ch ! (k * d + s))
        = (\<Sum>k<?K. taps ! ch ! k * ?xp ! ch ! (k * d + (length xs + s)))"
      if "ch < c" for ch using second [OF that] by (intro sum.cong) auto
    then show ?thesis unfolding cell_def by (intro map_upt_cong) (simp only:)
  qed
  then have b': "b = map (\<lambda>s. cell ?xp (length xs + s)) [0..<length ys]" unfolding b out by (rule map_upt_cong)
  have "[0..<length (xs @ ys)] = [0..<length xs] @ map ((+) (length xs)) [0..<length ys]"
    by (rule nth_equalityI) (auto simp: nth_append)
  then have "out taps ?xp (length (xs @ ys)) = a @ b" unfolding out a' b' by (simp only: map_append map_map o_def)
  moreover have "sliding_state n h (map (col (xs @ ys)) [0..<c]) = st2"
  proof (rule nth_equalityI)
    show "length (sliding_state n h (map (col (xs @ ys)) [0..<c])) = length st2"
      using hr by (simp add: st2 s1 sliding_state_def)
    fix ch assume "ch < length (sliding_state n h (map (col (xs @ ys)) [0..<c]))"
    then have ch: "ch < c" using hr by (simp add: sliding_state_def)
    let ?all = "h ! ch @ col xs ch @ col ys ch"
    have l: "length (h ! ch) = n" "length (col xs ch) = length xs" "length (col ys ch) = length ys"
      using ch hr by (simp_all add: col_def)
    have "sliding_state n h (map (col (xs @ ys)) [0..<c]) ! ch = last_rows n ?all"
      using ch hr xp [OF ch] by (simp add: sliding_state_def)
    also have "\<dots> = drop (length ys) (drop (length xs) ?all)"
    proof -
      have "length ?all - n = length ys + length xs" using l by simp
      then show ?thesis using K0(2) by (simp add: last_rows_def del: drop_append)
    qed
    also have "drop (length xs) ?all = st1 ! ch @ col ys ch" using ch l by (simp add: s1)
    also have "drop (length ys) (st1 ! ch @ col ys ch) = st2 ! ch"
    proof -
      have "length (st1 ! ch) = n" "length st1 = c" using ch l by (simp_all add: s1)
      then show ?thesis using ch K0(2) l by (simp add: st2 sliding_state_def last_rows_def)
    qed
    finally show "sliding_state n h (map (col (xs @ ys)) [0..<c]) ! ch = st2 ! ch" .
  qed
  ultimately show ?thesis using h t unfolding step [OF cs(3)] by simp
qed

lemma row_op_length:
  assumes "row_op f x y = Inr z" "length x = n" "n \<noteq> 1"
  shows "length z = n"
  using assms by (auto simp: row_op_def split: if_splits)

lemma concat_same_length:
  assumes "\<forall>x\<in>set xs. length (f x) = length x"
  shows "length (concat (map f xs)) = length (concat xs)"
  using assms by (induction xs) auto

lemma heads_of_width_flat:
  assumes "heads_of_width d x = Inr hs"
  shows "length (concat hs) = length x"
proof -
  have d: "length x = length x div d * d" "hs = map (\<lambda>h. take d (drop (h * d) x)) [0..<length x div d]"
    using assms by (auto simp: heads_of_width_def heads_def split: if_splits)
  have "length (concat (map (\<lambda>h. take d (drop (h * d) x)) [0..<n])) = n * d" if "n * d \<le> length x" for n
    using that by (induction n) auto
  then show ?thesis using d by simp
qed

lemma group_rmsnorm_length:
  assumes "group_rmsnorm M d eps w x = Inr y" "length x \<noteq> 1"
  shows "length y = length x"
proof -
  obtain hs where h: "heads_of_width d x = Inr hs"
    and r: "row_op (*) (concat (map (\<lambda>g. let rms = m_sqrt M (sum_list (map (\<lambda>a. a * a) g) / of_nat (length g) + eps)
                                          in map (\<lambda>a. a * (1 / rms)) g) hs)) (map ((+) 1) w) = Inr y"
    using assms(1) by (auto simp: group_rmsnorm_def rbind_Inr_iff Let_def)
  have "length (concat (map (\<lambda>g. let rms = m_sqrt M (sum_list (map (\<lambda>a. a * a) g) / of_nat (length g) + eps)
                                 in map (\<lambda>a. a * (1 / rms)) g) hs)) = length x"
    unfolding heads_of_width_flat [OF h, symmetric] by (rule concat_same_length) (simp add: Let_def)
  from row_op_length [OF r this assms(2)] show ?thesis .
qed

lemma gated_row_length: "gated_row M hc hs eps W h e = Inr r \<Longrightarrow> length r = hc * hs"
  by (auto simp: gated_row_def rbind_Inr_iff Let_def split: if_splits)

lemma short_conv_lengths:
  assumes "short_conv M gamma d st xs = Inr (a, st')"
  shows "length a = length xs"
  using assms by (auto simp: short_conv_def Let_def rbind_Inr_iff split: if_splits)

lemma ple_feature_chunks:
  assumes K: "2 \<le> length (hd (pw_conv W))" "0 < d" and wide: "hc * hs \<noteq> 1"
    and ne: "hx \<noteq> []" "hy \<noteq> []" and l: "length hx = length ex" "length hy = length ey"
    and x: "ple_feature M hc hs eps d W st hx ex = Inr (a, st1)"
    and y: "ple_feature M hc hs eps d W (Some st1) hy ey = Inr (b, st2)"
  shows "ple_feature M hc hs eps d W st (hx @ hy) (ex @ ey) = Inr (a @ b, st2)"
proof -
  let ?g = "\<lambda>p. gated_row M hc hs eps W (fst p) (snd p)" and ?r = "group_rmsnorm M hs eps (pw_norm_conv W)"
    and ?p = "\<lambda>p. row_op (+) (fst p) (snd p)"
  obtain fx nx cx where x': "rmap ?g (zip hx ex) = Inr fx" "rmap ?r fx = Inr nx"
    "short_conv M (pw_conv W) d st nx = Inr (cx, st1)" "rmap ?p (zip fx cx) = Inr a"
    using x by (auto simp: ple_feature_def rbind_Inr_iff)
  obtain fy ny cy where y': "rmap ?g (zip hy ey) = Inr fy" "rmap ?r fy = Inr ny"
    "short_conv M (pw_conv W) d (Some st1) ny = Inr (cy, st2)" "rmap ?p (zip fy cy) = Inr b"
    using y by (auto simp: ple_feature_def rbind_Inr_iff)
  have g: "rmap ?g (zip (hx @ hy) (ex @ ey)) = Inr (fx @ fy)" by (rule rmap_zip_append [OF l(1) x'(1) y'(1)])
  have r: "rmap ?r (fx @ fy) = Inr (nx @ ny)" using x'(2) y'(2) by (simp add: rmap_append)
  have lens: "length nx = length fx" "length fx = length hx" "length ny = length fy" "length fy = length hy"
    using rmap_length [OF x'(1)] rmap_length [OF x'(2)] rmap_length [OF y'(1)] rmap_length [OF y'(2)] l by auto
  have flat: "length f = hc * hs" if "f \<in> set (fx @ fy)" for f
    using rmap_member [OF g that] gated_row_length by blast
  have rows: "\<forall>r\<in>set (nx @ ny). length r = hc * hs"
  proof
    fix r' assume "r' \<in> set (nx @ ny)"
    from rmap_member [OF r this] obtain f where "f \<in> set (fx @ fy)" "?r f = Inr r'" by blast
    with group_rmsnorm_length [of M hs eps "pw_norm_conv W" f r'] flat [of f] wide show "length r' = hc * hs" by simp
  qed
  have c: "short_conv M (pw_conv W) d st (nx @ ny) = Inr (cx @ cy, st2)"
    by (rule short_conv_chunks [OF K _ _ rows x'(3) y'(3)]) (use lens ne in auto)
  have "length fx = length cx" using short_conv_lengths [OF x'(3)] lens by simp
  from rmap_zip_append [OF this x'(4) y'(4)] show ?thesis using g r c by (simp add: ple_feature_def)
qed

lemma embeddings_chunks:
  assumes "2 \<le> ngram_size L" "context_len L = ngram_size L - 1" "xs \<noteq> []" "ys \<noteq> []"
    and "ngram_embeddings xs L table ctx eos = Inr a"
    "ngram_embeddings ys L table (Some (next_context (ngram_size L) ctx xs)) eos = Inr b"
  shows "ngram_embeddings (xs @ ys) L table ctx eos = Inr (a @ b)"
proof -
  obtain i j where "ngram_ids xs L ctx eos = Inr i" "ngram_ids ys L (Some (next_context (ngram_size L) ctx xs)) eos = Inr j"
    and m: "rmap (\<lambda>row. rbind (rmap (table_row table) row) (\<lambda>rows. Inr (concat rows))) i = Inr a"
      "rmap (\<lambda>row. rbind (rmap (table_row table) row) (\<lambda>rows. Inr (concat rows))) j = Inr b"
    using assms(5,6) by (auto simp: ngram_embeddings_def rbind_Inr_iff)
  from ngram_ids_chunks [OF assms(1-4) this(1,2)] m show ?thesis
    by (simp add: ngram_embeddings_def rmap_append)
qed

lemma embeddings_length:
  assumes "ngram_embeddings ids L table ctx eos = Inr e" "ids \<noteq> []"
  shows "2 \<le> ngram_size L \<and> length e = length ids"
proof -
  obtain rows where r: "ngram_ids ids L ctx eos = Inr rows" and e: "length e = length rows"
    using assms(1) rmap_length by (fastforce simp: ngram_embeddings_def rbind_Inr_iff)
  have n: "2 \<le> ngram_size L" using r by (auto simp: ngram_ids_def Let_def split: if_splits)
  with ngram_ids_at [OF n assms(2), of ctx eos] r e show ?thesis by auto
qed

lemma ple_forward_chunks:
  assumes x: "ple_forward Q M C W i st ctx xs hx = Inr (a, st1)"
    and y: "ple_forward Q M C W i (Some st1) (Some (next_context (pc_ngram_size C) ctx xs)) ys hy = Inr (b, st2)"
    and ne: "xs \<noteq> []" "ys \<noteq> []" and l: "length hx = length xs" "length hy = length ys"
    and K: "2 \<le> length (hd (pw_conv W))" and hc: "2 \<le> pc_hc_count C"
  shows "ple_forward Q M C W i st ctx (xs @ ys) (hx @ hy) = Inr (a @ b, st2)"
proof -
  obtain index L ex where L: "index_of (i + 1) (pc_layer_ids C) = Inr index"
    "new_layout Q (pc_vocab_size C) (pc_ngram_size C) (pc_heads_per_ngram C) (pc_ngram_vocab_size_base C) index
       (pc_make_divisible C) (pc_seed C) = Inr L"
    and ex: "ngram_embeddings xs L (pw_table W) ctx (pc_eos_token C) = Inr ex"
    and fx: "ple_feature M (pc_hc_count C) (pc_hidden C) (pc_eps C) (pc_ngram_size C) W st hx ex = Inr (a, st1)"
    using x by (auto simp: ple_forward_def rbind_Inr_iff)
  obtain ey where ey: "ngram_embeddings ys L (pw_table W) (Some (next_context (pc_ngram_size C) ctx xs)) (pc_eos_token C) = Inr ey"
    and fy: "ple_feature M (pc_hc_count C) (pc_hidden C) (pc_eps C) (pc_ngram_size C) W (Some st1) hy ey = Inr (b, st2)"
    using y L by (auto simp: ple_forward_def rbind_Inr_iff)
  have n: "ngram_size L = pc_ngram_size C" "context_len L = ngram_size L - 1"
    using layout_sizes(1,4) [OF L(2)] by simp_all
  have ln: "2 \<le> ngram_size L" "length ex = length xs" "length ey = length ys"
    using embeddings_length [OF ex ne(1)] embeddings_length [OF ey ne(2)] by auto
  have e: "ngram_embeddings (xs @ ys) L (pw_table W) ctx (pc_eos_token C) = Inr (ex @ ey)"
    using embeddings_chunks [OF ln(1) n(2) ne ex] ey by (simp add: n(1))
  have wide: "pc_hc_count C * pc_hidden C \<noteq> 1" using hc by auto
  have "ple_feature M (pc_hc_count C) (pc_hidden C) (pc_eps C) (pc_ngram_size C) W st (hx @ hy) (ex @ ey) = Inr (a @ b, st2)"
    by (rule ple_feature_chunks [OF K _ wide _ _ _ _ fx fy]) (use ln n ne l in auto)
  with L e show ?thesis by (simp add: ple_forward_def)
qed

text \<open>
  With a single tap the state has no columns, and a slice from minus zero keeps them all: the state the
  first chunk leaves is refused by the next.
\<close>

lemma single_tap_state_grows:
  assumes "length (hd gamma) = 1" "xs \<noteq> []" "ys \<noteq> []" "\<forall>r\<in>set (xs @ ys). length r = c" "0 < c"
    and "short_conv M gamma d st xs = Inr (a, st1)"
  shows "short_conv M gamma d (Some st1) ys = Inl AssertionError"
proof -
  obtain x xs' y ys' where xy: "xs = x # xs'" "ys = y # ys'" "length x = c" "length y = c"
    using assms(2-4) by (cases xs; cases ys) auto
  obtain h where h: "conv_history c 0 st = Inr h" "st1 = sliding_state 0 h (map (\<lambda>ch. map (\<lambda>r. r ! ch) xs) [0..<c])"
    using assms(1,6) xy by (auto simp: short_conv_def Let_def rbind_Inr_iff)
  have len: "length st1 = c" "length (st1 ! 0) = length xs"
    using conv_history_rows [OF h(1)] assms(5) unfolding h(2) by (auto simp: sliding_state_def last_rows_def)
  then have "st1 ! 0 \<in> set st1" using assms(5) by simp
  then have "\<not> list_all (\<lambda>r. length r = 0) st1" using len(2) assms(2) by (force simp: list_all_iff)
  then have "conv_history c 0 (Some st1) = Inl AssertionError" by (simp add: conv_history_def)
  then show ?thesis using assms(1) xy by (simp add: short_conv_def Let_def)
qed

section \<open>The properties\<close>

text \<open>
  C39: n-gram ids index the table.  For tokens of the vocabulary every head of every position gets an
  id in its own part of the table: the parts follow each other from the start, their sizes are primes
  and they end before the padded size, so that no lookup is out of range; the id is computed from the
  hash over unbounded integers, which means the 64-bit arithmetic does not wrap around.
\<close>

theorem ngram_ids_in_table:
  assumes L: "new_layout Q vocab n k base idx dv sd = Inr L" "2 \<le> n" "0 < dv" "total_vocab_size L < 2 ^ 53"
    and exact: "\<And>a b. 0 \<le> a \<Longrightarrow> a < 2 ^ 53 \<Longrightarrow> 0 < b \<Longrightarrow> Q a b = ceil_div a b"
    and tokens: "\<forall>t \<in> set (eos # ids @ (case ctx of None \<Rightarrow> [] | Some c \<Rightarrow> c)). 0 \<le> sint t \<and> sint t < vocab"
    and ne: "ids \<noteq> []"
  shows "\<exists>rows. ngram_ids ids L ctx eos = Inr rows
    \<and> rows = map (\<lambda>i. map (exact_id L eos (context_of L eos ctx @ ids) (length (context_of L eos ctx) + i)) [0..<ngram_heads L])
                 [0..<length ids]
    \<and> (\<forall>row \<in> set rows. \<forall>h < ngram_heads L. is_prime (head_vocab_sizes L ! h) \<and> head_offsets L ! h \<le> row ! h
         \<and> row ! h < head_offsets L ! h + head_vocab_sizes L ! h \<and> 0 \<le> row ! h \<and> row ! h < padded_vocab_size L)
    \<and> (\<forall>h. h + 1 < ngram_heads L \<longrightarrow> head_offsets L ! (h + 1) = head_offsets L ! h + head_vocab_sizes L ! h)
    \<and> (length table = nat (padded_vocab_size L) \<longrightarrow> (\<exists>e. ngram_embeddings ids L table ctx eos = Inr e))"
proof -
  note s = layout_sizes [OF L(1)]
  let ?xs = "context_of L eos ctx @ ids" and ?c = "length (context_of L eos ctx)"
  define rows where "rows = map (\<lambda>i. map (exact_id L eos ?xs (?c + i)) [0..<ngram_heads L]) [0..<length ids]"
  have toks: "\<forall>t \<in> insert eos (set ?xs). 0 \<le> sint t \<and> sint t < vocab"
    using tokens by (auto simp: context_of_def split: option.splits)
  have "map (\<lambda>i. ids_at L eos ?xs (?c + i)) [0..<length ids] = rows"
    unfolding rows_def using ids_at_ranges [OF L(1,2) _ toks] L(4) by (intro map_upt_cong) auto
  then have ids: "ngram_ids ids L ctx eos = Inr rows" using ngram_ids_at [of L ids ctx eos] L(2) ne s(1) by simp
  have tot: "0 \<le> total_vocab_size L"
    unfolding s(10) using s(8) is_prime_iff s(5) by (force intro!: sum_list_nonneg simp: in_set_conv_nth)
  have pad: "total_vocab_size L \<le> padded_vocab_size L"
    using ceil_div_bounds(1) [OF L(3), of "total_vocab_size L"] exact [OF tot L(4,3)] by (simp add: s(12))
  have entry: "is_prime (head_vocab_sizes L ! h) \<and> head_offsets L ! h \<le> exact_id L eos ?xs i h
      \<and> exact_id L eos ?xs i h < head_offsets L ! h + head_vocab_sizes L ! h \<and> 0 \<le> exact_id L eos ?xs i h
      \<and> exact_id L eos ?xs i h < padded_vocab_size L" if h: "h < ngram_heads L" for i h
  proof -
    have p: "is_prime (head_vocab_sizes L ! h)" using s(3,8) h by simp
    then have "0 < head_vocab_sizes L ! h" using is_prime_iff by fastforce
    with p exact_id_range [OF L(1) h, of eos ?xs i] pad show ?thesis by (simp add: exact_id_def)
  qed
  have "\<exists>e. ngram_embeddings ids L table ctx eos = Inr e" if t: "length table = nat (padded_vocab_size L)"
  proof -
    have "table_row table v = Inr (table ! nat v)" if "0 \<le> v" "v < padded_vocab_size L" for v
      using that t by (simp add: table_row_def)
    then have "rbind (rmap (table_row table) row) (\<lambda>r. Inr (concat r)) = Inr (concat (map (\<lambda>v. table ! nat v) row))"
      if "row \<in> set rows" for row
      using that entry by (subst rmap_all_Inr [where g = "\<lambda>v. table ! nat v"]) (auto simp: rows_def)
    then show ?thesis unfolding ngram_embeddings_def ids by (simp add: rmap_all_Inr)
  qed
  moreover have "\<forall>h. h + 1 < ngram_heads L \<longrightarrow> head_offsets L ! (h + 1) = head_offsets L ! h + head_vocab_sizes L ! h"
    using offset_bounds(3) [OF L(1)] by (simp add: s(3))
  ultimately show ?thesis using ids entry by (auto simp: rows_def)
qed

definition toy_layout_of :: "py_error + ngram_layout" where
  "toy_layout_of = new_layout ceil_div 8 3 1 3 1 4 5"

theorem ngram_ids_in_table_witness:
  "\<exists>L rows. toy_layout_of = Inr L \<and> head_vocab_sizes L = [7, 11] \<and> ngram_ids [1, 2] L None 0 = Inr rows
    \<and> (\<forall>row \<in> set rows. row ! 1 < 18)"
proof -
  have "case toy_layout_of of Inr L \<Rightarrow> total_vocab_size L = 18 \<and> head_vocab_sizes L = [7, 11] \<and> head_offsets L = [0, 7]
      \<and> ngram_heads L = 2 | _ \<Rightarrow> False"
    by code_simp
  then obtain L where L: "toy_layout_of = Inr L" "total_vocab_size L = 18" "head_vocab_sizes L = [7, 11]"
    "head_offsets L = [0, 7]" "ngram_heads L = 2"
    by (auto split: sum.splits)
  obtain rows where "ngram_ids [1, 2] L None 0 = Inr rows"
    "\<forall>row\<in>set rows. \<forall>h<ngram_heads L. row ! h < head_offsets L ! h + head_vocab_sizes L ! h"
    using ngram_ids_in_table [OF L(1) [unfolded toy_layout_of_def], of 0 "[1, 2]" None "[] :: unit list list"] L(2) by auto
  with L show ?thesis by (intro exI [of _ L] exI [of _ rows]) (auto dest!: spec [of _ "1 :: nat"] bspec)
qed

text \<open>
  C40: the layer of the n-gram embedding streams.  A prompt processed in two chunks, with the state of
  the convolution and the trailing tokens the driver keeps, gives the outputs and the final state of
  the prompt processed at once.
\<close>

theorem ple_layer_streams:
  assumes "ple_forward Q M C W i st ctx xs hx = Inr (a, st1)"
    and "ple_forward Q M C W i (Some st1) (Some (next_context (pc_ngram_size C) ctx xs)) ys hy = Inr (b, st2)"
    and "xs \<noteq> []" "ys \<noteq> []" "length hx = length xs" "length hy = length ys"
    and "2 \<le> length (hd (pw_conv W))" "2 \<le> pc_hc_count C"
  shows "ple_forward Q M C W i st ctx (xs @ ys) (hx @ hy) = Inr (a @ b, st2)"
  by (rule ple_forward_chunks) (rule assms)+

definition toy_ple_cfg :: "rat ple_cfg" where
  "toy_ple_cfg = \<lparr>pc_vocab_size = 8, pc_ngram_size = 2, pc_heads_per_ngram = 1, pc_ngram_vocab_size_base = 3,
     pc_make_divisible = 1, pc_seed = 0, pc_eos_token = 0, pc_layer_ids = [1], pc_hc_count = 2, pc_hidden = 1, pc_eps = 1\<rparr>"

definition toy_ple_weights :: "rat ple_weights" where
  "toy_ple_weights = \<lparr>pw_table = [[1], [2], [3]], pw_key = [[1], [2]], pw_value = [[1]], pw_conv = [[1, 2], [3, 1]],
     pw_norm_key = [0, 0], pw_norm_query = [0, 0], pw_norm_conv = [0, 1]\<rparr>"

definition toy_chunk ::
    "rat list list option \<Rightarrow> 64 word list option \<Rightarrow> 64 word list \<Rightarrow> rat list list \<Rightarrow> py_error + rat list list \<times> rat list list" where
  "toy_chunk = ple_forward ceil_div flat_math toy_ple_cfg toy_ple_weights 0"

theorem ple_layer_streams_witness:
  "\<exists>a b st1 st2. toy_chunk None None [1] [[1, 2]] = Inr (a, st1)
    \<and> toy_chunk (Some st1) (Some [1]) [2, 0] [[1, 1], [2, 0]] = Inr (b, st2)
    \<and> toy_chunk None None [1, 2, 0] [[1, 2], [1, 1], [2, 0]] = Inr (a @ b, st2)"
proof -
  have "case toy_chunk None None [1] [[1, 2]] of
      Inr (a, st1) \<Rightarrow> (case toy_chunk (Some st1) (Some [1]) [2, 0] [[1, 1], [2, 0]] of Inr _ \<Rightarrow> True | _ \<Rightarrow> False)
    | _ \<Rightarrow> False"
    by code_simp
  then obtain a st1 where r1: "toy_chunk None None [1] [[1, 2]] = Inr (a, st1)"
    and "case toy_chunk (Some st1) (Some [1]) [2, 0] [[1, 1], [2, 0]] of Inr _ \<Rightarrow> True | _ \<Rightarrow> False"
    by (auto split: sum.splits prod.splits)
  then obtain b st2 where "toy_chunk (Some st1) (Some [1]) [2, 0] [[1, 1], [2, 0]] = Inr (b, st2)"
    by (cases "toy_chunk (Some st1) (Some [1]) [2, 0] [[1, 1], [2, 0]]") auto
  note r = r1 this
  have "next_context (pc_ngram_size toy_ple_cfg) None [1 :: 64 word] = [1]" by code_simp
  with r ple_layer_streams [of ceil_div flat_math toy_ple_cfg toy_ple_weights 0 None None "[1]" "[[1, 2]]" a st1
      "[2, 0]" "[[1, 1], [2, 0]]" b st2]
  have "toy_chunk None None ([1] @ [2, 0]) ([[1, 2]] @ [[1, 1], [2, 0]]) = Inr (a @ b, st2)"
    by (simp add: toy_chunk_def toy_ple_weights_def toy_ple_cfg_def)
  with r show ?thesis by auto
qed

end
