(* ===== verification/HttpServer.thy ===== *)
theory HttpServer
  imports Facade Utf8 EnvConfig
begin

text \<open>
  The HTTP front end, \<open>serving/server.py\<close>: what its handler answers to a request.  The parsing of
  request lines and headers, sockets and threads are those of \<open>http.server\<close>; a request comes as its
  path, its two headers that matter, and the bytes that follow on the connection, and every answer
  says whether the connection stays open and which bytes are left on it.

  The engine behind the handler is the record \<open>http_engine\<close>, the four methods the handler calls.  A
  client that goes away during a stream, which ends it silently, is left out.  Numbers of a body are
  those of an ordered field: the NaN and the infinities that \<open>float\<close> also yields are not among them (a
  NaN temperature would pass the check \<open>temperature < 0\<close>).
\<close>

section \<open>Requests and answers\<close>

text \<open>
  An exception with its message, \<open>InvalidRequestError\<close> of a handler or \<open>JSONDecodeError\<close> of \<open>json.loads\<close>, or
  another one.
\<close>

datatype http_exc = Invalid pystr | Exc py_error

record reply =
  rp_status :: int
  rp_headers :: "(pystr \<times> pystr) list"
  rp_body :: "int list"
  rp_close :: bool

text \<open>
  \<open>json.loads\<close>, \<open>int\<close> and \<open>float\<close> of the numbers in a body, the texts of exceptions, a fresh id and the
  time.  An overflowing \<open>int\<close> is an error of \<open>float_int\<close>.
\<close>

record 'f http_lib =
  parse_json :: "pystr \<Rightarrow> http_exc + pv"
  float_int :: "pystr \<Rightarrow> py_error + int"
  to_float :: "pv \<Rightarrow> py_error + 'f"
  exc_text :: "py_error \<Rightarrow> pystr"
  fresh_id :: pystr
  now :: int

record gen_limits =
  gl_max_new :: int
  gl_top_k :: "int option"
  gl_seed :: "int option"

record 'f gen_params = gen_limits +
  gp_temperature :: 'f
  gp_top_p :: "'f option"

type_synonym 'a served = "(py_error + 'a) option"

text \<open>The events of a stream and the exception that ends it early.\<close>

type_synonym token_stream = "int event list \<times> py_error option"

record 'f http_engine =
  he_chat :: "'f gen_params \<Rightarrow> pv \<Rightarrow> pv list \<Rightarrow> completion served"
  he_chat_stream :: "'f gen_params \<Rightarrow> pv \<Rightarrow> pv list \<Rightarrow> token_stream served"
  he_complete :: "'f gen_params \<Rightarrow> pystr \<Rightarrow> completion served"
  he_complete_stream :: "'f gen_params \<Rightarrow> pystr \<Rightarrow> token_stream served"

record http_server =
  hs_model_name :: "pystr option"
  hs_recipe_id :: "pystr option"
  hs_default_max_new :: "int option"
  hs_started_at :: int
  hs_slots :: nat
  hs_socket_timeout :: int

text \<open>\<open>create_server\<close>: the slots of the connection semaphore and the socket timeout.\<close>

definition create_server ::
    "(pystr, pystr) dict \<Rightarrow> pystr list option \<Rightarrow> pystr option \<Rightarrow> pystr option \<Rightarrow> int option \<Rightarrow> int
     \<Rightarrow> py_error + http_server" where
  "create_server environ file name recipe_id default_max started =
     rbind (env_get_int environ file (lit ''SLLM_MAX_CONNECTIONS'') 64) (\<lambda>n.
     rbind (env_get_int environ file (lit ''SLLM_SOCKET_TIMEOUT'') 60) (\<lambda>t.
       Inr \<lparr>hs_model_name = name, hs_recipe_id = recipe_id, hs_default_max_new = default_max, hs_started_at = started,
            hs_slots = nat (max 1 n), hs_socket_timeout = t\<rparr>))"

definition first_text :: "pystr option \<Rightarrow> pystr \<Rightarrow> pystr" where
  "first_text s dflt = (case s of Some (c # cs) \<Rightarrow> c # cs | _ \<Rightarrow> dflt)"

definition model_name :: "http_server \<Rightarrow> pystr" where
  "model_name S = first_text (hs_model_name S) (first_text (hs_recipe_id S) (lit ''sllm''))"

section \<open>Answers\<close>

definition http_error :: "int \<Rightarrow> pystr \<Rightarrow> pv" where
  "http_error status message =
     PDict [(lit ''error'', PDict [(lit ''message'', PStr message), (lit ''type'', PStr (lit ''invalid_request_error'')),
                                   (lit ''code'', PStr (int_str status))])]"

definition server_error :: "pystr \<Rightarrow> pv" where
  "server_error message =
     PDict [(lit ''error'', PDict [(lit ''message'', PStr message), (lit ''type'', PStr (lit ''server_error'')),
                                   (lit ''code'', PStr (lit ''500''))])]"

definition send_json :: "int \<Rightarrow> pv \<Rightarrow> bool \<Rightarrow> py_error + reply" where
  "send_json status obj close =
     rbind (utf8_encode (json_dumps obj)) (\<lambda>body.
       Inr \<lparr>rp_status = status,
            rp_headers = [(lit ''Content-Type'', lit ''application/json; charset=utf-8''),
                          (lit ''Content-Length'', int_str (int (length body)))]
                         @ (if close then [(lit ''Connection'', lit ''close'')] else []),
            rp_body = body, rp_close = close\<rparr>)"

text \<open>\<open>retry_after\<close> of \<open>SaturatedError\<close> keeps its default.\<close>

definition send_saturated :: "pystr \<Rightarrow> py_error + reply" where
  "send_saturated message =
     rbind (utf8_encode (json_dumps (http_error 429 message))) (\<lambda>body.
       Inr \<lparr>rp_status = 429,
            rp_headers = [(lit ''Content-Type'', lit ''application/json; charset=utf-8''), (lit ''Retry-After'', lit ''1''),
                          (lit ''Content-Length'', int_str (int (length body)))],
            rp_body = body, rp_close = False\<rparr>)"

definition sse_frame :: "pv \<Rightarrow> pystr" where
  "sse_frame obj = lit ''data: '' @ json_dumps obj @ [10, 10]"

definition sse_done :: pystr where
  "sse_done = lit ''data: [DONE]'' @ [10, 10]"

definition stream_error :: "'f http_lib \<Rightarrow> py_error \<Rightarrow> pv" where
  "stream_error L e = server_error (lit ''stream error: '' @ exc_text L e)"

text \<open>
  The frames of a stream.  Encoding a frame can fail like the events themselves, which is reported in
  a last frame.  Where that frame cannot be encoded either, the exception leaves the stream, \<open>Inl\<close>; the
  status line that \<open>do_POST\<close> then writes into it is left out.
\<close>

fun sse_body :: "'f http_lib \<Rightarrow> pv list \<Rightarrow> py_error option \<Rightarrow> py_error + int list" where
  "sse_body L [] None = Inr []"
| "sse_body L [] (Some e) = utf8_encode (sse_frame (stream_error L e))"
| "sse_body L (c # cs) err =
     (case utf8_encode (sse_frame c) of
        Inl e \<Rightarrow> utf8_encode (sse_frame (stream_error L e))
      | Inr frame \<Rightarrow> rbind (sse_body L cs err) (\<lambda>rest. Inr (frame @ rest)))"

definition send_sse :: "'f http_lib \<Rightarrow> pv list \<times> py_error option \<Rightarrow> py_error + reply" where
  "send_sse L evs =
     rbind (sse_body L (fst evs) (snd evs)) (\<lambda>body.
     rbind (utf8_encode sse_done) (\<lambda>done.
       Inr \<lparr>rp_status = 200,
            rp_headers = [(lit ''Content-Type'', lit ''text/event-stream; charset=utf-8''),
                          (lit ''Cache-Control'', lit ''no-cache''), (lit ''Connection'', lit ''close'')],
            rp_body = body @ done, rp_close = True\<rparr>))"

section \<open>Parameters of a request\<close>

fun int_param :: "'f http_lib \<Rightarrow> pv \<Rightarrow> py_error + int" where
  "int_param L (PInt i) = Inr i"
| "int_param L (PBool b) = Inr (if b then 1 else 0)"
| "int_param L (PStr s) = int_of_str s"
| "int_param L (PFloat r) = float_int L r"
| "int_param L _ = Inl TypeError"

text \<open>\<open>ValueError\<close> and its subclasses\<close>

definition value_error :: "py_error \<Rightarrow> bool" where
  "value_error e \<longleftrightarrow>
     e \<in> {ValueError, InvalidRequestError, RecipeError, ShardError, SafetensorsError, CheckpointError, TopologyError}"

definition or_invalid :: "string \<Rightarrow> py_error + 'a \<Rightarrow> http_exc + 'a" where
  "or_invalid message r =
     (case r of
        Inl e \<Rightarrow> Inl (if e = TypeError \<or> value_error e then Invalid (lit message) else Exc e)
      | Inr x \<Rightarrow> Inr x)"

definition body_get :: "(pystr, pv) dict \<Rightarrow> string \<Rightarrow> pv \<Rightarrow> pv" where
  "body_get body key dflt = (case dget body (lit key) of None \<Rightarrow> dflt | Some v \<Rightarrow> v)"

definition optional_param :: "(pv \<Rightarrow> py_error + 'a) \<Rightarrow> pv \<Rightarrow> py_error + 'a option" where
  "optional_param f v = (if v = PNone then Inr None else rbind (f v) (\<lambda>x. Inr (Some x)))"

definition common ::
    "'f http_lib \<Rightarrow> http_server \<Rightarrow> (pystr, pv) dict \<Rightarrow> http_exc + 'f::linordered_field gen_params" where
  "common L S body =
     (let default_max = (case hs_default_max_new S of None \<Rightarrow> 16 | Some n \<Rightarrow> n) in
      rbind (or_invalid ''max_tokens must be an integer''
               (int_param L (body_get body ''max_tokens'' (body_get body ''max_new'' (PInt default_max))))) (\<lambda>max_tokens.
      if max_tokens < 1 then Inl (Invalid (lit ''max_tokens must be >= 1''))
      else rbind (or_invalid ''temperature must be a number''
                    (to_float L (body_get body ''temperature'' (PFloat (lit ''0.0''))))) (\<lambda>temperature.
      if temperature < 0 then Inl (Invalid (lit ''temperature must be >= 0''))
      else or_invalid ''top_p/top_k/seed must be numeric''
        (rbind (optional_param (to_float L) (body_get body ''top_p'' PNone)) (\<lambda>top_p.
         rbind (optional_param (int_param L) (body_get body ''top_k'' PNone)) (\<lambda>top_k.
         rbind (optional_param (int_param L) (body_get body ''seed'' PNone)) (\<lambda>seed.
           Inr \<lparr>gl_max_new = max_tokens, gl_top_k = top_k, gl_seed = seed, gp_temperature = temperature,
                gp_top_p = top_p\<rparr>)))))))"

section \<open>The calls of the engine\<close>

text \<open>The result of a call, \<open>None\<close> when it does not return.\<close>

definition raised :: "'a served \<Rightarrow> (http_exc + 'a) option" where
  "raised r = map_option (\<lambda>x. case x of Inl e \<Rightarrow> Inl (Exc e) | Inr y \<Rightarrow> Inr y) r"

definition chat_messages :: "(pystr, pv) dict \<Rightarrow> http_exc + pv list" where
  "chat_messages body =
     (case body_get body ''messages'' PNone of
        PList (m # ms) \<Rightarrow> Inr (m # ms)
      | _ \<Rightarrow> Inl (Invalid (lit ''messages must be a non-empty list'')))"

definition completion_prompt :: "(pystr, pv) dict \<Rightarrow> http_exc + pystr" where
  "completion_prompt body =
     (case body_get body ''prompt'' PNone of
        PStr s \<Rightarrow> Inr s
      | _ \<Rightarrow> Inl (Invalid (lit ''prompt must be a string'')))"

definition call_chat ::
    "('f::linordered_field gen_params \<Rightarrow> pv \<Rightarrow> pv list \<Rightarrow> 'a served) \<Rightarrow> 'f http_lib \<Rightarrow> http_server \<Rightarrow> (pystr, pv) dict
     \<Rightarrow> (http_exc + 'a) option" where
  "call_chat f L S body =
     (case rbind (chat_messages body) (\<lambda>ms. rbind (common L S body) (\<lambda>P. Inr (ms, P))) of
        Inl e \<Rightarrow> Some (Inl e)
      | Inr (ms, P) \<Rightarrow> raised (f P (body_get body ''add_generation_prompt'' (PBool True)) ms))"

definition call_completion ::
    "('f::linordered_field gen_params \<Rightarrow> pystr \<Rightarrow> 'a served) \<Rightarrow> 'f http_lib \<Rightarrow> http_server \<Rightarrow> (pystr, pv) dict
     \<Rightarrow> (http_exc + 'a) option" where
  "call_completion f L S body =
     (case rbind (completion_prompt body) (\<lambda>p. rbind (common L S body) (\<lambda>P. Inr (p, P))) of
        Inl e \<Rightarrow> Some (Inl e)
      | Inr (p, P) \<Rightarrow> raised (f P p))"

definition reason_text :: "reason \<Rightarrow> pystr" where
  "reason_text r = (case r of Stop \<Rightarrow> lit ''stop'' | Length \<Rightarrow> lit ''length'' | Abort \<Rightarrow> lit ''abort'')"

definition requested_model :: "http_server \<Rightarrow> (pystr, pv) dict \<Rightarrow> pv" where
  "requested_model S body =
     (let m = body_get body ''model'' PNone in if truthy m then m else PStr (model_name S))"

text \<open>The object of a completion; \<open>is_chat\<close> says which of the two.\<close>

definition completion_object :: "'f http_lib \<Rightarrow> http_server \<Rightarrow> bool \<Rightarrow> (pystr, pv) dict \<Rightarrow> completion \<Rightarrow> pv" where
  "completion_object L S is_chat body d =
     PDict [(lit ''id'', PStr (lit (if is_chat then ''chatcmpl-'' else ''cmpl-'') @ fresh_id L)),
            (lit ''object'', PStr (lit (if is_chat then ''chat.completion'' else ''text_completion''))),
            (lit ''created'', PInt (now L)), (lit ''model'', requested_model S body),
            (lit ''choices'', PList [PDict
               [(lit ''index'', PInt 0),
                (if is_chat then (lit ''message'', PDict [(lit ''role'', PStr (lit ''assistant'')), (lit ''content'', PStr (c_text d))])
                 else (lit ''text'', PStr (c_text d))),
                (lit ''finish_reason'', PStr (reason_text (finish_reason d)))]]),
            (lit ''usage'', PDict [(lit ''prompt_tokens'', PInt (prompt_len d)),
                                   (lit ''completion_tokens'', PInt (completion_len d)),
                                   (lit ''total_tokens'', PInt (prompt_len d + completion_len d))])]"

section \<open>Streams\<close>

text \<open>One chunk of \<open>_stream_common\<close>, with the delta of its choice.\<close>

definition stream_chunk :: "'f http_lib \<Rightarrow> bool \<Rightarrow> pv \<Rightarrow> pv \<Rightarrow> pv \<Rightarrow> pv" where
  "stream_chunk L is_chat model delta reason =
     PDict [(lit ''id'', PStr (lit (if is_chat then ''chatcmpl-'' else ''cmpl-'') @ fresh_id L)),
            (lit ''object'', PStr (lit (if is_chat then ''chat.completion.chunk'' else ''text_completion''))),
            (lit ''created'', PInt (now L)), (lit ''model'', model),
            (lit ''choices'', PList [PDict
               [(lit ''index'', PInt 0), (lit (if is_chat then ''delta'' else ''text''), delta),
                (lit ''finish_reason'', reason)]])]"

definition opening_delta :: "bool \<Rightarrow> pv" where
  "opening_delta is_chat =
     (if is_chat then PDict [(lit ''role'', PStr (lit ''assistant'')), (lit ''content'', PStr [])] else PStr [])"

definition text_delta :: "bool \<Rightarrow> pystr \<Rightarrow> pv" where
  "text_delta is_chat s = (if is_chat then PDict [(lit ''content'', PStr s)] else PStr s)"

definition empty_delta :: "bool \<Rightarrow> pv" where
  "empty_delta is_chat = (if is_chat then PDict [] else PStr [])"

fun stream_chunks :: "'f http_lib \<Rightarrow> bool \<Rightarrow> pv \<Rightarrow> bool \<Rightarrow> int event list \<Rightarrow> pv list" where
  "stream_chunks L is_chat model first [] = []"
| "stream_chunks L is_chat model first ((delta, reason) # evs) =
     (if first then [stream_chunk L is_chat model (opening_delta is_chat) PNone] else [])
     @ (if delta \<noteq> [] then [stream_chunk L is_chat model (text_delta is_chat delta) PNone] else [])
     @ (case reason of None \<Rightarrow> [] | Some r \<Rightarrow> [stream_chunk L is_chat model (empty_delta is_chat) (PStr (reason_text r))])
     @ stream_chunks L is_chat model False evs"

definition stream_common ::
    "'f http_lib \<Rightarrow> http_server \<Rightarrow> bool \<Rightarrow> (pystr, pv) dict \<Rightarrow> token_stream \<Rightarrow> pv list \<times> py_error option" where
  "stream_common L S is_chat body evs = (stream_chunks L is_chat (requested_model S body) True (fst evs), snd evs)"

section \<open>The text facade as an engine\<close>

text \<open>
  \<open>InferenceEngine\<close> behind the handler.  A message that is no dict has no \<open>get\<close>; that the scan for images
  stops at the first one, before a later message of that kind, is left out.
\<close>

fun dict_messages :: "pv list \<Rightarrow> py_error + msg list" where
  "dict_messages [] = Inr []"
| "dict_messages (PDict m # ms) = rbind (dict_messages ms) (\<lambda>r. Inr (m # r))"
| "dict_messages (_ # ms) = Inl AttributeError"

definition sampling_of :: "'f::linordered_field gen_params \<Rightarrow> 'f sampling" where
  "sampling_of P = \<lparr>temperature = Some (gp_temperature P), top_k = gl_top_k P, top_p = gp_top_p P, repetition = None,
                    seed = gl_seed P\<rparr>"

definition facade_http ::
    "pylib \<Rightarrow> (vision_args \<Rightarrow> pv \<Rightarrow> (py_error + 'px list list list list \<times> int \<times> int \<times> int \<times> int) option)
     \<Rightarrow> ('f::linordered_field, 'g) numpy \<Rightarrow> ('c, 'f, 'px) engine_facade \<Rightarrow> 'f http_engine" where
  "facade_http L load N E =
     \<lparr>he_chat = (\<lambda>P g ms. case dict_messages ms of
          Inl e \<Rightarrow> Some (Inl e)
        | Inr msgs \<Rightarrow> chat_detail L load N E (sampling_of P) (gl_max_new P) (truthy g) msgs),
      he_chat_stream = (\<lambda>P g ms. case dict_messages ms of
          Inl e \<Rightarrow> Some (Inr ([], Some e))
        | Inr msgs \<Rightarrow> map_option Inr (stream_chat L load N E (sampling_of P) (gl_max_new P) (truthy g) msgs)),
      he_complete = (\<lambda>P prompt. Some (complete_detail N E (sampling_of P) (gl_max_new P) prompt)),
      he_complete_stream = (\<lambda>P prompt. Some (Inr (stream_complete N E (sampling_of P) (gl_max_new P) prompt)))\<rparr>"

section \<open>The handlers\<close>

definition chat_path :: pystr where
  "chat_path = lit ''/v1/chat/completions''"

definition completion_path :: pystr where
  "completion_path = lit ''/v1/completions''"

definition not_found :: "py_error + reply" where
  "not_found = send_json 404 (http_error 404 (lit ''not found'')) False"

text \<open>The \<open>except\<close> clauses of \<open>do_POST\<close>.\<close>

definition error_reply :: "'f http_lib \<Rightarrow> http_exc \<Rightarrow> py_error + reply" where
  "error_reply L x =
     (case x of
        Invalid m \<Rightarrow> send_json 400 (http_error 400 m) False
      | Exc e \<Rightarrow>
          if e = SaturatedError then send_saturated (exc_text L e)
          else if e = KeyError \<or> e = RankOwnership \<or> e = TypeError \<or> value_error e
          then send_json 400 (http_error 400 (exc_text L e)) False
          else send_json 500 (server_error (lit ''internal error: '' @ exc_text L e)) False)"

text \<open>
  The body of the \<open>try\<close> of \<open>do_POST\<close>, for the parsed body, and the sending of its result.  The answer of
  the engine is encoded after the \<open>try\<close>.
\<close>

definition serve_body ::
    "'f::linordered_field http_lib \<Rightarrow> http_server \<Rightarrow> 'f http_engine \<Rightarrow> pystr \<Rightarrow> pv \<Rightarrow> (py_error + reply) option" where
  "serve_body L S E path v =
     (case v of
        PDict body \<Rightarrow>
          if truthy (body_get body ''stream'' PNone) then
            if path = chat_path \<or> path = completion_path then
              map_option (\<lambda>r. case r of Inl x \<Rightarrow> error_reply L x
                            | Inr evs \<Rightarrow> send_sse L (stream_common L S (path = chat_path) body evs))
                (if path = chat_path then call_chat (he_chat_stream E) L S body
                 else call_completion (he_complete_stream E) L S body)
            else Some not_found
          else if path = chat_path \<or> path = completion_path then
            map_option (\<lambda>r. case r of Inl x \<Rightarrow> error_reply L x
                          | Inr d \<Rightarrow> send_json 200 (completion_object L S (path = chat_path) body d) False)
              (if path = chat_path then call_chat (he_chat E) L S body
               else call_completion (he_complete E) L S body)
          else Some not_found
      | _ \<Rightarrow> Some (error_reply L (Invalid (lit ''request body must be a JSON object''))))"

definition MAX_BODY_BYTES :: int where
  "MAX_BODY_BYTES = 33554432"

text \<open>\<open>int(self.headers.get("Content-Length") or 0)\<close>\<close>

definition content_length :: "pystr option \<Rightarrow> py_error + int" where
  "content_length h = (case h of Some (c # cs) \<Rightarrow> int_of_str (c # cs) | _ \<Rightarrow> Inr 0)"

text \<open>\<open>lower\<close>; a header is Latin-1, whose other letters do not become ASCII letters.\<close>

definition ascii_lower :: "pystr \<Rightarrow> pystr" where
  "ascii_lower s = map (\<lambda>c. if 65 \<le> c \<and> c \<le> 90 then c + 32 else c) s"

text \<open>
  \<open>do_POST\<close>: the answer, or the exception that leaves the handler, and the bytes left on the
  connection.  When there are fewer bytes than announced, \<open>rfile.read(length)\<close> gives what there is if the
  client closed its side; if it only stalls, the socket times out, which the handler answers as an error
  of the server.  After a timeout the library reads nothing more from the socket.
\<close>

definition do_POST ::
    "'f::linordered_field http_lib \<Rightarrow> http_server \<Rightarrow> 'f http_engine \<Rightarrow> pystr \<Rightarrow> pystr option \<Rightarrow> pystr option \<Rightarrow> bool \<Rightarrow> int list
     \<Rightarrow> ((py_error + reply) \<times> int list) option" where
  "do_POST L S E path length_header transfer stalls input =
     (case content_length length_header of
        Inl _ \<Rightarrow> Some (send_json 400 (http_error 400 (lit ''invalid Content-Length'')) True, input)
      | Inr n \<Rightarrow>
          if str_in (lit ''chunked'') (ascii_lower (case transfer of None \<Rightarrow> [] | Some t \<Rightarrow> t)) then
            Some (send_json 411 (http_error 411 (lit ''chunked Transfer-Encoding is not supported'')) True, input)
          else if n \<le> 0 then Some (send_json 400 (http_error 400 (lit ''empty body'')) False, input)
          else if n > MAX_BODY_BYTES then
            Some (send_json 413 (http_error 413 (lit ''body exceeds '' @ int_str MAX_BODY_BYTES @ lit '' bytes'')) True, input)
          else if stalls \<and> length input < nat n then Some (error_reply L (Exc TimeoutError), [])
          else map_option (\<lambda>r. (r, drop (nat n) input))
            (case utf8_decode (take (nat n) input) of
               Inl e \<Rightarrow> Some (send_json 400 (http_error 400 (lit ''invalid JSON: '' @ exc_text L e)) False)
             | Inr s \<Rightarrow>
                 (case parse_json L s of
                    Inl (Invalid m) \<Rightarrow> Some (send_json 400 (http_error 400 (lit ''invalid JSON: '' @ m)) False)
                  | Inl (Exc e) \<Rightarrow> Some (error_reply L (Exc e))
                  | Inr v \<Rightarrow> serve_body L S E path v)))"

text \<open>
  \<open>close_connection\<close>: \<open>http.server\<close> sets it for HTTP/1.0 and for a \<open>Connection: close\<close> of the client, resets
  it for a \<open>keep-alive\<close>, and sets it when the answer has the header \<open>Connection: close\<close>.
\<close>

definition client_closes :: "nat \<times> nat \<Rightarrow> pystr option \<Rightarrow> bool" where
  "client_closes version connection_header =
     (let conntype = ascii_lower (case connection_header of None \<Rightarrow> [] | Some t \<Rightarrow> t)
      in if conntype = lit ''close'' then True
         else if conntype = lit ''keep-alive'' then False
         else fst version < 1 \<or> fst version = 1 \<and> snd version < 1)"

definition connection_closes :: "nat \<times> nat \<Rightarrow> pystr option \<Rightarrow> reply \<Rightarrow> bool" where
  "connection_closes version connection_header r \<longleftrightarrow> client_closes version connection_header \<or> rp_close r"

text \<open>\<open>path.rstrip("/")\<close>; the path of the target before \<open>?\<close> and \<open>#\<close> is the parameter.\<close>

definition get_path :: "pystr \<Rightarrow> pystr" where
  "get_path p = (if p = lit ''/'' then p else rev (dropWhile (\<lambda>c. c = 47) (rev p)))"

definition do_GET :: "http_server \<Rightarrow> pystr \<Rightarrow> py_error + reply" where
  "do_GET S url_path =
     (let path = get_path url_path in
      if path = lit ''/health'' then
        send_json 200 (PDict [(lit ''status'', PStr (lit ''ok'')), (lit ''model'', PStr (model_name S))]) False
      else if path = lit ''/v1/models'' then
        send_json 200 (PDict [(lit ''object'', PStr (lit ''list'')),
          (lit ''data'', PList [PDict [(lit ''id'', PStr (model_name S)), (lit ''object'', PStr (lit ''model'')),
             (lit ''created'', PInt (hs_started_at S)), (lit ''owned_by'', PStr (lit ''sllm''))]])]) False
      else not_found)"

text \<open>
  \<open>handle_one_request\<close>: a slot of the semaphore is held while a request is handled, and given back
  whatever the handler does; without a slot the connection is refused.  The first result is the
  semaphore afterwards.
\<close>

definition handle_one_request :: "nat \<Rightarrow> (nat \<Rightarrow> nat \<times> 'a) \<Rightarrow> nat \<times> ((py_error + reply) + 'a)" where
  "handle_one_request free handler =
     (if free = 0 then (free, Inl (send_json 503 (http_error 503 (lit ''server at capacity'')) True))
      else case handler (free - 1) of (free', r) \<Rightarrow> (free' + 1, Inr r))"

section \<open>Lemmas on answers\<close>

text \<open>What an answer says about the connection: its close is announced, and a body that does not end
  with the connection has its length.\<close>

definition framed :: "reply \<Rightarrow> bool" where
  "framed r \<longleftrightarrow>
     (rp_close r \<longleftrightarrow> (lit ''Connection'', lit ''close'') \<in> set (rp_headers r))
     \<and> (\<not> rp_close r \<longrightarrow> (lit ''Content-Length'', int_str (int (length (rp_body r)))) \<in> set (rp_headers r))"

lemma header_names:
  "lit ''Connection'' \<noteq> lit ''Content-Type''" "lit ''Connection'' \<noteq> lit ''Content-Length''"
  "lit ''Connection'' \<noteq> lit ''Retry-After''" "lit ''Connection'' \<noteq> lit ''Cache-Control''"
  by code_simp+

lemma send_json_framed:
  assumes "send_json status obj close = Inr r"
  shows "framed r \<and> rp_close r = close \<and> rp_status r = status"
  using assms by (auto simp: send_json_def rbind_Inr_iff framed_def header_names)

lemma send_saturated_framed: "send_saturated m = Inr r \<Longrightarrow> framed r \<and> \<not> rp_close r \<and> rp_status r = 429"
  by (auto simp: send_saturated_def rbind_Inr_iff framed_def header_names)

lemma error_reply_framed:
  assumes "error_reply L x = Inr r"
  shows "framed r \<and> \<not> rp_close r \<and> rp_status r \<in> {400, 429, 500}"
  using assms send_json_framed [of _ _ False r] send_saturated_framed [of _ r]
  by (auto simp: error_reply_def split: http_exc.splits if_splits)

lemma send_sse_framed: "send_sse L evs = Inr r \<Longrightarrow> framed r \<and> rp_close r \<and> rp_status r = 200"
  by (auto simp: send_sse_def rbind_Inr_iff framed_def header_names)

lemma answered_framed:
  assumes "(case x of Inl e \<Rightarrow> error_reply L e | Inr y \<Rightarrow> f y) = Inr r" and "\<And>y. f y = Inr r \<Longrightarrow> framed r"
  shows "framed r"
  using assms error_reply_framed by (cases x) auto

lemma serve_body_framed:
  assumes "serve_body L S E path v = Some (Inr r)"
  shows "framed r"
  using assms
  by (auto simp: serve_body_def not_found_def split: pv.splits if_splits elim!: answered_framed
           dest: send_sse_framed send_json_framed error_reply_framed)

lemma do_POST_framed:
  assumes "do_POST L S E path lh tr stalls input = Some (Inr r, rest)"
  shows "framed r \<and> (\<not> rp_close r \<longrightarrow>
      (\<exists>n. content_length lh = Inr n \<and> n \<le> MAX_BODY_BYTES \<and> rest = (if n < 0 then input else drop (nat n) input)
         \<and> (n \<le> 0 \<longrightarrow> rp_status r = 400))
      \<and> \<not> str_in (lit ''chunked'') (ascii_lower (case tr of None \<Rightarrow> [] | Some t \<Rightarrow> t)))"
proof (cases "content_length lh")
  case (Inl e)
  with assms show ?thesis
    by (auto simp: do_POST_def dest: send_json_framed)
next
  case (Inr n)
  show ?thesis
  proof (cases "str_in (lit ''chunked'') (ascii_lower (case tr of None \<Rightarrow> [] | Some t \<Rightarrow> t)) \<or> n \<le> 0
                \<or> n > MAX_BODY_BYTES")
    case True
    with assms Inr show ?thesis
      by (auto simp: do_POST_def MAX_BODY_BYTES_def dest: send_json_framed split: if_splits)
  next
    case False
    then have "framed r \<and> rest = drop (nat n) input"
      using assms Inr serve_body_framed [of L S E path _ r] error_reply_framed [of L _ r]
      by (auto simp: do_POST_def dest: send_json_framed split: if_splits sum.splits http_exc.splits)
    with False Inr show ?thesis by auto
  qed
qed

lemma slot_given_back:
  assumes "\<And>n. fst (handler n) = n"
  shows "fst (handle_one_request free handler) = free"
  using assms [of "free - 1"] by (auto simp: handle_one_request_def split: prod.split)

section \<open>Lemmas on parameters\<close>

text \<open>What the handler promises the engine.\<close>

definition valid_params :: "'f::linordered_field gen_params \<Rightarrow> bool" where
  "valid_params P \<longleftrightarrow> 1 \<le> gl_max_new P \<and> 0 \<le> gp_temperature P"

lemma or_invalid_Inr_iff [simp]: "or_invalid m r = Inr x \<longleftrightarrow> r = Inr x"
  by (simp add: or_invalid_def split: sum.split)

lemma common_valid:
  assumes "common L S body = Inr P"
  shows "valid_params P"
  using assms by (auto simp: common_def Let_def rbind_Inr_iff valid_params_def split: if_splits)

lemma chat_messages_nonempty: "chat_messages body = Inr ms \<Longrightarrow> ms \<noteq> []"
  by (auto simp: chat_messages_def split: pv.splits list.splits)

lemma call_chat_cong:
  assumes "\<And>P g ms. valid_params P \<Longrightarrow> ms \<noteq> [] \<Longrightarrow> f P g ms = f' P g ms"
  shows "call_chat f L S body = call_chat f' L S body"
proof -
  have "f P (body_get body ''add_generation_prompt'' (PBool True)) ms = f' P (body_get body ''add_generation_prompt'' (PBool True)) ms"
    if "rbind (chat_messages body) (\<lambda>ms. rbind (common L S body) (\<lambda>P. Inr (ms, P))) = Inr (ms, P)" for P ms
    using that chat_messages_nonempty common_valid by (intro assms) (auto simp: rbind_Inr_iff)
  then show ?thesis unfolding call_chat_def
    by (cases "rbind (chat_messages body) (\<lambda>ms. rbind (common L S body) (\<lambda>P. Inr (ms, P)))") auto
qed

lemma call_completion_cong:
  assumes "\<And>P prompt. valid_params P \<Longrightarrow> f P prompt = f' P prompt"
  shows "call_completion f L S body = call_completion f' L S body"
proof -
  have "f P s = f' P s"
    if "rbind (completion_prompt body) (\<lambda>p. rbind (common L S body) (\<lambda>P. Inr (p, P))) = Inr (s, P)" for P s
    using that common_valid by (intro assms) (auto simp: rbind_Inr_iff)
  then show ?thesis unfolding call_completion_def
    by (cases "rbind (completion_prompt body) (\<lambda>p. rbind (common L S body) (\<lambda>P. Inr (p, P)))") auto
qed

lemma do_POST_cong:
  assumes "\<And>P g ms. valid_params P \<Longrightarrow> ms \<noteq> [] \<Longrightarrow> he_chat E P g ms = he_chat E' P g ms"
    and "\<And>P g ms. valid_params P \<Longrightarrow> ms \<noteq> [] \<Longrightarrow> he_chat_stream E P g ms = he_chat_stream E' P g ms"
    and "\<And>P prompt. valid_params P \<Longrightarrow> he_complete E P prompt = he_complete E' P prompt"
    and "\<And>P prompt. valid_params P \<Longrightarrow> he_complete_stream E P prompt = he_complete_stream E' P prompt"
  shows "do_POST L S E path lh tr stalls input = do_POST L S E' path lh tr stalls input"
proof -
  have "call_chat (he_chat E) L S body = call_chat (he_chat E') L S body"
    "call_chat (he_chat_stream E) L S body = call_chat (he_chat_stream E') L S body"
    "call_completion (he_complete E) L S body = call_completion (he_complete E') L S body"
    "call_completion (he_complete_stream E) L S body = call_completion (he_complete_stream E') L S body" for body
    by (blast intro: call_chat_cong call_completion_cong assms)+
  then have "serve_body L S E path v = serve_body L S E' path v" for v
    by (simp add: serve_body_def split: pv.split)
  then have same: "serve_body L S E path = serve_body L S E' path" by (rule ext)
  show ?thesis unfolding do_POST_def same ..
qed

text \<open>
  Where the code answers otherwise than its comments say: a request with a negative length keeps its
  unread bytes on a connection that stays open; an infinite \<open>max_tokens\<close> is an error of the server; a
  message that is no dict is one too.
\<close>

lemma negative_length_keeps_open:
  assumes "content_length lh = Inr n" "n < 0" "\<not> str_in (lit ''chunked'') (ascii_lower (case tr of None \<Rightarrow> [] | Some t \<Rightarrow> t))"
  shows "do_POST L S E path lh tr stalls input = Some (send_json 400 (http_error 400 (lit ''empty body'')) False, input)"
  using assms by (simp add: do_POST_def)

lemma infinite_length_is_internal_error:
  assumes "dget body (lit ''max_tokens'') = Some (PFloat (lit ''inf''))" "float_int L (lit ''inf'') = Inl OverflowError"
  shows "common L S body = Inl (Exc OverflowError)"
    and "error_reply L (Exc OverflowError)
      = send_json 500 (server_error (lit ''internal error: '' @ exc_text L OverflowError)) False"
  using assms by (simp_all add: body_get_def common_def Let_def or_invalid_def value_error_def error_reply_def)

lemma other_message_is_internal_error:
  assumes "\<forall>m. v \<noteq> PDict m" "he_chat (facade_http L load N E) P g (v # ms) = Some r"
  shows "r = Inl AttributeError"
    and "error_reply H (Exc AttributeError)
      = send_json 500 (server_error (lit ''internal error: '' @ exc_text H AttributeError)) False"
  using assms by (cases v; simp add: facade_http_def error_reply_def value_error_def)+

section \<open>The properties\<close>

text \<open>
  C37: an answer to a POST is framed, so that the next request on the connection is read from its first
  byte.  The answer announces that it closes the connection exactly if it does.  The connection stays
  open only if the client asked for that, by its version or its \<open>Connection\<close> header, and the answer does
  not close it; then the answer states the length of its body, the request was not chunked, its length
  was given and within the limit, and the bytes left on the connection are those after the body.  The
  exception is a negative length, which is answered as an empty body: the connection stays open and no
  byte of the body is consumed.
\<close>

theorem post_is_framed:
  assumes "do_POST L S E path lh tr stalls input = Some (Inr r, rest)"
  shows "(rp_close r \<longleftrightarrow> (lit ''Connection'', lit ''close'') \<in> set (rp_headers r))
    \<and> (\<not> connection_closes version conn r \<longrightarrow>
         \<not> client_closes version conn \<and> \<not> rp_close r
         \<and> (lit ''Content-Length'', int_str (int (length (rp_body r)))) \<in> set (rp_headers r)
         \<and> \<not> str_in (lit ''chunked'') (ascii_lower (case tr of None \<Rightarrow> [] | Some t \<Rightarrow> t))
         \<and> (\<exists>n. content_length lh = Inr n \<and> n \<le> MAX_BODY_BYTES
              \<and> (0 \<le> n \<longrightarrow> rest = drop (nat n) input) \<and> (n < 0 \<longrightarrow> rest = input \<and> rp_status r = 400)))"
  using do_POST_framed [OF assms] by (auto simp: framed_def connection_closes_def)

definition toy_lib :: "pv \<Rightarrow> rat http_lib" where
  "toy_lib v = \<lparr>parse_json = (\<lambda>s. Inr v), float_int = (\<lambda>s. Inl OverflowError), to_float = (\<lambda>w. Inr 0),
     exc_text = (\<lambda>e. []), fresh_id = lit ''7'', now = 0\<rparr>"

definition toy_server :: http_server where
  "toy_server = \<lparr>hs_model_name = Some (lit ''m''), hs_recipe_id = None, hs_default_max_new = None, hs_started_at = 0,
     hs_slots = 1, hs_socket_timeout = 60\<rparr>"

definition toy_http_engine :: "bool \<Rightarrow> rat http_engine" where
  "toy_http_engine checked = \<lparr>he_chat = (\<lambda>P g ms. Some (Inl RuntimeError)), he_chat_stream = (\<lambda>P g ms. Some (Inl RuntimeError)),
     he_complete = (\<lambda>P prompt. if checked \<and> gl_max_new P < 1 then None else
        Some (Inr \<lparr>c_text = prompt, finish_reason = Stop, prompt_len = 1, completion_len = 1, prompt_text = None,
                   n_images = None\<rparr>)),
     he_complete_stream = (\<lambda>P prompt. Some (Inr ([], None)))\<rparr>"

theorem post_is_framed_witness:
  "\<exists>r. do_POST (toy_lib (PDict [])) toy_server (toy_http_engine True) (lit ''/x'') (Some (lit ''2'')) None False [123, 125, 71]
      = Some (Inr r, [71]) \<and> \<not> rp_close r
    \<and> (lit ''Content-Length'', int_str (int (length (rp_body r)))) \<in> set (rp_headers r)"
proof -
  have "case not_found of Inr r \<Rightarrow> \<not> rp_close r | _ \<Rightarrow> False" by code_simp
  then obtain r where nf: "not_found = Inr r" "\<not> rp_close r" by (auto split: sum.splits)
  have "do_POST (toy_lib (PDict [])) toy_server (toy_http_engine True) (lit ''/x'') (Some (lit ''2'')) None False [123, 125, 71]
      = Some (not_found, [71])"
    by code_simp
  with nf post_is_framed [of "toy_lib (PDict [])" toy_server "toy_http_engine True" "lit ''/x''" "Some (lit ''2'')" None False
      "[123, 125, 71]" r "[71]" "(1, 1)" None]
  show ?thesis by (auto simp: connection_closes_def client_closes_def ascii_lower_def lit_def)
qed

text \<open>
  C38: the engine sees only requests with a positive number of tokens, a temperature that is not
  negative, and, for a chat, a non-empty list of messages.  Two engines that agree on these give the
  same answer to every POST.
\<close>

theorem engine_sees_valid_requests:
  assumes "\<And>P g ms. valid_params P \<Longrightarrow> ms \<noteq> [] \<Longrightarrow> he_chat E P g ms = he_chat E' P g ms"
    and "\<And>P g ms. valid_params P \<Longrightarrow> ms \<noteq> [] \<Longrightarrow> he_chat_stream E P g ms = he_chat_stream E' P g ms"
    and "\<And>P prompt. valid_params P \<Longrightarrow> he_complete E P prompt = he_complete E' P prompt"
    and "\<And>P prompt. valid_params P \<Longrightarrow> he_complete_stream E P prompt = he_complete_stream E' P prompt"
  shows "do_POST L S E path lh tr stalls input = do_POST L S E' path lh tr stalls input"
  by (rule do_POST_cong) (use assms in auto)

theorem engine_sees_valid_requests_witness:
  "do_POST (toy_lib (PDict [(lit ''prompt'', PStr [])])) toy_server (toy_http_engine True) completion_path
       (Some (lit ''2'')) None False [123, 125]
   = do_POST (toy_lib (PDict [(lit ''prompt'', PStr [])])) toy_server (toy_http_engine False) completion_path
       (Some (lit ''2'')) None False [123, 125]"
  by (rule engine_sees_valid_requests) (auto simp: toy_http_engine_def valid_params_def)

end
