(* ===== verification/HttpStream.thy ===== *)
theory HttpStream
  imports HttpServer Tokenizer
begin

text \<open>
  What a client sees of a streamed answer, over the model of \<open>serving/server.py\<close> in \<open>HttpServer\<close>: the
  reading of the event stream, the contract \<open>http_streaming\<close> an engine behind the handler keeps, and
  the text facade as one that keeps it.
\<close>

section \<open>Encodable texts\<close>

lemma of_char_range: "0 \<le> (of_char c :: int)" "(of_char c :: int) < 256"
  using pos_mod_sign [of 256 "of_char c :: int"] pos_mod_bound [of 256 "of_char c :: int"] by simp_all

lemma scalar_lit [simp]: "list_all scalar (lit s)"
proof -
  have "scalar (of_char c)" for c :: char using of_char_range [of c] by (simp add: scalar_def)
  then show ?thesis by (simp add: lit_def list_all_iff)
qed

lemma lit_eq_iff [simp]: "lit s = lit t \<longleftrightarrow> s = t"
proof
  assume "lit s = lit t"
  then show "s = t" by (induction s arbitrary: t) (auto simp: lit_def Cons_eq_map_conv)
qed simp

lemma newline_lit [simp]: "10 \<in> set (lit s) \<longleftrightarrow> CHR 0x0A \<in> set s"
proof -
  have "(10 :: int) = of_char c \<longleftrightarrow> CHR 0x0A = c" for c
    using of_char_eq_iff [of "CHR 0x0A" c, where 'a = int] by simp
  then show ?thesis by (auto simp: lit_def image_iff)
qed

text \<open>Code points, as every text has them.\<close>

definition code_points :: "pystr \<Rightarrow> bool" where
  "code_points s \<longleftrightarrow> list_all (\<lambda>c. 0 \<le> c) s"

lemma code_points_simps [simp]:
  "code_points []" "code_points (lit w)" "code_points (s @ t) \<longleftrightarrow> code_points s \<and> code_points t"
  by (auto simp: code_points_def lit_def list_all_iff of_char_range)

lemma hex_digit_bounds: "0 \<le> n \<Longrightarrow> n < 16 \<Longrightarrow> 48 \<le> hex_digit n \<and> hex_digit n < 103"
  by (auto simp: hex_digit_def)

lemma json_escape_line:
  assumes "0 \<le> c"
  shows "10 \<notin> set (json_escape c) \<and> (list_all scalar (json_escape c) \<longleftrightarrow> scalar c)"
proof (cases "c < 32")
  case True
  then have "0 \<le> c div 16" "c div 16 < 16" using assms by auto
  with True assms hex_digit_bounds [of "c div 16"] hex_digit_bounds [of "c mod 16"] show ?thesis
    by (auto simp: json_escape_def scalar_def)
qed (auto simp: json_escape_def scalar_def)

lemma json_string_line:
  assumes "code_points s"
  shows "10 \<notin> set (json_string s)" "list_all scalar (json_string s) \<longleftrightarrow> list_all scalar s"
proof -
  have "10 \<notin> set (concat (map json_escape s)) \<and> (list_all scalar (concat (map json_escape s)) \<longleftrightarrow> list_all scalar s)"
    using assms by (induction s) (auto simp: code_points_def json_escape_line)
  then show "10 \<notin> set (json_string s)" "list_all scalar (json_string s) \<longleftrightarrow> list_all scalar s"
    by (auto simp: json_string_def scalar_def)
qed

lemma int_str_line: "10 \<notin> set (int_str i)" "list_all scalar (int_str i)"
proof -
  have "list_all (\<lambda>c. 48 \<le> c \<and> c \<le> 57) (digits_rev n)" if "0 \<le> n" for n
    using that by (induction n rule: digits_rev.induct) (subst digits_rev.simps, auto)
  then have "list_all (\<lambda>c. 48 \<le> c \<and> c \<le> 57) (digits_rev \<bar>i\<bar>)" by simp
  then show "10 \<notin> set (int_str i)" "list_all scalar (int_str i)"
    by (auto simp: int_str_def list_all_iff scalar_def)
qed

text \<open>The objects of one completion.\<close>

definition id_text :: "'f http_lib \<Rightarrow> bool \<Rightarrow> pystr" where
  "id_text L is_chat = lit (if is_chat then ''chatcmpl-'' else ''cmpl-'') @ fresh_id L"

lemma completion_object_scalar:
  assumes "utf8_encode (json_dumps (completion_object L S is_chat body d)) = Inr bs"
  shows "list_all scalar (json_string (id_text L is_chat)) \<and> list_all scalar (json_dumps (requested_model S body))
    \<and> list_all scalar (json_string (c_text d))"
  using assms by (auto simp: utf8_encode_def completion_object_def id_text_def split: if_splits)

lemma stream_chunk_dumps:
  "list_all scalar (json_dumps (stream_chunk L is_chat m delta r)) \<longleftrightarrow>
     list_all scalar (json_string (id_text L is_chat)) \<and> list_all scalar (json_dumps m)
     \<and> list_all scalar (json_dumps delta) \<and> list_all scalar (json_dumps r)"
  "10 \<in> set (json_dumps (stream_chunk L is_chat m delta r)) \<longleftrightarrow>
     10 \<in> set (json_string (id_text L is_chat)) \<or> 10 \<in> set (json_dumps m)
     \<or> 10 \<in> set (json_dumps delta) \<or> 10 \<in> set (json_dumps r)"
  by (auto simp: stream_chunk_def id_text_def json_string_line int_str_line)

section \<open>The client\<close>

text \<open>The events of a stream are its parts between blank lines; \<open>data: \<close> stands before each.\<close>

fun sse_events :: "pystr \<Rightarrow> pystr \<Rightarrow> pystr list" where
  "sse_events acc [] = []"
| "sse_events acc (c # s) =
     (if c = 10 \<and> take 1 s = [10] then rev acc # sse_events [] (drop 1 s) else sse_events (c # acc) s)"

definition sse_payloads :: "pystr \<Rightarrow> pystr list" where
  "sse_payloads s = map (drop 6) (sse_events [] s)"

text \<open>The text a chunk adds, and its finish reason.\<close>

definition the_choice :: "pv \<Rightarrow> msg" where
  "the_choice c = (case c of PDict d \<Rightarrow> (case field d ''choices'' of PList [PDict ch] \<Rightarrow> ch | _ \<Rightarrow> []) | _ \<Rightarrow> [])"

definition chunk_text :: "bool \<Rightarrow> pv \<Rightarrow> pystr" where
  "chunk_text is_chat c =
     (case field (the_choice c) (if is_chat then ''delta'' else ''text'') of
        PStr s \<Rightarrow> s
      | PDict d \<Rightarrow> (case field d ''content'' of PStr s \<Rightarrow> s | _ \<Rightarrow> [])
      | _ \<Rightarrow> [])"

definition chunk_reason :: "pv \<Rightarrow> pv" where
  "chunk_reason c = field (the_choice c) ''finish_reason''"

lemma sse_events_line:
  "10 \<notin> set p \<Longrightarrow> sse_events acc (p @ [10, 10] @ s) = (rev acc @ p) # sse_events [] s"
  by (induction p arbitrary: acc) auto

lemma sse_payloads_frames:
  assumes "\<forall>p\<in>set ps. 10 \<notin> set p"
  shows "sse_payloads (concat (map (\<lambda>p. lit ''data: '' @ p @ [10, 10]) ps)) = ps"
proof -
  have "sse_events [] (concat (map (\<lambda>p. lit ''data: '' @ p @ [10, 10]) ps)) = map ((@) (lit ''data: '')) ps"
    using assms
  proof (induction ps)
    case (Cons p ps)
    then have "10 \<notin> set (lit ''data: '' @ p)" by simp
    from sse_events_line [OF this, of "[]"] Cons show ?case by simp
  qed simp
  then show ?thesis by (simp add: sse_payloads_def o_def)
qed

lemma stream_chunk_choice:
  "chunk_reason (stream_chunk L is_chat m delta r) = r"
  "chunk_text is_chat (stream_chunk L is_chat m (opening_delta is_chat) r) = []"
  "chunk_text is_chat (stream_chunk L is_chat m (text_delta is_chat s) r) = s"
  "chunk_text is_chat (stream_chunk L is_chat m (empty_delta is_chat) r) = []"
  by (auto simp: chunk_reason_def chunk_text_def the_choice_def stream_chunk_def field_def opening_delta_def
        text_delta_def empty_delta_def)

lemma stream_chunks_text:
  "concat (map (chunk_text is_chat) (stream_chunks L is_chat m first evs)) = concat (map fst evs)"
  by (induction evs arbitrary: first) (auto simp: stream_chunk_choice split: option.split)

lemma stream_chunks_reasons:
  "filter (\<lambda>r. r \<noteq> PNone) (map chunk_reason (stream_chunks L is_chat m first evs))
     = map (\<lambda>r. PStr (reason_text r)) (List.map_filter snd evs)"
  by (induction evs arbitrary: first) (auto simp: stream_chunk_choice List.map_filter_simps split: option.split)

lemma stream_chunks_parts:
  assumes "c \<in> set (stream_chunks L is_chat m first evs)"
  shows "\<exists>delta r. c = stream_chunk L is_chat m delta r
    \<and> (delta = opening_delta is_chat \<or> delta = empty_delta is_chat \<or> (\<exists>s \<in> fst ` set evs. delta = text_delta is_chat s))
    \<and> (r = PNone \<or> (\<exists>x. r = PStr (reason_text x)))"
  using assms
proof (induction evs arbitrary: first)
  case (Cons ev evs)
  obtain t reason where ev: "ev = (t, reason)" by (cases ev)
  consider "c = stream_chunk L is_chat m (opening_delta is_chat) PNone"
    | "c = stream_chunk L is_chat m (text_delta is_chat t) PNone"
    | x where "c = stream_chunk L is_chat m (empty_delta is_chat) (PStr (reason_text x))"
    | "c \<in> set (stream_chunks L is_chat m False evs)"
    using Cons.prems by (auto simp: ev split: if_splits option.splits)
  then show ?case
  proof cases
    case 4
    from Cons.IH [OF this] show ?thesis by (auto simp: ev)
  qed (auto simp: ev)
qed simp

lemma delta_line:
  assumes "code_points s"
  shows "10 \<notin> set (json_dumps (text_delta is_chat s))"
    "list_all scalar (json_dumps (text_delta is_chat s)) \<longleftrightarrow> list_all scalar s"
  using assms by (auto simp: text_delta_def json_string_line)

lemma fixed_delta_line:
  "10 \<notin> set (json_dumps (opening_delta is_chat))" "list_all scalar (json_dumps (opening_delta is_chat))"
  "10 \<notin> set (json_dumps (empty_delta is_chat))" "list_all scalar (json_dumps (empty_delta is_chat))"
  "10 \<notin> set (json_dumps (PStr (reason_text r)))" "list_all scalar (json_dumps (PStr (reason_text r)))"
  by (auto simp: opening_delta_def empty_delta_def json_string_line reason_text_def split: reason.split)

text \<open>Every chunk is one line, and can be sent when the parts of the completed answer can.\<close>

lemma stream_chunks_line:
  assumes "c \<in> set (stream_chunks L is_chat (PStr m) first evs)" "code_points (fresh_id L)" "code_points m"
    and "\<forall>s \<in> fst ` set evs. code_points s"
  shows "10 \<notin> set (json_dumps c)"
    and "list_all scalar (json_string (id_text L is_chat)) \<Longrightarrow> list_all scalar (json_string m)
      \<Longrightarrow> \<forall>s \<in> fst ` set evs. list_all scalar s \<Longrightarrow> list_all scalar (json_dumps c)"
proof -
  obtain delta r where c: "c = stream_chunk L is_chat (PStr m) delta r"
    and delta: "delta = opening_delta is_chat \<or> delta = empty_delta is_chat
      \<or> (\<exists>s \<in> fst ` set evs. delta = text_delta is_chat s)"
    and r: "r = PNone \<or> (\<exists>x. r = PStr (reason_text x))"
    using stream_chunks_parts [OF assms(1)] by blast
  have i: "code_points (id_text L is_chat)" using assms(2) by (simp add: id_text_def)
  have d: "10 \<notin> set (json_dumps delta)" using delta assms(4) delta_line fixed_delta_line by auto
  have rs: "10 \<notin> set (json_dumps r)" "list_all scalar (json_dumps r)"
    using r fixed_delta_line(5,6) by auto
  show "10 \<notin> set (json_dumps c)"
    unfolding c stream_chunk_dumps(2) using i d rs assms(3) by (simp add: json_string_line)
  assume "list_all scalar (json_string (id_text L is_chat))" "list_all scalar (json_string m)"
    "\<forall>s \<in> fst ` set evs. list_all scalar s"
  moreover from this(3) have "list_all scalar (json_dumps delta)" 
    using delta assms(4) by (metis delta_line(2) fixed_delta_line(2,4))
  ultimately show "list_all scalar (json_dumps c)" unfolding c stream_chunk_dumps(1) using rs by simp
qed

text \<open>A stream without an error, read by the client.\<close>

lemma sse_body_frames:
  "\<forall>c\<in>set cs. list_all scalar (json_dumps c) \<Longrightarrow> sse_body L cs None = utf8_encode (concat (map sse_frame cs))"
  by (induction cs) (auto simp: utf8_encode_def sse_frame_def scalar_def)

lemma send_sse_read:
  assumes "\<forall>c\<in>set cs. list_all scalar (json_dumps c) \<and> 10 \<notin> set (json_dumps c)"
  shows "\<exists>r s. send_sse L (cs, None) = Inr r \<and> rp_status r = 200 \<and> utf8_decode (rp_body r) = Inr s
    \<and> sse_payloads s = map json_dumps cs @ [lit ''[DONE]'']"
proof -
  let ?ps = "map json_dumps cs @ [lit ''[DONE]'']"
  let ?s = "concat (map sse_frame cs) @ sse_done"
  have a: "list_all scalar (concat (map sse_frame cs))" "list_all scalar sse_done"
    using assms by (auto simp: sse_frame_def sse_done_def list_all_iff [of scalar "concat _"] scalar_def)
      (metis list_all_iff scalar_lit scalar_def)+
  have "\<exists>r. send_sse L (cs, None) = Inr r \<and> rp_status r = 200 \<and> utf8_encode ?s = Inr (rp_body r)"
    using sse_body_frames [of cs L] assms a by (simp add: send_sse_def utf8_encode_def)
  then obtain r where r: "send_sse L (cs, None) = Inr r" "rp_status r = 200" "utf8_encode ?s = Inr (rp_body r)"
    by blast
  have "?s = concat (map (\<lambda>p. lit ''data: '' @ p @ [10, 10]) ?ps)"
    by (simp add: sse_frame_def [abs_def] sse_done_def o_def lit_def)
  then have "sse_payloads ?s = ?ps" using sse_payloads_frames [of ?ps] assms by simp
  then show ?thesis using r utf8_decode_encode [OF r(3)] by blast
qed

section \<open>Engines that stream their answers\<close>

text \<open>A decoder gives texts that can be encoded, and no text for no token.\<close>

definition text_coder :: "coder \<Rightarrow> bool" where
  "text_coder C \<longleftrightarrow> t_decode C [] = [] \<and> (\<forall>xs. list_all scalar (t_decode C xs))"

text \<open>Along a generation, decoding one more token only appends to the text.\<close>

definition grows :: "(int list \<Rightarrow> pystr) \<Rightarrow> int list \<Rightarrow> bool" where
  "grows dec gen \<longleftrightarrow> (\<forall>k < length gen. \<exists>ys. dec (take (Suc k) gen) = dec (take k gen) @ ys)"

lemma concat_grows: "dec [] = [] \<Longrightarrow> grows dec gen \<Longrightarrow> concat (deltas dec [] [] gen) = dec gen"
  using concat_deltas [of gen dec "[]" "[]"] by (cases "gen = []") (auto simp: grows_def)

lemma deltas_scalar:
  assumes "\<forall>xs. list_all scalar (dec xs)" "x \<in> set (deltas dec gen seen ts)"
  shows "list_all scalar x"
  using assms(2)
proof (induction ts arbitrary: gen seen)
  case (Cons t ts)
  have "list_all scalar (drop (length seen) (dec (gen @ [t])))"
    using assms(1) by (auto simp: list_all_iff dest: in_set_dropD)
  with Cons show ?case by (auto simp: Let_def)
qed simp

lemma scalar_code_points: "list_all scalar x \<Longrightarrow> code_points x"
  by (auto simp: code_points_def list_all_iff scalar_def)

text \<open>
  A completion that returns is the decoding of its tokens; it streams what each further token adds to
  the decoded text, then its finish reason.
\<close>

definition streamed :: "coder \<Rightarrow> completion \<Rightarrow> int list \<Rightarrow> token_stream served \<Rightarrow> bool" where
  "streamed C d gen evs \<longleftrightarrow> completion_len d = int (length gen) \<and> c_text d = t_decode C gen \<and>
     evs = Some (Inr (map (\<lambda>x. (x, None)) (deltas (t_decode C) [] [] gen) @ [([], Some (finish_reason d))], None))"

locale http_streaming =
  fixes E :: "'f::linordered_field http_engine" and C :: coder
  assumes chat_streams: "he_chat E P g ms = Some (Inr d) \<Longrightarrow> \<exists>gen. streamed C d gen (he_chat_stream E P g ms)"
    and complete_streams: "he_complete E P prompt = Some (Inr d) \<Longrightarrow> \<exists>gen. streamed C d gen (he_complete_stream E P prompt)"
begin

lemma call_streams:
  "call_chat (he_chat E) L S body = Some (Inr d)
    \<Longrightarrow> \<exists>gen evs. call_chat (he_chat_stream E) L S body = Some (Inr evs) \<and> streamed C d gen (Some (Inr evs))"
  "call_completion (he_complete E) L S body = Some (Inr d)
    \<Longrightarrow> \<exists>gen evs. call_completion (he_complete_stream E) L S body = Some (Inr evs) \<and> streamed C d gen (Some (Inr evs))"
proof -
  assume "call_chat (he_chat E) L S body = Some (Inr d)"
  then obtain ms P where mp: "rbind (chat_messages body) (\<lambda>ms. rbind (common L S body) (\<lambda>P. Inr (ms, P))) = Inr (ms, P)"
    and c: "he_chat E P (body_get body ''add_generation_prompt'' (PBool True)) ms = Some (Inr d)"
    by (auto simp: call_chat_def raised_def split: sum.splits)
  from chat_streams [OF c] mp show "\<exists>gen evs. call_chat (he_chat_stream E) L S body = Some (Inr evs)
      \<and> streamed C d gen (Some (Inr evs))"
    by (auto simp: call_chat_def raised_def streamed_def)
next
  assume "call_completion (he_complete E) L S body = Some (Inr d)"
  then obtain p P where mp: "rbind (completion_prompt body) (\<lambda>p. rbind (common L S body) (\<lambda>P. Inr (p, P))) = Inr (p, P)"
    and c: "he_complete E P p = Some (Inr d)"
    by (auto simp: call_completion_def raised_def split: sum.splits)
  from complete_streams [OF c] mp show "\<exists>gen evs. call_completion (he_complete_stream E) L S body = Some (Inr evs)
      \<and> streamed C d gen (Some (Inr evs))"
    by (auto simp: call_completion_def raised_def streamed_def)
qed

end

text \<open>The text facade keeps the contract.\<close>

lemma run_prompt_streamed:
  assumes "run_prompt N E P max_new images ids = Inr d0" "c_text d = c_text d0"
    "finish_reason d = finish_reason d0" "completion_len d = completion_len d0"
  shows "\<exists>gen. streamed (ef_coder E) d gen (Some (Inr (generate_stream N (ef_model E) P (eos_stop (ef_coder E)) max_new
            images (t_decode (ef_coder E)) ids)))"
proof -
  obtain out r n where g: "generate N (ef_model E) P (eos_stop (ef_coder E)) max_new images ids = Inr (out, r, n)"
    and d: "d0 = \<lparr>c_text = t_decode (ef_coder E) (drop (length ids) out), finish_reason = r,
                 prompt_len = int (length ids), completion_len = n, prompt_text = None, n_images = None\<rparr>"
    using assms(1) by (auto simp: run_prompt_def rbind_Inr_iff)
  obtain gen where gen: "out = ids @ gen" "n = int (length gen)" using generate_run [OF g] by blast
  have "generate_stream N (ef_model E) P (eos_stop (ef_coder E)) max_new images (t_decode (ef_coder E)) ids
      = (events (deltas (t_decode (ef_coder E)) [] [] gen) r, None)"
    using generate_stream_events [OF g, of "t_decode (ef_coder E)"] gen(1) by simp
  with d gen assms(2-4) show ?thesis by (intro exI [of _ gen]) (simp add: streamed_def events_def)
qed

interpretation facade: http_streaming "facade_http L load N E" "ef_coder E" for L load N E
proof
  fix P g ms d prompt
  show "\<exists>gen. streamed (ef_coder E) d gen (he_chat_stream (facade_http L load N E) P g ms)"
    if h: "he_chat (facade_http L load N E) P g ms = Some (Inr d)"
  proof -
    obtain msgs where m: "dict_messages ms = Inr msgs"
      and c: "chat_detail L load N E (sampling_of P) (gl_max_new P) (truthy g) msgs = Some (Inr d)"
      using h by (auto simp: facade_http_def split: sum.splits)
    from chat_detail_prompt [OF c] run_prompt_streamed m show ?thesis
      by (fastforce simp: facade_http_def)
  qed
  show "\<exists>gen. streamed (ef_coder E) d gen (he_complete_stream (facade_http L load N E) P prompt)"
    if h: "he_complete (facade_http L load N E) P prompt = Some (Inr d)"
  proof -
    obtain ids where e: "t_encode (ef_coder E) prompt = Inr ids"
      and r: "run_prompt N E (sampling_of P) (gl_max_new P) None ids = Inr d"
      using h by (auto simp: facade_http_def complete_detail_def rbind_Inr_iff)
    from run_prompt_streamed [OF r] e show ?thesis by (simp add: facade_http_def stream_complete_def)
  qed
qed

section \<open>A streamed answer is the answer\<close>

lemma stream_flag:
  "call_chat f L S (dset (lit ''stream'') v body) = call_chat f L S body"
  "call_completion h L S (dset (lit ''stream'') v body) = call_completion h L S body"
  "requested_model S (dset (lit ''stream'') v body) = requested_model S body"
  "body_get (dset (lit ''stream'') v body) ''stream'' w = v"
proof -
  have other: "body_get (dset (lit ''stream'') v body) k w = body_get body k w" if "k \<noteq> ''stream''" for k w
    using that by (simp add: body_get_def dget_dset)
  show "call_chat f L S (dset (lit ''stream'') v body) = call_chat f L S body"
    by (simp add: call_chat_def chat_messages_def common_def other cong: if_cong sum.case_cong prod.case_cong)
  show "call_completion h L S (dset (lit ''stream'') v body) = call_completion h L S body"
    by (simp add: call_completion_def completion_prompt_def common_def other cong: if_cong sum.case_cong prod.case_cong)
  show "requested_model S (dset (lit ''stream'') v body) = requested_model S body"
    by (simp add: requested_model_def other)
  show "body_get (dset (lit ''stream'') v body) ''stream'' w = v"
    by (simp add: body_get_def dget_dset)
qed

text \<open>A completion that is sent can also be streamed.\<close>

lemma streamed_read:
  assumes "streamed C d gen (Some (Inr evs))" "text_coder C" "code_points (fresh_id H)"
    "requested_model S body = PStr m" "code_points m"
    "utf8_encode (json_dumps (completion_object H S is_chat body d)) = Inr bs"
  shows "\<exists>r s chunks. send_sse H (stream_common H S is_chat body evs) = Inr r \<and> rp_status r = 200
    \<and> utf8_decode (rp_body r) = Inr s \<and> sse_payloads s = map json_dumps chunks @ [lit ''[DONE]'']
    \<and> concat (map (chunk_text is_chat) chunks) = concat (deltas (t_decode C) [] [] gen)
    \<and> filter (\<lambda>v. v \<noteq> PNone) (map chunk_reason chunks) = [PStr (reason_text (finish_reason d))]"
proof -
  let ?ds = "deltas (t_decode C) [] [] gen"
  let ?evs = "map (\<lambda>x. (x, None)) ?ds @ [([], Some (finish_reason d))]"
  let ?cs = "stream_chunks H is_chat (PStr m) True ?evs"
  have evs: "evs = (?evs, None)" using assms(1) by (simp add: streamed_def)
  have sc: "list_all scalar (json_string (id_text H is_chat))" "list_all scalar (json_string m)"
    using completion_object_scalar [OF assms(6)] assms(4) by auto
  have "list_all scalar x" if "x \<in> set ?ds" for x
    using deltas_scalar [OF _ that] assms(2) by (simp add: text_coder_def)
  then have parts: "\<forall>s \<in> fst ` set ?evs. code_points s \<and> list_all scalar s"
    by (auto simp: scalar_code_points)
  have "\<forall>c\<in>set ?cs. list_all scalar (json_dumps c) \<and> 10 \<notin> set (json_dumps c)"
    using stream_chunks_line [of _ H is_chat m True ?evs] assms(3,5) parts sc by blast
  from send_sse_read [OF this, of H] obtain r s where
    "send_sse H (?cs, None) = Inr r" "rp_status r = 200" "utf8_decode (rp_body r) = Inr s"
    "sse_payloads s = map json_dumps ?cs @ [lit ''[DONE]'']" by blast
  moreover have "concat (map (chunk_text is_chat) ?cs) = concat ?ds"
    unfolding stream_chunks_text by (simp add: o_def)
  moreover have "filter (\<lambda>v. v \<noteq> PNone) (map chunk_reason ?cs) = [PStr (reason_text (finish_reason d))]"
    unfolding stream_chunks_reasons by (simp add: List.map_filter_def o_def)
  ultimately show ?thesis using assms(4) unfolding stream_common_def evs fst_conv snd_conv
    by (intro exI [of _ r] exI [of _ s] exI [of _ ?cs]) simp
qed

text \<open>The answer with status 200 to a request that does not stream is the object of its completion.\<close>

lemma completion_answer:
  assumes "serve_body H S E path (PDict body) = Some (Inr r)" "rp_status r = 200"
    "\<not> truthy (body_get body ''stream'' PNone)"
  shows "\<exists>d. utf8_encode (json_dumps (completion_object H S (path = chat_path) body d)) = Inr (rp_body r)
    \<and> (path = chat_path \<and> call_chat (he_chat E) H S body = Some (Inr d)
       \<or> path \<noteq> chat_path \<and> path = completion_path \<and> call_completion (he_complete E) H S body = Some (Inr d))"
proof -
  have p: "path = chat_path \<or> path = completion_path"
    using assms send_json_framed by (fastforce simp: serve_body_def not_found_def split: if_splits)
  let ?call = "if path = chat_path then call_chat (he_chat E) H S body else call_completion (he_complete E) H S body"
  obtain x where x: "?call = Some x" and
    r: "(case x of Inl e \<Rightarrow> error_reply H e | Inr d \<Rightarrow> send_json 200 (completion_object H S (path = chat_path) body d) False) = Inr r"
    using assms(1,3) p by (auto simp: serve_body_def)
  obtain d where d: "x = Inr d" using r assms(2) error_reply_framed [of H _ r] by (cases x) auto
  have "utf8_encode (json_dumps (completion_object H S (path = chat_path) body d)) = Inr (rp_body r)"
    using r d by (auto simp: send_json_def rbind_Inr_iff)
  with x d p show ?thesis by (cases "path = chat_path") auto
qed

lemma stream_of_answer:
  assumes ok: "text_coder (ef_coder E)" and id: "code_points (fresh_id H)"
    and m: "requested_model S body = PStr m" "code_points m"
    and b: "utf8_encode (json_dumps (completion_object H S (path = chat_path) body d)) = Inr bs"
    and call: "path = chat_path \<and> call_chat (he_chat (facade_http L load N E)) H S body = Some (Inr d)
      \<or> path \<noteq> chat_path \<and> path = completion_path
         \<and> call_completion (he_complete (facade_http L load N E)) H S body = Some (Inr d)"
  shows "\<exists>gen r s chunks. completion_len d = int (length gen) \<and> c_text d = t_decode (ef_coder E) gen
    \<and> serve_body H S (facade_http L load N E) path (PDict (dset (lit ''stream'') (PBool True) body)) = Some (Inr r)
    \<and> rp_status r = 200 \<and> utf8_decode (rp_body r) = Inr s \<and> sse_payloads s = map json_dumps chunks @ [lit ''[DONE]'']
    \<and> concat (map (chunk_text (path = chat_path)) chunks) = concat (deltas (t_decode (ef_coder E)) [] [] gen)
    \<and> (grows (t_decode (ef_coder E)) gen \<longrightarrow> concat (map (chunk_text (path = chat_path)) chunks) = c_text d)
    \<and> filter (\<lambda>v. v \<noteq> PNone) (map chunk_reason chunks) = [PStr (reason_text (finish_reason d))]"
proof -
  let ?E = "facade_http L load N E"
  obtain gen evs where evs: "streamed (ef_coder E) d gen (Some (Inr evs))"
    and c: "(if path = chat_path then call_chat (he_chat_stream ?E) H S body
             else call_completion (he_complete_stream ?E) H S body) = Some (Inr evs)"
    using call facade.call_streams [of L load N E H S body d] by (cases "path = chat_path") auto
  have sent: "serve_body H S ?E path (PDict (dset (lit ''stream'') (PBool True) body))
      = Some (send_sse H (stream_common H S (path = chat_path) body evs))"
    using call c by (auto simp: serve_body_def stream_flag stream_common_def)
  have d: "completion_len d = int (length gen)" "c_text d = t_decode (ef_coder E) gen"
    using evs by (auto simp: streamed_def)
  have grown: "concat (deltas (t_decode (ef_coder E)) [] [] gen) = c_text d" if "grows (t_decode (ef_coder E)) gen"
    using concat_grows [OF _ that] ok d(2) by (simp add: text_coder_def)
  from streamed_read [OF evs ok id m b] obtain r s chunks where
    "send_sse H (stream_common H S (path = chat_path) body evs) = Inr r" "rp_status r = 200"
    "utf8_decode (rp_body r) = Inr s" "sse_payloads s = map json_dumps chunks @ [lit ''[DONE]'']"
    "concat (map (chunk_text (path = chat_path)) chunks) = concat (deltas (t_decode (ef_coder E)) [] [] gen)"
    "filter (\<lambda>v. v \<noteq> PNone) (map chunk_reason chunks) = [PStr (reason_text (finish_reason d))]" by blast
  with sent d grown show ?thesis
    by (intro exI [of _ gen] exI [of _ r] exI [of _ s] exI [of _ chunks]) simp
qed

text \<open>The requested model is part of the answer, which cannot be sent when the model is no text.\<close>

lemma unencodable_answer_escapes:
  assumes "path = completion_path" "call_completion (he_complete E) H S body = Some (Inr d)"
    "\<not> truthy (body_get body ''stream'' PNone)" "requested_model S body = PStr m" "code_points m" "\<not> list_all scalar m"
  shows "serve_body H S E path (PDict body) = Some (Inl ValueError)"
proof -
  have "completion_path \<noteq> chat_path" by (simp add: completion_path_def chat_path_def)
  moreover have "\<not> list_all scalar (json_dumps (completion_object H S False body d))"
    using assms(4-6) json_string_line(2) by (auto simp: completion_object_def)
  ultimately show ?thesis
    using assms(1-3) by (simp add: serve_body_def send_json_def utf8_encode_def)
qed

section \<open>The tokenizer of the repository\<close>

text \<open>
  \<open>Tokenizer.decode\<close> replaces what is no character, so it always gives a text that can be encoded.
\<close>

lemma utf8_tail_range:
  assumes "fst (utf8_tail n lo hi acc bs) = Some c" "0x80 \<le> lo" "hi \<le> 0xBF" "n \<noteq> 0"
  shows "(acc * 64 + (lo - 0x80)) * 64 ^ (n - 1) \<le> c \<and> c < (acc * 64 + (hi - 0x80) + 1) * 64 ^ (n - 1)"
  using assms
proof (induction n lo hi acc bs rule: utf8_tail.induct)
  case (3 n lo hi acc b bs)
  then have b: "lo \<le> b" "b \<le> hi" and t: "fst (utf8_tail n 0x80 0xBF (acc * 64 + (b - 0x80)) bs) = Some c"
    by (auto split: if_splits)
  show ?case
  proof (cases n)
    case 0
    with t b show ?thesis by simp
  next
    case (Suc m)
    let ?a = "acc * 64 + (b - 0x80)" and ?p = "64 ^ m :: int"
    have c: "?a * (64 * ?p) \<le> c" "c < (?a + 1) * (64 * ?p)"
      using 3(1) b t Suc by (simp_all add: algebra_simps)
    have l: "(acc * 64 + (lo - 0x80)) * (64 * ?p) \<le> ?a * (64 * ?p)"
      using b by (intro mult_right_mono) auto
    have h: "(?a + 1) * (64 * ?p) \<le> (acc * 64 + (hi - 0x80) + 1) * (64 * ?p)"
      using b by (intro mult_right_mono) auto
    have "(64 :: int) ^ (Suc n - 1) = 64 * ?p" using Suc by simp
    with order_trans [OF l c(1)] less_le_trans [OF c(2) h] show ?thesis by (simp only: simp_thms)
  qed
qed auto

lemma utf8_step_scalar:
  assumes "0 \<le> b" "fst (utf8_step b bs) = Some c"
  shows "scalar c"
proof -
  consider "b < 0x80" | "0xC2 \<le> b" "b < 0xE0" | "0xE0 \<le> b" "b < 0xF0" | "0xF0 \<le> b" "b < 0xF5"
    using assms(2) by (fastforce simp: utf8_step_def not_less split: if_splits)
  then show ?thesis
  proof cases
    case 1
    with assms show ?thesis by (auto simp: utf8_step_def scalar_def)
  next
    case 2
    with assms(2) have "fst (utf8_tail 1 0x80 0xBF (b - 0xC0) bs) = Some c" by (simp add: utf8_step_def)
    from utf8_tail_range [OF this] 2 show ?thesis by (simp add: scalar_def)
  next
    case 3
    let ?lo = "if b = 0xE0 then 0xA0 else 0x80 :: int" and ?hi = "if b = 0xED then 0x9F else 0xBF :: int"
    from 3 assms(2) have "fst (utf8_tail 2 ?lo ?hi (b - 0xE0) bs) = Some c" by (simp add: utf8_step_def)
    from utf8_tail_range [OF this] have r: "((b - 0xE0) * 64 + (?lo - 0x80)) * 64 \<le> c"
      "c < ((b - 0xE0) * 64 + (?hi - 0x80) + 1) * 64" by (simp_all split: if_splits)
    show ?thesis
    proof (cases "b \<le> 0xED")
      case True
      with 3 r show ?thesis by (cases "b = 0xED") (auto simp: scalar_def split: if_splits)
    next
      case False
      with 3 r show ?thesis by (auto simp: scalar_def split: if_splits)
    qed
  next
    case 4
    let ?lo = "if b = 0xF0 then 0x90 else 0x80 :: int" and ?hi = "if b = 0xF4 then 0x8F else 0xBF :: int"
    from 4 assms(2) have "fst (utf8_tail 3 ?lo ?hi (b - 0xF0) bs) = Some c" by (simp add: utf8_step_def)
    from utf8_tail_range [OF this] have "((b - 0xF0) * 64 + (?lo - 0x80)) * 4096 \<le> c"
      "c < ((b - 0xF0) * 64 + (?hi - 0x80) + 1) * 4096" by (simp_all split: if_splits)
    with 4 show ?thesis by (cases "b = 0xF4") (auto simp: scalar_def split: if_splits)
  qed
qed

lemma utf8_tail_suffix: "set (snd (utf8_tail n lo hi acc bs)) \<subseteq> set bs"
  by (induction n lo hi acc bs rule: utf8_tail.induct) auto

lemma utf8_step_suffix: "set (snd (utf8_step b bs)) \<subseteq> set bs"
  using utf8_tail_suffix by (auto simp: utf8_step_def split: if_splits)

lemma utf8_replace_scalar: "\<forall>b \<in> set bs. 0 \<le> b \<Longrightarrow> list_all scalar (utf8_replace bs)"
proof -
  have "\<forall>b \<in> set bs. 0 \<le> b \<Longrightarrow> \<forall>c. Some c \<in> set (utf8_scan bs) \<longrightarrow> scalar c"
  proof (induction bs rule: utf8_scan.induct)
    case (2 b bs)
    then have "\<forall>b \<in> set (snd (utf8_step b bs)). 0 \<le> b" using utf8_step_suffix [of b bs] by auto
    with 2 utf8_step_scalar [of b bs] show ?case by auto
  qed simp
  moreover assume "\<forall>b \<in> set bs. 0 \<le> b"
  ultimately show ?thesis by (auto simp: utf8_replace_def list_all_iff scalar_def split: option.split)
qed

definition tokenizer_texts :: "tokenizer \<Rightarrow> bool" where
  "tokenizer_texts t \<longleftrightarrow> (\<forall>c b. dget (u2b (tok_bpe t)) c = Some b \<longrightarrow> 0 \<le> b)
     \<and> (\<forall>i s. dget (id_to_special t) i = Some s \<longrightarrow> list_all scalar s)"

lemma bpe_decode_scalar:
  assumes "\<forall>c b. dget (u2b t) c = Some b \<longrightarrow> 0 \<le> b"
  shows "list_all scalar (bpe_decode t ids)"
  unfolding bpe_decode_def
proof (rule utf8_replace_scalar)
  have "0 \<le> b" if "b \<in> set (token_bytes t w)" for b w
    using that assms by (auto simp: token_bytes_def List.map_filter_def)
  then show "\<forall>b \<in> set (concat (map (\<lambda>i. case dget (id_to_token t) i of None \<Rightarrow> [] | Some w \<Rightarrow> token_bytes t w) ids)). 0 \<le> b"
    by (auto split: option.splits)
qed

lemma decode_loop_scalar:
  assumes "tokenizer_texts t"
  shows "list_all scalar (decode_loop t cur ids)"
proof -
  have run: "list_all scalar (decode_run t cur)" for cur
    using bpe_decode_scalar [of "tok_bpe t"] assms by (simp add: decode_run_def tokenizer_texts_def)
  show ?thesis
    using assms run by (induction t cur ids rule: decode_loop.induct) (auto simp: tokenizer_texts_def split: option.split)
qed

lemma tokenizer_text_coder:
  assumes "tokenizer_texts t" "t_decode C = tok_decode t"
  shows "text_coder C"
  using decode_loop_scalar [OF assms(1)] assms(2)
  by (simp add: text_coder_def tok_decode_def decode_run_def)

text \<open>Every tokenizer the code builds is of this kind, when its special tokens can be encoded.\<close>

lemma dict_of_values: "dget (dict_of ps) k = Some v \<Longrightarrow> (k, v) \<in> set ps"
proof -
  have "dget (fold (\<lambda>(k, v) d. dset k v d) ps d) k = Some v \<Longrightarrow> (k, v) \<in> set ps \<or> dget d k = Some v" for d
    by (induction ps arbitrary: d) (force simp: dget_dset split: if_splits)+
  then show "dget (dict_of ps) k = Some v \<Longrightarrow> (k, v) \<in> set ps" by (force simp: dict_of_def)
qed

lemma inject_u2b: "u2b (foldl inject b ps) = u2b b"
  by (induction ps arbitrary: b) (auto simp: inject_def)

lemma new_tokenizer_texts:
  assumes "new_tokenizer compile v lines cfg = Inr t" "\<forall>s \<in> set (all_strings cfg). list_all scalar s"
  shows "tokenizer_texts t"
proof -
  obtain b merges pre where b: "new_bpe v merges pre = Inr b" "t = build_special b cfg"
    using assms(1) by (auto simp: new_tokenizer_def rbind_Inr_iff)
  have "u2b (tok_bpe t) = swap_dict bytes_to_unicode"
    using new_bpe_tables [OF b(1)] by (simp add: b(2) build_special_def Let_def inject_u2b bpe_tables_def)
  moreover have "0 \<le> x" if "dget (swap_dict bytes_to_unicode) c = Some x" for c x
  proof -
    have "dget bytes_to_unicode x = Some c" using that by (simp add: swap_dict_inverse alphabet_table)
    then have "x \<in> set (dkeys bytes_to_unicode)" unfolding dkeys_dom by blast
    then show ?thesis by (simp only: alphabet_table(3)) simp
  qed
  moreover have "s \<in> set (all_strings cfg)" if "dget (id_to_special t) i = Some s" for i s
    using that by (auto simp: b(2) build_special_def Let_def swap_dict_def dest!: dict_of_values)
  ultimately show ?thesis using assms(2) unfolding tokenizer_texts_def by metis
qed

text \<open>Along tokens that are whole characters its text only grows.\<close>

definition token_run :: "tokenizer \<Rightarrow> int \<Rightarrow> int list" where
  "token_run t i = (case dget (id_to_token (tok_bpe t)) i of None \<Rightarrow> [] | Some w \<Rightarrow> token_bytes (tok_bpe t) w)"

definition whole_characters :: "tokenizer \<Rightarrow> int \<Rightarrow> bool" where
  "whole_characters t i \<longleftrightarrow>
     dget (id_to_special t) i \<noteq> None \<or> (\<exists>s. utf8_encode s = Inr (token_run t i))"

definition token_piece :: "tokenizer \<Rightarrow> int \<Rightarrow> pystr" where
  "token_piece t i = (case dget (id_to_special t) i of Some s \<Rightarrow> s | None \<Rightarrow> utf8_replace (token_run t i))"

lemma whole_run:
  assumes "\<forall>i \<in> set cur. whole_characters t i \<and> dget (id_to_special t) i = None"
  shows "decode_run t cur = concat (map (token_piece t) cur)"
proof -
  have "utf8_encode (concat (map (token_piece t) cur)) = Inr (concat (map (token_run t) cur))"
    using assms
  proof (induction cur)
    case (Cons i cur)
    then obtain s where s: "utf8_encode s = Inr (token_run t i)" by (auto simp: whole_characters_def)
    with Cons.prems have "token_piece t i = s" by (simp add: token_piece_def utf8_replace_encode)
    with Cons s show ?case by (simp add: utf8_encode_append)
  qed (simp add: utf8_encode_def)
  from utf8_replace_encode [OF this] show ?thesis
    by (simp add: decode_run_def bpe_decode_def token_run_def [abs_def])
qed

lemma whole_loop:
  assumes "\<forall>i \<in> set cur. whole_characters t i \<and> dget (id_to_special t) i = None" "\<forall>i \<in> set ids. whole_characters t i"
  shows "decode_loop t cur ids = concat (map (token_piece t) (cur @ ids))"
  using assms
proof (induction t cur ids rule: decode_loop.induct)
  case (2 t cur i ids)
  show ?case
  proof (cases "dget (id_to_special t) i")
    case None
    with 2 show ?thesis by simp
  next
    case (Some s)
    have "decode_loop t [] ids = concat (map (token_piece t) ids)" using 2(2) [OF Some] 2(4) by simp
    with Some whole_run [of cur t] 2(3) show ?thesis by (simp add: token_piece_def [of t i])
  qed
qed (simp add: whole_run)

lemma whole_characters_grow:
  assumes "\<forall>i \<in> set gen. whole_characters t i"
  shows "grows (tok_decode t) gen"
proof -
  have pieces: "tok_decode t (take k gen) = concat (map (token_piece t) (take k gen))" for k
    using whole_loop [of "[]" t "take k gen"] assms by (auto simp: tok_decode_def dest: in_set_takeD)
  then show ?thesis unfolding grows_def pieces by (simp add: take_Suc_conv_app_nth)
qed

section \<open>The property\<close>

text \<open>
  C36: a streamed answer is the answer.  Over the text facade, when a request has an answer, the same
  request with \<open>stream\<close> set has one that ends with \<open>[DONE]\<close>, whose other events are chunks that can be
  told apart; one chunk has a finish reason, that of the completion.  The texts of the chunks are what
  each generated token adds in length to the decoded text.  They concatenate to the text of the
  completion where decoding one more token of this generation only appends, as it does with the
  repository's tokenizer when every token is whole characters; a token that completes a character the
  decoder had replaced loses text (\<open>replaced_character_lost\<close>).  The decoder is one whose texts can be
  encoded, as the tokenizer's can.
\<close>

theorem streamed_answer_is_the_answer:
  assumes "text_coder (ef_coder E)" "code_points (fresh_id H)" "requested_model S body = PStr m" "code_points m"
    and "serve_body H S (facade_http L load N E) path (PDict body) = Some (Inr r)" "rp_status r = 200"
    and "\<not> truthy (body_get body ''stream'' PNone)"
  shows "\<exists>d gen r' s chunks.
      utf8_decode (rp_body r) = Inr (json_dumps (completion_object H S (path = chat_path) body d))
    \<and> completion_len d = int (length gen) \<and> c_text d = t_decode (ef_coder E) gen
    \<and> serve_body H S (facade_http L load N E) path (PDict (dset (lit ''stream'') (PBool True) body)) = Some (Inr r')
    \<and> rp_status r' = 200 \<and> utf8_decode (rp_body r') = Inr s \<and> sse_payloads s = map json_dumps chunks @ [lit ''[DONE]'']
    \<and> concat (map (chunk_text (path = chat_path)) chunks) = concat (deltas (t_decode (ef_coder E)) [] [] gen)
    \<and> (grows (t_decode (ef_coder E)) gen \<longrightarrow> concat (map (chunk_text (path = chat_path)) chunks) = c_text d)
    \<and> filter (\<lambda>v. v \<noteq> PNone) (map chunk_reason chunks) = [PStr (reason_text (finish_reason d))]"
proof -
  obtain d where d: "utf8_encode (json_dumps (completion_object H S (path = chat_path) body d)) = Inr (rp_body r)"
    and "path = chat_path \<and> call_chat (he_chat (facade_http L load N E)) H S body = Some (Inr d)
      \<or> path \<noteq> chat_path \<and> path = completion_path
         \<and> call_completion (he_complete (facade_http L load N E)) H S body = Some (Inr d)"
    using completion_answer [OF assms(5-7)] by blast
  from stream_of_answer [OF assms(1-4) this] utf8_decode_encode [OF d] show ?thesis by blast
qed

definition toy_request :: "(pystr, pv) dict" where
  "toy_request = [(lit ''prompt'', PStr (lit ''x'')), (lit ''max_tokens'', PInt 5)]"

text \<open>
  The counting model over a tokenizer with six tokens: its tokens are letters, one special token, and
  the three bytes of one character.
\<close>

definition letters :: tokenizer where
  "letters = \<lparr>tok_bpe = \<lparr>vocab = [([97], 1), ([98], 2), ([0xE4], 4), ([0xBD], 5), ([0x142], 6)],
       id_to_token = [(1, [97]), (2, [98]), (4, [0xE4]), (5, [0xBD]), (6, [0x142])], rank = [],
       b2u = [(97, 97), (98, 98), (0xE4, 0xE4), (0xBD, 0xBD), (0xA0, 0x142)],
       u2b = [(97, 97), (98, 98), (0xE4, 0xE4), (0xBD, 0xBD), (0x142, 0xA0)], pretokenize = (\<lambda>s. [s])\<rparr>,
     config = \<lparr>pretokenize_regex = None, added_tokens = [], additional_special = [lit ''<|e|>''], cfg_eos = None,
       cfg_bos = None, cfg_pad = None, cfg_unk = None, chat_template = None\<rparr>,
     special_strings = [lit ''<|e|>''], special_ids = [(lit ''<|e|>'', 3)], id_to_special = [(3, lit ''<|e|>'')]\<rparr>"

definition tiny_engine :: "(int, rat, unit) engine_facade" where
  "tiny_engine = digit_engine\<lparr>ef_coder := digit_coder\<lparr>t_decode := tok_decode letters\<rparr>\<rparr>"

lemma tiny_text_coder: "text_coder (ef_coder tiny_engine)"
proof (rule tokenizer_text_coder)
  have "list_all (\<lambda>(c, b). 0 \<le> b) (u2b (tok_bpe letters))"
    "list_all (\<lambda>(i, s). list_all scalar s) (id_to_special letters)" by code_simp+
  then show "tokenizer_texts letters"
    unfolding tokenizer_texts_def list_all_iff by (fast dest: map_of_SomeD)
qed (simp add: tiny_engine_def)

theorem streamed_answer_is_the_answer_witness:
  "\<exists>gen r' s chunks. serve_body (toy_lib PNone) toy_server (facade_http lib0 no_image numpy3 tiny_engine) completion_path
        (PDict (dset (lit ''stream'') (PBool True) toy_request)) = Some (Inr r')
    \<and> utf8_decode (rp_body r') = Inr s \<and> sse_payloads s = map json_dumps chunks @ [lit ''[DONE]'']
    \<and> (grows (tok_decode letters) gen \<longrightarrow> concat (map (chunk_text False) chunks) = tok_decode letters gen)"
proof -
  have "case serve_body (toy_lib PNone) toy_server (facade_http lib0 no_image numpy3 tiny_engine) completion_path
        (PDict toy_request) of Some (Inr r) \<Rightarrow> rp_status r = 200 | _ \<Rightarrow> False"
    by code_simp
  then obtain r where r: "serve_body (toy_lib PNone) toy_server (facade_http lib0 no_image numpy3 tiny_engine) completion_path
        (PDict toy_request) = Some (Inr r)" "rp_status r = 200"
    by (auto split: option.splits sum.splits)
  have req: "code_points (fresh_id (toy_lib PNone))" "requested_model toy_server toy_request = PStr (lit ''m'')"
    "code_points (lit ''m'')" "\<not> truthy (body_get toy_request ''stream'' PNone)"
    by (simp_all add: toy_lib_def) code_simp+
  have p: "(completion_path = chat_path) = False" by (simp add: completion_path_def chat_path_def)
  have c: "t_decode (ef_coder tiny_engine) = tok_decode letters" by (simp add: tiny_engine_def)
  from streamed_answer_is_the_answer [OF tiny_text_coder req(1-3) r req(4)]
  show ?thesis unfolding p c by metis
qed

text \<open>Three tokens that make one character: the stream has the replacement, not the character.\<close>

lemma replaced_character_lost:
  "tok_decode letters [4, 5, 6] = [0x4F60] \<and>
   concat (deltas (tok_decode letters) [] [] [4, 5, 6]) = [0xFFFD]"
  by (rule conjI; code_simp)

end
