(* ===== verification/Spec2Isabelle.thy ===== *)
theory Spec2Isabelle
  imports Serving SpecDecode ChatRoundtrip KvStores Recipe Weights Collectives Tokenizer Facade RankTable TpHeads NgramPle HttpStream
begin

text \<open>
  Verification of sLLM, a Python server for large language models on one or two GPU nodes.

  \<^bold>\<open>The program.\<close>  A recipe (\<open>recipes/schema.py\<close>) describes a model; its weights are safetensors shards,
  read and dequantised by \<open>loaders/\<close> and split over the ranks of a cluster by \<open>loaders/tp_shard.py\<close>
  and \<open>tp/\<close>.  A request is a prompt or a conversation: \<open>serving/encoding_dsv4.py\<close> or a chat template
  makes it a text, \<open>serving/tokenizer.py\<close> makes that token ids, \<open>serving/image_processor.py\<close> puts image
  blocks in.  \<open>serving/executor.py\<close> runs the generation loops, alone (\<open>generate\<close>) or in a batch over the
  scheduler of \<open>runtime/\<close>, and \<open>serving/batched_server.py\<close> shares the batch engine between the threads
  of the HTTP server, \<open>serving/server.py\<close>.  The loops call the reference models of \<open>ref/\<close>: a dense and a hybrid transformer
  with their caches are modelled to the numbers.  \<open>runtime/spec.py\<close> and \<open>ref/qwen4_exp_mtp.py\<close> are the draft-and-verify loops.

  \<^bold>\<open>Conventions.\<close>  \<open>Prelude\<close> holds the exceptions (\<open>py_error\<close>), results that keep the state left behind by
  an operation that raised (\<open>result\<close>), Python dicts as association lists in insertion order, and the
  lemmas about them.  \<open>PyText\<close> holds texts as lists of code points, the methods of \<open>str\<close> the code
  calls, dynamically typed values \<open>pv\<close> and their JSON text; \<open>Utf8\<close> the codec.  Python integers are
  \<open>int\<close>, bytes of the 8-bit formats \<open>8 word\<close>, floats of the sampler elements of a linearly ordered field
  and float32 products a parameter.  An operation that raises is \<open>Inl\<close> of the exception; one that may
  not return has an \<open>option\<close> around its result.  Iteration over a Python \<open>set\<close> occurs only where the
  order does not matter.

  \<^bold>\<open>Theories and code.\<close>
  \<^item> \<open>Blocks\<close>, \<open>Coordinator\<close>: \<open>runtime/blocks.py\<close>.  KV block pool, state slot pool, and
    \<open>HybridKVCoordinator\<close> over both.  The locales \<open>owned_pool\<close> (ids taken and given back, each with one
    owner) and \<open>sequence_store\<close> state what the coordinator and the scheduler rely on; both are
    interpreted on the model.
  \<^item> \<open>Scheduler\<close>: \<open>runtime/scheduler.py\<close>.  \<open>add\<close>, \<open>pump\<close>, \<open>schedule\<close>, \<open>advance\<close>, \<open>abort\<close>, \<open>step\<close>; runs are the
    inductive relation \<open>sched_move\<close>.
  \<^item> \<open>Sampler\<close>: \<open>runtime/sampler.py\<close>, over exact numbers with \<open>argsort\<close>, \<open>exp\<close> and the generator as parameters.
  \<^item> \<open>Generate\<close>: \<open>generate\<close> and \<open>generate_stream\<close> of \<open>serving/executor.py\<close>; the model behind them is the
    record \<open>lm\<close> (\<open>prefill\<close>, \<open>decode_step\<close>, \<open>logits\<close>).
  \<^item> \<open>Tensor\<close>, \<open>Layers\<close>: rows, norms, rotary embedding and attention of \<open>ref/qwen3_5.py\<close>; cache, layer loops
    and the contract \<open>one_more\<close> between prefill and decoding of \<open>ref/incremental.py\<close>.
  \<^item> \<open>Standard\<close>: \<open>ref/standard.py\<close> and the standard path of \<open>ref/incremental.py\<close>.  \<open>DeltaRule\<close>, \<open>Hybrid\<close>: the gated
    delta rule and the causal convolution, linear and full layers of \<open>ref/qwen3_5.py\<close>, \<open>model_forward\<close> of
    \<open>ref/pipeline.py\<close> and the hybrid path of \<open>ref/incremental.py\<close>.  \<open>standard_lm\<close> and \<open>hybrid_lm\<close> are what
    \<open>ReferenceModel\<close> hands to the loops.
  \<^item> \<open>NgramPle\<close>: the n-gram embedding of the Qwen4 family, \<open>ref/qwen4_exp_ple.py\<close>, with \<open>_ple_forward\<close> of
    \<open>ref/qwen4_exp_pipeline.py\<close>: hashes on 64-bit words, primes, table layout, dilated convolution.
  \<^item> \<open>BatchEngine\<close>, \<open>BatchCorrect\<close>, \<open>Sinks\<close>: \<open>BatchedInferenceEngine\<close> and \<open>generate_batch\<close>; a batch against
    the runs one by one; what a sink sees.
  \<^item> \<open>Serving\<close>: \<open>serving/batched_server.py\<close>.  The threads are atomic steps of one state (\<open>serve\<close>); the
    interleavings are the inductive relation \<open>reached\<close>.
  \<^item> \<open>SpecDecode\<close>: the three draft-and-verify loops and the greedy loop they are compared with.
  \<^item> \<open>ImageProc\<close>: \<open>serving/image_processor.py\<close>.
  \<^item> \<open>ChatRender\<close>, \<open>ChatEncode\<close>, \<open>ChatParse\<close>: \<open>serving/encoding_dsv4.py\<close>, rendering of messages, preprocessing
    of a conversation, parsing of a completion; \<open>ChatHistory\<close> and \<open>ChatRoundtrip\<close> hold their theorems.
  \<^item> \<open>Bpe\<close>, \<open>Tokenizer\<close>: \<open>serving/bpe.py\<close>, \<open>serving/tokenizer.py\<close>.
  \<^item> \<open>Facade\<close>: the class \<open>InferenceEngine\<close>, which joins generation, tokenizer, conversations and images.
  \<^item> \<open>HttpServer\<close>, \<open>HttpStream\<close>: \<open>serving/server.py\<close>, from the headers and bytes of a request to those of its
    answer; the locale \<open>http_streaming\<close> is what streaming needs of an engine, interpreted for \<open>Facade\<close>.
  \<^item> \<open>Fp8\<close>: \<open>loaders/fp8.py\<close>.  \<open>Safetensors\<close>, \<open>Weights\<close>: \<open>loaders/safetensors_reader.py\<close>, \<open>loaders/weights.py\<close>;
    the locale \<open>scale_naming\<close> is what both loaders need of the names of scales.
  \<^item> \<open>ShardPlan\<close>, \<open>TpShard\<close>, \<open>TpHeads\<close>, \<open>ShardDequant\<close>, \<open>DsShard\<close>: \<open>loaders/tp_shard.py\<close>, plans from tensor
    names, slices and reassembly, the heads a rank holds, slices of quantised tensors, and the second
    class; the locale \<open>shard_class\<close> is their common interface, interpreted for both classes.
  \<^item> \<open>RankTable\<close>: \<open>LazyWeightTable\<close> of \<open>loaders/streaming.py\<close> and \<open>tp/rank_table.py\<close>.
  \<^item> \<open>Placement\<close>, \<open>KvStores\<close>: \<open>runtime/memory_planner.py\<close>, \<open>runtime/placement.py\<close> and the device buffers of
    \<open>kernels/_sllm_cuda.py\<close>; the locale \<open>kv_store\<close> is the map both stores implement.
  \<^item> \<open>EnvConfig\<close>, \<open>Collectives\<close>: \<open>env_config.py\<close> with \<open>tp/topology.py\<close>, and \<open>tp/collectives.py\<close>.
  \<^item> \<open>Recipe\<close>: \<open>recipes/schema.py\<close>.

  \<^bold>\<open>What the theorems show.\<close>
  \<^item> Resources: in every reachable state blocks and slots have one owner, refusals change nothing,
    running requests are covered for their worst case, admission is work-conserving, prefill chunks
    are contiguous (\<open>Coordinator\<close>, \<open>Scheduler\<close>); reservations fit the planned budget and both KV
    stores implement one map of float32 elements, the device, as long as it frees what it is asked to
    free, without leaking a buffer (\<open>Placement\<close>, \<open>KvStores\<close>).
  \<^item> Generation: every token of \<open>generate\<close> is drawn from the logits of its context, and the finish reason
    says why it ended; incremental against recomputing, streaming against generating, batches against
    single runs, speculative against greedy decoding; a token drawn above zero is one the filters
    leave, the most probable ones (\<open>Generate\<close>, \<open>BatchCorrect\<close>, \<open>SpecDecode\<close>, \<open>Sampler\<close>).
  \<^item> Models: the chunked delta rule is the recurrent one (\<open>DeltaRule\<close>); for both families decoding from the
    cache is prefilling the longer prompt, so cached generation is generation by recomputing
    (\<open>Standard\<close>, \<open>Hybrid\<close>); n-gram ids never overflow and index the table, and the embedding layer
    may be fed in chunks (\<open>NgramPle\<close>).  The laws used of \<open>exp\<close> and powers hold of the reals (\<open>real_math_laws\<close>).
  \<^item> Serving: slots are accounted for in every interleaving, no request is lost, each sink is closed
    once, the constructor fails exactly on an unreadable integer of the environment, admitted requests
    fit (\<open>Serving\<close>, \<open>Sinks\<close>); answers are framed unless the length is negative, the engine sees valid
    requests only, and an event stream carries the finish reason of the plain answer and, where
    decoding one more token only appends, its text (\<open>HttpServer\<close>, \<open>HttpStream\<close>, \<open>Facade\<close>).
  \<^item> Texts: the completion parser undoes the renderer, encoding onto a prefix appends where no reasoning
    is dropped, one placeholder
    per image, image blocks are laid out and bounded, resizing ends, sources are guarded; the BPE
    merge loop computes its normal form, and both tokenizers decode what they encode.
  \<^item> Weights: file format round trip, errors of loading, block dequantisation against its reference
    loop, a rank holds exactly its own heads, shards reassemble, a rank decodes its slice of the decoded
    tensor (float32 scales, blocks of 128), inline loading of a file whose tensors can be read is batch
    loading, experts are partitioned; the simulated all-reduce does not
    depend on the order of arrival.
  \<^item> Recipes: what an accepted document guarantees.

  \<^bold>\<open>Behaviour the code does not intend\<close> is stated as lemmas beside the component: \<open>stream_may_lose_text\<close>,
  \<open>release_race\<close>, \<open>timeout_bypasses_admission\<close>, \<open>spec_decode_emits_stop_id\<close>, \<open>mtp_loop_stuck\<close>,
  \<open>sample_zero_draw_escapes_filters\<close>, \<open>tool_result_text_forges_placeholder\<close>, \<open>fallback_not_decoded\<close>,
  \<open>stuck_never_returns\<close>, \<open>dsv4_tool_loop_raises\<close>, \<open>tool_message_has_no_role\<close>, \<open>no_placeholder_no_vision\<close>,
  \<open>one_row_taken_for_fp4\<close>, \<open>replicated_scale_not_reassembled\<close>, \<open>replicated_scale_doubled\<close>,
  \<open>newline_name_planned\<close>, \<open>default_block_refuses\<close>, \<open>utilization_unchecked\<close>, \<open>device_gather_is_flat\<close>,
  \<open>split_pair_stays_raw\<close>, \<open>malformed_entry_escapes\<close>, \<open>model_id_newline\<close>, \<open>vision_float_unchecked\<close>,
  \<open>zero_rotary_falls_back\<close>, \<open>single_tap_cannot_decode\<close>, \<open>negative_length_keeps_open\<close>,
  \<open>single_tap_state_grows\<close>, \<open>accepted_shape_refused\<close>, \<open>failed_free_keeps_reservation\<close>, \<open>minimal_recipe\<close>,
  \<open>dropped_reasoning_rewrites_prefix\<close>, \<open>replaced_character_lost\<close>,
  \<open>infinite_length_is_internal_error\<close>, \<open>other_message_is_internal_error\<close>, \<open>unencodable_answer_escapes\<close>.

  \<^bold>\<open>Bounds and fuel.\<close>  The counters of the generation loops and of the tool loop are what is left of
  \<open>range(max_new)\<close> and of \<open>max_turns\<close>, so they are the bounds of the code.  \<open>run_all\<close> has the step limit of
  the code, which is proved to be enough.  \<open>generate_greedy_mtp\<close>, \<open>safe_resize\<close>, the vision paths above it
  and \<open>Tokenizer.encode\<close> are \<open>partial_function (option)\<close>: that they return is a theorem where it holds
  (\<open>qwen4_spec_is_greedy\<close>, \<open>safe_resize_terminates\<close>, \<open>tokenizer_roundtrip\<close>).  All other loops are total functions.

  \<^bold>\<open>Idealisations of the models.\<close>  Tensors are lists of rows over an ordered field, without rounding; the
  batch axis, of length one, is left out; the functions of numpy are the record \<open>mathlib\<close>.  The
  examples are models of width one and two over the rationals, where \<open>toy_math\<close> and \<open>flat_math\<close> stand in
  for those functions.  A generator without a seed starts from one fixed entropy, which the model leaves
  open: equalities between runs of requests without a seed are for the same entropy.  Numbers are never
  NaN or infinite outside the 8-bit formats, so neither is a temperature, which \<open>float\<close> in \<open>server.py\<close> can
  make so.  The steps of \<open>reached\<close> are atomic, also where the code tests and sets in two steps
  (\<open>release_race\<close>).

  \<^bold>\<open>Parameters.\<close>  Code outside the repository enters as arguments: numpy sorting, exponential and random
  generator (\<open>numpy\<close>), rounding of float products (\<open>fpu\<close>, \<open>planner_fpu\<close>, \<open>fp_env\<close>), \<open>json.loads\<close> and \<open>repr\<close>
  (\<open>pylib\<close>, \<open>json_lib\<close>, \<open>http_lib\<close>), the outcomes of CUDA calls (\<open>driver\<close>), \<open>int\<close>, \<open>str\<close> and floats of a recipe (\<open>py_lib\<close>), Pillow and fetching of bytes, the
  compiled pre-tokenisation pattern, the jinja2 template, the bytes behind an HTTP range.  Witnesses
  instantiate each of them.

  \<^bold>\<open>Not modelled.\<close>  The other forward passes under \<open>ref/\<close> (\<open>deepseek_v4.py\<close>, \<open>qwen4_exp.py\<close>, \<open>mtp.py\<close>,
  \<open>vision_deepseek.py\<close>) and the CUDA counterparts of all under \<open>kernels/\<close> (the loops take them as the
  record \<open>lm\<close>), the choice \<open>ReferenceModel\<close> makes among devices, sockets and the parsing of headers, command line, logging and summaries
  (\<open>serving/main.py\<close>, \<open>cli.py\<close>, \<open>diag.py\<close>, \<open>engine_cards.py\<close>, \<open>dev_model.py\<close>, \<open>serve_standard.py\<close>), the memory
  mapping of \<open>ShardFile\<close> and the directory scan of \<open>CheckpointIndex\<close>, \<open>NcclCollectives\<close> (it only raises),
  the vendored sources under \<open>ref/hf_sources\<close> and \<open>oracle/upstream\<close>, tests and benchmarks.
\<close>

end
